(* ===== verification/Prelude.thy ===== *)
theory Prelude
  imports Main "HOL-Library.Word" "HOL-Library.Multiset"
begin

text \<open>
  Shared vocabulary of the development: the machine-integer types of the C++ sources, the
  collections of rewrite rules that the component theories extend, and the generic facts about
  masks, packed bit fields, cyclic indices, association lists and option values that several
  components use. Nothing in this theory models a particular source file.
\<close>

unbundle bit_operations_syntax

type_synonym u8 = "8 word"
type_synonym u16 = "16 word"
type_synonym u32 = "32 word"
type_synonym u64 = "64 word"

named_theorems mask_simps \<open>masking and bit-field extraction rewritten to arithmetic on nat\<close>
named_theorems layout_defs \<open>constants that describe a packed word\<close>
named_theorems inv_defs \<open>unfolding of component invariants\<close>

subsection \<open>Masks and bit fields\<close>

lemma unat_take_bit_word: "unat (take_bit n (w :: 'a::len word)) = unat w mod 2 ^ n"
  by (metis take_bit_eq_mod unsigned_take_bit_eq)

lemma unat_and_mask [mask_simps]: "unat (w AND mask n) = unat (w :: 'a::len word) mod 2 ^ n"
  by (simp add: unat_take_bit_word flip: take_bit_eq_mask)

lemma unat_drop_bit_div [mask_simps]: "unat (drop_bit n (w :: 'a::len word)) = unat w div 2 ^ n"
  by (simp only: unat_drop_bit_eq) (simp add: drop_bit_eq_div)

lemma bit_imp_lt_length: "bit (w :: 'a::len word) n \<Longrightarrow> n < LENGTH('a)"
  by (rule bit_imp_le_length)

text \<open>Extracting a field: masking in place and shifting down.\<close>

lemma field_extract:
  "drop_bit m (w AND push_bit m (mask k)) = take_bit k (drop_bit m (w :: 'a::len word))"
  by (rule bit_word_eqI) (auto simp: bit_simps dest: bit_imp_lt_length)

lemma unat_field [mask_simps]:
  "unat (drop_bit m (w AND push_bit m (mask k))) = unat (w :: 'a::len word) div 2 ^ m mod 2 ^ k"
  by (simp only: field_extract unat_take_bit_word unat_drop_bit_div)

lemma xor_mask_eq_0: "(x XOR y) AND m = 0 \<longleftrightarrow> x AND m = y AND (m :: 'a::len word)"
  by (auto simp: bit_eq_iff bit_simps)

text \<open>Masking the sum of a position and an offset, when the mask width divides the word.\<close>

lemma unat_add_mod_pow2:
  fixes w v :: "'a::len word"
  assumes "k \<le> LENGTH('a)"
  shows "unat (w + v) mod 2 ^ k = (unat w + unat v) mod 2 ^ k"
  using assms by (simp add: unat_word_ariths mod_mod_cancel le_imp_power_dvd)

lemma unat_of_nat_mod_pow2:
  assumes "k \<le> LENGTH('a::len)"
  shows "unat (of_nat n :: 'a word) mod 2 ^ k = n mod 2 ^ k"
  using assms by (simp add: unat_of_nat mod_mod_cancel le_imp_power_dvd)

lemma unat_add_of_nat_and_mask:
  fixes w :: "'a::len word"
  assumes "k \<le> LENGTH('a)"
  shows "unat ((w + of_nat i) AND mask k) = (unat w + i) mod 2 ^ k"
proof -
  have "unat ((w + of_nat i) AND mask k) = (unat w + unat (of_nat i :: 'a word)) mod 2 ^ k"
    using assms by (simp add: unat_and_mask unat_add_mod_pow2)
  also have "\<dots> = (unat w + i) mod 2 ^ k"
    using assms by (metis mod_add_right_eq unat_of_nat_mod_pow2)
  finally show ?thesis .
qed

lemma of_nat_inj_small:
  assumes "i < 2 ^ LENGTH('a::len)" "j < 2 ^ LENGTH('a)"
  shows "(of_nat i :: 'a word) = of_nat j \<longleftrightarrow> i = j"
  proof
  assume "(of_nat i :: 'a word) = of_nat j"
  then have "unat (of_nat i :: 'a word) = unat (of_nat j :: 'a word)" by simp
  with assms show "i = j" by (simp add: unat_of_nat)
qed simp

lemma unat_lt2p: "unat (w :: 'a::len word) < 2 ^ LENGTH('a)"
  by (rule unsigned_less)

lemma word_unat_inverse: "of_nat (unat (w :: 'a::len word)) = w"
  by simp

lemma unat_Suc_word: "w \<noteq> - 1 \<Longrightarrow> unat (w + 1) = Suc (unat w)"
  by (metis add.commute eq_neg_iff_add_eq_0 unatSuc)

lemma unat_inc_u32: "unat x + 1 < 2 ^ 32 \<Longrightarrow> unat (x + 1) = unat x + 1" for x :: u32
proof -
  assume "unat x + 1 < 2 ^ 32"
  moreover have "unat (- 1 :: u32) = 2 ^ 32 - 1" by (simp add: unsigned_minus_1_eq_mask mask_eq_exp_minus_1)
  ultimately have "x \<noteq> - 1" by auto
  then show ?thesis by (simp add: unat_Suc_word)
qed

lemma unat_dec_u32: "x \<noteq> 0 \<Longrightarrow> unat (x - 1) = unat x - 1" for x :: u32
  by (metis unat_minus_one)

lemma unat_eq_1: "unat x = 1 \<longleftrightarrow> x = 1" for x :: u32
  by (metis unat_1 unsigned_word_eqI)

lemma uint_less_Suc_word:
  assumes "w \<noteq> - 1"
  shows "uint w < uint (w + 1)"
proof -
  have "w < w + 1" using unat_Suc_word [OF assms] by (simp add: word_less_nat_alt)
  then show ?thesis by (simp add: word_less_def)
qed

lemma nat_bit_small: "k < 2 ^ m \<Longrightarrow> m \<le> n \<Longrightarrow> \<not> bit (k :: nat) n"
proof -
  assume "k < 2 ^ m" "m \<le> n"
  then have "k < 2 ^ n" by (meson less_le_trans one_le_numeral power_increasing)
  then show "\<not> bit k n" by (simp add: bit_iff_odd)
qed

subsection \<open>Cyclic indices\<close>

lemma add_mod_inj:
  fixes a :: nat
  assumes "(a + i) mod m = (a + j) mod m" "i < m" "j < m"
  shows "i = j"
proof -
  have "i mod m = j mod m"
    using assms(1) by (simp add: nat_mod_eq_iff)
  then show ?thesis using assms(2,3) by simp
qed

lemma add_mod_eq_iff:
  fixes a :: nat
  assumes "i < m" "j < m"
  shows "(a + i) mod m = (a + j) mod m \<longleftrightarrow> i = j"
  using add_mod_inj [of a i m j] assms by auto

text \<open>Recovering a distance from two cyclic cursors.\<close>

lemma cyclic_distance:
  fixes b :: nat
  assumes "f mod m = (b + n) mod m" "n < m"
  shows "(f + (m - b mod m)) mod m = n"
proof -
  have "b mod m < m" using assms(2) by simp
  moreover have "m * (b div m) + b mod m = b" by simp
  ultimately have "b + (m - b mod m) = m * (b div m) + m" by linarith
  then have "b + (m - b mod m) = m * (b div m + 1)" by simp
  then have "b + n + (m - b mod m) = n + m * (b div m + 1)" by simp
  moreover have "(f + (m - b mod m)) mod m = (b + n + (m - b mod m)) mod m"
    by (rule mod_add_cong [OF assms(1) refl])
  ultimately have "(f + (m - b mod m)) mod m = (n + m * (b div m + 1)) mod m" by (simp only:)
  also have "\<dots> = n mod m" by (rule mod_mult_self2)
  finally show ?thesis using assms(2) by simp
qed

text \<open>Small integers survive the conversion to a signed 32-bit value.\<close>

lemma sint_small:
  assumes "- (2 ^ 31) \<le> x" "x < 2 ^ 31"
  shows "sint (word_of_int x :: u32) = x"
  using assms by (simp add: int_word_sint mod_pos_pos_trivial)

lemma sint_diff_small:
  fixes x y :: u32
  assumes "uint x < 2 ^ 31" "uint y < 2 ^ 31"
  shows "sint (x - y) = uint x - uint y"
proof -
  have "x - y = word_of_int (uint x - uint y)" by simp
  moreover have "- (2 ^ 31) \<le> uint x - uint y" "uint x - uint y < 2 ^ 31"
    using assms uint_ge_0 [of x] uint_ge_0 [of y] by linarith+
  ultimately show ?thesis by (simp only: sint_small)
qed

subsection \<open>Counting list elements\<close>

lemma distinct_count_list: "(\<And>v. count_list xs v \<le> 1) \<Longrightarrow> distinct xs"
proof (induction xs)
  case (Cons x xs)
  have "count_list xs v \<le> 1" for v using Cons.prems [of v] by (simp split: if_splits)
  moreover have "count_list xs x = 0" using Cons.prems [of x] by simp
  ultimately show ?case using Cons.IH by (simp add: count_list_0_iff)
qed simp

lemma length_filter_update:
  assumes "i < length xs"
  shows "length (filter P (xs[i := y])) + of_bool (P (xs ! i)) = length (filter P xs) + of_bool (P y)"
proof -
  have "length (filter P xs) = length (filter P (take i xs)) + of_bool (P (xs ! i)) + length (filter P (drop (Suc i) xs))"
    by (subst id_take_nth_drop [OF assms]) simp
  moreover have "length (filter P (xs[i := y])) = length (filter P (take i xs)) + of_bool (P y) + length (filter P (drop (Suc i) xs))"
    using assms by (simp add: upd_conv_take_nth_drop)
  ultimately show ?thesis by simp
qed

lemma sum_list_map_update:
  fixes f :: "'a \<Rightarrow> 'b::comm_monoid_add"
  assumes "i < length xs"
  shows "sum_list (map f (xs[i := y])) + f (xs ! i) = sum_list (map f xs) + f y"
proof -
  have "sum_list (map f xs) = sum_list (map f (take i xs)) + f (xs ! i) + sum_list (map f (drop (Suc i) xs))"
    by (subst id_take_nth_drop [OF assms]) (simp add: add.assoc)
  moreover have "sum_list (map f (xs[i := y])) = sum_list (map f (take i xs)) + f y + sum_list (map f (drop (Suc i) xs))"
    using assms by (simp add: upd_conv_take_nth_drop add.assoc)
  ultimately show ?thesis by (simp add: ac_simps)
qed

end
