(* ===== verification/Queue_Interfaces.thy ===== *)
theory Queue_Interfaces
  imports Prelude
begin

text \<open>
  What the thread pools rely on of their per-thread queues, as list specifications and locales.
  A push answers with the optional task that was refused (\<open>None\<close>: accepted), a pop with the
  optional task that was taken, exactly as the C++ interfaces do. A call of type \<open>_ option\<close> may
  fail to return.

  \<^item> \<open>bounded_fifo\<close>: the contract of TaskQueue (PushFront, PopBack).
  \<^item> \<open>bounded_deque\<close>: the contract of TaskDeque (both ends).
  Each locale proves once that any sequence of calls on the implementation answers as the list
  specification does. The list holds the oldest element of the back end first.
\<close>

subsection \<open>List specifications\<close>

definition fifo_push :: "nat \<Rightarrow> 'a list \<Rightarrow> 'a \<Rightarrow> 'a option \<times> 'a list" where
  "fifo_push cap xs x = (if length xs < cap then (None, xs @ [x]) else (Some x, xs))"

definition fifo_pop :: "'a list \<Rightarrow> 'a option \<times> 'a list" where
  "fifo_pop xs = (case xs of [] \<Rightarrow> (None, []) | y # ys \<Rightarrow> (Some y, ys))"

definition lifo_pop :: "'a list \<Rightarrow> 'a option \<times> 'a list" where
  "lifo_pop xs = (if xs = [] then (None, []) else (Some (last xs), butlast xs))"

definition back_push :: "nat \<Rightarrow> 'a list \<Rightarrow> 'a \<Rightarrow> 'a option \<times> 'a list" where
  "back_push cap xs x = (if length xs < cap then (None, x # xs) else (Some x, xs))"

datatype 'a queue_call = CallPushFront 'a | CallPopFront | CallPushBack 'a | CallPopBack

fun list_call :: "nat \<Rightarrow> 'a list \<Rightarrow> 'a queue_call \<Rightarrow> 'a option \<times> 'a list" where
  "list_call cap xs (CallPushFront x) = fifo_push cap xs x"
| "list_call cap xs CallPopFront = lifo_pop xs"
| "list_call cap xs (CallPushBack x) = back_push cap xs x"
| "list_call cap xs CallPopBack = fifo_pop xs"

fun list_run :: "nat \<Rightarrow> 'a list \<Rightarrow> 'a queue_call list \<Rightarrow> 'a option list \<times> 'a list" where
  "list_run cap xs [] = ([], xs)"
| "list_run cap xs (c # cs) =
     (let (r, ys) = list_call cap xs c; (rs, zs) = list_run cap ys cs in (r # rs, zs))"

text \<open>The same sequence of calls on an implementation given by its one-call function.\<close>

fun impl_run ::
  "('q \<Rightarrow> 'a queue_call \<Rightarrow> ('a option \<times> 'q) option) \<Rightarrow> 'q \<Rightarrow> 'a queue_call list
     \<Rightarrow> ('a option list \<times> 'q) option" where
  "impl_run call q [] = Some ([], q)"
| "impl_run call q (c # cs) =
     (case call q c of None \<Rightarrow> None
      | Some (r, q1) \<Rightarrow> map_option (\<lambda>(rs, q2). (r # rs, q2)) (impl_run call q1 cs))"

lemma impl_run_append:
  "impl_run call q (cs @ ds) =
     (case impl_run call q cs of None \<Rightarrow> None
      | Some (rs, q1) \<Rightarrow> map_option (\<lambda>(ss, q2). (rs @ ss, q2)) (impl_run call q1 ds))"
proof (induction cs arbitrary: q)
  case Nil
  show ?case by (cases "impl_run call q ds") auto
next
  case (Cons c cs)
  then show ?case
    by (auto simp: option.map_comp comp_def case_prod_unfold split: option.splits)
qed

fun fifo_call :: "'a queue_call \<Rightarrow> bool" where
  "fifo_call (CallPushFront x) = True"
| "fifo_call CallPopBack = True"
| "fifo_call _ = False"

lemma fifo_pop_nonempty: "xs \<noteq> [] \<Longrightarrow> fifo_pop xs = (Some (hd xs), tl xs)"
  by (simp add: fifo_pop_def split: list.splits)

lemma fifo_push_length: "length xs \<le> cap \<Longrightarrow> length (snd (fifo_push cap xs x)) \<le> cap"
  by (simp add: fifo_push_def)

lemma list_call_length: "length xs \<le> cap \<Longrightarrow> length (snd (list_call cap xs c)) \<le> cap"
  by (cases c) (auto simp: fifo_push_def lifo_pop_def back_push_def fifo_pop_def split: list.splits)

text \<open>Nothing is lost and nothing invented by one call of the list specification.\<close>

fun call_input :: "'a queue_call \<Rightarrow> 'a multiset" where
  "call_input (CallPushFront x) = {#x#}"
| "call_input (CallPushBack x) = {#x#}"
| "call_input _ = {#}"

definition answer_mset :: "'a option \<Rightarrow> 'a multiset" where
  "answer_mset r = (case r of None \<Rightarrow> {#} | Some x \<Rightarrow> {#x#})"

lemma answer_mset_simps [simp]: "answer_mset None = {#}" "answer_mset (Some x) = {#x#}"
  by (simp_all add: answer_mset_def)

lemma list_call_conserves:
  "list_call cap xs c = (r, ys) \<Longrightarrow> mset xs + call_input c = answer_mset r + mset ys"
proof (cases c)
  case CallPopFront
  moreover assume "list_call cap xs c = (r, ys)"
  moreover have "xs \<noteq> [] \<Longrightarrow> mset xs = {#last xs#} + mset (butlast xs)"
    by (metis append_butlast_last_id mset.simps(1,2) mset_append union_commute add_mset_add_single)
  ultimately show ?thesis by (auto simp: lifo_pop_def split: if_splits)
qed (auto simp: fifo_push_def back_push_def fifo_pop_def split: if_splits list.splits)

lemma list_run_conserves:
  "list_run cap xs cs = (rs, ys) \<Longrightarrow>
     mset xs + sum_list (map call_input cs) = sum_list (map answer_mset rs) + mset ys"
proof (induction cs arbitrary: xs rs ys)
  case (Cons c cs)
  obtain r zs where call: "list_call cap xs c = (r, zs)" by fastforce
  obtain rs' where run: "list_run cap zs cs = (rs', ys)" and rs: "rs = r # rs'"
    using Cons.prems call by (auto split: prod.splits)
  show ?case
    using list_call_conserves [OF call] Cons.IH [OF run] rs
    by (simp add: ac_simps) (metis (no_types, lifting) add.assoc add.commute)
qed simp

subsection \<open>Interface locales\<close>

text \<open>
  The FIFO contract. The sequence numbers of the implementation are finite, so the contract holds
  while \<open>fuel\<close> is positive; a push uses up at most one unit and a pop none.
\<close>

locale bounded_fifo =
  fixes invar :: "'q \<Rightarrow> bool"
    and abs :: "'q \<Rightarrow> 'a list"
    and cap :: nat
    and fuel :: "'q \<Rightarrow> nat"
    and call :: "'q \<Rightarrow> 'a queue_call \<Rightarrow> ('a option \<times> 'q) option"
  assumes call_refines:
    "\<lbrakk>invar q; 0 < fuel q; fifo_call c\<rbrakk> \<Longrightarrow>
       \<exists>r q1. call q c = Some (r, q1) \<and> list_call cap (abs q) c = (r, abs q1) \<and> invar q1 \<and>
              fuel q \<le> Suc (fuel q1)"
begin

lemma run_refines:
  assumes "invar q" "length cs \<le> fuel q" "\<forall>c\<in>set cs. fifo_call c"
  shows "\<exists>rs q1. impl_run call q cs = Some (rs, q1) \<and> list_run cap (abs q) cs = (rs, abs q1) \<and> invar q1"
  using assms
proof (induction cs arbitrary: q)
  case (Cons c cs)
  obtain r q1 where c: "call q c = Some (r, q1)" "list_call cap (abs q) c = (r, abs q1)"
      "invar q1" "fuel q \<le> Suc (fuel q1)"
    using call_refines [of q c] Cons.prems by auto
  then obtain rs q2 where "impl_run call q1 cs = Some (rs, q2)"
      "list_run cap (abs q1) cs = (rs, abs q2)" "invar q2"
    using Cons.IH [of q1] Cons.prems by auto
  with c show ?case by auto
qed auto

end

text \<open>The deque contract: every call returns, with no bound on the number of calls.\<close>

locale bounded_deque =
  fixes invar :: "'q \<Rightarrow> bool"
    and abs :: "'q \<Rightarrow> 'a list"
    and cap :: nat
    and call :: "'q \<Rightarrow> 'a queue_call \<Rightarrow> ('a option \<times> 'q) option"
  assumes call_refines:
    "invar q \<Longrightarrow> \<exists>r q1. call q c = Some (r, q1) \<and> list_call cap (abs q) c = (r, abs q1) \<and> invar q1"
begin

text \<open>A deque meets the FIFO contract with any supply of fuel.\<close>

sublocale as_fifo: bounded_fifo invar abs cap "\<lambda>_. 1" call
  by unfold_locales (use call_refines in fastforce)

lemma run_refines:
  assumes "invar q"
  shows "\<exists>rs q1. impl_run call q cs = Some (rs, q1) \<and> list_run cap (abs q) cs = (rs, abs q1) \<and> invar q1"
  using assms
proof (induction cs arbitrary: q)
  case (Cons c cs)
  obtain r q1 where c: "call q c = Some (r, q1)" "list_call cap (abs q) c = (r, abs q1)" "invar q1"
    using call_refines [of q c] Cons.prems by auto
  then obtain rs q2 where "impl_run call q1 cs = Some (rs, q2)"
      "list_run cap (abs q1) cs = (rs, abs q2)" "invar q2"
    using Cons.IH [of q1] by auto
  with c show ?case by auto
qed auto

lemma run_conserves:
  assumes "invar q" "impl_run call q cs = Some (rs, q1)"
  shows "mset (abs q) + sum_list (map call_input cs) = sum_list (map answer_mset rs) + mset (abs q1)"
  using run_refines [OF assms(1), of cs] assms(2) list_run_conserves by fastforce

end

subsection \<open>Deques with priorities\<close>

text \<open>
  The specification of a deque with one bounded list per priority: a pop goes to the first
  non-empty list in the order \<open>prios\<close>.
\<close>

datatype ('p, 'a) prio_call = PrioPushFront 'p 'a | PrioPopFront | PrioPushBack 'p 'a | PrioPopBack

fun prio_spec :: "nat \<Rightarrow> 'p list \<Rightarrow> ('p \<Rightarrow> 'a list) \<Rightarrow> ('p, 'a) prio_call \<Rightarrow> 'a option \<times> ('p \<Rightarrow> 'a list)" where
  "prio_spec cap prios c (PrioPushFront p x) = (let (r, xs) = fifo_push cap (c p) x in (r, c(p := xs)))"
| "prio_spec cap prios c (PrioPushBack p x) = (let (r, xs) = back_push cap (c p) x in (r, c(p := xs)))"
| "prio_spec cap prios c PrioPopFront =
     (case List.find (\<lambda>p. c p \<noteq> []) prios of None \<Rightarrow> (None, c)
      | Some p \<Rightarrow> (Some (last (c p)), c(p := butlast (c p))))"
| "prio_spec cap prios c PrioPopBack =
     (case List.find (\<lambda>p. c p \<noteq> []) prios of None \<Rightarrow> (None, c)
      | Some p \<Rightarrow> (Some (hd (c p)), c(p := tl (c p))))"

fun prio_run :: "nat \<Rightarrow> 'p list \<Rightarrow> ('p \<Rightarrow> 'a list) \<Rightarrow> ('p, 'a) prio_call list \<Rightarrow> 'a option list \<times> ('p \<Rightarrow> 'a list)" where
  "prio_run cap prios c [] = ([], c)"
| "prio_run cap prios c (k # ks) =
     (let (r, d) = prio_spec cap prios c k; (rs, e) = prio_run cap prios d ks in (r # rs, e))"

fun prio_impl_run ::
  "('q \<Rightarrow> ('p, 'a) prio_call \<Rightarrow> ('a option \<times> 'q) option) \<Rightarrow> 'q \<Rightarrow> ('p, 'a) prio_call list \<Rightarrow> ('a option list \<times> 'q) option" where
  "prio_impl_run call q [] = Some ([], q)"
| "prio_impl_run call q (k # ks) =
     (case call q k of None \<Rightarrow> None
      | Some (r, q1) \<Rightarrow> map_option (\<lambda>(rs, q2). (r # rs, q2)) (prio_impl_run call q1 ks))"

fun prio_input :: "('p, 'a) prio_call \<Rightarrow> 'a multiset" where
  "prio_input (PrioPushFront p x) = {#x#}"
| "prio_input (PrioPushBack p x) = {#x#}"
| "prio_input _ = {#}"

definition prio_mset :: "'p list \<Rightarrow> ('p \<Rightarrow> 'a list) \<Rightarrow> 'a multiset" where
  "prio_mset prios c = (\<Sum>p\<leftarrow>prios. mset (c p))"

lemma prio_mset_upd:
  assumes "distinct prios" "p \<in> set prios" "mset (c p) + x = mset ys + y"
  shows "prio_mset prios c + x = prio_mset prios (c(p := ys)) + y"
proof -
  obtain as bs where ps: "prios = as @ p # bs" "p \<notin> set as" "p \<notin> set bs"
    using assms(1,2) by (metis distinct.simps(2) distinct_append in_set_conv_decomp_first not_distinct_conv_prefix split_list)
  have same: "(\<Sum>q\<leftarrow>rs. mset ((c(p := ys)) q)) = (\<Sum>q\<leftarrow>rs. mset (c q))" if "p \<notin> set rs" for rs
    using that by (induction rs) auto
  have "prio_mset prios c + x = (\<Sum>q\<leftarrow>as. mset (c q)) + (\<Sum>q\<leftarrow>bs. mset (c q)) + (mset (c p) + x)"
    by (simp add: prio_mset_def ps(1) ac_simps)
  also have "\<dots> = (\<Sum>q\<leftarrow>as. mset (c q)) + (\<Sum>q\<leftarrow>bs. mset (c q)) + (mset ys + y)" by (simp only: assms(3))
  also have "\<dots> = prio_mset prios (c(p := ys)) + y"
    unfolding prio_mset_def ps(1) map_append list.map sum_list.append sum_list.Cons same [OF ps(2)] same [OF ps(3)]
    by (simp add: ac_simps)
  finally show ?thesis .
qed

text \<open>One call of the specification neither loses nor invents a task.\<close>

lemma prio_spec_conserves:
  assumes "distinct prios" "set prios = UNIV" "prio_spec cap prios c k = (r, d)"
  shows "prio_mset prios c + prio_input k = answer_mset r + prio_mset prios d"
proof (cases k)
  case (PrioPushFront p x)
  then show ?thesis
    using assms prio_mset_upd [OF assms(1), of p c "{#x#}" "c p @ [x]" "{#}"]
    by (auto simp: fifo_push_def ac_simps split: if_splits)
next
  case (PrioPushBack p x)
  then show ?thesis
    using assms prio_mset_upd [OF assms(1), of p c "{#x#}" "x # c p" "{#}"]
    by (auto simp: back_push_def ac_simps split: if_splits)
next
  case PrioPopFront
  show ?thesis
  proof (cases "List.find (\<lambda>p. c p \<noteq> []) prios")
    case None
    then show ?thesis using PrioPopFront assms(3) by simp
  next
    case (Some p)
    then have ne: "c p \<noteq> []" by (auto simp: find_Some_iff)
    then have "mset (c p) + {#} = mset (butlast (c p)) + {#last (c p)#}"
      by (metis add_0_right append_butlast_last_id mset.simps(1,2) mset_append)
    then have "prio_mset prios c + {#} = prio_mset prios (c(p := butlast (c p))) + {#last (c p)#}"
      using assms(2) by (intro prio_mset_upd [OF assms(1)]) auto
    then show ?thesis using PrioPopFront Some assms(3) by auto
  qed
next
  case PrioPopBack
  show ?thesis
  proof (cases "List.find (\<lambda>p. c p \<noteq> []) prios")
    case None
    then show ?thesis using PrioPopBack assms(3) by simp
  next
    case (Some p)
    then have ne: "c p \<noteq> []" by (auto simp: find_Some_iff)
    then have "mset (c p) + {#} = mset (tl (c p)) + {#hd (c p)#}"
      by (metis add_0_right add_mset_add_single list.collapse mset.simps(2))
    then have "prio_mset prios c + {#} = prio_mset prios (c(p := tl (c p))) + {#hd (c p)#}"
      using assms(2) by (intro prio_mset_upd [OF assms(1)]) auto
    then show ?thesis using PrioPopBack Some assms(3) by auto
  qed
qed

locale priority_deque =
  fixes invar :: "'q \<Rightarrow> bool"
    and abs :: "'q \<Rightarrow> 'p \<Rightarrow> 'a list"
    and cap :: nat
    and prios :: "'p list"
    and call :: "'q \<Rightarrow> ('p, 'a) prio_call \<Rightarrow> ('a option \<times> 'q) option"
  assumes prios_all: "distinct prios" "set prios = UNIV"
    and call_refines:
      "invar q \<Longrightarrow> \<exists>r q1. call q k = Some (r, q1) \<and> prio_spec cap prios (abs q) k = (r, abs q1) \<and> invar q1"
begin

lemma run_refines:
  assumes "invar q"
  shows "\<exists>rs q1. prio_impl_run call q ks = Some (rs, q1) \<and> prio_run cap prios (abs q) ks = (rs, abs q1) \<and> invar q1"
  using assms
proof (induction ks arbitrary: q)
  case (Cons k ks)
  obtain r q1 where c: "call q k = Some (r, q1)" "prio_spec cap prios (abs q) k = (r, abs q1)" "invar q1"
    using call_refines [of q k] Cons.prems by auto
  then obtain rs q2 where "prio_impl_run call q1 ks = Some (rs, q2)"
      "prio_run cap prios (abs q1) ks = (rs, abs q2)" "invar q2"
    using Cons.IH [of q1] by auto
  with c show ?case by auto
qed auto

lemma run_conserves:
  assumes "invar q" "prio_impl_run call q ks = Some (rs, q1)"
  shows "prio_mset prios (abs q) + sum_list (map prio_input ks) =
    sum_list (map answer_mset rs) + prio_mset prios (abs q1)"
  using assms
proof (induction ks arbitrary: q rs)
  case (Cons k ks)
  obtain r q2 where c: "call q k = Some (r, q2)" "prio_spec cap prios (abs q) k = (r, abs q2)" "invar q2"
    using call_refines [of q k] Cons.prems by auto
  then obtain rs' where rs: "rs = r # rs'" "prio_impl_run call q2 ks = Some (rs', q1)"
    using Cons.prems(2) by auto
  have "prio_mset prios (abs q) + (prio_input k + sum_list (map prio_input ks)) =
      answer_mset r + (prio_mset prios (abs q2) + sum_list (map prio_input ks))"
    using prio_spec_conserves [OF prios_all c(2)] by (simp add: add.assoc [symmetric])
  also have "\<dots> = answer_mset r + (sum_list (map answer_mset rs') + prio_mset prios (abs q1))"
    using Cons.IH [OF c(3) rs(2)] by simp
  finally show ?case by (simp add: rs(1) add.assoc)
qed simp

end

end
