(* ===== verification/Task_Queue.thy ===== *)
theory Task_Queue
  imports Queue_Interfaces
begin

text \<open>
  The bounded FIFO of \<^verbatim>\<open>src/async/concurrent/task_queue.h\<close> (class TaskQueue), used by the
  blocking work queue, and its twin \<^verbatim>\<open>src/async/coroutine/coroutine_task_queue.h\<close>.

  The two cursors and the per-element sequence numbers are 32-bit words that wrap around; the
  element array is a function from indices, and every access masks its index. The operations
  here are the calls executed without interference from other threads: a compare-exchange
  succeeds exactly when the expected value is the stored one. \<open>None\<close> is a call that does not
  return (it spins for ever, or a failed assert ends the program).
\<close>

subsection \<open>State\<close>

record 'a tq_elem =
  tqe_state :: u32
  tqe_task :: "'a option"

record 'a TaskQueue =
  tq_mFront :: u32
  tq_mBack :: u32
  tq_mArray :: "nat \<Rightarrow> 'a tq_elem"

definition tq_kCapacity :: u32 where
  "tq_kCapacity = 1024"

definition tq_kMask :: u32 where
  "tq_kMask = tq_kCapacity - 1"

definition tq_slot :: "u32 \<Rightarrow> nat" where
  "tq_slot pos = unat (pos AND tq_kMask)"

definition TaskQueue_new :: "'a TaskQueue" where
  "TaskQueue_new = \<lparr>tq_mFront = 0, tq_mBack = 0,
     tq_mArray = (\<lambda>i. \<lparr>tqe_state = of_nat i, tqe_task = None\<rparr>)\<rparr>"

subsection \<open>Operations\<close>

text \<open>
  The claim loop of PushFront: \<open>Some None\<close> is the early return on a full queue, \<open>Some (Some p)\<close>
  the break after the compare-exchange on the front cursor succeeded at position \<open>p\<close>.
\<close>

partial_function (option) tq_push_claim :: "'a TaskQueue \<Rightarrow> u32 \<Rightarrow> (u32 option \<times> 'a TaskQueue) option" where
  "tq_push_claim q front =
     (let state = tqe_state (tq_mArray q (tq_slot front));
          diff = uint state - uint front
      in if diff = 0 \<and> tq_mFront q = front then Some (Some front, q\<lparr>tq_mFront := front + 1\<rparr>)
         else if diff < 0 then Some (None, q)
         else tq_push_claim q (tq_mFront q))"

definition TaskQueue_PushFront :: "'a TaskQueue \<Rightarrow> 'a \<Rightarrow> ('a option \<times> 'a TaskQueue) option" where
  "TaskQueue_PushFront q task =
     (case tq_push_claim q (tq_mFront q) of
        None \<Rightarrow> None
      | Some (None, q1) \<Rightarrow> Some (Some task, q1)
      | Some (Some front, q1) \<Rightarrow>
          Some (None, q1\<lparr>tq_mArray := (tq_mArray q1)(tq_slot front :=
            \<lparr>tqe_state = front + 1, tqe_task = Some task\<rparr>)\<rparr>))"

partial_function (option) tq_pop_claim :: "'a TaskQueue \<Rightarrow> u32 \<Rightarrow> (u32 option \<times> 'a TaskQueue) option" where
  "tq_pop_claim q back =
     (let state = tqe_state (tq_mArray q (tq_slot back));
          diff = uint state - uint (back + 1)
      in if diff = 0 \<and> tq_mBack q = back then Some (Some back, q\<lparr>tq_mBack := back + 1\<rparr>)
         else if diff < 0 then Some (None, q)
         else tq_pop_claim q (tq_mBack q))"

definition TaskQueue_PopBack :: "'a TaskQueue \<Rightarrow> ('a option \<times> 'a TaskQueue) option" where
  "TaskQueue_PopBack q =
     (case tq_pop_claim q (tq_mBack q) of
        None \<Rightarrow> None
      | Some (None, q1) \<Rightarrow> Some (None, q1)
      | Some (Some back, q1) \<Rightarrow>
          Some (tqe_task (tq_mArray q1 (tq_slot back)),
                q1\<lparr>tq_mArray := (tq_mArray q1)(tq_slot back :=
                  \<lparr>tqe_state = back + tq_kCapacity, tqe_task = None\<rparr>)\<rparr>))"

text \<open>Size() takes a snapshot of both cursors and retries while the front cursor moves.\<close>

partial_function (option) tq_size_loop :: "'a TaskQueue \<Rightarrow> u32 \<Rightarrow> u32 option" where
  "tq_size_loop q front =
     (let back = tq_mBack q; front1 = tq_mFront q
      in if front \<noteq> front1 then tq_size_loop q front1
         else Some (min tq_kCapacity (front - back)))"

definition TaskQueue_Size :: "'a TaskQueue \<Rightarrow> u32 option" where
  "TaskQueue_Size q = tq_size_loop q (tq_mFront q)"

definition TaskQueue_Empty :: "'a TaskQueue \<Rightarrow> bool option" where
  "TaskQueue_Empty q = map_option (\<lambda>n. n = 0) (TaskQueue_Size q)"

partial_function (option) TaskQueue_Flush :: "'a TaskQueue \<Rightarrow> 'a TaskQueue option" where
  "TaskQueue_Flush q =
     Option.bind (TaskQueue_Empty q) (\<lambda>empty.
       if empty then Some q
       else Option.bind (TaskQueue_PopBack q) (\<lambda>(task, q1).
              case task of None \<Rightarrow> None | Some t \<Rightarrow> TaskQueue_Flush q1))"

subsection \<open>Invariant and abstraction\<close>

text \<open>
  Position \<open>back + i\<close> for \<open>i < 1024\<close> denotes the \<open>i\<close>-th slot from the back cursor. The first
  \<open>front - back\<close> of them hold a task and carry the position plus one; the others are free and
  carry the position of the push that will use them.
\<close>

definition tq_count :: "'a TaskQueue \<Rightarrow> nat" where
  "tq_count q = unat (tq_mFront q - tq_mBack q)"

definition tq_pos :: "'a TaskQueue \<Rightarrow> nat \<Rightarrow> u32" where
  "tq_pos q i = tq_mBack q + of_nat i"

definition tq_elem_ok :: "'a TaskQueue \<Rightarrow> nat \<Rightarrow> bool" where
  "tq_elem_ok q i \<longleftrightarrow>
     (let e = tq_mArray q (tq_slot (tq_pos q i)) in
      if i < tq_count q then tqe_state e = tq_pos q i + 1 \<and> tqe_task e \<noteq> None
      else tqe_state e = tq_pos q i \<and> tqe_task e = None)"

definition tq_inv :: "'a TaskQueue \<Rightarrow> bool" where
  "tq_inv q \<longleftrightarrow> tq_count q \<le> 1024 \<and> (\<forall>i<1024. tq_elem_ok q i)"

definition tq_abs :: "'a TaskQueue \<Rightarrow> 'a list" where
  "tq_abs q = map (\<lambda>i. the (tqe_task (tq_mArray q (tq_slot (tq_pos q i))))) [0..<tq_count q]"

subsection \<open>Positions and slots\<close>

lemma tq_kMask_mask: "tq_kMask = mask 10"
  by (simp add: tq_kMask_def tq_kCapacity_def mask_eq_exp_minus_1)

lemma tq_slot_unat: "tq_slot pos = unat pos mod 1024"
  by (simp add: tq_slot_def tq_kMask_mask unat_and_mask)

lemma tq_slot_bound: "tq_slot pos < 1024"
  by (simp add: tq_slot_unat)

lemma tq_slot_pos: "tq_slot (b + of_nat i) = (unat b + i) mod 1024"
  unfolding tq_slot_def tq_kMask_mask using unat_add_of_nat_and_mask [of 10 b i] by simp

lemma tq_slot_inj:
  assumes "tq_slot (b + of_nat i) = tq_slot (b + of_nat j)" "i < 1024" "j < 1024"
  shows "i = j"
  using add_mod_inj [of "unat b" i 1024 j] assms by (simp add: tq_slot_pos)

lemma tq_front_pos: "tq_mFront q = tq_pos q (tq_count q)"
  by (simp add: tq_pos_def tq_count_def)

lemma tq_slot_wrap: "tq_slot (p + 1024) = tq_slot p"
  using tq_slot_pos [of p 1024] by (simp add: tq_slot_unat)

subsection \<open>One unfolding of each loop\<close>

lemma tq_push_claim_ok:
  assumes "tqe_state (tq_mArray q (tq_slot (tq_mFront q))) = tq_mFront q"
  shows "tq_push_claim q (tq_mFront q) = Some (Some (tq_mFront q), q\<lparr>tq_mFront := tq_mFront q + 1\<rparr>)"
  by (subst tq_push_claim.simps) (simp add: assms Let_def)

lemma tq_push_claim_full:
  assumes "uint (tqe_state (tq_mArray q (tq_slot (tq_mFront q)))) < uint (tq_mFront q)"
  shows "tq_push_claim q (tq_mFront q) = Some (None, q)"
  using assms by (subst tq_push_claim.simps) (simp add: Let_def)

text \<open>A positive difference re-reads the same cursor, so without interference the loop never ends.\<close>

lemma tq_push_claim_spins:
  assumes "uint (tq_mFront q) < uint (tqe_state (tq_mArray q (tq_slot (tq_mFront q))))"
  shows "tq_push_claim q (tq_mFront q) = None"
proof (rule ccontr)
  assume "tq_push_claim q (tq_mFront q) \<noteq> None"
  then obtain r where ret: "tq_push_claim q (tq_mFront q) = Some r" by auto
  let ?bad = "\<lambda>q' f. uint f < uint (tqe_state (tq_mArray q' (tq_slot f))) \<and> f = tq_mFront q'"
  have "\<not> ?bad q (tq_mFront q)"
    by (rule tq_push_claim.raw_induct [where P = "\<lambda>q' f r. \<not> ?bad q' f", OF _ ret])
      (auto simp: Let_def split: if_splits)
  with assms show False by simp
qed

lemma tq_pop_claim_ok:
  assumes "tqe_state (tq_mArray q (tq_slot (tq_mBack q))) = tq_mBack q + 1"
  shows "tq_pop_claim q (tq_mBack q) = Some (Some (tq_mBack q), q\<lparr>tq_mBack := tq_mBack q + 1\<rparr>)"
  by (subst tq_pop_claim.simps) (simp add: assms)

lemma tq_pop_claim_empty:
  assumes "uint (tqe_state (tq_mArray q (tq_slot (tq_mBack q)))) < uint (tq_mBack q + 1)"
  shows "tq_pop_claim q (tq_mBack q) = Some (None, q)"
  using assms by (subst tq_pop_claim.simps) (simp add: Let_def)

lemma tq_pop_claim_spins:
  assumes "uint (tq_mBack q + 1) < uint (tqe_state (tq_mArray q (tq_slot (tq_mBack q))))"
  shows "tq_pop_claim q (tq_mBack q) = None"
proof (rule ccontr)
  assume "tq_pop_claim q (tq_mBack q) \<noteq> None"
  then obtain r where ret: "tq_pop_claim q (tq_mBack q) = Some r" by auto
  let ?bad = "\<lambda>q' b. uint (b + 1) < uint (tqe_state (tq_mArray q' (tq_slot b))) \<and> b = tq_mBack q'"
  have "\<not> ?bad q (tq_mBack q)"
    by (rule tq_pop_claim.raw_induct [where P = "\<lambda>q' b r. \<not> ?bad q' b", OF _ ret])
      (auto simp: Let_def split: if_splits)
  with assms show False by simp
qed

lemma tq_size_loop_now: "tq_size_loop q (tq_mFront q) = Some (min tq_kCapacity (tq_mFront q - tq_mBack q))"
  by (subst tq_size_loop.simps) (simp add: Let_def)

subsection \<open>Correctness of the operations\<close>

lemma tq_inv_new: "tq_inv TaskQueue_new"
proof -
  have "tq_slot (of_nat i) = i" if "i < 1024" for i
    using that tq_slot_pos [of 0 i] by simp
  then show ?thesis
    by (simp add: tq_inv_def tq_elem_ok_def tq_count_def tq_pos_def TaskQueue_new_def Let_def)
qed

lemma tq_abs_new [simp]: "tq_abs TaskQueue_new = []"
  by (simp add: tq_abs_def tq_count_def TaskQueue_new_def)

lemma tq_length_abs [simp]: "length (tq_abs q) = tq_count q"
  by (simp add: tq_abs_def)

lemma TaskQueue_Size_eq:
  assumes "tq_inv q"
  shows "TaskQueue_Size q = Some (tq_mFront q - tq_mBack q)"
proof -
  have "tq_mFront q - tq_mBack q \<le> 1024"
    using assms by (simp add: tq_inv_def tq_count_def word_le_nat_alt)
  then show ?thesis by (simp add: TaskQueue_Size_def tq_size_loop_now tq_kCapacity_def min_def)
qed

lemma TaskQueue_Empty_eq: "tq_inv q \<Longrightarrow> TaskQueue_Empty q = Some (tq_abs q = [])"
  by (simp add: TaskQueue_Empty_def TaskQueue_Size_eq tq_abs_def tq_count_def unat_eq_0)

definition tq_pushed :: "'a TaskQueue \<Rightarrow> 'a \<Rightarrow> 'a TaskQueue" where
  "tq_pushed q t = q\<lparr>tq_mFront := tq_mFront q + 1,
     tq_mArray := (tq_mArray q)(tq_slot (tq_mFront q) := \<lparr>tqe_state = tq_mFront q + 1, tqe_task = Some t\<rparr>)\<rparr>"

lemma tq_count_pushed:
  assumes "tq_count q < 1024"
  shows "tq_count (tq_pushed q t) = Suc (tq_count q)"
proof -
  have "unat (tq_mFront q - tq_mBack q + 1) = Suc (unat (tq_mFront q - tq_mBack q))"
    using assms by (simp add: tq_count_def unat_word_ariths)
  then show ?thesis by (simp add: tq_count_def tq_pushed_def algebra_simps)
qed

lemma tq_pos_pushed [simp]: "tq_pos (tq_pushed q t) i = tq_pos q i"
  by (simp add: tq_pos_def tq_pushed_def)

lemma tq_pushed_elem:
  assumes "i < 1024" "tq_count q < 1024"
  shows "tq_mArray (tq_pushed q t) (tq_slot (tq_pos q i)) =
    (if i = tq_count q then \<lparr>tqe_state = tq_mFront q + 1, tqe_task = Some t\<rparr>
     else tq_mArray q (tq_slot (tq_pos q i)))"
  using assms tq_slot_inj [of "tq_mBack q" i "tq_count q"]
  by (auto simp: tq_pushed_def tq_front_pos tq_pos_def)

lemma tq_pushed_inv:
  assumes inv: "tq_inv q" and room: "tq_count q < 1024"
  shows "tq_inv (tq_pushed q t)"
  unfolding tq_inv_def
proof (intro conjI allI impI)
  show "tq_count (tq_pushed q t) \<le> 1024" using room by (simp add: tq_count_pushed)
next
  fix i :: nat assume i: "i < 1024"
  with inv have "tq_elem_ok q i" by (simp add: tq_inv_def)
  then show "tq_elem_ok (tq_pushed q t) i"
    using i room tq_front_pos [of q]
    by (auto simp: tq_elem_ok_def tq_pushed_elem tq_count_pushed Let_def split: if_splits)
qed

lemma tq_pushed_abs:
  assumes "tq_inv q" "tq_count q < 1024"
  shows "tq_abs (tq_pushed q t) = tq_abs q @ [t]"
proof -
  have "tq_abs (tq_pushed q t) =
      map (\<lambda>i. the (tqe_task (tq_mArray (tq_pushed q t) (tq_slot (tq_pos q i))))) [0..<tq_count q] @
      [the (tqe_task (tq_mArray (tq_pushed q t) (tq_slot (tq_pos q (tq_count q)))))]"
    using assms(2) by (simp add: tq_abs_def tq_count_pushed)
  also have "\<dots> = tq_abs q @ [t]"
    using assms(2) by (auto simp: tq_abs_def tq_pushed_elem)
  finally show ?thesis .
qed

lemma TaskQueue_PushFront_room:
  assumes inv: "tq_inv q" and room: "tq_count q < 1024"
  shows "TaskQueue_PushFront q t = Some (None, tq_pushed q t)"
proof -
  have "tq_elem_ok q (tq_count q)" using inv room by (simp add: tq_inv_def)
  then have "tqe_state (tq_mArray q (tq_slot (tq_mFront q))) = tq_mFront q"
    by (simp add: tq_elem_ok_def Let_def flip: tq_front_pos)
  then show ?thesis
    by (simp add: TaskQueue_PushFront_def tq_push_claim_ok tq_pushed_def)
qed

text \<open>When the queue is full the slot at the front cursor carries the front position minus 1023.\<close>

lemma tq_full_state:
  assumes inv: "tq_inv q" and full: "tq_count q = 1024"
  shows "tqe_state (tq_mArray q (tq_slot (tq_mFront q))) = tq_mFront q - 1023"
proof -
  have front: "tq_mFront q = tq_mBack q + 1024"
    using tq_front_pos [of q] full by (simp add: tq_pos_def)
  have "tq_elem_ok q 0" using inv by (simp add: tq_inv_def)
  then have "tqe_state (tq_mArray q (tq_slot (tq_mBack q))) = tq_mBack q + 1"
    using full by (simp add: tq_elem_ok_def tq_pos_def Let_def)
  then show ?thesis by (simp add: front tq_slot_wrap)
qed

lemma tq_sub_no_wrap:
  assumes "1023 \<le> unat (p :: u32)"
  shows "uint (p - 1023) < uint p"
proof -
  have p: "1023 \<le> uint p" "uint p < 4294967296"
    using assms uint_lt2p [of p] by (simp_all add: le_nat_iff flip: nat_uint_eq)
  have "uint (p - 1023) = (uint p - 1023) mod 4294967296" by (simp add: uint_word_ariths)
  also have "\<dots> = uint p - 1023" using p by (simp add: mod_pos_pos_trivial)
  finally show ?thesis by simp
qed

lemma tq_sub_wrap:
  assumes "unat (p :: u32) < 1023"
  shows "uint p < uint (p - 1023)"
proof -
  have p: "uint p < 1023" "0 \<le> uint p"
    using assms by (simp_all add: nat_less_iff flip: nat_uint_eq)
  have "uint (p - 1023) = (uint p - 1023) mod 4294967296" by (simp add: uint_word_ariths)
  also have "\<dots> = (uint p - 1023 + 4294967296) mod 4294967296" by (rule mod_add_self2 [symmetric])
  also have "\<dots> = uint p - 1023 + 4294967296" using p by (simp add: mod_pos_pos_trivial)
  finally show ?thesis using p by simp
qed

lemma TaskQueue_PushFront_full:
  assumes inv: "tq_inv q" and full: "tq_count q = 1024"
  shows "TaskQueue_PushFront q t = (if 1023 \<le> unat (tq_mFront q) then Some (Some t, q) else None)"
  using tq_push_claim_full [of q] tq_push_claim_spins [of q] tq_sub_no_wrap [of "tq_mFront q"]
    tq_sub_wrap [of "tq_mFront q"]
  by (simp add: TaskQueue_PushFront_def tq_full_state [OF inv full])

definition tq_popped :: "'a TaskQueue \<Rightarrow> 'a TaskQueue" where
  "tq_popped q = q\<lparr>tq_mBack := tq_mBack q + 1,
     tq_mArray := (tq_mArray q)(tq_slot (tq_mBack q) := \<lparr>tqe_state = tq_mBack q + 1024, tqe_task = None\<rparr>)\<rparr>"

lemma tq_count_popped:
  assumes "0 < tq_count q"
  shows "tq_count (tq_popped q) = tq_count q - 1"
proof -
  have "tq_mFront q - tq_mBack q \<noteq> 0" using assms by (auto simp: tq_count_def)
  then have "unat (tq_mFront q - tq_mBack q - 1) = unat (tq_mFront q - tq_mBack q) - 1"
    by (simp add: unat_minus_one)
  then show ?thesis by (simp add: tq_count_def tq_popped_def algebra_simps)
qed

lemma tq_pos_popped [simp]: "tq_pos (tq_popped q) i = tq_pos q (Suc i)"
  by (simp add: tq_pos_def tq_popped_def algebra_simps)

lemma tq_popped_elem:
  assumes "i < 1024"
  shows "tq_mArray (tq_popped q) (tq_slot (tq_pos q (Suc i))) =
    (if i = 1023 then \<lparr>tqe_state = tq_mBack q + 1024, tqe_task = None\<rparr>
     else tq_mArray q (tq_slot (tq_pos q (Suc i))))"
proof (cases "i = 1023")
  case True
  then show ?thesis by (simp add: tq_popped_def tq_pos_def tq_slot_wrap)
next
  case False
  then have "Suc i < 1024" using assms by simp
  then have "tq_slot (tq_pos q (Suc i)) \<noteq> tq_slot (tq_mBack q)"
    using tq_slot_inj [of "tq_mBack q" "Suc i" 0] by (auto simp: tq_pos_def)
  with False show ?thesis by (simp add: tq_popped_def)
qed

lemma tq_popped_inv:
  assumes inv: "tq_inv q" and some: "0 < tq_count q"
  shows "tq_inv (tq_popped q)"
  unfolding tq_inv_def
proof (intro conjI allI impI)
  show "tq_count (tq_popped q) \<le> 1024" using inv some by (auto simp: tq_count_popped tq_inv_def)
next
  fix i :: nat assume i: "i < 1024"
  show "tq_elem_ok (tq_popped q) i"
  proof (cases "i = 1023")
    case True
    have "tq_count q \<le> 1024" using inv by (simp add: tq_inv_def)
    with True some show ?thesis
      using tq_popped_elem [of 1023 q]
      by (simp add: tq_elem_ok_def tq_count_popped Let_def) (simp add: tq_pos_def)
  next
    case False
    with i inv have "tq_elem_ok q (Suc i)" by (simp add: tq_inv_def)
    with False i some show ?thesis
      by (auto simp: tq_elem_ok_def tq_popped_elem tq_count_popped Let_def less_diff_conv split: if_splits)
  qed
qed

lemma tq_popped_abs:
  assumes "tq_inv q" "0 < tq_count q"
  shows "tq_abs (tq_popped q) = tl (tq_abs q)"
proof (rule nth_equalityI)
  show "length (tq_abs (tq_popped q)) = length (tl (tq_abs q))"
    using assms by (simp add: tq_count_popped)
next
  fix i assume "i < length (tq_abs (tq_popped q))"
  then have i: "Suc i < tq_count q" using assms by (simp add: tq_count_popped)
  moreover have "i < 1024" "i \<noteq> 1023" using i assms by (auto simp: tq_inv_def)
  ultimately show "tq_abs (tq_popped q) ! i = tl (tq_abs q) ! i"
    using assms(2) by (simp add: tq_abs_def tq_count_popped nth_tl tq_popped_elem)
qed

lemma TaskQueue_PopBack_some:
  assumes inv: "tq_inv q" and some: "0 < tq_count q"
  shows "TaskQueue_PopBack q = Some (Some (hd (tq_abs q)), tq_popped q)"
proof -
  have ok: "tq_elem_ok q 0" using inv by (simp add: tq_inv_def)
  then have st: "tqe_state (tq_mArray q (tq_slot (tq_mBack q))) = tq_mBack q + 1"
    and task: "tqe_task (tq_mArray q (tq_slot (tq_mBack q))) \<noteq> None"
    using some by (auto simp: tq_elem_ok_def tq_pos_def Let_def)
  have "hd (tq_abs q) = the (tqe_task (tq_mArray q (tq_slot (tq_mBack q))))"
    using some by (simp add: tq_abs_def hd_map tq_pos_def upt_conv_Cons)
  then show ?thesis
    using task by (auto simp: TaskQueue_PopBack_def tq_pop_claim_ok [OF st] tq_popped_def tq_kCapacity_def)
qed

lemma TaskQueue_PopBack_empty:
  assumes inv: "tq_inv q" and none: "tq_count q = 0"
  shows "TaskQueue_PopBack q = (if tq_mBack q \<noteq> - 1 then Some (None, q) else None)"
proof -
  have "tq_elem_ok q 0" using inv by (simp add: tq_inv_def)
  then have st: "tqe_state (tq_mArray q (tq_slot (tq_mBack q))) = tq_mBack q"
    using none by (simp add: tq_elem_ok_def tq_pos_def Let_def)
  show ?thesis
  proof (cases "tq_mBack q = - 1")
    case True
    then show ?thesis using tq_pop_claim_spins [of q] st
      by (simp add: TaskQueue_PopBack_def unsigned_minus_1_eq_mask mask_eq_exp_minus_1)
  next
    case False
    then have "uint (tq_mBack q) < uint (tq_mBack q + 1)"
      by (rule uint_less_Suc_word)
    then show ?thesis
      using False tq_pop_claim_empty [of q] st by (simp add: TaskQueue_PopBack_def)
  qed
qed

subsection \<open>The queue meets the FIFO contract\<close>

text \<open>One call through the interface; the other end of the queue is not offered by TaskQueue.\<close>

fun tq_call :: "'a TaskQueue \<Rightarrow> 'a queue_call \<Rightarrow> ('a option \<times> 'a TaskQueue) option" where
  "tq_call q (CallPushFront t) = TaskQueue_PushFront q t"
| "tq_call q CallPopBack = TaskQueue_PopBack q"
| "tq_call q _ = None"

text \<open>
  The number of pushes that can still be accepted before the front cursor reaches its last value,
  for a queue whose front cursor has not yet wrapped past the back cursor.
\<close>

definition tq_fuel :: "'a TaskQueue \<Rightarrow> nat" where
  "tq_fuel q = (if tq_mBack q \<le> tq_mFront q then 2 ^ 32 - 1 - unat (tq_mFront q) else 0)"

lemma tq_count_no_wrap:
  "tq_mBack q \<le> tq_mFront q \<Longrightarrow> tq_count q = unat (tq_mFront q) - unat (tq_mBack q)"
  by (simp add: tq_count_def unat_sub)

lemma tq_fuel_pos:
  assumes "0 < tq_fuel q"
  shows "tq_mBack q \<le> tq_mFront q" "tq_mFront q \<noteq> - 1"
    "unat (tq_mFront q + 1) = Suc (unat (tq_mFront q))"
proof -
  show le: "tq_mBack q \<le> tq_mFront q" using assms by (simp add: tq_fuel_def split: if_splits)
  show ne: "tq_mFront q \<noteq> - 1"
    using assms by (auto simp: tq_fuel_def unsigned_minus_1_eq_mask mask_eq_exp_minus_1)
  show "unat (tq_mFront q + 1) = Suc (unat (tq_mFront q))" by (rule unat_Suc_word [OF ne])
qed

lemma tq_call_push_refines:
  assumes inv: "tq_inv q" and fuel: "0 < tq_fuel q"
  shows "\<exists>r q1. TaskQueue_PushFront q t = Some (r, q1) \<and> fifo_push 1024 (tq_abs q) t = (r, tq_abs q1) \<and>
           tq_inv q1 \<and> tq_fuel q \<le> Suc (tq_fuel q1)"
proof (cases "tq_count q < 1024")
  case True
  have "tq_fuel q \<le> Suc (tq_fuel (tq_pushed q t))"
    using tq_fuel_pos [OF fuel] by (simp add: tq_fuel_def tq_pushed_def word_le_nat_alt)
  then show ?thesis
    using True inv by (simp add: TaskQueue_PushFront_room fifo_push_def tq_pushed_abs tq_pushed_inv)
next
  case False
  with inv have full: "tq_count q = 1024" by (simp add: tq_inv_def)
  have "1023 \<le> unat (tq_mFront q)"
    using full tq_count_no_wrap [OF tq_fuel_pos(1) [OF fuel]] by simp
  then show ?thesis
    using full inv by (simp add: TaskQueue_PushFront_full fifo_push_def)
qed

lemma tq_call_pop_refines:
  assumes inv: "tq_inv q" and fuel: "0 < tq_fuel q"
  shows "\<exists>r q1. TaskQueue_PopBack q = Some (r, q1) \<and> fifo_pop (tq_abs q) = (r, tq_abs q1) \<and>
           tq_inv q1 \<and> tq_fuel q1 = tq_fuel q"
proof (cases "tq_count q = 0")
  case True
  then have "tq_mBack q = tq_mFront q" using tq_front_pos [of q] by (simp add: tq_pos_def)
  then show ?thesis
    using True inv tq_fuel_pos(2) [OF fuel]
    by (simp add: TaskQueue_PopBack_empty fifo_pop_def tq_abs_def)
next
  case False
  have le: "tq_mBack q \<le> tq_mFront q" by (rule tq_fuel_pos [OF fuel])
  then have lt: "unat (tq_mBack q) < unat (tq_mFront q)" using False tq_count_no_wrap [of q] by simp
  then have "tq_mBack q \<noteq> - 1" using unat_lt2p [of "tq_mFront q"]
    by (auto simp: unsigned_minus_1_eq_mask mask_eq_exp_minus_1)
  then have "unat (tq_mBack q + 1) = Suc (unat (tq_mBack q))" by (rule unat_Suc_word)
  with lt have "tq_fuel (tq_popped q) = tq_fuel q"
    using le by (simp add: tq_fuel_def tq_popped_def word_le_nat_alt)
  moreover have "tq_abs q \<noteq> []" using False by (simp add: tq_abs_def)
  ultimately show ?thesis
    using False inv by (simp add: TaskQueue_PopBack_some tq_popped_inv tq_popped_abs fifo_pop_nonempty)
qed

interpretation tq: bounded_fifo tq_inv tq_abs 1024 tq_fuel tq_call
proof unfold_locales
  fix q :: "'a TaskQueue" and c :: "'a queue_call"
  assume "tq_inv q" "0 < tq_fuel q" "fifo_call c"
  then show "\<exists>r q1. tq_call q c = Some (r, q1) \<and> list_call 1024 (tq_abs q) c = (r, tq_abs q1) \<and>
      tq_inv q1 \<and> tq_fuel q \<le> Suc (tq_fuel q1)"
    using tq_call_pop_refines [of q] by (cases c) (auto simp: tq_call_push_refines)
qed

lemma tq_fuel_new: "tq_fuel TaskQueue_new = 4294967295"
  by (simp add: tq_fuel_def TaskQueue_new_def)

lemma TaskQueue_Flush_drains:
  assumes "tq_inv q"
  shows "\<exists>q1. TaskQueue_Flush q = Some q1 \<and> tq_inv q1 \<and> tq_abs q1 = [] \<and> tq_mFront q1 = tq_mFront q"
  using assms
proof (induction "tq_count q" arbitrary: q)
  case 0
  then show ?case
    by (subst TaskQueue_Flush.simps) (simp add: TaskQueue_Empty_eq tq_abs_def)
next
  case (Suc n)
  have pos: "0 < tq_count q" and ne: "tq_abs q \<noteq> []" using Suc.hyps(2) by (auto simp: tq_abs_def)
  have "n = tq_count (tq_popped q)" using pos Suc.hyps(2) by (simp add: tq_count_popped)
  then obtain q1 where "TaskQueue_Flush (tq_popped q) = Some q1" "tq_inv q1" "tq_abs q1 = []"
      "tq_mFront q1 = tq_mFront (tq_popped q)"
    using Suc.hyps(1) [of "tq_popped q"] Suc.prems pos by (auto simp: tq_popped_inv)
  with ne pos Suc.prems show ?case
    by (subst TaskQueue_Flush.simps) (simp add: TaskQueue_Empty_eq TaskQueue_PopBack_some tq_popped_def)
qed

subsection \<open>Wrap-around of the cursors\<close>

text \<open>The empty queue whose two cursors stand at position \<open>b\<close>.\<close>

definition tq_idle :: "u32 \<Rightarrow> 'a TaskQueue \<Rightarrow> bool" where
  "tq_idle b q \<longleftrightarrow> tq_inv q \<and> tq_mFront q = b \<and> tq_mBack q = b"

lemma tq_idle_count: "tq_idle b q \<Longrightarrow> tq_count q = 0"
  by (simp add: tq_idle_def tq_count_def)

lemma tq_idle_push_pop:
  assumes "tq_idle b q"
  shows "\<exists>q1. impl_run tq_call q [CallPushFront x, CallPopBack] = Some ([None, Some x], q1) \<and> tq_idle (b + 1) q1"
proof -
  let ?p = "tq_pushed q x"
  have inv: "tq_inv q" and cnt: "tq_count q = 0"
    using assms tq_idle_count by (auto simp: tq_idle_def)
  have p: "tq_inv ?p" "tq_count ?p = 1" "tq_abs ?p = [x]"
    using inv cnt tq_pushed_abs [OF inv, of x]
    by (simp_all add: tq_pushed_inv tq_count_pushed) (simp add: tq_abs_def)
  then have "tq_idle (b + 1) (tq_popped ?p)"
    using assms by (simp add: tq_idle_def tq_popped_inv) (simp add: tq_popped_def tq_pushed_def)
  moreover have "impl_run tq_call q [CallPushFront x, CallPopBack] = Some ([None, Some x], tq_popped ?p)"
    using inv cnt p by (simp add: TaskQueue_PushFront_room TaskQueue_PopBack_some)
  ultimately show ?thesis by blast
qed

lemma tq_idle_rounds:
  "\<exists>q1. impl_run tq_call TaskQueue_new (concat (replicate n [CallPushFront x, CallPopBack])) =
       Some (concat (replicate n [None, Some x]), q1) \<and> tq_idle (of_nat n) q1"
proof (induction n)
  case 0
  then show ?case by (simp add: tq_idle_def tq_inv_new) (simp add: TaskQueue_new_def)
next
  case (Suc n)
  then obtain q1 where q1: "impl_run tq_call TaskQueue_new (concat (replicate n [CallPushFront x, CallPopBack])) =
      Some (concat (replicate n [None, Some x]), q1)" "tq_idle (of_nat n) q1"
    by blast
  obtain q2 where q2: "impl_run tq_call q1 [CallPushFront x, CallPopBack] = Some ([None, Some x], q2)"
      "tq_idle (of_nat (Suc n)) q2"
    using tq_idle_push_pop [OF q1(2), of x] by (auto simp: add.commute)
  have snoc: "concat (replicate (Suc n) ys) = concat (replicate n ys) @ ys" for ys :: "'b list"
    by (simp only: replicate_append_same [symmetric] replicate_Suc concat_append) simp
  have "impl_run tq_call TaskQueue_new (concat (replicate (Suc n) [CallPushFront x, CallPopBack])) =
      Some (concat (replicate (Suc n) [None, Some x]), q2)"
    by (simp only: snoc impl_run_append q1(1) q2(1) option.case prod.case option.map)
  with q2(2) show ?case by blast
qed

lemma tq_idle_exists: "\<exists>q :: 'a TaskQueue. tq_idle b q"
  using tq_idle_rounds [of "unat b" "undefined :: 'a"] by auto

lemma tq_fill:
  assumes "tq_inv (q :: 'a TaskQueue)" "tq_count q = 0"
  shows "n \<le> 1024 \<Longrightarrow> \<exists>q1 :: 'a TaskQueue. tq_inv q1 \<and> tq_count q1 = n \<and> tq_mFront q1 = tq_mFront q + of_nat n"
proof (induction n)
  case 0
  show ?case using assms by auto
next
  case (Suc n)
  then obtain q1 :: "'a TaskQueue" where "tq_inv q1" "tq_count q1 = n" "tq_mFront q1 = tq_mFront q + of_nat n" by auto
  with Suc.prems have "tq_inv (tq_pushed q1 undefined)" "tq_count (tq_pushed q1 undefined) = Suc n"
      "tq_mFront (tq_pushed q1 undefined) = tq_mFront q + of_nat (Suc n)"
    by (simp_all add: tq_pushed_inv tq_count_pushed) (simp add: tq_pushed_def)
  then show ?case by blast
qed

subsection \<open>Properties\<close>

text \<open>
  C1. Any sequence of at most 4294967295 PushFront and PopBack calls on a new TaskQueue returns, and
  answers exactly as a FIFO list of capacity 1024 does: a push on a full queue hands the task back,
  a pop on an empty one answers nothing, and tasks leave in the order they entered.
\<close>

theorem TaskQueue_refines_fifo:
  assumes "\<forall>c\<in>set cs. fifo_call c" "length cs \<le> 4294967295"
  shows "\<exists>rs q. impl_run tq_call TaskQueue_new cs = Some (rs, q) \<and>
           list_run 1024 [] cs = (rs, tq_abs q) \<and> tq_inv q"
  using tq.run_refines [OF tq_inv_new, of cs] assms by (simp add: tq_fuel_new)

theorem TaskQueue_refines_fifo_witness:
  "\<exists>q. impl_run tq_call TaskQueue_new
         [CallPushFront ''a'', CallPushFront ''b'', CallPopBack, CallPopBack, CallPopBack] =
       Some ([None, None, Some ''a'', Some ''b'', None], q)"
  using TaskQueue_refines_fifo
    [of "[CallPushFront ''a'', CallPushFront ''b'', CallPopBack, CallPopBack, CallPopBack]"]
  by (auto simp: fifo_push_def fifo_pop_def)

text \<open>
  C2. Any number \<open>n\<close> of tasks pushed and popped one after the other goes
  through a new queue: every call returns, every pop answers the task just pushed, and the queue is empty
  afterwards. PopBack on that empty queue answers nothing, as it should, except where the cursor is about to
  wrap: the sequence numbers are compared as 64-bit differences of 32-bit values, so after 4294967295 tasks
  (and again every 4294967296 tasks) PopBack spins for ever.
\<close>

theorem TaskQueue_PopBack_hangs_at_wrap:
  "\<exists>q. impl_run tq_call TaskQueue_new (concat (replicate n [CallPushFront x, CallPopBack])) =
       Some (concat (replicate n [None, Some x]), q) \<and> tq_abs q = [] \<and>
     TaskQueue_PopBack q = (if n mod 4294967296 = 4294967295 then None else Some (None, q))"
proof -
  obtain q where q: "impl_run tq_call TaskQueue_new (concat (replicate n [CallPushFront x, CallPopBack])) =
      Some (concat (replicate n [None, Some x]), q)" "tq_idle (of_nat n) q"
    using tq_idle_rounds [of n x] by blast
  have "(of_nat n = (- 1 :: u32)) \<longleftrightarrow> n mod 4294967296 = 4294967295"
    by (simp add: word_unat_eq_iff unat_of_nat take_bit_eq_mod unsigned_minus_1_eq_mask mask_eq_exp_minus_1)
  then have "TaskQueue_PopBack q = (if n mod 4294967296 = 4294967295 then None else Some (None, q))"
    using q(2) tq_idle_count [OF q(2)] by (simp add: tq_idle_def TaskQueue_PopBack_empty)
  moreover have "tq_abs q = []" using tq_idle_count [OF q(2)] by (simp add: tq_abs_def)
  ultimately show ?thesis using q(1) by blast
qed

text \<open>
  A push on a full queue returns the task to the caller exactly when the front cursor is at
  least 1023; on the first 1023 positions after the cursor wrapped it spins instead of refusing.
\<close>

theorem TaskQueue_PushFront_full_at_wrap:
  assumes "tq_inv q" "length (tq_abs q) = 1024"
  shows "TaskQueue_PushFront q t = (if 1023 \<le> unat (tq_mFront q) then Some (Some t, q) else None)"
  using TaskQueue_PushFront_full [of q t] assms by simp

theorem TaskQueue_PushFront_full_at_wrap_witness:
  "\<exists>q. tq_inv q \<and> length (tq_abs q) = 1024 \<and> tq_mFront q = 24 \<and> TaskQueue_PushFront q ''t'' = None"
proof -
  obtain q0 :: "string TaskQueue" where "tq_idle (- 1000) q0"
    using tq_idle_exists by blast
  then have "tq_inv q0" "tq_count q0 = 0" "tq_mFront q0 + of_nat 1024 = 24"
    by (auto simp: tq_idle_count) (auto simp: tq_idle_def)
  then obtain q :: "string TaskQueue" where q: "tq_inv q" "length (tq_abs q) = 1024" "tq_mFront q = 24"
    using tq_fill [of q0 1024] by auto
  then show ?thesis using TaskQueue_PushFront_full_at_wrap [OF q(1,2), of "''t''"] by auto
qed

text \<open>
  Flush ends on every well-formed queue, its assertion that a task was found never fails,
  and it leaves an empty queue.
\<close>

theorem TaskQueue_Flush_empties:
  assumes "tq_inv q"
  shows "\<exists>q1. TaskQueue_Flush q = Some q1 \<and> tq_inv q1 \<and> tq_abs q1 = [] \<and> TaskQueue_Empty q1 = Some True"
  using TaskQueue_Flush_drains [OF assms] by (auto simp: TaskQueue_Empty_eq)

theorem TaskQueue_Flush_empties_witness:
  "\<exists>q1. TaskQueue_Flush (tq_pushed TaskQueue_new ''a'') = Some q1 \<and> tq_abs q1 = []"
  using TaskQueue_Flush_empties [OF tq_pushed_inv [OF tq_inv_new, of "''a''"]]
  by (auto simp: tq_count_def TaskQueue_new_def)

end
