(* ===== verification/Task_Deque.thy ===== *)
theory Task_Deque
  imports Queue_Interfaces
begin

text \<open>
  The bounded work-stealing deque of \<^verbatim>\<open>src/async/concurrent/task_deque.h\<close> (class TaskDeque), used
  by the non-blocking work queue. Its cursors are 32-bit words whose low eleven bits are a rolling
  index and whose other bits count modifications. The operations are the calls executed without
  interference; \<open>None\<close> is a call that does not return because an assert failed or a loop spins.
\<close>

subsection \<open>State\<close>

record 'a td_elem =
  tde_state :: u8
  tde_task :: "'a option"

record 'a TaskDeque =
  td_mFront :: u32
  td_mBack :: u32
  td_mArray :: "nat \<Rightarrow> 'a td_elem"

definition td_kCapacity :: u32 where "td_kCapacity = 1024"
definition td_kIncrement :: u32 where "td_kIncrement = push_bit 1 td_kCapacity + 1"
definition td_kMask :: u32 where "td_kMask = td_kCapacity - 1"
definition td_kMask2 :: u32 where "td_kMask2 = push_bit 1 td_kCapacity - 1"

definition td_kEmpty :: u8 where "td_kEmpty = 0"
definition td_kBusy :: u8 where "td_kBusy = 1"
definition td_kReady :: u8 where "td_kReady = 2"

definition td_at :: "u32 \<Rightarrow> nat" where
  "td_at pos = unat (pos AND td_kMask)"

definition TaskDeque_new :: "'a TaskDeque" where
  "TaskDeque_new = \<lparr>td_mFront = 0, td_mBack = 0,
     td_mArray = (\<lambda>i. \<lparr>tde_state = td_kEmpty, tde_task = None\<rparr>)\<rparr>"

subsection \<open>Operations\<close>

text \<open>The compare-exchange of an element state, without interference.\<close>

definition td_cas :: "'a TaskDeque \<Rightarrow> nat \<Rightarrow> u8 \<Rightarrow> u8 \<Rightarrow> bool \<times> 'a TaskDeque" where
  "td_cas q j expected desired =
     (if tde_state (td_mArray q j) = expected
      then (True, q\<lparr>td_mArray := (td_mArray q)(j := (td_mArray q j)\<lparr>tde_state := desired\<rparr>)\<rparr>)
      else (False, q))"

definition td_put :: "'a TaskDeque \<Rightarrow> nat \<Rightarrow> 'a td_elem \<Rightarrow> 'a TaskDeque" where
  "td_put q j e = q\<lparr>td_mArray := (td_mArray q)(j := e)\<rparr>"

definition TaskDeque_PushFront :: "'a TaskDeque \<Rightarrow> 'a \<Rightarrow> 'a option \<times> 'a TaskDeque" where
  "TaskDeque_PushFront q task =
     (let front = td_mFront q; j = td_at front; s = tde_state (td_mArray q j) in
      if s \<noteq> td_kEmpty then (Some task, q)
      else case td_cas q j s td_kBusy of
        (False, q1) \<Rightarrow> (Some task, q1)
      | (True, q1) \<Rightarrow>
          (None, td_put (q1\<lparr>td_mFront := front + td_kIncrement\<rparr>) j
                   \<lparr>tde_state = td_kReady, tde_task = Some task\<rparr>))"

definition TaskDeque_PopFront :: "'a TaskDeque \<Rightarrow> 'a option \<times> 'a TaskDeque" where
  "TaskDeque_PopFront q =
     (let front = td_mFront q; j = td_at (front - 1); s = tde_state (td_mArray q j) in
      if s \<noteq> td_kReady then (None, q)
      else case td_cas q j s td_kBusy of
        (False, q1) \<Rightarrow> (None, q1)
      | (True, q1) \<Rightarrow>
          (tde_task (td_mArray q1 j),
           (td_put q1 j \<lparr>tde_state = td_kEmpty, tde_task = None\<rparr>)
             \<lparr>td_mFront := ((front - 1) AND td_kMask2) OR (front AND NOT td_kMask2)\<rparr>))"

definition TaskDeque_PushBack :: "'a TaskDeque \<Rightarrow> 'a \<Rightarrow> 'a option \<times> 'a TaskDeque" where
  "TaskDeque_PushBack q task =
     (let back = td_mBack q; j = td_at (back - 1); s = tde_state (td_mArray q j) in
      if s \<noteq> td_kEmpty then (Some task, q)
      else case td_cas q j s td_kBusy of
        (False, q1) \<Rightarrow> (Some task, q1)
      | (True, q1) \<Rightarrow>
          (None, td_put (q1\<lparr>td_mBack := ((back - 1) AND td_kMask2) OR (back AND NOT td_kMask2)\<rparr>) j
                   \<lparr>tde_state = td_kReady, tde_task = Some task\<rparr>))"

definition TaskDeque_CalculateSize :: "u32 \<Rightarrow> u32 \<Rightarrow> u32 option" where
  "TaskDeque_CalculateSize front back =
     (let size = sint ((front AND td_kMask2) - (back AND td_kMask2));
          size = (if size < 0 then size + 2 * uint td_kCapacity else size)
      in if size > uint td_kCapacity + 1 then None
         else let size = (if size > uint td_kCapacity then uint td_kCapacity else size)
              in Some (word_of_int size))"

partial_function (option) TaskDeque_SizeOrNotEmpty :: "bool \<Rightarrow> 'a TaskDeque \<Rightarrow> u32 \<Rightarrow> u32 option" where
  "TaskDeque_SizeOrNotEmpty need_size q front =
     (let back = td_mBack q; front1 = td_mFront q in
      if front \<noteq> front1 then TaskDeque_SizeOrNotEmpty need_size q front1
      else if need_size then TaskDeque_CalculateSize front back
      else let maybe_zero = (front XOR back) AND td_kMask2 in
           case TaskDeque_CalculateSize front back of
             None \<Rightarrow> None
           | Some sz \<Rightarrow> if (sz = 0) = (maybe_zero = 0) then Some maybe_zero else None)"

definition TaskDeque_Size :: "'a TaskDeque \<Rightarrow> u32 option" where
  "TaskDeque_Size q = TaskDeque_SizeOrNotEmpty True q (td_mFront q)"

definition TaskDeque_Empty :: "'a TaskDeque \<Rightarrow> bool option" where
  "TaskDeque_Empty q = map_option (\<lambda>n. n = 0) (TaskDeque_SizeOrNotEmpty False q (td_mFront q))"

definition TaskDeque_PopBack :: "'a TaskDeque \<Rightarrow> ('a option \<times> 'a TaskDeque) option" where
  "TaskDeque_PopBack q =
     (case TaskDeque_Empty q of
        None \<Rightarrow> None
      | Some True \<Rightarrow> Some (None, q)
      | Some False \<Rightarrow>
          Some (let back = td_mBack q; j = td_at back; s = tde_state (td_mArray q j) in
            if s \<noteq> td_kReady then (None, q)
            else case td_cas q j s td_kBusy of
              (False, q1) \<Rightarrow> (None, q1)
            | (True, q1) \<Rightarrow>
                (tde_task (td_mArray q1 j),
                 (td_put q1 j \<lparr>tde_state = td_kEmpty, tde_task = None\<rparr>)
                   \<lparr>td_mBack := back + td_kIncrement\<rparr>)))"

text \<open>
  The loop of PopBackHalf from \<open>mid\<close> down to \<open>back\<close>: \<open>n\<close> elements were taken so far, the first of
  them at \<open>start\<close>; the assert that later elements are ready may fail (\<open>None\<close>).
\<close>

partial_function (option) td_half_loop ::
  "'a TaskDeque \<Rightarrow> u32 \<Rightarrow> u32 \<Rightarrow> u32 \<Rightarrow> u32 \<Rightarrow> 'a option list \<Rightarrow> (u32 \<times> u32 \<times> 'a option list \<times> 'a TaskDeque) option"
where
  "td_half_loop q back mid n start result =
     (if sint (mid - back) < 0 then Some (n, start, result, q)
      else let j = td_at mid; e = td_mArray q j in
        if n = 0 \<and> tde_state e \<noteq> td_kReady then td_half_loop q back (mid - 1) n start result
        else if n \<noteq> 0 \<and> tde_state e \<noteq> td_kReady then None
        else td_half_loop (td_put q j \<lparr>tde_state = td_kEmpty, tde_task = None\<rparr>) back (mid - 1) (n + 1)
               (if n = 0 then mid else start) (result @ [tde_task e]))"

definition TaskDeque_PopBackHalf :: "'a TaskDeque \<Rightarrow> (u32 \<times> 'a option list \<times> 'a TaskDeque) option" where
  "TaskDeque_PopBackHalf q =
     (case TaskDeque_Empty q of
        None \<Rightarrow> None
      | Some True \<Rightarrow> Some (0, [], q)
      | Some False \<Rightarrow>
          (case TaskDeque_Size q of
             None \<Rightarrow> None
           | Some sz \<Rightarrow>
               (let back = td_mBack q; mid = (if sz > 1 then back + (sz - 1) div 2 else back) in
                case td_half_loop q back mid 0 0 [] of
                  None \<Rightarrow> None
                | Some (n, start, result, q1) \<Rightarrow>
                    Some (n, result,
                          if n \<noteq> 0 then q1\<lparr>td_mBack := start + td_kIncrement\<rparr> else q1))))"

partial_function (option) TaskDeque_Flush :: "'a TaskDeque \<Rightarrow> 'a TaskDeque option" where
  "TaskDeque_Flush q =
     Option.bind (TaskDeque_Empty q) (\<lambda>empty.
       if empty then Some q
       else case TaskDeque_PopFront q of (None, q1) \<Rightarrow> None | (Some t, q1) \<Rightarrow> TaskDeque_Flush q1)"

fun td_call :: "'a TaskDeque \<Rightarrow> 'a queue_call \<Rightarrow> ('a option \<times> 'a TaskDeque) option" where
  "td_call q (CallPushFront t) = Some (TaskDeque_PushFront q t)"
| "td_call q CallPopFront = Some (TaskDeque_PopFront q)"
| "td_call q (CallPushBack t) = Some (TaskDeque_PushBack q t)"
| "td_call q CallPopBack = TaskDeque_PopBack q"

subsection \<open>Representation of a list\<close>

text \<open>
  The list \<open>xs\<close>, from the back end to the front end, is represented when the low bits of the
  cursors differ by its length and the 1024 slots counted from the back cursor hold its elements,
  ready, followed by empty slots.
\<close>

definition td_cell :: "'a list \<Rightarrow> nat \<Rightarrow> 'a td_elem" where
  "td_cell xs i = (if i < length xs then \<lparr>tde_state = td_kReady, tde_task = Some (xs ! i)\<rparr>
                   else \<lparr>tde_state = td_kEmpty, tde_task = None\<rparr>)"

definition td_rep :: "'a TaskDeque \<Rightarrow> 'a list \<Rightarrow> bool" where
  "td_rep q xs \<longleftrightarrow> length xs \<le> 1024 \<and>
     unat (td_mFront q) mod 2048 = (unat (td_mBack q) + length xs) mod 2048 \<and>
     (\<forall>i<1024. td_mArray q ((unat (td_mBack q) + i) mod 1024) = td_cell xs i)"

definition td_inv :: "'a TaskDeque \<Rightarrow> bool" where
  "td_inv q \<longleftrightarrow> (\<exists>xs. td_rep q xs)"

definition td_count :: "'a TaskDeque \<Rightarrow> nat" where
  "td_count q = (unat (td_mFront q) + (2048 - unat (td_mBack q) mod 2048)) mod 2048"

definition td_abs :: "'a TaskDeque \<Rightarrow> 'a list" where
  "td_abs q = map (\<lambda>i. the (tde_task (td_mArray q ((unat (td_mBack q) + i) mod 1024)))) [0..<td_count q]"

subsection \<open>Cursor arithmetic\<close>

lemma td_kMask_mask: "td_kMask = mask 10"
  by (simp add: td_kMask_def td_kCapacity_def mask_eq_exp_minus_1)

lemma td_kMask2_mask: "td_kMask2 = mask 11"
  by (simp add: td_kMask2_def td_kCapacity_def mask_eq_exp_minus_1)

lemma td_kIncrement_num: "td_kIncrement = 2049"
  by (simp add: td_kIncrement_def td_kCapacity_def)

lemma td_states_distinct [simp]:
  "td_kEmpty \<noteq> td_kReady" "td_kReady \<noteq> td_kEmpty" "td_kEmpty \<noteq> td_kBusy" "td_kReady \<noteq> td_kBusy"
  by (simp_all add: td_kEmpty_def td_kReady_def td_kBusy_def)

lemma td_at_unat: "td_at pos = unat pos mod 1024"
  by (simp add: td_at_def td_kMask_mask unat_and_mask)

lemma unat_minus_1_u32: "unat (- 1 :: u32) = 4294967295"
  by (simp add: unsigned_minus_1_eq_mask mask_eq_exp_minus_1)

lemma unat_pred_mod2048: "unat (x - 1 :: u32) mod 2048 = (unat x + 2047) mod 2048"
proof -
  have "unat (x - 1) mod 2048 = (unat x + 4294967295) mod 2048"
    using unat_add_mod_pow2 [of 11 x "- 1"] by (simp add: unat_minus_1_u32 add.commute)
  also have "\<dots> = (unat x + 2047 + 2097151 * 2048) mod 2048" by (simp add: add.commute)
  also have "\<dots> = (unat x + 2047) mod 2048" by (rule mod_mult_self1)
  finally show ?thesis .
qed

lemma unat_pred_mod1024: "unat (x - 1 :: u32) mod 1024 = (unat x + 1023) mod 1024"
proof -
  have "unat (x - 1) mod 1024 = (unat x + 4294967295) mod 1024"
    using unat_add_mod_pow2 [of 10 x "- 1"] by (simp add: unat_minus_1_u32 add.commute)
  also have "\<dots> = (unat x + 1023 + 4194303 * 1024) mod 1024" by (simp add: add.commute)
  also have "\<dots> = (unat x + 1023) mod 1024" by (rule mod_mult_self1)
  finally show ?thesis .
qed

lemma unat_succ_mod: "unat (x + 2049 :: u32) mod 2048 = (unat x + 1) mod 2048"
proof -
  have "unat (x + 2049) mod 2048 = (unat x + 2049) mod 2048"
    using unat_add_mod_pow2 [of 11 x 2049] by simp
  also have "\<dots> = (unat x + 1 + 1 * 2048) mod 2048" by (simp add: add.commute)
  also have "\<dots> = (unat x + 1) mod 2048" by (rule mod_mult_self1)
  finally show ?thesis .
qed

lemma td_retreat: "unat (((x - 1) AND td_kMask2) OR (x AND NOT td_kMask2)) mod 2048 = (unat x + 2047) mod 2048"
proof -
  have "(((x - 1) AND mask 11) OR (x AND NOT (mask 11))) AND mask 11 = (x - 1) AND (mask 11 :: u32)"
    by (rule bit_word_eqI) (auto simp: bit_simps)
  then have "unat (((x - 1) AND mask 11) OR (x AND NOT (mask 11))) mod 2 ^ 11 = unat (x - 1) mod 2 ^ 11"
    by (metis unat_and_mask)
  then show ?thesis using unat_pred_mod2048 [of x] by (simp add: td_kMask2_mask)
qed

lemma mod2048_mod1024: "a mod 2048 = c mod (2048 :: nat) \<Longrightarrow> a mod 1024 = c mod 1024"
  by (metis mod_mod_cancel [of 1024 2048] dvd_triv_right num_double numeral_times_numeral)

lemma td_back_advance:
  assumes "unat b' mod 2048 = (unat b + 1) mod 2048"
  shows "(unat b' + i) mod 1024 = (unat b + Suc i) mod 1024"
  using mod_add_cong [OF mod2048_mod1024 [OF assms] refl, of i] by simp

lemma td_back_retreat:
  assumes "unat b' mod 2048 = (unat b + 2047) mod 2048"
  shows "(unat b' + i) mod 1024 = (unat b + 1023 + i) mod 1024"
proof -
  have "unat b' mod 1024 = (unat b + 2047) mod 1024" by (rule mod2048_mod1024 [OF assms])
  also have "\<dots> = (unat b + 1023 + 1024) mod 1024" by (simp add: add.commute)
  also have "\<dots> = (unat b + 1023) mod 1024" by (rule mod_add_self2)
  finally show ?thesis by (rule mod_add_cong [OF _ refl])
qed

subsection \<open>Consequences of the representation\<close>

lemma td_rep_count: "td_rep q xs \<Longrightarrow> td_count q = length xs"
  unfolding td_count_def td_rep_def by (rule cyclic_distance) auto

lemma td_rep_abs: "td_rep q xs \<Longrightarrow> td_abs q = xs"
  unfolding td_abs_def td_rep_count
  by (rule nth_equalityI) (auto simp: td_rep_count td_rep_def td_cell_def)

lemma td_inv_rep: "td_inv q \<Longrightarrow> td_rep q (td_abs q)"
  using td_rep_abs by (auto simp: td_inv_def)

lemma td_rep_inv: "td_rep q xs \<Longrightarrow> td_inv q"
  by (auto simp: td_inv_def)

lemma td_rep_cell:
  "td_rep q xs \<Longrightarrow> i < 1024 \<Longrightarrow> td_mArray q ((unat (td_mBack q) + i) mod 1024) = td_cell xs i"
  by (simp add: td_rep_def)

lemma td_front_slot:
  assumes "td_rep q xs"
  shows "td_at (td_mFront q) = (unat (td_mBack q) + length xs) mod 1024"
proof -
  have "unat (td_mFront q) mod 2048 = (unat (td_mBack q) + length xs) mod 2048"
    using assms by (simp add: td_rep_def)
  then show ?thesis unfolding td_at_unat by (rule mod2048_mod1024)
qed

lemma td_front_pred_slot:
  assumes "td_rep q xs"
  shows "td_at (td_mFront q - 1) = (unat (td_mBack q) + (length xs + 1023)) mod 1024"
  using mod_add_cong [OF td_front_slot [OF assms, unfolded td_at_unat] refl, of 1023]
  by (simp add: td_at_unat unat_pred_mod1024 ac_simps)

lemma td_back_pred_slot: "td_at (td_mBack q - 1) = (unat (td_mBack q) + 1023) mod 1024"
  by (simp add: td_at_unat unat_pred_mod1024)

lemma td_rep_new: "td_rep TaskDeque_new []"
  by (simp add: td_rep_def TaskDeque_new_def td_cell_def)

lemma td_cell_ready [simp]: "i < length xs \<Longrightarrow> td_cell xs i = \<lparr>tde_state = td_kReady, tde_task = Some (xs ! i)\<rparr>"
  and td_cell_empty [simp]: "length xs \<le> i \<Longrightarrow> td_cell xs i = \<lparr>tde_state = td_kEmpty, tde_task = None\<rparr>"
  by (simp_all add: td_cell_def)

subsection \<open>The operations on represented lists\<close>

lemma TaskDeque_PushFront_full:
  assumes "td_rep q xs" "length xs = 1024"
  shows "TaskDeque_PushFront q t = (Some t, q)"
  using td_rep_cell [OF assms(1), of 0] td_front_slot [OF assms(1)] assms(2)
  by (simp add: TaskDeque_PushFront_def Let_def)

lemma TaskDeque_PushFront_room:
  assumes rep: "td_rep q xs" and room: "length xs < 1024"
  shows "\<exists>q1. TaskDeque_PushFront q t = (None, q1) \<and> td_rep q1 (xs @ [t])"
proof -
  let ?j = "td_at (td_mFront q)"
  let ?q1 = "q\<lparr>td_mFront := td_mFront q + 2049,
    td_mArray := (td_mArray q)(?j := \<lparr>tde_state = td_kReady, tde_task = Some t\<rparr>)\<rparr>"
  have j: "?j = (unat (td_mBack q) + length xs) mod 1024" by (rule td_front_slot [OF rep])
  have "tde_state (td_mArray q ?j) = td_kEmpty" using td_rep_cell [OF rep room] j by simp
  then have "TaskDeque_PushFront q t = (None, ?q1)"
    by (simp add: TaskDeque_PushFront_def td_cas_def td_put_def td_kIncrement_num Let_def)
  moreover have "td_rep ?q1 (xs @ [t])"
  proof -
    have "td_mArray ?q1 ((unat (td_mBack q) + i) mod 1024) = td_cell (xs @ [t]) i" if "i < 1024" for i
      using td_rep_cell [OF rep that] add_mod_eq_iff [OF that room, of "unat (td_mBack q)"] j
      by (auto simp: td_cell_def nth_append)
    moreover have "unat (td_mFront q + 2049) mod 2048 = (unat (td_mBack q) + length (xs @ [t])) mod 2048"
      using rep mod_add_cong [of "unat (td_mFront q)" 2048 "unat (td_mBack q) + length xs" 1 1]
      by (simp add: td_rep_def unat_succ_mod)
    ultimately show ?thesis using room by (simp add: td_rep_def)
  qed
  ultimately show ?thesis by blast
qed

lemma TaskDeque_PopFront_none:
  assumes "td_rep q []"
  shows "TaskDeque_PopFront q = (None, q)"
  using td_rep_cell [OF assms, of 1023] td_front_pred_slot [OF assms]
  by (simp add: TaskDeque_PopFront_def Let_def)

lemma TaskDeque_PopFront_some:
  assumes rep: "td_rep q (xs @ [t])"
  shows "\<exists>q1. TaskDeque_PopFront q = (Some t, q1) \<and> td_rep q1 xs"
proof -
  let ?j = "td_at (td_mFront q - 1)"
  let ?f = "((td_mFront q - 1) AND td_kMask2) OR (td_mFront q AND NOT td_kMask2)"
  let ?q1 = "q\<lparr>td_mFront := ?f, td_mArray := (td_mArray q)(?j := \<lparr>tde_state = td_kEmpty, tde_task = None\<rparr>)\<rparr>"
  have len: "length xs < 1024" using rep by (simp add: td_rep_def)
  have "?j = (unat (td_mBack q) + length xs + 1024) mod 1024"
    using td_front_pred_slot [OF rep] by (simp add: ac_simps)
  then have j: "?j = (unat (td_mBack q) + length xs) mod 1024" by simp
  have cell: "td_mArray q ?j = \<lparr>tde_state = td_kReady, tde_task = Some t\<rparr>"
    using td_rep_cell [OF rep len] j by simp
  then have "TaskDeque_PopFront q = (Some t, ?q1)"
    by (simp add: TaskDeque_PopFront_def td_cas_def td_put_def Let_def)
  moreover have "td_rep ?q1 xs"
  proof -
    have "td_mArray ?q1 ((unat (td_mBack q) + i) mod 1024) = td_cell xs i" if "i < 1024" for i
      using td_rep_cell [OF rep that] add_mod_eq_iff [OF that len, of "unat (td_mBack q)"] j
      by (auto simp: td_cell_def nth_append)
    moreover have "unat ?f mod 2048 = (unat (td_mBack q) + length xs) mod 2048"
    proof -
      have "unat ?f mod 2048 = (unat (td_mBack q) + length (xs @ [t]) + 2047) mod 2048"
        unfolding td_retreat by (rule mod_add_cong) (use rep in \<open>simp_all add: td_rep_def\<close>)
      also have "\<dots> = (unat (td_mBack q) + length xs + 2048) mod 2048" by (simp add: ac_simps)
      finally show ?thesis by simp
    qed
    ultimately show ?thesis using len by (simp add: td_rep_def)
  qed
  ultimately show ?thesis by blast
qed

lemma TaskDeque_PushBack_full:
  assumes "td_rep q xs" "length xs = 1024"
  shows "TaskDeque_PushBack q t = (Some t, q)"
  using td_rep_cell [OF assms(1), of 1023] assms(2)
  by (simp add: TaskDeque_PushBack_def Let_def td_back_pred_slot)

lemma TaskDeque_PushBack_room:
  assumes rep: "td_rep q xs" and room: "length xs < 1024"
  shows "\<exists>q1. TaskDeque_PushBack q t = (None, q1) \<and> td_rep q1 (t # xs)"
proof -
  let ?j = "(unat (td_mBack q) + 1023) mod 1024"
  let ?b = "((td_mBack q - 1) AND td_kMask2) OR (td_mBack q AND NOT td_kMask2)"
  let ?q1 = "q\<lparr>td_mBack := ?b, td_mArray := (td_mArray q)(?j := \<lparr>tde_state = td_kReady, tde_task = Some t\<rparr>)\<rparr>"
  have "tde_state (td_mArray q ?j) = td_kEmpty" using td_rep_cell [OF rep, of 1023] room by simp
  then have "TaskDeque_PushBack q t = (None, ?q1)"
    by (simp add: TaskDeque_PushBack_def td_cas_def td_put_def Let_def td_back_pred_slot)
  moreover have "td_rep ?q1 (t # xs)"
  proof -
    have "td_mArray ?q1 ((unat ?b + i) mod 1024) = td_cell (t # xs) i" if i: "i < 1024" for i
    proof (cases i)
      case 0
      then show ?thesis using td_back_retreat [OF td_retreat, of "td_mBack q" 0] by (simp add: td_cell_def)
    next
      case (Suc k)
      then have "(unat ?b + i) mod 1024 = (unat (td_mBack q) + k + 1024) mod 1024"
        using td_back_retreat [OF td_retreat, of "td_mBack q" i] by (simp add: ac_simps)
      then have slot: "(unat ?b + i) mod 1024 = (unat (td_mBack q) + k) mod 1024"
        by (simp only: mod_add_self2)
      moreover have "(unat (td_mBack q) + k) mod 1024 \<noteq> ?j"
        using add_mod_eq_iff [of k 1024 1023 "unat (td_mBack q)"] i Suc by simp
      ultimately show ?thesis using td_rep_cell [OF rep, of k] Suc i by (simp add: td_cell_def)
    qed
    moreover have "unat (td_mFront q) mod 2048 = (unat ?b + length (t # xs)) mod 2048"
    proof -
      have "(unat ?b + length (t # xs)) mod 2048 = (unat (td_mBack q) + 2047 + length (t # xs)) mod 2048"
        by (rule mod_add_cong [OF td_retreat refl])
      also have "\<dots> = (unat (td_mBack q) + length xs + 2048) mod 2048" by (simp add: ac_simps)
      finally show ?thesis using rep by (simp add: td_rep_def)
    qed
    ultimately show ?thesis using room by (simp add: td_rep_def)
  qed
  ultimately show ?thesis by blast
qed

text \<open>
  Size arithmetic: with at most 1024 elements the signed difference of the low bits, corrected by
  2048 when negative, is the number of elements.
\<close>

lemma td_low_bits: "uint (x AND td_kMask2) = int (unat x mod 2048)"
proof -
  have "int (unat (x AND mask 11)) = int (unat x mod 2 ^ 11)" by (simp only: unat_and_mask)
  then show ?thesis by (simp add: td_kMask2_mask)
qed

definition td_gap :: "u32 \<Rightarrow> u32 \<Rightarrow> nat" where
  "td_gap front back = (unat front + (2048 - unat back mod 2048)) mod 2048"

lemma td_gap_reduced:
  fixes a b :: nat
  assumes "a < 2048" "b < 2048"
  shows "int ((a + (2048 - b)) mod 2048) = (let d = int a - int b in if d < 0 then d + 2048 else d)"
proof (cases "a < b")
  case True
  then show ?thesis using assms by (simp add: Let_def of_nat_diff)
next
  case False
  then have "a + (2048 - b) = (a - b) + 2048" using assms by simp
  then have "(a + (2048 - b)) mod 2048 = (a - b) mod 2048" by (simp only: mod_add_self2)
  then show ?thesis using False assms by (simp add: Let_def of_nat_diff)
qed

lemma td_gap_int:
  "int (td_gap front back) =
     (let d = int (unat front mod 2048) - int (unat back mod 2048) in if d < 0 then d + 2048 else d)"
proof -
  have "td_gap front back = (unat front mod 2048 + (2048 - unat back mod 2048)) mod 2048"
    unfolding td_gap_def by (rule mod_add_left_eq [symmetric])
  moreover have "unat front mod 2048 < 2048" "unat back mod 2048 < 2048" by simp_all
  ultimately show ?thesis by (simp only: td_gap_reduced)
qed

lemma TaskDeque_CalculateSize_gap:
  "TaskDeque_CalculateSize front back =
     (if td_gap front back > 1025 then None else Some (of_nat (min (td_gap front back) 1024)))"
proof -
  have "sint ((front AND td_kMask2) - (back AND td_kMask2)) = int (unat front mod 2048) - int (unat back mod 2048)"
    by (subst sint_diff_small) (simp_all add: td_low_bits)
  then have "TaskDeque_CalculateSize front back =
      (if int (td_gap front back) > 1025 then None
       else Some (word_of_int (min (int (td_gap front back)) 1024)))"
    unfolding td_gap_int by (simp add: TaskDeque_CalculateSize_def Let_def td_kCapacity_def min_def)
  also have "\<dots> = (if td_gap front back > 1025 then None else Some (of_nat (min (td_gap front back) 1024)))"
    by (simp add: min_def)
  finally show ?thesis .
qed

lemma td_gap_zero: "td_gap front back = 0 \<longleftrightarrow> (front XOR back) AND td_kMask2 = 0"
proof -
  have "(front XOR back) AND td_kMask2 = 0 \<longleftrightarrow> front AND td_kMask2 = back AND td_kMask2"
    by (rule xor_mask_eq_0)
  also have "\<dots> \<longleftrightarrow> int (unat front mod 2048) = int (unat back mod 2048)"
    by (metis td_low_bits word_uint_eq_iff)
  also have "\<dots> \<longleftrightarrow> int (td_gap front back) = 0"
    unfolding td_gap_int using mod_less_divisor [of 2048 "unat back"] by (auto simp: Let_def)
  finally show ?thesis by simp
qed

lemma td_size_now:
  "TaskDeque_SizeOrNotEmpty need q (td_mFront q) =
     (if need then TaskDeque_CalculateSize (td_mFront q) (td_mBack q)
      else let maybe_zero = (td_mFront q XOR td_mBack q) AND td_kMask2 in
           case TaskDeque_CalculateSize (td_mFront q) (td_mBack q) of
             None \<Rightarrow> None
           | Some sz \<Rightarrow> if (sz = 0) = (maybe_zero = 0) then Some maybe_zero else None)"
  by (subst TaskDeque_SizeOrNotEmpty.simps) (simp add: Let_def)

lemma td_rep_gap: "td_rep q xs \<Longrightarrow> td_gap (td_mFront q) (td_mBack q) = length xs"
  using td_rep_count [of q xs] by (simp add: td_count_def td_gap_def)

lemma td_rep_length: "td_rep q xs \<Longrightarrow> length xs \<le> 1024"
  by (simp add: td_rep_def)

lemma TaskDeque_Size_rep: "td_rep q xs \<Longrightarrow> TaskDeque_Size q = Some (of_nat (length xs))"
  using td_rep_length [of q xs]
  by (simp add: TaskDeque_Size_def td_size_now TaskDeque_CalculateSize_gap td_rep_gap min_def)

lemma TaskDeque_Empty_rep:
  assumes "td_rep q xs"
  shows "TaskDeque_Empty q = Some (xs = [])"
proof -
  have len: "length xs \<le> 1024" by (rule td_rep_length [OF assms])
  have z: "(of_nat (length xs) = (0 :: u32)) = (xs = [])"
    using of_nat_inj_small [where ?'a = 32, of "length xs" 0] len by simp
  have "((td_mFront q XOR td_mBack q) AND td_kMask2 = 0) = (xs = [])"
    using td_gap_zero td_rep_gap [OF assms] by (metis length_0_conv)
  with z len show ?thesis
    by (simp add: TaskDeque_Empty_def td_size_now TaskDeque_CalculateSize_gap td_rep_gap [OF assms] min_def Let_def)
qed

lemma TaskDeque_PopBack_none: "td_rep q [] \<Longrightarrow> TaskDeque_PopBack q = Some (None, q)"
  by (simp add: TaskDeque_PopBack_def TaskDeque_Empty_rep)

lemma TaskDeque_PopBack_some:
  assumes rep: "td_rep q (t # xs)"
  shows "\<exists>q1. TaskDeque_PopBack q = Some (Some t, q1) \<and> td_rep q1 xs"
proof -
  let ?j = "td_at (td_mBack q)"
  let ?b = "td_mBack q + 2049"
  let ?q1 = "q\<lparr>td_mBack := ?b, td_mArray := (td_mArray q)(?j := \<lparr>tde_state = td_kEmpty, tde_task = None\<rparr>)\<rparr>"
  have j: "?j = unat (td_mBack q) mod 1024" by (rule td_at_unat)
  have "td_mArray q ?j = \<lparr>tde_state = td_kReady, tde_task = Some t\<rparr>"
    using td_rep_cell [OF rep, of 0] by (simp add: j)
  then have "TaskDeque_PopBack q = Some (Some t, ?q1)"
    by (simp add: TaskDeque_PopBack_def TaskDeque_Empty_rep [OF rep] td_cas_def td_put_def td_kIncrement_num Let_def)
  moreover have "td_rep ?q1 xs"
  proof -
    have len: "length xs < 1024" using rep by (simp add: td_rep_def)
    have "td_mArray ?q1 ((unat ?b + i) mod 1024) = td_cell xs i" if i: "i < 1024" for i
    proof (cases "i = 1023")
      case True
      then show ?thesis
        using td_back_advance [OF unat_succ_mod, of "td_mBack q" i] len j by simp
    next
      case False
      then have "Suc i < 1024" using i by simp
      then show ?thesis
        using td_back_advance [OF unat_succ_mod, of "td_mBack q" i] td_rep_cell [OF rep, of "Suc i"]
          add_mod_eq_iff [of "Suc i" 1024 0 "unat (td_mBack q)"] j by (simp add: td_cell_def)
    qed
    moreover have "unat (td_mFront q) mod 2048 = (unat ?b + length xs) mod 2048"
      using rep mod_add_cong [OF unat_succ_mod refl, of "td_mBack q" "length xs"] by (simp add: td_rep_def)
    ultimately show ?thesis using len by (simp add: td_rep_def)
  qed
  ultimately show ?thesis by blast
qed

subsection \<open>The deque meets its contract\<close>

lemma td_call_refines:
  assumes rep: "td_rep q xs"
  shows "\<exists>r q1 ys. td_call q c = Some (r, q1) \<and> list_call 1024 xs c = (r, ys) \<and> td_rep q1 ys"
proof (cases c)
  case (CallPushFront t)
  then show ?thesis
    using TaskDeque_PushFront_full [OF rep, of t] TaskDeque_PushFront_room [OF rep, of t] td_rep_length [OF rep] rep
    by (cases "length xs < 1024") (auto simp: fifo_push_def)
next
  case CallPopFront
  then show ?thesis
    using TaskDeque_PopFront_none [of q] TaskDeque_PopFront_some [of q "butlast xs" "last xs"] rep
    by (cases "xs = []") (auto simp: lifo_pop_def)
next
  case (CallPushBack t)
  then show ?thesis
    using TaskDeque_PushBack_full [OF rep, of t] TaskDeque_PushBack_room [OF rep, of t] td_rep_length [OF rep] rep
    by (cases "length xs < 1024") (auto simp: back_push_def)
next
  case CallPopBack
  then show ?thesis
    using TaskDeque_PopBack_none [of q] TaskDeque_PopBack_some [of q "hd xs" "tl xs"] rep
    by (cases xs) (auto simp: fifo_pop_def)
qed

interpretation td: bounded_deque td_inv td_abs 1024 td_call
proof unfold_locales
  fix q :: "'a TaskDeque" and c
  assume "td_inv q"
  then show "\<exists>r q1. td_call q c = Some (r, q1) \<and> list_call 1024 (td_abs q) c = (r, td_abs q1) \<and> td_inv q1"
    using td_call_refines [OF td_inv_rep, of q c] by (metis td_rep_abs td_rep_inv)
qed

subsection \<open>Flush and PopBackHalf\<close>

lemma TaskDeque_Flush_drains:
  "td_rep q xs \<Longrightarrow> \<exists>q1. TaskDeque_Flush q = Some q1 \<and> td_rep q1 []"
proof (induction xs arbitrary: q rule: rev_induct)
  case Nil
  then show ?case by (subst TaskDeque_Flush.simps) (simp add: TaskDeque_Empty_rep)
next
  case (snoc t xs)
  obtain q1 where "TaskDeque_PopFront q = (Some t, q1)" "td_rep q1 xs"
    using TaskDeque_PopFront_some [OF snoc.prems] by blast
  with snoc show ?case by (subst TaskDeque_Flush.simps) (simp add: TaskDeque_Empty_rep)
qed

definition td_clear :: "'a TaskDeque \<Rightarrow> nat \<Rightarrow> nat \<Rightarrow> 'a TaskDeque" where
  "td_clear q b k = q\<lparr>td_mArray := (\<lambda>j. if \<exists>i<k. j = (b + i) mod 1024
     then \<lparr>tde_state = td_kEmpty, tde_task = None\<rparr> else td_mArray q j)\<rparr>"

lemma td_clear_0 [simp]: "td_clear q b 0 = q"
  by (simp add: td_clear_def)

lemma td_clear_Suc:
  "td_clear (td_put q ((b + k) mod 1024) \<lparr>tde_state = td_kEmpty, tde_task = None\<rparr>) b k = td_clear q b (Suc k)"
  unfolding td_clear_def td_put_def by (rule TaskDeque.equality) (auto simp: fun_eq_iff less_Suc_eq)

lemma td_half_loop_stop: "td_half_loop q bk (bk - 1) n start res = Some (n, start, res, q)"
  by (subst td_half_loop.simps) simp

lemma td_half_loop_run:
  assumes "\<forall>i\<le>k. td_mArray q ((unat bk + i) mod 1024) = \<lparr>tde_state = td_kReady, tde_task = Some (f i)\<rparr>"
    and "k < 1024" "m \<le> 1024"
  shows "td_half_loop q bk (bk + of_nat k) (of_nat m) start res =
    Some (of_nat (m + k + 1), if m = 0 then bk + of_nat k else start,
          res @ map (\<lambda>i. Some (f i)) (rev [0..<Suc k]), td_clear q (unat bk) (Suc k))"
proof -
  have step: "td_half_loop q bk (bk + of_nat k) (of_nat m) start res =
      td_half_loop (td_put q ((unat bk + k) mod 1024) \<lparr>tde_state = td_kEmpty, tde_task = None\<rparr>) bk
        (bk + of_nat k - 1) (of_nat (Suc m)) (if m = 0 then bk + of_nat k else start) (res @ [Some (f k)])"
    if cells: "td_mArray q ((unat bk + k) mod 1024) = \<lparr>tde_state = td_kReady, tde_task = Some (f k)\<rparr>"
      and k: "k < 1024" and m: "m \<le> 2048"
    for q :: "'a TaskDeque" and k m start res
  proof -
    have "td_at (bk + of_nat k) = (unat bk + k) mod 1024"
      unfolding td_at_def td_kMask_mask using unat_add_of_nat_and_mask [of 10 bk k] by simp
    moreover have "(of_nat m = (0 :: u32)) = (m = 0)"
      using of_nat_inj_small [where ?'a = 32, of m 0] m by simp
    moreover have "\<not> sint (of_nat k :: u32) < 0"
      using sint_small [of "int k"] k by simp
    ultimately show ?thesis
      by (subst td_half_loop.simps) (simp add: cells Let_def add.commute [of 1 "of_nat m"])
  qed
  have "m \<le> 2048 - k \<longrightarrow> ?thesis"
    using assms(1,2)
  proof (induction k arbitrary: q m start res)
    case 0
    then have "td_mArray q ((unat bk + 0) mod 1024) = \<lparr>tde_state = td_kReady, tde_task = Some (f 0)\<rparr>" by blast
    from step [OF this, of m start res] show ?case
      by (auto simp: td_half_loop_stop td_clear_Suc [of q "unat bk" 0, simplified])
  next
    case (Suc k)
    let ?q = "td_put q ((unat bk + Suc k) mod 1024) \<lparr>tde_state = td_kEmpty, tde_task = None\<rparr>"
    have cells: "\<forall>i\<le>k. td_mArray ?q ((unat bk + i) mod 1024) = \<lparr>tde_state = td_kReady, tde_task = Some (f i)\<rparr>"
    proof (intro allI impI)
      fix i assume "i \<le> k"
      then show "td_mArray ?q ((unat bk + i) mod 1024) = \<lparr>tde_state = td_kReady, tde_task = Some (f i)\<rparr>"
        using Suc.prems add_mod_eq_iff [of i 1024 "Suc k" "unat bk"] by (simp add: td_put_def)
    qed
    have top: "td_mArray q ((unat bk + Suc k) mod 1024) = \<lparr>tde_state = td_kReady, tde_task = Some (f (Suc k))\<rparr>"
      using Suc.prems by blast
    show ?case
    proof
      assume m: "m \<le> 2048 - Suc k"
      have IH: "td_half_loop ?q bk (bk + of_nat k) (of_nat (Suc m)) s r =
          Some (of_nat (Suc m + k + 1), s, r @ map (\<lambda>i. Some (f i)) (rev [0..<Suc k]), td_clear ?q (unat bk) (Suc k))"
        for s r
        using Suc.IH [OF cells, of "Suc m" s r] m Suc.prems(2) by simp
      show "td_half_loop q bk (bk + of_nat (Suc k)) (of_nat m) start res =
        Some (of_nat (m + Suc k + 1), if m = 0 then bk + of_nat (Suc k) else start,
          res @ map (\<lambda>i. Some (f i)) (rev [0..<Suc (Suc k)]), td_clear q (unat bk) (Suc (Suc k)))"
        unfolding step [OF top Suc.prems(2) order_trans [OF m diff_le_self]]
        using IH [of "if m = 0 then bk + of_nat (Suc k) else start" "res @ [Some (f (Suc k))]"]
          td_clear_Suc [of q "unat bk" "Suc k"] by simp
    qed
  qed
  then show ?thesis using assms(2,3) by simp
qed

lemma td_half_rep:
  assumes rep: "td_rep q xs" and h: "h < length xs"
  shows "td_rep ((td_clear q (unat (td_mBack q)) (Suc h))\<lparr>td_mBack := td_mBack q + of_nat h + 2049\<rparr>) (drop (Suc h) xs)"
proof -
  let ?b = "td_mBack q + of_nat h + 2049"
  have len: "length xs \<le> 1024" by (rule td_rep_length [OF rep])
  have b2048: "unat ?b mod 2048 = (unat (td_mBack q) + Suc h) mod 2048"
  proof -
    have "unat ?b mod 2048 = (unat (td_mBack q + of_nat h) + 1) mod 2048" by (rule unat_succ_mod)
    also have "\<dots> = (unat (td_mBack q) + h + 1) mod 2048"
      using unat_add_of_nat_and_mask [of 11 "td_mBack q" h] by (intro mod_add_cong) (simp_all add: unat_and_mask)
    finally show ?thesis by simp
  qed
  have slot: "(unat ?b + i) mod 1024 = (unat (td_mBack q) + (Suc h + i)) mod 1024" for i
    using mod_add_cong [OF mod2048_mod1024 [OF b2048] refl, of i] by (simp add: ac_simps)
  have "td_mArray (td_clear q (unat (td_mBack q)) (Suc h)) ((unat ?b + i) mod 1024) = td_cell (drop (Suc h) xs) i"
    if i: "i < 1024" for i
  proof (cases "Suc h + i < 1024")
    case True
    then have "(\<exists>k<Suc h. (unat (td_mBack q) + (Suc h + i)) mod 1024 = (unat (td_mBack q) + k) mod 1024) = False"
      using add_mod_eq_iff [of "Suc h + i" 1024 _ "unat (td_mBack q)"] h len by fastforce
    then show ?thesis
      unfolding slot using td_rep_cell [OF rep True] h by (simp add: td_clear_def td_cell_def)
  next
    case False
    then obtain k where k: "Suc h + i = k + 1024" by (metis add.commute le_Suc_ex not_less)
    then have "(unat (td_mBack q) + (Suc h + i)) mod 1024 = (unat (td_mBack q) + k + 1024) mod 1024"
      by (simp only: add.assoc)
    then have "(unat (td_mBack q) + (Suc h + i)) mod 1024 = (unat (td_mBack q) + k) mod 1024"
      by (simp only: mod_add_self2)
    moreover have "k < Suc h" using k i by simp
    ultimately show ?thesis unfolding slot using False len by (auto simp: td_clear_def td_cell_def)
  qed
  moreover have "unat (td_mFront q) mod 2048 = (unat ?b + length (drop (Suc h) xs)) mod 2048"
  proof -
    have "(unat ?b + length (drop (Suc h) xs)) mod 2048 = (unat (td_mBack q) + Suc h + (length xs - Suc h)) mod 2048"
      unfolding length_drop by (rule mod_add_cong [OF b2048 refl])
    also have "\<dots> = (unat (td_mBack q) + length xs) mod 2048"
      using le_add_diff_inverse [OF Suc_leI [OF h]] by (simp only: add.assoc)
    finally show ?thesis using rep by (simp add: td_rep_def)
  qed
  ultimately show ?thesis using len by (simp add: td_rep_def td_clear_def)
qed

lemma TaskDeque_PopBackHalf_some:
  assumes rep: "td_rep q xs" and ne: "xs \<noteq> []"
  shows "\<exists>q1. TaskDeque_PopBackHalf q =
      Some (of_nat ((length xs + 1) div 2), map Some (rev (take ((length xs + 1) div 2) xs)), q1) \<and>
      td_rep q1 (drop ((length xs + 1) div 2) xs)"
proof -
  let ?n = "length xs"
  obtain h where hdef: "h = (?n - 1) div 2" by blast
  have len: "?n \<le> 1024" "0 < ?n" using td_rep_length [OF rep] ne by auto
  have hh: "h < ?n" "Suc h = (?n + 1) div 2" unfolding hdef using len(2) by presburger+
  have n32: "unat (of_nat ?n :: u32) = ?n" using len by (simp add: unat_of_nat)
  have "(of_nat ?n - 1 :: u32) = of_nat (?n - 1)" using len(2) by (subst of_nat_diff) (simp_all add: Suc_leI)
  moreover have "unat (of_nat (?n - 1) :: u32) = ?n - 1" using len by (simp add: unat_of_nat)
  ultimately have "unat ((of_nat ?n - 1 :: u32) div 2) = h" by (simp add: unat_div hdef)
  then have hw: "(of_nat ?n - 1 :: u32) div 2 = of_nat h"
    using word_unat_inverse [of "(of_nat ?n - 1 :: u32) div 2"] by simp
  have mid: "(if (of_nat ?n :: u32) > 1 then td_mBack q + (of_nat ?n - 1) div 2 else td_mBack q) = td_mBack q + of_nat h"
    using n32 len by (auto simp: hw word_less_nat_alt) (auto simp: hdef)
  have cells: "\<forall>i\<le>h. td_mArray q ((unat (td_mBack q) + i) mod 1024) =
      \<lparr>tde_state = td_kReady, tde_task = Some (xs ! i)\<rparr>"
    using td_rep_cell [OF rep] hh len by simp
  have loop: "td_half_loop q (td_mBack q) (td_mBack q + of_nat h) 0 0 [] =
      Some (of_nat (Suc h), td_mBack q + of_nat h, map (\<lambda>i. Some (xs ! i)) (rev [0..<Suc h]),
        td_clear q (unat (td_mBack q)) (Suc h))"
    using td_half_loop_run [OF cells, of 0 0 "[]"] hh(1) len by (simp del: upt_Suc of_nat_Suc)
  have "(of_nat (Suc h) :: u32) \<noteq> 0"
    using of_nat_inj_small [where ?'a = 32, of "Suc h" 0] hh(1) len by (simp del: of_nat_Suc)
  moreover have "map (\<lambda>i. Some (xs ! i)) (rev [0..<Suc h]) = map Some (rev (take (Suc h) xs))"
    using hh(1) by (intro nth_equalityI) (auto simp: rev_nth simp del: upt_Suc)
  ultimately have "TaskDeque_PopBackHalf q =
      Some (of_nat (Suc h), map Some (rev (take (Suc h) xs)),
        (td_clear q (unat (td_mBack q)) (Suc h))\<lparr>td_mBack := td_mBack q + of_nat h + 2049\<rparr>)"
    using ne by (simp add: TaskDeque_PopBackHalf_def TaskDeque_Empty_rep [OF rep] TaskDeque_Size_rep [OF rep]
        mid loop Let_def td_kIncrement_num del: of_nat_Suc)
  with td_half_rep [OF rep hh(1)] show ?thesis unfolding hh(2) by blast
qed

subsection \<open>Properties\<close>

lemma td_new_inv: "td_inv TaskDeque_new" "td_abs TaskDeque_new = []"
  using td_rep_inv [OF td_rep_new] td_rep_abs [OF td_rep_new] by auto

text \<open>
  C3. Any sequence of calls, of any length, on a new TaskDeque returns (no
  assert fails) and answers as a double-ended list of capacity 1024 does, although the cursors wrap
  around 2^32.
\<close>

theorem TaskDeque_refines_deque:
  "\<exists>rs q. impl_run td_call TaskDeque_new cs = Some (rs, q) \<and> list_run 1024 [] cs = (rs, td_abs q)"
  using td.run_refines [OF td_new_inv(1), of cs] by (auto simp: td_new_inv(2))

text \<open>
  Over any sequence of calls on a new TaskDeque the tasks handed in are
  exactly the tasks handed back (popped, or refused by a full deque) together with the tasks still
  inside: none is lost and none is duplicated.
\<close>

theorem TaskDeque_no_task_lost:
  assumes "impl_run td_call TaskDeque_new cs = Some (rs, q)"
  shows "sum_list (map call_input cs) = sum_list (map answer_mset rs) + mset (td_abs q)"
  using td.run_conserves [OF td_new_inv(1) assms] by (simp add: td_new_inv(2))

text \<open>
  On a well-formed deque PopBackHalf returns without a failed
  assert: it takes the older half of the tasks, rounded up, appends them to the result newest first,
  answers with their number and leaves the others in order.
\<close>

theorem TaskDeque_PopBackHalf_takes_half:
  assumes "td_inv q" "h = (length (td_abs q) + 1) div 2"
  shows "\<exists>q1. TaskDeque_PopBackHalf q = Some (of_nat h, map Some (rev (take h (td_abs q))), q1) \<and>
    td_inv q1 \<and> td_abs q1 = drop h (td_abs q)"
proof (cases "td_abs q = []")
  case True
  then show ?thesis
    using td_inv_rep [OF assms(1)] assms by (auto simp: TaskDeque_PopBackHalf_def TaskDeque_Empty_rep)
next
  case False
  then show ?thesis
    using TaskDeque_PopBackHalf_some [OF td_inv_rep [OF assms(1)]] assms(2) td_rep_abs td_rep_inv by blast
qed

lemma td_three: "\<exists>q. impl_run td_call TaskDeque_new [CallPushFront 1, CallPushFront 2, CallPushFront (3::nat)] =
    Some ([None, None, None], q) \<and> td_inv q \<and> td_abs q = [1, 2, 3]"
  using td.run_refines [OF td_new_inv(1), of "[CallPushFront 1, CallPushFront 2, CallPushFront (3::nat)]"]
  by (auto simp: td_new_inv(2) fifo_push_def)

theorem TaskDeque_PopBackHalf_takes_half_witness:
  "\<exists>q rs q1. impl_run td_call TaskDeque_new [CallPushFront 1, CallPushFront 2, CallPushFront (3::nat)] = Some (rs, q) \<and>
     TaskDeque_PopBackHalf q = Some (2, [Some 2, Some 1], q1) \<and> td_abs q1 = [3]"
proof -
  obtain q where q: "impl_run td_call TaskDeque_new [CallPushFront 1, CallPushFront 2, CallPushFront (3::nat)] =
      Some ([None, None, None], q)" "td_inv q" "td_abs q = [1, 2, 3]"
    using td_three by blast
  then show ?thesis using TaskDeque_PopBackHalf_takes_half [OF q(2), of 2] by auto
qed

text \<open>
  With no operation in flight Size is the exact number of tasks, Empty tells
  whether there are none, and Flush ends with an empty deque; no assert fails.
\<close>

lemma TaskDeque_Size_exact:
  assumes "td_inv q"
  shows "TaskDeque_Size q = Some (of_nat (length (td_abs q))) \<and> TaskDeque_Empty q = Some (td_abs q = []) \<and>
    (\<exists>q1. TaskDeque_Flush q = Some q1 \<and> td_inv q1 \<and> td_abs q1 = [] \<and> TaskDeque_Size q1 = Some 0)"
proof -
  note rep = td_inv_rep [OF assms]
  obtain q1 where q1: "TaskDeque_Flush q = Some q1" "td_rep q1 []" using TaskDeque_Flush_drains [OF rep] by blast
  show ?thesis
    using TaskDeque_Size_rep [OF rep] TaskDeque_Empty_rep [OF rep] q1(1) td_rep_abs [OF q1(2)]
      td_rep_inv [OF q1(2)] TaskDeque_Size_rep [OF q1(2)] by auto
qed

end
