(* ===== verification/Event_Count.thy ===== *)
theory Event_Count
  imports Prelude
begin

text \<open>
  The blocking protocol of \<^verbatim>\<open>src/async/concurrent/event_count.h\<close> (class EventCount). The 64-bit state
  packs the top of the stack of parked waiters, the number of threads between Prewait and
  CommitWait/CancelWait, the number of pending signals and an ABA counter. Each operation is a
  compare-exchange loop whose failed iterations have no effect on shared state, so its model is the
  effect of the successful iteration on the current state; \<open>None\<close> is a failed assert (or an index
  outside the waiter vector). Parking is a separate step of the waiting thread.

  What this merges: the load of the state, of the next pointer of the top waiter and the compare-exchange
  are one step, so a compare-exchange that would succeed on an outdated next pointer (which the ABA counter
  is there to prevent) is not a behaviour of the model; and the walk of Unpark over the waiters that a
  successful compare-exchange of Notify took off the stack, which no other thread refers to then, belongs
  to the same step. cv.notify_one of Unpark is the enabling of Park in a waiter whose state is kSignaled.
\<close>

subsection \<open>Layout constants\<close>

definition ec_kCounterBits :: nat where "ec_kCounterBits = 14"
definition ec_kCounterMask :: u64 where "ec_kCounterMask = push_bit ec_kCounterBits 1 - 1"
definition ec_kStackMask :: u64 where "ec_kStackMask = ec_kCounterMask"
definition ec_kWaiterShift :: nat where "ec_kWaiterShift = ec_kCounterBits"
definition ec_kWaiterMask :: u64 where "ec_kWaiterMask = push_bit ec_kWaiterShift ec_kCounterMask"
definition ec_kWaiterInc :: u64 where "ec_kWaiterInc = push_bit ec_kWaiterShift 1"
definition ec_kSignalShift :: nat where "ec_kSignalShift = 2 * ec_kCounterBits"
definition ec_kSignalMask :: u64 where "ec_kSignalMask = push_bit ec_kSignalShift ec_kCounterMask"
definition ec_kSignalInc :: u64 where "ec_kSignalInc = push_bit ec_kSignalShift 1"
definition ec_kEpochShift :: nat where "ec_kEpochShift = 3 * ec_kCounterBits"
definition ec_kEpochBits :: nat where "ec_kEpochBits = 64 - ec_kEpochShift"
definition ec_kEpochMask :: u64 where
  "ec_kEpochMask = push_bit ec_kEpochShift (push_bit ec_kEpochBits 1 - 1)"
definition ec_kEpochInc :: u64 where "ec_kEpochInc = push_bit ec_kEpochShift 1"

subsection \<open>State\<close>

datatype ec_wstate = kNotSignaled | kWaiting | kSignaled

record ec_waiter =
  ecw_next :: u64
  ecw_epoch :: u64
  ecw_state :: ec_wstate

record EventCount =
  ec_mState :: u64
  ec_mWaiters :: "ec_waiter list"

definition EventCount_new :: "nat \<Rightarrow> EventCount option" where
  "EventCount_new num_waiters =
     (if num_waiters < 2 ^ ec_kCounterBits - 1
      then Some \<lparr>ec_mState = ec_kStackMask,
                 ec_mWaiters = replicate num_waiters \<lparr>ecw_next = 0, ecw_epoch = 0, ecw_state = kNotSignaled\<rparr>\<rparr>
      else None)"

definition EventCount_CheckState :: "u64 \<Rightarrow> bool \<Rightarrow> bool" where
  "EventCount_CheckState state waiter =
     (let waiters = drop_bit ec_kWaiterShift (state AND ec_kWaiterMask);
          signals = drop_bit ec_kSignalShift (state AND ec_kSignalMask)
      in signals \<le> waiters \<and> waiters < push_bit ec_kCounterBits 1 - 1 \<and> (waiter \<longrightarrow> 0 < waiters))"

subsection \<open>Operations\<close>

definition EventCount_Prewait :: "EventCount \<Rightarrow> EventCount option" where
  "EventCount_Prewait e =
     (let state = ec_mState e; newstate = state + ec_kWaiterInc in
      if EventCount_CheckState state False \<and> EventCount_CheckState newstate False
      then Some (e\<lparr>ec_mState := newstate\<rparr>) else None)"

text \<open>
  CommitWait by the owner of waiter \<open>i\<close>, up to the call of Park: \<open>True\<close> tells that the thread
  must park, \<open>False\<close> that it consumed a signal and returns.
\<close>

definition EventCount_CommitWait :: "EventCount \<Rightarrow> nat \<Rightarrow> (bool \<times> EventCount) option" where
  "EventCount_CommitWait e i =
     (if i < length (ec_mWaiters e) \<and> ecw_epoch (ec_mWaiters e ! i) AND NOT ec_kEpochMask = 0 then
        let w = (ec_mWaiters e ! i)\<lparr>ecw_state := kNotSignaled\<rparr>;
            me = of_nat i OR ecw_epoch w;
            state = ec_mState e;
            signalled = (state AND ec_kSignalMask \<noteq> 0);
            newstate = (if signalled then state - ec_kWaiterInc - ec_kSignalInc
                        else ((state AND ec_kWaiterMask) - ec_kWaiterInc) OR me);
            w1 = (if signalled then w
                  else w\<lparr>ecw_next := state AND (ec_kStackMask OR ec_kEpochMask)\<rparr>)
        in if EventCount_CheckState state True \<and> EventCount_CheckState newstate False
           then if signalled
             then Some (False, e\<lparr>ec_mState := newstate, ec_mWaiters := (ec_mWaiters e)[i := w1]\<rparr>)
             else Some (True, e\<lparr>ec_mState := newstate,
                    ec_mWaiters := (ec_mWaiters e)[i := w1\<lparr>ecw_epoch := ecw_epoch w1 + ec_kEpochInc\<rparr>]\<rparr>)
           else None
      else None)"

definition EventCount_CancelWait :: "EventCount \<Rightarrow> EventCount option" where
  "EventCount_CancelWait e =
     (let state = ec_mState e;
          newstate = state - ec_kWaiterInc;
          newstate1 = (if drop_bit ec_kWaiterShift (state AND ec_kWaiterMask) =
                          drop_bit ec_kSignalShift (state AND ec_kSignalMask)
                       then newstate - ec_kSignalInc else newstate)
      in if EventCount_CheckState state True \<and> EventCount_CheckState newstate1 False
         then Some (e\<lparr>ec_mState := newstate1\<rparr>) else None)"

text \<open>Unpark follows the next links from waiter \<open>w\<close> and signals every waiter on the way.\<close>

partial_function (option) EventCount_Unpark :: "ec_waiter list \<Rightarrow> nat \<Rightarrow> ec_waiter list option" where
  "EventCount_Unpark ws w =
     (if w < length ws then
        let wnext = ecw_next (ws ! w) AND ec_kStackMask;
            ws1 = ws[w := (ws ! w)\<lparr>ecw_state := kSignaled\<rparr>]
        in if wnext = ec_kStackMask then Some ws1 else EventCount_Unpark ws1 (unat wnext)
      else None)"

definition EventCount_Notify :: "EventCount \<Rightarrow> bool \<Rightarrow> EventCount option" where
  "EventCount_Notify e notify_all =
     (let state = ec_mState e; ws = ec_mWaiters e;
          waiters = drop_bit ec_kWaiterShift (state AND ec_kWaiterMask);
          signals = drop_bit ec_kSignalShift (state AND ec_kSignalMask);
          top = unat (state AND ec_kStackMask)
      in if \<not> EventCount_CheckState state False then None
         else if state AND ec_kStackMask = ec_kStackMask \<and> waiters = signals then Some e
         else if \<not> notify_all \<and> \<not> signals < waiters \<and> \<not> top < length ws then None
         else
           let newstate =
                 (if notify_all
                  then (state AND ec_kWaiterMask) OR push_bit ec_kSignalShift waiters OR ec_kStackMask
                  else if signals < waiters then state + ec_kSignalInc
                  else (state AND (ec_kWaiterMask OR ec_kSignalMask)) OR ecw_next (ws ! top))
           in if \<not> EventCount_CheckState newstate False then None
              else if \<not> notify_all \<and> signals < waiters then Some (e\<lparr>ec_mState := newstate\<rparr>)
              else if state AND ec_kStackMask = ec_kStackMask then Some (e\<lparr>ec_mState := newstate\<rparr>)
              else
                let ws1 = (if notify_all then ws else ws[top := (ws ! top)\<lparr>ecw_next := ec_kStackMask\<rparr>])
                in map_option (\<lambda>ws2. \<lparr>ec_mState = newstate, ec_mWaiters = ws2\<rparr>) (EventCount_Unpark ws1 top))"

text \<open>
  One round of Park: the thread leaves when it has been signalled, otherwise it marks itself as
  waiting and sleeps on its condition variable.
\<close>

definition EventCount_Park :: "ec_waiter \<Rightarrow> bool \<times> ec_waiter" where
  "EventCount_Park w = (if ecw_state w = kSignaled then (True, w) else (False, w\<lparr>ecw_state := kWaiting\<rparr>))"

subsection \<open>The packed state\<close>

text \<open>
  A state word is split into the stack and epoch bits \<open>v\<close> and the two counters. \<open>ec_free v\<close> says
  that \<open>v\<close> has no bit inside the counters.
\<close>

definition ec_mid :: u64 where "ec_mid = ec_kWaiterMask OR ec_kSignalMask"

definition ec_free :: "u64 \<Rightarrow> bool" where "ec_free v \<longleftrightarrow> v AND ec_mid = 0"

definition ec_word :: "u64 \<Rightarrow> nat \<Rightarrow> nat \<Rightarrow> u64" where
  "ec_word v p s = v OR push_bit 14 (of_nat p) OR push_bit 28 (of_nat s)"

lemmas ec_layout = ec_kCounterBits_def ec_kCounterMask_def ec_kStackMask_def ec_kWaiterShift_def
  ec_kWaiterMask_def ec_kWaiterInc_def ec_kSignalShift_def ec_kSignalMask_def ec_kSignalInc_def
  ec_kEpochShift_def ec_kEpochBits_def ec_kEpochMask_def ec_kEpochInc_def ec_mid_def

lemma ec_kCounterMask_mask: "ec_kCounterMask = mask 14"
  by (simp add: ec_kCounterMask_def ec_kCounterBits_def mask_eq_exp_minus_1)

lemma ec_kStackMask_mask: "ec_kStackMask = mask 14"
  by (simp add: ec_kStackMask_def ec_kCounterMask_mask)

lemma ec_kWaiterMask_mask: "ec_kWaiterMask = push_bit 14 (mask 14)"
  by (simp add: ec_kWaiterMask_def ec_kCounterMask_mask ec_kWaiterShift_def ec_kCounterBits_def)

lemma ec_kSignalMask_mask: "ec_kSignalMask = push_bit 28 (mask 14)"
  by (simp add: ec_kSignalMask_def ec_kCounterMask_mask ec_kSignalShift_def ec_kCounterBits_def)

lemma ec_kEpochMask_mask: "ec_kEpochMask = push_bit 42 (mask 22)"
  by (simp add: ec_kEpochMask_def ec_kEpochShift_def ec_kEpochBits_def ec_kCounterBits_def mask_eq_exp_minus_1)

lemmas ec_masks = ec_kStackMask_mask ec_kWaiterMask_mask ec_kSignalMask_mask ec_kEpochMask_mask

lemma ec_free_bit: "ec_free v \<Longrightarrow> 14 \<le> n \<Longrightarrow> n < 42 \<Longrightarrow> \<not> bit v n"
  by (auto simp: ec_free_def ec_mid_def ec_masks bit_eq_iff bit_simps dest!: spec [of _ n])

lemma ec_freeI: "(\<And>n. 14 \<le> n \<Longrightarrow> n < 42 \<Longrightarrow> \<not> bit v n) \<Longrightarrow> ec_free v"
  by (auto simp: ec_free_def ec_mid_def ec_masks bit_eq_iff bit_simps)

text \<open>Bitwise facts about a packed word with counters below \<open>2^14\<close>.\<close>

lemma ec_word_bit:
  assumes "ec_free v" "p < 2 ^ 14" "s < 2 ^ 14" "n < 64"
  shows "bit (ec_word v p s) n =
    (if n < 14 then bit v n else if n < 28 then bit p (n - 14)
     else if n < 42 then bit s (n - 28) else bit v n)"
  using assms nat_bit_small [OF assms(2), of "n - 14"] nat_bit_small [OF assms(3), of "n - 28"]
    ec_free_bit [OF assms(1), of n]
  by (auto simp: ec_word_def bit_simps)

lemma ec_word_waiters:
  assumes "ec_free v" "p < 2 ^ 14" "s < 2 ^ 14"
  shows "drop_bit ec_kWaiterShift (ec_word v p s AND ec_kWaiterMask) = of_nat p"
proof (rule bit_word_eqI)
  fix n assume "n < LENGTH(64)"
  then show "bit (drop_bit ec_kWaiterShift (ec_word v p s AND ec_kWaiterMask)) n = bit (of_nat p :: u64) n"
    using nat_bit_small [OF assms(2), of n]
    by (cases "n < 14")
      (auto simp: ec_word_bit [OF assms] ec_masks ec_kWaiterShift_def ec_kCounterBits_def bit_simps)
qed

lemma ec_word_signals:
  assumes "ec_free v" "p < 2 ^ 14" "s < 2 ^ 14"
  shows "drop_bit ec_kSignalShift (ec_word v p s AND ec_kSignalMask) = of_nat s"
proof (rule bit_word_eqI)
  fix n assume "n < LENGTH(64)"
  then show "bit (drop_bit ec_kSignalShift (ec_word v p s AND ec_kSignalMask)) n = bit (of_nat s :: u64) n"
    using nat_bit_small [OF assms(3), of n]
    by (cases "n < 14")
      (auto simp: ec_word_bit [OF assms] ec_masks ec_kSignalShift_def ec_kCounterBits_def bit_simps)
qed

lemma ec_word_stack:
  assumes "ec_free v" "p < 2 ^ 14" "s < 2 ^ 14"
  shows "ec_word v p s AND ec_kStackMask = v AND ec_kStackMask"
  by (rule bit_word_eqI) (auto simp: ec_word_bit [OF assms] ec_masks bit_simps)

lemma ec_word_free:
  assumes "ec_free v" "p < 2 ^ 14" "s < 2 ^ 14"
  shows "ec_word v p s AND (ec_kStackMask OR ec_kEpochMask) = v"
proof (rule bit_word_eqI)
  fix n assume "n < LENGTH(64)"
  then show "bit (ec_word v p s AND (ec_kStackMask OR ec_kEpochMask)) n = bit v n"
    using ec_free_bit [OF assms(1), of n]
    by (cases "n < 14"; cases "n < 42") (auto simp: ec_word_bit [OF assms] ec_masks bit_simps)
qed

lemma ec_word_add:
  assumes "ec_free v" "p < 2 ^ 14" "s < 2 ^ 14"
  shows "ec_word v p s = v + of_nat p * 2 ^ 14 + of_nat s * 2 ^ 28"
proof -
  have "\<not> (bit v n \<and> bit (push_bit 14 (of_nat p) :: u64) n)" for n
    using nat_bit_small [OF assms(2), of "n - 14"] ec_free_bit [OF assms(1), of n]
    by (cases "n < 28") (auto simp: bit_simps)
  then have 1: "v AND push_bit 14 (of_nat p) = 0" by (simp add: bit_eq_iff bit_simps)
  have "\<not> (bit (v OR push_bit 14 (of_nat p)) n \<and> bit (push_bit 28 (of_nat s) :: u64) n)" for n
    using nat_bit_small [OF assms(2), of "n - 14"] nat_bit_small [OF assms(3), of "n - 28"]
      ec_free_bit [OF assms(1), of n]
    by (cases "n < 42") (auto simp: bit_simps)
  then have 2: "(v OR push_bit 14 (of_nat p)) AND push_bit 28 (of_nat s) = 0" by (simp add: bit_eq_iff bit_simps)
  show ?thesis
    unfolding ec_word_def or.assoc [symmetric]
    using 1 2 by (simp add: disjunctive_add_eq_or [symmetric] push_bit_eq_mult)
qed

lemma ec_kWaiterInc_pow: "ec_kWaiterInc = 2 ^ 14"
  by (simp add: ec_kWaiterInc_def ec_kWaiterShift_def ec_kCounterBits_def)

lemma ec_kSignalInc_pow: "ec_kSignalInc = 2 ^ 28"
  by (simp add: ec_kSignalInc_def ec_kSignalShift_def ec_kCounterBits_def)

lemma ec_word_inc_waiter:
  assumes "ec_free v" "Suc p < 2 ^ 14" "s < 2 ^ 14"
  shows "ec_word v p s + ec_kWaiterInc = ec_word v (Suc p) s"
  using assms by (simp add: ec_word_add ec_kWaiterInc_pow algebra_simps)

lemma ec_word_dec_waiter:
  assumes "ec_free v" "Suc p < 2 ^ 14" "s < 2 ^ 14"
  shows "ec_word v (Suc p) s - ec_kWaiterInc = ec_word v p s"
  using assms by (simp add: ec_word_add ec_kWaiterInc_pow algebra_simps)

lemma ec_word_inc_signal:
  assumes "ec_free v" "p < 2 ^ 14" "Suc s < 2 ^ 14"
  shows "ec_word v p s + ec_kSignalInc = ec_word v p (Suc s)"
  using assms by (simp add: ec_word_add ec_kSignalInc_pow algebra_simps)

lemma ec_word_dec_signal:
  assumes "ec_free v" "p < 2 ^ 14" "Suc s < 2 ^ 14"
  shows "ec_word v p (Suc s) - ec_kSignalInc = ec_word v p s"
  using assms by (simp add: ec_word_add ec_kSignalInc_pow algebra_simps)

lemma ec_free_0 [simp]: "ec_free 0"
  by (simp add: ec_free_def)

lemma ec_free_stack [simp]: "ec_free ec_kStackMask"
  by (rule ec_freeI) (simp add: ec_masks bit_simps)

lemma ec_word_waiter_part:
  assumes "ec_free v" "p < 2 ^ 14" "s < 2 ^ 14"
  shows "ec_word v p s AND ec_kWaiterMask = ec_word 0 p 0"
proof (rule bit_word_eqI)
  fix n assume "n < LENGTH(64)"
  then show "bit (ec_word v p s AND ec_kWaiterMask) n = bit (ec_word 0 p 0) n"
    using assms by (simp add: ec_word_bit ec_masks bit_simps) auto
qed

lemma ec_word_mid_part:
  assumes "ec_free v" "p < 2 ^ 14" "s < 2 ^ 14"
  shows "ec_word v p s AND (ec_kWaiterMask OR ec_kSignalMask) = ec_word 0 p s"
proof (rule bit_word_eqI)
  fix n assume "n < LENGTH(64)"
  then show "bit (ec_word v p s AND (ec_kWaiterMask OR ec_kSignalMask)) n = bit (ec_word 0 p s) n"
    using assms by (simp add: ec_word_bit ec_masks bit_simps) auto
qed

lemma ec_word_or_free: "ec_word 0 p s OR v = ec_word v p s"
  by (simp add: ec_word_def ac_simps)

lemma ec_word_or_signals: "ec_word 0 p 0 OR push_bit 28 (of_nat s) OR v = ec_word v p s"
  by (simp add: ec_word_def ac_simps)

lemma ec_word_has_signal:
  assumes "ec_free v" "p < 2 ^ 14" "s < 2 ^ 14"
  shows "ec_word v p s AND ec_kSignalMask = 0 \<longleftrightarrow> s = 0"
proof
  assume "ec_word v p s AND ec_kSignalMask = 0"
  then have "(of_nat s :: u64) = of_nat 0" using ec_word_signals [OF assms] by simp
  then show "s = 0" using of_nat_inj_small [where ?'a = 64, of s 0] assms by simp
next
  assume "s = 0"
  then show "ec_word v p s AND ec_kSignalMask = 0"
    using assms by (intro bit_word_eqI) (auto simp: ec_word_bit ec_masks bit_simps)
qed

lemma ec_of_nat_le [simp]:
  assumes "p < 2 ^ 14" "s < 2 ^ 14"
  shows "(of_nat s :: u64) \<le> of_nat p \<longleftrightarrow> s \<le> p" "(of_nat s :: u64) < of_nat p \<longleftrightarrow> s < p"
    "(of_nat s :: u64) = of_nat p \<longleftrightarrow> s = p"
  using assms of_nat_inj_small [where ?'a = 64, of s p]
  by (simp_all add: word_le_nat_alt word_less_nat_alt unat_of_nat)

lemma ec_CheckState_word:
  assumes "ec_free v" "p < 2 ^ 14" "s < 2 ^ 14"
  shows "EventCount_CheckState (ec_word v p s) w \<longleftrightarrow> s \<le> p \<and> p < 16383 \<and> (w \<longrightarrow> 0 < p)"
proof -
  have "(of_nat p :: u64) < 16383 \<longleftrightarrow> p < 16383" "(0 :: u64) < of_nat p \<longleftrightarrow> 0 < p"
    using assms by (simp_all add: word_less_nat_alt unat_of_nat)
  then show ?thesis
    unfolding EventCount_CheckState_def Let_def ec_word_waiters [OF assms] ec_word_signals [OF assms]
    using assms by (simp add: ec_kCounterBits_def)
qed

subsection \<open>The stack of parked waiters\<close>

text \<open>
  \<open>ec_chain ws is v\<close>: starting from the stack and epoch bits \<open>v\<close>, the next links of the waiters
  \<open>ws\<close> enumerate exactly the list \<open>is\<close>.
\<close>

fun ec_chain :: "ec_waiter list \<Rightarrow> nat list \<Rightarrow> u64 \<Rightarrow> bool" where
  "ec_chain ws [] v \<longleftrightarrow> ec_free v \<and> v AND ec_kStackMask = ec_kStackMask"
| "ec_chain ws (i # is) v \<longleftrightarrow> ec_free v \<and> i < length ws \<and> v AND ec_kStackMask = of_nat i \<and>
     ec_chain ws is (ecw_next (ws ! i))"

lemma ec_chain_free: "ec_chain ws is v \<Longrightarrow> ec_free v"
  by (cases "is") auto

lemma ec_chain_cong:
  assumes "length ws' = length ws" "\<And>i. i \<in> set is \<Longrightarrow> ecw_next (ws' ! i) = ecw_next (ws ! i)"
  shows "ec_chain ws' is v = ec_chain ws is v"
  using assms by (induction "is" arbitrary: v) auto

lemma ec_chain_bound: "ec_chain ws is v \<Longrightarrow> i \<in> set is \<Longrightarrow> i < length ws"
  by (induction "is" arbitrary: v) auto

lemma ec_index_not_mask:
  assumes "i < 16383"
  shows "(of_nat i :: u64) \<noteq> ec_kStackMask" "unat (of_nat i :: u64) = i"
proof -
  have "ec_kStackMask = of_nat 16383" by (simp add: ec_layout)
  then show "(of_nat i :: u64) \<noteq> ec_kStackMask"
    using of_nat_inj_small [where ?'a = 64, of i 16383] assms by simp
  show "unat (of_nat i :: u64) = i" using assms by (simp add: unat_of_nat)
qed

lemma EventCount_Unpark_chain:
  assumes "ec_chain ws (i # is) v" "distinct (i # is)" "length ws < 16383"
  shows "\<exists>ws'. EventCount_Unpark ws i = Some ws' \<and> length ws' = length ws \<and>
    (\<forall>j<length ws. ws' ! j = (if j \<in> set (i # is) then (ws ! j)\<lparr>ecw_state := kSignaled\<rparr> else ws ! j))"
  using assms
proof (induction "is" arbitrary: ws i v)
  case Nil
  then show ?case by (subst EventCount_Unpark.simps) (auto simp: Let_def nth_list_update)
next
  case (Cons k ks)
  let ?ws = "ws[i := (ws ! i)\<lparr>ecw_state := kSignaled\<rparr>]"
  have i: "i < length ws" and nxt: "ecw_next (ws ! i) AND ec_kStackMask = of_nat k" "k < length ws"
    using Cons.prems(1) by auto
  have "ec_chain ?ws (k # ks) (ecw_next (ws ! i))"
  proof -
    have "ec_chain ws (k # ks) (ecw_next (ws ! i))" using Cons.prems(1) by simp
    moreover have "ec_chain ?ws (k # ks) (ecw_next (ws ! i)) = ec_chain ws (k # ks) (ecw_next (ws ! i))"
      by (rule ec_chain_cong) (use i in \<open>auto simp: nth_list_update\<close>)
    ultimately show ?thesis by simp
  qed
  then obtain ws' where ws': "EventCount_Unpark ?ws k = Some ws'" "length ws' = length ws"
      "\<forall>j<length ws. ws' ! j = (if j \<in> set (k # ks) then (?ws ! j)\<lparr>ecw_state := kSignaled\<rparr> else ?ws ! j)"
    using Cons.IH [of ?ws k] Cons.prems by auto
  have "EventCount_Unpark ws i = Some ws'"
    using i nxt ws'(1) ec_index_not_mask [of k] Cons.prems(3)
    by (subst EventCount_Unpark.simps) (simp add: Let_def)
  moreover have "\<forall>j<length ws. ws' ! j = (if j \<in> set (i # k # ks) then (ws ! j)\<lparr>ecw_state := kSignaled\<rparr> else ws ! j)"
    using ws'(3) i Cons.prems(2) by (auto simp: nth_list_update)
  ultimately show ?case using ws'(2) by blast
qed

subsection \<open>Representation of the abstract counters\<close>

record ec_abs =
  eca_stack :: "nat list"
  eca_pre :: nat
  eca_sig :: nat

definition ec_rep :: "EventCount \<Rightarrow> ec_abs \<Rightarrow> bool" where
  "ec_rep e a \<longleftrightarrow>
     (\<exists>v. ec_mState e = ec_word v (eca_pre a) (eca_sig a) \<and> ec_chain (ec_mWaiters e) (eca_stack a) v) \<and>
     distinct (eca_stack a) \<and> eca_sig a \<le> eca_pre a \<and> eca_pre a < 16383 \<and>
     length (ec_mWaiters e) < 16383 \<and>
     (\<forall>w\<in>set (ec_mWaiters e). ecw_epoch w AND NOT ec_kEpochMask = 0)"

text \<open>The abstract operations: counters and a stack.\<close>

definition eca_prewait :: "ec_abs \<Rightarrow> ec_abs" where
  "eca_prewait a = a\<lparr>eca_pre := Suc (eca_pre a)\<rparr>"

definition eca_commit :: "nat \<Rightarrow> ec_abs \<Rightarrow> bool \<times> ec_abs" where
  "eca_commit i a =
     (if 0 < eca_sig a then (False, a\<lparr>eca_pre := eca_pre a - 1, eca_sig := eca_sig a - 1\<rparr>)
      else (True, a\<lparr>eca_pre := eca_pre a - 1, eca_stack := i # eca_stack a\<rparr>))"

definition eca_cancel :: "ec_abs \<Rightarrow> ec_abs" where
  "eca_cancel a = a\<lparr>eca_pre := eca_pre a - 1,
     eca_sig := (if eca_pre a = eca_sig a then eca_sig a - 1 else eca_sig a)\<rparr>"

definition eca_notify :: "bool \<Rightarrow> ec_abs \<Rightarrow> ec_abs" where
  "eca_notify all a =
     (if all then a\<lparr>eca_stack := [], eca_sig := eca_pre a\<rparr>
      else if eca_sig a < eca_pre a then a\<lparr>eca_sig := Suc (eca_sig a)\<rparr>
      else a\<lparr>eca_stack := tl (eca_stack a)\<rparr>)"

text \<open>Which waiters a notification unparks.\<close>

definition eca_woken :: "bool \<Rightarrow> ec_abs \<Rightarrow> nat set" where
  "eca_woken all a =
     (if all then set (eca_stack a)
      else if eca_sig a < eca_pre a then {}
      else set (take 1 (eca_stack a)))"

subsection \<open>Every operation implements its abstract counterpart\<close>

lemma ec_repE:
  assumes "ec_rep e a"
  obtains v where "ec_mState e = ec_word v (eca_pre a) (eca_sig a)"
    "ec_chain (ec_mWaiters e) (eca_stack a) v" "ec_free v"
    "eca_pre a < 2 ^ 14" "eca_sig a < 2 ^ 14" "eca_sig a \<le> eca_pre a" "eca_pre a < 16383"
    "length (ec_mWaiters e) < 16383" "distinct (eca_stack a)"
    "\<forall>w\<in>set (ec_mWaiters e). ecw_epoch w AND NOT ec_kEpochMask = 0"
  using assms ec_chain_free unfolding ec_rep_def by fastforce

lemma EventCount_Prewait_rep:
  assumes "ec_rep e a" "Suc (eca_pre a) < 16383"
  shows "\<exists>e'. EventCount_Prewait e = Some e' \<and> ec_rep e' (eca_prewait a) \<and> ec_mWaiters e' = ec_mWaiters e"
proof -
  from assms(1) obtain v where v: "ec_mState e = ec_word v (eca_pre a) (eca_sig a)"
    "ec_chain (ec_mWaiters e) (eca_stack a) v" "ec_free v"
    "eca_pre a < 2 ^ 14" "eca_sig a < 2 ^ 14" "eca_sig a \<le> eca_pre a"
    by (rule ec_repE)
  have inc: "ec_mState e + ec_kWaiterInc = ec_word v (Suc (eca_pre a)) (eca_sig a)"
    unfolding v(1) using v assms(2) by (intro ec_word_inc_waiter) simp_all
  have "EventCount_CheckState (ec_mState e) False"
    "EventCount_CheckState (ec_word v (Suc (eca_pre a)) (eca_sig a)) False"
    unfolding v(1) using v assms(2) by (simp_all add: ec_CheckState_word)
  then have "EventCount_Prewait e = Some (e\<lparr>ec_mState := ec_word v (Suc (eca_pre a)) (eca_sig a)\<rparr>)"
    by (simp add: EventCount_Prewait_def Let_def inc)
  then show ?thesis
    using assms v by (auto simp: ec_rep_def eca_prewait_def)
qed

lemma EventCount_CancelWait_rep:
  assumes "ec_rep e a" "0 < eca_pre a"
  shows "\<exists>e'. EventCount_CancelWait e = Some e' \<and> ec_rep e' (eca_cancel a) \<and> ec_mWaiters e' = ec_mWaiters e"
proof -
  from assms(1) obtain v where v: "ec_mState e = ec_word v (eca_pre a) (eca_sig a)"
    "ec_chain (ec_mWaiters e) (eca_stack a) v" "ec_free v"
    "eca_pre a < 2 ^ 14" "eca_sig a < 2 ^ 14" "eca_sig a \<le> eca_pre a" "eca_pre a < 16383"
    by (rule ec_repE)
  obtain p where p: "eca_pre a = Suc p" using assms(2) gr0_conv_Suc by auto
  define s where "s = eca_sig (eca_cancel a)"
  have s: "s = (if eca_pre a = eca_sig a then eca_sig a - 1 else eca_sig a)" "s \<le> p"
    using v(6) p by (auto simp: s_def eca_cancel_def)
  have dec: "ec_mState e - ec_kWaiterInc = ec_word v p (eca_sig a)"
    unfolding v(1) p using v p by (intro ec_word_dec_waiter) simp_all
  have dec2: "(if drop_bit ec_kWaiterShift (ec_mState e AND ec_kWaiterMask) =
                 drop_bit ec_kSignalShift (ec_mState e AND ec_kSignalMask)
              then ec_mState e - ec_kWaiterInc - ec_kSignalInc else ec_mState e - ec_kWaiterInc) = ec_word v p s"
  proof (cases "eca_pre a = eca_sig a")
    case True
    then have sp: "eca_sig a = Suc p" "s = p" using p s by simp_all
    then have "ec_word v p (eca_sig a) - ec_kSignalInc = ec_word v p s"
      using p v ec_word_dec_signal [of v p p] by simp
    then show ?thesis
      unfolding dec unfolding v(1) ec_word_waiters [OF v(3-5)] ec_word_signals [OF v(3-5)]
      using True by simp
  next
    case False
    then have "(of_nat (eca_pre a) :: u64) \<noteq> of_nat (eca_sig a)" using v(4,5) ec_of_nat_le(3) by blast
    then show ?thesis
      unfolding dec using False s(1) unfolding v(1) ec_word_waiters [OF v(3-5)] ec_word_signals [OF v(3-5)] by simp
  qed
  have "EventCount_CheckState (ec_mState e) True" "EventCount_CheckState (ec_word v p s) False"
    unfolding v(1) using v p s by (simp_all add: ec_CheckState_word)
  then have "EventCount_CancelWait e = Some (e\<lparr>ec_mState := ec_word v p s\<rparr>)"
    unfolding EventCount_CancelWait_def Let_def dec2 by simp
  moreover have "eca_pre (eca_cancel a) = p" "eca_stack (eca_cancel a) = eca_stack a"
    by (simp_all add: eca_cancel_def p)
  ultimately show ?thesis
    using assms(1) v p s(2) by (auto simp: ec_rep_def s_def [symmetric])
qed

lemma ec_epoch_bit: "w AND NOT ec_kEpochMask = 0 \<Longrightarrow> n < 42 \<Longrightarrow> \<not> bit (w :: u64) n"
  by (auto simp: ec_masks bit_eq_iff bit_simps dest!: spec [of _ n])

lemma ec_epoch_aligned: "w AND NOT ec_kEpochMask = 0 \<longleftrightarrow> take_bit 42 (w :: u64) = 0"
proof -
  have "n < 64 \<Longrightarrow> \<not> 42 \<le> n \<longleftrightarrow> n < 42" for n :: nat by auto
  then show ?thesis by (auto simp: ec_masks bit_eq_iff bit_simps)
qed

lemma ec_epoch_inc:
  assumes "w AND NOT ec_kEpochMask = 0"
  shows "(w + ec_kEpochInc) AND NOT ec_kEpochMask = 0"
proof -
  have "unat (take_bit 42 (w + 2 ^ 42)) = (unat w + 2 ^ 42) mod 2 ^ 42"
    by (simp add: unat_take_bit_word unat_word_ariths mod_mod_cancel)
  also have "\<dots> = unat (take_bit 42 w)" by (simp only: mod_add_self2 unat_take_bit_word)
  also have "\<dots> = 0" using assms by (simp add: ec_epoch_aligned)
  finally have "take_bit 42 (w + 2 ^ 42) = 0" by (simp only: unat_eq_0)
  then show ?thesis
    unfolding ec_epoch_aligned by (simp add: ec_kEpochInc_def ec_kEpochShift_def ec_kCounterBits_def)
qed

lemma ec_me:
  assumes "w AND NOT ec_kEpochMask = 0" "i < 16383"
  shows "ec_free (of_nat i OR w)" "(of_nat i OR w) AND ec_kStackMask = of_nat i"
proof -
  have i: "\<not> bit i n" if "14 \<le> n" for n using nat_bit_small [of i 14 n] assms(2) that by simp
  then show "ec_free (of_nat i OR w)"
    by (intro ec_freeI) (auto simp: bit_simps ec_epoch_bit [OF assms(1)])
  show "(of_nat i OR w) AND ec_kStackMask = of_nat i"
    using i by (intro bit_word_eqI) (auto simp: bit_simps ec_masks ec_epoch_bit [OF assms(1)] not_le [symmetric])
qed

lemma ec_chain_push:
  assumes "ec_chain ws is v" "i < length ws" "i \<notin> set is" "ecw_next w = v" "ec_free u" "u AND ec_kStackMask = of_nat i"
  shows "ec_chain (ws[i := w]) (i # is) u"
proof -
  have "ec_chain (ws[i := w]) is v = ec_chain ws is v"
    by (rule ec_chain_cong) (use assms(3) in \<open>auto, metis nth_list_update_neq\<close>)
  with assms show ?thesis by simp
qed

lemma EventCount_CommitWait_rep:
  assumes "ec_rep e a" "0 < eca_pre a" "i < length (ec_mWaiters e)" "i \<notin> set (eca_stack a)"
  shows "\<exists>e' w. EventCount_CommitWait e i = Some (fst (eca_commit i a), e') \<and> ec_rep e' (snd (eca_commit i a)) \<and>
    ec_mWaiters e' = (ec_mWaiters e)[i := w] \<and> ecw_state w = kNotSignaled"
proof -
  from assms(1) obtain v where v: "ec_mState e = ec_word v (eca_pre a) (eca_sig a)"
    "ec_chain (ec_mWaiters e) (eca_stack a) v" "ec_free v"
    "eca_pre a < 2 ^ 14" "eca_sig a < 2 ^ 14" "eca_sig a \<le> eca_pre a" "eca_pre a < 16383"
    "length (ec_mWaiters e) < 16383" "distinct (eca_stack a)"
    "\<forall>w\<in>set (ec_mWaiters e). ecw_epoch w AND NOT ec_kEpochMask = 0"
    by (rule ec_repE)
  obtain p where p: "eca_pre a = Suc p" using assms(2) gr0_conv_Suc by auto
  define w where "w = (ec_mWaiters e ! i)\<lparr>ecw_state := kNotSignaled\<rparr>"
  have wi: "ecw_epoch (ec_mWaiters e ! i) AND NOT ec_kEpochMask = 0" using v(10) assms(3) by simp
  have chk: "EventCount_CheckState (ec_mState e) True"
    unfolding v(1) using v p by (simp add: ec_CheckState_word)
  show ?thesis
  proof (cases "eca_sig a = 0")
    case True
    define me where "me = of_nat i OR ecw_epoch (ec_mWaiters e ! i)"
    have me: "ec_free me" "me AND ec_kStackMask = of_nat i"
      unfolding me_def using ec_me [OF wi, of i] assms(3) v(8) by auto
    have nw: "((ec_mState e AND ec_kWaiterMask) - ec_kWaiterInc) OR me = ec_word me p 0"
      unfolding v(1) ec_word_waiter_part [OF v(3-5)] unfolding p
      using p v(4) by (subst ec_word_dec_waiter) (simp_all add: ec_word_or_free)
    define w1 where "w1 = w\<lparr>ecw_next := v, ecw_epoch := ecw_epoch w + ec_kEpochInc\<rparr>"
    have "EventCount_CheckState (ec_word me p 0) False"
      using me p v(7) by (simp add: ec_CheckState_word)
    then have "EventCount_CommitWait e i =
        Some (True, e\<lparr>ec_mState := ec_word me p 0, ec_mWaiters := (ec_mWaiters e)[i := w1]\<rparr>)"
      using assms(3) wi chk True nw [unfolded me_def] ec_word_has_signal [OF v(3-5)]
        ec_word_free [OF v(3-5)] v(1)
      by (simp add: EventCount_CommitWait_def Let_def w_def w1_def me_def)
    moreover have "ec_chain ((ec_mWaiters e)[i := w1]) (i # eca_stack a) me"
      using v(2) assms(3,4) me by (intro ec_chain_push) (simp_all add: w1_def)
    moreover have "ecw_epoch w1 AND NOT ec_kEpochMask = 0"
      using ec_epoch_inc [OF wi] by (simp add: w1_def w_def)
    ultimately show ?thesis
      using v p assms(4) True set_update_subset_insert [of "ec_mWaiters e" i w1]
      by (auto simp: ec_rep_def eca_commit_def w1_def w_def intro!: exI [of _ me] exI [of _ w1])
  next
    case False
    then obtain s where s: "eca_sig a = Suc s" using not0_implies_Suc by blast
    have "ec_word v (Suc p) (Suc s) - ec_kWaiterInc = ec_word v p (Suc s)"
      using v p s by (intro ec_word_dec_waiter) simp_all
    moreover have "ec_word v p (Suc s) - ec_kSignalInc = ec_word v p s"
      using v p s by (intro ec_word_dec_signal) simp_all
    ultimately have nw: "ec_mState e - ec_kWaiterInc - ec_kSignalInc = ec_word v p s"
      unfolding v(1) p s by simp
    have "EventCount_CheckState (ec_word v p s) False" using v p s by (simp add: ec_CheckState_word)
    then have "EventCount_CommitWait e i =
        Some (False, e\<lparr>ec_mState := ec_word v p s, ec_mWaiters := (ec_mWaiters e)[i := w]\<rparr>)"
      using assms(3) wi chk False nw ec_word_has_signal [OF v(3-5)] v(1)
      by (simp add: EventCount_CommitWait_def Let_def w_def)
    moreover have "ec_chain ((ec_mWaiters e)[i := w]) (eca_stack a) v = ec_chain (ec_mWaiters e) (eca_stack a) v"
      by (rule ec_chain_cong) (use assms(4) in \<open>auto, metis nth_list_update_neq\<close>)
    moreover have "ecw_epoch w AND NOT ec_kEpochMask = 0" using wi by (simp add: w_def)
    ultimately show ?thesis
      using v p s set_update_subset_insert [of "ec_mWaiters e" i w]
      by (auto simp: ec_rep_def eca_commit_def w_def intro!: exI [of _ v])
  qed
qed

text \<open>
  Notify on the abstract counters; the waiters it signals are exactly those of \<^const>\<open>eca_woken\<close>.
\<close>

lemma ec_chain_top:
  assumes "ec_chain ws is v" "length ws < 16383"
  shows "v AND ec_kStackMask = ec_kStackMask \<longleftrightarrow> is = []"
    "is \<noteq> [] \<Longrightarrow> unat (v AND ec_kStackMask) = hd is \<and> hd is < length ws \<and>
       ec_chain ws (tl is) (ecw_next (ws ! hd is))"
proof -
  show "v AND ec_kStackMask = ec_kStackMask \<longleftrightarrow> is = []"
    using assms ec_index_not_mask(1) [of "hd is"] by (cases "is") auto
  show "unat (v AND ec_kStackMask) = hd is \<and> hd is < length ws \<and> ec_chain ws (tl is) (ecw_next (ws ! hd is))"
    if "is \<noteq> []"
    using that assms ec_index_not_mask(2) [of "hd is"] by (cases "is") auto
qed

definition ec_signalled :: "EventCount \<Rightarrow> EventCount \<Rightarrow> nat set \<Rightarrow> bool" where
  "ec_signalled e e' W \<longleftrightarrow> length (ec_mWaiters e') = length (ec_mWaiters e) \<and>
     (\<forall>j<length (ec_mWaiters e). ecw_state (ec_mWaiters e' ! j) =
        (if j \<in> W then kSignaled else ecw_state (ec_mWaiters e ! j)))"

lemma ec_signalled_none [simp]: "ec_mWaiters e' = ec_mWaiters e \<Longrightarrow> ec_signalled e e' {}"
  by (simp add: ec_signalled_def)

lemma EventCount_Notify_all_rep:
  assumes "ec_rep e a"
  shows "\<exists>e'. EventCount_Notify e True = Some e' \<and> ec_rep e' (eca_notify True a) \<and>
    ec_signalled e e' (eca_woken True a)"
proof -
  from assms(1) obtain v where v: "ec_mState e = ec_word v (eca_pre a) (eca_sig a)"
    "ec_chain (ec_mWaiters e) (eca_stack a) v" "ec_free v"
    "eca_pre a < 2 ^ 14" "eca_sig a < 2 ^ 14" "eca_sig a \<le> eca_pre a" "eca_pre a < 16383"
    "length (ec_mWaiters e) < 16383" "distinct (eca_stack a)"
    "\<forall>w\<in>set (ec_mWaiters e). ecw_epoch w AND NOT ec_kEpochMask = 0"
    by (rule ec_repE)
  let ?p = "eca_pre a" and ?s = "eca_sig a"
  note parts = ec_word_waiters [OF v(3-5)] ec_word_signals [OF v(3-5)] ec_word_stack [OF v(3-5)]
  note wpart = ec_word_waiter_part [OF v(3-5)]
  have chk: "EventCount_CheckState (ec_word v ?p ?s) False" using v by (simp add: ec_CheckState_word)
  have eq: "(of_nat ?p = (of_nat ?s :: u64)) = (?p = ?s)" using v by (metis ec_of_nat_le(3))
  note top = ec_chain_top [OF v(2,8)]
  have new: "EventCount_CheckState (ec_word ec_kStackMask ?p ?p) False"
    "(ec_word 0 ?p 0 OR push_bit ec_kSignalShift (of_nat ?p)) OR ec_kStackMask = ec_word ec_kStackMask ?p ?p"
    using v ec_word_or_signals [of ?p ?p ec_kStackMask]
    by (simp_all add: ec_CheckState_word ec_kSignalShift_def ec_kCounterBits_def or.assoc)
  show ?thesis
  proof (cases "eca_stack a")
    case Nil
    then have empty: "v AND ec_kStackMask = ec_kStackMask" using top(1) by simp
    show ?thesis
    proof (cases "?p = ?s")
      case True
      then have "EventCount_Notify e True = Some e" "eca_notify True a = a"
        unfolding EventCount_Notify_def Let_def v(1) parts unfolding wpart eq
        using Nil empty chk by (simp_all add: eca_notify_def)
      then show ?thesis using assms Nil by (auto simp: eca_woken_def)
    next
      case False
      then have "EventCount_Notify e True = Some (e\<lparr>ec_mState := ec_word ec_kStackMask ?p ?p\<rparr>)"
        unfolding EventCount_Notify_def Let_def v(1) parts unfolding wpart eq
        using Nil empty chk new by (simp add: or.assoc)
      then show ?thesis
        using Nil v by (auto simp: ec_rep_def eca_notify_def eca_woken_def intro!: exI [of _ ec_kStackMask])
    qed
  next
    case (Cons i js)
    then have ne: "v AND ec_kStackMask \<noteq> ec_kStackMask" "unat (v AND ec_kStackMask) = i"
      using top by auto
    obtain ws' where ws': "EventCount_Unpark (ec_mWaiters e) i = Some ws'" "length ws' = length (ec_mWaiters e)"
        "\<forall>j<length (ec_mWaiters e). ws' ! j =
           (if j \<in> set (i # js) then (ec_mWaiters e ! j)\<lparr>ecw_state := kSignaled\<rparr> else ec_mWaiters e ! j)"
      using EventCount_Unpark_chain [of "ec_mWaiters e" i js v] v Cons by auto
    have "EventCount_Notify e True = Some \<lparr>ec_mState = ec_word ec_kStackMask ?p ?p, ec_mWaiters = ws'\<rparr>"
      unfolding EventCount_Notify_def Let_def v(1) parts unfolding wpart eq
      using ne chk new ws'(1) by (simp add: or.assoc)
    moreover have "\<forall>w\<in>set ws'. ecw_epoch w AND NOT ec_kEpochMask = 0"
      using ws' v(10) by (simp add: all_set_conv_all_nth)
    ultimately show ?thesis
      using ws' v Cons
      by (auto simp: ec_rep_def eca_notify_def eca_woken_def ec_signalled_def intro!: exI [of _ ec_kStackMask])
  qed
qed

lemma EventCount_Notify_one_rep:
  assumes "ec_rep e a"
  shows "\<exists>e'. EventCount_Notify e False = Some e' \<and> ec_rep e' (eca_notify False a) \<and>
    ec_signalled e e' (eca_woken False a)"
proof -
  from assms(1) obtain v where v: "ec_mState e = ec_word v (eca_pre a) (eca_sig a)"
    "ec_chain (ec_mWaiters e) (eca_stack a) v" "ec_free v"
    "eca_pre a < 2 ^ 14" "eca_sig a < 2 ^ 14" "eca_sig a \<le> eca_pre a" "eca_pre a < 16383"
    "length (ec_mWaiters e) < 16383" "distinct (eca_stack a)"
    "\<forall>w\<in>set (ec_mWaiters e). ecw_epoch w AND NOT ec_kEpochMask = 0"
    by (rule ec_repE)
  let ?p = "eca_pre a" and ?s = "eca_sig a"
  note parts = ec_word_waiters [OF v(3-5)] ec_word_signals [OF v(3-5)] ec_word_stack [OF v(3-5)]
    ec_word_mid_part [OF v(3-5)] ec_word_or_free
  have chk: "EventCount_CheckState (ec_word v ?p ?s) False" using v by (simp add: ec_CheckState_word)
  have eq: "(of_nat ?p = (of_nat ?s :: u64)) = (?p = ?s)" "((of_nat ?s :: u64) < of_nat ?p) = (?s < ?p)"
    using v by (metis ec_of_nat_le(3), metis ec_of_nat_le(2))
  note top = ec_chain_top [OF v(2,8)]
  show ?thesis
  proof (cases "?s < ?p")
    case True
    then have inc: "ec_word v ?p ?s + ec_kSignalInc = ec_word v ?p (Suc ?s)"
      using v by (intro ec_word_inc_signal) simp_all
    moreover have "EventCount_CheckState (ec_word v ?p (Suc ?s)) False"
      using v True by (simp add: ec_CheckState_word)
    ultimately have "EventCount_Notify e False = Some (e\<lparr>ec_mState := ec_word v ?p (Suc ?s)\<rparr>)"
      unfolding EventCount_Notify_def Let_def v(1) parts eq using True chk by simp
    then show ?thesis
      using True v by (auto simp: ec_rep_def eca_notify_def eca_woken_def)
  next
    case False
    then have ps: "?p = ?s" using v(6) by simp
    show ?thesis
    proof (cases "eca_stack a")
      case Nil
      then have "EventCount_Notify e False = Some e" "eca_notify False a = a"
        unfolding EventCount_Notify_def Let_def v(1) parts eq
        using top chk ps by (simp_all add: eca_notify_def)
      then show ?thesis using assms Nil False by (auto simp: eca_woken_def)
    next
      case (Cons i js)
      then have ne: "v AND ec_kStackMask \<noteq> ec_kStackMask" "unat (v AND ec_kStackMask) = i" "i < length (ec_mWaiters e)"
          "ec_chain (ec_mWaiters e) js (ecw_next (ec_mWaiters e ! i))"
        using top by auto
      define ws where "ws = (ec_mWaiters e)[i := (ec_mWaiters e ! i)\<lparr>ecw_next := ec_kStackMask, ecw_state := kSignaled\<rparr>]"
      have unpark: "EventCount_Unpark ((ec_mWaiters e)[i := (ec_mWaiters e ! i)\<lparr>ecw_next := ec_kStackMask\<rparr>]) i = Some ws"
        using ne(3) by (subst EventCount_Unpark.simps) (simp add: Let_def ws_def)
      have "ec_free (ecw_next (ec_mWaiters e ! i))" using ne(4) by (rule ec_chain_free)
      then have "EventCount_CheckState (ec_word (ecw_next (ec_mWaiters e ! i)) ?p ?s) False"
        using v by (simp add: ec_CheckState_word)
      then have "EventCount_Notify e False =
          Some \<lparr>ec_mState = ec_word (ecw_next (ec_mWaiters e ! i)) ?p ?s, ec_mWaiters = ws\<rparr>"
        unfolding EventCount_Notify_def Let_def v(1) parts eq using ne chk False unpark by simp
      moreover have "ec_chain ws js (ecw_next (ec_mWaiters e ! i)) = ec_chain (ec_mWaiters e) js (ecw_next (ec_mWaiters e ! i))"
        by (rule ec_chain_cong) (use v(9) Cons in \<open>auto simp: ws_def, metis nth_list_update_neq\<close>)
      moreover have "\<forall>w\<in>set ws. ecw_epoch w AND NOT ec_kEpochMask = 0"
        using v(10) ne(3) by (auto simp: ws_def dest!: set_update_subset_insert [THEN subsetD])
      ultimately show ?thesis
        using v Cons False ne
        by (auto simp: ec_rep_def eca_notify_def eca_woken_def ec_signalled_def ws_def nth_list_update)
    qed
  qed
qed

subsection \<open>Threads using the event count\<close>

text \<open>
  The protocol of the header comment: thread \<open>i\<close> owns waiter \<open>i\<close>, calls Prewait, then either CommitWait
  (which may park it) or CancelWait; any thread may call Notify; a parked thread runs rounds of
  Park. A state of the system is reached by any interleaving of these atomic steps. \<open>ec_apply\<close> is
  \<open>None\<close> when an assert of the code fails.
\<close>

datatype ec_pc = Running | Prewaiting | Parked

datatype ec_event = EvPrewait nat | EvCommit nat | EvCancel nat | EvNotify bool | EvPark nat

record ec_sys =
  sys_ec :: EventCount
  sys_pc :: "ec_pc list"

fun ec_enabled :: "ec_sys \<Rightarrow> ec_event \<Rightarrow> bool" where
  "ec_enabled s (EvPrewait i) = (i < length (sys_pc s) \<and> sys_pc s ! i = Running)"
| "ec_enabled s (EvCommit i) = (i < length (sys_pc s) \<and> sys_pc s ! i = Prewaiting)"
| "ec_enabled s (EvCancel i) = (i < length (sys_pc s) \<and> sys_pc s ! i = Prewaiting)"
| "ec_enabled s (EvNotify b) = True"
| "ec_enabled s (EvPark i) = (i < length (sys_pc s) \<and> sys_pc s ! i = Parked)"

fun ec_apply :: "ec_sys \<Rightarrow> ec_event \<Rightarrow> ec_sys option" where
  "ec_apply s (EvPrewait i) =
     map_option (\<lambda>e. \<lparr>sys_ec = e, sys_pc = (sys_pc s)[i := Prewaiting]\<rparr>) (EventCount_Prewait (sys_ec s))"
| "ec_apply s (EvCommit i) =
     map_option (\<lambda>(park, e). \<lparr>sys_ec = e, sys_pc = (sys_pc s)[i := if park then Parked else Running]\<rparr>)
       (EventCount_CommitWait (sys_ec s) i)"
| "ec_apply s (EvCancel i) =
     map_option (\<lambda>e. \<lparr>sys_ec = e, sys_pc = (sys_pc s)[i := Running]\<rparr>) (EventCount_CancelWait (sys_ec s))"
| "ec_apply s (EvNotify b) =
     map_option (\<lambda>e. \<lparr>sys_ec = e, sys_pc = sys_pc s\<rparr>) (EventCount_Notify (sys_ec s) b)"
| "ec_apply s (EvPark i) =
     (let (leave, w) = EventCount_Park (ec_mWaiters (sys_ec s) ! i)
      in Some \<lparr>sys_ec = (sys_ec s)\<lparr>ec_mWaiters := (ec_mWaiters (sys_ec s))[i := w]\<rparr>,
               sys_pc = (sys_pc s)[i := if leave then Running else Parked]\<rparr>)"

definition ec_start :: "nat \<Rightarrow> ec_sys option" where
  "ec_start n = map_option (\<lambda>e. \<lparr>sys_ec = e, sys_pc = replicate n Running\<rparr>) (EventCount_new n)"

inductive ec_reach :: "nat \<Rightarrow> ec_sys \<Rightarrow> bool" for n where
  ec_reach_start: "ec_start n = Some s \<Longrightarrow> ec_reach n s"
| ec_reach_step: "\<lbrakk>ec_reach n s; ec_enabled s ev; ec_apply s ev = Some t\<rbrakk> \<Longrightarrow> ec_reach n t"

text \<open>
  The waiting threads no notification has been spent on yet: those in Prewait beyond the pending
  signals, and the parked ones that have not been signalled.
\<close>

definition ec_asleep :: "ec_sys \<Rightarrow> nat \<Rightarrow> bool" where
  "ec_asleep s i \<longleftrightarrow> i < length (sys_pc s) \<and> sys_pc s ! i = Parked \<and>
     ecw_state (ec_mWaiters (sys_ec s) ! i) \<noteq> kSignaled"

definition ec_signals :: "ec_sys \<Rightarrow> nat" where
  "ec_signals s = unat (drop_bit ec_kSignalShift (ec_mState (sys_ec s) AND ec_kSignalMask))"

definition ec_pending :: "ec_sys \<Rightarrow> nat" where
  "ec_pending s = (count_list (sys_pc s) Prewaiting - ec_signals s) +
     length (filter (ec_asleep s) [0..<length (sys_pc s)])"

definition ec_sys_rep :: "ec_sys \<Rightarrow> ec_abs \<Rightarrow> bool" where
  "ec_sys_rep s a \<longleftrightarrow> ec_rep (sys_ec s) a \<and> length (ec_mWaiters (sys_ec s)) = length (sys_pc s) \<and>
     eca_pre a = count_list (sys_pc s) Prewaiting \<and> set (eca_stack a) = {i. ec_asleep s i}"

lemma count_list_update:
  assumes "i < length xs"
  shows "count_list (xs[i := y]) z = (count_list xs z - (if xs ! i = z then 1 else 0)) + (if y = z then 1 else 0)"
  using assms by (simp flip: count_mset add: mset_update)

lemma count_list_nth_pos: "i < length xs \<Longrightarrow> xs ! i = z \<Longrightarrow> 0 < count_list xs z"
  by (metis count_list_0_iff gr0I nth_mem)

lemma count_list_bound_other:
  assumes "i < length xs" "xs ! i \<noteq> z"
  shows "count_list xs z < length xs"
proof -
  have "count_list (xs[i := z]) z \<le> length xs" by (metis count_le_length length_list_update)
  then show ?thesis using assms by (simp add: count_list_update)
qed

lemma ec_signals_rep:
  assumes "ec_sys_rep s a"
  shows "ec_signals s = eca_sig a"
proof -
  have "ec_rep (sys_ec s) a" using assms by (simp add: ec_sys_rep_def)
  then obtain v where v: "ec_mState (sys_ec s) = ec_word v (eca_pre a) (eca_sig a)" "ec_free v"
    "eca_pre a < 2 ^ 14" "eca_sig a < 2 ^ 14"
    by (rule ec_repE)
  then show ?thesis
    unfolding ec_signals_def v(1) ec_word_signals [OF v(2-4)] by (simp add: unat_of_nat)
qed

lemma ec_pending_rep:
  assumes "ec_sys_rep s a"
  shows "ec_pending s = (eca_pre a - eca_sig a) + length (eca_stack a)"
proof -
  note ec_signals_rep [OF assms]
  moreover have v: "distinct (eca_stack a)" using assms by (simp add: ec_sys_rep_def ec_rep_def)
  moreover have "length (filter (ec_asleep s) [0..<length (sys_pc s)]) = length (eca_stack a)"
  proof -
    have "length (filter (ec_asleep s) [0..<length (sys_pc s)]) = card (set (filter (ec_asleep s) [0..<length (sys_pc s)]))"
      by (rule distinct_card [symmetric]) simp
    also have "set (filter (ec_asleep s) [0..<length (sys_pc s)]) = set (eca_stack a)"
      using assms by (auto simp: ec_sys_rep_def ec_asleep_def)
    finally show ?thesis using distinct_card [OF v] by simp
  qed
  ultimately show ?thesis using assms by (simp add: ec_pending_def ec_sys_rep_def)
qed

lemma ec_rep_update:
  assumes "ec_rep e a" "ecw_next w = ecw_next (ec_mWaiters e ! i)" "ecw_epoch w = ecw_epoch (ec_mWaiters e ! i)"
    "i < length (ec_mWaiters e)"
  shows "ec_rep (e\<lparr>ec_mWaiters := (ec_mWaiters e)[i := w]\<rparr>) a"
proof -
  have "ec_chain ((ec_mWaiters e)[i := w]) (eca_stack a) v = ec_chain (ec_mWaiters e) (eca_stack a) v" for v
    by (rule ec_chain_cong) (use assms in \<open>auto simp: nth_list_update\<close>)
  moreover have "\<forall>w\<in>set ((ec_mWaiters e)[i := w]). ecw_epoch w AND NOT ec_kEpochMask = 0"
    using assms by (auto simp: ec_rep_def dest!: set_update_subset_insert [THEN subsetD])
  ultimately show ?thesis using assms(1) by (simp add: ec_rep_def)
qed

text \<open>What one step does to the abstract counters.\<close>

fun eca_step :: "ec_event \<Rightarrow> ec_abs \<Rightarrow> ec_abs" where
  "eca_step (EvPrewait i) a = eca_prewait a"
| "eca_step (EvCommit i) a = snd (eca_commit i a)"
| "eca_step (EvCancel i) a = eca_cancel a"
| "eca_step (EvNotify b) a = eca_notify b a"
| "eca_step (EvPark i) a = a"

lemma ec_step_prewait:
  assumes "ec_sys_rep s a" "ec_enabled s (EvPrewait i)"
  shows "\<exists>t. ec_apply s (EvPrewait i) = Some t \<and> ec_sys_rep t (eca_prewait a)"
proof -
  have i: "i < length (sys_pc s)" "sys_pc s ! i = Running" using assms(2) by auto
  have "count_list (sys_pc s) Prewaiting < length (sys_pc s)"
    using count_list_bound_other [OF i(1), of Prewaiting] i(2) by simp
  moreover have "length (sys_pc s) < 16383" using assms(1) by (simp add: ec_sys_rep_def ec_rep_def)
  ultimately obtain e where e: "EventCount_Prewait (sys_ec s) = Some e" "ec_rep e (eca_prewait a)"
      "ec_mWaiters e = ec_mWaiters (sys_ec s)"
    using EventCount_Prewait_rep [of "sys_ec s" a] assms(1) by (auto simp: ec_sys_rep_def)
  moreover have "ec_asleep \<lparr>sys_ec = e, sys_pc = (sys_pc s)[i := Prewaiting]\<rparr> = ec_asleep s"
    using e(3) i by (auto simp: ec_asleep_def fun_eq_iff nth_list_update)
  ultimately show ?thesis
    using assms(1) i by (auto simp: ec_sys_rep_def count_list_update eca_prewait_def)
qed

lemma ec_step_cancel:
  assumes "ec_sys_rep s a" "ec_enabled s (EvCancel i)"
  shows "\<exists>t. ec_apply s (EvCancel i) = Some t \<and> ec_sys_rep t (eca_cancel a)"
proof -
  have i: "i < length (sys_pc s)" "sys_pc s ! i = Prewaiting" using assms(2) by auto
  then obtain e where e: "EventCount_CancelWait (sys_ec s) = Some e" "ec_rep e (eca_cancel a)"
      "ec_mWaiters e = ec_mWaiters (sys_ec s)"
    using EventCount_CancelWait_rep [of "sys_ec s" a] assms(1) count_list_nth_pos [OF i]
    by (auto simp: ec_sys_rep_def)
  moreover have "ec_asleep \<lparr>sys_ec = e, sys_pc = (sys_pc s)[i := Running]\<rparr> = ec_asleep s"
    using e(3) i by (auto simp: ec_asleep_def fun_eq_iff nth_list_update)
  ultimately show ?thesis
    using assms(1) i by (auto simp: ec_sys_rep_def count_list_update eca_cancel_def)
qed

lemma ec_step_commit:
  assumes "ec_sys_rep s a" "ec_enabled s (EvCommit i)"
  shows "\<exists>t. ec_apply s (EvCommit i) = Some t \<and> ec_sys_rep t (snd (eca_commit i a)) \<and>
    sys_pc t ! i = (if fst (eca_commit i a) then Parked else Running)"
proof -
  have i: "i < length (sys_pc s)" "sys_pc s ! i = Prewaiting" using assms(2) by auto
  then have stack: "i \<notin> set (eca_stack a)" using assms(1) by (auto simp: ec_sys_rep_def ec_asleep_def)
  have len: "length (ec_mWaiters (sys_ec s)) = length (sys_pc s)" using assms(1) by (simp add: ec_sys_rep_def)
  obtain e w where e: "EventCount_CommitWait (sys_ec s) i = Some (fst (eca_commit i a), e)"
      "ec_rep e (snd (eca_commit i a))" "ec_mWaiters e = (ec_mWaiters (sys_ec s))[i := w]" "ecw_state w = kNotSignaled"
    using EventCount_CommitWait_rep [of "sys_ec s" a i] assms(1) count_list_nth_pos [OF i] stack i
    by (auto simp: ec_sys_rep_def)
  let ?t = "\<lparr>sys_ec = e, sys_pc = (sys_pc s)[i := if fst (eca_commit i a) then Parked else Running]\<rparr>"
  have "{j. ec_asleep ?t j} = (if fst (eca_commit i a) then insert i {j. ec_asleep s j} else {j. ec_asleep s j})"
    using e(3,4) i len by (auto simp: ec_asleep_def nth_list_update)
  then have "set (eca_stack (snd (eca_commit i a))) = {j. ec_asleep ?t j}"
    using assms(1) by (auto simp: ec_sys_rep_def eca_commit_def)
  moreover have "eca_pre (snd (eca_commit i a)) = count_list (sys_pc ?t) Prewaiting"
    using assms(1) i by (auto simp: ec_sys_rep_def eca_commit_def count_list_update)
  ultimately have "ec_sys_rep ?t (snd (eca_commit i a))"
    using e(2,3) len by (simp add: ec_sys_rep_def)
  then show ?thesis using e(1) i by simp
qed

lemma ec_step_notify:
  assumes "ec_sys_rep s a"
  shows "\<exists>t. ec_apply s (EvNotify b) = Some t \<and> ec_sys_rep t (eca_notify b a)"
proof -
  have rep: "ec_rep (sys_ec s) a" using assms by (simp add: ec_sys_rep_def)
  obtain e where e: "EventCount_Notify (sys_ec s) b = Some e" "ec_rep e (eca_notify b a)"
      "ec_signalled (sys_ec s) e (eca_woken b a)"
    using EventCount_Notify_all_rep [OF rep] EventCount_Notify_one_rep [OF rep] by (cases b) auto
  let ?t = "\<lparr>sys_ec = e, sys_pc = sys_pc s\<rparr>"
  have len: "length (ec_mWaiters (sys_ec s)) = length (sys_pc s)" using assms by (simp add: ec_sys_rep_def)
  have "ec_asleep ?t j \<longleftrightarrow> ec_asleep s j \<and> j \<notin> eca_woken b a" for j
    using e(3) unfolding ec_asleep_def ec_signalled_def len by (cases "j < length (sys_pc s)") simp_all
  then have "{j. ec_asleep ?t j} = {j. ec_asleep s j} - eca_woken b a" by blast
  moreover have "set (eca_stack (eca_notify b a)) = set (eca_stack a) - eca_woken b a"
    using rep by (cases "eca_stack a") (auto simp: eca_notify_def eca_woken_def ec_rep_def)
  ultimately have "ec_sys_rep ?t (eca_notify b a)"
    using assms e(2,3) by (auto simp: ec_sys_rep_def ec_signalled_def eca_notify_def)
  then show ?thesis using e(1) by simp
qed

lemma ec_step_park:
  assumes "ec_sys_rep s a" "ec_enabled s (EvPark i)"
  shows "\<exists>t. ec_apply s (EvPark i) = Some t \<and> ec_sys_rep t a"
proof -
  have i: "i < length (sys_pc s)" "sys_pc s ! i = Parked" and len: "i < length (ec_mWaiters (sys_ec s))"
    using assms by (auto simp: ec_sys_rep_def)
  obtain leave w where p: "EventCount_Park (ec_mWaiters (sys_ec s) ! i) = (leave, w)" by fastforce
  then have w: "ecw_next w = ecw_next (ec_mWaiters (sys_ec s) ! i)" "ecw_epoch w = ecw_epoch (ec_mWaiters (sys_ec s) ! i)"
      "leave \<longleftrightarrow> ecw_state (ec_mWaiters (sys_ec s) ! i) = kSignaled" "ecw_state w = kSignaled \<longleftrightarrow> leave"
    by (auto simp: EventCount_Park_def split: if_splits)
  let ?t = "\<lparr>sys_ec = (sys_ec s)\<lparr>ec_mWaiters := (ec_mWaiters (sys_ec s))[i := w]\<rparr>,
             sys_pc = (sys_pc s)[i := if leave then Running else Parked]\<rparr>"
  have "ec_asleep ?t = ec_asleep s"
    using w i len by (auto simp: ec_asleep_def fun_eq_iff nth_list_update)
  moreover have "ec_rep (sys_ec ?t) a"
    using ec_rep_update [OF _ w(1,2) len] assms(1) by (simp add: ec_sys_rep_def)
  ultimately have "ec_sys_rep ?t a"
    using assms(1) i by (auto simp: ec_sys_rep_def count_list_update)
  then show ?thesis using p by simp
qed

lemma ec_step_rep:
  assumes "ec_sys_rep s a" "ec_enabled s ev"
  shows "\<exists>t. ec_apply s ev = Some t \<and> ec_sys_rep t (eca_step ev a)"
proof (cases ev)
  case (EvPrewait i)
  then show ?thesis using ec_step_prewait assms by simp
next
  case (EvCommit i)
  then show ?thesis using ec_step_commit [OF assms(1), of i] assms(2) by (metis eca_step.simps(2))
next
  case (EvCancel i)
  then show ?thesis using ec_step_cancel assms by simp
next
  case (EvNotify b)
  then show ?thesis using ec_step_notify assms by simp
next
  case (EvPark i)
  then show ?thesis using ec_step_park [OF assms(1), of i] assms(2) by (metis eca_step.simps(5))
qed

lemma ec_start_rep:
  assumes "ec_start n = Some s"
  shows "ec_sys_rep s \<lparr>eca_stack = [], eca_pre = 0, eca_sig = 0\<rparr>"
proof -
  have "n < 16383" and s: "s = \<lparr>sys_ec = \<lparr>ec_mState = ec_kStackMask,
      ec_mWaiters = replicate n \<lparr>ecw_next = 0, ecw_epoch = 0, ecw_state = kNotSignaled\<rparr>\<rparr>, sys_pc = replicate n Running\<rparr>"
    using assms by (auto simp: ec_start_def EventCount_new_def ec_kCounterBits_def split: if_splits)
  moreover have "ec_kStackMask = ec_word ec_kStackMask 0 0" by (simp add: ec_word_def)
  ultimately show ?thesis
    by (auto simp: ec_sys_rep_def ec_rep_def ec_asleep_def intro!: exI [of _ ec_kStackMask])
qed

lemma ec_reach_rep: "ec_reach n s \<Longrightarrow> \<exists>a. ec_sys_rep s a"
proof (induction rule: ec_reach.induct)
  case (ec_reach_start s)
  then show ?case using ec_start_rep by blast
next
  case (ec_reach_step s ev t)
  then show ?case using ec_step_rep by force
qed

subsection \<open>Alerted threads\<close>

text \<open>Some waiting thread has a notification that will make it run again.\<close>

definition ec_alerted :: "ec_sys \<Rightarrow> bool" where
  "ec_alerted s \<longleftrightarrow> 0 < ec_signals s \<or>
     (\<exists>i<length (sys_pc s). sys_pc s ! i = Parked \<and> ecw_state (ec_mWaiters (sys_ec s) ! i) = kSignaled)"

lemma ec_alerted_parked:
  assumes "ec_sys_rep s a" "i < length (sys_pc s)" "sys_pc s ! i = Parked" "i \<notin> set (eca_stack a)"
  shows "ec_alerted s"
  using assms by (auto simp: ec_alerted_def ec_sys_rep_def ec_asleep_def)

lemma ec_parked_signalled:
  assumes "ec_sys_rep s a" "i < length (sys_pc s)" "sys_pc s ! i = Parked" "ecw_state (ec_mWaiters (sys_ec s) ! i) = kSignaled"
  shows "i \<notin> set (eca_stack a)"
  using assms by (auto simp: ec_sys_rep_def ec_asleep_def)

lemma ec_apply_notify_pc: "ec_apply s (EvNotify b) = Some t \<Longrightarrow> sys_pc t = sys_pc s"
  by auto

lemma ec_notify_alerts:
  assumes "ec_reach n s" "ec_apply s (EvNotify b) = Some t" "i < length (sys_pc s)" "sys_pc s ! i \<noteq> Running"
  shows "ec_alerted t"
proof -
  obtain a where a: "ec_sys_rep s a" using ec_reach_rep [OF assms(1)] by blast
  then have t: "ec_sys_rep t (eca_notify b a)" using ec_step_notify [OF a, of b] assms(2) by (metis option.inject)
  have le: "eca_sig a \<le> eca_pre a" using a by (simp add: ec_sys_rep_def ec_rep_def)
  have pcs: "sys_pc t = sys_pc s" by (rule ec_apply_notify_pc [OF assms(2)])
  show ?thesis
  proof (cases "eca_pre a = 0")
    case False
    then have "0 < ec_signals t" using le by (auto simp: ec_signals_rep [OF t] eca_notify_def)
    then show ?thesis by (simp add: ec_alerted_def)
  next
    case True
    then have "sys_pc s ! i \<noteq> Prewaiting"
      using a count_list_nth_pos [OF assms(3), of Prewaiting] by (auto simp: ec_sys_rep_def)
    then have i: "sys_pc t ! i = Parked" "i < length (sys_pc t)"
      using assms(3,4) unfolding pcs by (cases "sys_pc s ! i", simp_all)
    have dist: "distinct (eca_stack a)" using a by (simp add: ec_sys_rep_def ec_rep_def)
    show ?thesis
    proof (cases "i \<in> set (eca_stack (eca_notify b a))")
      case False
      then show ?thesis using ec_alerted_parked [OF t i(2,1)] by blast
    next
      case in_stack: True
      then have nb: "\<not> b" by (auto simp: eca_notify_def)
      then obtain k ks where ks: "eca_stack a = k # ks" "eca_stack (eca_notify b a) = ks"
        using in_stack True le by (cases "eca_stack a") (auto simp: eca_notify_def)
      have "ec_asleep s k" using a ks(1) by (auto simp: ec_sys_rep_def)
      then have "k < length (sys_pc t)" "sys_pc t ! k = Parked" using pcs by (auto simp: ec_asleep_def)
      then show ?thesis using ec_alerted_parked [OF t] ks dist by auto
    qed
  qed
qed

lemma ec_commit_parked_alerted:
  assumes "ec_reach n s" "ec_enabled s (EvCommit i)" "ec_apply s (EvCommit i) = Some t"
    "sys_pc t ! i = Parked" "ec_alerted s"
  shows "ec_alerted t"
proof -
  obtain a where a: "ec_sys_rep s a" using ec_reach_rep [OF assms(1)] by blast
  have t: "ec_sys_rep t (snd (eca_commit i a))" "sys_pc t ! i = (if fst (eca_commit i a) then Parked else Running)"
    using ec_step_commit [OF a assms(2)] assms(3) by auto
  then have sig: "eca_sig a = 0" "eca_stack (snd (eca_commit i a)) = i # eca_stack a"
    using assms(4) by (auto simp: eca_commit_def split: if_splits)
  then obtain k where k: "k < length (sys_pc s)" "sys_pc s ! k = Parked" "ecw_state (ec_mWaiters (sys_ec s) ! k) = kSignaled"
    using assms(5) by (auto simp: ec_alerted_def ec_signals_rep [OF a])
  have ne: "k \<noteq> i" using k(2) assms(2) by auto
  moreover have "sys_pc t = (sys_pc s)[i := sys_pc t ! i]"
    using assms(2,3) by (auto split: prod.splits)
  ultimately have "sys_pc t ! k = Parked" "k < length (sys_pc t)" using k by (metis nth_list_update_neq, metis length_list_update)
  moreover have "k \<notin> set (eca_stack (snd (eca_commit i a)))"
    using ec_parked_signalled [OF a k] ne sig(2) by simp
  ultimately show ?thesis using ec_alerted_parked [OF t(1)] by blast
qed

lemma ec_park_alerted:
  assumes "ec_reach n s" "ec_enabled s (EvPark i)" "ec_apply s (EvPark i) = Some t"
    "sys_pc t ! i = Parked" "ec_alerted s"
  shows "ec_alerted t"
proof -
  obtain a where a: "ec_sys_rep s a" using ec_reach_rep [OF assms(1)] by blast
  have t: "ec_sys_rep t a" using ec_step_park [OF a assms(2)] assms(3) by auto
  show ?thesis
  proof (cases "0 < ec_signals s")
    case True
    then show ?thesis by (simp add: ec_alerted_def ec_signals_rep [OF t] ec_signals_rep [OF a])
  next
    case False
    then obtain k where k: "k < length (sys_pc s)" "sys_pc s ! k = Parked" "ecw_state (ec_mWaiters (sys_ec s) ! k) = kSignaled"
      using assms(5) by (auto simp: ec_alerted_def)
    have ne: "k \<noteq> i"
      using k(3) assms(2-4) by (auto simp: EventCount_Park_def split: if_splits)
    moreover have "sys_pc t = (sys_pc s)[i := sys_pc t ! i]"
      using assms(2,3) by (auto split: prod.splits)
    ultimately have "sys_pc t ! k = Parked" "k < length (sys_pc t)" using k by (metis nth_list_update_neq, metis length_list_update)
    then show ?thesis using ec_alerted_parked [OF t] ec_parked_signalled [OF a k] by blast
  qed
qed

lemma ec_alerted_waiting:
  assumes "ec_reach n s" "ec_alerted s"
  shows "\<exists>i<length (sys_pc s). sys_pc s ! i \<noteq> Running"
proof -
  obtain a where a: "ec_sys_rep s a" using ec_reach_rep [OF assms(1)] by blast
  show ?thesis
  proof (cases "0 < ec_signals s")
    case True
    then have "0 < count_list (sys_pc s) Prewaiting"
      using a by (auto simp: ec_signals_rep [OF a] ec_sys_rep_def ec_rep_def)
    then have "Prewaiting \<in> set (sys_pc s)" by (metis count_list_0_iff less_irrefl)
    then show ?thesis by (metis ec_pc.distinct(1) in_set_conv_nth)
  qed (use assms(2) in \<open>auto simp: ec_alerted_def\<close>)
qed

subsection \<open>Properties\<close>

text \<open>
  C4. In every state reached by any interleaving of the waiting protocol
  by at most 16382 threads, none of the asserts of EventCount fails: every enabled operation
  (Prewait, CommitWait, CancelWait, Notify, a round of Park) succeeds.
\<close>

theorem EventCount_asserts_hold:
  assumes "ec_reach n s" "ec_enabled s ev"
  shows "\<exists>t. ec_apply s ev = Some t"
  using ec_reach_rep [OF assms(1)] ec_step_rep assms(2) by blast

lemma ec_start_2: "ec_start 2 = Some \<lparr>sys_ec = \<lparr>ec_mState = ec_kStackMask,
    ec_mWaiters = replicate 2 \<lparr>ecw_next = 0, ecw_epoch = 0, ecw_state = kNotSignaled\<rparr>\<rparr>, sys_pc = [Running, Running]\<rparr>"
  by (simp add: ec_start_def EventCount_new_def ec_kCounterBits_def) (simp add: numeral_2_eq_2)

definition ec_demo :: ec_sys where
  "ec_demo = \<lparr>sys_ec = \<lparr>ec_mState = 0x7FFF, ec_mWaiters = replicate 2
     \<lparr>ecw_next = 0, ecw_epoch = 0, ecw_state = kNotSignaled\<rparr>\<rparr>, sys_pc = [Prewaiting, Running]\<rparr>"

lemma ec_demo_reach: "ec_reach 2 ec_demo"
proof (rule ec_reach_step)
  show "ec_reach 2 (the (ec_start 2))" by (rule ec_reach_start) (simp add: ec_start_2)
  show "ec_enabled (the (ec_start 2)) (EvPrewait 0)" by (simp add: ec_start_2)
  show "ec_apply (the (ec_start 2)) (EvPrewait 0) = Some ec_demo"
    by (simp add: ec_start_2 ec_demo_def EventCount_Prewait_def EventCount_CheckState_def Let_def ec_layout)
qed

theorem EventCount_asserts_hold_witness:
  "\<exists>t. ec_apply ec_demo (EvCommit 0) = Some t"
  by (rule EventCount_asserts_hold [OF ec_demo_reach]) (simp add: ec_demo_def)

text \<open>
  A Notify of one waiter takes exactly one waiting thread out of the
  threads that still have to be notified (none when there is none), and a Notify of all takes all
  of them: no notification is lost and none is spent on two threads.
\<close>

theorem EventCount_Notify_counts:
  assumes "ec_reach n s" "ec_apply s (EvNotify notify_all) = Some t"
  shows "ec_pending t = (if notify_all then 0 else ec_pending s - 1)"
proof -
  obtain a where a: "ec_sys_rep s a" using ec_reach_rep [OF assms(1)] by blast
  then have t: "ec_sys_rep t (eca_notify notify_all a)"
    using ec_step_notify [OF a, of notify_all] assms(2) by (metis option.inject)
  have "eca_sig a \<le> eca_pre a" using a by (simp add: ec_sys_rep_def ec_rep_def)
  then show ?thesis
    by (cases "eca_stack a") (auto simp: ec_pending_rep [OF t] ec_pending_rep [OF a] eca_notify_def)
qed

definition ec_demo_signalled :: ec_sys where
  "ec_demo_signalled = ec_demo\<lparr>sys_ec := (sys_ec ec_demo)\<lparr>ec_mState := 0x10007FFF\<rparr>\<rparr>"

lemma ec_demo_notify: "ec_apply ec_demo (EvNotify False) = Some ec_demo_signalled"
  by (simp add: ec_demo_def ec_demo_signalled_def EventCount_Notify_def EventCount_CheckState_def Let_def ec_layout)

theorem EventCount_Notify_counts_witness:
  "ec_pending ec_demo = 1 \<and> ec_pending ec_demo_signalled = 0"
proof
  show "ec_pending ec_demo = 1"
    by (simp add: ec_pending_def ec_demo_def ec_signals_def ec_asleep_def ec_layout upt_rec)
  then show "ec_pending ec_demo_signalled = 0"
    using EventCount_Notify_counts [OF ec_demo_reach ec_demo_notify] by simp
qed

text \<open>Steps of the protocol in which no further thread starts to wait.\<close>

inductive ec_settles :: "ec_sys \<Rightarrow> ec_sys \<Rightarrow> bool" where
  ec_settled: "ec_settles s s"
| ec_settling: "ec_settles s t \<Longrightarrow> \<forall>i. ev \<noteq> EvPrewait i \<Longrightarrow> ec_enabled t ev \<Longrightarrow> ec_apply t ev = Some u \<Longrightarrow> ec_settles s u"

lemma ec_served_step:
  assumes "ec_sys_rep s a" "eca_sig a = eca_pre a" "eca_stack a = []" "\<forall>i. ev \<noteq> EvPrewait i" "ec_enabled s ev" "ec_apply s ev = Some t"
  shows "\<exists>b. ec_sys_rep t b \<and> eca_sig b = eca_pre b \<and> eca_stack b = []"
proof -
  have "ec_sys_rep t (eca_step ev a)" using ec_step_rep [OF assms(1,5)] assms(6) by auto
  moreover have "0 < eca_pre a" if "ev = EvCommit i" for i
    using that assms(1,5) count_list_nth_pos [of i "sys_pc s" Prewaiting] by (simp add: ec_sys_rep_def)
  ultimately show ?thesis using assms(2-4)
    by (intro exI [of _ "eca_step ev a"]) (cases ev; auto simp: eca_commit_def eca_cancel_def eca_notify_def)
qed

lemma ec_served_settles:
  assumes "ec_settles s t" "ec_sys_rep s a" "eca_sig a = eca_pre a" "eca_stack a = []"
  shows "\<exists>b. ec_sys_rep t b \<and> eca_sig b = eca_pre b \<and> eca_stack b = []"
  using assms by (induction rule: ec_settles.induct) (blast, metis ec_served_step)

lemma ec_served:
  assumes a: "ec_sys_rep s a" and sig: "eca_sig a = eca_pre a" "eca_stack a = []"
  shows "\<not> ec_asleep s i" "ec_enabled s (EvCommit i) \<Longrightarrow> \<exists>t. ec_apply s (EvCommit i) = Some t \<and> sys_pc t ! i = Running"
proof -
  show "\<not> ec_asleep s i" using a sig(2) by (auto simp: ec_sys_rep_def)
  assume en: "ec_enabled s (EvCommit i)"
  then have "0 < eca_pre a" using a count_list_nth_pos [of i "sys_pc s" Prewaiting] by (simp add: ec_sys_rep_def)
  then have "\<not> fst (eca_commit i a)" using sig by (simp add: eca_commit_def)
  then show "\<exists>t. ec_apply s (EvCommit i) = Some t \<and> sys_pc t ! i = Running" using ec_step_commit [OF a en] by metis
qed

text \<open>
  C5. In every reachable state Notify succeeds and spends its notification: with
  notifyAll nobody is left that waits (is parked without a signal, or between Prewait and CommitWait without
  a pending signal), otherwise exactly one waiting thread fewer, if there was one. As soon as nobody is left
  (after notifyAll, or after as many single notifications as threads wait), then in every continuation in which no
  further thread calls Prewait no thread sleeps without a signal, and every CommitWait returns without
  parking.
\<close>

theorem EventCount_no_lost_wakeup:
  assumes "ec_reach n s"
  shows "\<exists>t. ec_apply s (EvNotify notify_all) = Some t \<and> ec_pending t = (if notify_all then 0 else ec_pending s - 1) \<and>
    (ec_pending t = 0 \<longrightarrow> (\<forall>u i. ec_settles t u \<longrightarrow> \<not> ec_asleep u i \<and>
       (ec_enabled u (EvCommit i) \<longrightarrow> (\<exists>v. ec_apply u (EvCommit i) = Some v \<and> sys_pc v ! i = Running))))"
proof -
  obtain a where a: "ec_sys_rep s a" using ec_reach_rep [OF assms(1)] by blast
  obtain t where t: "ec_apply s (EvNotify notify_all) = Some t" "ec_sys_rep t (eca_notify notify_all a)"
    using ec_step_notify [OF a, of notify_all] by blast
  let ?b = "eca_notify notify_all a"
  have "eca_sig ?b = eca_pre ?b \<and> eca_stack ?b = []" if "ec_pending t = 0"
    using that ec_pending_rep [OF t(2)] t(2) by (simp add: ec_sys_rep_def ec_rep_def)
  then have "\<not> ec_asleep u i \<and> (ec_enabled u (EvCommit i) \<longrightarrow> (\<exists>v. ec_apply u (EvCommit i) = Some v \<and> sys_pc v ! i = Running))"
    if "ec_pending t = 0" "ec_settles t u" for u i
    using that ec_served_settles [OF that(2) t(2)] ec_served by metis
  then show ?thesis using t(1) EventCount_Notify_counts [OF assms t(1)] by blast
qed

text \<open>One thread waits in Prewait; after one notification its CommitWait returns.\<close>

theorem EventCount_no_lost_wakeup_witness:
  "ec_pending ec_demo = 1 \<and> ec_apply ec_demo (EvNotify False) = Some ec_demo_signalled \<and>
   (\<exists>t. ec_apply ec_demo_signalled (EvCommit 0) = Some t \<and> sys_pc t ! 0 = Running)"
proof -
  have p: "ec_pending ec_demo = 1"
    by (simp add: ec_pending_def ec_demo_def ec_signals_def ec_asleep_def ec_layout upt_rec)
  have en: "ec_enabled ec_demo_signalled (EvCommit 0)" by (simp add: ec_demo_signalled_def ec_demo_def)
  from EventCount_no_lost_wakeup [OF ec_demo_reach, of False]
  obtain t where t: "ec_apply ec_demo (EvNotify False) = Some t" "ec_pending t = (if False then 0 else ec_pending ec_demo - 1)"
      "ec_pending t = 0 \<longrightarrow> (\<forall>u i. ec_settles t u \<longrightarrow> \<not> ec_asleep u i \<and>
         (ec_enabled u (EvCommit i) \<longrightarrow> (\<exists>v. ec_apply u (EvCommit i) = Some v \<and> sys_pc v ! i = Running)))"
    by (elim exE conjE)
  have td: "t = ec_demo_signalled" using t(1) unfolding ec_demo_notify by (rule option.inject [THEN iffD1, symmetric])
  have "ec_pending t = 0" using t(2) p by simp
  from mp [OF t(3) this, rule_format, OF ec_settled, THEN conjunct2, rule_format, of 0]
  have "\<exists>v. ec_apply ec_demo_signalled (EvCommit 0) = Some v \<and> sys_pc v ! 0 = Running" using en unfolding td .
  then show ?thesis using p ec_demo_notify by (intro conjI)
qed

end
