(* ===== verification/Task_Priority_Deque.thy ===== *)
theory Task_Priority_Deque
  imports Queue_Interfaces
begin

text \<open>
  The deques with priorities of \<^verbatim>\<open>src/async/concurrent/task_priority_queue.h\<close>: TaskPriorityDeque, four rings
  of 1024 slots whose four 11-bit cursors and a 20-bit modification counter share one 64-bit word,
  and TaskPriorityLockDeque, four linked lists behind a mutex. The first one meets the priority
  deque contract of \<^verbatim>\<open>Queue_Interfaces\<close>; for the second one the effect of its element counter is shown.
  As for TaskDeque, an operation is modelled by its effect when it runs alone; \<open>None\<close> is a failed
  assert.
\<close>

subsection \<open>Layout constants\<close>

datatype TaskPriority = kCritical | kHigh | kDefault | kLow

primrec tp_int :: "TaskPriority \<Rightarrow> nat" where
  "tp_int kCritical = 0"
| "tp_int kHigh = 1"
| "tp_int kDefault = 2"
| "tp_int kLow = 3"

definition tp_kCounterBits :: nat where "tp_kCounterBits = 10"
definition tp_kNumTaskPriorities :: nat where "tp_kNumTaskPriorities = 4"
definition kTaskPriorities :: "TaskPriority list" where
  "kTaskPriorities = [kCritical, kHigh, kDefault, kLow]"
definition tp_kCapacity :: u64 where "tp_kCapacity = push_bit tp_kCounterBits 1"
definition tp_kIndexMask :: u64 where "tp_kIndexMask = push_bit tp_kCounterBits 1 - 1"
definition tp_kIndexMaskExt :: u64 where "tp_kIndexMaskExt = push_bit (tp_kCounterBits + 1) 1 - 1"
definition tp_kIndexShift :: "TaskPriority \<Rightarrow> nat" where
  "tp_kIndexShift p = (tp_kCounterBits + 1) * tp_int p"
definition tp_kIndexMasks :: "TaskPriority \<Rightarrow> u64" where
  "tp_kIndexMasks p = push_bit (tp_kIndexShift p) tp_kIndexMask"
definition tp_kIndexMasksExt :: "TaskPriority \<Rightarrow> u64" where
  "tp_kIndexMasksExt p = push_bit (tp_kIndexShift p) tp_kIndexMaskExt"
primrec tp_kIndexMaskCompl :: "TaskPriority \<Rightarrow> u64" where
  "tp_kIndexMaskCompl kCritical = tp_kIndexMasksExt kHigh OR tp_kIndexMasksExt kDefault OR tp_kIndexMasksExt kLow"
| "tp_kIndexMaskCompl kHigh = tp_kIndexMasksExt kCritical OR tp_kIndexMasksExt kDefault OR tp_kIndexMasksExt kLow"
| "tp_kIndexMaskCompl kDefault = tp_kIndexMasksExt kCritical OR tp_kIndexMasksExt kHigh OR tp_kIndexMasksExt kLow"
| "tp_kIndexMaskCompl kLow = tp_kIndexMasksExt kCritical OR tp_kIndexMasksExt kHigh OR tp_kIndexMasksExt kDefault"
definition tp_kIndicesBits :: nat where
  "tp_kIndicesBits = (tp_kCounterBits + 1) * tp_kNumTaskPriorities"
definition tp_kIndicesMask :: u64 where "tp_kIndicesMask = push_bit tp_kIndicesBits 1 - 1"
definition tp_kModificationCounterBits :: nat where "tp_kModificationCounterBits = 64 - tp_kIndicesBits"
definition tp_kModificationCounterMask :: u64 where
  "tp_kModificationCounterMask = push_bit tp_kModificationCounterBits 1 - 1"

subsection \<open>PointerState\<close>

definition ps_Index :: "u64 \<Rightarrow> TaskPriority \<Rightarrow> u64" where
  "ps_Index state priority = drop_bit (tp_kIndexShift priority) (state AND tp_kIndexMasks priority)"

definition ps_IndexExt :: "u64 \<Rightarrow> TaskPriority \<Rightarrow> u64" where
  "ps_IndexExt state priority = drop_bit (tp_kIndexShift priority) (state AND tp_kIndexMasksExt priority)"

definition ps_WithIndexExt :: "u64 \<Rightarrow> u64 \<Rightarrow> TaskPriority \<Rightarrow> u64 option" where
  "ps_WithIndexExt state index priority =
     (if index AND NOT tp_kIndexMaskExt = 0
      then Some (push_bit (tp_kIndexShift priority) index OR (state AND NOT (tp_kIndexMasksExt priority)))
      else None)"

definition ps_CheckState :: "u64 \<Rightarrow> TaskPriority \<Rightarrow> u64 \<Rightarrow> bool" where
  "ps_CheckState state priority inc =
     (let prev_idx = drop_bit (tp_kIndexShift priority) (state AND tp_kIndexMasks priority);
          new_idx = drop_bit (tp_kIndexShift priority) (inc AND tp_kIndexMasks priority);
          prev_cnt = drop_bit tp_kIndicesBits (state AND NOT tp_kIndicesMask);
          new_cnt = drop_bit tp_kIndicesBits (inc AND NOT tp_kIndicesMask);
          kCntCapacity = push_bit tp_kModificationCounterBits 1
      in (prev_idx = tp_kCapacity - 1 \<or> new_idx - prev_idx = 1) \<and>
         (prev_idx \<noteq> tp_kCapacity - 1 \<or> new_idx = 0) \<and>
         (prev_cnt = kCntCapacity - 1 \<or> new_cnt - prev_cnt = 1) \<and>
         (prev_cnt \<noteq> kCntCapacity - 1 \<or> new_cnt = 0))"

text \<open>The mask of the counter is written \<open>~kIndicesBits\<close> in Inc, as in the source.\<close>

definition ps_Inc :: "u64 \<Rightarrow> TaskPriority \<Rightarrow> u64 option" where
  "ps_Inc state priority =
     (let index = drop_bit (tp_kIndexShift priority) (state AND tp_kIndexMasksExt priority);
          other_indices = state AND tp_kIndexMaskCompl priority;
          counter = drop_bit tp_kIndicesBits (state AND NOT (of_nat tp_kIndicesBits));
          inc = push_bit (tp_kIndexShift priority) ((index + 1) AND tp_kIndexMaskExt) OR
                push_bit tp_kIndicesBits ((counter + 1) AND tp_kModificationCounterMask) OR
                other_indices
      in if ps_CheckState state priority inc then Some inc else None)"

subsection \<open>Bits of a pointer state\<close>

lemma tp_kIndexMask_mask: "tp_kIndexMask = mask 10"
  by (simp add: tp_kIndexMask_def tp_kCounterBits_def mask_eq_exp_minus_1)

lemma tp_kIndexMaskExt_mask: "tp_kIndexMaskExt = mask 11"
  by (simp add: tp_kIndexMaskExt_def tp_kCounterBits_def mask_eq_exp_minus_1)

lemma tp_kIndexShift_num: "tp_kIndexShift p = 11 * tp_int p"
  by (simp add: tp_kIndexShift_def tp_kCounterBits_def)

lemma tp_kIndicesBits_num: "tp_kIndicesBits = 44"
  by (simp add: tp_kIndicesBits_def tp_kCounterBits_def tp_kNumTaskPriorities_def)

lemma tp_kIndicesMask_mask: "tp_kIndicesMask = mask 44"
  by (simp add: tp_kIndicesMask_def tp_kIndicesBits_num mask_eq_exp_minus_1)

lemma tp_kModificationCounterMask_mask: "tp_kModificationCounterMask = mask 20"
  by (simp add: tp_kModificationCounterMask_def tp_kModificationCounterBits_def tp_kIndicesBits_num mask_eq_exp_minus_1)

lemmas tp_masks = tp_kIndexMask_mask tp_kIndexMaskExt_mask tp_kIndicesMask_mask tp_kModificationCounterMask_mask
  tp_kIndexMasks_def tp_kIndexMasksExt_def tp_kIndexShift_num tp_kIndicesBits_num

lemma tp_int_bound: "tp_int p < 4"
  by (cases p) simp_all

lemma ps_IndexExt_bit: "bit (ps_IndexExt st p) n \<longleftrightarrow> n < 11 \<and> bit st (11 * tp_int p + n)"
  using tp_int_bound [of p] by (cases p) (auto simp: ps_IndexExt_def tp_masks bit_simps dest: bit_imp_le_length)

lemma ps_Index_bit: "bit (ps_Index st p) n \<longleftrightarrow> n < 10 \<and> bit st (11 * tp_int p + n)"
  using tp_int_bound [of p] by (cases p) (auto simp: ps_Index_def tp_masks bit_simps dest: bit_imp_le_length)

lemma ps_Index_low: "ps_Index st p = ps_IndexExt st p AND mask 10"
  by (rule bit_word_eqI) (auto simp: ps_Index_bit ps_IndexExt_bit bit_simps)

lemma ps_IndexExt_mask: "ps_IndexExt st p AND mask 11 = ps_IndexExt st p"
  by (rule bit_word_eqI) (auto simp: ps_IndexExt_bit bit_simps)

text \<open>The value Inc computes, and what it does to the fields.\<close>

definition ps_inc :: "u64 \<Rightarrow> TaskPriority \<Rightarrow> u64" where
  "ps_inc st p = push_bit (11 * tp_int p) ((ps_IndexExt st p + 1) AND mask 11) OR
     push_bit 44 ((drop_bit 44 st + 1) AND mask 20) OR (st AND tp_kIndexMaskCompl p)"

lemma ps_Inc_inc: "ps_Inc st p = (if ps_CheckState st p (ps_inc st p) then Some (ps_inc st p) else None)"
proof -
  have "drop_bit 44 (st AND NOT (of_nat 44)) = drop_bit 44 st"
  proof (rule bit_word_eqI)
    fix n :: nat
    have "\<not> bit (44 :: nat) (44 + n)" by (rule nat_bit_small [of _ 6]) simp_all
    then have "\<not> bit (of_nat 44 :: u64) (44 + n)" by (simp only: bit_of_nat_iff simp_thms)
    then show "bit (drop_bit 44 (st AND NOT (of_nat 44))) n = bit (drop_bit 44 st) n"
      unfolding bit_drop_bit_eq bit_and_iff bit_not_iff comp_def
      using bit_imp_le_length [of st "44 + n"] by auto
  qed
  then show ?thesis
    unfolding ps_Inc_def Let_def tp_masks ps_inc_def ps_IndexExt_def by simp
qed

lemma tp_kIndexMaskCompl_bit:
  "bit (tp_kIndexMaskCompl p) n \<longleftrightarrow> n < 44 \<and> n div 11 \<noteq> tp_int p"
  by (cases p) (auto simp: tp_masks bit_simps)

lemma ps_inc_bit_low:
  assumes "m < 44"
  shows "bit (ps_inc st p) m = (if m div 11 = tp_int p then bit (ps_IndexExt st p + 1) (m - 11 * tp_int p) else bit st m)"
proof (cases "m div 11 = tp_int p")
  case True
  then have "11 * tp_int p \<le> m" "m - 11 * tp_int p < 11" by linarith+
  then show ?thesis using True assms by (simp add: ps_inc_def bit_simps tp_kIndexMaskCompl_bit)
next
  case False
  then have "\<not> (11 * tp_int p \<le> m \<and> m - 11 * tp_int p < 11)" by linarith
  then show ?thesis using False assms by (auto simp: ps_inc_def bit_simps tp_kIndexMaskCompl_bit)
qed

lemma tp_int_inj [simp]: "tp_int p = tp_int q \<longleftrightarrow> p = q"
  by (cases p; cases q) simp_all

lemma ps_IndexExt_inc:
  "ps_IndexExt (ps_inc st p) q = (if p = q then (ps_IndexExt st p + 1) AND mask 11 else ps_IndexExt st q)"
proof (rule bit_word_eqI)
  fix n :: nat
  have "(11 * tp_int q + n) div 11 = tp_int q" "11 * tp_int q + n < 44" if "n < 11"
    using that tp_int_bound [of q] by linarith+
  then show "bit (ps_IndexExt (ps_inc st p) q) n =
      bit (if p = q then (ps_IndexExt st p + 1) AND mask 11 else ps_IndexExt st q) n"
    by (auto simp: ps_IndexExt_bit ps_inc_bit_low bit_simps)
qed

lemma ps_counter_inc: "drop_bit 44 (ps_inc st p) = (drop_bit 44 st + 1) AND mask 20"
proof (rule bit_word_eqI)
  fix n :: nat
  have "\<not> 44 + n - 11 * tp_int p < 11" using tp_int_bound [of p] by linarith
  then show "bit (drop_bit 44 (ps_inc st p)) n = bit ((drop_bit 44 st + 1) AND mask 20) n"
    by (auto simp: ps_inc_def bit_simps tp_kIndexMaskCompl_bit dest: bit_imp_le_length)
qed

lemma ps_WithIndexExt_IndexExt:
  assumes "ps_WithIndexExt st idx p = Some st'"
  shows "ps_IndexExt st' q = (if p = q then idx else ps_IndexExt st q)"
proof -
  have st': "st' = push_bit (11 * tp_int p) idx OR (st AND NOT (push_bit (11 * tp_int p) (mask 11)))"
    and idx: "idx AND NOT (mask 11) = 0"
    using assms by (auto simp: ps_WithIndexExt_def tp_masks split: if_splits)
  have small: "\<not> bit idx n" if "11 \<le> n" for n
    using idx that bit_imp_le_length [of idx n] by (auto simp: bit_eq_iff bit_simps dest!: spec [of _ n])
  have "bit st' (11 * tp_int q + n) = (if p = q then bit idx n else bit st (11 * tp_int q + n))" if n: "n < 11" for n
  proof (cases "p = q")
    case True
    then show ?thesis using n tp_int_bound [of q] by (simp add: st' bit_simps)
  next
    case False
    then consider "tp_int p < tp_int q" | "tp_int q < tp_int p" by (metis linorder_neqE_nat tp_int_inj)
    then show ?thesis
    proof cases
      case 1
      then have "11 * tp_int p + 11 \<le> 11 * tp_int q + n" by linarith
      then have "11 \<le> 11 * tp_int q + n - 11 * tp_int p" by linarith
      then show ?thesis using False small n tp_int_bound [of q] by (simp add: st' bit_simps)
    next
      case 2
      then have "\<not> 11 * tp_int p \<le> 11 * tp_int q + n" using n by linarith
      then show ?thesis using False n tp_int_bound [of q] by (simp add: st' bit_simps)
    qed
  qed
  moreover have "bit (ps_IndexExt st' q) n = (if p = q then bit idx n else bit (ps_IndexExt st q) n)" for n
    using calculation [of n] small [of n] by (cases "n < 11") (auto simp: ps_IndexExt_bit)
  ultimately show ?thesis by (intro bit_word_eqI) auto
qed

lemma unat_and_mask_Suc: "unat ((w + 1) AND mask k) = (unat (w :: u64) + 1) mod 2 ^ k" if "k \<le> 64"
  using that by (simp add: unat_and_mask unat_add_mod_pow2)

lemma ps_IndexExt_bound: "unat (ps_IndexExt st p) < 2048"
proof -
  have "unat (ps_IndexExt st p) = unat (ps_IndexExt st p) mod 2 ^ 11"
    unfolding unat_and_mask [symmetric] ps_IndexExt_mask ..
  also have "\<dots> < 2 ^ 11" by (rule mod_less_divisor) simp
  finally show ?thesis by simp
qed

lemma mask_inc_wrap:
  fixes w :: u64
  assumes "k < 64"
  shows "if w AND mask k = mask k then (w + 1) AND mask k = 0 else (w + 1) AND mask k = (w AND mask k) + 1"
proof -
  have "unat (mask k :: u64) = nat (uint (mask k :: u64))" by (rule unat_eq_nat_uint)
  also have "\<dots> = 2 ^ k - 1"
    using assms by (simp only: uint_mask_eq) (simp add: min_def mask_eq_exp_minus_1 nat_diff_distrib nat_power_eq)
  finally have m: "unat (mask k :: u64) = 2 ^ k - 1" .
  have wk: "unat (w AND mask k) = unat w mod 2 ^ k" "unat ((w + 1) AND mask k) = Suc (unat w) mod 2 ^ k"
    using assms unat_and_mask_Suc [of k w] by (simp_all add: unat_and_mask)
  have pos: "(0 :: nat) < 2 ^ k" by simp
  have full: "w AND mask k = mask k \<longleftrightarrow> Suc (unat w mod 2 ^ k) = 2 ^ k"
    unfolding word_unat_eq_iff wk m using pos by linarith
  have "unat w mod 2 ^ k < 2 ^ k" by simp
  also have "(2 :: nat) ^ k \<le> 2 ^ 63" using assms by (intro power_increasing) simp_all
  finally have "unat ((w AND mask k) + 1) = Suc (unat w mod 2 ^ k)"
    by (simp add: unat_word_ariths wk(1))
  then show ?thesis
    unfolding full by (simp only: word_unat_eq_iff wk(2) mod_Suc) simp
qed

lemma ps_CheckState_inc: "ps_CheckState st p (ps_inc st p)"
proof -
  obtain i where i: "i = ps_IndexExt st p" by blast
  obtain c where c: "c = (drop_bit 44 st :: u64)" by blast
  have idx: "drop_bit (tp_kIndexShift p) (st AND tp_kIndexMasks p) = i AND mask 10"
    "drop_bit (tp_kIndexShift p) (ps_inc st p AND tp_kIndexMasks p) = (i + 1) AND mask 10"
  proof -
    show "drop_bit (tp_kIndexShift p) (st AND tp_kIndexMasks p) = i AND mask 10"
      using ps_Index_low [of st p] by (simp add: ps_Index_def i)
    have "((i + 1) AND mask 11) AND mask 10 = (i + 1) AND mask 10"
      by (rule bit_word_eqI) (auto simp: bit_simps)
    then show "drop_bit (tp_kIndexShift p) (ps_inc st p AND tp_kIndexMasks p) = (i + 1) AND mask 10"
      using ps_Index_low [of "ps_inc st p" p] by (simp add: ps_Index_def ps_IndexExt_inc i)
  qed
  have hi: "drop_bit 44 (w AND NOT (mask 44)) = drop_bit 44 w" for w :: u64
    by (rule bit_word_eqI) (auto simp: bit_simps dest: bit_imp_le_length)
  have cap: "tp_kCapacity - 1 = mask 10" "push_bit tp_kModificationCounterBits 1 - 1 = (mask 20 :: u64)"
    by (simp_all add: tp_kCapacity_def tp_kCounterBits_def tp_kModificationCounterBits_def tp_kIndicesBits_num mask_eq_exp_minus_1)
  have "c AND mask 20 = c" unfolding c
    by (rule bit_word_eqI) (auto simp: bit_simps dest: bit_imp_le_length)
  then show ?thesis
    using mask_inc_wrap [of 10 i] mask_inc_wrap [of 20 c]
    unfolding ps_CheckState_def Let_def idx tp_kIndicesBits_num tp_kIndicesMask_mask hi ps_counter_inc cap c
    by (auto simp del: mask_numeral split: if_splits)
qed

subsection \<open>TaskPriorityDeque\<close>

definition tp_kEmpty :: u8 where "tp_kEmpty = 0"
definition tp_kBusy :: u8 where "tp_kBusy = 1"
definition tp_kReady :: u8 where "tp_kReady = 2"

record 'a tp_elem =
  tpe_state :: u8
  tpe_task :: "'a option"

record 'a TaskPriorityDeque =
  tp_front :: u64
  tp_back :: u64
  tp_array :: "nat \<Rightarrow> 'a tp_elem"

text \<open>
  elem(priority, offset) is an index of the flat array; its asserts bound the offset. The offsets
  used are masked, hence below the capacity.
\<close>

definition tp_elem_index :: "TaskPriority \<Rightarrow> u64 \<Rightarrow> nat" where
  "tp_elem_index priority offset = tp_int priority * unat tp_kCapacity + unat offset"

definition TaskPriorityDeque_new :: "'a TaskPriorityDeque" where
  "TaskPriorityDeque_new = \<lparr>tp_front = 0, tp_back = 0, tp_array = (\<lambda>_. \<lparr>tpe_state = tp_kEmpty, tpe_task = None\<rparr>)\<rparr>"

definition tp_cas :: "'a TaskPriorityDeque \<Rightarrow> nat \<Rightarrow> u8 \<Rightarrow> u8 \<Rightarrow> bool \<times> 'a TaskPriorityDeque" where
  "tp_cas q j expected desired =
     (if tpe_state (tp_array q j) = expected
      then (True, q\<lparr>tp_array := (tp_array q)(j := (tp_array q j)\<lparr>tpe_state := desired\<rparr>)\<rparr>)
      else (False, q))"

definition tp_put :: "'a TaskPriorityDeque \<Rightarrow> nat \<Rightarrow> 'a tp_elem \<Rightarrow> 'a TaskPriorityDeque" where
  "tp_put q j e = q\<lparr>tp_array := (tp_array q)(j := e)\<rparr>"

definition TaskPriorityDeque_PushFront ::
  "'a TaskPriorityDeque \<Rightarrow> 'a \<Rightarrow> TaskPriority \<Rightarrow> ('a option \<times> 'a TaskPriorityDeque) option" where
  "TaskPriorityDeque_PushFront q task priority =
     (let front = tp_front q; j = tp_elem_index priority (ps_Index front priority); s = tpe_state (tp_array q j) in
      if s \<noteq> tp_kEmpty then Some (Some task, q)
      else case tp_cas q j s tp_kBusy of
        (False, q1) \<Rightarrow> Some (Some task, q1)
      | (True, q1) \<Rightarrow> map_option (\<lambda>front1. (None,
            tp_put (q1\<lparr>tp_front := front1\<rparr>) j \<lparr>tpe_state = tp_kReady, tpe_task = Some task\<rparr>)) (ps_Inc front priority))"

fun tp_pop_front_loop ::
  "'a TaskPriorityDeque \<Rightarrow> u64 \<Rightarrow> TaskPriority list \<Rightarrow> ('a option \<times> 'a TaskPriorityDeque) option" where
  "tp_pop_front_loop q front [] = Some (None, q)"
| "tp_pop_front_loop q front (priority # ps) =
     (let index = ps_IndexExt front priority;
          j = tp_elem_index priority ((index - 1) AND tp_kIndexMask); s = tpe_state (tp_array q j) in
      if s \<noteq> tp_kReady then tp_pop_front_loop q front ps
      else case tp_cas q j s tp_kBusy of
        (False, q1) \<Rightarrow> Some (None, q1)
      | (True, q1) \<Rightarrow> map_option (\<lambda>front1. (tpe_task (tp_array q1 j),
            (tp_put q1 j \<lparr>tpe_state = tp_kEmpty, tpe_task = None\<rparr>)\<lparr>tp_front := front1\<rparr>))
          (ps_WithIndexExt front ((index - 1) AND tp_kIndexMaskExt) priority))"

definition TaskPriorityDeque_PopFront :: "'a TaskPriorityDeque \<Rightarrow> ('a option \<times> 'a TaskPriorityDeque) option" where
  "TaskPriorityDeque_PopFront q = tp_pop_front_loop q (tp_front q) kTaskPriorities"

definition TaskPriorityDeque_PushBack ::
  "'a TaskPriorityDeque \<Rightarrow> 'a \<Rightarrow> TaskPriority \<Rightarrow> ('a option \<times> 'a TaskPriorityDeque) option" where
  "TaskPriorityDeque_PushBack q task priority =
     (let back = tp_back q; index = ps_IndexExt back priority;
          j = tp_elem_index priority ((index - 1) AND tp_kIndexMask); s = tpe_state (tp_array q j) in
      if s \<noteq> tp_kEmpty then Some (Some task, q)
      else case tp_cas q j s tp_kBusy of
        (False, q1) \<Rightarrow> Some (Some task, q1)
      | (True, q1) \<Rightarrow> map_option (\<lambda>back1. (None,
            tp_put (q1\<lparr>tp_back := back1\<rparr>) j \<lparr>tpe_state = tp_kReady, tpe_task = Some task\<rparr>))
          (ps_WithIndexExt back ((index - 1) AND tp_kIndexMaskExt) priority))"

definition tp_queue_size :: "u64 \<Rightarrow> u64 \<Rightarrow> TaskPriority \<Rightarrow> int" where
  "tp_queue_size front back priority = sint (ucast (ps_IndexExt front priority - ps_IndexExt back priority) :: u32)"

text \<open>The size of one priority level with the overflow fixed; \<open>None\<close> is a failed assert.\<close>

definition tp_fix_size :: "int \<Rightarrow> int option" where
  "tp_fix_size n =
     (let m = (if n < 0 then n + 2 * uint tp_kCapacity else n) in
      if m \<le> uint tp_kCapacity + 1
      then Some (if m > uint tp_kCapacity then uint tp_kCapacity else m) else None)"

definition TaskPriorityDeque_CalculateSize :: "u64 \<Rightarrow> u64 \<Rightarrow> u32 option" where
  "TaskPriorityDeque_CalculateSize front back =
     (case (tp_fix_size (tp_queue_size front back kCritical), tp_fix_size (tp_queue_size front back kHigh),
            tp_fix_size (tp_queue_size front back kDefault), tp_fix_size (tp_queue_size front back kLow)) of
        (Some size0, Some size1, Some size2, Some size3) \<Rightarrow>
          (let size = size0 + size1 + size2 + size3 in
           if size \<le> int tp_kNumTaskPriorities * uint tp_kCapacity then Some (word_of_int size) else None)
      | _ \<Rightarrow> None)"

partial_function (option) TaskPriorityDeque_SizeOrNotEmpty ::
  "bool \<Rightarrow> 'a TaskPriorityDeque \<Rightarrow> u64 \<Rightarrow> u64 option" where
  "TaskPriorityDeque_SizeOrNotEmpty need_size q front =
     (let back = tp_back q; front1 = tp_front q in
      if front \<noteq> front1 then TaskPriorityDeque_SizeOrNotEmpty need_size q front1
      else if need_size then map_option ucast (TaskPriorityDeque_CalculateSize front back)
      else let maybe_zero = (front XOR back) AND tp_kIndicesMask in
           case TaskPriorityDeque_CalculateSize front back of
             None \<Rightarrow> None
           | Some sz \<Rightarrow> if (sz = 0) = (maybe_zero = 0) then Some maybe_zero else None)"

definition TaskPriorityDeque_Size :: "'a TaskPriorityDeque \<Rightarrow> u64 option" where
  "TaskPriorityDeque_Size q = TaskPriorityDeque_SizeOrNotEmpty True q (tp_front q)"

definition TaskPriorityDeque_Empty :: "'a TaskPriorityDeque \<Rightarrow> bool option" where
  "TaskPriorityDeque_Empty q = map_option (\<lambda>n. n = 0) (TaskPriorityDeque_SizeOrNotEmpty False q (tp_front q))"

fun tp_pop_back_loop ::
  "'a TaskPriorityDeque \<Rightarrow> u64 \<Rightarrow> TaskPriority list \<Rightarrow> ('a option \<times> 'a TaskPriorityDeque) option" where
  "tp_pop_back_loop q back [] = Some (None, q)"
| "tp_pop_back_loop q back (priority # ps) =
     (let j = tp_elem_index priority (ps_Index back priority); s = tpe_state (tp_array q j) in
      if s \<noteq> tp_kReady then tp_pop_back_loop q back ps
      else case tp_cas q j s tp_kBusy of
        (False, q1) \<Rightarrow> Some (None, q1)
      | (True, q1) \<Rightarrow> map_option (\<lambda>back1. (tpe_task (tp_array q1 j),
            (tp_put q1 j \<lparr>tpe_state = tp_kEmpty, tpe_task = None\<rparr>)\<lparr>tp_back := back1\<rparr>)) (ps_Inc back priority))"

definition TaskPriorityDeque_PopBack :: "'a TaskPriorityDeque \<Rightarrow> ('a option \<times> 'a TaskPriorityDeque) option" where
  "TaskPriorityDeque_PopBack q =
     (case TaskPriorityDeque_Empty q of
        None \<Rightarrow> None
      | Some True \<Rightarrow> Some (None, q)
      | Some False \<Rightarrow> tp_pop_back_loop q (tp_back q) kTaskPriorities)"

partial_function (option) TaskPriorityDeque_Flush :: "'a TaskPriorityDeque \<Rightarrow> 'a TaskPriorityDeque option" where
  "TaskPriorityDeque_Flush q =
     Option.bind (TaskPriorityDeque_Empty q) (\<lambda>empty.
       if empty then Some q
       else Option.bind (TaskPriorityDeque_PopFront q) (\<lambda>r.
         if fst r = None then None else TaskPriorityDeque_Flush (snd r)))"

fun tp_call :: "'a TaskPriorityDeque \<Rightarrow> (TaskPriority, 'a) prio_call \<Rightarrow> ('a option \<times> 'a TaskPriorityDeque) option" where
  "tp_call q (PrioPushFront p t) = TaskPriorityDeque_PushFront q t p"
| "tp_call q PrioPopFront = TaskPriorityDeque_PopFront q"
| "tp_call q (PrioPushBack p t) = TaskPriorityDeque_PushBack q t p"
| "tp_call q PrioPopBack = TaskPriorityDeque_PopBack q"

subsection \<open>One ring\<close>

text \<open>
  A ring of 1024 slots with cursors modulo 2048, as a function from slots to elements: it holds the
  list \<open>xs\<close>, from the back end to the front end, in the slots counted from the back cursor.
\<close>

definition tp_cell :: "'a list \<Rightarrow> nat \<Rightarrow> 'a tp_elem" where
  "tp_cell xs i = (if i < length xs then \<lparr>tpe_state = tp_kReady, tpe_task = Some (xs ! i)\<rparr>
                   else \<lparr>tpe_state = tp_kEmpty, tpe_task = None\<rparr>)"

definition tp_ring :: "(nat \<Rightarrow> 'a tp_elem) \<Rightarrow> nat \<Rightarrow> nat \<Rightarrow> 'a list \<Rightarrow> bool" where
  "tp_ring arr f b xs \<longleftrightarrow> f < 2048 \<and> b < 2048 \<and> length xs \<le> 1024 \<and> f = (b + length xs) mod 2048 \<and>
     (\<forall>i<1024. arr ((b + i) mod 1024) = tp_cell xs i)"

lemma mod_2048_1024: "(x mod 2048) mod 1024 = x mod (1024 :: nat)"
  by (rule mod_mod_cancel) simp

lemma tp_ring_front: "tp_ring arr f b xs \<Longrightarrow> f mod 1024 = (b + length xs) mod 1024"
  by (simp add: tp_ring_def mod_2048_1024)

lemma tp_ring_cell: "tp_ring arr f b xs \<Longrightarrow> i < 1024 \<Longrightarrow> arr ((b + i) mod 1024) = tp_cell xs i"
  by (simp add: tp_ring_def)

lemma tp_ring_upd:
  assumes "tp_ring arr f b xs" "j < 1024" "length ys \<le> 1024" "f' = (b + length ys) mod 2048"
    "\<And>i. i < 1024 \<Longrightarrow> tp_cell ys i = (if i = j then e else tp_cell xs i)"
  shows "tp_ring (arr((b + j) mod 1024 := e)) f' b ys"
  using assms by (auto simp: tp_ring_def add_mod_eq_iff)

lemma tp_ring_front_slot:
  assumes "tp_ring arr f b xs"
  shows "tpe_state (arr (f mod 1024)) = tp_kEmpty \<longleftrightarrow> length xs < 1024"
proof (cases "length xs < 1024")
  case True
  then show ?thesis using tp_ring_cell [OF assms True] by (simp add: tp_ring_front [OF assms] tp_cell_def)
next
  case False
  then have "length xs = 1024" using assms by (simp add: tp_ring_def)
  then have "f mod 1024 = (b + 0) mod 1024" by (simp add: tp_ring_front [OF assms])
  then show ?thesis
    using tp_ring_cell [OF assms, of 0] \<open>length xs = 1024\<close> by (simp add: tp_cell_def tp_kEmpty_def tp_kReady_def)
qed

lemma tp_ring_push_front:
  assumes "tp_ring arr f b xs" "length xs < 1024"
  shows "tp_ring (arr(f mod 1024 := \<lparr>tpe_state = tp_kReady, tpe_task = Some x\<rparr>)) ((f + 1) mod 2048) b (xs @ [x])"
  unfolding tp_ring_front [OF assms(1)] using assms
  by (intro tp_ring_upd) (auto simp: tp_cell_def nth_append tp_ring_def mod_Suc_eq)

lemma tp_ring_front_pred:
  assumes "tp_ring arr f b xs"
  shows "(f + 1023) mod 1024 = (b + (length xs + 1023) mod 1024) mod 1024"
proof -
  have "(f + 1023) mod 1024 = (f mod 1024 + 1023) mod 1024" by (simp add: mod_add_left_eq)
  also have "\<dots> = (b + (length xs + 1023)) mod 1024" by (simp add: tp_ring_front [OF assms] mod_add_left_eq add.assoc)
  finally show ?thesis by (simp add: mod_add_right_eq)
qed

lemma tp_ring_front_pred_slot:
  assumes "tp_ring arr f b xs"
  shows "arr ((f + 1023) mod 1024) =
    (if xs = [] then \<lparr>tpe_state = tp_kEmpty, tpe_task = None\<rparr> else \<lparr>tpe_state = tp_kReady, tpe_task = Some (last xs)\<rparr>)"
proof -
  have len: "length xs \<le> 1024" using assms by (simp add: tp_ring_def)
  have "(length xs + 1023) mod 1024 = (if xs = [] then 1023 else length xs - 1)"
    using len by (cases "length xs") auto
  then show ?thesis
    using tp_ring_cell [OF assms, of "(length xs + 1023) mod 1024"] len
    by (auto simp: tp_ring_front_pred [OF assms] tp_cell_def last_conv_nth)
qed

lemma tp_ring_pop_front:
  assumes "tp_ring arr f b xs" "xs \<noteq> []"
  shows "tp_ring (arr((f + 1023) mod 1024 := \<lparr>tpe_state = tp_kEmpty, tpe_task = None\<rparr>)) ((f + 2047) mod 2048) b (butlast xs)"
proof -
  obtain n where n: "length xs = Suc n" using assms(2) by (cases xs) auto
  have len: "n < 1024" using assms(1) n by (simp add: tp_ring_def)
  have "(f + 1023) mod 1024 = (b + n) mod 1024"
    using len by (simp add: tp_ring_front_pred [OF assms(1)] n)
  moreover have "(f + 2047) mod 2048 = (b + length (butlast xs)) mod 2048"
  proof -
    have "f = (b + Suc n) mod 2048" using assms(1) n by (simp add: tp_ring_def)
    then have "(f + 2047) mod 2048 = (b + Suc n + 2047) mod 2048" by (simp only: mod_add_left_eq)
    also have "\<dots> = (b + n + 2048) mod 2048" by simp
    finally show ?thesis using n by (simp only: mod_add_self2) simp
  qed
  ultimately show ?thesis
    using len n assms(1) by (auto intro!: tp_ring_upd simp: tp_cell_def nth_butlast)
qed

lemma tp_ring_back_pred_slot:
  assumes "tp_ring arr f b xs"
  shows "tpe_state (arr ((b + 1023) mod 1024)) = tp_kEmpty \<longleftrightarrow> length xs < 1024"
  using tp_ring_cell [OF assms, of 1023] assms
  by (auto simp: tp_cell_def tp_ring_def tp_kEmpty_def tp_kReady_def)

lemma tp_ring_push_back:
  assumes "tp_ring arr f b xs" "length xs < 1024"
  shows "tp_ring (arr((b + 1023) mod 1024 := \<lparr>tpe_state = tp_kReady, tpe_task = Some x\<rparr>)) f ((b + 2047) mod 2048) (x # xs)"
proof -
  have f: "f = (b + length xs) mod 2048" "f < 2048" using assms(1) by (simp_all add: tp_ring_def)
  have slot: "((b + 2047) mod 2048 + i) mod 1024 = (case i of 0 \<Rightarrow> (b + 1023) mod 1024 | Suc k \<Rightarrow> (b + k) mod 1024)" for i
  proof -
    have "((b + 2047) mod 2048 + i) mod 1024 = ((b + 2047) mod 2048 mod 1024 + i) mod 1024" by (simp add: mod_add_left_eq)
    also have "\<dots> = (b + 2047 + i) mod 1024" by (simp only: mod_2048_1024 mod_add_left_eq)
    also have "b + 2047 + i = (b + 1023 + i) + 1024" by simp
    also have "\<dots> mod 1024 = (b + 1023 + i) mod 1024" by (rule mod_add_self2)
    finally show ?thesis
      using mod_add_self2 [of "b + (i - 1)" 1024] by (cases i) (simp_all add: ac_simps)
  qed
  have "b + 2047 + length (x # xs) = (b + length xs) + 2048" by simp
  then have "((b + 2047) mod 2048 + length (x # xs)) mod 2048 = ((b + length xs) + 2048) mod 2048"
    by (simp only: mod_add_left_eq)
  then have "f = ((b + 2047) mod 2048 + length (x # xs)) mod 2048" using f(1) by (simp only: mod_add_self2)
  moreover have "(arr((b + 1023) mod 1024 := \<lparr>tpe_state = tp_kReady, tpe_task = Some x\<rparr>)) (((b + 2047) mod 2048 + i) mod 1024) = tp_cell (x # xs) i"
    if "i < 1024" for i
    using that tp_ring_cell [OF assms(1), of "i - 1"] add_mod_eq_iff [of "i - 1" 1024 1023 b]
    unfolding slot by (cases i) (auto simp: tp_cell_def)
  ultimately show ?thesis using assms f by (auto simp: tp_ring_def)
qed

lemma tp_ring_back_slot:
  assumes "tp_ring arr f b xs"
  shows "arr (b mod 1024) =
    (if xs = [] then \<lparr>tpe_state = tp_kEmpty, tpe_task = None\<rparr> else \<lparr>tpe_state = tp_kReady, tpe_task = Some (hd xs)\<rparr>)"
  using tp_ring_cell [OF assms, of 0] by (cases xs) (auto simp: tp_cell_def)

lemma tp_ring_pop_back:
  assumes "tp_ring arr f b xs" "xs \<noteq> []"
  shows "tp_ring (arr(b mod 1024 := \<lparr>tpe_state = tp_kEmpty, tpe_task = None\<rparr>)) f ((b + 1) mod 2048) (tl xs)"
proof -
  have f: "f = (b + length xs) mod 2048" "f < 2048" and len: "length xs \<le> 1024"
    using assms(1) by (simp_all add: tp_ring_def)
  have slot: "((b + 1) mod 2048 + i) mod 1024 = (b + Suc i) mod 1024" for i
  proof -
    have "((b + 1) mod 2048 + i) mod 1024 = ((b + 1) mod 2048 mod 1024 + i) mod 1024" by (simp add: mod_add_left_eq)
    then show ?thesis by (simp add: mod_2048_1024 mod_add_left_eq)
  qed
  have "((b + 1) mod 2048 + length (tl xs)) mod 2048 = (b + length xs) mod 2048"
    using assms(2) by (cases xs) (simp_all add: mod_add_left_eq)
  moreover have "(arr(b mod 1024 := \<lparr>tpe_state = tp_kEmpty, tpe_task = None\<rparr>)) (((b + 1) mod 2048 + i) mod 1024) = tp_cell (tl xs) i"
    if i: "i < 1024" for i
  proof (cases "Suc i < 1024")
    case True
    then have "(b + Suc i) mod 1024 \<noteq> b mod 1024" using add_mod_eq_iff [of "Suc i" 1024 0 b] by simp
    then show ?thesis unfolding slot using tp_ring_cell [OF assms(1) True] by (auto simp: tp_cell_def nth_tl)
  next
    case False
    then have "Suc i = 1024" using i by simp
    then show ?thesis unfolding slot using len by (auto simp: tp_cell_def mod_add_self2)
  qed
  ultimately show ?thesis using f len by (auto simp: tp_ring_def)
qed

lemma tp_ring_cong: "(\<And>o'. o' < 1024 \<Longrightarrow> arr o' = arr' o') \<Longrightarrow> tp_ring arr f b xs = tp_ring arr' f b xs"
  by (auto simp: tp_ring_def)

lemma tp_ring_gap:
  assumes "tp_ring arr f b xs"
  shows "int f - int b = int (length xs) \<or> int f - int b = int (length xs) - 2048"
proof -
  have "b + length xs < 2 * 2048" "f = (b + length xs) mod 2048" using assms by (auto simp: tp_ring_def)
  then show ?thesis by (cases "b + length xs < 2048") (auto simp: mod_if)
qed

lemma tp_ring_same: "tp_ring arr f b xs \<Longrightarrow> f = b \<longleftrightarrow> xs = []"
  using tp_ring_gap [of arr f b xs] by (auto simp: tp_ring_def)

subsection \<open>Representation\<close>

definition tp_slots :: "'a TaskPriorityDeque \<Rightarrow> TaskPriority \<Rightarrow> nat \<Rightarrow> 'a tp_elem" where
  "tp_slots q p off = tp_array q (tp_int p * 1024 + off)"

definition tp_rep :: "'a TaskPriorityDeque \<Rightarrow> (TaskPriority \<Rightarrow> 'a list) \<Rightarrow> bool" where
  "tp_rep q c \<longleftrightarrow> (\<forall>p. tp_ring (tp_slots q p) (unat (ps_IndexExt (tp_front q) p)) (unat (ps_IndexExt (tp_back q) p)) (c p))"

definition tp_inv :: "'a TaskPriorityDeque \<Rightarrow> bool" where
  "tp_inv q \<longleftrightarrow> (\<exists>c. tp_rep q c)"

definition tp_len :: "'a TaskPriorityDeque \<Rightarrow> TaskPriority \<Rightarrow> nat" where
  "tp_len q p = (unat (ps_IndexExt (tp_front q) p) + (2048 - unat (ps_IndexExt (tp_back q) p))) mod 2048"

definition tp_abs :: "'a TaskPriorityDeque \<Rightarrow> TaskPriority \<Rightarrow> 'a list" where
  "tp_abs q p = map (\<lambda>i. the (tpe_task (tp_slots q p ((unat (ps_IndexExt (tp_back q) p) + i) mod 1024)))) [0..<tp_len q p]"

lemma tp_ring_length:
  assumes "tp_ring arr f b xs"
  shows "(f + (2048 - b)) mod 2048 = length xs"
proof -
  have "f mod 2048 = (b + length xs) mod 2048" "length xs < 2048" "b mod 2048 = b"
    using assms unfolding tp_ring_def by simp_all
  then show ?thesis using cyclic_distance [of f 2048 b "length xs"] by (simp only:)
qed

lemma tp_rep_ring:
  "tp_rep q c \<Longrightarrow> tp_ring (tp_slots q p) (unat (ps_IndexExt (tp_front q) p)) (unat (ps_IndexExt (tp_back q) p)) (c p)"
  unfolding tp_rep_def by blast

lemma tp_rep_len: "tp_rep q c \<Longrightarrow> tp_len q p = length (c p)"
  unfolding tp_len_def by (rule tp_ring_length [OF tp_rep_ring])

lemma tp_rep_abs:
  assumes rep: "tp_rep q c"
  shows "tp_abs q = c"
proof (rule ext)
  fix p
  have r: "tp_ring (tp_slots q p) (unat (ps_IndexExt (tp_front q) p)) (unat (ps_IndexExt (tp_back q) p)) (c p)"
    using rep unfolding tp_rep_def by blast
  then have len: "length (c p) \<le> 1024" unfolding tp_ring_def by blast
  have "the (tpe_task (tp_slots q p ((unat (ps_IndexExt (tp_back q) p) + i) mod 1024))) = c p ! i" if "i < length (c p)" for i
    unfolding tp_ring_cell [OF r less_le_trans [OF that len]] tp_cell_def using that by simp
  then have "tp_abs q p = map (\<lambda>i. c p ! i) [0..<length (c p)]"
    unfolding tp_abs_def tp_rep_len [OF rep] by (intro map_cong) auto
  then show "tp_abs q p = c p" by (simp only: map_nth)
qed

lemma tp_inv_rep: "tp_inv q \<Longrightarrow> tp_rep q (tp_abs q)"
  using tp_rep_abs by (auto simp: tp_inv_def)

lemma tp_elem_index_num: "tp_elem_index p off = tp_int p * 1024 + unat off"
  by (simp add: tp_elem_index_def tp_kCapacity_def tp_kCounterBits_def)

lemma unat_minus_1_u64: "unat (- 1 :: u64) = 18446744073709551615"
  by (simp add: unsigned_minus_1_eq_mask mask_eq_exp_minus_1)

lemma unat_pred_and_mask:
  "unat ((w - 1 :: u64) AND mask 10) = (unat w + 1023) mod 1024"
  "unat ((w - 1 :: u64) AND mask 11) = (unat w + 2047) mod 2048"
proof -
  have *: "unat (w - 1) mod 2 ^ k = (unat w + 18446744073709551615) mod 2 ^ k" if "k \<le> 64" for k
    using unat_add_mod_pow2 [where ?'a = 64, of k w "- 1"] that by (simp add: unat_minus_1_u64)
  have "unat w + 18446744073709551615 = (unat w + 1023) + 1024 * 18014398509481983" by simp
  then have "(unat w + 18446744073709551615) mod 1024 = (unat w + 1023) mod 1024" by (simp only: mod_mult_self2)
  then show "unat ((w - 1 :: u64) AND mask 10) = (unat w + 1023) mod 1024"
    using * [of 10] by (simp add: unat_and_mask)
  have "unat w + 18446744073709551615 = (unat w + 2047) + 2048 * 9007199254740991" by simp
  then have "(unat w + 18446744073709551615) mod 2048 = (unat w + 2047) mod 2048" by (simp only: mod_mult_self2)
  then show "unat ((w - 1 :: u64) AND mask 11) = (unat w + 2047) mod 2048"
    using * [of 11] by (simp add: unat_and_mask)
qed

lemma tp_slots_put:
  assumes "off < 1024" "j = tp_int p * 1024 + off" "o' < 1024"
  shows "tp_slots (tp_put q j e) p' o' = (if p' = p then (tp_slots q p)(off := e) else tp_slots q p') o'"
proof (cases "p' = p")
  case False
  then have "tp_int p' < tp_int p \<or> tp_int p < tp_int p'" using tp_int_inj by (metis linorder_neqE_nat)
  then have "tp_int p' * 1024 + o' \<noteq> tp_int p * 1024 + off" using assms(1,3) by linarith
  with False assms(2) show ?thesis by (simp add: tp_slots_def tp_put_def)
qed (use assms in \<open>auto simp: tp_slots_def tp_put_def\<close>)

text \<open>
  The general update: one slot of priority \<open>p\<close> is overwritten and the cursors of priority \<open>p\<close> move.
\<close>

lemma tp_rep_update:
  assumes rep: "tp_rep q c" and off: "off < 1024" "j = tp_int p * 1024 + off"
    and arr: "tp_array q1 = (tp_array q)(j := e)"
    and others: "\<And>p'. p' \<noteq> p \<Longrightarrow> ps_IndexExt (tp_front q1) p' = ps_IndexExt (tp_front q) p'"
      "\<And>p'. p' \<noteq> p \<Longrightarrow> ps_IndexExt (tp_back q1) p' = ps_IndexExt (tp_back q) p'"
    and ring: "tp_ring ((tp_slots q p)(off := e)) (unat (ps_IndexExt (tp_front q1) p)) (unat (ps_IndexExt (tp_back q1) p)) xs"
  shows "tp_rep q1 (c(p := xs))"
  unfolding tp_rep_def
proof
  fix p'
  have "tp_slots q1 p' = tp_slots (tp_put q j e) p'" by (simp add: tp_slots_def tp_put_def arr fun_eq_iff)
  then have slots: "tp_slots q1 p' o' = (if p' = p then (tp_slots q p)(off := e) else tp_slots q p') o'" if "o' < 1024" for o'
    using tp_slots_put [OF off that, of q e p'] by simp
  show "tp_ring (tp_slots q1 p') (unat (ps_IndexExt (tp_front q1) p')) (unat (ps_IndexExt (tp_back q1) p')) ((c(p := xs)) p')"
  proof (cases "p' = p")
    case True
    then have "tp_ring (tp_slots q1 p) f b xs = tp_ring ((tp_slots q p)(off := e)) f b xs" for f b
      by (intro tp_ring_cong) (use slots in simp)
    with ring True show ?thesis by simp
  next
    case False
    then have "tp_ring (tp_slots q1 p') f b xs = tp_ring (tp_slots q p') f b xs" for f b xs
      by (intro tp_ring_cong) (use slots in simp)
    with tp_rep_ring [OF rep, of p'] False others show ?thesis by simp
  qed
qed

lemma ps_Inc_some: "ps_Inc st p = Some (ps_inc st p)"
  by (simp add: ps_Inc_inc ps_CheckState_inc)

lemma ps_IndexExt_inc_unat: "unat (ps_IndexExt (ps_inc st p) p) = (unat (ps_IndexExt st p) + 1) mod 2048"
  using unat_and_mask_Suc [of 11 "ps_IndexExt st p"] by (simp add: ps_IndexExt_inc del: mask_numeral)

lemma ps_Index_unat: "unat (ps_Index st p) = unat (ps_IndexExt st p) mod 1024"
  by (simp add: ps_Index_low unat_and_mask del: mask_numeral)

lemma ps_WithIndexExt_some:
  "\<exists>st'. ps_WithIndexExt st ((i - 1) AND tp_kIndexMaskExt) p = Some st' \<and>
     (\<forall>p'. p' \<noteq> p \<longrightarrow> ps_IndexExt st' p' = ps_IndexExt st p') \<and> unat (ps_IndexExt st' p) = (unat i + 2047) mod 2048"
proof -
  have "((i - 1) AND mask 11) AND NOT (mask 11) = 0" by (simp add: and.assoc del: mask_numeral)
  then obtain st' where st': "ps_WithIndexExt st ((i - 1) AND tp_kIndexMaskExt) p = Some st'"
    by (simp add: ps_WithIndexExt_def tp_kIndexMaskExt_mask)
  then show ?thesis
    using ps_WithIndexExt_IndexExt [OF st'] unat_pred_and_mask(2) [of i]
    by (simp add: tp_kIndexMaskExt_mask del: mask_numeral)
qed

lemma tp_states_distinct [simp]:
  "tp_kEmpty \<noteq> tp_kReady" "tp_kReady \<noteq> tp_kEmpty" "tp_kEmpty \<noteq> tp_kBusy" "tp_kReady \<noteq> tp_kBusy"
  by (simp_all add: tp_kEmpty_def tp_kReady_def tp_kBusy_def)

subsection \<open>Every operation implements the specification\<close>

lemma TaskPriorityDeque_PushFront_rep:
  assumes rep: "tp_rep q c"
  shows "\<exists>r q1 d. TaskPriorityDeque_PushFront q x p = Some (r, q1) \<and>
    prio_spec 1024 kTaskPriorities c (PrioPushFront p x) = (r, d) \<and> tp_rep q1 d"
proof -
  obtain f b where fb: "f = unat (ps_IndexExt (tp_front q) p)" "b = unat (ps_IndexExt (tp_back q) p)" by blast
  have ring: "tp_ring (tp_slots q p) f b (c p)" unfolding fb by (rule tp_rep_ring [OF rep])
  obtain j where j: "j = tp_elem_index p (ps_Index (tp_front q) p)" by blast
  have j': "j = tp_int p * 1024 + f mod 1024" by (simp add: j tp_elem_index_num ps_Index_unat fb)
  have st: "tpe_state (tp_array q j) = tp_kEmpty \<longleftrightarrow> length (c p) < 1024"
    using tp_ring_front_slot [OF ring] by (simp add: j' tp_slots_def)
  show ?thesis
  proof (cases "length (c p) < 1024")
    case True
    define q1 where "q1 = tp_put (q\<lparr>tp_front := ps_inc (tp_front q) p\<rparr>) j \<lparr>tpe_state = tp_kReady, tpe_task = Some x\<rparr>"
    have "TaskPriorityDeque_PushFront q x p = Some (None, q1)"
      using True st by (simp add: TaskPriorityDeque_PushFront_def Let_def j [symmetric] tp_cas_def ps_Inc_some q1_def tp_put_def)
    moreover have "tp_rep q1 (c(p := c p @ [x]))"
    proof (rule tp_rep_update [OF rep _ j'])
      show "tp_ring ((tp_slots q p)(f mod 1024 := \<lparr>tpe_state = tp_kReady, tpe_task = Some x\<rparr>))
          (unat (ps_IndexExt (tp_front q1) p)) (unat (ps_IndexExt (tp_back q1) p)) (c p @ [x])"
        using tp_ring_push_front [OF ring True, of x] by (simp add: q1_def tp_put_def ps_IndexExt_inc_unat fb)
    qed (simp_all add: q1_def tp_put_def ps_IndexExt_inc)
    ultimately show ?thesis using True by (auto simp: fifo_push_def)
  next
    case False
    then have "TaskPriorityDeque_PushFront q x p = Some (Some x, q)"
      using st by (simp add: TaskPriorityDeque_PushFront_def Let_def j [symmetric])
    then show ?thesis using False rep by (auto simp: fifo_push_def)
  qed
qed

lemma TaskPriorityDeque_PushBack_rep:
  assumes rep: "tp_rep q c"
  shows "\<exists>r q1 d. TaskPriorityDeque_PushBack q x p = Some (r, q1) \<and>
    prio_spec 1024 kTaskPriorities c (PrioPushBack p x) = (r, d) \<and> tp_rep q1 d"
proof -
  obtain f b where fb: "f = unat (ps_IndexExt (tp_front q) p)" "b = unat (ps_IndexExt (tp_back q) p)" by blast
  have ring: "tp_ring (tp_slots q p) f b (c p)" unfolding fb by (rule tp_rep_ring [OF rep])
  obtain j where j: "j = tp_elem_index p ((ps_IndexExt (tp_back q) p - 1) AND tp_kIndexMask)" by blast
  have j': "j = tp_int p * 1024 + (b + 1023) mod 1024"
    unfolding j tp_elem_index_num tp_kIndexMask_mask unat_pred_and_mask fb ..
  have st: "tpe_state (tp_array q j) = tp_kEmpty \<longleftrightarrow> length (c p) < 1024"
    using tp_ring_back_pred_slot [OF ring] by (simp add: j' tp_slots_def)
  obtain b1 where b1: "ps_WithIndexExt (tp_back q) ((ps_IndexExt (tp_back q) p - 1) AND tp_kIndexMaskExt) p = Some b1"
      "\<forall>p'. p' \<noteq> p \<longrightarrow> ps_IndexExt b1 p' = ps_IndexExt (tp_back q) p'" "unat (ps_IndexExt b1 p) = (b + 2047) mod 2048"
    using ps_WithIndexExt_some fb(2) by blast
  show ?thesis
  proof (cases "length (c p) < 1024")
    case True
    define q1 where "q1 = tp_put (q\<lparr>tp_back := b1\<rparr>) j \<lparr>tpe_state = tp_kReady, tpe_task = Some x\<rparr>"
    have "TaskPriorityDeque_PushBack q x p = Some (None, q1)"
      using True st b1(1) by (simp add: TaskPriorityDeque_PushBack_def Let_def j [symmetric] tp_cas_def q1_def tp_put_def)
    moreover have "tp_rep q1 (c(p := x # c p))"
    proof (rule tp_rep_update [OF rep _ j'])
      show "tp_ring ((tp_slots q p)((b + 1023) mod 1024 := \<lparr>tpe_state = tp_kReady, tpe_task = Some x\<rparr>))
          (unat (ps_IndexExt (tp_front q1) p)) (unat (ps_IndexExt (tp_back q1) p)) (x # c p)"
        using tp_ring_push_back [OF ring True, of x] by (simp add: q1_def tp_put_def b1(3) fb(1))
    qed (simp_all add: q1_def tp_put_def b1(2))
    ultimately show ?thesis using True by (auto simp: back_push_def)
  next
    case False
    then have "TaskPriorityDeque_PushBack q x p = Some (Some x, q)"
      using st by (simp add: TaskPriorityDeque_PushBack_def Let_def j [symmetric])
    then show ?thesis using False rep by (auto simp: back_push_def)
  qed
qed

text \<open>The pops walk the priorities up to the first one with a task.\<close>

lemma tp_pop_front_loop_rep:
  assumes rep: "tp_rep q c"
  shows "\<exists>q1. tp_pop_front_loop q (tp_front q) ps = Some (map_option (\<lambda>p. last (c p)) (List.find (\<lambda>p. c p \<noteq> []) ps), q1) \<and>
    tp_rep q1 (case List.find (\<lambda>p. c p \<noteq> []) ps of None \<Rightarrow> c | Some p \<Rightarrow> c(p := butlast (c p)))"
proof (induction ps)
  case Nil
  then show ?case using rep by simp
next
  case (Cons p ps)
  obtain f b where fb: "f = unat (ps_IndexExt (tp_front q) p)" "b = unat (ps_IndexExt (tp_back q) p)" by blast
  have ring: "tp_ring (tp_slots q p) f b (c p)" unfolding fb by (rule tp_rep_ring [OF rep])
  obtain j where j: "j = tp_elem_index p ((ps_IndexExt (tp_front q) p - 1) AND tp_kIndexMask)" by blast
  have j': "j = tp_int p * 1024 + (f + 1023) mod 1024"
    unfolding j tp_elem_index_num tp_kIndexMask_mask unat_pred_and_mask fb ..
  have el: "tp_array q j = (if c p = [] then \<lparr>tpe_state = tp_kEmpty, tpe_task = None\<rparr>
      else \<lparr>tpe_state = tp_kReady, tpe_task = Some (last (c p))\<rparr>)"
    using tp_ring_front_pred_slot [OF ring] by (simp add: j' tp_slots_def)
  show ?case
  proof (cases "c p = []")
    case True
    then show ?thesis using Cons.IH el by (simp add: Let_def j [symmetric])
  next
    case False
    obtain f1 where f1: "ps_WithIndexExt (tp_front q) ((ps_IndexExt (tp_front q) p - 1) AND tp_kIndexMaskExt) p = Some f1"
        "\<forall>p'. p' \<noteq> p \<longrightarrow> ps_IndexExt f1 p' = ps_IndexExt (tp_front q) p'" "unat (ps_IndexExt f1 p) = (f + 2047) mod 2048"
      using ps_WithIndexExt_some fb(1) by blast
    define q1 where "q1 = (tp_put q j \<lparr>tpe_state = tp_kEmpty, tpe_task = None\<rparr>)\<lparr>tp_front := f1\<rparr>"
    have "tp_pop_front_loop q (tp_front q) (p # ps) = Some (Some (last (c p)), q1)"
      using False el f1(1) by (simp add: Let_def j [symmetric] tp_cas_def q1_def tp_put_def)
    moreover have "tp_rep q1 (c(p := butlast (c p)))"
    proof (rule tp_rep_update [OF rep _ j'])
      show "tp_ring ((tp_slots q p)((f + 1023) mod 1024 := \<lparr>tpe_state = tp_kEmpty, tpe_task = None\<rparr>))
          (unat (ps_IndexExt (tp_front q1) p)) (unat (ps_IndexExt (tp_back q1) p)) (butlast (c p))"
        using tp_ring_pop_front [OF ring False] by (simp add: q1_def tp_put_def f1(3) fb(2))
    qed (simp_all add: q1_def tp_put_def f1(2))
    ultimately show ?thesis using False by (simp add: fun_upd_def)
  qed
qed

lemma tp_pop_back_loop_rep:
  assumes rep: "tp_rep q c"
  shows "\<exists>q1. tp_pop_back_loop q (tp_back q) ps = Some (map_option (\<lambda>p. hd (c p)) (List.find (\<lambda>p. c p \<noteq> []) ps), q1) \<and>
    tp_rep q1 (case List.find (\<lambda>p. c p \<noteq> []) ps of None \<Rightarrow> c | Some p \<Rightarrow> c(p := tl (c p)))"
proof (induction ps)
  case Nil
  then show ?case using rep by simp
next
  case (Cons p ps)
  obtain f b where fb: "f = unat (ps_IndexExt (tp_front q) p)" "b = unat (ps_IndexExt (tp_back q) p)" by blast
  have ring: "tp_ring (tp_slots q p) f b (c p)" unfolding fb by (rule tp_rep_ring [OF rep])
  obtain j where j: "j = tp_elem_index p (ps_Index (tp_back q) p)" by blast
  have j': "j = tp_int p * 1024 + b mod 1024" by (simp add: j tp_elem_index_num ps_Index_unat fb)
  have el: "tp_array q j = (if c p = [] then \<lparr>tpe_state = tp_kEmpty, tpe_task = None\<rparr>
      else \<lparr>tpe_state = tp_kReady, tpe_task = Some (hd (c p))\<rparr>)"
    using tp_ring_back_slot [OF ring] by (simp add: j' tp_slots_def)
  show ?case
  proof (cases "c p = []")
    case True
    then show ?thesis using Cons.IH el by (simp add: Let_def j [symmetric])
  next
    case False
    define q1 where "q1 = (tp_put q j \<lparr>tpe_state = tp_kEmpty, tpe_task = None\<rparr>)\<lparr>tp_back := ps_inc (tp_back q) p\<rparr>"
    have "tp_pop_back_loop q (tp_back q) (p # ps) = Some (Some (hd (c p)), q1)"
      using False el by (simp add: Let_def j [symmetric] tp_cas_def q1_def tp_put_def ps_Inc_some)
    moreover have "tp_rep q1 (c(p := tl (c p)))"
    proof (rule tp_rep_update [OF rep _ j'])
      show "tp_ring ((tp_slots q p)(b mod 1024 := \<lparr>tpe_state = tp_kEmpty, tpe_task = None\<rparr>))
          (unat (ps_IndexExt (tp_front q1) p)) (unat (ps_IndexExt (tp_back q1) p)) (tl (c p))"
        using tp_ring_pop_back [OF ring False] by (simp add: q1_def tp_put_def ps_IndexExt_inc_unat fb)
    qed (simp_all add: q1_def tp_put_def ps_IndexExt_inc)
    ultimately show ?thesis using False by (simp add: fun_upd_def)
  qed
qed

lemma ucast_diff_u32: "(ucast (x - y :: u64) :: u32) = word_of_int (uint x - uint y)"
proof -
  have "(ucast (x - y) :: u32) = word_of_int (uint (x - y))" by simp
  also have "uint (x - y) = (uint x - uint y) mod 2 ^ 64" by (simp add: uint_word_ariths)
  also have "(word_of_int (k mod 2 ^ 64) :: u32) = word_of_int k" for k
    by (simp add: word_of_int_eq_iff take_bit_eq_mod mod_mod_cancel)
  finally show ?thesis .
qed

lemma sint_nat_diff: "int f < 2048 \<Longrightarrow> int b < 2048 \<Longrightarrow> sint (word_of_int (int f - int b) :: u32) = int f - int b"
  by (intro sint_small) simp_all

lemma tp_queue_size_diff:
  "tp_queue_size front bk p = int (unat (ps_IndexExt front p)) - int (unat (ps_IndexExt bk p))"
proof -
  have e: "uint w = int (unat w)" for w :: u64 by simp
  have "int (unat (ps_IndexExt front p)) < 2048" "int (unat (ps_IndexExt bk p)) < 2048"
    using ps_IndexExt_bound [of front p] ps_IndexExt_bound [of bk p] by linarith+
  then show ?thesis
    unfolding tp_queue_size_def ucast_diff_u32 e using sint_nat_diff [of "unat (ps_IndexExt front p)" "unat (ps_IndexExt bk p)"] by simp
qed

lemma tp_fix_size_rep:
  assumes "tp_rep q c"
  shows "tp_fix_size (tp_queue_size (tp_front q) (tp_back q) p) = Some (int (length (c p)))"
proof -
  note r = tp_rep_ring [OF assms, of p]
  have "length (c p) \<le> 1024" using r unfolding tp_ring_def by blast
  then show ?thesis
    using tp_ring_gap [OF r]
    by (auto simp: tp_fix_size_def Let_def tp_queue_size_diff tp_kCapacity_def tp_kCounterBits_def)
qed

definition tp_total :: "(TaskPriority \<Rightarrow> 'a list) \<Rightarrow> nat" where
  "tp_total c = length (c kCritical) + length (c kHigh) + length (c kDefault) + length (c kLow)"

lemma tp_total_bound: "tp_rep q c \<Longrightarrow> tp_total c \<le> 4096"
proof -
  assume "tp_rep q c"
  then have "length (c p) \<le> 1024" for p using tp_rep_ring unfolding tp_ring_def by blast
  from this [of kCritical] this [of kHigh] this [of kDefault] this [of kLow]
  show "tp_total c \<le> 4096" by (simp add: tp_total_def)
qed

lemma tp_total_0: "tp_total c = 0 \<longleftrightarrow> (\<forall>p. c p = [])"
proof
  assume "tp_total c = 0"
  then show "\<forall>p. c p = []" by (intro allI, rename_tac p, case_tac p) (simp_all add: tp_total_def)
qed (simp add: tp_total_def)

lemma TaskPriorityDeque_CalculateSize_rep:
  assumes "tp_rep q c"
  shows "TaskPriorityDeque_CalculateSize (tp_front q) (tp_back q) = Some (of_nat (tp_total c))"
  using tp_total_bound [OF assms]
  by (simp add: TaskPriorityDeque_CalculateSize_def tp_fix_size_rep [OF assms] Let_def tp_total_def
      tp_kNumTaskPriorities_def tp_kCapacity_def tp_kCounterBits_def flip: of_nat_add)

lemma tp_int_surj: "k < 4 \<Longrightarrow> \<exists>p. tp_int p = k"
proof -
  assume "k < 4"
  then consider "k = 0" | "k = 1" | "k = 2" | "k = 3" by linarith
  then show ?thesis by cases (metis tp_int.simps)+
qed

lemma tp_indices_equal:
  "(x XOR y) AND tp_kIndicesMask = 0 \<longleftrightarrow> (\<forall>p. ps_IndexExt x p = ps_IndexExt y p)"
proof
  assume "(x XOR y) AND tp_kIndicesMask = 0"
  then have eq: "bit x n = bit y n" if "n < 44" for n
    using that by (auto simp: tp_kIndicesMask_mask bit_eq_iff bit_simps dest!: spec [of _ n])
  show "\<forall>p. ps_IndexExt x p = ps_IndexExt y p"
  proof (intro allI bit_word_eqI)
    fix p n
    show "bit (ps_IndexExt x p) n = bit (ps_IndexExt y p) n"
      using tp_int_bound [of p] eq [of "11 * tp_int p + n"] by (cases "n < 11") (auto simp: ps_IndexExt_bit)
  qed
next
  assume eq: "\<forall>p. ps_IndexExt x p = ps_IndexExt y p"
  have "bit x n = bit y n" if n: "n < 44" for n
  proof -
    have "n div 11 < 4" using n by simp
    then obtain p where p: "tp_int p = n div 11" using tp_int_surj by blast
    then have "bit (ps_IndexExt x p) (n mod 11) = bit x n" "bit (ps_IndexExt y p) (n mod 11) = bit y n"
      by (simp_all add: ps_IndexExt_bit)
    then show ?thesis using eq by simp
  qed
  then show "(x XOR y) AND tp_kIndicesMask = 0"
    by (auto simp: tp_kIndicesMask_mask bit_eq_iff bit_simps)
qed

lemma tp_rep_same_index:
  assumes "tp_rep q c"
  shows "ps_IndexExt (tp_front q) p = ps_IndexExt (tp_back q) p \<longleftrightarrow> c p = []"
proof -
  have "unat (ps_IndexExt (tp_front q) p) = unat (ps_IndexExt (tp_back q) p) \<longleftrightarrow> c p = []"
    by (rule tp_ring_same [OF tp_rep_ring [OF assms]])
  then show ?thesis by (simp only: word_unat_eq_iff)
qed

lemma TaskPriorityDeque_Size_rep: "tp_rep q c \<Longrightarrow> TaskPriorityDeque_Size q = Some (of_nat (tp_total c))"
  using tp_total_bound [of q c] unfolding TaskPriorityDeque_Size_def
  by (subst TaskPriorityDeque_SizeOrNotEmpty.simps)
    (simp add: Let_def TaskPriorityDeque_CalculateSize_rep unsigned_of_nat take_bit_nat_eq_self)

lemma TaskPriorityDeque_Empty_rep:
  assumes "tp_rep q c"
  shows "TaskPriorityDeque_Empty q = Some (\<forall>p. c p = [])"
proof -
  have "(of_nat (tp_total c) :: u32) = 0 \<longleftrightarrow> tp_total c = 0"
    using tp_total_bound [OF assms] of_nat_inj_small [where ?'a = 32, of "tp_total c" 0] by simp
  then have "((of_nat (tp_total c) :: u32) = 0) = ((tp_front q XOR tp_back q) AND tp_kIndicesMask = 0)"
    by (simp only: tp_indices_equal tp_rep_same_index [OF assms] tp_total_0)
  then show ?thesis
    unfolding TaskPriorityDeque_Empty_def
    by (subst TaskPriorityDeque_SizeOrNotEmpty.simps)
      (simp add: Let_def TaskPriorityDeque_CalculateSize_rep [OF assms] tp_indices_equal tp_rep_same_index [OF assms])
qed

lemma tp_call_refines:
  assumes rep: "tp_rep q c"
  shows "\<exists>r q1 d. tp_call q k = Some (r, q1) \<and> prio_spec 1024 kTaskPriorities c k = (r, d) \<and> tp_rep q1 d"
proof (cases k)
  case (PrioPushFront p x)
  then show ?thesis using TaskPriorityDeque_PushFront_rep [OF rep, of x p] by simp
next
  case (PrioPushBack p x)
  then show ?thesis using TaskPriorityDeque_PushBack_rep [OF rep, of x p] by simp
next
  case PrioPopFront
  then show ?thesis
    using tp_pop_front_loop_rep [OF rep, of kTaskPriorities]
    by (cases "List.find (\<lambda>p. c p \<noteq> []) kTaskPriorities") (auto simp: TaskPriorityDeque_PopFront_def)
next
  case PrioPopBack
  show ?thesis
  proof (cases "\<forall>p. c p = []")
    case True
    then have "List.find (\<lambda>p. c p \<noteq> []) kTaskPriorities = None" by (simp add: find_None_iff)
    then show ?thesis
      using PrioPopBack rep True by (simp add: TaskPriorityDeque_PopBack_def TaskPriorityDeque_Empty_rep)
  next
    case False
    then have "TaskPriorityDeque_Empty q = Some False" using TaskPriorityDeque_Empty_rep [OF rep] by auto
    then show ?thesis
      using tp_pop_back_loop_rep [OF rep, of kTaskPriorities] PrioPopBack
      by (cases "List.find (\<lambda>p. c p \<noteq> []) kTaskPriorities") (auto simp: TaskPriorityDeque_PopBack_def)
  qed
qed

lemma kTaskPriorities_all: "distinct kTaskPriorities" "set kTaskPriorities = UNIV"
  using TaskPriority.exhaust by (auto simp: kTaskPriorities_def)

interpretation tpd: priority_deque tp_inv tp_abs 1024 kTaskPriorities tp_call
proof
  show "distinct kTaskPriorities" "set kTaskPriorities = UNIV" by (rule kTaskPriorities_all)+
  show "\<exists>r q1. tp_call q k = Some (r, q1) \<and> prio_spec 1024 kTaskPriorities (tp_abs q) k = (r, tp_abs q1) \<and> tp_inv q1"
    if "tp_inv q" for q :: "'a TaskPriorityDeque" and k
    using tp_call_refines [OF tp_inv_rep [OF that], of k] tp_rep_abs unfolding tp_inv_def by metis
qed

lemma tp_new_rep: "tp_rep TaskPriorityDeque_new (\<lambda>_. [])"
proof -
  have "ps_IndexExt 0 p = 0" for p by (rule bit_word_eqI) (simp add: ps_IndexExt_bit)
  then show ?thesis
    by (simp add: tp_rep_def TaskPriorityDeque_new_def tp_ring_def tp_slots_def tp_cell_def)
qed

lemma tp_new_inv: "tp_inv TaskPriorityDeque_new" "tp_abs TaskPriorityDeque_new = (\<lambda>_. [])"
  using tp_new_rep tp_rep_abs [OF tp_new_rep] by (auto simp: tp_inv_def)

lemma TaskPriorityDeque_Flush_drains:
  assumes "tp_rep q c"
  shows "\<exists>q1. TaskPriorityDeque_Flush q = Some q1 \<and> tp_rep q1 (\<lambda>_. [])"
  using assms
proof (induction "tp_total c" arbitrary: q c rule: less_induct)
  case less
  show ?case
  proof (cases "\<forall>p. c p = []")
    case True
    then have "c = (\<lambda>_. [])" by auto
    with less.prems True show ?thesis
      by (subst TaskPriorityDeque_Flush.simps) (simp add: TaskPriorityDeque_Empty_rep)
  next
    case False
    then obtain p where p: "List.find (\<lambda>p. c p \<noteq> []) kTaskPriorities = Some p"
      using kTaskPriorities_all(2) by (cases "List.find (\<lambda>p. c p \<noteq> []) kTaskPriorities") (auto simp: find_None_iff)
    then have ne: "c p \<noteq> []" by (auto simp: find_Some_iff)
    obtain q1 where q1: "TaskPriorityDeque_PopFront q = Some (Some (last (c p)), q1)" "tp_rep q1 (c(p := butlast (c p)))"
      using tp_pop_front_loop_rep [OF less.prems, of kTaskPriorities] p by (auto simp: TaskPriorityDeque_PopFront_def)
    have "tp_total (c(p := butlast (c p))) < tp_total c"
      using ne by (cases p) (auto simp: tp_total_def)
    then obtain q2 where "TaskPriorityDeque_Flush q1 = Some q2" "tp_rep q2 (\<lambda>_. [])"
      using less.hyps q1(2) by blast
    moreover have "TaskPriorityDeque_Empty q = Some False" using TaskPriorityDeque_Empty_rep [OF less.prems] False by auto
    ultimately show ?thesis using q1(1) by (subst TaskPriorityDeque_Flush.simps) simp
  qed
qed

subsection \<open>TaskPriorityLockDeque\<close>

text \<open>
  Four lists, front element first, and the element counter. The default constructor leaves the
  counter uninitialised, so its value is an argument. PopFront and PopBack flow off the end of a
  non-void function, which is undefined behaviour (\<open>None\<close>), when the counter is not zero and all
  lists are empty.
\<close>

record 'a TaskPriorityLockDeque =
  tl_lists :: "TaskPriority \<Rightarrow> 'a list"
  tl_elems :: u64

definition TaskPriorityLockDeque_new :: "u64 \<Rightarrow> 'a TaskPriorityLockDeque" where
  "TaskPriorityLockDeque_new elems = \<lparr>tl_lists = (\<lambda>_. []), tl_elems = elems\<rparr>"

definition TaskPriorityLockDeque_PushFront ::
  "'a TaskPriorityLockDeque \<Rightarrow> 'a \<Rightarrow> TaskPriority \<Rightarrow> 'a option \<times> 'a TaskPriorityLockDeque" where
  "TaskPriorityLockDeque_PushFront q task priority =
     (None, \<lparr>tl_lists = (tl_lists q)(priority := task # tl_lists q priority), tl_elems = tl_elems q + 1\<rparr>)"

definition TaskPriorityLockDeque_PushBack ::
  "'a TaskPriorityLockDeque \<Rightarrow> 'a \<Rightarrow> TaskPriority \<Rightarrow> 'a option \<times> 'a TaskPriorityLockDeque" where
  "TaskPriorityLockDeque_PushBack q task priority =
     (None, \<lparr>tl_lists = (tl_lists q)(priority := tl_lists q priority @ [task]), tl_elems = tl_elems q + 1\<rparr>)"

definition TaskPriorityLockDeque_PopFront ::
  "'a TaskPriorityLockDeque \<Rightarrow> ('a option \<times> 'a TaskPriorityLockDeque) option" where
  "TaskPriorityLockDeque_PopFront q =
     (let l = tl_lists q; take_from = (\<lambda>p. Some (Some (hd (l p)), q\<lparr>tl_lists := l(p := tl (l p))\<rparr>)) in
      if tl_elems q = 0 then Some (None, q)
      else if l kCritical \<noteq> [] then take_from kCritical
      else if l kHigh \<noteq> [] then take_from kHigh
      else if l kDefault \<noteq> [] then take_from kDefault
      else if l kLow \<noteq> [] then take_from kLow
      else None)"

definition TaskPriorityLockDeque_PopBack ::
  "'a TaskPriorityLockDeque \<Rightarrow> ('a option \<times> 'a TaskPriorityLockDeque) option" where
  "TaskPriorityLockDeque_PopBack q =
     (let l = tl_lists q; take_from = (\<lambda>p. Some (Some (last (l p)), q\<lparr>tl_lists := l(p := butlast (l p))\<rparr>)) in
      if tl_elems q = 0 then Some (None, q)
      else if l kCritical \<noteq> [] then take_from kCritical
      else if l kHigh \<noteq> [] then take_from kHigh
      else if l kDefault \<noteq> [] then take_from kDefault
      else if l kLow \<noteq> [] then take_from kLow
      else None)"

definition TaskPriorityLockDeque_Empty :: "'a TaskPriorityLockDeque \<Rightarrow> bool" where
  "TaskPriorityLockDeque_Empty q = (tl_elems q = 0)"

definition TaskPriorityLockDeque_Size :: "'a TaskPriorityLockDeque \<Rightarrow> u64" where
  "TaskPriorityLockDeque_Size q = tl_elems q"

partial_function (option) TaskPriorityLockDeque_Flush :: "'a TaskPriorityLockDeque \<Rightarrow> 'a TaskPriorityLockDeque option" where
  "TaskPriorityLockDeque_Flush q =
     (if TaskPriorityLockDeque_Empty q then Some q
      else Option.bind (TaskPriorityLockDeque_PopFront q) (\<lambda>r.
        if fst r = None then None else TaskPriorityLockDeque_Flush (snd r)))"

lemma TaskPriorityLockDeque_PopFront_cases:
  assumes "tl_elems q \<noteq> 0"
  shows "TaskPriorityLockDeque_PopFront q =
    map_option (\<lambda>p. (Some (hd (tl_lists q p)), q\<lparr>tl_lists := (tl_lists q)(p := tl (tl_lists q p))\<rparr>))
      (List.find (\<lambda>p. tl_lists q p \<noteq> []) kTaskPriorities)"
  using assms by (simp add: TaskPriorityLockDeque_PopFront_def kTaskPriorities_def Let_def)

lemma TaskPriorityLockDeque_Flush_None:
  assumes "tl_elems q \<noteq> 0"
  shows "TaskPriorityLockDeque_Flush q = None"
  using assms
proof (induction "tp_total (tl_lists q)" arbitrary: q rule: less_induct)
  case less
  show ?case
  proof (cases "List.find (\<lambda>p. tl_lists q p \<noteq> []) kTaskPriorities")
    case None
    then show ?thesis
      using less.prems by (subst TaskPriorityLockDeque_Flush.simps)
        (simp add: TaskPriorityLockDeque_PopFront_cases TaskPriorityLockDeque_Empty_def)
  next
    case (Some p)
    then have "tl_lists q p \<noteq> []" by (auto simp: find_Some_iff)
    then have "tp_total ((tl_lists q)(p := tl (tl_lists q p))) < tp_total (tl_lists q)"
      by (cases p) (auto simp: tp_total_def)
    then have "TaskPriorityLockDeque_Flush (q\<lparr>tl_lists := (tl_lists q)(p := tl (tl_lists q p))\<rparr>) = None"
      using less.prems by (intro less.hyps) simp_all
    with Some less.prems show ?thesis
      by (subst TaskPriorityLockDeque_Flush.simps)
        (simp add: TaskPriorityLockDeque_PopFront_cases TaskPriorityLockDeque_Empty_def)
  qed
qed

subsection \<open>Properties\<close>

text \<open>
  C6. Any sequence of calls on a new TaskPriorityDeque returns (no
  assert fails, also where cursors or modification counter wrap around) and answers as four bounded
  lists, one per priority: a pop takes from the most urgent non-empty priority.
\<close>

theorem TaskPriorityDeque_refines_prio:
  "\<exists>rs q. prio_impl_run tp_call TaskPriorityDeque_new ks = Some (rs, q) \<and>
     prio_run 1024 kTaskPriorities (\<lambda>_. []) ks = (rs, tp_abs q)"
  using tpd.run_refines [OF tp_new_inv(1), of ks] by (auto simp: tp_new_inv(2))

text \<open>
  The tasks handed to a new TaskPriorityDeque over any sequence
  of calls are exactly those handed back plus those still in one of its four rings.
\<close>

theorem TaskPriorityDeque_no_task_lost:
  assumes "prio_impl_run tp_call TaskPriorityDeque_new ks = Some (rs, q)"
  shows "sum_list (map prio_input ks) = sum_list (map answer_mset rs) + prio_mset kTaskPriorities (tp_abs q)"
  using tpd.run_conserves [OF tp_new_inv(1) assms] by (simp add: tp_new_inv(2) prio_mset_def kTaskPriorities_def)

text \<open>
  Without operations in flight Size is the number of tasks of all
  priorities, Empty is exact, and Flush ends with an empty deque.
\<close>

lemma TaskPriorityDeque_Size_exact:
  assumes "tp_inv q"
  shows "TaskPriorityDeque_Size q = Some (of_nat (tp_total (tp_abs q))) \<and>
    TaskPriorityDeque_Empty q = Some (tp_total (tp_abs q) = 0) \<and>
    (\<exists>q1. TaskPriorityDeque_Flush q = Some q1 \<and> tp_inv q1 \<and> tp_total (tp_abs q1) = 0)"
proof -
  note rep = tp_inv_rep [OF assms]
  obtain q1 where q1: "TaskPriorityDeque_Flush q = Some q1" "tp_rep q1 (\<lambda>_. [])"
    using TaskPriorityDeque_Flush_drains [OF rep] by blast
  moreover have "tp_inv q1" "tp_total (tp_abs q1) = 0"
    using q1(2) tp_rep_abs [OF q1(2)] by (auto simp: tp_inv_def tp_total_0)
  ultimately show ?thesis
    using TaskPriorityDeque_Size_rep [OF rep] TaskPriorityDeque_Empty_rep [OF rep] by (simp add: tp_total_0)
qed

text \<open>
  C7. The pops of TaskPriorityLockDeque never decrement its
  element counter on success. Therefore Flush never reaches an empty deque: once a task was pushed
  (the counter is not zero) Flush, and a pop after the last task, run into undefined behaviour.
\<close>

theorem TaskPriorityLockDeque_Flush_never_ends:
  assumes "tl_elems q + 1 \<noteq> 0"
  shows "TaskPriorityLockDeque_Flush (snd (TaskPriorityLockDeque_PushFront q task p)) = None"
  using TaskPriorityLockDeque_Flush_None [of "snd (TaskPriorityLockDeque_PushFront q task p)"] assms
  by (simp add: TaskPriorityLockDeque_PushFront_def)

theorem TaskPriorityLockDeque_Flush_never_ends_witness:
  "TaskPriorityLockDeque_Flush (snd (TaskPriorityLockDeque_PushFront (TaskPriorityLockDeque_new 0) (5::nat) kLow)) = None"
  by (rule TaskPriorityLockDeque_Flush_never_ends) (simp add: TaskPriorityLockDeque_new_def)

end
