(* ===== verification/Work_Stealing.thy ===== *)
theory Work_Stealing
  imports Queue_Interfaces Task_Deque Task_Queue
begin

text \<open>
  How a worker of \<^verbatim>\<open>src/async/concurrent/work_queue_base.h\<close> looks for work in the queues of the others:
  the random generator FastRng, FastReduce, the table of coprimes and the two walks over all queues,
  WorkQueueBase::Steal and WorkQueueBase::NonEmptyQueueIndex. The derived class supplies what is done
  with one queue; the locale \<open>stealing_queue\<close> states what the walks rely on of it. Its
  interpretations are the two derived pools: TaskDeque (non-blocking) and TaskQueue (blocking).
\<close>

subsection \<open>Random numbers\<close>

text \<open>One call of FastRng: the output and the next state.\<close>

definition FastRng_next :: "u64 \<Rightarrow> u32 \<times> u64" where
  "FastRng_next current =
     (ucast (drop_bit (22 + unat (drop_bit 61 current)) (current XOR drop_bit 22 current)),
      current * 6364136223846793005 + 0xda3e39cb94b95bdb)"

definition FastReduce :: "u32 \<Rightarrow> u32 \<Rightarrow> u32" where
  "FastReduce x n = ucast (drop_bit 32 (ucast x * ucast n :: u64))"

lemma FastReduce_unat: "unat (FastReduce x n) = unat x * unat n div 2 ^ 32"
proof -
  have le: "unat x * unat n \<le> (2 ^ 32 - 1) * (2 ^ 32 - 1)"
    using unat_lt2p [of x] unat_lt2p [of n] by (intro mult_mono) simp_all
  have "unat (ucast w :: u64) = unat w" for w :: u32
    using unat_lt2p [of w] by (simp add: unsigned_ucast_eq take_bit_nat_eq_self)
  with le have "unat (ucast x * ucast n :: u64) = unat x * unat n"
    by (simp add: unat_word_ariths)
  then have "unat (drop_bit 32 (ucast x * ucast n :: u64)) = unat x * unat n div 2 ^ 32"
    by (simp add: unat_drop_bit_div)
  moreover have "unat x * unat n div 2 ^ 32 < 2 ^ 32"
    using le by (simp add: div_less_iff_less_mult)
  ultimately show ?thesis
    unfolding FastReduce_def by (simp add: unsigned_ucast_eq take_bit_eq_mod)
qed

lemma FastReduce_less:
  assumes "0 < n"
  shows "unat (FastReduce x n) < unat n"
proof -
  have "unat x * unat n < 2 ^ 32 * unat n"
    using unat_lt2p [of x] assms by (intro mult_strict_right_mono) (simp_all add: word_less_nat_alt)
  then show ?thesis unfolding FastReduce_unat by (simp add: div_less_iff_less_mult mult.commute)
qed

subsection \<open>Coprimes\<close>

function gcd_loop :: "u32 \<Rightarrow> u32 \<Rightarrow> u32" where
  "gcd_loop a b = (if b = 0 then a else gcd_loop b (a mod b))"
  by pat_completeness auto
termination
  by (relation "measure (\<lambda>(a, b). unat b)") (simp_all add: unat_mod word_less_nat_alt unat_gt_0 flip: word_neq_0_conv)

definition ComputeCoprimes :: "u32 \<Rightarrow> u32 list" where
  "ComputeCoprimes n = filter (\<lambda>i. gcd_loop i n = 1) (map of_nat [1..<Suc (unat n)])"

declare gcd_loop.simps [simp del]

lemma gcd_loop_gcd: "unat (gcd_loop a b) = gcd (unat a) (unat b)"
proof (induction a b rule: gcd_loop.induct)
  case (1 a b)
  then show ?case
    by (subst gcd_loop.simps) (auto simp: unat_mod gcd_red_nat [of "unat a" "unat b"] gcd.commute)
qed

lemma ComputeCoprimes_set:
  "set (ComputeCoprimes n) = {i. 1 \<le> unat i \<and> unat i \<le> unat n \<and> coprime (unat i) (unat n)}"
proof -
  have eq: "gcd_loop i n = 1 \<longleftrightarrow> coprime (unat i) (unat n)" for i
    by (simp add: word_unat_eq_iff gcd_loop_gcd coprime_iff_gcd_eq_1)
  have "(\<exists>k\<in>{1..<Suc (unat n)}. i = of_nat k) \<longleftrightarrow> 1 \<le> unat i \<and> unat i \<le> unat n" for i :: u32
  proof
    assume "\<exists>k\<in>{1..<Suc (unat n)}. i = of_nat k"
    then obtain k where k: "1 \<le> k" "k \<le> unat n" "i = of_nat k" by auto
    moreover have "unat (of_nat k :: u32) = k" using k(2) unat_lt2p [of n] by (simp add: unat_of_nat)
    ultimately show "1 \<le> unat i \<and> unat i \<le> unat n" by simp
  next
    assume "1 \<le> unat i \<and> unat i \<le> unat n"
    then show "\<exists>k\<in>{1..<Suc (unat n)}. i = of_nat k" by (intro bexI [of _ "unat i"]) auto
  qed
  then have "set (map of_nat [1..<Suc (unat n)]) = {i :: u32. 1 \<le> unat i \<and> unat i \<le> unat n}"
    by (auto simp: image_iff simp del: upt_Suc)
  then show ?thesis unfolding ComputeCoprimes_def set_filter by (auto simp: eq)
qed

lemma ComputeCoprimes_nonempty: "0 < n \<Longrightarrow> ComputeCoprimes n \<noteq> []"
proof -
  assume "0 < n"
  then have "(1 :: u32) \<in> set (ComputeCoprimes n)"
    by (simp add: ComputeCoprimes_set word_less_nat_alt Suc_le_eq)
  then show ?thesis by auto
qed

lemma ComputeCoprimes_length: "length (ComputeCoprimes n) \<le> unat n"
  using length_filter_le [of "\<lambda>i. gcd_loop i n = 1" "map of_nat [1..<Suc (unat n)]"] by (simp add: ComputeCoprimes_def del: upt_Suc)

subsection \<open>The walks\<close>

definition wq_next_victim :: "u32 \<Rightarrow> u32 \<Rightarrow> u32 \<Rightarrow> u32" where
  "wq_next_victim num_threads inc victim =
     (let v = victim + inc in if v \<ge> num_threads then v - num_threads else v)"

text \<open>
  The loop of Steal with \<open>k\<close> iterations left; \<open>dsteal\<close> is the Steal of the derived class on one queue.
  An index outside the vector of queues is \<open>None\<close>.
\<close>

fun wq_steal_loop ::
  "('q \<Rightarrow> ('a option \<times> 'q) option) \<Rightarrow> u32 \<Rightarrow> u32 \<Rightarrow> nat \<Rightarrow> u32 \<Rightarrow> 'q list \<Rightarrow> ('a option \<times> 'q list) option" where
  "wq_steal_loop dsteal num_threads inc 0 victim qs = Some (None, qs)"
| "wq_steal_loop dsteal num_threads inc (Suc k) victim qs =
     (if unat victim < length qs then
        case dsteal (qs ! unat victim) of
          None \<Rightarrow> None
        | Some (Some t, q) \<Rightarrow> Some (Some t, qs[unat victim := q])
        | Some (None, q) \<Rightarrow>
            wq_steal_loop dsteal num_threads inc k (wq_next_victim num_threads inc victim) (qs[unat victim := q])
      else None)"

definition WorkQueueBase_Steal ::
  "('q \<Rightarrow> ('a option \<times> 'q) option) \<Rightarrow> u32 \<Rightarrow> u32 list \<Rightarrow> u64 \<Rightarrow> 'q list \<Rightarrow> ('a option \<times> u64 \<times> 'q list) option" where
  "WorkQueueBase_Steal dsteal num_threads coprimes rng qs =
     (let (r, rng1) = FastRng_next rng;
          victim = FastReduce r num_threads;
          j = unat (FastReduce r (of_nat (length coprimes)))
      in if j < length coprimes then
           map_option (\<lambda>(t, qs1). (t, rng1, qs1))
             (wq_steal_loop dsteal num_threads (coprimes ! j) (unat num_threads) victim qs)
         else None)"

fun wq_nonempty_loop ::
  "('q \<Rightarrow> bool option) \<Rightarrow> u32 \<Rightarrow> u32 \<Rightarrow> nat \<Rightarrow> u32 \<Rightarrow> 'q list \<Rightarrow> int option" where
  "wq_nonempty_loop dempty num_threads inc 0 victim qs = Some (- 1)"
| "wq_nonempty_loop dempty num_threads inc (Suc k) victim qs =
     (if unat victim < length qs then
        case dempty (qs ! unat victim) of
          None \<Rightarrow> None
        | Some False \<Rightarrow> Some (sint victim)
        | Some True \<Rightarrow> wq_nonempty_loop dempty num_threads inc k (wq_next_victim num_threads inc victim) qs
      else None)"

definition WorkQueueBase_NonEmptyQueueIndex ::
  "('q \<Rightarrow> bool option) \<Rightarrow> u32 \<Rightarrow> u32 list \<Rightarrow> u64 \<Rightarrow> 'q list \<Rightarrow> (int \<times> u64) option" where
  "WorkQueueBase_NonEmptyQueueIndex dempty num_threads coprimes rng qs =
     (let (r, rng1) = FastRng_next rng;
          inc = (if num_threads = 1 then 1 else coprimes ! (unat r mod length coprimes));
          victim = FastReduce r num_threads
      in map_option (\<lambda>i. (i, rng1)) (wq_nonempty_loop dempty num_threads inc (unat num_threads) victim qs))"

subsection \<open>A walk visits every queue once\<close>

fun wq_walk :: "u32 \<Rightarrow> u32 \<Rightarrow> nat \<Rightarrow> u32 \<Rightarrow> nat list" where
  "wq_walk n inc 0 v = []"
| "wq_walk n inc (Suc k) v = unat v # wq_walk n inc k (wq_next_victim n inc v)"

lemma wq_next_victim_unat:
  assumes "unat v < unat n" "unat inc \<le> unat n" "unat n < 2 ^ 31"
  shows "unat (wq_next_victim n inc v) = (unat v + unat inc) mod unat n"
proof -
  have sum: "unat (v + inc) = unat v + unat inc"
    using assms by (simp add: unat_word_ariths)
  show ?thesis
  proof (cases "n \<le> v + inc")
    case True
    then have le: "unat n \<le> unat v + unat inc" by (simp add: word_le_nat_alt sum)
    then have "unat (v + inc - n) = unat v + unat inc - unat n"
      using True by (simp add: unat_sub sum)
    moreover have "(unat v + unat inc) mod unat n = unat v + unat inc - unat n"
      using le assms by (simp add: mod_if)
    ultimately show ?thesis using True by (simp add: wq_next_victim_def Let_def)
  next
    case False
    then have "unat v + unat inc < unat n" by (simp add: word_le_nat_alt sum)
    then show ?thesis using False sum by (simp add: wq_next_victim_def Let_def)
  qed
qed

lemma wq_walk_positions:
  assumes "unat v < unat n" "unat inc \<le> unat n" "unat n < 2 ^ 31"
  shows "wq_walk n inc k v = map (\<lambda>i. (unat v + i * unat inc) mod unat n) [0..<k]"
  using assms(1)
proof (induction k arbitrary: v)
  case (Suc k)
  have nx: "unat (wq_next_victim n inc v) = (unat v + unat inc) mod unat n"
    using Suc.prems assms(2,3) by (rule wq_next_victim_unat)
  then have "unat (wq_next_victim n inc v) < unat n" using Suc.prems by (simp add: mod_less_divisor)
  then have "wq_walk n inc k (wq_next_victim n inc v) =
      map (\<lambda>i. ((unat v + unat inc) mod unat n + i * unat inc) mod unat n) [0..<k]"
    using Suc.IH nx by simp
  also have "\<dots> = map (\<lambda>i. (unat v + Suc i * unat inc) mod unat n) [0..<k]"
    by (simp add: mod_add_left_eq add.assoc)
  finally show ?case
    unfolding map_upt_Suc using Suc.prems by simp
qed simp

lemma coprime_steps_inj:
  fixes a m inc :: nat
  assumes co: "coprime inc m" and less: "i < m" "j < m" and eq: "(a + i * inc) mod m = (a + j * inc) mod m"
  shows "i = j"
proof -
  have *: "k = l" if le: "k \<le> l" and l: "l < m" and e: "(a + l * inc) mod m = (a + k * inc) mod m" for k l
  proof -
    have "m dvd (a + l * inc) - (a + k * inc)"
      using e le by (intro mod_eq_dvd_iff_nat [THEN iffD1]) simp_all
    then have "m dvd (l - k) * inc" by (simp add: diff_mult_distrib)
    then have "m dvd l - k" using co by (simp add: coprime_dvd_mult_left_iff coprime_commute)
    moreover have "l - k < m" using l by simp
    ultimately show ?thesis using le by (metis diff_is_0_eq le_antisym nat_dvd_not_less not_gr_zero)
  qed
  show ?thesis
  proof (cases "i \<le> j")
    case True
    then show ?thesis using * [of i j] less eq by simp
  next
    case False
    then show ?thesis using * [of j i] less eq by simp
  qed
qed

lemma wq_walk_perm:
  assumes "unat v < unat n" "unat inc \<le> unat n" "unat n < 2 ^ 31" "coprime (unat inc) (unat n)"
  shows "distinct (wq_walk n inc (unat n) v)" "set (wq_walk n inc (unat n) v) = {..<unat n}"
proof -
  let ?f = "\<lambda>i. (unat v + i * unat inc) mod unat n"
  have walk: "wq_walk n inc (unat n) v = map ?f [0..<unat n]" by (rule wq_walk_positions [OF assms(1-3)])
  have inj: "inj_on ?f {..<unat n}"
  proof (rule inj_onI)
    fix i j assume "i \<in> {..<unat n}" "j \<in> {..<unat n}" "?f i = ?f j"
    then show "i = j" using coprime_steps_inj [OF assms(4), of i j "unat v"] by blast
  qed
  then show "distinct (wq_walk n inc (unat n) v)" by (simp add: walk distinct_map lessThan_atLeast0)
  have "0 < unat n" using assms(1) by simp
  then have "?f ` {..<unat n} \<subseteq> {..<unat n}" by auto
  then have "?f ` {..<unat n} = {..<unat n}" by (rule endo_inj_surj [OF finite_lessThan _ inj])
  then show "set (wq_walk n inc (unat n) v) = {..<unat n}" by (simp add: walk lessThan_atLeast0)
qed

lemma sint_unat_small:
  assumes "unat (v :: u32) < 2 ^ 31"
  shows "sint v = int (unat v)"
proof -
  have "int (unat v) < 2 ^ 31" using assms by (metis of_nat_less_iff of_nat_numeral of_nat_power)
  moreover have "- (2 ^ 31) \<le> int (unat v)" by (rule order_trans [of _ 0]) simp_all
  ultimately have "sint (word_of_int (int (unat v)) :: u32) = int (unat v)" by (intro sint_small)
  then show ?thesis by simp
qed

subsection \<open>What the walks rely on\<close>

locale stealing_queue =
  fixes invar :: "'q \<Rightarrow> bool"
    and abs :: "'q \<Rightarrow> 'a list"
    and dsteal :: "'q \<Rightarrow> ('a option \<times> 'q) option"
    and dempty :: "'q \<Rightarrow> bool option"
  assumes steal_pops:
      "invar q \<Longrightarrow> \<exists>r q1. dsteal q = Some (r, q1) \<and> fifo_pop (abs q) = (r, abs q1) \<and> invar q1"
    and empty_exact: "invar q \<Longrightarrow> dempty q = Some (abs q = [])"
begin

text \<open>A steal loop takes the oldest task of the first non-empty queue of its walk.\<close>

lemma steal_loop:
  assumes "\<forall>q\<in>set qs. invar q" "\<forall>i\<in>set (wq_walk n inc k v). i < length qs"
  shows "\<exists>qs1. wq_steal_loop dsteal n inc k v qs =
      Some (map_option (\<lambda>i. hd (abs (qs ! i))) (List.find (\<lambda>i. abs (qs ! i) \<noteq> []) (wq_walk n inc k v)), qs1) \<and>
    (\<forall>q\<in>set qs1. invar q) \<and>
    map abs qs1 = (case List.find (\<lambda>i. abs (qs ! i) \<noteq> []) (wq_walk n inc k v) of
        None \<Rightarrow> map abs qs | Some i \<Rightarrow> (map abs qs)[i := tl (abs (qs ! i))])"
  using assms
proof (induction k arbitrary: v qs)
  case (Suc k)
  have v: "unat v < length qs" using Suc.prems(2) by simp
  obtain r q where q: "dsteal (qs ! unat v) = Some (r, q)" "fifo_pop (abs (qs ! unat v)) = (r, abs q)" "invar q"
    using steal_pops [of "qs ! unat v"] Suc.prems(1) v by auto
  let ?qs = "qs[unat v := q]"
  have inv: "\<forall>q\<in>set ?qs. invar q" using Suc.prems(1) q(3) by (auto dest!: set_update_subset_insert [THEN subsetD])
  show ?case
  proof (cases "abs (qs ! unat v) = []")
    case True
    then have r: "r = None" "abs q = []" using q(2) by (auto simp: fifo_pop_def)
    have same: "map abs ?qs = map abs qs" using v True r by (simp add: map_update list_update_same_conv)
    then have nth: "abs (?qs ! i) = abs (qs ! i)" if "i < length qs" for i
      using that by (metis length_list_update nth_map)
    obtain qs1 where qs1: "wq_steal_loop dsteal n inc k (wq_next_victim n inc v) ?qs =
        Some (map_option (\<lambda>i. hd (abs (?qs ! i))) (List.find (\<lambda>i. abs (?qs ! i) \<noteq> []) (wq_walk n inc k (wq_next_victim n inc v))), qs1)"
        "\<forall>q\<in>set qs1. invar q"
        "map abs qs1 = (case List.find (\<lambda>i. abs (?qs ! i) \<noteq> []) (wq_walk n inc k (wq_next_victim n inc v)) of
            None \<Rightarrow> map abs ?qs | Some i \<Rightarrow> (map abs ?qs)[i := tl (abs (?qs ! i))])"
      using Suc.IH [OF inv, of "wq_next_victim n inc v"] Suc.prems(2) by auto
    have "List.find (\<lambda>i. abs (?qs ! i) \<noteq> []) (wq_walk n inc k (wq_next_victim n inc v)) =
        List.find (\<lambda>i. abs (qs ! i) \<noteq> []) (wq_walk n inc k (wq_next_victim n inc v))"
      using Suc.prems(2) nth by (intro find_cong) auto
    moreover have "hd (abs (?qs ! i)) = hd (abs (qs ! i))" "tl (abs (?qs ! i)) = tl (abs (qs ! i))"
      if "List.find (\<lambda>i. abs (qs ! i) \<noteq> []) (wq_walk n inc k (wq_next_victim n inc v)) = Some i" for i
      using that nth Suc.prems(2) by (auto simp: find_Some_iff)
    ultimately show ?thesis
      using qs1 q(1) r(1) v True same
      by (cases "List.find (\<lambda>i. abs (qs ! i) \<noteq> []) (wq_walk n inc k (wq_next_victim n inc v))") auto
  next
    case False
    then have r: "r = Some (hd (abs (qs ! unat v)))" "abs q = tl (abs (qs ! unat v))"
      using q(2) by (auto simp: fifo_pop_nonempty)
    then show ?thesis using q(1) v False inv by (auto simp: map_update)
  qed
qed simp

lemma nonempty_loop:
  assumes "\<forall>q\<in>set qs. invar q" "\<forall>i\<in>set (wq_walk n inc k v). i < length qs" "length qs < 2 ^ 31"
  shows "wq_nonempty_loop dempty n inc k v qs =
    Some (case List.find (\<lambda>i. abs (qs ! i) \<noteq> []) (wq_walk n inc k v) of None \<Rightarrow> - 1 | Some i \<Rightarrow> int i)"
  using assms
proof (induction k arbitrary: v)
  case (Suc k)
  have v: "unat v < length qs" using Suc.prems(2) by simp
  have "sint v = int (unat v)" by (rule sint_unat_small) (use v Suc.prems(3) in simp)
  moreover have "dempty (qs ! unat v) = Some (abs (qs ! unat v) = [])"
    using empty_exact Suc.prems(1) v by simp
  ultimately show ?case using Suc.IH [of "wq_next_victim n inc v"] Suc.prems v by auto
qed simp

lemma walk_in_range:
  assumes "n = of_nat (length qs)" "qs \<noteq> []" "length qs < 2 ^ 31" "unat v < length qs"
    "inc \<in> set (ComputeCoprimes n)"
  shows "set (wq_walk n inc (length qs) v) = {..<length qs}"
proof -
  have n: "unat n = length qs" using assms(1,3) by (simp add: unat_of_nat)
  show ?thesis
    using wq_walk_perm(2) [of v n inc] assms(3-5) unfolding n by (simp add: ComputeCoprimes_set n)
qed

lemma find_walk:
  assumes "set w = {..<length qs}"
  shows "List.find (\<lambda>i. abs (qs ! i) \<noteq> []) w = None \<longleftrightarrow> (\<forall>q\<in>set qs. abs q = [])"
  using assms by (auto simp: find_None_iff all_set_conv_all_nth)

lemma find_walk_some:
  assumes "set w = {..<length qs}" "List.find (\<lambda>i. abs (qs ! i) \<noteq> []) w = Some i"
  shows "i < length qs" "abs (qs ! i) = hd (abs (qs ! i)) # tl (abs (qs ! i))" "abs (qs ! i) \<noteq> []"
proof -
  have "i \<in> set w" and ne: "abs (qs ! i) \<noteq> []" using assms(2) by (auto simp: find_Some_iff)
  then show "i < length qs" "abs (qs ! i) = hd (abs (qs ! i)) # tl (abs (qs ! i))" "abs (qs ! i) \<noteq> []"
    using assms(1) by auto
qed

lemma Steal_complete:
  assumes inv: "\<forall>q\<in>set qs. invar q" and len: "qs \<noteq> []" "length qs < 2 ^ 31" and n: "n = of_nat (length qs)"
  shows "\<exists>r rng1 qs1. WorkQueueBase_Steal dsteal n (ComputeCoprimes n) rng qs = Some (r, rng1, qs1) \<and>
    (\<forall>q\<in>set qs1. invar q) \<and>
    (case r of None \<Rightarrow> (\<forall>q\<in>set qs. abs q = []) \<and> map abs qs1 = map abs qs
     | Some t \<Rightarrow> \<exists>i<length qs. abs (qs ! i) = t # tl (abs (qs ! i)) \<and> map abs qs1 = (map abs qs)[i := tl (abs (qs ! i))])"
proof -
  obtain r rng1 where rng: "FastRng_next rng = (r, rng1)" by fastforce
  have un: "unat n = length qs" using n len(2) by (simp add: unat_of_nat)
  have pos: "0 < n" using un len(1) by (simp add: word_less_nat_alt)
  have v: "unat (FastReduce r n) < length qs" using FastReduce_less [OF pos] un by simp
  let ?cs = "ComputeCoprimes n"
  have "unat (of_nat (length ?cs) :: u32) = length ?cs"
    using ComputeCoprimes_length [of n] un len(2) by (simp add: unat_of_nat)
  moreover have "0 < length ?cs" using ComputeCoprimes_nonempty [OF pos] by simp
  ultimately have j: "unat (FastReduce r (of_nat (length ?cs))) < length ?cs"
    using FastReduce_less [of "of_nat (length ?cs)" r] by (simp add: word_less_nat_alt)
  obtain inc where inc: "inc = ?cs ! unat (FastReduce r (of_nat (length ?cs)))" by blast
  then have "inc \<in> set ?cs" using j by simp
  then have walk: "set (wq_walk n inc (length qs) (FastReduce r n)) = {..<length qs}"
    using walk_in_range [OF n len v] by simp
  obtain qs1 where qs1: "wq_steal_loop dsteal n inc (length qs) (FastReduce r n) qs =
      Some (map_option (\<lambda>i. hd (abs (qs ! i))) (List.find (\<lambda>i. abs (qs ! i) \<noteq> []) (wq_walk n inc (length qs) (FastReduce r n))), qs1)"
      "\<forall>q\<in>set qs1. invar q"
      "map abs qs1 = (case List.find (\<lambda>i. abs (qs ! i) \<noteq> []) (wq_walk n inc (length qs) (FastReduce r n)) of
          None \<Rightarrow> map abs qs | Some i \<Rightarrow> (map abs qs)[i := tl (abs (qs ! i))])"
    using steal_loop [OF inv, of n inc "length qs" "FastReduce r n"] walk by blast
  have "WorkQueueBase_Steal dsteal n ?cs rng qs =
      map_option (\<lambda>(t, qs1). (t, rng1, qs1)) (wq_steal_loop dsteal n inc (length qs) (FastReduce r n) qs)"
    using j by (simp add: WorkQueueBase_Steal_def rng un inc)
  then have steal: "WorkQueueBase_Steal dsteal n ?cs rng qs =
      Some (map_option (\<lambda>i. hd (abs (qs ! i))) (List.find (\<lambda>i. abs (qs ! i) \<noteq> []) (wq_walk n inc (length qs) (FastReduce r n))), rng1, qs1)"
    using qs1(1) by simp
  show ?thesis
  proof (cases "List.find (\<lambda>i. abs (qs ! i) \<noteq> []) (wq_walk n inc (length qs) (FastReduce r n))")
    case None
    have "\<forall>q\<in>set qs. abs q = []" using find_walk [OF walk] None by blast
    then show ?thesis
      by (intro exI [of _ None] exI [of _ rng1] exI [of _ qs1]) (use steal qs1(2,3) None in simp)
  next
    case (Some i)
    have "\<exists>i'<length qs. abs (qs ! i') = hd (abs (qs ! i)) # tl (abs (qs ! i')) \<and> map abs qs1 = (map abs qs)[i' := tl (abs (qs ! i'))]"
      by (intro exI [of _ i] conjI) (use find_walk_some [OF walk Some] qs1(3) Some in auto)
    then show ?thesis
      by (intro exI [of _ "Some (hd (abs (qs ! i)))"] exI [of _ rng1] exI [of _ qs1]) (use steal qs1(2) Some in simp)
  qed
qed

lemma NonEmptyQueueIndex_exact:
  assumes inv: "\<forall>q\<in>set qs. invar q" and len: "qs \<noteq> []" "length qs < 2 ^ 31" and n: "n = of_nat (length qs)"
  shows "\<exists>i rng1. WorkQueueBase_NonEmptyQueueIndex dempty n (ComputeCoprimes n) rng qs = Some (i, rng1) \<and>
    (if i = - 1 then \<forall>q\<in>set qs. abs q = [] else 0 \<le> i \<and> nat i < length qs \<and> abs (qs ! nat i) \<noteq> [])"
proof -
  obtain r rng1 where rng: "FastRng_next rng = (r, rng1)" by fastforce
  have un: "unat n = length qs" using n len(2) by (simp add: unat_of_nat)
  have pos: "0 < n" using un len(1) by (simp add: word_less_nat_alt)
  have v: "unat (FastReduce r n) < length qs" using FastReduce_less [OF pos] un by simp
  let ?cs = "ComputeCoprimes n"
  obtain inc where inc: "inc = (if n = 1 then 1 else ?cs ! (unat r mod length ?cs))" by blast
  have "inc \<in> set ?cs"
  proof (cases "n = 1")
    case True
    then show ?thesis by (simp add: inc ComputeCoprimes_set)
  next
    case False
    then show ?thesis using ComputeCoprimes_nonempty [OF pos] by (simp add: inc)
  qed
  then have walk: "set (wq_walk n inc (length qs) (FastReduce r n)) = {..<length qs}"
    using walk_in_range [OF n len v] by simp
  have "WorkQueueBase_NonEmptyQueueIndex dempty n ?cs rng qs =
      map_option (\<lambda>i. (i, rng1)) (wq_nonempty_loop dempty n inc (length qs) (FastReduce r n) qs)"
    by (simp add: WorkQueueBase_NonEmptyQueueIndex_def rng un inc)
  then show ?thesis
    using nonempty_loop [OF inv _ len(2), of n inc "length qs" "FastReduce r n"] walk find_walk [OF walk] find_walk_some [OF walk]
    by (cases "List.find (\<lambda>i. abs (qs ! i) \<noteq> []) (wq_walk n inc (length qs) (FastReduce r n))") auto
qed

end

subsection \<open>The tasks in a vector of queues\<close>

definition wq_contents :: "('q \<Rightarrow> 'a list) \<Rightarrow> 'q list \<Rightarrow> 'a multiset" where
  "wq_contents content qs = (\<Sum>q\<leftarrow>qs. mset (content q))"

lemma wq_contents_update:
  assumes "j < length qs" "mset (content (qs ! j)) + x = y + mset (content q)"
  shows "wq_contents content qs + x = y + wq_contents content (qs[j := q])"
proof -
  have "wq_contents content qs + x = wq_contents content (take j qs) + wq_contents content (drop (Suc j) qs) + (mset (content (qs ! j)) + x)"
    using assms(1) by (subst id_take_nth_drop [of j qs]) (simp_all add: wq_contents_def ac_simps)
  also have "\<dots> = wq_contents content (take j qs) + wq_contents content (drop (Suc j) qs) + (y + mset (content q))"
    by (simp only: assms(2))
  also have "\<dots> = y + wq_contents content (qs[j := q])"
    using assms(1) by (simp add: upd_conv_take_nth_drop wq_contents_def ac_simps)
  finally show ?thesis .
qed

subsection \<open>The two pools\<close>

text \<open>NonBlockingWorkQueue: NextTask, Steal and Empty of one queue.\<close>

definition NonBlockingWorkQueue_NextTask :: "'a TaskDeque \<Rightarrow> ('a option \<times> 'a TaskDeque) option" where
  "NonBlockingWorkQueue_NextTask queue = Some (TaskDeque_PopFront queue)"

definition NonBlockingWorkQueue_Steal :: "'a TaskDeque \<Rightarrow> ('a option \<times> 'a TaskDeque) option" where
  "NonBlockingWorkQueue_Steal queue = TaskDeque_PopBack queue"

definition NonBlockingWorkQueue_Empty :: "'a TaskDeque \<Rightarrow> bool option" where
  "NonBlockingWorkQueue_Empty queue = TaskDeque_Empty queue"

text \<open>BlockingWorkQueue: the same operations on a TaskQueue.\<close>

definition BlockingWorkQueue_NextTask :: "'a TaskQueue \<Rightarrow> ('a option \<times> 'a TaskQueue) option" where
  "BlockingWorkQueue_NextTask queue = TaskQueue_PopBack queue"

definition BlockingWorkQueue_Steal :: "'a TaskQueue \<Rightarrow> ('a option \<times> 'a TaskQueue) option" where
  "BlockingWorkQueue_Steal queue = TaskQueue_PopBack queue"

definition BlockingWorkQueue_Empty :: "'a TaskQueue \<Rightarrow> bool option" where
  "BlockingWorkQueue_Empty queue = TaskQueue_Empty queue"

interpretation nb: stealing_queue td_inv td_abs NonBlockingWorkQueue_Steal NonBlockingWorkQueue_Empty
proof
  show "\<exists>r q1. NonBlockingWorkQueue_Steal q = Some (r, q1) \<and> fifo_pop (td_abs q) = (r, td_abs q1) \<and> td_inv q1"
    if "td_inv q" for q :: "'a TaskDeque"
    using td.call_refines [OF that, of CallPopBack] by (simp add: NonBlockingWorkQueue_Steal_def)
  show "NonBlockingWorkQueue_Empty q = Some (td_abs q = [])" if "td_inv q" for q :: "'a TaskDeque"
    using TaskDeque_Empty_rep [OF td_inv_rep [OF that]] by (simp add: NonBlockingWorkQueue_Empty_def)
qed

text \<open>A TaskQueue serves as long as its cursors have not reached the end of their range.\<close>

definition tq_live :: "'a TaskQueue \<Rightarrow> bool" where
  "tq_live q \<longleftrightarrow> tq_inv q \<and> 0 < tq_fuel q"

interpretation bl: stealing_queue tq_live tq_abs BlockingWorkQueue_Steal BlockingWorkQueue_Empty
proof
  show "\<exists>r q1. BlockingWorkQueue_Steal q = Some (r, q1) \<and> fifo_pop (tq_abs q) = (r, tq_abs q1) \<and> tq_live q1"
    if "tq_live q" for q :: "'a TaskQueue"
    using that tq_call_pop_refines [of q] unfolding tq_live_def BlockingWorkQueue_Steal_def by metis
  show "BlockingWorkQueue_Empty q = Some (tq_abs q = [])" if "tq_live q" for q :: "'a TaskQueue"
    using that by (simp add: tq_live_def BlockingWorkQueue_Empty_def TaskQueue_Empty_eq)
qed

subsection \<open>Properties\<close>

text \<open>
  ComputeCoprimes lists exactly the numbers from 1 to \<open>n\<close> that are coprime
  to \<open>n\<close>, and walking with any of them as increment, from any start, visits every one of the \<open>n\<close>
  threads exactly once.
\<close>

theorem ComputeCoprimes_correct:
  assumes "unat v < unat n" "unat n < 2 ^ 31"
  shows "set (ComputeCoprimes n) = {i. 1 \<le> unat i \<and> unat i \<le> unat n \<and> coprime (unat i) (unat n)} \<and>
    (\<forall>inc\<in>set (ComputeCoprimes n). distinct (wq_walk n inc (unat n) v) \<and> set (wq_walk n inc (unat n) v) = {..<unat n})"
  using wq_walk_perm [OF assms(1) _ assms(2)] by (auto simp: ComputeCoprimes_set)

theorem ComputeCoprimes_correct_witness:
  "ComputeCoprimes 6 = [1, 5] \<and> distinct (wq_walk 6 5 6 4) \<and> set (wq_walk 6 5 6 4) = {..<6}"
proof -
  have up: "[1..<Suc (unat (6 :: u32))] = [1, 2, 3, 4, 5, 6]" by (simp add: upt_rec)
  have "ComputeCoprimes 6 = [1, 5]"
    unfolding ComputeCoprimes_def up by (simp add: gcd_loop.simps)
  then show ?thesis using ComputeCoprimes_correct [of 4 6] by simp
qed

text \<open>
  C10. A worker of the non-blocking pool that looks for work with Steal
  finds a task whenever one of the per-thread deques holds one: it takes the task at the back end of one
  deque (the first of \<open>td_abs\<close>) and changes nothing else; it comes back empty-handed only when every deque is
  empty. No index leaves its vector and no assert fails. The back end holds the oldest of the tasks that
  the owner pushed to the front, but the newest of those that other threads pushed to the back.
\<close>

theorem NonBlocking_Steal_complete:
  assumes "\<forall>q\<in>set qs. td_inv q" "qs \<noteq> []" "length qs < 2 ^ 31" "n = of_nat (length qs)"
  shows "\<exists>r rng1 qs1. WorkQueueBase_Steal NonBlockingWorkQueue_Steal n (ComputeCoprimes n) rng qs = Some (r, rng1, qs1) \<and>
    (\<forall>q\<in>set qs1. td_inv q) \<and>
    (case r of None \<Rightarrow> (\<forall>q\<in>set qs. td_abs q = []) \<and> map td_abs qs1 = map td_abs qs
     | Some t \<Rightarrow> \<exists>i<length qs. td_abs (qs ! i) = t # tl (td_abs (qs ! i)) \<and>
         map td_abs qs1 = (map td_abs qs)[i := tl (td_abs (qs ! i))])"
  using assms by (rule nb.Steal_complete)

theorem NonBlocking_Steal_complete_witness:
  "\<exists>q rs rng1 qs1. impl_run td_call TaskDeque_new [CallPushFront 1, CallPushFront 2, CallPushFront (3::nat)] = Some (rs, q) \<and>
     WorkQueueBase_Steal NonBlockingWorkQueue_Steal 2 (ComputeCoprimes 2) 0 [TaskDeque_new, q] = Some (Some 1, rng1, qs1)"
proof -
  obtain q where q: "impl_run td_call TaskDeque_new [CallPushFront 1, CallPushFront 2, CallPushFront (3::nat)] =
      Some ([None, None, None], q)" "td_inv q" "td_abs q = [1, 2, 3]"
    using td_three by blast
  have two: "(2 :: u32) = of_nat (length [TaskDeque_new, q])" by simp
  obtain r rng1 qs1 where r: "WorkQueueBase_Steal NonBlockingWorkQueue_Steal 2 (ComputeCoprimes 2) 0 [TaskDeque_new, q] = Some (r, rng1, qs1)"
    "case r of None \<Rightarrow> (\<forall>q'\<in>set [TaskDeque_new, q]. td_abs q' = [])
     | Some t \<Rightarrow> \<exists>i<2. td_abs ([TaskDeque_new, q] ! i) = t # tl (td_abs ([TaskDeque_new, q] ! i))"
    using NonBlocking_Steal_complete [OF _ _ _ two, of 0] q(2) td_new_inv(1)
    by (fastforce split: option.splits)
  have "r = Some 1"
    using r(2) q(3) by (cases r) (auto simp: td_new_inv(2) less_2_cases_iff)
  then show ?thesis using r(1) q(1) by blast
qed

text \<open>
  The reliable emptiness check of a worker of the blocking pool
  returns -1 exactly when every per-thread queue is empty, and otherwise the index of a non-empty
  queue.
\<close>

theorem Blocking_NonEmptyQueueIndex_exact:
  assumes "\<forall>q\<in>set qs. tq_live q" "qs \<noteq> []" "length qs < 2 ^ 31" "n = of_nat (length qs)"
  shows "\<exists>i rng1. WorkQueueBase_NonEmptyQueueIndex BlockingWorkQueue_Empty n (ComputeCoprimes n) rng qs = Some (i, rng1) \<and>
    (if i = - 1 then \<forall>q\<in>set qs. tq_abs q = [] else 0 \<le> i \<and> nat i < length qs \<and> tq_abs (qs ! nat i) \<noteq> [])"
  using assms by (rule bl.NonEmptyQueueIndex_exact)

theorem Blocking_NonEmptyQueueIndex_exact_witness:
  "\<exists>rng1. WorkQueueBase_NonEmptyQueueIndex BlockingWorkQueue_Empty 1 (ComputeCoprimes 1) 0 [TaskQueue_new :: nat TaskQueue] = Some (- 1, rng1)"
proof -
  have "tq_live (TaskQueue_new :: nat TaskQueue)" by (simp add: tq_live_def tq_inv_new tq_fuel_new)
  then show ?thesis
    using Blocking_NonEmptyQueueIndex_exact [of "[TaskQueue_new :: nat TaskQueue]" 1 0] by (simp split: if_splits)
qed

end
