(* ===== verification/Work_Queue_Base.thy ===== *)
theory Work_Queue_Base
  imports Work_Stealing Event_Count
begin

text \<open>
  The thread pool of \<^verbatim>\<open>src/async/concurrent/work_queue_base.h\<close> (class WorkQueueBase): the spinning state, the
  worker loop with its blocking protocol, cancellation and destruction. What the derived pools
  supply (queue operations) is a record of functions. Worker threads and external submitters
  interleave freely: the rules of \<open>wq_step\<close> follow WorkerLoop, WaitForWork, AddTask/EnqueueBlockingTask, Cancel
  and the destructor line by line. Every operation on one shared object (a queue, the event count, the
  spinning word, a counter) is one step. Three places merge neighbouring accesses of one thread into a step:
  a worker that adds to its own deque tests Empty and pushes; the destructor sets mDone and notifies; Cancel
  writes its two flags and notifies.
\<close>

subsection \<open>Spinning state\<close>

definition kMaxSpinningThreads :: u64 where "kMaxSpinningThreads = 1"
definition kMinActiveThreadsToStartSpinning :: u32 where "kMinActiveThreadsToStartSpinning = 4"
definition kNumSpinningBits :: nat where "kNumSpinningBits = 32"
definition kNumSpinningMask :: u64 where "kNumSpinningMask = push_bit kNumSpinningBits 1 - 1"
definition kNumNoNotifyBits :: nat where "kNumNoNotifyBits = 32"
definition kNumNoNotifyShift :: nat where "kNumNoNotifyShift = 32"
definition kNumNoNotifyMask :: u64 where
  "kNumNoNotifyMask = push_bit kNumNoNotifyShift (push_bit kNumNoNotifyBits 1 - 1)"

record SpinningState =
  ss_mNumSpinning :: u64
  ss_mNumNoNotification :: u64

definition SpinningState_Decode :: "u64 \<Rightarrow> SpinningState option" where
  "SpinningState_Decode state =
     (let spinning = state AND kNumSpinningMask;
          nonotify = drop_bit kNumNoNotifyShift (state AND kNumNoNotifyMask)
      in if nonotify \<le> spinning then Some \<lparr>ss_mNumSpinning = spinning, ss_mNumNoNotification = nonotify\<rparr> else None)"

definition SpinningState_Encode :: "SpinningState \<Rightarrow> u64" where
  "SpinningState_Encode st = push_bit kNumNoNotifyShift (ss_mNumNoNotification st) OR ss_mNumSpinning st"

subsection \<open>Pool state and operations\<close>

record 'q WorkQueueBase =
  wq_mNumThreads :: u32
  wq_mThreadData :: "'q list"
  wq_mCoprimes :: "u32 list"
  wq_mBlocked :: u32
  wq_mDone :: bool
  wq_mCancelled :: bool
  wq_mSpinningState :: u64
  wq_mEventCount :: EventCount

definition WorkQueueBase_new :: "'q \<Rightarrow> nat \<Rightarrow> 'q WorkQueueBase option" where
  "WorkQueueBase_new queue num_threads =
     (if 1 \<le> num_threads then
        map_option (\<lambda>ec. \<lparr>wq_mNumThreads = of_nat num_threads, wq_mThreadData = replicate num_threads queue,
          wq_mCoprimes = ComputeCoprimes (of_nat num_threads), wq_mBlocked = 0, wq_mDone = False,
          wq_mCancelled = False, wq_mSpinningState = 0, wq_mEventCount = ec\<rparr>) (EventCount_new num_threads)
      else None)"

definition WorkQueueBase_NumBlockedThreads :: "'q WorkQueueBase \<Rightarrow> u32" where
  "WorkQueueBase_NumBlockedThreads w = wq_mBlocked w"

definition WorkQueueBase_NumActiveThreads :: "'q WorkQueueBase \<Rightarrow> u32" where
  "WorkQueueBase_NumActiveThreads w = wq_mNumThreads w - wq_mBlocked w"

definition WorkQueueBase_AllBlocked :: "'q WorkQueueBase \<Rightarrow> bool" where
  "WorkQueueBase_AllBlocked w = (WorkQueueBase_NumBlockedThreads w = wq_mNumThreads w)"

definition WorkQueueBase_StartSpinning :: "'q WorkQueueBase \<Rightarrow> (bool \<times> 'q WorkQueueBase) option" where
  "WorkQueueBase_StartSpinning w =
     (if kMinActiveThreadsToStartSpinning < WorkQueueBase_NumActiveThreads w then Some (False, w)
      else case SpinningState_Decode (wq_mSpinningState w) of
        None \<Rightarrow> None
      | Some state \<Rightarrow>
          if kMaxSpinningThreads \<le> ss_mNumSpinning state - ss_mNumNoNotification state then Some (False, w)
          else Some (True, w\<lparr>wq_mSpinningState :=
                 SpinningState_Encode (state\<lparr>ss_mNumSpinning := ss_mNumSpinning state + 1\<rparr>)\<rparr>))"

definition WorkQueueBase_StopSpinning :: "'q WorkQueueBase \<Rightarrow> (bool \<times> 'q WorkQueueBase) option" where
  "WorkQueueBase_StopSpinning w =
     (case SpinningState_Decode (wq_mSpinningState w) of
        None \<Rightarrow> None
      | Some state \<Rightarrow>
          (let state1 = state\<lparr>ss_mNumSpinning := ss_mNumSpinning state - 1\<rparr>;
               has_no_notify_task = 0 < ss_mNumNoNotification state1;
               state2 = (if has_no_notify_task
                         then state1\<lparr>ss_mNumNoNotification := ss_mNumNoNotification state1 - 1\<rparr> else state1)
           in Some (has_no_notify_task, w\<lparr>wq_mSpinningState := SpinningState_Encode state2\<rparr>)))"

definition WorkQueueBase_IsNotifyParkedThreadRequired :: "'q WorkQueueBase \<Rightarrow> (bool \<times> 'q WorkQueueBase) option" where
  "WorkQueueBase_IsNotifyParkedThreadRequired w =
     (case SpinningState_Decode (wq_mSpinningState w) of
        None \<Rightarrow> None
      | Some state \<Rightarrow>
          if ss_mNumNoNotification state = ss_mNumSpinning state then Some (True, w)
          else Some (False, w\<lparr>wq_mSpinningState :=
                 SpinningState_Encode (state\<lparr>ss_mNumNoNotification := ss_mNumNoNotification state + 1\<rparr>)\<rparr>))"

text \<open>The order in which NonEmptyQueueIndex visits the queues, given the state of the generator.\<close>

definition wq_scan_order :: "'q WorkQueueBase \<Rightarrow> u64 \<Rightarrow> nat list" where
  "wq_scan_order w rng =
     (let r = fst (FastRng_next rng);
          inc = (if wq_mNumThreads w = 1 then 1 else wq_mCoprimes w ! (unat r mod length (wq_mCoprimes w)))
      in wq_walk (wq_mNumThreads w) inc (unat (wq_mNumThreads w)) (FastReduce r (wq_mNumThreads w)))"

text \<open>What a derived pool supplies. \<open>op_SkipNotify\<close>: AddTask skips the notification after a push to its own empty queue.\<close>

record ('q, 'a) wq_ops =
  op_NextTask :: "'q \<Rightarrow> ('a option \<times> 'q) option"
  op_Steal :: "'q \<Rightarrow> ('a option \<times> 'q) option"
  op_Empty :: "'q \<Rightarrow> bool option"
  op_PushOwn :: "'q \<Rightarrow> 'a \<Rightarrow> ('a option \<times> 'q) option"
  op_PushExt :: "'q \<Rightarrow> 'a \<Rightarrow> ('a option \<times> 'q) option"
  op_Flush :: "'q \<Rightarrow> 'q option"
  op_SkipNotify :: bool

definition wq_skip :: "('q, 'a) wq_ops \<Rightarrow> 'q \<Rightarrow> bool option" where
  "wq_skip d q = (if op_SkipNotify d then op_Empty d q else Some False)"

subsection \<open>Threads\<close>

text \<open>
  Where a worker is: in its loop (or running a task), inside AddTask after its push
  (deciding, then notifying), spinning, in WaitForWork after Prewait with the queues still to
  check, after finding queue \<open>v\<close> non-empty (then about to steal from it), after counting itself as blocked, about to terminate, about to
  commit, re-checking before termination, parked, woken up, or gone (\<open>True\<close>: by termination, still
  counted as blocked).
\<close>

datatype worker_pc =
    WRun | WDeciding | WNotifying | WSpin | WScan "nat list" | WFound nat | WTake nat | WBlocked | WDone | WCommit
  | WRecheck "nat list" | WParked | WWoken | WExit bool

record 'q wq_sys =
  s_wq :: "'q WorkQueueBase"
  s_pc :: "worker_pc list"
  s_xdecide :: nat
  s_xnotify :: nat

definition s_at :: "'q wq_sys \<Rightarrow> nat \<Rightarrow> worker_pc \<Rightarrow> bool" where
  "s_at s i p \<longleftrightarrow> i < length (s_pc s) \<and> s_pc s ! i = p"

definition s_go :: "'q wq_sys \<Rightarrow> nat \<Rightarrow> worker_pc \<Rightarrow> 'q WorkQueueBase \<Rightarrow> 'q wq_sys" where
  "s_go s i p w = s\<lparr>s_wq := w, s_pc := (s_pc s)[i := p]\<rparr>"

abbreviation s_queue :: "'q wq_sys \<Rightarrow> nat \<Rightarrow> 'q" where
  "s_queue s j \<equiv> wq_mThreadData (s_wq s) ! j"

abbreviation s_put :: "'q wq_sys \<Rightarrow> nat \<Rightarrow> 'q \<Rightarrow> 'q WorkQueueBase" where
  "s_put s j q \<equiv> (s_wq s)\<lparr>wq_mThreadData := (wq_mThreadData (s_wq s))[j := q]\<rparr>"

abbreviation s_with_ec :: "'q wq_sys \<Rightarrow> EventCount \<Rightarrow> 'q WorkQueueBase" where
  "s_with_ec s e \<equiv> (s_wq s)\<lparr>wq_mEventCount := e\<rparr>"

abbreviation s_n :: "'q wq_sys \<Rightarrow> nat" where "s_n s \<equiv> length (wq_mThreadData (s_wq s))"

abbreviation s_ec :: "'q wq_sys \<Rightarrow> EventCount" where "s_ec s \<equiv> wq_mEventCount (s_wq s)"

inductive wq_step :: "('q, 'a) wq_ops \<Rightarrow> 'q wq_sys \<Rightarrow> 'q wq_sys \<Rightarrow> bool" for d where
  next_task: "\<lbrakk>s_at s i WRun; op_NextTask d (s_queue s i) = Some (r, q)\<rbrakk> \<Longrightarrow>
     wq_step d s (s_go s i WRun (s_put s i q))"
| steal: "\<lbrakk>s_at s i WRun; j < s_n s; op_Steal d (s_queue s j) = Some (r, q)\<rbrakk> \<Longrightarrow>
     wq_step d s (s_go s i WRun (s_put s j q))"
| spin_steal: "\<lbrakk>s_at s i WSpin; j < s_n s; op_Steal d (s_queue s j) = Some (r, q)\<rbrakk> \<Longrightarrow>
     wq_step d s (s_go s i WSpin (s_put s j q))"
| add_own: "\<lbrakk>s_at s i WRun; wq_skip d (s_queue s i) = Some skip; op_PushOwn d (s_queue s i) t = Some (r, q)\<rbrakk> \<Longrightarrow>
     wq_step d s (s_go s i (if r = None \<and> \<not> skip then WDeciding else WRun) (s_put s i q))"
| decide: "\<lbrakk>s_at s i WDeciding; WorkQueueBase_IsNotifyParkedThreadRequired (s_wq s) = Some (b, w)\<rbrakk> \<Longrightarrow>
     wq_step d s (s_go s i (if b then WNotifying else WRun) w)"
| notify: "\<lbrakk>s_at s i WNotifying; EventCount_Notify (s_ec s) False = Some e\<rbrakk> \<Longrightarrow>
     wq_step d s (s_go s i WRun (s_with_ec s e))"
| x_add: "\<lbrakk>j < s_n s; \<not> wq_mDone (s_wq s) \<or> wq_mCancelled (s_wq s); op_PushExt d (s_queue s j) t = Some (r, q)\<rbrakk> \<Longrightarrow>
     wq_step d s (s\<lparr>s_wq := s_put s j q, s_xdecide := (if r = None then Suc (s_xdecide s) else s_xdecide s)\<rparr>)"
| x_decide: "\<lbrakk>0 < s_xdecide s; WorkQueueBase_IsNotifyParkedThreadRequired (s_wq s) = Some (b, w)\<rbrakk> \<Longrightarrow>
     wq_step d s (s\<lparr>s_wq := w, s_xdecide := s_xdecide s - 1,
       s_xnotify := (if b then Suc (s_xnotify s) else s_xnotify s)\<rparr>)"
| x_notify: "\<lbrakk>0 < s_xnotify s; EventCount_Notify (s_ec s) False = Some e\<rbrakk> \<Longrightarrow>
     wq_step d s (s\<lparr>s_wq := s_with_ec s e, s_xnotify := s_xnotify s - 1\<rparr>)"
| start_spin: "\<lbrakk>s_at s i WRun; WorkQueueBase_StartSpinning (s_wq s) = Some (b, w)\<rbrakk> \<Longrightarrow>
     wq_step d s (s_go s i (if b then WSpin else WRun) w)"
| stop_spin: "\<lbrakk>s_at s i WSpin; WorkQueueBase_StopSpinning (s_wq s) = Some (b, w)\<rbrakk> \<Longrightarrow>
     wq_step d s (s_go s i WRun w)"
| prewait: "\<lbrakk>s_at s i WRun; EventCount_Prewait (s_ec s) = Some e\<rbrakk> \<Longrightarrow>
     wq_step d s (s_go s i (WScan (wq_scan_order (s_wq s) rng)) (s_with_ec s e))"
| scan: "\<lbrakk>s_at s i (WScan (v # vs)); op_Empty d (s_queue s v) = Some e\<rbrakk> \<Longrightarrow>
     wq_step d s (s_go s i (if e then WScan vs else WFound v) (s_wq s))"
| found: "\<lbrakk>s_at s i (WFound v); EventCount_CancelWait (s_ec s) = Some e; \<not> wq_mCancelled (s_wq s)\<rbrakk> \<Longrightarrow>
     wq_step d s (s_go s i (WTake v) (s_with_ec s e))"
| take: "\<lbrakk>s_at s i (WTake v); v < s_n s; op_Steal d (s_queue s v) = Some (r, q)\<rbrakk> \<Longrightarrow>
     wq_step d s (s_go s i WRun (s_put s v q))"
| found_cancelled: "\<lbrakk>s_at s i (WFound v); EventCount_CancelWait (s_ec s) = Some e; wq_mCancelled (s_wq s)\<rbrakk> \<Longrightarrow>
     wq_step d s (s_go s i (WExit False) (s_with_ec s e))"
| block: "s_at s i (WScan []) \<Longrightarrow>
     wq_step d s (s_go s i WBlocked ((s_wq s)\<lparr>wq_mBlocked := wq_mBlocked (s_wq s) + 1\<rparr>))"
| check: "s_at s i WBlocked \<Longrightarrow>
     wq_step d s (s_go s i (if wq_mDone (s_wq s) \<and> wq_mBlocked (s_wq s) = wq_mNumThreads (s_wq s) then WDone else WCommit) (s_wq s))"
| cancel_done: "\<lbrakk>s_at s i WDone; EventCount_CancelWait (s_ec s) = Some e\<rbrakk> \<Longrightarrow>
     wq_step d s (s_go s i (WRecheck (wq_scan_order (s_wq s) rng)) (s_with_ec s e))"
| recheck_empty: "\<lbrakk>s_at s i (WRecheck (v # vs)); op_Empty d (s_queue s v) = Some True\<rbrakk> \<Longrightarrow>
     wq_step d s (s_go s i (WRecheck vs) (s_wq s))"
| recheck_found: "\<lbrakk>s_at s i (WRecheck (v # vs)); op_Empty d (s_queue s v) = Some False\<rbrakk> \<Longrightarrow>
     wq_step d s (s_go s i WRun ((s_wq s)\<lparr>wq_mBlocked := wq_mBlocked (s_wq s) - 1\<rparr>))"
| terminate: "\<lbrakk>s_at s i (WRecheck []); EventCount_Notify (s_ec s) True = Some e\<rbrakk> \<Longrightarrow>
     wq_step d s (s_go s i (WExit True) (s_with_ec s e))"
| commit: "\<lbrakk>s_at s i WCommit; EventCount_CommitWait (s_ec s) i = Some (park, e)\<rbrakk> \<Longrightarrow>
     wq_step d s (s_go s i (if park then WParked else WWoken) (s_with_ec s e))"
| park: "\<lbrakk>s_at s i WParked; EventCount_Park (ec_mWaiters (s_ec s) ! i) = (leave, w)\<rbrakk> \<Longrightarrow>
     wq_step d s (s_go s i (if leave then WWoken else WParked)
       (s_with_ec s ((s_ec s)\<lparr>ec_mWaiters := (ec_mWaiters (s_ec s))[i := w]\<rparr>)))"
| unblock: "s_at s i WWoken \<Longrightarrow>
     wq_step d s (s_go s i WRun ((s_wq s)\<lparr>wq_mBlocked := wq_mBlocked (s_wq s) - 1\<rparr>))"
| leave: "\<lbrakk>s_at s i WRun; wq_mCancelled (s_wq s)\<rbrakk> \<Longrightarrow> wq_step d s (s_go s i (WExit False) (s_wq s))"
| destroy: "\<lbrakk>\<not> wq_mDone (s_wq s); \<not> wq_mCancelled (s_wq s); s_xdecide s = 0; s_xnotify s = 0;
     EventCount_Notify (s_ec s) True = Some e\<rbrakk> \<Longrightarrow>
     wq_step d s (s\<lparr>s_wq := (s_wq s)\<lparr>wq_mDone := True, wq_mEventCount := e\<rparr>\<rparr>)"
| destroy_flush: "\<lbrakk>wq_mDone (s_wq s); wq_mCancelled (s_wq s); j < s_n s; op_Flush d (s_queue s j) = Some q\<rbrakk> \<Longrightarrow>
     wq_step d s (s\<lparr>s_wq := s_put s j q\<rparr>)"
| cancel: "EventCount_Notify (s_ec s) True = Some e \<Longrightarrow>
     wq_step d s (s\<lparr>s_wq := (s_wq s)\<lparr>wq_mCancelled := True, wq_mDone := True, wq_mEventCount := e\<rparr>\<rparr>)"

definition wq_start :: "'q \<Rightarrow> nat \<Rightarrow> 'q wq_sys option" where
  "wq_start queue n =
     map_option (\<lambda>w. \<lparr>s_wq = w, s_pc = replicate n WRun, s_xdecide = 0, s_xnotify = 0\<rparr>) (WorkQueueBase_new queue n)"

inductive wq_reach :: "('q, 'a) wq_ops \<Rightarrow> 'q \<Rightarrow> nat \<Rightarrow> 'q wq_sys \<Rightarrow> bool" for d queue n where
  wq_reach_start: "wq_start queue n = Some s \<Longrightarrow> wq_reach d queue n s"
| wq_reach_step: "\<lbrakk>wq_reach d queue n s; wq_step d s t\<rbrakk> \<Longrightarrow> wq_reach d queue n t"

subsection \<open>Projection to the event count\<close>

fun ec_pc_of :: "worker_pc \<Rightarrow> ec_pc" where
  "ec_pc_of (WScan vs) = Prewaiting"
| "ec_pc_of (WFound v) = Prewaiting"
| "ec_pc_of WBlocked = Prewaiting"
| "ec_pc_of WDone = Prewaiting"
| "ec_pc_of WCommit = Prewaiting"
| "ec_pc_of WParked = Parked"
| "ec_pc_of _ = Running"

definition s_proj :: "'q wq_sys \<Rightarrow> ec_sys" where
  "s_proj s = \<lparr>sys_ec = s_ec s, sys_pc = map ec_pc_of (s_pc s)\<rparr>"

lemma map_update_same: "i < length xs \<Longrightarrow> f x = f (xs ! i) \<Longrightarrow> map f (xs[i := x]) = map f xs"
  by (metis list_update_id map_update)

text \<open>Every step of the pool is a step of the event count protocol or leaves it alone.\<close>

lemma wq_step_proj:
  assumes "wq_step d s t"
  shows "s_proj t = s_proj s \<or> (\<exists>ev. ec_enabled (s_proj s) ev \<and> ec_apply (s_proj s) ev = Some (s_proj t))"
  using assms
proof cases
  case (notify i e)
  then show ?thesis
    by (intro disjI2 exI [of _ "EvNotify False"]) (simp add: s_proj_def s_go_def s_at_def map_update_same)
next
  case (x_notify e)
  then show ?thesis by (intro disjI2 exI [of _ "EvNotify False"]) (simp add: s_proj_def)
next
  case (prewait i e rng)
  then show ?thesis by (intro disjI2 exI [of _ "EvPrewait i"]) (simp add: s_proj_def s_go_def s_at_def map_update)
next
  case (found i v e)
  then show ?thesis by (intro disjI2 exI [of _ "EvCancel i"]) (simp add: s_proj_def s_go_def s_at_def map_update)
next
  case (found_cancelled i v e)
  then show ?thesis by (intro disjI2 exI [of _ "EvCancel i"]) (simp add: s_proj_def s_go_def s_at_def map_update)
next
  case (cancel_done i e rng)
  then show ?thesis by (intro disjI2 exI [of _ "EvCancel i"]) (simp add: s_proj_def s_go_def s_at_def map_update)
next
  case (terminate i e)
  then show ?thesis
    by (intro disjI2 exI [of _ "EvNotify True"]) (simp add: s_proj_def s_go_def s_at_def map_update_same)
next
  case (commit i park e)
  then show ?thesis
    by (intro disjI2 exI [of _ "EvCommit i"]) (simp add: s_proj_def s_go_def s_at_def map_update)
next
  case (park i leave w)
  then show ?thesis
    by (intro disjI2 exI [of _ "EvPark i"]) (simp add: s_proj_def s_go_def s_at_def map_update)
next
  case (destroy e)
  then show ?thesis by (intro disjI2 exI [of _ "EvNotify True"]) (simp add: s_proj_def)
next
  case (cancel e)
  then show ?thesis by (intro disjI2 exI [of _ "EvNotify True"]) (simp add: s_proj_def)
qed (auto simp: s_proj_def s_go_def s_at_def map_update_same WorkQueueBase_IsNotifyParkedThreadRequired_def
    WorkQueueBase_StartSpinning_def WorkQueueBase_StopSpinning_def Let_def split: option.splits if_splits)

lemma wq_reach_proj:
  assumes "wq_reach d queue n s"
  shows "ec_reach n (s_proj s)"
  using assms
proof (induction rule: wq_reach.induct)
  case (wq_reach_start s)
  then have "ec_start n = Some (s_proj s)"
    by (auto simp: wq_start_def WorkQueueBase_new_def ec_start_def s_proj_def split: if_splits)
  then show ?case by (rule ec_reach_start)
next
  case (wq_reach_step s t)
  then show ?case using wq_step_proj [OF wq_reach_step(2)] ec_reach_step by metis
qed

subsection \<open>The spinning word\<close>

definition sp_word :: "nat \<Rightarrow> nat \<Rightarrow> u64" where
  "sp_word S N = push_bit 32 (of_nat N) OR of_nat S"

lemma SpinningState_Encode_word:
  "SpinningState_Encode \<lparr>ss_mNumSpinning = of_nat S, ss_mNumNoNotification = of_nat N\<rparr> = sp_word S N"
  by (simp add: SpinningState_Encode_def sp_word_def kNumNoNotifyShift_def)

lemma SpinningState_Decode_word:
  assumes "N \<le> S" "S < 2 ^ 32"
  shows "SpinningState_Decode (sp_word S N) = Some \<lparr>ss_mNumSpinning = of_nat S, ss_mNumNoNotification = of_nat N\<rparr>"
proof -
  have small: "\<not> bit S n" "\<not> bit N n" if "32 \<le> n" for n
    using nat_bit_small [of S 32 n] nat_bit_small [of N 32 n] assms that by simp_all
  have masks: "kNumSpinningMask = mask 32" "kNumNoNotifyMask = push_bit 32 (mask 32)"
    by (simp_all add: kNumSpinningMask_def kNumSpinningBits_def kNumNoNotifyMask_def kNumNoNotifyBits_def
        kNumNoNotifyShift_def mask_eq_exp_minus_1)
  have "sp_word S N AND mask 32 = of_nat S"
  proof (rule bit_word_eqI)
    fix n :: nat
    show "bit (sp_word S N AND mask 32) n = bit (of_nat S :: u64) n"
      using small [of n] by (cases "n < 32") (auto simp: sp_word_def bit_simps)
  qed
  moreover have "drop_bit 32 (sp_word S N AND push_bit 32 (mask 32)) = of_nat N"
  proof (rule bit_word_eqI)
    fix n :: nat
    show "bit (drop_bit 32 (sp_word S N AND push_bit 32 (mask 32))) n = bit (of_nat N :: u64) n"
      using small(2) [of n] small(1) [of "32 + n"] by (cases "n < 32") (auto simp: sp_word_def bit_simps)
  qed
  moreover have "(of_nat N :: u64) \<le> of_nat S"
    using assms by (simp add: word_le_nat_alt unat_of_nat)
  ultimately show ?thesis
    unfolding SpinningState_Decode_def masks kNumNoNotifyShift_def Let_def by simp
qed

definition wq_spin :: "'q WorkQueueBase \<Rightarrow> nat \<Rightarrow> bool" where
  "wq_spin w S \<longleftrightarrow> S < 2 ^ 32 \<and> (\<exists>N\<le>S. wq_mSpinningState w = sp_word S N)"

lemma of_nat_u64_eq: "a < 2 ^ 33 \<Longrightarrow> b < 2 ^ 33 \<Longrightarrow> (of_nat a :: u64) = of_nat b \<longleftrightarrow> a = b"
  by (rule of_nat_inj_small) simp_all

lemma WorkQueueBase_IsNotify_word:
  assumes "N \<le> S" "S < 2 ^ 32" "wq_mSpinningState w = sp_word S N"
  shows "WorkQueueBase_IsNotifyParkedThreadRequired w =
    (if N = S then Some (True, w) else Some (False, w\<lparr>wq_mSpinningState := sp_word S (Suc N)\<rparr>))"
proof -
  have "((of_nat N :: u64) = of_nat S) = (N = S)" using assms(1,2) by (intro of_nat_u64_eq) simp_all
  moreover have "SpinningState_Encode \<lparr>ss_mNumSpinning = of_nat S, ss_mNumNoNotification = of_nat N + 1\<rparr> = sp_word S (Suc N)"
    using SpinningState_Encode_word [of S "Suc N"] by (simp add: add.commute)
  ultimately show ?thesis
    by (simp add: WorkQueueBase_IsNotifyParkedThreadRequired_def assms(3) SpinningState_Decode_word [OF assms(1,2)])
qed

lemma WorkQueueBase_StartSpinning_word:
  assumes "N \<le> S" "S < 2 ^ 32" "wq_mSpinningState w = sp_word S N"
  shows "WorkQueueBase_StartSpinning w =
    (if 4 < WorkQueueBase_NumActiveThreads w \<or> N < S then Some (False, w)
     else Some (True, w\<lparr>wq_mSpinningState := sp_word (Suc S) N\<rparr>))"
proof -
  have sub: "(of_nat S - of_nat N :: u64) = of_nat (S - N)" using assms(1) by simp
  have "kMaxSpinningThreads \<le> (of_nat S - of_nat N :: u64) \<longleftrightarrow> N < S"
    unfolding sub using assms(1,2) by (simp add: kMaxSpinningThreads_def word_le_nat_alt unat_of_nat Suc_le_eq del: of_nat_diff)
  moreover have "SpinningState_Encode \<lparr>ss_mNumSpinning = of_nat S + 1, ss_mNumNoNotification = of_nat N\<rparr> = sp_word (Suc S) N"
    using SpinningState_Encode_word [of "Suc S" N] by (simp add: add.commute)
  ultimately show ?thesis
    by (simp add: WorkQueueBase_StartSpinning_def assms(3) SpinningState_Decode_word [OF assms(1,2)]
        kMinActiveThreadsToStartSpinning_def)
qed

lemma WorkQueueBase_StopSpinning_word:
  assumes "N \<le> Suc S" "Suc S < 2 ^ 32" "wq_mSpinningState w = sp_word (Suc S) N"
  shows "WorkQueueBase_StopSpinning w = Some (0 < N, w\<lparr>wq_mSpinningState := sp_word S (N - 1)\<rparr>)"
proof (cases N)
  case 0
  then show ?thesis
    using SpinningState_Encode_word [of S 0] SpinningState_Decode_word [OF assms(1,2)]
    by (simp add: WorkQueueBase_StopSpinning_def assms(3) Let_def)
next
  case (Suc M)
  then have "(0 :: u64) < of_nat N"
    using assms by (simp add: word_less_nat_alt unat_of_nat del: of_nat_Suc)
  then show ?thesis
    using SpinningState_Encode_word [of S M] Suc SpinningState_Decode_word [OF assms(1,2)]
    by (simp add: WorkQueueBase_StopSpinning_def assms(3) Let_def)
qed

subsection \<open>Invariants of the pool\<close>

definition wq_shape :: "'q wq_sys \<Rightarrow> bool" where
  "wq_shape s \<longleftrightarrow> length (s_pc s) = s_n s \<and> 0 < s_n s \<and> s_n s < 16383 \<and>
     wq_mNumThreads (s_wq s) = of_nat (s_n s) \<and> wq_mCoprimes (s_wq s) = ComputeCoprimes (wq_mNumThreads (s_wq s))"

fun pc_bound :: "nat \<Rightarrow> worker_pc \<Rightarrow> bool" where
  "pc_bound n (WScan vs) = (\<forall>v\<in>set vs. v < n)"
| "pc_bound n (WRecheck vs) = (\<forall>v\<in>set vs. v < n)"
| "pc_bound n _ = True"

definition wq_bounds :: "'q wq_sys \<Rightarrow> bool" where
  "wq_bounds s \<longleftrightarrow> (\<forall>p\<in>set (s_pc s). pc_bound (s_n s) p)"

fun pc_flags :: "bool \<Rightarrow> bool \<Rightarrow> worker_pc \<Rightarrow> bool" where
  "pc_flags done cancelled WDone = done"
| "pc_flags done cancelled (WRecheck vs) = done"
| "pc_flags done cancelled (WExit b) = (if b then done else cancelled)"
| "pc_flags done cancelled _ = True"

definition wq_flags :: "'q wq_sys \<Rightarrow> bool" where
  "wq_flags s \<longleftrightarrow> (\<forall>p\<in>set (s_pc s). pc_flags (wq_mDone (s_wq s)) (wq_mCancelled (s_wq s)) p) \<and>
     (0 < s_xdecide s + s_xnotify s \<longrightarrow> \<not> wq_mDone (s_wq s) \<or> wq_mCancelled (s_wq s))"

definition wq_spins :: "'q wq_sys \<Rightarrow> bool" where
  "wq_spins s \<longleftrightarrow> wq_spin (s_wq s) (count_list (s_pc s) WSpin)"

definition wq_same_but_spin :: "'q WorkQueueBase \<Rightarrow> 'q WorkQueueBase \<Rightarrow> bool" where
  "wq_same_but_spin w w' \<longleftrightarrow> w' = w\<lparr>wq_mSpinningState := wq_mSpinningState w'\<rparr>"

lemma wq_ops_frame:
  "WorkQueueBase_IsNotifyParkedThreadRequired w = Some (b, w') \<Longrightarrow> wq_same_but_spin w w'"
  "WorkQueueBase_StartSpinning w = Some (b, w') \<Longrightarrow> wq_same_but_spin w w'"
  "WorkQueueBase_StopSpinning w = Some (b, w') \<Longrightarrow> wq_same_but_spin w w'"
  by (auto simp: WorkQueueBase_IsNotifyParkedThreadRequired_def WorkQueueBase_StartSpinning_def wq_same_but_spin_def
        WorkQueueBase_StopSpinning_def Let_def split: option.splits if_splits)

lemma wq_same_but_spin_fields:
  assumes "wq_same_but_spin w w'"
  shows "wq_mThreadData w' = wq_mThreadData w" "wq_mNumThreads w' = wq_mNumThreads w" "wq_mCoprimes w' = wq_mCoprimes w"
    "wq_mBlocked w' = wq_mBlocked w" "wq_mDone w' = wq_mDone w" "wq_mCancelled w' = wq_mCancelled w"
    "wq_mEventCount w' = wq_mEventCount w"
  using assms unfolding wq_same_but_spin_def by (metis WorkQueueBase.ext_inject WorkQueueBase.surjective WorkQueueBase.update_convs(7))+

lemma set_update_ball: "\<forall>x\<in>set xs. P x \<Longrightarrow> P y \<Longrightarrow> \<forall>x\<in>set (xs[i := y]). P x"
  by (auto dest!: set_update_subset_insert [THEN subsetD])

lemma wq_step_shape: "wq_step d s t \<Longrightarrow> wq_shape s \<Longrightarrow> wq_shape t"
  by (cases rule: wq_step.cases, assumption)
    (auto simp: wq_shape_def s_go_def wq_same_but_spin_fields dest!: wq_ops_frame)

lemma wq_scan_order_all:
  assumes "wq_shape s"
  shows "set (wq_scan_order (s_wq s) rng) = {..<s_n s}"
proof -
  let ?n = "wq_mNumThreads (s_wq s)"
  have n: "unat ?n = s_n s" using assms by (simp add: wq_shape_def unat_of_nat)
  have pos: "0 < ?n" using n assms by (simp add: word_less_nat_alt wq_shape_def)
  have cs: "wq_mCoprimes (s_wq s) = ComputeCoprimes ?n" using assms by (simp add: wq_shape_def)
  obtain r where r: "r = fst (FastRng_next rng)" by blast
  obtain inc where inc: "inc = (if ?n = 1 then 1 else wq_mCoprimes (s_wq s) ! (unat r mod length (wq_mCoprimes (s_wq s))))"
    by blast
  have "1 \<in> set (ComputeCoprimes ?n)" using pos by (simp add: ComputeCoprimes_set word_less_nat_alt Suc_le_eq)
  then have "inc \<in> set (ComputeCoprimes ?n)"
    using ComputeCoprimes_nonempty [OF pos] by (cases "?n = 1") (simp_all add: inc cs)
  then have "set (wq_walk ?n inc (unat ?n) (FastReduce r ?n)) = {..<unat ?n}"
    using FastReduce_less [OF pos, of r] assms n
    by (intro wq_walk_perm(2)) (simp_all add: ComputeCoprimes_set wq_shape_def)
  then show ?thesis unfolding wq_scan_order_def Let_def r [symmetric] inc [symmetric] n .
qed

lemma s_at_in: "s_at s i p \<Longrightarrow> p \<in> set (s_pc s)"
  by (auto simp: s_at_def)

lemma wq_bounds_go:
  assumes "wq_bounds s" "length (wq_mThreadData w) = s_n s" "pc_bound (s_n s) p"
  shows "wq_bounds (s_go s i p w)"
  using assms set_update_ball [of "s_pc s" "pc_bound (s_n s)" p i] by (simp add: wq_bounds_def s_go_def)

lemma wq_bounds_at: "wq_bounds s \<Longrightarrow> s_at s i p \<Longrightarrow> pc_bound (s_n s) p"
  using s_at_in by (auto simp: wq_bounds_def)

lemma wq_step_bounds:
  assumes "wq_step d s t" "wq_shape s" "wq_bounds s"
  shows "wq_bounds t"
  using assms(1)
proof cases
  case (scan i v vs e)
  then have "pc_bound (s_n s) (WScan (v # vs))" by (intro wq_bounds_at [OF assms(3)])
  then show ?thesis using scan assms(3) by (auto intro!: wq_bounds_go)
next
  case (recheck_empty i v vs)
  then have "pc_bound (s_n s) (WRecheck (v # vs))" by (intro wq_bounds_at [OF assms(3)])
  then show ?thesis using recheck_empty assms(3) by (auto intro!: wq_bounds_go)
next
  case (prewait i e rng)
  have "pc_bound (s_n s) (WScan (wq_scan_order (s_wq s) rng))" by (simp add: wq_scan_order_all [OF assms(2)])
  then show ?thesis unfolding prewait(1) by (intro wq_bounds_go assms(3)) simp_all
next
  case (cancel_done i e rng)
  have "pc_bound (s_n s) (WRecheck (wq_scan_order (s_wq s) rng))" by (simp add: wq_scan_order_all [OF assms(2)])
  then show ?thesis unfolding cancel_done(1) by (intro wq_bounds_go assms(3)) simp_all
next
  case (x_decide b w)
  then show ?thesis using assms(3) wq_same_but_spin_fields [OF wq_ops_frame(1) [OF x_decide(3)]] by (simp add: wq_bounds_def)
next
  case (decide i b w)
  then show ?thesis
    using assms(3) wq_same_but_spin_fields [OF wq_ops_frame(1) [OF decide(3)]] by (auto intro!: wq_bounds_go)
next
  case (start_spin i b w)
  then show ?thesis
    using assms(3) wq_same_but_spin_fields [OF wq_ops_frame(2) [OF start_spin(3)]] by (auto intro!: wq_bounds_go)
next
  case (stop_spin i b w)
  then show ?thesis
    using assms(3) wq_same_but_spin_fields [OF wq_ops_frame(3) [OF stop_spin(3)]] by (auto intro!: wq_bounds_go)
next
  case (x_add j t r q)
  then show ?thesis using assms(3) by (simp add: wq_bounds_def)
next
  case (x_notify e)
  then show ?thesis using assms(3) by (simp add: wq_bounds_def)
next
  case (destroy e)
  then show ?thesis using assms(3) by (simp add: wq_bounds_def)
next
  case (destroy_flush j q)
  then show ?thesis using assms(3) by (simp add: wq_bounds_def)
next
  case (cancel e)
  then show ?thesis using assms(3) by (simp add: wq_bounds_def)
qed (use assms(3) in \<open>simp_all add: wq_bounds_go\<close>)

lemma pc_flags_mono: "pc_flags dn c p \<Longrightarrow> pc_flags True c p"
  by (cases p) auto

lemma pc_flags_cancel: "pc_flags dn c p \<Longrightarrow> pc_flags True True p"
  by (cases p) auto

lemma wq_flags_go:
  assumes "wq_flags s" "wq_mDone w = wq_mDone (s_wq s)" "wq_mCancelled w = wq_mCancelled (s_wq s)"
    "pc_flags (wq_mDone (s_wq s)) (wq_mCancelled (s_wq s)) p"
  shows "wq_flags (s_go s i p w)"
  using assms set_update_ball [of "s_pc s" "pc_flags (wq_mDone (s_wq s)) (wq_mCancelled (s_wq s))" p i]
  by (simp add: wq_flags_def s_go_def)

lemma wq_flags_at: "wq_flags s \<Longrightarrow> s_at s i p \<Longrightarrow> pc_flags (wq_mDone (s_wq s)) (wq_mCancelled (s_wq s)) p"
  using s_at_in by (auto simp: wq_flags_def)

lemma wq_step_flags:
  assumes "wq_step d s t" "wq_flags s"
  shows "wq_flags t"
  using assms(1)
proof cases
  case (destroy e)
  then show ?thesis using assms(2) pc_flags_mono by (auto simp: wq_flags_def)
next
  case (cancel e)
  then show ?thesis using assms(2) pc_flags_cancel by (auto simp: wq_flags_def)
next
  case (recheck_empty i v vs)
  then show ?thesis using assms(2) wq_flags_at [OF assms(2) recheck_empty(2)] by (auto intro!: wq_flags_go)
next
  case (terminate i e)
  then show ?thesis using assms(2) wq_flags_at [OF assms(2) terminate(2)] by (auto intro!: wq_flags_go)
next
  case (cancel_done i e rng)
  then show ?thesis using assms(2) wq_flags_at [OF assms(2) cancel_done(2)] by (auto intro!: wq_flags_go)
next
  case (x_decide b w)
  then show ?thesis using assms(2) wq_same_but_spin_fields [OF wq_ops_frame(1) [OF x_decide(3)]] by (auto simp: wq_flags_def)
next
  case (decide i b w)
  then show ?thesis
    using assms(2) wq_same_but_spin_fields [OF wq_ops_frame(1) [OF decide(3)]] by (auto intro!: wq_flags_go)
next
  case (start_spin i b w)
  then show ?thesis
    using assms(2) wq_same_but_spin_fields [OF wq_ops_frame(2) [OF start_spin(3)]] by (auto intro!: wq_flags_go)
next
  case (stop_spin i b w)
  then show ?thesis
    using assms(2) wq_same_but_spin_fields [OF wq_ops_frame(3) [OF stop_spin(3)]] by (auto intro!: wq_flags_go)
next
  case (x_add j t r q)
  then show ?thesis using assms(2) by (auto simp: wq_flags_def)
next
  case (x_notify e)
  then show ?thesis using assms(2) by (auto simp: wq_flags_def)
next
  case (destroy_flush j q)
  then show ?thesis using assms(2) by (simp add: wq_flags_def)
qed (use assms(2) in \<open>auto intro!: wq_flags_go\<close>)

lemma count_list_same: "i < length xs \<Longrightarrow> xs ! i \<noteq> z \<Longrightarrow> y \<noteq> z \<Longrightarrow> count_list (xs[i := y]) z = count_list xs z"
  by (simp add: count_list_update)

lemma wq_step_spins:
  assumes "wq_step d s t" "wq_shape s" "wq_spins s"
  shows "wq_spins t"
proof -
  let ?S = "count_list (s_pc s) WSpin"
  obtain N where N: "N \<le> ?S" "?S < 2 ^ 32" "wq_mSpinningState (s_wq s) = sp_word ?S N"
    using assms(3) by (auto simp: wq_spins_def wq_spin_def)
  have len: "?S \<le> length (s_pc s)" by (rule count_le_length)
  from assms(1) show ?thesis
  proof cases
    case (spin_steal i j r q)
    then have "(s_pc s)[i := WSpin] = s_pc s" by (metis list_update_id s_at_def)
    then show ?thesis using spin_steal assms(3) by (simp add: wq_spins_def wq_spin_def s_go_def)
  next
    case (decide i b w)
    then show ?thesis
      using N WorkQueueBase_IsNotify_word [OF N]
      by (auto simp: wq_spins_def wq_spin_def s_go_def s_at_def count_list_same split: if_splits intro: exI [of _ "Suc N"])
  next
    case (x_decide b w)
    then show ?thesis
      using N WorkQueueBase_IsNotify_word [OF N]
      by (auto simp: wq_spins_def wq_spin_def split: if_splits intro: exI [of _ "Suc N"])
  next
    case (start_spin i b w)
    then show ?thesis
      using N WorkQueueBase_StartSpinning_word [OF N] assms(2) len
      by (auto simp: wq_spins_def wq_spin_def s_go_def s_at_def count_list_update wq_shape_def split: if_splits intro: exI [of _ N])
  next
    case (stop_spin i b w)
    then have "0 < ?S" using count_list_nth_pos by (auto simp: s_at_def)
    then obtain S where S: "?S = Suc S" using gr0_conv_Suc by blast
    then have "w = (s_wq s)\<lparr>wq_mSpinningState := sp_word S (N - 1)\<rparr>"
      using WorkQueueBase_StopSpinning_word [of N S "s_wq s"] N stop_spin by simp
    then show ?thesis
      using S N stop_spin by (auto simp: wq_spins_def wq_spin_def s_go_def s_at_def count_list_update intro: exI [of _ "N - 1"])
  qed (use assms(3) in \<open>auto simp: wq_spins_def wq_spin_def s_go_def s_at_def count_list_update\<close>)
qed

subsection \<open>The count of blocked workers\<close>

text \<open>The workers that have incremented mBlocked and not yet decremented it.\<close>

fun pc_blocked :: "worker_pc \<Rightarrow> bool" where
  "pc_blocked WBlocked = True"
| "pc_blocked WDone = True"
| "pc_blocked WCommit = True"
| "pc_blocked (WRecheck vs) = True"
| "pc_blocked WParked = True"
| "pc_blocked WWoken = True"
| "pc_blocked (WExit b) = b"
| "pc_blocked _ = False"

definition wq_blocked_ok :: "'q wq_sys \<Rightarrow> bool" where
  "wq_blocked_ok s \<longleftrightarrow> wq_mBlocked (s_wq s) = of_nat (count_list (map pc_blocked (s_pc s)) True)"

lemma wq_blocked_go:
  assumes "wq_blocked_ok s" "s_at s i p"
    "wq_mBlocked w = wq_mBlocked (s_wq s) - (if pc_blocked p then 1 else 0) + (if pc_blocked p' then 1 else 0)"
  shows "wq_blocked_ok (s_go s i p' w)"
proof -
  have i: "i < length (map pc_blocked (s_pc s))" "map pc_blocked (s_pc s) ! i = pc_blocked p"
    using assms(2) by (simp_all add: s_at_def)
  have pos: "pc_blocked p \<Longrightarrow> 0 < count_list (map pc_blocked (s_pc s)) True"
    using count_list_nth_pos [OF i(1), of True] i(2) by simp
  have "count_list (map pc_blocked ((s_pc s)[i := p'])) True =
      (count_list (map pc_blocked (s_pc s)) True - (if pc_blocked p then 1 else 0)) + (if pc_blocked p' then 1 else 0)"
    using count_list_update [OF i(1), of "pc_blocked p'" True] i(2) by (simp add: map_update)
  then show ?thesis
    using assms(1,3) pos by (auto simp: wq_blocked_ok_def s_go_def Suc_le_eq)
qed

lemma wq_step_blocked:
  assumes "wq_step d s t" "wq_blocked_ok s"
  shows "wq_blocked_ok t"
  using assms(1)
proof cases
  case (x_decide b w)
  then show ?thesis
    using assms(2) wq_same_but_spin_fields(4) [OF wq_ops_frame(1) [OF x_decide(3)]] by (simp add: wq_blocked_ok_def)
next
  case (decide i b w)
  show ?thesis unfolding decide(1)
    by (rule wq_blocked_go [OF assms(2) decide(2)]) (simp add: wq_same_but_spin_fields(4) [OF wq_ops_frame(1) [OF decide(3)]])
next
  case (start_spin i b w)
  show ?thesis unfolding start_spin(1)
    by (rule wq_blocked_go [OF assms(2) start_spin(2)]) (simp add: wq_same_but_spin_fields(4) [OF wq_ops_frame(2) [OF start_spin(3)]])
next
  case (stop_spin i b w)
  show ?thesis unfolding stop_spin(1)
    by (rule wq_blocked_go [OF assms(2) stop_spin(2)]) (simp add: wq_same_but_spin_fields(4) [OF wq_ops_frame(3) [OF stop_spin(3)]])
next
  case (x_add j x r q)
  then show ?thesis using assms(2) by (simp add: wq_blocked_ok_def)
next
  case (x_notify e)
  then show ?thesis using assms(2) by (simp add: wq_blocked_ok_def)
next
  case (destroy e)
  then show ?thesis using assms(2) by (simp add: wq_blocked_ok_def)
next
  case (destroy_flush j q)
  then show ?thesis using assms(2) by (simp add: wq_blocked_ok_def)
next
  case (cancel e)
  then show ?thesis using assms(2) by (simp add: wq_blocked_ok_def)
qed (hypsubst, rule wq_blocked_go [OF assms(2)], assumption, simp)+

lemma wq_reach_blocked: "wq_reach d queue n s \<Longrightarrow> wq_blocked_ok s"
proof (induction rule: wq_reach.induct)
  case (wq_reach_start s)
  have "count_list (replicate m False) True = 0" for m by (auto simp: count_list_0_iff)
  with wq_reach_start show ?case
    by (auto simp: wq_start_def WorkQueueBase_new_def wq_blocked_ok_def split: if_splits)
qed (rule wq_step_blocked)

lemma wq_reach_shape: "wq_reach d queue n s \<Longrightarrow> wq_shape s"
proof (induction rule: wq_reach.induct)
  case (wq_reach_start s)
  then show ?case
    by (auto simp: wq_start_def WorkQueueBase_new_def EventCount_new_def ec_kCounterBits_def wq_shape_def split: if_splits)
qed (rule wq_step_shape)

lemma count_list_full: "count_list xs True = length xs \<longleftrightarrow> (\<forall>x\<in>set xs. x)"
proof (induction xs)
  case (Cons x xs)
  then show ?case using count_le_length [of xs True] by (cases x) auto
qed simp

lemma wq_AllBlocked_iff:
  assumes "wq_reach d queue n s"
  shows "WorkQueueBase_AllBlocked (s_wq s) \<longleftrightarrow> (\<forall>p\<in>set (s_pc s). pc_blocked p)"
proof -
  have shape: "length (s_pc s) = s_n s" "s_n s < 16383" "wq_mNumThreads (s_wq s) = of_nat (s_n s)"
    using wq_reach_shape [OF assms] by (simp_all add: wq_shape_def)
  have "count_list (map pc_blocked (s_pc s)) True \<le> s_n s"
    using count_le_length [of "map pc_blocked (s_pc s)" True] shape(1) by simp
  then have "(of_nat (count_list (map pc_blocked (s_pc s)) True) :: u32) = of_nat (s_n s) \<longleftrightarrow>
      count_list (map pc_blocked (s_pc s)) True = length (map pc_blocked (s_pc s))"
    using of_nat_inj_small [where ?'a = 32, of "count_list (map pc_blocked (s_pc s)) True" "s_n s"] shape by simp
  then show ?thesis
    using wq_reach_blocked [OF assms] shape(3) count_list_full [of "map pc_blocked (s_pc s)"]
    by (simp add: WorkQueueBase_AllBlocked_def WorkQueueBase_NumBlockedThreads_def wq_blocked_ok_def)
qed

subsection \<open>No task is left behind\<close>

text \<open>
  A worker is active with respect to queue \<open>j\<close> when it will still look into it (or into every queue)
  before it can park or terminate. A queue is covered when some worker is active for it, or an external submitter
  still has to decide on a notification or to send it, or a waiting worker has been alerted.
\<close>

fun pc_active :: "worker_pc \<Rightarrow> nat \<Rightarrow> bool" where
  "pc_active (WScan vs) j = (j \<in> set vs)"
| "pc_active (WRecheck vs) j = (j \<in> set vs)"
| "pc_active WBlocked j = False"
| "pc_active WDone j = False"
| "pc_active WCommit j = False"
| "pc_active WParked j = False"
| "pc_active (WExit b) j = False"
| "pc_active _ j = True"

definition wq_covered :: "'q wq_sys \<Rightarrow> nat \<Rightarrow> bool" where
  "wq_covered s j \<longleftrightarrow> (\<exists>i<length (s_pc s). pc_active (s_pc s ! i) j) \<or> 0 < s_xdecide s + s_xnotify s \<or> ec_alerted (s_proj s)"

lemma wq_covered_go: "i < length (s_pc s) \<Longrightarrow> pc_active p j \<Longrightarrow> wq_covered (s_go s i p w) j"
  by (auto simp: wq_covered_def s_go_def)

lemma wq_covered_keep:
  assumes "wq_covered s j" "s_at s i p" "pc_active p j \<longrightarrow> pc_active p' j"
    "ec_alerted (s_proj s) \<longrightarrow> ec_alerted (s_proj (s_go s i p' w))"
  shows "wq_covered (s_go s i p' w) j"
proof -
  have "\<exists>k<length (s_pc s). pc_active ((s_pc s)[i := p'] ! k) j" if "k < length (s_pc s)" "pc_active (s_pc s ! k) j" for k
    using that assms(2,3) by (intro exI [of _ k]) (auto simp: s_at_def nth_list_update)
  then show ?thesis using assms(1,4) by (auto simp: wq_covered_def s_go_def)
qed

lemma s_proj_go: "s_at s i p \<Longrightarrow> ec_pc_of p' = ec_pc_of p \<Longrightarrow> wq_mEventCount w = s_ec s \<Longrightarrow> s_proj (s_go s i p' w) = s_proj s"
  by (simp add: s_proj_def s_go_def s_at_def map_update_same)

locale work_queue_derived =
  fixes d :: "('q, 'a) wq_ops"
    and invar :: "'q \<Rightarrow> bool"
    and abs :: "'q \<Rightarrow> 'a list"
  assumes next_law: "\<lbrakk>invar q; op_NextTask d q = Some (r, q1)\<rbrakk> \<Longrightarrow> invar q1 \<and> mset (abs q) = answer_mset r + mset (abs q1)"
    and steal_law: "\<lbrakk>invar q; op_Steal d q = Some (r, q1)\<rbrakk> \<Longrightarrow> invar q1 \<and> mset (abs q) = answer_mset r + mset (abs q1)"
    and push_own_law: "\<lbrakk>invar q; op_PushOwn d q t = Some (r, q1)\<rbrakk> \<Longrightarrow> invar q1 \<and> mset (abs q) + {#t#} = answer_mset r + mset (abs q1)"
    and push_ext_law: "\<lbrakk>invar q; op_PushExt d q t = Some (r, q1)\<rbrakk> \<Longrightarrow> invar q1 \<and> mset (abs q) + {#t#} = answer_mset r + mset (abs q1)"
    and empty_law: "\<lbrakk>invar q; op_Empty d q = Some e\<rbrakk> \<Longrightarrow> e = (abs q = [])"
    and flush_law: "\<lbrakk>invar q; op_Flush d q = Some q1\<rbrakk> \<Longrightarrow> invar q1"
begin

definition queues_ok :: "'q wq_sys \<Rightarrow> bool" where
  "queues_ok s \<longleftrightarrow> (\<forall>q\<in>set (wq_mThreadData (s_wq s)). invar q)"

lemma queues_ok_at: "queues_ok s \<Longrightarrow> j < s_n s \<Longrightarrow> invar (s_queue s j)"
  by (simp add: queues_ok_def)

lemma queues_ok_go:
  "\<lbrakk>queues_ok s; wq_mThreadData w = wq_mThreadData (s_wq s)\<rbrakk> \<Longrightarrow> queues_ok (s_go s i p w)"
  by (simp add: queues_ok_def s_go_def)

lemma queues_ok_put: "\<lbrakk>queues_ok s; invar q\<rbrakk> \<Longrightarrow> queues_ok (s_go s i p (s_put s j q))"
  using set_update_ball [of "wq_mThreadData (s_wq s)" invar q j] by (simp add: queues_ok_def s_go_def)

lemma step_queues_ok:
  assumes "wq_step d s t" "wq_shape s" "queues_ok s"
  shows "queues_ok t"
proof -
  have own: "i < s_n s" if "s_at s i p" for i p using that assms(2) by (simp add: s_at_def wq_shape_def)
  from assms(1) show ?thesis
  proof cases
    case (next_task i r q)
    then show ?thesis using next_law [OF queues_ok_at [OF assms(3) own]] assms(3) by (auto intro: queues_ok_put)
  next
    case (steal i j r q)
    then show ?thesis using steal_law [OF queues_ok_at [OF assms(3)]] assms(3) by (auto intro: queues_ok_put)
  next
    case (spin_steal i j r q)
    then show ?thesis using steal_law [OF queues_ok_at [OF assms(3)]] assms(3) by (auto intro: queues_ok_put)
  next
    case (take i v r q)
    then show ?thesis using steal_law [OF queues_ok_at [OF assms(3)]] assms(3) by (auto intro: queues_ok_put)
  next
    case (add_own i skip x r q)
    then have "invar q" using push_own_law [OF queues_ok_at [OF assms(3) own]] by blast
    then show ?thesis unfolding add_own(1) by (rule queues_ok_put [OF assms(3)])
  next
    case (x_add j x r q)
    then have "invar q" using push_ext_law [OF queues_ok_at [OF assms(3)]] by blast
    then show ?thesis using assms(3) set_update_ball [of "wq_mThreadData (s_wq s)" invar q j] by (simp add: x_add(1) queues_ok_def)
  next
    case (destroy_flush j q)
    then have "invar q" using flush_law [OF queues_ok_at [OF assms(3)]] by blast
    then show ?thesis using assms(3) set_update_ball [of "wq_mThreadData (s_wq s)" invar q j] by (simp add: destroy_flush(1) queues_ok_def)
  next
    case (decide i b w)
    show ?thesis unfolding decide(1)
      by (rule queues_ok_go [OF assms(3) wq_same_but_spin_fields(1) [OF wq_ops_frame(1) [OF decide(3)]]])
  next
    case (start_spin i b w)
    show ?thesis unfolding start_spin(1)
      by (rule queues_ok_go [OF assms(3) wq_same_but_spin_fields(1) [OF wq_ops_frame(2) [OF start_spin(3)]]])
  next
    case (stop_spin i b w)
    show ?thesis unfolding stop_spin(1)
      by (rule queues_ok_go [OF assms(3) wq_same_but_spin_fields(1) [OF wq_ops_frame(3) [OF stop_spin(3)]]])
  next
    case (x_decide b w)
    then show ?thesis
      using assms(3) wq_same_but_spin_fields(1) [OF wq_ops_frame(1) [OF x_decide(3)]] by (simp add: queues_ok_def)
  qed (use assms(3) in \<open>simp_all add: queues_ok_def s_go_def\<close>)
qed

definition pool_ok :: "'q wq_sys \<Rightarrow> bool" where
  "pool_ok s \<longleftrightarrow> (\<not> wq_mCancelled (s_wq s) \<longrightarrow> (\<forall>j< s_n s. abs (s_queue s j) \<noteq> [] \<longrightarrow> wq_covered s j))"

text \<open>Steps after which the moving worker is itself active.\<close>

lemma pool_ok_go: "i < length (s_pc s) \<Longrightarrow> (\<And>j. j < length (wq_mThreadData w) \<Longrightarrow> pc_active p j) \<Longrightarrow> pool_ok (s_go s i p w)"
  unfolding pool_ok_def by (intro impI allI) (rule wq_covered_go, assumption, simp add: s_go_def)

text \<open>Steps that change neither a queue nor the event count.\<close>

lemma pool_ok_quiet:
  assumes "pool_ok s" "s_at s i p" "ec_pc_of p' = ec_pc_of p" "wq_mEventCount w = s_ec s"
    "wq_mThreadData w = wq_mThreadData (s_wq s)" "wq_mCancelled w = wq_mCancelled (s_wq s)"
    "\<And>j. j < s_n s \<Longrightarrow> abs (s_queue s j) \<noteq> [] \<Longrightarrow> pc_active p j \<Longrightarrow> pc_active p' j"
  shows "pool_ok (s_go s i p' w)"
  unfolding pool_ok_def
proof (intro impI allI)
  fix j
  assume a: "\<not> wq_mCancelled (s_wq (s_go s i p' w))" "j < s_n (s_go s i p' w)" "abs (s_queue (s_go s i p' w) j) \<noteq> []"
  then have j: "j < s_n s" "abs (s_queue s j) \<noteq> []" using assms(5) by (simp_all add: s_go_def)
  have "wq_covered s j" using assms(1,6) a(1) j by (simp add: pool_ok_def s_go_def)
  then show "wq_covered (s_go s i p' w) j"
    using assms(7) [OF j] s_proj_go [OF assms(2-4)] by (intro wq_covered_keep [OF _ assms(2)]) simp_all
qed

text \<open>Steps of the event count by a worker that is not active.\<close>

lemma pool_ok_event:
  assumes "pool_ok s" "s_at s i p" "\<And>j. \<not> pc_active p j"
    "wq_mThreadData w = wq_mThreadData (s_wq s)" "wq_mCancelled w = wq_mCancelled (s_wq s)"
    "ec_alerted (s_proj s) \<Longrightarrow> ec_alerted (s_proj (s_go s i p' w))"
  shows "pool_ok (s_go s i p' w)"
  unfolding pool_ok_def
proof (intro impI allI)
  fix j
  assume a: "\<not> wq_mCancelled (s_wq (s_go s i p' w))" "j < s_n (s_go s i p' w)" "abs (s_queue (s_go s i p' w) j) \<noteq> []"
  then have "wq_covered s j" using assms(1,4,5) by (simp add: pool_ok_def s_go_def)
  then show "wq_covered (s_go s i p' w) j"
    using assms(3,6) by (intro wq_covered_keep [OF _ assms(2)]) simp_all
qed

lemma notify_alerted:
  assumes "ec_reach n (s_proj s)" "EventCount_Notify (s_ec s) b = Some e" "ec_alerted (s_proj s)"
    "sys_ec p = e" "sys_pc p = sys_pc (s_proj s)"
  shows "ec_alerted p"
proof -
  obtain i where "i < length (sys_pc (s_proj s))" "sys_pc (s_proj s) ! i \<noteq> Running"
    using ec_alerted_waiting [OF assms(1,3)] by blast
  moreover have "p = \<lparr>sys_ec = e, sys_pc = sys_pc (s_proj s)\<rparr>" using assms(4,5) by simp
  then have "ec_apply (s_proj s) (EvNotify b) = Some p" using assms(2) by (simp add: s_proj_def)
  ultimately show ?thesis by (intro ec_notify_alerts [OF assms(1)])
qed

text \<open>An external notification: either a waiting worker is alerted or every worker is active.\<close>

lemma x_notify_covers:
  assumes reach: "ec_reach n (s_proj s)" and "wq_flags s" "wq_shape s" "0 < s_xnotify s" "\<not> wq_mCancelled (s_wq s)"
    and e: "EventCount_Notify (s_ec s) False = Some e"
    and t: "t = s\<lparr>s_wq := s_with_ec s e, s_xnotify := s_xnotify s - 1\<rparr>"
  shows "wq_covered t j"
proof (cases "\<exists>i<length (s_pc s). ec_pc_of (s_pc s ! i) \<noteq> Running")
  case True
  then obtain i where "i < length (sys_pc (s_proj s))" "sys_pc (s_proj s) ! i \<noteq> Running" by (auto simp: s_proj_def)
  moreover have "ec_apply (s_proj s) (EvNotify False) = Some (s_proj t)" using e by (simp add: s_proj_def t)
  ultimately have "ec_alerted (s_proj t)" by (intro ec_notify_alerts [OF reach])
  then show ?thesis by (simp add: wq_covered_def)
next
  case False
  have 0: "0 < length (s_pc s)" using assms(3) by (simp add: wq_shape_def)
  then have "pc_flags False False (s_pc s ! 0)" using assms(2,4,5) nth_mem [OF 0] by (auto simp: wq_flags_def)
  moreover have "ec_pc_of (s_pc s ! 0) = Running" using False 0 by blast
  ultimately have "pc_active (s_pc s ! 0) j" by (cases "s_pc s ! 0") (auto split: if_splits)
  then show ?thesis using 0 by (auto simp: wq_covered_def t)
qed

lemma x_decide_covers:
  assumes "wq_spins s" "WorkQueueBase_IsNotifyParkedThreadRequired (s_wq s) = Some (False, w)"
  shows "\<exists>i<length (s_pc s). pc_active (s_pc s ! i) j"
proof -
  obtain N where N: "N \<le> count_list (s_pc s) WSpin" "count_list (s_pc s) WSpin < 2 ^ 32"
      "wq_mSpinningState (s_wq s) = sp_word (count_list (s_pc s) WSpin) N"
    using assms(1) by (auto simp: wq_spins_def wq_spin_def)
  have "N \<noteq> count_list (s_pc s) WSpin" using WorkQueueBase_IsNotify_word [OF N] assms(2) by auto
  then have "count_list (s_pc s) WSpin \<noteq> 0" using N(1) by linarith
  then have "WSpin \<in> set (s_pc s)" by (metis count_list_0_iff)
  then show ?thesis by (metis in_set_conv_nth pc_active.simps(11))
qed

lemma step_pool_ok:
  assumes step: "wq_step d s t" and reach: "ec_reach n (s_proj s)" and shape: "wq_shape s" and bounds: "wq_bounds s"
    and flags: "wq_flags s" and spins: "wq_spins s" and ok: "queues_ok s" and pool: "pool_ok s"
  shows "pool_ok t"
proof -
  have at: "i < length (s_pc s)" if "s_at s i p" for i p using that by (simp add: s_at_def)
  have gone: "pool_ok u" if "wq_mCancelled (s_wq u)" for u using that by (simp add: pool_ok_def)
  have order: "pc_active (WScan (wq_scan_order (s_wq s) rng)) j" "pc_active (WRecheck (wq_scan_order (s_wq s) rng)) j"
    if "j < s_n s" for j rng using that wq_scan_order_all [OF shape, of rng] by simp_all
  from step show ?thesis
  proof cases
    case (next_task i r q)
    show ?thesis unfolding next_task(1) by (rule pool_ok_go [OF at [OF next_task(2)]]) simp
  next
    case (steal i j r q)
    show ?thesis unfolding steal(1) by (rule pool_ok_go [OF at [OF steal(2)]]) simp
  next
    case (spin_steal i j r q)
    show ?thesis unfolding spin_steal(1) by (rule pool_ok_go [OF at [OF spin_steal(2)]]) simp
  next
    case (add_own i skip x r q)
    show ?thesis unfolding add_own(1) by (rule pool_ok_go [OF at [OF add_own(2)]]) simp
  next
    case (decide i b w)
    show ?thesis unfolding decide(1) by (rule pool_ok_go [OF at [OF decide(2)]]) simp
  next
    case (notify i e)
    show ?thesis unfolding notify(1) by (rule pool_ok_go [OF at [OF notify(2)]]) simp
  next
    case (start_spin i b w)
    show ?thesis unfolding start_spin(1) by (rule pool_ok_go [OF at [OF start_spin(2)]]) simp
  next
    case (stop_spin i b w)
    show ?thesis unfolding stop_spin(1) by (rule pool_ok_go [OF at [OF stop_spin(2)]]) simp
  next
    case (prewait i e rng)
    show ?thesis unfolding prewait(1) by (rule pool_ok_go [OF at [OF prewait(2)]]) (simp add: order del: pc_active.simps)
  next
    case (cancel_done i e rng)
    show ?thesis unfolding cancel_done(1) by (rule pool_ok_go [OF at [OF cancel_done(2)]]) (simp add: order del: pc_active.simps)
  next
    case (found i v e)
    show ?thesis unfolding found(1) by (rule pool_ok_go [OF at [OF found(2)]]) simp
  next
    case (take i v r q)
    show ?thesis unfolding take(1) by (rule pool_ok_go [OF at [OF take(2)]]) simp
  next
    case (recheck_found i v vs)
    show ?thesis unfolding recheck_found(1) by (rule pool_ok_go [OF at [OF recheck_found(2)]]) simp
  next
    case (unblock i)
    show ?thesis unfolding unblock(1) by (rule pool_ok_go [OF at [OF unblock(2)]]) simp
  next
    case (scan i v vs e)
    have "v < s_n s" using wq_bounds_at [OF bounds scan(2)] by simp
    then have e: "e = (abs (s_queue s v) = [])" using empty_law [OF queues_ok_at [OF ok]] scan(3) by blast
    show ?thesis
    proof (cases e)
      case True
      show ?thesis unfolding scan(1)
        by (rule pool_ok_quiet [OF pool scan(2)]) (use True e in auto)
    next
      case False
      show ?thesis unfolding scan(1) by (rule pool_ok_go [OF at [OF scan(2)]]) (simp add: False)
    qed
  next
    case (recheck_empty i v vs)
    have "v < s_n s" using wq_bounds_at [OF bounds recheck_empty(2)] by simp
    then have e: "abs (s_queue s v) = []" using empty_law [OF queues_ok_at [OF ok]] recheck_empty(3) by blast
    show ?thesis unfolding recheck_empty(1)
      by (rule pool_ok_quiet [OF pool recheck_empty(2)]) (use e in auto)
  next
    case (block i)
    show ?thesis unfolding block(1) by (rule pool_ok_quiet [OF pool block(2)]) simp_all
  next
    case (check i)
    show ?thesis unfolding check(1) by (rule pool_ok_quiet [OF pool check(2)]) simp_all
  next
    case (terminate i e)
    show ?thesis unfolding terminate(1)
    proof (rule pool_ok_event [OF pool terminate(2)])
      show "ec_alerted (s_proj (s_go s i (WExit True) (s_with_ec s e)))" if "ec_alerted (s_proj s)"
        using notify_alerted [OF reach terminate(3) that] terminate(2)
        by (simp add: s_proj_def s_go_def s_at_def map_update_same)
    qed simp_all
  next
    case (commit i pk e)
    show ?thesis
    proof (cases pk)
      case True
      have ap: "ec_apply (s_proj s) (EvCommit i) = Some (s_proj t)" "ec_enabled (s_proj s) (EvCommit i)" "sys_pc (s_proj t) ! i = Parked"
        using commit True by (simp_all add: s_proj_def s_go_def s_at_def map_update)
      show ?thesis unfolding commit(1)
      proof (rule pool_ok_event [OF pool commit(2)])
        show "ec_alerted (s_proj (s_go s i (if pk then WParked else WWoken) (s_with_ec s e)))" if "ec_alerted (s_proj s)"
          using ec_commit_parked_alerted [OF reach ap(2,1,3) that] by (simp add: commit(1))
      qed simp_all
    next
      case False
      show ?thesis unfolding commit(1) by (rule pool_ok_go [OF at [OF commit(2)]]) (simp add: False)
    qed
  next
    case (park i lv w)
    show ?thesis
    proof (cases lv)
      case True
      show ?thesis unfolding park(1) by (rule pool_ok_go [OF at [OF park(2)]]) (simp add: True)
    next
      case False
      have ap: "ec_apply (s_proj s) (EvPark i) = Some (s_proj t)" "ec_enabled (s_proj s) (EvPark i)" "sys_pc (s_proj t) ! i = Parked"
        using park False by (simp_all add: s_proj_def s_go_def s_at_def map_update)
      show ?thesis unfolding park(1)
      proof (rule pool_ok_event [OF pool park(2)])
        show "ec_alerted (s_proj (s_go s i (if lv then WWoken else WParked)
            (s_with_ec s ((s_ec s)\<lparr>ec_mWaiters := (ec_mWaiters (s_ec s))[i := w]\<rparr>))))" if "ec_alerted (s_proj s)"
          using ec_park_alerted [OF reach ap(2,1,3) that] by (simp add: park(1))
      qed simp_all
    qed
  next
    case (x_add j x r q)
    have law: "mset (abs (s_queue s j)) + {#x#} = answer_mset r + mset (abs q)"
      using push_ext_law [OF queues_ok_at [OF ok x_add(2)] x_add(4)] by blast
    show ?thesis
    proof (cases r)
      case None
      then show ?thesis by (simp add: x_add(1) pool_ok_def wq_covered_def)
    next
      case (Some y)
      then have "size (mset (abs (s_queue s j)) + {#x#}) = size (answer_mset r + mset (abs q))" using law by simp
      then have "length (abs (s_queue s j)) = length (abs q)" using Some by simp
      then have "(abs q = []) = (abs (s_queue s j) = [])" by (metis length_0_conv)
      moreover have "s_proj t = s_proj s" by (simp add: x_add(1) s_proj_def)
      ultimately show ?thesis
        using pool Some x_add(2) by (auto simp: x_add(1) pool_ok_def wq_covered_def nth_list_update)
    qed
  next
    case (x_decide b w)
    note same = wq_same_but_spin_fields [OF wq_ops_frame(1) [OF x_decide(3)]]
    show ?thesis
    proof (cases b)
      case True
      then show ?thesis by (simp add: x_decide(1) pool_ok_def wq_covered_def)
    next
      case False
      then show ?thesis
        using x_decide_covers [OF spins, of w] x_decide(3) by (simp add: x_decide(1) pool_ok_def wq_covered_def)
    qed
  next
    case (x_notify e)
    then show ?thesis
      using x_notify_covers [OF reach flags shape x_notify(2) _ x_notify(3,1)] by (simp add: pool_ok_def)
  next
    case (destroy e)
    have "ec_alerted (s_proj s) \<Longrightarrow> ec_alerted (s_proj t)"
      by (rule notify_alerted [OF reach destroy(6)]) (simp_all add: destroy(1) s_proj_def)
    then show ?thesis using pool by (auto simp: destroy(1) pool_ok_def wq_covered_def)
  next
    case (found_cancelled i v e)
    then show ?thesis by (intro gone) (simp add: s_go_def)
  next
    case (leave i)
    then show ?thesis by (intro gone) (simp add: s_go_def)
  next
    case (destroy_flush j q)
    then show ?thesis by (intro gone) simp
  next
    case (cancel e)
    then show ?thesis by (intro gone) simp
  qed
qed

lemma reach_ok:
  assumes "wq_reach d queue n s" "invar queue" "abs queue = []"
  shows "wq_shape s \<and> wq_bounds s \<and> wq_flags s \<and> wq_spins s \<and> queues_ok s \<and> pool_ok s"
  using assms(1)
proof (induction rule: wq_reach.induct)
  case (wq_reach_start s)
  then obtain ec where n: "1 \<le> n" "EventCount_new n = Some ec" and s: "s = \<lparr>s_wq = \<lparr>wq_mNumThreads = of_nat n,
      wq_mThreadData = replicate n queue, wq_mCoprimes = ComputeCoprimes (of_nat n), wq_mBlocked = 0, wq_mDone = False,
      wq_mCancelled = False, wq_mSpinningState = 0, wq_mEventCount = ec\<rparr>, s_pc = replicate n WRun, s_xdecide = 0, s_xnotify = 0\<rparr>"
    by (auto simp: wq_start_def WorkQueueBase_new_def split: if_splits)
  have "n < 16383" using n(2) by (simp add: EventCount_new_def ec_kCounterBits_def split: if_splits)
  moreover have "count_list (replicate n WRun) WSpin = 0" by (auto simp: count_list_0_iff)
  ultimately show ?case
    using n assms(2,3)
    by (auto simp: s wq_shape_def wq_bounds_def wq_flags_def wq_spins_def wq_spin_def sp_word_def queues_ok_def pool_ok_def)
next
  case (wq_reach_step s t)
  note IH = wq_reach_step.IH
  show ?case
    using wq_step_shape [OF wq_reach_step.hyps(2)] wq_step_bounds [OF wq_reach_step.hyps(2)]
      wq_step_flags [OF wq_reach_step.hyps(2)] wq_step_spins [OF wq_reach_step.hyps(2)]
      step_queues_ok [OF wq_reach_step.hyps(2)]
      step_pool_ok [OF wq_reach_step.hyps(2) wq_reach_proj [OF wq_reach_step.hyps(1)]] IH by blast
qed

text \<open>When every worker sleeps (or has terminated) and no submitter is at work, no task is queued.\<close>

lemma no_task_left:
  assumes reach: "wq_reach d queue n s" and q: "invar queue" "abs queue = []"
    and live: "\<not> wq_mCancelled (s_wq s)" and ext: "s_xdecide s = 0" "s_xnotify s = 0"
    and idle: "\<forall>i<length (s_pc s). s_pc s ! i = WExit True \<or> s_pc s ! i = WParked \<and> ec_asleep (s_proj s) i"
    and j: "j < s_n s"
  shows "abs (s_queue s j) = []"
proof (rule ccontr)
  assume "abs (s_queue s j) \<noteq> []"
  then have "wq_covered s j" using reach_ok [OF reach q] live j by (simp add: pool_ok_def)
  moreover have "\<not> pc_active (s_pc s ! i) j" if "i < length (s_pc s)" for i using idle that by fastforce
  ultimately have al: "ec_alerted (s_proj s)" using ext by (auto simp: wq_covered_def)
  obtain a where a: "ec_sys_rep (s_proj s) a" using ec_reach_rep [OF wq_reach_proj [OF reach]] by blast
  have "Prewaiting \<notin> set (sys_pc (s_proj s))"
  proof
    assume "Prewaiting \<in> set (sys_pc (s_proj s))"
    then obtain i where "i < length (s_pc s)" "ec_pc_of (s_pc s ! i) = Prewaiting"
      by (auto simp: s_proj_def in_set_conv_nth)
    then show False using idle by fastforce
  qed
  then have "eca_pre a = 0" using a by (simp add: ec_sys_rep_def count_list_0_iff)
  then have "ec_signals (s_proj s) = 0" using a by (simp add: ec_signals_rep [OF a] ec_sys_rep_def ec_rep_def)
  then obtain i where i: "i < length (s_pc s)" "ec_pc_of (s_pc s ! i) = Parked"
      "ecw_state (ec_mWaiters (sys_ec (s_proj s)) ! i) = kSignaled"
    using al by (auto simp: ec_alerted_def s_proj_def)
  then show False using idle by (fastforce simp: ec_asleep_def)
qed

end

end
