(* ===== verification/Work_Queues.thy ===== *)
theory Work_Queues
  imports Work_Queue_Base
begin

text \<open>
  The two derived pools, \<^verbatim>\<open>src/async/concurrent/non_blocking_work_queue.h\<close> and
  \<^verbatim>\<open>src/async/concurrent/blocking_work_queue.h\<close>: their queue operations as instances of the contract of
  \<^verbatim>\<open>Work_Queue_Base\<close>, task submission (AddTask, EnqueueBlockingTask) with the quiescing counter, and the
  properties of the pool they inherit.
\<close>

subsection \<open>Quiescing\<close>

text \<open>The counters are atomic \<^verbatim>\<open>int64_t\<close>, which wrap; \<^verbatim>\<open>> 0\<close> is the signed comparison.\<close>

record QuiescingState =
  qs_mNumQuiescing :: u64
  qs_mNumPendingTasks :: u64

definition Quiescing_Start :: "QuiescingState \<Rightarrow> QuiescingState" where
  "Quiescing_Start st = st\<lparr>qs_mNumQuiescing := qs_mNumQuiescing st + 1\<rparr>"

definition Quiescing_destroy :: "QuiescingState \<Rightarrow> QuiescingState" where
  "Quiescing_destroy st = st\<lparr>qs_mNumQuiescing := qs_mNumQuiescing st - 1\<rparr>"

definition Quiescing_HasPendingTasks :: "QuiescingState \<Rightarrow> bool" where
  "Quiescing_HasPendingTasks st = (qs_mNumPendingTasks st \<noteq> 0)"

definition PendingTask_new :: "QuiescingState \<Rightarrow> QuiescingState" where
  "PendingTask_new st = st\<lparr>qs_mNumPendingTasks := qs_mNumPendingTasks st + 1\<rparr>"

definition PendingTask_destroy :: "QuiescingState \<Rightarrow> QuiescingState" where
  "PendingTask_destroy st = st\<lparr>qs_mNumPendingTasks := qs_mNumPendingTasks st - 1\<rparr>"

definition WorkQueueBase_IsQuiescing :: "QuiescingState \<Rightarrow> bool" where
  "WorkQueueBase_IsQuiescing st = (0 <s qs_mNumQuiescing st)"

text \<open>
  A queued task is a pair: whether it carries a PendingTask counter, and the task. The counter is
  released when the task function is destroyed after its execution.
\<close>

type_synonym 'a wtask = "bool \<times> 'a"

definition WithPendingTaskCounter :: "QuiescingState \<Rightarrow> 'a \<Rightarrow> 'a wtask \<times> QuiescingState" where
  "WithPendingTaskCounter st task = ((True, task), PendingTask_new st)"

definition task_done :: "'a wtask \<Rightarrow> QuiescingState \<Rightarrow> QuiescingState" where
  "task_done t st = (if fst t then PendingTask_destroy st else st)"

definition wq_wrap :: "QuiescingState \<Rightarrow> 'a \<Rightarrow> 'a wtask \<times> QuiescingState" where
  "wq_wrap st task = (if WorkQueueBase_IsQuiescing st then WithPendingTaskCounter st task else ((False, task), st))"

subsection \<open>The derived operations\<close>

definition nb_ops :: "('a TaskDeque, 'a) wq_ops" where
  "nb_ops = \<lparr>op_NextTask = NonBlockingWorkQueue_NextTask, op_Steal = NonBlockingWorkQueue_Steal,
     op_Empty = NonBlockingWorkQueue_Empty, op_PushOwn = (\<lambda>q t. Some (TaskDeque_PushFront q t)),
     op_PushExt = (\<lambda>q t. Some (TaskDeque_PushBack q t)), op_Flush = TaskDeque_Flush, op_SkipNotify = True\<rparr>"

definition bl_ops :: "('a TaskQueue, 'a) wq_ops" where
  "bl_ops = \<lparr>op_NextTask = BlockingWorkQueue_NextTask, op_Steal = BlockingWorkQueue_Steal,
     op_Empty = BlockingWorkQueue_Empty, op_PushOwn = TaskQueue_PushFront,
     op_PushExt = TaskQueue_PushFront, op_Flush = TaskQueue_Flush, op_SkipNotify = False\<rparr>"

text \<open>Who submits: worker \<open>i\<close> of the pool, or another thread with its generator state.\<close>

datatype wq_caller = CallerWorker nat | CallerExternal u64

definition wq_notify_after_push :: "bool \<Rightarrow> 'q WorkQueueBase \<Rightarrow> 'q WorkQueueBase option" where
  "wq_notify_after_push skipNotify w =
     (if skipNotify then Some w
      else case WorkQueueBase_IsNotifyParkedThreadRequired w of
        None \<Rightarrow> None
      | Some (False, w1) \<Rightarrow> Some w1
      | Some (True, w1) \<Rightarrow> map_option (\<lambda>e. w1\<lparr>wq_mEventCount := e\<rparr>) (EventCount_Notify (wq_mEventCount w1) False))"

text \<open>AddTask answers with the task the caller has to execute itself because the queue was full.\<close>

definition NonBlockingWorkQueue_AddTask ::
  "wq_caller \<Rightarrow> QuiescingState \<Rightarrow> 'a wtask TaskDeque WorkQueueBase \<Rightarrow> 'a
     \<Rightarrow> ('a wtask option \<times> QuiescingState \<times> 'a wtask TaskDeque WorkQueueBase) option" where
  "NonBlockingWorkQueue_AddTask caller st w task =
     (let (t, st1) = wq_wrap st task; qs = wq_mThreadData w in
      case (case caller of
              CallerWorker i \<Rightarrow> map_option (\<lambda>e. (e, i, TaskDeque_PushFront (qs ! i) t)) (TaskDeque_Empty (qs ! i))
            | CallerExternal rng \<Rightarrow>
                (let j = unat (FastReduce (fst (FastRng_next rng)) (wq_mNumThreads w))
                 in Some (False, j, TaskDeque_PushBack (qs ! j) t))) of
        None \<Rightarrow> None
      | Some (skipNotify, j, inlineTask, q) \<Rightarrow>
          (let w1 = w\<lparr>wq_mThreadData := qs[j := q]\<rparr> in
           case inlineTask of
             Some t1 \<Rightarrow> Some (Some t1, st1, w1)
           | None \<Rightarrow> map_option (\<lambda>w2. (None, st1, w2)) (wq_notify_after_push skipNotify w1)))"

fun bl_push_loop ::
  "u32 \<Rightarrow> u32 \<Rightarrow> nat \<Rightarrow> u32 \<Rightarrow> 'a TaskQueue list \<Rightarrow> 'a \<Rightarrow> ('a option \<times> 'a TaskQueue list) option" where
  "bl_push_loop n inc 0 victim qs t = Some (Some t, qs)"
| "bl_push_loop n inc (Suc k) victim qs t =
     (if unat victim < length qs then
        case TaskQueue_PushFront (qs ! unat victim) t of
          None \<Rightarrow> None
        | Some (None, q) \<Rightarrow> Some (None, qs[unat victim := q])
        | Some (Some t1, q) \<Rightarrow> bl_push_loop n inc k (wq_next_victim n inc victim) (qs[unat victim := q]) t1
      else None)"

text \<open>
  EnqueueBlockingTask: the first component is the task returned to the caller, the second the task
  executed in the caller thread (in quiescing mode).
\<close>

definition BlockingWorkQueue_EnqueueBlockingTask ::
  "wq_caller \<Rightarrow> QuiescingState \<Rightarrow> 'a wtask TaskQueue WorkQueueBase \<Rightarrow> 'a
     \<Rightarrow> ('a wtask option \<times> 'a wtask option \<times> QuiescingState \<times> 'a wtask TaskQueue WorkQueueBase) option" where
  "BlockingWorkQueue_EnqueueBlockingTask caller st w task =
     (let isQuiescing = WorkQueueBase_IsQuiescing st; (t, st1) = wq_wrap st task; qs = wq_mThreadData w in
      case (case caller of
              CallerWorker i \<Rightarrow> map_option (\<lambda>(r, q). (r, qs[i := q])) (TaskQueue_PushFront (qs ! i) t)
            | CallerExternal rng \<Rightarrow>
                (let r = fst (FastRng_next rng); n = wq_mNumThreads w; cs = wq_mCoprimes w
                 in bl_push_loop n (cs ! unat (FastReduce r (of_nat (length cs)))) (unat n) (FastReduce r n) qs t)) of
        None \<Rightarrow> None
      | Some (inlineTask, qs1) \<Rightarrow>
          (let w1 = w\<lparr>wq_mThreadData := qs1\<rparr> in
           case inlineTask of
             Some t1 \<Rightarrow> if isQuiescing then Some (None, Some t1, task_done t1 st1, w1) else Some (Some t1, None, st1, w1)
           | None \<Rightarrow> map_option (\<lambda>w2. (None, None, st1, w2)) (wq_notify_after_push False w1)))"

subsection \<open>The contract of the pool\<close>

interpretation nbq: work_queue_derived nb_ops td_inv td_abs
proof
  fix q q1 :: "'a TaskDeque" and r :: "'a option" and t :: 'a and e :: bool
  assume inv: "td_inv q"
  have law: "td_inv q1 \<and> mset (td_abs q) + call_input c = answer_mset r + mset (td_abs q1)"
    if "td_call q c = Some (r, q1)" for c
    using td.call_refines [OF inv, of c] list_call_conserves that by fastforce
  show "td_inv q1 \<and> mset (td_abs q) = answer_mset r + mset (td_abs q1)" if "op_NextTask nb_ops q = Some (r, q1)"
    using law [of CallPopFront] that by (simp add: nb_ops_def NonBlockingWorkQueue_NextTask_def)
  show "td_inv q1 \<and> mset (td_abs q) = answer_mset r + mset (td_abs q1)" if "op_Steal nb_ops q = Some (r, q1)"
    using law [of CallPopBack] that by (simp add: nb_ops_def NonBlockingWorkQueue_Steal_def)
  show "td_inv q1 \<and> mset (td_abs q) + {#t#} = answer_mset r + mset (td_abs q1)" if "op_PushOwn nb_ops q t = Some (r, q1)"
    using law [of "CallPushFront t"] that by (simp add: nb_ops_def)
  show "td_inv q1 \<and> mset (td_abs q) + {#t#} = answer_mset r + mset (td_abs q1)" if "op_PushExt nb_ops q t = Some (r, q1)"
    using law [of "CallPushBack t"] that by (simp add: nb_ops_def)
  show "e = (td_abs q = [])" if "op_Empty nb_ops q = Some e"
    using nb.empty_exact [OF inv] that by (simp add: nb_ops_def)
  show "td_inv q1" if "op_Flush nb_ops q = Some q1"
    using TaskDeque_Flush_drains [OF td_inv_rep [OF inv]] that td_rep_inv by (auto simp: nb_ops_def)
qed

lemma TaskQueue_PushFront_law:
  assumes "tq_inv q" "TaskQueue_PushFront q t = Some (r, q1)"
  shows "tq_inv q1 \<and> mset (tq_abs q) + {#t#} = answer_mset r + mset (tq_abs q1)"
proof (cases "tq_count q < 1024")
  case True
  then show ?thesis
    using assms by (auto simp: TaskQueue_PushFront_room tq_pushed_inv tq_pushed_abs)
next
  case False
  then have "tq_count q = 1024" using assms(1) by (simp add: tq_inv_def)
  then show ?thesis using assms TaskQueue_PushFront_full [of q t] by (auto split: if_splits)
qed

lemma TaskQueue_PopBack_law:
  assumes "tq_inv q" "TaskQueue_PopBack q = Some (r, q1)"
  shows "tq_inv q1 \<and> mset (tq_abs q) = answer_mset r + mset (tq_abs q1)"
proof (cases "tq_count q = 0")
  case True
  then show ?thesis using assms TaskQueue_PopBack_empty [OF assms(1) True] by (auto split: if_splits)
next
  case False
  then have pos: "0 < tq_count q" by simp
  then have "tq_abs q \<noteq> []" by (simp add: tq_abs_def)
  then show ?thesis
    using assms TaskQueue_PopBack_some [OF assms(1) pos] tq_popped_inv [OF assms(1) pos] tq_popped_abs [OF assms(1) pos]
    by (cases "tq_abs q") auto
qed

interpretation blq: work_queue_derived bl_ops tq_inv tq_abs
proof
  fix q q1 :: "'a TaskQueue" and r :: "'a option" and t :: 'a and e :: bool
  assume inv: "tq_inv q"
  show "tq_inv q1 \<and> mset (tq_abs q) = answer_mset r + mset (tq_abs q1)" if "op_NextTask bl_ops q = Some (r, q1)"
    using TaskQueue_PopBack_law [OF inv] that by (simp add: bl_ops_def BlockingWorkQueue_NextTask_def)
  show "tq_inv q1 \<and> mset (tq_abs q) = answer_mset r + mset (tq_abs q1)" if "op_Steal bl_ops q = Some (r, q1)"
    using TaskQueue_PopBack_law [OF inv] that by (simp add: bl_ops_def BlockingWorkQueue_Steal_def)
  show "tq_inv q1 \<and> mset (tq_abs q) + {#t#} = answer_mset r + mset (tq_abs q1)" if "op_PushOwn bl_ops q t = Some (r, q1)"
    using TaskQueue_PushFront_law [OF inv] that by (simp add: bl_ops_def)
  show "tq_inv q1 \<and> mset (tq_abs q) + {#t#} = answer_mset r + mset (tq_abs q1)" if "op_PushExt bl_ops q t = Some (r, q1)"
    using TaskQueue_PushFront_law [OF inv] that by (simp add: bl_ops_def)
  show "e = (tq_abs q = [])" if "op_Empty bl_ops q = Some e"
    using TaskQueue_Empty_eq [OF inv] that by (simp add: bl_ops_def BlockingWorkQueue_Empty_def)
  show "tq_inv q1" if "op_Flush bl_ops q = Some q1"
    using TaskQueue_Flush_drains [OF inv] that by (auto simp: bl_ops_def)
qed

subsection \<open>Submission runs through the steps of the pool\<close>

lemma wq_reach_notify:
  assumes "wq_reach d queue n s"
  shows "\<exists>e. EventCount_Notify (s_ec s) b = Some e"
proof -
  obtain a where "ec_sys_rep (s_proj s) a" using ec_reach_rep [OF wq_reach_proj [OF assms]] by blast
  then obtain t where "ec_apply (s_proj s) (EvNotify b) = Some t" using ec_step_notify by blast
  then show ?thesis by (auto simp: s_proj_def)
qed

lemma wq_reach_spins: "wq_reach d queue n s \<Longrightarrow> wq_spins s"
proof (induction rule: wq_reach.induct)
  case (wq_reach_start s)
  have "count_list (replicate m WRun) WSpin = 0" for m by (auto simp: count_list_0_iff)
  with wq_reach_start show ?case
    by (auto simp: wq_start_def WorkQueueBase_new_def wq_spins_def wq_spin_def sp_word_def split: if_splits)
next
  case (wq_reach_step s t)
  show ?case by (rule wq_step_spins [OF wq_reach_step.hyps(2) wq_reach_shape [OF wq_reach_step.hyps(1)] wq_reach_step.IH])
qed

lemma wq_reach_IsNotify:
  assumes "wq_reach d queue n s"
  shows "\<exists>b w. WorkQueueBase_IsNotifyParkedThreadRequired (s_wq s) = Some (b, w) \<and> wq_same_but_spin (s_wq s) w"
proof -
  obtain N where N: "N \<le> count_list (s_pc s) WSpin" "count_list (s_pc s) WSpin < 2 ^ 32"
      "wq_mSpinningState (s_wq s) = sp_word (count_list (s_pc s) WSpin) N"
    using wq_reach_spins [OF assms] by (auto simp: wq_spins_def wq_spin_def)
  then obtain b w where "WorkQueueBase_IsNotifyParkedThreadRequired (s_wq s) = Some (b, w)"
    using WorkQueueBase_IsNotify_word [OF N] by (cases "N = count_list (s_pc s) WSpin") auto
  then show ?thesis using wq_ops_frame(1) by blast
qed

text \<open>The notification after a push, by the worker itself or by an external thread.\<close>

lemma wq_notify_worker:
  assumes reach: "wq_reach d queue n (s_go s i WDeciding w)" and i: "s_at s i WRun"
  shows "\<exists>w2. wq_notify_after_push False w = Some w2 \<and> wq_reach d queue n (s_go s i WRun w2) \<and>
    wq_mThreadData w2 = wq_mThreadData w"
proof -
  let ?s = "s_go s i WDeciding w"
  have at: "s_at ?s i WDeciding" using i by (simp add: s_at_def s_go_def)
  obtain b w1 where b: "WorkQueueBase_IsNotifyParkedThreadRequired w = Some (b, w1)" "wq_same_but_spin w w1"
    using wq_reach_IsNotify [OF reach] by (auto simp: s_go_def)
  have step: "wq_reach d queue n (s_go ?s i (if b then WNotifying else WRun) w1)"
    by (rule wq_reach_step [OF reach decide [OF at]]) (simp add: s_go_def b(1))
  show ?thesis
  proof (cases b)
    case False
    have "s_go ?s i WRun w1 = s_go s i WRun w1" by (simp add: s_go_def)
    then show ?thesis
      using step False b wq_same_but_spin_fields(1) [OF b(2)] by (auto simp: wq_notify_after_push_def)
  next
    case True
    let ?s1 = "s_go ?s i WNotifying w1"
    have r1: "wq_reach d queue n ?s1" using step True by simp
    then obtain e where e: "EventCount_Notify (wq_mEventCount w1) False = Some e"
      using wq_reach_notify [OF r1] by (auto simp: s_go_def)
    have at1: "s_at ?s1 i WNotifying" using i by (simp add: s_at_def s_go_def)
    have "wq_reach d queue n (s_go ?s1 i WRun (s_with_ec ?s1 e))"
      by (rule wq_reach_step [OF r1 notify [OF at1]]) (simp add: s_go_def e)
    moreover have "s_go ?s1 i WRun (s_with_ec ?s1 e) = s_go s i WRun (w1\<lparr>wq_mEventCount := e\<rparr>)" by (simp add: s_go_def)
    ultimately show ?thesis
      using True b e wq_same_but_spin_fields(1) [OF b(2)] by (auto simp: wq_notify_after_push_def)
  qed
qed

lemma wq_notify_external:
  assumes reach: "wq_reach d queue n (s\<lparr>s_wq := w, s_xdecide := Suc (s_xdecide s)\<rparr>)"
  shows "\<exists>w2. wq_notify_after_push False w = Some w2 \<and> wq_reach d queue n (s\<lparr>s_wq := w2\<rparr>) \<and>
    wq_mThreadData w2 = wq_mThreadData w"
proof -
  let ?s = "s\<lparr>s_wq := w, s_xdecide := Suc (s_xdecide s)\<rparr>"
  obtain b w1 where b: "WorkQueueBase_IsNotifyParkedThreadRequired w = Some (b, w1)" "wq_same_but_spin w w1"
    using wq_reach_IsNotify [OF reach] by auto
  have "wq_reach d queue n (?s\<lparr>s_wq := w1, s_xdecide := s_xdecide ?s - 1,
      s_xnotify := (if b then Suc (s_xnotify ?s) else s_xnotify ?s)\<rparr>)"
    by (rule wq_reach_step [OF reach x_decide]) (simp_all add: b(1))
  then have step: "wq_reach d queue n (s\<lparr>s_wq := w1, s_xnotify := (if b then Suc (s_xnotify s) else s_xnotify s)\<rparr>)"
    by (cases b) simp_all
  show ?thesis
  proof (cases b)
    case False
    then show ?thesis using step b wq_same_but_spin_fields(1) [OF b(2)] by (auto simp: wq_notify_after_push_def)
  next
    case True
    let ?s1 = "s\<lparr>s_wq := w1, s_xnotify := Suc (s_xnotify s)\<rparr>"
    have r1: "wq_reach d queue n ?s1" using step True by simp
    then obtain e where e: "EventCount_Notify (wq_mEventCount w1) False = Some e"
      using wq_reach_notify [OF r1] by auto
    have "wq_reach d queue n (?s1\<lparr>s_wq := s_with_ec ?s1 e, s_xnotify := s_xnotify ?s1 - 1\<rparr>)"
      by (rule wq_reach_step [OF r1 x_notify]) (simp_all add: e)
    then have "wq_reach d queue n (s\<lparr>s_wq := w1\<lparr>wq_mEventCount := e\<rparr>\<rparr>)" by simp
    then show ?thesis
      using True b e wq_same_but_spin_fields(1) [OF b(2)] by (auto simp: wq_notify_after_push_def)
  qed
qed

lemma td_push_law:
  assumes "td_inv q" "td_call q c = Some (r, q1)"
  shows "td_inv q1 \<and> mset (td_abs q) + call_input c = answer_mset r + mset (td_abs q1)"
  using td.call_refines [OF assms(1), of c] list_call_conserves assms(2) by fastforce

lemma nb_reach_queues:
  assumes "wq_reach nb_ops TaskDeque_new n s" "j < s_n s"
  shows "td_inv (s_queue s j)"
  using nbq.reach_ok [OF assms(1) td_new_inv] assms(2) nbq.queues_ok_at by blast

lemma s_go_run: "s_at s i WRun \<Longrightarrow> s_go s i WRun w = s\<lparr>s_wq := w\<rparr>"
proof -
  assume "s_at s i WRun"
  then have "(s_pc s)[i := WRun] = s_pc s" by (metis list_update_id s_at_def)
  then show ?thesis by (cases s) (simp add: s_go_def)
qed

lemma AddTask_worker:
  assumes reach: "wq_reach nb_ops TaskDeque_new n s" and i: "s_at s i WRun" and wr: "wq_wrap st task = (t, st1)"
  shows "\<exists>r w. NonBlockingWorkQueue_AddTask (CallerWorker i) st (s_wq s) task = Some (r, st1, w) \<and>
    wq_reach nb_ops TaskDeque_new n (s\<lparr>s_wq := w\<rparr>) \<and>
    wq_contents td_abs (wq_mThreadData (s_wq s)) + {#t#} = answer_mset r + wq_contents td_abs (wq_mThreadData w)"
proof -
  have len: "i < s_n s" using wq_reach_shape [OF reach] i by (simp add: wq_shape_def s_at_def)
  have inv: "td_inv (s_queue s i)" by (rule nb_reach_queues [OF reach len])
  obtain r q where q: "TaskDeque_PushFront (s_queue s i) t = (r, q)" by fastforce
  obtain e where e: "TaskDeque_Empty (s_queue s i) = Some e" using nb.empty_exact [OF inv] by (simp add: NonBlockingWorkQueue_Empty_def)
  have law: "mset (td_abs (s_queue s i)) + {#t#} = answer_mset r + mset (td_abs q)"
    using td_push_law [OF inv, of "CallPushFront t" r q] q by simp
  note cont = wq_contents_update [OF len law]
  have step: "wq_reach nb_ops TaskDeque_new n (s_go s i (if r = None \<and> \<not> e then WDeciding else WRun) (s_put s i q))"
    by (rule wq_reach_step [OF reach add_own [OF i, where t = t]])
      (simp_all add: wq_skip_def nb_ops_def NonBlockingWorkQueue_Empty_def e q)
  show ?thesis
  proof (cases "r = None \<and> \<not> e")
    case True
    have "wq_reach nb_ops TaskDeque_new n (s_go s i WDeciding (s_put s i q))" using step True by simp
    from wq_notify_worker [OF this i]
    obtain w2 where w2: "wq_notify_after_push False (s_put s i q) = Some w2" "wq_reach nb_ops TaskDeque_new n (s_go s i WRun w2)"
        "wq_mThreadData w2 = wq_mThreadData (s_put s i q)" by blast
    then show ?thesis
      using True wr q e cont s_go_run [OF i] by (simp add: NonBlockingWorkQueue_AddTask_def)
  next
    case False
    then have "wq_reach nb_ops TaskDeque_new n (s_go s i WRun (s_put s i q))" using step by (simp only: if_False)
    then have "wq_reach nb_ops TaskDeque_new n (s\<lparr>s_wq := s_put s i q\<rparr>)" by (simp only: s_go_run [OF i])
    then show ?thesis
      using False wr q e cont by (cases r) (auto simp: NonBlockingWorkQueue_AddTask_def wq_notify_after_push_def)
  qed
qed

lemma AddTask_external:
  assumes reach: "wq_reach nb_ops TaskDeque_new n s" and live: "\<not> wq_mDone (s_wq s)" and wr: "wq_wrap st task = (t, st1)"
  shows "\<exists>r w. NonBlockingWorkQueue_AddTask (CallerExternal rng) st (s_wq s) task = Some (r, st1, w) \<and>
    wq_reach nb_ops TaskDeque_new n (s\<lparr>s_wq := w\<rparr>) \<and>
    wq_contents td_abs (wq_mThreadData (s_wq s)) + {#t#} = answer_mset r + wq_contents td_abs (wq_mThreadData w)"
proof -
  have shape: "0 < s_n s" "s_n s < 16383" "wq_mNumThreads (s_wq s) = of_nat (s_n s)"
    using wq_reach_shape [OF reach] by (simp_all add: wq_shape_def)
  have un: "unat (wq_mNumThreads (s_wq s)) = s_n s" using shape by (simp add: unat_of_nat)
  obtain j where j: "j = unat (FastReduce (fst (FastRng_next rng)) (wq_mNumThreads (s_wq s)))" by blast
  have len: "j < s_n s"
    using FastReduce_less [of "wq_mNumThreads (s_wq s)"] shape(1) by (simp add: j un word_less_nat_alt)
  have inv: "td_inv (s_queue s j)" by (rule nb_reach_queues [OF reach len])
  obtain r q where q: "TaskDeque_PushBack (s_queue s j) t = (r, q)" by fastforce
  have law: "mset (td_abs (s_queue s j)) + {#t#} = answer_mset r + mset (td_abs q)"
    using td_push_law [OF inv, of "CallPushBack t" r q] q by simp
  note cont = wq_contents_update [OF len law]
  have step: "wq_reach nb_ops TaskDeque_new n
      (s\<lparr>s_wq := s_put s j q, s_xdecide := (if r = None then Suc (s_xdecide s) else s_xdecide s)\<rparr>)"
    by (rule wq_reach_step [OF reach x_add [OF len, where t = t]]) (simp_all add: live nb_ops_def q)
  show ?thesis
  proof (cases r)
    case None
    have "wq_reach nb_ops TaskDeque_new n (s\<lparr>s_wq := s_put s j q, s_xdecide := Suc (s_xdecide s)\<rparr>)" using step None by simp
    from wq_notify_external [OF this]
    obtain w2 where w2: "wq_notify_after_push False (s_put s j q) = Some w2" "wq_reach nb_ops TaskDeque_new n (s\<lparr>s_wq := w2\<rparr>)"
        "wq_mThreadData w2 = wq_mThreadData (s_put s j q)" by blast
    then show ?thesis
      using None wr q cont by (simp add: NonBlockingWorkQueue_AddTask_def Let_def j [symmetric])
  next
    case (Some t1)
    then show ?thesis
      using step wr q cont by (auto simp: NonBlockingWorkQueue_AddTask_def Let_def j [symmetric])
  qed
qed

subsection \<open>A concrete run\<close>

text \<open>A pool of one thread that finds nothing to do and parks.\<close>

definition demo_wq :: "'q \<Rightarrow> u32 \<Rightarrow> EventCount \<Rightarrow> 'q WorkQueueBase" where
  "demo_wq queue blocked ec = \<lparr>wq_mNumThreads = 1, wq_mThreadData = [queue], wq_mCoprimes = ComputeCoprimes 1,
     wq_mBlocked = blocked, wq_mDone = False, wq_mCancelled = False, wq_mSpinningState = 0, wq_mEventCount = ec\<rparr>"

definition demo_ec :: "u64 \<Rightarrow> u64 \<Rightarrow> u64 \<Rightarrow> EventCount" where
  "demo_ec state nx epoch = \<lparr>ec_mState = state, ec_mWaiters = [\<lparr>ecw_next = nx, ecw_epoch = epoch, ecw_state = kNotSignaled\<rparr>]\<rparr>"

definition demo_sys :: "'q \<Rightarrow> u32 \<Rightarrow> EventCount \<Rightarrow> worker_pc \<Rightarrow> 'q wq_sys" where
  "demo_sys queue blocked ec p = \<lparr>s_wq = demo_wq queue blocked ec, s_pc = [p], s_xdecide = 0, s_xnotify = 0\<rparr>"

definition demo_start :: "'q \<Rightarrow> 'q wq_sys" where "demo_start queue = demo_sys queue 0 (demo_ec 0x3FFF 0 0) WRun"
definition demo_parked :: "'q \<Rightarrow> 'q wq_sys" where "demo_parked queue = demo_sys queue 1 (demo_ec 0 0x3FFF 0x40000000000) WParked"

lemmas demo_defs = demo_sys_def demo_wq_def demo_ec_def s_at_def s_go_def

lemma demo_start_reach: "wq_reach d queue 1 (demo_start queue)"
  by (rule wq_reach_start)
    (simp add: wq_start_def WorkQueueBase_new_def EventCount_new_def demo_start_def demo_defs ec_layout)

lemma demo_scan_order: "wq_scan_order (demo_wq queue b ec) 0 = [0]"
  by (simp add: wq_scan_order_def demo_wq_def FastRng_next_def FastReduce_def)

lemma demo_parked_reach:
  assumes "op_Empty d queue = Some True" "wq_reach d queue0 1 (demo_start queue)"
  shows "wq_reach d queue0 1 (demo_parked queue)"
proof -
  have "EventCount_Prewait (demo_ec 0x3FFF 0 0) = Some (demo_ec 0x7FFF 0 0)"
    by (simp add: EventCount_Prewait_def EventCount_CheckState_def Let_def demo_ec_def ec_layout)
  then have "wq_step d (demo_start queue) (demo_sys queue 0 (demo_ec 0x7FFF 0 0) (WScan [0]))"
    using prewait [of "demo_start queue" 0 "demo_ec 0x7FFF 0 0" d 0] demo_scan_order [of queue 0 "demo_ec 0x3FFF 0 0"]
    by (simp add: demo_start_def demo_sys_def s_at_def s_go_def) (simp add: demo_wq_def)
  then have r1: "wq_reach d queue0 1 (demo_sys queue 0 (demo_ec 0x7FFF 0 0) (WScan [0]))"
    by (rule wq_reach_step [OF assms(2)])
  have "wq_step d (demo_sys queue 0 (demo_ec 0x7FFF 0 0) (WScan [0])) (demo_sys queue 0 (demo_ec 0x7FFF 0 0) (WScan []))"
    using scan [of "demo_sys queue 0 (demo_ec 0x7FFF 0 0) (WScan [0])" 0 0 "[]" d True] assms(1)
    by (simp add: demo_sys_def demo_wq_def s_at_def s_go_def)
  then have r2: "wq_reach d queue0 1 (demo_sys queue 0 (demo_ec 0x7FFF 0 0) (WScan []))" by (rule wq_reach_step [OF r1])
  have "wq_step d (demo_sys queue 0 (demo_ec 0x7FFF 0 0) (WScan [])) (demo_sys queue 1 (demo_ec 0x7FFF 0 0) WBlocked)"
    using block [of "demo_sys queue 0 (demo_ec 0x7FFF 0 0) (WScan [])" 0 d]
    by (simp add: demo_sys_def demo_wq_def s_at_def s_go_def)
  then have r3: "wq_reach d queue0 1 (demo_sys queue 1 (demo_ec 0x7FFF 0 0) WBlocked)" by (rule wq_reach_step [OF r2])
  have "wq_step d (demo_sys queue 1 (demo_ec 0x7FFF 0 0) WBlocked) (demo_sys queue 1 (demo_ec 0x7FFF 0 0) WCommit)"
    using check [of "demo_sys queue 1 (demo_ec 0x7FFF 0 0) WBlocked" 0 d]
    by (simp add: demo_sys_def demo_wq_def s_at_def s_go_def)
  then have r4: "wq_reach d queue0 1 (demo_sys queue 1 (demo_ec 0x7FFF 0 0) WCommit)" by (rule wq_reach_step [OF r3])
  have "EventCount_CommitWait (demo_ec 0x7FFF 0 0) 0 = Some (True, demo_ec 0 0x3FFF 0x40000000000)"
    by (simp add: EventCount_CommitWait_def EventCount_CheckState_def Let_def demo_ec_def ec_layout)
  then have "wq_step d (demo_sys queue 1 (demo_ec 0x7FFF 0 0) WCommit) (demo_parked queue)"
    using commit [of "demo_sys queue 1 (demo_ec 0x7FFF 0 0) WCommit" 0 True "demo_ec 0 0x3FFF 0x40000000000" d]
    by (simp add: demo_parked_def demo_sys_def demo_wq_def s_at_def s_go_def)
  then show ?thesis by (rule wq_reach_step [OF r4])
qed

lemma demo_parked_asleep: "ec_asleep (s_proj (demo_parked queue)) 0"
  by (simp add: ec_asleep_def s_proj_def demo_parked_def demo_defs)

lemma demo_parked_nb: "wq_reach nb_ops TaskDeque_new 1 (demo_parked TaskDeque_new)"
  using nb.empty_exact [OF td_new_inv(1)] by (intro demo_parked_reach demo_start_reach) (simp add: nb_ops_def td_new_inv(2))

lemma demo_parked_bl: "wq_reach bl_ops TaskQueue_new 1 (demo_parked TaskQueue_new)"
  using TaskQueue_Empty_eq [OF tq_inv_new] by (intro demo_parked_reach demo_start_reach) (simp add: bl_ops_def BlockingWorkQueue_Empty_def)

text \<open>A task goes through the deque of the worker before it parks.\<close>

lemma demo_task_done:
  "\<exists>q1 q2. TaskDeque_PushFront TaskDeque_new (7 :: nat) = (None, q1) \<and> TaskDeque_PopFront q1 = (Some 7, q2) \<and>
     wq_reach nb_ops TaskDeque_new 1 (demo_parked q2)"
proof -
  obtain q1 q2 where q: "TaskDeque_PushFront TaskDeque_new (7 :: nat) = (None, q1)" "TaskDeque_PopFront q1 = (Some 7, q2)"
      "td_inv q2" "td_abs q2 = []"
    using td.run_refines [OF td_new_inv(1), of "[CallPushFront (7 :: nat), CallPopFront]"]
    by (auto simp: td_new_inv(2) fifo_push_def lifo_pop_def split: prod.splits)
  have "op_Empty nb_ops (TaskDeque_new :: nat TaskDeque) = Some True" "op_Empty nb_ops q2 = Some True"
    using nb.empty_exact [OF td_new_inv(1)] nb.empty_exact [OF q(3)] q(4) by (simp_all add: nb_ops_def td_new_inv(2))
  moreover from this have "wq_step nb_ops (demo_start TaskDeque_new) (demo_start q1)"
    using add_own [of "demo_start TaskDeque_new" 0 nb_ops True 7 None q1] q(1)
    by (simp add: demo_start_def demo_defs wq_skip_def nb_ops_def)
  moreover have "wq_step nb_ops (demo_start q1) (demo_start q2)"
    using next_task [of "demo_start q1" 0 nb_ops "Some 7" q2] q(2)
    by (simp add: demo_start_def demo_defs nb_ops_def NonBlockingWorkQueue_NextTask_def)
  ultimately have "wq_reach nb_ops TaskDeque_new 1 (demo_parked q2)"
    by (intro demo_parked_reach wq_reach_step [OF wq_reach_step [OF demo_start_reach]])
  then show ?thesis using q by blast
qed

subsection \<open>Properties\<close>

text \<open>
  C8. Blocking of the non-blocking pool never strands work: in every state reached
  by any interleaving of workers, spinning, external and internal submissions and shutdown of a
  pool of at most 16382 threads that was not cancelled, if every worker sleeps without a pending
  signal or has terminated, and no external submitter is between its push and its notification,
  then every per-thread deque is empty.
\<close>

theorem NonBlocking_no_task_left_behind:
  assumes "wq_reach nb_ops TaskDeque_new n s" "\<not> wq_mCancelled (s_wq s)" "s_xdecide s = 0" "s_xnotify s = 0"
    and "\<forall>i<length (s_pc s). s_pc s ! i = WExit True \<or> s_pc s ! i = WParked \<and> ec_asleep (s_proj s) i"
    and "q \<in> set (wq_mThreadData (s_wq s))"
  shows "td_abs q = []"
  using nbq.no_task_left [OF assms(1) td_new_inv assms(2-5)] assms(6) by (auto simp: in_set_conv_nth)

text \<open>A worker submits a task to its own deque, takes it out again, finds nothing more and parks.\<close>

theorem NonBlocking_no_task_left_behind_witness:
  "\<exists>q1 q2. TaskDeque_PushFront TaskDeque_new (7 :: nat) = (None, q1) \<and> TaskDeque_PopFront q1 = (Some 7, q2) \<and>
     wq_reach nb_ops TaskDeque_new 1 (demo_parked q2) \<and> s_pc (demo_parked q2) = [WParked] \<and>
     (\<forall>q\<in>set (wq_mThreadData (s_wq (demo_parked q2))). td_abs q = [])"
proof -
  obtain q1 q2 where q: "TaskDeque_PushFront TaskDeque_new (7 :: nat) = (None, q1)" "TaskDeque_PopFront q1 = (Some 7, q2)"
      "wq_reach nb_ops TaskDeque_new 1 (demo_parked q2)" using demo_task_done by blast
  have "td_abs q = []" if "q \<in> set (wq_mThreadData (s_wq (demo_parked q2)))" for q
    by (rule NonBlocking_no_task_left_behind [OF q(3) _ _ _ _ that])
      (use demo_parked_asleep in \<open>simp_all add: demo_parked_def demo_sys_def demo_wq_def\<close>)
  then show ?thesis using q by (auto simp: demo_parked_def demo_sys_def)
qed

text \<open>
  The same for the static threads of the blocking pool, whose
  workers serve TaskQueues.
\<close>

theorem Blocking_no_task_left_behind:
  assumes "wq_reach bl_ops TaskQueue_new n s" "\<not> wq_mCancelled (s_wq s)" "s_xdecide s = 0" "s_xnotify s = 0"
    and "\<forall>i<length (s_pc s). s_pc s ! i = WExit True \<or> s_pc s ! i = WParked \<and> ec_asleep (s_proj s) i"
    and "q \<in> set (wq_mThreadData (s_wq s))"
  shows "tq_abs q = []"
  using blq.no_task_left [OF assms(1) tq_inv_new tq_abs_new assms(2-5)] assms(6) by (auto simp: in_set_conv_nth)

theorem Blocking_no_task_left_behind_witness:
  "tq_abs (TaskQueue_new :: nat TaskQueue) = []"
  by (rule Blocking_no_task_left_behind [OF demo_parked_bl])
    (use demo_parked_asleep in \<open>simp_all add: demo_parked_def demo_sys_def demo_wq_def\<close>)

text \<open>
  The counter mBlocked is exact in every reachable state: AllBlocked holds exactly
  when every worker has counted itself as blocked (it is about to commit or to terminate, parked, woken
  but not yet resumed, or terminated).
\<close>

theorem WorkQueue_AllBlocked_exact:
  assumes "wq_reach d queue n s"
  shows "WorkQueueBase_AllBlocked (s_wq s) \<longleftrightarrow> (\<forall>p\<in>set (s_pc s). pc_blocked p)"
  by (rule wq_AllBlocked_iff [OF assms])

theorem WorkQueue_AllBlocked_exact_witness:
  "WorkQueueBase_AllBlocked (s_wq (demo_parked (TaskDeque_new :: nat TaskDeque)))"
  by (rule WorkQueue_AllBlocked_exact [OF demo_parked_nb, THEN iffD2]) (simp add: demo_parked_def demo_sys_def)

text \<open>
  The packed spinning state decodes without a failed assert in every reachable state:
  its low half is the number of workers in the spin loop, and tasks submitted without notification never
  outnumber them, so every skipped notification has a spinning worker that will look for the task.
\<close>

theorem WorkQueue_spinning_exact:
  assumes "wq_reach d queue n s"
  shows "\<exists>st. SpinningState_Decode (wq_mSpinningState (s_wq s)) = Some st \<and>
    unat (ss_mNumSpinning st) = count_list (s_pc s) WSpin \<and>
    unat (ss_mNumNoNotification st) \<le> count_list (s_pc s) WSpin"
proof -
  obtain N where N: "N \<le> count_list (s_pc s) WSpin" "count_list (s_pc s) WSpin < 2 ^ 32"
      "wq_mSpinningState (s_wq s) = sp_word (count_list (s_pc s) WSpin) N"
    using wq_reach_spins [OF assms] by (auto simp: wq_spins_def wq_spin_def)
  then show ?thesis by (simp add: SpinningState_Decode_word unat_of_nat)
qed

theorem WorkQueue_spinning_exact_witness:
  "\<exists>st. SpinningState_Decode (wq_mSpinningState (s_wq (demo_parked (TaskDeque_new :: nat TaskDeque)))) = Some st \<and>
     unat (ss_mNumSpinning st) = 0"
  using WorkQueue_spinning_exact [where s = "demo_parked (TaskDeque_new :: nat TaskDeque)", OF demo_parked_nb]
  by (auto simp: demo_parked_def demo_sys_def)

text \<open>
  C9. AddTask returns without a failed assert, whoever calls it. It hands the
  task to exactly one deque or back to the caller for inline execution, and the pool after the call is
  a reachable state of the pool: the sequential AddTask is one of the interleavings.
\<close>

theorem NonBlocking_AddTask_reaches:
  assumes "wq_reach nb_ops TaskDeque_new n s" "wq_wrap st task = (t, st1)"
    "case caller of CallerWorker i \<Rightarrow> s_at s i WRun | CallerExternal rng \<Rightarrow> \<not> wq_mDone (s_wq s)"
  shows "\<exists>r w. NonBlockingWorkQueue_AddTask caller st (s_wq s) task = Some (r, st1, w) \<and>
    wq_reach nb_ops TaskDeque_new n (s\<lparr>s_wq := w\<rparr>) \<and>
    wq_contents td_abs (wq_mThreadData (s_wq s)) + {#t#} = answer_mset r + wq_contents td_abs (wq_mThreadData w)"
  using assms AddTask_worker [OF assms(1) _ assms(2)] AddTask_external [OF assms(1) _ assms(2)]
  by (cases caller) simp_all

theorem NonBlocking_AddTask_reaches_witness:
  "\<exists>r w. NonBlockingWorkQueue_AddTask (CallerWorker 0) \<lparr>qs_mNumQuiescing = 0, qs_mNumPendingTasks = 0\<rparr>
       (s_wq (demo_start TaskDeque_new)) (7::nat) = Some (r, \<lparr>qs_mNumQuiescing = 0, qs_mNumPendingTasks = 0\<rparr>, w) \<and>
     {#(False, 7)#} = answer_mset r + wq_contents td_abs (wq_mThreadData w)"
proof -
  let ?st = "\<lparr>qs_mNumQuiescing = 0, qs_mNumPendingTasks = 0\<rparr>"
  have "wq_wrap ?st (7::nat) = ((False, 7), ?st)" by (simp add: wq_wrap_def WorkQueueBase_IsQuiescing_def)
  moreover have "case CallerWorker 0 of CallerWorker i \<Rightarrow> s_at (demo_start (TaskDeque_new :: nat wtask TaskDeque)) i WRun
      | CallerExternal rng \<Rightarrow> \<not> wq_mDone (s_wq (demo_start (TaskDeque_new :: nat wtask TaskDeque)))"
    by (simp add: demo_start_def demo_sys_def s_at_def)
  moreover have "wq_contents td_abs (wq_mThreadData (s_wq (demo_start (TaskDeque_new :: nat wtask TaskDeque)))) = {#}"
    by (simp add: demo_start_def demo_sys_def demo_wq_def wq_contents_def td_new_inv(2))
  ultimately show ?thesis
    using NonBlocking_AddTask_reaches [OF demo_start_reach, of ?st "7::nat" "(False, 7)" ?st "CallerWorker 0"] by auto
qed

end
