(* ===== verification/Dynamic_Threads.thy ===== *)
theory Dynamic_Threads
  imports Work_Queues
begin

text \<open>
  The dynamic threads of \<^verbatim>\<open>src/async/concurrent/blocking_work_queue.h\<close>: BlockingWorkQueue::RunBlockingTask,
  WaitNextTask, the loop of a dynamic thread and the second half of Quiesce. All of it runs under
  mMutex, so one critical section is one step; a thread releases the mutex while it executes a task and
  while it waits on mWakeDoWorkCV. A thread that waits there may leave when the predicate holds or, at any time,
  because its timeout has passed. Any number of threads may call Quiesce at the same time; they wait on
  mThreadExitedCV, where \<^verbatim>\<open>notify_one\<close> wakes one of them and a spurious wake-up is possible at any time.
\<close>

subsection \<open>State\<close>

text \<open>
  A dynamic thread executes a task, has finished one and is about to take the mutex, waits for the next
  task, or has exited. Threads are numbered in the order they are started. A call of Quiesce sleeps in
  \<^verbatim>\<open>mThreadExitedCV.wait\<close>, was woken and is about to test the predicate of the wait, or has returned; calls are
  numbered in the order they are made.
\<close>

datatype quiesce_pc = QAsleep | QAwake | QReturned

datatype 'a dt_pc = DRunning "'a wtask" | DFinished | DWaiting | DExited

record 'a dynamic_threads =
  dt_mMaxNumDynamicThreads :: nat
  dt_mNumDynamicThreads :: nat
  dt_mNumIdleDynamicThreads :: nat
  dt_mIdleTaskQueue :: "'a wtask list"
  dt_mDynamicThreads :: "(nat \<times> bool) list"
  dt_mStopWaiting :: bool
  dt_threads :: "'a dt_pc list"
  dt_quiesces :: "quiesce_pc list"

definition dt_new :: "nat \<Rightarrow> 'a dynamic_threads" where
  "dt_new maxNumDynamicThreads = \<lparr>dt_mMaxNumDynamicThreads = maxNumDynamicThreads, dt_mNumDynamicThreads = 0,
     dt_mNumIdleDynamicThreads = 0, dt_mIdleTaskQueue = [], dt_mDynamicThreads = [], dt_mStopWaiting = False, dt_threads = [], dt_quiesces = []\<rparr>"

subsection \<open>Operations\<close>

text \<open>RunBlockingTask answers with the task it could not place.\<close>

definition RunBlockingTask ::
  "QuiescingState \<Rightarrow> 'a dynamic_threads \<Rightarrow> 'a \<Rightarrow> 'a option \<times> QuiescingState \<times> 'a dynamic_threads" where
  "RunBlockingTask st d task =
     (if length (dt_mIdleTaskQueue d) < dt_mNumIdleDynamicThreads d then
        let (t, st1) = wq_wrap st task in
        (None, st1, d\<lparr>dt_mIdleTaskQueue := dt_mIdleTaskQueue d @ [t]\<rparr>)
      else
        let d1 = d\<lparr>dt_mDynamicThreads := filter snd (dt_mDynamicThreads d)\<rparr> in
        if dt_mNumDynamicThreads d1 < dt_mMaxNumDynamicThreads d1 then
          let (t, st1) = wq_wrap st task in
          (None, st1,
           d1\<lparr>dt_mDynamicThreads := dt_mDynamicThreads d1 @ [(length (dt_threads d1), True)],
              dt_mNumDynamicThreads := dt_mNumDynamicThreads d1 + 1,
              dt_threads := dt_threads d1 @ [DRunning t]\<rparr>)
        else (Some task, st, d1))"

text \<open>\<^verbatim>\<open>mThreadExitedCV.notify_one()\<close> when the condition variable picks the call \<open>k\<close>: some sleeping call, if there is one.\<close>

definition cv_pick :: "quiesce_pc list \<Rightarrow> nat \<Rightarrow> bool" where
  "cv_pick ps k \<longleftrightarrow> (QAsleep \<in> set ps \<longrightarrow> k < length ps \<and> ps ! k = QAsleep)"

definition ThreadExited_notify_one :: "nat \<Rightarrow> quiesce_pc list \<Rightarrow> quiesce_pc list" where
  "ThreadExited_notify_one k ps = (if k < length ps \<and> ps ! k = QAsleep then ps[k := QAwake] else ps)"

text \<open>
  The end of WaitNextTask, after the idle counter went down, and what the loop of thread \<open>i\<close> does with
  its answer: it executes the task or exits; \<open>k\<close> is the call of Quiesce that an exit would wake.
\<close>

definition dt_take :: "nat \<Rightarrow> nat \<Rightarrow> 'a dynamic_threads \<Rightarrow> 'a dynamic_threads" where
  "dt_take i k d =
     (case dt_mIdleTaskQueue d of
        t # rest \<Rightarrow> d\<lparr>dt_mIdleTaskQueue := rest, dt_threads := (dt_threads d)[i := DRunning t]\<rparr>
      | [] \<Rightarrow> d\<lparr>dt_mDynamicThreads := map (\<lambda>(k, b). (k, b \<and> k \<noteq> i)) (dt_mDynamicThreads d),
                dt_mNumDynamicThreads := dt_mNumDynamicThreads d - 1,
                dt_threads := (dt_threads d)[i := DExited],
                dt_quiesces := (if dt_mStopWaiting d then ThreadExited_notify_one k (dt_quiesces d) else dt_quiesces d)\<rparr>)"

text \<open>WaitNextTask up to the wait: the predicate is tested before the thread blocks.\<close>

definition WaitNextTask_enter :: "nat \<Rightarrow> nat \<Rightarrow> 'a dynamic_threads \<Rightarrow> 'a dynamic_threads" where
  "WaitNextTask_enter i k d =
     (if dt_mIdleTaskQueue d \<noteq> [] \<or> dt_mStopWaiting d then dt_take i k d
      else d\<lparr>dt_mNumIdleDynamicThreads := dt_mNumIdleDynamicThreads d + 1, dt_threads := (dt_threads d)[i := DWaiting]\<rparr>)"

definition WaitNextTask_leave :: "nat \<Rightarrow> nat \<Rightarrow> 'a dynamic_threads \<Rightarrow> 'a dynamic_threads" where
  "WaitNextTask_leave i k d = dt_take i k (d\<lparr>dt_mNumIdleDynamicThreads := dt_mNumIdleDynamicThreads d - 1\<rparr>)"

text \<open>The predicate of \<^verbatim>\<open>mThreadExitedCV.wait\<close>, tested by call \<open>k\<close> of Quiesce: it sleeps (again), or the wait is over and
  Quiesce returns; \<open>None\<close> is its assert failing.\<close>

definition Quiesce_wait :: "nat \<Rightarrow> 'a dynamic_threads \<Rightarrow> 'a dynamic_threads option" where
  "Quiesce_wait k d =
     (if dt_mNumDynamicThreads d \<noteq> 0 then Some (d\<lparr>dt_quiesces := (dt_quiesces d)[k := QAsleep]\<rparr>)
      else if dt_mIdleTaskQueue d = [] then Some (d\<lparr>dt_mStopWaiting := False, dt_quiesces := (dt_quiesces d)[k := QReturned]\<rparr>)
      else None)"

definition Quiesce_begin :: "'a dynamic_threads \<Rightarrow> 'a dynamic_threads option" where
  "Quiesce_begin d = Quiesce_wait (length (dt_quiesces d)) (d\<lparr>dt_mStopWaiting := True, dt_quiesces := dt_quiesces d @ [QAwake]\<rparr>)"

subsection \<open>Interleavings\<close>

text \<open>
  The whole system, with the tasks submitted, handed back to their callers and completed so far. The
  quiescing state is shared with the other queues, so quiescing may start and end at any time.
\<close>

record 'a dt_sys =
  ds_d :: "'a dynamic_threads"
  ds_q :: QuiescingState
  ds_submitted :: "'a multiset"
  ds_returned :: "'a multiset"
  ds_completed :: "'a multiset"

definition ds_at :: "'a dt_sys \<Rightarrow> nat \<Rightarrow> 'a dt_pc \<Rightarrow> bool" where
  "ds_at s i p \<longleftrightarrow> i < length (dt_threads (ds_d s)) \<and> dt_threads (ds_d s) ! i = p"

text \<open>The steps of the dynamic threads and of the calls of Quiesce in progress.\<close>

inductive dt_thread :: "'a dt_sys \<Rightarrow> 'a dt_sys \<Rightarrow> bool" where
  dt_finish: "ds_at s i (DRunning t) \<Longrightarrow>
    dt_thread s (s\<lparr>ds_d := (ds_d s)\<lparr>dt_threads := (dt_threads (ds_d s))[i := DFinished]\<rparr>, ds_q := task_done t (ds_q s),
                 ds_completed := add_mset (snd t) (ds_completed s)\<rparr>)"
| dt_enter: "ds_at s i DFinished \<Longrightarrow> cv_pick (dt_quiesces (ds_d s)) k \<Longrightarrow> dt_thread s (s\<lparr>ds_d := WaitNextTask_enter i k (ds_d s)\<rparr>)"
| dt_leave: "ds_at s i DWaiting \<Longrightarrow> cv_pick (dt_quiesces (ds_d s)) k \<Longrightarrow> dt_thread s (s\<lparr>ds_d := WaitNextTask_leave i k (ds_d s)\<rparr>)"
| dt_quiesced: "k < length (dt_quiesces (ds_d s)) \<Longrightarrow> dt_quiesces (ds_d s) ! k = QAwake \<Longrightarrow> Quiesce_wait k (ds_d s) = Some d \<Longrightarrow>
    dt_thread s (s\<lparr>ds_d := d\<rparr>)"

inductive dt_step :: "'a dt_sys \<Rightarrow> 'a dt_sys \<Rightarrow> bool" where
  dt_submit: "RunBlockingTask (ds_q s) (ds_d s) x = (r, q, d) \<Longrightarrow>
    dt_step s (s\<lparr>ds_d := d, ds_q := q, ds_submitted := add_mset x (ds_submitted s),
                 ds_returned := ds_returned s + answer_mset r\<rparr>)"
| dt_by_thread: "dt_thread s t \<Longrightarrow> dt_step s t"
| dt_quiescing: "q = Quiescing_Start (ds_q s) \<or> q = Quiescing_destroy (ds_q s) \<Longrightarrow> dt_step s (s\<lparr>ds_q := q\<rparr>)"
| dt_quiesce: "Quiesce_begin (ds_d s) = Some d \<Longrightarrow> dt_step s (s\<lparr>ds_d := d\<rparr>)"
| dt_spurious: "k < length (dt_quiesces (ds_d s)) \<Longrightarrow> dt_quiesces (ds_d s) ! k = QAsleep \<Longrightarrow>
    dt_step s (s\<lparr>ds_d := (ds_d s)\<lparr>dt_quiesces := (dt_quiesces (ds_d s))[k := QAwake]\<rparr>\<rparr>)"

inductive dt_reach :: "nat \<Rightarrow> QuiescingState \<Rightarrow> 'a dt_sys \<Rightarrow> bool" for m q0 where
  dt_start: "dt_reach m q0 \<lparr>ds_d = dt_new m, ds_q = q0, ds_submitted = {#}, ds_returned = {#}, ds_completed = {#}\<rparr>"
| dt_more: "dt_reach m q0 s \<Longrightarrow> dt_step s t \<Longrightarrow> dt_reach m q0 t"

subsection \<open>Invariant\<close>

definition pc_alive :: "'a dt_pc \<Rightarrow> nat" where "pc_alive p = (if p = DExited then 0 else 1)"
definition pc_waiting :: "'a dt_pc \<Rightarrow> nat" where "pc_waiting p = (if p = DWaiting then 1 else 0)"

fun pc_tasks :: "'a dt_pc \<Rightarrow> 'a wtask multiset" where
  "pc_tasks (DRunning t) = {#t#}"
| "pc_tasks _ = {#}"

definition dt_total :: "('a dt_pc \<Rightarrow> 'b::comm_monoid_add) \<Rightarrow> 'a dynamic_threads \<Rightarrow> 'b" where
  "dt_total f d = sum_list (map f (dt_threads d))"

text \<open>The tasks that are executed or wait for an idle thread.\<close>

definition dt_held :: "'a dynamic_threads \<Rightarrow> 'a wtask multiset" where
  "dt_held d = dt_total pc_tasks d + mset (dt_mIdleTaskQueue d)"

text \<open>The entries of mDynamicThreads: at most one per thread, and the active ones are the live threads.\<close>

definition dt_entries :: "'a dynamic_threads \<Rightarrow> bool" where
  "dt_entries d \<longleftrightarrow> distinct (map fst (dt_mDynamicThreads d)) \<and> (\<forall>(k, b)\<in>set (dt_mDynamicThreads d). k < length (dt_threads d)) \<and>
     (\<forall>k. (k, True) \<in> set (dt_mDynamicThreads d) \<longleftrightarrow> k < length (dt_threads d) \<and> dt_threads d ! k \<noteq> DExited)"

definition dt_counts :: "'a dynamic_threads \<Rightarrow> bool" where
  "dt_counts d \<longleftrightarrow> dt_mNumDynamicThreads d = dt_total pc_alive d \<and> dt_mNumIdleDynamicThreads d = dt_total pc_waiting d \<and>
     length (dt_mIdleTaskQueue d) \<le> dt_mNumIdleDynamicThreads d \<and> dt_mNumDynamicThreads d \<le> dt_mMaxNumDynamicThreads d"

definition dt_inv :: "nat \<Rightarrow> QuiescingState \<Rightarrow> 'a dt_sys \<Rightarrow> bool" where
  "dt_inv m q0 s \<longleftrightarrow> dt_entries (ds_d s) \<and> dt_counts (ds_d s) \<and> dt_mMaxNumDynamicThreads (ds_d s) = m \<and>
     ds_submitted s = ds_returned s + ds_completed s + image_mset snd (dt_held (ds_d s)) \<and>
     qs_mNumPendingTasks (ds_q s) = qs_mNumPendingTasks q0 + of_nat (size (filter_mset fst (dt_held (ds_d s))))"

lemma dt_total_move:
  assumes "i < length (dt_threads d)" "dt_threads d' = (dt_threads d)[i := p]"
  shows "dt_total f d' + f (dt_threads d ! i) = dt_total f d + f p"
  using sum_list_map_update [OF assms(1), of f p] assms(2) by (simp add: dt_total_def)

lemma dt_total_append: "dt_threads d' = dt_threads d @ [p] \<Longrightarrow> dt_total f d' = dt_total f d + f p"
  by (simp add: dt_total_def)

lemma dt_total_same: "dt_threads d' = dt_threads d \<Longrightarrow> dt_total f d' = dt_total f d"
  by (simp add: dt_total_def)

text \<open>Moving a live thread to another live place changes no entry.\<close>

lemma dt_entries_move:
  assumes "dt_entries d" "i < length (dt_threads d)" "dt_threads d ! i \<noteq> DExited" "p \<noteq> DExited"
    "dt_threads d' = (dt_threads d)[i := p]" "dt_mDynamicThreads d' = dt_mDynamicThreads d"
  shows "dt_entries d'"
  using assms unfolding dt_entries_def by (auto simp: nth_list_update)

lemma dt_entries_exit:
  assumes "dt_entries d" "i < length (dt_threads d)" "dt_threads d' = (dt_threads d)[i := DExited]"
    "dt_mDynamicThreads d' = map (\<lambda>(k, b). (k, b \<and> k \<noteq> i)) (dt_mDynamicThreads d)"
  shows "dt_entries d'"
proof -
  let ?g = "\<lambda>(k, b). (k :: nat, b \<and> k \<noteq> i)"
  have E: "distinct (map fst (dt_mDynamicThreads d))"
    "(k, True) \<in> set (dt_mDynamicThreads d) \<longleftrightarrow> k < length (dt_threads d) \<and> dt_threads d ! k \<noteq> DExited" for k
    using assms(1) by (simp_all add: dt_entries_def)
  have "map fst (map ?g xs) = map fst xs" for xs by (induction xs) auto
  then have "distinct (map fst (map ?g (dt_mDynamicThreads d)))" using E(1) by metis
  moreover have "\<forall>(k, b)\<in>set (map ?g (dt_mDynamicThreads d)). k < length (dt_threads d)"
    using assms(1) by (auto simp: dt_entries_def)
  moreover have "(k, True) \<in> set (map ?g (dt_mDynamicThreads d)) \<longleftrightarrow>
      k < length (dt_threads d) \<and> (dt_threads d)[i := DExited] ! k \<noteq> DExited" for k
  proof -
    have "(k, True) \<in> set (map ?g xs) \<longleftrightarrow> (k, True) \<in> set xs \<and> k \<noteq> i" for xs by force
    then show ?thesis using E(2) [of k] assms(2) by (auto simp: nth_list_update)
  qed
  ultimately show ?thesis unfolding dt_entries_def assms(3,4) length_list_update by blast
qed

lemma dt_take_ok:
  assumes "dt_entries d" "i < length (dt_threads d)" "dt_threads d ! i = p" "p = DFinished \<or> p = DWaiting"
    "dt_mNumDynamicThreads d = dt_total pc_alive d" "dt_mNumIdleDynamicThreads d + pc_waiting p = dt_total pc_waiting d"
    "length (dt_mIdleTaskQueue d) \<le> dt_mNumIdleDynamicThreads d + 1" "dt_mNumDynamicThreads d \<le> dt_mMaxNumDynamicThreads d"
  shows "dt_entries (dt_take i k d) \<and> dt_counts (dt_take i k d) \<and> dt_held (dt_take i k d) = dt_held d \<and>
    dt_mMaxNumDynamicThreads (dt_take i k d) = dt_mMaxNumDynamicThreads d"
proof (cases "dt_mIdleTaskQueue d")
  case (Cons t rest)
  let ?d = "d\<lparr>dt_mIdleTaskQueue := rest, dt_threads := (dt_threads d)[i := DRunning t]\<rparr>"
  have mv: "dt_total f ?d + f p = dt_total f d + f (DRunning t)" for f :: "'a dt_pc \<Rightarrow> 'b::comm_monoid_add"
    using dt_total_move [OF assms(2), of ?d "DRunning t" f] assms(3) by simp
  have "dt_entries ?d" using assms(3,4) by (intro dt_entries_move [OF assms(1,2)]) auto
  moreover have "dt_counts ?d"
    using mv [of pc_alive] mv [of pc_waiting] assms(4-8) Cons by (auto simp: dt_counts_def pc_alive_def pc_waiting_def)
  moreover have "dt_total pc_tasks ?d = dt_total pc_tasks d + {#t#}"
    using mv [of pc_tasks] assms(4) by auto
  ultimately show ?thesis using Cons by (simp add: dt_take_def dt_held_def)
next
  case Nil
  let ?d = "d\<lparr>dt_mDynamicThreads := map (\<lambda>(k, b). (k, b \<and> k \<noteq> i)) (dt_mDynamicThreads d),
      dt_mNumDynamicThreads := dt_mNumDynamicThreads d - 1, dt_threads := (dt_threads d)[i := DExited],
      dt_quiesces := (if dt_mStopWaiting d then ThreadExited_notify_one k (dt_quiesces d) else dt_quiesces d)\<rparr>"
  have mv: "dt_total f ?d + f p = dt_total f d + f DExited" for f :: "'a dt_pc \<Rightarrow> 'b::comm_monoid_add"
    using dt_total_move [OF assms(2), of ?d DExited f] assms(3) by simp
  have "dt_entries ?d" by (rule dt_entries_exit [OF assms(1,2)]) simp_all
  moreover have "dt_counts ?d"
    using mv [of pc_alive] mv [of pc_waiting] assms(4-8) Nil by (auto simp: dt_counts_def pc_alive_def pc_waiting_def)
  moreover have "dt_total pc_tasks ?d = dt_total pc_tasks d" using mv [of pc_tasks] assms(4) by auto
  ultimately show ?thesis using Nil by (simp add: dt_take_def dt_held_def)
qed

lemma wq_wrap_counts:
  "\<exists>b q2. wq_wrap q x = ((b, x), q2) \<and> qs_mNumPendingTasks q2 = qs_mNumPendingTasks q + of_bool b"
  by (cases "WorkQueueBase_IsQuiescing q") (auto simp: wq_wrap_def WithPendingTaskCounter_def PendingTask_new_def)

lemma dt_submit_ok:
  assumes "dt_entries d" "dt_counts d" "RunBlockingTask q d x = (r, q1, d1)"
  shows "dt_entries d1 \<and> dt_counts d1 \<and> dt_mMaxNumDynamicThreads d1 = dt_mMaxNumDynamicThreads d \<and>
    (\<exists>b. (r = None \<and> dt_held d1 = add_mset (b, x) (dt_held d) \<and> qs_mNumPendingTasks q1 = qs_mNumPendingTasks q + of_bool b) \<or>
         (r = Some x \<and> dt_held d1 = dt_held d \<and> q1 = q))"
proof -
  obtain b q2 where w: "wq_wrap q x = ((b, x), q2)" "qs_mNumPendingTasks q2 = qs_mNumPendingTasks q + of_bool b"
    using wq_wrap_counts [of q x] by blast
  let ?f = "d\<lparr>dt_mDynamicThreads := filter snd (dt_mDynamicThreads d)\<rparr>"
  have f: "dt_entries ?f" using assms(1) by (auto simp: dt_entries_def distinct_map_filter)
  consider (queue) "length (dt_mIdleTaskQueue d) < dt_mNumIdleDynamicThreads d"
    | (start) "\<not> length (dt_mIdleTaskQueue d) < dt_mNumIdleDynamicThreads d" "dt_mNumDynamicThreads d < dt_mMaxNumDynamicThreads d"
    | (full) "\<not> length (dt_mIdleTaskQueue d) < dt_mNumIdleDynamicThreads d" "\<not> dt_mNumDynamicThreads d < dt_mMaxNumDynamicThreads d"
    by blast
  then show ?thesis
  proof cases
    case queue
    then have e: "r = None" "q1 = q2" "d1 = d\<lparr>dt_mIdleTaskQueue := dt_mIdleTaskQueue d @ [(b, x)]\<rparr>"
      using assms(3) w(1) by (simp_all add: RunBlockingTask_def)
    then show ?thesis
      using assms(1,2) queue w(2) by (auto simp: dt_entries_def dt_counts_def dt_held_def dt_total_def)
  next
    case start
    let ?d = "?f\<lparr>dt_mDynamicThreads := dt_mDynamicThreads ?f @ [(length (dt_threads d), True)],
        dt_mNumDynamicThreads := dt_mNumDynamicThreads d + 1, dt_threads := dt_threads d @ [DRunning (b, x)]\<rparr>"
    have e: "r = None" "q1 = q2" "d1 = ?d" using start assms(3) w(1) by (simp_all add: RunBlockingTask_def)
    have "dt_entries ?d" using f by (auto simp: dt_entries_def nth_append less_Suc_eq)
    then have en: "dt_entries d1" using e(3) by simp
    have tot: "dt_total g d1 = dt_total g d + g (DRunning (b, x))" for g :: "'a dt_pc \<Rightarrow> 'b::comm_monoid_add"
      using e(3) by (intro dt_total_append) simp
    have "dt_mIdleTaskQueue d1 = dt_mIdleTaskQueue d" "dt_mNumDynamicThreads d1 = dt_mNumDynamicThreads d + 1"
      "dt_mNumIdleDynamicThreads d1 = dt_mNumIdleDynamicThreads d" "dt_mMaxNumDynamicThreads d1 = dt_mMaxNumDynamicThreads d"
      using e(3) by simp_all
    with tot [of pc_alive] tot [of pc_waiting] tot [of pc_tasks] en e(1,2) start assms(2) w(2) show ?thesis
      by (auto simp: dt_counts_def dt_held_def pc_alive_def pc_waiting_def)
  next
    case full
    then have "r = Some x" "q1 = q" "d1 = ?f" using assms(3) by (simp_all add: RunBlockingTask_def)
    then show ?thesis using f assms(2) by (auto simp: dt_counts_def dt_held_def dt_total_def)
  qed
qed

lemma dt_enter_ok:
  assumes "dt_entries d" "dt_counts d" "i < length (dt_threads d)" "dt_threads d ! i = DFinished"
  shows "dt_entries (WaitNextTask_enter i k d) \<and> dt_counts (WaitNextTask_enter i k d) \<and> dt_held (WaitNextTask_enter i k d) = dt_held d \<and>
    dt_mMaxNumDynamicThreads (WaitNextTask_enter i k d) = dt_mMaxNumDynamicThreads d"
proof (cases "dt_mIdleTaskQueue d \<noteq> [] \<or> dt_mStopWaiting d")
  case True
  then show ?thesis
    using dt_take_ok [where k = k, OF assms(1,3,4)] assms(2) by (simp add: WaitNextTask_enter_def dt_counts_def pc_waiting_def)
next
  case False
  let ?d = "d\<lparr>dt_mNumIdleDynamicThreads := dt_mNumIdleDynamicThreads d + 1, dt_threads := (dt_threads d)[i := DWaiting]\<rparr>"
  have mv: "dt_total f ?d + f DFinished = dt_total f d + f DWaiting" for f :: "'a dt_pc \<Rightarrow> 'b::comm_monoid_add"
    using dt_total_move [OF assms(3), of ?d DWaiting f] assms(4) by simp
  have "dt_entries ?d" using assms(4) by (intro dt_entries_move [OF assms(1,3)]) auto
  moreover have "dt_counts ?d"
    using mv [of pc_alive] mv [of pc_waiting] assms(2) by (auto simp: dt_counts_def pc_alive_def pc_waiting_def)
  moreover have "dt_held ?d = dt_held d" using mv [of pc_tasks] by (simp add: dt_held_def)
  ultimately show ?thesis using False by (simp add: WaitNextTask_enter_def)
qed

lemma dt_waiting_idle: "dt_counts d \<Longrightarrow> i < length (dt_threads d) \<Longrightarrow> dt_threads d ! i = DWaiting \<Longrightarrow> 0 < dt_mNumIdleDynamicThreads d"
proof -
  assume a: "dt_counts d" "i < length (dt_threads d)" "dt_threads d ! i = DWaiting"
  then have "dt_threads d ! i \<in> set (dt_threads d)" by (intro nth_mem)
  then have "pc_waiting (dt_threads d ! i) \<le> sum_list (map pc_waiting (dt_threads d))"
    by (intro member_le_sum_list) simp_all
  with a show ?thesis by (simp add: dt_counts_def dt_total_def pc_waiting_def)
qed

lemma dt_leave_ok:
  assumes "dt_entries d" "dt_counts d" "i < length (dt_threads d)" "dt_threads d ! i = DWaiting"
  shows "dt_entries (WaitNextTask_leave i k d) \<and> dt_counts (WaitNextTask_leave i k d) \<and> dt_held (WaitNextTask_leave i k d) = dt_held d \<and>
    dt_mMaxNumDynamicThreads (WaitNextTask_leave i k d) = dt_mMaxNumDynamicThreads d"
proof -
  let ?d = "d\<lparr>dt_mNumIdleDynamicThreads := dt_mNumIdleDynamicThreads d - 1\<rparr>"
  have "dt_entries ?d" using assms(1) by (simp add: dt_entries_def)
  then show ?thesis
    using dt_take_ok [where k = k, of ?d i DWaiting] assms(2-4) dt_waiting_idle [OF assms(2-4)]
    by (simp add: WaitNextTask_leave_def dt_counts_def dt_total_def dt_held_def pc_waiting_def)
qed

text \<open>Steps of Quiesce change nothing that the invariant speaks of.\<close>

lemma dt_quiesces_inv:
  assumes "dt_inv m q0 s" "dt_threads d = dt_threads (ds_d s)" "dt_mIdleTaskQueue d = dt_mIdleTaskQueue (ds_d s)"
    "dt_mDynamicThreads d = dt_mDynamicThreads (ds_d s)" "dt_mNumDynamicThreads d = dt_mNumDynamicThreads (ds_d s)"
    "dt_mNumIdleDynamicThreads d = dt_mNumIdleDynamicThreads (ds_d s)" "dt_mMaxNumDynamicThreads d = dt_mMaxNumDynamicThreads (ds_d s)"
  shows "dt_inv m q0 (s\<lparr>ds_d := d\<rparr>)"
  using assms by (auto simp: dt_inv_def dt_entries_def dt_counts_def dt_held_def dt_total_def)

lemma dt_thread_inv: "dt_thread s t \<Longrightarrow> dt_inv m q0 s \<Longrightarrow> dt_inv m q0 t"
proof (induction rule: dt_thread.induct)
  case (dt_finish s i t)
  let ?d = "(ds_d s)\<lparr>dt_threads := (dt_threads (ds_d s))[i := DFinished]\<rparr>"
  have i: "i < length (dt_threads (ds_d s))" "dt_threads (ds_d s) ! i = DRunning t" using dt_finish.hyps by (auto simp: ds_at_def)
  have I: "dt_entries (ds_d s)" "dt_counts (ds_d s)" using dt_finish.prems by (simp_all add: dt_inv_def)
  have mv: "dt_total f ?d + f (DRunning t) = dt_total f (ds_d s) + f DFinished" for f :: "'a dt_pc \<Rightarrow> 'b::comm_monoid_add"
    using dt_total_move [OF i(1), of ?d DFinished f] i(2) by simp
  have "dt_entries ?d" using i by (intro dt_entries_move [OF I(1) i(1)]) auto
  moreover have "dt_counts ?d"
    using mv [of pc_alive] mv [of pc_waiting] I(2) by (auto simp: dt_counts_def pc_alive_def pc_waiting_def)
  moreover have "dt_held (ds_d s) = add_mset t (dt_held ?d)" using mv [of pc_tasks] by (simp add: dt_held_def)
  moreover have "qs_mNumPendingTasks (task_done t (ds_q s)) = qs_mNumPendingTasks (ds_q s) - of_bool (fst t)"
    by (simp add: task_done_def PendingTask_destroy_def)
  ultimately show ?case using dt_finish.prems by (auto simp: dt_inv_def)
next
  case (dt_enter s i k)
  then show ?case using dt_enter_ok [of "ds_d s" i] by (auto simp: dt_inv_def ds_at_def)
next
  case (dt_leave s i k)
  then show ?case using dt_leave_ok [of "ds_d s" i] by (auto simp: dt_inv_def ds_at_def)
next
  case (dt_quiesced k s d)
  then show ?case by (rule_tac dt_quiesces_inv) (auto simp: Quiesce_wait_def split: if_splits)
qed

lemma dt_step_inv: "dt_step s t \<Longrightarrow> dt_inv m q0 s \<Longrightarrow> dt_inv m q0 t"
proof (induction rule: dt_step.induct)
  case (dt_submit s x r q d)
  then have "dt_entries (ds_d s)" "dt_counts (ds_d s)" by (simp_all add: dt_inv_def)
  from dt_submit_ok [OF this dt_submit.hyps] dt_submit.prems show ?case by (auto simp: dt_inv_def)
next
  case (dt_by_thread s t)
  then show ?case by (blast intro: dt_thread_inv)
next
  case (dt_quiescing q s)
  then show ?case by (auto simp: dt_inv_def Quiescing_Start_def Quiescing_destroy_def)
next
  case (dt_quiesce s d)
  then show ?case by (rule_tac dt_quiesces_inv) (auto simp: Quiesce_begin_def Quiesce_wait_def split: if_splits)
next
  case (dt_spurious k s)
  then show ?case by (rule_tac dt_quiesces_inv) auto
qed

lemma dt_reach_inv: "dt_reach m q0 s \<Longrightarrow> dt_inv m q0 s"
proof (induction rule: dt_reach.induct)
  case dt_start
  then show ?case by (simp add: dt_inv_def dt_new_def dt_entries_def dt_counts_def dt_held_def dt_total_def)
next
  case (dt_more s t)
  then show ?case by (blast intro: dt_step_inv)
qed


subsection \<open>What the dynamic threads promise\<close>

text \<open>
  C11. Whatever the interleaving of RunBlockingTask, the dynamic threads
  and Quiesce: mNumDynamicThreads is the number of threads that have not exited and never passes the
  limit, mNumIdleDynamicThreads is the number of threads that wait, the idle task queue never holds more
  tasks than there are idle threads (so every task in it has a thread that will take it), mDynamicThreads
  marks exactly the live threads active, every submitted task was handed back, has completed, or is held
  exactly once, and the pending-task counter is exact.
\<close>

theorem BlockingWorkQueue_dynamic_threads:
  assumes "dt_reach m q0 s"
  shows "dt_mNumDynamicThreads (ds_d s) = length (filter (\<lambda>p. p \<noteq> DExited) (dt_threads (ds_d s))) \<and>
    dt_mNumDynamicThreads (ds_d s) \<le> m \<and>
    dt_mNumIdleDynamicThreads (ds_d s) = length (filter (\<lambda>p. p = DWaiting) (dt_threads (ds_d s))) \<and>
    length (dt_mIdleTaskQueue (ds_d s)) \<le> dt_mNumIdleDynamicThreads (ds_d s) \<and>
    (\<forall>k. (k, True) \<in> set (dt_mDynamicThreads (ds_d s)) \<longleftrightarrow> k < length (dt_threads (ds_d s)) \<and> dt_threads (ds_d s) ! k \<noteq> DExited) \<and>
    ds_submitted s = ds_returned s + ds_completed s + image_mset snd (dt_held (ds_d s)) \<and>
    qs_mNumPendingTasks (ds_q s) = qs_mNumPendingTasks q0 + of_nat (size (filter_mset fst (dt_held (ds_d s))))"
proof -
  have "sum_list (map pc_alive ps) = length (filter (\<lambda>p. p \<noteq> DExited) ps)"
    "sum_list (map pc_waiting ps) = length (filter (\<lambda>p. p = DWaiting) ps)" for ps :: "'a dt_pc list"
    by (induction ps) (simp_all add: pc_alive_def pc_waiting_def)
  then show ?thesis using dt_reach_inv [OF assms] by (simp add: dt_inv_def dt_counts_def dt_entries_def dt_total_def)
qed

text \<open>A first task starts a thread; while it runs, a second one is handed back at the limit of one thread.\<close>

abbreviation dt_calm :: QuiescingState where
  "dt_calm \<equiv> \<lparr>qs_mNumQuiescing = 0, qs_mNumPendingTasks = 0\<rparr>"

definition dt_demo :: "nat dt_sys" where
  "dt_demo = \<lparr>ds_d = \<lparr>dt_mMaxNumDynamicThreads = 1, dt_mNumDynamicThreads = 1, dt_mNumIdleDynamicThreads = 0,
       dt_mIdleTaskQueue = [], dt_mDynamicThreads = [(0, True)], dt_mStopWaiting = False, dt_threads = [DRunning (False, 7)], dt_quiesces = []\<rparr>,
     ds_q = dt_calm, ds_submitted = {#8, 7#}, ds_returned = {#8#}, ds_completed = {#}\<rparr>"

lemma dt_demo_steps:
  "dt_step \<lparr>ds_d = dt_new 1, ds_q = dt_calm, ds_submitted = {#}, ds_returned = {#}, ds_completed = {#}\<rparr>
     \<lparr>ds_d = ds_d dt_demo, ds_q = dt_calm, ds_submitted = {#7#}, ds_returned = {#}, ds_completed = {#}\<rparr>"
  "dt_step \<lparr>ds_d = ds_d dt_demo, ds_q = dt_calm, ds_submitted = {#7#}, ds_returned = {#}, ds_completed = {#}\<rparr> dt_demo"
proof -
  let ?s0 = "\<lparr>ds_d = dt_new 1, ds_q = dt_calm, ds_submitted = {#}, ds_returned = {#}, ds_completed = {#}\<rparr>"
  let ?s1 = "\<lparr>ds_d = ds_d dt_demo, ds_q = dt_calm, ds_submitted = {#7#}, ds_returned = {#}, ds_completed = {#}\<rparr>"
  show "dt_step ?s0 ?s1"
    using dt_submit [of ?s0 7 None dt_calm "ds_d dt_demo"]
    by (simp add: dt_demo_def dt_new_def RunBlockingTask_def wq_wrap_def WorkQueueBase_IsQuiescing_def)
  show "dt_step ?s1 dt_demo"
    using dt_submit [of ?s1 8 "Some 8" dt_calm "ds_d dt_demo"]
    by (simp add: dt_demo_def RunBlockingTask_def)
qed

lemma dt_demo_reach: "dt_reach 1 dt_calm dt_demo"
  using dt_demo_steps dt_reach.intros by metis

theorem BlockingWorkQueue_dynamic_threads_witness:
  "dt_mNumDynamicThreads (ds_d dt_demo) = 1 \<and> ds_submitted dt_demo = ds_returned dt_demo + ds_completed dt_demo + {#7#}"
  using BlockingWorkQueue_dynamic_threads [OF dt_demo_reach] by (simp add: dt_demo_def dt_held_def dt_total_def)


subsection \<open>Quiesce\<close>

text \<open>
  The work left: every queued or running task, every thread that has not exited, and every call of Quiesce
  that was woken counts.
\<close>

fun pc_work :: "'a dt_pc \<Rightarrow> nat" where
  "pc_work (DRunning _) = 3"
| "pc_work DFinished = 2"
| "pc_work DWaiting = 2"
| "pc_work DExited = 0"

definition dt_work :: "'a dynamic_threads \<Rightarrow> nat" where
  "dt_work d = 4 * length (dt_mIdleTaskQueue d) + dt_total pc_work d"

definition dt_left :: "'a dynamic_threads \<Rightarrow> nat" where
  "dt_left d = 2 * dt_work d + count_list (dt_quiesces d) QAwake"

lemma count_awake_update:
  "k < length ps \<Longrightarrow> count_list (ps[k := p]) QAwake + of_bool (ps ! k = QAwake) = count_list ps QAwake + of_bool (p = QAwake)"
  using count_list_update [of k ps p QAwake] count_list_nth_pos [of k ps QAwake] by auto

lemma notify_awake: "count_list (ThreadExited_notify_one k ps) QAwake \<le> count_list ps QAwake + 1"
  using count_awake_update [of k ps QAwake] by (auto simp: ThreadExited_notify_one_def)

lemma dt_take_left:
  assumes "i < length (dt_threads d)" "dt_threads d ! i = DFinished \<or> dt_threads d ! i = DWaiting"
  shows "dt_left (dt_take i k d) < dt_left d"
proof -
  have "dt_work (dt_take i k d) < dt_work d"
    using dt_total_move [OF assms(1), of "dt_take i k d" _ pc_work] assms(2)
    by (cases "dt_mIdleTaskQueue d") (fastforce simp: dt_take_def dt_work_def)+
  moreover have "count_list (dt_quiesces (dt_take i k d)) QAwake \<le> count_list (dt_quiesces d) QAwake + 1"
    using notify_awake [of k "dt_quiesces d"] by (simp add: dt_take_def le_SucI split: list.split)
  ultimately show ?thesis by (simp add: dt_left_def)
qed

lemma dt_thread_left: "dt_thread s t \<Longrightarrow> dt_mStopWaiting (ds_d s) \<Longrightarrow> dt_left (ds_d t) < dt_left (ds_d s)"
proof (induction rule: dt_thread.induct)
  case (dt_finish s i t)
  then have "i < length (dt_threads (ds_d s))" by (simp add: ds_at_def)
  from dt_total_move [OF this, of "(ds_d s)\<lparr>dt_threads := (dt_threads (ds_d s))[i := DFinished]\<rparr>" DFinished pc_work] dt_finish
  show ?case by (simp add: dt_left_def dt_work_def ds_at_def)
next
  case (dt_enter s i k)
  then show ?case using dt_take_left [of i "ds_d s" k] by (simp add: WaitNextTask_enter_def ds_at_def)
next
  case (dt_leave s i k)
  let ?d = "(ds_d s)\<lparr>dt_mNumIdleDynamicThreads := dt_mNumIdleDynamicThreads (ds_d s) - 1\<rparr>"
  have "dt_left ?d = dt_left (ds_d s)" by (simp add: dt_left_def dt_work_def dt_total_def)
  then show ?case using dt_take_left [of i ?d k] dt_leave by (simp add: WaitNextTask_leave_def ds_at_def)
next
  case (dt_quiesced k s d)
  then show ?case
    using count_awake_update [of k "dt_quiesces (ds_d s)" QAsleep] count_awake_update [of k "dt_quiesces (ds_d s)" QReturned]
    by (auto simp: Quiesce_wait_def dt_left_def dt_work_def dt_total_def split: if_splits)
qed

text \<open>Submitting a task adds a bounded amount of work.\<close>

lemma dt_submit_left:
  assumes "RunBlockingTask q d x = (r, q1, d1)"
  shows "dt_left d1 \<le> dt_left d + 8"
proof -
  obtain b q2 where "wq_wrap q x = ((b, x), q2)" using wq_wrap_counts [of q x] by blast
  then show ?thesis using assms by (auto simp: RunBlockingTask_def Let_def dt_left_def dt_work_def dt_total_def split: if_splits)
qed

lemma dt_live_thread:
  assumes "dt_counts d" "dt_mNumDynamicThreads d \<noteq> 0"
  shows "\<exists>i < length (dt_threads d). dt_threads d ! i \<noteq> DExited"
proof (rule ccontr)
  assume "\<not> ?thesis"
  then have "\<forall>p \<in> set (dt_threads d). pc_alive p = 0" by (auto simp: in_set_conv_nth pc_alive_def)
  with assms show False by (simp add: dt_counts_def dt_total_def)
qed

lemma cv_pick_exists: "\<exists>k. cv_pick ps k"
  by (auto simp: cv_pick_def in_set_conv_nth)

lemma dt_thread_progress:
  assumes "dt_counts (ds_d s)" "dt_mNumDynamicThreads (ds_d s) \<noteq> 0"
  shows "\<exists>t. dt_thread s t"
proof -
  obtain i where "i < length (dt_threads (ds_d s))" "dt_threads (ds_d s) ! i \<noteq> DExited"
    using dt_live_thread [OF assms] by blast
  then have "(\<exists>t. ds_at s i (DRunning t)) \<or> ds_at s i DFinished \<or> ds_at s i DWaiting"
    by (cases "dt_threads (ds_d s) ! i") (auto simp: ds_at_def)
  then show ?thesis using cv_pick_exists [of "dt_quiesces (ds_d s)"] by (blast intro: dt_thread.intros)
qed

lemma dt_idle_zero: "dt_counts d \<Longrightarrow> dt_mNumDynamicThreads d = 0 \<Longrightarrow> dt_mIdleTaskQueue d = []"
proof -
  assume a: "dt_counts d" "dt_mNumDynamicThreads d = 0"
  have "sum_list (map pc_waiting ps) \<le> sum_list (map pc_alive ps)" for ps :: "'a dt_pc list"
    by (intro sum_list_mono) (simp add: pc_waiting_def pc_alive_def)
  from this [of "dt_threads d"] a have "length (dt_mIdleTaskQueue d) \<le> 0"
    unfolding dt_counts_def dt_total_def by linarith
  then show ?thesis by simp
qed

text \<open>Runs in which calls of Quiesce do not overlap.\<close>

inductive dt_serial :: "nat \<Rightarrow> QuiescingState \<Rightarrow> 'a dt_sys \<Rightarrow> bool" for m q0 where
  serial_start: "dt_serial m q0 \<lparr>ds_d = dt_new m, ds_q = q0, ds_submitted = {#}, ds_returned = {#}, ds_completed = {#}\<rparr>"
| serial_step: "dt_serial m q0 s \<Longrightarrow> dt_step s t \<Longrightarrow>
    length (dt_quiesces (ds_d t)) = length (dt_quiesces (ds_d s)) \<or> set (dt_quiesces (ds_d s)) \<subseteq> {QReturned} \<Longrightarrow> dt_serial m q0 t"

lemma dt_serial_reach: "dt_serial m q0 s \<Longrightarrow> dt_reach m q0 s"
  by (induction rule: dt_serial.induct) (blast intro: dt_reach.intros)+

text \<open>The call in progress is the only one, it holds mStopWaiting set, and it does not sleep once no thread is left.\<close>

definition one_quiesce :: "quiesce_pc list \<Rightarrow> bool \<Rightarrow> bool \<Rightarrow> bool" where
  "one_quiesce ps stop none \<longleftrightarrow> (\<forall>k<length ps. ps ! k \<noteq> QReturned \<longrightarrow>
     (\<forall>j<length ps. j \<noteq> k \<longrightarrow> ps ! j = QReturned) \<and> stop \<and> (none \<longrightarrow> ps ! k = QAwake))"

definition dt_one :: "'a dynamic_threads \<Rightarrow> bool" where
  "dt_one d \<longleftrightarrow> one_quiesce (dt_quiesces d) (dt_mStopWaiting d) (dt_mNumDynamicThreads d = 0)"

lemma one_quiesce_weaken: "one_quiesce ps stop none \<Longrightarrow> (none' \<Longrightarrow> none) \<Longrightarrow> one_quiesce ps stop none'"
  unfolding one_quiesce_def by blast

lemma one_quiesce_all: "set ps \<subseteq> {QReturned} \<Longrightarrow> one_quiesce ps stop none"
  unfolding one_quiesce_def using nth_mem by blast

lemma one_quiesceI:
  assumes "\<And>j. j < length ps \<Longrightarrow> j \<noteq> k \<Longrightarrow> ps ! j = QReturned" "stop" "none \<Longrightarrow> ps ! k = QAwake"
  shows "one_quiesce ps stop none"
  unfolding one_quiesce_def
proof (intro allI impI)
  fix i assume i: "i < length ps" "ps ! i \<noteq> QReturned"
  then have "i = k" using assms(1) by blast
  then show "(\<forall>j<length ps. j \<noteq> i \<longrightarrow> ps ! j = QReturned) \<and> stop \<and> (none \<longrightarrow> ps ! i = QAwake)" using assms by simp
qed

lemma one_quiesce_set:
  assumes "one_quiesce ps stop none" "k < length ps" "ps ! k \<noteq> QReturned"
  shows "one_quiesce (ps[k := QAwake]) stop none'" "one_quiesce (ps[k := QAsleep]) stop False" "set (ps[k := QReturned]) \<subseteq> {QReturned}"
proof -
  have o: "ps ! j = QReturned" if "j < length ps" "j \<noteq> k" for j using assms that unfolding one_quiesce_def by blast
  have "stop" using assms unfolding one_quiesce_def by blast
  then show "one_quiesce (ps[k := QAwake]) stop none'" "one_quiesce (ps[k := QAsleep]) stop False"
    using o assms(2) by (auto intro!: one_quiesceI [where k = k])
  show "set (ps[k := QReturned]) \<subseteq> {QReturned}" 
  proof
    fix p assume "p \<in> set (ps[k := QReturned])"
    then obtain i where "i < length ps" "p = ps[k := QReturned] ! i" by (auto simp: in_set_conv_nth)
    then show "p \<in> {QReturned}" using o by (cases "i = k") auto
  qed
qed

lemma one_quiesce_notify:
  assumes "one_quiesce ps stop none" "cv_pick ps k"
  shows "one_quiesce (if stop then ThreadExited_notify_one k ps else ps) stop none'"
proof (cases "QAsleep \<in> set ps")
  case True
  then have k: "k < length ps" "ps ! k = QAsleep" using assms(2) by (simp_all add: cv_pick_def)
  then have "stop" using assms(1) unfolding one_quiesce_def by auto
  then show ?thesis using k one_quiesce_set(1) [OF assms(1) k(1)] by (simp add: ThreadExited_notify_one_def)
next
  case False
  then have "ThreadExited_notify_one k ps = ps" by (auto simp: ThreadExited_notify_one_def dest: nth_mem)
  moreover have awake: "ps ! j = QAwake" if "j < length ps" "ps ! j \<noteq> QReturned" for j
    using False nth_mem [OF that(1)] that(2) by (cases "ps ! j") auto
  have "one_quiesce ps stop none'" using assms(1) awake unfolding one_quiesce_def by blast
  ultimately show ?thesis by (cases stop) simp_all
qed

lemma dt_one_take:
  assumes "dt_one d" "cv_pick (dt_quiesces d) k"
  shows "dt_one (dt_take i k d)"
  using assms one_quiesce_notify [OF assms(1) [unfolded dt_one_def] assms(2)]
  by (cases "dt_mIdleTaskQueue d") (simp_all add: dt_one_def dt_take_def)

lemma dt_one_thread: "dt_thread s t \<Longrightarrow> dt_one (ds_d s) \<Longrightarrow> dt_one (ds_d t)"
proof (induction rule: dt_thread.induct)
  case (dt_finish s i t)
  then show ?case by (simp add: dt_one_def)
next
  case (dt_enter s i k)
  have "dt_one (WaitNextTask_enter i k (ds_d s))"
  proof (cases "dt_mIdleTaskQueue (ds_d s) \<noteq> [] \<or> dt_mStopWaiting (ds_d s)")
    case True
    then show ?thesis using dt_one_take [OF dt_enter.prems dt_enter.hyps(2)] by (simp add: WaitNextTask_enter_def)
  qed (use dt_enter.prems in \<open>simp add: WaitNextTask_enter_def dt_one_def\<close>)
  then show ?case by simp
next
  case (dt_leave s i k)
  let ?d = "(ds_d s)\<lparr>dt_mNumIdleDynamicThreads := dt_mNumIdleDynamicThreads (ds_d s) - 1\<rparr>"
  have "dt_one ?d" using dt_leave.prems by (simp add: dt_one_def)
  then show ?case using dt_one_take [of ?d k i] dt_leave.hyps by (simp add: WaitNextTask_leave_def)
next
  case (dt_quiesced k s d)
  note set = one_quiesce_set [OF dt_quiesced.prems [unfolded dt_one_def] dt_quiesced.hyps(1)]
  show ?case using dt_quiesced.hyps(2,3) set(2) one_quiesce_all [OF set(3)]
    by (auto simp: Quiesce_wait_def dt_one_def split: if_splits)
qed

lemma RunBlockingTask_quiesces:
  assumes "RunBlockingTask q d x = (r, q1, d1)"
  shows "dt_quiesces d1 = dt_quiesces d" "dt_mStopWaiting d1 = dt_mStopWaiting d" "dt_mNumDynamicThreads d1 = 0 \<Longrightarrow> dt_mNumDynamicThreads d = 0"
  using assms by (auto simp: RunBlockingTask_def Let_def split: if_splits prod.splits)

lemma dt_one_step:
  assumes "dt_step s t" "dt_one (ds_d s)"
    "length (dt_quiesces (ds_d t)) = length (dt_quiesces (ds_d s)) \<or> set (dt_quiesces (ds_d s)) \<subseteq> {QReturned}"
  shows "dt_one (ds_d t)"
  using assms
proof (induction rule: dt_step.induct)
  case (dt_submit s x r q d)
  then show ?case using RunBlockingTask_quiesces [OF dt_submit.hyps] one_quiesce_weaken by (simp add: dt_one_def)
next
  case (dt_by_thread s t)
  then show ?case by (blast intro: dt_one_thread)
next
  case (dt_quiesce s d)
  let ?ps = "dt_quiesces (ds_d s) @ [QAwake]" and ?k = "length (dt_quiesces (ds_d s))"
  have "length (dt_quiesces d) \<noteq> length (dt_quiesces (ds_d s))"
    using dt_quiesce.hyps by (auto simp: Quiesce_begin_def Quiesce_wait_def split: if_splits)
  then have all: "set (dt_quiesces (ds_d s)) \<subseteq> {QReturned}" using dt_quiesce.prems(2) by simp
  then have "dt_quiesces (ds_d s) ! j = QReturned" if "j < ?k" for j using nth_mem [OF that] by auto
  then have "one_quiesce ?ps True none" for none by (simp add: one_quiesce_def nth_append less_Suc_eq)
  note set = one_quiesce_set [of ?ps True _ ?k, OF this]
  have "one_quiesce (dt_quiesces (ds_d s) @ [QReturned]) stop none" for stop none by (rule one_quiesce_all) (use all in auto)
  then show ?case using dt_quiesce.hyps set(2) by (auto simp: Quiesce_begin_def Quiesce_wait_def dt_one_def split: if_splits)
next
  case (dt_spurious k s)
  then show ?case using one_quiesce_set(1) [of "dt_quiesces (ds_d s)"] by (simp add: dt_one_def)
next
  case (dt_quiescing q s)
  then show ?case by simp
qed

lemma dt_serial_one: "dt_serial m q0 s \<Longrightarrow> dt_one (ds_d s)"
proof (induction rule: dt_serial.induct)
  case serial_start
  show ?case by (simp add: dt_one_def one_quiesce_def dt_new_def)
next
  case (serial_step s t)
  then show ?case by (rule_tac dt_one_step)
qed

lemma dt_one_progress:
  assumes I: "dt_counts (ds_d s)" and o: "dt_one (ds_d s)"
    and k: "k < length (dt_quiesces (ds_d s))" "dt_quiesces (ds_d s) ! k \<noteq> QReturned"
  shows "dt_mStopWaiting (ds_d s)" "\<exists>t. dt_thread s t"
proof -
  show "dt_mStopWaiting (ds_d s)" using o k by (auto simp: dt_one_def one_quiesce_def)
  show "\<exists>t. dt_thread s t"
  proof (cases "dt_mNumDynamicThreads (ds_d s) = 0")
    case True
    then have "dt_quiesces (ds_d s) ! k = QAwake" using o k by (auto simp: dt_one_def one_quiesce_def)
    moreover have "\<exists>d. Quiesce_wait k (ds_d s) = Some d" using dt_idle_zero [OF I] True by (simp add: Quiesce_wait_def)
    ultimately show ?thesis using dt_quiesced [OF k(1)] by blast
  qed (use dt_thread_progress [OF I] in blast)
qed

text \<open>Steps of the threads and of Quiesce only keep the calls of Quiesce apart.\<close>

lemma dt_thread_length: "dt_thread s t \<Longrightarrow> length (dt_quiesces (ds_d t)) = length (dt_quiesces (ds_d s))"
  by (induction rule: dt_thread.induct)
    (auto simp: WaitNextTask_enter_def WaitNextTask_leave_def dt_take_def ThreadExited_notify_one_def Quiesce_wait_def split: list.split if_splits)

lemma dt_threads_serial: "dt_thread\<^sup>*\<^sup>* s t \<Longrightarrow> dt_serial m q0 s \<Longrightarrow> dt_serial m q0 t \<and> length (dt_quiesces (ds_d t)) = length (dt_quiesces (ds_d s))"
proof (induction rule: rtranclp_induct)
  case (step t u)
  then show ?case using serial_step [of m q0 t u] dt_by_thread [of t u] dt_thread_length [of t u] by auto
qed simp

lemma dt_thread_returns:
  assumes "dt_thread s t" "k < length (dt_quiesces (ds_d s))" "dt_quiesces (ds_d s) ! k \<noteq> QReturned" "dt_quiesces (ds_d t) ! k = QReturned"
  shows "dt_mNumDynamicThreads (ds_d t) = 0 \<and> dt_mIdleTaskQueue (ds_d t) = [] \<and> \<not> dt_mStopWaiting (ds_d t)"
  using assms
proof (induction rule: dt_thread.induct)
  case (dt_quiesced j s d)
  then show ?case by (cases "j = k") (auto simp: Quiesce_wait_def split: if_splits)
qed (auto simp: WaitNextTask_enter_def WaitNextTask_leave_def dt_take_def ThreadExited_notify_one_def nth_list_update split: list.splits if_splits)

text \<open>
  C12. While a call of Quiesce is in progress and no other overlaps with it,
  whatever tasks other threads submit meanwhile: some dynamic thread or the call itself can always make a
  step (in particular the call does not sleep when the last thread has exited, and its assert holds), every
  such step reduces the work left, and a submission adds a bounded amount. So once submissions cease, the steps
  end, and they end with the call returned. It returns only when no dynamic thread is left and no idle task is
  queued, with mStopWaiting reset.
\<close>

theorem BlockingWorkQueue_Quiesce_drains:
  assumes "dt_serial m q0 s" "k < length (dt_quiesces (ds_d s))" "dt_quiesces (ds_d s) ! k \<noteq> QReturned"
  shows "(\<exists>t. dt_thread s t) \<and>
    (\<forall>t. dt_thread s t \<longrightarrow> dt_left (ds_d t) < dt_left (ds_d s) \<and>
       (dt_quiesces (ds_d t) ! k = QReturned \<longrightarrow>
          dt_mNumDynamicThreads (ds_d t) = 0 \<and> dt_mIdleTaskQueue (ds_d t) = [] \<and> \<not> dt_mStopWaiting (ds_d t))) \<and>
    (\<forall>q x r q1 d1. RunBlockingTask q (ds_d s) x = (r, q1, d1) \<longrightarrow> dt_left d1 \<le> dt_left (ds_d s) + 8) \<and>
    (\<forall>t. dt_thread\<^sup>*\<^sup>* s t \<and> (\<nexists>u. dt_thread t u) \<longrightarrow> dt_quiesces (ds_d t) ! k = QReturned)"
proof -
  have live: "(\<exists>u. dt_thread t u) \<and> dt_mStopWaiting (ds_d t)"
    if "dt_serial m q0 t" "k < length (dt_quiesces (ds_d t))" "dt_quiesces (ds_d t) ! k \<noteq> QReturned" for t
    using dt_one_progress [OF _ dt_serial_one [OF that(1)] that(2,3)] dt_reach_inv [OF dt_serial_reach [OF that(1)]]
    by (simp add: dt_inv_def)
  have "dt_quiesces (ds_d t) ! k = QReturned" if "dt_thread\<^sup>*\<^sup>* s t" "\<nexists>u. dt_thread t u" for t
    using live [of t] dt_threads_serial [OF that(1) assms(1)] assms(2) that(2) by auto
  then show ?thesis
    using live [OF assms] dt_thread_left [of s] dt_thread_returns [OF _ assms(2,3)] dt_submit_left [of _ "ds_d s"] by blast
qed

definition dt_demo_quiesce :: "nat dt_sys" where
  "dt_demo_quiesce = dt_demo\<lparr>ds_d := (ds_d dt_demo)\<lparr>dt_mStopWaiting := True, dt_quiesces := [QAsleep]\<rparr>\<rparr>"

lemma dt_demo_serial: "dt_serial 1 dt_calm dt_demo"
proof -
  let ?s0 = "\<lparr>ds_d = dt_new 1, ds_q = dt_calm, ds_submitted = {#}, ds_returned = {#}, ds_completed = {#}\<rparr>"
  let ?s1 = "\<lparr>ds_d = ds_d dt_demo, ds_q = dt_calm, ds_submitted = {#7#}, ds_returned = {#}, ds_completed = {#}\<rparr>"
  have "dt_serial 1 dt_calm ?s0" by (rule serial_start)
  from serial_step [OF this dt_demo_steps(1)] have "dt_serial 1 dt_calm ?s1" by (simp add: dt_new_def)
  from serial_step [OF this dt_demo_steps(2)] show ?thesis by (simp add: dt_demo_def)
qed

lemma dt_demo_quiesce_serial: "dt_serial 1 dt_calm dt_demo_quiesce"
proof (rule serial_step [OF dt_demo_serial])
  show "dt_step dt_demo dt_demo_quiesce"
    using dt_quiesce [of dt_demo "(ds_d dt_demo)\<lparr>dt_mStopWaiting := True, dt_quiesces := [QAsleep]\<rparr>"]
    by (simp add: dt_demo_quiesce_def dt_demo_def Quiesce_begin_def Quiesce_wait_def)
qed (simp add: dt_demo_def)

text \<open>A call of Quiesce that started while the thread runs its task.\<close>

theorem BlockingWorkQueue_Quiesce_drains_witness:
  "\<exists>t. dt_thread dt_demo_quiesce t \<and> dt_left (ds_d t) < dt_left (ds_d dt_demo_quiesce)"
  using BlockingWorkQueue_Quiesce_drains [OF dt_demo_quiesce_serial, of 0] by (auto simp: dt_demo_quiesce_def)

text \<open>Two overlapping calls of Quiesce: the last thread to exit wakes only one of them, and the other sleeps on with
  nothing left that could wake it but a spurious wake-up.\<close>

lemma Quiesce_overlapping_hangs:
  "\<exists>s :: nat dt_sys. dt_reach 1 dt_calm s \<and> dt_quiesces (ds_d s) = [QReturned, QAsleep] \<and> dt_mNumDynamicThreads (ds_d s) = 0 \<and> (\<nexists>t. dt_thread s t)"
proof -
  let ?s1 = "dt_demo_quiesce\<lparr>ds_d := (ds_d dt_demo_quiesce)\<lparr>dt_quiesces := [QAsleep, QAsleep]\<rparr>\<rparr>"
  let ?s2 = "?s1\<lparr>ds_d := (ds_d ?s1)\<lparr>dt_threads := [DFinished]\<rparr>, ds_completed := {#7#}\<rparr>"
  let ?d3 = "(ds_d ?s2)\<lparr>dt_mDynamicThreads := [(0, False)], dt_mNumDynamicThreads := 0, dt_threads := [DExited], dt_quiesces := [QAwake, QAsleep]\<rparr>"
  let ?d4 = "?d3\<lparr>dt_mStopWaiting := False, dt_quiesces := [QReturned, QAsleep]\<rparr>"
  have "dt_reach 1 dt_calm dt_demo_quiesce" by (rule dt_serial_reach [OF dt_demo_quiesce_serial])
  moreover have "dt_step dt_demo_quiesce ?s1"
    using dt_quiesce [of dt_demo_quiesce "ds_d ?s1"]
    by (simp add: dt_demo_quiesce_def dt_demo_def Quiesce_begin_def Quiesce_wait_def)
  moreover have "dt_step ?s1 ?s2"
    using dt_by_thread [OF dt_finish [of ?s1 0 "(False, 7)"]] by (simp add: dt_demo_quiesce_def dt_demo_def ds_at_def task_done_def)
  moreover have "dt_step ?s2 (?s2\<lparr>ds_d := ?d3\<rparr>)"
    using dt_by_thread [OF dt_enter [of ?s2 0 0]]
    by (simp add: dt_demo_quiesce_def dt_demo_def ds_at_def cv_pick_def WaitNextTask_enter_def dt_take_def ThreadExited_notify_one_def)
  moreover have "dt_step (?s2\<lparr>ds_d := ?d3\<rparr>) (?s2\<lparr>ds_d := ?d4\<rparr>)"
    using dt_by_thread [OF dt_quiesced [of 0 "?s2\<lparr>ds_d := ?d3\<rparr>" ?d4]] by (simp add: dt_demo_quiesce_def dt_demo_def Quiesce_wait_def)
  ultimately have "dt_reach 1 dt_calm (?s2\<lparr>ds_d := ?d4\<rparr>)" by (meson dt_more)
  moreover have "\<nexists>t. dt_thread (?s2\<lparr>ds_d := ?d4\<rparr>) t"
    by (auto simp: ds_at_def less_Suc_eq elim!: dt_thread.cases)
  ultimately show ?thesis by (intro exI [of _ "?s2\<lparr>ds_d := ?d4\<rparr>"]) simp
qed

end
