(* ===== verification/Task_Graph.thy ===== *)
theory Task_Graph
  imports Prelude
begin

text \<open>
  The static task graph of \<^verbatim>\<open>src/async/runtime/task_graph.h\<close> and \<^verbatim>\<open>task_graph.cpp\<close>. A node lives at
  an address of a store, because AddDependency and AddSuccessor update two nodes that may be the same
  object; the compute function of a node is a function on the client's memory. The executor runs as a
  set of activations of ProcessReadyNodeIndexs, the one of Execute and one per enqueued task, that
  interleave at every access to a shared counter. Counters are 32-bit signed, as in the source.
\<close>

subsection \<open>Nodes and graphs\<close>

type_synonym node_ptr = nat

record 'm TaskNode =
  mComputeFunc :: "'m \<Rightarrow> 'm"
  mDependencies :: "node_ptr list"
  mSuccessories :: "node_ptr list"

type_synonym 'm node_heap = "node_ptr \<Rightarrow> 'm TaskNode option"

record TaskGraph =
  tg_mNodeIndexInfo :: "node_ptr \<Rightarrow> u32 option"
  tg_mNodeCountInfo :: "node_ptr \<Rightarrow> int option"
  tg_mTaskNodes :: "node_ptr list"

text \<open>Conversion to a C++ int, and the value that \<open>operator[]\<close> of an unordered_map reads: a missing
  key is inserted with value zero.\<close>

definition to_int32 :: "int \<Rightarrow> int" where
  "to_int32 x = sint (word_of_int x :: u32)"

definition umap_get :: "('k \<Rightarrow> 'v::zero option) \<Rightarrow> 'k \<Rightarrow> 'v" where
  "umap_get m k = (case m k of None \<Rightarrow> 0 | Some v \<Rightarrow> v)"

definition TaskNode_new :: "('m \<Rightarrow> 'm) \<Rightarrow> 'm TaskNode" where
  "TaskNode_new f = \<lparr>mComputeFunc = f, mDependencies = [], mSuccessories = []\<rparr>"

definition node_at :: "'m node_heap \<Rightarrow> node_ptr \<Rightarrow> 'm TaskNode" where
  "node_at h a = (case h a of Some n \<Rightarrow> n | None \<Rightarrow> TaskNode_new id)"

definition push_successor :: "node_ptr \<Rightarrow> node_ptr \<Rightarrow> 'm node_heap \<Rightarrow> 'm node_heap" where
  "push_successor a b h = h(a := map_option (mSuccessories_update (\<lambda>xs. xs @ [b])) (h a))"

definition push_dependency :: "node_ptr \<Rightarrow> node_ptr \<Rightarrow> 'm node_heap \<Rightarrow> 'm node_heap" where
  "push_dependency a b h = h(a := map_option (mDependencies_update (\<lambda>xs. xs @ [b])) (h a))"

definition TaskNode_AddDependency :: "'m node_heap \<Rightarrow> node_ptr \<Rightarrow> node_ptr \<Rightarrow> 'm node_heap" where
  "TaskNode_AddDependency h this node = push_dependency this node (push_successor node this h)"

definition TaskNode_AddSuccessor :: "'m node_heap \<Rightarrow> node_ptr \<Rightarrow> node_ptr \<Rightarrow> 'm node_heap" where
  "TaskNode_AddSuccessor h this node = push_dependency node this (push_successor this node h)"

definition TaskGraph_new :: TaskGraph where
  "TaskGraph_new = \<lparr>tg_mNodeIndexInfo = Map.empty, tg_mNodeCountInfo = Map.empty, tg_mTaskNodes = []\<rparr>"

text \<open>\<open>emplace\<close> puts a new node at the address \<open>a\<close> that \<open>new\<close> returns.\<close>

definition TaskGraph_emplace ::
  "'m node_heap \<Rightarrow> TaskGraph \<Rightarrow> node_ptr \<Rightarrow> ('m \<Rightarrow> 'm) \<Rightarrow> 'm node_heap \<times> TaskGraph" where
  "TaskGraph_emplace h g a f = (h(a \<mapsto> TaskNode_new f), g\<lparr>tg_mTaskNodes := tg_mTaskNodes g @ [a]\<rparr>)"

definition build_node :: "'m node_heap \<Rightarrow> TaskGraph \<Rightarrow> nat \<Rightarrow> TaskGraph" where
  "build_node h g i =
     (let a = tg_mTaskNodes g ! i in
      g\<lparr>tg_mNodeIndexInfo := (tg_mNodeIndexInfo g)(a \<mapsto> of_nat i),
        tg_mNodeCountInfo := (tg_mNodeCountInfo g)(a \<mapsto> to_int32 (int (length (mDependencies (node_at h a)))))\<rparr>)"

definition TaskGraph_BuildGraph :: "'m node_heap \<Rightarrow> TaskGraph \<Rightarrow> TaskGraph" where
  "TaskGraph_BuildGraph h g = foldl (build_node h) g [0..<length (tg_mTaskNodes g)]"

subsection \<open>The executor\<close>

text \<open>
  An activation is the call of ProcessReadyNodeIndexs of the caller of Execute or of an enqueued
  closure. Its program points: the loop test with the ready list; the for loop that enqueues all
  ready nodes but the first; the call of ProcessReadyNodeIndex on the first; inside it, after the node
  ran, the traversal of the successors with the old total and the new ready list. The caller then
  waits in Await when it runs synchronously. \<open>Finished\<close> is after the activation dropped its reference.
\<close>

datatype tg_pc =
    TLoop (tg_main: bool) "nat list"
  | TSpawn (tg_main: bool) nat "nat list"
  | TRun (tg_main: bool) nat
  | TCount (tg_main: bool) node_ptr
  | TSucc (tg_main: bool) int "node_ptr list" "nat list"
  | TAwait
  | TFinished

record 'm TaskGraphExecutor =
  te_mNodeCountInfo :: "node_ptr \<Rightarrow> int option"
  te_mTotalTaskCount :: int
  te_emplaced :: nat
  te_refs :: int
  te_mem :: 'm
  te_ran :: "node_ptr list"

text \<open>\<open>te_emplaced\<close> counts the calls of emplace on mFinishChain (the value is available from the first
  one on, and emplace asserts that there is no second one); \<open>te_mem\<close> is the client's memory and
  \<open>te_ran\<close> the log of the nodes run.\<close>

definition TaskGraphExecutor_new :: "TaskGraph \<Rightarrow> 'm \<Rightarrow> 'm TaskGraphExecutor" where
  "TaskGraphExecutor_new g mem =
     \<lparr>te_mNodeCountInfo = tg_mNodeCountInfo g,
      te_mTotalTaskCount = to_int32 (int (length (tg_mTaskNodes g))),
      te_emplaced = 0, te_refs = 1, te_mem = mem, te_ran = []\<rparr>"

definition ProcessStartNodeIndex :: "'m node_heap \<Rightarrow> TaskGraph \<Rightarrow> nat list" where
  "ProcessStartNodeIndex h g =
     map (\<lambda>a. unat (umap_get (tg_mNodeIndexInfo g) a))
       (filter (\<lambda>a. length (mDependencies (node_at h a)) = 0) (tg_mTaskNodes g))"

definition te_DropRef :: "'m TaskGraphExecutor \<Rightarrow> 'm TaskGraphExecutor" where
  "te_DropRef s = s\<lparr>te_refs := te_refs s - 1\<rparr>"

text \<open>One atomic step of an activation: its next program point, the new executor state and the
  activations it enqueued. \<open>None\<close>: it cannot move (it waits, or it is finished).\<close>

fun ProcessReady_step ::
  "'m node_heap \<Rightarrow> TaskGraph \<Rightarrow> bool \<Rightarrow> tg_pc \<Rightarrow> 'm TaskGraphExecutor \<Rightarrow>
     (tg_pc \<times> 'm TaskGraphExecutor \<times> tg_pc list) option" where
  "ProcessReady_step h g sync (TLoop m (x # xs)) s = Some (TSpawn m x xs, s, [])"
| "ProcessReady_step h g sync (TSpawn m x (y # ys)) s =
     Some (TSpawn m x ys, s\<lparr>te_refs := te_refs s + 1\<rparr>, [TLoop False [y]])"
| "ProcessReady_step h g sync (TSpawn m x []) s = Some (TRun m x, s, [])"
| "ProcessReady_step h g sync (TRun m x) s =
     (let node = tg_mTaskNodes g ! x in
      Some (TCount m node,
        s\<lparr>te_mem := mComputeFunc (node_at h node) (te_mem s), te_ran := te_ran s @ [node]\<rparr>, []))"
| "ProcessReady_step h g sync (TCount m node) s =
     Some (TSucc m (te_mTotalTaskCount s) (mSuccessories (node_at h node)) [],
       s\<lparr>te_mTotalTaskCount := to_int32 (te_mTotalTaskCount s - 1)\<rparr>, [])"
| "ProcessReady_step h g sync (TSucc m old_total (successor # rest) ready) s =
     (let old = umap_get (te_mNodeCountInfo s) successor in
      Some (TSucc m old_total rest
              (if old = 1 then ready @ [unat (umap_get (tg_mNodeIndexInfo g) successor)] else ready),
        s\<lparr>te_mNodeCountInfo := (te_mNodeCountInfo s)(successor \<mapsto> to_int32 (old - 1))\<rparr>, []))"
| "ProcessReady_step h g sync (TSucc m old_total [] ready) s =
     Some (TLoop m ready, if old_total = 1 then s\<lparr>te_emplaced := te_emplaced s + 1\<rparr> else s, [])"
| "ProcessReady_step h g sync (TLoop m []) s =
     (if m \<and> sync then Some (TAwait, s, []) else Some (TFinished, te_DropRef s, []))"
| "ProcessReady_step h g sync TAwait s =
     (if te_emplaced s = 0 then None else Some (TFinished, te_DropRef s, []))"
| "ProcessReady_step h g sync TFinished s = None"

type_synonym 'm tg_sys = "'m TaskGraphExecutor \<times> tg_pc list"

text \<open>RunTaskGraph: a new executor whose Execute is the first activation.\<close>

definition RunTaskGraph :: "'m node_heap \<Rightarrow> TaskGraph \<Rightarrow> 'm \<Rightarrow> 'm tg_sys" where
  "RunTaskGraph h g mem = (TaskGraphExecutor_new g mem, [TLoop True (ProcessStartNodeIndex h g)])"

definition tg_act :: "'m node_heap \<Rightarrow> TaskGraph \<Rightarrow> bool \<Rightarrow> nat \<Rightarrow> 'm tg_sys \<Rightarrow> 'm tg_sys option" where
  "tg_act h g sync i sys =
     (case sys of (s, ps) \<Rightarrow>
        if i < length ps
        then (case ProcessReady_step h g sync (ps ! i) s of
                None \<Rightarrow> None
              | Some (p, s', new) \<Rightarrow> Some (s', ps[i := p] @ new))
        else None)"

inductive tg_step :: "'m node_heap \<Rightarrow> TaskGraph \<Rightarrow> bool \<Rightarrow> 'm tg_sys \<Rightarrow> 'm tg_sys \<Rightarrow> bool"
  for h g sync where
  "tg_act h g sync i sys = Some sys' \<Longrightarrow> tg_step h g sync sys sys'"

inductive tg_reach :: "'m node_heap \<Rightarrow> TaskGraph \<Rightarrow> bool \<Rightarrow> 'm \<Rightarrow> 'm tg_sys \<Rightarrow> bool"
  for h g sync mem where
  start: "tg_reach h g sync mem (RunTaskGraph h g mem)"
| step: "tg_reach h g sync mem sys \<Longrightarrow> tg_step h g sync sys sys' \<Longrightarrow> tg_reach h g sync mem sys'"

fun tg_schedule :: "'m node_heap \<Rightarrow> TaskGraph \<Rightarrow> bool \<Rightarrow> nat list \<Rightarrow> 'm tg_sys \<Rightarrow> 'm tg_sys option" where
  "tg_schedule h g sync [] sys = Some sys"
| "tg_schedule h g sync (i # is) sys =
     (case tg_act h g sync i sys of None \<Rightarrow> None | Some sys' \<Rightarrow> tg_schedule h g sync is sys')"

lemma tg_schedule_reach:
  "tg_reach h g sync mem sys \<Longrightarrow> tg_schedule h g sync is sys = Some sys' \<Longrightarrow> tg_reach h g sync mem sys'"
proof (induction "is" arbitrary: sys)
  case (Cons i "is")
  then obtain sys1 where "tg_act h g sync i sys = Some sys1" "tg_schedule h g sync is sys1 = Some sys'"
    by (auto split: option.splits)
  with Cons show ?case by (blast intro: tg_reach.step tg_step.intros)
qed simp

subsection \<open>Well-formed graphs\<close>

definition deps :: "'m node_heap \<Rightarrow> node_ptr \<Rightarrow> node_ptr list" where
  "deps h a = mDependencies (node_at h a)"

definition succs :: "'m node_heap \<Rightarrow> node_ptr \<Rightarrow> node_ptr list" where
  "succs h a = mSuccessories (node_at h a)"

text \<open>The nodes are distinct objects of the store, edges stay inside the graph and are recorded on
  both sides, and the sizes fit an int.\<close>

definition tg_wf :: "'m node_heap \<Rightarrow> TaskGraph \<Rightarrow> bool" where
  "tg_wf h g \<longleftrightarrow>
     distinct (tg_mTaskNodes g) \<and> length (tg_mTaskNodes g) < 2 ^ 31 \<and>
     (\<forall>a \<in> set (tg_mTaskNodes g). h a \<noteq> None \<and> set (succs h a) \<subseteq> set (tg_mTaskNodes g) \<and>
        set (deps h a) \<subseteq> set (tg_mTaskNodes g) \<and> length (deps h a) < 2 ^ 31 \<and>
        (\<forall>b \<in> set (tg_mTaskNodes g). count_list (deps h b) a = count_list (succs h a) b))"

definition tg_edges :: "'m node_heap \<Rightarrow> TaskGraph \<Rightarrow> (node_ptr \<times> node_ptr) set" where
  "tg_edges h g = {(a, b). a \<in> set (tg_mTaskNodes g) \<and> b \<in> set (succs h a)}"

subsection \<open>Building keeps graphs well formed\<close>

lemma to_int32_small: "0 \<le> x \<Longrightarrow> x < 2 ^ 31 \<Longrightarrow> to_int32 x = x"
  unfolding to_int32_def by (rule sint_small) auto

lemma node_at_push [simp]:
  "node_at (push_successor a b h) c =
     (if c = a \<and> h a \<noteq> None then (node_at h a)\<lparr>mSuccessories := succs h a @ [b]\<rparr> else node_at h c)"
  "node_at (push_dependency a b h) c =
     (if c = a \<and> h a \<noteq> None then (node_at h a)\<lparr>mDependencies := deps h a @ [b]\<rparr> else node_at h c)"
  by (auto simp: node_at_def push_successor_def push_dependency_def succs_def deps_def split: option.splits)

lemma push_dom [simp]:
  "push_successor a b h c = None \<longleftrightarrow> h c = None" "push_dependency a b h c = None \<longleftrightarrow> h c = None"
  by (auto simp: push_successor_def push_dependency_def)

lemma succs_push [simp]:
  "succs (push_successor a b h) c = (if c = a \<and> h a \<noteq> None then succs h a @ [b] else succs h c)"
  "succs (push_dependency a b h) c = succs h c"
  by (auto simp: succs_def)

lemma deps_push [simp]:
  "deps (push_dependency a b h) c = (if c = a \<and> h a \<noteq> None then deps h a @ [b] else deps h c)"
  "deps (push_successor a b h) c = deps h c"
  by (auto simp: deps_def)

lemma tg_wf_new: "tg_wf h TaskGraph_new"
  by (simp add: tg_wf_def TaskGraph_new_def)

lemma TaskNode_AddDependency_wf:
  assumes "tg_wf h g" "a \<in> set (tg_mTaskNodes g)" "b \<in> set (tg_mTaskNodes g)"
    "length (deps h a) + 1 < 2 ^ 31"
  shows "tg_wf (TaskNode_AddDependency h a b) g"
  using assms by (auto simp: tg_wf_def TaskNode_AddDependency_def)

lemma TaskNode_AddSuccessor_eq: "TaskNode_AddSuccessor h a b = TaskNode_AddDependency h b a"
  by (simp add: TaskNode_AddDependency_def TaskNode_AddSuccessor_def)

lemma TaskNode_AddDependency_edges:
  assumes "tg_wf h g" "a \<in> set (tg_mTaskNodes g)" "b \<in> set (tg_mTaskNodes g)"
  shows "tg_edges (TaskNode_AddDependency h a b) g = insert (b, a) (tg_edges h g)"
  using assms by (auto simp: tg_wf_def tg_edges_def TaskNode_AddDependency_def split: if_splits)

lemma tg_wf_fresh:
  assumes "tg_wf h g" "h a = None"
  shows "a \<notin> set (tg_mTaskNodes g)" "\<forall>b \<in> set (tg_mTaskNodes g). a \<notin> set (succs h b) \<and> a \<notin> set (deps h b)"
  using assms unfolding tg_wf_def by (blast, metis subsetD)

lemma TaskGraph_emplace_wf:
  assumes "tg_wf h g" "h a = None" "length (tg_mTaskNodes g) + 1 < 2 ^ 31"
    and "TaskGraph_emplace h g a f = (h', g')"
  shows "tg_wf h' g'" "tg_edges h' g' = tg_edges h g"
proof -
  have h': "h' = h(a \<mapsto> TaskNode_new f)" and g': "tg_mTaskNodes g' = tg_mTaskNodes g @ [a]"
    using assms(4) by (auto simp: TaskGraph_emplace_def)
  have old: "succs h' b = succs h b" "deps h' b = deps h b" if "b \<in> set (tg_mTaskNodes g)" for b
    using that tg_wf_fresh(1) [OF assms(1,2)] by (auto simp: succs_def deps_def node_at_def h')
  have new: "succs h' a = []" "deps h' a = []"
    by (simp_all add: succs_def deps_def node_at_def h' TaskNode_new_def)
  show "tg_wf h' g'"
    using assms(1,3) tg_wf_fresh [OF assms(1,2)] old new
    by (auto simp: tg_wf_def g' h' count_list_0_iff)
  show "tg_edges h' g' = tg_edges h g"
    using old new by (auto simp: tg_edges_def g')
qed

subsection \<open>What the executor relies on\<close>

text \<open>The interface between TaskGraph and TaskGraphExecutor: BuildGraph leaves the nodes alone, its
  index table inverts the node vector and its count table holds the number of dependencies.\<close>

locale graph_builder =
  fixes build :: "'m node_heap \<Rightarrow> TaskGraph \<Rightarrow> TaskGraph"
  assumes build_nodes: "tg_mTaskNodes (build h g) = tg_mTaskNodes g"
    and build_index: "tg_wf h g \<Longrightarrow> i < length (tg_mTaskNodes g) \<Longrightarrow>
        tg_mNodeIndexInfo (build h g) (tg_mTaskNodes g ! i) = Some (of_nat i)"
    and build_count: "tg_wf h g \<Longrightarrow> a \<in> set (tg_mTaskNodes g) \<Longrightarrow>
        tg_mNodeCountInfo (build h g) a = Some (int (length (deps h a)))"

lemma build_nodes_foldl: "tg_mTaskNodes (foldl (build_node h) g is) = tg_mTaskNodes g"
  by (induction "is" arbitrary: g) (simp_all add: build_node_def Let_def)

lemma build_upto:
  assumes "tg_wf h g" "k \<le> length (tg_mTaskNodes g)"
  shows "\<forall>i < k. tg_mNodeIndexInfo (foldl (build_node h) g [0..<k]) (tg_mTaskNodes g ! i) = Some (of_nat i) \<and>
            tg_mNodeCountInfo (foldl (build_node h) g [0..<k]) (tg_mTaskNodes g ! i) =
              Some (int (length (deps h (tg_mTaskNodes g ! i))))"
  using assms(2)
proof (induction k)
  case (Suc k)
  let ?g = "foldl (build_node h) g [0..<k]"
  note nodes = build_nodes_foldl [of h g "[0..<k]"]
  have ne: "tg_mTaskNodes g ! i \<noteq> tg_mTaskNodes g ! k" if "i < k" for i
    using that assms(1) Suc.prems by (simp add: tg_wf_def nth_eq_iff_index_eq)
  have "tg_mTaskNodes g ! k \<in> set (tg_mTaskNodes g)" using Suc.prems by simp
  then have "int (length (deps h (tg_mTaskNodes g ! k))) < 2 ^ 31"
    using assms(1) unfolding tg_wf_def by fastforce
  then have "to_int32 (int (length (deps h (tg_mTaskNodes g ! k)))) = int (length (deps h (tg_mTaskNodes g ! k)))"
    by (intro to_int32_small) auto
  then show ?case
    using Suc ne by (auto simp: build_node_def [of h ?g] Let_def nodes less_Suc_eq deps_def)
qed simp

interpretation tgb: graph_builder TaskGraph_BuildGraph
proof unfold_locales
  fix h :: "'a node_heap" and g a
  show "tg_mTaskNodes (TaskGraph_BuildGraph h g) = tg_mTaskNodes g"
    by (simp add: TaskGraph_BuildGraph_def build_nodes_foldl)
  show "tg_mNodeIndexInfo (TaskGraph_BuildGraph h g) (tg_mTaskNodes g ! i) = Some (of_nat i)"
    if "tg_wf h g" "i < length (tg_mTaskNodes g)" for i
    using build_upto [OF that(1) order.refl] that(2) by (simp add: TaskGraph_BuildGraph_def)
  show "tg_mNodeCountInfo (TaskGraph_BuildGraph h g) a = Some (int (length (deps h a)))"
    if "tg_wf h g" "a \<in> set (tg_mTaskNodes g)"
    using build_upto [OF that(1) order.refl] that(2)
    by (auto simp: TaskGraph_BuildGraph_def in_set_conv_nth)
qed

subsection \<open>The invariant of an execution\<close>

text \<open>What an activation still holds: the nodes it has found ready and not run, and the edges it has
  not signalled yet.\<close>

fun pc_ids :: "tg_pc \<Rightarrow> nat list" where
  "pc_ids (TLoop m xs) = xs"
| "pc_ids (TSpawn m x xs) = x # xs"
| "pc_ids (TRun m x) = [x]"
| "pc_ids (TSucc m c rest ready) = ready"
| "pc_ids p = []"

fun pc_edges :: "'m node_heap \<Rightarrow> tg_pc \<Rightarrow> node_ptr list" where
  "pc_edges h (TCount m a) = succs h a"
| "pc_edges h (TSucc m c rest ready) = rest"
| "pc_edges h p = []"

definition pc_held :: "TaskGraph \<Rightarrow> node_ptr \<Rightarrow> tg_pc \<Rightarrow> int" where
  "pc_held g v p = int (count_list (map ((!) (tg_mTaskNodes g)) (pc_ids p)) v)"

definition pc_owed :: "'m node_heap \<Rightarrow> node_ptr \<Rightarrow> tg_pc \<Rightarrow> int" where
  "pc_owed h v p = int (count_list (pc_edges h p) v)"

fun pc_uncounted :: "tg_pc \<Rightarrow> int" where
  "pc_uncounted (TCount m a) = 1"
| "pc_uncounted p = 0"

fun pc_last :: "tg_pc \<Rightarrow> int" where
  "pc_last (TSucc m c rest ready) = of_bool (c = 1)"
| "pc_last p = 0"

definition pc_live :: "tg_pc \<Rightarrow> int" where
  "pc_live p = of_bool (p \<noteq> TFinished)"

definition tot :: "(tg_pc \<Rightarrow> int) \<Rightarrow> tg_pc list \<Rightarrow> int" where
  "tot f ps = (\<Sum>p\<leftarrow>ps. f p)"

text \<open>The edges into \<open>v\<close> from nodes that have not run.\<close>

definition tg_missing :: "'m node_heap \<Rightarrow> TaskGraph \<Rightarrow> node_ptr list \<Rightarrow> node_ptr \<Rightarrow> int" where
  "tg_missing h g rs v = (\<Sum>u \<in> set (tg_mTaskNodes g) - set rs. int (count_list (succs h u) v))"

definition pc_ok :: "'m node_heap \<Rightarrow> TaskGraph \<Rightarrow> tg_pc \<Rightarrow> bool" where
  "pc_ok h g p \<longleftrightarrow> (\<forall>x \<in> set (pc_ids p). x < length (tg_mTaskNodes g)) \<and>
     set (pc_edges h p) \<subseteq> set (tg_mTaskNodes g)"

definition tg_inv :: "'m node_heap \<Rightarrow> TaskGraph \<Rightarrow> 'm \<Rightarrow> 'm tg_sys \<Rightarrow> bool" where
  "tg_inv h g mem sys \<longleftrightarrow> (case sys of (s, ps) \<Rightarrow>
     list_all (pc_ok h g) ps \<and>
     set (te_ran s) \<subseteq> set (tg_mTaskNodes g) \<and>
     (\<forall>v \<in> set (tg_mTaskNodes g). \<exists>c. te_mNodeCountInfo s v = Some c \<and>
        c = tg_missing h g (te_ran s) v + tot (pc_owed h v) ps \<and> c < 2 ^ 31 \<and>
        tot (pc_held g v) ps + int (count_list (te_ran s) v) = of_bool (c = 0)) \<and>
     te_mTotalTaskCount s = int (length (tg_mTaskNodes g)) - int (length (te_ran s)) + tot pc_uncounted ps \<and>
     te_mTotalTaskCount s \<le> int (length (tg_mTaskNodes g)) \<and>
     (tg_mTaskNodes g \<noteq> [] \<longrightarrow> int (te_emplaced s) + tot pc_last ps = of_bool (te_mTotalTaskCount s = 0)) \<and>
     te_refs s = tot pc_live ps \<and>
     (\<forall>i < length (te_ran s). set (deps h (te_ran s ! i)) \<subseteq> set (take i (te_ran s))) \<and>
     te_mem s = foldl (\<lambda>m a. mComputeFunc (node_at h a) m) mem (te_ran s))"

lemma tot_simps [simp]:
  "tot f [] = 0" "tot f (p # ps) = f p + tot f ps" "tot f (ps @ qs) = tot f ps + tot f qs"
  by (simp_all add: tot_def)

lemma tot_update: "i < length ps \<Longrightarrow> tot f (ps[i := p]) = tot f ps - f (ps ! i) + f p"
  by (induction ps arbitrary: i) (auto simp: nth_Cons' split: nat.splits)

lemma tot_nonneg: "(\<And>p. 0 \<le> f p) \<Longrightarrow> 0 \<le> tot f ps"
  by (induction ps) (auto simp: add_nonneg_nonneg)

lemma tot_ge: "(\<And>p. 0 \<le> f p) \<Longrightarrow> p \<in> set ps \<Longrightarrow> f p \<le> tot f ps"
  by (induction ps) (auto simp: add_increasing add_increasing2 tot_nonneg)

lemma tot_zero: "(\<And>p. p \<in> set ps \<Longrightarrow> f p = 0) \<Longrightarrow> tot f ps = 0"
  by (induction ps) auto

lemma pc_nonneg [simp]:
  "0 \<le> pc_held g v p" "0 \<le> pc_owed h v p" "0 \<le> pc_uncounted p" "0 \<le> pc_last p" "0 \<le> pc_live p"
  by (simp_all add: pc_held_def pc_owed_def pc_live_def) (cases p; simp)+

definition tg_indexed :: "TaskGraph \<Rightarrow> bool" where
  "tg_indexed g \<longleftrightarrow> (\<forall>a \<in> set (tg_mTaskNodes g).
     unat (umap_get (tg_mNodeIndexInfo g) a) < length (tg_mTaskNodes g) \<and>
     tg_mTaskNodes g ! unat (umap_get (tg_mNodeIndexInfo g) a) = a)"

lemma list_all_update: "list_all P xs \<Longrightarrow> P x \<Longrightarrow> list_all P (xs[i := x])"
  by (auto simp: list_all_iff dest: set_update_subset_insert [THEN subsetD])

text \<open>Steps that only move work between activations keep the invariant.\<close>

lemma tg_inv_move:
  assumes "tg_inv h g mem (s, ps)" "i < length ps"
    and "\<And>v. pc_held g v p + tot (pc_held g v) new = pc_held g v (ps ! i)"
    and "\<And>v. pc_owed h v p + tot (pc_owed h v) new = pc_owed h v (ps ! i)"
    and "pc_uncounted p + tot pc_uncounted new = pc_uncounted (ps ! i)"
    and "int (te_emplaced s') + pc_last p + tot pc_last new = int (te_emplaced s) + pc_last (ps ! i)"
    and "te_refs s' - te_refs s = pc_live p + tot pc_live new - pc_live (ps ! i)"
    and "pc_ok h g (ps ! i) \<Longrightarrow> list_all (pc_ok h g) (p # new)"
    and "te_mNodeCountInfo s' = te_mNodeCountInfo s" "te_mTotalTaskCount s' = te_mTotalTaskCount s"
    and "te_mem s' = te_mem s" "te_ran s' = te_ran s"
  shows "tg_inv h g mem (s', ps[i := p] @ new)"
proof -
  have up: "tot f (ps[i := p] @ new) = tot f ps" if "f p + tot f new = f (ps ! i)" for f
    using tot_update [OF assms(2), of f p] that by simp
  have all: "list_all (pc_ok h g) ps" using assms(1) by (simp add: tg_inv_def)
  then have "pc_ok h g (ps ! i)" using assms(2) by (simp add: list_all_length)
  then have "pc_ok h g p" "list_all (pc_ok h g) new" using assms(8) by simp_all
  with all have "list_all (pc_ok h g) (ps[i := p] @ new)" by (simp add: list_all_update)
  moreover have "int (te_emplaced s') + tot pc_last (ps[i := p] @ new) = int (te_emplaced s) + tot pc_last ps"
    using tot_update [OF assms(2), of pc_last p] assms(6) by simp
  moreover have "tot pc_live (ps[i := p] @ new) = tot pc_live ps + te_refs s' - te_refs s"
    using tot_update [OF assms(2), of pc_live p] assms(7) by simp
  moreover note up [OF assms(3)] up [OF assms(4)] up [OF assms(5)]
  ultimately show ?thesis
    using assms(1) unfolding tg_inv_def prod.case assms(9-12) by simp
qed

lemma tg_inv_ranD:
  assumes "tg_inv h g mem (s, ps)" "tg_wf h g"
  shows "distinct (te_ran s)" "length (te_ran s) \<le> length (tg_mTaskNodes g)"
proof -
  have "count_list (te_ran s) v \<le> 1" for v
  proof (cases "v \<in> set (tg_mTaskNodes g)")
    case True
    then have "tot (pc_held g v) ps + int (count_list (te_ran s) v) \<le> 1"
      using assms(1) unfolding tg_inv_def by fastforce
    moreover have "0 \<le> tot (pc_held g v) ps" by (rule tot_nonneg) simp
    ultimately show ?thesis by linarith
  next
    case False
    then have "v \<notin> set (te_ran s)" using assms(1) by (auto simp: tg_inv_def)
    then show ?thesis by simp
  qed
  then show d: "distinct (te_ran s)"
    by (rule distinct_count_list)
  have "card (set (te_ran s)) \<le> card (set (tg_mTaskNodes g))"
    using assms(1) by (intro card_mono) (auto simp: tg_inv_def)
  with d assms(2) show "length (te_ran s) \<le> length (tg_mTaskNodes g)"
    by (simp add: distinct_card tg_wf_def)
qed

text \<open>Running a ready node: the node has not run, all its dependencies have, and its edges become
  edges to signal.\<close>

lemma tg_missing_run:
  assumes "a \<in> set (tg_mTaskNodes g)" "a \<notin> set rs"
  shows "tg_missing h g (rs @ [a]) v + int (count_list (succs h a) v) = tg_missing h g rs v"
proof -
  let ?S = "set (tg_mTaskNodes g) - set (rs @ [a])"
  have ins: "set (tg_mTaskNodes g) - set rs = insert a ?S" using assms by auto
  have "(\<Sum>u\<in>insert a ?S. int (count_list (succs h u) v)) =
      int (count_list (succs h a) v) + (\<Sum>u\<in>?S. int (count_list (succs h u) v))"
    by (rule sum.insert) auto
  then show ?thesis unfolding tg_missing_def ins by simp
qed

lemma tg_missing_nonneg: "0 \<le> tg_missing h g rs v"
  by (simp add: tg_missing_def sum_nonneg)

lemma tg_missing_0:
  assumes "tg_missing h g rs v = 0" "tg_wf h g" "v \<in> set (tg_mTaskNodes g)"
  shows "set (deps h v) \<subseteq> set rs"
proof
  fix u assume u: "u \<in> set (deps h v)"
  then have un: "u \<in> set (tg_mTaskNodes g)" using assms(2,3) unfolding tg_wf_def by blast
  have "int (count_list (succs h u) v) \<le> tg_missing h g rs v" if "u \<notin> set rs"
    unfolding tg_missing_def using un that by (intro member_le_sum) auto
  then have "count_list (succs h u) v = 0" if "u \<notin> set rs" using assms(1) that by simp
  moreover have "count_list (deps h v) u = count_list (succs h u) v"
    using assms(2,3) un unfolding tg_wf_def by blast
  moreover have "count_list (deps h v) u \<noteq> 0" using u by (simp add: count_list_0_iff)
  ultimately show "u \<in> set rs" by auto
qed

lemma tg_inv_held:
  assumes "tg_inv h g mem (s, ps)" "p \<in> set ps" "x \<in> set (pc_ids p)"
  shows "tg_mTaskNodes g ! x \<in> set (tg_mTaskNodes g)" "tg_mTaskNodes g ! x \<notin> set (te_ran s)"
    "tg_missing h g (te_ran s) (tg_mTaskNodes g ! x) = 0"
proof -
  let ?a = "tg_mTaskNodes g ! x"
  show a: "?a \<in> set (tg_mTaskNodes g)"
    using assms by (auto simp: tg_inv_def list_all_iff pc_ok_def)
  have "?a \<in> set (map ((!) (tg_mTaskNodes g)) (pc_ids p))" using assms(3) by simp
  then have "1 \<le> pc_held g ?a p" unfolding pc_held_def by (metis One_nat_def Suc_leI count_list_0_iff gr0I of_nat_1 of_nat_le_iff)
  also have "\<dots> \<le> tot (pc_held g ?a) ps" by (rule tot_ge [OF _ assms(2)]) simp
  finally have held: "1 \<le> tot (pc_held g ?a) ps" .
  obtain c where c: "c = tg_missing h g (te_ran s) ?a + tot (pc_owed h ?a) ps"
     "tot (pc_held g ?a) ps + int (count_list (te_ran s) ?a) = of_bool (c = 0)"
    using assms(1) a unfolding tg_inv_def by fastforce
  from c(2) held have "c = 0" by (cases "c = 0") simp_all
  with c(2) held have "count_list (te_ran s) ?a = 0" by simp
  then show "?a \<notin> set (te_ran s)" by (simp add: count_list_0_iff)
  have "0 \<le> tot (pc_owed h ?a) ps" by (rule tot_nonneg) simp
  with c(1) \<open>c = 0\<close> tg_missing_nonneg [of h g "te_ran s" ?a]
  show "tg_missing h g (te_ran s) ?a = 0" by linarith
qed

lemma tg_inv_run:
  assumes inv: "tg_inv h g mem (s, ps)" and wf: "tg_wf h g" and i: "i < length ps" "ps ! i = TRun m x"
    and a: "a = tg_mTaskNodes g ! x"
    and s': "s' = s\<lparr>te_mem := mComputeFunc (node_at h a) (te_mem s), te_ran := te_ran s @ [a]\<rparr>"
  shows "tg_inv h g mem (s', ps[i := TCount m a])"
proof -
  have "TRun m x \<in> set ps" using i by (metis nth_mem)
  then have a_in: "a \<in> set (tg_mTaskNodes g)" and a_new: "a \<notin> set (te_ran s)"
    and a_rdy: "set (deps h a) \<subseteq> set (te_ran s)"
    using tg_inv_held [OF inv] tg_missing_0 [OF _ wf] by (simp_all add: a)
  note up = tot_update [OF i(1), of _ "TCount m a"] i(2)
  have held: "tot (pc_held g v) (ps[i := TCount m a]) = tot (pc_held g v) ps - of_bool (v = a)" for v
    by (simp add: up pc_held_def a [symmetric])
  have owed: "tot (pc_owed h v) (ps[i := TCount m a]) = tot (pc_owed h v) ps + int (count_list (succs h a) v)" for v
    by (simp add: up pc_owed_def)
  have rest: "tot pc_uncounted (ps[i := TCount m a]) = tot pc_uncounted ps + 1"
    "tot pc_last (ps[i := TCount m a]) = tot pc_last ps" "tot pc_live (ps[i := TCount m a]) = tot pc_live ps"
    by (simp_all add: up pc_live_def)
  have ok: "list_all (pc_ok h g) (ps[i := TCount m a])"
    using inv wf a_in by (intro list_all_update) (auto simp: tg_inv_def pc_ok_def tg_wf_def)
  have nodes: "\<exists>c. te_mNodeCountInfo s v = Some c \<and>
        c = tg_missing h g (te_ran s @ [a]) v + tot (pc_owed h v) (ps[i := TCount m a]) \<and> c < 2 ^ 31 \<and>
        tot (pc_held g v) (ps[i := TCount m a]) + int (count_list (te_ran s @ [a]) v) = of_bool (c = 0)"
    if "v \<in> set (tg_mTaskNodes g)" for v
    using inv that tg_missing_run [OF a_in a_new, of h v] unfolding tg_inv_def prod.case owed held
    by (auto simp: algebra_simps)
  have order: "\<forall>j < length (te_ran s @ [a]).
      set (deps h ((te_ran s @ [a]) ! j)) \<subseteq> set (take j (te_ran s @ [a]))"
    using inv a_rdy by (auto simp: tg_inv_def nth_append less_Suc_eq)
  show ?thesis
    using inv ok nodes order a_in rest unfolding tg_inv_def prod.case s' by simp
qed

lemma tg_inv_count:
  assumes inv: "tg_inv h g mem (s, ps)" and wf: "tg_wf h g" and i: "i < length ps" "ps ! i = TCount m a"
    and t: "te_mTotalTaskCount s = t" and p: "p = TSucc m t (succs h a) []"
  shows "tg_inv h g mem (s\<lparr>te_mTotalTaskCount := to_int32 (t - 1)\<rparr>, ps[i := p])"
proof -
  have "TCount m a \<in> set ps" using i by (metis nth_mem)
  then have "1 \<le> tot pc_uncounted ps" using tot_ge [of pc_uncounted "TCount m a" ps] by simp
  moreover have "t = int (length (tg_mTaskNodes g)) - int (length (te_ran s)) + tot pc_uncounted ps"
    using inv t by (simp add: tg_inv_def)
  ultimately have pos: "1 \<le> t" using tg_inv_ranD(2) [OF inv wf] by linarith
  have "t \<le> int (length (tg_mTaskNodes g))" using inv t by (simp add: tg_inv_def)
  moreover have "length (tg_mTaskNodes g) < 2 ^ 31" using wf by (simp add: tg_wf_def)
  ultimately have dec: "to_int32 (t - 1) = t - 1" using pos by (intro to_int32_small) auto
  note up = tot_update [OF i(1)] i(2)
  have sums: "tot (pc_held g v) (ps[i := p]) = tot (pc_held g v) ps"
    "tot (pc_owed h v) (ps[i := p]) = tot (pc_owed h v) ps"
    "tot pc_uncounted (ps[i := p]) = tot pc_uncounted ps - 1"
    "tot pc_last (ps[i := p]) = tot pc_last ps + of_bool (t = 1)"
    "tot pc_live (ps[i := p]) = tot pc_live ps" for v
    by (simp_all add: up pc_held_def pc_owed_def pc_live_def p)
  have "pc_ok h g (TCount m a)" using inv i by (metis (no_types, lifting) case_prodD list_all_length tg_inv_def)
  then have "pc_ok h g p" by (simp add: pc_ok_def p)
  then have ok: "list_all (pc_ok h g) (ps[i := p])" using inv by (simp add: list_all_update tg_inv_def)
  have last: "tg_mTaskNodes g \<noteq> [] \<longrightarrow> int (te_emplaced s) + tot pc_last (ps[i := p]) = of_bool (t - 1 = 0)"
    using inv pos unfolding tg_inv_def prod.case sums t by auto
  show ?thesis
    using inv ok last unfolding tg_inv_def prod.case dec sums t by simp
qed

lemma tg_inv_signal:
  assumes inv: "tg_inv h g mem (s, ps)" and wf: "tg_wf h g" and ix: "tg_indexed g"
    and i: "i < length ps" "ps ! i = TSucc m t (a # rest) ready"
    and old: "old = umap_get (te_mNodeCountInfo s) a"
    and p: "p = TSucc m t rest (if old = 1 then ready @ [unat (umap_get (tg_mNodeIndexInfo g) a)] else ready)"
  shows "tg_inv h g mem (s\<lparr>te_mNodeCountInfo := (te_mNodeCountInfo s)(a \<mapsto> to_int32 (old - 1))\<rparr>, ps[i := p])"
proof -
  have mem: "ps ! i \<in> set ps" using i(1) by simp
  then have ok_i: "pc_ok h g (TSucc m t (a # rest) ready)"
    using inv i(2) unfolding tg_inv_def by (simp add: list_all_iff)
  then have a: "a \<in> set (tg_mTaskNodes g)" by (simp add: pc_ok_def)
  obtain c where c: "te_mNodeCountInfo s a = Some c"
      "c = tg_missing h g (te_ran s) a + tot (pc_owed h a) ps" "c < 2 ^ 31"
      "tot (pc_held g a) ps + int (count_list (te_ran s) a) = of_bool (c = 0)"
    using inv a unfolding tg_inv_def by fastforce
  have "1 \<le> pc_owed h a (ps ! i)" unfolding i(2) pc_owed_def by simp
  also have "\<dots> \<le> tot (pc_owed h a) ps" by (rule tot_ge [OF _ mem]) simp
  finally have pos: "1 \<le> c" using c(2) tg_missing_nonneg [of h g "te_ran s" a] by linarith
  have oldc: "old = c" using c(1) by (simp add: old umap_get_def)
  have dec: "to_int32 (old - 1) = c - 1" unfolding oldc using pos c(3) by (intro to_int32_small) auto
  have idx: "tg_mTaskNodes g ! unat (umap_get (tg_mNodeIndexInfo g) a) = a"
     "unat (umap_get (tg_mNodeIndexInfo g) a) < length (tg_mTaskNodes g)"
    using ix a by (auto simp: tg_indexed_def)
  note up = tot_update [OF i(1)] i(2)
  have held: "tot (pc_held g v) (ps[i := p]) = tot (pc_held g v) ps + of_bool (v = a \<and> c = 1)" for v
  proof -
    have "pc_held g v p = pc_held g v (ps ! i) + of_bool (v = a \<and> c = 1)"
      unfolding i(2) p by (auto simp: pc_held_def oldc idx)
    then show ?thesis by (simp add: tot_update [OF i(1)])
  qed
  have owed: "tot (pc_owed h v) (ps[i := p]) = tot (pc_owed h v) ps - of_bool (v = a)" for v
    by (simp add: up pc_owed_def p)
  have sums: "tot pc_uncounted (ps[i := p]) = tot pc_uncounted ps"
    "tot pc_last (ps[i := p]) = tot pc_last ps" "tot pc_live (ps[i := p]) = tot pc_live ps"
    by (simp_all add: up pc_live_def p)
  have "pc_ok h g p" using ok_i idx by (auto simp: pc_ok_def p)
  then have ok: "list_all (pc_ok h g) (ps[i := p])" using inv by (simp add: list_all_update tg_inv_def)
  have nodes: "\<exists>d. ((te_mNodeCountInfo s)(a \<mapsto> c - 1)) v = Some d \<and>
        d = tg_missing h g (te_ran s) v + tot (pc_owed h v) (ps[i := p]) \<and> d < 2 ^ 31 \<and>
        tot (pc_held g v) (ps[i := p]) + int (count_list (te_ran s) v) = of_bool (d = 0)"
    if "v \<in> set (tg_mTaskNodes g)" for v
  proof (cases "v = a")
    case True
    then show ?thesis unfolding held owed using c pos by auto
  next
    case False
    then show ?thesis unfolding held owed using inv that by (auto simp: tg_inv_def)
  qed
  show ?thesis
    using inv ok nodes unfolding tg_inv_def prod.case dec by (simp add: sums)
qed

text \<open>Every step of every activation keeps the invariant.\<close>

lemma tg_inv_act:
  assumes inv: "tg_inv h g mem (s, ps)" and wf: "tg_wf h g" and ix: "tg_indexed g" and i: "i < length ps"
    and st: "ProcessReady_step h g sync (ps ! i) s = Some (p, s', new)"
  shows "tg_inv h g mem (s', ps[i := p] @ new)"
proof -
  note mv = tg_inv_move [OF inv i]
  note defs = pc_held_def pc_owed_def pc_live_def pc_ok_def te_DropRef_def
  show ?thesis
  proof (cases "ps ! i")
    case (TLoop m xs)
    show ?thesis
    proof (cases xs)
      case Nil
      show ?thesis by (rule mv) (use st TLoop Nil in \<open>auto simp: defs split: if_splits\<close>)
    next
      case (Cons x ys)
      show ?thesis by (rule mv) (use st TLoop Cons in \<open>auto simp: defs\<close>)
    qed
  next
    case (TSpawn m x xs)
    show ?thesis
      by (rule mv) (use st TSpawn in \<open>cases xs; auto simp: defs\<close>)+
  next
    case (TRun m x)
    then show ?thesis using st tg_inv_run [OF inv wf i] by (auto simp: Let_def)
  next
    case (TCount m a)
    then show ?thesis using st tg_inv_count [OF inv wf i] by (auto simp: succs_def)
  next
    case (TSucc m t rest ready)
    show ?thesis
    proof (cases rest)
      case Nil
      show ?thesis by (rule mv) (use st TSucc Nil in \<open>auto simp: defs\<close>)
    next
      case (Cons a as)
      then show ?thesis using st TSucc tg_inv_signal [OF inv wf ix i] by (auto simp: Let_def)
    qed
  next
    case TAwait
    show ?thesis by (rule mv) (use st TAwait in \<open>auto simp: defs split: if_splits\<close>)
  next
    case TFinished
    with st show ?thesis by simp
  qed
qed

subsection \<open>Termination\<close>

text \<open>The work left: nodes that have not run, edges to signal, nodes to hand to other activations.\<close>

fun pc_work :: "'m node_heap \<Rightarrow> tg_pc \<Rightarrow> nat" where
  "pc_work h (TLoop m []) = 2"
| "pc_work h (TLoop m (x # xs)) = 4 + 5 * length xs"
| "pc_work h (TSpawn m x xs) = 3 + 5 * length xs"
| "pc_work h (TRun m x) = 2"
| "pc_work h (TCount m a) = 5 + 6 * length (succs h a)"
| "pc_work h (TSucc m t rest ready) = 4 + 6 * length rest + 5 * length ready"
| "pc_work h TAwait = 1"
| "pc_work h TFinished = 0"

definition tg_work :: "'m node_heap \<Rightarrow> TaskGraph \<Rightarrow> 'm tg_sys \<Rightarrow> nat" where
  "tg_work h g sys = (\<Sum>p\<leftarrow>snd sys. pc_work h p) +
     (\<Sum>u \<in> set (tg_mTaskNodes g) - set (te_ran (fst sys)). 4 + 6 * length (succs h u))"

lemma sum_list_update_nat:
  "i < length ps \<Longrightarrow> (\<Sum>p\<leftarrow>ps[i := q]. f p) + f (ps ! i) = (\<Sum>p\<leftarrow>ps. f p) + (f q :: nat)"
  by (induction ps arbitrary: i) (auto simp: nth_Cons' split: nat.splits)

lemma pc_work_TLoop: "pc_work h (TLoop m xs) < 4 + 5 * length xs"
  by (cases xs) simp_all

lemma tg_work_decreases:
  assumes inv: "tg_inv h g mem (s, ps)" and i: "i < length ps"
    and st: "ProcessReady_step h g sync (ps ! i) s = Some (p, s', new)"
  shows "tg_work h g (s', ps[i := p] @ new) < tg_work h g (s, ps)"
proof -
  let ?W = "\<lambda>ran. (\<Sum>u \<in> set (tg_mTaskNodes g) - set ran. 4 + 6 * length (succs h u))"
  have "pc_work h p + (\<Sum>q\<leftarrow>new. pc_work h q) + ?W (te_ran s') < pc_work h (ps ! i) + ?W (te_ran s)"
  proof (cases "\<exists>m x. ps ! i = TRun m x")
    case True
    then obtain m x where x: "ps ! i = TRun m x" by blast
    define a where "a = tg_mTaskNodes g ! x"
    let ?S = "set (tg_mTaskNodes g) - set (te_ran s @ [a])"
    have a: "a \<in> set (tg_mTaskNodes g)" "a \<notin> set (te_ran s)"
      using tg_inv_held [OF inv, of "TRun m x" x] nth_mem [OF i] x by (simp_all add: a_def)
    then have ins: "set (tg_mTaskNodes g) - set (te_ran s) = insert a ?S" by auto
    have "(\<Sum>u \<in> insert a ?S. 4 + 6 * length (succs h u)) = 4 + 6 * length (succs h a) + ?W (te_ran s @ [a])"
      by (rule sum.insert) auto
    then have "?W (te_ran s) = 4 + 6 * length (succs h a) + ?W (te_ran s @ [a])" by (simp only: ins)
    moreover have "p = TCount m a" "te_ran s' = te_ran s @ [a]" "new = []"
      using st x by (auto simp: Let_def a_def)
    ultimately show ?thesis by (simp only: x) simp
  next
    case False
    then show ?thesis
      using st by (cases "(h, ps ! i)" rule: pc_work.cases)
        (auto simp: te_DropRef_def Let_def succs_def pc_work_TLoop split: if_splits
           elim!: ProcessReady_step.elims)
  qed
  with sum_list_update_nat [OF i, of "pc_work h" p] show ?thesis
    by (simp add: tg_work_def)
qed

subsection \<open>Reachable states\<close>

lemma tg_stepE:
  assumes "tg_step h g sync sys sys'"
  obtains s ps i p s' new where "sys = (s, ps)" "sys' = (s', ps[i := p] @ new)" "i < length ps"
    "ProcessReady_step h g sync (ps ! i) s = Some (p, s', new)"
  using assms by (cases sys) (auto simp: tg_step.simps tg_act_def split: if_splits option.splits)

definition tg_final :: "'m node_heap \<Rightarrow> TaskGraph \<Rightarrow> bool \<Rightarrow> 'm tg_sys \<Rightarrow> bool" where
  "tg_final h g sync sys \<longleftrightarrow> (\<forall>i < length (snd sys). tg_act h g sync i sys = None)"

lemma ProcessReady_step_None:
  "ProcessReady_step h g sync p s = None \<longleftrightarrow> p = TFinished \<or> p = TAwait \<and> te_emplaced s = 0"
  by (cases "(h, g, sync, p, s)" rule: ProcessReady_step.cases) (auto simp: Let_def)

lemma tg_finalD:
  assumes "tg_final h g sync (s, ps)" "p \<in> set ps"
  shows "p = TFinished \<or> p = TAwait \<and> te_emplaced s = 0"
proof -
  obtain i where "i < length ps" "ps ! i = p" using assms(2) by (auto simp: in_set_conv_nth)
  then have "ProcessReady_step h g sync p s = None"
    using assms(1) by (cases "ProcessReady_step h g sync p s") (auto simp: tg_final_def tg_act_def)
  then show ?thesis by (simp only: ProcessReady_step_None)
qed

lemma succs_deps_sum:
  assumes "tg_wf h g" "v \<in> set (tg_mTaskNodes g)"
  shows "tg_missing h g [] v = int (length (deps h v))"
proof -
  have "set (deps h v) \<subseteq> set (tg_mTaskNodes g)" using assms unfolding tg_wf_def by blast
  then have "(\<Sum>u \<in> set (tg_mTaskNodes g). count_list (deps h v) u) = length (deps h v)"
    by (rule sum_count_set) simp
  moreover have "count_list (deps h v) u = count_list (succs h u) v" if "u \<in> set (tg_mTaskNodes g)" for u
    using assms that unfolding tg_wf_def by blast
  ultimately have "(\<Sum>u \<in> set (tg_mTaskNodes g). count_list (succs h u) v) = length (deps h v)" by simp
  then show ?thesis unfolding tg_missing_def by (simp flip: of_nat_sum)
qed

text \<open>In a final state of an acyclic graph every node has run.\<close>

lemma tg_final_all_run:
  assumes inv: "tg_inv h g mem (s, ps)" and wf: "tg_wf h g" and ac: "acyclic (tg_edges h g)"
    and fin: "tg_final h g sync (s, ps)"
  shows "set (te_ran s) = set (tg_mTaskNodes g)"
proof -
  have "tg_edges h g \<subseteq> set (tg_mTaskNodes g) \<times> set (tg_mTaskNodes g)"
    using wf by (auto simp: tg_wf_def tg_edges_def)
  then have "finite (tg_edges h g)" by (rule finite_subset) simp
  then have "wf (tg_edges h g)" using ac by (rule finite_acyclic_wf)
  then have "v \<in> set (tg_mTaskNodes g) \<Longrightarrow> v \<in> set (te_ran s)" for v
  proof (induction v rule: wf_induct_rule)
    case (less v)
    obtain c where c: "c = tg_missing h g (te_ran s) v + tot (pc_owed h v) ps"
       "tot (pc_held g v) ps + int (count_list (te_ran s) v) = of_bool (c = 0)"
      using inv less.prems unfolding tg_inv_def by fastforce
    have idle: "tot (pc_owed h v) ps = 0" "tot (pc_held g v) ps = 0"
      by (rule tot_zero, drule tg_finalD [OF fin], auto simp: pc_owed_def pc_held_def)+
    have "count_list (succs h u) v = 0" if "u \<in> set (tg_mTaskNodes g) - set (te_ran s)" for u
      using less.IH [of u] that by (auto simp: tg_edges_def count_list_0_iff)
    then have "tg_missing h g (te_ran s) v = 0" by (simp add: tg_missing_def)
    with c idle have "count_list (te_ran s) v = 1" by simp
    then show ?case by (metis count_notin zero_neq_one)
  qed
  moreover have "set (te_ran s) \<subseteq> set (tg_mTaskNodes g)" using inv by (simp add: tg_inv_def)
  ultimately show ?thesis by blast
qed

context graph_builder
begin

lemma build_wf: "tg_wf h g \<Longrightarrow> tg_wf h (build h g)"
  by (simp add: tg_wf_def build_nodes)

lemma build_indexed:
  assumes "tg_wf h g"
  shows "tg_indexed (build h g)"
  unfolding tg_indexed_def build_nodes
proof (intro ballI)
  fix a assume "a \<in> set (tg_mTaskNodes g)"
  then obtain i where i: "i < length (tg_mTaskNodes g)" "tg_mTaskNodes g ! i = a"
    by (auto simp: in_set_conv_nth)
  have "i < 2 ^ 32" using i(1) assms by (simp add: tg_wf_def)
  then have "unat (of_nat i :: u32) = i" by (simp add: unat_of_nat)
  with build_index [OF assms i(1)] i
  show "unat (umap_get (tg_mNodeIndexInfo (build h g)) a) < length (tg_mTaskNodes g) \<and>
      tg_mTaskNodes g ! unat (umap_get (tg_mNodeIndexInfo (build h g)) a) = a"
    by (simp add: umap_get_def)
qed

lemma start_inv:
  assumes wf: "tg_wf h g"
  shows "tg_inv h (build h g) mem (RunTaskGraph h (build h g) mem)"
proof -
  let ?ids = "ProcessStartNodeIndex h (build h g)"
  let ?start = "filter (\<lambda>a. length (mDependencies (node_at h a)) = 0) (tg_mTaskNodes g)"
  have len: "length (tg_mTaskNodes g) < 2 ^ 31" using wf by (simp add: tg_wf_def)
  have ids: "map ((!) (tg_mTaskNodes g)) ?ids = ?start"
    using build_indexed [OF wf]
    by (auto simp: ProcessStartNodeIndex_def tg_indexed_def build_nodes intro!: map_idI)
  have small: "\<forall>x \<in> set ?ids. x < length (tg_mTaskNodes g)"
    using build_indexed [OF wf] by (auto simp: ProcessStartNodeIndex_def tg_indexed_def build_nodes)
  have missing: "tg_missing h (build h g) [] v = int (length (deps h v))" if "v \<in> set (tg_mTaskNodes g)" for v
    using succs_deps_sum [OF wf that] by (simp add: tg_missing_def build_nodes)
  have "count_list ?start v = of_bool (deps h v = [])" if "v \<in> set (tg_mTaskNodes g)" for v
    using wf that distinct_count_atmost_1 [of ?start]
    by (auto simp: tg_wf_def deps_def count_list_0_iff count_mset [symmetric] simp flip: count_mset)
  moreover have "length (deps h v) < 2 ^ 31" if "v \<in> set (tg_mTaskNodes g)" for v
    using wf that unfolding tg_wf_def by blast
  ultimately show ?thesis
    using build_count [OF wf] missing small len
    by (auto simp: tg_inv_def RunTaskGraph_def TaskGraphExecutor_new_def pc_ok_def pc_owed_def pc_held_def
        pc_live_def build_nodes ids to_int32_small)
qed

lemma reach_inv:
  assumes "tg_reach h (build h g) sync mem sys" "tg_wf h g"
  shows "tg_inv h (build h g) mem sys"
  using assms(1)
proof (induction rule: tg_reach.induct)
  case start
  show ?case by (rule start_inv [OF assms(2)])
next
  case (step sys sys')
  from step.hyps(2) show ?case
  proof (rule tg_stepE)
    fix s ps i p s' new
    assume "sys = (s, ps)" "sys' = (s', ps[i := p] @ new)" "i < length ps"
      "ProcessReady_step h (build h g) sync (ps ! i) s = Some (p, s', new)"
    then show ?thesis
      using tg_inv_act [OF _ build_wf [OF assms(2)] build_indexed [OF assms(2)]] step.IH by simp
  qed
qed

lemma steps_terminate:
  assumes "tg_wf h g"
  shows "wf {(sys', sys). tg_reach h (build h g) sync mem sys \<and> tg_step h (build h g) sync sys sys'}"
proof (rule wf_subset [OF wf_measure [of "tg_work h (build h g)"]], clarify)
  fix s ps s' ps'
  assume "tg_reach h (build h g) sync mem (s, ps)" and st: "tg_step h (build h g) sync (s, ps) (s', ps')"
  then have inv: "tg_inv h (build h g) mem (s, ps)" using reach_inv assms by blast
  from st show "((s', ps'), (s, ps)) \<in> measure (tg_work h (build h g))"
    by (rule tg_stepE) (auto dest: tg_work_decreases [OF inv])
qed

lemma emplaced_all_run:
  assumes wf: "tg_wf h g" and ne: "tg_mTaskNodes g \<noteq> []" and inv: "tg_inv h (build h g) mem (s, ps)"
  shows "te_emplaced s \<le> 1" "te_emplaced s = 1 \<Longrightarrow> set (te_ran s) = set (tg_mTaskNodes g)"
proof -
  have last: "int (te_emplaced s) + tot pc_last ps = of_bool (te_mTotalTaskCount s = 0)"
    using inv ne by (simp add: tg_inv_def build_nodes)
  moreover have "0 \<le> tot pc_last ps" "0 \<le> tot pc_uncounted ps" by (simp_all add: tot_nonneg)
  ultimately show "te_emplaced s \<le> 1" by (cases "te_mTotalTaskCount s = 0") simp_all
  assume "te_emplaced s = 1"
  with last \<open>0 \<le> tot pc_last ps\<close> have "te_mTotalTaskCount s = 0"
    by (cases "te_mTotalTaskCount s = 0") simp_all
  with inv \<open>0 \<le> tot pc_uncounted ps\<close> have "length (tg_mTaskNodes g) \<le> length (te_ran s)"
    by (simp add: tg_inv_def build_nodes)
  moreover have "distinct (te_ran s)" "distinct (tg_mTaskNodes g)" "set (te_ran s) \<subseteq> set (tg_mTaskNodes g)"
    using tg_inv_ranD(1) [OF inv build_wf [OF wf]] wf inv by (simp_all add: tg_wf_def tg_inv_def build_nodes)
  ultimately show "set (te_ran s) = set (tg_mTaskNodes g)"
    by (metis List.finite_set card_seteq distinct_card)
qed

lemma final_complete:
  assumes wf: "tg_wf h g" and ne: "tg_mTaskNodes g \<noteq> []" and ac: "acyclic (tg_edges h g)"
    and inv: "tg_inv h (build h g) mem (s, ps)" and fin: "tg_final h (build h g) sync (s, ps)"
  shows "set (te_ran s) = set (tg_mTaskNodes g)" "te_emplaced s = 1" "te_refs s = 0"
    "\<forall>p \<in> set ps. p = TFinished"
proof -
  have "acyclic (tg_edges h (build h g))" using ac by (simp add: tg_edges_def build_nodes)
  then show all: "set (te_ran s) = set (tg_mTaskNodes g)"
    using tg_final_all_run [OF inv build_wf [OF wf] _ fin] by (simp add: build_nodes)
  have "length (te_ran s) = length (tg_mTaskNodes g)"
    using tg_inv_ranD(1) [OF inv build_wf [OF wf]] all wf by (metis distinct_card tg_wf_def)
  moreover have idle: "tot pc_uncounted ps = 0" "tot pc_last ps = 0"
    by (rule tot_zero, drule tg_finalD [OF fin], auto)+
  ultimately have "te_mTotalTaskCount s = 0" using inv by (simp add: tg_inv_def build_nodes)
  with inv ne idle show em: "te_emplaced s = 1" by (simp add: tg_inv_def build_nodes)
  show fins: "\<forall>p \<in> set ps. p = TFinished" using tg_finalD [OF fin] em by auto
  have "tot pc_live ps = 0" by (rule tot_zero) (use fins in \<open>auto simp: pc_live_def\<close>)
  with inv show "te_refs s = 0" by (simp add: tg_inv_def)
qed

end

subsection \<open>A diamond-shaped example\<close>

text \<open>Four nodes at addresses 10, 20, 30, 40: 20 and 30 depend on 10, and 40 on both.\<close>

definition demo_heap :: "nat list node_heap" where
  "demo_heap = TaskNode_AddDependency (TaskNode_AddSuccessor
     (TaskNode_AddSuccessor (TaskNode_AddDependency
       [10 \<mapsto> TaskNode_new (Cons 1), 20 \<mapsto> TaskNode_new (Cons 2),
        30 \<mapsto> TaskNode_new (Cons 3), 40 \<mapsto> TaskNode_new (Cons 4)]
       20 10) 10 30) 20 40) 40 30"

definition demo_graph :: TaskGraph where
  "demo_graph = \<lparr>tg_mNodeIndexInfo = Map.empty, tg_mNodeCountInfo = Map.empty,
     tg_mTaskNodes = [40, 10, 20, 30]\<rparr>"

lemmas demo_defs = demo_heap_def demo_graph_def TaskNode_AddDependency_def TaskNode_AddSuccessor_def
  TaskNode_new_def push_successor_def push_dependency_def

lemma demo_wf: "tg_wf demo_heap demo_graph"
  by (simp add: tg_wf_def demo_defs deps_def succs_def node_at_def)

lemma demo_acyclic: "acyclic (tg_edges demo_heap demo_graph)"
proof (rule wf_acyclic [OF wf_subset [OF wf_measure [of id]]])
  show "tg_edges demo_heap demo_graph \<subseteq> measure id"
    by (auto simp: tg_edges_def demo_defs succs_def node_at_def)
qed

lemma demo_schedule:
  "\<exists>s ps. tg_reach demo_heap (TaskGraph_BuildGraph demo_heap demo_graph) True [] (s, ps) \<and>
     te_ran s = [10, 30, 20]"
proof -
  let ?g = "TaskGraph_BuildGraph demo_heap demo_graph"
  let ?run = "tg_schedule demo_heap ?g True [0,0,0,0,0,0,0,0,0,1,1,1,0,0] (RunTaskGraph demo_heap ?g [])"
  have "map_option (te_ran \<circ> fst) ?run = Some [10, 30, 20]"
    by code_simp
  then obtain s ps where run: "?run = Some (s, ps)" and "te_ran s = [10, 30, 20]" by auto
  moreover have "tg_reach demo_heap ?g True [] (s, ps)"
    by (rule tg_schedule_reach [OF tg_reach.start run])
  ultimately show ?thesis by blast
qed

subsection \<open>Properties\<close>

text \<open>
  C13. However the activations of the executor interleave, no node
  of a built graph runs twice, a node runs only after all the nodes it depends on, and the client's
  memory is the result of the compute functions applied in that order.
\<close>

theorem TaskGraph_runs_in_dependency_order:
  assumes "tg_wf h g" "tg_reach h (TaskGraph_BuildGraph h g) sync mem (s, ps)"
  shows "distinct (te_ran s) \<and> set (te_ran s) \<subseteq> set (tg_mTaskNodes g) \<and>
    (\<forall>i < length (te_ran s). set (mDependencies (node_at h (te_ran s ! i))) \<subseteq> set (take i (te_ran s))) \<and>
    te_mem s = foldl (\<lambda>m a. mComputeFunc (node_at h a) m) mem (te_ran s)"
proof -
  have inv: "tg_inv h (TaskGraph_BuildGraph h g) mem (s, ps)"
    by (rule tgb.reach_inv [OF assms(2,1)])
  then show ?thesis
    using tg_inv_ranD(1) [OF inv tgb.build_wf [OF assms(1)]]
    by (simp add: tg_inv_def deps_def tgb.build_nodes)
qed

theorem TaskGraph_runs_in_dependency_order_witness:
  "\<exists>s ps. tg_reach demo_heap (TaskGraph_BuildGraph demo_heap demo_graph) True [] (s, ps) \<and>
     te_ran s = [10, 30, 20] \<and> te_mem s = [2, 3, 1]"
proof -
  obtain s ps where r: "tg_reach demo_heap (TaskGraph_BuildGraph demo_heap demo_graph) True [] (s, ps)"
      "te_ran s = [10, 30, 20]"
    using demo_schedule by blast
  from TaskGraph_runs_in_dependency_order [OF demo_wf r(1)] r(2) have "te_mem s = [2, 3, 1]"
    by (simp add: demo_defs node_at_def)
  with r show ?thesis by blast
qed

text \<open>
  The finish chain is emplaced at most once (a second emplace would
  fail its assert) and only when every node has run; the executor keeps one reference for every
  activation that is still running, so it is not destroyed under it.
\<close>

theorem TaskGraph_finish_chain_once:
  assumes "tg_wf h g" "tg_mTaskNodes g \<noteq> []" "tg_reach h (TaskGraph_BuildGraph h g) sync mem (s, ps)"
  shows "te_emplaced s \<le> 1 \<and> (te_emplaced s = 1 \<longrightarrow> set (te_ran s) = set (tg_mTaskNodes g)) \<and>
    te_refs s = int (length (filter (\<lambda>p. p \<noteq> TFinished) ps))"
proof -
  have inv: "tg_inv h (TaskGraph_BuildGraph h g) mem (s, ps)"
    by (rule tgb.reach_inv [OF assms(3,1)])
  have "tot pc_live ps = int (length (filter (\<lambda>p. p \<noteq> TFinished) ps))"
    by (induction ps) (auto simp: pc_live_def)
  with inv tgb.emplaced_all_run [OF assms(1,2) inv] show ?thesis by (simp add: tg_inv_def)
qed

theorem TaskGraph_finish_chain_once_witness:
  "\<exists>s ps. tg_reach demo_heap (TaskGraph_BuildGraph demo_heap demo_graph) True [] (s, ps) \<and>
     te_ran s = [10, 30, 20] \<and> te_emplaced s = 0"
proof -
  obtain s ps where r: "tg_reach demo_heap (TaskGraph_BuildGraph demo_heap demo_graph) True [] (s, ps)"
      "te_ran s = [10, 30, 20]"
    using demo_schedule by blast
  have "(40::nat) \<in> set (tg_mTaskNodes demo_graph)" "(40::nat) \<notin> set (te_ran s)"
    using r(2) by (simp_all add: demo_graph_def)
  moreover have "tg_mTaskNodes demo_graph \<noteq> []" by (simp add: demo_graph_def)
  ultimately have "te_emplaced s \<noteq> 1" "te_emplaced s \<le> 1"
    using TaskGraph_finish_chain_once [OF demo_wf _ r(1)] by auto
  then have "te_emplaced s = 0" by simp
  with r show ?thesis by blast
qed

text \<open>
  C14. On a non-empty acyclic graph every schedule ends: the steps of reachable
  states are well-founded, and a state where no activation can move has run every node, has emplaced
  the finish chain, has let Await return and has dropped every reference to the executor.
\<close>

theorem TaskGraph_completes:
  assumes "tg_wf h g" "tg_mTaskNodes g \<noteq> []" "acyclic (tg_edges h g)"
  shows "wf {(y, x). tg_reach h (TaskGraph_BuildGraph h g) sync mem x \<and>
            tg_step h (TaskGraph_BuildGraph h g) sync x y} \<and>
    (\<forall>s ps. tg_reach h (TaskGraph_BuildGraph h g) sync mem (s, ps) \<and>
       tg_final h (TaskGraph_BuildGraph h g) sync (s, ps) \<longrightarrow>
       set (te_ran s) = set (tg_mTaskNodes g) \<and> te_emplaced s = 1 \<and> te_refs s = 0 \<and>
       (\<forall>p \<in> set ps. p = TFinished))"
proof (intro conjI allI impI, rule tgb.steps_terminate [OF assms(1)])
  fix s ps
  assume r: "tg_reach h (TaskGraph_BuildGraph h g) sync mem (s, ps) \<and>
    tg_final h (TaskGraph_BuildGraph h g) sync (s, ps)"
  have "tg_inv h (TaskGraph_BuildGraph h g) mem (s, ps)"
    by (rule tgb.reach_inv [OF conjunct1 [OF r] assms(1)])
  note fc = tgb.final_complete [OF assms this conjunct2 [OF r]]
  show "set (te_ran s) = set (tg_mTaskNodes g)" "te_emplaced s = 1" "te_refs s = 0"
    "\<forall>p \<in> set ps. p = TFinished"
    by (fact fc)+
qed

theorem TaskGraph_completes_witness:
  "\<exists>s ps. tg_reach demo_heap (TaskGraph_BuildGraph demo_heap demo_graph) True [] (s, ps) \<and>
       tg_final demo_heap (TaskGraph_BuildGraph demo_heap demo_graph) True (s, ps) \<and>
       set (te_ran s) = {10, 20, 30, 40} \<and> te_emplaced s = 1"
proof -
  let ?g = "TaskGraph_BuildGraph demo_heap demo_graph"
  have nodes: "tg_mTaskNodes demo_graph = [40, 10, 20, 30]" by (simp add: demo_graph_def)
  note ends = TaskGraph_completes [OF demo_wf _ demo_acyclic, where sync = True and mem = "[]"]
  have w: "wf {(y, x). tg_reach demo_heap ?g True [] x \<and> tg_step demo_heap ?g True x y}"
    using ends nodes by simp
  have "RunTaskGraph demo_heap ?g [] \<in> {x. tg_reach demo_heap ?g True [] x}" by (simp add: tg_reach.start)
  then obtain z where z: "tg_reach demo_heap ?g True [] z"
      "\<And>y. (y, z) \<in> {(y, x). tg_reach demo_heap ?g True [] x \<and> tg_step demo_heap ?g True x y} \<Longrightarrow>
         y \<notin> {x. tg_reach demo_heap ?g True [] x}"
    by (rule wfE_min [OF w]) simp
  obtain s ps where zs: "z = (s, ps)" by (cases z)
  have r: "tg_reach demo_heap ?g True [] (s, ps)" "\<not> tg_step demo_heap ?g True (s, ps) y" for y
    using z tg_reach.step [OF z(1)] unfolding zs by blast+
  then have "tg_final demo_heap ?g True (s, ps)"
    unfolding tg_final_def using tg_step.intros by (meson not_None_eq)
  with ends nodes r(1) have "set (te_ran s) = {10, 20, 30, 40} \<and> te_emplaced s = 1" by auto
  with r(1) \<open>tg_final demo_heap ?g True (s, ps)\<close> show ?thesis by blast
qed

text \<open>
  A graph without nodes never finishes: nothing emplaces the finish chain,
  so RunTaskGraph in synchronous mode reaches Await and stays there.
\<close>

lemma empty_reach:
  assumes "tg_mTaskNodes g = []" "tg_reach h g True mem sys"
  shows "te_emplaced (fst sys) = 0 \<and> (snd sys = [TLoop True []] \<or> snd sys = [TAwait])"
  using assms(2)
proof (induction rule: tg_reach.induct)
  case start
  then show ?case
    using assms(1) by (simp add: RunTaskGraph_def TaskGraphExecutor_new_def ProcessStartNodeIndex_def)
next
  case (step sys sys')
  from step.hyps(2) step.IH show ?case by (elim tg_stepE) (auto split: if_splits)
qed

theorem TaskGraph_empty_hangs:
  "\<exists>sys. tg_reach h (TaskGraph_BuildGraph h TaskGraph_new) True mem sys \<and> snd sys = [TAwait] \<and>
     (\<forall>sys'. \<not> tg_step h (TaskGraph_BuildGraph h TaskGraph_new) True sys sys')"
proof -
  let ?g = "TaskGraph_BuildGraph h TaskGraph_new"
  have nil: "tg_mTaskNodes ?g = []" by (simp add: tgb.build_nodes TaskGraph_new_def)
  let ?s = "TaskGraphExecutor_new ?g mem"
  have "tg_schedule h ?g True [0] (RunTaskGraph h ?g mem) = Some (?s, [TAwait])"
    by (simp add: RunTaskGraph_def ProcessStartNodeIndex_def nil tg_act_def)
  then have r: "tg_reach h ?g True mem (?s, [TAwait])"
    by (rule tg_schedule_reach [OF tg_reach.start])
  have "te_emplaced ?s = 0" using empty_reach [OF nil r] by simp
  then have "\<not> tg_step h ?g True (?s, [TAwait]) sys'" for sys'
    by (auto elim!: tg_stepE)
  with r show ?thesis by fastforce
qed

end
