(* ===== verification/Async_Value.thy ===== *)
theory Async_Value
  imports Prelude
begin

text \<open>
  AsyncValue of \<^verbatim>\<open>src/async/context/async_value.h\<close> and \<^verbatim>\<open>async_value.cpp\<close>: a store of reference-counted
  futures. A ConcreteAsyncValue holds a payload or an error, an IndirectAsyncValue forwards to a
  concrete one. The packed word of waiter list and state is a pair of fields that every operation
  changes together, as the single compare-exchange or exchange of the source does. A waiter is a
  closure: one of the client, the closure that ForwardTo leaves on the target value, or the counting
  closure of HostContext::RunWhenReady. An operation returns the new store and the waiters that it
  has to call, in order; \<open>None\<close> is a failed assert or an access to a destroyed value.
\<close>

subsection \<open>Data\<close>

datatype Kind = KConcrete | KIndirect

datatype StateEnum = kUnconstructed | kConstructed | kConcrete | kError

record DecodedLocation =
  filename :: string
  line :: int
  column :: int

record DecodedDiagnostic =
  location :: "DecodedLocation option"
  message :: string

type_synonym av_ptr = nat

datatype waiter = Client nat | Forward av_ptr av_ptr | Count nat

text \<open>The union of mError and mData of a ConcreteAsyncValue.\<close>

datatype 'a payload = Uninit | Data 'a | Diag DecodedDiagnostic

record 'a AsyncValue =
  mRefCount :: u32
  mKind :: Kind
  mHasVtable :: bool
  mTypeId :: u16
  mWaiters :: "waiter list"
  mState :: StateEnum
  mPayload :: "'a payload"
  mValue :: "av_ptr option"

type_synonym 'a av_heap = "av_ptr \<Rightarrow> 'a AsyncValue option"

text \<open>What a client says of the C++ type \<open>T\<close> of an accessor: its type id, whether it is polymorphic
  and whether it may be a base class (a class that is not final).\<close>

record ctype =
  ct_id :: u16
  ct_polymorphic :: bool
  ct_maybe_base :: bool

definition DecodedDiagnostic_new :: "string \<Rightarrow> DecodedDiagnostic" where
  "DecodedDiagnostic_new msg = \<lparr>location = None, message = msg\<rparr>"

subsection \<open>State queries\<close>

fun State_IsAvailable :: "StateEnum \<Rightarrow> bool" where
  "State_IsAvailable kConcrete = True"
| "State_IsAvailable kError = True"
| "State_IsAvailable kUnconstructed = False"
| "State_IsAvailable kConstructed = False"

definition AsyncValue_state :: "'a av_heap \<Rightarrow> av_ptr \<Rightarrow> StateEnum option" where
  "AsyncValue_state h a = map_option mState (h a)"

definition IsError :: "'a av_heap \<Rightarrow> av_ptr \<Rightarrow> bool" where
  "IsError h a \<longleftrightarrow> AsyncValue_state h a = Some kError"

definition IsUnconstructed :: "'a av_heap \<Rightarrow> av_ptr \<Rightarrow> bool" where
  "IsUnconstructed h a \<longleftrightarrow> AsyncValue_state h a = Some kUnconstructed"

definition IsConstructed :: "'a av_heap \<Rightarrow> av_ptr \<Rightarrow> bool" where
  "IsConstructed h a \<longleftrightarrow> AsyncValue_state h a = Some kConstructed"

definition IsConcrete :: "'a av_heap \<Rightarrow> av_ptr \<Rightarrow> bool" where
  "IsConcrete h a \<longleftrightarrow> AsyncValue_state h a = Some kConcrete"

definition IsUnique :: "'a av_heap \<Rightarrow> av_ptr \<Rightarrow> bool" where
  "IsUnique h a \<longleftrightarrow> map_option mRefCount (h a) = Some 1"

definition IsAvailable :: "'a av_heap \<Rightarrow> av_ptr \<Rightarrow> bool" where
  "IsAvailable h a = (case h a of None \<Rightarrow> False | Some v \<Rightarrow> State_IsAvailable (mState v))"

definition IsUnavailable :: "'a av_heap \<Rightarrow> av_ptr \<Rightarrow> bool" where
  "IsUnavailable h a = (case h a of None \<Rightarrow> False | Some v \<Rightarrow> \<not> State_IsAvailable (mState v))"

definition IsUnresolvedIndirect :: "'a av_heap \<Rightarrow> av_ptr \<Rightarrow> bool" where
  "IsUnresolvedIndirect h a =
     (case h a of None \<Rightarrow> False | Some v \<Rightarrow> \<not> State_IsAvailable (mState v) \<and> mKind v = KIndirect)"

definition IsTypeIdCompatible :: "ctype \<Rightarrow> 'a AsyncValue \<Rightarrow> bool" where
  "IsTypeIdCompatible T v \<longleftrightarrow> ct_maybe_base T \<or> ct_id T = mTypeId v"

subsection \<open>Construction\<close>

definition AsyncValue_new :: "Kind \<Rightarrow> StateEnum \<Rightarrow> u16 \<Rightarrow> bool \<Rightarrow> 'a payload \<Rightarrow> 'a AsyncValue" where
  "AsyncValue_new kind state tid vtable payload =
     \<lparr>mRefCount = 1, mKind = kind, mHasVtable = vtable, mTypeId = tid, mWaiters = [], mState = state,
      mPayload = payload, mValue = None\<rparr>"

definition ConcreteAsyncValue_Unconstructed :: "ctype \<Rightarrow> 'a AsyncValue" where
  "ConcreteAsyncValue_Unconstructed T = AsyncValue_new KConcrete kUnconstructed (ct_id T) (ct_polymorphic T) Uninit"

definition ConcreteAsyncValue_Constructed :: "ctype \<Rightarrow> 'a \<Rightarrow> 'a AsyncValue" where
  "ConcreteAsyncValue_Constructed T x = AsyncValue_new KConcrete kConstructed (ct_id T) (ct_polymorphic T) (Data x)"

definition ConcreteAsyncValue_Concrete :: "ctype \<Rightarrow> 'a \<Rightarrow> 'a AsyncValue" where
  "ConcreteAsyncValue_Concrete T x = AsyncValue_new KConcrete kConcrete (ct_id T) (ct_polymorphic T) (Data x)"

definition ConcreteAsyncValue_Error :: "ctype \<Rightarrow> DecodedDiagnostic \<Rightarrow> 'a AsyncValue" where
  "ConcreteAsyncValue_Error T d = AsyncValue_new KConcrete kError (ct_id T) (ct_polymorphic T) (Diag d)"

text \<open>The type id of DummyValueForErrorAsyncValue is the one the type table gave it; the struct is not
  polymorphic and, not being final, may be a base class.\<close>

definition DummyType :: "u16 \<Rightarrow> ctype" where
  "DummyType tid = \<lparr>ct_id = tid, ct_polymorphic = False, ct_maybe_base = True\<rparr>"

definition IndirectAsyncValue_new :: "'a AsyncValue" where
  "IndirectAsyncValue_new = AsyncValue_new KIndirect kUnconstructed 0 False Uninit"

subsection \<open>Reference counts\<close>

definition AsyncValue_AddRef :: "'a av_heap \<Rightarrow> av_ptr \<Rightarrow> u32 \<Rightarrow> 'a av_heap option" where
  "AsyncValue_AddRef h a n =
     (if 0 < n
      then (case h a of
              None \<Rightarrow> None
            | Some v \<Rightarrow> if 0 < mRefCount v then Some (h(a \<mapsto> v\<lparr>mRefCount := mRefCount v + n\<rparr>)) else None)
      else Some h)"

text \<open>DropRef and Destroy: the last reference runs the destructor. That of an IndirectAsyncValue drops
  the value it forwards to; the base destructor asserts that there are no waiters; then the memory is
  returned.\<close>

partial_function (option) AsyncValue_DropRef :: "'a av_heap \<Rightarrow> av_ptr \<Rightarrow> u32 \<Rightarrow> 'a av_heap option" where
  [code]: "AsyncValue_DropRef h a n =
     (case h a of
        None \<Rightarrow> None
      | Some v \<Rightarrow>
          if mRefCount v = 0 then None
          else if mRefCount v \<noteq> n then Some (h(a \<mapsto> v\<lparr>mRefCount := mRefCount v - n\<rparr>))
          else if mKind v = KIndirect
          then (case mValue v of
                  None \<Rightarrow> if mWaiters v = [] then Some (h(a := None)) else None
                | Some c \<Rightarrow>
                    Option.bind (AsyncValue_DropRef h c 1)
                      (\<lambda>h'. if mWaiters v = [] then Some (h'(a := None)) else None))
          else if mWaiters v = [] then Some (h(a := None)) else None)"

subsection \<open>Waiters\<close>

definition NotifyAvailable :: "'a av_heap \<Rightarrow> av_ptr \<Rightarrow> StateEnum \<Rightarrow> ('a av_heap \<times> waiter list) option" where
  "NotifyAvailable h a availableState =
     (case h a of
        None \<Rightarrow> None
      | Some v \<Rightarrow>
          if State_IsAvailable availableState \<and> \<not> State_IsAvailable (mState v)
          then Some (h(a \<mapsto> v\<lparr>mWaiters := [], mState := availableState\<rparr>), mWaiters v)
          else None)"

definition EnqueueWaiter :: "'a av_heap \<Rightarrow> av_ptr \<Rightarrow> waiter \<Rightarrow> ('a av_heap \<times> waiter list) option" where
  "EnqueueWaiter h a w =
     (case h a of
        None \<Rightarrow> None
      | Some v \<Rightarrow>
          if State_IsAvailable (mState v)
          then (if mWaiters v = [] then Some (h, [w]) else None)
          else Some (h(a \<mapsto> v\<lparr>mWaiters := w # mWaiters v\<rparr>), []))"

definition AndThen :: "'a av_heap \<Rightarrow> av_ptr \<Rightarrow> waiter \<Rightarrow> ('a av_heap \<times> waiter list) option" where
  "AndThen h a w =
     (case h a of
        None \<Rightarrow> None
      | Some v \<Rightarrow>
          if State_IsAvailable (mState v)
          then (if mWaiters v = [] then Some (h, [w]) else None)
          else EnqueueWaiter h a w)"

subsection \<open>Resolving a value\<close>

definition ForwardTo :: "'a av_heap \<Rightarrow> av_ptr \<Rightarrow> av_ptr \<Rightarrow> ('a av_heap \<times> waiter list) option" where
  "ForwardTo h this val =
     (case (h this, h val) of
        (Some i, Some v) \<Rightarrow>
          if State_IsAvailable (mState i) then None
          else if State_IsAvailable (mState v)
          then (if mValue i \<noteq> None then None
                else Option.bind
                  (if mKind v = KIndirect
                   then (case mValue v of
                           None \<Rightarrow> None
                         | Some c \<Rightarrow>
                             (case h c of
                                None \<Rightarrow> None
                              | Some cv \<Rightarrow>
                                  if mKind cv = KConcrete
                                  then Option.bind (AsyncValue_AddRef h c 1)
                                         (\<lambda>h1. Option.bind (AsyncValue_DropRef h1 val 1) (\<lambda>h2. Some (c, h2)))
                                  else None))
                   else Some (val, h))
                  (\<lambda>(c, h2).
                     case (h2 c, h2 this) of
                       (Some cv, Some iv) \<Rightarrow>
                         NotifyAvailable (h2(this \<mapsto> iv\<lparr>mValue := Some c, mTypeId := mTypeId cv\<rparr>)) this (mState v)
                     | _ \<Rightarrow> None))
          else Option.bind (AsyncValue_AddRef h this 1) (\<lambda>h1. AndThen h1 val (Forward this val))
      | _ \<Rightarrow> None)"

definition SetStateConcrete :: "'a av_heap \<Rightarrow> av_ptr \<Rightarrow> ('a av_heap \<times> waiter list) option" where
  "SetStateConcrete h a =
     (case h a of
        None \<Rightarrow> None
      | Some v \<Rightarrow> if mState v = kConstructed \<and> mKind v = KConcrete then NotifyAvailable h a kConcrete else None)"

definition ConcreteAsyncValue_emplace :: "'a av_heap \<Rightarrow> av_ptr \<Rightarrow> 'a \<Rightarrow> ('a av_heap \<times> waiter list) option" where
  [simp]: "ConcreteAsyncValue_emplace h a x =
     (case h a of None \<Rightarrow> None | Some v \<Rightarrow> NotifyAvailable (h(a \<mapsto> v\<lparr>mPayload := Data x\<rparr>)) a kConcrete)"

definition ConcreteAsyncValue_SetError ::
  "'a av_heap \<Rightarrow> av_ptr \<Rightarrow> DecodedDiagnostic \<Rightarrow> ('a av_heap \<times> waiter list) option" where
  "ConcreteAsyncValue_SetError h a d =
     (case h a of
        None \<Rightarrow> None
      | Some v \<Rightarrow>
          if mState v = kUnconstructed \<or> mState v = kConstructed
          then NotifyAvailable (h(a \<mapsto> v\<lparr>mPayload := Diag d\<rparr>)) a kError
          else None)"

definition emplace :: "'a av_heap \<Rightarrow> av_ptr \<Rightarrow> ctype \<Rightarrow> 'a \<Rightarrow> ('a av_heap \<times> waiter list) option" where
  "emplace h a T x =
     (case h a of
        None \<Rightarrow> None
      | Some v \<Rightarrow>
          if ct_id T = mTypeId v \<and> mState v = kUnconstructed \<and> mKind v = KConcrete
          then ConcreteAsyncValue_emplace h a x
          else None)"

text \<open>SetError on an indirect value makes an ErrorAsyncValue (at the fresh address \<open>new\<close>, with the type
  id \<open>tid\<close> of the dummy payload) and forwards to it.\<close>

definition SetError ::
  "u16 \<Rightarrow> 'a av_heap \<Rightarrow> av_ptr \<Rightarrow> DecodedDiagnostic \<Rightarrow> av_ptr \<Rightarrow> ('a av_heap \<times> waiter list) option" where
  "SetError tid h a d new =
     (case h a of
        None \<Rightarrow> None
      | Some v \<Rightarrow>
          if State_IsAvailable (mState v) then None
          else if mKind v = KConcrete
          then NotifyAvailable (h(a \<mapsto> v\<lparr>mPayload := Diag d\<rparr>)) a kError
          else ForwardTo (h(new \<mapsto> ConcreteAsyncValue_Error (DummyType tid) d)) a new)"

subsection \<open>Reading a value\<close>

definition GetConcreteValue :: "ctype \<Rightarrow> 'a AsyncValue \<Rightarrow> 'a option" where
  "GetConcreteValue T v =
     (if ct_polymorphic T = mHasVtable v \<and> IsTypeIdCompatible T v
      then (case mPayload v of Data x \<Rightarrow> Some x | _ \<Rightarrow> None)
      else None)"

partial_function (option) get_value :: "'a av_heap \<Rightarrow> av_ptr \<Rightarrow> ctype \<Rightarrow> 'a option" where
  [code]: "get_value h a T =
     (case h a of
        None \<Rightarrow> None
      | Some v \<Rightarrow>
          (case mKind v of
             KConcrete \<Rightarrow>
               if mState v = kConstructed \<or> mState v = kConcrete then GetConcreteValue T v else None
           | KIndirect \<Rightarrow>
               if mState v = kConcrete
               then (case mValue v of None \<Rightarrow> None | Some c \<Rightarrow> get_value h c T)
               else None))"

text \<open>GetErrorIfPresent: the outer \<open>None\<close> is a failed assert, the inner one the null pointer.\<close>

definition concrete_error :: "'a AsyncValue \<Rightarrow> DecodedDiagnostic option option" where
  "concrete_error v =
     (if mState v \<noteq> kError then Some None
      else (case mPayload v of Diag d \<Rightarrow> Some (Some d) | _ \<Rightarrow> None))"

definition GetErrorIfPresent :: "'a av_heap \<Rightarrow> av_ptr \<Rightarrow> DecodedDiagnostic option option" where
  "GetErrorIfPresent h a =
     (case h a of
        None \<Rightarrow> None
      | Some v \<Rightarrow>
          (case mKind v of
             KConcrete \<Rightarrow> concrete_error v
           | KIndirect \<Rightarrow>
               (case mValue v of
                  None \<Rightarrow> Some None
                | Some c \<Rightarrow>
                    (case h c of
                       None \<Rightarrow> None
                     | Some cv \<Rightarrow> if mKind cv \<noteq> KIndirect then concrete_error cv else None))))"

definition GetError :: "'a av_heap \<Rightarrow> av_ptr \<Rightarrow> DecodedDiagnostic option" where
  "GetError h a = (case GetErrorIfPresent h a of Some (Some d) \<Rightarrow> Some d | _ \<Rightarrow> None)"

text \<open>The address that holds the payload or the error of \<open>a\<close>.\<close>

definition storage :: "'a av_heap \<Rightarrow> av_ptr \<Rightarrow> av_ptr" where
  "storage h a = (case h a of None \<Rightarrow> a | Some v \<Rightarrow> (case mValue v of None \<Rightarrow> a | Some c \<Rightarrow> c))"

definition SetErrorLocationIfUnset :: "'a av_heap \<Rightarrow> av_ptr \<Rightarrow> DecodedLocation \<Rightarrow> 'a av_heap option" where
  "SetErrorLocationIfUnset h a loc =
     Option.bind (GetError h a) (\<lambda>d.
       Option.bind (h (storage h a)) (\<lambda>v.
         Some (if location d = None
               then h(storage h a \<mapsto> v\<lparr>mPayload := Diag (d\<lparr>location := Some loc\<rparr>)\<rparr>)
               else h)))"

text \<open>On a concrete value the accessors of ConcreteAsyncValue and those of AsyncValue agree.\<close>

lemma ConcreteAsyncValue_SetError_eq:
  "h a = Some v \<Longrightarrow> mKind v = KConcrete \<Longrightarrow> SetError tid h a d n = ConcreteAsyncValue_SetError h a d"
  by (cases "mState v") (simp_all add: SetError_def ConcreteAsyncValue_SetError_def)

lemma IsAvailable_state: "IsAvailable h a \<longleftrightarrow> IsConcrete h a \<or> IsError h a"
proof (cases "h a")
  case (Some v)
  then show ?thesis by (cases "mState v") (simp_all add: IsAvailable_def IsConcrete_def IsError_def AsyncValue_state_def)
qed (simp add: IsAvailable_def IsConcrete_def IsError_def AsyncValue_state_def)

subsection \<open>Sums over the store\<close>

definition hsum :: "('a AsyncValue \<Rightarrow> 'b::comm_monoid_add) \<Rightarrow> 'a av_heap \<Rightarrow> nat \<Rightarrow> 'b" where
  "hsum f h n = (\<Sum>i<n. case h i of None \<Rightarrow> 0 | Some v \<Rightarrow> f v)"

text \<open>All registered waiters, and the number of values that forward to \<open>a\<close>.\<close>

definition heap_waiters :: "'a av_heap \<Rightarrow> nat \<Rightarrow> waiter multiset" where
  "heap_waiters h n = hsum (\<lambda>v. mset (mWaiters v)) h n"

definition mrefs :: "'a av_heap \<Rightarrow> nat \<Rightarrow> av_ptr \<Rightarrow> nat" where
  "mrefs h n a = hsum (\<lambda>v. of_bool (mValue v = Some a)) h n"

lemma hsum_split:
  assumes "a < n"
  shows "hsum f h n = (case h a of None \<Rightarrow> 0 | Some v \<Rightarrow> f v) +
    (\<Sum>i\<in>{..<n} - {a}. case h i of None \<Rightarrow> 0 | Some v \<Rightarrow> f v)"
  using assms unfolding hsum_def by (simp add: sum.remove)

lemma hsum_update:
  assumes "a < n" "h a = Some v"
  shows "hsum f (h(a \<mapsto> v')) n + f v = hsum f h n + f v'"
  unfolding hsum_split [OF assms(1)] by (simp add: assms(2) add_ac)

lemma hsum_delete:
  assumes "a < n" "h a = Some v"
  shows "hsum f (h(a := None)) n + f v = hsum f h n"
  unfolding hsum_split [OF assms(1)] by (simp add: assms(2) add_ac)

lemma hsum_cong:
  assumes "\<And>i. i < n \<Longrightarrow> (case h i of None \<Rightarrow> 0 | Some v \<Rightarrow> f v) = (case h' i of None \<Rightarrow> 0 | Some v \<Rightarrow> g v)"
  shows "hsum f h n = hsum g h' n"
  unfolding hsum_def by (rule sum.cong) (use assms in auto)

lemma hsum_alloc: "hsum f (h(n \<mapsto> v)) (Suc n) = hsum f h n + f v"
  by (simp add: hsum_def)

lemma mrefs_ge: "a < n \<Longrightarrow> h a = Some v \<Longrightarrow> mValue v = Some c \<Longrightarrow> 1 \<le> mrefs h n c"
  unfolding mrefs_def by (simp add: hsum_split)

lemma heap_waiters_mem: "a < n \<Longrightarrow> h a = Some v \<Longrightarrow> w \<in> set (mWaiters v) \<Longrightarrow> w \<in># heap_waiters h n"
  unfolding heap_waiters_def by (simp add: hsum_split)

subsection \<open>Well-formed stores\<close>

definition val_ok :: "'a av_heap \<Rightarrow> 'a AsyncValue \<Rightarrow> bool" where
  "val_ok h v \<longleftrightarrow>
     (State_IsAvailable (mState v) \<longrightarrow> mWaiters v = []) \<and>
     (case mKind v of
        KConcrete \<Rightarrow> mValue v = None \<and>
          (mState v = kConstructed \<or> mState v = kConcrete \<longrightarrow> (\<exists>x. mPayload v = Data x)) \<and>
          (mState v = kError \<longrightarrow> (\<exists>d. mPayload v = Diag d))
      | KIndirect \<Rightarrow> mState v \<noteq> kConstructed \<and> (mValue v = None \<longleftrightarrow> \<not> State_IsAvailable (mState v)) \<and>
          (\<forall>c. mValue v = Some c \<longrightarrow> (\<exists>cv. h c = Some cv \<and> mKind cv = KConcrete \<and> mState cv = mState v)))"

definition heap_ok :: "'a av_heap \<Rightarrow> nat \<Rightarrow> bool" where
  "heap_ok h n \<longleftrightarrow> (\<forall>a v. h a = Some v \<longrightarrow> a < n \<and> val_ok h v)"

text \<open>The reference counts agree with \<open>R\<close>, the references held outside the store, and the forwarding
  pointers; a destroyed value is not referenced.\<close>

definition rc_ok :: "'a av_heap \<Rightarrow> nat \<Rightarrow> (av_ptr \<Rightarrow> nat) \<Rightarrow> bool" where
  "rc_ok h n R \<longleftrightarrow> (\<forall>a. case h a of
     None \<Rightarrow> R a + mrefs h n a = 0
   | Some v \<Rightarrow> unat (mRefCount v) = R a + mrefs h n a \<and> mRefCount v \<noteq> 0)"

text \<open>What an operation may do to values it does not resolve: change reference counts, and destroy
  values without waiters.\<close>

definition core :: "'a AsyncValue \<Rightarrow> 'a AsyncValue" where
  "core v = v\<lparr>mRefCount := 0\<rparr>"

definition shrinks :: "'a av_heap \<Rightarrow> 'a av_heap \<Rightarrow> bool" where
  "shrinks h h' \<longleftrightarrow> (\<forall>b. map_option core (h' b) = map_option core (h b) \<or>
     h' b = None \<and> (\<exists>v. h b = Some v \<and> mWaiters v = []))"

lemma core_simps [simp]:
  "mWaiters (core v) = mWaiters v" "mState (core v) = mState v" "mKind (core v) = mKind v"
  "mValue (core v) = mValue v" "mPayload (core v) = mPayload v" "mTypeId (core v) = mTypeId v"
  "mHasVtable (core v) = mHasVtable v" "core (v\<lparr>mRefCount := n\<rparr>) = core v"
  by (simp_all add: core_def)

lemma core_eqD:
  assumes "core v = core v'"
  shows "mWaiters v = mWaiters v'" "mState v = mState v'" "mKind v = mKind v'" "mValue v = mValue v'"
    "mPayload v = mPayload v'" "mTypeId v = mTypeId v'" "mHasVtable v = mHasVtable v'"
  using core_simps assms by metis+

text \<open>What may happen to an available value: its reference count changes, and an error without a location gets
  one.\<close>

fun keeps_payload :: "'a payload \<Rightarrow> 'a payload \<Rightarrow> bool" where
  "keeps_payload (Diag d) p \<longleftrightarrow> p = Diag d \<or> location d = None \<and> (\<exists>loc. p = Diag (d\<lparr>location := Some loc\<rparr>))"
| "keeps_payload p p' \<longleftrightarrow> p' = p"

definition keeps_value :: "'a AsyncValue \<Rightarrow> 'a AsyncValue \<Rightarrow> bool" where
  "keeps_value v v' \<longleftrightarrow> core (v'\<lparr>mPayload := mPayload v\<rparr>) = core v \<and> keeps_payload (mPayload v) (mPayload v')"

lemma keeps_payload_refl [simp]: "keeps_payload p p"
  by (cases p) simp_all

lemma keeps_payload_trans: "keeps_payload p p1 \<Longrightarrow> keeps_payload p1 p2 \<Longrightarrow> keeps_payload p p2"
  by (cases p) auto

lemma keeps_valueD:
  assumes "keeps_value v v'"
  shows "mWaiters v' = mWaiters v" "mState v' = mState v" "mKind v' = mKind v" "mValue v' = mValue v"
    "mTypeId v' = mTypeId v" "mHasVtable v' = mHasVtable v" "keeps_payload (mPayload v) (mPayload v')"
  using assms core_eqD [of "v'\<lparr>mPayload := mPayload v\<rparr>" v] by (simp_all add: keeps_value_def)

lemma core_keeps: "core v' = core v \<Longrightarrow> keeps_value v v'"
  using core_eqD(5) [of v' v] by (cases v; cases v') (simp add: keeps_value_def core_def)

lemma keeps_value_trans: "keeps_value v v1 \<Longrightarrow> keeps_value v1 v2 \<Longrightarrow> keeps_value v v2"
  using keeps_payload_trans [of "mPayload v" "mPayload v1" "mPayload v2"]
  by (cases v; cases v1; cases v2) (simp add: keeps_value_def core_def)

lemma shrinks_refl: "shrinks h h"
  by (simp add: shrinks_def)

lemma shrinksD:
  assumes "shrinks h h'"
  shows "h' b = Some v' \<Longrightarrow> \<exists>v. h b = Some v \<and> core v' = core v"
    and "h b = Some v \<Longrightarrow> h' b = None \<Longrightarrow> mWaiters v = []"
    and "h b = None \<Longrightarrow> h' b = None"
proof -
  have c: "map_option core (h' b) = map_option core (h b) \<or> h' b = None \<and> (\<exists>v. h b = Some v \<and> mWaiters v = [])"
    using assms by (simp add: shrinks_def)
  show "h' b = Some v' \<Longrightarrow> \<exists>v. h b = Some v \<and> core v' = core v" using c by (auto simp: map_option_case split: option.splits)
  show "h b = Some v \<Longrightarrow> h' b = None \<Longrightarrow> mWaiters v = []" using c by auto
  show "h b = None \<Longrightarrow> h' b = None" using c by auto
qed

lemma shrinks_waiters:
  assumes "shrinks h h'"
  shows "heap_waiters h' n = heap_waiters h n"
  unfolding heap_waiters_def
proof (rule hsum_cong)
  fix i
  show "(case h' i of None \<Rightarrow> 0 | Some v \<Rightarrow> mset (mWaiters v)) = (case h i of None \<Rightarrow> 0 | Some v \<Rightarrow> mset (mWaiters v))"
    using shrinksD [OF assms, of i] by (cases "h i"; cases "h' i") (auto dest: core_eqD(1))
qed

lemma shrinks_trans: "shrinks h h1 \<Longrightarrow> shrinks h1 h2 \<Longrightarrow> shrinks h h2"
  unfolding shrinks_def
proof
  fix b
  assume a: "\<forall>b. map_option core (h1 b) = map_option core (h b) \<or> h1 b = None \<and> (\<exists>v. h b = Some v \<and> mWaiters v = [])"
    "\<forall>b. map_option core (h2 b) = map_option core (h1 b) \<or> h2 b = None \<and> (\<exists>v. h1 b = Some v \<and> mWaiters v = [])"
  show "map_option core (h2 b) = map_option core (h b) \<or> h2 b = None \<and> (\<exists>v. h b = Some v \<and> mWaiters v = [])"
    using a(1) [rule_format, of b] a(2) [rule_format, of b]
    by (cases "h b"; cases "h1 b"; cases "h2 b") (auto dest: core_eqD(1))
qed

lemma val_ok_cong:
  assumes "val_ok h v" "core v' = core v"
    and "\<And>c cv. mKind v = KIndirect \<Longrightarrow> mValue v = Some c \<Longrightarrow> h c = Some cv \<Longrightarrow> \<exists>cv'. h' c = Some cv' \<and> mKind cv' = mKind cv \<and> mState cv' = mState cv"
  shows "val_ok h' v'"
  using assms(1,3) core_eqD [OF assms(2)] unfolding val_ok_def by (fastforce split: Kind.splits)

lemma IsAvailable_Some: "h a = Some v \<Longrightarrow> IsAvailable h a = State_IsAvailable (mState v)"
  "h a = Some v \<Longrightarrow> IsUnavailable h a = (\<not> State_IsAvailable (mState v))"
  by (simp_all add: IsAvailable_def IsUnavailable_def)

lemma shrinks_unavailable: "shrinks h h' \<Longrightarrow> IsUnavailable h' a \<Longrightarrow> IsUnavailable h a"
  unfolding IsUnavailable_def using shrinksD(1) [of h h' a]
  by (cases "h' a") (auto dest: core_eqD(2))

text \<open>Changing one value.\<close>

lemma rc_ok_Some:
  assumes "rc_ok h n R" "h a = Some v"
  shows "unat (mRefCount v) = R a + mrefs h n a" "mRefCount v \<noteq> 0"
  using spec [OF assms(1) [unfolded rc_ok_def], of a] assms(2) by simp_all

lemma rc_ok_None:
  assumes "rc_ok h n R" "h a = None"
  shows "R a = 0" "mrefs h n a = 0"
  using spec [OF assms(1) [unfolded rc_ok_def], of a] assms(2) by simp_all

lemma rc_okI:
  assumes "\<And>a. h a = None \<Longrightarrow> R a = 0 \<and> mrefs h n a = 0"
    and "\<And>a v. h a = Some v \<Longrightarrow> unat (mRefCount v) = R a + mrefs h n a \<and> mRefCount v \<noteq> 0"
  shows "rc_ok h n R"
  unfolding rc_ok_def
proof
  fix a
  show "case h a of None \<Rightarrow> R a + mrefs h n a = 0
      | Some v \<Rightarrow> unat (mRefCount v) = R a + mrefs h n a \<and> mRefCount v \<noteq> 0"
    using assms [of a] by (cases "h a") auto
qed

lemma rc_ok_alive:
  assumes "rc_ok h n R" "0 < R a"
  obtains v where "h a = Some v"
  using assms rc_ok_None(1) [OF assms(1), of a] by (cases "h a") auto

lemma mrefs_update:
  assumes "a < n" "h a = Some v"
  shows "mrefs (h(a \<mapsto> v')) n b + of_bool (mValue v = Some b) = mrefs h n b + of_bool (mValue v' = Some b)"
  unfolding mrefs_def by (rule hsum_update [of a n h v, OF assms])

lemma mrefs_same:
  assumes "a < n" "h a = Some v" "mValue v' = mValue v"
  shows "mrefs (h(a \<mapsto> v')) n b = mrefs h n b"
  using mrefs_update [of a n h v, OF assms(1,2), of v' b] assms(3) by simp

lemma heap_ok_update:
  assumes ok: "heap_ok h n" and a: "h a = Some v"
    and v': "val_ok (h(a \<mapsto> v')) v'" and same: "mKind v' = mKind v" "mKind v = KConcrete \<Longrightarrow> State_IsAvailable (mState v) \<Longrightarrow> mState v' = mState v"
  shows "heap_ok (h(a \<mapsto> v')) n"
  unfolding heap_ok_def
proof (intro allI impI)
  fix b w assume b: "(h(a \<mapsto> v')) b = Some w"
  show "b < n \<and> val_ok (h(a \<mapsto> v')) w"
  proof (cases "b = a")
    case True
    then show ?thesis using b v' ok a by (auto simp: heap_ok_def)
  next
    case False
    then have w: "h b = Some w" using b by simp
    then have "b < n" "val_ok h w" using ok by (auto simp: heap_ok_def)
    moreover have "val_ok (h(a \<mapsto> v')) w"
    proof (rule val_ok_cong [OF \<open>val_ok h w\<close> refl])
      fix c cv assume c: "mKind w = KIndirect" "mValue w = Some c" "h c = Some cv"
      then have "mKind cv = KConcrete" "mState cv = mState w" "State_IsAvailable (mState w)"
        using \<open>val_ok h w\<close> by (auto simp: val_ok_def)
      then show "\<exists>cv'. (h(a \<mapsto> v')) c = Some cv' \<and> mKind cv' = mKind cv \<and> mState cv' = mState cv"
        using c(3) a same by auto
    qed
    ultimately show ?thesis by blast
  qed
qed

lemma heap_ok_rc_update:
  assumes "heap_ok h n" "h a = Some v"
  shows "heap_ok (h(a \<mapsto> v\<lparr>mRefCount := k\<rparr>)) n"
proof (rule heap_ok_update [OF assms])
  have "val_ok h v" using assms by (auto simp: heap_ok_def)
  then show "val_ok (h(a \<mapsto> v\<lparr>mRefCount := k\<rparr>)) (v\<lparr>mRefCount := k\<rparr>)"
    by (rule val_ok_cong) (use assms(2) in auto)
qed auto

lemma shrinks_rc_update: "h a = Some v \<Longrightarrow> shrinks h (h(a \<mapsto> v\<lparr>mRefCount := k\<rparr>))"
  by (auto simp: shrinks_def)

lemma unat_minus_1_word: "w \<noteq> 0 \<Longrightarrow> unat (w - 1 :: 'a::len word) = unat w - 1"
  by (rule unat_minus_one)

lemma AddRef_ok:
  assumes ok: "heap_ok h n" and rc: "rc_ok h n R" and a: "h a = Some v" and fit: "mRefCount v \<noteq> - 1"
  defines "h' \<equiv> h(a \<mapsto> v\<lparr>mRefCount := mRefCount v + 1\<rparr>)"
  shows "AsyncValue_AddRef h a 1 = Some h'" "heap_ok h' n" "rc_ok h' n (R(a := R a + 1))" "shrinks h h'"
proof -
  have an: "a < n" using ok a by (auto simp: heap_ok_def)
  have "mRefCount v \<noteq> 0" by (rule rc_ok_Some(2) [OF rc a])
  then show "AsyncValue_AddRef h a 1 = Some h'"
    by (simp add: AsyncValue_AddRef_def a h'_def word_neq_0_conv)
  show "heap_ok h' n" unfolding h'_def by (rule heap_ok_rc_update [OF ok a])
  show "shrinks h h'" unfolding h'_def by (rule shrinks_rc_update [of h a v, OF a])
  have m: "mrefs h' n b = mrefs h n b" for b
    unfolding h'_def by (rule mrefs_same [of a n h v, OF an a]) simp
  have "unat (mRefCount v + 1) = Suc (unat (mRefCount v))" by (rule unat_Suc_word [OF fit])
  moreover then have "mRefCount v + 1 \<noteq> 0" by (metis nat.distinct(1) unat_0)
  ultimately show "rc_ok h' n (R(a := R a + 1))"
    using rc_ok_Some [OF rc] rc_ok_None [OF rc] a
    by (intro rc_okI) (auto simp: h'_def m [unfolded h'_def] split: if_splits)
qed

text \<open>Dropping a reference.\<close>

lemma heap_ok_delete:
  assumes ok: "heap_ok h n" and a: "mrefs h n a = 0"
  shows "heap_ok (h(a := None)) n"
  unfolding heap_ok_def
proof (intro allI impI)
  fix b w assume b: "(h(a := None)) b = Some w"
  then have w: "h b = Some w" by (simp split: if_splits)
  then have bn: "b < n" and vo: "val_ok h w" using ok by (auto simp: heap_ok_def)
  have "mValue w \<noteq> Some a" using mrefs_ge [of b n h w, OF bn w] a by fastforce
  then have "val_ok (h(a := None)) w" by (intro val_ok_cong [OF vo refl]) auto
  with bn show "b < n \<and> val_ok (h(a := None)) w" by blast
qed

lemma mrefs_delete:
  assumes "a < n" "h a = Some v"
  shows "mrefs (h(a := None)) n b + of_bool (mValue v = Some b) = mrefs h n b"
  unfolding mrefs_def by (rule hsum_delete [of a n h v, OF assms])

lemma DropRef_more:
  assumes ok: "heap_ok h n" and rc: "rc_ok h n R" and a: "h a = Some v" "0 < R a" "mRefCount v \<noteq> 1"
  defines "h' \<equiv> h(a \<mapsto> v\<lparr>mRefCount := mRefCount v - 1\<rparr>)"
  shows "AsyncValue_DropRef h a 1 = Some h'" "heap_ok h' n" "rc_ok h' n (R(a := R a - 1))" "shrinks h h'"
proof -
  have an: "a < n" using ok a by (auto simp: heap_ok_def)
  have nz: "mRefCount v \<noteq> 0" by (rule rc_ok_Some(2) [OF rc a(1)])
  show "AsyncValue_DropRef h a 1 = Some h'"
    by (subst AsyncValue_DropRef.simps) (simp add: a nz h'_def)
  show "heap_ok h' n" unfolding h'_def by (rule heap_ok_rc_update [of h n a v, OF ok a(1)])
  show "shrinks h h'" unfolding h'_def by (rule shrinks_rc_update [of h a v, OF a(1)])
  have m: "mrefs h' n b = mrefs h n b" for b
    unfolding h'_def by (rule mrefs_same [of a n h v, OF an a(1)]) simp
  have d: "unat (mRefCount v - 1) = unat (mRefCount v) - 1" by (rule unat_minus_1_word [OF nz])
  have "mRefCount v - 1 \<noteq> 0" using a(3) by simp
  then show "rc_ok h' n (R(a := R a - 1))"
    using rc_ok_Some [OF rc] rc_ok_None [OF rc] a d
    by (intro rc_okI) (auto simp: h'_def m [unfolded h'_def] split: if_splits)
qed

lemma rc_ok_delete:
  assumes rc: "rc_ok h n R" and a: "a < n" "h a = Some v" "mRefCount v = 1" "0 < R a" "mValue v = None"
  shows "mrefs h n a = 0" "rc_ok (h(a := None)) n (R(a := R a - 1))"
proof -
  have "R a + mrefs h n a = 1" using rc_ok_Some(1) [OF rc a(2)] a(3) by simp
  with a(4) show z: "mrefs h n a = 0" by simp
  have m: "mrefs (h(a := None)) n b = mrefs h n b" for b
    using mrefs_delete [of a n h v b, OF a(1,2)] a(5) by simp
  show "rc_ok (h(a := None)) n (R(a := R a - 1))"
    using rc_ok_Some [OF rc] rc_ok_None [OF rc] \<open>R a + mrefs h n a = 1\<close> z
    by (intro rc_okI) (auto simp: m split: if_splits)
qed

lemma shrinks_delete: "h a = Some v \<Longrightarrow> mWaiters v = [] \<Longrightarrow> shrinks h (h(a := None))"
  by (auto simp: shrinks_def)

text \<open>Dropping the last reference to a value that forwards to nothing.\<close>

lemma DropRef_last:
  assumes ok: "heap_ok h n" and rc: "rc_ok h n R"
    and a: "h a = Some v" "0 < R a" "mRefCount v = 1" "mValue v = None" "mWaiters v = []"
  defines "h' \<equiv> h(a := None)"
  shows "AsyncValue_DropRef h a 1 = Some h'" "heap_ok h' n" "rc_ok h' n (R(a := R a - 1))" "shrinks h h'"
proof -
  have an: "a < n" using ok a by (auto simp: heap_ok_def)
  note del = rc_ok_delete [OF rc an a(1,3,2,4)]
  show "AsyncValue_DropRef h a 1 = Some h'"
    by (subst AsyncValue_DropRef.simps) (simp add: a h'_def)
  show "heap_ok h' n" unfolding h'_def by (rule heap_ok_delete [OF ok del(1)])
  show "shrinks h h'" unfolding h'_def by (rule shrinks_delete [of h a v, OF a(1,5)])
  show "rc_ok h' n (R(a := R a - 1))" unfolding h'_def by (rule del(2))
qed

text \<open>Turning a forwarding pointer into a plain reference, as the destructor does before it drops it.\<close>

lemma rc_ok_unlink:
  assumes ok: "heap_ok h n" and rc: "rc_ok h n R" and a: "h a = Some v" "mKind v = KIndirect" "mValue v = Some c"
    "mRefCount v = 1" "0 < R a" "mWaiters v = []"
  defines "h0 \<equiv> h(a := None)"
  shows "heap_ok h0 n" "rc_ok h0 n (R(a := R a - 1, c := R c + 1))" "shrinks h h0" "c \<noteq> a" "mrefs h n a = 0"
proof -
  have an: "a < n" and vo: "val_ok h v" using ok a by (auto simp: heap_ok_def)
  then obtain cv where cv: "h c = Some cv" "mKind cv = KConcrete" using a by (auto simp: val_ok_def)
  then show ca: "c \<noteq> a" using a by auto
  have one: "R a + mrefs h n a = 1" using rc_ok_Some(1) [OF rc a(1)] a(4) by simp
  with a(5) show z: "mrefs h n a = 0" by simp
  show "heap_ok h0 n" unfolding h0_def by (rule heap_ok_delete [OF ok z])
  show "shrinks h h0" unfolding h0_def by (rule shrinks_delete [of h a v, OF a(1,6)])
  have m: "mrefs h0 n b + of_bool (b = c) = mrefs h n b" for b
    using mrefs_delete [of a n h v b, OF an a(1)] a(3) by (auto simp: h0_def)
  show "rc_ok h0 n (R(a := R a - 1, c := R c + 1))"
  proof (rule rc_okI)
    fix b assume "h0 b = None"
    then show "(R(a := R a - 1, c := R c + 1)) b = 0 \<and> mrefs h0 n b = 0"
      using m [of b] rc_ok_None [OF rc, of b] one z cv ca by (auto simp: h0_def split: if_splits)
  next
    fix b w assume "h0 b = Some w"
    then show "unat (mRefCount w) = (R(a := R a - 1, c := R c + 1)) b + mrefs h0 n b \<and> mRefCount w \<noteq> 0"
      using m [of b] rc_ok_Some [OF rc, of b w] ca by (auto simp: h0_def split: if_splits)
  qed
qed

lemma DropRef_upd_other:
  assumes "c \<noteq> a" "h c = Some cv" "mKind cv = KConcrete"
  shows "AsyncValue_DropRef (h(a := x)) c k = map_option (\<lambda>h'. h'(a := x)) (AsyncValue_DropRef h c k)"
  using assms by (subst (1 2) AsyncValue_DropRef.simps) (auto simp: fun_upd_twist)

lemma DropRef_ok:
  assumes ok: "heap_ok h n" and rc: "rc_ok h n R" and a: "h a = Some v" "0 < R a"
    and ws: "mRefCount v = 1 \<Longrightarrow> mWaiters v = []"
  shows "\<exists>h'. AsyncValue_DropRef h a 1 = Some h' \<and> heap_ok h' n \<and> rc_ok h' n (R(a := R a - 1)) \<and> shrinks h h'"
proof (cases "mRefCount v = 1 \<and> mValue v \<noteq> None")
  case False
  then show ?thesis
    using DropRef_more [OF ok rc a] DropRef_last [OF ok rc a] ws by blast
next
  case True
  then obtain c where c: "mValue v = Some c" and one: "mRefCount v = 1" by blast
  have vo: "val_ok h v" using ok a by (auto simp: heap_ok_def)
  then have ind: "mKind v = KIndirect" using c by (cases "mKind v") (auto simp: val_ok_def)
  with vo c obtain cv where cv: "h c = Some cv" "mKind cv = KConcrete" "State_IsAvailable (mState cv)"
    by (auto simp: val_ok_def)
  have "val_ok h cv" using ok cv(1) by (auto simp: heap_ok_def)
  then have cw: "mWaiters cv = []" "mValue cv = None" using cv by (auto simp: val_ok_def)
  note un = rc_ok_unlink [OF ok rc a(1) ind c one a(2) ws [OF one]]
  let ?h0 = "h(a := None)" and ?R0 = "R(a := R a - 1, c := R c + 1)"
  have c0: "?h0 c = Some cv" "0 < ?R0 c" using cv un(4) by simp_all
  obtain h1 where h1: "AsyncValue_DropRef ?h0 c 1 = Some h1" "heap_ok h1 n" "rc_ok h1 n (?R0(c := ?R0 c - 1))"
      "shrinks ?h0 h1"
    using DropRef_more [OF un(1,2) c0] DropRef_last [OF un(1,2) c0 _ cw(2,1)] by blast
  then obtain h2 where h2: "AsyncValue_DropRef h c 1 = Some h2" "h1 = h2(a := None)"
    using DropRef_upd_other [of c a h cv None 1, OF un(4) cv(1,2)] by (auto simp: map_option_case split: option.splits)
  have "AsyncValue_DropRef h a 1 = Some h1"
    by (subst AsyncValue_DropRef.simps) (simp add: a(1) one ind c h2 ws [OF one])
  moreover have "?R0(c := ?R0 c - 1) = R(a := R a - 1)" using un(4) by (auto simp: fun_upd_def)
  ultimately show ?thesis using h1 shrinks_trans [OF un(3) h1(4)] by metis
qed

subsection \<open>Resolving values keeps the store well formed\<close>

lemma heap_waiters_update:
  assumes "a < n" "h a = Some v"
  shows "heap_waiters (h(a \<mapsto> v')) n + mset (mWaiters v) = heap_waiters h n + mset (mWaiters v')"
  unfolding heap_waiters_def by (rule hsum_update [of a n h v, OF assms])

lemma rc_ok_same:
  assumes rc: "rc_ok h n R" and a: "a < n" "h a = Some v" "mValue v' = mValue v" "mRefCount v' = mRefCount v"
  shows "rc_ok (h(a \<mapsto> v')) n R"
proof -
  have m: "mrefs (h(a \<mapsto> v')) n b = mrefs h n b" for b by (rule mrefs_same [of a n h v, OF a(1-3)])
  show ?thesis
    using rc_ok_Some [OF rc] rc_ok_None [OF rc] a by (intro rc_okI) (auto simp: m split: if_splits)
qed

definition resolved :: "'a AsyncValue \<Rightarrow> StateEnum \<Rightarrow> 'a payload \<Rightarrow> 'a AsyncValue" where
  "resolved v st p = v\<lparr>mPayload := p, mWaiters := [], mState := st\<rparr>"

lemma resolve_concrete:
  assumes ok: "heap_ok h n" and rc: "rc_ok h n R" and a: "h a = Some v" "mKind v = KConcrete" "\<not> State_IsAvailable (mState v)"
    and p: "st = kConcrete \<and> (\<exists>x. p = Data x) \<or> st = kError \<and> (\<exists>d. p = Diag d)"
  defines "h' \<equiv> h(a \<mapsto> resolved v st p)"
  shows "NotifyAvailable (h(a \<mapsto> v\<lparr>mPayload := p\<rparr>)) a st = Some (h', mWaiters v)"
    "heap_ok h' n" "rc_ok h' n R" "heap_waiters h' n + mset (mWaiters v) = heap_waiters h n"
proof -
  have an: "a < n" and vo: "val_ok h v" using ok a by (auto simp: heap_ok_def)
  show "NotifyAvailable (h(a \<mapsto> v\<lparr>mPayload := p\<rparr>)) a st = Some (h', mWaiters v)"
    using a(3) p by (auto simp: NotifyAvailable_def h'_def resolved_def)
  have "val_ok h' (resolved v st p)"
    using vo a p by (auto simp: val_ok_def resolved_def)
  then show "heap_ok h' n"
    unfolding h'_def using a by (intro heap_ok_update [OF ok a(1)]) (simp_all add: resolved_def)
  show "rc_ok h' n R"
    unfolding h'_def by (rule rc_ok_same [of h n R a v, OF rc an a(1)]) (simp_all add: resolved_def)
  show "heap_waiters h' n + mset (mWaiters v) = heap_waiters h n"
    unfolding h'_def using heap_waiters_update [of a n h v "resolved v st p", OF an a(1)] by (simp add: resolved_def)
qed

definition linked :: "'a AsyncValue \<Rightarrow> av_ptr \<Rightarrow> 'a AsyncValue \<Rightarrow> 'a AsyncValue" where
  "linked iv c cv = iv\<lparr>mValue := Some c, mTypeId := mTypeId cv, mWaiters := [], mState := mState cv\<rparr>"

lemma link_ok:
  assumes ok: "heap_ok h n" and rc: "rc_ok h n R"
    and i: "h i = Some iv" "mKind iv = KIndirect" "\<not> State_IsAvailable (mState iv)"
    and c: "h c = Some cv" "mKind cv = KConcrete" "State_IsAvailable (mState cv)" "0 < R c"
  defines "h' \<equiv> h(i \<mapsto> linked iv c cv)"
  shows "NotifyAvailable (h(i \<mapsto> iv\<lparr>mValue := Some c, mTypeId := mTypeId cv\<rparr>)) i (mState cv) = Some (h', mWaiters iv)"
    "heap_ok h' n" "rc_ok h' n (R(c := R c - 1))" "heap_waiters h' n + mset (mWaiters iv) = heap_waiters h n"
proof -
  have i_n: "i < n" and vo: "val_ok h iv" using ok i by (auto simp: heap_ok_def)
  then have none: "mValue iv = None" using i by (auto simp: val_ok_def)
  have ic: "i \<noteq> c" using i c by auto
  have avail: "mState cv \<noteq> kConstructed" using c(3) by auto
  show "NotifyAvailable (h(i \<mapsto> iv\<lparr>mValue := Some c, mTypeId := mTypeId cv\<rparr>)) i (mState cv) = Some (h', mWaiters iv)"
    using i c by (simp add: NotifyAvailable_def h'_def linked_def)
  have "val_ok h' (linked iv c cv)"
    using i c ic avail by (auto simp: val_ok_def h'_def linked_def)
  then show "heap_ok h' n"
    unfolding h'_def using i by (intro heap_ok_update [OF ok i(1)]) (simp_all add: linked_def)
  have m: "mrefs h' n b = mrefs h n b + of_bool (b = c)" for b
    using mrefs_update [of i n h iv "linked iv c cv" b, OF i_n i(1)] none
    by (auto simp: h'_def linked_def)
  show "rc_ok h' n (R(c := R c - 1))"
  proof (rule rc_okI)
    fix b assume "h' b = None"
    then have "h b = None" "b \<noteq> c" using c(1) by (auto simp: h'_def split: if_splits)
    then show "(R(c := R c - 1)) b = 0 \<and> mrefs h' n b = 0"
      using rc_ok_None [OF rc, of b] by (simp add: m)
  next
    fix b w assume b: "h' b = Some w"
    then obtain w0 where "h b = Some w0" "mRefCount w0 = mRefCount w"
      using i(1) by (auto simp: h'_def linked_def split: if_splits)
    then show "unat (mRefCount w) = (R(c := R c - 1)) b + mrefs h' n b \<and> mRefCount w \<noteq> 0"
      using rc_ok_Some [OF rc, of b w0] c(4) by (auto simp: m)
  qed
  show "heap_waiters h' n + mset (mWaiters iv) = heap_waiters h n"
    unfolding h'_def using heap_waiters_update [of i n h iv "linked iv c cv", OF i_n i(1)] by (simp add: linked_def)
qed

text \<open>Room in the 32-bit counters for one more reference.\<close>

definition refs_fit :: "'a av_heap \<Rightarrow> bool" where
  "refs_fit h \<longleftrightarrow> (\<forall>a v. h a = Some v \<longrightarrow> mRefCount v \<noteq> - 1)"

lemma unresolved_mValue:
  assumes "heap_ok h n" "h i = Some iv" "mKind iv = KIndirect" "\<not> State_IsAvailable (mState iv)"
  shows "mValue iv = None"
proof -
  have "val_ok h iv" using assms by (auto simp: heap_ok_def)
  then show ?thesis using assms by (simp add: val_ok_def)
qed

lemma ForwardTo_available:
  assumes ok: "heap_ok h n" and rc: "rc_ok h n R" and fit: "refs_fit h"
    and i: "h i = Some iv" "mKind iv = KIndirect" "\<not> State_IsAvailable (mState iv)" "0 < R i"
    and v: "h v = Some vv" "State_IsAvailable (mState vv)" "0 < R v"
  shows "\<exists>h0 h' iv' c. ForwardTo h i v = Some (h', mWaiters iv) \<and> heap_ok h' n \<and> rc_ok h' n (R(v := R v - 1)) \<and>
    heap_waiters h' n + mset (mWaiters iv) = heap_waiters h n \<and>
    shrinks h h0 \<and> h' = h0(i \<mapsto> iv') \<and> mKind iv' = KIndirect \<and> mState iv' = mState vv \<and> mWaiters iv' = [] \<and>
    mValue iv' = Some c \<and> c = (if mKind vv = KIndirect then the (mValue vv) else v)"
proof (cases "mKind vv = KIndirect")
  case False
  then have conc: "mKind vv = KConcrete" by (cases "mKind vv") auto
  note ln = link_ok [OF ok rc i(1-3) v(1) conc v(2,3)]
  have "mValue iv = None" by (rule unresolved_mValue [OF ok i(1-3)])
  then have "ForwardTo h i v = Some (h(i \<mapsto> linked iv v vv), mWaiters iv)"
    using ln(1) i v conc by (simp add: ForwardTo_def)
  moreover have "mKind (linked iv v vv) = KIndirect" "mState (linked iv v vv) = mState vv"
    "mWaiters (linked iv v vv) = []" "mValue (linked iv v vv) = Some v"
    using i(2) by (simp_all add: linked_def)
  moreover have "v = (if mKind vv = KIndirect then the (mValue vv) else v)" using False by simp
  ultimately show ?thesis using ln(2-4) shrinks_refl [of h] by blast
next
  case True
  have none: "mValue iv = None" by (rule unresolved_mValue [OF ok i(1-3)])
  have vo: "val_ok h vv" using ok v by (auto simp: heap_ok_def)
  then obtain c cv where c: "mValue vv = Some c" "h c = Some cv" "mKind cv = KConcrete" "mState cv = mState vv"
    using True v(2) by (auto simp: val_ok_def)
  have vw: "mWaiters vv = []" using vo v(2) by (simp add: val_ok_def)
  have ne: "c \<noteq> v" "c \<noteq> i" "i \<noteq> v" using c True i v by auto
  have "mRefCount cv \<noteq> - 1" using fit c(2) by (auto simp: refs_fit_def)
  note ad = AddRef_ok [OF ok rc c(2) this]
  let ?h1 = "h(c \<mapsto> cv\<lparr>mRefCount := mRefCount cv + 1\<rparr>)" and ?R1 = "R(c := R c + 1)"
  have v1: "?h1 v = Some vv" "0 < ?R1 v" using v ne by simp_all
  obtain h2 where h2: "AsyncValue_DropRef ?h1 v 1 = Some h2" "heap_ok h2 n" "rc_ok h2 n (?R1(v := ?R1 v - 1))" "shrinks ?h1 h2"
    using DropRef_ok [OF ad(2,3) v1 vw] by blast
  have sh: "shrinks h h2" by (rule shrinks_trans [OF ad(4) h2(4)])
  have "0 < (?R1(v := ?R1 v - 1)) c" "0 < (?R1(v := ?R1 v - 1)) i" using ne i(4) by simp_all
  with h2(3) obtain cv2 iv2 where 2: "h2 c = Some cv2" "h2 i = Some iv2" by (metis rc_ok_alive)
  have core2: "core cv2 = core cv" "core iv2 = core iv" using shrinksD(1) [OF sh] 2 c(2) i(1) by fastforce+
  have i2: "mKind iv2 = KIndirect" "\<not> State_IsAvailable (mState iv2)" "mWaiters iv2 = mWaiters iv"
    using core_eqD [OF core2(2)] i by simp_all
  have c2: "mKind cv2 = KConcrete" "State_IsAvailable (mState cv2)" "mState cv2 = mState vv"
    using core_eqD [OF core2(1)] c v by simp_all
  have "0 < (?R1(v := ?R1 v - 1)) c" using ne by simp
  note ln = link_ok [OF h2(2,3) 2(2) i2(1,2) 2(1) c2(1,2) this]
  have "ForwardTo h i v = Some (h2(i \<mapsto> linked iv2 c cv2), mWaiters iv)"
    using ln(1) i v c none True ad(1) h2(1) 2 by (simp add: ForwardTo_def c2(3) i2(3))
  moreover have "(?R1(v := ?R1 v - 1))(c := (?R1(v := ?R1 v - 1)) c - 1) = R(v := R v - 1)"
    using ne(1) by (intro ext) simp
  then have "rc_ok (h2(i \<mapsto> linked iv2 c cv2)) n (R(v := R v - 1))" using ln(3) by (simp only:)
  moreover have "heap_waiters (h2(i \<mapsto> linked iv2 c cv2)) n + mset (mWaiters iv) = heap_waiters h n"
    using ln(4) shrinks_waiters [OF sh, of n] by (simp add: i2(3))
  moreover have "mKind (linked iv2 c cv2) = KIndirect" "mState (linked iv2 c cv2) = mState vv"
    "mWaiters (linked iv2 c cv2) = []" "mValue (linked iv2 c cv2) = Some c"
    using i2(1) c2(3) by (simp_all add: linked_def)
  moreover have "c = (if mKind vv = KIndirect then the (mValue vv) else v)" using True c(1) by simp
  ultimately show ?thesis using ln(2) sh by blast
qed

lemma AndThen_unavailable:
  fixes w :: waiter
  assumes ok: "heap_ok h n" and rc: "rc_ok h n R" and a: "h a = Some v" "\<not> State_IsAvailable (mState v)"
  defines "h' \<equiv> h(a \<mapsto> v\<lparr>mWaiters := w # mWaiters v\<rparr>)"
  shows "AndThen h a w = Some (h', [])" "heap_ok h' n" "rc_ok h' n R"
    "heap_waiters h' n = add_mset w (heap_waiters h n)"
proof -
  have an: "a < n" and vo: "val_ok h v" using ok a by (auto simp: heap_ok_def)
  show "AndThen h a w = Some (h', [])" using a by (simp add: AndThen_def EnqueueWaiter_def h'_def)
  have "val_ok h' (v\<lparr>mWaiters := w # mWaiters v\<rparr>)"
    using vo a by (auto simp: val_ok_def h'_def split: Kind.splits)
  then show "heap_ok h' n" unfolding h'_def by (intro heap_ok_update [OF ok a(1)]) simp_all
  show "rc_ok h' n R" unfolding h'_def by (rule rc_ok_same [of h n R a v, OF rc an a(1)]) simp_all
  have "heap_waiters h' n + mset (mWaiters v) = add_mset w (heap_waiters h n) + mset (mWaiters v)"
    unfolding h'_def using heap_waiters_update [of a n h v "v\<lparr>mWaiters := w # mWaiters v\<rparr>", OF an a(1)] by simp
  then show "heap_waiters h' n = add_mset w (heap_waiters h n)" by (simp only: add_right_cancel)
qed

lemma AndThen_available:
  assumes ok: "heap_ok h n" and a: "h a = Some v" "State_IsAvailable (mState v)"
  shows "AndThen h a w = Some (h, [w])"
proof -
  have "val_ok h v" using ok a by (auto simp: heap_ok_def)
  then show ?thesis using a by (simp add: AndThen_def val_ok_def)
qed

lemma ForwardTo_unavailable:
  assumes ok: "heap_ok h n" and rc: "rc_ok h n R" and fit: "refs_fit h"
    and i: "h i = Some iv" "\<not> State_IsAvailable (mState iv)"
    and v: "h v = Some vv" "\<not> State_IsAvailable (mState vv)"
  shows "\<exists>h0 vv'. shrinks h h0 \<and> h0 v = Some vv' \<and> core vv' = core vv \<and> heap_ok h0 n \<and> rc_ok h0 n (R(i := R i + 1)) \<and>
     ForwardTo h i v = AndThen h0 v (Forward i v)"
proof -
  have "mRefCount iv \<noteq> - 1" using fit i(1) by (auto simp: refs_fit_def)
  note ad = AddRef_ok [OF ok rc i(1) this]
  have "ForwardTo h i v = AndThen (h(i \<mapsto> iv\<lparr>mRefCount := mRefCount iv + 1\<rparr>)) v (Forward i v)"
    using i v ad(1) by (simp add: ForwardTo_def)
  with ad show ?thesis using v(1) i(1) by (cases "v = i") (auto intro!: exI [of _ "h(i \<mapsto> iv\<lparr>mRefCount := mRefCount iv + 1\<rparr>)"])
qed

end
