(* ===== verification/Async_System.thy ===== *)
theory Async_System
  imports Async_Value
begin

text \<open>
  Programs that use async values from several threads: clients create values, register waiters,
  resolve values, forward indirect values and call HostContext::RunWhenReady
  (\<^verbatim>\<open>src/async/context/host_context.cpp\<close>), in any order, while every call of RunWaiters
  (\<^verbatim>\<open>src/async/context/async_value.cpp\<close>) works through its own list of waiters. The model keeps, beside
  the store, the references that clients own and the lists of nodes that calls of RunWaiters still
  have to run or to destroy.
\<close>

subsection \<open>State\<close>

text \<open>\<open>Node w\<close> has to be called, \<open>Done w\<close> was called and its closure has to be destroyed.\<close>

datatype av_item = Node waiter | Done waiter

text \<open>A block of RunWhenReady: CounterAndCallee with its counter and the callee's name.\<close>

type_synonym counter_block = "(u64 \<times> nat) option"

record 'a av_sys =
  as_heap :: "'a av_heap"
  as_next :: nat
  as_ext :: "av_ptr \<Rightarrow> nat"
  as_runs :: "av_item list list"
  as_data :: "counter_block list"
  as_log :: "nat list"
  as_reg :: "(nat \<times> av_ptr list) list"

definition av_start :: "'a av_sys" where
  "av_start = \<lparr>as_heap = Map.empty, as_next = 0, as_ext = (\<lambda>_. 0), as_runs = [], as_data = [], as_log = [], as_reg = []\<rparr>"

subsection \<open>HostContext: creating values and waiting for several\<close>

definition fresh_value :: "u16 \<Rightarrow> 'a AsyncValue \<Rightarrow> bool" where
  "fresh_value tid v \<longleftrightarrow>
     (\<exists>T. v = ConcreteAsyncValue_Unconstructed T) \<or> (\<exists>T x. v = ConcreteAsyncValue_Constructed T x) \<or>
     (\<exists>T x. v = ConcreteAsyncValue_Concrete T x) \<or> (\<exists>d. v = ConcreteAsyncValue_Error (DummyType tid) d) \<or>
     v = IndirectAsyncValue_new"

text \<open>The Make functions put the new value at a fresh address and hand its only reference to the client.\<close>

definition HostContext_Construct :: "'a AsyncValue \<Rightarrow> 'a av_sys \<Rightarrow> 'a av_sys" where
  "HostContext_Construct v s =
     s\<lparr>as_heap := (as_heap s)(as_next s \<mapsto> v), as_next := Suc (as_next s), as_ext := (as_ext s)(as_next s := 1)\<rparr>"

definition MakeUnconstructedAsyncValueRef :: "ctype \<Rightarrow> 'a av_sys \<Rightarrow> 'a av_sys" where
  [simp]: "MakeUnconstructedAsyncValueRef T = HostContext_Construct (ConcreteAsyncValue_Unconstructed T)"

definition MakeConstructedAsyncValueRef :: "ctype \<Rightarrow> 'a \<Rightarrow> 'a av_sys \<Rightarrow> 'a av_sys" where
  [simp]: "MakeConstructedAsyncValueRef T x = HostContext_Construct (ConcreteAsyncValue_Constructed T x)"

definition MakeAvailableAsyncValueRef :: "ctype \<Rightarrow> 'a \<Rightarrow> 'a av_sys \<Rightarrow> 'a av_sys" where
  [simp]: "MakeAvailableAsyncValueRef T x = HostContext_Construct (ConcreteAsyncValue_Concrete T x)"

definition MakeErrorAsyncValueRef :: "u16 \<Rightarrow> DecodedDiagnostic \<Rightarrow> 'a av_sys \<Rightarrow> 'a av_sys" where
  [simp]: "MakeErrorAsyncValueRef tid d = HostContext_Construct (ConcreteAsyncValue_Error (DummyType tid) d)"

definition MakeIndirectAsyncValue :: "'a av_sys \<Rightarrow> 'a av_sys" where
  [simp]: "MakeIndirectAsyncValue = HostContext_Construct IndirectAsyncValue_new"

text \<open>A call of RunWaiters on the list \<open>ws\<close>.\<close>

definition RunWaiters_call :: "'a av_heap \<Rightarrow> waiter list \<Rightarrow> 'a av_sys \<Rightarrow> 'a av_sys" where
  "RunWaiters_call h ws s = s\<lparr>as_heap := h, as_runs := as_runs s @ [map Node ws]\<rparr>"

fun AndThen_all :: "'a av_heap \<Rightarrow> av_ptr list \<Rightarrow> waiter \<Rightarrow> ('a av_heap \<times> waiter list) option" where
  "AndThen_all h [] w = Some (h, [])"
| "AndThen_all h (a # as) w =
     (case AndThen h a w of
        None \<Rightarrow> None
      | Some (h1, ws1) \<Rightarrow> (case AndThen_all h1 as w of None \<Rightarrow> None | Some (h2, ws2) \<Rightarrow> Some (h2, ws1 @ ws2)))"

text \<open>RunWhenReady after its scan: \<open>seen\<close> are the values it found unavailable. Other threads run between
  the scan and the registration, so some of them may have become available since.\<close>

definition RunWhenReady :: "'a av_sys \<Rightarrow> av_ptr list \<Rightarrow> nat \<Rightarrow> 'a av_sys option" where
  "RunWhenReady s seen callee =
     (case seen of
        [] \<Rightarrow> Some (RunWaiters_call (as_heap s) [Client callee] s)
      | [a] \<Rightarrow> map_option (\<lambda>(h, ws). RunWaiters_call h ws s) (AndThen (as_heap s) a (Client callee))
      | _ \<Rightarrow> map_option
               (\<lambda>(h, ws). RunWaiters_call h ws (s\<lparr>as_data := as_data s @ [Some (of_nat (length seen), callee)]\<rparr>))
               (AndThen_all (as_heap s) seen (Count (length (as_data s)))))"

definition RunWhenReady_scan :: "'a av_heap \<Rightarrow> av_ptr list \<Rightarrow> av_ptr list" where
  "RunWhenReady_scan h vs = filter (\<lambda>a. \<not> IsAvailable h a) vs"

text \<open>One node of RunWaiters: the call of its notification, and its destruction, which drops the
  reference that a forwarding closure keeps of the forwarding value.\<close>

fun RunWaiters_node :: "av_item \<Rightarrow> 'a av_sys \<Rightarrow> ('a av_sys \<times> av_item list) option" where
  "RunWaiters_node (Node (Client w)) s = Some (s\<lparr>as_log := as_log s @ [w]\<rparr>, [Done (Client w)])"
| "RunWaiters_node (Node (Forward i v)) s =
     map_option (\<lambda>(h, ws). (s\<lparr>as_heap := h\<rparr>, map Node ws @ [Done (Forward i v)])) (ForwardTo (as_heap s) i v)"
| "RunWaiters_node (Node (Count d)) s =
     (if d < length (as_data s)
      then (case as_data s ! d of
              None \<Rightarrow> None
            | Some (counter, callee) \<Rightarrow>
                if counter \<noteq> 1
                then Some (s\<lparr>as_data := (as_data s)[d := Some (counter - 1, callee)]\<rparr>, [Done (Count d)])
                else Some (s\<lparr>as_data := (as_data s)[d := None], as_log := as_log s @ [callee]\<rparr>, [Done (Count d)]))
      else None)"
| "RunWaiters_node (Done (Forward i v)) s =
     map_option (\<lambda>h. (s\<lparr>as_heap := h\<rparr>, [])) (AsyncValue_DropRef (as_heap s) i 1)"
| "RunWaiters_node (Done w) s = Some (s, [])"

subsection \<open>Steps\<close>

text \<open>The forwarding closures that wait for \<open>i\<close> to be resolved, among the waiters \<open>P\<close>.\<close>

fun forwards :: "av_ptr \<Rightarrow> waiter \<Rightarrow> bool" where
  "forwards i (Forward j v) = (i = j)"
| "forwards i w = False"

definition item_waiters :: "av_item multiset \<Rightarrow> waiter multiset" where
  "item_waiters M = (\<Sum>x\<in>#M. case x of Node w \<Rightarrow> {#w#} | Done _ \<Rightarrow> {#})"

definition as_items :: "'a av_sys \<Rightarrow> av_item multiset" where
  "as_items s = mset (concat (as_runs s))"

definition pool :: "'a av_sys \<Rightarrow> waiter multiset" where
  "pool s = heap_waiters (as_heap s) (as_next s) + item_waiters (as_items s)"

text \<open>The documented rule for clients: a client calls an operation on a value only while it owns a
  reference to it, names each closure afresh, and forwards an indirect value at most once (SetError on
  an indirect value forwards it too). Every step needs room in the 32-bit reference counts. A step is
  possible only if the asserts of the operation hold.\<close>

inductive av_step :: "u16 \<Rightarrow> 'a av_sys \<Rightarrow> 'a av_sys \<Rightarrow> bool" for tid where
  make: "fresh_value tid v \<Longrightarrow> av_step tid s (HostContext_Construct v s)"
| addref: "0 < as_ext s a \<Longrightarrow> refs_fit (as_heap s) \<Longrightarrow> AsyncValue_AddRef (as_heap s) a 1 = Some h \<Longrightarrow>
    av_step tid s (s\<lparr>as_heap := h, as_ext := (as_ext s)(a := as_ext s a + 1)\<rparr>)"
| dropref: "0 < as_ext s a \<Longrightarrow> AsyncValue_DropRef (as_heap s) a 1 = Some h \<Longrightarrow>
    av_step tid s (s\<lparr>as_heap := h, as_ext := (as_ext s)(a := as_ext s a - 1)\<rparr>)"
| andthen: "0 < as_ext s a \<Longrightarrow> w \<notin> fst ` set (as_reg s) \<Longrightarrow> AndThen (as_heap s) a (Client w) = Some (h, ws) \<Longrightarrow>
    av_step tid s (RunWaiters_call h ws (s\<lparr>as_reg := as_reg s @ [(w, [a])]\<rparr>))"
| ready: "\<forall>a \<in> set vs. 0 < as_ext s a \<Longrightarrow> w \<notin> fst ` set (as_reg s) \<Longrightarrow> length seen < 2 ^ 64 \<Longrightarrow>
    set seen \<subseteq> set vs \<Longrightarrow> \<forall>a \<in> set vs - set seen. IsAvailable (as_heap s) a \<Longrightarrow>
    RunWhenReady s seen w = Some s' \<Longrightarrow>
    av_step tid s (s'\<lparr>as_reg := as_reg s @ [(w, vs)]\<rparr>)"
| emplace: "0 < as_ext s a \<Longrightarrow> emplace (as_heap s) a T x = Some (h, ws) \<Longrightarrow> av_step tid s (RunWaiters_call h ws s)"
| setconcrete: "0 < as_ext s a \<Longrightarrow> SetStateConcrete (as_heap s) a = Some (h, ws) \<Longrightarrow>
    av_step tid s (RunWaiters_call h ws s)"
| setlocation: "0 < as_ext s a \<Longrightarrow> SetErrorLocationIfUnset (as_heap s) a loc = Some h \<Longrightarrow> av_step tid s (s\<lparr>as_heap := h\<rparr>)"
| seterror: "0 < as_ext s a \<Longrightarrow> refs_fit (as_heap s) \<Longrightarrow> filter_mset (forwards a) (pool s) = {#} \<Longrightarrow>
    SetError tid (as_heap s) a d (as_next s) = Some (h, ws) \<Longrightarrow>
    av_step tid s (RunWaiters_call h ws (s\<lparr>as_next := Suc (as_next s)\<rparr>))"
| forward: "0 < as_ext s i \<Longrightarrow> 0 < as_ext s v \<Longrightarrow> refs_fit (as_heap s) \<Longrightarrow> IsUnresolvedIndirect (as_heap s) i \<Longrightarrow>
    filter_mset (forwards i) (pool s) = {#} \<Longrightarrow> ForwardTo (as_heap s) i v = Some (h, ws) \<Longrightarrow>
    av_step tid s (RunWaiters_call h ws (s\<lparr>as_ext := (as_ext s)(v := as_ext s v - 1)\<rparr>))"
| run: "k < length (as_runs s) \<Longrightarrow> as_runs s ! k = x # xs \<Longrightarrow> refs_fit (as_heap s) \<Longrightarrow>
    RunWaiters_node x s = Some (s', new) \<Longrightarrow>
    av_step tid s (s'\<lparr>as_runs := (as_runs s)[k := new @ xs]\<rparr>)"

inductive av_reach :: "u16 \<Rightarrow> 'a av_sys \<Rightarrow> bool" for tid where
  start: "av_reach tid av_start"
| step: "av_reach tid s \<Longrightarrow> av_step tid s s' \<Longrightarrow> av_reach tid s'"

subsection \<open>The invariant\<close>

fun wref :: "av_ptr \<Rightarrow> waiter \<Rightarrow> nat" where
  "wref a (Forward i v) = of_bool (i = a) + of_bool (v = a)"
| "wref a w = 0"

fun dref :: "av_ptr \<Rightarrow> av_item \<Rightarrow> nat" where
  "dref a (Done (Forward i v)) = of_bool (i = a)"
| "dref a x = 0"

text \<open>The references to \<open>a\<close> held outside the store's forwarding pointers.\<close>

definition outrefs :: "'a av_sys \<Rightarrow> av_ptr \<Rightarrow> nat" where
  "outrefs s a = as_ext s a + (\<Sum>w\<in>#pool s. wref a w) + (\<Sum>x\<in>#as_items s. dref a x)"

definition fwd_ok :: "'a av_sys \<Rightarrow> bool" where
  "fwd_ok s \<longleftrightarrow>
     (\<forall>i. size (filter_mset (forwards i) (pool s)) \<le> 1) \<and>
     (\<forall>i v. Forward i v \<in># pool s \<longrightarrow> IsUnresolvedIndirect (as_heap s) i) \<and>
     (\<forall>a vv i v. as_heap s a = Some vv \<and> Forward i v \<in> set (mWaiters vv) \<longrightarrow> a = v) \<and>
     (\<forall>i v. Node (Forward i v) \<in># as_items s \<longrightarrow> IsAvailable (as_heap s) v) \<and>
     (\<forall>i v. Done (Forward i v) \<in># as_items s \<longrightarrow> IsAvailable (as_heap s) i)"

definition blocks :: "counter_block list \<Rightarrow> nat \<Rightarrow> nat" where
  "blocks ds w = length (filter (\<lambda>d. map_option snd d = Some w) ds)"

definition client_ok :: "'a av_sys \<Rightarrow> bool" where
  "client_ok s \<longleftrightarrow> distinct (map fst (as_reg s)) \<and>
     (\<forall>w. count (pool s) (Client w) + blocks (as_data s) w + count_list (as_log s) w =
        of_bool (w \<in> fst ` set (as_reg s)))"

definition data_ok :: "'a av_sys \<Rightarrow> bool" where
  "data_ok s \<longleftrightarrow>
     (\<forall>d c w. d < length (as_data s) \<and> as_data s ! d = Some (c, w) \<longrightarrow> c \<noteq> 0 \<and> unat c = count (pool s) (Count d)) \<and>
     (\<forall>d. d < length (as_data s) \<and> as_data s ! d = None \<longrightarrow> Count d \<notin># pool s) \<and>
     (\<forall>d. length (as_data s) \<le> d \<longrightarrow> Count d \<notin># pool s)"

text \<open>The closure \<open>w\<close> waits for \<open>a\<close>.\<close>

definition waiting :: "'a av_heap \<Rightarrow> counter_block list \<Rightarrow> nat \<Rightarrow> av_ptr \<Rightarrow> bool" where
  "waiting h ds w a \<longleftrightarrow> (\<exists>v. h a = Some v \<and>
     (Client w \<in> set (mWaiters v) \<or>
      (\<exists>d c. d < length ds \<and> ds ! d = Some (c, w) \<and> Count d \<in> set (mWaiters v))))"

definition wait_ok :: "'a av_sys \<Rightarrow> bool" where
  "wait_ok s \<longleftrightarrow> (\<forall>(w, vs) \<in> set (as_reg s). \<forall>a \<in> set vs.
     IsUnavailable (as_heap s) a \<longrightarrow> waiting (as_heap s) (as_data s) w a)"

text \<open>A closure is registered only on values it was given.\<close>

definition home_ok :: "'a av_sys \<Rightarrow> bool" where
  "home_ok s \<longleftrightarrow> (\<forall>a v. as_heap s a = Some v \<longrightarrow>
     (\<forall>w. Client w \<in> set (mWaiters v) \<longrightarrow> (\<exists>vs. (w, vs) \<in> set (as_reg s) \<and> a \<in> set vs)) \<and>
     (\<forall>d c w. Count d \<in> set (mWaiters v) \<and> d < length (as_data s) \<and> as_data s ! d = Some (c, w) \<longrightarrow>
        (\<exists>vs. (w, vs) \<in> set (as_reg s) \<and> a \<in> set vs)))"

definition av_inv :: "'a av_sys \<Rightarrow> bool" where
  "av_inv s \<longleftrightarrow> heap_ok (as_heap s) (as_next s) \<and> rc_ok (as_heap s) (as_next s) (outrefs s) \<and>
     (\<forall>w vs. (w, vs) \<in> set (as_reg s) \<longrightarrow> (\<forall>a \<in> set vs. a < as_next s)) \<and>
     fwd_ok s \<and> client_ok s \<and> data_ok s \<and> wait_ok s \<and> home_ok s"

subsection \<open>How the parts of the invariant move\<close>

lemma item_waiters_simps [simp]:
  "item_waiters {#} = {#}" "item_waiters (add_mset (Node w) M) = add_mset w (item_waiters M)"
  "item_waiters (add_mset (Done w) M) = item_waiters M"
  "item_waiters (M + M') = item_waiters M + item_waiters M'"
  by (simp_all add: item_waiters_def)

lemma item_waiters_Node [simp]: "item_waiters (image_mset Node M) = M"
  by (induction M) simp_all

lemma item_waiters_mem: "Node w \<in># M \<Longrightarrow> w \<in># item_waiters M"
  by (induction M) (auto split: av_item.splits simp: item_waiters_def)

lemma dref_Nodes [simp]: "(\<Sum>x\<in>#image_mset Node M. dref a x) = 0"
  by (induction M) auto

lemma as_items_call [simp]: "as_items (RunWaiters_call h ws s) = as_items s + mset (map Node ws)"
  by (simp add: as_items_def RunWaiters_call_def)

lemma pool_call: "pool (RunWaiters_call h ws s) = heap_waiters h (as_next s) + mset ws + item_waiters (as_items s)"
  unfolding pool_def as_items_call by (simp add: RunWaiters_call_def add_ac)

lemma call_sel [simp]:
  "as_heap (RunWaiters_call h ws s) = h" "as_next (RunWaiters_call h ws s) = as_next s"
  "as_ext (RunWaiters_call h ws s) = as_ext s" "as_data (RunWaiters_call h ws s) = as_data s"
  "as_log (RunWaiters_call h ws s) = as_log s" "as_reg (RunWaiters_call h ws s) = as_reg s"
  by (simp_all add: RunWaiters_call_def)

lemma call_reg: "RunWaiters_call h ws s\<lparr>as_reg := r\<rparr> = RunWaiters_call h ws (s\<lparr>as_reg := r\<rparr>)"
  by (cases s) (simp add: RunWaiters_call_def)

lemma mset_concat_update:
  assumes "k < length xss" "xss ! k = x # xs"
  shows "add_mset x (mset (concat (xss[k := new @ xs]))) = mset (concat xss) + mset new"
proof -
  have "xss = take k xss @ (x # xs) # drop (Suc k) xss" using assms by (metis id_take_nth_drop)
  then have "mset (concat xss) = mset (concat (take k xss)) + mset (x # xs) + mset (concat (drop (Suc k) xss))"
    by (metis concat.simps(2) concat_append mset_append union_assoc)
  moreover have "mset (concat (xss[k := new @ xs])) =
      mset (concat (take k xss)) + mset (new @ xs) + mset (concat (drop (Suc k) xss))"
    using assms(1) by (simp add: upd_conv_take_nth_drop)
  ultimately show ?thesis by simp
qed

text \<open>\<open>evolves h h' r N\<close>: only the values in \<open>r\<close> are resolved and only the waiters in \<open>N\<close> are registered.\<close>

definition evolves :: "'a av_heap \<Rightarrow> 'a av_heap \<Rightarrow> av_ptr set \<Rightarrow> (av_ptr \<times> waiter) set \<Rightarrow> bool" where
  "evolves h h' r N \<longleftrightarrow> (\<forall>b v'. h' b = Some v' \<longrightarrow>
     (\<exists>v. h b = Some v \<and> mKind v' = mKind v \<and>
        (b \<notin> r \<longrightarrow> mState v' = mState v \<and> set (mWaiters v) \<subseteq> set (mWaiters v')) \<and>
        (b \<in> r \<longrightarrow> State_IsAvailable (mState v')) \<and>
        set (mWaiters v') \<subseteq> set (mWaiters v) \<union> {w. (b, w) \<in> N}))"

lemma evolvesD:
  assumes "evolves h h' r N" "h' b = Some v'"
  shows "\<exists>v. h b = Some v \<and> mKind v' = mKind v \<and> (b \<notin> r \<longrightarrow> mState v' = mState v) \<and>
    (b \<notin> r \<longrightarrow> set (mWaiters v) \<subseteq> set (mWaiters v')) \<and> (b \<in> r \<longrightarrow> State_IsAvailable (mState v')) \<and>
    set (mWaiters v') \<subseteq> set (mWaiters v) \<union> {w. (b, w) \<in> N}"
  using assms unfolding evolves_def by blast

lemma evolves_shrinks: "shrinks h h' \<Longrightarrow> evolves h h' {} {}"
  unfolding evolves_def
proof (intro allI impI)
  fix b v' assume "shrinks h h'" "h' b = Some v'"
  then obtain v where v: "h b = Some v" and c: "core v' = core v" using shrinksD(1) by blast
  show "\<exists>v. h b = Some v \<and> mKind v' = mKind v \<and>
        (b \<notin> {} \<longrightarrow> mState v' = mState v \<and> set (mWaiters v) \<subseteq> set (mWaiters v')) \<and>
        (b \<in> {} \<longrightarrow> State_IsAvailable (mState v')) \<and>
        set (mWaiters v') \<subseteq> set (mWaiters v) \<union> {w. (b, w) \<in> {}}"
    using v core_eqD [OF c] by simp
qed

lemma evolves_available:
  assumes "evolves h h' r N" "IsAvailable h a \<or> a \<in> r" "h' a \<noteq> None"
  shows "IsAvailable h' a"
proof -
  obtain v' where v': "h' a = Some v'" using assms(3) by blast
  with evolvesD [OF assms(1)] obtain v where "h a = Some v" "a \<notin> r \<longrightarrow> mState v' = mState v"
     "a \<in> r \<longrightarrow> State_IsAvailable (mState v')"
    by blast
  with assms(2) v' show ?thesis by (auto simp: IsAvailable_def)
qed

lemma evolves_unavailable:
  assumes "evolves h h' r N" "IsUnavailable h' a"
  shows "IsUnavailable h a" "a \<notin> r"
    "\<And>v v'. h a = Some v \<Longrightarrow> h' a = Some v' \<Longrightarrow> set (mWaiters v) \<subseteq> set (mWaiters v')"
proof -
  obtain v' where v': "h' a = Some v'" "\<not> State_IsAvailable (mState v')"
    using assms(2) by (auto simp: IsUnavailable_def split: option.splits)
  from evolvesD [OF assms(1) v'(1)] obtain v where v: "h a = Some v" "a \<notin> r \<longrightarrow> mState v' = mState v"
      "a \<notin> r \<longrightarrow> set (mWaiters v) \<subseteq> set (mWaiters v')" "a \<in> r \<longrightarrow> State_IsAvailable (mState v')"
    by blast
  show ar: "a \<notin> r" using v v' by blast
  show "IsUnavailable h a" using v v' ar by (simp add: IsUnavailable_def)
  show "set (mWaiters w) \<subseteq> set (mWaiters w')" if "h a = Some w" "h' a = Some w'" for w w'
    using that v v' ar by simp
qed

lemma sum_mset_mem: "x \<in># M \<Longrightarrow> (f x :: nat) \<le> (\<Sum>y\<in>#M. f y)"
  by (induction M) auto

lemma outrefs_pos:
  "0 < as_ext s a \<Longrightarrow> 0 < outrefs s a"
  "Forward a v \<in># pool s \<Longrightarrow> 0 < outrefs s a"
  "Forward i a \<in># pool s \<Longrightarrow> 0 < outrefs s a"
  "Done (Forward a v) \<in># as_items s \<Longrightarrow> 0 < outrefs s a"
  using sum_mset_mem [of "Forward a v" "pool s" "wref a"] sum_mset_mem [of "Forward i a" "pool s" "wref a"]
    sum_mset_mem [of "Done (Forward a v)" "as_items s" "dref a"]
  by (auto simp: outrefs_def)

lemma pool_item: "Node w \<in># as_items s \<Longrightarrow> w \<in># pool s"
  by (simp add: pool_def item_waiters_mem)

lemma pool_heap:
  "heap_ok (as_heap s) (as_next s) \<Longrightarrow> as_heap s a = Some v \<Longrightarrow> w \<in> set (mWaiters v) \<Longrightarrow> w \<in># pool s"
  by (auto simp: pool_def heap_ok_def intro: heap_waiters_mem)

lemma evolve_fwd:
  assumes f: "fwd_ok s" and ev: "evolves (as_heap s) (as_heap s') r N" and rc: "rc_ok (as_heap s') n (outrefs s')"
    and one: "\<And>i. size (filter_mset (forwards i) (pool s')) \<le> 1"
    and pl: "\<And>i v. Forward i v \<in># pool s' \<Longrightarrow> i \<notin> r \<and> IsUnresolvedIndirect (as_heap s) i"
    and N: "\<And>a i v. (a, Forward i v) \<in> N \<Longrightarrow> a = v"
    and nd: "\<And>i v. Node (Forward i v) \<in># as_items s' \<Longrightarrow> IsAvailable (as_heap s) v \<or> v \<in> r"
    and dn: "\<And>i v. Done (Forward i v) \<in># as_items s' \<Longrightarrow> IsAvailable (as_heap s) i \<or> i \<in> r"
  shows "fwd_ok s'"
  unfolding fwd_ok_def
proof (intro conjI allI impI)
  fix i v
  show "size (filter_mset (forwards i) (pool s')) \<le> 1" by (rule one)
  {
    assume p: "Forward i v \<in># pool s'"
    then obtain w' where w': "as_heap s' i = Some w'" using rc_ok_alive [OF rc outrefs_pos(2)] by blast
    with evolvesD [OF ev] obtain w where "as_heap s i = Some w" "mKind w' = mKind w" "i \<notin> r \<longrightarrow> mState w' = mState w"
      by blast
    with pl [OF p] w' show "IsUnresolvedIndirect (as_heap s') i" by (simp add: IsUnresolvedIndirect_def)
  }
  {
    assume p: "Node (Forward i v) \<in># as_items s'"
    then have "as_heap s' v \<noteq> None" using rc_ok_alive [OF rc outrefs_pos(3) [OF pool_item]] by blast
    then show "IsAvailable (as_heap s') v" by (rule evolves_available [OF ev nd [OF p]])
  }
  {
    assume p: "Done (Forward i v) \<in># as_items s'"
    then have "as_heap s' i \<noteq> None" using rc_ok_alive [OF rc outrefs_pos(4)] by blast
    then show "IsAvailable (as_heap s') i" by (rule evolves_available [OF ev dn [OF p]])
  }
  fix a vv assume av: "as_heap s' a = Some vv \<and> Forward i v \<in> set (mWaiters vv)"
  with evolvesD [OF ev] obtain w where "as_heap s a = Some w" "set (mWaiters vv) \<subseteq> set (mWaiters w) \<union> {u. (a, u) \<in> N}"
    by blast
  with av f N show "a = v" unfolding fwd_ok_def by blast
qed

lemma evolve_wait:
  assumes "wait_ok s" "evolves (as_heap s) (as_heap s') r N" "as_reg s' = as_reg s" "as_data s' = as_data s"
  shows "wait_ok s'"
  unfolding wait_ok_def assms(3,4)
proof (intro ballI impI, clarify)
  fix w vs a assume r: "(w, vs) \<in> set (as_reg s)" "a \<in> set vs" and un: "IsUnavailable (as_heap s') a"
  note ev = evolves_unavailable [OF assms(2) un]
  have "waiting (as_heap s) (as_data s) w a" using assms(1) r ev(1) by (auto simp: wait_ok_def)
  moreover obtain v' where "as_heap s' a = Some v'" using un by (auto simp: IsUnavailable_def split: option.splits)
  ultimately show "waiting (as_heap s') (as_data s) w a" using ev(3) unfolding waiting_def by blast
qed

lemma evolve_home:
  assumes "home_ok s" "evolves (as_heap s) (as_heap s') r N" "as_reg s' = as_reg s" "as_data s' = as_data s"
    and N: "\<And>a w. (a, w) \<in> N \<Longrightarrow> \<exists>i v. w = Forward i v"
  shows "home_ok s'"
  unfolding home_ok_def assms(3,4)
proof (intro allI impI)
  fix a v' assume "as_heap s' a = Some v'"
  with evolvesD [OF assms(2)] obtain v where v: "as_heap s a = Some v" "set (mWaiters v') \<subseteq> set (mWaiters v) \<union> {w. (a, w) \<in> N}"
    by blast
  have "w \<in> set (mWaiters v)" if "w \<in> set (mWaiters v')" "\<And>i j. w \<noteq> Forward i j" for w
    using v(2) N that by blast
  with assms(1) v(1) show "(\<forall>w. Client w \<in> set (mWaiters v') \<longrightarrow> (\<exists>vs. (w, vs) \<in> set (as_reg s) \<and> a \<in> set vs)) \<and>
     (\<forall>d c w. Count d \<in> set (mWaiters v') \<and> d < length (as_data s) \<and> as_data s ! d = Some (c, w) \<longrightarrow>
        (\<exists>vs. (w, vs) \<in> set (as_reg s) \<and> a \<in> set vs))"
    unfolding home_ok_def by blast
qed

subsection \<open>Each step keeps the invariant\<close>

lemma av_invD:
  assumes "av_inv s"
  shows "heap_ok (as_heap s) (as_next s)" "rc_ok (as_heap s) (as_next s) (outrefs s)"
    "\<And>w vs a. (w, vs) \<in> set (as_reg s) \<Longrightarrow> a \<in> set vs \<Longrightarrow> a < as_next s"
    "fwd_ok s" "client_ok s" "data_ok s" "wait_ok s" "home_ok s"
  using assms unfolding av_inv_def by blast+

lemma fwd_okD:
  assumes "fwd_ok s"
  shows "size (filter_mset (forwards i) (pool s)) \<le> 1"
    "Forward i v \<in># pool s \<Longrightarrow> IsUnresolvedIndirect (as_heap s) i"
    "as_heap s a = Some vv \<Longrightarrow> Forward i v \<in> set (mWaiters vv) \<Longrightarrow> a = v"
    "Node (Forward i v) \<in># as_items s \<Longrightarrow> IsAvailable (as_heap s) v"
    "Done (Forward i v) \<in># as_items s \<Longrightarrow> IsAvailable (as_heap s) i"
  using assms unfolding fwd_ok_def by blast+

text \<open>Steps of a client that leave the waiters where they are or take those of one value.\<close>

lemma inv_same_pool:
  assumes inv: "av_inv s" and nx: "as_next s' = as_next s" and log: "as_log s' = as_log s"
    and reg: "as_reg s' = as_reg s" and data: "as_data s' = as_data s"
    and pl: "pool s' = pool s" and it: "as_items s' = as_items s + image_mset Node (mset ws)"
    and heap: "heap_ok (as_heap s') (as_next s)" and rc: "rc_ok (as_heap s') (as_next s) (outrefs s')"
    and ev: "evolves (as_heap s) (as_heap s') r {}"
    and r: "\<And>i v. Forward i v \<in># pool s \<Longrightarrow> i \<notin> r"
    and ws: "\<And>w. w \<in> set ws \<Longrightarrow> \<exists>a vv. a \<in> r \<and> as_heap s a = Some vv \<and> w \<in> set (mWaiters vv)"
  shows "av_inv s'"
proof -
  note I = av_invD [OF inv]
  have "fwd_ok s'"
  proof (rule evolve_fwd [OF I(4) ev rc])
    show "size (filter_mset (forwards i) (pool s')) \<le> 1" for i unfolding pl by (rule fwd_okD [OF I(4)])
    show "i \<notin> r \<and> IsUnresolvedIndirect (as_heap s) i" if "Forward i v \<in># pool s'" for i v
      using that r fwd_okD(2) [OF I(4)] unfolding pl by blast
    show "IsAvailable (as_heap s) v \<or> v \<in> r" if "Node (Forward i v) \<in># as_items s'" for i v
      using that ws fwd_okD(3,4) [OF I(4)] unfolding it by (auto dest!: ws fwd_okD(3) [OF I(4)])
    show "IsAvailable (as_heap s) i \<or> i \<in> r" if "Done (Forward i v) \<in># as_items s'" for i v
      using that fwd_okD(5) [OF I(4)] unfolding it by auto
  qed simp
  moreover have "wait_ok s'" by (rule evolve_wait [OF I(7) ev reg data])
  moreover have "home_ok s'" by (rule evolve_home [OF I(8) ev reg data]) simp
  moreover have "client_ok s'" using I(5) by (simp add: client_ok_def pl log reg data)
  moreover have "data_ok s'" using I(6) by (simp add: data_ok_def pl data)
  ultimately show ?thesis using heap rc I(3) by (simp add: av_inv_def nx reg)
qed

lemma call_same_pool:
  assumes "heap_waiters h n + mset ws = heap_waiters (as_heap s) n" "n = as_next s"
  shows "pool (RunWaiters_call h ws s) = pool s"
  using assms by (simp add: pool_call pool_def)

lemma call_outrefs:
  assumes "pool (RunWaiters_call h ws s) = pool s"
  shows "outrefs (RunWaiters_call h ws s) = outrefs s"
  by (rule ext) (simp add: outrefs_def assms)

lemma evolves_resolved:
  assumes "h a = Some v" "State_IsAvailable (mState v')" "mKind v' = mKind v" "mWaiters v' = []" "shrinks h h0"
  shows "evolves h (h0(a \<mapsto> v')) {a} {}"
  unfolding evolves_def
proof (intro allI impI)
  fix b w assume b: "(h0(a \<mapsto> v')) b = Some w"
  show "\<exists>v. h b = Some v \<and> mKind w = mKind v \<and>
        (b \<notin> {a} \<longrightarrow> mState w = mState v \<and> set (mWaiters v) \<subseteq> set (mWaiters w)) \<and>
        (b \<in> {a} \<longrightarrow> State_IsAvailable (mState w)) \<and> set (mWaiters w) \<subseteq> set (mWaiters v) \<union> {w. (b, w) \<in> {}}"
  proof (cases "b = a")
    case False
    with b obtain u where "h b = Some u" "core w = core u" using shrinksD(1) [OF assms(5)] by auto
    then show ?thesis using False core_eqD [of w u] by auto
  qed (use b assms in auto)
qed

lemma inv_resolve:
  assumes inv: "av_inv s" and a: "as_heap s a = Some v" "mKind v = KConcrete" "\<not> State_IsAvailable (mState v)"
    and p: "st = kConcrete \<and> (\<exists>x. p = Data x) \<or> st = kError \<and> (\<exists>d. p = Diag d)"
    and call: "NotifyAvailable ((as_heap s)(a \<mapsto> v\<lparr>mPayload := p\<rparr>)) a st = Some (h, ws)"
  shows "av_inv (RunWaiters_call h ws s)"
proof -
  note I = av_invD [OF inv]
  note rs = resolve_concrete [OF I(1,2) a p]
  have h: "h = (as_heap s)(a \<mapsto> resolved v st p)" and ws: "ws = mWaiters v" using rs(1) call by auto
  have pl: "pool (RunWaiters_call h ws s) = pool s"
    by (rule call_same_pool [where n = "as_next s"]) (use rs(4) in \<open>simp_all add: h ws\<close>)
  show ?thesis
  proof (rule inv_same_pool [OF inv _ _ _ _ pl, where ws = ws and r = "{a}"])
    show "rc_ok (as_heap (RunWaiters_call h ws s)) (as_next s) (outrefs (RunWaiters_call h ws s))"
      using rs(3) by (simp add: h call_outrefs [OF pl [unfolded h]])
    show "evolves (as_heap s) (as_heap (RunWaiters_call h ws s)) {a} {}"
      using evolves_resolved [of "as_heap s" a v "resolved v st p", OF a(1) _ _ _ shrinks_refl] p
      by (auto simp: h resolved_def)
    show "i \<notin> {a}" if "Forward i u \<in># pool s" for i u
      using fwd_okD(2) [OF I(4) that] a by (auto simp: IsUnresolvedIndirect_def)
  qed (use rs(2) a in \<open>auto simp: h ws\<close>)
qed

lemma shrink_inv:
  assumes inv: "av_inv s" and h: "heap_ok h (as_next s)" "shrinks (as_heap s) h"
    and R: "R = outrefs (s\<lparr>as_heap := h, as_ext := e\<rparr>)" and rc: "rc_ok h (as_next s) R"
  shows "av_inv (s\<lparr>as_heap := h, as_ext := e\<rparr>)"
proof (rule inv_same_pool [OF inv, where ws = "[]" and r = "{}"])
  let ?s = "s\<lparr>as_heap := h, as_ext := e\<rparr>"
  show "pool ?s = pool s" by (simp add: pool_def as_items_def shrinks_waiters [OF h(2)])
  show "rc_ok (as_heap ?s) (as_next s) (outrefs ?s)" using rc R by simp
  show "evolves (as_heap s) (as_heap ?s) {} {}" using evolves_shrinks [OF h(2)] by simp
qed (use h(1) in \<open>simp_all add: as_items_def\<close>)

lemma shrink_outrefs:
  assumes "shrinks (as_heap s) h"
  shows "outrefs (s\<lparr>as_heap := h, as_ext := e\<rparr>) b + as_ext s b = outrefs s b + e b"
  by (simp add: outrefs_def pool_def as_items_def shrinks_waiters [OF assms])

lemma inv_addref:
  assumes inv: "av_inv s" and fit: "refs_fit (as_heap s)" and a: "0 < as_ext s a"
    and h: "AsyncValue_AddRef (as_heap s) a 1 = Some h"
  shows "av_inv (s\<lparr>as_heap := h, as_ext := (as_ext s)(a := as_ext s a + 1)\<rparr>)"
proof -
  note I = av_invD [OF inv]
  obtain v where v: "as_heap s a = Some v" using rc_ok_alive [OF I(2) outrefs_pos(1) [OF a]] by blast
  have "mRefCount v \<noteq> - 1" using fit v by (auto simp: refs_fit_def)
  note ad = AddRef_ok [OF I(1,2) v this]
  have eq: "h = (as_heap s)(a \<mapsto> v\<lparr>mRefCount := mRefCount v + 1\<rparr>)" using ad(1) h by simp
  have sh: "shrinks (as_heap s) h" using ad(4) by (simp add: eq)
  show ?thesis
  proof (rule shrink_inv [OF inv _ sh, where R = "(outrefs s)(a := outrefs s a + 1)"])
    show "(outrefs s)(a := outrefs s a + 1) = outrefs (s\<lparr>as_heap := h, as_ext := (as_ext s)(a := as_ext s a + 1)\<rparr>)"
    proof
      fix b
      show "((outrefs s)(a := outrefs s a + 1)) b = outrefs (s\<lparr>as_heap := h, as_ext := (as_ext s)(a := as_ext s a + 1)\<rparr>) b"
        using shrink_outrefs [OF sh, of "(as_ext s)(a := as_ext s a + 1)" b] by (cases "b = a") simp_all
    qed
  qed (use ad in \<open>simp_all add: eq\<close>)
qed

lemma DropRef_Some_waiters:
  assumes "AsyncValue_DropRef h a 1 = Some h'" "h a = Some v" "mRefCount v = 1"
  shows "mWaiters v = []"
  using assms by (subst (asm) AsyncValue_DropRef.simps) (auto split: if_splits option.splits simp: Option.bind_eq_Some_conv)

lemma inv_dropref:
  assumes inv: "av_inv s" and a: "0 < as_ext s a" and h: "AsyncValue_DropRef (as_heap s) a 1 = Some h"
  shows "av_inv (s\<lparr>as_heap := h, as_ext := (as_ext s)(a := as_ext s a - 1)\<rparr>)"
proof -
  note I = av_invD [OF inv]
  note pos = outrefs_pos(1) [OF a]
  obtain v where v: "as_heap s a = Some v" using rc_ok_alive [OF I(2) pos] by blast
  obtain h' where h': "AsyncValue_DropRef (as_heap s) a 1 = Some h'" "heap_ok h' (as_next s)"
     "rc_ok h' (as_next s) ((outrefs s)(a := outrefs s a - 1))" "shrinks (as_heap s) h'"
    using DropRef_ok [OF I(1,2) v pos DropRef_Some_waiters [OF h v]] by blast
  have eq: "h' = h" using h h'(1) by simp
  have sh: "shrinks (as_heap s) h" using h'(4) by (simp add: eq)
  show ?thesis
  proof (rule shrink_inv [OF inv _ sh, where R = "(outrefs s)(a := outrefs s a - 1)"])
    show "(outrefs s)(a := outrefs s a - 1) = outrefs (s\<lparr>as_heap := h, as_ext := (as_ext s)(a := as_ext s a - 1)\<rparr>)"
    proof
      fix b
      show "((outrefs s)(a := outrefs s a - 1)) b = outrefs (s\<lparr>as_heap := h, as_ext := (as_ext s)(a := as_ext s a - 1)\<rparr>) b"
        using shrink_outrefs [OF sh, of "(as_ext s)(a := as_ext s a - 1)" b] a by (cases "b = a") simp_all
    qed
  qed (use h' in \<open>simp_all add: eq\<close>)
qed

text \<open>Creating a value.\<close>

lemma fresh_valueD:
  assumes "fresh_value tid v"
  shows "mRefCount v = 1" "mWaiters v = []" "mValue v = None" "val_ok h v"
  using assms unfolding fresh_value_def
  by (auto simp: ConcreteAsyncValue_Unconstructed_def ConcreteAsyncValue_Constructed_def
      ConcreteAsyncValue_Concrete_def ConcreteAsyncValue_Error_def IndirectAsyncValue_new_def AsyncValue_new_def val_ok_def)

lemma construct_sel:
  "as_data (HostContext_Construct v s) = as_data s" "as_log (HostContext_Construct v s) = as_log s"
  "as_reg (HostContext_Construct v s) = as_reg s"
  by (simp_all add: HostContext_Construct_def)

lemma inv_make:
  assumes inv: "av_inv s" and v: "fresh_value tid v"
  shows "av_inv (HostContext_Construct v s)"
proof -
  note I = av_invD [OF inv]
  let ?n = "as_next s" and ?s = "HostContext_Construct v s" and ?h = "(as_heap s)(as_next s \<mapsto> v)"
  note fv = fresh_valueD [OF v]
  have dead: "as_heap s ?n = None" using I(1) unfolding heap_ok_def by (metis less_irrefl not_None_eq)
  have items: "as_items ?s = as_items s" by (simp add: as_items_def HostContext_Construct_def)
  have pl: "pool ?s = pool s"
    unfolding pool_def items by (simp add: HostContext_Construct_def heap_waiters_def hsum_alloc fv)
  have m: "mrefs ?h (Suc ?n) b = mrefs (as_heap s) ?n b" for b
    by (simp add: mrefs_def hsum_alloc fv)
  have R: "outrefs ?s b = outrefs s b + (if b = ?n then 1 else 0)" for b
    using rc_ok_None(1) [OF I(2) dead] unfolding outrefs_def pl items by (simp add: HostContext_Construct_def)
  have ho: "heap_ok ?h (Suc ?n)"
    unfolding heap_ok_def
  proof (intro allI impI)
    fix b w assume b: "?h b = Some w"
    show "b < Suc ?n \<and> val_ok ?h w"
    proof (cases "b = ?n")
      case False
      then have "b < ?n" "val_ok (as_heap s) w" using b I(1) by (auto simp: heap_ok_def)
      moreover have "val_ok ?h w" by (rule val_ok_cong [OF calculation(2) refl]) (use dead in auto)
      ultimately show ?thesis by simp
    qed (use b fv(4) [of ?h] in simp)
  qed
  have rc: "rc_ok ?h (Suc ?n) (outrefs ?s)"
    using rc_ok_None [OF I(2)] rc_ok_Some [OF I(2)] dead
    by (intro rc_okI) (auto simp: m R fv split: if_splits)
  have old: "IsUnresolvedIndirect (as_heap s) i \<Longrightarrow> IsUnresolvedIndirect ?h i" "IsAvailable (as_heap s) i \<Longrightarrow> IsAvailable ?h i" for i
    using dead by (auto simp: IsUnresolvedIndirect_def IsAvailable_def)
  have "fwd_ok ?s"
    using I(4) old fv(2) unfolding fwd_ok_def pl items by (auto simp: HostContext_Construct_def split: if_splits)
  moreover have "wait_ok ?s"
    using I(7) I(3) unfolding wait_ok_def
    by (auto simp: HostContext_Construct_def IsUnavailable_def waiting_def split: if_splits) blast+
  moreover have "home_ok ?s"
    using I(8) fv(2) unfolding home_ok_def construct_sel by (simp add: HostContext_Construct_def)
  moreover have "client_ok ?s" using I(5) unfolding client_ok_def pl construct_sel .
  moreover have "data_ok ?s" using I(6) unfolding data_ok_def pl construct_sel .
  ultimately show ?thesis
    using ho rc I(3) unfolding av_inv_def by (auto simp: HostContext_Construct_def less_Suc_eq)
qed

text \<open>Registering closures that are not forwarding closures.\<close>

lemma evolves_trans:
  assumes "evolves h h1 {} N" "evolves h1 h2 {} N"
  shows "evolves h h2 {} N"
  unfolding evolves_def
proof (intro allI impI)
  fix b v2 assume "h2 b = Some v2"
  then obtain v1 where v1: "h1 b = Some v1" "mKind v2 = mKind v1" "mState v2 = mState v1"
     "set (mWaiters v1) \<subseteq> set (mWaiters v2)" "set (mWaiters v2) \<subseteq> set (mWaiters v1) \<union> {w. (b, w) \<in> N}"
    using evolvesD [OF assms(2)] by blast
  then obtain v where "h b = Some v" "mKind v1 = mKind v" "mState v1 = mState v"
     "set (mWaiters v) \<subseteq> set (mWaiters v1)" "set (mWaiters v1) \<subseteq> set (mWaiters v) \<union> {w. (b, w) \<in> N}"
    using evolvesD [OF assms(1)] by blast
  with v1 show "\<exists>v. h b = Some v \<and> mKind v2 = mKind v \<and>
        (b \<notin> {} \<longrightarrow> mState v2 = mState v \<and> set (mWaiters v) \<subseteq> set (mWaiters v2)) \<and>
        (b \<in> {} \<longrightarrow> State_IsAvailable (mState v2)) \<and> set (mWaiters v2) \<subseteq> set (mWaiters v) \<union> {w. (b, w) \<in> N}"
    by auto
qed

lemma evolves_push:
  assumes "h a = Some v"
  shows "evolves h (h(a \<mapsto> v\<lparr>mWaiters := w # mWaiters v\<rparr>)) {} {(a, w)}"
  using assms by (auto simp: evolves_def split: if_splits)

lemma evolves_mono: "evolves h h' r N \<Longrightarrow> N \<subseteq> N' \<Longrightarrow> evolves h h' r N'"
  unfolding evolves_def by blast

lemma evolves_refl: "evolves h h {} N"
  by (auto simp: evolves_def)

lemma AndThen_all_ok:
  assumes "AndThen_all h as w = Some (h', ws)" "heap_ok h n" "rc_ok h n R"
  shows "heap_ok h' n \<and> rc_ok h' n R \<and> evolves h h' {} (set as \<times> {w}) \<and> set ws \<subseteq> {w} \<and>
    heap_waiters h' n + mset ws = heap_waiters h n + replicate_mset (length as) w \<and>
    (\<forall>a \<in> set as. IsUnavailable h' a \<longrightarrow> (\<exists>v. h' a = Some v \<and> w \<in> set (mWaiters v)))"
  using assms
proof (induction "as" arbitrary: h h' ws)
  case Nil
  then show ?case using evolves_refl by auto
next
  case (Cons a as)
  from Cons.prems(1) obtain h1 ws1 ws2 where at: "AndThen h a w = Some (h1, ws1)"
      "AndThen_all h1 as w = Some (h', ws2)" "ws = ws1 @ ws2"
    by (auto split: option.splits prod.splits)
  obtain v where v: "h a = Some v" using at(1) by (auto simp: AndThen_def split: option.splits)
  have one: "heap_ok h1 n \<and> rc_ok h1 n R \<and> evolves h h1 {} ({a} \<times> {w}) \<and> set ws1 \<subseteq> {w} \<and>
      heap_waiters h1 n + mset ws1 = add_mset w (heap_waiters h n) \<and>
      (IsUnavailable h1 a \<longrightarrow> (\<exists>v. h1 a = Some v \<and> w \<in> set (mWaiters v)))"
  proof (cases "State_IsAvailable (mState v)")
    case True
    then have "h1 = h" "ws1 = [w]" using AndThen_available [OF Cons.prems(2) v] at(1) by auto
    then show ?thesis using Cons.prems(2,3) evolves_refl True v by (auto simp: IsUnavailable_def)
  next
    case False
    note un = AndThen_unavailable [OF Cons.prems(2,3) v False, of w]
    have "h1 = h(a \<mapsto> v\<lparr>mWaiters := w # mWaiters v\<rparr>)" "ws1 = []" using un(1) at(1) by auto
    moreover have "evolves h (h(a \<mapsto> v\<lparr>mWaiters := w # mWaiters v\<rparr>)) {} ({a} \<times> {w})"
      by (rule evolves_mono [OF evolves_push [of h a v, OF v]]) auto
    ultimately show ?thesis using un(2-4) by simp
  qed
  from Cons.IH [OF at(2)] one have two: "heap_ok h' n \<and> rc_ok h' n R \<and> evolves h1 h' {} (set as \<times> {w}) \<and> set ws2 \<subseteq> {w} \<and>
    heap_waiters h' n + mset ws2 = heap_waiters h1 n + replicate_mset (length as) w \<and>
    (\<forall>a \<in> set as. IsUnavailable h' a \<longrightarrow> (\<exists>v. h' a = Some v \<and> w \<in> set (mWaiters v)))"
    by blast
  have first: "IsUnavailable h' a \<longrightarrow> (\<exists>v. h' a = Some v \<and> w \<in> set (mWaiters v))"
  proof
    assume un: "IsUnavailable h' a"
    then obtain v' where v': "h' a = Some v'" by (auto simp: IsUnavailable_def split: option.splits)
    obtain v1 where "h1 a = Some v1" "w \<in> set (mWaiters v1)"
      using one two evolves_unavailable(1) [OF _ un] by blast
    then show "\<exists>v. h' a = Some v \<and> w \<in> set (mWaiters v)"
      using evolves_unavailable(3) [OF _ un, of h1 "{}" "set as \<times> {w}"] two v' by blast
  qed
  have "heap_waiters h' n + mset ws = (heap_waiters h' n + mset ws2) + mset ws1" by (simp add: at(3))
  also have "\<dots> = (heap_waiters h1 n + mset ws1) + replicate_mset (length as) w" using two by (simp add: add_ac)
  also have "\<dots> = heap_waiters h n + replicate_mset (length (a # as)) w" using one by simp
  finally have hw: "heap_waiters h' n + mset ws = heap_waiters h n + replicate_mset (length (a # as)) w" .
  have "evolves h h1 {} (set (a # as) \<times> {w})" "evolves h1 h' {} (set (a # as) \<times> {w})"
    using one two by (auto elim!: evolves_mono)
  then have "evolves h h' {} (set (a # as) \<times> {w})" by (rule evolves_trans)
  then show ?case using one two first hw by (auto simp: at(3))
qed

lemma blocks_append [simp]: "blocks (xs @ ys) w = blocks xs w + blocks ys w"
  by (simp add: blocks_def)

lemma blocks_Cons [simp]: "blocks (Some (c, u) # ds) w = of_bool (w = u) + blocks ds w"
  by (auto simp: blocks_def)

lemma client_okD:
  assumes "client_ok s"
  shows "distinct (map fst (as_reg s))"
    "count (pool s) (Client w) + blocks (as_data s) w + count_list (as_log s) w = of_bool (w \<in> fst ` set (as_reg s))"
  using assms unfolding client_ok_def by blast+

lemma client_okI:
  assumes "distinct (map fst (as_reg s))"
    "\<And>w. count (pool s) (Client w) + blocks (as_data s) w + count_list (as_log s) w = of_bool (w \<in> fst ` set (as_reg s))"
  shows "client_ok s"
  using assms unfolding client_ok_def by blast

lemma data_okD:
  assumes "data_ok s"
  shows "d < length (as_data s) \<Longrightarrow> as_data s ! d = Some (c, w) \<Longrightarrow> c \<noteq> 0 \<and> unat c = count (pool s) (Count d)"
    "d < length (as_data s) \<Longrightarrow> as_data s ! d = None \<Longrightarrow> Count d \<notin># pool s"
    "length (as_data s) \<le> d \<Longrightarrow> Count d \<notin># pool s"
  using assms unfolding data_ok_def by blast+

lemma waiting_mono:
  assumes w: "waiting h ds w a" and h': "h' a = Some v'"
    and sub: "\<And>v v'. h a = Some v \<Longrightarrow> h' a = Some v' \<Longrightarrow> set (mWaiters v) \<subseteq> set (mWaiters v')"
  shows "waiting h' (ds @ D) w a"
proof -
  obtain v where v: "h a = Some v" "Client w \<in> set (mWaiters v) \<or>
      (\<exists>d c. d < length ds \<and> ds ! d = Some (c, w) \<and> Count d \<in> set (mWaiters v))"
    using w by (auto simp: waiting_def)
  have "\<exists>d c. d < length (ds @ D) \<and> (ds @ D) ! d = Some (c, w) \<and> Count d \<in> set (mWaiters v')"
    if "d < length ds" "ds ! d = Some (c, w)" "Count d \<in> set (mWaiters v)" for d c
    by (rule exI [of _ d], rule exI [of _ c]) (use that sub [OF v(1) h'] in \<open>auto simp: nth_append\<close>)
  with v sub [OF v(1) h'] h' show ?thesis unfolding waiting_def by blast
qed

lemma inv_register:
  assumes inv: "av_inv s" and s': "s' = RunWaiters_call h ws (s\<lparr>as_data := as_data s @ D, as_reg := as_reg s @ [(w, vs)]\<rparr>)"
    and w: "w \<notin> fst ` set (as_reg s)" and vs: "\<forall>a \<in> set vs. a < as_next s"
    and heap: "heap_ok h (as_next s)" "rc_ok h (as_next s) (outrefs s)" "evolves (as_heap s) h {} N"
    and N: "\<And>a i v. (a, Forward i v) \<notin> N" "\<And>a u. (a, Client u) \<in> N \<Longrightarrow> u = w \<and> a \<in> set vs"
      "\<And>a d c u. (a, Count d) \<in> N \<Longrightarrow> d < length (as_data s @ D) \<Longrightarrow> (as_data s @ D) ! d = Some (c, u) \<Longrightarrow> u = w \<and> a \<in> set vs"
    and ws: "\<And>i v. Forward i v \<notin> set ws"
    and pl: "heap_waiters h (as_next s) + mset ws = heap_waiters (as_heap s) (as_next s) + P"
    and P: "\<And>i v. Forward i v \<notin># P" "\<And>u. count P (Client u) + blocks D u = of_bool (u = w)"
    and dat: "data_ok s'"
    and wt: "\<And>a. a \<in> set vs \<Longrightarrow> IsUnavailable h a \<Longrightarrow> waiting h (as_data s @ D) w a"
  shows "av_inv s'"
proof -
  note I = av_invD [OF inv]
  have items: "as_items s' = as_items s + image_mset Node (mset ws)"
    by (simp add: s') (simp add: as_items_def)
  have "pool s' = heap_waiters h (as_next s) + mset ws + item_waiters (as_items s)"
    unfolding s' pool_call by (simp add: as_items_def)
  then have pool: "pool s' = pool s + P" using pl by (simp add: pool_def add_ac)
  have noF: "filter_mset (forwards i) P = {#}" for i
  proof -
    have "\<not> forwards i x" if "x \<in># P" for x using P(1) that by (cases x) auto
    then show ?thesis by (simp add: filter_mset_eq_conv [of _ P "{#}", simplified])
  qed
  have wr: "(\<Sum>x\<in>#P. wref a x) = 0" for a
  proof -
    have "wref a x = 0" if "x \<in># P" for x using P(1) that by (cases x) auto
    then show ?thesis by simp
  qed
  have "outrefs s' = outrefs s"
    by (rule ext) (simp add: outrefs_def pool items wr, simp add: s')
  then have rc: "rc_ok (as_heap s') (as_next s') (outrefs s')" using heap(2) by (simp add: s')
  have ev: "evolves (as_heap s) (as_heap s') {} N" using heap(3) by (simp add: s')
  have "fwd_ok s'"
  proof (rule evolve_fwd [OF I(4) ev rc])
    show "size (filter_mset (forwards i) (pool s')) \<le> 1" for i
      using fwd_okD(1) [OF I(4)] by (simp add: pool noF)
    show "i \<notin> {} \<and> IsUnresolvedIndirect (as_heap s) i" if "Forward i v \<in># pool s'" for i v
      using that P(1) fwd_okD(2) [OF I(4)] unfolding pool by auto
    show "IsAvailable (as_heap s) v \<or> v \<in> {}" if "Node (Forward i v) \<in># as_items s'" for i v
      using that ws fwd_okD(4) [OF I(4)] unfolding items by auto
    show "IsAvailable (as_heap s) i \<or> i \<in> {}" if "Done (Forward i v) \<in># as_items s'" for i v
      using that fwd_okD(5) [OF I(4)] unfolding items by auto
  qed (use N(1) in blast)
  moreover have "home_ok s'"
    unfolding home_ok_def
  proof (intro allI impI)
    fix a v' assume "as_heap s' a = Some v'"
    with evolvesD [OF ev] obtain v where v: "as_heap s a = Some v" "set (mWaiters v') \<subseteq> set (mWaiters v) \<union> {w. (a, w) \<in> N}"
      by blast
    have old: "u \<in> set (mWaiters v) \<or> (a, u) \<in> N" if "u \<in> set (mWaiters v')" for u using v(2) that by blast
    have cl: "\<exists>us. (u, us) \<in> set (as_reg s') \<and> a \<in> set us" if "Client u \<in> set (mWaiters v')" for u
    proof (cases "(a, Client u) \<in> N")
      case True
      then show ?thesis using N(2) by (auto simp: s')
    next
      case False
      then have "\<exists>us. (u, us) \<in> set (as_reg s) \<and> a \<in> set us"
        using old [OF that] I(8) v(1) unfolding home_ok_def by blast
      then show ?thesis by (auto simp: s')
    qed
    have ct: "\<exists>us. (u, us) \<in> set (as_reg s') \<and> a \<in> set us"
      if u: "Count d \<in> set (mWaiters v')" "d < length (as_data s')" "as_data s' ! d = Some (c, u)" for d c u
    proof (cases "(a, Count d) \<in> N")
      case True
      then show ?thesis using N(3) [OF True] u by (auto simp: s')
    next
      case False
      then have cd: "Count d \<in> set (mWaiters v)" using old [OF u(1)] by blast
      then have "Count d \<in># pool s" using pool_heap [OF I(1) v(1)] by blast
      then have "d < length (as_data s)" using data_okD(3) [OF I(6), of d] by (meson not_le)
      then show ?thesis using I(8) v(1) cd u(3) unfolding home_ok_def by (fastforce simp: s' nth_append)
    qed
    show "(\<forall>w. Client w \<in> set (mWaiters v') \<longrightarrow> (\<exists>vs. (w, vs) \<in> set (as_reg s') \<and> a \<in> set vs)) \<and>
     (\<forall>d c w. Count d \<in> set (mWaiters v') \<and> d < length (as_data s') \<and> as_data s' ! d = Some (c, w) \<longrightarrow>
        (\<exists>vs. (w, vs) \<in> set (as_reg s') \<and> a \<in> set vs))"
      using cl ct by blast
  qed
  moreover have "wait_ok s'"
    unfolding wait_ok_def
  proof (clarify)
    fix u us a assume u: "(u, us) \<in> set (as_reg s')" "a \<in> set us" and un: "IsUnavailable (as_heap s') a"
    show "waiting (as_heap s') (as_data s') u a"
    proof (cases "(u, us) \<in> set (as_reg s)")
      case True
      then have "waiting (as_heap s) (as_data s) u a"
        using I(7) u(2) evolves_unavailable(1) [OF ev un] by (auto simp: wait_ok_def)
      moreover obtain v' where "as_heap s' a = Some v'" using un by (auto simp: IsUnavailable_def split: option.splits)
      ultimately have "waiting (as_heap s') (as_data s @ D) u a"
        using evolves_unavailable(3) [OF ev un] by (rule waiting_mono)
      then show ?thesis by (simp add: s')
    next
      case False
      then show ?thesis using u un wt by (auto simp: s')
    qed
  qed
  moreover have "client_ok s'"
  proof (rule client_okI)
    show "distinct (map fst (as_reg s'))" using client_okD(1) [OF I(5)] w by (auto simp: s')
    fix u
    have "u \<in> fst ` set (as_reg s') \<longleftrightarrow> u = w \<or> u \<in> fst ` set (as_reg s)" by (auto simp: s')
    then have "of_bool (u \<in> fst ` set (as_reg s')) = of_bool (u = w) + (of_bool (u \<in> fst ` set (as_reg s)) :: nat)"
      using w by auto
    then show "count (pool s') (Client u) + blocks (as_data s') u + count_list (as_log s') u = of_bool (u \<in> fst ` set (as_reg s'))"
      using P(2) [of u] client_okD(2) [OF I(5), of u] by (simp only: pool) (simp add: s')
  qed
  ultimately show ?thesis using heap(1) rc dat I(3) vs unfolding av_inv_def by (auto simp: s')
qed

lemma AndThen_single: "AndThen h a w = Some (h', ws) \<Longrightarrow> AndThen_all h [a] w = Some (h', ws)"
  by simp

lemma available_not_unavailable: "IsAvailable h a \<Longrightarrow> \<not> IsUnavailable h a"
  by (auto simp: IsAvailable_def IsUnavailable_def split: option.splits)

lemma data_ok_plain:
  assumes "data_ok s" "pool s' = pool s + P" "as_data s' = as_data s" "\<And>d. Count d \<notin># P"
  shows "data_ok s'"
  using assms(1) unfolding data_ok_def assms(2,3) by (auto simp: not_in_iff assms(4) [unfolded not_in_iff])

lemma data_ok_block:
  assumes d: "data_ok s" and pl: "pool s' = pool s + replicate_mset m (Count (length (as_data s)))"
    and ds: "as_data s' = as_data s @ [Some (of_nat m, w)]" and m: "0 < m" "m < 2 ^ 64"
  shows "data_ok s'"
proof -
  let ?d = "length (as_data s)"
  have um: "unat (of_nat m :: u64) = m" using m(2) by (simp add: unat_of_nat)
  then have nz: "(of_nat m :: u64) \<noteq> 0" using m(1) by (metis less_numeral_extra(3) unat_0)
  have new: "count (pool s) (Count ?d) = 0" using data_okD(3) [OF d, of ?d] by (simp add: not_in_iff)
  have same: "count (pool s') (Count e) = count (pool s) (Count e)" if "e \<noteq> ?d" for e
    using that by (simp add: pl)
  show ?thesis
    unfolding data_ok_def
  proof (intro conjI allI impI; (elim conjE)?)
    fix e c u assume e: "e < length (as_data s')" "as_data s' ! e = Some (c, u)"
    have "c \<noteq> 0 \<and> unat c = count (pool s') (Count e)"
    proof (cases "e = ?d")
      case True
      then have "c = of_nat m" using e(2) by (simp add: ds nth_append)
      then show ?thesis using True new nz um by (simp add: pl)
    next
      case False
      then have "e < ?d" "as_data s ! e = Some (c, u)" using e by (auto simp: ds nth_append split: if_splits)
      then show ?thesis using data_okD(1) [OF d] same [OF False] by simp
    qed
    then show "c \<noteq> 0" "unat c = count (pool s') (Count e)" by simp_all
  next
    fix e assume e: "e < length (as_data s')" "as_data s' ! e = None"
    then have "e < ?d" "as_data s ! e = None" by (auto simp: ds nth_append split: if_splits)
    then show "Count e \<notin># pool s'" using data_okD(2) [OF d] same [of e] by (simp add: not_in_iff)
  next
    fix e assume "length (as_data s') \<le> e"
    then show "Count e \<notin># pool s'" using data_okD(3) [OF d, of e] same [of e] by (simp add: ds not_in_iff)
  qed
qed

lemma pool_register:
  assumes "heap_waiters h (as_next s) + mset ws = heap_waiters (as_heap s) (as_next s) + P"
  shows "pool (RunWaiters_call h ws (s\<lparr>as_data := ds, as_reg := rg\<rparr>)) = pool s + P"
  unfolding pool_call using assms by (simp add: pool_def as_items_def add_ac)

lemma inv_ready:
  assumes inv: "av_inv s" and own: "\<forall>a \<in> set vs. 0 < as_ext s a" and w: "w \<notin> fst ` set (as_reg s)"
    and len: "length seen < 2 ^ 64" and sub: "set seen \<subseteq> set vs"
    and rest: "\<forall>a \<in> set vs - set seen. IsAvailable (as_heap s) a"
    and r: "RunWhenReady s seen w = Some s'"
  shows "av_inv (s'\<lparr>as_reg := as_reg s @ [(w, vs)]\<rparr>)"
proof -
  note I = av_invD [OF inv]
  have vsn: "\<forall>a \<in> set vs. a < as_next s"
    using own rc_ok_alive [OF I(2) outrefs_pos(1)] I(1) unfolding heap_ok_def by metis
  have other: "\<not> IsUnavailable h a" if "a \<in> set vs" "a \<notin> set seen" "evolves (as_heap s) h {} N" for h a N
    using rest that evolves_unavailable(1) [OF that(3)] available_not_unavailable by blast
  let ?c = "\<lambda>h ws D. RunWaiters_call h ws (s\<lparr>as_data := as_data s @ D, as_reg := as_reg s @ [(w, vs)]\<rparr>)"
  consider "seen = []" | a where "seen = [a]" | "2 \<le> length seen"
    by (cases seen rule: remdups_adj.cases) auto
  then show ?thesis
  proof cases
    case 1
    have eq: "s'\<lparr>as_reg := as_reg s @ [(w, vs)]\<rparr> = ?c (as_heap s) [Client w] []"
      using r by (auto simp: 1 RunWhenReady_def RunWaiters_call_def)
    show ?thesis unfolding eq
    proof (rule inv_register [OF inv refl w vsn I(1,2) evolves_refl, where P = "{#Client w#}" and N = "{}"])
      show "data_ok (?c (as_heap s) [Client w] [])"
        by (rule data_ok_plain [OF I(6) pool_register, where P = "{#Client w#}"]) simp_all
      show "waiting (as_heap s) (as_data s @ []) w a" if "a \<in> set vs" "IsUnavailable (as_heap s) a" for a
        using other [OF that(1) _ evolves_refl] that 1 by simp
    qed (auto simp: blocks_def)
  next
    case (2 a)
    then obtain h ws where at: "AndThen_all (as_heap s) [a] (Client w) = Some (h, ws)"
      and eq: "s'\<lparr>as_reg := as_reg s @ [(w, vs)]\<rparr> = ?c h ws []"
      using r by (auto simp: RunWhenReady_def RunWaiters_call_def)
    note ok = AndThen_all_ok [OF at I(1,2)]
    show ?thesis unfolding eq
    proof (rule inv_register [OF inv refl w vsn, where P = "{#Client w#}" and N = "{a} \<times> {Client w}"])
      show "data_ok (?c h ws [])"
        by (rule data_ok_plain [OF I(6) pool_register, where P = "{#Client w#}"]) (use ok in simp_all)
      show "waiting h (as_data s @ []) w b" if "b \<in> set vs" "IsUnavailable h b" for b
      proof -
        have "b = a" using other [OF that(1)] that(2) ok 2 by fastforce
        then show ?thesis using ok that(2) by (auto simp: waiting_def)
      qed
    qed (use ok sub 2 in \<open>auto simp: blocks_def\<close>)
  next
    case 3
    let ?d = "length (as_data s)" and ?D = "[Some (of_nat (length seen) :: u64, w)]"
    obtain h ws where at: "AndThen_all (as_heap s) seen (Count ?d) = Some (h, ws)"
      and eq: "s'\<lparr>as_reg := as_reg s @ [(w, vs)]\<rparr> = ?c h ws ?D"
      using r 3 by (cases seen rule: remdups_adj.cases) (auto simp: RunWhenReady_def RunWaiters_call_def simp del: AndThen_all.simps)
    note ok = AndThen_all_ok [OF at I(1,2)]
    show ?thesis unfolding eq
    proof (rule inv_register [OF inv refl w vsn, where P = "replicate_mset (length seen) (Count ?d)" and N = "set seen \<times> {Count ?d}"])
      show "data_ok (?c h ws ?D)"
        by (rule data_ok_block [OF I(6) pool_register]) (use ok 3 len in auto)
      show "waiting h (as_data s @ ?D) w b" if b: "b \<in> set vs" "IsUnavailable h b" for b
      proof -
        have "b \<in> set seen" using other [OF b(1)] b(2) ok by blast
        then obtain v where "h b = Some v" "Count ?d \<in> set (mWaiters v)" using ok b(2) by blast
        then show ?thesis unfolding waiting_def by (intro exI [of _ v] conjI disjI2 exI [of _ ?d]) simp_all
      qed
    qed (use ok sub in \<open>auto simp: blocks_def\<close>)
  qed
qed

text \<open>Forwarding.\<close>

lemma no_forwards: "filter_mset (forwards i) P = {#} \<Longrightarrow> Forward j v \<in># P \<Longrightarrow> j \<noteq> i"
  by (metis filter_mset_eq_mempty_iff forwards.simps(1))

lemma inv_forward_available:
  assumes inv: "av_inv s" and own: "0 < as_ext s i" "0 < as_ext s v" and fit: "refs_fit (as_heap s)"
    and i: "IsUnresolvedIndirect (as_heap s) i" "filter_mset (forwards i) (pool s) = {#}"
    and av: "IsAvailable (as_heap s) v" and call: "ForwardTo (as_heap s) i v = Some (h, ws)"
  shows "av_inv (RunWaiters_call h ws (s\<lparr>as_ext := (as_ext s)(v := as_ext s v - 1)\<rparr>))" (is "av_inv ?s")
proof -
  note I = av_invD [OF inv]
  obtain iv where iv: "as_heap s i = Some iv" "mKind iv = KIndirect" "\<not> State_IsAvailable (mState iv)"
    using i(1) by (auto simp: IsUnresolvedIndirect_def split: option.splits)
  obtain vv where vv: "as_heap s v = Some vv" "State_IsAvailable (mState vv)"
    using av by (auto simp: IsAvailable_def split: option.splits)
  obtain h0 iv' where fw: "ForwardTo (as_heap s) i v = Some (h, mWaiters iv)" "heap_ok h (as_next s)"
      "rc_ok h (as_next s) ((outrefs s)(v := outrefs s v - 1))"
      "heap_waiters h (as_next s) + mset (mWaiters iv) = heap_waiters (as_heap s) (as_next s)"
      "shrinks (as_heap s) h0" "h = h0(i \<mapsto> iv')" "mKind iv' = KIndirect" "State_IsAvailable (mState iv')" "mWaiters iv' = []"
    using ForwardTo_available [OF I(1,2) fit iv outrefs_pos(1) [OF own(1)] vv outrefs_pos(1) [OF own(2)]] call vv(2)
    by auto
  have ws: "ws = mWaiters iv" using fw(1) call by simp
  have pl: "pool ?s = pool s" unfolding pool_call using fw(4) by (simp add: pool_def as_items_def ws)
  have it: "as_items ?s = as_items s + image_mset Node (mset ws)" by simp (simp add: as_items_def)
  have "outrefs ?s b = ((outrefs s)(v := outrefs s v - 1)) b" for b
    using own(2) unfolding outrefs_def pl it by (cases "b = v") (simp_all add: outrefs_def)
  then have R: "outrefs ?s = (outrefs s)(v := outrefs s v - 1)" by blast
  show ?thesis
  proof (rule inv_same_pool [OF inv _ _ _ _ pl it, where r = "{i}"])
    show "rc_ok (as_heap ?s) (as_next s) (outrefs ?s)" unfolding R using fw(3) by simp
    show "evolves (as_heap s) (as_heap ?s) {i} {}"
      using evolves_resolved [of "as_heap s" i iv iv' h0, OF iv(1) fw(8) _ fw(9) fw(5)] fw(6,7) iv(2) by simp
    show "j \<notin> {i}" if "Forward j u \<in># pool s" for j u using no_forwards [OF i(2) that] by simp
  qed (use fw(2) iv ws in auto)
qed

lemma inv_forward_unavailable:
  assumes inv: "av_inv s" and own: "0 < as_ext s i" "0 < as_ext s v" and fit: "refs_fit (as_heap s)"
    and i: "IsUnresolvedIndirect (as_heap s) i" "filter_mset (forwards i) (pool s) = {#}"
    and un: "IsUnavailable (as_heap s) v" and call: "ForwardTo (as_heap s) i v = Some (h, ws)"
  shows "av_inv (RunWaiters_call h ws (s\<lparr>as_ext := (as_ext s)(v := as_ext s v - 1)\<rparr>))" (is "av_inv ?s")
proof -
  note I = av_invD [OF inv]
  obtain iv where iv: "as_heap s i = Some iv" "\<not> State_IsAvailable (mState iv)"
    using i(1) by (auto simp: IsUnresolvedIndirect_def split: option.splits)
  obtain vv where vv: "as_heap s v = Some vv" "\<not> State_IsAvailable (mState vv)"
    using un by (auto simp: IsUnavailable_def split: option.splits)
  obtain h0 v0 where fw: "shrinks (as_heap s) h0" "h0 v = Some v0" "core v0 = core vv" "heap_ok h0 (as_next s)"
      "rc_ok h0 (as_next s) ((outrefs s)(i := outrefs s i + 1))" "ForwardTo (as_heap s) i v = AndThen h0 v (Forward i v)"
    using ForwardTo_unavailable [OF I(1,2) fit iv vv] by blast
  have "\<not> State_IsAvailable (mState v0)" using core_eqD [OF fw(3)] vv(2) by simp
  note at = AndThen_unavailable [OF fw(4,5,2) this, of "Forward i v"]
  have h: "h = h0(v \<mapsto> v0\<lparr>mWaiters := Forward i v # mWaiters v0\<rparr>)" and ws: "ws = []"
    using at(1) call fw(6) by auto
  have pl: "pool ?s = add_mset (Forward i v) (pool s)"
    unfolding pool_call using at(4) shrinks_waiters [OF fw(1)] by (simp add: pool_def as_items_def h ws)
  have it: "as_items ?s = as_items s" by (simp add: ws) (simp add: as_items_def)
  have "outrefs ?s b = ((outrefs s)(i := outrefs s i + 1)) b" for b
    using own(2) unfolding outrefs_def pl it by (cases "b = v"; cases "b = i") (simp_all add: outrefs_def)
  then have R: "outrefs ?s = (outrefs s)(i := outrefs s i + 1)" by blast
  have rc: "rc_ok (as_heap ?s) (as_next s) (outrefs ?s)" unfolding R using at(3) by (simp add: h)
  have "evolves (as_heap s) h {} {(v, Forward i v)}"
    unfolding h by (rule evolves_trans [OF evolves_mono [OF evolves_shrinks [OF fw(1)]] evolves_push [of h0 v v0, OF fw(2)]]) simp
  then have ev: "evolves (as_heap s) (as_heap ?s) {} {(v, Forward i v)}" by simp
  have "fwd_ok ?s"
  proof (rule evolve_fwd [OF I(4) ev rc])
    show "size (filter_mset (forwards j) (pool ?s)) \<le> 1" for j
      unfolding pl using fwd_okD(1) [OF I(4), of j] i(2) by (cases "j = i") simp_all
    show "j \<notin> {} \<and> IsUnresolvedIndirect (as_heap s) j" if "Forward j u \<in># pool ?s" for j u
      using that i(1) fwd_okD(2) [OF I(4)] unfolding pl by auto
    show "IsAvailable (as_heap s) u \<or> u \<in> {}" if "Node (Forward j u) \<in># as_items ?s" for j u
      using that fwd_okD(4) [OF I(4)] unfolding it by blast
    show "IsAvailable (as_heap s) j \<or> j \<in> {}" if "Done (Forward j u) \<in># as_items ?s" for j u
      using that fwd_okD(5) [OF I(4)] unfolding it by blast
  qed simp
  moreover have "wait_ok ?s" by (rule evolve_wait [OF I(7) ev]) simp_all
  moreover have "home_ok ?s" by (rule evolve_home [OF I(8) ev]) simp_all
  moreover have "client_ok ?s"
    using I(5) unfolding client_ok_def pl by simp
  moreover have "data_ok ?s"
    by (rule data_ok_plain [OF I(6), where P = "{#Forward i v#}"]) (simp_all only: pl, simp_all)
  ultimately show ?thesis using at(2) rc I(3) by (simp add: av_inv_def h)
qed

lemma inv_forward:
  assumes "av_inv s" "0 < as_ext s i" "0 < as_ext s v" "refs_fit (as_heap s)" "IsUnresolvedIndirect (as_heap s) i"
    "filter_mset (forwards i) (pool s) = {#}" "ForwardTo (as_heap s) i v = Some (h, ws)"
  shows "av_inv (RunWaiters_call h ws (s\<lparr>as_ext := (as_ext s)(v := as_ext s v - 1)\<rparr>))"
proof (cases "IsAvailable (as_heap s) v")
  case True
  then show ?thesis using inv_forward_available assms by blast
next
  case False
  moreover obtain vv where "as_heap s v = Some vv"
    using rc_ok_alive [OF av_invD(2) [OF assms(1)] outrefs_pos(1) [OF assms(3)]] by blast
  ultimately have "IsUnavailable (as_heap s) v" by (simp add: IsAvailable_def IsUnavailable_def)
  then show ?thesis using inv_forward_unavailable assms by blast
qed

text \<open>An error.\<close>

lemma inv_bump:
  assumes inv: "av_inv s"
  shows "av_inv (s\<lparr>as_next := Suc (as_next s)\<rparr>)" (is "av_inv ?s")
proof -
  note I = av_invD [OF inv]
  have dead: "as_heap s (as_next s) = None" using I(1) unfolding heap_ok_def by (metis less_irrefl not_None_eq)
  have hw: "heap_waiters (as_heap s) (Suc (as_next s)) = heap_waiters (as_heap s) (as_next s)"
    and m: "mrefs (as_heap s) (Suc (as_next s)) b = mrefs (as_heap s) (as_next s) b" for b
    by (simp_all add: heap_waiters_def mrefs_def hsum_def dead)
  have pl: "pool ?s = pool s" by (simp add: pool_def hw as_items_def)
  have it: "as_items ?s = as_items s" by (simp add: as_items_def)
  have R: "outrefs ?s = outrefs s" by (rule ext) (unfold outrefs_def pl it, simp)
  have "heap_ok (as_heap s) (Suc (as_next s))" using I(1) unfolding heap_ok_def by (meson less_SucI)
  moreover have "rc_ok (as_heap s) (Suc (as_next s)) (outrefs s)" using I(2) unfolding rc_ok_def m .
  moreover have "\<forall>w vs. (w, vs) \<in> set (as_reg s) \<longrightarrow> (\<forall>a \<in> set vs. a < Suc (as_next s))" using I(3) by (meson less_SucI)
  moreover have sel: "as_heap ?s = as_heap s" "as_data ?s = as_data s" "as_log ?s = as_log s" "as_reg ?s = as_reg s"
    by simp_all
  moreover have "fwd_ok ?s" using I(4) unfolding fwd_ok_def pl it sel .
  moreover have "client_ok ?s" using I(5) unfolding client_ok_def pl sel .
  moreover have "data_ok ?s" using I(6) unfolding data_ok_def pl sel .
  moreover have "wait_ok ?s" using I(7) unfolding wait_ok_def sel .
  moreover have "home_ok ?s" using I(8) unfolding home_ok_def sel .
  ultimately show ?thesis unfolding av_inv_def R by simp
qed

lemma inv_seterror:
  fixes s :: "'a av_sys"
  assumes inv: "av_inv s" and own: "0 < as_ext s a" and fit: "refs_fit (as_heap s)"
    and no: "filter_mset (forwards a) (pool s) = {#}"
    and call: "SetError tid (as_heap s) a d (as_next s) = Some (h, ws)"
  shows "av_inv (RunWaiters_call h ws (s\<lparr>as_next := Suc (as_next s)\<rparr>))"
proof -
  note I = av_invD [OF inv]
  obtain v where v: "as_heap s a = Some v" "\<not> State_IsAvailable (mState v)"
    using call by (auto simp: SetError_def split: option.splits if_splits)
  show ?thesis
  proof (cases "mKind v = KConcrete")
    case True
    then have "NotifyAvailable ((as_heap s)(a \<mapsto> v\<lparr>mPayload := Diag d\<rparr>)) a kError = Some (h, ws)"
      using call v by (simp add: SetError_def)
    then show ?thesis
      using inv_resolve [OF inv_bump [OF inv], of a v kError "Diag d" h ws] v True by simp
  next
    case False
    let ?e = "ConcreteAsyncValue_Error (DummyType tid) d :: 'a AsyncValue" and ?n = "as_next s"
    let ?s1 = "HostContext_Construct ?e s"
    have fresh: "fresh_value tid ?e" by (auto simp: fresh_value_def)
    note inv1 = inv_make [OF inv fresh]
    have h1: "as_heap ?s1 = (as_heap s)(?n \<mapsto> ?e)" "as_ext ?s1 = (as_ext s)(?n := 1)" "as_next ?s1 = Suc ?n"
      by (simp_all add: HostContext_Construct_def)
    have dead: "as_heap s ?n = None" using I(1) unfolding heap_ok_def by (metis less_irrefl not_None_eq)
    have e0: "as_ext s ?n = 0" using rc_ok_None(1) [OF I(2) dead] by (simp add: outrefs_def)
    have an: "a \<noteq> ?n" using dead v by auto
    have pl: "pool ?s1 = pool s"
      by (simp add: pool_def as_items_def HostContext_Construct_def heap_waiters_def hsum_alloc fresh_valueD [OF fresh])
    have "IsUnresolvedIndirect (as_heap ?s1) a"
      using v False an by (cases "mKind v") (simp_all add: IsUnresolvedIndirect_def h1)
    moreover have "refs_fit (as_heap ?s1)"
    proof -
      have "(1 :: u32) \<noteq> - 1" by simp
      then show ?thesis using fit fresh_valueD(1) [OF fresh] by (simp add: refs_fit_def h1)
    qed
    moreover have "ForwardTo (as_heap ?s1) a ?n = Some (h, ws)"
      using call v False by (simp add: SetError_def h1)
    ultimately have "av_inv (RunWaiters_call h ws (?s1\<lparr>as_ext := (as_ext ?s1)(?n := as_ext ?s1 ?n - 1)\<rparr>))"
      using own an by (intro inv_forward [OF inv1, of a]) (simp_all add: h1 pl no [unfolded filter_mset_eq_mempty_iff])
    moreover have "RunWaiters_call h ws (?s1\<lparr>as_ext := (as_ext ?s1)(?n := as_ext ?s1 ?n - 1)\<rparr>) =
        RunWaiters_call h ws (s\<lparr>as_next := Suc ?n\<rparr>)"
      using e0 by (simp add: RunWaiters_call_def HostContext_Construct_def fun_upd_idem)
    ultimately show ?thesis by simp
  qed
qed

subsection \<open>RunWaiters keeps the invariant\<close>

lemma size_filter_add: "size (filter_mset P M) \<le> size (filter_mset P (add_mset u M))"
  by simp

lemma run_items:
  assumes "k < length (as_runs s)" "as_runs s ! k = x # xs" "as_runs s' = (as_runs s)[k := new @ xs]"
  shows "\<exists>M0. as_items s = add_mset x M0 \<and> as_items s' = M0 + mset new"
proof -
  have x: "x \<in># as_items s" using assms(1,2) unfolding as_items_def
    by (metis in_set_conv_nth in_multiset_in_set list.set_intros(1) set_concat UN_I)
  have "add_mset x (as_items s') = as_items s + mset new"
    unfolding as_items_def assms(3) by (rule mset_concat_update [OF assms(1,2)])
  moreover obtain M0 where "as_items s = add_mset x M0" using x by (metis mset_add)
  ultimately show ?thesis by auto
qed

text \<open>Calling a closure that is not a forwarding closure.\<close>

lemma run_plain:
  assumes inv: "av_inv s" and same: "as_heap s' = as_heap s" "as_next s' = as_next s" "as_ext s' = as_ext s" "as_reg s' = as_reg s"
    and it: "as_items s = add_mset (Node u) M0" "as_items s' = add_mset (Done u) M0"
    and u: "\<And>i v. u \<noteq> Forward i v"
    and parts: "client_ok s'" "data_ok s'" "wait_ok s'" "home_ok s'"
  shows "av_inv s'"
proof -
  note I = av_invD [OF inv]
  have pl: "pool s = add_mset u (pool s')" by (simp add: pool_def same it)
  have w0: "wref a u = 0" "dref a (Done u) = 0" for a using u by (cases u; simp)+
  have R: "outrefs s' = outrefs s" by (rule ext) (simp add: outrefs_def pl same it w0)
  have rc: "rc_ok (as_heap s') (as_next s') (outrefs s')" using I(2) by (simp add: R same)
  have "fwd_ok s'"
  proof (rule evolve_fwd [OF I(4) _ rc, where r = "{}" and N = "{}"])
    show "evolves (as_heap s) (as_heap s') {} {}" unfolding same by (rule evolves_refl)
    show "size (filter_mset (forwards j) (pool s')) \<le> 1" for j
      using fwd_okD(1) [OF I(4), of j] size_filter_add [of "forwards j" "pool s'" u] unfolding pl by linarith
    show "j \<notin> {} \<and> IsUnresolvedIndirect (as_heap s) j" if "Forward j v \<in># pool s'" for j v
      using that fwd_okD(2) [OF I(4), of j v] by (simp add: pl)
    show "IsAvailable (as_heap s) v \<or> v \<in> {}" if "Node (Forward j v) \<in># as_items s'" for j v
      using that fwd_okD(4) [OF I(4), of j v] by (simp add: it)
    show "IsAvailable (as_heap s) j \<or> j \<in> {}" if "Done (Forward j v) \<in># as_items s'" for j v
      using that fwd_okD(5) [OF I(4), of j v] u by (auto simp: it)
  qed simp
  then show ?thesis using I(1,3) rc parts by (simp add: av_inv_def same)
qed

lemma run_Client:
  assumes inv: "av_inv s" and it: "as_items s = add_mset (Node (Client w)) M0"
    and s': "s' = s\<lparr>as_log := as_log s @ [w], as_runs := rs\<rparr>" "as_items s' = add_mset (Done (Client w)) M0"
  shows "av_inv s'"
proof -
  note I = av_invD [OF inv]
  have pl: "pool s = add_mset (Client w) (pool s')" unfolding pool_def it s'(2) by (simp add: s'(1))
  have sel: "as_log s' = as_log s @ [w]" "as_data s' = as_data s" "as_reg s' = as_reg s" by (simp_all add: s'(1))
  show ?thesis
  proof (rule run_plain [OF inv _ _ _ _ it s'(2)])
    show "client_ok s'"
    proof (rule client_okI)
      show "count (pool s') (Client u) + blocks (as_data s') u + count_list (as_log s') u = of_bool (u \<in> fst ` set (as_reg s'))" for u
        using client_okD(2) [OF I(5), of u] unfolding pl sel by (cases "u = w") (simp_all only: count_list_append, simp_all)
    qed (use client_okD(1) [OF I(5)] sel in simp)
    show "data_ok s'" using I(6) unfolding data_ok_def pl sel by simp
    show "wait_ok s'" using I(7) by (simp add: wait_ok_def s'(1))
    show "home_ok s'" using I(8) by (simp add: home_ok_def s'(1))
  qed (simp_all add: s'(1))
qed

lemma run_Count:
  assumes inv: "av_inv s" and it: "as_items s = add_mset (Node (Count d)) M0" "as_items s' = add_mset (Done (Count d)) M0"
    and run: "RunWaiters_node (Node (Count d)) s = Some (s1, new)" and s': "s' = s1\<lparr>as_runs := rs\<rparr>"
  shows "av_inv s'"
proof -
  note I = av_invD [OF inv]
  obtain c w where d: "d < length (as_data s)" "as_data s ! d = Some (c, w)"
    using run by (auto split: if_splits option.splits)
  define x where "x = (if c \<noteq> 1 then Some (c - 1, w) else None)"
  have same: "as_heap s' = as_heap s" "as_next s' = as_next s" "as_ext s' = as_ext s" "as_reg s' = as_reg s"
    "as_data s' = (as_data s)[d := x]" "as_log s' = as_log s @ (if c = 1 then [w] else [])"
    using run d by (auto simp: s' x_def split: if_splits)
  have pl: "pool s = add_mset (Count d) (pool s')" by (simp add: pool_def same it)
  have cd: "c \<noteq> 0" "unat c = Suc (count (pool s') (Count d))" using data_okD(1) [OF I(6) d] by (simp_all add: pl)
  have b: "blocks ((as_data s)[d := x]) u + of_bool (u = w) = blocks (as_data s) u + of_bool (c \<noteq> 1 \<and> u = w)" for u
  proof -
    have "as_data s = take d (as_data s) @ Some (c, w) # drop (Suc d) (as_data s)" using d by (metis id_take_nth_drop)
    then have "blocks (as_data s) u = blocks (take d (as_data s)) u + of_bool (u = w) + blocks (drop (Suc d) (as_data s)) u"
      by (metis (no_types, lifting) blocks_append blocks_Cons add.assoc)
    moreover have "blocks ((as_data s)[d := x]) u = blocks (take d (as_data s)) u + of_bool (c \<noteq> 1 \<and> u = w) + blocks (drop (Suc d) (as_data s)) u"
      using d(1) by (simp add: upd_conv_take_nth_drop x_def blocks_def)
    ultimately show ?thesis by simp
  qed
  show ?thesis
  proof (rule run_plain [OF inv same(1-4) it])
    show "client_ok s'"
    proof (rule client_okI)
      show "distinct (map fst (as_reg s'))" using client_okD(1) [OF I(5)] by (simp add: same)
      show "count (pool s') (Client u) + blocks (as_data s') u + count_list (as_log s') u = of_bool (u \<in> fst ` set (as_reg s'))" for u
        using client_okD(2) [OF I(5), of u] b [of u] unfolding pl same by (cases "u = w"; cases "c = 1") simp_all
    qed
    show "data_ok s'"
      unfolding data_ok_def
    proof (intro conjI allI impI; (elim conjE)?)
      fix e k u assume e: "e < length (as_data s')" "as_data s' ! e = Some (k, u)"
      have "k \<noteq> 0 \<and> unat k = count (pool s') (Count e)"
      proof (cases "e = d")
        case True
        then have "c \<noteq> 1" "k = c - 1" using e d(1) by (auto simp: same x_def split: if_splits)
        moreover have "unat (c - 1) = unat c - 1" by (rule unat_minus_1_word [OF cd(1)])
        ultimately show ?thesis using True cd(2) by auto
      next
        case False
        then show ?thesis using e data_okD(1) [OF I(6), of e k u] by (simp add: same pl)
      qed
      then show "k \<noteq> 0" "unat k = count (pool s') (Count e)" by simp_all
    next
      fix e assume e: "e < length (as_data s')" "as_data s' ! e = None"
      show "Count e \<notin># pool s'"
      proof (cases "e = d")
        case True
        then have "c = 1" using e d(1) by (auto simp: same x_def split: if_splits)
        then show ?thesis using cd(2) True by (simp add: not_in_iff)
      next
        case False
        then show ?thesis using e data_okD(2) [OF I(6), of e] by (simp add: same pl)
      qed
    next
      fix e assume "length (as_data s') \<le> e"
      then show "Count e \<notin># pool s'" using data_okD(3) [OF I(6), of e] by (simp add: same pl)
    qed
    show "wait_ok s'"
      unfolding wait_ok_def
    proof (clarify)
      fix u us a assume u: "(u, us) \<in> set (as_reg s')" "a \<in> set us" and un: "IsUnavailable (as_heap s') a"
      then have "waiting (as_heap s) (as_data s) u a" using I(7) by (auto simp: wait_ok_def same)
      then obtain v where v: "as_heap s a = Some v" "Client u \<in> set (mWaiters v) \<or>
          (\<exists>e k. e < length (as_data s) \<and> as_data s ! e = Some (k, u) \<and> Count e \<in> set (mWaiters v))"
        by (auto simp: waiting_def)
      have "\<exists>e k. e < length (as_data s') \<and> as_data s' ! e = Some (k, u) \<and> Count e \<in> set (mWaiters v)"
        if e: "e < length (as_data s)" "as_data s ! e = Some (k, u)" "Count e \<in> set (mWaiters v)" for e k
      proof (cases "e = d")
        case True
        have "a < as_next s" using I(1) v(1) by (auto simp: heap_ok_def)
        then have "Count d \<in># heap_waiters (as_heap s') (as_next s')"
          using heap_waiters_mem [of a "as_next s" "as_heap s" v] v(1) e(3) True by (simp add: same)
        then have "Count d \<in># pool s'" by (simp add: pool_def)
        then have "unat c \<noteq> 1" using cd(2) by (simp add: not_in_iff)
        then have "c \<noteq> 1" by auto
        then have "as_data s' ! d = Some (c - 1, w)" "w = u" using e True d by (simp_all add: same x_def)
        then show ?thesis using e True by (auto simp: same)
      next
        case False
        then show ?thesis using e by (intro exI [of _ e] exI [of _ k]) (simp add: same)
      qed
      with v show "waiting (as_heap s') (as_data s') u a" unfolding waiting_def same(1) by blast
    qed
    show "home_ok s'"
      unfolding home_ok_def same(1,4)
    proof (intro allI impI conjI; (elim conjE)?)
      fix a v e k u assume v: "as_heap s a = Some v" and e: "Count e \<in> set (mWaiters v)" "e < length (as_data s')" "as_data s' ! e = Some (k, u)"
      have "\<exists>k'. as_data s ! e = Some (k', u)"
        using e(2,3) d by (cases "e = d") (auto simp: same x_def split: if_splits)
      then show "\<exists>vs. (u, vs) \<in> set (as_reg s) \<and> a \<in> set vs"
        using I(8) v e(1,2) unfolding home_ok_def by (auto simp: same)
    qed (use I(8) in \<open>auto simp: home_ok_def\<close>)
  qed simp
qed

text \<open>Calling and destroying a forwarding closure.\<close>

lemma run_Forward_call:
  assumes inv: "av_inv s" and fit: "refs_fit (as_heap s)" and it: "Node (Forward i v) \<in># as_items s"
  shows "\<exists>h iv h0 iv'. as_heap s i = Some iv \<and> ForwardTo (as_heap s) i v = Some (h, mWaiters iv) \<and> heap_ok h (as_next s) \<and>
      rc_ok h (as_next s) ((outrefs s)(v := outrefs s v - 1)) \<and>
      heap_waiters h (as_next s) + mset (mWaiters iv) = heap_waiters (as_heap s) (as_next s) \<and>
      shrinks (as_heap s) h0 \<and> h = h0(i \<mapsto> iv') \<and> mKind iv' = mKind iv \<and> State_IsAvailable (mState iv') \<and> mWaiters iv' = []"
proof -
  note I = av_invD [OF inv]
  have p: "Forward i v \<in># pool s" by (rule pool_item [OF it])
  obtain iv where iv: "as_heap s i = Some iv" "mKind iv = KIndirect" "\<not> State_IsAvailable (mState iv)"
    using fwd_okD(2) [OF I(4) p] by (auto simp: IsUnresolvedIndirect_def split: option.splits)
  obtain vv where vv: "as_heap s v = Some vv" "State_IsAvailable (mState vv)"
    using fwd_okD(4) [OF I(4) it] by (auto simp: IsAvailable_def split: option.splits)
  obtain h0 h iv' where fw: "ForwardTo (as_heap s) i v = Some (h, mWaiters iv)" "heap_ok h (as_next s)"
      "rc_ok h (as_next s) ((outrefs s)(v := outrefs s v - 1))"
      "heap_waiters h (as_next s) + mset (mWaiters iv) = heap_waiters (as_heap s) (as_next s)"
      "shrinks (as_heap s) h0" "h = h0(i \<mapsto> iv')" "mKind iv' = KIndirect" "mState iv' = mState vv" "mWaiters iv' = []"
    using ForwardTo_available [OF I(1,2) fit iv outrefs_pos(2) [OF p] vv outrefs_pos(3) [OF p]] by blast
  have "State_IsAvailable (mState iv')" "mKind iv' = mKind iv" using fw(7,8) iv(2) vv(2) by simp_all
  with fw iv(1) show ?thesis by blast
qed

lemma run_Forward:
  assumes inv: "av_inv s" and fit: "refs_fit (as_heap s)" and it: "as_items s = add_mset (Node (Forward i v)) M0"
    and call: "ForwardTo (as_heap s) i v = Some (h, ws)"
    and s': "s' = s\<lparr>as_heap := h, as_runs := rs\<rparr>" "as_items s' = M0 + mset (map Node ws @ [Done (Forward i v)])"
  shows "av_inv s'"
proof -
  note I = av_invD [OF inv]
  obtain iv h0 iv' where fw: "as_heap s i = Some iv" "ForwardTo (as_heap s) i v = Some (h, mWaiters iv)" "heap_ok h (as_next s)"
      "rc_ok h (as_next s) ((outrefs s)(v := outrefs s v - 1))"
      "heap_waiters h (as_next s) + mset (mWaiters iv) = heap_waiters (as_heap s) (as_next s)"
      "shrinks (as_heap s) h0" "h = h0(i \<mapsto> iv')" "mKind iv' = mKind iv" "State_IsAvailable (mState iv')" "mWaiters iv' = []"
    using run_Forward_call [OF inv fit, of i v] it call by auto
  have ws: "ws = mWaiters iv" using fw(2) call by simp
  have sel: "as_heap s' = h" "as_next s' = as_next s" "as_ext s' = as_ext s" "as_reg s' = as_reg s"
    "as_data s' = as_data s" "as_log s' = as_log s" by (simp_all add: s'(1))
  have pl: "pool s = add_mset (Forward i v) (pool s')"
    unfolding pool_def it s'(2) sel using fw(5) by (simp add: ws flip: fw(5))
  have "outrefs s' b = ((outrefs s)(v := outrefs s v - 1)) b" for b
    unfolding outrefs_def pl it s'(2) sel by (cases "b = v") (simp_all add: outrefs_def it pl)
  then have R: "outrefs s' = (outrefs s)(v := outrefs s v - 1)" by blast
  have rc: "rc_ok (as_heap s') (as_next s') (outrefs s')" unfolding R sel by (rule fw(4))
  have ev: "evolves (as_heap s) (as_heap s') {i} {}"
    using evolves_resolved [of "as_heap s" i iv iv' h0, OF fw(1,9,8,10,6)] by (simp add: sel fw(7))
  have "size (filter_mset (forwards i) (pool s)) \<le> 1" by (rule fwd_okD(1) [OF I(4)])
  then have none: "filter_mset (forwards i) (pool s') = {#}" unfolding pl by simp
  have "fwd_ok s'"
  proof (rule evolve_fwd [OF I(4) ev rc])
    show "size (filter_mset (forwards j) (pool s')) \<le> 1" for j
      using fwd_okD(1) [OF I(4), of j] size_filter_add [of "forwards j" "pool s'" "Forward i v"] unfolding pl by linarith
    show "j \<notin> {i} \<and> IsUnresolvedIndirect (as_heap s) j" if "Forward j u \<in># pool s'" for j u
      using that no_forwards [OF none that] fwd_okD(2) [OF I(4), of j u] by (simp add: pl)
    show "IsAvailable (as_heap s) u \<or> u \<in> {i}" if n: "Node (Forward j u) \<in># as_items s'" for j u
    proof (cases "Forward j u \<in> set ws")
      case True
      then have "i = u" using fwd_okD(3) [OF I(4) fw(1)] by (simp add: ws)
      then show ?thesis by simp
    next
      case False
      then have "Node (Forward j u) \<in># as_items s" using n by (auto simp: s'(2) it)
      then show ?thesis using fwd_okD(4) [OF I(4)] by blast
    qed
    show "IsAvailable (as_heap s) j \<or> j \<in> {i}" if d: "Done (Forward j u) \<in># as_items s'" for j u
      using d fwd_okD(5) [OF I(4), of j u] by (auto simp: s'(2) it)
  qed simp
  moreover have "wait_ok s'" by (rule evolve_wait [OF I(7) ev sel(4,5)])
  moreover have "home_ok s'" by (rule evolve_home [OF I(8) ev sel(4,5)]) simp
  moreover have "client_ok s'" using I(5) unfolding client_ok_def pl sel by simp
  moreover have "data_ok s'" using I(6) unfolding data_ok_def pl sel by simp
  ultimately show ?thesis using fw(3) rc I(3) by (simp add: av_inv_def sel)
qed

lemma run_Done_call:
  assumes inv: "av_inv s" and it: "Done (Forward i v) \<in># as_items s"
  shows "\<exists>h. AsyncValue_DropRef (as_heap s) i 1 = Some h \<and> heap_ok h (as_next s) \<and>
      rc_ok h (as_next s) ((outrefs s)(i := outrefs s i - 1)) \<and> shrinks (as_heap s) h"
proof -
  note I = av_invD [OF inv]
  obtain iv where iv: "as_heap s i = Some iv" "State_IsAvailable (mState iv)"
    using fwd_okD(5) [OF I(4) it] by (auto simp: IsAvailable_def split: option.splits)
  have "val_ok (as_heap s) iv" using I(1) iv(1) by (auto simp: heap_ok_def)
  then have "mWaiters iv = []" using iv(2) by (simp add: val_ok_def)
  then show ?thesis using DropRef_ok [OF I(1,2) iv(1) outrefs_pos(4) [OF it]] by blast
qed

lemma run_Done:
  assumes inv: "av_inv s" and it: "as_items s = add_mset (Done u) M0" "as_items s' = M0"
    and run: "RunWaiters_node (Done u) s = Some (s1, [])" and s': "s' = s1\<lparr>as_runs := rs\<rparr>"
  shows "av_inv s'"
proof -
  note I = av_invD [OF inv]
  have sh: "shrinks (as_heap s) (as_heap s') \<and> heap_ok (as_heap s') (as_next s) \<and>
      rc_ok (as_heap s') (as_next s) (outrefs s') \<and> as_next s' = as_next s \<and> as_reg s' = as_reg s \<and>
      as_data s' = as_data s \<and> as_log s' = as_log s \<and> pool s' = pool s"
  proof (cases "\<exists>i v. u = Forward i v")
    case True
    then obtain i v where u: "u = Forward i v" by blast
    obtain h where h: "AsyncValue_DropRef (as_heap s) i 1 = Some h" "heap_ok h (as_next s)"
      "rc_ok h (as_next s) ((outrefs s)(i := outrefs s i - 1))" "shrinks (as_heap s) h"
      using run_Done_call [OF inv, of i v] it(1) u by auto
    have s1: "s' = s\<lparr>as_heap := h, as_runs := rs\<rparr>" using run h(1) by (auto simp: s' u)
    have pl: "pool s' = pool s" unfolding pool_def it by (simp add: s1 shrinks_waiters [OF h(4)])
    have "outrefs s' b = ((outrefs s)(i := outrefs s i - 1)) b" for b
      unfolding outrefs_def pl it by (cases "b = i") (simp_all add: s1 u outrefs_def it)
    then have "outrefs s' = (outrefs s)(i := outrefs s i - 1)" by blast
    then show ?thesis using h pl by (simp add: s1)
  next
    case False
    then have s1: "s' = s\<lparr>as_runs := rs\<rparr>" using run by (cases u) (auto simp: s')
    have pl: "pool s' = pool s" unfolding pool_def it by (simp add: s1)
    have d0: "dref b (Done u) = 0" for b using False by (cases u) auto
    have "outrefs s' = outrefs s" by (rule ext) (simp add: outrefs_def pl it d0, simp add: s1)
    then show ?thesis using I(1,2) pl shrinks_refl by (simp add: s1)
  qed
  then have rc: "rc_ok (as_heap s') (as_next s) (outrefs s')" and ev: "evolves (as_heap s) (as_heap s') {} {}"
    using evolves_shrinks by blast+
  have "fwd_ok s'"
  proof (rule evolve_fwd [OF I(4) ev rc])
    show "size (filter_mset (forwards j) (pool s')) \<le> 1" for j using fwd_okD(1) [OF I(4)] sh by simp
    show "j \<notin> {} \<and> IsUnresolvedIndirect (as_heap s) j" if "Forward j x \<in># pool s'" for j x
      using that fwd_okD(2) [OF I(4), of j x] sh by simp
    show "IsAvailable (as_heap s) x \<or> x \<in> {}" if "Node (Forward j x) \<in># as_items s'" for j x
      using that fwd_okD(4) [OF I(4), of j x] it by simp
    show "IsAvailable (as_heap s) j \<or> j \<in> {}" if "Done (Forward j x) \<in># as_items s'" for j x
      using that fwd_okD(5) [OF I(4), of j x] it by simp
  qed simp
  moreover have "wait_ok s'" by (rule evolve_wait [OF I(7) ev]) (use sh in simp_all)
  moreover have "home_ok s'" by (rule evolve_home [OF I(8) ev]) (use sh in simp_all)
  moreover have "client_ok s'" "data_ok s'" using I(5,6) sh by (simp_all add: client_ok_def data_ok_def)
  ultimately show ?thesis using I(3) sh by (simp add: av_inv_def)
qed

subsection \<open>All reachable states\<close>

lemma inv_run:
  assumes inv: "av_inv s" and k: "k < length (as_runs s)" "as_runs s ! k = x # xs" and fit: "refs_fit (as_heap s)"
    and run: "RunWaiters_node x s = Some (s1, new)"
  shows "av_inv (s1\<lparr>as_runs := (as_runs s)[k := new @ xs]\<rparr>)" (is "av_inv ?s")
proof -
  have "as_runs ?s = (as_runs s)[k := new @ xs]" by simp
  then obtain M0 where it: "as_items s = add_mset x M0" "as_items ?s = M0 + mset new"
    using run_items [OF k] by blast
  show ?thesis
  proof (cases x)
    case (Node u)
    show ?thesis
    proof (cases u)
      case (Client w)
      then have "s1 = s\<lparr>as_log := as_log s @ [w]\<rparr>" "new = [Done (Client w)]" using run Node by auto
      then show ?thesis using run_Client [OF inv, of w M0 ?s "(as_runs s)[k := new @ xs]"] it Node Client by simp
    next
      case (Forward i v)
      then obtain h ws where "ForwardTo (as_heap s) i v = Some (h, ws)" "s1 = s\<lparr>as_heap := h\<rparr>"
          "new = map Node ws @ [Done (Forward i v)]"
        using run Node by auto
      then show ?thesis
        using run_Forward [OF inv fit, of i v M0 h ws ?s "(as_runs s)[k := new @ xs]"] it Node Forward by simp
    next
      case (Count d)
      then have "new = [Done (Count d)]" using run Node by (auto split: if_splits option.splits)
      then show ?thesis using run_Count [OF inv, of d M0 ?s s1 new "(as_runs s)[k := new @ xs]"] it run Node Count by simp
    qed
  next
    case (Done u)
    then have "new = []" using run by (cases u) auto
    then show ?thesis using run_Done [OF inv, of u M0 ?s s1 "(as_runs s)[k := new @ xs]"] it run Done by simp
  qed
qed

text \<open>SetErrorLocationIfUnset changes the payload of one value, from one diagnostic to another.\<close>

lemma SetErrorLocation_cases:
  assumes "heap_ok h n" "SetErrorLocationIfUnset h a loc = Some h'"
  shows "h' = h \<or> (\<exists>b v d. h b = Some v \<and> mKind v = KConcrete \<and> mState v = kError \<and> mPayload v = Diag d \<and> location d = None \<and>
    h' = h(b \<mapsto> v\<lparr>mPayload := Diag (d\<lparr>location := Some loc\<rparr>)\<rparr>))"
proof -
  obtain d v where d: "GetErrorIfPresent h a = Some (Some d)" "h (storage h a) = Some v"
      "h' = (if location d = None then h(storage h a \<mapsto> v\<lparr>mPayload := Diag (d\<lparr>location := Some loc\<rparr>)\<rparr>) else h)"
    using assms(2) by (auto simp: SetErrorLocationIfUnset_def GetError_def Option.bind_eq_Some_conv split: option.splits)
  obtain u where u: "h a = Some u" "val_ok h u" using d(1) assms(1) by (auto simp: GetErrorIfPresent_def heap_ok_def split: option.splits)
  have "mKind v = KConcrete \<and> concrete_error v = Some (Some d)"
    using u d(1,2) by (cases "mKind u") (auto simp: GetErrorIfPresent_def storage_def val_ok_def split: option.splits if_splits)
  then have "mKind v = KConcrete" "mState v = kError" "mPayload v = Diag d"
    by (auto simp: concrete_error_def split: if_splits payload.splits)
  then show ?thesis using d(2,3) by auto
qed

lemma diag_update_ok:
  assumes ok: "heap_ok h n" "rc_ok h n R" and b: "h b = Some v" "mState v = kError" "mKind v = KConcrete"
  shows "heap_ok (h(b \<mapsto> v\<lparr>mPayload := Diag d\<rparr>)) n" "rc_ok (h(b \<mapsto> v\<lparr>mPayload := Diag d\<rparr>)) n R"
    "heap_waiters (h(b \<mapsto> v\<lparr>mPayload := Diag d\<rparr>)) n = heap_waiters h n" "evolves h (h(b \<mapsto> v\<lparr>mPayload := Diag d\<rparr>)) {} {}"
proof -
  let ?h = "h(b \<mapsto> v\<lparr>mPayload := Diag d\<rparr>)"
  have lt: "b < n" and vo: "val_ok h v" using ok(1) b(1) by (auto simp: heap_ok_def)
  have "val_ok ?h w" if "val_ok h w" for w using that b unfolding val_ok_def by (auto split: Kind.splits)
  moreover have "val_ok ?h (v\<lparr>mPayload := Diag d\<rparr>)" using vo b by (simp add: val_ok_def)
  ultimately show "heap_ok ?h n" using ok(1) lt by (auto simp: heap_ok_def)
  have "mrefs ?h n = mrefs h n" 
  proof
    fix a show "mrefs ?h n a = mrefs h n a"
      using hsum_update [of b n h v "\<lambda>v. of_bool (mValue v = Some a) :: nat" "v\<lparr>mPayload := Diag d\<rparr>"] lt b(1) by (simp add: mrefs_def)
  qed
  note m = this
  show "rc_ok ?h n R" unfolding rc_ok_def m
  proof
    fix a show "case ?h a of None \<Rightarrow> R a + mrefs h n a = 0 | Some v \<Rightarrow> unat (mRefCount v) = R a + mrefs h n a \<and> mRefCount v \<noteq> 0"
      using ok(2) [unfolded rc_ok_def, rule_format, of a] b(1) by (cases "a = b") simp_all
  qed
  show "heap_waiters ?h n = heap_waiters h n"
    using hsum_update [of b n h v "\<lambda>v. mset (mWaiters v)" "v\<lparr>mPayload := Diag d\<rparr>"] lt b(1) by (simp add: heap_waiters_def)
  show "evolves h ?h {} {}" using b(1) by (auto simp: evolves_def)
qed

lemma inv_setlocation:
  assumes inv: "av_inv s" and call: "SetErrorLocationIfUnset (as_heap s) a loc = Some h"
  shows "av_inv (s\<lparr>as_heap := h\<rparr>)"
proof -
  note I = av_invD [OF inv]
  consider "h = as_heap s" | b v d where "as_heap s b = Some v" "mKind v = KConcrete" "mState v = kError"
      "h = (as_heap s)(b \<mapsto> v\<lparr>mPayload := Diag d\<rparr>)"
    using SetErrorLocation_cases [OF I(1) call] by blast
  then show ?thesis
  proof cases
    case 1
    then show ?thesis using inv by simp
  next
    case 2
    note u = diag_update_ok [OF I(1,2) 2(1,3,2), of d, folded 2(4)]
    have pl: "pool (s\<lparr>as_heap := h\<rparr>) = pool s" using u(3) by (simp add: pool_def as_items_def)
    then have "outrefs (s\<lparr>as_heap := h\<rparr>) = outrefs s" by (simp add: fun_eq_iff outrefs_def as_items_def)
    then show ?thesis
      using inv_same_pool [OF inv, of "s\<lparr>as_heap := h\<rparr>" "[]" "{}"] pl u by (simp add: as_items_def)
  qed
qed

lemma inv_step:
  assumes "av_step tid s s'" "av_inv s"
  shows "av_inv s'"
  using assms
proof (cases rule: av_step.cases)
  case (make v)
  then show ?thesis using inv_make assms(2) by blast
next
  case (addref a h)
  then show ?thesis using inv_addref assms(2) by blast
next
  case (dropref a h)
  then show ?thesis using inv_dropref assms(2) by blast
next
  case (andthen a w h ws)
  then have "RunWhenReady s [a] w = Some (RunWaiters_call h ws s)" by (simp add: RunWhenReady_def)
  from inv_ready [OF assms(2) _ andthen(3) _ _ _ this, of "[a]"] andthen(2)
  have "av_inv (RunWaiters_call h ws s\<lparr>as_reg := as_reg s @ [(w, [a])]\<rparr>)" by simp
  then show ?thesis by (simp only: andthen(1) call_reg)
next
  case (ready vs w seen s1)
  then show ?thesis using inv_ready assms(2) by blast
next
  case (emplace a T x h ws)
  obtain v where v: "as_heap s a = Some v" "mKind v = KConcrete" "mState v = kUnconstructed"
      "NotifyAvailable ((as_heap s)(a \<mapsto> v\<lparr>mPayload := Data x\<rparr>)) a kConcrete = Some (h, ws)"
    using emplace(3) by (auto simp: emplace_def split: option.splits if_splits)
  then show ?thesis unfolding emplace(1) by (intro inv_resolve [OF assms(2) v(1,2) _ _ v(4)]) auto
next
  case (setconcrete a h ws)
  obtain v where v: "as_heap s a = Some v" "mKind v = KConcrete" "mState v = kConstructed"
      "NotifyAvailable (as_heap s) a kConcrete = Some (h, ws)"
    using setconcrete(3) by (auto simp: SetStateConcrete_def split: option.splits if_splits)
  have "val_ok (as_heap s) v" using av_invD(1) [OF assms(2)] v(1) by (auto simp: heap_ok_def)
  then obtain x where "mPayload v = Data x" using v by (auto simp: val_ok_def)
  then have "v\<lparr>mPayload := Data x\<rparr> = v" by (metis AsyncValue.surjective AsyncValue.update_convs(7))
  then have "NotifyAvailable ((as_heap s)(a \<mapsto> v\<lparr>mPayload := Data x\<rparr>)) a kConcrete = Some (h, ws)"
    using v(1,4) by (simp add: fun_upd_idem)
  then show ?thesis unfolding setconcrete(1) using v(3) by (intro inv_resolve [OF assms(2) v(1,2)]) auto
next
  case (setlocation a loc h)
  then show ?thesis using inv_setlocation assms(2) by blast
next
  case (seterror a d h ws)
  then show ?thesis using inv_seterror assms(2) by blast
next
  case (forward i v h ws)
  then show ?thesis using inv_forward assms(2) by blast
next
  case (run k x xs s1 new)
  then show ?thesis using inv_run assms(2) by blast
qed

lemma inv_start: "av_inv av_start"
  by (simp add: av_inv_def av_start_def heap_ok_def rc_ok_def outrefs_def pool_def as_items_def heap_waiters_def
      hsum_def mrefs_def fwd_ok_def client_ok_def data_ok_def wait_ok_def home_ok_def blocks_def)

lemma av_reach_inv:
  assumes "av_reach tid s"
  shows "av_inv s"
  using assms
proof (induction rule: av_reach.induct)
  case start
  show ?case by (rule inv_start)
next
  case (step s s')
  then show ?case using inv_step by blast
qed

subsection \<open>Running programs\<close>

text \<open>An executable client: a list of calls and scheduling decisions.\<close>

datatype 'a av_op = OUnconstructed ctype | OIndirect | OAndThen av_ptr nat | OReady "av_ptr list" nat
  | OEmplace av_ptr ctype 'a | OError av_ptr DecodedDiagnostic | OForward av_ptr av_ptr | OAddRef av_ptr | ODropRef av_ptr | ORun nat

definition small_refs :: "'a av_sys \<Rightarrow> bool" where
  "small_refs s \<longleftrightarrow> (\<forall>a \<in> {..<as_next s}. case as_heap s a of None \<Rightarrow> True | Some v \<Rightarrow> mRefCount v \<noteq> - 1)"

fun av_do :: "u16 \<Rightarrow> 'a av_op \<Rightarrow> 'a av_sys \<Rightarrow> 'a av_sys option" where
  "av_do tid (OUnconstructed T) s = Some (MakeUnconstructedAsyncValueRef T s)"
| "av_do tid OIndirect s = Some (MakeIndirectAsyncValue s)"
| "av_do tid (OAndThen a w) s =
     (if 0 < as_ext s a \<and> w \<notin> fst ` set (as_reg s)
      then map_option (\<lambda>(h, ws). RunWaiters_call h ws (s\<lparr>as_reg := as_reg s @ [(w, [a])]\<rparr>)) (AndThen (as_heap s) a (Client w))
      else None)"
| "av_do tid (OReady vs w) s =
     (if (\<forall>a \<in> set vs. 0 < as_ext s a) \<and> w \<notin> fst ` set (as_reg s) \<and> length vs < 2 ^ 64
      then map_option (\<lambda>s'. s'\<lparr>as_reg := as_reg s @ [(w, vs)]\<rparr>) (RunWhenReady s (RunWhenReady_scan (as_heap s) vs) w)
      else None)"
| "av_do tid (OEmplace a T x) s =
     (if 0 < as_ext s a then map_option (\<lambda>(h, ws). RunWaiters_call h ws s) (emplace (as_heap s) a T x) else None)"
| "av_do tid (OError a d) s =
     (if 0 < as_ext s a \<and> small_refs s \<and> filter_mset (forwards a) (pool s) = {#}
      then map_option (\<lambda>(h, ws). RunWaiters_call h ws (s\<lparr>as_next := Suc (as_next s)\<rparr>)) (SetError tid (as_heap s) a d (as_next s))
      else None)"
| "av_do tid (OForward i v) s =
     (if 0 < as_ext s i \<and> 0 < as_ext s v \<and> small_refs s \<and> IsUnresolvedIndirect (as_heap s) i \<and>
         filter_mset (forwards i) (pool s) = {#}
      then map_option (\<lambda>(h, ws). RunWaiters_call h ws (s\<lparr>as_ext := (as_ext s)(v := as_ext s v - 1)\<rparr>)) (ForwardTo (as_heap s) i v)
      else None)"
| "av_do tid (OAddRef a) s =
     (if 0 < as_ext s a \<and> small_refs s
      then map_option (\<lambda>h. s\<lparr>as_heap := h, as_ext := (as_ext s)(a := as_ext s a + 1)\<rparr>) (AsyncValue_AddRef (as_heap s) a 1)
      else None)"
| "av_do tid (ODropRef a) s =
     (if 0 < as_ext s a
      then map_option (\<lambda>h. s\<lparr>as_heap := h, as_ext := (as_ext s)(a := as_ext s a - 1)\<rparr>) (AsyncValue_DropRef (as_heap s) a 1)
      else None)"
| "av_do tid (ORun k) s =
     (if k < length (as_runs s) \<and> small_refs s
      then (case as_runs s ! k of
              [] \<Rightarrow> None
            | x # xs \<Rightarrow> map_option (\<lambda>(s', new). s'\<lparr>as_runs := (as_runs s)[k := new @ xs]\<rparr>) (RunWaiters_node x s))
      else None)"

fun av_program :: "u16 \<Rightarrow> 'a av_op list \<Rightarrow> 'a av_sys \<Rightarrow> 'a av_sys option" where
  "av_program tid [] s = Some s"
| "av_program tid (p # ps) s = (case av_do tid p s of None \<Rightarrow> None | Some s' \<Rightarrow> av_program tid ps s')"

lemma small_refs_fit:
  assumes "av_inv s" "small_refs s"
  shows "refs_fit (as_heap s)"
proof -
  have "mRefCount v \<noteq> - 1" if v: "as_heap s a = Some v" for a v
  proof -
    have "a < as_next s" using av_invD(1) [OF assms(1)] v by (auto simp: heap_ok_def)
    then have "case as_heap s a of None \<Rightarrow> True | Some v \<Rightarrow> mRefCount v \<noteq> - 1"
      using assms(2) by (simp add: small_refs_def)
    with v show ?thesis by simp
  qed
  then show ?thesis by (auto simp: refs_fit_def)
qed

lemma scan_rest:
  assumes "av_inv s" "\<forall>a \<in> set vs. 0 < as_ext s a"
  shows "\<forall>a \<in> set vs - set (RunWhenReady_scan (as_heap s) vs). IsAvailable (as_heap s) a"
    "set (RunWhenReady_scan (as_heap s) vs) \<subseteq> set vs"
    "length (RunWhenReady_scan (as_heap s) vs) \<le> length vs"
  by (auto simp: RunWhenReady_scan_def)

lemma av_do_step:
  assumes inv: "av_inv s" and d: "av_do tid p s = Some s'"
  shows "av_step tid s s'"
proof (cases p)
  case (OUnconstructed T)
  then show ?thesis using d by (auto intro!: av_step.make simp: fresh_value_def)
next
  case OIndirect
  then show ?thesis using d by (auto intro!: av_step.make simp: fresh_value_def)
next
  case (OAndThen a w)
  then show ?thesis using d by (auto split: if_splits intro: av_step.andthen)
next
  case (OReady vs w)
  then obtain s1 where r: "\<forall>a \<in> set vs. 0 < as_ext s a" "w \<notin> fst ` set (as_reg s)" "length vs < 2 ^ 64"
      "RunWhenReady s (RunWhenReady_scan (as_heap s) vs) w = Some s1" "s' = s1\<lparr>as_reg := as_reg s @ [(w, vs)]\<rparr>"
    using d by (auto split: if_splits)
  have "length (RunWhenReady_scan (as_heap s) vs) < 2 ^ 64" using scan_rest(3) [OF inv r(1)] r(3) by simp
  then show ?thesis unfolding r(5)
    by (rule av_step.ready [OF r(1,2) _ scan_rest(2,1) [OF inv r(1)] r(4)])
next
  case (OEmplace a T x)
  then show ?thesis using d by (auto split: if_splits intro: av_step.emplace)
next
  case (OError a e)
  then show ?thesis using d by (auto split: if_splits intro!: av_step.seterror small_refs_fit [OF inv])
next
  case (OForward i v)
  then obtain h ws where f: "0 < as_ext s i" "0 < as_ext s v" "small_refs s" "IsUnresolvedIndirect (as_heap s) i"
      "filter_mset (forwards i) (pool s) = {#}" "ForwardTo (as_heap s) i v = Some (h, ws)"
      "s' = RunWaiters_call h ws (s\<lparr>as_ext := (as_ext s)(v := as_ext s v - 1)\<rparr>)"
    using d by (auto split: if_splits)
  then show ?thesis unfolding f(7) by (intro av_step.forward small_refs_fit [OF inv])
next
  case (OAddRef a)
  then obtain h where f: "0 < as_ext s a" "small_refs s" "AsyncValue_AddRef (as_heap s) a 1 = Some h"
      "s' = s\<lparr>as_heap := h, as_ext := (as_ext s)(a := as_ext s a + 1)\<rparr>"
    using d by (auto split: if_splits)
  then show ?thesis unfolding f(4) by (intro av_step.addref small_refs_fit [OF inv])
next
  case (ODropRef a)
  then obtain h where f: "0 < as_ext s a" "AsyncValue_DropRef (as_heap s) a 1 = Some h"
      "s' = s\<lparr>as_heap := h, as_ext := (as_ext s)(a := as_ext s a - 1)\<rparr>"
    using d by (auto split: if_splits)
  then show ?thesis unfolding f(3) by (intro av_step.dropref)
next
  case (ORun k)
  then show ?thesis using d by (auto split: if_splits list.splits intro!: av_step.run small_refs_fit [OF inv])
qed

lemma av_program_reach:
  assumes "av_reach tid s" "av_program tid ps s = Some s'"
  shows "av_reach tid s'"
  using assms
proof (induction ps arbitrary: s)
  case (Cons p ps)
  then obtain s1 where s1: "av_do tid p s = Some s1" "av_program tid ps s1 = Some s'"
    by (auto split: option.splits)
  have "av_reach tid s1" by (rule av_reach.step [OF Cons.prems(1) av_do_step [OF av_reach_inv [OF Cons.prems(1)] s1(1)]])
  then show ?case using Cons.IH s1(2) by blast
qed simp

text \<open>An indirect value 0 forwarded to an unconstructed value 1, closure 7 waiting for values 0 and 2
  and closure 8 for value 0; then values 1 and 2 are emplaced and the waiters run.\<close>

definition demo_type :: ctype where
  "demo_type = \<lparr>ct_id = 5, ct_polymorphic = False, ct_maybe_base = False\<rparr>"

definition demo_setup :: "nat av_op list" where
  "demo_setup = [OIndirect, OUnconstructed demo_type, OUnconstructed demo_type, OReady [0, 2] 7, OAndThen 0 8,
     OAddRef 1, OForward 0 1, OEmplace 1 demo_type 42]"

definition demo_finish :: "nat av_op list" where
  "demo_finish = [ORun 3, ORun 3, ORun 3, ORun 3, ORun 3, ORun 3, OEmplace 2 demo_type 43, ORun 4, ORun 4]"

lemma DropRef_not_last:
  "h a = Some v \<Longrightarrow> mRefCount v \<noteq> 0 \<Longrightarrow> mRefCount v \<noteq> n \<Longrightarrow>
     AsyncValue_DropRef h a n = Some (h(a \<mapsto> v\<lparr>mRefCount := mRefCount v - n\<rparr>))"
  by (subst AsyncValue_DropRef.simps) simp

lemmas demo_eval = demo_setup_def demo_finish_def demo_type_def av_start_def HostContext_Construct_def
  ConcreteAsyncValue_Unconstructed_def IndirectAsyncValue_new_def AsyncValue_new_def AsyncValue_AddRef_def
  DropRef_not_last small_refs_def RunWhenReady_def RunWhenReady_scan_def IsAvailable_def IsUnavailable_def
  AndThen_def EnqueueWaiter_def RunWaiters_call_def pool_def heap_waiters_def hsum_def as_items_def item_waiters_def
  ForwardTo_def IsUnresolvedIndirect_def NotifyAvailable_def emplace_def lessThan_nat_numeral lessThan_Suc

lemma demo_setup_runs:
  "map_option (\<lambda>s. (as_runs s, as_log s, as_reg s)) (av_program 3 demo_setup av_start) =
     Some ([[], [], [], [Node (Forward 0 1)]], [], [(7, [0, 2]), (8, [0])])"
  by (simp add: demo_eval)

lemma demo_all_runs:
  "map_option (\<lambda>s. (as_log s, as_runs s, as_reg s)) (av_program 3 (demo_setup @ demo_finish) av_start) =
     Some ([8, 7], [[], [], [], [], []], [(7, [0, 2]), (8, [0])])"
  by (simp add: demo_eval)

subsection \<open>Progress and termination of RunWaiters\<close>

lemma node_progress:
  assumes inv: "av_inv s" and fit: "refs_fit (as_heap s)" and x: "x \<in># as_items s"
  shows "RunWaiters_node x s \<noteq> None"
proof (cases x)
  case (Node u)
  show ?thesis
  proof (cases u)
    case (Forward i v)
    then show ?thesis using run_Forward_call [OF inv fit, of i v] x Node by auto
  next
    case (Count d)
    then have p: "Count d \<in># pool s" using pool_item x Node by blast
    have "d < length (as_data s)" using data_okD(3) [OF av_invD(6) [OF inv]] p by (meson not_le)
    moreover have "as_data s ! d \<noteq> None" using data_okD(2) [OF av_invD(6) [OF inv] calculation] p by blast
    ultimately show ?thesis using Node Count by auto
  qed (simp add: Node)
next
  case (Done u)
  show ?thesis
  proof (cases u)
    case (Forward i v)
    then show ?thesis using run_Done_call [OF inv, of i v] x Done by auto
  qed (simp_all add: Done)
qed

definition run_step :: "'a av_sys \<Rightarrow> 'a av_sys \<Rightarrow> bool" where
  "run_step s s' \<longleftrightarrow> (\<exists>k x xs s1 new. k < length (as_runs s) \<and> as_runs s ! k = x # xs \<and> refs_fit (as_heap s) \<and>
     RunWaiters_node x s = Some (s1, new) \<and> s' = s1\<lparr>as_runs := (as_runs s)[k := new @ xs]\<rparr>)"

fun item_work :: "av_item \<Rightarrow> nat" where
  "item_work (Node w) = 2"
| "item_work (Done w) = 1"

definition av_work :: "'a av_sys \<Rightarrow> nat" where
  "av_work s = 3 * size (heap_waiters (as_heap s) (as_next s)) + (\<Sum>x\<in>#as_items s. item_work x)"

lemma item_work_Nodes [simp]: "(\<Sum>x\<in>#image_mset Node M. item_work x) = 2 * size M"
  by (induction M) auto

lemma run_step_work:
  assumes inv: "av_inv s" and st: "run_step s s'"
  shows "av_work s' < av_work s"
proof -
  obtain k x xs s1 new where k: "k < length (as_runs s)" "as_runs s ! k = x # xs" and fit: "refs_fit (as_heap s)"
    and run: "RunWaiters_node x s = Some (s1, new)" and s': "s' = s1\<lparr>as_runs := (as_runs s)[k := new @ xs]\<rparr>"
    using st by (auto simp: run_step_def)
  have "as_runs s' = (as_runs s)[k := new @ xs]" by (simp add: s')
  then obtain M0 where it: "as_items s = add_mset x M0" "as_items s' = M0 + mset new"
    using run_items [OF k] by blast
  have sel: "as_heap s' = as_heap s1" "as_next s' = as_next s1" by (simp_all add: s')
  show ?thesis
  proof (cases x)
    case (Node u)
    show ?thesis
    proof (cases "\<exists>i v. u = Forward i v")
      case True
      then obtain i v where u: "u = Forward i v" by blast
      obtain h ws where fw: "ForwardTo (as_heap s) i v = Some (h, ws)"
          "heap_waiters h (as_next s) + mset ws = heap_waiters (as_heap s) (as_next s)"
      proof -
        have "Node (Forward i v) \<in># as_items s" by (simp add: it(1) Node u)
        from run_Forward_call [OF inv fit this] show ?thesis by (elim exE conjE) (rule that, assumption+)
      qed
      then have "size (heap_waiters (as_heap s) (as_next s)) = size (heap_waiters h (as_next s)) + length ws"
        by (metis size_mset size_union)
      moreover have "s1 = s\<lparr>as_heap := h\<rparr>" "new = map Node ws @ [Done u]" using run fw(1) Node u by auto
      ultimately show ?thesis by (simp add: av_work_def it Node sel)
    next
      case False
      then have "as_heap s1 = as_heap s" "as_next s1 = as_next s" "new = [Done u]"
        using run Node by (cases u; auto split: if_splits option.splits)+
      then show ?thesis by (simp add: av_work_def it Node sel)
    qed
  next
    case (Done u)
    have "heap_waiters (as_heap s1) (as_next s1) = heap_waiters (as_heap s) (as_next s) \<and> new = []"
    proof (cases u)
      case (Forward i v)
      then show ?thesis using run_Done_call [OF inv, of i v] run it(1) Done shrinks_waiters by auto
    qed (use run Done in auto)
    then show ?thesis by (simp add: av_work_def it Done sel)
  qed
qed

subsection \<open>Available values keep their contents\<close>

definition stable :: "'a av_heap \<Rightarrow> 'a av_heap \<Rightarrow> bool" where
  "stable h h' \<longleftrightarrow> (\<forall>b v'. h' b = Some v' \<longrightarrow>
     (\<exists>v. h b = Some v \<and> (State_IsAvailable (mState v) \<longrightarrow> keeps_value v v')))"

lemma keeps_value_refl [simp]: "keeps_value v v"
  by (simp add: core_keeps)

lemma stable_refl: "stable h h"
  by (simp add: stable_def)

lemma stable_trans: "stable h h1 \<Longrightarrow> stable h1 h2 \<Longrightarrow> stable h h2"
proof -
  assume s: "stable h h1" "stable h1 h2"
  show ?thesis unfolding stable_def
  proof (intro allI impI)
    fix b v2 assume "h2 b = Some v2"
    then obtain v1 where v1: "h1 b = Some v1" "State_IsAvailable (mState v1) \<longrightarrow> keeps_value v1 v2" using s(2) unfolding stable_def by blast
    obtain v where v: "h b = Some v" "State_IsAvailable (mState v) \<longrightarrow> keeps_value v v1" using s(1) v1(1) unfolding stable_def by blast
    then show "\<exists>v. h b = Some v \<and> (State_IsAvailable (mState v) \<longrightarrow> keeps_value v v2)"
      using v1(2) keeps_valueD(2) [of v v1] keeps_value_trans [of v v1 v2] by auto
  qed
qed

lemma stable_shrinks: "shrinks h h' \<Longrightarrow> stable h h'"
  unfolding stable_def using shrinksD(1) core_keeps by blast

lemma stable_update: "h a = Some v \<Longrightarrow> \<not> State_IsAvailable (mState v) \<Longrightarrow> stable h (h(a \<mapsto> v'))"
  by (auto simp: stable_def)

lemma stable_shrinks_update:
  assumes "shrinks h h0" "h a = Some v" "\<not> State_IsAvailable (mState v)"
  shows "stable h (h0(a \<mapsto> v'))"
  unfolding stable_def
proof (intro allI impI)
  fix b w assume b: "(h0(a \<mapsto> v')) b = Some w"
  show "\<exists>u. h b = Some u \<and> (State_IsAvailable (mState u) \<longrightarrow> keeps_value u w)"
    using b assms shrinksD(1) [OF assms(1), of b w] core_keeps by (cases "b = a") auto
qed

lemma stable_location:
  assumes "h b = Some v" "mPayload v = Diag d" "location d = None"
  shows "stable h (h(b \<mapsto> v\<lparr>mPayload := Diag (d\<lparr>location := Some loc\<rparr>)\<rparr>))"
proof -
  have "v\<lparr>mPayload := Diag d\<rparr> = v" using assms(2) by (cases v) simp
  then have "core (v\<lparr>mPayload := Diag d\<rparr>) = core v" by (rule arg_cong)
  then have "keeps_value v (v\<lparr>mPayload := Diag (d\<lparr>location := Some loc\<rparr>)\<rparr>)" using assms(2,3) by (auto simp: keeps_value_def)
  then show ?thesis using assms(1) by (auto simp: stable_def)
qed

lemma stable_AndThen: "AndThen h a w = Some (h', ws) \<Longrightarrow> stable h h'"
  by (auto simp: AndThen_def EnqueueWaiter_def split: option.splits if_splits intro: stable_refl stable_update)

lemma stable_AndThen_all: "AndThen_all h as w = Some (h', ws) \<Longrightarrow> stable h h'"
proof (induction "as" arbitrary: h h' ws)
  case (Cons a as)
  then obtain h1 ws1 ws2 where "AndThen h a w = Some (h1, ws1)" "AndThen_all h1 as w = Some (h', ws2)"
    by (auto split: option.splits prod.splits)
  then show ?case using Cons.IH stable_AndThen stable_trans by blast
qed (simp add: stable_refl)

lemma stable_Notify:
  "NotifyAvailable h a st = Some (h', ws) \<Longrightarrow> stable h h'"
  by (auto simp: NotifyAvailable_def split: option.splits if_splits intro: stable_update)

lemma stable_ForwardTo:
  assumes inv: "av_inv s" and fit: "refs_fit (as_heap s)" and i: "IsUnresolvedIndirect (as_heap s) i"
    and R: "0 < outrefs s i" "0 < outrefs s v" and call: "ForwardTo (as_heap s) i v = Some (h, ws)"
  shows "stable (as_heap s) h"
proof -
  note I = av_invD [OF inv]
  obtain iv where iv: "as_heap s i = Some iv" "mKind iv = KIndirect" "\<not> State_IsAvailable (mState iv)"
    using i by (auto simp: IsUnresolvedIndirect_def split: option.splits)
  obtain vv where vv: "as_heap s v = Some vv" using rc_ok_alive [OF I(2) R(2)] by blast
  show ?thesis
  proof (cases "State_IsAvailable (mState vv)")
    case True
    obtain h0 iv' where "shrinks (as_heap s) h0" "h = h0(i \<mapsto> iv')"
      using ForwardTo_available [OF I(1,2) fit iv R(1) vv True R(2)] call by auto
    then show ?thesis using stable_shrinks_update [of "as_heap s" h0 i iv] iv by blast
  next
    case False
    obtain h0 where "shrinks (as_heap s) h0" "ForwardTo (as_heap s) i v = AndThen h0 v (Forward i v)"
      using ForwardTo_unavailable [OF I(1,2) fit iv(1,3) vv False] by blast
    then show ?thesis using call stable_AndThen stable_shrinks stable_trans by metis
  qed
qed

lemma stable_emplace: "emplace h a T x = Some (h', ws) \<Longrightarrow> stable h h'"
proof -
  assume "emplace h a T x = Some (h', ws)"
  then obtain v where v: "h a = Some v" "mState v = kUnconstructed"
      "NotifyAvailable (h(a \<mapsto> v\<lparr>mPayload := Data x\<rparr>)) a kConcrete = Some (h', ws)"
    by (auto simp: emplace_def split: option.splits if_splits)
  then show ?thesis using stable_trans [OF stable_update [of h a v "v\<lparr>mPayload := Data x\<rparr>"] stable_Notify] by simp
qed

lemma stable_node:
  assumes inv: "av_inv s" and fit: "refs_fit (as_heap s)" and x: "x \<in># as_items s"
    and run: "RunWaiters_node x s = Some (s1, new)"
  shows "stable (as_heap s) (as_heap s1)"
proof (cases x)
  case (Node u)
  show ?thesis
  proof (cases u)
    case (Forward i v)
    then obtain h ws where call: "ForwardTo (as_heap s) i v = Some (h, ws)" "s1 = s\<lparr>as_heap := h\<rparr>"
      using run Node by auto
    have p: "Forward i v \<in># pool s" using x Node Forward by (intro pool_item) simp
    have "IsUnresolvedIndirect (as_heap s) i" by (rule fwd_okD(2) [OF av_invD(4) [OF inv] p])
    then show ?thesis
      using stable_ForwardTo [OF inv fit _ outrefs_pos(2) [OF p] outrefs_pos(3) [OF p] call(1)] call(2) by simp
  qed (use run Node in \<open>auto simp: stable_refl split: if_splits option.splits\<close>)
next
  case (Done u)
  show ?thesis
  proof (cases u)
    case (Forward i v)
    then show ?thesis using run_Done_call [OF inv, of i v] run x Done stable_shrinks by auto
  qed (use run Done in \<open>auto simp: stable_refl\<close>)
qed

lemma stable_step:
  assumes inv: "av_inv s" and st: "av_step tid s s'" and a: "a < as_next s" "as_heap s' a = Some v'"
  shows "\<exists>v. as_heap s a = Some v \<and> (State_IsAvailable (mState v) \<longrightarrow> keeps_value v v')"
proof -
  note I = av_invD [OF inv]
  have use: ?thesis if "stable (as_heap s) (as_heap s')" using that a(2) by (auto simp: stable_def)
  from st show ?thesis
  proof (cases rule: av_step.cases)
    case (make v)
    then show ?thesis using a by (auto simp: HostContext_Construct_def split: if_splits)
  next
    case (addref b h)
    then have "stable (as_heap s) h"
      by (auto simp: AsyncValue_AddRef_def stable_def intro!: core_keeps split: option.splits if_splits)
    then show ?thesis using addref by (intro use) simp
  next
    case (dropref b h)
    obtain v where v: "as_heap s b = Some v" using rc_ok_alive [OF I(2) outrefs_pos(1) [OF dropref(2)]] by blast
    have "shrinks (as_heap s) h"
      using DropRef_ok [OF I(1,2) v outrefs_pos(1) [OF dropref(2)] DropRef_Some_waiters [OF dropref(3) v]] dropref(3) by auto
    then show ?thesis using dropref stable_shrinks by (intro use) simp
  next
    case (andthen b w h ws)
    then show ?thesis using stable_AndThen by (intro use) simp
  next
    case (ready vs w seen s1)
    then have "stable (as_heap s) (as_heap s1)"
      by (auto simp: RunWhenReady_def stable_refl split: list.splits intro: stable_AndThen stable_AndThen_all simp del: AndThen_all.simps)
    then show ?thesis using ready by (intro use) simp
  next
    case (emplace b T x h ws)
    then show ?thesis using stable_emplace by (intro use) simp
  next
    case (setconcrete b h ws)
    then show ?thesis using stable_Notify by (intro use) (auto simp: SetStateConcrete_def split: option.splits if_splits)
  next
    case (setlocation b loc h)
    then have "stable (as_heap s) h"
      using SetErrorLocation_cases [OF I(1) setlocation(3)] stable_location stable_refl by metis
    then show ?thesis using setlocation by (intro use) simp
  next
    case (seterror b d h ws)
    obtain v where v: "as_heap s b = Some v" "\<not> State_IsAvailable (mState v)"
      using seterror(5) by (auto simp: SetError_def split: option.splits if_splits)
    show ?thesis
    proof (cases "mKind v = KConcrete")
      case True
      then have "NotifyAvailable ((as_heap s)(b \<mapsto> v\<lparr>mPayload := Diag d\<rparr>)) b kError = Some (h, ws)"
        using seterror(5) v by (simp add: SetError_def)
      then have "stable (as_heap s) h"
        using stable_trans [OF stable_update [of "as_heap s" b v "v\<lparr>mPayload := Diag d\<rparr>"] stable_Notify] v by blast
      then show ?thesis using seterror by (intro use) simp
    next
      case False
      let ?e = "ConcreteAsyncValue_Error (DummyType tid) d :: 'a AsyncValue"
      let ?s1 = "HostContext_Construct ?e s"
      have fresh: "fresh_value tid ?e" by (auto simp: fresh_value_def)
      note inv1 = inv_make [OF inv fresh]
      have h1: "as_heap ?s1 = (as_heap s)(as_next s \<mapsto> ?e)" "as_ext ?s1 = (as_ext s)(as_next s := 1)"
        by (simp_all add: HostContext_Construct_def)
      have dead: "as_heap s (as_next s) = None" using I(1) unfolding heap_ok_def by (metis less_irrefl not_None_eq)
      then have bn: "b \<noteq> as_next s" using v by auto
      have "IsUnresolvedIndirect (as_heap ?s1) b"
        using v False bn by (cases "mKind v") (simp_all add: IsUnresolvedIndirect_def h1)
      moreover have "refs_fit (as_heap ?s1)"
      proof -
        have "(1 :: u32) \<noteq> - 1" by simp
        then show ?thesis using seterror(3) fresh_valueD(1) [OF fresh] by (simp add: refs_fit_def h1)
      qed
      moreover have "0 < outrefs ?s1 b" "0 < outrefs ?s1 (as_next s)"
        using seterror(2) bn by (auto intro!: outrefs_pos(1) simp: h1)
      moreover have "ForwardTo (as_heap ?s1) b (as_next s) = Some (h, ws)"
        using seterror(5) v False by (simp add: SetError_def h1)
      ultimately have "stable (as_heap ?s1) h" using stable_ForwardTo [OF inv1] by blast
      moreover have "h a = Some v'" using a(2) seterror(1) by simp
      ultimately show ?thesis using a(1) unfolding stable_def h1 by (metis fun_upd_other less_irrefl)
    qed
  next
    case (forward i v h ws)
    then show ?thesis using stable_ForwardTo [OF inv forward(4,5) outrefs_pos(1) outrefs_pos(1)] by (intro use) simp
  next
    case (run k x xs s1 new)
    have "x \<in># as_items s" using run(2,3) unfolding as_items_def
      by (metis in_set_conv_nth in_multiset_in_set list.set_intros(1) set_concat UN_I)
    then show ?thesis using stable_node [OF inv run(4) _ run(5)] run(1) by (intro use) simp
  qed
qed

subsection \<open>Reading resolved values\<close>

lemma GetConcreteValue_core: "core v' = core v \<Longrightarrow> GetConcreteValue T v' = GetConcreteValue T v"
  using core_eqD [of v' v] by (simp add: GetConcreteValue_def IsTypeIdCompatible_def)

lemma concrete_error_core: "core v' = core v \<Longrightarrow> concrete_error v' = concrete_error v"
  using core_eqD [of v' v] by (simp add: concrete_error_def)

lemma get_concrete:
  "h a = Some v \<Longrightarrow> mKind v = KConcrete \<Longrightarrow> get_value h a T =
     (if mState v = kConstructed \<or> mState v = kConcrete then GetConcreteValue T v else None)"
  by (subst get_value.simps) simp

lemma get_indirect:
  "h a = Some v \<Longrightarrow> mKind v = KIndirect \<Longrightarrow> mValue v = Some c \<Longrightarrow> get_value h a T =
     (if mState v = kConcrete then get_value h c T else None)"
  by (subst get_value.simps) simp

text \<open>Reading through a resolved indirect value is reading the value it points to.\<close>

lemma read_indirect:
  assumes ok: "heap_ok h n" and a: "h a = Some v" "mKind v = KIndirect" "mValue v = Some c"
  obtains cv where "h c = Some cv" "mKind cv = KConcrete" "mState cv = mState v" "State_IsAvailable (mState v)"
    "get_value h a T = get_value h c T" "GetErrorIfPresent h a = GetErrorIfPresent h c"
proof -
  have vo: "val_ok h v" using ok a by (auto simp: heap_ok_def)
  then obtain cv where cv: "h c = Some cv" "mKind cv = KConcrete" "mState cv = mState v" "State_IsAvailable (mState v)"
    using a by (auto simp: val_ok_def)
  have "get_value h a T = get_value h c T"
    using get_indirect [of h a v, OF a] get_concrete [of h c cv T, OF cv(1,2)] cv(3,4) by (cases "mState v") simp_all
  moreover have "GetErrorIfPresent h a = GetErrorIfPresent h c" using a cv by (simp add: GetErrorIfPresent_def)
  ultimately show ?thesis using cv that by blast
qed

text \<open>What GetErrorIfPresent answers, and answers later.\<close>

definition error_kept :: "DecodedDiagnostic option option \<Rightarrow> DecodedDiagnostic option option \<Rightarrow> bool" where
  "error_kept e e' \<longleftrightarrow> e' = e \<or> (\<exists>d loc. e = Some (Some d) \<and> location d = None \<and> e' = Some (Some (d\<lparr>location := Some loc\<rparr>)))"

lemma keeps_reads:
  assumes "keeps_value v v'"
  shows "mState v = kConstructed \<or> mState v = kConcrete \<Longrightarrow> (\<exists>x. mPayload v = Data x) \<Longrightarrow> GetConcreteValue T v' = GetConcreteValue T v"
    "error_kept (concrete_error v) (concrete_error v')"
  using keeps_valueD [OF assms] by (auto simp: GetConcreteValue_def IsTypeIdCompatible_def concrete_error_def error_kept_def split: payload.splits)

lemma reads_concrete:
  assumes "heap_ok h n" "h a = Some v" "h' a = Some v'" "mKind v = KConcrete" "keeps_value v v'"
  shows "get_value h' a T = get_value h a T \<and> error_kept (GetErrorIfPresent h a) (GetErrorIfPresent h' a)"
proof -
  have k: "mKind v' = KConcrete" "mState v' = mState v" using keeps_valueD [OF assms(5)] assms(4) by simp_all
  have "val_ok h v" using assms(1,2) by (auto simp: heap_ok_def)
  then have "mState v = kConstructed \<or> mState v = kConcrete \<Longrightarrow> \<exists>x. mPayload v = Data x" using assms(4) by (auto simp: val_ok_def)
  then show ?thesis
    using get_concrete [of h a v T, OF assms(2,4)] get_concrete [of h' a v' T, OF assms(3) k(1)] keeps_reads [OF assms(5)] assms(2-4) k
    by (simp add: GetErrorIfPresent_def)
qed

lemma reads_kept:
  assumes ok: "heap_ok h n" "heap_ok h' n'" and a: "h a = Some v" "h' a = Some v'" "keeps_value v v'" "State_IsAvailable (mState v)"
    and st: "\<And>c w w'. h c = Some w \<Longrightarrow> h' c = Some w' \<Longrightarrow> State_IsAvailable (mState w) \<Longrightarrow> keeps_value w w'"
  shows "get_value h' a T = get_value h a T \<and> error_kept (GetErrorIfPresent h a) (GetErrorIfPresent h' a)"
proof (cases "mKind v")
  case KConcrete
  then show ?thesis using reads_concrete [of h n a v h' v' T] ok(1) a(1-3) by blast
next
  case KIndirect
  have vo: "val_ok h v" using ok(1) a(1) by (auto simp: heap_ok_def)
  then obtain c where c: "mValue v = Some c" using KIndirect a(4) by (auto simp: val_ok_def)
  obtain cv where cv: "h c = Some cv" "mKind cv = KConcrete" "mState cv = mState v"
    "get_value h a T = get_value h c T" "GetErrorIfPresent h a = GetErrorIfPresent h c"
    by (rule read_indirect [OF ok(1) a(1) KIndirect c])
  have v': "mKind v' = KIndirect" "mValue v' = Some c" using keeps_valueD [OF a(3)] KIndirect c by simp_all
  obtain cv' where cv': "h' c = Some cv'"
    "get_value h' a T = get_value h' c T" "GetErrorIfPresent h' a = GetErrorIfPresent h' c"
    by (rule read_indirect [OF ok(2) a(2) v'])
  have "keeps_value cv cv'" using st [OF cv(1) cv'(1)] cv(3) a(4) by simp
  then show ?thesis using reads_concrete [of h n c cv h' cv' T] ok(1) cv cv' by simp
qed

lemma forward_reads:
  assumes ok: "heap_ok h n" and rc: "rc_ok h n R" and fit: "refs_fit h"
    and i: "IsUnresolvedIndirect h i" "0 < R i" and v: "IsAvailable h v" "0 < R v"
    and call: "ForwardTo h i v = Some (h', ws)"
  shows "get_value h' i T = get_value h v T \<and> GetErrorIfPresent h' i = GetErrorIfPresent h v \<and> IsAvailable h' i"
proof -
  obtain iv where iv: "h i = Some iv" "mKind iv = KIndirect" "\<not> State_IsAvailable (mState iv)"
    using i(1) by (auto simp: IsUnresolvedIndirect_def split: option.splits)
  obtain vv where vv: "h v = Some vv" "State_IsAvailable (mState vv)"
    using v(1) by (auto simp: IsAvailable_def split: option.splits)
  obtain h0 iv' c where fw: "heap_ok h' n" "shrinks h h0" "h' = h0(i \<mapsto> iv')" "mKind iv' = KIndirect" "mState iv' = mState vv"
      "mValue iv' = Some c" "c = (if mKind vv = KIndirect then the (mValue vv) else v)"
    using ForwardTo_available [OF ok rc fit iv i(2) vv v(2)] call by auto
  have "h' i = Some iv'" by (simp add: fw(3))
  then obtain cv' where cv': "h' c = Some cv'" "mKind cv' = KConcrete"
      "get_value h' i T = get_value h' c T" "GetErrorIfPresent h' i = GetErrorIfPresent h' c"
    using read_indirect [OF fw(1) _ fw(4,6)] by metis
  have ic: "c \<noteq> i" using cv' \<open>h' i = Some iv'\<close> fw(4) by auto
  then have "h0 c = Some cv'" using cv'(1) by (simp add: fw(3))
  then obtain cv where cv: "h c = Some cv" "core cv' = core cv" using shrinksD(1) [OF fw(2)] by blast
  have "get_value h' c T = get_value h c T \<and> GetErrorIfPresent h' c = GetErrorIfPresent h c"
    using get_concrete [of h' c cv' T, OF cv'(1,2)] get_concrete [of h c cv T, OF cv(1)] core_eqD [OF cv(2)] cv(1) cv'(1,2)
      GetConcreteValue_core [OF cv(2)] concrete_error_core [OF cv(2)] by (simp add: GetErrorIfPresent_def)
  moreover have "get_value h v T = get_value h c T \<and> GetErrorIfPresent h v = GetErrorIfPresent h c"
  proof (cases "mKind vv")
    case KConcrete
    then show ?thesis using fw(7) by simp
  next
    case KIndirect
    have "val_ok h vv" using ok vv by (auto simp: heap_ok_def)
    then have "mValue vv = Some c" using KIndirect vv(2) fw(7) by (auto simp: val_ok_def)
    then show ?thesis using read_indirect [OF ok vv(1) KIndirect] by metis
  qed
  moreover have "IsAvailable h' i" using vv(2) fw(5) by (simp add: fw(3) IsAvailable_def)
  ultimately show ?thesis using cv' by simp
qed

subsection \<open>Properties\<close>

lemma demo_reach:
  assumes "av_program 3 ps av_start = Some s"
  shows "av_reach 3 s"
  by (rule av_program_reach [OF av_reach.start assms])

text \<open>
  C15. Memory safety of async values: in every reachable state the reference
  count of a live value is positive and equals the number of references that clients, forwarding
  closures and forwarding values hold to it, and nothing refers to a destroyed value.
\<close>

theorem AsyncValue_refcount_exact:
  assumes "av_reach tid s"
  shows "(\<forall>a v. as_heap s a = Some v \<longrightarrow> mRefCount v \<noteq> 0 \<and>
        unat (mRefCount v) = as_ext s a + (\<Sum>w\<in>#pool s. wref a w) + (\<Sum>x\<in>#as_items s. dref a x) + mrefs (as_heap s) (as_next s) a) \<and>
    (\<forall>a. as_heap s a = None \<longrightarrow> as_ext s a = 0 \<and> (\<forall>i. Forward a i \<notin># pool s \<and> Forward i a \<notin># pool s) \<and>
        (\<forall>b v. as_heap s b = Some v \<longrightarrow> mValue v \<noteq> Some a))"
proof -
  note I = av_invD [OF av_reach_inv [OF assms]]
  have live: "mRefCount v \<noteq> 0 \<and> unat (mRefCount v) = outrefs s a + mrefs (as_heap s) (as_next s) a" if "as_heap s a = Some v" for a v
    using rc_ok_Some [OF I(2) that] by simp
  have dead: "as_ext s a = 0 \<and> (\<forall>i. Forward a i \<notin># pool s \<and> Forward i a \<notin># pool s) \<and>
      (\<forall>b v. as_heap s b = Some v \<longrightarrow> mValue v \<noteq> Some a)" if a: "as_heap s a = None" for a
  proof (intro conjI allI impI)
    note n = rc_ok_None [OF I(2) a]
    show "as_ext s a = 0" using n(1) by (simp add: outrefs_def)
    show "Forward a i \<notin># pool s" "Forward i a \<notin># pool s" for i
      using outrefs_pos(2) [of a i s] outrefs_pos(3) [of i a s] n(1) by auto
    show "mValue v \<noteq> Some a" if b: "as_heap s b = Some v" for b v
    proof -
      have "b < as_next s" using I(1) b by (auto simp: heap_ok_def)
      then show ?thesis using mrefs_ge [of b "as_next s" "as_heap s" v a] b n(2) by auto
    qed
  qed
  show ?thesis using live dead by (simp add: outrefs_def)
qed

theorem AsyncValue_refcount_exact_witness:
  "\<exists>s v. av_program 3 demo_setup av_start = Some s \<and> as_heap s 1 = Some v \<and> mRefCount v \<noteq> 0"
proof -
  have "map_option (\<lambda>s. as_heap s 1 = None) (av_program 3 demo_setup av_start) = Some False"
    by (simp add: demo_eval)
  then obtain s v where s: "av_program 3 demo_setup av_start = Some s" "as_heap s 1 = Some v" by auto
  then show ?thesis using AsyncValue_refcount_exact [OF demo_reach [OF s(1)]] by auto
qed

lemma called_available:
  assumes inv: "av_inv s" and w: "(w, vs) \<in> set (as_reg s)" "w \<in> set (as_log s)" "a \<in> set vs"
  shows "\<not> IsUnavailable (as_heap s) a"
proof -
  note I = av_invD [OF inv]
  note one = client_okD(2) [OF I(5)]
  show ?thesis
  proof
    assume "IsUnavailable (as_heap s) a"
    then have "waiting (as_heap s) (as_data s) w a" using I(7) w by (auto simp: wait_ok_def)
    then have "Client w \<in># pool s \<or> (\<exists>d c. d < length (as_data s) \<and> as_data s ! d = Some (c, w))"
      unfolding waiting_def using pool_heap [OF I(1)] by blast
    then have "1 \<le> count (pool s) (Client w) + blocks (as_data s) w"
    proof
      assume "\<exists>d c. d < length (as_data s) \<and> as_data s ! d = Some (c, w)"
      then obtain d c where "d < length (as_data s)" "as_data s ! d = Some (c, w)" by blast
      then have "Some (c, w) \<in> set (as_data s)" by (metis nth_mem)
      then have "filter (\<lambda>d. map_option snd d = Some w) (as_data s) \<noteq> []"
        by (auto simp: filter_empty_conv)
      then show ?thesis by (simp add: blocks_def Suc_le_eq)
    qed (simp add: count_greater_eq_one_iff trans_le_add1)
    moreover have "1 \<le> count_list (as_log s) w" using w by (simp add: count_list_0_iff Suc_le_eq neq0_conv [symmetric])
    ultimately show False using one [of w] by (cases "w \<in> fst ` set (as_reg s)") auto
  qed
qed

lemma idle_waiters_ran:
  assumes "av_inv s" "\<forall>xs \<in> set (as_runs s). xs = []"
    and "(w, vs) \<in> set (as_reg s)" "\<forall>a \<in> set vs. \<not> IsUnavailable (as_heap s) a"
  shows "count_list (as_log s) w = 1"
proof -
  note I = av_invD [OF assms(1)]
  have idle: "as_items s = {#}" using assms(2) by (simp add: as_items_def concat_eq_Nil_conv)
  have own: "vs' = vs" if "(w, vs') \<in> set (as_reg s)" for vs'
    using client_okD(1) [OF I(5)] that assms(3) by (meson eq_key_imp_eq_value)
  have nowhere: "\<not> (as_heap s a = Some v \<and> u \<in> set (mWaiters v))" if "\<exists>us. (w, us) \<in> set (as_reg s) \<and> a \<in> set us" for a v u
  proof
    assume av: "as_heap s a = Some v \<and> u \<in> set (mWaiters v)"
    have "val_ok (as_heap s) v" using I(1) av by (auto simp: heap_ok_def)
    then have "\<not> State_IsAvailable (mState v)" using av by (auto simp: val_ok_def)
    then have "IsUnavailable (as_heap s) a" using av by (simp add: IsUnavailable_def)
    then show False using that own assms(4) by blast
  qed
  have mem: "\<exists>a v. as_heap s a = Some v \<and> u \<in> set (mWaiters v)" if "u \<in># pool s" for u
    using that by (auto simp: pool_def idle heap_waiters_def hsum_def set_mset_sum split: option.splits)
  have "Client w \<notin># pool s"
    using mem nowhere I(8) unfolding home_ok_def by blast
  moreover have "blocks (as_data s) w = 0"
  proof -
    have "\<not> (\<exists>c. as_data s ! d = Some (c, w))" if d: "d < length (as_data s)" for d
    proof
      assume "\<exists>c. as_data s ! d = Some (c, w)"
      then obtain c where c: "as_data s ! d = Some (c, w)" by blast
      have "c \<noteq> 0 \<and> unat c = count (pool s) (Count d)" by (rule data_okD(1) [OF I(6) d c])
      then have "Count d \<in># pool s" by (metis not_in_iff unat_eq_zero)
      then show False using mem nowhere I(8) d c unfolding home_ok_def by blast
    qed
    then show ?thesis by (auto simp: blocks_def filter_empty_conv in_set_conv_nth)
  qed
  moreover have "w \<in> fst ` set (as_reg s)" using assms(3) by force
  ultimately show ?thesis using client_okD(2) [OF I(5), of w] by (simp add: not_in_iff)
qed

text \<open>
  C16. No closure runs twice, only registered closures run, and a closure
  registered with AndThen or RunWhenReady runs only when all the values it waits for are available
  (or destroyed).
\<close>

theorem AsyncValue_waiters_run_once:
  assumes "av_reach tid s"
  shows "distinct (as_log s) \<and> set (as_log s) \<subseteq> fst ` set (as_reg s) \<and>
    (\<forall>w vs a. (w, vs) \<in> set (as_reg s) \<and> w \<in> set (as_log s) \<and> a \<in> set vs \<longrightarrow> \<not> IsUnavailable (as_heap s) a)"
proof (intro conjI allI impI)
  note I = av_invD [OF av_reach_inv [OF assms]]
  note one = client_okD(2) [OF I(5)]
  have "count_list (as_log s) w \<le> 1" for w using one [of w] by (cases "w \<in> fst ` set (as_reg s)") auto
  then show "distinct (as_log s)" by (rule distinct_count_list)
  show "set (as_log s) \<subseteq> fst ` set (as_reg s)"
  proof
    fix w assume "w \<in> set (as_log s)"
    then have "count_list (as_log s) w \<noteq> 0" by (simp add: count_list_0_iff)
    then show "w \<in> fst ` set (as_reg s)" using one [of w] by (cases "w \<in> fst ` set (as_reg s)") auto
  qed
  show "\<not> IsUnavailable (as_heap s) a" if "(w, vs) \<in> set (as_reg s) \<and> w \<in> set (as_log s) \<and> a \<in> set vs" for w vs a
    using called_available [OF av_reach_inv [OF assms]] that by blast
qed

theorem AsyncValue_waiters_run_once_witness:
  "\<exists>s. av_program 3 demo_setup av_start = Some s \<and> (7, [0, 2]) \<in> set (as_reg s) \<and> distinct (as_log s)"
proof -
  obtain s where s: "av_program 3 demo_setup av_start = Some s" "as_reg s = [(7, [0, 2]), (8, [0])]"
    using demo_setup_runs by auto
  then show ?thesis using AsyncValue_waiters_run_once [OF demo_reach [OF s(1)]] by auto
qed

text \<open>
  C17. When no call of RunWaiters has work left, every closure whose values
  are all available or destroyed has run: a resolved value never keeps a waiter.
\<close>

theorem AsyncValue_waiters_all_run:
  assumes "av_reach tid s" "\<forall>xs \<in> set (as_runs s). xs = []"
    and "(w, vs) \<in> set (as_reg s)" "\<forall>a \<in> set vs. \<not> IsUnavailable (as_heap s) a"
  shows "count_list (as_log s) w = 1"
  using idle_waiters_ran [OF av_reach_inv [OF assms(1)] assms(2-4)] .

theorem AsyncValue_waiters_all_run_witness:
  "\<exists>s. av_program 3 (demo_setup @ demo_finish) av_start = Some s \<and> \<not> IsUnavailable (as_heap s) 0 \<and> count_list (as_log s) 8 = 1"
proof -
  obtain s where s: "av_program 3 (demo_setup @ demo_finish) av_start = Some s" "as_runs s = [[], [], [], [], []]"
      "as_reg s = [(7, [0, 2]), (8, [0])]" "as_log s = [8, 7]"
    using demo_all_runs by auto
  have r: "av_reach 3 s" by (rule demo_reach [OF s(1)])
  have "map_option (\<lambda>s. IsUnavailable (as_heap s) 0) (av_program 3 (demo_setup @ demo_finish) av_start) = Some False"
    by (simp add: demo_eval)
  then have "\<not> IsUnavailable (as_heap s) 0" using s(1) by simp
  then show ?thesis using AsyncValue_waiters_all_run [OF r, of 8 "[0]"] s by auto
qed

text \<open>
  C18. RunWaiters never fails: every node that it reaches can be called
  or destroyed without a failed assert or an access to a destroyed value, and without further client
  calls all calls of RunWaiters end.
\<close>

theorem AsyncValue_RunWaiters_progress:
  assumes "av_reach tid s"
  shows "(refs_fit (as_heap s) \<longrightarrow> (\<forall>x \<in># as_items s. RunWaiters_node x s \<noteq> None)) \<and>
    wf {(s'', s'). av_reach tid s' \<and> run_step s' s''}"
proof -
  have "{(s'', s'). av_reach tid s' \<and> run_step s' s''} \<subseteq> measure av_work"
    using run_step_work [OF av_reach_inv] by auto
  then have "wf {(s'', s'). av_reach tid s' \<and> run_step s' s''}" by (rule wf_subset [OF wf_measure])
  then show ?thesis using node_progress [OF av_reach_inv [OF assms]] by blast
qed

theorem AsyncValue_RunWaiters_progress_witness:
  "\<exists>s. av_program 3 demo_setup av_start = Some s \<and> RunWaiters_node (Node (Forward 0 1)) s \<noteq> None"
proof -
  obtain s where s: "av_program 3 demo_setup av_start = Some s" "as_runs s = [[], [], [], [Node (Forward 0 1)]]"
    using demo_setup_runs by auto
  have "map_option small_refs (av_program 3 demo_setup av_start) = Some True" by (simp add: demo_eval)
  then have "small_refs s" using s(1) by simp
  then have "refs_fit (as_heap s)" by (rule small_refs_fit [OF av_reach_inv [OF demo_reach [OF s(1)]]])
  moreover have "Node (Forward 0 1) \<in># as_items s" by (simp add: as_items_def s(2))
  ultimately show ?thesis using AsyncValue_RunWaiters_progress [OF demo_reach [OF s(1)]] s(1) by blast
qed



lemma emplace_reads:
  assumes "emplace h0 a T x = Some (h, ws)" "ct_polymorphic T = mHasVtable (the (h0 a))"
  shows "get_value h a T = Some x" "GetErrorIfPresent h a = Some None"
proof -
  from assms(1) obtain v where v: "h0 a = Some v" "mKind v = KConcrete" "ct_id T = mTypeId v"
      "h = h0(a \<mapsto> v\<lparr>mPayload := Data x, mWaiters := [], mState := kConcrete\<rparr>)"
    by (auto simp: emplace_def NotifyAvailable_def split: option.splits if_splits)
  have ha: "h a = Some (v\<lparr>mPayload := Data x, mWaiters := [], mState := kConcrete\<rparr>)" by (simp add: v(4))
  show "get_value h a T = Some x"
    using get_concrete [of h a _ T, OF ha] v assms(2) by (simp add: GetConcreteValue_def IsTypeIdCompatible_def)
  show "GetErrorIfPresent h a = Some None" using ha v by (simp add: GetErrorIfPresent_def concrete_error_def)
qed

lemma SetError_reads_concrete:
  assumes "SetError tid h0 a d n = Some (h, ws)" "h0 a = Some v" "mKind v = KConcrete"
  shows "GetErrorIfPresent h a = Some (Some d)" "get_value h a T = None"
proof -
  have "h = h0(a \<mapsto> v\<lparr>mPayload := Diag d, mWaiters := [], mState := kError\<rparr>)"
    using assms by (auto simp: SetError_def NotifyAvailable_def split: if_splits)
  then have ha: "h a = Some (v\<lparr>mPayload := Diag d, mWaiters := [], mState := kError\<rparr>)" by simp
  show "GetErrorIfPresent h a = Some (Some d)" "get_value h a T = None"
    using get_concrete [of h a _ T, OF ha] ha assms(3) by (simp_all add: GetErrorIfPresent_def concrete_error_def)
qed

lemma SetError_reads_indirect:
  fixes s :: "'a av_sys"
  assumes "av_inv s" "0 < as_ext s a" "refs_fit (as_heap s)"
    and e: "SetError tid (as_heap s) a d (as_next s) = Some (h, ws)"
    and v: "as_heap s a = Some v" "\<not> State_IsAvailable (mState v)" "mKind v = KIndirect"
  shows "GetErrorIfPresent h a = Some (Some d) \<and> get_value h a T = None"
proof -
  let ?e = "ConcreteAsyncValue_Error (DummyType tid) d :: 'a AsyncValue"
  let ?s1 = "HostContext_Construct ?e s"
  have fresh: "fresh_value tid ?e" by (auto simp: fresh_value_def)
  note I = av_invD [OF assms(1)] and I1 = av_invD [OF inv_make [OF assms(1) fresh]]
  have h1: "as_heap ?s1 = (as_heap s)(as_next s \<mapsto> ?e)" "as_ext ?s1 = (as_ext s)(as_next s := 1)" "as_next ?s1 = Suc (as_next s)"
    by (simp_all add: HostContext_Construct_def)
  have bn: "a \<noteq> as_next s" using I(1) v(1) unfolding heap_ok_def by (metis less_irrefl)
  have "(1 :: u32) \<noteq> - 1" by simp
  then have fit: "refs_fit (as_heap ?s1)"
    using assms(3) fresh_valueD(1) [OF fresh] by (simp add: refs_fit_def h1)
  have en: "as_heap ?s1 (as_next s) = Some ?e" "mKind ?e = KConcrete" "mState ?e = kError" "mPayload ?e = Diag d"
    by (simp_all only: h1 fun_upd_same) (simp_all add: ConcreteAsyncValue_Error_def AsyncValue_new_def)
  have "get_value h a T = get_value (as_heap ?s1) (as_next s) T \<and>
      GetErrorIfPresent h a = GetErrorIfPresent (as_heap ?s1) (as_next s) \<and> IsAvailable h a"
  proof (rule forward_reads [OF I1(1,2) fit])
    show "IsUnresolvedIndirect (as_heap ?s1) a" using v bn by (simp add: IsUnresolvedIndirect_def h1)
    show "IsAvailable (as_heap ?s1) (as_next s)" using en by (simp add: IsAvailable_def)
    show "0 < outrefs ?s1 a" "0 < outrefs ?s1 (as_next s)" using assms(2) bn by (auto intro!: outrefs_pos(1) simp: h1)
    show "ForwardTo (as_heap ?s1) a (as_next s) = Some (h, ws)" using e v by (simp add: SetError_def h1)
  qed
  then show ?thesis using get_concrete [of "as_heap ?s1" "as_next s" ?e T, OF en(1,2)] en by (simp add: GetErrorIfPresent_def concrete_error_def)
qed

text \<open>
  Round trips: after emplace, get returns the emplaced value; after
  SetError, on a concrete or on an unforwarded indirect value, GetError returns the diagnostic; after
  ForwardTo to an available value, direct or itself forwarded, both readers answer as for that value.
\<close>

theorem AsyncValue_resolve_reads:
  assumes "av_reach tid s" "0 < as_ext s a" "refs_fit (as_heap s)"
  shows "(\<forall>T x h ws. emplace (as_heap s) a T x = Some (h, ws) \<and> ct_polymorphic T = mHasVtable (the (as_heap s a)) \<longrightarrow>
        get_value h a T = Some x \<and> GetErrorIfPresent h a = Some None) \<and>
    (\<forall>d h ws. SetError tid (as_heap s) a d (as_next s) = Some (h, ws) \<longrightarrow> GetError h a = Some d \<and> get_value h a T = None) \<and>
    (\<forall>v h ws. IsUnresolvedIndirect (as_heap s) a \<and> 0 < as_ext s v \<and> IsAvailable (as_heap s) v \<and>
        ForwardTo (as_heap s) a v = Some (h, ws) \<longrightarrow>
        get_value h a T = get_value (as_heap s) v T \<and> GetErrorIfPresent h a = GetErrorIfPresent (as_heap s) v)"
proof (intro conjI allI impI; (elim conjE)?)
  have inv: "av_inv s" by (rule av_reach_inv [OF assms(1)])
  {
    fix T x h ws assume "emplace (as_heap s) a T x = Some (h, ws)" "ct_polymorphic T = mHasVtable (the (as_heap s a))"
    then show "get_value h a T = Some x" "GetErrorIfPresent h a = Some None" by (rule emplace_reads)+
  next
    fix d h ws assume e: "SetError tid (as_heap s) a d (as_next s) = Some (h, ws)"
    obtain v where v: "as_heap s a = Some v" "\<not> State_IsAvailable (mState v)"
      using e by (auto simp: SetError_def split: option.splits if_splits)
    have "GetErrorIfPresent h a = Some (Some d) \<and> get_value h a T = None"
      using SetError_reads_concrete [OF e v(1)] SetError_reads_indirect [OF inv assms(2,3) e v] by (cases "mKind v") auto
    then show "GetError h a = Some d" "get_value h a T = None" by (simp_all add: GetError_def)
  next
    fix v h ws assume f: "IsUnresolvedIndirect (as_heap s) a" "0 < as_ext s v" "IsAvailable (as_heap s) v"
      "ForwardTo (as_heap s) a v = Some (h, ws)"
    note fr = forward_reads [OF av_invD(1,2) [OF inv] assms(3) f(1) outrefs_pos(1) [OF assms(2)] f(3) outrefs_pos(1) [OF f(2)] f(4), of T]
    show "get_value h a T = get_value (as_heap s) v T" "GetErrorIfPresent h a = GetErrorIfPresent (as_heap s) v"
      using fr by simp_all
  }
qed

theorem AsyncValue_resolve_reads_witness:
  "\<exists>s h ws. av_program 3 (take 7 demo_setup) av_start = Some s \<and> emplace (as_heap s) 1 demo_type 42 = Some (h, ws) \<and>
     get_value h 1 demo_type = Some 42"
proof -
  have "map_option (\<lambda>s. (0 < as_ext s 1, small_refs s, map_option snd (emplace (as_heap s) 1 demo_type 42),
        map_option mHasVtable (as_heap s 1))) (av_program 3 (take 7 demo_setup) av_start) = Some (True, True, Some [Forward 0 1], Some False)"
    by (simp add: demo_eval)
  then obtain s h ws where s: "av_program 3 (take 7 demo_setup) av_start = Some s" "0 < as_ext s 1" "small_refs s"
      "emplace (as_heap s) 1 demo_type 42 = Some (h, ws)" "mHasVtable (the (as_heap s 1)) = False"
    by auto
  have r: "av_reach 3 s" by (rule demo_reach [OF s(1)])
  have "ct_polymorphic demo_type = mHasVtable (the (as_heap s 1))" using s(5) by (simp add: demo_type_def)
  then show ?thesis
    using AsyncValue_resolve_reads [OF r s(2) small_refs_fit [OF av_reach_inv [OF r] s(3)]] s(1,4) by blast
qed

end
