(* ===== verification/Coroutine_Pool.thy ===== *)
theory Coroutine_Pool
  imports Work_Stealing
begin

text \<open>
  The queues and the thread pool of the coroutine library: CoroutineTaskDeque
  (\<^verbatim>\<open>src/async/coroutine/coroutine_task_deque.h\<close> and \<^verbatim>\<open>.cpp\<close>), CoroutineTaskQueue
  (\<^verbatim>\<open>coroutine_task_queue.h\<close>, \<^verbatim>\<open>.cpp\<close>) and CoroutineThreadPool (\<^verbatim>\<open>coroutine_thread_pool.h\<close>,
  \<^verbatim>\<open>.cpp\<close>). The queues hold raw pointers to ScheduleOperation: a pop copies the pointer and leaves it
  in the slot, where TaskDeque and TaskQueue move the task out. The locale \<open>queue_erasure\<close> states
  that forgetting the stale pointers turns one implementation into the other, and both pairs of
  queues are instances; so everything proved of TaskDeque and TaskQueue holds of them.
\<close>

subsection \<open>CoroutineTaskDeque\<close>

record 'a ctd_elem =
  ctde_state :: u8
  ctde_task :: "'a option"

record 'a CoroutineTaskDeque =
  ctd_mFront :: u32
  ctd_mBack :: u32
  ctd_mArray :: "nat \<Rightarrow> 'a ctd_elem"

definition ctd_kCapacity :: u32 where "ctd_kCapacity = 1024"
definition ctd_kIncrement :: u32 where "ctd_kIncrement = push_bit 1 ctd_kCapacity + 1"
definition ctd_kMask :: u32 where "ctd_kMask = ctd_kCapacity - 1"
definition ctd_kMask2 :: u32 where "ctd_kMask2 = push_bit 1 ctd_kCapacity - 1"
definition ctd_kEmpty :: u8 where "ctd_kEmpty = 0"
definition ctd_kBusy :: u8 where "ctd_kBusy = 1"
definition ctd_kReady :: u8 where "ctd_kReady = 2"

definition ctd_at :: "u32 \<Rightarrow> nat" where
  "ctd_at pos = unat (pos AND ctd_kMask)"

text \<open>The task pointers of a new deque are not initialised; \<open>None\<close> stands for them.\<close>

definition CoroutineTaskDeque_new :: "'a CoroutineTaskDeque" where
  "CoroutineTaskDeque_new = \<lparr>ctd_mFront = 0, ctd_mBack = 0,
     ctd_mArray = (\<lambda>i. \<lparr>ctde_state = ctd_kEmpty, ctde_task = None\<rparr>)\<rparr>"

definition ctd_set_state :: "nat \<Rightarrow> u8 \<Rightarrow> 'a CoroutineTaskDeque \<Rightarrow> 'a CoroutineTaskDeque" where
  "ctd_set_state j s q = q\<lparr>ctd_mArray := (ctd_mArray q)(j := (ctd_mArray q j)\<lparr>ctde_state := s\<rparr>)\<rparr>"

definition ctd_set_task :: "nat \<Rightarrow> 'a \<Rightarrow> 'a CoroutineTaskDeque \<Rightarrow> 'a CoroutineTaskDeque" where
  "ctd_set_task j t q = q\<lparr>ctd_mArray := (ctd_mArray q)(j := (ctd_mArray q j)\<lparr>ctde_task := Some t\<rparr>)\<rparr>"

definition ctd_cas :: "'a CoroutineTaskDeque \<Rightarrow> nat \<Rightarrow> u8 \<Rightarrow> u8 \<Rightarrow> bool \<times> 'a CoroutineTaskDeque" where
  "ctd_cas q j expected desired =
     (if ctde_state (ctd_mArray q j) = expected then (True, ctd_set_state j desired q) else (False, q))"

definition CoroutineTaskDeque_PushFront :: "'a CoroutineTaskDeque \<Rightarrow> 'a \<Rightarrow> 'a option \<times> 'a CoroutineTaskDeque" where
  "CoroutineTaskDeque_PushFront q task =
     (let front = ctd_mFront q; j = ctd_at front; s = ctde_state (ctd_mArray q j) in
      if s \<noteq> ctd_kEmpty then (Some task, q)
      else case ctd_cas q j s ctd_kBusy of
        (False, q1) \<Rightarrow> (Some task, q1)
      | (True, q1) \<Rightarrow>
          (None, ctd_set_state j ctd_kReady (ctd_set_task j task (q1\<lparr>ctd_mFront := front + ctd_kIncrement\<rparr>))))"

definition CoroutineTaskDeque_PopFront :: "'a CoroutineTaskDeque \<Rightarrow> 'a option \<times> 'a CoroutineTaskDeque" where
  "CoroutineTaskDeque_PopFront q =
     (let front = ctd_mFront q; j = ctd_at (front - 1); s = ctde_state (ctd_mArray q j) in
      if s \<noteq> ctd_kReady then (None, q)
      else case ctd_cas q j s ctd_kBusy of
        (False, q1) \<Rightarrow> (None, q1)
      | (True, q1) \<Rightarrow>
          (ctde_task (ctd_mArray q1 j),
           (ctd_set_state j ctd_kEmpty q1)\<lparr>ctd_mFront := ((front - 1) AND ctd_kMask2) OR (front AND NOT ctd_kMask2)\<rparr>))"

definition CoroutineTaskDeque_PushBack :: "'a CoroutineTaskDeque \<Rightarrow> 'a \<Rightarrow> 'a option \<times> 'a CoroutineTaskDeque" where
  "CoroutineTaskDeque_PushBack q task =
     (let back = ctd_mBack q; j = ctd_at (back - 1); s = ctde_state (ctd_mArray q j) in
      if s \<noteq> ctd_kEmpty then (Some task, q)
      else case ctd_cas q j s ctd_kBusy of
        (False, q1) \<Rightarrow> (Some task, q1)
      | (True, q1) \<Rightarrow>
          (None, ctd_set_state j ctd_kReady (ctd_set_task j task
             (q1\<lparr>ctd_mBack := ((back - 1) AND ctd_kMask2) OR (back AND NOT ctd_kMask2)\<rparr>))))"

definition CoroutineTaskDeque_CalculateSize :: "u32 \<Rightarrow> u32 \<Rightarrow> u32 option" where
  "CoroutineTaskDeque_CalculateSize front back =
     (let size = sint ((front AND ctd_kMask2) - (back AND ctd_kMask2));
          size = (if size < 0 then size + 2 * uint ctd_kCapacity else size)
      in if size > uint ctd_kCapacity + 1 then None
         else let size = (if size > uint ctd_kCapacity then uint ctd_kCapacity else size)
              in Some (word_of_int size))"

partial_function (option) CoroutineTaskDeque_SizeOrNotEmpty :: "bool \<Rightarrow> 'a CoroutineTaskDeque \<Rightarrow> u32 \<Rightarrow> u32 option" where
  "CoroutineTaskDeque_SizeOrNotEmpty need_size q front =
     (let back = ctd_mBack q; front1 = ctd_mFront q in
      if front \<noteq> front1 then CoroutineTaskDeque_SizeOrNotEmpty need_size q front1
      else if need_size then CoroutineTaskDeque_CalculateSize front back
      else let maybe_zero = (front XOR back) AND ctd_kMask2 in
           case CoroutineTaskDeque_CalculateSize front back of
             None \<Rightarrow> None
           | Some sz \<Rightarrow> if (sz = 0) = (maybe_zero = 0) then Some maybe_zero else None)"

definition CoroutineTaskDeque_Size :: "'a CoroutineTaskDeque \<Rightarrow> u32 option" where
  "CoroutineTaskDeque_Size q = CoroutineTaskDeque_SizeOrNotEmpty True q (ctd_mFront q)"

definition CoroutineTaskDeque_Empty :: "'a CoroutineTaskDeque \<Rightarrow> bool option" where
  "CoroutineTaskDeque_Empty q = map_option (\<lambda>n. n = 0) (CoroutineTaskDeque_SizeOrNotEmpty False q (ctd_mFront q))"

definition CoroutineTaskDeque_PopBack :: "'a CoroutineTaskDeque \<Rightarrow> ('a option \<times> 'a CoroutineTaskDeque) option" where
  "CoroutineTaskDeque_PopBack q =
     (case CoroutineTaskDeque_Empty q of
        None \<Rightarrow> None
      | Some True \<Rightarrow> Some (None, q)
      | Some False \<Rightarrow>
          Some (let back = ctd_mBack q; j = ctd_at back; s = ctde_state (ctd_mArray q j) in
            if s \<noteq> ctd_kReady then (None, q)
            else case ctd_cas q j s ctd_kBusy of
              (False, q1) \<Rightarrow> (None, q1)
            | (True, q1) \<Rightarrow>
                (ctde_task (ctd_mArray q1 j),
                 (ctd_set_state j ctd_kEmpty q1)\<lparr>ctd_mBack := back + ctd_kIncrement\<rparr>)))"

text \<open>The loop of PopBackHalf from \<open>mid\<close> down to \<open>back\<close>, with its assert as \<open>None\<close>.\<close>

partial_function (option) ctd_half_loop ::
  "'a CoroutineTaskDeque \<Rightarrow> u32 \<Rightarrow> u32 \<Rightarrow> u32 \<Rightarrow> u32 \<Rightarrow> 'a option list
     \<Rightarrow> (u32 \<times> u32 \<times> 'a option list \<times> 'a CoroutineTaskDeque) option"
where
  "ctd_half_loop q back mid n start result =
     (if sint (mid - back) < 0 then Some (n, start, result, q)
      else let j = ctd_at mid; e = ctd_mArray q j in
        if n = 0 \<and> ctde_state e \<noteq> ctd_kReady then ctd_half_loop q back (mid - 1) n start result
        else if n \<noteq> 0 \<and> ctde_state e \<noteq> ctd_kReady then None
        else ctd_half_loop (ctd_set_state j ctd_kEmpty q) back (mid - 1) (n + 1)
               (if n = 0 then mid else start) (result @ [ctde_task e]))"

definition CoroutineTaskDeque_PopBackHalf :: "'a CoroutineTaskDeque \<Rightarrow> (u32 \<times> 'a option list \<times> 'a CoroutineTaskDeque) option" where
  "CoroutineTaskDeque_PopBackHalf q =
     (case CoroutineTaskDeque_Empty q of
        None \<Rightarrow> None
      | Some True \<Rightarrow> Some (0, [], q)
      | Some False \<Rightarrow>
          (case CoroutineTaskDeque_Size q of
             None \<Rightarrow> None
           | Some sz \<Rightarrow>
               (let back = ctd_mBack q; mid = (if sz > 1 then back + (sz - 1) div 2 else back) in
                case ctd_half_loop q back mid 0 0 [] of
                  None \<Rightarrow> None
                | Some (n, start, result, q1) \<Rightarrow>
                    Some (n, result, if n \<noteq> 0 then q1\<lparr>ctd_mBack := start + ctd_kIncrement\<rparr> else q1))))"

partial_function (option) CoroutineTaskDeque_Flush :: "'a CoroutineTaskDeque \<Rightarrow> 'a CoroutineTaskDeque option" where
  "CoroutineTaskDeque_Flush q =
     Option.bind (CoroutineTaskDeque_Empty q) (\<lambda>empty.
       if empty then Some q
       else case CoroutineTaskDeque_PopFront q of (None, q1) \<Rightarrow> None | (Some t, q1) \<Rightarrow> CoroutineTaskDeque_Flush q1)"

subsection \<open>CoroutineTaskQueue\<close>

record 'a ctq_elem =
  ctqe_state :: u32
  ctqe_task :: "'a option"

record 'a CoroutineTaskQueue =
  ctq_mFront :: u32
  ctq_mBack :: u32
  ctq_mArray :: "nat \<Rightarrow> 'a ctq_elem"

definition ctq_kCapacity :: u32 where "ctq_kCapacity = 1024"
definition ctq_kMask :: u32 where "ctq_kMask = ctq_kCapacity - 1"

definition ctq_slot :: "u32 \<Rightarrow> nat" where
  "ctq_slot pos = unat (pos AND ctq_kMask)"

definition CoroutineTaskQueue_new :: "'a CoroutineTaskQueue" where
  "CoroutineTaskQueue_new = \<lparr>ctq_mFront = 0, ctq_mBack = 0,
     ctq_mArray = (\<lambda>i. \<lparr>ctqe_state = of_nat i, ctqe_task = None\<rparr>)\<rparr>"

partial_function (option) ctq_push_claim :: "'a CoroutineTaskQueue \<Rightarrow> u32 \<Rightarrow> (u32 option \<times> 'a CoroutineTaskQueue) option" where
  "ctq_push_claim q front =
     (let state = ctqe_state (ctq_mArray q (ctq_slot front));
          diff = uint state - uint front
      in if diff = 0 \<and> ctq_mFront q = front then Some (Some front, q\<lparr>ctq_mFront := front + 1\<rparr>)
         else if diff < 0 then Some (None, q)
         else ctq_push_claim q (ctq_mFront q))"

definition CoroutineTaskQueue_PushFront :: "'a CoroutineTaskQueue \<Rightarrow> 'a \<Rightarrow> ('a option \<times> 'a CoroutineTaskQueue) option" where
  "CoroutineTaskQueue_PushFront q task =
     (case ctq_push_claim q (ctq_mFront q) of
        None \<Rightarrow> None
      | Some (None, q1) \<Rightarrow> Some (Some task, q1)
      | Some (Some front, q1) \<Rightarrow>
          Some (None, q1\<lparr>ctq_mArray := (ctq_mArray q1)(ctq_slot front :=
            \<lparr>ctqe_state = front + 1, ctqe_task = Some task\<rparr>)\<rparr>))"

partial_function (option) ctq_pop_claim :: "'a CoroutineTaskQueue \<Rightarrow> u32 \<Rightarrow> (u32 option \<times> 'a CoroutineTaskQueue) option" where
  "ctq_pop_claim q back =
     (let state = ctqe_state (ctq_mArray q (ctq_slot back));
          diff = uint state - uint (back + 1)
      in if diff = 0 \<and> ctq_mBack q = back then Some (Some back, q\<lparr>ctq_mBack := back + 1\<rparr>)
         else if diff < 0 then Some (None, q)
         else ctq_pop_claim q (ctq_mBack q))"

definition CoroutineTaskQueue_PopBack :: "'a CoroutineTaskQueue \<Rightarrow> ('a option \<times> 'a CoroutineTaskQueue) option" where
  "CoroutineTaskQueue_PopBack q =
     (case ctq_pop_claim q (ctq_mBack q) of
        None \<Rightarrow> None
      | Some (None, q1) \<Rightarrow> Some (None, q1)
      | Some (Some back, q1) \<Rightarrow>
          Some (ctqe_task (ctq_mArray q1 (ctq_slot back)),
                q1\<lparr>ctq_mArray := (ctq_mArray q1)(ctq_slot back :=
                  (ctq_mArray q1 (ctq_slot back))\<lparr>ctqe_state := back + ctq_kCapacity\<rparr>)\<rparr>))"

partial_function (option) ctq_size_loop :: "'a CoroutineTaskQueue \<Rightarrow> u32 \<Rightarrow> u32 option" where
  "ctq_size_loop q front =
     (let back = ctq_mBack q; front1 = ctq_mFront q
      in if front \<noteq> front1 then ctq_size_loop q front1
         else Some (min ctq_kCapacity (front - back)))"

definition CoroutineTaskQueue_Size :: "'a CoroutineTaskQueue \<Rightarrow> u32 option" where
  "CoroutineTaskQueue_Size q = ctq_size_loop q (ctq_mFront q)"

definition CoroutineTaskQueue_Empty :: "'a CoroutineTaskQueue \<Rightarrow> bool option" where
  "CoroutineTaskQueue_Empty q = map_option (\<lambda>n. n = 0) (CoroutineTaskQueue_Size q)"

partial_function (option) CoroutineTaskQueue_Flush :: "'a CoroutineTaskQueue \<Rightarrow> 'a CoroutineTaskQueue option" where
  "CoroutineTaskQueue_Flush q =
     Option.bind (CoroutineTaskQueue_Empty q) (\<lambda>empty.
       if empty then Some q
       else Option.bind (CoroutineTaskQueue_PopBack q) (\<lambda>(task, q1).
              case task of None \<Rightarrow> None | Some t \<Rightarrow> CoroutineTaskQueue_Flush q1))"

subsection \<open>Call sequences\<close>

text \<open>Every member function of the queues as one call with one answer.\<close>

datatype 'a member_call = QueueCall "'a queue_call" | CallPopBackHalf | CallSize | CallEmpty | CallFlush

datatype 'a member_answer = TaskAnswer "'a option" | HalfAnswer u32 "'a option list" | SizeAnswer u32 | EmptyAnswer bool | FlushAnswer

definition answer_with :: "('b \<Rightarrow> 'a member_answer) \<Rightarrow> 'q \<Rightarrow> 'b option \<Rightarrow> ('a member_answer \<times> 'q) option" where
  "answer_with f q r = map_option (\<lambda>x. (f x, q)) r"

fun td_member :: "'a TaskDeque \<Rightarrow> 'a member_call \<Rightarrow> ('a member_answer \<times> 'a TaskDeque) option" where
  "td_member q (QueueCall c) = map_option (map_prod TaskAnswer id) (td_call q c)"
| "td_member q CallPopBackHalf = map_option (\<lambda>(n, r, q1). (HalfAnswer n r, q1)) (TaskDeque_PopBackHalf q)"
| "td_member q CallSize = answer_with SizeAnswer q (TaskDeque_Size q)"
| "td_member q CallEmpty = answer_with EmptyAnswer q (TaskDeque_Empty q)"
| "td_member q CallFlush = map_option (\<lambda>q1. (FlushAnswer, q1)) (TaskDeque_Flush q)"

fun ctd_call :: "'a CoroutineTaskDeque \<Rightarrow> 'a queue_call \<Rightarrow> ('a option \<times> 'a CoroutineTaskDeque) option" where
  "ctd_call q (CallPushFront t) = Some (CoroutineTaskDeque_PushFront q t)"
| "ctd_call q CallPopFront = Some (CoroutineTaskDeque_PopFront q)"
| "ctd_call q (CallPushBack t) = Some (CoroutineTaskDeque_PushBack q t)"
| "ctd_call q CallPopBack = CoroutineTaskDeque_PopBack q"

fun ctd_member :: "'a CoroutineTaskDeque \<Rightarrow> 'a member_call \<Rightarrow> ('a member_answer \<times> 'a CoroutineTaskDeque) option" where
  "ctd_member q (QueueCall c) = map_option (map_prod TaskAnswer id) (ctd_call q c)"
| "ctd_member q CallPopBackHalf = map_option (\<lambda>(n, r, q1). (HalfAnswer n r, q1)) (CoroutineTaskDeque_PopBackHalf q)"
| "ctd_member q CallSize = answer_with SizeAnswer q (CoroutineTaskDeque_Size q)"
| "ctd_member q CallEmpty = answer_with EmptyAnswer q (CoroutineTaskDeque_Empty q)"
| "ctd_member q CallFlush = map_option (\<lambda>q1. (FlushAnswer, q1)) (CoroutineTaskDeque_Flush q)"

text \<open>The FIFO queues have no operations at their other ends; such a call is \<open>None\<close> on both sides.\<close>

fun tq_member :: "'a TaskQueue \<Rightarrow> 'a member_call \<Rightarrow> ('a member_answer \<times> 'a TaskQueue) option" where
  "tq_member q (QueueCall (CallPushFront t)) = map_option (map_prod TaskAnswer id) (TaskQueue_PushFront q t)"
| "tq_member q (QueueCall CallPopBack) = map_option (map_prod TaskAnswer id) (TaskQueue_PopBack q)"
| "tq_member q CallSize = answer_with SizeAnswer q (TaskQueue_Size q)"
| "tq_member q CallEmpty = answer_with EmptyAnswer q (TaskQueue_Empty q)"
| "tq_member q CallFlush = map_option (\<lambda>q1. (FlushAnswer, q1)) (TaskQueue_Flush q)"
| "tq_member q _ = None"

fun ctq_member :: "'a CoroutineTaskQueue \<Rightarrow> 'a member_call \<Rightarrow> ('a member_answer \<times> 'a CoroutineTaskQueue) option" where
  "ctq_member q (QueueCall (CallPushFront t)) = map_option (map_prod TaskAnswer id) (CoroutineTaskQueue_PushFront q t)"
| "ctq_member q (QueueCall CallPopBack) = map_option (map_prod TaskAnswer id) (CoroutineTaskQueue_PopBack q)"
| "ctq_member q CallSize = answer_with SizeAnswer q (CoroutineTaskQueue_Size q)"
| "ctq_member q CallEmpty = answer_with EmptyAnswer q (CoroutineTaskQueue_Empty q)"
| "ctq_member q CallFlush = map_option (\<lambda>q1. (FlushAnswer, q1)) (CoroutineTaskQueue_Flush q)"
| "ctq_member q _ = None"

fun run_calls :: "('q \<Rightarrow> 'c \<Rightarrow> ('r \<times> 'q) option) \<Rightarrow> 'q \<Rightarrow> 'c list \<Rightarrow> ('r list \<times> 'q) option" where
  "run_calls call q [] = Some ([], q)"
| "run_calls call q (c # cs) =
     (case call q c of None \<Rightarrow> None
      | Some (r, q1) \<Rightarrow> map_option (\<lambda>(rs, q2). (r # rs, q2)) (run_calls call q1 cs))"

subsection \<open>Erasing stale pointers\<close>

text \<open>
  The contract between two implementations of one interface: \<open>erase\<close> maps the states of the first to
  states of the second, and every call commutes with it.
\<close>

locale queue_erasure =
  fixes erase :: "'p \<Rightarrow> 'q"
    and call1 :: "'p \<Rightarrow> 'c \<Rightarrow> ('r \<times> 'p) option"
    and call2 :: "'q \<Rightarrow> 'c \<Rightarrow> ('r \<times> 'q) option"
  assumes call_erase: "call2 (erase p) c = map_option (map_prod id erase) (call1 p c)"
begin

lemma run_erase: "run_calls call2 (erase p) cs = map_option (map_prod id erase) (run_calls call1 p cs)"
proof (induction cs arbitrary: p)
  case (Cons c cs)
  show ?case
  proof (cases "call1 p c")
    case (Some rp)
    obtain r p1 where rp: "rp = (r, p1)" by (cases rp)
    show ?thesis using Some Cons.IH [of p1] by (cases "run_calls call1 p1 cs") (auto simp: rp call_erase)
  qed (simp add: call_erase)
qed simp

lemma run_same_answers: "map_option fst (run_calls call2 (erase p) cs) = map_option fst (run_calls call1 p cs)"
  unfolding run_erase by (cases "run_calls call1 p cs") auto

end

definition ctd_erase_elem :: "'a ctd_elem \<Rightarrow> 'a td_elem" where
  "ctd_erase_elem e = \<lparr>tde_state = ctde_state e, tde_task = (if ctde_state e = ctd_kEmpty then None else ctde_task e)\<rparr>"

definition ctd_erase :: "'a CoroutineTaskDeque \<Rightarrow> 'a TaskDeque" where
  "ctd_erase q = \<lparr>td_mFront = ctd_mFront q, td_mBack = ctd_mBack q, td_mArray = (\<lambda>j. ctd_erase_elem (ctd_mArray q j))\<rparr>"

lemma ctd_consts:
  "ctd_kCapacity = td_kCapacity" "ctd_kIncrement = td_kIncrement" "ctd_kMask = td_kMask" "ctd_kMask2 = td_kMask2"
  "ctd_kEmpty = td_kEmpty" "ctd_kBusy = td_kBusy" "ctd_kReady = td_kReady" "ctd_at = td_at"
  "CoroutineTaskDeque_CalculateSize = TaskDeque_CalculateSize"
  by (simp_all add: ctd_kCapacity_def td_kCapacity_def ctd_kIncrement_def td_kIncrement_def ctd_kMask_def td_kMask_def
      ctd_kMask2_def td_kMask2_def ctd_kEmpty_def td_kEmpty_def ctd_kBusy_def td_kBusy_def ctd_kReady_def td_kReady_def
      fun_eq_iff Let_def ctd_at_def td_at_def CoroutineTaskDeque_CalculateSize_def TaskDeque_CalculateSize_def)

lemma ctd_erase_sel [simp]:
  "td_mFront (ctd_erase q) = ctd_mFront q" "td_mBack (ctd_erase q) = ctd_mBack q"
  "tde_state (td_mArray (ctd_erase q) j) = ctde_state (ctd_mArray q j)"
  by (simp_all add: ctd_erase_def ctd_erase_elem_def)

lemma ctd_erase_task:
  "ctde_state (ctd_mArray q j) \<noteq> td_kEmpty \<Longrightarrow> tde_task (td_mArray (ctd_erase q) j) = ctde_task (ctd_mArray q j)"
  by (simp add: ctd_erase_def ctd_erase_elem_def ctd_consts)

lemma ctd_erase_upd [simp]:
  "ctd_erase (q\<lparr>ctd_mFront := f\<rparr>) = (ctd_erase q)\<lparr>td_mFront := f\<rparr>"
  "ctd_erase (q\<lparr>ctd_mBack := b\<rparr>) = (ctd_erase q)\<lparr>td_mBack := b\<rparr>"
  by (simp_all add: ctd_erase_def)

lemma ctd_erase_popped:
  "ctd_erase (ctd_set_state j td_kEmpty q) = td_put (ctd_erase q) j \<lparr>tde_state = td_kEmpty, tde_task = None\<rparr>"
  by (simp add: ctd_erase_def ctd_set_state_def td_put_def ctd_erase_elem_def ctd_consts fun_eq_iff)

lemma ctd_erase_pushed:
  "ctd_erase (ctd_set_state j td_kReady (ctd_set_task j t q)) =
     td_put (ctd_erase q) j \<lparr>tde_state = td_kReady, tde_task = Some t\<rparr>"
  by (simp add: ctd_erase_def ctd_set_state_def ctd_set_task_def td_put_def ctd_erase_elem_def ctd_consts fun_eq_iff)

text \<open>The state written by the compare-exchange is overwritten by the final store.\<close>

lemma ctd_set_state_twice [simp]:
  "ctd_set_state j s (ctd_set_state j s' q) = ctd_set_state j s q"
  "ctd_set_state j s (ctd_set_task j t (q'\<lparr>ctd_mFront := f\<rparr>)) = (ctd_set_state j s (ctd_set_task j t q'))\<lparr>ctd_mFront := f\<rparr>"
  "ctd_set_state j s (ctd_set_task j t (q'\<lparr>ctd_mBack := f\<rparr>)) = (ctd_set_state j s (ctd_set_task j t q'))\<lparr>ctd_mBack := f\<rparr>"
  "ctd_set_state j s (ctd_set_task j t (ctd_set_state j s' q)) = ctd_set_state j s (ctd_set_task j t q)"
  "ctde_task (ctd_mArray (ctd_set_state j s q) j) = ctde_task (ctd_mArray q j)"
  by (simp_all add: ctd_set_state_def ctd_set_task_def)

lemma td_put_cas:
  "td_put (q\<lparr>td_mArray := (td_mArray q)(j := e)\<rparr>) j e' = td_put q j e'"
  "td_put (q\<lparr>td_mArray := (td_mArray q)(j := e), td_mFront := f\<rparr>) j e' = (td_put q j e')\<lparr>td_mFront := f\<rparr>"
  "td_put (q\<lparr>td_mArray := (td_mArray q)(j := e), td_mBack := f\<rparr>) j e' = (td_put q j e')\<lparr>td_mBack := f\<rparr>"
  by (simp_all add: td_put_def)

lemmas ctd_op_defs = td_cas_def ctd_cas_def td_put_cas Let_def ctd_consts

lemma ctd_PushFront_erase:
  "TaskDeque_PushFront (ctd_erase q) t = map_prod id ctd_erase (CoroutineTaskDeque_PushFront q t)"
  by (simp add: TaskDeque_PushFront_def CoroutineTaskDeque_PushFront_def ctd_op_defs ctd_erase_pushed)

lemma ctd_PushBack_erase:
  "TaskDeque_PushBack (ctd_erase q) t = map_prod id ctd_erase (CoroutineTaskDeque_PushBack q t)"
  by (simp add: TaskDeque_PushBack_def CoroutineTaskDeque_PushBack_def ctd_op_defs ctd_erase_pushed)

lemma ctd_PopFront_erase:
  "TaskDeque_PopFront (ctd_erase q) = map_prod id ctd_erase (CoroutineTaskDeque_PopFront q)"
  by (simp add: TaskDeque_PopFront_def CoroutineTaskDeque_PopFront_def ctd_op_defs ctd_erase_popped ctd_erase_task)

lemma ctd_size_erase:
  "TaskDeque_SizeOrNotEmpty b (ctd_erase q) (ctd_mFront q) = CoroutineTaskDeque_SizeOrNotEmpty b q (ctd_mFront q)"
  by (subst TaskDeque_SizeOrNotEmpty.simps, subst CoroutineTaskDeque_SizeOrNotEmpty.simps) (simp add: Let_def ctd_consts)

lemma ctd_Size_erase: "TaskDeque_Size (ctd_erase q) = CoroutineTaskDeque_Size q"
  and ctd_Empty_erase: "TaskDeque_Empty (ctd_erase q) = CoroutineTaskDeque_Empty q"
  by (simp_all add: TaskDeque_Size_def CoroutineTaskDeque_Size_def TaskDeque_Empty_def CoroutineTaskDeque_Empty_def ctd_size_erase)

lemma ctd_PopBack_erase:
  "TaskDeque_PopBack (ctd_erase q) = map_option (map_prod id ctd_erase) (CoroutineTaskDeque_PopBack q)"
  by (simp add: TaskDeque_PopBack_def CoroutineTaskDeque_PopBack_def ctd_Empty_erase ctd_op_defs ctd_erase_popped ctd_erase_task
      split: option.split bool.split)

text \<open>The loops that may not end return on one side exactly when they return on the other.\<close>

lemma ctd_half_erase1:
  assumes "ctd_half_loop q bk mid n start r = Some y"
  shows "td_half_loop (ctd_erase q) bk mid n start r = Some (case y of (n', start', r', q') \<Rightarrow> (n', start', r', ctd_erase q'))"
proof (rule ctd_half_loop.raw_induct [where P = "\<lambda>q bk mid n start r y. td_half_loop (ctd_erase q) bk mid n start r =
    Some (case y of (n', start', r', q') \<Rightarrow> (n', start', r', ctd_erase q'))", OF _ assms])
  fix loop q bk mid n start r y
  assume IH: "\<And>(q :: 'a CoroutineTaskDeque) bk mid n start r y. loop q bk mid n start r = Some y \<Longrightarrow>
      td_half_loop (ctd_erase q) bk mid n start r = Some (case y of (n', start', r', q') \<Rightarrow> (n', start', r', ctd_erase q'))"
  assume body: "(if sint (mid - bk) < 0 then Some (n, start, r, q)
      else let j = ctd_at mid; e = ctd_mArray q j in
        if n = 0 \<and> ctde_state e \<noteq> ctd_kReady then loop q bk (mid - 1) n start r
        else if n \<noteq> 0 \<and> ctde_state e \<noteq> ctd_kReady then None
        else loop (ctd_set_state j ctd_kEmpty q) bk (mid - 1) (n + 1) (if n = 0 then mid else start) (r @ [ctde_task e])) = Some y"
  show "td_half_loop (ctd_erase q) bk mid n start r = Some (case y of (n', start', r', q') \<Rightarrow> (n', start', r', ctd_erase q'))"
    by (subst td_half_loop.simps)
      (use body IH in \<open>auto simp: Let_def ctd_consts ctd_erase_popped [symmetric] ctd_erase_task split: if_splits\<close>)
qed

lemma ctd_half_erase2:
  assumes "td_half_loop (ctd_erase q) bk mid n start r = Some y"
  shows "\<exists>x. ctd_half_loop q bk mid n start r = Some x"
proof -
  have "\<forall>p. ctd_erase q = ctd_erase p \<longrightarrow> (\<exists>x. ctd_half_loop p bk mid n start r = Some x)"
  proof (rule td_half_loop.raw_induct [where P = "\<lambda>q' bk mid n start r y. \<forall>p. q' = ctd_erase p \<longrightarrow>
      (\<exists>x. ctd_half_loop p bk mid n start r = Some x)", OF _ assms], intro allI impI)
    fix loop q' bk mid n start r and y :: "u32 \<times> u32 \<times> 'a option list \<times> 'a TaskDeque" and p :: "'a CoroutineTaskDeque"
    assume IH: "\<And>(q' :: 'a TaskDeque) bk mid n start r (y :: u32 \<times> u32 \<times> 'a option list \<times> 'a TaskDeque). loop q' bk mid n start r = Some y \<Longrightarrow>
        \<forall>p. q' = ctd_erase p \<longrightarrow> (\<exists>x. ctd_half_loop p bk mid n start r = Some x)"
    assume body: "(if sint (mid - bk) < 0 then Some (n, start, r, q')
        else let j = td_at mid; e = td_mArray q' j in
          if n = 0 \<and> tde_state e \<noteq> td_kReady then loop q' bk (mid - 1) n start r
          else if n \<noteq> 0 \<and> tde_state e \<noteq> td_kReady then None
          else loop (td_put q' j \<lparr>tde_state = td_kEmpty, tde_task = None\<rparr>) bk (mid - 1) (n + 1)
               (if n = 0 then mid else start) (r @ [tde_task e])) = Some y" and p: "q' = ctd_erase p"
    show "\<exists>x. ctd_half_loop p bk mid n start r = Some x"
      by (subst ctd_half_loop.simps)
        (use body IH in \<open>auto simp: p Let_def ctd_consts ctd_erase_popped [symmetric] ctd_erase_task split: if_splits\<close>)
  qed
  then show ?thesis by blast
qed

lemma ctd_half_erase:
  "td_half_loop (ctd_erase q) bk mid n start r =
     map_option (\<lambda>(a, b, c, p). (a, b, c, ctd_erase p)) (ctd_half_loop q bk mid n start r)"
proof (cases "ctd_half_loop q bk mid n start r")
  case None
  then show ?thesis using ctd_half_erase2 [of q bk mid n start r] by (cases "td_half_loop (ctd_erase q) bk mid n start r") auto
next
  case (Some x)
  then show ?thesis using ctd_half_erase1 [OF Some] by simp
qed

lemma ctd_PopBackHalf_erase:
  "TaskDeque_PopBackHalf (ctd_erase q) = map_option (\<lambda>(n, r, p). (n, r, ctd_erase p)) (CoroutineTaskDeque_PopBackHalf q)"
  by (simp add: TaskDeque_PopBackHalf_def CoroutineTaskDeque_PopBackHalf_def ctd_Empty_erase ctd_Size_erase ctd_half_erase
      ctd_consts Let_def split: option.split bool.split)

lemma ctd_Flush_erase1:
  assumes "CoroutineTaskDeque_Flush q = Some q'"
  shows "TaskDeque_Flush (ctd_erase q) = Some (ctd_erase q')"
proof (rule CoroutineTaskDeque_Flush.raw_induct [where P = "\<lambda>q q'. TaskDeque_Flush (ctd_erase q) = Some (ctd_erase q')", OF _ assms])
  fix flush and q q' :: "'a CoroutineTaskDeque"
  assume IH: "\<And>q q'. flush q = Some q' \<Longrightarrow> TaskDeque_Flush (ctd_erase q) = Some (ctd_erase q')"
    and body: "Option.bind (CoroutineTaskDeque_Empty q) (\<lambda>empty. if empty then Some q
       else case CoroutineTaskDeque_PopFront q of (None, q1) \<Rightarrow> None | (Some t, q1) \<Rightarrow> flush q1) = Some q'"
  show "TaskDeque_Flush (ctd_erase q) = Some (ctd_erase q')"
    by (subst TaskDeque_Flush.simps)
      (use body IH in \<open>auto simp: ctd_Empty_erase ctd_PopFront_erase split: bind_splits if_splits option.splits prod.splits\<close>)
qed

lemma ctd_Flush_erase2:
  assumes "TaskDeque_Flush (ctd_erase q) = Some p'"
  shows "\<exists>q'. CoroutineTaskDeque_Flush q = Some q'"
proof -
  have "\<forall>r. ctd_erase q = ctd_erase r \<longrightarrow> (\<exists>q'. CoroutineTaskDeque_Flush r = Some q')"
  proof (rule TaskDeque_Flush.raw_induct [where P = "\<lambda>p p'. \<forall>q. p = ctd_erase q \<longrightarrow>
      (\<exists>q'. CoroutineTaskDeque_Flush q = Some q')", OF _ assms], intro allI impI)
    fix flush and p p' :: "'a TaskDeque" and q :: "'a CoroutineTaskDeque"
    assume IH: "\<And>p p'. flush p = Some p' \<Longrightarrow> \<forall>q. p = ctd_erase q \<longrightarrow> (\<exists>q'. CoroutineTaskDeque_Flush q = Some q')"
      and body: "Option.bind (TaskDeque_Empty p) (\<lambda>empty. if empty then Some p
         else case TaskDeque_PopFront p of (None, q1) \<Rightarrow> None | (Some t, q1) \<Rightarrow> flush q1) = Some p'" and p: "p = ctd_erase q"
    obtain r q1 where pop: "CoroutineTaskDeque_PopFront q = (r, q1)" by (cases "CoroutineTaskDeque_PopFront q")
    show "\<exists>q'. CoroutineTaskDeque_Flush q = Some q'"
      by (subst CoroutineTaskDeque_Flush.simps)
        (use body IH pop in \<open>auto simp: p ctd_Empty_erase ctd_PopFront_erase split: bind_splits if_splits option.splits\<close>)
  qed
  then show ?thesis by blast
qed

lemma ctd_Flush_erase: "TaskDeque_Flush (ctd_erase q) = map_option ctd_erase (CoroutineTaskDeque_Flush q)"
proof (cases "CoroutineTaskDeque_Flush q")
  case None
  then show ?thesis using ctd_Flush_erase2 [of q] by (cases "TaskDeque_Flush (ctd_erase q)") auto
qed (simp add: ctd_Flush_erase1)

interpretation ctd: queue_erasure ctd_erase ctd_member td_member
proof
  fix p :: "'a CoroutineTaskDeque" and c
  have call: "td_call (ctd_erase p) k = map_option (map_prod id ctd_erase) (ctd_call p k)" for k
    by (cases k) (simp_all add: ctd_PushFront_erase ctd_PushBack_erase ctd_PopFront_erase ctd_PopBack_erase)
  show "td_member (ctd_erase p) c = map_option (map_prod id ctd_erase) (ctd_member p c)"
    by (cases c) (simp_all add: call ctd_PopBackHalf_erase ctd_Size_erase ctd_Empty_erase ctd_Flush_erase answer_with_def
        option.map_comp comp_def map_prod_def case_prod_unfold)
qed

text \<open>
  A slot of the FIFO queue is free when its sequence number is congruent to its index; its pointer is
  then stale.
\<close>

definition ctq_erase_elem :: "nat \<Rightarrow> 'a ctq_elem \<Rightarrow> 'a tq_elem" where
  "ctq_erase_elem j e = \<lparr>tqe_state = ctqe_state e, tqe_task = (if tq_slot (ctqe_state e) = j then None else ctqe_task e)\<rparr>"

definition ctq_erase :: "'a CoroutineTaskQueue \<Rightarrow> 'a TaskQueue" where
  "ctq_erase q = \<lparr>tq_mFront = ctq_mFront q, tq_mBack = ctq_mBack q, tq_mArray = (\<lambda>j. ctq_erase_elem j (ctq_mArray q j))\<rparr>"

lemma ctq_consts: "ctq_kCapacity = tq_kCapacity" "ctq_kMask = tq_kMask" "ctq_slot = tq_slot"
  by (simp_all add: ctq_kCapacity_def tq_kCapacity_def ctq_kMask_def tq_kMask_def fun_eq_iff ctq_slot_def tq_slot_def)

lemma ctq_erase_sel [simp]:
  "tq_mFront (ctq_erase q) = ctq_mFront q" "tq_mBack (ctq_erase q) = ctq_mBack q"
  "tqe_state (tq_mArray (ctq_erase q) j) = ctqe_state (ctq_mArray q j)"
  "ctq_erase (q\<lparr>ctq_mFront := f\<rparr>) = (ctq_erase q)\<lparr>tq_mFront := f\<rparr>"
  "ctq_erase (q\<lparr>ctq_mBack := f\<rparr>) = (ctq_erase q)\<lparr>tq_mBack := f\<rparr>"
  by (simp_all add: ctq_erase_def ctq_erase_elem_def)

lemma tq_slot_Suc: "tq_slot (p + 1) \<noteq> tq_slot p"
proof
  assume "tq_slot (p + 1) = tq_slot p"
  then have "(unat p + 1) mod 1024 = (unat p + 0) mod 1024"
    using tq_slot_pos [of p 1] by (simp add: tq_slot_unat)
  then show False using add_mod_inj [of "unat p" 1 1024 0] by simp
qed

lemma ctq_push_erase1:
  assumes "ctq_push_claim q front = Some y"
  shows "tq_push_claim (ctq_erase q) front = Some (map_prod id ctq_erase y)"
  by (rule ctq_push_claim.raw_induct [where P = "\<lambda>q front y. tq_push_claim (ctq_erase q) front = Some (map_prod id ctq_erase y)", OF _ assms],
      subst tq_push_claim.simps) (auto simp: Let_def ctq_consts split: if_splits)

lemma ctq_push_erase2:
  assumes "tq_push_claim (ctq_erase q) front = Some y"
  shows "\<exists>x. ctq_push_claim q front = Some x"
proof -
  have "\<forall>r. ctq_erase q = ctq_erase r \<longrightarrow> (\<exists>x. ctq_push_claim r front = Some x)"
    by (rule tq_push_claim.raw_induct [where P = "\<lambda>p front y. \<forall>q. p = ctq_erase q \<longrightarrow> (\<exists>x. ctq_push_claim q front = Some x)", OF _ assms],
        intro allI impI, subst ctq_push_claim.simps) (auto simp: Let_def ctq_consts split: if_splits)
  then show ?thesis by blast
qed

lemma ctq_push_erase: "tq_push_claim (ctq_erase q) front = map_option (map_prod id ctq_erase) (ctq_push_claim q front)"
proof (cases "ctq_push_claim q front")
  case None
  then show ?thesis using ctq_push_erase2 [of q front] by (cases "tq_push_claim (ctq_erase q) front") auto
qed (simp add: ctq_push_erase1)

lemma ctq_pop_erase1:
  assumes "ctq_pop_claim q b = Some y"
  shows "tq_pop_claim (ctq_erase q) b = Some (map_prod id ctq_erase y)"
  by (rule ctq_pop_claim.raw_induct [where P = "\<lambda>q b y. tq_pop_claim (ctq_erase q) b = Some (map_prod id ctq_erase y)", OF _ assms],
      subst tq_pop_claim.simps) (auto simp: Let_def ctq_consts split: if_splits)

lemma ctq_pop_erase2:
  assumes "tq_pop_claim (ctq_erase q) b = Some y"
  shows "\<exists>x. ctq_pop_claim q b = Some x"
proof -
  have "\<forall>r. ctq_erase q = ctq_erase r \<longrightarrow> (\<exists>x. ctq_pop_claim r b = Some x)"
    by (rule tq_pop_claim.raw_induct [where P = "\<lambda>p b y. \<forall>q. p = ctq_erase q \<longrightarrow> (\<exists>x. ctq_pop_claim q b = Some x)", OF _ assms],
        intro allI impI, subst ctq_pop_claim.simps) (auto simp: Let_def ctq_consts split: if_splits)
  then show ?thesis by blast
qed

lemma ctq_pop_erase: "tq_pop_claim (ctq_erase q) b = map_option (map_prod id ctq_erase) (ctq_pop_claim q b)"
proof (cases "ctq_pop_claim q b")
  case None
  then show ?thesis using ctq_pop_erase2 [of q b] by (cases "tq_pop_claim (ctq_erase q) b") auto
qed (simp add: ctq_pop_erase1)

text \<open>A claimed element is full: its sequence number is one more than its position.\<close>

lemma ctq_pop_claim_state:
  assumes "ctq_pop_claim q b = Some (Some p, q1)"
  shows "ctqe_state (ctq_mArray q1 (tq_slot p)) = p + 1"
proof -
  have "\<forall>p. fst y = Some p \<longrightarrow> ctqe_state (ctq_mArray (snd y) (tq_slot p)) = p + 1" if "ctq_pop_claim q b = Some y" for y
    by (rule ctq_pop_claim.raw_induct [where P = "\<lambda>q b y. \<forall>p. fst y = Some p \<longrightarrow> ctqe_state (ctq_mArray (snd y) (tq_slot p)) = p + 1", OF _ that])
      (auto simp: Let_def ctq_consts split: if_splits intro: unsigned_word_eqI)
  from this [OF assms] show ?thesis by simp
qed

lemma ctq_PushFront_erase:
  "TaskQueue_PushFront (ctq_erase q) t = map_option (map_prod id ctq_erase) (CoroutineTaskQueue_PushFront q t)"
proof -
  have "ctq_erase (q1\<lparr>ctq_mArray := (ctq_mArray q1)(tq_slot p := \<lparr>ctqe_state = p + 1, ctqe_task = Some t\<rparr>)\<rparr>) =
      (ctq_erase q1)\<lparr>tq_mArray := (tq_mArray (ctq_erase q1))(tq_slot p := \<lparr>tqe_state = p + 1, tqe_task = Some t\<rparr>)\<rparr>" for q1 p
    by (simp add: ctq_erase_def ctq_erase_elem_def fun_eq_iff tq_slot_Suc)
  then show ?thesis
    by (simp add: TaskQueue_PushFront_def CoroutineTaskQueue_PushFront_def ctq_push_erase ctq_consts split: option.split)
qed

lemma ctq_PopBack_erase:
  "TaskQueue_PopBack (ctq_erase q) = map_option (map_prod id ctq_erase) (CoroutineTaskQueue_PopBack q)"
proof (cases "ctq_pop_claim q (ctq_mBack q)")
  case None
  then show ?thesis by (simp add: TaskQueue_PopBack_def CoroutineTaskQueue_PopBack_def ctq_pop_erase)
next
  case (Some y)
  obtain m q1 where y: "y = (m, q1)" by (cases y)
  show ?thesis
  proof (cases m)
    case (Some p)
    let ?j = "tq_slot p"
    have st: "ctqe_state (ctq_mArray q1 ?j) = p + 1"
      using ctq_pop_claim_state \<open>ctq_pop_claim q (ctq_mBack q) = Some y\<close> by (simp add: y Some)
    have task: "tqe_task (tq_mArray (ctq_erase q1) ?j) = ctqe_task (ctq_mArray q1 ?j)"
      by (simp add: ctq_erase_def ctq_erase_elem_def st tq_slot_Suc)
    have "ctq_erase (q1\<lparr>ctq_mArray := (ctq_mArray q1)(?j := (ctq_mArray q1 ?j)\<lparr>ctqe_state := p + tq_kCapacity\<rparr>)\<rparr>) =
        (ctq_erase q1)\<lparr>tq_mArray := (tq_mArray (ctq_erase q1))(?j := \<lparr>tqe_state = p + tq_kCapacity, tqe_task = None\<rparr>)\<rparr>"
      by (simp add: ctq_erase_def ctq_erase_elem_def fun_eq_iff tq_slot_wrap tq_kCapacity_def)
    with task \<open>ctq_pop_claim q (ctq_mBack q) = Some y\<close> show ?thesis
      by (simp add: TaskQueue_PopBack_def CoroutineTaskQueue_PopBack_def ctq_pop_erase y Some ctq_consts)
  qed (use Some y in \<open>simp add: TaskQueue_PopBack_def CoroutineTaskQueue_PopBack_def ctq_pop_erase\<close>)
qed

lemma ctq_Size_erase: "TaskQueue_Size (ctq_erase q) = CoroutineTaskQueue_Size q"
  unfolding TaskQueue_Size_def CoroutineTaskQueue_Size_def
  by (subst tq_size_loop.simps, subst ctq_size_loop.simps) (simp add: Let_def ctq_consts)

lemma ctq_Empty_erase: "TaskQueue_Empty (ctq_erase q) = CoroutineTaskQueue_Empty q"
  by (simp add: TaskQueue_Empty_def CoroutineTaskQueue_Empty_def ctq_Size_erase)

lemma ctq_Flush_erase1:
  assumes "CoroutineTaskQueue_Flush q = Some q'"
  shows "TaskQueue_Flush (ctq_erase q) = Some (ctq_erase q')"
  by (rule CoroutineTaskQueue_Flush.raw_induct [where P = "\<lambda>q q'. TaskQueue_Flush (ctq_erase q) = Some (ctq_erase q')", OF _ assms],
      subst TaskQueue_Flush.simps)
    (auto simp: ctq_Empty_erase ctq_PopBack_erase split: bind_splits if_splits option.splits prod.splits)

lemma ctq_Flush_erase2:
  assumes "TaskQueue_Flush (ctq_erase q) = Some p'"
  shows "\<exists>q'. CoroutineTaskQueue_Flush q = Some q'"
proof -
  have "\<forall>r. ctq_erase q = ctq_erase r \<longrightarrow> (\<exists>q'. CoroutineTaskQueue_Flush r = Some q')"
    by (rule TaskQueue_Flush.raw_induct [where P = "\<lambda>p p'. \<forall>q. p = ctq_erase q \<longrightarrow> (\<exists>q'. CoroutineTaskQueue_Flush q = Some q')", OF _ assms],
        intro allI impI, subst CoroutineTaskQueue_Flush.simps)
      (auto simp: ctq_Empty_erase ctq_PopBack_erase split: bind_splits if_splits option.splits prod.splits)
  then show ?thesis by blast
qed

lemma ctq_Flush_erase: "TaskQueue_Flush (ctq_erase q) = map_option ctq_erase (CoroutineTaskQueue_Flush q)"
proof (cases "CoroutineTaskQueue_Flush q")
  case None
  then show ?thesis using ctq_Flush_erase2 [of q] by (cases "TaskQueue_Flush (ctq_erase q)") auto
qed (simp add: ctq_Flush_erase1)

interpretation ctq: queue_erasure ctq_erase ctq_member tq_member
proof
  fix p :: "'a CoroutineTaskQueue" and c
  show "tq_member (ctq_erase p) c = map_option (map_prod id ctq_erase) (ctq_member p c)"
    by (cases "(p, c)" rule: ctq_member.cases)
      (simp_all add: ctq_PushFront_erase ctq_PopBack_erase ctq_Size_erase ctq_Empty_erase ctq_Flush_erase answer_with_def
        option.map_comp comp_def map_prod_def case_prod_unfold)
qed

lemma erase_new: "ctd_erase CoroutineTaskDeque_new = TaskDeque_new" "ctq_erase CoroutineTaskQueue_new = TaskQueue_new"
  by (simp_all add: ctd_erase_def CoroutineTaskDeque_new_def TaskDeque_new_def ctd_erase_elem_def ctd_consts
      ctq_erase_def CoroutineTaskQueue_new_def TaskQueue_new_def ctq_erase_elem_def fun_eq_iff)

subsection \<open>CoroutineThreadPool\<close>

text \<open>
  A ScheduleOperation is represented by the coroutine it resumes. The pool has an identity, which the
  thread-local PerThread record of its workers points to.
\<close>

record 'a CoroutineThreadPool =
  ctp_id :: nat
  ctp_mNumThreads :: u32
  ctp_queues :: "'a CoroutineTaskDeque list"
  ctp_mCoprimes :: "u32 list"
  ctp_mCancelled :: bool

record PerThread =
  pt_parent :: "nat option"
  pt_rng :: u64
  pt_thread_id :: int

definition PerThread_new :: PerThread where
  "PerThread_new = \<lparr>pt_parent = None, pt_rng = 0, pt_thread_id = - 1\<rparr>"

definition CoroutineThreadPool_new :: "nat \<Rightarrow> int \<Rightarrow> 'a CoroutineThreadPool option" where
  "CoroutineThreadPool_new self numThreads =
     (if numThreads \<ge> 1 then
        Some \<lparr>ctp_id = self, ctp_mNumThreads = word_of_int numThreads,
          ctp_queues = replicate (nat numThreads) CoroutineTaskDeque_new,
          ctp_mCoprimes = ComputeCoprimes (word_of_int numThreads), ctp_mCancelled = False\<rparr>
      else None)"

definition CoroutineThreadPool_Steal :: "PerThread \<Rightarrow> 'a CoroutineThreadPool \<Rightarrow> ('a option \<times> PerThread \<times> 'a CoroutineThreadPool) option" where
  "CoroutineThreadPool_Steal pt p =
     (let (r, rng1) = FastRng_next (pt_rng pt);
          victim = FastReduce r (ctp_mNumThreads p);
          j = unat (FastReduce r (of_nat (length (ctp_mCoprimes p))))
      in if j < length (ctp_mCoprimes p) then
           map_option (\<lambda>(t, qs). (t, pt\<lparr>pt_rng := rng1\<rparr>, p\<lparr>ctp_queues := qs\<rparr>))
             (wq_steal_loop CoroutineTaskDeque_PopBack (ctp_mNumThreads p) (ctp_mCoprimes p ! j) (unat (ctp_mNumThreads p)) victim (ctp_queues p))
         else None)"

text \<open>AddTask answers with the task that is resumed in the calling thread.\<close>

definition CoroutineThreadPool_AddTask ::
  "PerThread \<Rightarrow> 'a CoroutineThreadPool \<Rightarrow> 'a \<Rightarrow> ('a option \<times> PerThread \<times> 'a CoroutineThreadPool) option" where
  "CoroutineThreadPool_AddTask pt p task =
     (if pt_parent pt = Some (ctp_id p) then
        let i = nat (pt_thread_id pt) in
        if 0 \<le> pt_thread_id pt \<and> i < length (ctp_queues p) then
          (case CoroutineTaskDeque_PushFront (ctp_queues p ! i) task of
             (inlineTask, q) \<Rightarrow> Some (inlineTask, pt, p\<lparr>ctp_queues := (ctp_queues p)[i := q]\<rparr>))
        else None
      else
        let (r, rng1) = FastRng_next (pt_rng pt); rnd = unat (FastReduce r (ctp_mNumThreads p)) in
        if rnd < length (ctp_queues p) then
          (case CoroutineTaskDeque_PushBack (ctp_queues p ! rnd) task of
             (inlineTask, q) \<Rightarrow> Some (inlineTask, pt\<lparr>pt_rng := rng1\<rparr>, p\<lparr>ctp_queues := (ctp_queues p)[rnd := q]\<rparr>))
        else None)"

text \<open>
  The start of WorkerLoop, with the hash of the thread id, and one iteration of its loop: the answer is
  the coroutine that is resumed.
\<close>

definition WorkerLoop_start :: "u64 \<Rightarrow> 'a CoroutineThreadPool \<Rightarrow> int \<Rightarrow> PerThread" where
  "WorkerLoop_start hash p threadId = \<lparr>pt_parent = Some (ctp_id p), pt_rng = hash, pt_thread_id = threadId\<rparr>"

definition WorkerLoop_iteration ::
  "nat \<Rightarrow> PerThread \<Rightarrow> 'a CoroutineThreadPool \<Rightarrow> ('a option \<times> PerThread \<times> 'a CoroutineThreadPool) option" where
  "WorkerLoop_iteration threadId pt p =
     (if ctp_mCancelled p then Some (None, pt, p)
      else case CoroutineTaskDeque_PopFront (ctp_queues p ! threadId) of
        (t, q) \<Rightarrow>
          (let p1 = p\<lparr>ctp_queues := (ctp_queues p)[threadId := q]\<rparr> in
           case t of Some task \<Rightarrow> Some (Some task, pt, p1) | None \<Rightarrow> CoroutineThreadPool_Steal pt p1))"

text \<open>What a thread does to the pool: schedule a coroutine, or one iteration of a worker.\<close>

datatype 'a pool_event = Schedule PerThread 'a | WorkerTurn nat PerThread

fun ctp_event :: "'a CoroutineThreadPool \<Rightarrow> 'a pool_event \<Rightarrow> ('a option \<times> 'a CoroutineThreadPool) option" where
  "ctp_event p (Schedule pt t) = map_option (\<lambda>(r, pt1, p1). (r, p1)) (CoroutineThreadPool_AddTask pt p t)"
| "ctp_event p (WorkerTurn i pt) = map_option (\<lambda>(r, pt1, p1). (r, p1)) (WorkerLoop_iteration i pt p)"

fun event_input :: "'a pool_event \<Rightarrow> 'a multiset" where
  "event_input (Schedule pt t) = {#t#}"
| "event_input (WorkerTurn i pt) = {#}"

fun event_ok :: "nat \<Rightarrow> nat \<Rightarrow> 'a pool_event \<Rightarrow> bool" where
  "event_ok self n (Schedule pt t) \<longleftrightarrow> (pt_parent pt = Some self \<longrightarrow> 0 \<le> pt_thread_id pt \<and> nat (pt_thread_id pt) < n)"
| "event_ok self n (WorkerTurn i pt) \<longleftrightarrow> i < n"

subsection \<open>The pool keeps its tasks\<close>

definition ctd_abs :: "'a CoroutineTaskDeque \<Rightarrow> 'a list" where "ctd_abs q = td_abs (ctd_erase q)"
definition ctd_inv :: "'a CoroutineTaskDeque \<Rightarrow> bool" where "ctd_inv q \<longleftrightarrow> td_inv (ctd_erase q)"

lemma ctd_call_erase: "td_call (ctd_erase q) c = map_option (map_prod id ctd_erase) (ctd_call q c)"
  by (cases c) (simp_all add: ctd_PushFront_erase ctd_PushBack_erase ctd_PopFront_erase ctd_PopBack_erase)

interpretation ctdq: bounded_deque ctd_inv ctd_abs 1024 ctd_call
proof
  fix q :: "'a CoroutineTaskDeque" and c
  assume "ctd_inv q"
  then obtain r p where p: "td_call (ctd_erase q) c = Some (r, p)" "list_call 1024 (ctd_abs q) c = (r, td_abs p)" "td_inv p"
    using td.call_refines [of "ctd_erase q" c] by (auto simp: ctd_inv_def ctd_abs_def)
  then show "\<exists>r q1. ctd_call q c = Some (r, q1) \<and> list_call 1024 (ctd_abs q) c = (r, ctd_abs q1) \<and> ctd_inv q1"
    unfolding ctd_call_erase by (auto simp: ctd_inv_def ctd_abs_def)
qed

interpretation ctds: stealing_queue ctd_inv ctd_abs CoroutineTaskDeque_PopBack CoroutineTaskDeque_Empty
proof
  show "\<exists>r q1. CoroutineTaskDeque_PopBack q = Some (r, q1) \<and> fifo_pop (ctd_abs q) = (r, ctd_abs q1) \<and> ctd_inv q1"
    if "ctd_inv q" for q :: "'a CoroutineTaskDeque"
    using ctdq.call_refines [OF that, of CallPopBack] by simp
  show "CoroutineTaskDeque_Empty q = Some (ctd_abs q = [])" if "ctd_inv q" for q :: "'a CoroutineTaskDeque"
    using nb.empty_exact [of "ctd_erase q"] that by (simp add: ctd_inv_def ctd_abs_def NonBlockingWorkQueue_Empty_def ctd_Empty_erase)
qed

definition ctp_ok :: "nat \<Rightarrow> 'a CoroutineThreadPool \<Rightarrow> bool" where
  "ctp_ok n p \<longleftrightarrow> 0 < n \<and> n < 2 ^ 31 \<and> length (ctp_queues p) = n \<and> ctp_mNumThreads p = of_nat n \<and>
     ctp_mCoprimes p = ComputeCoprimes (of_nat n) \<and> (\<forall>q\<in>set (ctp_queues p). ctd_inv q)"

definition ctp_contents :: "'a CoroutineThreadPool \<Rightarrow> 'a multiset" where
  "ctp_contents p = wq_contents ctd_abs (ctp_queues p)"

lemma ctp_ok_update:
  assumes "ctp_ok n p" "j < n" "ctd_inv q"
  shows "ctp_ok n (p\<lparr>ctp_queues := (ctp_queues p)[j := q]\<rparr>)"
  using assms by (auto simp: ctp_ok_def dest!: set_update_subset_insert [THEN subsetD])

lemma ctp_contents_update:
  assumes "ctp_ok n p" "j < n" "mset (ctd_abs (ctp_queues p ! j)) + x = y + mset (ctd_abs q)"
  shows "ctp_contents p + x = y + ctp_contents (p\<lparr>ctp_queues := (ctp_queues p)[j := q]\<rparr>)"
  using wq_contents_update [of j "ctp_queues p" ctd_abs x y q] assms by (simp add: ctp_contents_def ctp_ok_def)

text \<open>One call on the queue of thread \<open>j\<close>.\<close>

lemma ctp_queue_call:
  assumes "ctp_ok n p" "j < n"
  shows "\<exists>r q. ctd_call (ctp_queues p ! j) c = Some (r, q) \<and> list_call 1024 (ctd_abs (ctp_queues p ! j)) c = (r, ctd_abs q) \<and>
    ctp_ok n (p\<lparr>ctp_queues := (ctp_queues p)[j := q]\<rparr>) \<and>
    ctp_contents p + call_input c = answer_mset r + ctp_contents (p\<lparr>ctp_queues := (ctp_queues p)[j := q]\<rparr>)"
proof -
  have "ctd_inv (ctp_queues p ! j)" using assms by (auto simp: ctp_ok_def)
  from ctdq.call_refines [OF this, of c] obtain r q
    where q: "ctd_call (ctp_queues p ! j) c = Some (r, q)" "list_call 1024 (ctd_abs (ctp_queues p ! j)) c = (r, ctd_abs q)" "ctd_inv q"
    by blast
  then show ?thesis
    using ctp_ok_update [OF assms q(3)] ctp_contents_update [OF assms list_call_conserves [OF q(2)]] by blast
qed

lemma ctp_AddTask:
  assumes "ctp_ok n p" "event_ok (ctp_id p) n (Schedule pt t)"
  shows "\<exists>r pt1 p1. CoroutineThreadPool_AddTask pt p t = Some (r, pt1, p1) \<and> ctp_ok n p1 \<and> ctp_id p1 = ctp_id p \<and>
    ctp_mCancelled p1 = ctp_mCancelled p \<and> ctp_contents p + {#t#} = answer_mset r + ctp_contents p1"
proof (cases "pt_parent pt = Some (ctp_id p)")
  case True
  then have i: "0 \<le> pt_thread_id pt" "nat (pt_thread_id pt) < n" using assms(2) by auto
  show ?thesis
    using ctp_queue_call [OF assms(1) i(2), of "CallPushFront t"] True i assms(1)
    by (auto simp: CoroutineThreadPool_AddTask_def ctp_ok_def)
next
  case False
  obtain r rng where r: "FastRng_next (pt_rng pt) = (r, rng)" by fastforce
  let ?n = "ctp_mNumThreads p"
  have "0 < ?n" "unat ?n = n" using assms(1) by (auto simp: ctp_ok_def word_less_nat_alt unat_of_nat)
  then have j: "unat (FastReduce r ?n) < n" using FastReduce_less [of ?n r] by simp
  show ?thesis
    using ctp_queue_call [OF assms(1) j, of "CallPushBack t"] False j assms(1)
    by (auto simp: CoroutineThreadPool_AddTask_def ctp_ok_def r)
qed

lemma CoroutineThreadPool_Steal_base:
  "CoroutineThreadPool_Steal pt p =
     map_option (\<lambda>(t, rng, qs). (t, pt\<lparr>pt_rng := rng\<rparr>, p\<lparr>ctp_queues := qs\<rparr>))
       (WorkQueueBase_Steal CoroutineTaskDeque_PopBack (ctp_mNumThreads p) (ctp_mCoprimes p) (pt_rng pt) (ctp_queues p))"
  by (simp add: CoroutineThreadPool_Steal_def WorkQueueBase_Steal_def Let_def case_prod_unfold option.map_comp comp_def)

lemma wq_contents_empty: "wq_contents c qs = {#} \<longleftrightarrow> (\<forall>q\<in>set qs. c q = [])"
  by (induction qs) (auto simp: wq_contents_def)

lemma wq_contents_map: "map c qs = map c qs1 \<Longrightarrow> wq_contents c qs = wq_contents c qs1"
proof -
  assume "map c qs = map c qs1"
  moreover have "wq_contents c xs = sum_list (map mset (map c xs))" for xs by (simp add: wq_contents_def comp_def)
  ultimately show ?thesis by (simp del: map_map)
qed

lemma ctp_Steal:
  assumes "ctp_ok n p"
  shows "\<exists>r pt1 p1. CoroutineThreadPool_Steal pt p = Some (r, pt1, p1) \<and> ctp_ok n p1 \<and> ctp_id p1 = ctp_id p \<and>
    ctp_mCancelled p1 = ctp_mCancelled p \<and> ctp_contents p = answer_mset r + ctp_contents p1 \<and> (r = None \<longleftrightarrow> ctp_contents p = {#})"
proof -
  let ?qs = "ctp_queues p"
  have h: "\<forall>q\<in>set ?qs. ctd_inv q" "?qs \<noteq> []" "length ?qs < 2 ^ 31" "ctp_mNumThreads p = of_nat (length ?qs)"
      "ctp_mCoprimes p = ComputeCoprimes (ctp_mNumThreads p)"
    using assms by (auto simp: ctp_ok_def)
  obtain r rng1 qs1 where st: "WorkQueueBase_Steal CoroutineTaskDeque_PopBack (ctp_mNumThreads p) (ctp_mCoprimes p) (pt_rng pt) ?qs = Some (r, rng1, qs1)"
      "\<forall>q\<in>set qs1. ctd_inv q"
      "case r of None \<Rightarrow> (\<forall>q\<in>set ?qs. ctd_abs q = []) \<and> map ctd_abs qs1 = map ctd_abs ?qs
       | Some t \<Rightarrow> \<exists>i<length ?qs. ctd_abs (?qs ! i) = t # tl (ctd_abs (?qs ! i)) \<and> map ctd_abs qs1 = (map ctd_abs ?qs)[i := tl (ctd_abs (?qs ! i))]"
    using ctds.Steal_complete [OF h(1-4), of "pt_rng pt"] unfolding h(5) by blast
  let ?p1 = "p\<lparr>ctp_queues := qs1\<rparr>"
  have len: "length qs1 = length ?qs" using st(3) by (auto split: option.splits dest: map_eq_imp_length_eq) (metis length_list_update length_map)+
  have "ctp_contents p = answer_mset r + ctp_contents ?p1 \<and> (r = None \<longleftrightarrow> ctp_contents p = {#})"
  proof (cases r)
    case None
    with st(3) show ?thesis by (auto simp: ctp_contents_def wq_contents_empty intro: wq_contents_map)
  next
    case (Some t)
    then obtain i where i: "i < length ?qs" "ctd_abs (?qs ! i) = t # tl (ctd_abs (?qs ! i))"
        "map ctd_abs qs1 = (map ctd_abs ?qs)[i := tl (ctd_abs (?qs ! i))]" using st(3) by auto
    have at: "qs1[i := qs1 ! i] = qs1" by simp
    have abs_i: "ctd_abs (qs1 ! i) = tl (ctd_abs (?qs ! i))" using i(1,3) len by (metis length_map nth_list_update_eq nth_map)
    have "map ctd_abs (?qs[i := qs1 ! i]) = map ctd_abs qs1" using i(3) abs_i by (simp add: map_update)
    then have same: "wq_contents ctd_abs (?qs[i := qs1 ! i]) = wq_contents ctd_abs qs1" by (rule wq_contents_map)
    have "mset (ctd_abs (?qs ! i)) + {#} = {#t#} + mset (ctd_abs (qs1 ! i))" using i(2) abs_i by (metis add_0_right add_mset_add_single mset.simps(2) union_commute)
    from wq_contents_update [of i ?qs ctd_abs, OF i(1) this] same Some i(1,2) show ?thesis
      by (auto simp: ctp_contents_def)
  qed
  with st(1,2) len assms show ?thesis by (auto simp: CoroutineThreadPool_Steal_base ctp_ok_def)
qed

lemma ctp_worker:
  assumes "ctp_ok n p" "i < n" "\<not> ctp_mCancelled p"
  shows "\<exists>r pt1 p1. WorkerLoop_iteration i pt p = Some (r, pt1, p1) \<and> ctp_ok n p1 \<and> ctp_id p1 = ctp_id p \<and>
    \<not> ctp_mCancelled p1 \<and> ctp_contents p = answer_mset r + ctp_contents p1 \<and> (r = None \<longleftrightarrow> ctp_contents p = {#})"
proof -
  obtain r q where q: "CoroutineTaskDeque_PopFront (ctp_queues p ! i) = (r, q)"
      "ctp_ok n (p\<lparr>ctp_queues := (ctp_queues p)[i := q]\<rparr>)"
      "ctp_contents p = answer_mset r + ctp_contents (p\<lparr>ctp_queues := (ctp_queues p)[i := q]\<rparr>)"
    using ctp_queue_call [OF assms(1,2), of CallPopFront] by auto
  show ?thesis
  proof (cases r)
    case None
    then show ?thesis using ctp_Steal [OF q(2), of pt] q assms(3) by (auto simp: WorkerLoop_iteration_def)
  next
    case (Some t)
    then show ?thesis using q assms(3) by (auto simp: WorkerLoop_iteration_def)
  qed
qed

lemma ctp_run:
  assumes "ctp_ok n p" "\<not> ctp_mCancelled p" "\<forall>e\<in>set es. event_ok (ctp_id p) n e"
  shows "\<exists>rs p1. run_calls ctp_event p es = Some (rs, p1) \<and> ctp_ok n p1 \<and> \<not> ctp_mCancelled p1 \<and>
    ctp_contents p + sum_list (map event_input es) = sum_list (map answer_mset rs) + ctp_contents p1"
  using assms
proof (induction es arbitrary: p)
  case (Cons e es)
  obtain r p1 where p1: "ctp_event p e = Some (r, p1)" "ctp_ok n p1" "ctp_id p1 = ctp_id p" "\<not> ctp_mCancelled p1"
      "ctp_contents p + event_input e = answer_mset r + ctp_contents p1"
  proof (cases e)
    case (Schedule pt t)
    then show ?thesis using ctp_AddTask [OF Cons.prems(1), of pt t] Cons.prems that by fastforce
  next
    case (WorkerTurn i pt)
    then show ?thesis using ctp_worker [OF Cons.prems(1) _ Cons.prems(2), of i pt] Cons.prems that by fastforce
  qed
  obtain rs p2 where "run_calls ctp_event p1 es = Some (rs, p2)" "ctp_ok n p2" "\<not> ctp_mCancelled p2"
      "ctp_contents p1 + sum_list (map event_input es) = sum_list (map answer_mset rs) + ctp_contents p2"
    using Cons.IH [OF p1(2,4)] Cons.prems(3) p1(3) by auto
  with p1 show ?case by (simp add: add.assoc [symmetric])
qed auto

lemma ctp_new_ok:
  assumes "0 < n" "n < 2 ^ 31" "CoroutineThreadPool_new self (int n) = Some p"
  shows "ctp_ok n p" "\<not> ctp_mCancelled p" "ctp_contents p = {#}" "ctp_id p = self"
  using assms td_new_inv
  by (auto simp: CoroutineThreadPool_new_def ctp_ok_def ctd_inv_def ctd_abs_def erase_new ctp_contents_def wq_contents_empty split: if_splits)

subsection \<open>Properties\<close>

text \<open>
  C20. The queues of the coroutine library are equivalent to those of the
  work queues: any sequence of calls of all their member functions on new objects gives the same
  answers, does not return in the same cases, and the resulting states are the same up to the stale
  pointers in free slots.
\<close>

theorem CoroutineQueues_equivalent:
  "map_option (map_prod id ctd_erase) (run_calls ctd_member CoroutineTaskDeque_new cs) = run_calls td_member TaskDeque_new cs \<and>
   map_option (map_prod id ctq_erase) (run_calls ctq_member CoroutineTaskQueue_new ds) = run_calls tq_member TaskQueue_new ds"
  using ctd.run_erase [of CoroutineTaskDeque_new cs] ctq.run_erase [of CoroutineTaskQueue_new ds] by (simp add: erase_new)

text \<open>
  On a new pool of \<open>n\<close> threads every sequence of Schedule calls
  and worker iterations, by any threads, runs to its end; the scheduled coroutines are exactly those
  resumed plus those in the queues, none twice; and an iteration of any worker resumes a coroutine
  whenever some queue of the pool holds one.
\<close>

theorem CoroutineThreadPool_no_task_lost:
  assumes "0 < n" "n < 2 ^ 31" "CoroutineThreadPool_new self (int n) = Some p" "\<forall>e\<in>set es. event_ok self n e"
  shows "\<exists>rs p1. run_calls ctp_event p es = Some (rs, p1) \<and>
    sum_list (map event_input es) = sum_list (map answer_mset rs) + ctp_contents p1 \<and>
    (\<forall>i<n. \<forall>pt. \<exists>r pt1 p2. WorkerLoop_iteration i pt p1 = Some (r, pt1, p2) \<and> (r = None \<longleftrightarrow> ctp_contents p1 = {#}))"
proof -
  note new = ctp_new_ok [OF assms(1-3)]
  obtain rs p1 where p1: "run_calls ctp_event p es = Some (rs, p1)" "ctp_ok n p1" "\<not> ctp_mCancelled p1"
      "sum_list (map event_input es) = sum_list (map answer_mset rs) + ctp_contents p1"
    using ctp_run [OF new(1,2), of es] assms(4) new(3,4) by auto
  then show ?thesis using ctp_worker [OF p1(2) _ p1(3)] by blast
qed

theorem CoroutineThreadPool_no_task_lost_witness:
  "\<exists>p rs p1. CoroutineThreadPool_new 0 2 = Some p \<and>
     run_calls ctp_event p [Schedule PerThread_new 5, WorkerTurn 1 PerThread_new] = Some (rs, p1) \<and>
     {#5 :: nat#} = sum_list (map answer_mset rs) + ctp_contents p1"
proof -
  obtain p :: "nat CoroutineThreadPool" where p: "CoroutineThreadPool_new 0 (int 2) = Some p"
    by (simp add: CoroutineThreadPool_new_def)
  have "\<forall>e\<in>set [Schedule PerThread_new (5::nat), WorkerTurn 1 PerThread_new]. event_ok 0 2 e"
    by (simp add: PerThread_new_def)
  from CoroutineThreadPool_no_task_lost [OF _ _ p this] p show ?thesis by auto
qed

end
