(* ===== verification/Concurrent_Vector.thy ===== *)
theory Concurrent_Vector
  imports Prelude
begin

text \<open>
  The append-only vector of \<^verbatim>\<open>src/async/support/concurrent_vector.h\<close> (ConcurrentVector) and its one
  client, the table of types behind the type ids of \<^verbatim>\<open>src/async/context/async_value.cpp\<close>
  (AsyncValue::CreateTypeInfoAndReturnTypeIdImpl and GetTypeInfo).

  A std::vector is a list with a capacity; \<open>rsv n\<close> is the capacity after reserve(n), of which the
  standard promises only \<open>n \<le> rsv n\<close>. An emplace_back that would relocate the elements is \<open>None\<close>, as
  it would invalidate concurrent readers; so is a failed assert or an access out of range.
\<close>

subsection \<open>State\<close>

record cv_State =
  cvs_mLastAllocated :: u64
  cvs_size :: u64

record 'a cv_buffer =
  buf_elems :: "'a list"
  buf_capacity :: nat

record 'a ConcurrentVector =
  cv_mState :: u64
  cv_mAllAllocatedElements :: "'a cv_buffer list"
  cv_capacity :: nat

definition kLastAllocatedMask :: u64 where "kLastAllocatedMask = push_bit 32 1 - 1"
definition kSizeMask :: u64 where "kSizeMask = push_bit 32 (push_bit 32 1 - 1)"

definition State_Decode :: "u64 \<Rightarrow> cv_State" where
  "State_Decode state =
     \<lparr>cvs_mLastAllocated = state AND kLastAllocatedMask, cvs_size = drop_bit 32 (state AND kSizeMask)\<rparr>"

definition State_Encode :: "cv_State \<Rightarrow> u64" where
  "State_Encode st = push_bit 32 (cvs_size st) OR cvs_mLastAllocated st"

definition ConcurrentVector_new :: "(nat \<Rightarrow> nat) \<Rightarrow> nat \<Rightarrow> 'a ConcurrentVector" where
  "ConcurrentVector_new rsv initial_capacity =
     \<lparr>cv_mState = 0, cv_mAllAllocatedElements = [\<lparr>buf_elems = [], buf_capacity = rsv (max 1 initial_capacity)\<rparr>],
      cv_capacity = rsv 65\<rparr>"

subsection \<open>Operations\<close>

definition buf_emplace_back :: "'a cv_buffer \<Rightarrow> 'a \<Rightarrow> 'a cv_buffer option" where
  "buf_emplace_back b x =
     (if length (buf_elems b) < buf_capacity b then Some (b\<lparr>buf_elems := buf_elems b @ [x]\<rparr>) else None)"

definition cv_allocate :: "'a ConcurrentVector \<Rightarrow> 'a cv_buffer \<Rightarrow> 'a ConcurrentVector option" where
  "cv_allocate v b =
     (if length (cv_mAllAllocatedElements v) < cv_capacity v
      then Some (v\<lparr>cv_mAllAllocatedElements := cv_mAllAllocatedElements v @ [b]\<rparr>) else None)"

text \<open>The part of emplace_back before the new state is stored: the answer is that state.\<close>

definition cv_insert :: "(nat \<Rightarrow> nat) \<Rightarrow> 'a ConcurrentVector \<Rightarrow> 'a \<Rightarrow> (cv_State \<times> 'a ConcurrentVector) option" where
  "cv_insert rsv v x =
     (let bs = cv_mAllAllocatedElements v; prev = last bs in
      if length (buf_elems prev) < buf_capacity prev then
        map_option (\<lambda>b. (let state = State_Decode (cv_mState v) in state\<lparr>cvs_size := cvs_size state + 1\<rparr>,
                         v\<lparr>cv_mAllAllocatedElements := butlast bs @ [b]\<rparr>))
          (buf_emplace_back prev x)
      else if length (buf_elems prev) \<noteq> buf_capacity prev then None
      else Option.bind (buf_emplace_back \<lparr>buf_elems = buf_elems prev, buf_capacity = rsv (buf_capacity prev * 2)\<rparr> x)
        (\<lambda>b. map_option
           (\<lambda>v1. (let state = State_Decode (cv_mState v) in
                   state\<lparr>cvs_mLastAllocated := cvs_mLastAllocated state + 1, cvs_size := cvs_size state + 1\<rparr>, v1))
           (cv_allocate v b)))"

definition cv_publish :: "cv_State \<Rightarrow> 'a ConcurrentVector \<Rightarrow> 'a ConcurrentVector" where
  "cv_publish st v = v\<lparr>cv_mState := State_Encode st\<rparr>"

definition ConcurrentVector_emplace_back :: "(nat \<Rightarrow> nat) \<Rightarrow> 'a ConcurrentVector \<Rightarrow> 'a \<Rightarrow> (u64 \<times> 'a ConcurrentVector) option" where
  "ConcurrentVector_emplace_back rsv v x =
     map_option (\<lambda>(st, v1). (cvs_size st - 1, cv_publish st v1)) (cv_insert rsv v x)"

definition ConcurrentVector_size :: "'a ConcurrentVector \<Rightarrow> u64" where
  "ConcurrentVector_size v = cvs_size (State_Decode (cv_mState v))"

text \<open>operator[] with the state it has loaded, and the whole call without interference.\<close>

definition cv_read :: "'a ConcurrentVector \<Rightarrow> cv_State \<Rightarrow> u64 \<Rightarrow> 'a option" where
  "cv_read v state index =
     (let k = unat (cvs_mLastAllocated state) in
      if index < cvs_size state \<and> k < length (cv_mAllAllocatedElements v) then
        let b = cv_mAllAllocatedElements v ! k in
        if unat index < length (buf_elems b) then Some (buf_elems b ! unat index) else None
      else None)"

definition ConcurrentVector_at :: "'a ConcurrentVector \<Rightarrow> u64 \<Rightarrow> 'a option" where
  "ConcurrentVector_at v index = cv_read v (State_Decode (cv_mState v)) index"

fun cv_emplace_all :: "(nat \<Rightarrow> nat) \<Rightarrow> 'a ConcurrentVector \<Rightarrow> 'a list \<Rightarrow> (u64 list \<times> 'a ConcurrentVector) option" where
  "cv_emplace_all rsv v [] = Some ([], v)"
| "cv_emplace_all rsv v (x # xs) =
     (case ConcurrentVector_emplace_back rsv v x of None \<Rightarrow> None
      | Some (i, v1) \<Rightarrow> map_option (\<lambda>(is, v2). (i # is, v2)) (cv_emplace_all rsv v1 xs))"

subsection \<open>Readers beside a writer\<close>

text \<open>
  Writers hold the mutex, so one emplace_back is in flight at a time; a reader may load the state and
  read the element at any moment. \<open>cs_pending\<close> is the state the writer has not stored yet, \<open>cs_log\<close>
  the values inserted so far.
\<close>

record 'a cv_sys =
  cs_vec :: "'a ConcurrentVector"
  cs_pending :: "cv_State option"
  cs_log :: "'a list"

inductive cv_step :: "(nat \<Rightarrow> nat) \<Rightarrow> 'a cv_sys \<Rightarrow> 'a cv_sys \<Rightarrow> bool" for rsv where
  cv_write: "cs_pending s = None \<Longrightarrow> cv_insert rsv (cs_vec s) x = Some (st, v) \<Longrightarrow>
    cv_step rsv s \<lparr>cs_vec = v, cs_pending = Some st, cs_log = cs_log s @ [x]\<rparr>"
| cv_store: "cs_pending s = Some st \<Longrightarrow>
    cv_step rsv s (s\<lparr>cs_vec := cv_publish st (cs_vec s), cs_pending := None\<rparr>)"

inductive_cases cv_stepE: "cv_step rsv s t"

inductive cv_reach :: "(nat \<Rightarrow> nat) \<Rightarrow> 'a cv_sys \<Rightarrow> 'a cv_sys \<Rightarrow> bool" for rsv s where
  cv_here: "cv_reach rsv s s"
| cv_next: "cv_reach rsv s t \<Longrightarrow> cv_step rsv t u \<Longrightarrow> cv_reach rsv s u"

definition cv_start :: "(nat \<Rightarrow> nat) \<Rightarrow> nat \<Rightarrow> 'a cv_sys" where
  "cv_start rsv cap = \<lparr>cs_vec = ConcurrentVector_new rsv cap, cs_pending = None, cs_log = []\<rparr>"

subsection \<open>The packed state\<close>

lemma cv_masks: "kLastAllocatedMask = mask 32" "kSizeMask = push_bit 32 (mask 32)"
  by (simp_all add: kLastAllocatedMask_def kSizeMask_def mask_eq_exp_minus_1)

lemma State_Decode_unat:
  "unat (cvs_mLastAllocated (State_Decode w)) = unat w mod 2 ^ 32"
  "unat (cvs_size (State_Decode w)) = unat w div 2 ^ 32"
proof -
  show "unat (cvs_mLastAllocated (State_Decode w)) = unat w mod 2 ^ 32"
    unfolding State_Decode_def cv_masks cv_State.simps by (rule unat_and_mask)
  have "unat w div 2 ^ 32 < 2 ^ 32" using unat_lt2p [of w] by (simp add: div_less_iff_less_mult)
  then show "unat (cvs_size (State_Decode w)) = unat w div 2 ^ 32"
    unfolding State_Decode_def cv_masks cv_State.simps unat_field by simp
qed

lemma State_roundtrip:
  assumes "unat (cvs_mLastAllocated st) < 2 ^ 32" "unat (cvs_size st) < 2 ^ 32"
  shows "State_Decode (State_Encode st) = st"
proof -
  have l: "take_bit 32 (cvs_mLastAllocated st) = cvs_mLastAllocated st"
    using assms(1) by (simp add: word_unat_eq_iff unat_take_bit_word)
  have s: "take_bit 32 (cvs_size st) = cvs_size st"
    using assms(2) by (simp add: word_unat_eq_iff unat_take_bit_word)
  have nb: "bit (cvs_mLastAllocated st) n \<Longrightarrow> n < 32" "bit (cvs_size st) n \<Longrightarrow> n < 32" for n
    using l s by (metis bit_take_bit_iff)+
  have "State_Encode st AND mask 32 = cvs_mLastAllocated st"
    by (rule bit_word_eqI) (auto simp: State_Encode_def bit_simps dest: nb)
  moreover have "take_bit 32 (drop_bit 32 (State_Encode st)) = cvs_size st"
    by (rule bit_word_eqI) (auto simp: State_Encode_def bit_simps dest: nb)
  ultimately show ?thesis unfolding State_Decode_def cv_masks field_extract by simp
qed

text \<open>The 2 ^ 32-nd element wraps the size field of the state back to zero.\<close>

lemma State_Encode_overflow:
  assumes "cvs_size st = 2 ^ 32"
  shows "cvs_size (State_Decode (State_Encode st)) = drop_bit 32 (cvs_mLastAllocated st)"
proof -
  have "push_bit 32 (2 ^ 32 :: u64) = 0" by simp
  then show ?thesis
    unfolding State_Decode_def cv_masks cv_State.simps field_extract State_Encode_def assms
    by (intro bit_word_eqI) (auto simp: bit_simps dest: bit_imp_lt_length)
qed

subsection \<open>Invariant\<close>

text \<open>
  The buffers for the inserted values \<open>xs\<close>: every buffer holds a prefix of \<open>xs\<close> within its capacity,
  which is at least a power of two, the last one holds all of \<open>xs\<close> and the others are full.
\<close>

definition cv_bufs :: "'a list \<Rightarrow> 'a cv_buffer list \<Rightarrow> bool" where
  "cv_bufs xs bs \<longleftrightarrow> bs \<noteq> [] \<and> buf_elems (last bs) = xs \<and>
     (\<forall>j<length bs. length (buf_elems (bs ! j)) \<le> buf_capacity (bs ! j) \<and> 2 ^ j \<le> buf_capacity (bs ! j) \<and>
        buf_elems (bs ! j) = take (length (buf_elems (bs ! j))) xs) \<and>
     (\<forall>j. Suc j < length bs \<longrightarrow> buf_capacity (bs ! j) < length xs)"

text \<open>A state word that a reader may use: its buffer exists and holds at least its elements.\<close>

definition cv_readable :: "'a ConcurrentVector \<Rightarrow> cv_State \<Rightarrow> bool" where
  "cv_readable v st \<longleftrightarrow> (let k = unat (cvs_mLastAllocated st); bs = cv_mAllAllocatedElements v in
     k < length bs \<and> unat (cvs_size st) \<le> length (buf_elems (bs ! k)))"

definition cv_exact :: "'a list \<Rightarrow> 'a ConcurrentVector \<Rightarrow> cv_State \<Rightarrow> bool" where
  "cv_exact xs v st \<longleftrightarrow> unat (cvs_size st) = length xs \<and>
     Suc (unat (cvs_mLastAllocated st)) = length (cv_mAllAllocatedElements v)"

definition cv_inv :: "'a cv_sys \<Rightarrow> bool" where
  "cv_inv s \<longleftrightarrow> cv_bufs (cs_log s) (cv_mAllAllocatedElements (cs_vec s)) \<and> 65 \<le> cv_capacity (cs_vec s) \<and>
     (case cs_pending s of
        None \<Rightarrow> cv_exact (cs_log s) (cs_vec s) (State_Decode (cv_mState (cs_vec s)))
      | Some st \<Rightarrow> cv_exact (cs_log s) (cs_vec s) st \<and> cv_readable (cs_vec s) (State_Decode (cv_mState (cs_vec s))))"

lemma cv_bufs_count:
  assumes "cv_bufs xs bs" "length xs \<le> 2 ^ 32"
  shows "length bs \<le> 33"
proof (rule ccontr)
  assume "\<not> length bs \<le> 33"
  then have "Suc 32 < length bs" by simp
  then have "(2 :: nat) ^ 32 \<le> buf_capacity (bs ! 32)" "buf_capacity (bs ! 32) < length xs"
    using assms(1) unfolding cv_bufs_def by (meson Suc_lessD)+
  with assms(2) show False by simp
qed

lemma take_prefix_append: "ys = take (length ys) xs \<Longrightarrow> ys = take (length ys) (xs @ zs)"
proof -
  assume ys: "ys = take (length ys) xs"
  then have "length ys \<le> length xs" by (metis length_take min.cobounded1 min.commute)
  with ys show ?thesis by simp
qed

lemma cv_bufs_butlast_nth: "j < length bs - 1 \<Longrightarrow> (butlast bs @ [b]) ! j = bs ! j"
  by (simp add: nth_append nth_butlast)

lemma cv_bufs_grow:
  assumes "cv_bufs xs bs" "length xs < buf_capacity (last bs)"
  shows "cv_bufs (xs @ [x]) (butlast bs @ [(last bs)\<lparr>buf_elems := xs @ [x]\<rparr>])"
proof -
  let ?b = "(last bs)\<lparr>buf_elems := xs @ [x]\<rparr>" and ?k = "length bs - 1"
  have B: "bs \<noteq> []" "buf_elems (last bs) = xs"
      "\<And>j. j < length bs \<Longrightarrow> length (buf_elems (bs ! j)) \<le> buf_capacity (bs ! j) \<and> 2 ^ j \<le> buf_capacity (bs ! j) \<and>
        buf_elems (bs ! j) = take (length (buf_elems (bs ! j))) xs"
      "\<And>j. Suc j < length bs \<Longrightarrow> buf_capacity (bs ! j) < length xs"
    using assms(1) by (auto simp: cv_bufs_def)
  have len: "length (butlast bs @ [?b]) = length bs" using B(1) by (simp add: Suc_diff_le Suc_le_eq)
  have old: "(butlast bs @ [?b]) ! j = bs ! j" if "j < ?k" for j using that by (rule cv_bufs_butlast_nth)
  have new: "(butlast bs @ [?b]) ! ?k = ?b" by (simp add: nth_append)
  have pre: "buf_elems (bs ! j) = take (length (buf_elems (bs ! j))) (xs @ [x])" if "j < length bs" for j
    using B(3) [OF that] take_prefix_append by blast
  have lastcap: "2 ^ ?k \<le> buf_capacity (last bs)" using B(3) [of ?k] B(1) by (simp add: last_conv_nth)
  show ?thesis unfolding cv_bufs_def len
  proof (intro conjI allI impI)
    fix j assume "j < length bs"
    then consider "j < ?k" | "j = ?k" using B(1) by linarith
    then show "length (buf_elems ((butlast bs @ [?b]) ! j)) \<le> buf_capacity ((butlast bs @ [?b]) ! j)"
      "2 ^ j \<le> buf_capacity ((butlast bs @ [?b]) ! j)"
      "buf_elems ((butlast bs @ [?b]) ! j) = take (length (buf_elems ((butlast bs @ [?b]) ! j))) (xs @ [x])"
      using old [of j] new B(3) [of j] pre [of j] \<open>j < length bs\<close> assms(2) lastcap by (cases; simp)+
  next
    fix j assume j: "Suc j < length bs"
    then show "buf_capacity ((butlast bs @ [?b]) ! j) < length (xs @ [x])"
      using old [of j] B(4) [OF j] by simp
  qed (use B in simp_all)
qed

lemma cv_bufs_allocate:
  assumes "cv_bufs xs bs" "length xs = buf_capacity (last bs)" "2 * buf_capacity (last bs) \<le> c"
  shows "cv_bufs (xs @ [x]) (bs @ [\<lparr>buf_elems = xs @ [x], buf_capacity = c\<rparr>])"
proof -
  let ?b = "\<lparr>buf_elems = xs @ [x], buf_capacity = c\<rparr>" and ?k = "length bs - 1"
  have B: "bs \<noteq> []" "buf_elems (last bs) = xs"
      "\<And>j. j < length bs \<Longrightarrow> length (buf_elems (bs ! j)) \<le> buf_capacity (bs ! j) \<and> 2 ^ j \<le> buf_capacity (bs ! j) \<and>
        buf_elems (bs ! j) = take (length (buf_elems (bs ! j))) xs"
      "\<And>j. Suc j < length bs \<Longrightarrow> buf_capacity (bs ! j) < length xs"
    using assms(1) by (auto simp: cv_bufs_def)
  have lastcap: "2 ^ ?k \<le> buf_capacity (last bs)" using B(3) [of ?k] B(1) by (simp add: last_conv_nth)
  then have "2 * 2 ^ ?k \<le> c" using assms(3) by linarith
  moreover have "(2 :: nat) * 2 ^ ?k = 2 ^ length bs" using B(1) by (cases bs) simp_all
  ultimately have c1: "2 ^ length bs \<le> c" by simp
  have "0 < buf_capacity (last bs)" using lastcap by (metis less_le_trans zero_less_numeral zero_less_power)
  with assms(2,3) have c2: "length xs < c" by linarith
  have pre: "buf_elems (bs ! j) = take (length (buf_elems (bs ! j))) (xs @ [x])" if "j < length bs" for j
    using B(3) [OF that] take_prefix_append by blast
  show ?thesis unfolding cv_bufs_def
  proof (intro conjI allI impI)
    fix j assume "j < length (bs @ [?b])"
    then consider "j < length bs" | "j = length bs" by fastforce
    then show "length (buf_elems ((bs @ [?b]) ! j)) \<le> buf_capacity ((bs @ [?b]) ! j)"
      "2 ^ j \<le> buf_capacity ((bs @ [?b]) ! j)"
      "buf_elems ((bs @ [?b]) ! j) = take (length (buf_elems ((bs @ [?b]) ! j))) (xs @ [x])"
      using B(3) [of j] pre [of j] c1 c2 by (cases; simp add: nth_append)+
  next
    fix j assume "Suc j < length (bs @ [?b])"
    then consider "Suc j < length bs" | "j = ?k" "j < length bs" by fastforce
    then show "buf_capacity ((bs @ [?b]) ! j) < length (xs @ [x])"
      using B(1) B(4) [of j] assms(2) by (cases) (simp_all add: nth_append last_conv_nth)
  qed simp_all
qed

text \<open>One insertion, whatever the state word says about other moments.\<close>

lemma cv_insert_ok:
  assumes "\<And>n. n \<le> rsv n" "cv_bufs xs (cv_mAllAllocatedElements v)" "65 \<le> cv_capacity v" "length xs < 2 ^ 32"
    "cv_exact xs v (State_Decode (cv_mState v))"
  shows "\<exists>st v1. cv_insert rsv v x = Some (st, v1) \<and> cv_mState v1 = cv_mState v \<and> cv_capacity v1 = cv_capacity v \<and>
    cv_bufs (xs @ [x]) (cv_mAllAllocatedElements v1) \<and> cv_exact (xs @ [x]) v1 st"
proof -
  let ?bs = "cv_mAllAllocatedElements v" and ?st = "State_Decode (cv_mState v)"
  have B: "?bs \<noteq> []" "buf_elems (last ?bs) = xs" using assms(2) by (auto simp: cv_bufs_def)
  have small: "unat (cvs_size ?st) < 2 ^ 32" "unat (cvs_mLastAllocated ?st) < 2 ^ 32"
    using assms(4,5) State_Decode_unat(1) [of "cv_mState v"] by (simp_all add: cv_exact_def)
  have inc: "unat (w + 1) = Suc (unat w)" if "unat w < 2 ^ 32" for w :: u64
  proof (rule unat_Suc_word)
    have "unat (- 1 :: u64) = 2 ^ 64 - 1" by (simp add: unsigned_minus_1_eq_mask mask_eq_exp_minus_1)
    with that show "w \<noteq> - 1" by auto
  qed
  have le: "length xs \<le> buf_capacity (last ?bs)"
  proof -
    have "length ?bs - 1 < length ?bs" using B(1) by simp
    then have "length (buf_elems (?bs ! (length ?bs - 1))) \<le> buf_capacity (?bs ! (length ?bs - 1))"
      using assms(2) unfolding cv_bufs_def by blast
    then show ?thesis using B by (simp add: last_conv_nth)
  qed
  show ?thesis
  proof (cases "length xs < buf_capacity (last ?bs)")
    case True
    then show ?thesis
      using cv_bufs_grow [OF assms(2) True, of x] assms(5) inc [OF small(1)] B
      by (auto simp: cv_insert_def buf_emplace_back_def Let_def cv_exact_def)
  next
    case False
    then have full: "length xs = buf_capacity (last ?bs)" using le by simp
    have room: "length ?bs < cv_capacity v" using cv_bufs_count [OF assms(2)] assms(3,4) by simp
    have c: "2 * buf_capacity (last ?bs) \<le> rsv (buf_capacity (last ?bs) * 2)"
      using assms(1) [of "buf_capacity (last ?bs) * 2"] by (simp add: mult.commute)
    note al = cv_bufs_allocate [OF assms(2) full c, of x]
    have "length xs < rsv (buf_capacity (last ?bs) * 2)"
    proof -
      have "length (buf_elems ((?bs @ [\<lparr>buf_elems = xs @ [x], buf_capacity = rsv (buf_capacity (last ?bs) * 2)\<rparr>]) ! length ?bs)) \<le>
          buf_capacity ((?bs @ [\<lparr>buf_elems = xs @ [x], buf_capacity = rsv (buf_capacity (last ?bs) * 2)\<rparr>]) ! length ?bs)"
        using al unfolding cv_bufs_def by (metis length_append_singleton lessI)
      then show ?thesis by simp
    qed
    then show ?thesis
      using al assms(5) inc [OF small(1)] inc [OF small(2)] B full room
      by (auto simp: cv_insert_def buf_emplace_back_def cv_allocate_def Let_def cv_exact_def)
  qed
qed

lemma cv_exact_readable: "cv_bufs xs (cv_mAllAllocatedElements v) \<Longrightarrow> cv_exact xs v st \<Longrightarrow> cv_readable v st"
proof -
  assume a: "cv_bufs xs (cv_mAllAllocatedElements v)" "cv_exact xs v st"
  then have "unat (cvs_mLastAllocated st) = length (cv_mAllAllocatedElements v) - 1" by (metis cv_exact_def diff_Suc_1)
  moreover have "cv_mAllAllocatedElements v \<noteq> []" "buf_elems (last (cv_mAllAllocatedElements v)) = xs" using a(1) by (simp_all add: cv_bufs_def)
  ultimately show ?thesis using a(2) by (simp add: cv_readable_def cv_exact_def Let_def last_conv_nth)
qed

lemma cv_exact_decode:
  assumes "cv_bufs xs (cv_mAllAllocatedElements v)" "cv_exact xs v st" "length xs < 2 ^ 32"
  shows "State_Decode (State_Encode st) = st"
  using assms cv_bufs_count [OF assms(1)] by (intro State_roundtrip) (simp_all add: cv_exact_def)

text \<open>Reading through any readable state gives the inserted values.\<close>

lemma cv_read_log:
  assumes "cv_bufs xs (cv_mAllAllocatedElements v)" "cv_readable v st"
  shows "cv_read v st index = (if index < cvs_size st then Some (xs ! unat index) else None)"
proof (cases "index < cvs_size st")
  case True
  let ?b = "cv_mAllAllocatedElements v ! unat (cvs_mLastAllocated st)"
  have r: "unat (cvs_mLastAllocated st) < length (cv_mAllAllocatedElements v)" "unat index < length (buf_elems ?b)"
    using assms(2) True by (auto simp: cv_readable_def Let_def word_less_nat_alt)
  have "buf_elems ?b = take (length (buf_elems ?b)) xs" using assms(1) r(1) by (auto simp: cv_bufs_def)
  then have "buf_elems ?b ! unat index = xs ! unat index" using r(2) by (metis nth_take)
  with True r show ?thesis by (simp add: cv_read_def Let_def)
qed (simp add: cv_read_def)

text \<open>What a step leaves: older buffers keep their elements, so readable states stay readable.\<close>

lemma cv_insert_readable:
  assumes "cv_insert rsv v x = Some (st', v1)" "cv_bufs xs (cv_mAllAllocatedElements v)" "cv_readable v st"
  shows "cv_readable v1 st"
proof -
  let ?bs = "cv_mAllAllocatedElements v" and ?k = "unat (cvs_mLastAllocated st)"
  have k: "?k < length ?bs" "unat (cvs_size st) \<le> length (buf_elems (?bs ! ?k))"
    using assms(3) by (simp_all add: cv_readable_def Let_def)
  from assms(1) consider (grow) b where "buf_emplace_back (last ?bs) x = Some b" "cv_mAllAllocatedElements v1 = butlast ?bs @ [b]"
    | (alloc) b where "cv_mAllAllocatedElements v1 = ?bs @ [b]"
    by (auto simp: cv_insert_def cv_allocate_def Let_def split: if_splits bind_splits)
  then show ?thesis
  proof cases
    case grow
    show ?thesis
    proof (cases "?k < length ?bs - 1")
      case True
      then show ?thesis using k grow(2) by (simp add: cv_readable_def cv_bufs_butlast_nth)
    next
      case False
      then have "?k = length ?bs - 1" "?bs \<noteq> []" using k(1) by auto
      then have last: "?k = length ?bs - 1" "?bs ! ?k = last ?bs" by (simp_all add: last_conv_nth)
      have "(butlast ?bs @ [b]) ! ?k = b" by (simp add: last(1) nth_append)
      then show ?thesis using k last grow by (auto simp: cv_readable_def buf_emplace_back_def split: if_splits)
    qed
  next
    case alloc
    then show ?thesis using k by (simp add: cv_readable_def nth_append)
  qed
qed

lemma cv_publish_sel [simp]:
  "cv_mAllAllocatedElements (cv_publish st v) = cv_mAllAllocatedElements v" "cv_capacity (cv_publish st v) = cv_capacity v"
  "cv_mState (cv_publish st v) = State_Encode st"
  by (simp_all add: cv_publish_def)

lemma cv_publish_frame [simp]:
  "cv_exact xs (cv_publish st v) st' = cv_exact xs v st'" "cv_readable (cv_publish st v) st' = cv_readable v st'"
  "cv_read (cv_publish st v) st' = cv_read v st'"
  by (simp_all add: cv_exact_def cv_readable_def cv_read_def fun_eq_iff Let_def)

lemma cv_step_inv:
  assumes "cv_step rsv s t" "\<And>n. n \<le> rsv n" "cv_inv s" "length (cs_log t) < 2 ^ 32"
  shows "cv_inv t"
  using assms(1)
proof cases
  case (cv_write x st v)
  let ?v = "cs_vec s"
  have i: "cv_bufs (cs_log s) (cv_mAllAllocatedElements ?v)" "65 \<le> cv_capacity ?v" "length (cs_log s) < 2 ^ 32"
      "cv_exact (cs_log s) ?v (State_Decode (cv_mState ?v))"
    using assms(3,4) cv_write by (auto simp: cv_inv_def)
  note ins = cv_insert_ok [OF assms(2) i, of x]
  have "cv_readable v (State_Decode (cv_mState ?v))"
    by (rule cv_insert_readable [OF cv_write(3) i(1) cv_exact_readable [OF i(1,4)]])
  then show ?thesis using ins cv_write i(2) by (auto simp: cv_inv_def)
next
  case (cv_store st)
  then have i: "cv_bufs (cs_log s) (cv_mAllAllocatedElements (cs_vec s))" "65 \<le> cv_capacity (cs_vec s)" "cv_exact (cs_log s) (cs_vec s) st"
    using assms(3) by (auto simp: cv_inv_def)
  then show ?thesis using cv_store assms(4) cv_exact_decode [OF i(1,3)] by (auto simp: cv_inv_def)
qed

lemma cv_step_log: "cv_step rsv s t \<Longrightarrow> \<exists>ys. cs_log t = cs_log s @ ys"
  by (erule cv_stepE) auto

lemma cv_reach_log: "cv_reach rsv s t \<Longrightarrow> \<exists>ys. cs_log t = cs_log s @ ys"
  by (induction rule: cv_reach.induct) (auto dest!: cv_step_log)

lemma cv_reach_inv:
  assumes "cv_reach rsv s t" "\<And>n. n \<le> rsv n" "cv_inv s" "length (cs_log t) < 2 ^ 32"
  shows "cv_inv t"
  using assms
proof (induction rule: cv_reach.induct)
  case (cv_next t u)
  have "length (cs_log t) < 2 ^ 32" using cv_next.prems(3) cv_step_log [OF cv_next.hyps(2)] by auto
  then show ?case using cv_next by (intro cv_step_inv [OF cv_next.hyps(2)]) auto
qed

lemma cv_start_inv: "(\<And>n. n \<le> rsv n) \<Longrightarrow> cv_inv (cv_start rsv cap)"
proof -
  assume "\<And>n. n \<le> rsv n"
  then have "65 \<le> rsv 65" "1 \<le> rsv (max 1 cap)" using le_trans max.cobounded1 by blast+
  moreover have "State_Decode 0 = \<lparr>cvs_mLastAllocated = 0, cvs_size = 0\<rparr>" by (simp add: State_Decode_def)
  ultimately show ?thesis
    by (simp add: cv_inv_def cv_start_def ConcurrentVector_new_def cv_bufs_def cv_exact_def)
qed

lemma cv_reach_readable:
  assumes "cv_reach rsv s t" "\<And>n. n \<le> rsv n" "cv_inv s" "length (cs_log t) < 2 ^ 32" "cv_readable (cs_vec s) st"
  shows "cv_readable (cs_vec t) st"
  using assms
proof (induction rule: cv_reach.induct)
  case (cv_next t u)
  have len: "length (cs_log t) < 2 ^ 32" using cv_next.prems(3) cv_step_log [OF cv_next.hyps(2)] by auto
  then have inv: "cv_inv t" using cv_reach_inv [OF cv_next.hyps(1) cv_next.prems(1,2)] by blast
  then have bufs: "cv_bufs (cs_log t) (cv_mAllAllocatedElements (cs_vec t))" by (simp add: cv_inv_def)
  have "cv_readable (cs_vec t) st" using cv_next len by blast
  with cv_next.hyps(2) bufs show ?case by (auto elim!: cv_stepE intro: cv_insert_readable)
qed

lemma cv_inv_current:
  assumes "cv_inv s"
  shows "cv_readable (cs_vec s) (State_Decode (cv_mState (cs_vec s)))"
  using assms by (auto simp: cv_inv_def intro: cv_exact_readable split: option.splits)

text \<open>A call of emplace_back is a write followed by the store.\<close>

lemma cv_emplace_reach:
  assumes "\<And>n. n \<le> rsv n" "cv_inv s" "cs_pending s = None" "Suc (length (cs_log s)) < 2 ^ 32"
  shows "\<exists>v. ConcurrentVector_emplace_back rsv (cs_vec s) x = Some (of_nat (length (cs_log s)), v) \<and>
    cv_reach rsv s \<lparr>cs_vec = v, cs_pending = None, cs_log = cs_log s @ [x]\<rparr>"
proof -
  have i: "cv_bufs (cs_log s) (cv_mAllAllocatedElements (cs_vec s))" "65 \<le> cv_capacity (cs_vec s)" "length (cs_log s) < 2 ^ 32"
      "cv_exact (cs_log s) (cs_vec s) (State_Decode (cv_mState (cs_vec s)))"
    using assms(2-4) by (auto simp: cv_inv_def)
  from cv_insert_ok [OF assms(1) i, of x] obtain st v1 where v1: "cv_insert rsv (cs_vec s) x = Some (st, v1)" "cv_exact (cs_log s @ [x]) v1 st"
    by blast
  let ?s1 = "\<lparr>cs_vec = v1, cs_pending = Some st, cs_log = cs_log s @ [x]\<rparr>"
  have "cv_reach rsv s ?s1" by (rule cv_next [OF cv_here cv_write [OF assms(3) v1(1)]])
  then have r: "cv_reach rsv s (?s1\<lparr>cs_vec := cv_publish st (cs_vec ?s1), cs_pending := None\<rparr>)"
    by (rule cv_next) (rule cv_store, simp)
  have "unat (cvs_size st) = Suc (length (cs_log s))" using v1(2) by (simp add: cv_exact_def)
  then have "cvs_size st - 1 = of_nat (length (cs_log s))"
    by (metis add_diff_cancel_right' of_nat_Suc add.commute word_unat_inverse)
  with v1(1) r show ?thesis by (auto simp: ConcurrentVector_emplace_back_def)
qed

lemma cv_emplace_all_reach:
  assumes "\<And>n. n \<le> rsv n" "cv_inv s" "cs_pending s = None" "length (cs_log s) + length xs < 2 ^ 32"
  shows "\<exists>v. cv_emplace_all rsv (cs_vec s) xs = Some (map of_nat [length (cs_log s)..<length (cs_log s) + length xs], v) \<and>
    cv_inv \<lparr>cs_vec = v, cs_pending = None, cs_log = cs_log s @ xs\<rparr>"
  using assms(2-4)
proof (induction xs arbitrary: s)
  case Nil
  then have "s = \<lparr>cs_vec = cs_vec s, cs_pending = None, cs_log = cs_log s\<rparr>" by simp
  with Nil(1) show ?case by simp
next
  case (Cons x xs)
  obtain v where v: "ConcurrentVector_emplace_back rsv (cs_vec s) x = Some (of_nat (length (cs_log s)), v)"
      "cv_reach rsv s \<lparr>cs_vec = v, cs_pending = None, cs_log = cs_log s @ [x]\<rparr>"
    using cv_emplace_reach [OF assms(1) Cons.prems(1,2), of x] Cons.prems(3) by auto
  let ?s1 = "\<lparr>cs_vec = v, cs_pending = None, cs_log = cs_log s @ [x]\<rparr>"
  have "cv_inv ?s1" using cv_reach_inv [OF v(2) assms(1) Cons.prems(1)] Cons.prems(3) by simp
  from Cons.IH [OF this] Cons.prems(3) obtain v2 where
    "cv_emplace_all rsv v xs = Some (map of_nat [Suc (length (cs_log s))..<Suc (length (cs_log s)) + length xs], v2)"
    "cv_inv \<lparr>cs_vec = v2, cs_pending = None, cs_log = cs_log s @ x # xs\<rparr>" by auto
  with v(1) show ?case by (simp add: upt_conv_Cons del: upt_Suc)
qed

lemma cv_inv_reads:
  assumes "cv_inv s" "cs_pending s = None" "length (cs_log s) < 2 ^ 32"
  shows "ConcurrentVector_size (cs_vec s) = of_nat (length (cs_log s))"
    and "ConcurrentVector_at (cs_vec s) index = (if unat index < length (cs_log s) then Some (cs_log s ! unat index) else None)"
proof -
  have e: "cv_bufs (cs_log s) (cv_mAllAllocatedElements (cs_vec s))"
      "cv_exact (cs_log s) (cs_vec s) (State_Decode (cv_mState (cs_vec s)))"
    using assms(1,2) by (auto simp: cv_inv_def)
  have sz: "unat (cvs_size (State_Decode (cv_mState (cs_vec s)))) = length (cs_log s)" using e(2) by (simp add: cv_exact_def)
  then show "ConcurrentVector_size (cs_vec s) = of_nat (length (cs_log s))"
    unfolding ConcurrentVector_size_def by (metis word_unat_inverse)
  show "ConcurrentVector_at (cs_vec s) index = (if unat index < length (cs_log s) then Some (cs_log s ! unat index) else None)"
    using cv_read_log [OF e(1) cv_exact_readable [OF e]] sz by (simp add: ConcurrentVector_at_def word_less_nat_alt)
qed

subsection \<open>The table of types\<close>

text \<open>
  TypeInfo holds the destructor of a type; the type id is the index in the table plus one, kept in
  16 bits.
\<close>

definition GetTypeInfoTableSingleton :: "(nat \<Rightarrow> nat) \<Rightarrow> 'd ConcurrentVector" where
  "GetTypeInfoTableSingleton rsv = ConcurrentVector_new rsv 64"

definition CreateTypeInfoAndReturnTypeIdImpl :: "(nat \<Rightarrow> nat) \<Rightarrow> 'd ConcurrentVector \<Rightarrow> 'd \<Rightarrow> (u16 \<times> 'd ConcurrentVector) option" where
  "CreateTypeInfoAndReturnTypeIdImpl rsv table destructor =
     (case ConcurrentVector_emplace_back rsv table destructor of
        None \<Rightarrow> None
      | Some (i, table1) \<Rightarrow> (let typeId = i + 1 in if typeId < 65535 then Some (ucast typeId, table1) else None))"

definition GetTypeInfo :: "'d ConcurrentVector \<Rightarrow> u16 \<Rightarrow> 'd option" where
  "GetTypeInfo table typeId = (if typeId = 0 then None else ConcurrentVector_at table (ucast typeId - 1))"

fun cv_register_all :: "(nat \<Rightarrow> nat) \<Rightarrow> 'd ConcurrentVector \<Rightarrow> 'd list \<Rightarrow> (u16 list \<times> 'd ConcurrentVector) option" where
  "cv_register_all rsv t [] = Some ([], t)"
| "cv_register_all rsv t (d # ds) =
     (case CreateTypeInfoAndReturnTypeIdImpl rsv t d of None \<Rightarrow> None
      | Some (i, t1) \<Rightarrow> map_option (\<lambda>(is, t2). (i # is, t2)) (cv_register_all rsv t1 ds))"

lemma cv_register_one:
  assumes "\<And>n. n \<le> rsv n" "cv_inv s" "cs_pending s = None" "length (cs_log s) < 65535"
  shows "if length (cs_log s) < 65534
    then \<exists>v. CreateTypeInfoAndReturnTypeIdImpl rsv (cs_vec s) d = Some (of_nat (Suc (length (cs_log s))), v) \<and>
       cv_inv \<lparr>cs_vec = v, cs_pending = None, cs_log = cs_log s @ [d]\<rparr>
    else CreateTypeInfoAndReturnTypeIdImpl rsv (cs_vec s) d = None"
proof -
  let ?n = "length (cs_log s)"
  obtain v where v: "ConcurrentVector_emplace_back rsv (cs_vec s) d = Some (of_nat ?n, v)"
      "cv_reach rsv s \<lparr>cs_vec = v, cs_pending = None, cs_log = cs_log s @ [d]\<rparr>"
    using cv_emplace_reach [OF assms(1-3), of d] assms(4) by auto
  have "unat (of_nat ?n + 1 :: u64) = Suc ?n"
  proof -
    have "of_nat ?n + 1 = (of_nat (Suc ?n) :: u64)" by simp
    then show ?thesis using assms(4) by (simp only: unat_of_nat) simp
  qed
  then have less: "(of_nat ?n + 1 :: u64) < 65535 \<longleftrightarrow> ?n < 65534" by (simp add: word_less_nat_alt)
  have cast: "ucast (of_nat ?n + 1 :: u64) = (of_nat (Suc ?n) :: u16)"
    using \<open>unat (of_nat ?n + 1 :: u64) = Suc ?n\<close> by (metis of_nat_unat)
  show ?thesis
  proof (cases "?n < 65534")
    case True
    moreover have "cv_inv \<lparr>cs_vec = v, cs_pending = None, cs_log = cs_log s @ [d]\<rparr>"
      using cv_reach_inv [OF v(2) assms(1,2)] assms(4) by simp
    ultimately show ?thesis
      using v(1) less cast by (simp add: CreateTypeInfoAndReturnTypeIdImpl_def Let_def)
  qed (use v(1) less in \<open>simp add: CreateTypeInfoAndReturnTypeIdImpl_def Let_def\<close>)
qed

lemma cv_register_all_inv:
  assumes "\<And>n. n \<le> rsv n" "cv_inv s" "cs_pending s = None" "length (cs_log s) + length ds \<le> 65534"
  shows "\<exists>v. cv_register_all rsv (cs_vec s) ds = Some (map of_nat [Suc (length (cs_log s))..<Suc (length (cs_log s) + length ds)], v) \<and>
    cv_inv \<lparr>cs_vec = v, cs_pending = None, cs_log = cs_log s @ ds\<rparr>"
  using assms(2-4)
proof (induction ds arbitrary: s)
  case Nil
  then have "s = \<lparr>cs_vec = cs_vec s, cs_pending = None, cs_log = cs_log s\<rparr>" by simp
  with Nil(1) show ?case by simp
next
  case (Cons d ds)
  obtain v where v: "CreateTypeInfoAndReturnTypeIdImpl rsv (cs_vec s) d = Some (of_nat (Suc (length (cs_log s))), v)"
      "cv_inv \<lparr>cs_vec = v, cs_pending = None, cs_log = cs_log s @ [d]\<rparr>"
    using cv_register_one [OF assms(1) Cons.prems(1,2), of d] Cons.prems(3) by auto
  from Cons.IH [OF v(2)] Cons.prems(3) obtain v2 where
    "cv_register_all rsv v ds = Some (map of_nat [Suc (Suc (length (cs_log s)))..<Suc (Suc (length (cs_log s)) + length ds)], v2)"
    "cv_inv \<lparr>cs_vec = v2, cs_pending = None, cs_log = cs_log s @ d # ds\<rparr>" by auto
  with v(1) show ?case by (simp add: upt_conv_Cons del: upt_Suc)
qed

subsection \<open>Properties\<close>

text \<open>
  C21. Up to 2 ^ 32 - 1 emplace_back calls on a new vector return
  consecutive indices and never relocate a buffer or the vector of buffers, whatever capacity reserve
  gives beyond what it is asked for; size is the number of elements, operator[] gives the element
  inserted at that index and fails its assert outside the range.
\<close>

theorem ConcurrentVector_refines_list:
  assumes "\<forall>n. n \<le> rsv n" "length xs < 2 ^ 32"
  shows "\<exists>v. cv_emplace_all rsv (ConcurrentVector_new rsv cap) xs = Some (map of_nat [0..<length xs], v) \<and>
    ConcurrentVector_size v = of_nat (length xs) \<and>
    (\<forall>index. ConcurrentVector_at v index = (if unat index < length xs then Some (xs ! unat index) else None)) \<and>
    length (cv_mAllAllocatedElements v) \<le> 33"
proof -
  have rsv: "\<And>n. n \<le> rsv n" using assms(1) by blast
  obtain v where v: "cv_emplace_all rsv (ConcurrentVector_new rsv cap) xs = Some (map of_nat [0..<length xs], v)"
      "cv_inv \<lparr>cs_vec = v, cs_pending = None, cs_log = xs\<rparr>"
    using cv_emplace_all_reach [OF rsv cv_start_inv [OF rsv, of cap], of xs] assms(2) by (auto simp: cv_start_def)
  have "cv_bufs xs (cv_mAllAllocatedElements v)" using v(2) by (simp add: cv_inv_def)
  then have "length (cv_mAllAllocatedElements v) \<le> 33" using assms(2) by (intro cv_bufs_count) auto
  with v cv_inv_reads [OF v(2)] assms(2) show ?thesis by simp
qed

theorem ConcurrentVector_refines_list_witness:
  "\<exists>v. cv_emplace_all id (ConcurrentVector_new id 1) [7, 8, 9 :: nat] = Some ([0, 1, 2], v) \<and> ConcurrentVector_at v 2 = Some 9 \<and>
     ConcurrentVector_at v 3 = None"
proof -
  have "unat (2 :: u64) = 2" "unat (3 :: u64) = 3" by simp_all
  then show ?thesis using ConcurrentVector_refines_list [of id "[7, 8, 9 :: nat]" 1] by (auto simp: upt_rec)
qed

text \<open>
  C22. A reader that loaded the state at any moment may read at any later
  moment, with any number of emplace_back calls completed or in flight in between: every index below
  the size it loaded gives the element inserted there, without a lock, and any other index fails the
  assert. Meanwhile a writer that holds the mutex is never stuck.
\<close>

theorem ConcurrentVector_reader_stable:
  assumes "\<forall>n. n \<le> rsv n" "cv_reach rsv (cv_start rsv cap) s" "cv_reach rsv s t" "Suc (length (cs_log t)) < 2 ^ 32"
  shows "(\<forall>index. let st = State_Decode (cv_mState (cs_vec s)) in
      unat (cvs_size st) \<le> length (cs_log s) \<and>
      cv_read (cs_vec t) st index = (if index < cvs_size st then Some (cs_log s ! unat index) else None)) \<and>
    (\<exists>u. cv_step rsv t u)"
proof -
  have rsv: "\<And>n. n \<le> rsv n" using assms(1) by blast
  obtain ys where ys: "cs_log t = cs_log s @ ys" using cv_reach_log [OF assms(3)] by blast
  have inv_s: "cv_inv s" using cv_reach_inv [OF assms(2) rsv cv_start_inv [OF rsv]] assms(4) ys by simp
  have inv_t: "cv_inv t" using cv_reach_inv [OF assms(3) rsv inv_s] assms(4) by simp
  let ?st = "State_Decode (cv_mState (cs_vec s))"
  have rd: "cv_readable (cs_vec s) ?st" "cv_readable (cs_vec t) ?st"
    using cv_inv_current [OF inv_s] cv_reach_readable [OF assms(3) rsv inv_s] assms(4) by auto
  have bufs: "cv_bufs (cs_log s) (cv_mAllAllocatedElements (cs_vec s))" "cv_bufs (cs_log t) (cv_mAllAllocatedElements (cs_vec t))"
    using inv_s inv_t by (simp_all add: cv_inv_def)
  have size: "unat (cvs_size ?st) \<le> length (cs_log s)"
    using rd(1) bufs(1) unfolding cv_readable_def cv_bufs_def Let_def by (metis length_take min.boundedE)
  have "cs_log t ! unat i = cs_log s ! unat i" if "i < cvs_size ?st" for i
    using that size ys by (simp add: word_less_nat_alt nth_append)
  then have read: "cv_read (cs_vec t) ?st i = (if i < cvs_size ?st then Some (cs_log s ! unat i) else None)" for i
    using cv_read_log [OF bufs(2) rd(2), of i] by simp
  have "\<exists>u. cv_step rsv t u"
  proof (cases "cs_pending t")
    case None
    then obtain st v where "cv_insert rsv (cs_vec t) undefined = Some (st, v)"
      using cv_insert_ok [OF rsv bufs(2), of undefined] inv_t assms(4) by (auto simp: cv_inv_def)
    then show ?thesis using cv_write [OF None] by blast
  qed (auto intro: cv_store)
  with size read show ?thesis by (simp add: Let_def)
qed

theorem ConcurrentVector_reader_stable_witness:
  "\<exists>s t. cv_reach id (cv_start id 1) s \<and> cv_reach id s t \<and> cs_log t = [7, 8 :: nat] \<and>
     cv_read (cs_vec t) (State_Decode (cv_mState (cs_vec s))) 0 = Some 7"
proof -
  have id: "\<And>n :: nat. n \<le> id n" by simp
  obtain v1 where v1: "cv_reach id (cv_start id 1) \<lparr>cs_vec = v1, cs_pending = None, cs_log = [7 :: nat]\<rparr>"
    using cv_emplace_reach [of id "cv_start id 1" "7 :: nat", OF id cv_start_inv [OF id]] by (auto simp: cv_start_def)
  let ?s = "\<lparr>cs_vec = v1, cs_pending = None, cs_log = [7 :: nat]\<rparr>"
  have inv: "cv_inv ?s" using cv_reach_inv [OF v1 id cv_start_inv [of id, OF id]] by simp
  obtain v2 where v2: "cv_reach id ?s \<lparr>cs_vec = v2, cs_pending = None, cs_log = [7, 8]\<rparr>"
    using cv_emplace_reach [of id ?s 8, OF id inv] by auto
  have "unat (cvs_size (State_Decode (cv_mState v1))) = 1" using inv by (simp add: cv_inv_def cv_exact_def)
  then have "0 < cvs_size (State_Decode (cv_mState v1))" by (simp add: word_less_nat_alt)
  then show ?thesis
    using ConcurrentVector_reader_stable [of id 1, OF _ v1 v2] v1 v2
    by (intro exI [of _ ?s] exI [of _ "\<lparr>cs_vec = v2, cs_pending = None, cs_log = [7, 8]\<rparr>"]) (simp add: Let_def)
qed

text \<open>
  C23. The first 65534 registered types get the type ids 1, 2, 3 and so on, all
  different and none 0, and GetTypeInfo of each gives back the destructor registered with it; the next
  registration fails its overflow assert.
\<close>

theorem AsyncValue_type_ids:
  assumes "\<forall>n. n \<le> rsv n" "length ds \<le> 65534"
  shows "\<exists>table. cv_register_all rsv (GetTypeInfoTableSingleton rsv) ds = Some (map of_nat [1..<Suc (length ds)], table) \<and>
    distinct (map of_nat [1..<Suc (length ds)] :: u16 list) \<and>
    (\<forall>i<length ds. GetTypeInfo table (of_nat (Suc i)) = Some (ds ! i)) \<and> GetTypeInfo table 0 = None \<and>
    (length ds = 65534 \<longrightarrow> (\<forall>d. CreateTypeInfoAndReturnTypeIdImpl rsv table d = None))"
proof -
  have rsv: "\<And>n. n \<le> rsv n" using assms(1) by blast
  obtain v where v: "cv_register_all rsv (GetTypeInfoTableSingleton rsv) ds = Some (map of_nat [1..<Suc (length ds)], v)"
      "cv_inv \<lparr>cs_vec = v, cs_pending = None, cs_log = ds\<rparr>"
    using cv_register_all_inv [OF rsv cv_start_inv [OF rsv, of 64], of ds] assms(2)
    by (auto simp: cv_start_def GetTypeInfoTableSingleton_def simp del: upt_Suc)
  have dist: "distinct (map of_nat [1..<Suc (length ds)] :: u16 list)"
    using assms(2) by (auto simp: distinct_map inj_on_def of_nat_inj_small simp del: upt_Suc)
  have get: "GetTypeInfo v (of_nat (Suc i)) = Some (ds ! i)" if i: "i < length ds" for i
  proof -
    have u: "unat (of_nat (Suc i) :: u16) = Suc i" using i assms(2) by (simp only: unat_of_nat) simp
    have nz: "(of_nat (Suc i) :: u16) \<noteq> 0" using u by (metis nat.distinct(1) unat_0)
    have "ucast (of_nat (Suc i) :: u16) - 1 = (of_nat i :: u64)" using u by (metis add_diff_cancel_left' of_nat_Suc of_nat_unat)
    moreover have "unat (of_nat i :: u64) = i" using i assms(2) by (simp only: unat_of_nat) simp
    ultimately show ?thesis
      using nz i cv_inv_reads(2) [OF v(2), of "of_nat i"] assms(2) by (simp only: GetTypeInfo_def) simp
  qed
  have "CreateTypeInfoAndReturnTypeIdImpl rsv v d = None" if "length ds = 65534" for d
    using cv_register_one [OF rsv v(2), of d] that by simp
  with v(1) dist get show ?thesis by (auto simp: GetTypeInfo_def simp del: upt_Suc)
qed

theorem AsyncValue_type_ids_witness:
  "\<exists>table. cv_register_all id (GetTypeInfoTableSingleton id) [''a'', ''b''] = Some ([1, 2], table) \<and>
     GetTypeInfo table 2 = Some ''b''"
proof -
  obtain table where t: "cv_register_all id (GetTypeInfoTableSingleton id) [''a'', ''b''] = Some (map of_nat [1..<Suc (length [''a'', ''b''])], table)"
      "\<forall>i<length [''a'', ''b'']. GetTypeInfo table (of_nat (Suc i)) = Some ([''a'', ''b''] ! i)"
    using AsyncValue_type_ids [of id "[''a'', ''b'']"] by auto
  have "map of_nat [1..<Suc (length [''a'', ''b''])] = [1, 2 :: u16]" by (simp add: upt_rec)
  moreover have "GetTypeInfo table 2 = Some ''b''" using t(2) [rule_format, of 1] by simp
  ultimately show ?thesis using t(1) by auto
qed

end
