(* ===== verification/Latch.thy ===== *)
theory Latch
  imports Prelude
begin

text \<open>
  The single-use barrier of \<^verbatim>\<open>src/async/support/latch.h\<close>, which MultiThreadedWorkQueue::Await blocks on.
  The 64-bit state holds the counter in its upper 63 bits and, in bit 0, whether a thread has started
  to wait; \<open>notified_\<close> is written and read under the mutex. The operations that block are split where
  other threads may run in between; a failed assert is \<open>None\<close>. A thread on the condition variable sleeps until
  notify_all or a spurious wake-up makes it test \<open>notified_\<close> again.
\<close>

subsection \<open>Operations\<close>

record latch =
  lt_state :: u64
  lt_notified :: bool

definition latch_new :: "int \<Rightarrow> latch option" where
  "latch_new c =
     (if 0 \<le> c \<and> (word_of_int c :: u64) < 2 ^ 63
      then Some \<lparr>lt_state = push_bit 1 (word_of_int c), lt_notified = False\<rparr> else None)"

definition latch_add_count :: "u64 \<Rightarrow> latch \<Rightarrow> latch" where
  "latch_add_count n l = l\<lparr>lt_state := lt_state l + n * 2\<rparr>"

text \<open>
  The first half of count_down: the answer says whether the thread goes on to the critical section
  that wakes the waiters.
\<close>

definition latch_count_down_sub :: "u64 \<Rightarrow> latch \<Rightarrow> (bool \<times> latch) option" where
  "latch_count_down_sub n l =
     (let state = lt_state l; l1 = l\<lparr>lt_state := state - n * 2\<rparr> in
      if drop_bit 1 state \<ge> n then Some (drop_bit 1 state = n \<and> state AND 1 = 1, l1) else None)"

definition latch_notify :: "latch \<Rightarrow> latch option" where
  "latch_notify l = (if lt_notified l then None else Some (l\<lparr>lt_notified := True\<rparr>))"

definition latch_try_wait :: "latch \<Rightarrow> bool" where
  "latch_try_wait l \<longleftrightarrow> drop_bit 1 (lt_state l) = 0"

text \<open>The first half of wait: the answer says whether it returns at once.\<close>

definition latch_wait_or :: "latch \<Rightarrow> bool \<times> latch" where
  "latch_wait_or l = (drop_bit 1 (lt_state l) = 0, l\<lparr>lt_state := lt_state l OR 1\<rparr>)"

definition latch_destroy :: "latch \<Rightarrow> unit option" where
  "latch_destroy l = (if latch_try_wait l then Some () else None)"

subsection \<open>Threads\<close>

text \<open>
  Where a thread is: outside the latch, before the critical section of count_down, before the test of the
  predicate of cv_.wait, or asleep on cv_. The flag of \<open>LNotify\<close> is set in arrive_and_wait, which waits
  afterwards.
\<close>

datatype lt_pc = LIdle | LNotify bool | LStartWait | LBlocked | LSleep

record lt_sys =
  ls_latch :: latch
  ls_pc :: "lt_pc list"
  ls_released :: bool

datatype lt_op = CountDown u64 | AddCount u64 | Wait | ArriveAndWait u64

definition ls_at :: "lt_sys \<Rightarrow> nat \<Rightarrow> lt_pc \<Rightarrow> bool" where
  "ls_at s i p \<longleftrightarrow> i < length (ls_pc s) \<and> ls_pc s ! i = p"

definition ls_go :: "lt_sys \<Rightarrow> nat \<Rightarrow> lt_pc \<Rightarrow> latch \<Rightarrow> lt_sys" where
  "ls_go s i p l = s\<lparr>ls_latch := l, ls_pc := (ls_pc s)[i := p]\<rparr>"

definition ls_waited :: "lt_sys \<Rightarrow> nat \<Rightarrow> bool \<times> latch \<Rightarrow> lt_sys" where
  "ls_waited s i r = (case r of
     (True, l) \<Rightarrow> (ls_go s i LIdle l)\<lparr>ls_released := True\<rparr>
   | (False, l) \<Rightarrow> ls_go s i LBlocked l)"

text \<open>cv_.notify_all: whoever sleeps tests the predicate again.\<close>

definition latch_notify_all :: "lt_sys \<Rightarrow> lt_sys" where
  "latch_notify_all s = s\<lparr>ls_pc := map (\<lambda>p. if p = LSleep then LBlocked else p) (ls_pc s)\<rparr>"

text \<open>
  The move of a thread that is inside an operation; \<open>None\<close> when it is not, sleeps, or an assert fails.
\<close>

fun ls_advance :: "lt_sys \<Rightarrow> nat \<Rightarrow> lt_pc \<Rightarrow> lt_sys option" where
  "ls_advance s i LIdle = None"
| "ls_advance s i (LNotify wait) =
     map_option (ls_go (latch_notify_all s) i (if wait then LStartWait else LIdle)) (latch_notify (ls_latch s))"
| "ls_advance s i LStartWait = Some (ls_waited s i (latch_wait_or (ls_latch s)))"
| "ls_advance s i LBlocked =
     Some (if lt_notified (ls_latch s) then (ls_go s i LIdle (ls_latch s))\<lparr>ls_released := True\<rparr> else ls_go s i LSleep (ls_latch s))"
| "ls_advance s i LSleep = None"

text \<open>The start of an operation by an idle thread.\<close>

fun ls_begin :: "lt_sys \<Rightarrow> nat \<Rightarrow> lt_op \<Rightarrow> lt_sys option" where
  "ls_begin s i (CountDown n) =
     map_option (\<lambda>(b, l). ls_go s i (if b then LNotify False else LIdle) l) (latch_count_down_sub n (ls_latch s))"
| "ls_begin s i (AddCount n) = Some (ls_go s i LIdle (latch_add_count n (ls_latch s)))"
| "ls_begin s i Wait = Some (ls_waited s i (latch_wait_or (ls_latch s)))"
| "ls_begin s i (ArriveAndWait n) =
     map_option (\<lambda>(b, l). ls_go s i (if b then LNotify True else LStartWait) l) (latch_count_down_sub n (ls_latch s))"

definition latch_count :: "latch \<Rightarrow> nat" where
  "latch_count l = unat (lt_state l) div 2"

text \<open>
  What the latch requires of its callers: a count_down is positive and does not exceed the counter,
  add_count comes before the counter has reached zero and does not overflow it.
\<close>

fun op_allowed :: "lt_sys \<Rightarrow> lt_op \<Rightarrow> bool" where
  "op_allowed s (CountDown n) \<longleftrightarrow> 0 < unat n \<and> unat n \<le> latch_count (ls_latch s)"
| "op_allowed s (AddCount n) \<longleftrightarrow> 0 < latch_count (ls_latch s) \<and> latch_count (ls_latch s) + unat n < 2 ^ 63"
| "op_allowed s Wait \<longleftrightarrow> True"
| "op_allowed s (ArriveAndWait n) \<longleftrightarrow> 0 < unat n \<and> unat n \<le> latch_count (ls_latch s)"

inductive lt_step :: "lt_sys \<Rightarrow> lt_sys \<Rightarrow> bool" where
  lt_begin: "ls_at s i LIdle \<Longrightarrow> op_allowed s c \<Longrightarrow> ls_begin s i c = Some t \<Longrightarrow> lt_step s t"
| lt_advance: "ls_at s i p \<Longrightarrow> ls_advance s i p = Some t \<Longrightarrow> lt_step s t"
| lt_spurious: "ls_at s i LSleep \<Longrightarrow> lt_step s (ls_go s i LBlocked (ls_latch s))"

inductive lt_reach :: "int \<Rightarrow> nat \<Rightarrow> lt_sys \<Rightarrow> bool" for c n where
  lt_start: "latch_new c = Some l \<Longrightarrow> lt_reach c n \<lparr>ls_latch = l, ls_pc = replicate n LIdle, ls_released = False\<rparr>"
| lt_more: "lt_reach c n s \<Longrightarrow> lt_step s t \<Longrightarrow> lt_reach c n t"

subsection \<open>The state word\<close>

definition lt_word :: "nat \<Rightarrow> bool \<Rightarrow> u64" where
  "lt_word k w = of_nat (2 * k + of_bool w)"

lemma unat_lt_word: "k < 2 ^ 63 \<Longrightarrow> unat (lt_word k w) = 2 * k + of_bool w"
proof -
  assume "k < 2 ^ 63"
  then have "Suc k \<le> 2 ^ 63" by (rule Suc_leI)
  then have "2 * Suc k \<le> 2 * 2 ^ 63" by (rule mult_le_mono2)
  moreover have "2 * k + of_bool w < 2 * Suc k" by (cases w) simp_all
  moreover have "(2 :: nat) * 2 ^ 63 = 2 ^ LENGTH(64)" by (simp only: len_num0 len_bit0 len_num1) simp
  ultimately have "2 * k + of_bool w < 2 ^ LENGTH(64)" by (metis less_le_trans)
  then show ?thesis unfolding lt_word_def unat_of_nat by (rule mod_less)
qed

lemma lt_word_count: "k < 2 ^ 63 \<Longrightarrow> unat (drop_bit 1 (lt_word k w)) = k"
  using unat_lt_word [of k w] by (simp add: unat_drop_bit_div)

lemma lt_word_bit: "k < 2 ^ 63 \<Longrightarrow> lt_word k w AND 1 = 1 \<longleftrightarrow> w"
proof -
  assume k: "k < 2 ^ 63"
  have "unat (lt_word k w AND mask 1) = unat (lt_word k w) mod 2 ^ 1" by (rule unat_and_mask)
  then have u: "unat (lt_word k w AND 1) = of_bool w" using unat_lt_word [OF k, of w] by (cases w) (simp_all add: mask_eq_exp_minus_1)
  then show ?thesis by (cases w) (auto simp: word_unat_eq_iff)
qed

lemma lt_word_or: "lt_word k w OR 1 = lt_word k True"
proof -
  have "even (lt_word k w) \<longleftrightarrow> \<not> w" by (cases w) (simp_all add: lt_word_def)
  then have "lt_word k w OR 1 = lt_word k w + of_bool (\<not> w)" unfolding or_one_eq by simp
  also have "\<dots> = lt_word k True" by (cases w) (simp_all add: lt_word_def)
  finally show ?thesis .
qed

lemma lt_word_sub: "m \<le> k \<Longrightarrow> lt_word k w - of_nat m * 2 = lt_word (k - m) w"
proof -
  assume "m \<le> k"
  then have "2 * k + of_bool w = (2 * (k - m) + of_bool w) + m * 2" by simp
  then have "lt_word k w = lt_word (k - m) w + of_nat m * 2"
    unfolding lt_word_def by (metis of_nat_add of_nat_mult of_nat_numeral)
  then show ?thesis by simp
qed

lemma lt_word_add: "lt_word k w + of_nat m * 2 = lt_word (k + m) w"
  by (simp add: lt_word_def algebra_simps)

lemma lt_word_count_down:
  assumes "k < 2 ^ 63"
  shows "latch_count \<lparr>lt_state = lt_word k w, lt_notified = nt\<rparr> = k"
    and "unat n \<le> k \<Longrightarrow> latch_count_down_sub n \<lparr>lt_state = lt_word k w, lt_notified = nt\<rparr> =
      Some (k = unat n \<and> w, \<lparr>lt_state = lt_word (k - unat n) w, lt_notified = nt\<rparr>)"
    and "latch_wait_or \<lparr>lt_state = lt_word k w, lt_notified = nt\<rparr> = (k = 0, \<lparr>lt_state = lt_word k True, lt_notified = nt\<rparr>)"
    and "latch_try_wait \<lparr>lt_state = lt_word k w, lt_notified = nt\<rparr> \<longleftrightarrow> k = 0"
proof -
  note cnt = lt_word_count [OF assms, of w]
  show "latch_count \<lparr>lt_state = lt_word k w, lt_notified = nt\<rparr> = k"
    using unat_lt_word [OF assms, of w] by (simp add: latch_count_def)
  have zero: "drop_bit 1 (lt_word k w) = 0 \<longleftrightarrow> k = 0" using cnt by (metis unat_eq_zero)
  then show "latch_wait_or \<lparr>lt_state = lt_word k w, lt_notified = nt\<rparr> = (k = 0, \<lparr>lt_state = lt_word k True, lt_notified = nt\<rparr>)"
    "latch_try_wait \<lparr>lt_state = lt_word k w, lt_notified = nt\<rparr> \<longleftrightarrow> k = 0"
    using lt_word_or by (simp_all add: latch_wait_or_def latch_try_wait_def)
  assume n: "unat n \<le> k"
  have eq: "drop_bit 1 (lt_word k w) = n \<longleftrightarrow> k = unat n" using cnt by (metis word_unat_inverse)
  have sub: "lt_word k w - n * 2 = lt_word (k - unat n) w" using lt_word_sub [OF n, of w] by simp
  have le: "n \<le> drop_bit 1 (lt_word k w)" using n cnt by (simp add: word_le_nat_alt)
  show "latch_count_down_sub n \<lparr>lt_state = lt_word k w, lt_notified = nt\<rparr> =
      Some (k = unat n \<and> w, \<lparr>lt_state = lt_word (k - unat n) w, lt_notified = nt\<rparr>)"
    unfolding latch_count_down_sub_def Let_def latch.simps eq sub lt_word_bit [OF assms] using le by simp
qed

subsection \<open>Invariant\<close>

fun is_notify :: "lt_pc \<Rightarrow> bool" where
  "is_notify (LNotify b) = True"
| "is_notify _ = False"

fun is_waiting :: "lt_pc \<Rightarrow> bool" where
  "is_waiting LBlocked = True"
| "is_waiting LSleep = True"
| "is_waiting _ = False"

definition notifiers :: "lt_sys \<Rightarrow> nat" where
  "notifiers s = length (filter is_notify (ls_pc s))"

text \<open>
  The counter is \<open>k\<close> and \<open>w\<close> says whether a thread has begun to wait. The waiters are woken once, by the
  thread that took the counter to zero while one was waiting; afterwards nobody sleeps.
\<close>

definition lt_inv :: "nat \<Rightarrow> bool \<Rightarrow> lt_sys \<Rightarrow> bool" where
  "lt_inv k w s \<longleftrightarrow> k < 2 ^ 63 \<and> lt_state (ls_latch s) = lt_word k w \<and>
     notifiers s + of_bool (lt_notified (ls_latch s)) \<le> of_bool (k = 0) \<and>
     (list_ex is_waiting (ls_pc s) \<longrightarrow> w \<and> (k = 0 \<longrightarrow> notifiers s + of_bool (lt_notified (ls_latch s)) = 1)) \<and>
     (LSleep \<in> set (ls_pc s) \<longrightarrow> \<not> lt_notified (ls_latch s)) \<and>
     (ls_released s \<longrightarrow> k = 0)"

lemma ls_go_sel [simp]:
  "ls_latch (ls_go s i p l) = l" "ls_released (ls_go s i p l) = ls_released s" "ls_pc (ls_go s i p l) = (ls_pc s)[i := p]"
  by (simp_all add: ls_go_def)

lemma notifiers_go:
  "ls_at s i q \<Longrightarrow> notifiers (ls_go s i p l) + of_bool (is_notify q) = notifiers s + of_bool (is_notify p)"
  using length_filter_update [of i "ls_pc s" is_notify p] by (auto simp: notifiers_def ls_at_def)

lemma notifiers_released [simp]: "notifiers (s\<lparr>ls_released := b\<rparr>) = notifiers s"
  by (simp add: notifiers_def)

lemma waiting_go: "list_ex is_waiting ((ls_pc s)[i := p]) \<Longrightarrow> \<not> is_waiting p \<Longrightarrow> list_ex is_waiting (ls_pc s)"
  by (auto simp: list_ex_iff dest!: set_update_subset_insert [THEN subsetD])

lemma sleep_go: "LSleep \<in> set ((ls_pc s)[i := p]) \<Longrightarrow> p \<noteq> LSleep \<Longrightarrow> LSleep \<in> set (ls_pc s)"
  by (auto dest!: set_update_subset_insert [THEN subsetD])

lemma at_waiting: "ls_at s i p \<Longrightarrow> is_waiting p \<Longrightarrow> list_ex is_waiting (ls_pc s)"
  unfolding ls_at_def list_ex_iff by (metis nth_mem)

lemma notify_all_sel [simp]:
  "ls_latch (latch_notify_all s) = ls_latch s" "ls_released (latch_notify_all s) = ls_released s" "notifiers (latch_notify_all s) = notifiers s"
  "LSleep \<notin> set (ls_pc (latch_notify_all s))" "list_ex is_waiting (ls_pc (latch_notify_all s)) = list_ex is_waiting (ls_pc s)"
  "ls_at (latch_notify_all s) i (LNotify b) = ls_at s i (LNotify b)"
proof -
  have "length (filter is_notify (map (\<lambda>p. if p = LSleep then LBlocked else p) xs)) = length (filter is_notify xs)" for xs
    by (induction xs) auto
  then show "notifiers (latch_notify_all s) = notifiers s" by (simp add: latch_notify_all_def notifiers_def)
  have "list_ex is_waiting (map (\<lambda>p. if p = LSleep then LBlocked else p) xs) = list_ex is_waiting xs" for xs
    by (induction xs) auto
  then show "list_ex is_waiting (ls_pc (latch_notify_all s)) = list_ex is_waiting (ls_pc s)" by (simp add: latch_notify_all_def)
qed (auto simp: latch_notify_all_def list_ex_iff ls_at_def split: if_splits)

lemma notifier_exists: "0 < notifiers s \<Longrightarrow> \<exists>j b. ls_at s j (LNotify b)"
proof -
  assume "0 < notifiers s"
  then obtain p where "p \<in> set (ls_pc s)" "is_notify p" by (auto simp: notifiers_def filter_empty_conv)
  then show ?thesis by (metis in_set_conv_nth is_notify.elims(2) ls_at_def)
qed

lemma notifier_counts: "ls_at s j (LNotify b) \<Longrightarrow> 0 < notifiers s"
  unfolding notifiers_def ls_at_def length_greater_0_conv filter_empty_conv by (metis is_notify.simps(1) nth_mem)

lemma lt_inv_latch:
  assumes "lt_inv k w s"
  shows "ls_latch s = \<lparr>lt_state = lt_word k w, lt_notified = lt_notified (ls_latch s)\<rparr>" "k < 2 ^ 63"
  using assms by (simp_all add: lt_inv_def)

text \<open>Taking \<open>m\<close> off the counter; \<open>p\<close> is where the thread goes if it has to wake the waiters.\<close>

lemma lt_inv_count_down:
  assumes "lt_inv k w s" "ls_at s i LIdle" "0 < unat n" "unat n \<le> k"
    "latch_count_down_sub n (ls_latch s) = Some (b, l)" "is_notify p" "\<not> is_notify q" "\<not> is_waiting p" "\<not> is_waiting q"
  shows "lt_inv (k - unat n) w (ls_go s i (if b then p else q) l)"
proof -
  note L = lt_inv_latch [OF assms(1)]
  have bl: "b = (k = unat n \<and> w)" "l = \<lparr>lt_state = lt_word (k - unat n) w, lt_notified = lt_notified (ls_latch s)\<rparr>"
    using lt_word_count_down(2) [OF L(2) assms(4), of w "lt_notified (ls_latch s)"] assms(5) unfolding L(1) [symmetric] by auto
  have zero: "notifiers s = 0" "\<not> lt_notified (ls_latch s)" "\<not> ls_released s" "list_ex is_waiting (ls_pc s) \<Longrightarrow> w"
    using assms(1,3,4) by (auto simp: lt_inv_def)
  have n: "notifiers (ls_go s i (if b then p else q) l) = of_bool b"
    using notifiers_go [OF assms(2), of "if b then p else q" l] zero(1) assms(6,7) by auto
  show ?thesis
    unfolding lt_inv_def n
  proof (intro conjI impI)
    assume "list_ex is_waiting (ls_pc (ls_go s i (if b then p else q) l))"
    then have "list_ex is_waiting (ls_pc s)" using waiting_go assms(8,9) by (cases b) auto
    then show w by (rule zero(4))
    then show "of_bool b + of_bool (lt_notified (ls_latch (ls_go s i (if b then p else q) l))) = (1 :: nat)" if "k - unat n = 0"
      using that assms(4) bl zero(2) by auto
  qed (use L(2) bl zero in auto)
qed

lemma lt_inv_wait:
  assumes "lt_inv k w s" "ls_at s i p" "\<not> is_notify p"
  shows "lt_inv k True (ls_waited s i (latch_wait_or (ls_latch s)))"
proof -
  note L = lt_inv_latch [OF assms(1)]
  let ?l = "\<lparr>lt_state = lt_word k True, lt_notified = lt_notified (ls_latch s)\<rparr>"
  have wo: "latch_wait_or (ls_latch s) = (k = 0, ?l)"
    using lt_word_count_down(3) [OF L(2), of w "lt_notified (ls_latch s)"] unfolding L(1) [symmetric] .
  have n: "notifiers (ls_go s i q ?l) = notifiers s" if "\<not> is_notify q" for q
    using notifiers_go [OF assms(2), of q ?l] assms(3) that by simp
  show ?thesis
  proof (cases "k = 0")
    case True
    then show ?thesis
      using assms(1) waiting_go [of s i LIdle] sleep_go [of s i LIdle] n [of LIdle] unfolding lt_inv_def wo ls_waited_def by auto
  next
    case False
    then show ?thesis
      using assms(1) sleep_go [of s i LBlocked] n [of LBlocked] unfolding lt_inv_def wo ls_waited_def by auto
  qed
qed

lemma lt_inv_begin:
  assumes "lt_inv k w s" "ls_at s i LIdle" "op_allowed s c" "ls_begin s i c = Some t"
  shows "\<exists>k' w'. lt_inv k' w' t"
proof -
  note L = lt_inv_latch [OF assms(1)]
  have cnt: "latch_count (ls_latch s) = k" using lt_word_count_down(1) [OF L(2)] L(1) by metis
  show ?thesis
  proof (cases c)
    case (CountDown n)
    then obtain b l where "latch_count_down_sub n (ls_latch s) = Some (b, l)" "t = ls_go s i (if b then LNotify False else LIdle) l"
      using assms(4) by auto
    then have "lt_inv (k - unat n) w t"
      using lt_inv_count_down [OF assms(1,2), where n = n and p = "LNotify False" and q = LIdle] assms(3) CountDown cnt by auto
    then show ?thesis by blast
  next
    case (ArriveAndWait n)
    then obtain b l where "latch_count_down_sub n (ls_latch s) = Some (b, l)" "t = ls_go s i (if b then LNotify True else LStartWait) l"
      using assms(4) by auto
    then have "lt_inv (k - unat n) w t"
      using lt_inv_count_down [OF assms(1,2), where n = n and p = "LNotify True" and q = LStartWait] assms(3) ArriveAndWait cnt by auto
    then show ?thesis by blast
  next
    case (AddCount n)
    then have t: "t = ls_go s i LIdle (latch_add_count n (ls_latch s))" using assms(4) by simp
    have ok: "0 < k" "k + unat n < 2 ^ 63" using assms(3) AddCount cnt by simp_all
    have "lt_word k w + n * 2 = lt_word (k + unat n) w" using lt_word_add [of k w "unat n"] by simp
    then have "lt_inv (k + unat n) w t"
      using assms(1) ok notifiers_go [OF assms(2), of LIdle] waiting_go [of s i LIdle] sleep_go [of s i LIdle] t
      by (auto simp: lt_inv_def latch_add_count_def)
    then show ?thesis by blast
  next
    case Wait
    then show ?thesis using lt_inv_wait [OF assms(1,2)] assms(4) by auto
  qed
qed

lemma lt_inv_advance:
  assumes "lt_inv k w s" "ls_at s i p" "ls_advance s i p = Some t"
  shows "\<exists>w'. lt_inv k w' t"
proof (cases p)
  case (LNotify b)
  let ?q = "if b then LStartWait else LIdle" and ?l = "(ls_latch s)\<lparr>lt_notified := True\<rparr>" and ?s = "latch_notify_all s"
  have t: "t = ls_go ?s i ?q ?l" "\<not> lt_notified (ls_latch s)"
    using assms(3) LNotify by (auto simp: latch_notify_def split: if_splits)
  have at: "ls_at ?s i (LNotify b)" using assms(2) LNotify by simp
  have "0 < notifiers s" using notifier_counts assms(2) LNotify by blast
  moreover have "notifiers t + 1 = notifiers s" using notifiers_go [OF at, of ?q ?l] LNotify t(1) by auto
  moreover have "list_ex is_waiting (ls_pc t) \<Longrightarrow> list_ex is_waiting (ls_pc s)" using waiting_go [of ?s i ?q] t(1) by (cases b) simp_all
  moreover have "LSleep \<notin> set (ls_pc t)" using sleep_go [of ?s i ?q] t(1) by (cases b) auto
  ultimately have "lt_inv k w t" using assms(1) t by (auto simp: lt_inv_def)
  then show ?thesis by blast
next
  case LStartWait
  then show ?thesis using lt_inv_wait [OF assms(1,2)] assms(3) by auto
next
  case LBlocked
  have wt: "list_ex is_waiting (ls_pc s)" using at_waiting [OF assms(2)] LBlocked by simp
  show ?thesis
  proof (cases "lt_notified (ls_latch s)")
    case True
    then have t: "t = (ls_go s i LIdle (ls_latch s))\<lparr>ls_released := True\<rparr>" using assms(3) LBlocked by auto
    have "notifiers t = notifiers s" using notifiers_go [OF assms(2), of LIdle "ls_latch s"] LBlocked t by simp
    then have "lt_inv k w t"
      using assms(1) t True waiting_go [of s i LIdle] sleep_go [of s i LIdle] by (auto simp: lt_inv_def of_bool_def split: if_splits)
    then show ?thesis by blast
  next
    case False
    then have t: "t = ls_go s i LSleep (ls_latch s)" using assms(3) LBlocked by auto
    have "notifiers t = notifiers s" using notifiers_go [OF assms(2), of LSleep "ls_latch s"] LBlocked t by simp
    then have "lt_inv k w t" using assms(1) t False wt by (auto simp: lt_inv_def)
    then show ?thesis by blast
  qed
qed (use assms(3) in simp_all)

lemma lt_inv_spurious:
  assumes "lt_inv k w s" "ls_at s i LSleep"
  shows "lt_inv k w (ls_go s i LBlocked (ls_latch s))"
proof -
  have "notifiers (ls_go s i LBlocked (ls_latch s)) = notifiers s" using notifiers_go [OF assms(2), of LBlocked] by simp
  moreover have "list_ex is_waiting (ls_pc s)" by (rule at_waiting [OF assms(2)]) simp
  ultimately show ?thesis using assms(1) sleep_go [of s i LBlocked] by (auto simp: lt_inv_def)
qed

lemma lt_reach_inv: "lt_reach c n s \<Longrightarrow> \<exists>k w. lt_inv k w s"
proof (induction rule: lt_reach.induct)
  case (lt_start l)
  then have c: "0 \<le> c" "(word_of_int c :: u64) < 2 ^ 63" "l = \<lparr>lt_state = push_bit 1 (word_of_int c), lt_notified = False\<rparr>"
    by (auto simp: latch_new_def split: if_splits)
  let ?k = "unat (word_of_int c :: u64)"
  have k: "?k < 2 ^ 63" using c(2) by (simp add: word_less_nat_alt)
  have "push_bit 1 (word_of_int c :: u64) = lt_word ?k False" by (simp add: lt_word_def push_bit_eq_mult mult.commute)
  then have "lt_inv ?k False \<lparr>ls_latch = l, ls_pc = replicate n LIdle, ls_released = False\<rparr>"
    using k c(3) by (simp add: lt_inv_def notifiers_def list_ex_iff)
  then show ?case by blast
next
  case (lt_more s t)
  then obtain k w where "lt_inv k w s" by blast
  with lt_more.hyps(2) show ?case by (cases rule: lt_step.cases) (use lt_inv_begin lt_inv_advance lt_inv_spurious in blast)+
qed

subsection \<open>Properties\<close>

text \<open>
  C24. In every interleaving of callers that keep to the contract no assert of
  the latch fails, no thread returns from wait before the counter is zero, and no wake-up is lost:
  once the counter is zero every thread inside an operation goes on with its next step and does not fall
  asleep, except that a waiting thread may sleep while the thread that will wake it is about to notify.
\<close>

theorem latch_releases_at_zero:
  assumes "lt_reach c n s"
  shows "(ls_released s \<longrightarrow> latch_try_wait (ls_latch s)) \<and>
    (\<forall>i c. op_allowed s c \<longrightarrow> ls_begin s i c \<noteq> None) \<and>
    (\<forall>i b. ls_at s i (LNotify b) \<longrightarrow> ls_advance s i (LNotify b) \<noteq> None) \<and>
    (\<forall>i p. latch_try_wait (ls_latch s) \<and> ls_at s i p \<and> p \<noteq> LIdle \<longrightarrow>
       (\<exists>t. ls_advance s i p = Some t \<and> \<not> ls_at t i LSleep) \<or> (p \<in> {LBlocked, LSleep} \<and> (\<exists>j b. ls_at s j (LNotify b))))"
proof -
  obtain k w where I: "lt_inv k w s" using lt_reach_inv [OF assms] by blast
  note L = lt_inv_latch [OF I]
  have cnt: "latch_count (ls_latch s) = k" "latch_try_wait (ls_latch s) \<longleftrightarrow> k = 0"
    using lt_word_count_down(1,4) [OF L(2), of w "lt_notified (ls_latch s)"] unfolding L(1) [symmetric] by auto
  have cd: "latch_count_down_sub m (ls_latch s) \<noteq> None" if "unat m \<le> k" for m
    using lt_word_count_down(2) [OF L(2) that, of w "lt_notified (ls_latch s)"] unfolding L(1) [symmetric] by simp
  have begins: "ls_begin s i c \<noteq> None" if "op_allowed s c" for i c
    using that cd cnt(1) by (cases c) auto
  have notify: "ls_advance s i (LNotify b) \<noteq> None" if "ls_at s i (LNotify b)" for i b
    using notifier_counts [OF that] I by (auto simp: lt_inv_def latch_notify_def of_bool_def split: if_splits)
  have adv: "(\<exists>t. ls_advance s i p = Some t \<and> \<not> ls_at t i LSleep) \<or> (p \<in> {LBlocked, LSleep} \<and> (\<exists>j b. ls_at s j (LNotify b)))"
    if z: "k = 0" and p: "ls_at s i p" "p \<noteq> LIdle" for i p
  proof (cases "is_waiting p")
    case True
    have "notifiers s + of_bool (lt_notified (ls_latch s)) = 1" using I z at_waiting [OF p(1) True] by (simp add: lt_inv_def)
    then consider "0 < notifiers s" | "lt_notified (ls_latch s)" by (cases "lt_notified (ls_latch s)") auto
    then show ?thesis
    proof cases
      case 1
      then show ?thesis using notifier_exists True by (cases p) auto
    next
      case 2
      then have "LSleep \<notin> set (ls_pc s)" using I by (simp add: lt_inv_def)
      then have "p = LBlocked" using p(1) True nth_mem [of i "ls_pc s"] by (cases p) (auto simp: ls_at_def)
      then show ?thesis using 2 p(1) by (auto simp: ls_at_def)
    qed
  next
    case False
    then show ?thesis
    proof (cases p)
      case (LNotify b)
      then obtain t where t: "ls_advance s i p = Some t" using notify p(1) by blast
      then have "ls_pc t ! i \<noteq> LSleep" using LNotify p(1) by (cases b) (auto simp: ls_at_def latch_notify_all_def)
      then show ?thesis using t by (auto simp: ls_at_def)
    next
      case LStartWait
      have "latch_wait_or (ls_latch s) = (True, \<lparr>lt_state = lt_word k True, lt_notified = lt_notified (ls_latch s)\<rparr>)"
        using lt_word_count_down(3) [OF L(2), of w "lt_notified (ls_latch s)"] z unfolding L(1) [symmetric] by simp
      then show ?thesis using LStartWait p(1) by (simp add: ls_waited_def ls_at_def)
    qed (use False p in auto)
  qed
  show ?thesis using I cnt(2) begins notify adv by (simp add: lt_inv_def)
qed

theorem latch_releases_at_zero_witness:
  "\<exists>s. lt_reach 1 2 s \<and> ls_pc s = [LBlocked, LNotify False] \<and> ls_advance s 1 (LNotify False) \<noteq> None"
proof -
  let ?l = "\<lparr>lt_state = 2, lt_notified = False\<rparr>"
  have "latch_new 1 = Some ?l" by (simp add: latch_new_def push_bit_eq_mult)
  from lt_start [OF this, of 2] have r0: "lt_reach 1 2 \<lparr>ls_latch = ?l, ls_pc = [LIdle, LIdle], ls_released = False\<rparr>"
    by (simp add: numeral_2_eq_2)
  let ?s1 = "\<lparr>ls_latch = \<lparr>lt_state = 3, lt_notified = False\<rparr>, ls_pc = [LBlocked, LIdle], ls_released = False\<rparr>"
  have r1: "lt_reach 1 2 ?s1"
    by (rule lt_more [OF r0 lt_begin [of _ 0 Wait]]) (simp_all add: ls_at_def latch_wait_or_def ls_waited_def ls_go_def drop_bit_eq_div)
  let ?s2 = "\<lparr>ls_latch = \<lparr>lt_state = 1, lt_notified = False\<rparr>, ls_pc = [LBlocked, LNotify False], ls_released = False\<rparr>"
  have r2: "lt_reach 1 2 ?s2"
    by (rule lt_more [OF r1 lt_begin [of _ 1 "CountDown 1"]])
      (simp_all add: ls_at_def latch_count_def latch_count_down_sub_def Let_def ls_go_def drop_bit_eq_div)
  have "ls_at ?s2 1 (LNotify False)" by (simp add: ls_at_def)
  then show ?thesis using latch_releases_at_zero [OF r2] r2 by (intro exI [of _ ?s2]) auto
qed

end
