(* ===== verification/Kernel_Frame.thy ===== *)
theory Kernel_Frame
  imports Async_System
begin

text \<open>
  The frame through which a graph kernel sees its arguments and delivers its results
  (\<^verbatim>\<open>src/async/context/kernel_frame.h\<close>). The kernels themselves are not part of the repository: a kernel
  is a parameter, a function from the contents of its arguments to the frame operations it calls, in
  order. A result that a kernel allocates and does not resolve is resolved later by whoever holds the
  second reference that AllocateResultAt returns.
\<close>

subsection \<open>The frame\<close>

record AsyncKernelFrame =
  kf_mAsyncValues :: "av_ptr option list"
  kf_mNumArguments :: nat
  kf_mNumResults :: int

definition KernelFrame_Reset :: AsyncKernelFrame where
  "KernelFrame_Reset = \<lparr>kf_mAsyncValues = [], kf_mNumArguments = 0, kf_mNumResults = -1\<rparr>"

definition AddArg :: "av_ptr \<Rightarrow> AsyncKernelFrame \<Rightarrow> AsyncKernelFrame option" where
  "AddArg argument f =
     (if kf_mNumResults f = -1
      then Some (f\<lparr>kf_mAsyncValues := kf_mAsyncValues f @ [Some argument], kf_mNumArguments := kf_mNumArguments f + 1\<rparr>)
      else None)"

definition SetNumResults :: "nat \<Rightarrow> AsyncKernelFrame \<Rightarrow> AsyncKernelFrame option" where
  "SetNumResults n f =
     (if kf_mNumArguments f = length (kf_mAsyncValues f) \<and> kf_mNumResults f = -1
      then Some (f\<lparr>kf_mAsyncValues := kf_mAsyncValues f @ replicate n None, kf_mNumResults := int n\<rparr>)
      else None)"

definition GetAsyncValues :: "nat \<Rightarrow> nat \<Rightarrow> AsyncKernelFrame \<Rightarrow> av_ptr option list option" where
  "GetAsyncValues from len f =
     (if int (from + len) \<le> int (kf_mNumArguments f) + kf_mNumResults f
      then Some (take len (drop from (kf_mAsyncValues f))) else None)"

definition GetArguments :: "AsyncKernelFrame \<Rightarrow> av_ptr option list option" where
  "GetArguments f = GetAsyncValues 0 (kf_mNumArguments f) f"

definition GetResults :: "AsyncKernelFrame \<Rightarrow> av_ptr option list option" where
  "GetResults f = GetAsyncValues (kf_mNumArguments f) (nat (kf_mNumResults f)) f"

definition GetArgAt :: "nat \<Rightarrow> AsyncKernelFrame \<Rightarrow> av_ptr option" where
  "GetArgAt index f = (if index < kf_mNumArguments f then kf_mAsyncValues f ! index else None)"

definition SetResultAt :: "nat \<Rightarrow> av_ptr \<Rightarrow> AsyncKernelFrame \<Rightarrow> AsyncKernelFrame option" where
  "SetResultAt index value f =
     (if int index < kf_mNumResults f \<and> kf_mAsyncValues f ! (kf_mNumArguments f + index) = None
      then Some (f\<lparr>kf_mAsyncValues := (kf_mAsyncValues f)[kf_mNumArguments f + index := Some value]\<rparr>)
      else None)"

subsection \<open>Operations that create or share values\<close>

text \<open>AddRef of a value the caller refers to, with the new references in the caller's hands.\<close>

definition av_AddRef :: "av_ptr \<Rightarrow> nat \<Rightarrow> 'a av_sys \<Rightarrow> 'a av_sys option" where
  "av_AddRef a n s =
     map_option (\<lambda>h. s\<lparr>as_heap := h, as_ext := (as_ext s)(a := as_ext s a + n)\<rparr>) (AsyncValue_AddRef (as_heap s) a (of_nat n))"

definition av_DropRef :: "av_ptr \<Rightarrow> 'a av_sys \<Rightarrow> 'a av_sys option" where
  "av_DropRef a s =
     map_option (\<lambda>h. s\<lparr>as_heap := h, as_ext := (as_ext s)(a := as_ext s a - 1)\<rparr>) (AsyncValue_DropRef (as_heap s) a 1)"

definition av_SetError :: "u16 \<Rightarrow> av_ptr \<Rightarrow> DecodedDiagnostic \<Rightarrow> 'a av_sys \<Rightarrow> 'a av_sys option" where
  "av_SetError tid a d s =
     map_option (\<lambda>(h, ws). RunWaiters_call h ws (s\<lparr>as_next := Suc (as_next s)\<rparr>)) (SetError tid (as_heap s) a d (as_next s))"

type_synonym 'a frame_state = "AsyncKernelFrame \<times> 'a av_sys"

definition EmplaceResultAt :: "nat \<Rightarrow> ctype \<Rightarrow> 'a \<Rightarrow> 'a frame_state \<Rightarrow> 'a frame_state option" where
  "EmplaceResultAt index T x fs =
     (case fs of (f, s) \<Rightarrow>
        map_option (\<lambda>f1. (f1, MakeAvailableAsyncValueRef T x s)) (SetResultAt index (as_next s) f))"

definition AllocateResultAt :: "nat \<Rightarrow> ctype \<Rightarrow> 'a frame_state \<Rightarrow> 'a frame_state option" where
  "AllocateResultAt index T fs =
     (case fs of (f, s) \<Rightarrow>
        Option.bind (av_AddRef (as_next s) 1 (MakeUnconstructedAsyncValueRef T s))
          (\<lambda>s1. map_option (\<lambda>f1. (f1, s1)) (SetResultAt index (as_next s) f)))"

definition AllocateIndirectResultAt :: "nat \<Rightarrow> 'a frame_state \<Rightarrow> 'a frame_state option" where
  "AllocateIndirectResultAt index fs =
     (case fs of (f, s) \<Rightarrow>
        Option.bind (av_AddRef (as_next s) 1 (MakeIndirectAsyncValue s))
          (\<lambda>s1. map_option (\<lambda>f1. (f1, s1)) (SetResultAt index (as_next s) f)))"

text \<open>SetResultAt with a new reference to a value that the frame knows: \<open>frame.SetResultAt(i, FormRef(v))\<close>.\<close>

definition ShareResultAt :: "nat \<Rightarrow> av_ptr \<Rightarrow> 'a frame_state \<Rightarrow> 'a frame_state option" where
  "ShareResultAt index value fs =
     (case fs of (f, s) \<Rightarrow>
        Option.bind (av_AddRef value 1 s) (\<lambda>s1. map_option (\<lambda>f1. (f1, s1)) (SetResultAt index value f)))"

text \<open>The loop of PropogateError over the result slots, from slot \<open>j\<close> on: a slot that is null gets a
  reference to the error value, an unavailable result is set to the error, and the flag says whether
  anything was set.\<close>

fun propogate_loop :: "u16 \<Rightarrow> av_ptr \<Rightarrow> DecodedDiagnostic \<Rightarrow> av_ptr option list \<Rightarrow> 'a av_sys \<Rightarrow>
    (bool \<times> av_ptr option list \<times> 'a av_sys) option" where
  "propogate_loop tid e d [] s = Some (False, [], s)"
| "propogate_loop tid e d (None # rs) s =
     Option.bind (av_AddRef e 1 s) (\<lambda>s1.
       map_option (\<lambda>(_, rs1, s2). (True, Some e # rs1, s2)) (propogate_loop tid e d rs s1))"
| "propogate_loop tid e d (Some r # rs) s =
     (if IsUnavailable (as_heap s) r
      then Option.bind (av_SetError tid r d s) (\<lambda>s1.
             map_option (\<lambda>(_, rs1, s2). (True, Some r # rs1, s2)) (propogate_loop tid e d rs s1))
      else map_option (\<lambda>(b, rs1, s2). (b, Some r # rs1, s2)) (propogate_loop tid e d rs s))"

definition PropogateError :: "u16 \<Rightarrow> string \<Rightarrow> 'a frame_state \<Rightarrow> 'a frame_state option" where
  "PropogateError tid errorMsg fs =
     (case fs of (f, s) \<Rightarrow>
        let d = DecodedDiagnostic_new errorMsg; e = as_next s in
        Option.bind (GetResults f) (\<lambda>results.
          Option.bind (propogate_loop tid e d results (MakeErrorAsyncValueRef tid d s)) (\<lambda>(setError, rs, s1).
            if setError
            then map_option (\<lambda>s2. (f\<lparr>kf_mAsyncValues := take (kf_mNumArguments f) (kf_mAsyncValues f) @ rs\<rparr>, s2)) (av_DropRef e s1)
            else None)))"

subsection \<open>Kernels\<close>

datatype 'a frame_op =
    OpEmplace nat ctype 'a
  | OpAllocate nat ctype
  | OpIndirect nat
  | OpForward nat nat
  | OpError string

fun frame_do :: "u16 \<Rightarrow> 'a frame_op \<Rightarrow> 'a frame_state \<Rightarrow> 'a frame_state option" where
  "frame_do tid (OpEmplace i T x) fs = EmplaceResultAt i T x fs"
| "frame_do tid (OpAllocate i T) fs = AllocateResultAt i T fs"
| "frame_do tid (OpIndirect i) fs = AllocateIndirectResultAt i fs"
| "frame_do tid (OpForward i j) fs = Option.bind (GetArgAt j (fst fs)) (\<lambda>a. ShareResultAt i a fs)"
| "frame_do tid (OpError msg) fs = PropogateError tid msg fs"

fun frame_run :: "u16 \<Rightarrow> 'a frame_op list \<Rightarrow> 'a frame_state \<Rightarrow> 'a frame_state option" where
  "frame_run tid [] fs = Some fs"
| "frame_run tid (p # ps) fs = Option.bind (frame_do tid p fs) (frame_run tid ps)"

text \<open>What a kernel reads of an argument.\<close>

definition arg_view :: "'a av_heap \<Rightarrow> av_ptr \<Rightarrow> 'a payload" where
  "arg_view h a = (case h (storage h a) of None \<Rightarrow> Uninit | Some v \<Rightarrow> mPayload v)"

text \<open>The rule for kernels: every result is set exactly once, arguments are forwarded by their numbers,
  and PropogateError is called only while a result is missing or unresolved. A slot is empty, holds a
  value that the kernel has still to resolve, or a resolved one.\<close>

datatype slot = SEmpty | SPending | SReady

fun op_ok :: "nat \<Rightarrow> 'a frame_op \<Rightarrow> slot list \<Rightarrow> slot list option" where
  "op_ok nargs (OpEmplace i T x) ss = (if i < length ss \<and> ss ! i = SEmpty then Some (ss[i := SReady]) else None)"
| "op_ok nargs (OpAllocate i T) ss = (if i < length ss \<and> ss ! i = SEmpty then Some (ss[i := SPending]) else None)"
| "op_ok nargs (OpIndirect i) ss = (if i < length ss \<and> ss ! i = SEmpty then Some (ss[i := SPending]) else None)"
| "op_ok nargs (OpForward i j) ss =
     (if i < length ss \<and> ss ! i = SEmpty \<and> j < nargs then Some (ss[i := SReady]) else None)"
| "op_ok nargs (OpError msg) ss =
     (if list_ex (\<lambda>x. x \<noteq> SReady) ss then Some (map (\<lambda>_. SReady) ss) else None)"

fun ops_ok :: "nat \<Rightarrow> 'a frame_op list \<Rightarrow> slot list \<Rightarrow> bool" where
  "ops_ok nargs [] ss = list_all (\<lambda>x. x \<noteq> SEmpty) ss"
| "ops_ok nargs (p # ps) ss = (case op_ok nargs p ss of None \<Rightarrow> False | Some ss1 \<Rightarrow> ops_ok nargs ps ss1)"

definition kernel_ok :: "nat \<Rightarrow> nat \<Rightarrow> 'a frame_op list \<Rightarrow> bool" where
  "kernel_ok nargs nres ps = ops_ok nargs ps (replicate nres SEmpty)"

text \<open>A bound on the references that an operation adds to one value.\<close>

fun op_cost :: "nat \<Rightarrow> 'a frame_op \<Rightarrow> nat" where
  "op_cost nres (OpError msg) = nres + 1"
| "op_cost nres p = 1"

definition kernel_cost :: "nat \<Rightarrow> 'a frame_op list \<Rightarrow> nat" where
  "kernel_cost nres ps = sum_list (map (op_cost nres) ps)"

subsection \<open>Room in the reference counts\<close>

definition refs_room :: "'a av_heap \<Rightarrow> nat \<Rightarrow> bool" where
  "refs_room h k \<longleftrightarrow> (\<forall>a v. h a = Some v \<longrightarrow> unat (mRefCount v) + k < 2 ^ 32)"

lemma refs_roomD: "refs_room h k \<Longrightarrow> h a = Some v \<Longrightarrow> unat (mRefCount v) + k < 2 ^ 32"
  by (simp add: refs_room_def)

lemma refs_room_mono: "refs_room h k \<Longrightarrow> j \<le> k \<Longrightarrow> refs_room h j"
  unfolding refs_room_def by (meson add_le_mono1 le_less_trans nat_add_left_cancel_le)

lemma refs_room_fit: "refs_room h (Suc k) \<Longrightarrow> refs_fit h"
  unfolding refs_fit_def
proof (intro allI impI notI)
  fix a v assume r: "refs_room h (Suc k)" and v: "h a = Some v" "mRefCount v = - 1"
  have "unat (- 1 :: u32) = 2 ^ 32 - 1" by (simp add: unsigned_minus_1_eq_mask mask_eq_exp_minus_1)
  then show False using refs_roomD [OF r v(1)] v(2) by simp
qed

lemma refs_room_update:
  "refs_room h k \<Longrightarrow> unat (mRefCount v) + k < 2 ^ 32 \<Longrightarrow> refs_room (h(a \<mapsto> v)) k"
  by (simp add: refs_room_def)

subsection \<open>Calls that resolve only values of the caller's own\<close>

text \<open>The values from address \<open>n0\<close> on belong to the kernel that runs: nobody waits for them yet.\<close>

definition unwatched :: "nat \<Rightarrow> 'a av_sys \<Rightarrow> bool" where
  "unwatched n0 s \<longleftrightarrow> (\<forall>b v. n0 \<le> b \<longrightarrow> as_heap s b = Some v \<longrightarrow> mWaiters v = []) \<and>
     (\<forall>i v. Forward i v \<in># pool s \<longrightarrow> i < n0)"

definition keeps_available :: "'a av_sys \<Rightarrow> 'a av_sys \<Rightarrow> bool" where
  "keeps_available s s' \<longleftrightarrow> (\<forall>b v'. b < as_next s \<longrightarrow> as_heap s' b = Some v' \<longrightarrow>
     (\<exists>v. as_heap s b = Some v \<and> (State_IsAvailable (mState v) \<longrightarrow> keeps_value v v')))"

lemma keeps_availableD:
  assumes "keeps_available s s'" "b < as_next s" "\<not> IsUnavailable (as_heap s) b"
  shows "\<not> IsUnavailable (as_heap s') b"
proof (cases "as_heap s' b")
  case (Some v')
  then obtain v where "as_heap s b = Some v" "State_IsAvailable (mState v) \<longrightarrow> keeps_value v v'"
    using assms(1,2) unfolding keeps_available_def by blast
  with assms(3) Some show ?thesis by (auto simp: IsUnavailable_def dest: keeps_valueD(2))
qed (simp add: IsUnavailable_def)

lemma keeps_available_trans:
  assumes "keeps_available s s1" "keeps_available s1 s2" "as_next s \<le> as_next s1"
  shows "keeps_available s s2"
  unfolding keeps_available_def
proof (intro allI impI)
  fix b v2 assume b: "b < as_next s" "as_heap s2 b = Some v2"
  with assms(2,3) obtain v1 where v1: "as_heap s1 b = Some v1" "State_IsAvailable (mState v1) \<longrightarrow> keeps_value v1 v2"
    unfolding keeps_available_def by (meson less_le_trans)
  with assms(1) b(1) obtain v where "as_heap s b = Some v" "State_IsAvailable (mState v) \<longrightarrow> keeps_value v v1"
    unfolding keeps_available_def by blast
  with v1(2) show "\<exists>v. as_heap s b = Some v \<and> (State_IsAvailable (mState v) \<longrightarrow> keeps_value v v2)"
    using keeps_valueD(2) [of v v1] keeps_value_trans [of v v1 v2] by auto
qed

lemma keeps_available_shrinks: "shrinks (as_heap s) (as_heap s') \<Longrightarrow> keeps_available s s'"
  unfolding keeps_available_def using shrinksD(1) core_keeps by blast

definition quiet :: "nat \<Rightarrow> 'a av_sys \<Rightarrow> 'a av_sys \<Rightarrow> bool" where
  "quiet n0 s s' \<longleftrightarrow> av_inv s' \<and> unwatched n0 s' \<and> as_next s \<le> as_next s' \<and>
     (\<forall>b<n0. map_option core (as_heap s' b) = map_option core (as_heap s b)) \<and>
     pool s' = pool s \<and> as_log s' = as_log s \<and> as_reg s' = as_reg s \<and> keeps_available s s'"

lemma quietD:
  assumes "quiet n0 s s'"
  shows "av_inv s'" "unwatched n0 s'" "as_next s \<le> as_next s'"
    "\<And>b. b < n0 \<Longrightarrow> map_option core (as_heap s' b) = map_option core (as_heap s b)"
    "pool s' = pool s" "as_log s' = as_log s" "as_reg s' = as_reg s"
    "\<And>b. b < as_next s \<Longrightarrow> \<not> IsUnavailable (as_heap s) b \<Longrightarrow> \<not> IsUnavailable (as_heap s') b"
    "keeps_available s s'"
  using assms keeps_availableD unfolding quiet_def by blast+

lemma quiet_refl: "av_inv s \<Longrightarrow> unwatched n0 s \<Longrightarrow> quiet n0 s s"
  by (simp add: quiet_def keeps_available_def)

lemma quiet_trans: "quiet n0 s s1 \<Longrightarrow> quiet n0 s1 s2 \<Longrightarrow> quiet n0 s s2"
proof -
  assume q: "quiet n0 s s1" "quiet n0 s1 s2"
  have "map_option core (as_heap s2 b) = map_option core (as_heap s b)" if "b < n0" for b
    using quietD(4) [OF q(1) that] quietD(4) [OF q(2) that] by simp
  moreover have "keeps_available s s2"
    using keeps_available_trans [OF quietD(9) [OF q(1)] quietD(9) [OF q(2)] quietD(3) [OF q(1)]] .
  ultimately show ?thesis using q unfolding quiet_def by simp
qed

lemma unwatched_next: "av_inv s \<Longrightarrow> unwatched (as_next s) s"
proof -
  assume inv: "av_inv s"
  note I = av_invD [OF inv]
  have "mWaiters v = []" if "as_next s \<le> b" "as_heap s b = Some v" for b v
    using I(1) that unfolding heap_ok_def by (meson not_le)
  moreover have "i < as_next s" if "Forward i v \<in># pool s" for i v
    using fwd_okD(2) [OF I(4) that] I(1) by (auto simp: IsUnresolvedIndirect_def heap_ok_def split: option.splits)
  ultimately show ?thesis by (auto simp: unwatched_def)
qed

lemma unwatched_no_forward: "unwatched n0 s \<Longrightarrow> n0 \<le> i \<Longrightarrow> filter_mset (forwards i) (pool s) = {#}"
  unfolding filter_mset_eq_mempty_iff unwatched_def
proof (intro allI impI notI)
  fix w assume a: "(\<forall>b v. n0 \<le> b \<longrightarrow> as_heap s b = Some v \<longrightarrow> mWaiters v = []) \<and> (\<forall>i v. Forward i v \<in># pool s \<longrightarrow> i < n0)"
    "n0 \<le> i" "w \<in># pool s" "forwards i w"
  then obtain v where "w = Forward i v" by (cases w) auto
  with a show False by (meson not_le)
qed

lemma alive:
  assumes "av_inv s" "0 < as_ext s a"
  obtains v where "as_heap s a = Some v" "a < as_next s" "mRefCount v \<noteq> 0"
proof -
  note I = av_invD [OF assms(1)]
  obtain v where v: "as_heap s a = Some v" using rc_ok_alive [OF I(2) outrefs_pos(1) [OF assms(2)]] by blast
  moreover have "a < as_next s" using I(1) v by (auto simp: heap_ok_def)
  ultimately show ?thesis using that rc_ok_Some(2) [OF I(2) v] by blast
qed

subsection \<open>Calls that change only reference counts\<close>

lemma quiet_shrinks:
  assumes "av_inv s'" "unwatched n0 s" "shrinks (as_heap s) (as_heap s')" "as_next s' = as_next s" "as_runs s' = as_runs s"
    "as_log s' = as_log s" "as_reg s' = as_reg s"
    "\<And>b. b < n0 \<Longrightarrow> map_option core (as_heap s' b) = map_option core (as_heap s b)"
  shows "quiet n0 s s'"
proof -
  have p: "pool s' = pool s" using assms(4,5) by (simp add: pool_def as_items_def shrinks_waiters [OF assms(3)])
  have "mWaiters v' = []" if b: "n0 \<le> b" "as_heap s' b = Some v'" for b v'
  proof -
    obtain v where "as_heap s b = Some v" "core v' = core v" using shrinksD(1) [OF assms(3) b(2)] by blast
    with assms(2) b(1) show ?thesis by (metis core_eqD(1) unwatched_def)
  qed
  then have "unwatched n0 s'" using assms(2) by (simp add: unwatched_def p)
  then show ?thesis using assms(1,4,6-8) p keeps_available_shrinks [OF assms(3)] unfolding quiet_def by simp
qed

lemma AddRef_Suc:
  assumes "h a = Some v" "mRefCount v \<noteq> 0" "unat (mRefCount v) + Suc n < 2 ^ 32"
  shows "AsyncValue_AddRef h a (of_nat (Suc n)) =
    AsyncValue_AddRef (h(a \<mapsto> v\<lparr>mRefCount := mRefCount v + 1\<rparr>)) a (of_nat n)"
proof -
  have n: "unat (of_nat n :: u32) = n" "unat (of_nat (Suc n) :: u32) = Suc n"
    using assms(3) by (simp_all add: unat_of_nat take_bit_nat_eq_self del: of_nat_Suc)
  have "unat (mRefCount v + 1) = unat (mRefCount v) + 1" using assms(3) by (intro unat_add_lem [THEN iffD1, THEN trans]) simp_all
  then have "0 < mRefCount v + 1" by (simp add: word_less_nat_alt)
  moreover have "0 < mRefCount v" using assms(2) by (simp add: word_gt_0)
  moreover have "0 < (of_nat (Suc n) :: u32)" using n(2) by (simp add: word_less_nat_alt)
  moreover have "(0 < (of_nat n :: u32)) = (n \<noteq> 0)" using n(1) by (simp add: word_less_nat_alt)
  ultimately show ?thesis using assms(1) by (cases n) (simp_all add: AsyncValue_AddRef_def add_ac)
qed

lemma av_AddRef_ok:
  assumes "av_inv s" "0 < as_ext s a" "refs_room (as_heap s) (n + k)" "unwatched n0 s"
  shows "\<exists>s'. av_AddRef a n s = Some s' \<and> quiet n0 s s' \<and> refs_room (as_heap s') k \<and>
    as_ext s' = (as_ext s)(a := as_ext s a + n) \<and> as_next s' = as_next s \<and> as_runs s' = as_runs s \<and> as_data s' = as_data s \<and>
    (\<forall>b. map_option core (as_heap s' b) = map_option core (as_heap s b))"
  using assms
proof (induction n arbitrary: s)
  case 0
  then show ?case by (auto simp: av_AddRef_def AsyncValue_AddRef_def intro: quiet_refl)
next
  case (Suc n)
  obtain v where v: "as_heap s a = Some v" "a < as_next s" "mRefCount v \<noteq> 0" using alive [OF Suc.prems(1,2)] .
  have r: "unat (mRefCount v) + Suc (n + k) < 2 ^ 32" using refs_roomD [OF Suc.prems(3) v(1)] by simp
  let ?h = "(as_heap s)(a \<mapsto> v\<lparr>mRefCount := mRefCount v + 1\<rparr>)"
  let ?s = "s\<lparr>as_heap := ?h, as_ext := (as_ext s)(a := as_ext s a + 1)\<rparr>"
  have u: "unat (mRefCount v + 1) = unat (mRefCount v) + 1" using r by (intro unat_add_lem [THEN iffD1, THEN trans]) simp_all
  have fit: "refs_fit (as_heap s)" using Suc.prems(3) by (auto intro: refs_room_fit)
  have "AsyncValue_AddRef (as_heap s) a 1 = Some ?h"
    using v by (simp add: AsyncValue_AddRef_def word_gt_0)
  from inv_addref [OF Suc.prems(1) fit Suc.prems(2) this] have inv: "av_inv ?s" .
  have cores: "map_option core (as_heap ?s b) = map_option core (as_heap s b)" for b using v(1) by simp
  have q: "quiet n0 s ?s"
    by (rule quiet_shrinks) (use inv Suc.prems(4) cores shrinks_rc_update [of "as_heap s" a v "mRefCount v + 1"] v(1) in simp_all)
  have room: "refs_room (as_heap ?s) (n + k)"
    using r u by (auto intro!: refs_room_update refs_room_mono [OF Suc.prems(3)])
  have e: "0 < as_ext ?s a" by simp
  obtain s' where s': "av_AddRef a n ?s = Some s'" "quiet n0 ?s s'" "refs_room (as_heap s') k"
      "as_ext s' = (as_ext ?s)(a := as_ext ?s a + n)" "as_next s' = as_next ?s" "as_runs s' = as_runs ?s" "as_data s' = as_data ?s"
      "\<forall>b. map_option core (as_heap s' b) = map_option core (as_heap ?s b)"
    using Suc.IH [OF inv e room quietD(2) [OF q]] by blast
  have "av_AddRef a (Suc n) s = av_AddRef a n ?s"
    unfolding av_AddRef_def using AddRef_Suc [of "as_heap s" a v n] v(1,3) r by (simp del: of_nat_Suc)
  then show ?case using s' quiet_trans [OF q s'(2)] cores by auto
qed

lemma av_DropRef_ok:
  assumes "av_inv s" "0 < as_ext s a" "\<not> IsUnavailable (as_heap s) a"
  shows "\<exists>s'. av_DropRef a s = Some s' \<and> av_inv s' \<and> as_ext s' = (as_ext s)(a := as_ext s a - 1) \<and> as_next s' = as_next s \<and>
    as_runs s' = as_runs s \<and> as_log s' = as_log s \<and> as_reg s' = as_reg s \<and> as_data s' = as_data s \<and> pool s' = pool s \<and>
    shrinks (as_heap s) (as_heap s')"
proof -
  note I = av_invD [OF assms(1)]
  obtain v where v: "as_heap s a = Some v" "a < as_next s" using alive [OF assms(1,2)] by metis
  then have "val_ok (as_heap s) v" "State_IsAvailable (mState v)"
    using I(1) assms(3) by (auto simp: heap_ok_def IsUnavailable_def)
  then have w: "mWaiters v = []" by (simp add: val_ok_def)
  obtain h where h: "AsyncValue_DropRef (as_heap s) a 1 = Some h" "shrinks (as_heap s) h"
    using DropRef_ok [OF I(1,2) v(1) outrefs_pos(1) [OF assms(2)]] w by blast
  moreover have "pool (s\<lparr>as_heap := h, as_ext := (as_ext s)(a := as_ext s a - 1)\<rparr>) = pool s"
    by (simp add: pool_def as_items_def shrinks_waiters [OF h(2)])
  ultimately show ?thesis using inv_dropref [OF assms(1,2) h(1)] by (simp add: av_DropRef_def)
qed

subsection \<open>Calls that create or resolve values of the kernel\<close>

lemma construct_quiet:
  assumes "av_inv s" "fresh_value tid v" "unwatched n0 s" "n0 \<le> as_next s"
  shows "quiet n0 s (HostContext_Construct v s)"
proof -
  note I = av_invD [OF assms(1)]
  have dead: "as_heap s (as_next s) = None" using I(1) unfolding heap_ok_def by (metis less_irrefl not_None_eq)
  have p: "pool (HostContext_Construct v s) = pool s"
    using fresh_valueD(2) [OF assms(2)] by (simp add: pool_def as_items_def HostContext_Construct_def heap_waiters_def hsum_alloc)
  then have "unwatched n0 (HostContext_Construct v s)"
    using assms(3) fresh_valueD(2) [OF assms(2)] by (simp add: unwatched_def) (simp add: HostContext_Construct_def)
  then show ?thesis
    using inv_make [OF assms(1,2)] assms(4) p
    by (auto simp: quiet_def construct_sel) (auto simp: HostContext_Construct_def keeps_available_def)
qed

lemma construct_room:
  "refs_room (as_heap s) k \<Longrightarrow> fresh_value tid v \<Longrightarrow> Suc k < 2 ^ 32 \<Longrightarrow> refs_room (as_heap (HostContext_Construct v s)) k"
  by (simp add: HostContext_Construct_def refs_room_update fresh_valueD(1))

lemma fresh_values [simp]:
  "fresh_value tid (ConcreteAsyncValue_Unconstructed T)" "fresh_value tid (ConcreteAsyncValue_Concrete T x)"
  "fresh_value tid (ConcreteAsyncValue_Error (DummyType tid) d)" "fresh_value tid IndirectAsyncValue_new"
  by (auto simp: fresh_value_def)

text \<open>SetError on an unresolved value of the kernel.\<close>

lemma SetError_fresh:
  assumes "av_inv s" "as_heap s a = Some v" "\<not> State_IsAvailable (mState v)" "mWaiters v = []"
  shows "\<exists>h. SetError tid (as_heap s) a d (as_next s) = Some (h, []) \<and> \<not> IsUnavailable h a \<and>
    (\<forall>b. b \<noteq> a \<and> b \<noteq> as_next s \<longrightarrow> h b = as_heap s b) \<and> (\<exists>v'. h a = Some v' \<and> mWaiters v' = [] \<and> mRefCount v' = mRefCount v) \<and>
    (h (as_next s) = None \<or> (\<exists>e. h (as_next s) = Some e \<and> mWaiters e = [] \<and> mRefCount e = 1 \<and> State_IsAvailable (mState e)))"
proof -
  note I = av_invD [OF assms(1)]
  have dead: "as_heap s (as_next s) = None" using I(1) unfolding heap_ok_def by (metis less_irrefl not_None_eq)
  then have an: "a \<noteq> as_next s" using assms(2) by auto
  show ?thesis
  proof (cases "mKind v")
    case KConcrete
    then show ?thesis using assms dead an
      by (simp add: SetError_def NotifyAvailable_def IsUnavailable_def)
  next
    case KIndirect
    have "val_ok (as_heap s) v" using I(1) assms(2) by (auto simp: heap_ok_def)
    then have "mValue v = None" using KIndirect assms(3) by (auto simp: val_ok_def)
    then show ?thesis using KIndirect assms dead an
      by (simp add: SetError_def ForwardTo_def NotifyAvailable_def IsUnavailable_def ConcreteAsyncValue_Error_def AsyncValue_new_def)
  qed
qed

lemma av_SetError_ok:
  assumes inv: "av_inv s" and a: "0 < as_ext s a" "IsUnavailable (as_heap s) a" "n0 \<le> a" and u: "unwatched n0 s" "n0 \<le> as_next s"
    and room: "refs_room (as_heap s) k" "0 < k"
  shows "\<exists>s'. av_SetError tid a d s = Some s' \<and> quiet n0 s s' \<and> as_ext s' = as_ext s \<and> refs_room (as_heap s') k \<and>
    \<not> IsUnavailable (as_heap s') a"
proof -
  note I = av_invD [OF inv]
  obtain v where v: "as_heap s a = Some v" "\<not> State_IsAvailable (mState v)"
    using a(2) by (auto simp: IsUnavailable_def split: option.splits)
  have w: "mWaiters v = []" using u a(3) v(1) by (simp add: unwatched_def)
  obtain h where h: "SetError tid (as_heap s) a d (as_next s) = Some (h, [])" "\<not> IsUnavailable h a"
      "\<And>b. b \<noteq> a \<Longrightarrow> b \<noteq> as_next s \<Longrightarrow> h b = as_heap s b"
      "\<exists>v'. h a = Some v' \<and> mWaiters v' = [] \<and> mRefCount v' = mRefCount v"
      "h (as_next s) = None \<or> (\<exists>e. h (as_next s) = Some e \<and> mWaiters e = [] \<and> mRefCount e = 1 \<and> State_IsAvailable (mState e))"
    using SetError_fresh [OF inv v w, of tid d] by blast
  let ?s = "RunWaiters_call h [] (s\<lparr>as_next := Suc (as_next s)\<rparr>)"
  have fit: "refs_fit (as_heap s)" using room by (cases k) (auto intro: refs_room_fit)
  have inv': "av_inv ?s" by (rule inv_seterror [OF inv a(1) fit unwatched_no_forward [OF u(1) a(3)] h(1)])
  have hw: "heap_waiters h (Suc (as_next s)) = heap_waiters (as_heap s) (as_next s)"
  proof -
    have dead: "as_heap s (as_next s) = None" using I(1) unfolding heap_ok_def by (metis less_irrefl not_None_eq)
    have "heap_waiters h (Suc (as_next s)) = hsum (\<lambda>v. mset (mWaiters v)) (as_heap s) (Suc (as_next s))"
      unfolding heap_waiters_def
    proof (rule hsum_cong)
      fix i show "(case h i of None \<Rightarrow> 0 | Some v \<Rightarrow> mset (mWaiters v)) = (case as_heap s i of None \<Rightarrow> 0 | Some v \<Rightarrow> mset (mWaiters v))"
        using h(3) [of i] h(4,5) v(1) w dead by (cases "i = a"; cases "i = as_next s") auto
    qed
    then show ?thesis using dead by (simp add: heap_waiters_def hsum_def)
  qed
  have p: "pool ?s = pool s" by (simp add: pool_call hw) (simp add: pool_def as_items_def)
  have "mWaiters v' = []" if "n0 \<le> b" "h b = Some v'" for b v'
    using h(3) [of b] h(4,5) u(1) that by (cases "b = a"; cases "b = as_next s") (auto simp: unwatched_def)
  then have uw: "unwatched n0 ?s" using u(1) by (simp add: unwatched_def p)
  have old: "map_option core (h b) = map_option core (as_heap s b)" if "b < n0" for b
    using h(3) [of b] that a(3) u(2) by simp
  have av: "keeps_available s ?s"
    unfolding keeps_available_def
  proof (intro allI impI)
    fix b v' assume b: "b < as_next s" "as_heap ?s b = Some v'"
    show "\<exists>v. as_heap s b = Some v \<and> (State_IsAvailable (mState v) \<longrightarrow> keeps_value v v')"
      using h(3) [of b] b v core_keeps by (cases "b = a") auto
  qed
  have "refs_room h k" unfolding refs_room_def
  proof (intro allI impI)
    fix b v' assume b: "h b = Some v'"
    have r: "unat (mRefCount v) + k < 2 ^ 32" using refs_roomD [OF room(1) v(1)] .
    have "mRefCount v \<noteq> 0" using rc_ok_Some(2) [OF I(2) v(1)] .
    then have "1 \<le> unat (mRefCount v)" by (simp add: Suc_le_eq unat_gt_0)
    then show "unat (mRefCount v') + k < 2 ^ 32"
      using h(3) [of b] h(4,5) b r refs_roomD [OF room(1), of b v'] by (cases "b = a"; cases "b = as_next s") auto
  qed
  then show ?thesis
    using h(1,2) inv' uw old av p by (auto simp: av_SetError_def quiet_def intro!: exI [of _ ?s])
qed

subsection \<open>A kernel run\<close>

fun slot_ok :: "nat \<Rightarrow> 'a av_sys \<Rightarrow> av_ptr option \<Rightarrow> slot \<Rightarrow> bool" where
  "slot_ok n0 s None x = (x = SEmpty)"
| "slot_ok n0 s (Some b) SEmpty = False"
| "slot_ok n0 s (Some b) SPending = (0 < as_ext s b \<and> n0 \<le> b \<and> IsUnavailable (as_heap s) b)"
| "slot_ok n0 s (Some b) SReady = (0 < as_ext s b \<and> \<not> IsUnavailable (as_heap s) b)"

definition frame_inv :: "nat \<Rightarrow> av_ptr list \<Rightarrow> av_ptr option list \<Rightarrow> AsyncKernelFrame \<Rightarrow> 'a av_sys \<Rightarrow> slot list \<Rightarrow> bool" where
  "frame_inv n0 args rs f s ss \<longleftrightarrow> av_inv s \<and> unwatched n0 s \<and> n0 \<le> as_next s \<and>
     f = \<lparr>kf_mAsyncValues = map Some args @ rs, kf_mNumArguments = length args, kf_mNumResults = int (length rs)\<rparr> \<and>
     (\<forall>a \<in> set args. 0 < as_ext s a \<and> \<not> IsUnavailable (as_heap s) a) \<and> list_all2 (slot_ok n0 s) rs ss"

lemma frame_invD:
  assumes "frame_inv n0 args rs f s ss"
  shows "av_inv s" "unwatched n0 s" "n0 \<le> as_next s"
    "f = \<lparr>kf_mAsyncValues = map Some args @ rs, kf_mNumArguments = length args, kf_mNumResults = int (length rs)\<rparr>"
    "\<And>a. a \<in> set args \<Longrightarrow> 0 < as_ext s a" "\<And>a. a \<in> set args \<Longrightarrow> \<not> IsUnavailable (as_heap s) a"
    "list_all2 (slot_ok n0 s) rs ss" "length ss = length rs"
  using assms unfolding frame_inv_def by (auto dest: list_all2_lengthD)

lemma slot_ok_mono:
  assumes "slot_ok n0 s r x" "av_inv s" "\<And>b. as_ext s b \<le> as_ext s' b"
    "\<And>b. b < as_next s \<Longrightarrow> IsUnavailable (as_heap s') b = IsUnavailable (as_heap s) b"
  shows "slot_ok n0 s' r x"
proof (cases r)
  case (Some b)
  have "0 < as_ext s b \<Longrightarrow> b < as_next s" using alive [OF assms(2)] by metis
  moreover have "0 < as_ext s b \<Longrightarrow> 0 < as_ext s' b" using assms(3) [of b] by linarith
  ultimately show ?thesis using assms(1,4) Some by (cases x) auto
qed (use assms in simp)

lemma count_list_update_sum:
  "i < length xs \<Longrightarrow> count_list (xs[i := y]) z + of_bool (xs ! i = z) = count_list xs z + of_bool (y = z)"
  using length_filter_update [of i xs "(=) z" y] by (simp add: count_list_eq_length_filter eq_commute)

text \<open>A call that puts the value \<open>a\<close> into the empty slot \<open>i\<close>.\<close>

lemma frame_set:
  assumes I: "frame_inv n0 args rs f s ss" and i: "i < length ss" "ss ! i = SEmpty" and q: "quiet n0 s s'"
    and ext: "\<And>b. as_ext s b + of_bool (b = a) \<le> as_ext s' b"
    and un: "\<And>b. b < as_next s \<Longrightarrow> IsUnavailable (as_heap s') b = IsUnavailable (as_heap s) b"
    and a: "slot_ok n0 s' (Some a) x"
  shows "\<exists>f' rs'. SetResultAt i a f = Some f' \<and> frame_inv n0 args rs' f' s' (ss[i := x]) \<and>
    (\<forall>b. as_ext s b + count_list rs' (Some b) \<le> as_ext s' b + count_list rs (Some b)) \<and> (\<forall>b. as_ext s b \<le> as_ext s' b)"
proof -
  note F = frame_invD [OF I]
  have e: "as_ext s b \<le> as_ext s' b" for b using ext [of b] by linarith
  have "slot_ok n0 s (rs ! i) (ss ! i)" using F(7) i(1) F(8) by (simp add: list_all2_conv_all_nth)
  then have r: "rs ! i = None" using i(2) by (cases "rs ! i") auto
  let ?rs = "rs[i := Some a]"
  let ?f = "f\<lparr>kf_mAsyncValues := map Some args @ ?rs\<rparr>"
  have "SetResultAt i a f = Some ?f"
    using i(1) F(8) r by (simp add: SetResultAt_def F(4) nth_append list_update_append)
  moreover have "list_all2 (slot_ok n0 s') ?rs (ss[i := x])"
    using list_all2_mono [OF F(7) slot_ok_mono [OF _ F(1) e un]] a by (intro list_all2_update_cong) auto
  then have "frame_inv n0 args ?rs ?f s' (ss[i := x])"
    unfolding frame_inv_def using quietD(1-3) [OF q] F(3) F(5,6) e un alive [OF F(1) F(5)]
    by (auto simp: F(4) intro: less_le_trans) (metis un)
  moreover have "as_ext s b + count_list ?rs (Some b) \<le> as_ext s' b + count_list rs (Some b)" for b
    using count_list_update_sum [of i rs "Some a" "Some b"] i(1) F(8) r ext [of b] by (auto split: if_splits)
  ultimately show ?thesis using e by blast
qed

lemma construct_ext:
  assumes "av_inv s"
  shows "as_ext (HostContext_Construct v s) b = as_ext s b + of_bool (b = as_next s)"
    "b < as_next s \<Longrightarrow> as_heap (HostContext_Construct v s) b = as_heap s b"
    "as_heap (HostContext_Construct v s) (as_next s) = Some v" "as_next (HostContext_Construct v s) = Suc (as_next s)"
proof -
  have "as_ext s (as_next s) = 0" using alive [OF assms, of "as_next s"] by fastforce
  then show "as_ext (HostContext_Construct v s) b = as_ext s b + of_bool (b = as_next s)"
    by (simp add: HostContext_Construct_def)
qed (simp_all add: HostContext_Construct_def)

lemma core_unavailable: "map_option core (h' b) = map_option core (h b) \<Longrightarrow> IsUnavailable h' b = IsUnavailable h b"
  by (cases "h b"; cases "h' b") (auto simp: IsUnavailable_def dest: core_eqD(2))

text \<open>Allocating a result and sharing it with the asynchronous part of the kernel.\<close>

lemma construct_addref:
  assumes "av_inv s" "fresh_value tid v" "unwatched n0 s" "n0 \<le> as_next s" "refs_room (as_heap s) (1 + k)" "k + 2 < 2 ^ 32"
  shows "\<exists>s'. av_AddRef (as_next s) 1 (HostContext_Construct v s) = Some s' \<and> quiet n0 s s' \<and> refs_room (as_heap s') k \<and>
    (\<forall>b. as_ext s' b = as_ext s b + (if b = as_next s then 2 else 0)) \<and>
    (\<forall>b<as_next s. IsUnavailable (as_heap s') b = IsUnavailable (as_heap s) b) \<and>
    (IsUnavailable (as_heap s') (as_next s) \<longleftrightarrow> \<not> State_IsAvailable (mState v))"
proof -
  let ?s = "HostContext_Construct v s"
  have q: "quiet n0 s ?s" by (rule construct_quiet [OF assms(1-4)])
  have r: "refs_room (as_heap ?s) (1 + k)" by (rule construct_room [OF assms(5,2)]) (use assms(6) in simp)
  note ce = construct_ext [OF assms(1), where v = v]
  obtain s' where s': "av_AddRef (as_next s) 1 ?s = Some s'" "quiet n0 ?s s'" "refs_room (as_heap s') k"
      "as_ext s' = (as_ext ?s)(as_next s := as_ext ?s (as_next s) + 1)"
      "\<And>b. map_option core (as_heap s' b) = map_option core (as_heap ?s b)"
    using av_AddRef_ok [OF quietD(1) [OF q] _ r quietD(2) [OF q], of "as_next s"] ce(1) [of "as_next s"] by auto
  have "IsUnavailable (as_heap s') b = IsUnavailable (as_heap ?s) b" for b using core_unavailable s'(5) .
  moreover have "IsUnavailable (as_heap ?s) (as_next s) \<longleftrightarrow> \<not> State_IsAvailable (mState v)" using ce(3) by (simp add: IsUnavailable_def)
  moreover have "IsUnavailable (as_heap ?s) b = IsUnavailable (as_heap s) b" if "b < as_next s" for b
    using ce(2) [OF that] by (simp add: IsUnavailable_def)
  moreover have "as_ext s' b = as_ext s b + (if b = as_next s then 2 else 0)" for b
    using ce(1) s'(4) by simp
  ultimately show ?thesis using s'(1,3) quiet_trans [OF q s'(2)] by blast
qed

definition frame_after :: "u16 \<Rightarrow> nat \<Rightarrow> av_ptr list \<Rightarrow> av_ptr option list \<Rightarrow> 'a av_sys \<Rightarrow> slot list \<Rightarrow> nat \<Rightarrow> 'a frame_state option \<Rightarrow> bool" where
  "frame_after tid n0 args rs s ss k r \<longleftrightarrow> (\<exists>f' s' rs'. r = Some (f', s') \<and> frame_inv n0 args rs' f' s' ss \<and> quiet n0 s s' \<and>
     refs_room (as_heap s') k \<and> (\<forall>b. as_ext s b + count_list rs' (Some b) \<le> as_ext s' b + count_list rs (Some b)) \<and>
     (\<forall>b. as_ext s b \<le> as_ext s' b))"

lemma emplace_ok:
  assumes I: "frame_inv n0 args rs f s ss" and i: "i < length ss" "ss ! i = SEmpty" and r: "refs_room (as_heap s) k" "Suc k < 2 ^ 32"
  shows "frame_after tid n0 args rs s (ss[i := SReady]) k (EmplaceResultAt i T x (f, s))"
proof -
  note F = frame_invD [OF I]
  let ?v = "ConcreteAsyncValue_Concrete T x" and ?a = "as_next s"
  let ?s = "HostContext_Construct ?v s"
  note ce = construct_ext [OF F(1), where v = ?v]
  have q: "quiet n0 s ?s" by (rule construct_quiet [OF F(1) fresh_values(2) [of 0] F(2,3)])
  have "refs_room (as_heap ?s) k" by (rule construct_room [OF r(1) fresh_values(2) [of 0] r(2)])
  moreover have "slot_ok n0 ?s (Some ?a) SReady"
    using ce(1) [of ?a] ce(3) by (simp add: IsUnavailable_def ConcreteAsyncValue_Concrete_def AsyncValue_new_def)
  then have "\<exists>f' rs'. SetResultAt i ?a f = Some f' \<and> frame_inv n0 args rs' f' ?s (ss[i := SReady]) \<and>
      (\<forall>b. as_ext s b + count_list rs' (Some b) \<le> as_ext ?s b + count_list rs (Some b)) \<and> (\<forall>b. as_ext s b \<le> as_ext ?s b)"
    by (intro frame_set [OF I i q]) (use ce in \<open>simp_all add: IsUnavailable_def\<close>)
  ultimately show ?thesis using q unfolding frame_after_def EmplaceResultAt_def MakeAvailableAsyncValueRef_def by auto
qed

lemma allocate_ok:
  assumes I: "frame_inv n0 args rs f s ss" and i: "i < length ss" "ss ! i = SEmpty"
    and v: "fresh_value tid v" "\<not> State_IsAvailable (mState v)" and r: "refs_room (as_heap s) (1 + k)" "k + 2 < 2 ^ 32"
  shows "frame_after tid n0 args rs s (ss[i := SPending]) k
    (Option.bind (av_AddRef (as_next s) 1 (HostContext_Construct v s)) (\<lambda>s1. map_option (\<lambda>f1. (f1, s1)) (SetResultAt i (as_next s) f)))"
proof -
  note F = frame_invD [OF I]
  obtain s' where s': "av_AddRef (as_next s) 1 (HostContext_Construct v s) = Some s'" "quiet n0 s s'" "refs_room (as_heap s') k"
      "\<And>b. as_ext s' b = as_ext s b + (if b = as_next s then 2 else 0)"
      "\<And>b. b < as_next s \<Longrightarrow> IsUnavailable (as_heap s') b = IsUnavailable (as_heap s) b" "IsUnavailable (as_heap s') (as_next s)"
    using construct_addref [OF F(1) v(1) F(2,3) r] v(2) by blast
  have "slot_ok n0 s' (Some (as_next s)) SPending" using s'(4) [of "as_next s"] s'(6) F(3) by simp
  then have "\<exists>f' rs'. SetResultAt i (as_next s) f = Some f' \<and> frame_inv n0 args rs' f' s' (ss[i := SPending]) \<and>
      (\<forall>b. as_ext s b + count_list rs' (Some b) \<le> as_ext s' b + count_list rs (Some b)) \<and> (\<forall>b. as_ext s b \<le> as_ext s' b)"
    by (intro frame_set [OF I i s'(2)]) (use s'(4,5) in simp_all)
  then show ?thesis using s'(1-3) unfolding frame_after_def by auto
qed

lemma share_ok:
  assumes I: "frame_inv n0 args rs f s ss" and i: "i < length ss" "ss ! i = SEmpty"
    and a: "0 < as_ext s a" "\<not> IsUnavailable (as_heap s) a" and r: "refs_room (as_heap s) (1 + k)"
  shows "frame_after tid n0 args rs s (ss[i := SReady]) k (ShareResultAt i a (f, s))"
proof -
  note F = frame_invD [OF I]
  obtain s' where s': "av_AddRef a 1 s = Some s'" "quiet n0 s s'" "refs_room (as_heap s') k"
      "as_ext s' = (as_ext s)(a := as_ext s a + 1)" "\<And>b. map_option core (as_heap s' b) = map_option core (as_heap s b)"
    using av_AddRef_ok [OF F(1) a(1) r F(2)] by blast
  have un: "IsUnavailable (as_heap s') b = IsUnavailable (as_heap s) b" for b using core_unavailable s'(5) .
  then have "slot_ok n0 s' (Some a) SReady" using s'(4) a(2) by simp
  then have "\<exists>f' rs'. SetResultAt i a f = Some f' \<and> frame_inv n0 args rs' f' s' (ss[i := SReady]) \<and>
      (\<forall>b. as_ext s b + count_list rs' (Some b) \<le> as_ext s' b + count_list rs (Some b)) \<and> (\<forall>b. as_ext s b \<le> as_ext s' b)"
    by (intro frame_set [OF I i s'(2)]) (use s'(4) un in simp_all)
  then show ?thesis using s'(1-3) unfolding frame_after_def ShareResultAt_def by auto
qed

text \<open>PropogateError.\<close>

definition loop_pre :: "nat \<Rightarrow> av_ptr \<Rightarrow> av_ptr option list \<Rightarrow> 'a av_sys \<Rightarrow> bool" where
  "loop_pre n0 e rs s \<longleftrightarrow> av_inv s \<and> unwatched n0 s \<and> n0 \<le> as_next s \<and> 0 < as_ext s e \<and> \<not> IsUnavailable (as_heap s) e \<and>
     (\<forall>b. Some b \<in> set rs \<longrightarrow> 0 < as_ext s b \<and> (IsUnavailable (as_heap s) b \<longrightarrow> n0 \<le> b))"

definition loop_post :: "nat \<Rightarrow> av_ptr option list \<Rightarrow> 'a av_sys \<Rightarrow> nat \<Rightarrow> bool \<times> av_ptr option list \<times> 'a av_sys \<Rightarrow> bool" where
  "loop_post n0 rs s k r \<longleftrightarrow> (case r of (b, rs', s') \<Rightarrow> quiet n0 s s' \<and> refs_room (as_heap s') k \<and> length rs' = length rs \<and>
     (\<forall>r \<in> set rs'. \<exists>b. r = Some b \<and> 0 < as_ext s' b \<and> \<not> IsUnavailable (as_heap s') b) \<and>
     (b \<or> (\<forall>r \<in> set rs. \<exists>b. r = Some b \<and> \<not> IsUnavailable (as_heap s) b)) \<and>
     (\<forall>a. as_ext s a + count_list rs' (Some a) \<le> as_ext s' a + count_list rs (Some a)) \<and> (\<forall>a. as_ext s a \<le> as_ext s' a))"

lemma loop_pre_step:
  assumes "loop_pre n0 e (r # rs) s" "quiet n0 s s'" "\<And>a. as_ext s a \<le> as_ext s' a"
  shows "loop_pre n0 e rs s'"
proof -
  have P: "av_inv s" "n0 \<le> as_next s" "0 < as_ext s e" "\<not> IsUnavailable (as_heap s) e"
    "\<And>b. Some b \<in> set rs \<Longrightarrow> 0 < as_ext s b \<and> (IsUnavailable (as_heap s) b \<longrightarrow> n0 \<le> b)"
    using assms(1) unfolding loop_pre_def by auto
  have nx: "b < as_next s" if "0 < as_ext s b" for b using alive [OF P(1) that] by metis
  have "0 < as_ext s' b" if "0 < as_ext s b" for b using assms(3) [of b] that by linarith
  then show ?thesis
    using P quietD [OF assms(2)] nx unfolding loop_pre_def by (metis le_trans)
qed

lemma loop_post_Cons:
  assumes "av_inv s" "quiet n0 s s1" "\<And>a. as_ext s a + of_bool (r = None \<and> r1 = Some a) \<le> as_ext s1 a" "r = None \<or> r1 = r"
    "r1 = Some b1" "0 < as_ext s1 b1" "\<not> IsUnavailable (as_heap s1) b1" "loop_post n0 rs s1 k (b, rs', s')"
    "c \<or> (b = c \<and> s1 = s \<and> r = r1)"
  shows "loop_post n0 (r # rs) s k (c, r1 # rs', s')"
proof -
  have L: "quiet n0 s1 s'" "refs_room (as_heap s') k" "length rs' = length rs"
    "\<And>r. r \<in> set rs' \<Longrightarrow> \<exists>b. r = Some b \<and> 0 < as_ext s' b \<and> \<not> IsUnavailable (as_heap s') b"
    "b \<or> (\<forall>r \<in> set rs. \<exists>b. r = Some b \<and> \<not> IsUnavailable (as_heap s1) b)"
    "\<And>a. as_ext s1 a + count_list rs' (Some a) \<le> as_ext s' a + count_list rs (Some a)" "\<And>a. as_ext s1 a \<le> as_ext s' a"
    using assms(8) unfolding loop_post_def by auto
  have b1: "b1 < as_next s1" using alive [OF quietD(1) [OF assms(2)] assms(6)] by metis
  have "0 < as_ext s' b1" using assms(6) L(7) [of b1] by linarith
  moreover have "\<not> IsUnavailable (as_heap s') b1" using quietD(8) [OF L(1) b1 assms(7)] .
  moreover have "as_ext s a + count_list (r1 # rs') (Some a) \<le> as_ext s' a + count_list (r # rs) (Some a)" for a
    using assms(3) [of a] assms(4) L(6) [of a] by (cases r) auto
  moreover have "as_ext s a \<le> as_ext s' a" for a using assms(3) [of a] L(7) [of a] by linarith
  moreover have "c \<or> (\<forall>r \<in> set (r # rs). \<exists>b. r = Some b \<and> \<not> IsUnavailable (as_heap s) b)"
    using assms(9) L(5) assms(5,7) by auto
  ultimately show ?thesis
    using L(2-4) assms(5) quiet_trans [OF assms(2) L(1)] unfolding loop_post_def by auto
qed

lemma propogate_loop_ok:
  assumes "loop_pre n0 e rs s" "refs_room (as_heap s) (length rs + k)" "0 < k"
  shows "\<exists>r. propogate_loop tid e d rs s = Some r \<and> loop_post n0 rs s k r"
  using assms
proof (induction rs arbitrary: s)
  case Nil
  then show ?case by (auto simp: loop_pre_def loop_post_def intro: quiet_refl)
next
  case (Cons r rs)
  have P: "av_inv s" "unwatched n0 s" "n0 \<le> as_next s" "0 < as_ext s e" "\<not> IsUnavailable (as_heap s) e"
    "\<And>b. r = Some b \<Longrightarrow> 0 < as_ext s b \<and> (IsUnavailable (as_heap s) b \<longrightarrow> n0 \<le> b)"
    using Cons.prems(1) unfolding loop_pre_def by auto
  have room: "refs_room (as_heap s) (length rs + k)" using Cons.prems(2) by (auto intro: refs_room_mono)
  show ?case
  proof (cases r)
    case None
    have "refs_room (as_heap s) (1 + (length rs + k))" using Cons.prems(2) by simp
    from av_AddRef_ok [OF P(1,4) this P(2)]
    obtain s1 where s1: "av_AddRef e 1 s = Some s1" "quiet n0 s s1" "refs_room (as_heap s1) (length rs + k)"
        "as_ext s1 = (as_ext s)(e := as_ext s e + 1)" "\<forall>b. map_option core (as_heap s1 b) = map_option core (as_heap s b)"
      by blast
    have "loop_pre n0 e rs s1" by (rule loop_pre_step [OF Cons.prems(1) s1(2)]) (simp add: s1(4))
    from Cons.IH [OF this s1(3) Cons.prems(3)] obtain b rs' s' where L: "propogate_loop tid e d rs s1 = Some (b, rs', s')" "loop_post n0 rs s1 k (b, rs', s')"
      by (metis prod_cases3)
    have "\<not> IsUnavailable (as_heap s1) e" using core_unavailable s1(5) P(5) by blast
    then have "loop_post n0 (r # rs) s k (True, Some e # rs', s')"
      by (intro loop_post_Cons [OF P(1) s1(2) _ _ refl _ _ L(2)]) (use None s1(4) in auto)
    then show ?thesis using None s1(1) L(1) by simp
  next
    case (Some a)
    show ?thesis
    proof (cases "IsUnavailable (as_heap s) a")
      case True
      have "\<exists>s1. av_SetError tid a d s = Some s1 \<and> quiet n0 s s1 \<and> as_ext s1 = as_ext s \<and>
          refs_room (as_heap s1) (length rs + k) \<and> \<not> IsUnavailable (as_heap s1) a"
        by (rule av_SetError_ok [OF P(1) _ True _ P(2,3) room]) (use P(6) [OF Some] True Cons.prems(3) in auto)
      then obtain s1 where s1: "av_SetError tid a d s = Some s1" "quiet n0 s s1" "as_ext s1 = as_ext s"
          "refs_room (as_heap s1) (length rs + k)" "\<not> IsUnavailable (as_heap s1) a"
        by blast
      have "loop_pre n0 e rs s1" by (rule loop_pre_step [OF Cons.prems(1) s1(2)]) (simp add: s1(3))
      from Cons.IH [OF this s1(4) Cons.prems(3)] obtain b rs' s' where L: "propogate_loop tid e d rs s1 = Some (b, rs', s')" "loop_post n0 rs s1 k (b, rs', s')"
        by (metis prod_cases3)
      have "loop_post n0 (r # rs) s k (True, Some a # rs', s')"
        by (intro loop_post_Cons [OF P(1) s1(2) _ _ refl _ _ L(2)]) (use Some s1(3,5) P(6) in auto)
      then show ?thesis using Some True s1(1) L(1) by simp
    next
      case False
      have q: "quiet n0 s s" using quiet_refl P(1,2) by blast
      have "loop_pre n0 e rs s" by (rule loop_pre_step [OF Cons.prems(1) q]) simp
      from Cons.IH [OF this room Cons.prems(3)] obtain b rs' s' where L: "propogate_loop tid e d rs s = Some (b, rs', s')" "loop_post n0 rs s k (b, rs', s')"
        by (metis prod_cases3)
      have "loop_post n0 (r # rs) s k (b, Some a # rs', s')"
        by (intro loop_post_Cons [OF P(1) q _ _ refl _ _ L(2)]) (use Some False P(6) in auto)
      then show ?thesis using Some False L(1) by simp
    qed
  qed
qed

lemma list_all2_Ready:
  assumes "\<And>r. r \<in> set rs \<Longrightarrow> \<exists>b. r = Some b \<and> 0 < as_ext s b \<and> \<not> IsUnavailable (as_heap s) b" "length ss = length rs"
  shows "list_all2 (slot_ok n0 s) rs (map (\<lambda>_. SReady) ss)"
  unfolding list_all2_conv_all_nth
proof (intro conjI allI impI)
  fix i assume i: "i < length rs"
  then obtain b where "rs ! i = Some b" "0 < as_ext s b" "\<not> IsUnavailable (as_heap s) b" using assms(1) [OF nth_mem [OF i]] by blast
  then show "slot_ok n0 s (rs ! i) (map (\<lambda>_. SReady) ss ! i)" using i assms(2) by simp
qed (simp add: assms(2))

lemma slots_pending:
  assumes "list_all2 (slot_ok n0 s) rs ss" "list_ex (\<lambda>x. x \<noteq> SReady) ss"
  shows "\<not> (\<forall>r \<in> set rs. \<exists>b. r = Some b \<and> \<not> IsUnavailable (as_heap s) b)"
proof -
  obtain i where i: "i < length ss" "ss ! i \<noteq> SReady" using assms(2) by (auto simp: list_ex_length)
  then have "slot_ok n0 s (rs ! i) (ss ! i)" "rs ! i \<in> set rs" using assms(1) by (auto simp: list_all2_conv_all_nth)
  then show ?thesis using i(2) by (cases "rs ! i"; cases "ss ! i") force+
qed

lemma propogate_ok:
  assumes I: "frame_inv n0 args rs f s ss" and ex: "list_ex (\<lambda>x. x \<noteq> SReady) ss"
    and r: "refs_room (as_heap s) (length ss + 1 + k)" "length ss + k + 2 < 2 ^ 32"
  shows "frame_after tid n0 args rs s (map (\<lambda>_. SReady) ss) k (PropogateError tid msg (f, s))"
proof -
  note F = frame_invD [OF I]
  let ?d = "DecodedDiagnostic_new msg" and ?e = "as_next s"
  let ?v = "ConcreteAsyncValue_Error (DummyType tid) ?d :: 'a AsyncValue"
  let ?s = "HostContext_Construct ?v s"
  note ce = construct_ext [OF F(1), where v = ?v]
  have q: "quiet n0 s ?s" by (rule construct_quiet [OF F(1) fresh_values(3) F(2,3)])
  have room: "refs_room (as_heap ?s) (length rs + (k + 1))"
    by (rule construct_room [OF _ fresh_values(3)]) (use r F(8) in simp_all)
  have un: "IsUnavailable (as_heap ?s) b = IsUnavailable (as_heap s) b" if "b < as_next s" for b
    using ce(2) [OF that] by (simp add: IsUnavailable_def)
  have slots: "list_all2 (slot_ok n0 ?s) rs ss"
    by (rule list_all2_mono [OF F(7) slot_ok_mono [OF _ F(1)]]) (use ce(1) un in simp_all)
  have "0 < as_ext ?s b \<and> (IsUnavailable (as_heap ?s) b \<longrightarrow> n0 \<le> b)" if b: "Some b \<in> set rs" for b
  proof -
    obtain i where "i < length rs" "rs ! i = Some b" using b by (auto simp: in_set_conv_nth)
    then have "slot_ok n0 ?s (Some b) (ss ! i)" using slots by (metis list_all2_conv_all_nth)
    then show ?thesis by (cases "ss ! i") auto
  qed
  then have "loop_pre n0 ?e rs ?s"
    using quietD(1-3) [OF q] F(3) ce(1) [of ?e] ce(3)
    by (simp add: loop_pre_def IsUnavailable_def ConcreteAsyncValue_Error_def AsyncValue_new_def)
  from propogate_loop_ok [OF this room] obtain b rs' s1
    where L: "propogate_loop tid ?e ?d rs ?s = Some (b, rs', s1)" "loop_post n0 rs ?s (k + 1) (b, rs', s1)"
    by (metis add_gr_0 prod_cases3 zero_less_one)
  then have P: "quiet n0 ?s s1" "refs_room (as_heap s1) (k + 1)" "length rs' = length rs"
    "\<And>r. r \<in> set rs' \<Longrightarrow> \<exists>b. r = Some b \<and> 0 < as_ext s1 b \<and> \<not> IsUnavailable (as_heap s1) b"
    "b \<or> (\<forall>r \<in> set rs. \<exists>b. r = Some b \<and> \<not> IsUnavailable (as_heap ?s) b)"
    "\<And>a. as_ext ?s a + count_list rs' (Some a) \<le> as_ext s1 a + count_list rs (Some a)" "\<And>a. as_ext ?s a \<le> as_ext s1 a"
    unfolding loop_post_def by auto
  have b using P(5) slots_pending [OF slots ex] by blast
  have e: "0 < as_ext s1 ?e" using P(7) [of ?e] ce(1) [of ?e] by simp
  have eu: "\<not> IsUnavailable (as_heap s1) ?e"
    by (rule quietD(8) [OF P(1)]) (use ce(3,4) in \<open>simp_all add: IsUnavailable_def ConcreteAsyncValue_Error_def AsyncValue_new_def\<close>)
  obtain s2 where s2: "av_DropRef ?e s1 = Some s2" "av_inv s2" "as_ext s2 = (as_ext s1)(?e := as_ext s1 ?e - 1)"
      "as_next s2 = as_next s1" "as_runs s2 = as_runs s1" "as_log s2 = as_log s1" "as_reg s2 = as_reg s1" "shrinks (as_heap s1) (as_heap s2)"
    using av_DropRef_ok [OF quietD(1) [OF P(1)] e eu] by blast
  obtain w where w: "as_heap s1 ?e = Some w" "?e < as_next s1" using alive [OF quietD(1) [OF P(1)] e] by metis
  have "keeps_value ?v w"
    using quietD(9) [OF P(1)] w(1) ce(3,4) unfolding keeps_available_def
    by (force simp: ConcreteAsyncValue_Error_def AsyncValue_new_def)
  then have kind: "mKind w = KConcrete" using keeps_valueD(3) [of ?v w] by (simp add: ConcreteAsyncValue_Error_def AsyncValue_new_def)
  have other: "as_heap s2 b = as_heap s1 b" if "b \<noteq> ?e" for b
    using s2(1) w(1) kind that by (auto simp: av_DropRef_def AsyncValue_DropRef.simps split: if_splits)
  have q2: "quiet n0 s1 s2"
    by (rule quiet_shrinks [OF s2(2) quietD(2) [OF P(1)] s2(8,4,5,6,7)]) (use other F(3) in auto)
  have cnt: "count_list rs (Some ?e) = 0"
  proof -
    have "Some ?e \<notin> set rs"
    proof
      assume "Some ?e \<in> set rs"
      then obtain i where "i < length rs" "rs ! i = Some ?e" by (auto simp: in_set_conv_nth)
      then have "slot_ok n0 s (Some ?e) (ss ! i)" using F(7) by (metis list_all2_conv_all_nth)
      then have "0 < as_ext s ?e" by (cases "ss ! i") auto
      then show False using alive [OF F(1), of ?e] by (metis less_irrefl)
    qed
    then show ?thesis by (simp add: count_list_0_iff)
  qed
  have ext: "as_ext s a + count_list rs' (Some a) \<le> as_ext s2 a + count_list rs (Some a)" "as_ext s a \<le> as_ext s2 a" for a
    using P(6) [of a] P(7) [of a] ce(1) [of a] cnt s2(3) by (auto split: if_splits)
  have ready: "\<exists>b. r = Some b \<and> 0 < as_ext s2 b \<and> \<not> IsUnavailable (as_heap s2) b" if r: "r \<in> set rs'" for r
  proof -
    obtain b where b: "r = Some b" "0 < as_ext s1 b" "\<not> IsUnavailable (as_heap s1) b" using P(4) [OF r] by blast
    have "0 < count_list rs' (Some b)" using r b(1) by (metis count_list_0_iff neq0_conv)
    then have "0 < as_ext s2 b" using b(2) P(6) [of b] ce(1) [of b] cnt s2(3) by (auto split: if_splits)
    moreover have "b < as_next s1" using alive [OF quietD(1) [OF P(1)] b(2)] by metis
    ultimately show ?thesis using b quietD(8) [OF q2] by blast
  qed
  have q3: "quiet n0 s s2" using quiet_trans [OF quiet_trans [OF q P(1)] q2] .
  let ?f = "f\<lparr>kf_mAsyncValues := map Some args @ rs'\<rparr>"
  have "0 < as_ext s2 a \<and> \<not> IsUnavailable (as_heap s2) a" if "a \<in> set args" for a
  proof -
    have "0 < as_ext s2 a" using F(5) [OF that] ext(2) [of a] by linarith
    moreover have "a < as_next s" using alive [OF F(1) F(5) [OF that]] by metis
    ultimately show ?thesis using quietD(8) [OF q3] F(6) [OF that] by blast
  qed
  then have "frame_inv n0 args rs' ?f s2 (map (\<lambda>_. SReady) ss)"
    using quietD(1-3) [OF q3] F(3) list_all2_Ready [of rs' s2 ss n0] ready F(8) P(3) unfolding frame_inv_def by (simp add: F(4))
  moreover have "refs_room (as_heap s2) k"
  proof -
    have "refs_room (as_heap s1) k" using refs_room_mono [OF P(2)] by simp
    moreover have "as_heap s2 ?e = Some w2 \<Longrightarrow> unat (mRefCount w2) + k < 2 ^ 32" for w2
      using refs_roomD [OF P(2) w(1)] s2(1) w(1) kind by (auto simp: av_DropRef_def AsyncValue_DropRef.simps unat_minus_1_word split: if_splits)
    ultimately show ?thesis unfolding refs_room_def using other by metis
  qed
  moreover have "PropogateError tid msg (f, s) = Some (?f, s2)"
    using L(1) s2(1) \<open>b\<close> by (simp add: PropogateError_def GetResults_def GetAsyncValues_def F(4))
  ultimately show ?thesis using q3 ext unfolding frame_after_def by blast
qed

lemma op_ok_length: "op_ok n p ss = Some ss' \<Longrightarrow> length ss' = length ss"
  by (cases p) (auto split: if_splits)

lemma frame_do_ok:
  assumes I: "frame_inv n0 args rs f s ss" and p: "op_ok (length args) p ss = Some ss'"
    and r: "refs_room (as_heap s) (op_cost (length ss) p + k)" "op_cost (length ss) p + k + 2 < 2 ^ 32"
  shows "frame_after tid n0 args rs s ss' k (frame_do tid p (f, s))"
proof (cases p)
  case (OpEmplace i T x)
  then show ?thesis using emplace_ok [OF I, of i k] p r refs_room_mono [OF r(1), of k] by (auto split: if_splits)
next
  case (OpAllocate i T)
  have "\<not> State_IsAvailable (mState (ConcreteAsyncValue_Unconstructed T :: 'a AsyncValue))"
    by (simp add: ConcreteAsyncValue_Unconstructed_def AsyncValue_new_def)
  from allocate_ok [OF I _ _ fresh_values(1) this, of i k] OpAllocate p r show ?thesis
    by (auto simp: AllocateResultAt_def split: if_splits)
next
  case (OpIndirect i)
  have "\<not> State_IsAvailable (mState (IndirectAsyncValue_new :: 'a AsyncValue))"
    by (simp add: IndirectAsyncValue_new_def AsyncValue_new_def)
  from allocate_ok [OF I _ _ fresh_values(4) this, of i k] OpIndirect p r show ?thesis
    by (auto simp: AllocateIndirectResultAt_def split: if_splits)
next
  case (OpForward i j)
  then have i: "i < length ss" "ss ! i = SEmpty" "j < length args" "ss' = ss[i := SReady]" using p by (auto split: if_splits)
  have g: "GetArgAt j f = Some (args ! j)" using i(3) by (simp add: GetArgAt_def frame_invD(4) [OF I] nth_append)
  have "args ! j \<in> set args" using i(3) by simp
  from share_ok [OF I i(1,2) frame_invD(5,6) [OF I this], of k] r OpForward g i(4) show ?thesis by simp
next
  case (OpError msg)
  then show ?thesis using propogate_ok [OF I, of k tid msg] p r by (auto split: if_splits)
qed

lemma frame_run_ok:
  assumes "frame_inv n0 args rs f s ss" "ops_ok (length args) ps ss"
    "refs_room (as_heap s) (kernel_cost (length ss) ps + k)" "kernel_cost (length ss) ps + k + 2 < 2 ^ 32"
  shows "\<exists>ss'. frame_after tid n0 args rs s ss' k (frame_run tid ps (f, s)) \<and> list_all (\<lambda>x. x \<noteq> SEmpty) ss' \<and> length ss' = length ss"
  using assms
proof (induction ps arbitrary: rs f s ss)
  case Nil
  then show ?case
    using quiet_refl [of s n0] frame_invD(1,2) [OF Nil.prems(1)] refs_room_mono [OF Nil.prems(3), of k]
    by (auto simp: frame_after_def)
next
  case (Cons p ps)
  obtain ss1 where p: "op_ok (length args) p ss = Some ss1" "ops_ok (length args) ps ss1"
    using Cons.prems(2) by (auto split: option.splits)
  have len: "length ss1 = length ss" using op_ok_length [OF p(1)] .
  have cost: "kernel_cost (length ss) (p # ps) = op_cost (length ss) p + kernel_cost (length ss) ps" by (simp add: kernel_cost_def)
  have "frame_after tid n0 args rs s ss1 (kernel_cost (length ss) ps + k) (frame_do tid p (f, s))"
    by (rule frame_do_ok [OF Cons.prems(1) p(1)]) (use Cons.prems(3,4) cost in \<open>simp_all add: add_ac\<close>)
  then obtain f1 s1 rs1 where d: "frame_do tid p (f, s) = Some (f1, s1)" "frame_inv n0 args rs1 f1 s1 ss1" "quiet n0 s s1"
      "refs_room (as_heap s1) (kernel_cost (length ss1) ps + k)"
      "\<And>b. as_ext s b + count_list rs1 (Some b) \<le> as_ext s1 b + count_list rs (Some b)" "\<And>b. as_ext s b \<le> as_ext s1 b"
    unfolding frame_after_def len by blast
  have "kernel_cost (length ss1) ps + k + 2 < 2 ^ 32" using Cons.prems(4) cost len by simp
  from Cons.IH [OF d(2) p(2) d(4) this] obtain ss' f2 s2 rs2 where e: "frame_run tid ps (f1, s1) = Some (f2, s2)"
      "frame_inv n0 args rs2 f2 s2 ss'" "quiet n0 s1 s2" "refs_room (as_heap s2) k"
      "\<And>b. as_ext s1 b + count_list rs2 (Some b) \<le> as_ext s2 b + count_list rs1 (Some b)" "\<And>b. as_ext s1 b \<le> as_ext s2 b"
      "list_all (\<lambda>x. x \<noteq> SEmpty) ss'" "length ss' = length ss1"
    unfolding frame_after_def by blast
  have "as_ext s b + count_list rs2 (Some b) \<le> as_ext s2 b + count_list rs (Some b)" for b using d(5) [of b] e(5) [of b] by linarith
  moreover have "as_ext s b \<le> as_ext s2 b" for b using d(6) [of b] e(6) [of b] by linarith
  ultimately have "frame_after tid n0 args rs s ss' k (frame_run tid (p # ps) (f, s))"
    unfolding frame_after_def using d(1) e(1,2,4) quiet_trans [OF d(3) e(3)] by auto
  then show ?case using e(7,8) len by auto
qed

text \<open>A run of a kernel that keeps its rule, from an empty frame: it sets every result.\<close>

lemma kernel_run_ok:
  assumes inv: "av_inv s" and args: "\<And>a. a \<in> set args \<Longrightarrow> 0 < as_ext s a \<and> \<not> IsUnavailable (as_heap s) a"
    and ok: "kernel_ok (length args) n ps" and r: "refs_room (as_heap s) (kernel_cost n ps + k)" "kernel_cost n ps + k + 2 < 2 ^ 32"
  shows "\<exists>f' s' rs. frame_run tid ps (\<lparr>kf_mAsyncValues = map Some args @ replicate n None, kf_mNumArguments = length args,
      kf_mNumResults = int n\<rparr>, s) = Some (f', s') \<and> GetResults f' = Some (map Some rs) \<and> length rs = n \<and> quiet (as_next s) s s' \<and>
    refs_room (as_heap s') k \<and> (\<forall>b. as_ext s b + count_list rs b \<le> as_ext s' b) \<and> GetArguments f' = Some (map Some args)"
proof -
  let ?f = "\<lparr>kf_mAsyncValues = map Some args @ replicate n None, kf_mNumArguments = length args, kf_mNumResults = int n\<rparr>"
  have "frame_inv (as_next s) args (replicate n None) ?f s (replicate n SEmpty)"
    using inv unwatched_next [OF inv] args by (simp add: frame_inv_def list_all2_conv_all_nth)
  from frame_run_ok [OF this, of ps k tid] ok r obtain ss' f2 s2 rs2 where e: "frame_run tid ps (?f, s) = Some (f2, s2)"
      "frame_inv (as_next s) args rs2 f2 s2 ss'" "quiet (as_next s) s s2" "refs_room (as_heap s2) k"
      "\<And>b. as_ext s b + count_list rs2 (Some b) \<le> as_ext s2 b + count_list (replicate n None) (Some b)"
      "list_all (\<lambda>x. x \<noteq> SEmpty) ss'" "length ss' = n"
    unfolding frame_after_def kernel_ok_def by auto
  note F = frame_invD [OF e(2)]
  have "r \<noteq> None" if r: "r \<in> set rs2" for r
  proof -
    obtain i where i: "i < length rs2" "rs2 ! i = r" using r by (auto simp: in_set_conv_nth)
    then have "slot_ok (as_next s) s2 r (ss' ! i)" "ss' ! i \<noteq> SEmpty"
      using F(7,8) e(6) by (auto simp: list_all2_conv_all_nth list_all_length)
    then show ?thesis by (cases r) auto
  qed
  then have rs: "rs2 = map Some (map the rs2)" by (auto intro!: nth_equalityI)
  have "GetResults f2 = Some (map Some (map the rs2))" "GetArguments f2 = Some (map Some args)"
    using rs by (simp_all add: GetResults_def GetArguments_def GetAsyncValues_def F(4))
  moreover have "as_ext s b + count_list (map the rs2) b \<le> as_ext s2 b" for b
  proof -
    have "count_list rs2 (Some b) = count_list (map Some (map the rs2)) (Some b)" using rs by simp
    also have "\<dots> = count_list (map the rs2) b" by (rule count_list_map_conv) simp
    finally show ?thesis using e(5) [of b] by simp
  qed
  moreover have "length (map the rs2) = n" using F(8) e(7) by simp
  ultimately show ?thesis using e(1,3,4) by blast
qed

subsection \<open>RAIIKernelFrame\<close>

text \<open>The loops of AddRefAll and DropRefAll over arguments and results; a result that is not set is a null
  pointer. The copy of a frame shares its values.\<close>

fun frame_refs :: "(av_ptr \<Rightarrow> 'a av_sys \<Rightarrow> 'a av_sys option) \<Rightarrow> av_ptr option list \<Rightarrow> 'a av_sys \<Rightarrow> 'a av_sys option" where
  "frame_refs op [] s = Some s"
| "frame_refs op (None # vs) s = None"
| "frame_refs op (Some v # vs) s = Option.bind (op v s) (frame_refs op vs)"

definition RAIIKernelFrame_copy :: "AsyncKernelFrame \<Rightarrow> 'a av_sys \<Rightarrow> 'a av_sys option" where
  "RAIIKernelFrame_copy f s =
     Option.bind (GetAsyncValues 0 (nat (int (kf_mNumArguments f) + kf_mNumResults f)) f) (\<lambda>vs. frame_refs (\<lambda>v. av_AddRef v 1) vs s)"

definition RAIIKernelFrame_destroy :: "AsyncKernelFrame \<Rightarrow> 'a av_sys \<Rightarrow> 'a av_sys option" where
  "RAIIKernelFrame_destroy f s =
     (if kf_mAsyncValues f = [] then Some s
      else Option.bind (GetAsyncValues 0 (nat (int (kf_mNumArguments f) + kf_mNumResults f)) f) (\<lambda>vs. frame_refs av_DropRef vs s))"

lemma frame_refs_null: "None \<in> set vs \<Longrightarrow> frame_refs op vs s = None"
  by (induction op vs s rule: frame_refs.induct) (auto split: bind_splits)

text \<open>A RAIIKernelFrame can be made only when every result is set; it then holds one reference for every
  entry of the frame.\<close>

lemma RAIIKernelFrame_null_result:
  assumes "kf_mNumResults f = int n" "length (kf_mAsyncValues f) = kf_mNumArguments f + n" "None \<in> set (kf_mAsyncValues f)"
  shows "RAIIKernelFrame_copy f s = None"
  using assms frame_refs_null by (simp add: RAIIKernelFrame_copy_def GetAsyncValues_def nat_add_distrib)

lemma frame_addrefs:
  assumes "av_inv s" "unwatched n0 s" "\<forall>v \<in> set vs. 0 < as_ext s v" "refs_room (as_heap s) (length vs + k)"
  shows "\<exists>s'. frame_refs (\<lambda>v. av_AddRef v 1) (map Some vs) s = Some s' \<and> quiet n0 s s' \<and> refs_room (as_heap s') k \<and>
    (\<forall>b. as_ext s' b = as_ext s b + count_list vs b)"
  using assms
proof (induction vs arbitrary: s)
  case Nil
  then show ?case by (auto intro: quiet_refl)
next
  case (Cons v vs)
  obtain s1 where s1: "av_AddRef v 1 s = Some s1" "quiet n0 s s1" "refs_room (as_heap s1) (length vs + k)" "as_ext s1 = (as_ext s)(v := as_ext s v + 1)"
    using av_AddRef_ok [of s v 1 "length vs + k" n0] Cons.prems by auto
  have e: "\<forall>v \<in> set vs. 0 < as_ext s1 v" using Cons.prems(3) s1(4) by simp
  obtain s' where s': "frame_refs (\<lambda>v. av_AddRef v 1) (map Some vs) s1 = Some s'" "quiet n0 s1 s'" "refs_room (as_heap s') k"
      "\<forall>b. as_ext s' b = as_ext s1 b + count_list vs b"
    using Cons.IH [OF quietD(1) [OF s1(2)] quietD(2) [OF s1(2)] e s1(3)] by blast
  then show ?case using s1 quiet_trans [OF s1(2) s'(2)] by auto
qed

lemma frame_droprefs:
  assumes "av_inv s" "\<forall>v \<in> set vs. \<not> IsUnavailable (as_heap s) v" "\<forall>b. count_list vs b \<le> as_ext s b"
  shows "\<exists>s'. frame_refs av_DropRef (map Some vs) s = Some s' \<and> av_inv s' \<and> (\<forall>b. as_ext s' b = as_ext s b - count_list vs b)"
  using assms
proof (induction vs arbitrary: s)
  case (Cons v vs)
  have "0 < as_ext s v" using Cons.prems(3) [rule_format, of v] by simp
  then obtain s1 where s1: "av_DropRef v s = Some s1" "av_inv s1" "as_ext s1 = (as_ext s)(v := as_ext s v - 1)" "shrinks (as_heap s) (as_heap s1)"
    using av_DropRef_ok [OF Cons.prems(1), of v] Cons.prems(2) by auto
  have u: "\<forall>v \<in> set vs. \<not> IsUnavailable (as_heap s1) v" using shrinks_unavailable [OF s1(4)] Cons.prems(2) by auto
  have le: "\<forall>b. count_list vs b \<le> as_ext s1 b"
  proof
    fix b show "count_list vs b \<le> as_ext s1 b" using Cons.prems(3) [rule_format, of b] by (auto simp: s1(3) split: if_splits)
  qed
  obtain s' where "frame_refs av_DropRef (map Some vs) s1 = Some s'" "av_inv s'" "\<forall>b. as_ext s' b = as_ext s1 b - count_list vs b"
    using Cons.IH [OF s1(2) u le] by blast
  then show ?case using s1(1,3) by auto
qed simp

text \<open>Copying a complete frame and destroying the copy leaves every client with the references it had.\<close>

lemma RAIIKernelFrame_roundtrip:
  assumes "av_inv s" "kf_mAsyncValues f = map Some vs" "kf_mNumResults f = int n" "length vs = kf_mNumArguments f + n"
    and "\<forall>v \<in> set vs. 0 < as_ext s v \<and> \<not> IsUnavailable (as_heap s) v" "refs_room (as_heap s) (length vs)"
  shows "\<exists>s1 s2. RAIIKernelFrame_copy f s = Some s1 \<and> (\<forall>b. as_ext s1 b = as_ext s b + count_list vs b) \<and>
    RAIIKernelFrame_destroy f s1 = Some s2 \<and> as_ext s2 = as_ext s"
proof -
  have G: "GetAsyncValues 0 (nat (int (kf_mNumArguments f) + kf_mNumResults f)) f = Some (map Some vs)"
    using assms(2-4) by (simp add: GetAsyncValues_def nat_add_distrib)
  obtain s1 where s1: "frame_refs (\<lambda>v. av_AddRef v 1) (map Some vs) s = Some s1" "quiet (as_next s) s s1" "\<forall>b. as_ext s1 b = as_ext s b + count_list vs b"
    using frame_addrefs [OF assms(1) unwatched_next [OF assms(1)], of vs 0] assms(5,6) by auto
  have u: "\<forall>v \<in> set vs. \<not> IsUnavailable (as_heap s1) v"
  proof
    fix v assume "v \<in> set vs"
    then have v: "0 < as_ext s v" "\<not> IsUnavailable (as_heap s) v" using assms(5) by blast+
    then have "v < as_next s" using alive [OF assms(1)] by metis
    then show "\<not> IsUnavailable (as_heap s1) v" using quietD(8) [OF s1(2)] v(2) by blast
  qed
  obtain s2 where s2: "frame_refs av_DropRef (map Some vs) s1 = Some s2" "\<forall>b. as_ext s2 b = as_ext s1 b - count_list vs b"
    using frame_droprefs [OF quietD(1) [OF s1(2)] u] s1(3) by auto
  have "RAIIKernelFrame_destroy f s1 = Some s2" using G s2(1) assms(2) by (cases vs) (auto simp: RAIIKernelFrame_destroy_def)
  moreover have "as_ext s2 = as_ext s" using s1(3) s2(2) by auto
  ultimately show ?thesis using G s1 by (auto simp: RAIIKernelFrame_copy_def)
qed

subsection \<open>The frame keeps its promise\<close>

text \<open>
  C28. A kernel that sets every result once, forwards arguments by their
  numbers and reports an error only while a result is missing or unresolved never fails an assert of the
  frame or of the async values: it returns with every result set, each result comes with a reference for
  the executor, the arguments are in place, and no value that was there before is touched.
\<close>

theorem KernelFrame_kernel_delivers:
  assumes "av_reach tid s" "\<forall>a \<in> set args. 0 < as_ext s a \<and> \<not> IsUnavailable (as_heap s) a" "kernel_ok (length args) n ps"
    and "refs_room (as_heap s) (kernel_cost n ps)" "kernel_cost n ps + 2 < 2 ^ 32"
  shows "\<exists>f' s' rs. frame_run tid ps (\<lparr>kf_mAsyncValues = map Some args @ replicate n None, kf_mNumArguments = length args,
      kf_mNumResults = int n\<rparr>, s) = Some (f', s') \<and> GetResults f' = Some (map Some rs) \<and> GetArguments f' = Some (map Some args) \<and>
    length rs = n \<and> (\<forall>b. as_ext s b + count_list rs b \<le> as_ext s' b) \<and>
    (\<forall>b<as_next s. map_option core (as_heap s' b) = map_option core (as_heap s b))"
proof -
  have room: "refs_room (as_heap s) (kernel_cost n ps + 0)" "kernel_cost n ps + 0 + 2 < 2 ^ 32" using assms(4,5) by simp_all
  obtain f' s' rs where r: "frame_run tid ps (\<lparr>kf_mAsyncValues = map Some args @ replicate n None, kf_mNumArguments = length args,
      kf_mNumResults = int n\<rparr>, s) = Some (f', s')" "GetResults f' = Some (map Some rs)" "length rs = n" "quiet (as_next s) s s'"
      "\<forall>b. as_ext s b + count_list rs b \<le> as_ext s' b" "GetArguments f' = Some (map Some args)"
    using kernel_run_ok [OF av_reach_inv [OF assms(1)] _ assms(3) room, of tid] assms(2) by blast
  show ?thesis using r quietD(4) [OF r(4)] by (intro exI [of _ f'] exI [of _ s'] exI [of _ rs]) simp
qed

definition frame_demo :: "nat av_sys" where
  "frame_demo = HostContext_Construct (ConcreteAsyncValue_Concrete demo_type 7) av_start"

theorem KernelFrame_kernel_delivers_witness:
  "\<exists>f' s' rs. frame_run 3 [OpForward 1 0, OpEmplace 0 demo_type 5] (\<lparr>kf_mAsyncValues = [Some 0, None, None], kf_mNumArguments = 1,
      kf_mNumResults = 2\<rparr>, frame_demo) = Some (f', s') \<and> GetResults f' = Some (map Some rs) \<and> length rs = 2"
proof -
  have "av_step 3 av_start frame_demo" unfolding frame_demo_def by (rule av_step.make) simp
  then have r: "av_reach 3 frame_demo" by (rule av_reach.step [OF av_reach.start])
  have a: "\<forall>a \<in> set [0]. 0 < as_ext frame_demo a \<and> \<not> IsUnavailable (as_heap frame_demo) a"
    "refs_room (as_heap frame_demo) 2"
    by (simp_all add: frame_demo_def HostContext_Construct_def av_start_def IsUnavailable_def ConcreteAsyncValue_Concrete_def AsyncValue_new_def refs_room_def)
  have k: "kernel_ok (length [0 :: nat]) 2 [OpForward 1 0, OpEmplace 0 demo_type (5 :: nat)]"
    by (simp add: kernel_ok_def numeral_2_eq_2)
  have c: "kernel_cost 2 [OpForward 1 0, OpEmplace 0 demo_type (5 :: nat)] = 2" by (simp add: kernel_cost_def)
  have f: "map Some [0] @ replicate 2 None = [Some 0, None, None :: nat option]" by (simp add: numeral_2_eq_2)
  show ?thesis using KernelFrame_kernel_delivers [OF r a(1) k] unfolding c f using a(2) by fastforce
qed

end
