(* ===== verification/Host_Context.thy ===== *)
theory Host_Context
  imports Kernel_Frame
begin

text \<open>
  The state of HostContext (\<^verbatim>\<open>src/async/context/host_context.h\<close>, \<^verbatim>\<open>host_context.cpp\<close>, \<^verbatim>\<open>host_context_ptr.h\<close>) beside the
  async values it creates: cancellation, the table of all contexts that HostContextPtr indexes, and the
  shared contexts.
\<close>

subsection \<open>Cancellation\<close>

text \<open>\<open>hc_cancelled\<close> records the message of the first CancelExecution since the last Restart.\<close>

record 'a HostContext =
  hc_av :: "'a av_sys"
  hc_mCancelValue :: "av_ptr option"
  hc_cancelled :: "string option"

definition HostContext_start :: "'a HostContext" where
  "HostContext_start = \<lparr>hc_av = av_start, hc_mCancelValue = None, hc_cancelled = None\<rparr>"

text \<open>The error value is made first; it is dropped again when the compare-exchange fails.\<close>

definition CancelExecution :: "u16 \<Rightarrow> string \<Rightarrow> 'a HostContext \<Rightarrow> 'a HostContext option" where
  "CancelExecution tid msg s =
     (let error_value = as_next (hc_av s);
          av = MakeErrorAsyncValueRef tid (DecodedDiagnostic_new msg) (hc_av s) in
      case hc_mCancelValue s of
        None \<Rightarrow> Some (s\<lparr>hc_av := av, hc_mCancelValue := Some error_value, hc_cancelled := Some msg\<rparr>)
      | Some _ \<Rightarrow> map_option (\<lambda>av1. s\<lparr>hc_av := av1\<rparr>) (av_DropRef error_value av))"

definition HostContext_Restart :: "'a HostContext \<Rightarrow> 'a HostContext option" where
  "HostContext_Restart s =
     (case hc_mCancelValue s of
        None \<Rightarrow> Some s
      | Some value \<Rightarrow>
          map_option (\<lambda>av. s\<lparr>hc_av := av, hc_mCancelValue := None, hc_cancelled := None\<rparr>) (av_DropRef value (hc_av s)))"

definition GetCancelAsyncValue :: "'a HostContext \<Rightarrow> av_ptr option" where
  "GetCancelAsyncValue s = hc_mCancelValue s"

text \<open>Between these calls the clients of the async values take their steps; they leave the context's own
  reference alone.\<close>

inductive hc_reach :: "u16 \<Rightarrow> 'a HostContext \<Rightarrow> bool" for tid where
  start: "hc_reach tid HostContext_start"
| cancel: "hc_reach tid s \<Longrightarrow> CancelExecution tid msg s = Some s' \<Longrightarrow> hc_reach tid s'"
| restart: "hc_reach tid s \<Longrightarrow> HostContext_Restart s = Some s' \<Longrightarrow> hc_reach tid s'"
| client: "hc_reach tid s \<Longrightarrow> av_step tid (hc_av s) av \<Longrightarrow> (\<forall>a. hc_mCancelValue s = Some a \<longrightarrow> 0 < as_ext av a) \<Longrightarrow>
    hc_reach tid (s\<lparr>hc_av := av\<rparr>)"

text \<open>The context refers to the value it was cancelled with, an error with the message of the cancellation.\<close>

definition cancel_value :: "u16 \<Rightarrow> string \<Rightarrow> 'a AsyncValue \<Rightarrow> bool" where
  "cancel_value tid msg v \<longleftrightarrow> keeps_value (ConcreteAsyncValue_Error (DummyType tid) (DecodedDiagnostic_new msg)) v"

definition hc_inv :: "u16 \<Rightarrow> 'a HostContext \<Rightarrow> bool" where
  "hc_inv tid s \<longleftrightarrow> av_inv (hc_av s) \<and>
     (case hc_mCancelValue s of
        None \<Rightarrow> hc_cancelled s = None
      | Some a \<Rightarrow> 0 < as_ext (hc_av s) a \<and>
          (\<exists>msg. hc_cancelled s = Some msg \<and> (\<exists>v. as_heap (hc_av s) a = Some v \<and> cancel_value tid msg v)))"

lemma cancel_valueD:
  assumes "h a = Some v" "cancel_value tid msg v"
  shows "IsError h a" "\<not> IsUnavailable h a"
    "\<exists>loc. GetErrorIfPresent h a = Some (Some ((DecodedDiagnostic_new msg)\<lparr>location := loc\<rparr>))"
proof -
  let ?d = "DecodedDiagnostic_new msg"
  have k: "mState v = kError" "mKind v = KConcrete" "keeps_payload (Diag ?d) (mPayload v)"
    using keeps_valueD [OF assms(2) [unfolded cancel_value_def]] by (simp_all add: ConcreteAsyncValue_Error_def AsyncValue_new_def)
  have "Diag ?d = Diag (?d\<lparr>location := location ?d\<rparr>)" by simp
  then have "\<exists>loc. mPayload v = Diag (?d\<lparr>location := loc\<rparr>)" using k(3) unfolding keeps_payload.simps by metis
  then show "IsError h a" "\<not> IsUnavailable h a" "\<exists>loc. GetErrorIfPresent h a = Some (Some (?d\<lparr>location := loc\<rparr>))"
    using assms(1) k by (auto simp: IsError_def IsUnavailable_def AsyncValue_state_def GetErrorIfPresent_def concrete_error_def)
qed


text \<open>Making an error value and dropping it again leaves the store as it was.\<close>

lemma make_drop_error:
  assumes "av_inv s" and s1_def: "s1 = MakeErrorAsyncValueRef tid d s"
  shows "\<exists>s'. av_DropRef (as_next s) s1 = Some s' \<and> av_inv s' \<and> as_heap s' = as_heap s \<and> as_ext s' = (as_ext s)(as_next s := 0)"
proof -
  have I1: "av_inv s1" unfolding s1_def MakeErrorAsyncValueRef_def by (rule inv_make [OF assms(1)]) (auto simp: fresh_value_def)
  have dead: "as_heap s (as_next s) = None" using av_invD(1) [OF assms(1)] unfolding heap_ok_def by (metis less_irrefl not_None_eq)
  have h: "as_heap s1 (as_next s) = Some (ConcreteAsyncValue_Error (DummyType tid) d)" "as_ext s1 (as_next s) = 1"
    by (simp_all add: s1_def HostContext_Construct_def)
  then have "\<not> IsUnavailable (as_heap s1) (as_next s)" by (simp add: IsUnavailable_def ConcreteAsyncValue_Error_def AsyncValue_new_def)
  then obtain s' where s': "av_DropRef (as_next s) s1 = Some s'" "av_inv s'" using av_DropRef_ok [OF I1, of "as_next s"] h(2) by auto
  have "AsyncValue_DropRef (as_heap s1) (as_next s) 1 = Some ((as_heap s1)(as_next s := None))"
    by (subst AsyncValue_DropRef.simps) (simp add: h(1), simp add: ConcreteAsyncValue_Error_def AsyncValue_new_def)
  moreover have "(as_heap s1)(as_next s := None) = as_heap s" using dead by (auto simp: s1_def HostContext_Construct_def)
  ultimately show ?thesis using s' by (auto simp: av_DropRef_def s1_def HostContext_Construct_def)
qed

lemma cancel_ok:
  assumes "hc_inv tid s"
  shows "\<exists>s'. CancelExecution tid msg s = Some s' \<and> hc_inv tid s' \<and>
    (hc_mCancelValue s \<noteq> None \<longrightarrow> hc_mCancelValue s' = hc_mCancelValue s \<and> as_heap (hc_av s') = as_heap (hc_av s))"
proof (cases "hc_mCancelValue s")
  case None
  have "av_inv (MakeErrorAsyncValueRef tid (DecodedDiagnostic_new msg) (hc_av s))"
    unfolding MakeErrorAsyncValueRef_def by (rule inv_make) (use assms in \<open>auto simp: fresh_value_def hc_inv_def\<close>)
  then show ?thesis using None by (simp add: CancelExecution_def Let_def hc_inv_def HostContext_Construct_def cancel_value_def)
next
  case (Some a)
  have I: "av_inv (hc_av s)" "0 < as_ext (hc_av s) a" using assms Some by (auto simp: hc_inv_def)
  obtain av where av: "av_DropRef (as_next (hc_av s)) (MakeErrorAsyncValueRef tid (DecodedDiagnostic_new msg) (hc_av s)) = Some av"
      "av_inv av" "as_heap av = as_heap (hc_av s)" "as_ext av = (as_ext (hc_av s))(as_next (hc_av s) := 0)"
    using make_drop_error [OF I(1) refl] by blast
  have "a < as_next (hc_av s)" using alive [OF I] by metis
  then show ?thesis using assms Some av unfolding CancelExecution_def hc_inv_def by (auto simp: Let_def simp del: MakeErrorAsyncValueRef_def)
qed

lemma restart_ok:
  assumes "hc_inv tid s"
  shows "\<exists>s'. HostContext_Restart s = Some s' \<and> hc_inv tid s' \<and> hc_mCancelValue s' = None"
proof (cases "hc_mCancelValue s")
  case (Some a)
  then obtain msg where a: "av_inv (hc_av s)" "0 < as_ext (hc_av s) a" "\<exists>v. as_heap (hc_av s) a = Some v \<and> cancel_value tid msg v"
    using assms by (auto simp: hc_inv_def)
  then show ?thesis using av_DropRef_ok [OF a(1,2)] cancel_valueD(2) [of "as_heap (hc_av s)" a _ tid msg] Some by (auto simp: HostContext_Restart_def hc_inv_def)
qed (use assms in \<open>simp add: HostContext_Restart_def\<close>)

lemma client_ok_cancel:
  assumes I: "hc_inv tid s" and st: "av_step tid (hc_av s) av" and own: "\<forall>a. hc_mCancelValue s = Some a \<longrightarrow> 0 < as_ext av a"
  shows "hc_inv tid (s\<lparr>hc_av := av\<rparr>)"
proof (cases "hc_mCancelValue s")
  case (Some a)
  then obtain msg v where a: "av_inv (hc_av s)" "0 < as_ext (hc_av s) a" "hc_cancelled s = Some msg"
      and v: "as_heap (hc_av s) a = Some v" "cancel_value tid msg v"
    using I by (auto simp: hc_inv_def)
  have I': "av_inv av" by (rule inv_step [OF st a(1)])
  have lt: "a < as_next (hc_av s)" using alive [OF a(1,2)] by metis
  obtain v' where v': "as_heap av a = Some v'" using alive [OF I'] own Some by metis
  have "State_IsAvailable (mState v) \<longrightarrow> keeps_value v v'" using stable_step [OF a(1) st lt v'] v(1) by auto
  then have "keeps_value v v'" using cancel_valueD(2) [of "as_heap (hc_av s)" a v tid msg] v by (simp add: IsUnavailable_def)
  then have "cancel_value tid msg v'" using v(2) keeps_value_trans by (auto simp: cancel_value_def)
  then show ?thesis using Some own I' a(3) v' by (auto simp: hc_inv_def)
qed (use I inv_step [OF st] in \<open>auto simp: hc_inv_def\<close>)

lemma hc_reach_inv: "hc_reach tid s \<Longrightarrow> hc_inv tid s"
proof (induction rule: hc_reach.induct)
  case start
  show ?case using inv_start by (simp add: HostContext_start_def hc_inv_def)
next
  case (cancel s msg s')
  then show ?case using cancel_ok [OF cancel.IH, of msg] by auto
next
  case (restart s s')
  then show ?case using restart_ok [OF restart.IH] by auto
next
  case (client s av)
  then show ?case using client_ok_cancel by blast
qed

text \<open>
  C40. In every interleaving of CancelExecution and Restart with the clients of the
  async values, both calls return; GetCancelAsyncValue is null exactly when there was no cancellation since
  the last Restart, and otherwise a live error value that carries the message of the first one (and a location
  only if a client has set one with SetErrorLocationIfUnset). A later
  CancelExecution changes neither it nor the store: the error value it made is destroyed again.
\<close>

theorem HostContext_first_cancel_wins:
  assumes "hc_reach tid s"
  shows "(\<forall>msg. \<exists>s'. CancelExecution tid msg s = Some s' \<and>
      (GetCancelAsyncValue s \<noteq> None \<longrightarrow> GetCancelAsyncValue s' = GetCancelAsyncValue s \<and> as_heap (hc_av s') = as_heap (hc_av s))) \<and>
    (\<exists>s'. HostContext_Restart s = Some s' \<and> GetCancelAsyncValue s' = None) \<and>
    (case GetCancelAsyncValue s of
       None \<Rightarrow> hc_cancelled s = None
     | Some a \<Rightarrow> \<exists>msg. hc_cancelled s = Some msg \<and> IsError (as_heap (hc_av s)) a \<and>
         (\<exists>loc. GetErrorIfPresent (as_heap (hc_av s)) a = Some (Some ((DecodedDiagnostic_new msg)\<lparr>location := loc\<rparr>))))"
proof (intro conjI allI)
  note I = hc_reach_inv [OF assms]
  show "\<exists>s'. CancelExecution tid msg s = Some s' \<and>
      (GetCancelAsyncValue s \<noteq> None \<longrightarrow> GetCancelAsyncValue s' = GetCancelAsyncValue s \<and> as_heap (hc_av s') = as_heap (hc_av s))" for msg
    using cancel_ok [OF I, of msg] by (auto simp: GetCancelAsyncValue_def)
  show "\<exists>s'. HostContext_Restart s = Some s' \<and> GetCancelAsyncValue s' = None"
    using restart_ok [OF I] by (auto simp: GetCancelAsyncValue_def)
  show "case GetCancelAsyncValue s of
       None \<Rightarrow> hc_cancelled s = None
     | Some a \<Rightarrow> \<exists>msg. hc_cancelled s = Some msg \<and> IsError (as_heap (hc_av s)) a \<and>
         (\<exists>loc. GetErrorIfPresent (as_heap (hc_av s)) a = Some (Some ((DecodedDiagnostic_new msg)\<lparr>location := loc\<rparr>)))"
  proof (cases "hc_mCancelValue s")
    case (Some a)
    then obtain msg v where "hc_cancelled s = Some msg" "as_heap (hc_av s) a = Some v" "cancel_value tid msg v"
      using I by (auto simp: hc_inv_def)
    then show ?thesis using cancel_valueD [of "as_heap (hc_av s)" a v tid msg] Some by (simp add: GetCancelAsyncValue_def)
  qed (use I in \<open>simp add: GetCancelAsyncValue_def hc_inv_def\<close>)
qed


theorem HostContext_first_cancel_wins_witness:
  "\<exists>s s' :: nat HostContext. CancelExecution 3 ''stop'' HostContext_start = Some s \<and> CancelExecution 3 ''late'' s = Some s' \<and>
     GetCancelAsyncValue s' = Some 0 \<and> (\<exists>loc. GetErrorIfPresent (as_heap (hc_av s)) 0 = Some (Some ((DecodedDiagnostic_new ''stop'')\<lparr>location := loc\<rparr>)))"
proof -
  obtain s :: "nat HostContext" where s: "CancelExecution 3 ''stop'' HostContext_start = Some s" "GetCancelAsyncValue s = Some 0" "hc_cancelled s = Some ''stop''"
    by (simp add: CancelExecution_def HostContext_start_def GetCancelAsyncValue_def av_start_def)
  note P = HostContext_first_cancel_wins [OF hc_reach.cancel [OF hc_reach.start s(1)]]
  obtain s' where "CancelExecution 3 ''late'' s = Some s'" "GetCancelAsyncValue s' = Some 0" using P [THEN conjunct1, THEN spec, of "''late''"] s(2) by auto
  moreover have "\<exists>loc. GetErrorIfPresent (as_heap (hc_av s)) 0 = Some (Some ((DecodedDiagnostic_new ''stop'')\<lparr>location := loc\<rparr>))" using P s(2,3) by simp
  ultimately show ?thesis using s(1) by blast
qed

subsection \<open>The table of contexts\<close>

text \<open>\<open>all_host_contexts_\<close> has 255 entries; the index of a HostContextPtr is one byte. An index is never used
  again.\<close>

definition kDummyIndex :: nat where "kDummyIndex = 255"

record host_table =
  ht_all_host_contexts :: "nat option list"
  ht_next_host_context_index :: nat

definition host_table_start :: host_table where
  "host_table_start = \<lparr>ht_all_host_contexts = replicate kDummyIndex None, ht_next_host_context_index = 0\<rparr>"

definition HostContextPtr_bool :: "nat \<Rightarrow> bool" where
  "HostContextPtr_bool index = (index = kDummyIndex)"

text \<open>The constructor of context \<open>h\<close>, with the assert of HostContextPtr(int), and the destructor.\<close>

definition HostContext_new :: "nat \<Rightarrow> host_table \<Rightarrow> (nat \<times> host_table) option" where
  "HostContext_new h t =
     (let index = ht_next_host_context_index t in
      if index < kDummyIndex
      then Some (index, t\<lparr>ht_all_host_contexts := (ht_all_host_contexts t)[index := Some h], ht_next_host_context_index := index + 1\<rparr>)
      else None)"

definition HostContext_delete :: "nat \<Rightarrow> host_table \<Rightarrow> host_table" where
  "HostContext_delete index t = t\<lparr>ht_all_host_contexts := (ht_all_host_contexts t)[index := None]\<rparr>"

definition GetHostContextByIndex :: "nat \<Rightarrow> host_table \<Rightarrow> nat option" where
  "GetHostContextByIndex index t = (if index < kDummyIndex then ht_all_host_contexts t ! index else None)"

inductive ht_reach :: "host_table \<Rightarrow> (nat \<times> nat) list \<Rightarrow> nat \<Rightarrow> bool" where
  start: "ht_reach host_table_start [] 0"
| new: "ht_reach t live n \<Longrightarrow> HostContext_new h t = Some (i, t') \<Longrightarrow> ht_reach t' ((i, h) # live) (n + 1)"
| delete: "ht_reach t live n \<Longrightarrow> (i, h) \<in> set live \<Longrightarrow> ht_reach (HostContext_delete i t) (filter (\<lambda>x. fst x \<noteq> i) live) n"

text \<open>Every live context is found under its index, whose operator bool is false; after 255 constructions no
  further context can be made, however many were destroyed.\<close>

lemma host_table_exact:
  "ht_reach t live n \<Longrightarrow> ht_next_host_context_index t = n \<and> n \<le> kDummyIndex \<and> length (ht_all_host_contexts t) = kDummyIndex \<and>
     (\<forall>i h. (i, h) \<in> set live \<longrightarrow> i < n \<and> GetHostContextByIndex i t = Some h \<and> \<not> HostContextPtr_bool i) \<and>
     (HostContext_new h0 t = None \<longleftrightarrow> n = kDummyIndex)"
proof (induction rule: ht_reach.induct)
  case start
  show ?case by (simp add: host_table_start_def HostContext_new_def kDummyIndex_def)
next
  case (new t live n h i t')
  then have "i = n" "n < kDummyIndex" "t' = t\<lparr>ht_all_host_contexts := (ht_all_host_contexts t)[n := Some h], ht_next_host_context_index := n + 1\<rparr>"
    by (auto simp: HostContext_new_def Let_def split: if_splits)
  then show ?case using new.IH
    by (auto simp: HostContext_new_def Let_def GetHostContextByIndex_def HostContextPtr_bool_def nth_list_update less_SucI split: if_splits)
next
  case (delete t live n i h)
  then show ?case
    by (auto simp: HostContext_delete_def HostContext_new_def Let_def GetHostContextByIndex_def HostContextPtr_bool_def nth_list_update split: if_splits)
qed

subsection \<open>Shared contexts\<close>

text \<open>256 slots, each with a once_flag; \<open>factory\<close> makes the instance. The answer counts the calls of the factory.\<close>

definition SharedContextManager_new :: "'c option list" where
  "SharedContextManager_new = replicate 256 None"

definition GetOrCreateSharedContext :: "nat \<Rightarrow> 'c \<Rightarrow> 'c option list \<Rightarrow> ('c \<times> nat \<times> 'c option list) option" where
  "GetOrCreateSharedContext shared_context_id made instances =
     (if shared_context_id < length instances
      then (case instances ! shared_context_id of
              Some c \<Rightarrow> Some (c, 0, instances)
            | None \<Rightarrow> Some (made, 1, instances[shared_context_id := Some made]))
      else None)"

lemma shared_context_once:
  assumes "GetOrCreateSharedContext i a cs = Some (c, n, cs')"
  shows "GetOrCreateSharedContext i b cs' = Some (c, 0, cs')"
    "j \<noteq> i \<Longrightarrow> cs' ! j = cs ! j" "length cs' = length cs"
  using assms by (auto simp: GetOrCreateSharedContext_def split: if_splits option.splits)

end
