(* ===== verification/Async_Graph.thy ===== *)
theory Async_Graph
  imports Prelude "HOL-Library.Char_ord" "HOL-Library.List_Lexorder"
begin

text \<open>
  The construction side of the dataflow graphs of \<^verbatim>\<open>src/async/runtime/graph.h\<close> and \<^verbatim>\<open>graph.cpp\<close>: AsyncNode,
  AsyncGraph with emplace, BuildGraph, SubGraph, Reset, Dump and Load, the kernel registry of
  \<^verbatim>\<open>register.h\<close> and \<^verbatim>\<open>register.cpp\<close>, the per-kernel data of \<^verbatim>\<open>async_kernel.h\<close>, and StrSplit of
  \<^verbatim>\<open>src/async/support/string_util.cpp\<close> for a delimiter without regular-expression characters.

  A node pointer is the position of the node in mAsyncNodes, which only grows until Reset. The
  kernels (std::function objects) are opaque values of type \<open>'f\<close>; \<open>None\<close> is the empty std::function. The
  iteration order of an unordered_map is not specified: it is the parameter \<open>iter\<close>, a function that
  lists the keys of a map. The contents of a file are a string. \<open>None\<close> as a result is a failed assert
  or a null pointer that is dereferenced.
\<close>

subsection \<open>Data\<close>

record 'f AsyncNode =
  an_mFunc :: "'f option"
  an_mFuncName :: string
  an_mInputNames :: "string list"
  an_mOutputNames :: "string list"

record AsyncValueInfo =
  avi_mUserCount :: nat
  avi_mValue :: "nat option"

record FunctionInfo =
  fi_mAsyncValueInfos :: "AsyncValueInfo list"
  fi_mKernelInfos :: "int list"

record 'f AsyncGraph =
  ag_mNameAndAsyncIdPair :: "string \<rightharpoonup> nat"
  ag_mUsedByKernlTable :: "nat \<rightharpoonup> nat list list"
  ag_mFunctionInfo :: FunctionInfo
  ag_mAsyncNodes :: "'f AsyncNode list"
  ag_mOutputNames :: "string list"
  ag_mIsConstructed :: bool

definition AsyncValueInfo_new :: AsyncValueInfo where
  "AsyncValueInfo_new = \<lparr>avi_mUserCount = 0, avi_mValue = None\<rparr>"

definition CreateAsyncGraph :: "'f AsyncGraph" where
  "CreateAsyncGraph = \<lparr>ag_mNameAndAsyncIdPair = Map.empty, ag_mUsedByKernlTable = Map.empty,
     ag_mFunctionInfo = \<lparr>fi_mAsyncValueInfos = [], fi_mKernelInfos = []\<rparr>, ag_mAsyncNodes = [],
     ag_mOutputNames = [], ag_mIsConstructed = False\<rparr>"

definition AsyncGraph_emplace :: "string list \<Rightarrow> string list \<Rightarrow> 'f option \<Rightarrow> string \<Rightarrow> 'f AsyncGraph \<Rightarrow> 'f AsyncGraph" where
  "AsyncGraph_emplace inputNames outputNames fn name g =
     g\<lparr>ag_mAsyncNodes := ag_mAsyncNodes g @
        [\<lparr>an_mFunc = fn, an_mFuncName = name, an_mInputNames = inputNames, an_mOutputNames = outputNames\<rparr>]\<rparr>"

definition AsyncGraph_Reset :: "'f AsyncGraph \<Rightarrow> 'f AsyncGraph" where
  "AsyncGraph_Reset g = g\<lparr>ag_mNameAndAsyncIdPair := Map.empty, ag_mUsedByKernlTable := Map.empty,
     ag_mFunctionInfo := \<lparr>fi_mAsyncValueInfos = [], fi_mKernelInfos = []\<rparr>, ag_mAsyncNodes := [],
     ag_mOutputNames := [], ag_mIsConstructed := False\<rparr>"

definition AsyncGraph_GetNumOutputs :: "'f AsyncGraph \<Rightarrow> nat" where
  "AsyncGraph_GetNumOutputs g = length (ag_mOutputNames g)"

subsection \<open>BuildGraph\<close>

record bg_maps =
  bg_argCountMap :: "string \<rightharpoonup> int"
  bg_resCountMap :: "string \<rightharpoonup> int"
  bg_indexAsyncValueMap :: "string \<rightharpoonup> nat"
  bg_usedCountmap :: "string \<rightharpoonup> nat list"
  bg_indexAsyncNodeMap :: "string \<rightharpoonup> nat"
  bg_indexAsyncNodeIdMap :: "string \<rightharpoonup> nat"
  bg_startId :: nat

definition bg_init :: bg_maps where
  "bg_init = \<lparr>bg_argCountMap = Map.empty, bg_resCountMap = Map.empty, bg_indexAsyncValueMap = Map.empty,
     bg_usedCountmap = Map.empty, bg_indexAsyncNodeMap = Map.empty, bg_indexAsyncNodeIdMap = Map.empty, bg_startId = 0\<rparr>"

text \<open>The count and index maps of ProcessNameAndRefCount, with the running id.\<close>

definition ProcessNameAndRefCount ::
  "string \<Rightarrow> nat \<Rightarrow> (string \<rightharpoonup> int) \<Rightarrow> (string \<rightharpoonup> nat) \<Rightarrow> nat \<times> (string \<rightharpoonup> int) \<times> (string \<rightharpoonup> nat)" where
  "ProcessNameAndRefCount name startId countMap indexMap =
     (let countMap1 = (case countMap name of Some c \<Rightarrow> countMap(name \<mapsto> c + 1) | None \<Rightarrow> countMap(name \<mapsto> 1))
      in case indexMap name of
           None \<Rightarrow> (startId + 1, countMap1, indexMap(name \<mapsto> startId))
         | Some _ \<Rightarrow> (startId, countMap1, indexMap))"

text \<open>std::set<unsigned> as a sorted list, and a map of sets whose missing entries are empty.\<close>

definition used_of :: "(string \<rightharpoonup> nat list) \<Rightarrow> string \<Rightarrow> nat list" where
  "used_of m name = (case m name of None \<Rightarrow> [] | Some c \<Rightarrow> c)"

definition count_of :: "(string \<rightharpoonup> int) \<Rightarrow> string \<Rightarrow> int" where
  "count_of m name = (case m name of None \<Rightarrow> 0 | Some c \<Rightarrow> c)"

definition bg_input :: "nat \<Rightarrow> string \<Rightarrow> bg_maps \<Rightarrow> bg_maps" where
  "bg_input nodeId name m =
     (case ProcessNameAndRefCount name (bg_startId m) (bg_argCountMap m) (bg_indexAsyncValueMap m) of
        (startId, countMap, indexMap) \<Rightarrow>
          m\<lparr>bg_startId := startId, bg_argCountMap := countMap, bg_indexAsyncValueMap := indexMap,
            bg_usedCountmap := (bg_usedCountmap m)(name \<mapsto> insort_insert nodeId (used_of (bg_usedCountmap m) name))\<rparr>)"

definition bg_output :: "nat \<Rightarrow> string \<Rightarrow> bg_maps \<Rightarrow> bg_maps" where
  "bg_output nodeId name m =
     (case ProcessNameAndRefCount name (bg_startId m) (bg_resCountMap m) (bg_indexAsyncValueMap m) of
        (startId, countMap, indexMap) \<Rightarrow>
          m\<lparr>bg_startId := startId, bg_resCountMap := countMap, bg_indexAsyncValueMap := indexMap,
            bg_indexAsyncNodeMap := (bg_indexAsyncNodeMap m)(name \<mapsto> nodeId),
            bg_indexAsyncNodeIdMap := (bg_indexAsyncNodeIdMap m)(name \<mapsto> nodeId)\<rparr>)"

definition bg_node :: "nat \<times> 'f AsyncNode \<Rightarrow> bg_maps \<Rightarrow> bg_maps" where
  "bg_node p m = fold (bg_output (fst p)) (an_mOutputNames (snd p)) (fold (bg_input (fst p)) (an_mInputNames (snd p)) m)"

definition bg_scan :: "'f AsyncNode list \<Rightarrow> bg_maps" where
  "bg_scan nodes = fold bg_node (enumerate 0 nodes) bg_init"

text \<open>std::vector::resize with the default value of the element type.\<close>

definition resize_list :: "'a \<Rightarrow> nat \<Rightarrow> 'a list \<Rightarrow> 'a list" where
  "resize_list d n xs = take n xs @ replicate (n - length xs) d"

text \<open>The second loop for one node: its result table and the ready counts it stores.\<close>

definition bg_table :: "bg_maps \<Rightarrow> 'f AsyncNode \<Rightarrow> nat list list" where
  "bg_table m node = map (used_of (bg_usedCountmap m)) (an_mOutputNames node)"

definition bg_ready :: "'f AsyncNode list \<Rightarrow> bg_maps \<Rightarrow> string \<Rightarrow> int list \<Rightarrow> int list" where
  "bg_ready nodes m name ks =
     ks[the (bg_indexAsyncNodeIdMap m name) := int (length (an_mInputNames (nodes ! the (bg_indexAsyncNodeMap m name))))]"

definition bg_kernels :: "'f AsyncNode list \<Rightarrow> bg_maps \<Rightarrow> int list \<Rightarrow> int list" where
  "bg_kernels nodes m ks = fold (bg_ready nodes m) (concat (map an_mOutputNames nodes)) ks"

definition bg_user :: "bg_maps \<Rightarrow> string \<Rightarrow> AsyncValueInfo list \<Rightarrow> AsyncValueInfo list" where
  "bg_user m name infos =
     (let i = the (bg_indexAsyncValueMap m name) in
      infos[i := (infos ! i)\<lparr>avi_mUserCount := nat (count_of (bg_argCountMap m) name + count_of (bg_resCountMap m) name - 1)\<rparr>])"

definition AsyncGraph_BuildGraph :: "((string \<rightharpoonup> nat) \<Rightarrow> string list) \<Rightarrow> 'f AsyncGraph \<Rightarrow> 'f AsyncGraph" where
  "AsyncGraph_BuildGraph iter g =
     (let nodes = ag_mAsyncNodes g; fi = ag_mFunctionInfo g; m = bg_scan nodes;
          kernels = bg_kernels nodes m (resize_list 0 (length nodes) (fi_mKernelInfos fi));
          table = fold (\<lambda>(i, node) t. t(i \<mapsto> bg_table m node)) (enumerate 0 nodes) (ag_mUsedByKernlTable g);
          names = iter (bg_indexAsyncValueMap m);
          infos = fold (bg_user m) names (resize_list AsyncValueInfo_new (bg_startId m) (fi_mAsyncValueInfos fi))
      in g\<lparr>ag_mUsedByKernlTable := table,
           ag_mFunctionInfo := \<lparr>fi_mAsyncValueInfos = infos, fi_mKernelInfos = kernels\<rparr>,
           ag_mNameAndAsyncIdPair := bg_indexAsyncValueMap m,
           ag_mOutputNames := ag_mOutputNames g @
             filter (\<lambda>name. avi_mUserCount (infos ! the (bg_indexAsyncValueMap m name)) = 0) names,
           ag_mIsConstructed := True\<rparr>)"

subsection \<open>SubGraph\<close>

definition sg_names :: "'f AsyncNode list \<Rightarrow> string \<rightharpoonup> nat" where
  "sg_names nodes = fold (\<lambda>(i, node) m. fold (\<lambda>name m. m(name \<mapsto> i)) (an_mOutputNames node) m) (enumerate 0 nodes) Map.empty"

text \<open>The breadth-first loop: the queue of names, the nodes travelled so far, the graph under construction.\<close>

partial_function (option) sg_loop ::
  "'f AsyncNode list \<Rightarrow> (string \<rightharpoonup> nat) \<Rightarrow> string list \<Rightarrow> nat list \<Rightarrow> 'f AsyncGraph \<Rightarrow> 'f AsyncGraph option" where
  "sg_loop nodes names queue travelled g =
     (case queue of
        [] \<Rightarrow> Some g
      | name # rest \<Rightarrow>
          (case names name of
             None \<Rightarrow> None
           | Some i \<Rightarrow>
               if i \<in> set travelled then sg_loop nodes names rest travelled g
               else let node = nodes ! i in
                 sg_loop nodes names (rest @ an_mInputNames node) (i # travelled)
                   (AsyncGraph_emplace (an_mInputNames node) (an_mOutputNames node) (an_mFunc node) (an_mFuncName node) g)))"

definition AsyncGraph_SubGraph :: "'f AsyncGraph \<Rightarrow> string list \<Rightarrow> 'f AsyncGraph option" where
  "AsyncGraph_SubGraph g outputNames =
     sg_loop (ag_mAsyncNodes g) (sg_names (ag_mAsyncNodes g)) outputNames [] CreateAsyncGraph"

subsection \<open>The kernel registry\<close>

definition InsertKernelFn :: "string \<Rightarrow> 'f \<Rightarrow> (string \<rightharpoonup> 'f) \<Rightarrow> (string \<rightharpoonup> 'f) option" where
  "InsertKernelFn name fn libs = (if libs name \<noteq> None then None else Some (libs(name \<mapsto> fn)))"

definition RemoveKernelFn :: "string \<Rightarrow> (string \<rightharpoonup> 'f) \<Rightarrow> (string \<rightharpoonup> 'f)" where
  "RemoveKernelFn name libs = (if libs name \<noteq> None then libs(name := None) else libs)"

definition GetKernelFn :: "(string \<rightharpoonup> 'f) \<Rightarrow> string \<Rightarrow> 'f option" where
  "GetKernelFn libs name = libs name"

definition MustGetKernelFn :: "(string \<rightharpoonup> 'f) \<Rightarrow> string \<Rightarrow> 'f option" where
  "MustGetKernelFn libs name = (case libs name of None \<Rightarrow> None | Some f \<Rightarrow> Some f)"

subsection \<open>Dump and Load\<close>

definition newline :: char where "newline = CHR 0x0A"

definition Dump_node :: "'f AsyncNode \<Rightarrow> string" where
  "Dump_node node =
     concat (map (\<lambda>n. ''input: '' @ n @ [newline]) (an_mInputNames node)) @
     concat (map (\<lambda>n. ''output: '' @ n @ [newline]) (an_mOutputNames node)) @
     ''kernel name: '' @ an_mFuncName node @ [newline] @ [newline]"

definition AsyncGraph_Dump :: "'f AsyncGraph \<Rightarrow> string" where
  "AsyncGraph_Dump g = concat (map Dump_node (ag_mAsyncNodes g))"

text \<open>
  StrSplit: the tokens between the matches of the delimiter; the text after the last match is a token
  unless it is empty and there was a match. \<open>acc\<close> is the current token, reversed.
\<close>

function StrSplit_go :: "string \<Rightarrow> bool \<Rightarrow> string \<Rightarrow> string \<Rightarrow> string list" where
  "StrSplit_go delimer found acc [] = (if found \<and> acc = [] then [] else [rev acc])"
| "StrSplit_go delimer found acc (c # s) =
     (if delimer \<noteq> [] \<and> take (length delimer) (c # s) = delimer
      then rev acc # StrSplit_go delimer True [] (drop (length delimer) (c # s))
      else StrSplit_go delimer found (c # acc) s)"
  by pat_completeness auto
termination
  by (relation "measure (\<lambda>(d, f, a, s). length s)") auto

definition StrSplit :: "string \<Rightarrow> string \<Rightarrow> string list" where
  "StrSplit s delimer = StrSplit_go delimer False [] s"

text \<open>std::getline: the next line and the rest, or nothing at the end of the file.\<close>

definition getline :: "string \<Rightarrow> (string \<times> string) option" where
  "getline s = (if s = [] then None else Some (takeWhile (\<lambda>c. c \<noteq> newline) s, drop 1 (dropWhile (\<lambda>c. c \<noteq> newline) s)))"

record 'f load_state =
  ld_inputNames :: "string list"
  ld_outputNames :: "string list"
  ld_kernelFn :: "'f option"
  ld_kernelName :: string

definition Load_line :: "(string \<rightharpoonup> 'f) \<Rightarrow> string \<Rightarrow> 'f load_state \<times> 'f AsyncGraph \<Rightarrow> ('f load_state \<times> 'f AsyncGraph) option" where
  "Load_line libs line sg =
     (case sg of (st, g) \<Rightarrow>
      if line \<noteq> [] then
        let res = StrSplit line '': '' in
        if length res \<noteq> 2 then None
        else if res ! 0 = ''input'' then Some (st\<lparr>ld_inputNames := ld_inputNames st @ [res ! 1]\<rparr>, g)
        else if res ! 0 = ''output'' then Some (st\<lparr>ld_outputNames := ld_outputNames st @ [res ! 1]\<rparr>, g)
        else if res ! 0 = ''kernel name'' then
          (case GetKernelFn libs (res ! 1) of
             None \<Rightarrow> None
           | Some fn \<Rightarrow> Some (st\<lparr>ld_kernelName := res ! 1, ld_kernelFn := Some fn\<rparr>, g))
        else Some (st, g)
      else
        Some (st\<lparr>ld_inputNames := [], ld_outputNames := [], ld_kernelName := []\<rparr>,
              AsyncGraph_emplace (ld_inputNames st) (ld_outputNames st) (ld_kernelFn st) (ld_kernelName st) g))"

lemma getline_shorter: "getline s = Some (line, rest) \<Longrightarrow> length rest < length s"
proof -
  assume "getline s = Some (line, rest)"
  moreover have "length (dropWhile (\<lambda>c. c \<noteq> newline) s) \<le> length s" by (rule length_dropWhile_le)
  ultimately show ?thesis by (cases s) (auto simp: getline_def)
qed

function Load_lines :: "(string \<rightharpoonup> 'f) \<Rightarrow> string \<Rightarrow> 'f load_state \<times> 'f AsyncGraph \<Rightarrow> ('f load_state \<times> 'f AsyncGraph) option" where
  "Load_lines libs s sg =
     (case getline s of
        None \<Rightarrow> Some sg
      | Some (line, rest) \<Rightarrow>
          (case Load_line libs line sg of None \<Rightarrow> None | Some sg1 \<Rightarrow> Load_lines libs rest sg1))"
  by pat_completeness auto
termination
  by (relation "measure (\<lambda>(l, s, g). length s)") (auto simp: getline_shorter)

definition AsyncGraph_Load :: "(string \<rightharpoonup> 'f) \<Rightarrow> string \<Rightarrow> 'f AsyncGraph \<Rightarrow> 'f AsyncGraph option" where
  "AsyncGraph_Load libs file g =
     map_option snd (Load_lines libs file
       (\<lparr>ld_inputNames = [], ld_outputNames = [], ld_kernelFn = None, ld_kernelName = []\<rparr>, g))"

subsection \<open>Protocol buffers\<close>

text \<open>
  The messages of \<^verbatim>\<open>src/async/runtime/proto/node.proto\<close> and \<^verbatim>\<open>graph.proto\<close> (whose field version the code does not
  use). The protobuf runtime is a parameter: its two printers and its two parsers. What proto3 promises of
  them is that they round trip on messages whose string fields are valid UTF-8.
\<close>

record AsyncNodeDef =
  nd_input_names :: "string list"
  nd_output_names :: "string list"
  nd_func_name :: string

type_synonym AsyncGraphDef = "AsyncNodeDef list"

datatype GraphPbKind = kTxtMode | kBinaryMode

record protobuf =
  pb_SerializeAsString :: "AsyncGraphDef \<Rightarrow> string"
  pb_ParseFromString :: "string \<Rightarrow> AsyncGraphDef"
  pb_PrintToString :: "AsyncGraphDef \<Rightarrow> string"
  pb_TextParse :: "string \<Rightarrow> AsyncGraphDef"

fun utf8_bytes :: "nat list \<Rightarrow> bool" where
  "utf8_bytes [] = True"
| "utf8_bytes (b # r) =
     (let cont = (\<lambda>c. 128 \<le> c \<and> c \<le> (191 :: nat)) in
      if b < 128 then utf8_bytes r
      else case r of
        [] \<Rightarrow> False
      | c # r1 \<Rightarrow>
          if 194 \<le> b \<and> b \<le> 223 then cont c \<and> utf8_bytes r1
          else (case r1 of
             [] \<Rightarrow> False
           | d # r2 \<Rightarrow>
               if 224 \<le> b \<and> b \<le> 239
               then cont c \<and> cont d \<and> (b = 224 \<longrightarrow> 160 \<le> c) \<and> (b = 237 \<longrightarrow> c \<le> 159) \<and> utf8_bytes r2
               else (case r2 of
                  [] \<Rightarrow> False
                | e # r3 \<Rightarrow>
                    240 \<le> b \<and> b \<le> 244 \<and> cont c \<and> cont d \<and> cont e \<and> (b = 240 \<longrightarrow> 144 \<le> c) \<and> (b = 244 \<longrightarrow> c \<le> 143) \<and> utf8_bytes r3)))"

definition utf8 :: "string \<Rightarrow> bool" where
  "utf8 s = utf8_bytes (map of_char s)"

definition pb_codec_ok :: "protobuf \<Rightarrow> bool" where
  "pb_codec_ok pb \<longleftrightarrow> (\<forall>d. (\<forall>n \<in> set d. utf8 (nd_func_name n) \<and> (\<forall>x \<in> set (nd_input_names n) \<union> set (nd_output_names n). utf8 x)) \<longrightarrow>
     pb_TextParse pb (pb_PrintToString pb d) = d \<and> pb_ParseFromString pb (pb_SerializeAsString pb d) = d)"

definition AsyncGraph_DumpToProtobuf :: "protobuf \<Rightarrow> 'f AsyncGraph \<Rightarrow> GraphPbKind \<Rightarrow> string" where
  "AsyncGraph_DumpToProtobuf pb g mode =
     (let graph_def = map (\<lambda>node. \<lparr>nd_input_names = an_mInputNames node, nd_output_names = an_mOutputNames node,
                             nd_func_name = an_mFuncName node\<rparr>) (ag_mAsyncNodes g)
      in case mode of kBinaryMode \<Rightarrow> pb_SerializeAsString pb graph_def | kTxtMode \<Rightarrow> pb_PrintToString pb graph_def)"

fun Load_nodes :: "(string \<rightharpoonup> 'f) \<Rightarrow> AsyncGraphDef \<Rightarrow> 'f AsyncGraph \<Rightarrow> 'f AsyncGraph option" where
  "Load_nodes libs [] g = Some g"
| "Load_nodes libs (node # rest) g =
     (case GetKernelFn libs (nd_func_name node) of
        None \<Rightarrow> None
      | Some fn \<Rightarrow> Load_nodes libs rest
          (AsyncGraph_emplace (nd_input_names node) (nd_output_names node) (Some fn) (nd_func_name node) g))"

definition AsyncGraph_LoadFromProtobuf :: "protobuf \<Rightarrow> (string \<rightharpoonup> 'f) \<Rightarrow> string \<Rightarrow> GraphPbKind \<Rightarrow> 'f AsyncGraph \<Rightarrow> 'f AsyncGraph option" where
  "AsyncGraph_LoadFromProtobuf pb libs file mode g =
     Load_nodes libs (case mode of kTxtMode \<Rightarrow> pb_TextParse pb file | kBinaryMode \<Rightarrow> pb_ParseFromString pb file) g"

declare Load_lines.simps [simp del]

subsection \<open>Load reads what Dump writes\<close>

text \<open>
  A name that survives the text format: it is not empty and contains neither a newline nor the
  delimiter.
\<close>

definition text_name :: "string \<Rightarrow> bool" where
  "text_name s \<longleftrightarrow> s \<noteq> [] \<and> newline \<notin> set s \<and> (\<forall>i. take 2 (drop i s) \<noteq> '': '')"

lemma StrSplit_go_clean:
  "(\<forall>i. take 2 (drop i s) \<noteq> '': '') \<Longrightarrow>
     StrSplit_go '': '' found acc s = (if found \<and> acc = [] \<and> s = [] then [] else [rev acc @ s])"
proof (induction s arbitrary: acc)
  case (Cons c s)
  have "take 2 (drop i s) \<noteq> '': ''" for i using Cons.prems [rule_format, of "Suc i"] by simp
  moreover have "take 2 (c # s) \<noteq> '': ''" using Cons.prems [rule_format, of 0] by simp
  ultimately show ?case using Cons.IH [of "c # acc"] by (simp add: numeral_2_eq_2)
qed simp

lemma StrSplit_key:
  assumes "text_name s"
  shows "StrSplit (''input: '' @ s) '': '' = [''input'', s]" "StrSplit (''output: '' @ s) '': '' = [''output'', s]"
    "StrSplit (''kernel name: '' @ s) '': '' = [''kernel name'', s]"
proof -
  have rest: "StrSplit_go '': '' True [] s = [s]" using assms StrSplit_go_clean [of s True "[]"] by (simp add: text_name_def)
  show "StrSplit (''input: '' @ s) '': '' = [''input'', s]" "StrSplit (''output: '' @ s) '': '' = [''output'', s]"
    "StrSplit (''kernel name: '' @ s) '': '' = [''kernel name'', s]"
    unfolding StrSplit_def by (simp_all add: rest)
qed

lemma getline_line: "newline \<notin> set xs \<Longrightarrow> getline (xs @ newline # rest) = Some (xs, rest)"
proof -
  assume "newline \<notin> set xs"
  then have "takeWhile (\<lambda>c. c \<noteq> newline) (xs @ newline # rest) = xs" "dropWhile (\<lambda>c. c \<noteq> newline) (xs @ newline # rest) = newline # rest"
    by (induction xs) auto
  then show ?thesis by (simp add: getline_def)
qed

lemma Load_lines_one:
  "newline \<notin> set xs \<Longrightarrow> Load_lines libs (xs @ newline # rest) sg =
     (case Load_line libs xs sg of None \<Rightarrow> None | Some sg1 \<Rightarrow> Load_lines libs rest sg1)"
  by (subst Load_lines.simps) (simp add: getline_line)

lemma text_name_line:
  "text_name n \<Longrightarrow> newline \<notin> set (''input: '' @ n)" "text_name n \<Longrightarrow> newline \<notin> set (''output: '' @ n)"
  "text_name n \<Longrightarrow> newline \<notin> set (''kernel name: '' @ n)"
  by (simp_all add: text_name_def newline_def)

lemma Load_line_key:
  assumes "text_name n"
  shows "Load_line libs (''input: '' @ n) (st, g) = Some (st\<lparr>ld_inputNames := ld_inputNames st @ [n]\<rparr>, g)"
    "Load_line libs (''output: '' @ n) (st, g) = Some (st\<lparr>ld_outputNames := ld_outputNames st @ [n]\<rparr>, g)"
    "libs n = Some fn \<Longrightarrow> Load_line libs (''kernel name: '' @ n) (st, g) = Some (st\<lparr>ld_kernelName := n, ld_kernelFn := Some fn\<rparr>, g)"
  unfolding Load_line_def Let_def StrSplit_key [OF assms] by (simp_all add: GetKernelFn_def)

lemma Load_lines_inputs:
  "\<forall>n\<in>set ns. text_name n \<Longrightarrow>
     Load_lines libs (concat (map (\<lambda>n. ''input: '' @ n @ [newline]) ns) @ rest) (st, g) =
     Load_lines libs rest (st\<lparr>ld_inputNames := ld_inputNames st @ ns\<rparr>, g)"
proof (induction ns arbitrary: st)
  case (Cons n ns)
  then have "text_name n" by simp
  from Load_lines_one [OF text_name_line(1) [OF this], of libs _ "(st, g)"] show ?case
    using Cons by (simp add: Load_line_key(1) del: append_Cons append_Nil) (simp add: Load_line_key(1) [OF \<open>text_name n\<close>, simplified])
qed simp

lemma Load_lines_outputs:
  "\<forall>n\<in>set ns. text_name n \<Longrightarrow>
     Load_lines libs (concat (map (\<lambda>n. ''output: '' @ n @ [newline]) ns) @ rest) (st, g) =
     Load_lines libs rest (st\<lparr>ld_outputNames := ld_outputNames st @ ns\<rparr>, g)"
proof (induction ns arbitrary: st)
  case (Cons n ns)
  then have "text_name n" by simp
  from Load_lines_one [OF text_name_line(2) [OF this], of libs _ "(st, g)"] show ?case
    using Cons by (simp add: Load_line_key(2) del: append_Cons append_Nil) (simp add: Load_line_key(2) [OF \<open>text_name n\<close>, simplified])
qed simp

text \<open>What a node has to satisfy to be restored: its names, and its kernel in the registry.\<close>

definition loadable :: "(string \<rightharpoonup> 'f) \<Rightarrow> 'f AsyncNode \<Rightarrow> bool" where
  "loadable libs node \<longleftrightarrow> (\<forall>n\<in>set (an_mInputNames node) \<union> set (an_mOutputNames node). text_name n) \<and>
     text_name (an_mFuncName node) \<and> an_mFunc node = libs (an_mFuncName node) \<and> an_mFunc node \<noteq> None"

lemma Load_lines_node:
  assumes "loadable libs node" "ld_inputNames st = []" "ld_outputNames st = []"
  shows "\<exists>st1. ld_inputNames st1 = [] \<and> ld_outputNames st1 = [] \<and>
    Load_lines libs (Dump_node node @ rest) (st, g) =
    Load_lines libs rest (st1, g\<lparr>ag_mAsyncNodes := ag_mAsyncNodes g @ [node]\<rparr>)"
proof -
  let ?k = "an_mFuncName node"
  obtain fn where fn: "libs ?k = Some fn" "an_mFunc node = Some fn" "text_name ?k"
    using assms(1) unfolding loadable_def by (metis not_None_eq)
  let ?st = "st\<lparr>ld_inputNames := an_mInputNames node, ld_outputNames := an_mOutputNames node\<rparr>"
  let ?st2 = "?st\<lparr>ld_kernelName := ?k, ld_kernelFn := Some fn\<rparr>"
  let ?st3 = "?st2\<lparr>ld_inputNames := [], ld_outputNames := [], ld_kernelName := []\<rparr>"
  have "Load_lines libs (Dump_node node @ rest) (st, g) =
      Load_lines libs ((''kernel name: '' @ ?k) @ newline # (newline # rest)) (?st, g)"
  proof -
    have ok: "\<forall>n\<in>set (an_mInputNames node). text_name n" "\<forall>n\<in>set (an_mOutputNames node). text_name n"
      using assms(1) by (auto simp: loadable_def)
    show ?thesis
      unfolding Dump_node_def append_assoc Load_lines_inputs [OF ok(1)] Load_lines_outputs [OF ok(2)] by (simp add: assms(2,3))
  qed
  also have "\<dots> = Load_lines libs ([] @ newline # rest) (?st2, g)"
    unfolding Load_lines_one [OF text_name_line(3) [OF fn(3)]] Load_line_key(3) [where libs = libs and n = ?k and fn = fn, OF fn(3,1)] by simp
  also have "\<dots> = Load_lines libs rest (?st3, AsyncGraph_emplace (an_mInputNames node) (an_mOutputNames node) (Some fn) ?k g)"
    by (subst Load_lines_one) (simp_all add: Load_line_def)
  also have "AsyncGraph_emplace (an_mInputNames node) (an_mOutputNames node) (Some fn) ?k g = g\<lparr>ag_mAsyncNodes := ag_mAsyncNodes g @ [node]\<rparr>"
    using fn(2) by (simp add: AsyncGraph_emplace_def)
  finally show ?thesis by (intro exI [of _ ?st3]) simp
qed

lemma Load_lines_nodes:
  assumes "\<forall>node\<in>set nodes. loadable libs node" "ld_inputNames st = []" "ld_outputNames st = []"
  shows "\<exists>st1. ld_inputNames st1 = [] \<and> ld_outputNames st1 = [] \<and> Load_lines libs (concat (map Dump_node nodes) @ rest) (st, g) =
    Load_lines libs rest (st1, g\<lparr>ag_mAsyncNodes := ag_mAsyncNodes g @ nodes\<rparr>)"
  using assms
proof (induction nodes arbitrary: st g)
  case (Cons node nodes)
  obtain st1 where "ld_inputNames st1 = []" "ld_outputNames st1 = []"
      "Load_lines libs (Dump_node node @ concat (map Dump_node nodes) @ rest) (st, g) =
       Load_lines libs (concat (map Dump_node nodes) @ rest) (st1, g\<lparr>ag_mAsyncNodes := ag_mAsyncNodes g @ [node]\<rparr>)"
    using Load_lines_node [of libs node st "concat (map Dump_node nodes) @ rest" g] Cons.prems by auto
  with Cons.IH [of st1 "g\<lparr>ag_mAsyncNodes := ag_mAsyncNodes g @ [node]\<rparr>"] Cons.prems(1) show ?case by simp
qed auto

text \<open>A node without a kernel name, which is the default of emplace, is written as a line with nothing after the
  delimiter. StrSplit finds one token in it, and the assert of Load fails.\<close>

lemma Load_line_unnamed: "Load_line libs ''kernel name: '' sg = None"
  by (cases sg) (simp add: Load_line_def StrSplit_def)

lemma Load_lines_unnamed:
  assumes "\<forall>n\<in>set (an_mInputNames node) \<union> set (an_mOutputNames node). text_name n" "an_mFuncName node = []"
  shows "Load_lines libs (Dump_node node @ rest) (st, g) = None"
proof -
  have ok: "\<forall>n\<in>set (an_mInputNames node). text_name n" "\<forall>n\<in>set (an_mOutputNames node). text_name n" using assms(1) by auto
  have "newline \<notin> set ''kernel name: ''" by (simp add: newline_def)
  note one = Load_lines_one [OF this, of libs]
  have "Load_lines libs (''kernel name: '' @ newline # newline # rest) sg = None" for sg
    unfolding one Load_line_unnamed by simp
  then show ?thesis
    unfolding Dump_node_def append_assoc Load_lines_inputs [OF ok(1)] Load_lines_outputs [OF ok(2)] assms(2) by simp
qed

lemma Load_nodes_restores:
  assumes "\<forall>node\<in>set nodes. an_mFunc node = libs (an_mFuncName node) \<and> an_mFunc node \<noteq> None"
  shows "Load_nodes libs (map (\<lambda>node. \<lparr>nd_input_names = an_mInputNames node, nd_output_names = an_mOutputNames node,
      nd_func_name = an_mFuncName node\<rparr>) nodes) g = Some (g\<lparr>ag_mAsyncNodes := ag_mAsyncNodes g @ nodes\<rparr>)"
  using assms
proof (induction nodes arbitrary: g)
  case (Cons node nodes)
  then obtain fn where fn: "libs (an_mFuncName node) = Some fn" "an_mFunc node = Some fn" by (metis list.set_intros(1) not_None_eq)
  then have "AsyncGraph_emplace (an_mInputNames node) (an_mOutputNames node) (Some fn) (an_mFuncName node) g =
      g\<lparr>ag_mAsyncNodes := ag_mAsyncNodes g @ [node]\<rparr>" by (simp add: AsyncGraph_emplace_def)
  moreover have "\<forall>node\<in>set nodes. an_mFunc node = libs (an_mFuncName node) \<and> an_mFunc node \<noteq> None" using Cons.prems by (meson list.set_intros(2))
  note Cons.IH [OF this, of "g\<lparr>ag_mAsyncNodes := ag_mAsyncNodes g @ [node]\<rparr>"]
  ultimately show ?case using fn by (simp add: GetKernelFn_def)
qed simp

subsection \<open>What BuildGraph computes\<close>

text \<open>The names of a list of nodes and how often a name occurs as input and as output.\<close>

definition graph_names :: "'f AsyncNode list \<Rightarrow> string set" where
  "graph_names nodes = (\<Union>node\<in>set nodes. set (an_mInputNames node) \<union> set (an_mOutputNames node))"

definition num_uses :: "'f AsyncNode list \<Rightarrow> string \<Rightarrow> nat" where
  "num_uses nodes name = (\<Sum>node\<leftarrow>nodes. count_list (an_mInputNames node) name)"

definition num_defs :: "'f AsyncNode list \<Rightarrow> string \<Rightarrow> nat" where
  "num_defs nodes name = (\<Sum>node\<leftarrow>nodes. count_list (an_mOutputNames node) name)"

definition users_of :: "'f AsyncNode list \<Rightarrow> string \<Rightarrow> nat set" where
  "users_of nodes name = {i. i < length nodes \<and> name \<in> set (an_mInputNames (nodes ! i))}"

definition producers :: "'f AsyncNode list \<Rightarrow> string \<Rightarrow> nat set" where
  "producers nodes name = {i. i < length nodes \<and> name \<in> set (an_mOutputNames (nodes ! i))}"

text \<open>The index map numbers the names met so far in the order they were met.\<close>

definition index_ok :: "string set \<Rightarrow> bg_maps \<Rightarrow> bool" where
  "index_ok N m \<longleftrightarrow> dom (bg_indexAsyncValueMap m) = N \<and> inj_on (bg_indexAsyncValueMap m) N \<and>
     ran (bg_indexAsyncValueMap m) = {0..<bg_startId m}"

lemma ProcessName_index:
  assumes "ProcessNameAndRefCount name k cm im = (k', cm', im')" "dom im = N" "inj_on im N" "ran im = {0..<k}"
  shows "dom im' = insert name N" "inj_on im' (insert name N)" "ran im' = {0..<k'}"
    "count_of cm' = (count_of cm)(name := count_of cm name + 1)"
proof -
  have im: "(im', k') = (case im name of None \<Rightarrow> (im(name \<mapsto> k), k + 1) | Some _ \<Rightarrow> (im, k))"
    using assms(1) by (auto simp: ProcessNameAndRefCount_def Let_def split: option.splits)
  have "cm' = cm(name \<mapsto> count_of cm name + 1)"
    using assms(1) by (auto simp: ProcessNameAndRefCount_def Let_def count_of_def split: option.splits)
  then show "count_of cm' = (count_of cm)(name := count_of cm name + 1)"
    by (simp add: fun_eq_iff) (simp add: count_of_def)
  show "dom im' = insert name N" "inj_on im' (insert name N)" "ran im' = {0..<k'}"
  proof (goal_cases)
    case 1
    then show ?case using im assms(2) by (auto split: option.splits)
  next
    case 2
    show ?case
    proof (cases "im name")
      case None
      then have fresh: "name \<notin> N" using assms(2) by auto
      have "im x \<noteq> Some k" "Some k \<noteq> im x" for x using assms(4) by (metis atLeastLessThan_iff less_irrefl ranI)+
      then have "inj_on (im(name \<mapsto> k)) (insert name N)"
        using assms(3) fresh by (auto simp: inj_on_def)
      then show ?thesis using im None by simp
    next
      case (Some i)
      then have "insert name N = N" using assms(2) by auto
      then show ?thesis using im Some assms(3) by simp
    qed
  next
    case 3
    then show ?case using im assms(4) by (cases "im name") auto
  qed
qed

lemma bg_input_ok:
  assumes "index_ok N m"
  shows "index_ok (insert name N) (bg_input i name m)"
    "count_of (bg_argCountMap (bg_input i name m)) = (count_of (bg_argCountMap m))(name := count_of (bg_argCountMap m) name + 1)"
    "bg_resCountMap (bg_input i name m) = bg_resCountMap m"
    "used_of (bg_usedCountmap (bg_input i name m)) = (used_of (bg_usedCountmap m))(name := insort_insert i (used_of (bg_usedCountmap m) name))"
    "bg_indexAsyncNodeMap (bg_input i name m) = bg_indexAsyncNodeMap m"
    "bg_indexAsyncNodeIdMap (bg_input i name m) = bg_indexAsyncNodeIdMap m"
proof -
  obtain k' cm' im' where p: "ProcessNameAndRefCount name (bg_startId m) (bg_argCountMap m) (bg_indexAsyncValueMap m) = (k', cm', im')"
    by (cases "ProcessNameAndRefCount name (bg_startId m) (bg_argCountMap m) (bg_indexAsyncValueMap m)")
  note q = ProcessName_index [OF p, of N]
  show "index_ok (insert name N) (bg_input i name m)"
    "count_of (bg_argCountMap (bg_input i name m)) = (count_of (bg_argCountMap m))(name := count_of (bg_argCountMap m) name + 1)"
    using q assms by (simp_all add: bg_input_def p index_ok_def)
qed (auto simp: bg_input_def used_of_def fun_eq_iff split: prod.splits)

lemma bg_output_ok:
  assumes "index_ok N m"
  shows "index_ok (insert name N) (bg_output i name m)"
    "count_of (bg_resCountMap (bg_output i name m)) = (count_of (bg_resCountMap m))(name := count_of (bg_resCountMap m) name + 1)"
    "bg_argCountMap (bg_output i name m) = bg_argCountMap m"
    "bg_usedCountmap (bg_output i name m) = bg_usedCountmap m"
    "bg_indexAsyncNodeMap (bg_output i name m) = (bg_indexAsyncNodeMap m)(name \<mapsto> i)"
    "bg_indexAsyncNodeIdMap (bg_output i name m) = (bg_indexAsyncNodeIdMap m)(name \<mapsto> i)"
proof -
  obtain k' cm' im' where p: "ProcessNameAndRefCount name (bg_startId m) (bg_resCountMap m) (bg_indexAsyncValueMap m) = (k', cm', im')"
    by (cases "ProcessNameAndRefCount name (bg_startId m) (bg_resCountMap m) (bg_indexAsyncValueMap m)")
  note q = ProcessName_index [OF p, of N]
  show "index_ok (insert name N) (bg_output i name m)"
    "count_of (bg_resCountMap (bg_output i name m)) = (count_of (bg_resCountMap m))(name := count_of (bg_resCountMap m) name + 1)"
    using q assms by (simp_all add: bg_output_def p index_ok_def)
qed (auto simp: bg_output_def split: prod.splits)

text \<open>The inner loops over the names of one node.\<close>

lemma bg_inputs_fold:
  assumes "index_ok N m"
  shows "index_ok (N \<union> set ns) (fold (bg_input i) ns m)"
    "count_of (bg_argCountMap (fold (bg_input i) ns m)) x = count_of (bg_argCountMap m) x + int (count_list ns x)"
    "bg_resCountMap (fold (bg_input i) ns m) = bg_resCountMap m"
    "set (used_of (bg_usedCountmap (fold (bg_input i) ns m)) x) = set (used_of (bg_usedCountmap m) x) \<union> (if x \<in> set ns then {i} else {})"
    "sorted (used_of (bg_usedCountmap m) x) \<and> distinct (used_of (bg_usedCountmap m) x) \<Longrightarrow>
       sorted (used_of (bg_usedCountmap (fold (bg_input i) ns m)) x) \<and> distinct (used_of (bg_usedCountmap (fold (bg_input i) ns m)) x)"
    "bg_indexAsyncNodeMap (fold (bg_input i) ns m) = bg_indexAsyncNodeMap m"
    "bg_indexAsyncNodeIdMap (fold (bg_input i) ns m) = bg_indexAsyncNodeIdMap m"
  using assms
proof (induction ns arbitrary: m N)
  case (Cons n ns)
  {
    case 1
    then show ?case using Cons.IH(1) [OF bg_input_ok(1)] by simp
  next
    case 2
    then show ?case using Cons.IH(2) [OF bg_input_ok(1)] bg_input_ok(2) by simp
  next
    case 3
    then show ?case using Cons.IH(3) [OF bg_input_ok(1)] bg_input_ok(3) by simp
  next
    case 4
    then show ?case using Cons.IH(4) [OF bg_input_ok(1)] bg_input_ok(4) by (simp add: set_insort_insert)
  next
    case 5
    then show ?case
      using Cons.IH(5) [of "bg_input i n m" "insert n N", OF _ bg_input_ok(1) [OF 5(2)]] bg_input_ok(4) [OF 5(2), of i n]
      by (cases "x = n") (simp_all add: sorted_insort_insert distinct_insort_insert)
  next
    case 6
    then show ?case using Cons.IH(6) [OF bg_input_ok(1)] bg_input_ok(5) by simp
  next
    case 7
    then show ?case using Cons.IH(7) [OF bg_input_ok(1)] bg_input_ok(6) by simp
  }
qed simp_all

lemma bg_outputs_fold:
  assumes "index_ok N m"
  shows "index_ok (N \<union> set ns) (fold (bg_output i) ns m)"
    "count_of (bg_resCountMap (fold (bg_output i) ns m)) x = count_of (bg_resCountMap m) x + int (count_list ns x)"
    "bg_argCountMap (fold (bg_output i) ns m) = bg_argCountMap m"
    "bg_usedCountmap (fold (bg_output i) ns m) = bg_usedCountmap m"
    "bg_indexAsyncNodeMap (fold (bg_output i) ns m) x = (if x \<in> set ns then Some i else bg_indexAsyncNodeMap m x)"
    "bg_indexAsyncNodeIdMap (fold (bg_output i) ns m) x = (if x \<in> set ns then Some i else bg_indexAsyncNodeIdMap m x)"
  using assms
proof (induction ns arbitrary: m N)
  case (Cons n ns)
  {
    case 1
    then show ?case using Cons.IH(1) [OF bg_output_ok(1)] by simp
  next
    case 2
    then show ?case using Cons.IH(2) [OF bg_output_ok(1)] bg_output_ok(2) by simp
  next
    case 3
    then show ?case using Cons.IH(3) [OF bg_output_ok(1)] bg_output_ok(3) by simp
  next
    case 4
    then show ?case using Cons.IH(4) [OF bg_output_ok(1)] bg_output_ok(4) by simp
  next
    case 5
    then show ?case using Cons.IH(5) [OF bg_output_ok(1)] bg_output_ok(5) by simp
  next
    case 6
    then show ?case using Cons.IH(6) [OF bg_output_ok(1)] bg_output_ok(6) by simp
  }
qed simp_all

text \<open>The result of the first loop over all nodes.\<close>

definition scan_ok :: "'f AsyncNode list \<Rightarrow> bg_maps \<Rightarrow> bool" where
  "scan_ok nodes m \<longleftrightarrow> index_ok (graph_names nodes) m \<and>
     (\<forall>x. count_of (bg_argCountMap m) x = int (num_uses nodes x) \<and> count_of (bg_resCountMap m) x = int (num_defs nodes x) \<and>
        set (used_of (bg_usedCountmap m) x) = users_of nodes x \<and>
        sorted (used_of (bg_usedCountmap m) x) \<and> distinct (used_of (bg_usedCountmap m) x) \<and>
        bg_indexAsyncNodeIdMap m x = bg_indexAsyncNodeMap m x \<and>
        bg_indexAsyncNodeMap m x = (if producers nodes x = {} then None else Some (Max (producers nodes x))))"

lemma producers_snoc:
  "producers (nodes @ [node]) x = producers nodes x \<union> (if x \<in> set (an_mOutputNames node) then {length nodes} else {})"
  "users_of (nodes @ [node]) x = users_of nodes x \<union> (if x \<in> set (an_mInputNames node) then {length nodes} else {})"
  by (auto simp: producers_def users_of_def nth_append less_Suc_eq)

lemma producers_finite [simp]: "finite (producers nodes x)"
  by (simp add: producers_def)

lemma Max_producers_snoc:
  "x \<in> set (an_mOutputNames node) \<Longrightarrow> Max (producers (nodes @ [node]) x) = length nodes"
  by (rule Max_eqI) (auto simp: producers_snoc, auto simp: producers_def)

lemma bg_scan_ok: "scan_ok nodes (bg_scan nodes)"
proof (induction nodes rule: rev_induct)
  case Nil
  show ?case
    by (simp add: scan_ok_def bg_scan_def bg_init_def index_ok_def graph_names_def count_of_def used_of_def users_of_def
        producers_def num_uses_def num_defs_def)
next
  case (snoc node nodes)
  let ?m = "bg_scan nodes" and ?i = "length nodes"
  let ?m1 = "fold (bg_input ?i) (an_mInputNames node) ?m"
  have scan: "bg_scan (nodes @ [node]) = fold (bg_output ?i) (an_mOutputNames node) ?m1"
    by (simp add: bg_scan_def enumerate_append_eq bg_node_def)
  have idx: "index_ok (graph_names nodes) ?m" using snoc by (simp add: scan_ok_def)
  note I = bg_inputs_fold [OF idx, where i = ?i and ns = "an_mInputNames node"]
  note O = bg_outputs_fold [OF I(1), where i = ?i and ns = "an_mOutputNames node"]
  have S: "count_of (bg_argCountMap ?m) x = int (num_uses nodes x)" "count_of (bg_resCountMap ?m) x = int (num_defs nodes x)"
      "set (used_of (bg_usedCountmap ?m) x) = users_of nodes x"
      "sorted (used_of (bg_usedCountmap ?m) x) \<and> distinct (used_of (bg_usedCountmap ?m) x)"
      "bg_indexAsyncNodeIdMap ?m x = bg_indexAsyncNodeMap ?m x"
      "bg_indexAsyncNodeMap ?m x = (if producers nodes x = {} then None else Some (Max (producers nodes x)))" for x
    using snoc by (simp_all add: scan_ok_def)
  show ?case unfolding scan_ok_def scan
  proof (intro conjI allI)
    show "index_ok (graph_names (nodes @ [node])) (fold (bg_output ?i) (an_mOutputNames node) ?m1)"
      using O(1) by (simp add: graph_names_def Un_assoc Un_commute Un_left_commute)
    fix x
    show "count_of (bg_argCountMap (fold (bg_output ?i) (an_mOutputNames node) ?m1)) x = int (num_uses (nodes @ [node]) x)"
      using O(3) I(2) S(1) by (simp add: num_uses_def)
    show "count_of (bg_resCountMap (fold (bg_output ?i) (an_mOutputNames node) ?m1)) x = int (num_defs (nodes @ [node]) x)"
      using O(2) I(3) S(2) by (simp add: num_defs_def)
    show "set (used_of (bg_usedCountmap (fold (bg_output ?i) (an_mOutputNames node) ?m1)) x) = users_of (nodes @ [node]) x"
      unfolding O(4) I(4) S(3) by (simp add: producers_snoc)
    show "sorted (used_of (bg_usedCountmap (fold (bg_output ?i) (an_mOutputNames node) ?m1)) x)"
      "distinct (used_of (bg_usedCountmap (fold (bg_output ?i) (an_mOutputNames node) ?m1)) x)"
      unfolding O(4) using I(5) [OF S(4)] by simp_all
    show "bg_indexAsyncNodeIdMap (fold (bg_output ?i) (an_mOutputNames node) ?m1) x =
        bg_indexAsyncNodeMap (fold (bg_output ?i) (an_mOutputNames node) ?m1) x"
      unfolding O(5,6) I(6,7) S(5) ..
    show "bg_indexAsyncNodeMap (fold (bg_output ?i) (an_mOutputNames node) ?m1) x =
        (if producers (nodes @ [node]) x = {} then None else Some (Max (producers (nodes @ [node]) x)))"
      unfolding O(5) I(6) S(6)
      by (cases "x \<in> set (an_mOutputNames node)") (simp_all add: Max_producers_snoc, simp_all add: producers_snoc)
  qed
qed

text \<open>The two loops that fill the vectors.\<close>

lemma bg_kernels_length: "length (fold (bg_ready nodes m) xs ks) = length ks"
  by (induction xs arbitrary: ks) (simp_all add: bg_ready_def)

lemma bg_kernels_fold:
  assumes "\<And>x. x \<in> set xs \<Longrightarrow> the (bg_indexAsyncNodeIdMap m x) < length ks"
    "\<And>x. x \<in> set xs \<Longrightarrow> bg_indexAsyncNodeMap m x = bg_indexAsyncNodeIdMap m x" "k < length ks"
  shows "fold (bg_ready nodes m) xs ks ! k =
       (if \<exists>x\<in>set xs. the (bg_indexAsyncNodeIdMap m x) = k then int (length (an_mInputNames (nodes ! k))) else ks ! k)"
  using assms
proof (induction xs arbitrary: ks)
  case (Cons x xs)
  let ?ks = "bg_ready nodes m x ks"
  have "?ks ! k = (if the (bg_indexAsyncNodeIdMap m x) = k then int (length (an_mInputNames (nodes ! k))) else ks ! k)"
    using Cons.prems by (simp add: bg_ready_def nth_list_update)
  moreover have "length ?ks = length ks" by (simp add: bg_ready_def)
  ultimately show ?case using Cons.IH [of ?ks] Cons.prems by simp
qed simp

lemma bg_user_fold:
  assumes "distinct xs" "inj_on (bg_indexAsyncValueMap m) (set xs)" "set xs \<subseteq> dom (bg_indexAsyncValueMap m)"
    "\<forall>x\<in>set xs. the (bg_indexAsyncValueMap m x) < length infos"
  shows "length (fold (bg_user m) xs infos) = length infos \<and>
    (\<forall>x\<in>set xs. fold (bg_user m) xs infos ! the (bg_indexAsyncValueMap m x) =
       (infos ! the (bg_indexAsyncValueMap m x))\<lparr>avi_mUserCount := nat (count_of (bg_argCountMap m) x + count_of (bg_resCountMap m) x - 1)\<rparr>) \<and>
    (\<forall>i. (\<forall>x\<in>set xs. the (bg_indexAsyncValueMap m x) \<noteq> i) \<longrightarrow> fold (bg_user m) xs infos ! i = infos ! i)"
  using assms
proof (induction xs arbitrary: infos)
  case (Cons x xs)
  let ?id = "\<lambda>x. the (bg_indexAsyncValueMap m x)" and ?infos = "bg_user m x infos"
  have IH: "length (fold (bg_user m) xs ?infos) = length ?infos \<and>
    (\<forall>y\<in>set xs. fold (bg_user m) xs ?infos ! ?id y =
       (?infos ! ?id y)\<lparr>avi_mUserCount := nat (count_of (bg_argCountMap m) y + count_of (bg_resCountMap m) y - 1)\<rparr>) \<and>
    (\<forall>i. (\<forall>y\<in>set xs. ?id y \<noteq> i) \<longrightarrow> fold (bg_user m) xs ?infos ! i = ?infos ! i)"
    using Cons.prems by (intro Cons.IH) (auto simp: bg_user_def Let_def)
  have len: "length ?infos = length infos" by (simp add: bg_user_def Let_def)
  have other: "?id y \<noteq> ?id x" if "y \<in> set xs" for y
  proof
    assume "?id y = ?id x"
    then have "bg_indexAsyncValueMap m y = bg_indexAsyncValueMap m x"
      using that Cons.prems(3) by (metis domD list.set_intros(1,2) option.sel subsetD)
    then show False using that Cons.prems(1,2) by (auto simp: inj_on_def)
  qed
  have at: "?infos ! i = (if i = ?id x then (infos ! i)\<lparr>avi_mUserCount := nat (count_of (bg_argCountMap m) x + count_of (bg_resCountMap m) x - 1)\<rparr> else infos ! i)" for i
    using Cons.prems(4) by (auto simp: bg_user_def Let_def nth_list_update)
  show ?case
  proof (intro conjI ballI allI impI)
    show "length (fold (bg_user m) (x # xs) infos) = length infos" using IH len by simp
  next
    fix y assume "y \<in> set (x # xs)"
    then consider "y = x" | "y \<in> set xs" by auto
    then show "fold (bg_user m) (x # xs) infos ! ?id y =
        (infos ! ?id y)\<lparr>avi_mUserCount := nat (count_of (bg_argCountMap m) y + count_of (bg_resCountMap m) y - 1)\<rparr>"
    proof cases
      case 1
      then show ?thesis using IH other at by simp
    next
      case 2
      then show ?thesis using IH other [OF 2] at by simp
    qed
  next
    fix i assume "\<forall>y\<in>set (x # xs). ?id y \<noteq> i"
    then show "fold (bg_user m) (x # xs) infos ! i = infos ! i" using IH at by auto
  qed
qed simp

lemma bg_tables:
  "fold (\<lambda>(i, node) t. t(i \<mapsto> f node)) (enumerate 0 nodes) t0 i =
     (if i < length nodes then Some (f (nodes ! i)) else t0 i)"
  by (induction nodes rule: rev_induct) (auto simp: enumerate_append_eq nth_append less_Suc_eq)

lemma index_ok_card:
  assumes "index_ok N m"
  shows "finite N" "card N = bg_startId m" "x \<in> N \<Longrightarrow> the (bg_indexAsyncValueMap m x) < bg_startId m"
proof -
  let ?f = "bg_indexAsyncValueMap m"
  have "ran ?f = (\<lambda>x. the (?f x)) ` dom ?f"
  proof (intro set_eqI iffI)
    fix b assume "b \<in> ran ?f"
    then obtain a where "?f a = Some b" by (auto simp: ran_def)
    then show "b \<in> (\<lambda>x. the (?f x)) ` dom ?f" by (intro image_eqI [of _ _ a]) auto
  qed (auto intro: ranI)
  then have "ran ?f = (\<lambda>x. the (?f x)) ` N" using assms by (simp add: index_ok_def)
  moreover have inj: "inj_on (\<lambda>x. the (?f x)) N"
    using assms unfolding index_ok_def inj_on_def by (metis domD option.sel)
  ultimately have im: "(\<lambda>x. the (?f x)) ` N = {0..<bg_startId m}" using assms by (simp add: index_ok_def)
  then show "finite N" using inj by (metis finite_atLeastLessThan finite_imageD)
  show "card N = bg_startId m" using card_image [OF inj] im by simp
  show "x \<in> N \<Longrightarrow> the (?f x) < bg_startId m" using im by (metis atLeastLessThan_iff imageI)
qed

lemma graph_names_occurs: "x \<in> graph_names nodes \<longleftrightarrow> 0 < num_uses nodes x + num_defs nodes x"
proof -
  have "num_uses nodes x = 0 \<longleftrightarrow> (\<forall>node\<in>set nodes. x \<notin> set (an_mInputNames node))"
    "num_defs nodes x = 0 \<longleftrightarrow> (\<forall>node\<in>set nodes. x \<notin> set (an_mOutputNames node))"
    by (simp_all add: num_uses_def num_defs_def count_list_0_iff)
  then show ?thesis by (auto simp: graph_names_def simp del: neq0_conv simp flip: neq0_conv)
qed

text \<open>The producer of a name, when no name is produced twice.\<close>

lemma unique_producer:
  assumes "num_defs nodes x \<le> 1" "i < length nodes" "x \<in> set (an_mOutputNames (nodes ! i))"
  shows "producers nodes x = {i}"
proof -
  have "k = i" if k: "k < length nodes" "x \<in> set (an_mOutputNames (nodes ! k))" for k
  proof (rule ccontr)
    assume ne: "k \<noteq> i"
    let ?c = "\<lambda>j. count_list (an_mOutputNames (nodes ! j)) x"
    have "sum ?c {i, k} \<le> sum ?c {0..<length nodes}" using assms(2) k(1) by (intro sum_mono2) auto
    moreover have "sum ?c {0..<length nodes} = num_defs nodes x"
      unfolding num_defs_def sum_list_sum_nth by (intro sum.cong) simp_all
    moreover have "sum ?c {i, k} = ?c i + ?c k" using ne by simp
    ultimately have "?c i + ?c k \<le> 1" using assms(1) by linarith
    moreover have "count_list (an_mOutputNames (nodes ! i)) x \<noteq> 0" "count_list (an_mOutputNames (nodes ! k)) x \<noteq> 0"
      using assms(3) k(2) by (simp_all add: count_list_0_iff)
    ultimately show False by linarith
  qed
  then show ?thesis using assms(2,3) unfolding producers_def by blast
qed

lemma bg_kernels_spec:
  assumes "\<And>x. num_defs nodes x \<le> 1" "i < length nodes"
  shows "bg_kernels nodes (bg_scan nodes) (replicate (length nodes) 0) ! i =
    (if an_mOutputNames (nodes ! i) = [] then 0 else int (length (an_mInputNames (nodes ! i))))"
proof -
  let ?m = "bg_scan nodes" and ?xs = "concat (map an_mOutputNames nodes)"
  have S: "bg_indexAsyncNodeIdMap ?m x = bg_indexAsyncNodeMap ?m x"
      "bg_indexAsyncNodeMap ?m x = (if producers nodes x = {} then None else Some (Max (producers nodes x)))" for x
    using bg_scan_ok [of nodes] by (simp_all add: scan_ok_def)
  have at: "bg_indexAsyncNodeIdMap ?m x = Some k" if "k < length nodes" "x \<in> set (an_mOutputNames (nodes ! k))" for x k
    using S unique_producer [OF assms(1) that] by simp
  have prod: "\<exists>k<length nodes. x \<in> set (an_mOutputNames (nodes ! k))" if "x \<in> set ?xs" for x
  proof -
    from that have "\<exists>node\<in>set nodes. x \<in> set (an_mOutputNames node)" by simp
    then show ?thesis by (metis in_set_conv_nth)
  qed
  have "(\<exists>x\<in>set ?xs. the (bg_indexAsyncNodeIdMap ?m x) = i) \<longleftrightarrow> an_mOutputNames (nodes ! i) \<noteq> []"
  proof
    assume "an_mOutputNames (nodes ! i) \<noteq> []"
    then obtain x where x: "x \<in> set (an_mOutputNames (nodes ! i))" by (meson list.set_sel(1))
    then have "x \<in> set ?xs" using assms(2) by auto
    moreover have "the (bg_indexAsyncNodeIdMap ?m x) = i" using at [OF assms(2) x] by simp
    ultimately show "\<exists>x\<in>set ?xs. the (bg_indexAsyncNodeIdMap ?m x) = i" by blast
  next
    assume "\<exists>x\<in>set ?xs. the (bg_indexAsyncNodeIdMap ?m x) = i"
    then show "an_mOutputNames (nodes ! i) \<noteq> []" using prod at by fastforce
  qed
  moreover have "bg_kernels nodes ?m (replicate (length nodes) 0) ! i =
      (if \<exists>x\<in>set ?xs. the (bg_indexAsyncNodeIdMap ?m x) = i then int (length (an_mInputNames (nodes ! i)))
       else replicate (length nodes) 0 ! i)"
    unfolding bg_kernels_def
  proof (rule bg_kernels_fold)
    show "the (bg_indexAsyncNodeIdMap ?m x) < length (replicate (length nodes) 0)" if "x \<in> set ?xs" for x
      using prod [OF that] at by fastforce
    show "bg_indexAsyncNodeMap ?m x = bg_indexAsyncNodeIdMap ?m x" for x by (simp only: S(1))
  qed (simp add: assms(2))
  ultimately show ?thesis using assms(2) by simp
qed

lemma bg_infos_spec:
  fixes nodes :: "'f AsyncNode list" and xs :: "string list"
  defines "infos \<equiv> fold (bg_user (bg_scan nodes)) xs (replicate (bg_startId (bg_scan nodes)) AsyncValueInfo_new)"
  assumes "distinct xs" "set xs = graph_names nodes"
  shows "length infos = card (graph_names nodes)"
    "x \<in> graph_names nodes \<Longrightarrow> infos ! the (bg_indexAsyncValueMap (bg_scan nodes) x) =
       \<lparr>avi_mUserCount = num_uses nodes x + num_defs nodes x - 1, avi_mValue = None\<rparr>"
proof -
  let ?m = "bg_scan nodes"
  have S: "index_ok (graph_names nodes) ?m" "count_of (bg_argCountMap ?m) y = int (num_uses nodes y)"
      "count_of (bg_resCountMap ?m) y = int (num_defs nodes y)" for y
    using bg_scan_ok [of nodes] by (simp_all add: scan_ok_def)
  note C = index_ok_card [OF S(1)]
  note u = bg_user_fold [of xs ?m "replicate (bg_startId ?m) AsyncValueInfo_new"]
  have ids: "dom (bg_indexAsyncValueMap ?m) = graph_names nodes" "inj_on (bg_indexAsyncValueMap ?m) (graph_names nodes)"
    using S(1) by (simp_all add: index_ok_def)
  show "length infos = card (graph_names nodes)" using u assms ids C(2,3) by simp
  assume x: "x \<in> graph_names nodes"
  have "nat (int (num_uses nodes x) + int (num_defs nodes x) - 1) = num_uses nodes x + num_defs nodes x - 1" by linarith
  then show "infos ! the (bg_indexAsyncValueMap ?m x) = \<lparr>avi_mUserCount = num_uses nodes x + num_defs nodes x - 1, avi_mValue = None\<rparr>"
    using u x assms ids C(3) S(2,3) by (simp add: AsyncValueInfo_new_def)
qed

lemma bg_table_spec:
  "bg_table (bg_scan nodes) node = map (\<lambda>x. sorted_list_of_set (users_of nodes x)) (an_mOutputNames node)"
proof -
  have "used_of (bg_usedCountmap (bg_scan nodes)) x = sorted_list_of_set (users_of nodes x)" for x
    using bg_scan_ok [of nodes] unfolding scan_ok_def by (metis sorted_list_of_set.idem_if_sorted_distinct)
  then show ?thesis by (simp add: bg_table_def)
qed

subsection \<open>SubGraph collects what the outputs depend on\<close>

text \<open>The nodes that the names \<open>ns\<close> depend on, given the producer map.\<close>

inductive_set needed :: "'f AsyncNode list \<Rightarrow> (string \<rightharpoonup> nat) \<Rightarrow> string set \<Rightarrow> nat set" for nodes names ns where
  needed_root: "n \<in> ns \<Longrightarrow> names n = Some i \<Longrightarrow> i \<in> needed nodes names ns"
| needed_input: "i \<in> needed nodes names ns \<Longrightarrow> n \<in> set (an_mInputNames (nodes ! i)) \<Longrightarrow> names n = Some j \<Longrightarrow>
    j \<in> needed nodes names ns"

text \<open>Every name that is asked for or needed has a producer in the graph.\<close>

definition closed_names :: "'f AsyncNode list \<Rightarrow> (string \<rightharpoonup> nat) \<Rightarrow> string set \<Rightarrow> bool" where
  "closed_names nodes names ns \<longleftrightarrow> (\<forall>n\<in>ns. names n \<noteq> None) \<and>
     (\<forall>i\<in>needed nodes names ns. i < length nodes \<and> (\<forall>n\<in>set (an_mInputNames (nodes ! i)). names n \<noteq> None))"

text \<open>
  The loop invariant: the queue holds names that are asked for or needed, the travelled nodes are
  needed, and every needed name is either queued or its producer has been travelled.
\<close>

definition sg_inv ::
  "'f AsyncNode list \<Rightarrow> (string \<rightharpoonup> nat) \<Rightarrow> string set \<Rightarrow> string list \<Rightarrow> nat list \<Rightarrow> 'f AsyncGraph \<Rightarrow> bool" where
  "sg_inv nodes names ns queue travelled g \<longleftrightarrow>
     (\<forall>n\<in>set queue. n \<in> ns \<or> (\<exists>i\<in>set travelled. n \<in> set (an_mInputNames (nodes ! i)))) \<and>
     set travelled \<subseteq> needed nodes names ns \<and> distinct travelled \<and>
     (\<forall>n. n \<in> ns \<or> (\<exists>i\<in>set travelled. n \<in> set (an_mInputNames (nodes ! i))) \<longrightarrow>
        n \<in> set queue \<or> (\<exists>i\<in>set travelled. names n = Some i)) \<and>
     ag_mAsyncNodes g = map ((!) nodes) (rev travelled)"

lemma sg_inv_done:
  assumes "sg_inv nodes names ns [] travelled g" "closed_names nodes names ns"
  shows "set travelled = needed nodes names ns"
proof -
  have "i \<in> set travelled" if "i \<in> needed nodes names ns" for i
    using that
  proof (induction rule: needed.induct)
    case (needed_root n i)
    then show ?case using assms(1) by (fastforce simp: sg_inv_def)
  next
    case (needed_input i n j)
    then show ?case using assms(1) by (fastforce simp: sg_inv_def)
  qed
  then show ?thesis using assms(1) by (auto simp: sg_inv_def)
qed

lemma sg_loop_total:
  assumes "closed_names nodes names ns" "sg_inv nodes names ns queue travelled g"
  shows "\<exists>travelled' g'. sg_loop nodes names queue travelled g = Some g' \<and> set travelled' = needed nodes names ns \<and>
    distinct travelled' \<and> ag_mAsyncNodes g' = map ((!) nodes) (rev travelled')"
  using assms(2)
proof (induction "(length nodes - length travelled, length queue)" arbitrary: queue travelled g
    rule: wf_induct_rule [OF wf_lex_prod [OF wf_measure [of id] wf_measure [of id]]])
  case (1 queue travelled g)
  note IH = 1(1) and I = 1(2)
  have fin: "set travelled \<subseteq> {0..<length nodes}" "distinct travelled"
    using I assms(1) by (auto simp: sg_inv_def closed_names_def)
  have len: "length travelled \<le> length nodes"
    using card_mono [OF _ fin(1)] distinct_card [OF fin(2)] by simp
  show ?case
  proof (cases queue)
    case Nil
    then show ?thesis
      using sg_inv_done [OF _ assms(1), of travelled g] I by (subst sg_loop.simps) (auto simp: sg_inv_def)
  next
    case (Cons n rest)
    have "n \<in> ns \<or> (\<exists>i\<in>set travelled. n \<in> set (an_mInputNames (nodes ! i)))" using I Cons by (auto simp: sg_inv_def)
    then obtain i where i: "names n = Some i" "i \<in> needed nodes names ns"
      using I assms(1) needed.intros unfolding sg_inv_def closed_names_def by (metis not_None_eq subsetD)
    show ?thesis
    proof (cases "i \<in> set travelled")
      case True
      have "sg_inv nodes names ns rest travelled g" using I Cons i(1) True unfolding sg_inv_def by auto
      then show ?thesis
        using IH [of travelled rest g] Cons i(1) True by (subst sg_loop.simps) auto
    next
      case False
      let ?node = "nodes ! i"
      let ?g = "AsyncGraph_emplace (an_mInputNames ?node) (an_mOutputNames ?node) (an_mFunc ?node) (an_mFuncName ?node) g"
      have "i < length nodes" using i(2) assms(1) by (simp add: closed_names_def)
      then have "set (i # travelled) \<subseteq> {0..<length nodes}" "distinct (i # travelled)" using fin False by auto
      then have "length (i # travelled) \<le> length nodes"
        using card_mono [of "{0..<length nodes}"] distinct_card by (metis card_atLeastLessThan diff_zero finite_atLeastLessThan)
      then have smaller: "((length nodes - length (i # travelled), length (rest @ an_mInputNames ?node)),
          (length nodes - length travelled, length queue)) \<in> measure id <*lex*> measure id" by auto
      have "sg_inv nodes names ns (rest @ an_mInputNames ?node) (i # travelled) ?g"
        using I Cons i False unfolding sg_inv_def AsyncGraph_emplace_def by auto
      from IH [OF smaller this] show ?thesis
        using Cons i(1) False by (subst sg_loop.simps) (simp add: Let_def)
    qed
  qed
qed

lemma sg_names_producer: "sg_names nodes x = (if producers nodes x = {} then None else Some (Max (producers nodes x)))"
proof (induction nodes rule: rev_induct)
  case Nil
  show ?case by (simp add: sg_names_def producers_def)
next
  case (snoc node nodes)
  have "fold (\<lambda>name m. m(name \<mapsto> i)) ns m x = (if x \<in> set ns then Some i else m x)" for ns i and m :: "string \<rightharpoonup> nat"
    by (induction ns arbitrary: m) auto
  then have "sg_names (nodes @ [node]) x = (if x \<in> set (an_mOutputNames node) then Some (length nodes) else sg_names nodes x)"
    by (simp add: sg_names_def enumerate_append_eq)
  then show ?case unfolding snoc
    by (cases "x \<in> set (an_mOutputNames node)") (simp_all add: Max_producers_snoc, simp_all add: producers_snoc)
qed

text \<open>A name without producer anywhere in the queue makes the loop dereference a null pointer.\<close>

lemma sg_loop_unknown:
  assumes "n \<in> set queue" "names n = None"
  shows "sg_loop nodes names queue travelled g = None"
proof (rule ccontr)
  assume "sg_loop nodes names queue travelled g \<noteq> None"
  then obtain g' where r: "sg_loop nodes names queue travelled g = Some g'" by blast
  have "\<forall>n\<in>set queue. names n \<noteq> None"
  proof (rule sg_loop.raw_induct [where P = "\<lambda>nodes names queue travelled g g'. \<forall>n\<in>set queue. names n \<noteq> None", OF _ r])
    fix loop and nodes :: "'f AsyncNode list" and names :: "string \<rightharpoonup> nat" and queue travelled and g g' :: "'f AsyncGraph"
    assume IH: "\<And>nodes names queue travelled g g'. loop nodes names queue travelled g = Some g' \<Longrightarrow> \<forall>n\<in>set queue. names n \<noteq> None"
      and body: "(case queue of [] \<Rightarrow> Some g
        | name # rest \<Rightarrow> (case names name of None \<Rightarrow> None
           | Some i \<Rightarrow> if i \<in> set travelled then loop nodes names rest travelled g
               else let node = nodes ! i in loop nodes names (rest @ an_mInputNames node) (i # travelled)
                   (AsyncGraph_emplace (an_mInputNames node) (an_mOutputNames node) (an_mFunc node) (an_mFuncName node) g))) = Some g'"
    show "\<forall>n\<in>set queue. names n \<noteq> None"
      using body by (cases queue) (auto simp: Let_def split: option.splits if_splits dest!: IH)
  qed
  with assms show False by blast
qed

subsection \<open>Properties\<close>

text \<open>
  The example graph of the witnesses: \<open>a\<close> feeds \<open>b\<close>, \<open>c\<close> and \<open>d\<close>, and \<open>c\<close> also uses \<open>b\<close>.
\<close>

definition ex_node :: "string \<Rightarrow> string list \<Rightarrow> string \<Rightarrow> nat AsyncNode" where
  "ex_node k ins out = \<lparr>an_mFunc = Some 0, an_mFuncName = k, an_mInputNames = ins, an_mOutputNames = [out]\<rparr>"

definition ex_graph :: "nat AsyncGraph" where
  "ex_graph = CreateAsyncGraph\<lparr>ag_mAsyncNodes := [ex_node ''src'' [] ''a'', ex_node ''f'' [''a''] ''b'',
     ex_node ''g'' [''a'', ''b''] ''c'', ex_node ''h'' [''a''] ''d'']\<rparr>"

lemma ex_graph_nodes:
  "ag_mAsyncNodes ex_graph = [ex_node ''src'' [] ''a'', ex_node ''f'' [''a''] ''b'', ex_node ''g'' [''a'', ''b''] ''c'', ex_node ''h'' [''a''] ''d'']"
  by (simp add: ex_graph_def)

lemma ex_graph_less: "i < length (ag_mAsyncNodes ex_graph) \<longleftrightarrow> i = 0 \<or> i = 1 \<or> i = 2 \<or> i = 3"
  by (auto simp: ex_graph_nodes)

text \<open>One iteration order: the names in lexicographic order.\<close>

definition name_order :: "(string \<rightharpoonup> nat) \<Rightarrow> string list" where
  "name_order m = sorted_list_of_set (dom m)"

definition fresh_graph :: "'f AsyncGraph \<Rightarrow> bool" where
  "fresh_graph g \<longleftrightarrow> (\<exists>nodes. g = CreateAsyncGraph\<lparr>ag_mAsyncNodes := nodes\<rparr>)"

lemma build_spec:
  assumes iter: "\<forall>m. finite (dom m) \<longrightarrow> distinct (iter m) \<and> set (iter m) = dom m"
    and "fresh_graph g" "\<forall>x. num_defs (ag_mAsyncNodes g) x \<le> 1"
  shows "let nodes = ag_mAsyncNodes g; h = AsyncGraph_BuildGraph iter g; fi = ag_mFunctionInfo h; ids = ag_mNameAndAsyncIdPair h in
    ag_mAsyncNodes h = nodes \<and> ag_mIsConstructed h \<and>
    dom ids = graph_names nodes \<and> inj_on ids (dom ids) \<and> ran ids = {0..<card (graph_names nodes)} \<and>
    length (fi_mAsyncValueInfos fi) = card (graph_names nodes) \<and>
    (\<forall>x\<in>graph_names nodes. fi_mAsyncValueInfos fi ! the (ids x) =
       \<lparr>avi_mUserCount = num_uses nodes x + num_defs nodes x - 1, avi_mValue = None\<rparr>) \<and>
    length (fi_mKernelInfos fi) = length nodes \<and>
    (\<forall>i<length nodes. fi_mKernelInfos fi ! i = (if an_mOutputNames (nodes ! i) = [] then 0 else int (length (an_mInputNames (nodes ! i)))) \<and>
       ag_mUsedByKernlTable h i = Some (map (\<lambda>x. sorted_list_of_set (users_of nodes x)) (an_mOutputNames (nodes ! i)))) \<and>
    distinct (ag_mOutputNames h) \<and> set (ag_mOutputNames h) = {x. num_uses nodes x + num_defs nodes x = 1}"
proof -
  let ?nodes = "ag_mAsyncNodes g" and ?h = "AsyncGraph_BuildGraph iter g"
  let ?m = "bg_scan ?nodes" and ?N = "graph_names ?nodes"
  let ?ids = "bg_indexAsyncValueMap ?m" and ?xs = "iter (bg_indexAsyncValueMap ?m)"
  let ?infos = "fold (bg_user ?m) ?xs (replicate (bg_startId ?m) AsyncValueInfo_new)"
  have idx: "index_ok ?N ?m" using bg_scan_ok [of ?nodes] by (simp add: scan_ok_def)
  then have ids: "dom ?ids = ?N" "inj_on ?ids ?N" "ran ?ids = {0..<card ?N}"
    using index_ok_card(2) [OF idx] by (simp_all add: index_ok_def)
  have xs: "distinct ?xs" "set ?xs = ?N" using iter ids(1) index_ok_card(1) [OF idx] by auto
  note U = bg_infos_spec [OF xs]
  have fresh: "fi_mAsyncValueInfos (ag_mFunctionInfo g) = []" "fi_mKernelInfos (ag_mFunctionInfo g) = []" "ag_mOutputNames g = []"
    using assms(2) by (auto simp: fresh_graph_def CreateAsyncGraph_def)
  have h: "ag_mAsyncNodes ?h = ?nodes" "ag_mIsConstructed ?h" "ag_mNameAndAsyncIdPair ?h = ?ids" "fi_mAsyncValueInfos (ag_mFunctionInfo ?h) = ?infos"
      "fi_mKernelInfos (ag_mFunctionInfo ?h) = bg_kernels ?nodes ?m (replicate (length ?nodes) 0)"
      "ag_mOutputNames ?h = filter (\<lambda>name. avi_mUserCount (?infos ! the (?ids name)) = 0) ?xs"
      "ag_mUsedByKernlTable ?h = fold (\<lambda>(i, node) t. t(i \<mapsto> bg_table ?m node)) (enumerate 0 ?nodes) (ag_mUsedByKernlTable g)"
    by (simp_all add: AsyncGraph_BuildGraph_def Let_def fresh resize_list_def)
  have "avi_mUserCount (?infos ! the (?ids x)) = 0 \<longleftrightarrow> num_uses ?nodes x + num_defs ?nodes x = 1" if "x \<in> ?N" for x
    using graph_names_occurs [of x ?nodes] U(2) [OF that] that by auto
  moreover have "x \<in> ?N" if "num_uses ?nodes x + num_defs ?nodes x = 1" for x
    using graph_names_occurs [of x ?nodes] that by simp
  ultimately have "set (ag_mOutputNames ?h) = {x. num_uses ?nodes x + num_defs ?nodes x = 1}"
    unfolding h(6) set_filter xs(2) by blast
  moreover have "fi_mKernelInfos (ag_mFunctionInfo ?h) ! i = (if an_mOutputNames (?nodes ! i) = [] then 0 else int (length (an_mInputNames (?nodes ! i)))) \<and>
      ag_mUsedByKernlTable ?h i = Some (map (\<lambda>x. sorted_list_of_set (users_of ?nodes x)) (an_mOutputNames (?nodes ! i)))" if "i < length ?nodes" for i
    using bg_kernels_spec [of ?nodes i] assms(3) that by (simp add: h(5,7) bg_tables bg_table_spec)
  moreover have "distinct (ag_mOutputNames ?h)" using xs(1) by (simp add: h(6))
  ultimately show ?thesis
    using h ids U by (simp add: Let_def bg_kernels_def bg_kernels_length)
qed

text \<open>
  C25. On a graph whose names are each produced at most once BuildGraph
  numbers the names injectively with 0, 1, 2, and so on; gives every value a user count one below the
  number of its occurrences; stores for every kernel with results the number of its inputs as the
  number of arguments not ready; lists for every result exactly the kernels that use it, in
  increasing order; and reports as outputs exactly the names that occur once. This holds for every
  iteration order of the name map.
\<close>

theorem AsyncGraph_BuildGraph_correct:
  assumes iter: "\<forall>m. finite (dom m) \<longrightarrow> distinct (iter m) \<and> set (iter m) = dom m"
    and "fresh_graph g" "\<forall>x. num_defs (ag_mAsyncNodes g) x \<le> 1"
  shows "let nodes = ag_mAsyncNodes g; h = AsyncGraph_BuildGraph iter g; fi = ag_mFunctionInfo h; ids = ag_mNameAndAsyncIdPair h in
    ag_mAsyncNodes h = nodes \<and> ag_mIsConstructed h \<and>
    dom ids = graph_names nodes \<and> inj_on ids (dom ids) \<and> ran ids = {0..<card (graph_names nodes)} \<and>
    length (fi_mAsyncValueInfos fi) = card (graph_names nodes) \<and>
    (\<forall>x\<in>graph_names nodes. fi_mAsyncValueInfos fi ! the (ids x) =
       \<lparr>avi_mUserCount = num_uses nodes x + num_defs nodes x - 1, avi_mValue = None\<rparr>) \<and>
    length (fi_mKernelInfos fi) = length nodes \<and>
    (\<forall>i<length nodes. fi_mKernelInfos fi ! i = (if an_mOutputNames (nodes ! i) = [] then 0 else int (length (an_mInputNames (nodes ! i)))) \<and>
       ag_mUsedByKernlTable h i = Some (map (\<lambda>x. sorted_list_of_set (users_of nodes x)) (an_mOutputNames (nodes ! i)))) \<and>
    distinct (ag_mOutputNames h) \<and> set (ag_mOutputNames h) = {x. num_uses nodes x + num_defs nodes x = 1}"
  by (rule build_spec [OF assms])

theorem AsyncGraph_BuildGraph_correct_witness:
  "ag_mUsedByKernlTable (AsyncGraph_BuildGraph name_order ex_graph) 0 = Some [[1, 2, 3]] \<and>
   fi_mKernelInfos (ag_mFunctionInfo (AsyncGraph_BuildGraph name_order ex_graph)) ! 2 = 2"
proof -
  have it: "\<forall>m. finite (dom m) \<longrightarrow> distinct (name_order m) \<and> set (name_order m) = dom m" by (simp add: name_order_def)
  have fresh: "fresh_graph ex_graph" by (auto simp: fresh_graph_def ex_graph_def)
  have uniq: "\<forall>x. num_defs (ag_mAsyncNodes ex_graph) x \<le> 1" by (simp add: num_defs_def ex_graph_nodes ex_node_def) auto
  have users: "users_of (ag_mAsyncNodes ex_graph) ''a'' = {1, 2, 3}"
    by (auto simp: users_of_def ex_graph_less) (simp_all add: ex_graph_nodes ex_node_def)
  note C = AsyncGraph_BuildGraph_correct [OF it fresh uniq, unfolded Let_def, THEN conjunct2, THEN conjunct2, THEN conjunct2, THEN conjunct2, THEN conjunct2, THEN conjunct2, THEN conjunct2, THEN conjunct2, THEN conjunct1, rule_format]
  have n: "an_mOutputNames (ag_mAsyncNodes ex_graph ! 0) = [''a'']" "an_mOutputNames (ag_mAsyncNodes ex_graph ! 2) = [''c'']"
      "length (an_mInputNames (ag_mAsyncNodes ex_graph ! 2)) = 2"
    by (simp_all add: ex_graph_nodes ex_node_def)
  have "sorted_list_of_set {1, 2, 3 :: nat} = [1, 2, 3]" by (simp add: sorted_list_of_set_insert_remove)
  then show ?thesis
    using C [of 0] C [of 2] ex_graph_less [of 0] ex_graph_less [of 2] by (simp add: n users)
qed

text \<open>What a node has to satisfy to be restored from a message: its kernel is registered and its names are UTF-8.\<close>

definition pb_loadable :: "(string \<rightharpoonup> 'f) \<Rightarrow> 'f AsyncNode \<Rightarrow> bool" where
  "pb_loadable libs node \<longleftrightarrow> (\<forall>n\<in>set (an_mInputNames node) \<union> set (an_mOutputNames node). utf8 n) \<and>
     utf8 (an_mFuncName node) \<and> an_mFunc node = libs (an_mFuncName node) \<and> an_mFunc node \<noteq> None"

text \<open>
  C26. Loading into an empty graph what was saved gives back the same nodes in the
  same order, when every kernel is registered under the name of its node: for the text format of Dump and
  Load when moreover all names, that of the kernel included, are not empty and contain neither a newline
  nor the delimiter; for both protobuf modes when all names are valid UTF-8 and the protobuf parsers read
  what its printers write for such names. The condition on kernel names matters: a node that emplace made
  with its default name, the empty string, is dumped to a text that Load does not accept (it fails its
  assert), whatever is registered and whatever follows the node.
\<close>

theorem AsyncGraph_Dump_Load:
  assumes pb: "pb_codec_ok pb"
  shows "((\<forall>node\<in>set (ag_mAsyncNodes g). loadable libs node) \<longrightarrow>
      AsyncGraph_Load libs (AsyncGraph_Dump g) CreateAsyncGraph = Some (CreateAsyncGraph\<lparr>ag_mAsyncNodes := ag_mAsyncNodes g\<rparr>)) \<and>
    ((\<forall>node\<in>set (ag_mAsyncNodes g). pb_loadable libs node) \<longrightarrow>
      AsyncGraph_LoadFromProtobuf pb libs (AsyncGraph_DumpToProtobuf pb g mode) mode CreateAsyncGraph =
        Some (CreateAsyncGraph\<lparr>ag_mAsyncNodes := ag_mAsyncNodes g\<rparr>)) \<and>
    (\<forall>pre node post. ag_mAsyncNodes g = pre @ node # post \<and> (\<forall>n\<in>set pre. loadable libs n) \<and>
      (\<forall>n\<in>set (an_mInputNames node) \<union> set (an_mOutputNames node). text_name n) \<and> an_mFuncName node = [] \<longrightarrow>
      AsyncGraph_Load libs (AsyncGraph_Dump g) CreateAsyncGraph = None)"
proof (intro conjI impI allI)
  let ?st = "\<lparr>ld_inputNames = [], ld_outputNames = [], ld_kernelFn = None, ld_kernelName = []\<rparr> :: 'a load_state"
  note L = Load_lines_nodes [of _ libs ?st, simplified]
  have nil: "Load_lines libs [] sg = Some sg" for sg by (subst Load_lines.simps) (simp add: getline_def)
  show "AsyncGraph_Load libs (AsyncGraph_Dump g) CreateAsyncGraph = Some (CreateAsyncGraph\<lparr>ag_mAsyncNodes := ag_mAsyncNodes g\<rparr>)"
    if "\<forall>node\<in>set (ag_mAsyncNodes g). loadable libs node"
    using L [OF that, of "[]" CreateAsyncGraph] by (auto simp: AsyncGraph_Load_def AsyncGraph_Dump_def CreateAsyncGraph_def nil)
  show "AsyncGraph_LoadFromProtobuf pb libs (AsyncGraph_DumpToProtobuf pb g mode) mode CreateAsyncGraph =
      Some (CreateAsyncGraph\<lparr>ag_mAsyncNodes := ag_mAsyncNodes g\<rparr>)" if ok: "\<forall>node\<in>set (ag_mAsyncNodes g). pb_loadable libs node"
  proof -
    let ?d = "map (\<lambda>node. \<lparr>nd_input_names = an_mInputNames node, nd_output_names = an_mOutputNames node, nd_func_name = an_mFuncName node\<rparr>) (ag_mAsyncNodes g)"
    have "\<forall>n \<in> set ?d. utf8 (nd_func_name n) \<and> (\<forall>x \<in> set (nd_input_names n) \<union> set (nd_output_names n). utf8 x)"
      using ok by (simp add: pb_loadable_def)
    then have d: "pb_TextParse pb (pb_PrintToString pb ?d) = ?d" "pb_ParseFromString pb (pb_SerializeAsString pb ?d) = ?d"
      using pb unfolding pb_codec_ok_def by blast+
    have "\<forall>node\<in>set (ag_mAsyncNodes g). an_mFunc node = libs (an_mFuncName node) \<and> an_mFunc node \<noteq> None" using ok unfolding pb_loadable_def by blast
    note Load_nodes_restores [OF this, of CreateAsyncGraph]
    then show ?thesis using d
      by (cases mode) (simp_all add: AsyncGraph_LoadFromProtobuf_def AsyncGraph_DumpToProtobuf_def CreateAsyncGraph_def)
  qed
  fix pre node post
  assume a: "ag_mAsyncNodes g = pre @ node # post \<and> (\<forall>n\<in>set pre. loadable libs n) \<and>
      (\<forall>n\<in>set (an_mInputNames node) \<union> set (an_mOutputNames node). text_name n) \<and> an_mFuncName node = []"
  then have names: "\<forall>n\<in>set (an_mInputNames node) \<union> set (an_mOutputNames node). text_name n" by blast
  show "AsyncGraph_Load libs (AsyncGraph_Dump g) CreateAsyncGraph = None"
    using L [of pre "Dump_node node @ concat (map Dump_node post)" CreateAsyncGraph] Load_lines_unnamed [OF names] a
    by (auto simp: AsyncGraph_Load_def AsyncGraph_Dump_def)
qed

text \<open>A concrete codec for the witness: characters are marked, lists and strings end with a full stop.\<close>

definition enc_str :: "string \<Rightarrow> string" where
  "enc_str s = concat (map (\<lambda>c. [CHR ''c'', c]) s) @ ''.''"

fun dec_str :: "string \<Rightarrow> string \<times> string" where
  "dec_str (CHR ''c'' # c # r) = (let (s, r') = dec_str r in (c # s, r'))"
| "dec_str (CHR ''.'' # r) = ([], r)"
| "dec_str _ = ([], [])"

definition enc_list :: "('x \<Rightarrow> string) \<Rightarrow> 'x list \<Rightarrow> string" where
  "enc_list enc xs = concat (map (\<lambda>x. CHR ''-'' # enc x) xs) @ ''.''"

fun dec_list :: "(string \<Rightarrow> 'x \<times> string) \<Rightarrow> nat \<Rightarrow> string \<Rightarrow> 'x list \<times> string" where
  "dec_list dec (Suc n) (CHR ''-'' # r) = (let (x, r1) = dec r; (xs, r2) = dec_list dec n r1 in (x # xs, r2))"
| "dec_list dec n (CHR ''.'' # r) = ([], r)"
| "dec_list dec n r = ([], r)"

definition enc_node :: "AsyncNodeDef \<Rightarrow> string" where
  "enc_node d = enc_str (nd_func_name d) @ enc_list enc_str (nd_input_names d) @ enc_list enc_str (nd_output_names d)"

definition dec_node :: "string \<Rightarrow> AsyncNodeDef \<times> string" where
  "dec_node r = (let (f, r1) = dec_str r; (ins, r2) = dec_list dec_str (length r1) r1; (outs, r3) = dec_list dec_str (length r2) r2
     in (\<lparr>nd_input_names = ins, nd_output_names = outs, nd_func_name = f\<rparr>, r3))"

definition ex_pb :: protobuf where
  "ex_pb = \<lparr>pb_SerializeAsString = enc_list enc_node, pb_ParseFromString = (\<lambda>s. fst (dec_list dec_node (length s) s)),
     pb_PrintToString = enc_list enc_node, pb_TextParse = (\<lambda>s. fst (dec_list dec_node (length s) s))\<rparr>"

lemma dec_enc_str: "dec_str (enc_str s @ r) = (s, r)"
  by (induction s) (simp_all add: enc_str_def)

lemma dec_enc_list:
  "(\<And>x r. dec (enc x @ r) = (x, r)) \<Longrightarrow> length xs \<le> n \<Longrightarrow> dec_list dec n (enc_list enc xs @ r) = (xs, r)"
proof (induction xs arbitrary: n)
  case Nil
  then show ?case by (cases n) (simp_all add: enc_list_def)
next
  case (Cons x xs)
  then obtain k where "n = Suc k" "length xs \<le> k" by (cases n) auto
  then show ?case using Cons by (simp add: enc_list_def)
qed

lemma enc_list_length: "length xs \<le> length (enc_list enc xs)"
  by (induction xs) (simp_all add: enc_list_def)

lemma dec_enc_node: "dec_node (enc_node d @ r) = (d, r)"
proof -
  have "dec_list dec_str (length (enc_list enc_str xs @ q)) (enc_list enc_str xs @ q) = (xs, q)" for xs and q :: string
    using enc_list_length [of xs enc_str] by (intro dec_enc_list dec_enc_str) simp
  then show ?thesis by (simp add: dec_node_def enc_node_def dec_enc_str del: length_append)
qed

lemma ex_pb_ok: "pb_codec_ok ex_pb"
proof -
  have "dec_list dec_node (length (enc_list enc_node d)) (enc_list enc_node d @ []) = (d, [])" for d
    by (intro dec_enc_list dec_enc_node enc_list_length)
  then show ?thesis by (simp add: pb_codec_ok_def ex_pb_def)
qed

text \<open>The example graph, and the same graph followed by a node with the default kernel name.\<close>

definition ex_unnamed :: "nat AsyncGraph" where
  "ex_unnamed = AsyncGraph_emplace [''a''] [''z''] (Some 0) [] ex_graph"

theorem AsyncGraph_Dump_Load_witness:
  "AsyncGraph_Load (\<lambda>_. Some 0) (AsyncGraph_Dump ex_graph) CreateAsyncGraph = Some ex_graph \<and>
   AsyncGraph_LoadFromProtobuf ex_pb (\<lambda>_. Some 0) (AsyncGraph_DumpToProtobuf ex_pb ex_graph kTxtMode) kTxtMode CreateAsyncGraph = Some ex_graph \<and>
   AsyncGraph_Load (\<lambda>_. Some (0 :: nat)) (AsyncGraph_Dump ex_unnamed) CreateAsyncGraph = None"
proof -
  have one: "text_name [c]" if "c \<noteq> newline" for c
  proof -
    have "length (take 2 (drop i [c])) \<noteq> length '': ''" for i by (cases i) simp_all
    then have "take 2 (drop i [c]) \<noteq> '': ''" for i by metis
    then show ?thesis using that by (simp add: text_name_def)
  qed
  have "take 2 (drop i ''src'') \<noteq> '': ''" for i
    by (cases i; cases "i - 1"; cases "i - 2") (auto simp: numeral_2_eq_2)
  then have "text_name ''src''" by (simp add: text_name_def newline_def)
  then have l: "\<forall>node\<in>set (ag_mAsyncNodes ex_graph). loadable (\<lambda>_. Some 0) node"
    using one by (simp add: ex_graph_def ex_node_def loadable_def newline_def)
  have p: "\<forall>node\<in>set (ag_mAsyncNodes ex_graph). pb_loadable (\<lambda>_. Some 0) node"
    by (simp add: ex_graph_nodes ex_node_def pb_loadable_def utf8_def)
  let ?n = "\<lparr>an_mFunc = Some 0, an_mFuncName = [], an_mInputNames = [''a''], an_mOutputNames = [''z'']\<rparr> :: nat AsyncNode"
  have u: "ag_mAsyncNodes ex_unnamed = ag_mAsyncNodes ex_graph @ ?n # []"
    by (simp add: ex_unnamed_def AsyncGraph_emplace_def)
  have z: "\<forall>x\<in>set (an_mInputNames ?n) \<union> set (an_mOutputNames ?n). text_name x"
    using one [of "CHR ''a''"] one [of "CHR ''z''"] by (simp add: newline_def)
  have "AsyncGraph_Load (\<lambda>_. Some (0 :: nat)) (AsyncGraph_Dump ex_unnamed) CreateAsyncGraph = None"
    by (rule AsyncGraph_Dump_Load [OF ex_pb_ok, of ex_unnamed "\<lambda>_. Some 0" kTxtMode, THEN conjunct2, THEN conjunct2,
          THEN spec [of _ "ag_mAsyncNodes ex_graph"], THEN spec [of _ ?n], THEN spec [of _ "[]"], THEN mp])
      (use u l z in simp)
  then show ?thesis using AsyncGraph_Dump_Load [OF ex_pb_ok, of ex_graph "\<lambda>_. Some 0" kTxtMode] l p by (simp add: ex_graph_def)
qed

text \<open>
  C27. SubGraph ends, and when every requested name and every input has a
  producer it contains exactly the nodes the requested names depend on, each once; a requested name
  that no node produces makes it dereference a null pointer.
\<close>

theorem AsyncGraph_SubGraph_closure:
  fixes g :: "'f AsyncGraph"
  defines "nodes \<equiv> ag_mAsyncNodes g"
  assumes "\<forall>i<length nodes. \<forall>n\<in>set (an_mInputNames (nodes ! i)). producers nodes n \<noteq> {}"
  shows "((\<forall>n\<in>set outputNames. producers nodes n \<noteq> {}) \<longrightarrow>
      (\<exists>h is. AsyncGraph_SubGraph g outputNames = Some h \<and> ag_mAsyncNodes h = map ((!) nodes) is \<and> distinct is \<and>
        set is = needed nodes (sg_names nodes) (set outputNames))) \<and>
    ((\<exists>n\<in>set outputNames. producers nodes n = {}) \<longrightarrow> AsyncGraph_SubGraph g outputNames = None)"
proof (intro conjI impI)
  assume ok: "\<forall>n\<in>set outputNames. producers nodes n \<noteq> {}"
  have bound: "i < length nodes" if "sg_names nodes n = Some i" for n i
  proof -
    have "producers nodes n \<noteq> {}" "i = Max (producers nodes n)" using that by (auto simp: sg_names_producer split: if_splits)
    then have "i \<in> producers nodes n" using Max_in [OF producers_finite] by metis
    then show ?thesis by (simp add: producers_def)
  qed
  have lt: "i < length nodes" if "i \<in> needed nodes (sg_names nodes) (set outputNames)" for i
    using that by (induction rule: needed.induct) (auto intro: bound)
  have names: "sg_names nodes n \<noteq> None \<longleftrightarrow> producers nodes n \<noteq> {}" for n by (simp add: sg_names_producer)
  have "closed_names nodes (sg_names nodes) (set outputNames)"
    unfolding closed_names_def names using ok assms(2) lt by blast
  moreover have "sg_inv nodes (sg_names nodes) (set outputNames) outputNames [] (CreateAsyncGraph :: 'f AsyncGraph)"
    by (simp add: sg_inv_def CreateAsyncGraph_def)
  ultimately obtain t h where "sg_loop nodes (sg_names nodes) outputNames [] CreateAsyncGraph = Some h"
      "set t = needed nodes (sg_names nodes) (set outputNames)" "distinct t" "ag_mAsyncNodes h = map ((!) nodes) (rev t)"
    using sg_loop_total by blast
  then show "\<exists>h is. AsyncGraph_SubGraph g outputNames = Some h \<and> ag_mAsyncNodes h = map ((!) nodes) is \<and> distinct is \<and>
      set is = needed nodes (sg_names nodes) (set outputNames)"
    by (intro exI [of _ h] exI [of _ "rev t"]) (simp add: AsyncGraph_SubGraph_def nodes_def)
next
  assume "\<exists>n\<in>set outputNames. producers nodes n = {}"
  then obtain n where "n \<in> set outputNames" "sg_names nodes n = None" by (auto simp: sg_names_producer)
  then have "sg_loop nodes (sg_names nodes) outputNames [] CreateAsyncGraph = None" by (rule sg_loop_unknown)
  then show "AsyncGraph_SubGraph g outputNames = None" by (simp add: AsyncGraph_SubGraph_def nodes_def)
qed

theorem AsyncGraph_SubGraph_closure_witness:
  "\<exists>h. AsyncGraph_SubGraph ex_graph [''b''] = Some h \<and> AsyncGraph_SubGraph ex_graph [''zz''] = None"
proof -
  let ?N = "ag_mAsyncNodes ex_graph"
  have p: "0 \<in> producers ?N ''a''" "1 \<in> producers ?N ''b''" by (simp_all add: producers_def ex_graph_nodes ex_node_def)
  have z: "producers ?N ''zz'' = {}"
  proof -
    have "''zz'' \<notin> set (an_mOutputNames (?N ! i))" if "i < length ?N" for i
      using that unfolding ex_graph_less by (elim disjE) (simp_all add: ex_graph_nodes ex_node_def)
    then show ?thesis unfolding producers_def by blast
  qed
  have ins: "\<forall>i<length ?N. \<forall>n\<in>set (an_mInputNames (?N ! i)). producers ?N n \<noteq> {}"
  proof (intro allI impI)
    fix i assume "i < length ?N"
    then show "\<forall>n\<in>set (an_mInputNames (?N ! i)). producers ?N n \<noteq> {}"
      using p unfolding ex_graph_less by (elim disjE) (auto simp: ex_graph_nodes [symmetric], auto simp: ex_graph_nodes ex_node_def)
  qed
  show ?thesis
    using AsyncGraph_SubGraph_closure [OF ins, of "[''b'']"] AsyncGraph_SubGraph_closure [OF ins, of "[''zz'']"] p z by auto
qed

end
