(* ===== verification/Graph_Executor.thy ===== *)
theory Graph_Executor
  imports Kernel_Frame Async_Graph
begin

text \<open>
  GraphExecutor of \<^verbatim>\<open>src/async/runtime/graph.cpp\<close>: one run of a built dataflow graph on the async values of
  the previous theories. The registers (AsyncValueInfo) hold the values by their ids, the kernel infos
  the number of arguments that are not ready; a kernel whose last argument gets ready is run, by the
  thread that made it ready or by a task of the work queue.

  An activation is a call of ProcessReadyKernels, from static Execute (activation 0), from a task of the
  work queue or from an AndThen closure, with the point it has reached. Every activation takes its steps
  in any interleaving with the others and with the clients of the values. One step is one access to
  shared data: a call of GetOrCreateAsyncValuePtr or SetAsyncValuePtr (whose compare-exchange is the
  access), the decrement of one counter, one DropRef, one AndThen, one EnqueueWork, or the run of a
  kernel. The span of users that GetNextUsedBys returns is named by its node and result number. \<open>None\<close>
  is a failed assert, a bad cast, or an access to a destroyed value.
\<close>

subsection \<open>State\<close>

datatype closure = CBResult nat nat av_ptr | CBPseudo nat nat

datatype gx_cont = KPseudo nat | KResult nat nat "av_ptr option list" | KLoop

datatype gx_pc =
    PPseudo nat "nat list"
  | PPseudoWait nat "nat list"
  | PDecr "nat list" "nat list" gx_cont
  | PLoop "nat list"
  | PSpawn nat "nat list"
  | PRun nat
  | PDrop nat "av_ptr list" "av_ptr option list"
  | PResult nat nat "av_ptr option list" "nat list"
  | PResultWait nat nat "av_ptr option list" "nat list"
  | PCall nat nat av_ptr
  | PCallPseudo nat nat
  | PCollect "nat list"
  | PFinished

record 'a GraphExecutor =
  gx_av :: "'a av_sys"
  gx_mAsyncValueInfos :: "AsyncValueInfo list"
  gx_mKernelInfos :: "int list"
  gx_refs :: nat
  gx_closures :: "(nat \<times> closure) list"
  gx_acts :: "gx_pc list"
  gx_ran :: "nat list"
  gx_results :: "(nat \<times> av_ptr) list"

subsection \<open>The graph as the executor reads it\<close>

text \<open>operator[] of the name map yields 0 for a name it does not know.\<close>

definition async_id :: "'f AsyncGraph \<Rightarrow> string \<Rightarrow> nat" where
  "async_id g name = (case ag_mNameAndAsyncIdPair g name of None \<Rightarrow> 0 | Some i \<Rightarrow> i)"

definition node_ins :: "'f AsyncGraph \<Rightarrow> nat \<Rightarrow> nat list" where
  "node_ins g k = map (async_id g) (an_mInputNames (ag_mAsyncNodes g ! k))"

definition node_outs :: "'f AsyncGraph \<Rightarrow> nat \<Rightarrow> nat list" where
  "node_outs g k = map (async_id g) (an_mOutputNames (ag_mAsyncNodes g ! k))"

text \<open>The first node without inputs.\<close>

definition start_node :: "'f AsyncGraph \<Rightarrow> nat option" where
  "start_node g = find (\<lambda>k. an_mInputNames (ag_mAsyncNodes g ! k) = []) [0..<length (ag_mAsyncNodes g)]"

definition GetNextUsedBys :: "'f AsyncGraph \<Rightarrow> nat \<Rightarrow> nat \<Rightarrow> nat list option" where
  "GetNextUsedBys g node resultNumber =
     (case ag_mUsedByKernlTable g node of
        None \<Rightarrow> None
      | Some table \<Rightarrow> if resultNumber < length table then Some (table ! resultNumber) else None)"

subsection \<open>Registers\<close>

definition reg_value :: "'a GraphExecutor \<Rightarrow> nat \<Rightarrow> av_ptr option" where
  "reg_value s i = avi_mValue (gx_mAsyncValueInfos s ! i)"

definition reg_users :: "'a GraphExecutor \<Rightarrow> nat \<Rightarrow> nat" where
  "reg_users s i = avi_mUserCount (gx_mAsyncValueInfos s ! i)"

definition reg_set :: "nat \<Rightarrow> av_ptr \<Rightarrow> 'a GraphExecutor \<Rightarrow> 'a GraphExecutor" where
  "reg_set i a s = s\<lparr>gx_mAsyncValueInfos := (gx_mAsyncValueInfos s)[i := (gx_mAsyncValueInfos s ! i)\<lparr>avi_mValue := Some a\<rparr>]\<rparr>"

text \<open>GetOrCreateAsyncValuePtr; the new value gets one reference per user beside the one it starts with.\<close>

definition GetOrCreateAsyncValuePtr :: "nat \<Rightarrow> 'a GraphExecutor \<Rightarrow> (av_ptr \<times> 'a GraphExecutor) option" where
  "GetOrCreateAsyncValuePtr i s =
     (if i < length (gx_mAsyncValueInfos s)
      then (case reg_value s i of
              Some value \<Rightarrow> Some (value, s)
            | None \<Rightarrow>
                let indirectValue = as_next (gx_av s) in
                map_option (\<lambda>av. (indirectValue, reg_set i indirectValue (s\<lparr>gx_av := av\<rparr>)))
                  (av_AddRef indirectValue (reg_users s i) (MakeIndirectAsyncValue (gx_av s))))
      else None)"

definition av_DropRefs :: "av_ptr \<Rightarrow> nat \<Rightarrow> 'a av_sys \<Rightarrow> 'a av_sys option" where
  "av_DropRefs a n s =
     map_option (\<lambda>h. s\<lparr>as_heap := h, as_ext := (as_ext s)(a := as_ext s a - n)\<rparr>) (AsyncValue_DropRef (as_heap s) a (of_nat n))"

definition av_ForwardTo :: "av_ptr \<Rightarrow> av_ptr \<Rightarrow> 'a av_sys \<Rightarrow> 'a av_sys option" where
  "av_ForwardTo this v s =
     map_option (\<lambda>(h, ws). RunWaiters_call h ws (s\<lparr>as_ext := (as_ext s)(v := as_ext s v - 1)\<rparr>)) (ForwardTo (as_heap s) this v)"

definition is_indirect :: "'a av_sys \<Rightarrow> av_ptr \<Rightarrow> bool" where
  "is_indirect s a \<longleftrightarrow> map_option mKind (as_heap s a) = Some KIndirect"

definition SetAsyncValuePtr :: "nat \<Rightarrow> av_ptr \<Rightarrow> 'a GraphExecutor \<Rightarrow> 'a GraphExecutor option" where
  "SetAsyncValuePtr i newValue s =
     (if i < length (gx_mAsyncValueInfos s)
      then let refAddValue = (if reg_users s i \<noteq> 0 then reg_users s i - 1 else 0) in
        Option.bind (av_AddRef newValue refAddValue (gx_av s)) (\<lambda>av1.
          case reg_value s i of
            None \<Rightarrow> Some (reg_set i newValue (s\<lparr>gx_av := av1\<rparr>))
          | Some existing \<Rightarrow>
              if is_indirect av1 existing
              then Option.bind (av_DropRefs newValue refAddValue av1) (\<lambda>av2.
                     map_option (\<lambda>av3. s\<lparr>gx_av := av3\<rparr>) (av_ForwardTo existing newValue av2))
              else None)
      else None)"

subsection \<open>Closures\<close>

definition fresh_closure :: "'a av_sys \<Rightarrow> nat" where
  "fresh_closure s = Suc (fold max (map fst (as_reg s)) 0)"

definition av_AndThen :: "av_ptr \<Rightarrow> nat \<Rightarrow> 'a av_sys \<Rightarrow> 'a av_sys option" where
  "av_AndThen a w s =
     map_option (\<lambda>(h, ws). RunWaiters_call h ws (s\<lparr>as_reg := as_reg s @ [(w, [a])]\<rparr>)) (AndThen (as_heap s) a (Client w))"

text \<open>AddRef of the executor and AndThen with a closure of the executor.\<close>

definition gx_AndThen :: "av_ptr \<Rightarrow> closure \<Rightarrow> 'a GraphExecutor \<Rightarrow> 'a GraphExecutor option" where
  "gx_AndThen a c s =
     (let w = fresh_closure (gx_av s) in
      map_option (\<lambda>av. s\<lparr>gx_av := av, gx_refs := gx_refs s + 1, gx_closures := gx_closures s @ [(w, c)]\<rparr>) (av_AndThen a w (gx_av s)))"

subsection \<open>One kernel\<close>

text \<open>The loop of ProcessReadyKernel over the argument registers: the frame, and the last argument that is an error.\<close>

fun gather_args :: "nat list \<Rightarrow> AsyncKernelFrame \<Rightarrow> av_ptr option \<Rightarrow> 'a GraphExecutor \<Rightarrow>
    (AsyncKernelFrame \<times> av_ptr option \<times> 'a GraphExecutor) option" where
  "gather_args [] f err s = Some (f, err, s)"
| "gather_args (i # is) f err s =
     Option.bind (GetOrCreateAsyncValuePtr i s) (\<lambda>(value, s1).
       Option.bind (AddArg value f) (\<lambda>f1.
         gather_args is f1 (if IsError (as_heap (gx_av s1)) value then Some value else err) s1))"

fun share_results :: "nat list \<Rightarrow> av_ptr \<Rightarrow> 'a frame_state \<Rightarrow> 'a frame_state option" where
  "share_results [] e fs = Some fs"
| "share_results (i # is) e fs = Option.bind (ShareResultAt i e fs) (share_results is e)"

text \<open>ProcessReadyKernel up to the point where the results are in the frame: its arguments and results.\<close>

definition ProcessReadyKernel_call ::
  "('f \<Rightarrow> 'a payload list \<Rightarrow> 'a frame_op list) \<Rightarrow> u16 \<Rightarrow> 'f AsyncGraph \<Rightarrow> nat \<Rightarrow> 'a GraphExecutor \<Rightarrow>
     (av_ptr list \<times> av_ptr option list \<times> 'a GraphExecutor) option" where
  "ProcessReadyKernel_call kern tid g kernelId s =
     (if kernelId < length (ag_mAsyncNodes g)
      then Option.bind (gather_args (node_ins g kernelId) KernelFrame_Reset None s) (\<lambda>(f, err, s1).
        Option.bind (SetNumResults (length (node_outs g kernelId)) f) (\<lambda>f1.
        Option.bind (GetArguments f1) (\<lambda>args.
        Option.bind
          (case err of
             None \<Rightarrow> Option.bind (an_mFunc (ag_mAsyncNodes g ! kernelId)) (\<lambda>fn.
               frame_run tid (kern fn (map (\<lambda>a. arg_view (as_heap (gx_av s1)) (the a)) args)) (f1, gx_av s1))
           | Some e \<Rightarrow> share_results [0..<length (node_outs g kernelId)] e (f1, gx_av s1)) (\<lambda>(f2, av).
        Option.bind (GetResults f2) (\<lambda>results. Some (map the args, results, s1\<lparr>gx_av := av\<rparr>))))))
      else None)"

subsection \<open>Steps of an activation\<close>

definition reg_of :: "'f AsyncGraph \<Rightarrow> nat \<Rightarrow> nat \<Rightarrow> nat" where
  "reg_of g k n = node_outs g k ! n"

text \<open>InitializeResultRegisters: the registers without users, in the order in which the name map is iterated.\<close>

definition result_regs :: "((string \<rightharpoonup> nat) \<Rightarrow> string list) \<Rightarrow> 'f AsyncGraph \<Rightarrow> 'a GraphExecutor \<Rightarrow> nat list" where
  "result_regs iter g s =
     filter (\<lambda>i. reg_users s i = 0) (map (async_id g) (iter (ag_mNameAndAsyncIdPair g)))"

definition gx_move :: "nat \<Rightarrow> gx_pc \<Rightarrow> 'a GraphExecutor \<Rightarrow> 'a GraphExecutor" where
  "gx_move i p s = s\<lparr>gx_acts := (gx_acts s)[i := p]\<rparr>"

text \<open>ProcessArgumentsAsPseudoKernel at result \<open>r\<close> of the start node \<open>st\<close>, with ProcessPseudoKernelUsedBys.\<close>

definition step_pseudo :: "'f AsyncGraph \<Rightarrow> nat \<Rightarrow> nat \<Rightarrow> nat list \<Rightarrow> 'a GraphExecutor \<Rightarrow> gx_pc option" where
  "step_pseudo g st r ready s =
     (if length (node_outs g st) \<le> r then (if r = 0 then None else Some (PLoop ready))
      else if r = 0 then map_option (\<lambda>us. PDecr us ready (KPseudo 1)) (GetNextUsedBys g st 0)
      else if reg_users s (reg_of g st r) = 0 then Some (PPseudo (r + 1) ready)
      else (case (reg_value s (reg_of g st r), GetNextUsedBys g st r) of
              (Some a, Some us) \<Rightarrow>
                if us = [] then Some (PPseudo (r + 1) ready)
                else if IsAvailable (as_heap (gx_av s)) a then Some (PDecr us ready (KPseudo (r + 1)))
                else Some (PPseudoWait r ready)
            | _ \<Rightarrow> None))"

definition gx_continue :: "gx_cont \<Rightarrow> nat list \<Rightarrow> gx_pc" where
  "gx_continue c ready = (case c of KPseudo r \<Rightarrow> PPseudo r ready | KResult k n rs \<Rightarrow> PResult k n rs ready | KLoop \<Rightarrow> PLoop ready)"

text \<open>One result of ProcessReadyKernel, with ProcessUsedByAndSetAsyncValueInfo.\<close>

definition step_result :: "'f AsyncGraph \<Rightarrow> nat \<Rightarrow> nat \<Rightarrow> nat \<Rightarrow> av_ptr option list \<Rightarrow> nat list \<Rightarrow> 'a GraphExecutor \<Rightarrow> 'a GraphExecutor option" where
  "step_result g i k n rs ready s =
     (case rs of
        [] \<Rightarrow> Some (gx_move i (PLoop ready) s)
      | None # _ \<Rightarrow> None
      | Some r # rest \<Rightarrow>
          if (case reg_value s (reg_of g k n) of None \<Rightarrow> True | Some a \<Rightarrow> IsUnresolvedIndirect (as_heap (gx_av s)) a)
          then Option.bind (GetNextUsedBys g k n) (\<lambda>us.
            if us = [] then map_option (gx_move i (PResult k (n + 1) rest ready)) (SetAsyncValuePtr (reg_of g k n) r s)
            else if IsAvailable (as_heap (gx_av s)) r
            then map_option (gx_move i (PDecr us ready (KResult k (n + 1) rest))) (SetAsyncValuePtr (reg_of g k n) r s)
            else Some (gx_move i (PResultWait k n rs ready) s))
          else None)"

definition DecreaseReadyCountAndPush :: "nat \<Rightarrow> nat list \<Rightarrow> 'a GraphExecutor \<Rightarrow> (nat list \<times> 'a GraphExecutor) option" where
  "DecreaseReadyCountAndPush u ready s =
     (if u < length (gx_mKernelInfos s)
      then let old = gx_mKernelInfos s ! u in
        Some (if old = 1 then ready @ [u] else ready, s\<lparr>gx_mKernelInfos := (gx_mKernelInfos s)[u := old - 1]\<rparr>)
      else None)"

definition gx_DropRef :: "'a GraphExecutor \<Rightarrow> 'a GraphExecutor option" where
  "gx_DropRef s = (if gx_refs s = 0 then None else Some (s\<lparr>gx_refs := gx_refs s - 1\<rparr>))"

fun gx_pc_step :: "('f \<Rightarrow> 'a payload list \<Rightarrow> 'a frame_op list) \<Rightarrow> u16 \<Rightarrow> ((string \<rightharpoonup> nat) \<Rightarrow> string list) \<Rightarrow> 'f AsyncGraph \<Rightarrow>
    nat \<Rightarrow> gx_pc \<Rightarrow> 'a GraphExecutor \<Rightarrow> 'a GraphExecutor option" where
  "gx_pc_step kern tid iter g i (PPseudo r ready) s =
     Option.bind (start_node g) (\<lambda>st. map_option (\<lambda>p. gx_move i p s) (step_pseudo g st r ready s))"
| "gx_pc_step kern tid iter g i (PPseudoWait r ready) s =
     Option.bind (start_node g) (\<lambda>st.
       Option.bind (reg_value s (reg_of g st r)) (\<lambda>a.
         map_option (gx_move i (PPseudo (r + 1) ready)) (gx_AndThen a (CBPseudo st r) s)))"
| "gx_pc_step kern tid iter g i (PDecr (u # us) ready c) s =
     map_option (\<lambda>(ready1, s1). gx_move i (PDecr us ready1 c) s1) (DecreaseReadyCountAndPush u ready s)"
| "gx_pc_step kern tid iter g i (PDecr [] ready c) s = Some (gx_move i (gx_continue c ready) s)"
| "gx_pc_step kern tid iter g i (PLoop (x # xs)) s = Some (gx_move i (PSpawn x xs) s)"
| "gx_pc_step kern tid iter g i (PLoop []) s =
     (if i = 0 then Some (gx_move i (PCollect (result_regs iter g s)) s)
      else map_option (gx_move i PFinished) (gx_DropRef s))"
| "gx_pc_step kern tid iter g i (PSpawn x (y # ys)) s =
     Some ((gx_move i (PSpawn x ys) s)\<lparr>gx_refs := gx_refs s + 1, gx_acts := (gx_acts s)[i := PSpawn x ys] @ [PLoop [y]]\<rparr>)"
| "gx_pc_step kern tid iter g i (PSpawn x []) s = Some (gx_move i (PRun x) s)"
| "gx_pc_step kern tid iter g i (PRun k) s =
     map_option (\<lambda>(args, results, s1). (gx_move i (PDrop k args results) s1)\<lparr>gx_ran := gx_ran s1 @ [k]\<rparr>)
       (ProcessReadyKernel_call kern tid g k s)"
| "gx_pc_step kern tid iter g i (PDrop k (a # as) results) s =
     map_option (\<lambda>av. gx_move i (PDrop k as results) (s\<lparr>gx_av := av\<rparr>)) (av_DropRef a (gx_av s))"
| "gx_pc_step kern tid iter g i (PDrop k [] results) s = Some (gx_move i (PResult k 0 results []) s)"
| "gx_pc_step kern tid iter g i (PResult k n rs ready) s = step_result g i k n rs ready s"
| "gx_pc_step kern tid iter g i (PResultWait k n rs ready) s =
     (case rs of
        Some r # rest \<Rightarrow> map_option (gx_move i (PResult k (n + 1) rest ready)) (gx_AndThen r (CBResult k n r) s)
      | _ \<Rightarrow> None)"
| "gx_pc_step kern tid iter g i (PCall k n r) s =
     Option.bind (GetNextUsedBys g k n) (\<lambda>us. map_option (gx_move i (PDecr us [] KLoop)) (SetAsyncValuePtr (reg_of g k n) r s))"
| "gx_pc_step kern tid iter g i (PCallPseudo k n) s =
     map_option (\<lambda>us. gx_move i (PDecr us [] KLoop) s) (GetNextUsedBys g k n)"
| "gx_pc_step kern tid iter g i (PCollect (j # js)) s =
     map_option (\<lambda>(value, s1). (gx_move i (PCollect js) s1)\<lparr>gx_results := gx_results s1 @ [(j, value)]\<rparr>) (GetOrCreateAsyncValuePtr j s)"
| "gx_pc_step kern tid iter g i (PCollect []) s = map_option (gx_move i PFinished) (gx_DropRef s)"
| "gx_pc_step kern tid iter g i PFinished s = None"

definition gx_act where
  "gx_act kern tid iter g i s = (if i < length (gx_acts s) then gx_pc_step kern tid iter g i (gx_acts s ! i) s else None)"

subsection \<open>The start of a run\<close>

text \<open>GraphExecutor::Reset; KernelInfo(unsigned) stores at least one.\<close>

definition KernelInfo_new :: "int \<Rightarrow> int" where
  "KernelInfo_new numOperands = (if 0 \<le> numOperands then max 1 numOperands else numOperands)"

definition GraphExecutor_new :: "'f AsyncGraph \<Rightarrow> 'a av_sys \<Rightarrow> 'a GraphExecutor option" where
  "GraphExecutor_new g av =
     (if ag_mIsConstructed g
      then Some \<lparr>gx_av = av,
        gx_mAsyncValueInfos = map (\<lambda>v. \<lparr>avi_mUserCount = avi_mUserCount v, avi_mValue = None\<rparr>) (fi_mAsyncValueInfos (ag_mFunctionInfo g)),
        gx_mKernelInfos = map KernelInfo_new (fi_mKernelInfos (ag_mFunctionInfo g)),
        gx_refs = 1, gx_closures = [], gx_acts = [PPseudo 0 []], gx_ran = [], gx_results = []\<rparr>
      else None)"

fun init_args :: "nat list \<Rightarrow> av_ptr list \<Rightarrow> 'a GraphExecutor \<Rightarrow> 'a GraphExecutor option" where
  "init_args (i # is) (a # as) s =
     (if i < length (gx_mAsyncValueInfos s)
      then Option.bind (av_AddRef a (reg_users s i) (gx_av s)) (\<lambda>av. init_args is as (reg_set i a (s\<lparr>gx_av := av\<rparr>)))
      else None)"
| "init_args [] _ s = Some s"
| "init_args (i # is) [] s = None"

definition InitializeArgumentRegisters :: "'f AsyncGraph \<Rightarrow> av_ptr list \<Rightarrow> 'a GraphExecutor \<Rightarrow> 'a GraphExecutor option" where
  "InitializeArgumentRegisters g args s =
     Option.bind (start_node g) (\<lambda>st. init_args (node_outs g st) args s)"

definition GraphExecutor_Execute :: "'f AsyncGraph \<Rightarrow> av_ptr list \<Rightarrow> 'a av_sys \<Rightarrow> 'a GraphExecutor option" where
  "GraphExecutor_Execute g args av = Option.bind (GraphExecutor_new g av) (InitializeArgumentRegisters g args)"

end
