(* ===== verification/Graph_Run.thy ===== *)
theory Graph_Run
  imports Graph_Executor
begin

text \<open>
  Runs of GraphExecutor: all interleavings of its activations with each other and with the clients of
  the async values, and the invariant that holds in each of them.
\<close>

subsection \<open>Graphs that BuildGraph makes of well-formed nodes\<close>

abbreviation nnodes :: "'f AsyncGraph \<Rightarrow> nat" where
  "nnodes g \<equiv> length (ag_mAsyncNodes g)"

abbreviation nouts :: "'f AsyncGraph \<Rightarrow> nat \<Rightarrow> nat" where
  "nouts g k \<equiv> length (node_outs g k)"

abbreviation users :: "'f AsyncGraph \<Rightarrow> nat \<Rightarrow> nat \<Rightarrow> nat list" where
  "users g k n \<equiv> the (GetNextUsedBys g k n)"

text \<open>A token is a result of a node, named by the node and the result number.\<close>

definition valid_tok :: "'f AsyncGraph \<Rightarrow> nat \<times> nat \<Rightarrow> bool" where
  "valid_tok g t \<longleftrightarrow> fst t < nnodes g \<and> snd t < nouts g (fst t)"

definition graph_uses :: "'f AsyncGraph \<Rightarrow> nat \<Rightarrow> nat" where
  "graph_uses g j = avi_mUserCount (fi_mAsyncValueInfos (ag_mFunctionInfo g) ! j)"

definition gx_graph :: "((string \<rightharpoonup> nat) \<Rightarrow> string list) \<Rightarrow> 'f AsyncGraph \<Rightarrow> nat \<Rightarrow> bool" where
  "gx_graph iter g st \<longleftrightarrow>
     ag_mIsConstructed g \<and> start_node g = Some st \<and> st < nnodes g \<and> node_ins g st = [] \<and> node_outs g st \<noteq> [] \<and>
     (\<forall>k<nnodes g. k \<noteq> st \<longrightarrow> node_ins g k \<noteq> []) \<and>
     inj_on (\<lambda>t. reg_of g (fst t) (snd t)) {t. valid_tok g t} \<and>
     (\<forall>k<nnodes g. distinct (node_ins g k)) \<and>
     (\<forall>k<nnodes g. \<forall>j \<in> set (node_ins g k). \<exists>t. valid_tok g t \<and> reg_of g (fst t) (snd t) = j) \<and>
     (\<forall>t. valid_tok g t \<longrightarrow> (\<exists>us. GetNextUsedBys g (fst t) (snd t) = Some us \<and> distinct us \<and>
        set us = {k. k < nnodes g \<and> reg_of g (fst t) (snd t) \<in> set (node_ins g k)}) \<and>
        reg_of g (fst t) (snd t) < length (fi_mAsyncValueInfos (ag_mFunctionInfo g)) \<and>
        graph_uses g (reg_of g (fst t) (snd t)) = length (users g (fst t) (snd t))) \<and>
     length (fi_mKernelInfos (ag_mFunctionInfo g)) = nnodes g \<and>
     (\<forall>k<nnodes g. k \<noteq> st \<longrightarrow> fi_mKernelInfos (ag_mFunctionInfo g) ! k = int (length (node_ins g k))) \<and>
     (\<forall>n<nouts g st. users g st n \<noteq> []) \<and>
     distinct (map (async_id g) (iter (ag_mNameAndAsyncIdPair g))) \<and>
     set (map (async_id g) (iter (ag_mNameAndAsyncIdPair g))) = (\<lambda>t. reg_of g (fst t) (snd t)) ` {t. valid_tok g t}"

lemma gx_graphD:
  assumes "gx_graph iter g st"
  shows "ag_mIsConstructed g" "start_node g = Some st" "st < nnodes g" "node_ins g st = []" "node_outs g st \<noteq> []"
    "\<And>k. k < nnodes g \<Longrightarrow> k \<noteq> st \<Longrightarrow> node_ins g k \<noteq> []"
    "inj_on (\<lambda>t. reg_of g (fst t) (snd t)) {t. valid_tok g t}"
    "\<And>k. k < nnodes g \<Longrightarrow> distinct (node_ins g k)"
    "\<And>k j. k < nnodes g \<Longrightarrow> j \<in> set (node_ins g k) \<Longrightarrow> \<exists>t. valid_tok g t \<and> reg_of g (fst t) (snd t) = j"
    "\<And>t. valid_tok g t \<Longrightarrow> GetNextUsedBys g (fst t) (snd t) = Some (users g (fst t) (snd t))"
    "\<And>t. valid_tok g t \<Longrightarrow> distinct (users g (fst t) (snd t))"
    "\<And>t. valid_tok g t \<Longrightarrow> set (users g (fst t) (snd t)) = {k. k < nnodes g \<and> reg_of g (fst t) (snd t) \<in> set (node_ins g k)}"
    "\<And>t. valid_tok g t \<Longrightarrow> reg_of g (fst t) (snd t) < length (fi_mAsyncValueInfos (ag_mFunctionInfo g))"
    "\<And>t. valid_tok g t \<Longrightarrow> graph_uses g (reg_of g (fst t) (snd t)) = length (users g (fst t) (snd t))"
    "length (fi_mKernelInfos (ag_mFunctionInfo g)) = nnodes g"
    "\<And>k. k < nnodes g \<Longrightarrow> k \<noteq> st \<Longrightarrow> fi_mKernelInfos (ag_mFunctionInfo g) ! k = int (length (node_ins g k))"
    "\<And>n. n < nouts g st \<Longrightarrow> users g st n \<noteq> []"
    "distinct (map (async_id g) (iter (ag_mNameAndAsyncIdPair g)))"
    "\<And>j. j \<in> set (map (async_id g) (iter (ag_mNameAndAsyncIdPair g))) \<Longrightarrow> \<exists>t. valid_tok g t \<and> reg_of g (fst t) (snd t) = j"
    "\<And>t. valid_tok g t \<Longrightarrow> reg_of g (fst t) (snd t) \<in> set (map (async_id g) (iter (ag_mNameAndAsyncIdPair g)))"
proof -
  note G = assms [unfolded gx_graph_def]
  note c0 = G [THEN conjunct1]
  note c1 = G [THEN conjunct2, THEN conjunct1]
  note c2 = G [THEN conjunct2, THEN conjunct2, THEN conjunct1]
  note c3 = G [THEN conjunct2, THEN conjunct2, THEN conjunct2, THEN conjunct1]
  note c4 = G [THEN conjunct2, THEN conjunct2, THEN conjunct2, THEN conjunct2, THEN conjunct1]
  note c5 = G [THEN conjunct2, THEN conjunct2, THEN conjunct2, THEN conjunct2, THEN conjunct2, THEN conjunct1]
  note c6 = G [THEN conjunct2, THEN conjunct2, THEN conjunct2, THEN conjunct2, THEN conjunct2, THEN conjunct2, THEN conjunct1]
  note c7 = G [THEN conjunct2, THEN conjunct2, THEN conjunct2, THEN conjunct2, THEN conjunct2, THEN conjunct2, THEN conjunct2, THEN conjunct1]
  note c8 = G [THEN conjunct2, THEN conjunct2, THEN conjunct2, THEN conjunct2, THEN conjunct2, THEN conjunct2, THEN conjunct2, THEN conjunct2, THEN conjunct1]
  note c9 = G [THEN conjunct2, THEN conjunct2, THEN conjunct2, THEN conjunct2, THEN conjunct2, THEN conjunct2, THEN conjunct2, THEN conjunct2, THEN conjunct2, THEN conjunct1]
  note c10 = G [THEN conjunct2, THEN conjunct2, THEN conjunct2, THEN conjunct2, THEN conjunct2, THEN conjunct2, THEN conjunct2, THEN conjunct2, THEN conjunct2, THEN conjunct2, THEN conjunct1]
  note c11 = G [THEN conjunct2, THEN conjunct2, THEN conjunct2, THEN conjunct2, THEN conjunct2, THEN conjunct2, THEN conjunct2, THEN conjunct2, THEN conjunct2, THEN conjunct2, THEN conjunct2, THEN conjunct1]
  note c12 = G [THEN conjunct2, THEN conjunct2, THEN conjunct2, THEN conjunct2, THEN conjunct2, THEN conjunct2, THEN conjunct2, THEN conjunct2, THEN conjunct2, THEN conjunct2, THEN conjunct2, THEN conjunct2, THEN conjunct1]
  note c13 = G [THEN conjunct2, THEN conjunct2, THEN conjunct2, THEN conjunct2, THEN conjunct2, THEN conjunct2, THEN conjunct2, THEN conjunct2, THEN conjunct2, THEN conjunct2, THEN conjunct2, THEN conjunct2, THEN conjunct2, THEN conjunct1]
  note c14 = G [THEN conjunct2, THEN conjunct2, THEN conjunct2, THEN conjunct2, THEN conjunct2, THEN conjunct2, THEN conjunct2, THEN conjunct2, THEN conjunct2, THEN conjunct2, THEN conjunct2, THEN conjunct2, THEN conjunct2, THEN conjunct2]
  show "ag_mIsConstructed g" "start_node g = Some st" "st < nnodes g" "node_ins g st = []" "node_outs g st \<noteq> []"
    "inj_on (\<lambda>t. reg_of g (fst t) (snd t)) {t. valid_tok g t}" "length (fi_mKernelInfos (ag_mFunctionInfo g)) = nnodes g"
    "distinct (map (async_id g) (iter (ag_mNameAndAsyncIdPair g)))"
    by (rule c0 c1 c2 c3 c4 c6 c10 c13)+
  show "node_ins g k \<noteq> []" if "k < nnodes g" "k \<noteq> st" for k using c5 that by blast
  show "distinct (node_ins g k)" if "k < nnodes g" for k using c7 that by blast
  show "\<exists>t. valid_tok g t \<and> reg_of g (fst t) (snd t) = j" if "k < nnodes g" "j \<in> set (node_ins g k)" for k j using c8 that by blast
  show "fi_mKernelInfos (ag_mFunctionInfo g) ! k = int (length (node_ins g k))" if "k < nnodes g" "k \<noteq> st" for k using c11 that by blast
  show "users g st n \<noteq> []" if "n < nouts g st" for n using c12 that by blast
  show "\<exists>t. valid_tok g t \<and> reg_of g (fst t) (snd t) = j" if "j \<in> set (map (async_id g) (iter (ag_mNameAndAsyncIdPair g)))" for j
    using that unfolding c14 by blast
  show "reg_of g (fst t) (snd t) \<in> set (map (async_id g) (iter (ag_mNameAndAsyncIdPair g)))" if "valid_tok g t" for t
    using that unfolding c14 by blast
  fix t assume t: "valid_tok g t"
  obtain us where us: "GetNextUsedBys g (fst t) (snd t) = Some us" "distinct us"
      "set us = {k. k < nnodes g \<and> reg_of g (fst t) (snd t) \<in> set (node_ins g k)}"
    using c9 t by blast
  then show "GetNextUsedBys g (fst t) (snd t) = Some (users g (fst t) (snd t))" "distinct (users g (fst t) (snd t))"
    "set (users g (fst t) (snd t)) = {k. k < nnodes g \<and> reg_of g (fst t) (snd t) \<in> set (node_ins g k)}" by simp_all
  show "reg_of g (fst t) (snd t) < length (fi_mAsyncValueInfos (ag_mFunctionInfo g))"
    "graph_uses g (reg_of g (fst t) (snd t)) = length (users g (fst t) (snd t))" using c9 t by blast+
qed

lemma reg_of_inj:
  assumes "gx_graph iter g st" "valid_tok g t" "valid_tok g t'" "reg_of g (fst t) (snd t) = reg_of g (fst t') (snd t')"
  shows "t = t'"
  using inj_onD [OF gx_graphD(7) [OF assms(1)] assms(4)] assms(2,3) by simp

subsection \<open>Where the tokens, the ready kernels and the references are\<close>

definition toks_from :: "'f AsyncGraph \<Rightarrow> nat \<Rightarrow> nat \<Rightarrow> (nat \<times> nat) multiset" where
  "toks_from g k n = mset (map (Pair k) [n..<nouts g k])"

fun cont_tok :: "'f AsyncGraph \<Rightarrow> nat \<Rightarrow> gx_cont \<Rightarrow> (nat \<times> nat) multiset" where
  "cont_tok g st (KPseudo r) = toks_from g st r"
| "cont_tok g st (KResult k n rs) = toks_from g k n"
| "cont_tok g st KLoop = {#}"

text \<open>The results that an activation has still to deliver, the kernels it has found ready, the decrements it has still to do.\<close>

fun pc_tok :: "'f AsyncGraph \<Rightarrow> nat \<Rightarrow> gx_pc \<Rightarrow> (nat \<times> nat) multiset" where
  "pc_tok g st (PPseudo r ready) = toks_from g st r"
| "pc_tok g st (PPseudoWait r ready) = toks_from g st r"
| "pc_tok g st (PDecr us ready c) = cont_tok g st c"
| "pc_tok g st (PDrop k as rs) = toks_from g k 0"
| "pc_tok g st (PResult k n rs ready) = toks_from g k n"
| "pc_tok g st (PResultWait k n rs ready) = toks_from g k n"
| "pc_tok g st (PCall k n r) = {#(k, n)#}"
| "pc_tok g st (PCallPseudo k n) = {#(k, n)#}"
| "pc_tok g st _ = {#}"

fun pc_ready :: "gx_pc \<Rightarrow> nat multiset" where
  "pc_ready (PPseudo r ready) = mset ready"
| "pc_ready (PPseudoWait r ready) = mset ready"
| "pc_ready (PDecr us ready c) = mset ready"
| "pc_ready (PLoop ready) = mset ready"
| "pc_ready (PSpawn x ready) = mset (x # ready)"
| "pc_ready (PRun k) = {#k#}"
| "pc_ready (PResult k n rs ready) = mset ready"
| "pc_ready (PResultWait k n rs ready) = mset ready"
| "pc_ready _ = {#}"

fun pc_dec :: "gx_pc \<Rightarrow> nat multiset" where
  "pc_dec (PDecr us ready c) = mset us"
| "pc_dec _ = {#}"

text \<open>The references that an activation or a closure owns.\<close>

fun cont_own :: "av_ptr \<Rightarrow> gx_cont \<Rightarrow> nat" where
  "cont_own a (KResult k n rs) = count_list rs (Some a)"
| "cont_own a _ = 0"

fun pc_own :: "av_ptr \<Rightarrow> gx_pc \<Rightarrow> nat" where
  "pc_own a (PDecr us ready c) = cont_own a c"
| "pc_own a (PDrop k as rs) = count_list as a + count_list rs (Some a)"
| "pc_own a (PResult k n rs ready) = count_list rs (Some a)"
| "pc_own a (PResultWait k n rs ready) = count_list rs (Some a)"
| "pc_own a (PCall k n r) = of_bool (r = a)"
| "pc_own a _ = 0"

fun closure_tok :: "closure \<Rightarrow> nat \<times> nat" where
  "closure_tok (CBResult k n r) = (k, n)"
| "closure_tok (CBPseudo k n) = (k, n)"

fun closure_own :: "av_ptr \<Rightarrow> closure \<Rightarrow> nat" where
  "closure_own a (CBResult k n r) = of_bool (r = a)"
| "closure_own a (CBPseudo k n) = 0"

definition total :: "(gx_pc \<Rightarrow> 'b::comm_monoid_add) \<Rightarrow> gx_pc list \<Rightarrow> 'b" where
  "total f ps = sum_list (map f ps)"

lemma total_move:
  "i < length ps \<Longrightarrow> total f (ps[i := q] @ new) + f (ps ! i) = total f ps + f q + total f new"
  using sum_list_map_update [of i ps f q] by (simp add: total_def add_ac)

text \<open>The closures that have not been called yet.\<close>

definition open_closures :: "'a GraphExecutor \<Rightarrow> (nat \<times> closure) list" where
  "open_closures s = filter (\<lambda>p. fst p \<notin> set (as_log (gx_av s))) (gx_closures s)"

definition gx_waiting :: "'f AsyncGraph \<Rightarrow> nat \<Rightarrow> 'a GraphExecutor \<Rightarrow> nat multiset" where
  "gx_waiting g st s = mset (filter (\<lambda>k. k \<noteq> st \<and> 0 < gx_mKernelInfos s ! k) [0..<nnodes g])"

definition gx_ready :: "'a GraphExecutor \<Rightarrow> nat multiset" where
  "gx_ready s = total pc_ready (gx_acts s)"

definition kernel_toks :: "'f AsyncGraph \<Rightarrow> nat multiset \<Rightarrow> (nat \<times> nat) multiset" where
  "kernel_toks g K = (\<Sum>k\<in>#K. toks_from g k 0)"

definition gx_toks :: "'f AsyncGraph \<Rightarrow> nat \<Rightarrow> 'a GraphExecutor \<Rightarrow> (nat \<times> nat) multiset" where
  "gx_toks g st s = kernel_toks g (gx_waiting g st s + gx_ready s) + total (pc_tok g st) (gx_acts s) +
     mset (map (closure_tok \<circ> snd) (open_closures s))"

definition tok_users :: "'f AsyncGraph \<Rightarrow> (nat \<times> nat) multiset \<Rightarrow> nat multiset" where
  "tok_users g T = (\<Sum>t\<in>#T. mset (users g (fst t) (snd t)))"

definition gx_owed :: "'f AsyncGraph \<Rightarrow> nat \<Rightarrow> 'a GraphExecutor \<Rightarrow> nat multiset" where
  "gx_owed g st s = tok_users g (gx_toks g st s) + total pc_dec (gx_acts s)"

text \<open>The references that the executor owns: one for every argument of a kernel that has not run, one for
  every result register that was not handed out or whose value is still to come, and those of the
  activations and closures.\<close>

definition args_own :: "'f AsyncGraph \<Rightarrow> 'a GraphExecutor \<Rightarrow> av_ptr \<Rightarrow> nat" where
  "args_own g s a = (\<Sum>k<nnodes g. if k \<in> set (gx_ran s) then 0 else count_list (map (reg_value s) (node_ins g k)) (Some a))"

definition res_toks :: "'f AsyncGraph \<Rightarrow> (nat \<times> nat) set" where
  "res_toks g = {t. valid_tok g t \<and> users g (fst t) (snd t) = []}"

abbreviation reg_at :: "'f AsyncGraph \<Rightarrow> nat \<times> nat \<Rightarrow> nat" where
  "reg_at g t \<equiv> reg_of g (fst t) (snd t)"

definition res_own :: "'f AsyncGraph \<Rightarrow> nat \<Rightarrow> 'a GraphExecutor \<Rightarrow> av_ptr \<Rightarrow> nat" where
  "res_own g st s a = (\<Sum>t\<in>res_toks g. of_bool (reg_value s (reg_at g t) = Some a \<and>
     (reg_at g t \<notin> fst ` set (gx_results s) \<or> t \<in># gx_toks g st s)))"

definition gx_own :: "'f AsyncGraph \<Rightarrow> nat \<Rightarrow> 'a GraphExecutor \<Rightarrow> av_ptr \<Rightarrow> nat" where
  "gx_own g st s a = args_own g s a + res_own g st s a + total (pc_own a) (gx_acts s) +
     sum_list (map (closure_own a \<circ> snd) (open_closures s))"

subsection \<open>The invariant\<close>

text \<open>Scheduling: the counter of a kernel is the number of decrements still to come; a kernel waits, is
  ready in one place, or has run, exactly once; every result is undelivered in at most one place.\<close>

definition sched_ok :: "'f AsyncGraph \<Rightarrow> nat \<Rightarrow> 'a GraphExecutor \<Rightarrow> bool" where
  "sched_ok g st s \<longleftrightarrow> length (gx_mKernelInfos s) = nnodes g \<and>
     (\<forall>k<nnodes g. k \<noteq> st \<longrightarrow> gx_mKernelInfos s ! k = int (count (gx_owed g st s) k)) \<and>
     (\<forall>k. count (gx_waiting g st s) k + count (gx_ready s) k + count_list (gx_ran s) k = of_bool (k < nnodes g \<and> k \<noteq> st)) \<and>
     (\<forall>t. count (gx_toks g st s) t \<le> of_bool (valid_tok g t))"

text \<open>A pending result: an indirect value that was handed out before the result was there.\<close>

definition pending_reg :: "'f AsyncGraph \<Rightarrow> 'a GraphExecutor \<Rightarrow> nat \<times> nat \<Rightarrow> bool" where
  "pending_reg g s t \<longleftrightarrow> users g (fst t) (snd t) = [] \<and> (\<exists>a. reg_value s (reg_at g t) = Some a \<and>
     IsUnresolvedIndirect (as_heap (gx_av s)) a \<and> filter_mset (forwards a) (pool (gx_av s)) = {#} \<and> reg_at g t \<in> fst ` set (gx_results s))"

definition reg_ok :: "'f AsyncGraph \<Rightarrow> nat \<Rightarrow> 'a GraphExecutor \<Rightarrow> nat \<times> nat \<Rightarrow> bool" where
  "reg_ok g st s t \<longleftrightarrow>
     (if t \<in># gx_toks g st s
      then (if fst t = st then (\<exists>a. reg_value s (reg_at g t) = Some a \<and> a < as_next (gx_av s))
            else reg_value s (reg_at g t) = None \<or> pending_reg g s t)
      else (\<exists>a. reg_value s (reg_at g t) = Some a \<and> a < as_next (gx_av s) \<and>
              (users g (fst t) (snd t) \<noteq> [] \<longrightarrow> \<not> IsUnavailable (as_heap (gx_av s)) a)))"

text \<open>No two results that are still to come share an indirect value.\<close>

definition pend_inj :: "'f AsyncGraph \<Rightarrow> nat \<Rightarrow> 'a GraphExecutor \<Rightarrow> bool" where
  "pend_inj g st s \<longleftrightarrow> inj_on (\<lambda>t. reg_value s (reg_at g t)) {t. t \<in># gx_toks g st s \<and> fst t \<noteq> st \<and> reg_value s (reg_at g t) \<noteq> None}"

definition regs_ok :: "'f AsyncGraph \<Rightarrow> nat \<Rightarrow> 'a GraphExecutor \<Rightarrow> bool" where
  "regs_ok g st s \<longleftrightarrow> length (gx_mAsyncValueInfos s) = length (fi_mAsyncValueInfos (ag_mFunctionInfo g)) \<and>
     (\<forall>j<length (fi_mAsyncValueInfos (ag_mFunctionInfo g)). reg_users s j = graph_uses g j) \<and> (\<forall>t. valid_tok g t \<longrightarrow> reg_ok g st s t) \<and>
     pend_inj g st s \<and>
     (\<exists>a. reg_value s (reg_of g st 0) = Some a \<and> a < as_next (gx_av s) \<and> \<not> IsUnavailable (as_heap (gx_av s)) a)"

fun cont_ok :: "'f AsyncGraph \<Rightarrow> nat \<Rightarrow> gx_cont \<Rightarrow> bool" where
  "cont_ok g st (KPseudo r) = (0 < r \<and> r \<le> nouts g st)"
| "cont_ok g st (KResult k n rs) = (k < nnodes g \<and> k \<noteq> st \<and> length rs + n = nouts g k \<and> None \<notin> set rs)"
| "cont_ok g st KLoop = True"

fun pc_ok :: "'f AsyncGraph \<Rightarrow> nat \<Rightarrow> 'a GraphExecutor \<Rightarrow> gx_pc \<Rightarrow> bool" where
  "pc_ok g st s (PPseudo r ready) = (r \<le> nouts g st)"
| "pc_ok g st s (PPseudoWait r ready) = (0 < r \<and> r < nouts g st)"
| "pc_ok g st s (PDecr us ready c) = (cont_ok g st c \<and> (\<forall>u \<in> set us. u < nnodes g \<and> u \<noteq> st))"
| "pc_ok g st s (PDrop k as rs) = (k < nnodes g \<and> k \<noteq> st \<and> length rs = nouts g k \<and> None \<notin> set rs \<and>
     (\<forall>a \<in> set as. a < as_next (gx_av s) \<and> \<not> IsUnavailable (as_heap (gx_av s)) a))"
| "pc_ok g st s (PResult k n rs ready) = (k < nnodes g \<and> k \<noteq> st \<and> length rs + n = nouts g k \<and> None \<notin> set rs)"
| "pc_ok g st s (PResultWait k n rs ready) = (k < nnodes g \<and> k \<noteq> st \<and> length rs + n = nouts g k \<and> None \<notin> set rs \<and> rs \<noteq> [] \<and> users g k n \<noteq> [])"
| "pc_ok g st s (PCall k n r) = (k < nnodes g \<and> k \<noteq> st \<and> n < nouts g k \<and> users g k n \<noteq> [] \<and>
     r < as_next (gx_av s) \<and> \<not> IsUnavailable (as_heap (gx_av s)) r)"
| "pc_ok g st s (PCallPseudo k n) = (k = st \<and> n < nouts g st \<and>
     (\<exists>a. reg_value s (reg_of g k n) = Some a \<and> a < as_next (gx_av s) \<and> \<not> IsUnavailable (as_heap (gx_av s)) a))"
| "pc_ok g st s _ = True"

fun closure_ok :: "'f AsyncGraph \<Rightarrow> nat \<Rightarrow> 'a GraphExecutor \<Rightarrow> nat \<times> closure \<Rightarrow> bool" where
  "closure_ok g st s (w, CBResult k n r) = ((w, [r]) \<in> set (as_reg (gx_av s)) \<and> k < nnodes g \<and> k \<noteq> st \<and> n < nouts g k \<and> users g k n \<noteq> [])"
| "closure_ok g st s (w, CBPseudo k n) = (k = st \<and> n < nouts g st \<and>
     (\<exists>a. reg_value s (reg_of g k n) = Some a \<and> (w, [a]) \<in> set (as_reg (gx_av s))))"

text \<open>Only activation 0 hands out results, each register once.\<close>

fun collect_left :: "gx_pc \<Rightarrow> nat list" where
  "collect_left (PCollect js) = js"
| "collect_left _ = []"

fun collecting :: "gx_pc \<Rightarrow> bool" where
  "collecting (PCollect js) = True"
| "collecting PFinished = True"
| "collecting _ = False"

definition results_ok :: "'f AsyncGraph \<Rightarrow> nat \<Rightarrow> 'a GraphExecutor \<Rightarrow> bool" where
  "results_ok g st s \<longleftrightarrow> gx_acts s \<noteq> [] \<and>
     (\<forall>i<length (gx_acts s). 0 < i \<longrightarrow> collect_left (gx_acts s ! i) = [] \<and> (\<forall>js. gx_acts s ! i \<noteq> PCollect js)) \<and>
     (\<not> collecting (gx_acts s ! 0) \<longrightarrow> gx_results s = []) \<and>
     distinct (collect_left (gx_acts s ! 0) @ map fst (gx_results s)) \<and>
     (\<forall>j \<in> set (collect_left (gx_acts s ! 0)). \<exists>t \<in> res_toks g. reg_at g t = j) \<and>
     (collecting (gx_acts s ! 0) \<longrightarrow> reg_at g ` res_toks g \<subseteq> set (collect_left (gx_acts s ! 0)) \<union> fst ` set (gx_results s)) \<and>
     (\<forall>(j, a) \<in> set (gx_results s). (\<exists>t \<in> res_toks g. reg_at g t = j) \<and> reg_value s j = Some a)"

definition gx_inv :: "'f AsyncGraph \<Rightarrow> nat \<Rightarrow> 'a GraphExecutor \<Rightarrow> bool" where
  "gx_inv g st s \<longleftrightarrow> av_inv (gx_av s) \<and> sched_ok g st s \<and> regs_ok g st s \<and> (\<forall>a. gx_own g st s a \<le> as_ext (gx_av s) a) \<and>
     (\<forall>p \<in> set (gx_acts s). pc_ok g st s p) \<and> distinct (map fst (gx_closures s)) \<and> (\<forall>p \<in> set (gx_closures s). closure_ok g st s p) \<and>
     gx_refs s = length (filter (\<lambda>p. p \<noteq> PFinished) (gx_acts s)) + length (open_closures s) \<and> results_ok g st s"

lemma gx_invD:
  assumes "gx_inv g st s"
  shows "av_inv (gx_av s)" "sched_ok g st s" "regs_ok g st s" "\<And>a. gx_own g st s a \<le> as_ext (gx_av s) a"
    "\<And>p. p \<in> set (gx_acts s) \<Longrightarrow> pc_ok g st s p" "distinct (map fst (gx_closures s))"
    "\<And>p. p \<in> set (gx_closures s) \<Longrightarrow> closure_ok g st s p"
    "gx_refs s = length (filter (\<lambda>p. p \<noteq> PFinished) (gx_acts s)) + length (open_closures s)" "results_ok g st s"
  using assms unfolding gx_inv_def by blast+

lemma sched_okD:
  assumes "sched_ok g st s"
  shows "length (gx_mKernelInfos s) = nnodes g"
    "\<And>k. k < nnodes g \<Longrightarrow> k \<noteq> st \<Longrightarrow> gx_mKernelInfos s ! k = int (count (gx_owed g st s) k)"
    "\<And>k. count (gx_waiting g st s) k + count (gx_ready s) k + count_list (gx_ran s) k = of_bool (k < nnodes g \<and> k \<noteq> st)"
    "\<And>t. count (gx_toks g st s) t \<le> of_bool (valid_tok g t)"
  using assms unfolding sched_ok_def by blast+

lemma regs_okD:
  assumes "regs_ok g st s"
  shows "length (gx_mAsyncValueInfos s) = length (fi_mAsyncValueInfos (ag_mFunctionInfo g))"
    "\<And>j. j < length (fi_mAsyncValueInfos (ag_mFunctionInfo g)) \<Longrightarrow> reg_users s j = graph_uses g j" "\<And>t. valid_tok g t \<Longrightarrow> reg_ok g st s t"
    "\<exists>a. reg_value s (reg_of g st 0) = Some a \<and> a < as_next (gx_av s) \<and> \<not> IsUnavailable (as_heap (gx_av s)) a"
    "pend_inj g st s"
  using assms unfolding regs_ok_def by blast+

lemma pend_inj_mono:
  assumes "pend_inj g st s" "set_mset (gx_toks g st s') \<subseteq> set_mset (gx_toks g st s)"
    "\<And>t. t \<in># gx_toks g st s' \<Longrightarrow> fst t \<noteq> st \<Longrightarrow> reg_value s' (reg_at g t) = reg_value s (reg_at g t)"
  shows "pend_inj g st s'"
  using assms unfolding pend_inj_def inj_on_def by (metis (mono_tags, lifting) mem_Collect_eq subsetD)

lemma kernel_toks_simps [simp]:
  "kernel_toks g {#} = {#}" "kernel_toks g (add_mset k K) = toks_from g k 0 + kernel_toks g K"
  "kernel_toks g (K + L) = kernel_toks g K + kernel_toks g L"
  by (simp_all add: kernel_toks_def)

lemma tok_users_simps [simp]:
  "tok_users g {#} = {#}" "tok_users g (add_mset t T) = mset (users g (fst t) (snd t)) + tok_users g T"
  "tok_users g (T + U) = tok_users g T + tok_users g U"
  by (simp_all add: tok_users_def)

lemma finite_res_toks [simp]: "finite (res_toks g)"
proof -
  have "res_toks g \<subseteq> (\<Union>k<nnodes g. Pair k ` {..<nouts g k})" unfolding res_toks_def valid_tok_def by (auto simp: image_iff)
  then show ?thesis by (rule finite_subset) simp
qed

lemma toks_from_simps:
  "nouts g k \<le> n \<Longrightarrow> toks_from g k n = {#}" "n < nouts g k \<Longrightarrow> toks_from g k n = add_mset (k, n) (toks_from g k (Suc n))"
  by (simp_all add: toks_from_def upt_conv_Cons)

text \<open>The tokens of an activation, with those of the kernels it has found ready.\<close>

definition pc_toks :: "'f AsyncGraph \<Rightarrow> nat \<Rightarrow> gx_pc \<Rightarrow> (nat \<times> nat) multiset" where
  "pc_toks g st p = pc_tok g st p + kernel_toks g (pc_ready p)"

lemma total_simps [simp]: "total f [] = 0" "total f (p # ps) = f p + total f ps" "total f (ps @ qs) = total f ps + total f qs"
  by (simp_all add: total_def)

lemma total_pc_toks: "total (pc_toks g st) ps = total (pc_tok g st) ps + kernel_toks g (total pc_ready ps)"
  by (induction ps) (simp_all add: pc_toks_def)

lemma gx_toks_alt:
  "gx_toks g st s = kernel_toks g (gx_waiting g st s) + total (pc_toks g st) (gx_acts s) + mset (map (closure_tok \<circ> snd) (open_closures s))"
  by (simp add: gx_toks_def gx_ready_def total_pc_toks)

lemma tok_once:
  assumes "sched_ok g st s" "gx_toks g st s = add_mset t T"
  shows "t \<notin># T" "valid_tok g t"
proof -
  have "Suc (count T t) \<le> of_bool (valid_tok g t)" using sched_okD(4) [OF assms(1), of t] assms(2) by simp
  then have "valid_tok g t \<and> count T t = 0" by (cases "valid_tok g t") auto
  then show "t \<notin># T" "valid_tok g t" by (auto simp: not_in_iff)
qed

text \<open>A step that changes only activations and the references of the executor. \<open>X\<close> are the tokens it delivers.\<close>

lemma sched_step:
  assumes S: "sched_ok g st s" and k: "gx_mKernelInfos s' = gx_mKernelInfos s"
    and T: "gx_toks g st s' + X = gx_toks g st s" and R: "\<And>k. count (gx_ready s') k + count_list (gx_ran s') k = count (gx_ready s) k + count_list (gx_ran s) k"
    and D: "total pc_dec (gx_acts s') = total pc_dec (gx_acts s) + tok_users g X"
  shows "sched_ok g st s'"
proof -
  have w: "gx_waiting g st s' = gx_waiting g st s" by (simp add: gx_waiting_def k)
  have "gx_owed g st s' = gx_owed g st s" unfolding gx_owed_def D T [symmetric] by (simp add: ac_simps)
  moreover have "count (gx_toks g st s') t \<le> of_bool (valid_tok g t)" for t
    using sched_okD(4) [OF S, of t] T [symmetric] by simp
  moreover have "count (gx_waiting g st s') k + count (gx_ready s') k + count_list (gx_ran s') k = of_bool (k < nnodes g \<and> k \<noteq> st)" for k
    using sched_okD(3) [OF S, of k] R [of k] w by simp
  ultimately show ?thesis using sched_okD(1,2) [OF S] k unfolding sched_ok_def by simp
qed

lemma res_own_mono:
  assumes "\<And>j. reg_value s' j = reg_value s j" "fst ` set (gx_results s) \<subseteq> fst ` set (gx_results s')"
    "set_mset (gx_toks g st s') \<subseteq> set_mset (gx_toks g st s)"
  shows "res_own g st s' a \<le> res_own g st s a"
  unfolding res_own_def by (rule sum_mono) (use assms in auto)

lemma reg_ok_cong:
  assumes "reg_ok g st s t" "reg_value s' (reg_at g t) = reg_value s (reg_at g t)" "t \<in># gx_toks g st s' \<longleftrightarrow> t \<in># gx_toks g st s"
    "as_next (gx_av s) \<le> as_next (gx_av s')" "keeps_available (gx_av s) (gx_av s')"
    "pending_reg g s t \<Longrightarrow> t \<in># gx_toks g st s \<Longrightarrow> pending_reg g s' t"
  shows "reg_ok g st s' t"
proof (cases "t \<in># gx_toks g st s")
  case True
  then show ?thesis using assms(1-4,6) by (auto simp: reg_ok_def split: if_splits)
next
  case False
  then obtain a where a: "reg_value s (reg_at g t) = Some a" "a < as_next (gx_av s)"
      "users g (fst t) (snd t) \<noteq> [] \<Longrightarrow> \<not> IsUnavailable (as_heap (gx_av s)) a"
    using assms(1) by (auto simp: reg_ok_def)
  then have "users g (fst t) (snd t) \<noteq> [] \<Longrightarrow> \<not> IsUnavailable (as_heap (gx_av s')) a"
    using keeps_availableD [OF assms(5)] by blast
  then show ?thesis using False a(1,2) assms(2-4) by (simp add: reg_ok_def)
qed

lemma acts_step:
  fixes s :: "'a GraphExecutor"
  assumes G: "gx_graph iter g st" and I: "gx_inv g st s" and i: "i < length (gx_acts s)" "gx_acts s ! i = p"
    and s': "s' = s\<lparr>gx_acts := (gx_acts s)[i := q] @ new, gx_refs := r\<rparr>"
    and tok: "pc_toks g st p = pc_toks g st q + total (pc_toks g st) new + X"
    and rdy: "pc_ready p = pc_ready q + total pc_ready new"
    and dec: "pc_dec q + total pc_dec new = pc_dec p + tok_users g X"
    and own: "\<And>a. pc_own a q + total (pc_own a) new = pc_own a p"
    and X: "\<And>t. t \<in># X \<Longrightarrow> \<exists>a. reg_value s (reg_at g t) = Some a \<and> a < as_next (gx_av s) \<and> \<not> IsUnavailable (as_heap (gx_av s)) a"
    and ok: "pc_ok g st s q" "\<And>p. p \<in> set new \<Longrightarrow> pc_ok g st s p"
    and refs: "r + of_bool (p \<noteq> PFinished) = gx_refs s + of_bool (q \<noteq> PFinished) + length (filter (\<lambda>p. p \<noteq> PFinished) new)"
    and res: "results_ok g st s'"
  shows "gx_inv g st s'"
proof -
  note J = gx_invD [OF I]
  have mv: "total f (gx_acts s') + f p = total f (gx_acts s) + f q + total f new" for f :: "gx_pc \<Rightarrow> 'c::comm_monoid_add"
    using total_move [OF i(1), of f q new] i(2) s' by simp
  have sel: "gx_av s' = gx_av s" "gx_mKernelInfos s' = gx_mKernelInfos s" "gx_ran s' = gx_ran s" "gx_results s' = gx_results s"
    "gx_closures s' = gx_closures s" "gx_mAsyncValueInfos s' = gx_mAsyncValueInfos s"
    by (simp_all add: s')
  have cl: "open_closures s' = open_closures s" by (simp add: open_closures_def sel)
  have rv: "reg_value s' j = reg_value s j" "reg_users s' j = reg_users s j" for j by (simp_all add: reg_value_def reg_users_def sel)
  have rvf: "reg_value s' = reg_value s" using rv(1) by blast
  have w: "gx_waiting g st s' = gx_waiting g st s" by (simp add: gx_waiting_def sel)
  have T: "gx_toks g st s' + X = gx_toks g st s"
    using mv [of "pc_toks g st"] unfolding gx_toks_alt cl w tok by (simp add: union_assoc)
  have R: "gx_ready s' = gx_ready s" using mv [of pc_ready] rdy by (simp add: gx_ready_def add.commute add.left_commute)
  have D: "total pc_dec (gx_acts s') = total pc_dec (gx_acts s) + tok_users g X"
    using mv [of pc_dec] dec by (metis (no_types, lifting) add.assoc add.commute add_left_imp_eq)
  have S: "sched_ok g st s'" by (rule sched_step [OF J(2) sel(2) T _ D]) (simp add: R sel)
  have "reg_ok g st s' t" if t: "valid_tok g t" for t
  proof (cases "t \<in># X")
    case True
    then obtain Y where Y: "X = add_mset t Y" by (metis multi_member_split)
    have "t \<notin># gx_toks g st s' + Y" using tok_once(1) [OF J(2)] T Y by (metis union_mset_add_mset_right)
    then show ?thesis using X [OF True] by (auto simp: reg_ok_def rv sel)
  next
    case False
    then have "t \<in># gx_toks g st s' \<longleftrightarrow> t \<in># gx_toks g st s" using T by (metis union_iff)
    then show ?thesis
      by (intro reg_ok_cong [OF regs_okD(3) [OF J(3) t]]) (simp_all add: rv sel keeps_available_def pending_reg_def)
  qed
  moreover have sub: "set_mset (gx_toks g st s') \<subseteq> set_mset (gx_toks g st s)" using T by (metis set_mset_union Un_upper1)
  moreover have "pend_inj g st s'" by (rule pend_inj_mono [OF regs_okD(5) [OF J(3)] sub]) (simp add: rv)
  ultimately have regs: "regs_ok g st s'" using J(3) unfolding regs_ok_def rv sel by blast
  have "res_own g st s' a \<le> res_own g st s a" for a using sub by (intro res_own_mono) (simp_all add: rv sel)
  moreover have "total (pc_own a) (gx_acts s') = total (pc_own a) (gx_acts s)" for a using mv [of "pc_own a"] own [of a] by simp
  ultimately have "gx_own g st s' a \<le> gx_own g st s a" for a
    unfolding gx_own_def args_own_def rvf cl sel by simp
  then have O: "gx_own g st s' a \<le> as_ext (gx_av s') a" for a using J(4) [of a] sel by (metis le_trans)
  have pcs: "pc_ok g st s' x" if "pc_ok g st s x" for x using that by (cases x) (simp_all add: rv sel)
  have "pc_ok g st s' x" if "x \<in> set (gx_acts s')" for x
    using that J(5) ok pcs set_update_subset_insert [of "gx_acts s" i q] by (auto simp: s')
  moreover have "closure_ok g st s' c" if "c \<in> set (gx_closures s')" for c
    using J(7) [of c] that by (cases c; cases "snd c") (simp_all add: rv sel)
  moreover have "gx_refs s' = length (filter (\<lambda>p. p \<noteq> PFinished) (gx_acts s')) + length (open_closures s')"
    using J(8) refs length_filter_update [OF i(1), of "\<lambda>p. p \<noteq> PFinished" q] i(2) cl by (simp add: s')
  ultimately show ?thesis using J(1,6) S regs O res unfolding gx_inv_def by (simp add: sel)
qed

fun plain_pc :: "gx_pc \<Rightarrow> bool" where
  "plain_pc (PCollect js) = False"
| "plain_pc PFinished = False"
| "plain_pc p = True"

lemma plain_pcD: "plain_pc p \<Longrightarrow> collect_left p = [] \<and> \<not> collecting p \<and> (\<forall>js. p \<noteq> PCollect js) \<and> p \<noteq> PFinished"
  by (cases p) auto

text \<open>Steps that neither begin nor end the handing out of results.\<close>

lemma results_move:
  assumes R: "results_ok g st s" and i: "i < length (gx_acts s)"
    and acts: "gx_acts s' = (gx_acts s)[i := q] @ new" and pl: "plain_pc (gx_acts s ! i)" "plain_pc q \<or> (i \<noteq> 0 \<and> q = PFinished)"
    and new: "\<And>p. p \<in> set new \<Longrightarrow> plain_pc p"
    and res: "gx_results s' = gx_results s" and rv: "\<And>j a. (j, a) \<in> set (gx_results s) \<Longrightarrow> reg_value s j = Some a \<Longrightarrow> reg_value s' j = Some a"
  shows "results_ok g st s'"
proof -
  note R' = R [unfolded results_ok_def]
  have ne: "gx_acts s \<noteq> []" using i by auto
  have z: "gx_acts s' ! 0 = (if i = 0 then q else gx_acts s ! 0)" using ne i acts by (auto simp: nth_append)
  have c: "collect_left (gx_acts s' ! 0) = collect_left (gx_acts s ! 0)" "collecting (gx_acts s' ! 0) = collecting (gx_acts s ! 0)"
    using plain_pcD [OF pl(1)] pl(2) plain_pcD [of q] z by auto
  have "collect_left (gx_acts s' ! j) = [] \<and> (\<forall>js. gx_acts s' ! j \<noteq> PCollect js)" if j: "j < length (gx_acts s')" "0 < j" for j
  proof (cases "j < length (gx_acts s)")
    case True
    then have "gx_acts s' ! j = (if j = i then q else gx_acts s ! j)" using i acts by (simp add: nth_append)
    moreover have "collect_left (gx_acts s ! j) = [] \<and> (\<forall>js. gx_acts s ! j \<noteq> PCollect js)" using R' True j(2) by blast
    ultimately show ?thesis using pl(2) plain_pcD [of q] by auto
  next
    case False
    then have "gx_acts s' ! j \<in> set new" using j(1) acts by (simp add: nth_append)
    then show ?thesis using plain_pcD new by blast
  qed
  then show ?thesis using R' c rv acts ne unfolding results_ok_def res by auto
qed

lemma ready_pcs [simp]: "pc_toks g st (gx_continue c ready) = pc_toks g st (PDecr [] ready c)"
  "pc_ready (gx_continue c ready) = mset ready" "pc_dec (gx_continue c ready) = {#}" "pc_own a (gx_continue c ready) = cont_own a c"
  "plain_pc (gx_continue c ready)" "cont_ok g st c \<Longrightarrow> pc_ok g st s (gx_continue c ready)"
  by (cases c; simp add: gx_continue_def pc_toks_def)+

lemma gx_move_eq: "gx_move i q s = s\<lparr>gx_acts := (gx_acts s)[i := q] @ [], gx_refs := gx_refs s\<rparr>"
  by (simp add: gx_move_def)

lemma control_step:
  assumes G: "gx_graph iter g st" and I: "gx_inv g st s" and i: "i < length (gx_acts s)"
    and pl: "plain_pc (gx_acts s ! i)" "plain_pc q"
    and eq: "pc_toks g st (gx_acts s ! i) = pc_toks g st q + X" "pc_ready q = pc_ready (gx_acts s ! i)"
      "pc_dec q = pc_dec (gx_acts s ! i) + tok_users g X" "\<And>a. pc_own a q = pc_own a (gx_acts s ! i)" "pc_ok g st s q"
    and X: "\<And>t. t \<in># X \<Longrightarrow> \<exists>a. reg_value s (reg_at g t) = Some a \<and> a < as_next (gx_av s) \<and> \<not> IsUnavailable (as_heap (gx_av s)) a"
  shows "gx_inv g st (gx_move i q s)"
proof (rule acts_step [OF G I i refl gx_move_eq, where X = X])
  show "results_ok g st (gx_move i q s)"
    by (rule results_move [OF gx_invD(9) [OF I] i, where new = "[]" and q = q])
      (use pl in \<open>simp_all add: gx_move_def reg_value_def\<close>)
qed (use eq X plain_pcD [OF pl(1)] plain_pcD [OF pl(2)] in simp_all)

subsection \<open>Steps of one activation\<close>

lemma valid_start: "gx_graph iter g st \<Longrightarrow> n < nouts g st \<Longrightarrow> valid_tok g (st, n)"
  using gx_graphD(3) by (auto simp: valid_tok_def)

lemma start_users: "gx_graph iter g st \<Longrightarrow> n < nouts g st \<Longrightarrow> GetNextUsedBys g st n = Some (users g st n)"
  using gx_graphD(10) [OF _ valid_start] by fastforce

lemma users_ok:
  assumes G: "gx_graph iter g st" and t: "valid_tok g (k, n)" and u: "u \<in> set (users g k n)"
  shows "u < nnodes g \<and> u \<noteq> st \<and> reg_of g k n \<in> set (node_ins g u)"
proof -
  have "u \<in> {k'. k' < nnodes g \<and> reg_of g k n \<in> set (node_ins g k')}" using gx_graphD(12) [OF G t] u by simp
  then show ?thesis using gx_graphD(4) [OF G] by (cases "u = st") simp_all
qed

lemma start_users_ok: "gx_graph iter g st \<Longrightarrow> n < nouts g st \<Longrightarrow> u \<in> set (users g st n) \<Longrightarrow> u < nnodes g \<and> u \<noteq> st"
  using users_ok valid_start by blast

lemma tok_below:
  assumes "regs_ok g st s" "valid_tok g t" "reg_value s (reg_at g t) = Some a" "fst t = st \<or> t \<notin># gx_toks g st s"
  shows "a < as_next (gx_av s)"
  using regs_okD(3) [OF assms(1,2)] assms(3,4) by (auto simp: reg_ok_def split: if_splits)

lemma inv_pseudo:
  assumes G: "gx_graph iter g st" and I: "gx_inv g st s" and i: "i < length (gx_acts s)" "gx_acts s ! i = PPseudo r ready"
    and q: "step_pseudo g st r ready s = Some q"
  shows "gx_inv g st (gx_move i q s)"
proof -
  note J = gx_invD [OF I]
  have r: "r \<le> nouts g st" using J(5) [OF nth_mem [OF i(1)]] i(2) by simp
  have n0: "0 < nouts g st" using gx_graphD(5) [OF G] by simp
  consider (loop) "nouts g st \<le> r" "q = PLoop ready" | (first) "r = 0" "q = PDecr (users g st 0) ready (KPseudo 1)"
    | (avail) a where "0 < r" "r < nouts g st" "reg_value s (reg_of g st r) = Some a" "IsAvailable (as_heap (gx_av s)) a"
        "q = PDecr (users g st r) ready (KPseudo (r + 1))"
    | (wait) "0 < r" "r < nouts g st" "q = PPseudoWait r ready"
  proof -
    have "reg_users s (reg_of g st r) \<noteq> 0" if "r < nouts g st"
      using regs_okD(2) [OF J(3)] gx_graphD(13,14) [OF G valid_start [OF G that]] gx_graphD(17) [OF G that] by simp
    moreover have "GetNextUsedBys g st r \<noteq> Some []" if "r < nouts g st" using start_users [OF G that] gx_graphD(17) [OF G that] by (metis option.sel)
    ultimately show ?thesis using q that start_users [OF G] n0
      by (auto simp: step_pseudo_def gx_graphD(17) [OF G] not_le split: if_splits option.splits)
  qed
  then show ?thesis
  proof cases
    case loop
    show ?thesis
      by (rule control_step [OF G I i(1), where X = "{#}"]) (use loop i(2) in \<open>simp_all add: pc_toks_def toks_from_simps\<close>)
  next
    case first
    show ?thesis
      by (rule control_step [OF G I i(1), where X = "{#(st, 0)#}"])
        (use first i(2) n0 regs_okD(4) [OF J(3)] start_users_ok [OF G n0] in \<open>simp_all add: pc_toks_def toks_from_simps Suc_le_eq\<close>)
  next
    case (avail a)
    have "a < as_next (gx_av s)" using tok_below [OF J(3) valid_start [OF G avail(2)]] avail(3) by simp
    then show ?thesis using avail i(2) start_users_ok [OF G avail(2)]
      by (intro control_step [OF G I i(1), where X = "{#(st, r)#}"])
        (simp_all add: pc_toks_def toks_from_simps available_not_unavailable)
  next
    case wait
    show ?thesis
      by (rule control_step [OF G I i(1), where X = "{#}"]) (use wait i(2) in \<open>simp_all add: pc_toks_def\<close>)
  qed
qed

lemma inv_callpseudo:
  assumes G: "gx_graph iter g st" and I: "gx_inv g st s" and i: "i < length (gx_acts s)" "gx_acts s ! i = PCallPseudo k n"
  shows "GetNextUsedBys g k n = Some (users g k n)" "gx_inv g st (gx_move i (PDecr (users g k n) [] KLoop) s)"
proof -
  have ok: "k = st" "n < nouts g st" "\<exists>a. reg_value s (reg_of g k n) = Some a \<and> a < as_next (gx_av s) \<and> \<not> IsUnavailable (as_heap (gx_av s)) a"
    using gx_invD(5) [OF I nth_mem [OF i(1)]] i(2) by auto
  show "GetNextUsedBys g k n = Some (users g k n)" using start_users [OF G ok(2)] ok(1) by simp
  show "gx_inv g st (gx_move i (PDecr (users g k n) [] KLoop) s)"
    by (rule control_step [OF G I i(1), where X = "{#(k, n)#}"]) (use i(2) ok start_users_ok [OF G ok(2)] in \<open>simp_all add: pc_toks_def\<close>)
qed

lemma inv_jump:
  assumes "gx_graph iter g st" "gx_inv g st s" "i < length (gx_acts s)"
  shows "gx_acts s ! i = PDecr [] ready c \<Longrightarrow> gx_inv g st (gx_move i (gx_continue c ready) s)"
    "gx_acts s ! i = PLoop (x # xs) \<Longrightarrow> gx_inv g st (gx_move i (PSpawn x xs) s)"
    "gx_acts s ! i = PSpawn x [] \<Longrightarrow> gx_inv g st (gx_move i (PRun x) s)"
    "gx_acts s ! i = PDrop k [] rs \<Longrightarrow> gx_inv g st (gx_move i (PResult k 0 rs []) s)"
    "gx_acts s ! i = PResult k n [] ready \<Longrightarrow> gx_inv g st (gx_move i (PLoop ready) s)"
    "gx_acts s ! i = PResult k n (r # rs) ready \<Longrightarrow> users g k n \<noteq> [] \<Longrightarrow> gx_inv g st (gx_move i (PResultWait k n (r # rs) ready) s)"
proof -
  note K = gx_invD(5) [OF assms(2) nth_mem [OF assms(3)]]
  show "gx_acts s ! i = PDecr [] ready c \<Longrightarrow> gx_inv g st (gx_move i (gx_continue c ready) s)"
    using K by (intro control_step [OF assms, where X = "{#}"]) simp_all
qed (use gx_invD(5) [OF assms(2) nth_mem [OF assms(3)]] in
  \<open>auto intro!: control_step [OF assms, where X = "{#}"] simp: pc_toks_def toks_from_simps\<close>)

lemma inv_spawn:
  assumes G: "gx_graph iter g st" and I: "gx_inv g st s" and i: "i < length (gx_acts s)" "gx_acts s ! i = PSpawn x (y # ys)"
  shows "gx_inv g st ((gx_move i (PSpawn x ys) s)\<lparr>gx_refs := gx_refs s + 1, gx_acts := (gx_acts s)[i := PSpawn x ys] @ [PLoop [y]]\<rparr>)"
    (is "gx_inv g st ?s")
proof (rule acts_step [OF G I i, where q = "PSpawn x ys" and new = "[PLoop [y]]" and X = "{#}"])
  show "results_ok g st ?s"
    by (rule results_move [OF gx_invD(9) [OF I] i(1), where new = "[PLoop [y]]" and q = "PSpawn x ys"])
      (use i(2) in \<open>auto simp: gx_move_def reg_value_def\<close>)
qed (simp_all add: gx_move_def pc_toks_def)

lemma inv_finish:
  assumes G: "gx_graph iter g st" and I: "gx_inv g st s" and i: "i < length (gx_acts s)" "gx_acts s ! i = PLoop []" "i \<noteq> 0"
  shows "\<exists>s'. gx_DropRef s = Some s' \<and> gx_inv g st (gx_move i PFinished s')"
proof -
  have "gx_acts s ! i \<in> set (filter (\<lambda>p. p \<noteq> PFinished) (gx_acts s))" using nth_mem [OF i(1)] i(2) by simp
  then have r: "0 < gx_refs s" using gx_invD(8) [OF I] by (metis add_gr_0 length_pos_if_in_set)
  let ?s = "gx_move i PFinished (s\<lparr>gx_refs := gx_refs s - 1\<rparr>)"
  have "gx_inv g st ?s"
  proof (rule acts_step [OF G I i(1,2), where q = PFinished and new = "[]" and X = "{#}" and r = "gx_refs s - 1"])
    show "results_ok g st ?s"
      by (rule results_move [OF gx_invD(9) [OF I] i(1), where new = "[]" and q = PFinished])
        (use i in \<open>simp_all add: gx_move_def reg_value_def\<close>)
  qed (use r in \<open>simp_all add: pc_toks_def gx_move_def\<close>)
  then show ?thesis using r by (simp add: gx_DropRef_def)
qed

end
