(* ===== verification/Graph_Steps.thy ===== *)
theory Graph_Steps
  imports Graph_Run
begin

text \<open>
  The steps of GraphExecutor that change counters, registers or async values, and the steps of the
  clients: each keeps the invariant of the previous theory, and none of the executor's fails.
\<close>

subsection \<open>Steps in general\<close>

lemma pc_ok_mono:
  assumes "pc_ok g st s p" "as_next (gx_av s) \<le> as_next (gx_av s')" "keeps_available (gx_av s) (gx_av s')"
    "\<And>j a. reg_value s j = Some a \<Longrightarrow> reg_value s' j = Some a"
  shows "pc_ok g st s' p"
proof -
  have k: "IsUnavailable (as_heap (gx_av s)) a" if "IsUnavailable (as_heap (gx_av s')) a" "a < as_next (gx_av s)" for a
    using keeps_availableD [OF assms(3)] that by blast
  have l: "a < as_next (gx_av s')" if "a < as_next (gx_av s)" for a using that assms(2) by simp
  show ?thesis using assms(1,4) by (cases p) (auto dest: k simp: l)
qed

lemma closure_ok_mono:
  assumes "closure_ok g st s p" "set (as_reg (gx_av s)) \<subseteq> set (as_reg (gx_av s'))"
    "\<And>j a. reg_value s j = Some a \<Longrightarrow> reg_value s' j = Some a"
  shows "closure_ok g st s' p"
  using assms by (cases p; cases "snd p") auto

text \<open>A step of the executor or of a client. \<open>X\<close> are the tokens it delivers.\<close>

lemma inv_transfer:
  assumes I: "gx_inv g st s"
    and av: "av_inv (gx_av s')" "as_next (gx_av s) \<le> as_next (gx_av s')" "keeps_available (gx_av s) (gx_av s')"
      "set (as_reg (gx_av s)) \<subseteq> set (as_reg (gx_av s'))"
    and S: "sched_ok g st s'" and T: "gx_toks g st s' + X = gx_toks g st s"
    and len: "length (gx_mAsyncValueInfos s') = length (gx_mAsyncValueInfos s)" and us: "\<And>j. reg_users s' j = reg_users s j"
    and rv: "\<And>j a. reg_value s j = Some a \<Longrightarrow> reg_value s' j = Some a"
    and X: "\<And>t. t \<in># X \<Longrightarrow> \<exists>a. reg_value s' (reg_at g t) = Some a \<and> a < as_next (gx_av s') \<and>
        (users g (fst t) (snd t) \<noteq> [] \<longrightarrow> \<not> IsUnavailable (as_heap (gx_av s')) a)"
    and pend: "\<And>t. t \<in># gx_toks g st s' \<Longrightarrow> valid_tok g t \<Longrightarrow> fst t \<noteq> st \<Longrightarrow> reg_value s' (reg_at g t) = None \<or> pending_reg g s' t"
    and inj: "pend_inj g st s'"
    and own: "\<And>a. gx_own g st s' a \<le> as_ext (gx_av s') a"
    and pcs: "\<And>p. p \<in> set (gx_acts s') \<Longrightarrow> p \<notin> set (gx_acts s) \<Longrightarrow> pc_ok g st s' p"
    and cls: "distinct (map fst (gx_closures s'))" "\<And>p. p \<in> set (gx_closures s') \<Longrightarrow> p \<notin> set (gx_closures s) \<Longrightarrow> closure_ok g st s' p"
    and refs: "gx_refs s' = length (filter (\<lambda>p. p \<noteq> PFinished) (gx_acts s')) + length (open_closures s')"
    and res: "results_ok g st s'"
  shows "gx_inv g st s'"
proof -
  note J = gx_invD [OF I]
  have regs: "reg_ok g st s' t" if t: "valid_tok g t" for t
  proof (cases "t \<in># gx_toks g st s'")
    case True
    then have "t \<in># gx_toks g st s" using T by (metis union_iff)
    then show ?thesis
      using True pend [OF True t] regs_okD(3) [OF J(3) t] rv av(2) by (auto simp: reg_ok_def split: if_splits intro: less_le_trans)
  next
    case False
    show ?thesis
    proof (cases "t \<in># X")
      case True
      then show ?thesis using False X [OF True] by (auto simp: reg_ok_def)
    next
      case nX: False
      then have "t \<notin># gx_toks g st s" using T False by (metis union_iff)
      then obtain a where a: "reg_value s (reg_at g t) = Some a" "a < as_next (gx_av s)"
          "users g (fst t) (snd t) \<noteq> [] \<Longrightarrow> \<not> IsUnavailable (as_heap (gx_av s)) a"
        using regs_okD(3) [OF J(3) t] by (auto simp: reg_ok_def)
      then have "users g (fst t) (snd t) \<noteq> [] \<Longrightarrow> \<not> IsUnavailable (as_heap (gx_av s')) a"
        using keeps_availableD [OF av(3)] by blast
      then show ?thesis using False a(2) rv [OF a(1)] av(2) by (auto simp: reg_ok_def)
    qed
  qed
  obtain a where a: "reg_value s (reg_of g st 0) = Some a" "a < as_next (gx_av s)" "\<not> IsUnavailable (as_heap (gx_av s)) a"
    using regs_okD(4) [OF J(3)] by blast
  have "regs_ok g st s'" unfolding regs_ok_def len us
    using regs regs_okD(1,2) [OF J(3)] inj rv [OF a(1)] less_le_trans [OF a(2) av(2)] keeps_availableD [OF av(3) a(2,3)] by blast
  moreover have "pc_ok g st s' p" if "p \<in> set (gx_acts s')" for p
    using pcs [OF that] pc_ok_mono [OF J(5) av(2,3) rv, of p] by blast
  moreover have "closure_ok g st s' p" if "p \<in> set (gx_closures s')" for p
    using cls(2) [OF that] closure_ok_mono [OF J(7) av(4) rv, of p] by blast
  ultimately show ?thesis using av(1) S own cls(1) refs res unfolding gx_inv_def by blast
qed

lemma count_waiting: "count (gx_waiting g st s) k = of_bool (k < nnodes g \<and> k \<noteq> st \<and> 0 < gx_mKernelInfos s ! k)"
proof -
  have "distinct (filter (\<lambda>k. k \<noteq> st \<and> 0 < gx_mKernelInfos s ! k) [0..<nnodes g])" by simp
  then show ?thesis unfolding gx_waiting_def distinct_count_atmost_1 by simp
qed

lemma sum_one: "finite A \<Longrightarrow> t \<in> A \<Longrightarrow> (\<Sum>x\<in>A. of_bool (x = t \<and> C)) = (of_bool C :: nat)"
  by (cases C) simp_all

lemma mset_cancel:
  fixes A :: "'x multiset"
  assumes "A + p = B + q + n" "p + c = q + n + c' + X"
  shows "A + c' + X = B + c"
proof (rule multiset_eqI)
  fix x show "count (A + c' + X) x = count (B + c) x"
    using arg_cong [OF assms(1), of "\<lambda>M. count M x"] arg_cong [OF assms(2), of "\<lambda>M. count M x"] by simp
qed

lemma mset_cancel2:
  fixes A :: "'x multiset"
  assumes "A + p = B + q + n" "q + n = p + X"
  shows "A = B + X"
proof (rule multiset_eqI)
  fix x show "count A x = count (B + X) x"
    using arg_cong [OF assms(1), of "\<lambda>M. count M x"] arg_cong [OF assms(2), of "\<lambda>M. count M x"] by simp
qed

lemma sched_move:
  fixes s :: "'a GraphExecutor" and g :: "'f AsyncGraph"
  assumes S: "sched_ok g st s" and i: "i < length (gx_acts s)" "gx_acts s ! i = p" and acts: "gx_acts s' = (gx_acts s)[i := q] @ new"
    and k: "gx_mKernelInfos s' = gx_mKernelInfos s"
    and tok: "pc_toks g st p + mset (map (closure_tok \<circ> snd) (open_closures s)) =
      pc_toks g st q + total (pc_toks g st) new + mset (map (closure_tok \<circ> snd) (open_closures s')) + X"
    and rdy: "\<And>k. count (pc_ready q) k + count (total pc_ready new) k + count_list (gx_ran s') k = count (pc_ready p) k + count_list (gx_ran s) k"
    and dec: "pc_dec q + total pc_dec new = pc_dec p + tok_users g X"
  shows "gx_toks g st s' + X = gx_toks g st s" "sched_ok g st s'"
proof -
  have mv: "total f (gx_acts s') + f p = total f (gx_acts s) + f q + total f new" for f :: "gx_pc \<Rightarrow> 'c::comm_monoid_add"
    using total_move [OF i(1), of f q new] i(2) acts by simp
  have W: "gx_waiting g st s' = gx_waiting g st s" by (simp add: gx_waiting_def k)
  let ?c = "mset (map (closure_tok \<circ> snd) (open_closures s))" and ?c' = "mset (map (closure_tok \<circ> snd) (open_closures s'))"
  have E: "total (pc_toks g st) (gx_acts s') + ?c' + X = total (pc_toks g st) (gx_acts s) + ?c" by (rule mset_cancel [OF mv tok])
  show T: "gx_toks g st s' + X = gx_toks g st s" unfolding gx_toks_alt W using E by (simp only: union_assoc)
  have D: "total pc_dec (gx_acts s') = total pc_dec (gx_acts s) + tok_users g X"
    by (rule mset_cancel2 [OF mv dec])
  have "count (gx_ready s') x + count_list (gx_ran s') x = count (gx_ready s) x + count_list (gx_ran s) x" for x
    using arg_cong [OF mv [of pc_ready], of "\<lambda>M. count M x"] rdy [of x] unfolding gx_ready_def plus_multiset.rep_eq by linarith
  then show "sched_ok g st s'" by (rule sched_step [OF S k T _ D])
qed

subsection \<open>The counters\<close>

lemma inv_decr:
  assumes I: "gx_inv g st s" and i: "i < length (gx_acts s)" "gx_acts s ! i = PDecr (u # us) ready c"
  shows "\<exists>ready1 s1. DecreaseReadyCountAndPush u ready s = Some (ready1, s1) \<and> gx_inv g st (gx_move i (PDecr us ready1 c) s1)"
proof -
  note J = gx_invD [OF I]
  note S = sched_okD [OF J(2)]
  have u: "u < nnodes g" "u \<noteq> st" "cont_ok g st c" "\<forall>u \<in> set us. u < nnodes g \<and> u \<noteq> st"
    using J(5) [OF nth_mem [OF i(1)]] i(2) by auto
  let ?old = "gx_mKernelInfos s ! u"
  let ?r = "if ?old = 1 then ready @ [u] else ready"
  define s' where "s' = gx_move i (PDecr us ?r c) (s\<lparr>gx_mKernelInfos := (gx_mKernelInfos s)[u := ?old - 1]\<rparr>)"
  have sel: "gx_av s' = gx_av s" "gx_mKernelInfos s' = (gx_mKernelInfos s)[u := ?old - 1]" "gx_ran s' = gx_ran s" "gx_results s' = gx_results s"
    "gx_closures s' = gx_closures s" "gx_mAsyncValueInfos s' = gx_mAsyncValueInfos s" "gx_acts s' = (gx_acts s)[i := PDecr us ?r c]" "gx_refs s' = gx_refs s"
    by (simp_all add: s'_def gx_move_def)
  have mv: "total f (gx_acts s') + f (PDecr (u # us) ready c) = total f (gx_acts s) + f (PDecr us ?r c)" for f :: "gx_pc \<Rightarrow> 'c::comm_monoid_add"
    using total_move [OF i(1), of f "PDecr us ?r c" "[]"] i(2) by (simp add: sel)
  have D: "add_mset u (total pc_dec (gx_acts s')) = total pc_dec (gx_acts s)" using mv [of pc_dec] by simp
  have R: "gx_ready s' = gx_ready s + (if ?old = 1 then {#u#} else {#})"
    using mv [of pc_ready] by (auto simp: gx_ready_def)
  have K: "gx_mKernelInfos s' ! k = gx_mKernelInfos s ! k - of_bool (k = u)" if "k < nnodes g" for k
    using that u(1) S(1) by (auto simp: sel nth_list_update)
  have "u \<in># gx_owed g st s" unfolding gx_owed_def using D by (metis union_iff union_single_eq_member)
  then have old: "1 \<le> ?old" using S(2) [OF u(1,2)] by (simp add: Suc_le_eq)
  have W: "gx_waiting g st s' + (if ?old = 1 then {#u#} else {#}) = gx_waiting g st s"
    by (rule multiset_eqI) (use old u K in \<open>auto simp: count_waiting\<close>)
  have cl: "open_closures s' = open_closures s" by (simp add: open_closures_def sel)
  have rv: "reg_value s' = reg_value s" by (rule ext) (simp add: reg_value_def sel)
  have WR: "gx_waiting g st s' + gx_ready s' = gx_waiting g st s + gx_ready s" unfolding R using W by (simp add: ac_simps)
  have T: "gx_toks g st s' = gx_toks g st s" unfolding gx_toks_def cl WR using mv [of "pc_tok g st"] by simp
  have O: "add_mset u (gx_owed g st s') = gx_owed g st s" unfolding gx_owed_def T D [symmetric] by simp
  have "sched_ok g st s'" unfolding sched_ok_def
  proof (intro conjI allI impI)
    show "length (gx_mKernelInfos s') = nnodes g" using S(1) by (simp add: sel)
    show "gx_mKernelInfos s' ! k = int (count (gx_owed g st s') k)" if k: "k < nnodes g" "k \<noteq> st" for k
      using S(2) [OF k] K [OF k(1)] O [symmetric] by simp
    show "count (gx_waiting g st s') k + count (gx_ready s') k + count_list (gx_ran s') k = of_bool (k < nnodes g \<and> k \<noteq> st)" for k
      using S(3) [of k] arg_cong [OF WR, of "\<lambda>M. count M k"] by (simp add: sel)
    show "count (gx_toks g st s') t \<le> of_bool (valid_tok g t)" for t unfolding T by (rule S(4))
  qed
  moreover have own: "gx_own g st s' a = gx_own g st s a" for a
    unfolding gx_own_def args_own_def res_own_def T rv cl using mv [of "pc_own a"] by (simp add: sel)
  moreover have "results_ok g st s'"
    by (rule results_move [OF J(9) i(1), where new = "[]" and q = "PDecr us ?r c"]) (use i(2) rv in \<open>simp_all add: sel\<close>)
  ultimately have "gx_inv g st s'"
  proof (intro inv_transfer [OF I, where X = "{#}"])
    fix t assume "t \<in># gx_toks g st s'" "valid_tok g t" "fst t \<noteq> st"
    then show "reg_value s' (reg_at g t) = None \<or> pending_reg g s' t"
      using regs_okD(3) [OF J(3), of t] unfolding T by (simp add: reg_ok_def pending_reg_def rv) (simp add: sel)
  next
    show "gx_own g st s' a \<le> as_ext (gx_av s') a" for a unfolding own using J(4) by (simp add: sel)
    show "pend_inj g st s'" by (rule pend_inj_mono [OF regs_okD(5) [OF J(3)]]) (simp_all add: T rv)
    show "gx_refs s' = length (filter (\<lambda>p. p \<noteq> PFinished) (gx_acts s')) + length (open_closures s')"
      using J(8) length_filter_update [OF i(1), of "\<lambda>p. p \<noteq> PFinished" "PDecr us ?r c"] i(2) cl by (simp add: sel)
    show "pc_ok g st s' p" if "p \<in> set (gx_acts s')" "p \<notin> set (gx_acts s)" for p
      using that u set_update_subset_insert [of "gx_acts s" i "PDecr us ?r c"] by (auto simp: sel)
  qed (use J(1,6) T rv in \<open>simp_all add: sel keeps_available_def reg_users_def\<close>)
  then show ?thesis using u(1) S(1) by (simp add: DecreaseReadyCountAndPush_def Let_def s'_def)
qed

subsection \<open>Handing out the results\<close>

lemma res_toks_reg:
  assumes G: "gx_graph iter g st" and t: "t \<in> res_toks g" and k: "k < nnodes g"
  shows "reg_at g t \<notin> set (node_ins g k)"
  using gx_graphD(12) [OF G, of t] t k unfolding res_toks_def by auto

lemma result_regs_ok:
  assumes G: "gx_graph iter g st" and R: "regs_ok g st s"
  shows "distinct (result_regs iter g s)" "j \<in> set (result_regs iter g s) \<Longrightarrow> \<exists>t \<in> res_toks g. reg_at g t = j"
    "reg_at g ` res_toks g \<subseteq> set (result_regs iter g s)"
proof -
  show "reg_at g ` res_toks g \<subseteq> set (result_regs iter g s)"
  proof
    fix j assume "j \<in> reg_at g ` res_toks g"
    then obtain t where t: "valid_tok g t" "users g (fst t) (snd t) = []" "j = reg_at g t" by (auto simp: res_toks_def)
    have "reg_users s j = 0" using gx_graphD(13,14) [OF G t(1)] regs_okD(2) [OF R, of j] t(2,3) by simp
    then show "j \<in> set (result_regs iter g s)" using gx_graphD(20) [OF G t(1)] t(3) by (simp add: result_regs_def)
  qed
  show "distinct (result_regs iter g s)" unfolding result_regs_def by (rule distinct_filter [OF gx_graphD(18) [OF G]])
  assume "j \<in> set (result_regs iter g s)"
  then have j: "j \<in> set (map (async_id g) (iter (ag_mNameAndAsyncIdPair g)))" "reg_users s j = 0" by (auto simp: result_regs_def)
  obtain t where t: "valid_tok g t" "reg_at g t = j" using gx_graphD(19) [OF G j(1)] by blast
  then have "users g (fst t) (snd t) = []" using gx_graphD(13,14) [OF G t(1)] regs_okD(2) [OF R, of j] t(2) j(2) by simp
  then show "\<exists>t \<in> res_toks g. reg_at g t = j" using t by (intro bexI [of _ t]) (simp_all add: res_toks_def)
qed

lemma inv_collect_start:
  assumes G: "gx_graph iter g st" and I: "gx_inv g st s" and i: "gx_acts s \<noteq> []" "gx_acts s ! 0 = PLoop []"
  shows "gx_inv g st (gx_move 0 (PCollect (result_regs iter g s)) s)" (is "gx_inv g st (gx_move 0 ?q s)")
proof -
  note J = gx_invD [OF I]
  have l: "0 < length (gx_acts s)" using i(1) by simp
  note R = J(9) [unfolded results_ok_def]
  have "gx_results s = []" using R i(2) by auto
  moreover have "\<forall>j<length (gx_acts s). 0 < j \<longrightarrow> (gx_acts s)[0 := ?q] ! j = gx_acts s ! j" by auto
  ultimately have "results_ok g st (gx_move 0 ?q s)"
    using R result_regs_ok [OF G J(3)] i(1) unfolding results_ok_def by (simp add: gx_move_def)
  then show ?thesis
    by (intro acts_step [OF G I l i(2) gx_move_eq, where X = "{#}"]) (simp_all add: pc_toks_def)
qed

lemma inv_collect_end:
  assumes G: "gx_graph iter g st" and I: "gx_inv g st s" and i: "i < length (gx_acts s)" "gx_acts s ! i = PCollect []"
  shows "\<exists>s1. gx_DropRef s = Some s1 \<and> gx_inv g st (gx_move i PFinished s1)"
proof -
  note J = gx_invD [OF I]
  note R = J(9) [unfolded results_ok_def]
  have "i = 0" using R i by (metis neq0_conv)
  have "gx_acts s ! i \<in> set (filter (\<lambda>p. p \<noteq> PFinished) (gx_acts s))" using nth_mem [OF i(1)] i(2) by simp
  then have r: "0 < gx_refs s" using J(8) by (metis add_gr_0 length_pos_if_in_set)
  let ?s = "gx_move i PFinished (s\<lparr>gx_refs := gx_refs s - 1\<rparr>)"
  have "\<forall>j<length (gx_acts s). 0 < j \<longrightarrow> (gx_acts s)[0 := PFinished] ! j = gx_acts s ! j" by auto
  then have "results_ok g st ?s"
    using R i \<open>i = 0\<close> unfolding results_ok_def by (auto simp: gx_move_def reg_value_def)
  then have "gx_inv g st ?s"
    by (intro acts_step [OF G I i, where q = PFinished and new = "[]" and X = "{#}" and r = "gx_refs s - 1"])
      (use r in \<open>simp_all add: pc_toks_def gx_move_def\<close>)
  then show ?thesis using r by (simp add: gx_DropRef_def)
qed


lemma reg_frame [simp]:
  "reg_value (s\<lparr>gx_av := x\<rparr>) = reg_value s" "reg_users (s\<lparr>gx_av := x\<rparr>) = reg_users s"
  "reg_value (s\<lparr>gx_results := rs\<rparr>) = reg_value s" "reg_users (s\<lparr>gx_results := rs\<rparr>) = reg_users s"
  "reg_value (s\<lparr>gx_ran := ks\<rparr>) = reg_value s" "reg_users (s\<lparr>gx_ran := ks\<rparr>) = reg_users s"
  "reg_value (gx_move i q s) = reg_value s" "reg_users (gx_move i q s) = reg_users s"
  by (rule ext, simp add: reg_value_def reg_users_def gx_move_def)+

lemma gx_move_sel [simp]:
  "gx_av (gx_move i q s) = gx_av s" "gx_mKernelInfos (gx_move i q s) = gx_mKernelInfos s" "gx_ran (gx_move i q s) = gx_ran s"
  "gx_results (gx_move i q s) = gx_results s" "gx_closures (gx_move i q s) = gx_closures s" "gx_refs (gx_move i q s) = gx_refs s"
  "gx_mAsyncValueInfos (gx_move i q s) = gx_mAsyncValueInfos s" "gx_acts (gx_move i q s) = (gx_acts s)[i := q]"
  by (simp_all add: gx_move_def)

lemma reg_set_sel:
  "reg_value (reg_set j a s) k = (if k = j \<and> j < length (gx_mAsyncValueInfos s) then Some a else reg_value s k)"
  "reg_users (reg_set j a s) k = reg_users s k" "length (gx_mAsyncValueInfos (reg_set j a s)) = length (gx_mAsyncValueInfos s)"
  "gx_av (reg_set j a s) = gx_av s" "gx_mKernelInfos (reg_set j a s) = gx_mKernelInfos s" "gx_refs (reg_set j a s) = gx_refs s"
  "gx_closures (reg_set j a s) = gx_closures s" "gx_acts (reg_set j a s) = gx_acts s" "gx_ran (reg_set j a s) = gx_ran s"
  "gx_results (reg_set j a s) = gx_results s"
proof -
  show "reg_value (reg_set j a s) k = (if k = j \<and> j < length (gx_mAsyncValueInfos s) then Some a else reg_value s k)"
    by (cases "j < length (gx_mAsyncValueInfos s)") (simp_all add: reg_set_def reg_value_def nth_list_update list_update_beyond)
  show "reg_users (reg_set j a s) k = reg_users s k"
    by (cases "j < length (gx_mAsyncValueInfos s)") (simp_all add: reg_set_def reg_users_def nth_list_update list_update_beyond)
qed (simp_all add: reg_set_def)

lemma pending_below:
  assumes "av_inv (gx_av s)" "pending_reg g s t" "reg_value s (reg_at g t) = Some a"
  shows "a < as_next (gx_av s)"
proof -
  have "as_heap (gx_av s) a \<noteq> None" using assms(2,3) by (auto simp: pending_reg_def IsUnresolvedIndirect_def split: option.splits)
  then show ?thesis using av_invD(1) [OF assms(1)] by (auto simp: heap_ok_def)
qed

lemma undelivered_reg:
  assumes I: "gx_inv g st s" and t: "t \<in># gx_toks g st s" "fst t \<noteq> st"
  shows "reg_value s (reg_at g t) = None \<or> pending_reg g s t"
proof -
  obtain T where "gx_toks g st s = add_mset t T" using t(1) by (metis multi_member_split)
  then have "valid_tok g t" using tok_once(2) [OF gx_invD(2) [OF I]] by blast
  then show ?thesis using regs_okD(3) [OF gx_invD(3) [OF I]] t by (auto simp: reg_ok_def)
qed

lemma reg_below:
  assumes I: "gx_inv g st s" and t: "valid_tok g t" "reg_value s (reg_at g t) = Some a"
  shows "a < as_next (gx_av s)"
proof (cases "t \<in># gx_toks g st s \<and> fst t \<noteq> st")
  case True
  then show ?thesis using undelivered_reg [OF I, of t] pending_below [OF gx_invD(1) [OF I] _ t(2)] t(2) by auto
next
  case False
  then show ?thesis using tok_below [OF gx_invD(3) [OF I] t] by blast
qed

text \<open>A register of a result that is not there yet gets an indirect value.\<close>

lemma collect_create:
  assumes I: "gx_inv g st s" and l: "j < length (gx_mAsyncValueInfos s)" "reg_users s j = 0" "reg_value s j = None"
  defines "b \<equiv> as_next (gx_av s)"
  defines "s1 \<equiv> reg_set j b (s\<lparr>gx_av := MakeIndirectAsyncValue (gx_av s)\<rparr>)"
  shows "GetOrCreateAsyncValuePtr j s = Some (b, s1)" "quiet b (gx_av s) (gx_av s1)" "as_next (gx_av s1) = Suc b"
    "as_ext (gx_av s1) = (as_ext (gx_av s))(b := 1)" "IsUnresolvedIndirect (as_heap (gx_av s1)) b"
    "filter_mset (forwards b) (pool (gx_av s1)) = {#}"
proof -
  note inv = gx_invD(1) [OF I]
  have m: "gx_av s1 = HostContext_Construct IndirectAsyncValue_new (gx_av s)" by (simp add: s1_def reg_set_sel MakeIndirectAsyncValue_def)
  show "quiet b (gx_av s) (gx_av s1)"
    unfolding m b_def by (rule construct_quiet [OF inv fresh_values(4) unwatched_next [OF inv]]) simp
  show "as_next (gx_av s1) = Suc b" "as_ext (gx_av s1) = (as_ext (gx_av s))(b := 1)" "IsUnresolvedIndirect (as_heap (gx_av s1)) b"
    by (simp_all add: m b_def HostContext_Construct_def IsUnresolvedIndirect_def IndirectAsyncValue_new_def AsyncValue_new_def)
  show "filter_mset (forwards b) (pool (gx_av s1)) = {#}"
    using unwatched_no_forward [OF quietD(2) [OF \<open>quiet b (gx_av s) (gx_av s1)\<close>]] by simp
  have "as_heap (gx_av s1) b = Some IndirectAsyncValue_new" by (simp add: m b_def HostContext_Construct_def)
  then have "av_AddRef b 0 (gx_av s1) = Some (gx_av s1)" by (simp add: av_AddRef_def AsyncValue_AddRef_def)
  then show "GetOrCreateAsyncValuePtr j s = Some (b, s1)"
    using l by (simp add: GetOrCreateAsyncValuePtr_def Let_def b_def s1_def reg_set_sel)
qed

lemma quiet_pending:
  assumes "quiet (as_next (gx_av s)) (gx_av s) (gx_av s')" "av_inv (gx_av s)" "pending_reg g s t" "reg_value s' (reg_at g t) = reg_value s (reg_at g t)"
    "fst ` set (gx_results s) \<subseteq> fst ` set (gx_results s')"
  shows "pending_reg g s' t"
proof -
  obtain a where a: "users g (fst t) (snd t) = []" "reg_value s (reg_at g t) = Some a" "IsUnresolvedIndirect (as_heap (gx_av s)) a"
      "filter_mset (forwards a) (pool (gx_av s)) = {#}" "reg_at g t \<in> fst ` set (gx_results s)"
    using assms(3) by (auto simp: pending_reg_def)
  have "map_option core (as_heap (gx_av s') a) = map_option core (as_heap (gx_av s) a)"
    using quietD(4) [OF assms(1)] pending_below [OF assms(2,3) a(2)] .
  then have "IsUnresolvedIndirect (as_heap (gx_av s')) a"
    using a(3) by (auto simp: IsUnresolvedIndirect_def split: option.splits dest: core_eqD)
  then show ?thesis using a assms(4,5) quietD(5) [OF assms(1)] unfolding pending_reg_def by auto
qed

lemma pend_inj_fresh:
  assumes I: "gx_inv g st s" and sub: "set_mset (gx_toks g st s') \<subseteq> set_mset (gx_toks g st s)"
    and old: "\<And>x. x \<in># gx_toks g st s' \<Longrightarrow> reg_value s' (reg_at g x) = reg_value s (reg_at g x) \<or>
      x = t \<and> reg_value s' (reg_at g x) = Some (as_next (gx_av s))"
  shows "pend_inj g st s'"
  unfolding pend_inj_def
proof (rule inj_onI)
  fix x y assume x: "x \<in> {t. t \<in># gx_toks g st s' \<and> fst t \<noteq> st \<and> reg_value s' (reg_at g t) \<noteq> None}"
    and y: "y \<in> {t. t \<in># gx_toks g st s' \<and> fst t \<noteq> st \<and> reg_value s' (reg_at g t) \<noteq> None}"
    and e: "reg_value s' (reg_at g x) = reg_value s' (reg_at g y)"
  have below: "reg_value s (reg_at g z) \<noteq> Some (as_next (gx_av s))" if z: "z \<in># gx_toks g st s'" for z
  proof -
    have "valid_tok g z" using z sub tok_once(2) [OF gx_invD(2) [OF I]] by (metis multi_member_split subsetD)
    then show ?thesis using reg_below [OF I] by blast
  qed
  show "x = y"
  proof (cases "reg_value s' (reg_at g x) = reg_value s (reg_at g x) \<and> reg_value s' (reg_at g y) = reg_value s (reg_at g y)")
    case True
    then show ?thesis using inj_onD [OF regs_okD(5) [OF gx_invD(3) [OF I], unfolded pend_inj_def], of x y] x y e subsetD [OF sub] by auto
  next
    case False
    then show ?thesis using old [of x] old [of y] below [of x] below [of y] x y e by auto
  qed
qed

lemma inv_collect:
  assumes G: "gx_graph iter g st" and I: "gx_inv g st s" and i: "i < length (gx_acts s)" "gx_acts s ! i = PCollect (j # js)"
  shows "\<exists>value s1. GetOrCreateAsyncValuePtr j s = Some (value, s1) \<and>
    gx_inv g st ((gx_move i (PCollect js) s1)\<lparr>gx_results := gx_results s1 @ [(j, value)]\<rparr>)"
proof -
  note J = gx_invD [OF I]
  note R = J(9) [unfolded results_ok_def]
  have i0: "i = 0" using R i by (metis neq0_conv)
  obtain t where t: "t \<in> res_toks g" "reg_at g t = j" using R i i0 by auto
  then have v: "valid_tok g t" "users g (fst t) (snd t) = []" by (simp_all add: res_toks_def)
  have j: "j < length (gx_mAsyncValueInfos s)" "reg_users s j = 0"
    using gx_graphD(13,14) [OF G v(1)] t(2) v(2) regs_okD(1,2) [OF J(3)] by simp_all
  have new: "j \<notin> fst ` set (gx_results s)" using R i i0 by auto
  obtain b s1 where get: "GetOrCreateAsyncValuePtr j s = Some (b, s1)" "quiet (as_next (gx_av s)) (gx_av s) (gx_av s1)"
      "reg_value s1 j = Some b" "\<And>k. k \<noteq> j \<Longrightarrow> reg_value s1 k = reg_value s k" "\<And>k. reg_users s1 k = reg_users s k"
      "length (gx_mAsyncValueInfos s1) = length (gx_mAsyncValueInfos s)"
      "gx_mKernelInfos s1 = gx_mKernelInfos s" "gx_refs s1 = gx_refs s" "gx_closures s1 = gx_closures s" "gx_acts s1 = gx_acts s"
      "gx_ran s1 = gx_ran s" "gx_results s1 = gx_results s"
      "b < as_next (gx_av s1)" "\<And>a. a \<noteq> b \<Longrightarrow> as_ext (gx_av s1) a = as_ext (gx_av s) a"
      "reg_value s j = Some b \<and> gx_av s1 = gx_av s \<or> reg_value s j = None \<and> b = as_next (gx_av s) \<and> as_ext (gx_av s1) b = 1 \<and>
         IsUnresolvedIndirect (as_heap (gx_av s1)) b \<and> filter_mset (forwards b) (pool (gx_av s1)) = {#}"
  proof (cases "reg_value s j")
    case None
    note c = collect_create [OF I j None]
    show ?thesis by (rule that [OF c(1)]) (use c(2-6) None j in \<open>simp_all add: reg_set_sel\<close>)
  next
    case (Some b)
    have "b < as_next (gx_av s)" using reg_below [OF I v(1)] t(2) Some by simp
    then show ?thesis
      using Some j quiet_refl [OF J(1) unwatched_next [OF J(1)]]
      by (intro that [of b s]) (simp_all add: GetOrCreateAsyncValuePtr_def)
  qed
  define s' where "s' = (gx_move i (PCollect js) s1)\<lparr>gx_results := gx_results s1 @ [(j, b)]\<rparr>"
  have sel: "gx_av s' = gx_av s1" "gx_mKernelInfos s' = gx_mKernelInfos s" "gx_ran s' = gx_ran s" "gx_results s' = gx_results s @ [(j, b)]"
    "gx_closures s' = gx_closures s" "length (gx_mAsyncValueInfos s') = length (gx_mAsyncValueInfos s)" "gx_acts s' = (gx_acts s)[i := PCollect js]"
    "gx_refs s' = gx_refs s" "reg_value s' = reg_value s1" "reg_users s' = reg_users s1"
    by (simp_all add: s'_def get)
  have cl: "open_closures s' = open_closures s" using quietD(6) [OF get(2)] by (simp add: open_closures_def sel)
  note mv = sched_move [OF J(2) i, of s' "PCollect js" "[]" "{#}"]
  have T: "gx_toks g st s' = gx_toks g st s" and S: "sched_ok g st s'"
    using mv by (simp_all add: sel cl pc_toks_def)
  have rvs: "reg_value s' k = Some a" if "reg_value s k = Some a" for k a
    using that get(3,4,15) by (cases "k = j") (auto simp: sel)
  have ro: "res_own g st s' a \<le> res_own g st s a + of_bool (a = b \<and> reg_value s j = None)" for a
  proof -
    have "res_own g st s' a \<le> (\<Sum>t'\<in>res_toks g. of_bool (reg_value s (reg_at g t') = Some a \<and>
        (reg_at g t' \<notin> fst ` set (gx_results s) \<or> t' \<in># gx_toks g st s)) + of_bool (t' = t \<and> a = b \<and> reg_value s j = None))"
      unfolding res_own_def T
    proof (rule sum_mono)
      fix t' assume t': "t' \<in> res_toks g"
      have "reg_at g t' \<noteq> j" if "t' \<noteq> t"
        using reg_of_inj [OF G v(1), of t'] t' t(2) that by (auto simp: res_toks_def)
      then show "of_bool (reg_value s' (reg_at g t') = Some a \<and> (reg_at g t' \<notin> fst ` set (gx_results s') \<or> t' \<in># gx_toks g st s))
        \<le> of_bool (reg_value s (reg_at g t') = Some a \<and> (reg_at g t' \<notin> fst ` set (gx_results s) \<or> t' \<in># gx_toks g st s)) +
          (of_bool (t' = t \<and> a = b \<and> reg_value s j = None) :: nat)"
        using get(3,4,15) t(2) new by (cases "t' = t") (auto simp: sel)
    qed
    also have "\<dots> = res_own g st s a + of_bool (a = b \<and> reg_value s j = None)"
      unfolding sum.distrib res_own_def using sum_one [OF finite_res_toks t(1)] by simp
    finally show ?thesis .
  qed
  have ins: "map (reg_value s') (node_ins g k) = map (reg_value s) (node_ins g k)" if "k < nnodes g" for k
  proof (rule map_cong [OF refl])
    fix x assume "x \<in> set (node_ins g k)"
    then show "reg_value s' x = reg_value s x" using res_toks_reg [OF G t(1) that] t(2) get(4) [of x] by (auto simp: sel)
  qed
  have ao: "args_own g s' a = args_own g s a" for a unfolding args_own_def sel(3) by (rule sum.cong) (simp_all only: ins lessThan_iff)
  have own: "gx_own g st s' a \<le> as_ext (gx_av s') a" for a
  proof -
    have "gx_own g st s' a \<le> gx_own g st s a + of_bool (a = b \<and> reg_value s j = None)"
      using ro [of a] total_move [OF i(1), of "pc_own a" "PCollect js" "[]"] i(2) unfolding gx_own_def ao cl by (simp add: sel)
    moreover have "as_ext (gx_av s) (as_next (gx_av s)) = 0" using alive [OF J(1)] by blast
    ultimately show ?thesis using J(4) [of a] get(14,15) by (cases "a = b") (auto simp: sel)
  qed
  have pend: "reg_value s' (reg_at g t') = None \<or> pending_reg g s' t'" if t': "t' \<in># gx_toks g st s'" "fst t' \<noteq> st" for t'
  proof (cases "reg_at g t' = j \<and> reg_value s j = None")
    case True
    have "valid_tok g t'" using t'(1) T tok_once(2) [OF J(2)] by (metis multi_member_split)
    then have "t' = t" using reg_of_inj [OF G _ v(1), of t'] True t(2) by simp
    then show ?thesis using True get(3,15) v(2) t(2) by (auto simp: pending_reg_def sel)
  next
    case False
    then have "reg_value s' (reg_at g t') = reg_value s (reg_at g t')"
      using get(3,4,15) by (cases "reg_at g t' = j") (auto simp: sel)
    then show ?thesis
      using undelivered_reg [OF I, of t'] t' T quiet_pending [of s s' g t'] get(2) J(1) by (auto simp: sel)
  qed
  have old: "reg_value s' (reg_at g x) = reg_value s (reg_at g x) \<or> x = t \<and> reg_value s' (reg_at g x) = Some (as_next (gx_av s))"
    if "x \<in># gx_toks g st s'" for x
  proof -
    have "valid_tok g x" using that T tok_once(2) [OF J(2)] by (metis multi_member_split)
    then show ?thesis using reg_of_inj [OF G _ v(1), of x] t(2) get(3,4,15) by (cases "reg_at g x = j") (auto simp: sel)
  qed
  have inj: "pend_inj g st s'" by (rule pend_inj_fresh [OF I _ old]) (simp_all add: T)
  have "results_ok g st s'"
  proof -
    have "\<forall>k<length (gx_acts s). 0 < k \<longrightarrow> (gx_acts s)[0 := PCollect js] ! k = gx_acts s ! k" by auto
    moreover have "distinct (js @ map fst (gx_results s @ [(j, b)]))" using R i i0 by auto
    moreover have "reg_value s1 k = Some a" if "(k, a) \<in> set (gx_results s)" for k a
      using rvs [of k a] R that by (auto simp: sel)
    ultimately show ?thesis using R i i0 t get(3) unfolding results_ok_def sel by auto
  qed
  with S rvs own inj have "gx_inv g st s'"
  proof (intro inv_transfer [OF I, where X = "{#}"])
    show "reg_value s' (reg_at g x) = None \<or> pending_reg g s' x" if "x \<in># gx_toks g st s'" "fst x \<noteq> st" for x by (rule pend [OF that])
    show "gx_refs s' = length (filter (\<lambda>p. p \<noteq> PFinished) (gx_acts s')) + length (open_closures s')"
      using J(8) length_filter_update [OF i(1), of "\<lambda>p. p \<noteq> PFinished" "PCollect js"] i(2) cl by (simp add: sel)
    show "pc_ok g st s' p" if "p \<in> set (gx_acts s')" "p \<notin> set (gx_acts s)" for p
      using that set_update_subset_insert [of "gx_acts s" i "PCollect js"] by (auto simp: sel)
  qed (use J(6) T sel get(5) quietD(1,3,7,9) [OF get(2)] in simp_all)
  then show ?thesis using get(1) unfolding s'_def by blast
qed

subsection \<open>Running a kernel\<close>

text \<open>A step that leaves the registers alone and delivers no result.\<close>

lemma value_step:
  assumes I: "gx_inv g st s" and i: "i < length (gx_acts s)" "gx_acts s ! i = p" and pl: "plain_pc p" "plain_pc q"
    and sel: "gx_acts s' = (gx_acts s)[i := q]" "gx_mKernelInfos s' = gx_mKernelInfos s" "gx_results s' = gx_results s"
      "gx_closures s' = gx_closures s" "gx_refs s' = gx_refs s" "gx_mAsyncValueInfos s' = gx_mAsyncValueInfos s"
    and av: "av_inv (gx_av s')" "as_next (gx_av s) \<le> as_next (gx_av s')" "keeps_available (gx_av s) (gx_av s')"
      "as_reg (gx_av s') = as_reg (gx_av s)" "as_log (gx_av s') = as_log (gx_av s)"
    and tok: "pc_toks g st q = pc_toks g st p" "pc_dec q = pc_dec p"
    and rdy: "\<And>k. count (pc_ready q) k + count_list (gx_ran s') k = count (pc_ready p) k + count_list (gx_ran s) k"
    and pend: "\<And>t. pending_reg g s t \<Longrightarrow> t \<in># gx_toks g st s \<Longrightarrow> reg_value s' = reg_value s \<Longrightarrow> gx_toks g st s' = gx_toks g st s \<Longrightarrow> pending_reg g s' t"
    and own: "\<And>a. res_own g st s' a = res_own g st s a \<Longrightarrow> reg_value s' = reg_value s \<Longrightarrow> open_closures s' = open_closures s \<Longrightarrow>
      gx_own g st s' a \<le> as_ext (gx_av s') a"
    and ok: "pc_ok g st s' q"
  shows "gx_inv g st s'"
proof -
  note J = gx_invD [OF I]
  have rv: "reg_value s' = reg_value s" "reg_users s' = reg_users s" by (rule ext, simp add: reg_value_def reg_users_def sel)+
  have cl: "open_closures s' = open_closures s" by (simp add: open_closures_def sel av(5))
  note mv = sched_move [OF J(2) i, of s' q "[]" "{#}"]
  have T: "gx_toks g st s' = gx_toks g st s" and S: "sched_ok g st s'" using mv sel tok rdy by (simp_all add: cl)
  have "results_ok g st s'" by (rule results_move [OF J(9) i(1), where new = "[]" and q = q]) (use sel i(2) pl rv in simp_all)
  moreover have "gx_own g st s' a \<le> as_ext (gx_av s') a" for a
    by (rule own [OF _ rv(1) cl]) (simp add: res_own_def T rv sel)
  moreover have "pend_inj g st s'" by (rule pend_inj_mono [OF regs_okD(5) [OF J(3)]]) (simp_all add: T rv)
  ultimately show ?thesis
  proof (intro inv_transfer [OF I, where X = "{#}"])
    show "reg_value s' (reg_at g x) = None \<or> pending_reg g s' x" if "x \<in># gx_toks g st s'" "fst x \<noteq> st" for x
      using undelivered_reg [OF I, of x] pend [OF _ _ rv(1) T, of x] that by (auto simp: T rv)
    show "gx_refs s' = length (filter (\<lambda>p. p \<noteq> PFinished) (gx_acts s')) + length (open_closures s')"
      using J(8) length_filter_update [OF i(1), of "\<lambda>p. p \<noteq> PFinished" q] i(2) cl plain_pcD [OF pl(1)] plain_pcD [OF pl(2)] by (simp add: sel)
    show "pc_ok g st s' p" if "p \<in> set (gx_acts s')" "p \<notin> set (gx_acts s)" for p
      using that ok set_update_subset_insert [of "gx_acts s" i q] by (auto simp: sel)
  qed (use J(6) T S sel rv av in simp_all)
qed

lemma res_own_pos:
  assumes "valid_tok g t" "users g (fst t) (snd t) = []" "t \<in># gx_toks g st s" "reg_value s (reg_at g t) = Some a"
  shows "0 < res_own g st s a"
proof -
  have "t \<in> res_toks g" using assms(1,2) by (simp add: res_toks_def)
  then show ?thesis using assms(3,4) unfolding res_own_def by (intro sum_pos2 [of _ t]) auto
qed

lemma pending_shrinks:
  assumes sh: "shrinks (as_heap (gx_av s)) (as_heap (gx_av s'))" and p: "pool (gx_av s') = pool (gx_av s)" and pr: "pending_reg g s t"
    and rv: "reg_value s' = reg_value s" "gx_results s' = gx_results s" and inv: "av_inv (gx_av s')"
    and t: "valid_tok g t" "t \<in># gx_toks g st s'" and own: "\<And>a. res_own g st s' a \<le> as_ext (gx_av s') a"
  shows "pending_reg g s' t"
proof -
  obtain a where a: "users g (fst t) (snd t) = []" "reg_value s (reg_at g t) = Some a" "IsUnresolvedIndirect (as_heap (gx_av s)) a"
      "filter_mset (forwards a) (pool (gx_av s)) = {#}" "reg_at g t \<in> fst ` set (gx_results s)"
    using pr by (auto simp: pending_reg_def)
  have "0 < as_ext (gx_av s') a" using res_own_pos [OF t(1) a(1) t(2), of a] a(2) rv(1) own [of a] by simp
  then obtain v' where v': "as_heap (gx_av s') a = Some v'" using alive [OF inv] by blast
  then obtain v where "as_heap (gx_av s) a = Some v" "core v' = core v" using shrinksD(1) [OF sh] by blast
  then have "IsUnresolvedIndirect (as_heap (gx_av s')) a"
    using a(3) v' by (auto simp: IsUnresolvedIndirect_def dest: core_eqD)
  then show ?thesis using a rv p unfolding pending_reg_def by auto
qed

lemma inv_drop:
  assumes I: "gx_inv g st s" and i: "i < length (gx_acts s)" "gx_acts s ! i = PDrop k (a # as) rs"
  shows "\<exists>av. av_DropRef a (gx_av s) = Some av \<and> gx_inv g st (gx_move i (PDrop k as rs) (s\<lparr>gx_av := av\<rparr>))"
proof -
  note J = gx_invD [OF I]
  have ok: "a < as_next (gx_av s)" "\<not> IsUnavailable (as_heap (gx_av s)) a" "pc_ok g st s (PDrop k as rs)"
    using J(5) [OF nth_mem [OF i(1)]] i(2) by simp_all
  have tot: "total (pc_own b) ((gx_acts s)[i := PDrop k as rs]) + of_bool (b = a) = total (pc_own b) (gx_acts s)" for b
    using total_move [OF i(1), of "pc_own b" "PDrop k as rs" "[]"] i(2) by (auto split: if_splits)
  have "0 < gx_own g st s a" using tot [of a] by (simp add: gx_own_def)
  then have "0 < as_ext (gx_av s) a" using J(4) [of a] by simp
  then obtain av where av: "av_DropRef a (gx_av s) = Some av" "av_inv av" "as_ext av = (as_ext (gx_av s))(a := as_ext (gx_av s) a - 1)"
      "as_next av = as_next (gx_av s)" "as_log av = as_log (gx_av s)" "as_reg av = as_reg (gx_av s)" "pool av = pool (gx_av s)"
      "shrinks (as_heap (gx_av s)) (as_heap av)"
    using av_DropRef_ok [OF J(1) _ ok(2)] by blast
  define s' where "s' = gx_move i (PDrop k as rs) (s\<lparr>gx_av := av\<rparr>)"
  have sel: "gx_acts s' = (gx_acts s)[i := PDrop k as rs]" "gx_mKernelInfos s' = gx_mKernelInfos s" "gx_results s' = gx_results s"
      "gx_closures s' = gx_closures s" "gx_refs s' = gx_refs s" "gx_mAsyncValueInfos s' = gx_mAsyncValueInfos s" "gx_ran s' = gx_ran s" "gx_av s' = av"
    by (simp_all add: s'_def)
  have K: "keeps_available (gx_av s) (gx_av s')" using keeps_available_shrinks [of "gx_av s" av] av(8) by (simp add: sel)
  have own: "gx_own g st s' b \<le> as_ext (gx_av s') b"
    if "res_own g st s' b = res_own g st s b" "reg_value s' = reg_value s" "open_closures s' = open_closures s" for b
  proof -
    have "args_own g s' b = args_own g s b" unfolding args_own_def sel that(2) by (rule refl)
    then show ?thesis using J(4) [of b] tot [of b] that av(3) unfolding gx_own_def by (cases "b = a") (simp_all add: sel)
  qed
  have "gx_inv g st s'"
  proof (rule value_step [OF I i _ _ sel(1-6)])
    show "pending_reg g s' t" if p: "pending_reg g s t" "t \<in># gx_toks g st s" "reg_value s' = reg_value s" "gx_toks g st s' = gx_toks g st s" for t
    proof (rule pending_shrinks [of s s' g t, where st = st])
      show "valid_tok g t" using p(2) tok_once(2) [OF J(2)] by (metis multi_member_split)
      show "res_own g st s' b \<le> as_ext (gx_av s') b" for b
      proof -
        have "open_closures s' = open_closures s" by (simp add: open_closures_def sel av)
        moreover have "res_own g st s' b = res_own g st s b" by (simp add: res_own_def p sel)
        ultimately show ?thesis using own p(3) unfolding gx_own_def by force
      qed
    qed (use p av sel in simp_all)
    show "pc_ok g st s' (PDrop k as rs)" by (rule pc_ok_mono [OF ok(3) _ K]) (simp_all add: s'_def av)
  qed (use av sel K own in \<open>simp_all add: pc_toks_def\<close>)
  then show ?thesis using av(1) unfolding s'_def by blast
qed

text \<open>The last argument that is an error.\<close>

definition last_error :: "'a av_heap \<Rightarrow> av_ptr list \<Rightarrow> av_ptr option" where
  "last_error h args = (case filter (IsError h) (rev args) of [] \<Rightarrow> None | e # _ \<Rightarrow> Some e)"

lemma gather_args_ok:
  assumes "map (reg_value s) is = map Some args" "\<forall>j \<in> set is. j < length (gx_mAsyncValueInfos s)" "kf_mNumResults f = - 1"
  shows "gather_args is f err s = Some (f\<lparr>kf_mAsyncValues := kf_mAsyncValues f @ map Some args, kf_mNumArguments := kf_mNumArguments f + length args\<rparr>,
    (case last_error (as_heap (gx_av s)) args of None \<Rightarrow> err | Some e \<Rightarrow> Some e), s)"
  using assms
proof (induction "is" arbitrary: args f err)
  case (Cons j js)
  then obtain a as where a: "args = a # as" "reg_value s j = Some a" "map (reg_value s) js = map Some as" by (cases args) auto
  have "GetOrCreateAsyncValuePtr j s = Some (a, s)" using a(2) Cons.prems(2) by (simp add: GetOrCreateAsyncValuePtr_def)
  moreover have "AddArg a f = Some (f\<lparr>kf_mAsyncValues := kf_mAsyncValues f @ [Some a], kf_mNumArguments := kf_mNumArguments f + 1\<rparr>)"
    using Cons.prems(3) by (simp add: AddArg_def)
  moreover have "(case last_error h as of None \<Rightarrow> if IsError h a then Some a else err | Some e \<Rightarrow> Some e) =
      (case last_error h (a # as) of None \<Rightarrow> err | Some e \<Rightarrow> Some e)" for h :: "'a av_heap"
    by (simp add: last_error_def split: list.split)
  ultimately show ?case using Cons.IH [OF a(3)] Cons.prems(2,3) a(1) by simp
qed (simp add: last_error_def)

lemma SetResultAt_args:
  assumes "SetResultAt i v f = Some f1" shows "GetArgAt j f1 = GetArgAt j f"
  using assms by (auto simp: SetResultAt_def GetArgAt_def split: if_splits)

lemma share_results_run:
  assumes "GetArgAt j f = Some e"
  shows "share_results is e (f, s) = frame_run tid (map (\<lambda>i. OpForward i j) is) (f, s)"
  using assms
proof (induction "is" arbitrary: f s)
  case (Cons i "is")
  have "GetArgAt j f1 = Some e" if "ShareResultAt i e (f, s) = Some (f1, s1)" for f1 s1
    using that Cons.prems SetResultAt_args by (force simp: ShareResultAt_def bind_eq_Some_conv)
  then show ?case using Cons by (cases "ShareResultAt i e (f, s)") auto
qed simp

lemma forward_all_ok:
  assumes "j < nargs" shows "kernel_ok nargs n (map (\<lambda>i. OpForward i j) [0..<n])"
proof -
  have "ops_ok nargs (map (\<lambda>i. OpForward i j) [m..<m + d]) (replicate m SReady @ replicate d SEmpty)" for m d
  proof (induction d arbitrary: m)
    case (Suc d)
    have "(replicate m SReady @ SEmpty # replicate d SEmpty)[m := SReady] = replicate (Suc m) SReady @ replicate d SEmpty"
      by (simp add: list_update_append replicate_append_same)
    moreover have "[m..<m + Suc d] = m # [Suc m..<Suc m + d]" using upt_conv_Cons [of m "m + Suc d"] by (simp del: upt_Suc)
    ultimately show ?case using Suc [of "Suc m"] assms by (simp add: nth_append del: upt_Suc)
  qed (simp add: list_all_iff)
  from this [of 0 n] show ?thesis by (simp add: kernel_ok_def)
qed

lemma forward_all_cost: "kernel_cost n (map (\<lambda>i. OpForward i j) is) = length is"
  by (induction "is") (simp_all add: kernel_cost_def)

lemma last_error_mem: "last_error h args = Some e \<Longrightarrow> e \<in> set args \<and> IsError h e"
proof -
  assume "last_error h args = Some e"
  then obtain r where "filter (IsError h) (rev args) = e # r" by (auto simp: last_error_def split: list.splits)
  then have "e \<in> set (filter (IsError h) (rev args))" by simp
  then show ?thesis by simp
qed

text \<open>What the kernels of a graph promise; \<open>B\<close> bounds the references that one step adds to a value.\<close>

definition gx_kernels :: "('f \<Rightarrow> 'a payload list \<Rightarrow> 'a frame_op list) \<Rightarrow> nat \<Rightarrow> 'f AsyncGraph \<Rightarrow> nat \<Rightarrow> bool" where
  "gx_kernels kern B g st \<longleftrightarrow> B + 2 < 2 ^ 32 \<and> nnodes g \<le> B \<and>
     (\<forall>k<nnodes g. k \<noteq> st \<longrightarrow> nouts g k \<le> B \<and>
        (\<exists>fn. an_mFunc (ag_mAsyncNodes g ! k) = Some fn \<and>
           (\<forall>views. length views = length (node_ins g k) \<longrightarrow>
              kernel_ok (length (node_ins g k)) (nouts g k) (kern fn views) \<and> kernel_cost (nouts g k) (kern fn views) \<le> B)))"

lemma process_ok:
  assumes K: "gx_kernels kern B g st" and k: "k < nnodes g" "k \<noteq> st" and inv: "av_inv (gx_av s)"
    and args: "map (reg_value s) (node_ins g k) = map Some args" "\<forall>j \<in> set (node_ins g k). j < length (gx_mAsyncValueInfos s)"
      "\<And>a. a \<in> set args \<Longrightarrow> 0 < as_ext (gx_av s) a \<and> \<not> IsUnavailable (as_heap (gx_av s)) a"
    and room: "refs_room (as_heap (gx_av s)) B"
  shows "\<exists>rs av. ProcessReadyKernel_call kern tid g k s = Some (args, map Some rs, s\<lparr>gx_av := av\<rparr>) \<and> length rs = nouts g k \<and>
    quiet (as_next (gx_av s)) (gx_av s) av \<and> (\<forall>b. as_ext (gx_av s) b + count_list rs b \<le> as_ext av b)"
proof -
  let ?n = "nouts g k" and ?h = "as_heap (gx_av s)"
  let ?f = "\<lparr>kf_mAsyncValues = map Some args @ replicate ?n None, kf_mNumArguments = length args, kf_mNumResults = int ?n\<rparr>"
  have l: "length args = length (node_ins g k)" using arg_cong [OF args(1), of length] by simp
  obtain fn where fn: "an_mFunc (ag_mAsyncNodes g ! k) = Some fn"
      "\<And>views. length views = length args \<Longrightarrow> kernel_ok (length args) ?n (kern fn views) \<and> kernel_cost ?n (kern fn views) \<le> B"
    and B: "B + 2 < 2 ^ 32" "?n \<le> B"
    using K k unfolding gx_kernels_def l by blast
  have run: "\<exists>f' rs av. frame_run tid ps (?f, gx_av s) = Some (f', av) \<and> GetResults f' = Some (map Some rs) \<and> length rs = ?n \<and>
      quiet (as_next (gx_av s)) (gx_av s) av \<and> (\<forall>b. as_ext (gx_av s) b + count_list rs b \<le> as_ext av b)"
    if "kernel_ok (length args) ?n ps" "kernel_cost ?n ps \<le> B" for ps
  proof -
    have "refs_room ?h (kernel_cost ?n ps + 0)" using refs_room_mono [OF room that(2)] by simp
    then show ?thesis using kernel_run_ok [OF inv args(3) that(1), of 0 tid] that(2) B(1) by fastforce
  qed
  have gather: "gather_args (node_ins g k) KernelFrame_Reset None s =
      Some (\<lparr>kf_mAsyncValues = map Some args, kf_mNumArguments = length args, kf_mNumResults = - 1\<rparr>, last_error ?h args, s)"
    using gather_args_ok [OF args(1,2), of KernelFrame_Reset None] by (simp add: KernelFrame_Reset_def split: option.splits)
  have set: "SetNumResults ?n \<lparr>kf_mAsyncValues = map Some args, kf_mNumArguments = length args, kf_mNumResults = - 1\<rparr> = Some ?f"
    by (simp add: SetNumResults_def)
  have get: "GetArguments ?f = Some (map Some args)" by (simp add: GetArguments_def GetAsyncValues_def)
  note call = ProcessReadyKernel_call_def [of kern tid g k s, unfolded gather bind.bind_lunit prod.case set get]
  show ?thesis
  proof (cases "last_error ?h args")
    case None
    let ?ps = "kern fn (map (\<lambda>a. arg_view ?h (the a)) (map Some args))"
    obtain f' rs av where "frame_run tid ?ps (?f, gx_av s) = Some (f', av)" "GetResults f' = Some (map Some rs)" "length rs = ?n"
        "quiet (as_next (gx_av s)) (gx_av s) av" "\<forall>b. as_ext (gx_av s) b + count_list rs b \<le> as_ext av b"
      using run [of ?ps] fn(2) [of "map (\<lambda>a. arg_view ?h (the a)) (map Some args)"] by auto
    then show ?thesis using k(1) fn(1) None by (intro exI [of _ rs] exI [of _ av]) (simp add: call comp_def)
  next
    case (Some e)
    then obtain j where j: "j < length args" "args ! j = e" using last_error_mem by (metis in_set_conv_nth)
    then have "GetArgAt j ?f = Some e" by (simp add: GetArgAt_def nth_append)
    note sh = share_results_run [OF this, of "[0..<?n]" "gx_av s" tid]
    obtain f' rs av where "frame_run tid (map (\<lambda>i. OpForward i j) [0..<?n]) (?f, gx_av s) = Some (f', av)" "GetResults f' = Some (map Some rs)" "length rs = ?n"
        "quiet (as_next (gx_av s)) (gx_av s) av" "\<forall>b. as_ext (gx_av s) b + count_list rs b \<le> as_ext av b"
      using run [OF forward_all_ok [OF j(1)]] B(2) by (auto simp: forward_all_cost)
    then show ?thesis using k(1) Some by (intro exI [of _ rs] exI [of _ av]) (simp add: call sh comp_def)
  qed
qed

text \<open>A kernel that was found ready has not run, and its arguments are there.\<close>

lemma ready_kernel:
  assumes G: "gx_graph iter g st" and I: "gx_inv g st s" and k: "k \<in># gx_ready s"
  shows "k < nnodes g" "k \<noteq> st" "k \<notin> set (gx_ran s)" "count (gx_ready s) k = 1"
    "j \<in> set (node_ins g k) \<Longrightarrow> j < length (gx_mAsyncValueInfos s) \<and> (\<exists>a. reg_value s j = Some a \<and> a < as_next (gx_av s) \<and>
       0 < as_ext (gx_av s) a \<and> \<not> IsUnavailable (as_heap (gx_av s)) a)"
proof -
  note J = gx_invD [OF I]
  note S = sched_okD [OF J(2)]
  have p: "0 < count (gx_ready s) k" using k by simp
  have v: "k < nnodes g \<and> k \<noteq> st"
  proof (rule ccontr)
    assume "\<not> (k < nnodes g \<and> k \<noteq> st)"
    then have "count (gx_waiting g st s) k + count (gx_ready s) k + count_list (gx_ran s) k = 0" using S(3) [of k] by (simp only: of_bool_eq)
    then show False using p by linarith
  qed
  then have "count (gx_waiting g st s) k + count (gx_ready s) k + count_list (gx_ran s) k = 1" using S(3) [of k] by (simp only: of_bool_eq simp_thms)
  then have c: "count (gx_waiting g st s) k = 0" "count_list (gx_ran s) k = 0" "count (gx_ready s) k = 1"
    using p by linarith+
  show kn: "k < nnodes g" "k \<noteq> st" using v by blast+
  show nr: "k \<notin> set (gx_ran s)" using c(2) by (simp add: count_list_0_iff)
  show "count (gx_ready s) k = 1" by (rule c(3))
  have "\<not> 0 < gx_mKernelInfos s ! k" using c(1) v unfolding count_waiting by simp
  then have z: "k \<notin># gx_owed g st s" using S(2) [OF kn] by simp
  assume j: "j \<in> set (node_ins g k)"
  obtain t where t: "valid_tok g t" "reg_at g t = j" using gx_graphD(9) [OF G kn(1) j] by blast
  have u: "k \<in> set (users g (fst t) (snd t))" using gx_graphD(12) [OF G t(1)] kn(1) j t(2) by simp
  have nt: "t \<notin># gx_toks g st s"
  proof
    assume "t \<in># gx_toks g st s"
    then obtain T where "gx_toks g st s = add_mset t T" by (metis multi_member_split)
    then show False using z u by (simp add: gx_owed_def)
  qed
  then obtain a where a: "reg_value s j = Some a" "a < as_next (gx_av s)" "\<not> IsUnavailable (as_heap (gx_av s)) a"
  proof -
    have "users g (fst t) (snd t) \<noteq> []" using u by auto
    then show ?thesis using regs_okD(3) [OF J(3) t(1)] t(2) nt that unfolding reg_ok_def by auto
  qed
  have "0 < count_list (map (reg_value s) (node_ins g k)) (Some a)"
  proof -
    have "Some a \<in> set (map (reg_value s) (node_ins g k))" using imageI [OF j, of "reg_value s"] a(1) by simp
    then show ?thesis by (metis count_list_0_iff not_gr_zero)
  qed
  then have "0 < args_own g s a" unfolding args_own_def using kn(1) nr by (intro sum_pos2 [of _ k]) simp_all
  then have "0 < as_ext (gx_av s) a" using J(4) [of a] by (simp add: gx_own_def)
  then show "j < length (gx_mAsyncValueInfos s) \<and> (\<exists>a. reg_value s j = Some a \<and> a < as_next (gx_av s) \<and>
       0 < as_ext (gx_av s) a \<and> \<not> IsUnavailable (as_heap (gx_av s)) a)"
    using a gx_graphD(13) [OF G t(1)] t(2) regs_okD(1) [OF J(3)] by simp
qed

lemma args_own_ran:
  assumes "k < nnodes g" "k \<notin> set (gx_ran s)" "gx_ran s' = gx_ran s @ [k]" "reg_value s' = reg_value s"
  shows "args_own g s b = args_own g s' b + count_list (map (reg_value s) (node_ins g k)) (Some b)"
proof -
  have "args_own g s' b = (\<Sum>x\<in>{..<nnodes g} - {k}. if x \<in> set (gx_ran s) then 0 else count_list (map (reg_value s) (node_ins g x)) (Some b))"
    unfolding args_own_def assms(3,4) using assms(1) by (subst sum.remove [of _ k]) (auto intro!: sum.cong)
  moreover have "args_own g s b = count_list (map (reg_value s) (node_ins g k)) (Some b) +
      (\<Sum>x\<in>{..<nnodes g} - {k}. if x \<in> set (gx_ran s) then 0 else count_list (map (reg_value s) (node_ins g x)) (Some b))"
    unfolding args_own_def using assms(1,2) by (subst sum.remove [of _ k]) auto
  ultimately show ?thesis by simp
qed

lemma ready_at: "i < length (gx_acts s) \<Longrightarrow> k \<in># pc_ready (gx_acts s ! i) \<Longrightarrow> k \<in># gx_ready s"
  using total_move [of i "gx_acts s" pc_ready "PFinished" "[]"] by (auto simp: gx_ready_def) (metis union_iff)

lemma map_Some_count: "map f xs = map Some ys \<Longrightarrow> count_list (map f xs) (Some b) = count_list ys b"
  by (simp add: count_list_map_conv)

lemma inv_run_kernel:
  assumes G: "gx_graph iter g st" and K: "gx_kernels kern B g st" and I: "gx_inv g st s"
    and i: "i < length (gx_acts s)" "gx_acts s ! i = PRun k" and room: "refs_room (as_heap (gx_av s)) B"
  shows "\<exists>args results av. ProcessReadyKernel_call kern tid g k s = Some (args, results, s\<lparr>gx_av := av\<rparr>) \<and>
    length args = length (node_ins g k) \<and> as_log av = as_log (gx_av s) \<and>
    gx_inv g st ((gx_move i (PDrop k args results) (s\<lparr>gx_av := av\<rparr>))\<lparr>gx_ran := gx_ran s @ [k]\<rparr>)"
proof -
  note J = gx_invD [OF I]
  have k: "k \<in># gx_ready s" using ready_at [OF i(1), of k] i(2) by simp
  note rk = ready_kernel [OF G I k]
  define args where "args = map (the \<circ> reg_value s) (node_ins g k)"
  have args: "map (reg_value s) (node_ins g k) = map Some args"
    unfolding args_def map_map by (rule map_cong [OF refl]) (use rk(5) in fastforce)
  have aok: "a < as_next (gx_av s) \<and> 0 < as_ext (gx_av s) a \<and> \<not> IsUnavailable (as_heap (gx_av s)) a" if "a \<in> set args" for a
    using that rk(5) unfolding args_def by fastforce
  obtain rs av where call: "ProcessReadyKernel_call kern tid g k s = Some (args, map Some rs, s\<lparr>gx_av := av\<rparr>)" "length rs = nouts g k"
      "quiet (as_next (gx_av s)) (gx_av s) av" "\<And>b. as_ext (gx_av s) b + count_list rs b \<le> as_ext av b"
    using process_ok [OF K rk(1,2) J(1) args _ _ room, of tid] rk(5) aok by blast
  define s' where "s' = (gx_move i (PDrop k args (map Some rs)) (s\<lparr>gx_av := av\<rparr>))\<lparr>gx_ran := gx_ran s @ [k]\<rparr>"
  have sel: "gx_acts s' = (gx_acts s)[i := PDrop k args (map Some rs)]" "gx_mKernelInfos s' = gx_mKernelInfos s" "gx_results s' = gx_results s"
      "gx_closures s' = gx_closures s" "gx_refs s' = gx_refs s" "gx_mAsyncValueInfos s' = gx_mAsyncValueInfos s" "gx_ran s' = gx_ran s @ [k]" "gx_av s' = av"
    by (simp_all add: s'_def)
  have q: "quiet (as_next (gx_av s)) (gx_av s) (gx_av s')" using call(3) by (simp add: sel)
  have "gx_inv g st s'"
  proof (rule value_step [OF I i _ _ sel(1-6)])
    show "pending_reg g s' t" if p: "pending_reg g s t" "reg_value s' = reg_value s" for t
      by (rule quiet_pending [OF q J(1) p(1)]) (simp_all add: p sel)
    show "gx_own g st s' b \<le> as_ext (gx_av s') b"
      if "res_own g st s' b = res_own g st s b" "reg_value s' = reg_value s" "open_closures s' = open_closures s" for b
    proof -
      have "total (pc_own b) (gx_acts s') = total (pc_own b) (gx_acts s) + count_list args b + count_list rs b"
        using total_move [OF i(1), of "pc_own b" "PDrop k args (map Some rs)" "[]"] i(2) map_Some_count [of Some rs rs b] by (simp add: sel)
      moreover have "args_own g s b = args_own g s' b + count_list args b"
        using args_own_ran [OF rk(1,3) sel(7) that(2)] map_Some_count [OF args] by simp
      ultimately have "gx_own g st s' b = gx_own g st s b + count_list rs b" using that by (simp add: gx_own_def)
      then show ?thesis using J(4) [of b] call(4) [of b] by (simp add: sel)
    qed
    show "pc_ok g st s' (PDrop k args (map Some rs))"
      using rk(1,2) call(2) aok less_le_trans [OF _ quietD(3) [OF call(3)]] quietD(8) [OF call(3)] by (auto simp: sel)
  qed (use quietD(1,3,6,7,9) [OF call(3)] sel in \<open>simp_all add: pc_toks_def\<close>)
  moreover have "length args = length (node_ins g k)" by (simp add: args_def)
  ultimately show ?thesis using call(1) quietD(6) [OF call(3)] unfolding s'_def by blast
qed

subsection \<open>Delivering a result\<close>

lemma deliver_step:
  assumes G: "gx_graph iter g st" and I: "gx_inv g st s" and i: "i < length (gx_acts s)" "gx_acts s ! i = p" and pl: "plain_pc p" "plain_pc q"
    and sel: "gx_acts s' = (gx_acts s)[i := q]" "gx_mKernelInfos s' = gx_mKernelInfos s" "gx_results s' = gx_results s"
      "gx_closures s' = gx_closures s" "gx_refs s' = gx_refs s" "gx_ran s' = gx_ran s"
      "length (gx_mAsyncValueInfos s') = length (gx_mAsyncValueInfos s)" "reg_users s' = reg_users s"
    and av: "av_inv (gx_av s')" "as_next (gx_av s) \<le> as_next (gx_av s')" "keeps_available (gx_av s) (gx_av s')"
      "as_reg (gx_av s') = as_reg (gx_av s)" "as_log (gx_av s') = as_log (gx_av s)"
    and tok: "pc_toks g st p = add_mset t (pc_toks g st q)" "pc_ready q = pc_ready p" "pc_dec q = pc_dec p + mset (users g (fst t) (snd t))"
    and reg: "\<And>j. reg_value s' j = (if j = reg_at g t then Some b else reg_value s j)"
      "reg_value s (reg_at g t) = None \<or> reg_value s (reg_at g t) = Some b"
      "b < as_next (gx_av s')" "users g (fst t) (snd t) \<noteq> [] \<Longrightarrow> \<not> IsUnavailable (as_heap (gx_av s')) b"
    and pend: "\<And>t'. pending_reg g s t' \<Longrightarrow> t' \<in># gx_toks g st s \<Longrightarrow> t' \<noteq> t \<Longrightarrow> fst t' \<noteq> st \<Longrightarrow> reg_at g t' \<noteq> reg_at g t \<Longrightarrow> pending_reg g s' t'"
    and own: "\<And>a. gx_toks g st s = add_mset t (gx_toks g st s') \<Longrightarrow> valid_tok g t \<Longrightarrow> open_closures s' = open_closures s \<Longrightarrow>
      gx_own g st s' a \<le> as_ext (gx_av s') a"
    and ok: "pc_ok g st s' q"
  shows "gx_inv g st s'"
proof -
  note J = gx_invD [OF I]
  have cl: "open_closures s' = open_closures s" by (simp add: open_closures_def sel av(5))
  note mv = sched_move [OF J(2) i, of s' q "[]" "{#t#}"]
  have T: "gx_toks g st s = add_mset t (gx_toks g st s')" and S: "sched_ok g st s'" using mv sel tok by (simp_all add: cl)
  note t = tok_once [OF J(2) T]
  have ne: "reg_at g x \<noteq> reg_at g t" if "x \<in># gx_toks g st s'" for x
  proof -
    have "valid_tok g x" using tok_once(2) [OF J(2)] that T by (metis multi_member_split union_single_eq_member insert_DiffM2 insert_iff set_mset_add_mset_insert)
    then show ?thesis using reg_of_inj [OF G _ t(2), of x] t(1) that by auto
  qed
  have "results_ok g st s'" by (rule results_move [OF J(9) i(1), where new = "[]" and q = q]) (use sel i(2) pl reg(1,2) in auto)
  moreover have "pend_inj g st s'" by (rule pend_inj_mono [OF regs_okD(5) [OF J(3)]]) (auto simp add: T reg(1) ne)
  ultimately show ?thesis
  proof (intro inv_transfer [OF I, where X = "{#t#}"])
    show "reg_value s' j = Some a" if "reg_value s j = Some a" for j a using that reg(1,2) by auto
    show "reg_value s' (reg_at g x) = None \<or> pending_reg g s' x" if x: "x \<in># gx_toks g st s'" "fst x \<noteq> st" for x
      using undelivered_reg [OF I, of x] x pend [of x] ne [OF x(1)] t(1) reg(1) T by auto
    show "gx_own g st s' a \<le> as_ext (gx_av s') a" for a by (rule own [OF T t(2) cl])
    show "\<exists>a. reg_value s' (reg_at g x) = Some a \<and> a < as_next (gx_av s') \<and>
        (users g (fst x) (snd x) \<noteq> [] \<longrightarrow> \<not> IsUnavailable (as_heap (gx_av s')) a)" if "x \<in># {#t#}" for x
      using that reg by auto
    show "gx_refs s' = length (filter (\<lambda>p. p \<noteq> PFinished) (gx_acts s')) + length (open_closures s')"
      using J(8) length_filter_update [OF i(1), of "\<lambda>p. p \<noteq> PFinished" q] i(2) cl plain_pcD [OF pl(1)] plain_pcD [OF pl(2)] by (simp add: sel)
    show "pc_ok g st s' p" if "p \<in> set (gx_acts s')" "p \<notin> set (gx_acts s)" for p
      using that ok set_update_subset_insert [of "gx_acts s" i q] by (auto simp: sel)
  qed (use J(6) T S sel av in simp_all)
qed

lemma count_list_set:
  "distinct xs \<Longrightarrow> f j = None \<Longrightarrow>
   count_list (map (\<lambda>x. if x = j then Some b else f x) xs) (Some a) = count_list (map f xs) (Some a) + of_bool (a = b \<and> j \<in> set xs)"
  by (induction xs) auto

lemma undelivered_user:
  assumes I: "gx_inv g st s" and t: "t \<in># gx_toks g st s" and k: "k \<in> set (users g (fst t) (snd t))" "k < nnodes g" "k \<noteq> st"
  shows "k \<notin> set (gx_ran s)"
proof -
  note S = sched_okD [OF gx_invD(2) [OF I]]
  obtain T where "gx_toks g st s = add_mset t T" using t by (metis multi_member_split)
  then have "k \<in># gx_owed g st s" using k(1) by (simp add: gx_owed_def)
  then have "0 < gx_mKernelInfos s ! k" using S(2) [OF k(2,3)] by simp
  then have "count (gx_waiting g st s) k = 1" using k by (simp add: count_waiting)
  moreover have "count (gx_waiting g st s) k + count (gx_ready s) k + count_list (gx_ran s) k \<le> 1"
    unfolding S(3) by simp
  ultimately have "count_list (gx_ran s) k = 0" by linarith
  then show ?thesis by (simp add: count_list_0_iff)
qed

lemma args_own_put:
  assumes G: "gx_graph iter g st" and t: "valid_tok g t" "reg_value s (reg_at g t) = None"
    and nr: "\<And>k. k \<in> set (users g (fst t) (snd t)) \<Longrightarrow> k \<notin> set (gx_ran s)"
    and reg: "\<And>j. reg_value s' j = (if j = reg_at g t then Some b else reg_value s j)" and ran: "gx_ran s' = gx_ran s"
  shows "args_own g s' a = args_own g s a + (if a = b then length (users g (fst t) (snd t)) else 0)"
proof -
  let ?u = "users g (fst t) (snd t)" and ?j = "reg_at g t"
  have rv: "reg_value s' = (\<lambda>x. if x = ?j then Some b else reg_value s x)" using reg by blast
  have u: "set ?u = {k. k < nnodes g \<and> ?j \<in> set (node_ins g k)}" by (rule gx_graphD(12) [OF G t(1)])
  have "k \<notin> set (gx_ran s)" if "k < nnodes g" "?j \<in> set (node_ins g k)" for k
    using nr u that by simp
  then have "(if k \<in> set (gx_ran s) then 0 else count_list (map (reg_value s') (node_ins g k)) (Some a)) =
      (if k \<in> set (gx_ran s) then 0 else count_list (map (reg_value s) (node_ins g k)) (Some a)) + of_bool (a = b \<and> ?j \<in> set (node_ins g k))"
    if "k < nnodes g" for k
    using count_list_set [of "node_ins g k" "reg_value s" ?j, OF gx_graphD(8) [OF G that] t(2)] that unfolding rv by auto
  then have "args_own g s' a = args_own g s a + (\<Sum>k<nnodes g. of_bool (a = b \<and> ?j \<in> set (node_ins g k)))"
    unfolding args_own_def ran sum.distrib [symmetric] by (intro sum.cong) auto
  moreover have "(\<Sum>k<nnodes g. of_bool (?j \<in> set (node_ins g k))) = card (set ?u)"
    unfolding u by (simp add: sum.If_cases of_bool_def Collect_conj_eq lessThan_def)
  moreover have "card (set ?u) = length ?u" by (rule distinct_card [OF gx_graphD(11) [OF G t(1)]])
  ultimately show ?thesis by (cases "a = b") simp_all
qed

lemma args_own_set:
  assumes G: "gx_graph iter g st" and I: "gx_inv g st s" and t: "t \<in># gx_toks g st s" "valid_tok g t" "reg_value s (reg_at g t) = None"
    and reg: "\<And>j. reg_value s' j = (if j = reg_at g t then Some b else reg_value s j)" and ran: "gx_ran s' = gx_ran s"
  shows "args_own g s' a = args_own g s a + (if a = b then length (users g (fst t) (snd t)) else 0)"
proof (rule args_own_put [OF G t(2,3) _ reg ran])
  fix k assume k: "k \<in> set (users g (fst t) (snd t))"
  then show "k \<notin> set (gx_ran s)"
    using undelivered_user [OF I t(1) k] users_ok [OF G, of "fst t" "snd t" k] t(2) by simp
qed

lemma users_bound:
  assumes G: "gx_graph iter g st" and t: "valid_tok g t"
  shows "length (users g (fst t) (snd t)) \<le> nnodes g"
proof -
  have "set (users g (fst t) (snd t)) \<subseteq> {..<nnodes g}" unfolding gx_graphD(12) [OF G t] by auto
  then have "card (set (users g (fst t) (snd t))) \<le> card {..<nnodes g}" by (intro card_mono) simp_all
  then show ?thesis using distinct_card [OF gx_graphD(11) [OF G t]] by simp
qed

lemma deliver_used:
  fixes s :: "'a GraphExecutor"
  assumes G: "gx_graph iter g st" and K: "gx_kernels kern B g st" and I: "gx_inv g st s" and i: "i < length (gx_acts s)" "gx_acts s ! i = p"
    and pl: "plain_pc p" "plain_pc q" and t: "k < nnodes g" "k \<noteq> st" "n < nouts g k" "users g k n \<noteq> []"
    and tok: "pc_toks g st p = add_mset (k, n) (pc_toks g st q)" "pc_ready q = pc_ready p" "pc_dec q = pc_dec p + mset (users g k n)"
      "\<And>a. pc_own a p = pc_own a q + of_bool (a = r)"
    and r: "\<not> IsUnavailable (as_heap (gx_av s)) r" and ok: "\<And>s :: 'a GraphExecutor. pc_ok g st s q"
    and room: "refs_room (as_heap (gx_av s)) B"
  shows "\<exists>s1. SetAsyncValuePtr (reg_of g k n) r s = Some s1 \<and> gx_inv g st (gx_move i q s1)"
proof -
  note J = gx_invD [OF I]
  let ?u = "length (users g k n)" and ?j = "reg_of g k n"
  have v: "valid_tok g (k, n)" using t by (simp add: valid_tok_def)
  have tot: "total (pc_own a) (gx_acts s) = total (pc_own a) ((gx_acts s)[i := q]) + of_bool (a = r)" for a
    using total_move [OF i(1), of "pc_own a" q "[]"] i(2) tok(4) [of a] by simp
  have "0 < gx_own g st s r" using tot [of r] by (simp add: gx_own_def)
  then have e: "0 < as_ext (gx_av s) r" using J(4) [of r] by simp
  have "(k, n) \<in># pc_toks g st p" using tok(1) by simp
  then have inT: "(k, n) \<in># gx_toks g st s"
    using total_move [OF i(1), of "pc_toks g st" PFinished "[]"] i(2) unfolding gx_toks_alt
    by (metis (no_types, lifting) add.right_neutral total_simps(1) union_iff pc_toks_def kernel_toks_simps(1) pc_ready.simps(13) pc_tok.simps(13))
  have none: "reg_value s ?j = None" using undelivered_reg [OF I inT] t(2,4) by (auto simp: pending_reg_def)
  have j: "?j < length (gx_mAsyncValueInfos s)" "reg_users s ?j = ?u" "0 < ?u"
    using gx_graphD(13,14) [OF G v] regs_okD(1,2) [OF J(3)] t(4) by simp_all
  have "?u \<le> B" using users_bound [OF G v] K unfolding gx_kernels_def by simp
  then have rm: "refs_room (as_heap (gx_av s)) (?u - 1 + 0)" using refs_room_mono [OF room] by simp
  obtain av where av: "av_AddRef r (?u - 1) (gx_av s) = Some av" "quiet (as_next (gx_av s)) (gx_av s) av"
      "as_ext av = (as_ext (gx_av s))(r := as_ext (gx_av s) r + (?u - 1))" "as_next av = as_next (gx_av s)"
    using av_AddRef_ok [OF J(1) e rm unwatched_next [OF J(1)]] by blast
  define s1 where "s1 = reg_set ?j r (s\<lparr>gx_av := av\<rparr>)"
  have call: "SetAsyncValuePtr ?j r s = Some s1" using j av(1) none by (simp add: SetAsyncValuePtr_def Let_def s1_def)
  define s' where "s' = gx_move i q s1"
  have sel: "gx_acts s' = (gx_acts s)[i := q]" "gx_mKernelInfos s' = gx_mKernelInfos s" "gx_results s' = gx_results s"
      "gx_closures s' = gx_closures s" "gx_refs s' = gx_refs s" "gx_ran s' = gx_ran s"
      "length (gx_mAsyncValueInfos s') = length (gx_mAsyncValueInfos s)" "reg_users s' = reg_users s" "gx_av s' = av"
    by (simp_all add: s'_def s1_def reg_set_sel ext)
  have reg: "reg_value s' x = (if x = ?j then Some r else reg_value s x)" for x using j(1) by (simp add: s'_def s1_def reg_set_sel)
  have q: "quiet (as_next (gx_av s)) (gx_av s) (gx_av s')" using av(2) by (simp add: sel)
  have rn: "r < as_next (gx_av s)" using alive [OF J(1) e] by blast
  have "gx_inv g st s'"
  proof (rule deliver_step [OF G I i pl sel(1-8), where t = "(k, n)" and b = r])
    show "pending_reg g s' t'" if "pending_reg g s t'" "reg_at g t' \<noteq> reg_at g (k, n)" for t'
      by (rule quiet_pending [OF q J(1) that(1)]) (use that(2) in \<open>simp_all add: reg sel\<close>)
    show "gx_own g st s' a \<le> as_ext (gx_av s') a" if T: "gx_toks g st s = add_mset (k, n) (gx_toks g st s')" "open_closures s' = open_closures s" for a
    proof -
      have ao: "args_own g s' a = args_own g s a + (if a = r then ?u else 0)"
        using args_own_set [OF G I inT v _ _ sel(6), of r a] none reg by simp
      have ro: "res_own g st s' a \<le> res_own g st s a" unfolding res_own_def
      proof (rule sum_mono)
        fix x assume x: "x \<in> res_toks g"
        then have "x \<noteq> (k, n)" using t(4) by (auto simp: res_toks_def)
        then have "reg_at g x \<noteq> ?j" using reg_of_inj [OF G _ v, of x] x by (auto simp: res_toks_def)
        then show "of_bool (reg_value s' (reg_at g x) = Some a \<and> (reg_at g x \<notin> fst ` set (gx_results s') \<or> x \<in># gx_toks g st s'))
          \<le> (of_bool (reg_value s (reg_at g x) = Some a \<and> (reg_at g x \<notin> fst ` set (gx_results s) \<or> x \<in># gx_toks g st s)) :: nat)"
          using T(1) by (auto simp: reg sel)
      qed
      show ?thesis using J(4) [of a] ro ao tot [of a] j(3) that(2) unfolding gx_own_def by (cases "a = r") (simp_all add: sel av(3))
    qed
  qed (use quietD(1,3,6,7,8,9) [OF av(2)] sel reg none rn r ok tok in simp_all)
  then show ?thesis using call unfolding s'_def by blast
qed

lemma av_AddRef_0: "av_AddRef a 0 s = Some s"
  by (simp add: av_AddRef_def AsyncValue_AddRef_def)

lemma av_DropRefs_0: "av_inv s \<Longrightarrow> 0 < as_ext s a \<Longrightarrow> av_DropRefs a 0 s = Some s"
proof -
  assume "av_inv s" "0 < as_ext s a"
  then obtain v where v: "as_heap s a = Some v" "mRefCount v \<noteq> 0" using alive by metis
  have "AsyncValue_DropRef (as_heap s) a 0 = Some (as_heap s)"
    by (subst AsyncValue_DropRef.simps) (use v in \<open>simp add: fun_upd_idem\<close>)
  then show ?thesis by (simp add: av_DropRefs_def)
qed

lemma unresolved_core: "IsUnresolvedIndirect h a \<Longrightarrow> h a = Some v \<Longrightarrow> h' a = Some v' \<Longrightarrow> mKind v' = mKind v \<Longrightarrow> mState v' = mState v \<Longrightarrow>
  IsUnresolvedIndirect h' a"
  by (simp add: IsUnresolvedIndirect_def)

lemma forward_total:
  assumes inv: "av_inv s" and own: "0 < as_ext s i" "0 < as_ext s v" and fit: "refs_fit (as_heap s)"
    and i: "IsUnresolvedIndirect (as_heap s) i" "filter_mset (forwards i) (pool s) = {#}"
  shows "\<exists>s'. av_ForwardTo i v s = Some s' \<and> av_inv s' \<and> as_next s' = as_next s \<and> as_ext s' = (as_ext s)(v := as_ext s v - 1) \<and>
    as_reg s' = as_reg s \<and> as_log s' = as_log s \<and> keeps_available s s' \<and>
    (\<forall>a. a \<noteq> i \<and> IsUnresolvedIndirect (as_heap s) a \<and> filter_mset (forwards a) (pool s) = {#} \<and> 0 < as_ext s' a \<longrightarrow>
       IsUnresolvedIndirect (as_heap s') a \<and> filter_mset (forwards a) (pool s') = {#})"
proof -
  note I = av_invD [OF inv]
  obtain iv where iv: "as_heap s i = Some iv" "mKind iv = KIndirect" "\<not> State_IsAvailable (mState iv)"
    using i(1) by (auto simp: IsUnresolvedIndirect_def split: option.splits)
  obtain vv where vv: "as_heap s v = Some vv" using alive [OF inv own(2)] by blast
  let ?s = "\<lambda>h ws. RunWaiters_call h ws (s\<lparr>as_ext := (as_ext s)(v := as_ext s v - 1)\<rparr>)"
  have "\<exists>h ws. ForwardTo (as_heap s) i v = Some (h, ws) \<and>
      (\<forall>a v'. a \<noteq> i \<and> h a = Some v' \<longrightarrow> (\<exists>v. as_heap s a = Some v \<and> mKind v' = mKind v \<and> mState v' = mState v)) \<and>
      (heap_waiters h (as_next s) + mset ws = heap_waiters (as_heap s) (as_next s) \<or>
       heap_waiters h (as_next s) + mset ws = add_mset (Forward i v) (heap_waiters (as_heap s) (as_next s)))"
  proof (cases "State_IsAvailable (mState vv)")
    case True
    from ForwardTo_available [OF I(1,2) fit iv outrefs_pos(1) [OF own(1)] vv True outrefs_pos(1) [OF own(2)]]
    obtain h0 iv' h where f: "ForwardTo (as_heap s) i v = Some (h, mWaiters iv)" "shrinks (as_heap s) h0" "h = h0(i \<mapsto> iv')"
        "heap_waiters h (as_next s) + mset (mWaiters iv) = heap_waiters (as_heap s) (as_next s)" by blast
    have "\<exists>v. as_heap s a = Some v \<and> mKind v' = mKind v \<and> mState v' = mState v" if "a \<noteq> i" "h a = Some v'" for a v'
      using shrinksD(1) [OF f(2), of a v'] that f(3) by (auto dest: core_eqD)
    then show ?thesis using f(1,4) by blast
  next
    case False
    obtain h0 v0 where f: "shrinks (as_heap s) h0" "h0 v = Some v0" "core v0 = core vv" "heap_ok h0 (as_next s)"
        "rc_ok h0 (as_next s) ((outrefs s)(i := outrefs s i + 1))" "ForwardTo (as_heap s) i v = AndThen h0 v (Forward i v)"
      using ForwardTo_unavailable [OF I(1,2) fit iv(1,3) vv False] by blast
    have n: "\<not> State_IsAvailable (mState v0)" using core_eqD [OF f(3)] False by simp
    note at = AndThen_unavailable [OF f(4,5,2) n, of "Forward i v"]
    have "\<exists>u. as_heap s a = Some u \<and> mKind v' = mKind u \<and> mState v' = mState u"
      if "(h0(v \<mapsto> v0\<lparr>mWaiters := Forward i v # mWaiters v0\<rparr>)) a = Some v'" for a v'
      using that vv f(3) shrinksD(1) [OF f(1), of a v'] by (cases "a = v") (auto dest: core_eqD)
    moreover have "heap_waiters (h0(v \<mapsto> v0\<lparr>mWaiters := Forward i v # mWaiters v0\<rparr>)) (as_next s) =
        add_mset (Forward i v) (heap_waiters (as_heap s) (as_next s))"
      using at(4) shrinks_waiters [OF f(1), of "as_next s"] by simp
    ultimately show ?thesis using f(6) at(1) by auto
  qed
  then obtain h ws where call: "ForwardTo (as_heap s) i v = Some (h, ws)"
    and hp: "\<And>a v'. a \<noteq> i \<Longrightarrow> h a = Some v' \<Longrightarrow> \<exists>v. as_heap s a = Some v \<and> mKind v' = mKind v \<and> mState v' = mState v"
    and wt: "heap_waiters h (as_next s) + mset ws = heap_waiters (as_heap s) (as_next s) \<or>
       heap_waiters h (as_next s) + mset ws = add_mset (Forward i v) (heap_waiters (as_heap s) (as_next s))" by blast
  have inv': "av_inv (?s h ws)" by (rule inv_forward [OF inv own fit i call])
  have st: "av_step 0 s (?s h ws)" by (rule av_step.forward [OF own fit i call])
  have K: "keeps_available s (?s h ws)" unfolding keeps_available_def using stable_step [OF inv st] by blast
  have P: "pool (?s h ws) = pool s \<or> pool (?s h ws) = add_mset (Forward i v) (pool s)"
    using wt unfolding pool_call by (auto simp: pool_def as_items_def)
  have "IsUnresolvedIndirect (as_heap (?s h ws)) a \<and> filter_mset (forwards a) (pool (?s h ws)) = {#}"
    if a: "a \<noteq> i" "IsUnresolvedIndirect (as_heap s) a" "filter_mset (forwards a) (pool s) = {#}" "0 < as_ext (?s h ws) a" for a
  proof
    obtain v' where "h a = Some v'" using alive [OF inv' a(4)] by auto
    then show "IsUnresolvedIndirect (as_heap (?s h ws)) a" using hp [OF a(1)] unresolved_core [OF a(2)] by auto
    show "filter_mset (forwards a) (pool (?s h ws)) = {#}" using P a(1,3) by auto
  qed
  then show ?thesis using call inv' K by (intro exI [of _ "?s h ws"]) (simp add: av_ForwardTo_def)
qed

lemma tok_at:
  assumes "i < length (gx_acts s)" "t \<in># pc_toks g st (gx_acts s ! i)"
  shows "t \<in># gx_toks g st s"
proof -
  have "total (pc_toks g st) (gx_acts s) = total (pc_toks g st) ((gx_acts s)[i := PFinished]) + pc_toks g st (gx_acts s ! i)"
    using total_move [OF assms(1), of "pc_toks g st" PFinished "[]"] by (simp add: pc_toks_def)
  then show ?thesis using assms(2) by (simp add: gx_toks_alt)
qed

text \<open>SetAsyncValuePtr on a register without users has stored \<open>r\<close>, or resolved the pending value with it.\<close>

definition stored :: "'a GraphExecutor \<Rightarrow> nat \<Rightarrow> av_ptr \<Rightarrow> av_ptr \<Rightarrow> 'a GraphExecutor \<Rightarrow> bool" where
  "stored s j r b s1 \<longleftrightarrow> av_inv (gx_av s1) \<and> as_next (gx_av s1) = as_next (gx_av s) \<and>
      keeps_available (gx_av s) (gx_av s1) \<and> as_reg (gx_av s1) = as_reg (gx_av s) \<and> as_log (gx_av s1) = as_log (gx_av s) \<and>
      (\<forall>x. reg_value s1 x = (if x = j then Some b else reg_value s x)) \<and> (reg_value s j = None \<or> reg_value s j = Some b) \<and> b < as_next (gx_av s) \<and>
      reg_users s1 = reg_users s \<and> (\<exists>av infos. s1 = s\<lparr>gx_av := av, gx_mAsyncValueInfos := infos\<rparr>) \<and>
      length (gx_mAsyncValueInfos s1) = length (gx_mAsyncValueInfos s) \<and>
      (if reg_value s j = None then as_ext (gx_av s1) = as_ext (gx_av s) \<and> b = r
       else as_ext (gx_av s1) = (as_ext (gx_av s))(r := as_ext (gx_av s) r - 1)) \<and>
      (\<forall>a. reg_value s j \<noteq> Some a \<and> IsUnresolvedIndirect (as_heap (gx_av s)) a \<and> filter_mset (forwards a) (pool (gx_av s)) = {#} \<and>
         0 < as_ext (gx_av s1) a \<longrightarrow> IsUnresolvedIndirect (as_heap (gx_av s1)) a \<and> filter_mset (forwards a) (pool (gx_av s1)) = {#})"

lemma store_fresh:
  assumes "av_inv (gx_av s)" "j < length (gx_mAsyncValueInfos s)" "reg_users s j = 0" "reg_value s j = None" "r < as_next (gx_av s)"
  shows "SetAsyncValuePtr j r s = Some (reg_set j r s)" "stored s j r r (reg_set j r s)"
proof -
  show "SetAsyncValuePtr j r s = Some (reg_set j r s)" using assms by (simp add: SetAsyncValuePtr_def Let_def av_AddRef_0)
  have "\<exists>av infos. reg_set j r s = s\<lparr>gx_av := av, gx_mAsyncValueInfos := infos\<rparr>"
    by (intro exI [of _ "gx_av s"] exI) (simp add: reg_set_def)
  then show "stored s j r r (reg_set j r s)"
    using assms unfolding stored_def by (simp add: reg_set_sel keeps_available_def) (simp add: ext reg_set_sel)
qed

lemma store_pending:
  assumes inv: "av_inv (gx_av s)" and j: "j < length (gx_mAsyncValueInfos s)" "reg_users s j = 0" "reg_value s j = Some b"
    and own: "0 < as_ext (gx_av s) b" "0 < as_ext (gx_av s) r" and fit: "refs_fit (as_heap (gx_av s))"
    and b: "IsUnresolvedIndirect (as_heap (gx_av s)) b" "filter_mset (forwards b) (pool (gx_av s)) = {#}"
  shows "\<exists>av. SetAsyncValuePtr j r s = Some (s\<lparr>gx_av := av\<rparr>) \<and> stored s j r b (s\<lparr>gx_av := av\<rparr>)"
proof -
  obtain av where av: "av_ForwardTo b r (gx_av s) = Some av" "av_inv av" "as_next av = as_next (gx_av s)"
      "as_ext av = (as_ext (gx_av s))(r := as_ext (gx_av s) r - 1)" "as_reg av = as_reg (gx_av s)" "as_log av = as_log (gx_av s)"
      "keeps_available (gx_av s) av"
      "\<forall>a. a \<noteq> b \<and> IsUnresolvedIndirect (as_heap (gx_av s)) a \<and> filter_mset (forwards a) (pool (gx_av s)) = {#} \<and> 0 < as_ext av a \<longrightarrow>
         IsUnresolvedIndirect (as_heap av) a \<and> filter_mset (forwards a) (pool av) = {#}"
    using forward_total [OF inv own fit b] by blast
  have "is_indirect (gx_av s) b" using b(1) by (auto simp: is_indirect_def IsUnresolvedIndirect_def split: option.splits)
  then have "SetAsyncValuePtr j r s = Some (s\<lparr>gx_av := av\<rparr>)"
    using j av(1) by (simp add: SetAsyncValuePtr_def Let_def av_AddRef_0 av_DropRefs_0 [OF inv own(2)])
  moreover have "\<exists>av' infos. s\<lparr>gx_av := av\<rparr> = s\<lparr>gx_av := av', gx_mAsyncValueInfos := infos\<rparr>"
    by (intro exI [of _ av] exI [of _ "gx_mAsyncValueInfos s"]) simp
  moreover have "b < as_next (gx_av s)" using alive [OF inv own(1)] by blast
  ultimately show ?thesis using av(2-8) j(3) unfolding stored_def by (intro exI [of _ av]) simp
qed

lemma res_own_store:
  assumes G: "gx_graph iter g st" and t: "t \<in> res_toks g" and T: "gx_toks g st s = add_mset t (gx_toks g st s')" "t \<notin># gx_toks g st s'"
    and reg: "\<And>j. reg_value s' j = (if j = reg_at g t then Some b else reg_value s j)" and res: "gx_results s' = gx_results s"
    and old: "reg_value s (reg_at g t) = None \<and> b = r \<or> reg_value s (reg_at g t) = Some b \<and> reg_at g t \<in> fst ` set (gx_results s)"
  shows "res_own g st s' a \<le> res_own g st s a + of_bool (a = r \<and> reg_value s (reg_at g t) = None)"
proof -
  have "res_own g st s' a \<le> (\<Sum>x\<in>res_toks g. of_bool (reg_value s (reg_at g x) = Some a \<and>
      (reg_at g x \<notin> fst ` set (gx_results s) \<or> x \<in># gx_toks g st s)) + of_bool (x = t \<and> a = r \<and> reg_value s (reg_at g t) = None))"
    unfolding res_own_def
  proof (rule sum_mono)
    fix x assume x: "x \<in> res_toks g"
    have "reg_at g x \<noteq> reg_at g t" if "x \<noteq> t" using reg_of_inj [OF G, of x t] x t that by (auto simp: res_toks_def)
    then show "of_bool (reg_value s' (reg_at g x) = Some a \<and> (reg_at g x \<notin> fst ` set (gx_results s') \<or> x \<in># gx_toks g st s'))
      \<le> of_bool (reg_value s (reg_at g x) = Some a \<and> (reg_at g x \<notin> fst ` set (gx_results s) \<or> x \<in># gx_toks g st s)) +
        (of_bool (x = t \<and> a = r \<and> reg_value s (reg_at g t) = None) :: nat)"
      using old T reg res by (cases "x = t") auto
  qed
  also have "\<dots> = res_own g st s a + of_bool (a = r \<and> reg_value s (reg_at g t) = None)"
    unfolding sum.distrib res_own_def using sum_one [OF finite_res_toks t] by simp
  finally show ?thesis .
qed

lemma args_own_store:
  assumes G: "gx_graph iter g st" and t: "t \<in> res_toks g" and reg: "\<And>j. j \<noteq> reg_at g t \<Longrightarrow> reg_value s' j = reg_value s j"
    and ran: "gx_ran s' = gx_ran s"
  shows "args_own g s' a = args_own g s a"
proof -
  have ins: "map (reg_value s') (node_ins g k) = map (reg_value s) (node_ins g k)" if "k < nnodes g" for k
  proof (rule map_cong [OF refl])
    fix x assume "x \<in> set (node_ins g k)"
    then show "reg_value s' x = reg_value s x" using res_toks_reg [OF G t that] reg [of x] by auto
  qed
  show ?thesis unfolding args_own_def ran by (rule sum.cong) (simp_all only: ins lessThan_iff)
qed

lemma deliver_unused:
  fixes s :: "'a GraphExecutor"
  assumes G: "gx_graph iter g st" and I: "gx_inv g st s" and i: "i < length (gx_acts s)" "gx_acts s ! i = PResult k n (Some r # rest) ready"
    and u: "users g k n = []" and room: "refs_room (as_heap (gx_av s)) (Suc B)"
  shows "\<exists>s1. SetAsyncValuePtr (reg_of g k n) r s = Some s1 \<and> gx_inv g st (gx_move i (PResult k (n + 1) rest ready) s1)"
proof -
  note J = gx_invD [OF I]
  let ?j = "reg_of g k n" and ?q = "PResult k (n + 1) rest ready"
  have ok: "k < nnodes g" "k \<noteq> st" "length rest + Suc n = nouts g k" "None \<notin> set rest" using J(5) [OF nth_mem [OF i(1)]] i(2) by auto
  have nn: "n < nouts g k" using ok(3) by simp
  have v: "valid_tok g (k, n)" using ok nn by (simp add: valid_tok_def)
  have tk: "pc_toks g st (PResult k n (Some r # rest) ready) = add_mset (k, n) (pc_toks g st ?q)"
    using toks_from_simps(2) [OF nn] by (simp add: pc_toks_def)
  have tot: "total (pc_own a) (gx_acts s) = total (pc_own a) ((gx_acts s)[i := ?q]) + of_bool (a = r)" for a
    using total_move [OF i(1), of "pc_own a" ?q "[]"] i(2) by (auto split: if_splits)
  have "0 < gx_own g st s r" using tot [of r] by (simp add: gx_own_def)
  then have e: "0 < as_ext (gx_av s) r" using J(4) [of r] by simp
  have inT: "(k, n) \<in># gx_toks g st s" by (rule tok_at [OF i(1)]) (simp only: i(2) tk union_single_eq_member)
  have j: "?j < length (gx_mAsyncValueInfos s)" "reg_users s ?j = 0"
    using gx_graphD(13,14) [OF G v] regs_okD(1,2) [OF J(3)] u by simp_all
  have rn: "r < as_next (gx_av s)" using alive [OF J(1) e] by blast
  have t: "(k, n) \<in> res_toks g" using v u by (simp add: res_toks_def)
  have pr: "pending_reg g s (k, n)" if "reg_value s ?j = Some b" for b using undelivered_reg [OF I inT] ok(2) that by simp
  have "\<exists>s1 b. SetAsyncValuePtr ?j r s = Some s1 \<and> stored s ?j r b s1"
  proof (cases "reg_value s ?j")
    case None
    then show ?thesis using store_fresh [OF J(1) j None rn] by blast
  next
    case (Some b)
    have b: "IsUnresolvedIndirect (as_heap (gx_av s)) b" "filter_mset (forwards b) (pool (gx_av s)) = {#}"
      using Some pr [OF Some] by (auto simp: pending_reg_def)
    have "0 < res_own g st s b" using res_own_pos [OF v _ inT] u Some by simp
    then have eb: "0 < as_ext (gx_av s) b" using J(4) [of b] by (simp add: gx_own_def)
    show ?thesis using store_pending [OF J(1) j Some eb e refs_room_fit [OF room] b] by blast
  qed
  then obtain s1 b where call: "SetAsyncValuePtr ?j r s = Some s1" "stored s ?j r b s1" by blast
  note C = call(2) [unfolded stored_def]
  obtain av infos where s1: "s1 = s\<lparr>gx_av := av, gx_mAsyncValueInfos := infos\<rparr>" using C by blast
  define s' where "s' = gx_move i ?q s1"
  have sel: "gx_acts s' = (gx_acts s)[i := ?q]" "gx_mKernelInfos s' = gx_mKernelInfos s" "gx_results s' = gx_results s"
      "gx_closures s' = gx_closures s" "gx_refs s' = gx_refs s" "gx_ran s' = gx_ran s"
      "length (gx_mAsyncValueInfos s') = length (gx_mAsyncValueInfos s)" "reg_users s' = reg_users s" "gx_av s' = gx_av s1" "reg_value s' = reg_value s1"
    using C by (simp_all add: s'_def s1)
  have reg: "reg_value s' x = (if x = ?j then Some b else reg_value s x)" for x using C by (simp add: sel)
  have old: "reg_value s ?j = None \<or> reg_value s ?j = Some b" and rv1: "reg_value s ?j = None \<Longrightarrow> b = r \<and> as_ext (gx_av s1) = as_ext (gx_av s)"
    and rv2: "reg_value s ?j \<noteq> None \<Longrightarrow> as_ext (gx_av s1) = (as_ext (gx_av s))(r := as_ext (gx_av s) r - 1)"
    using C by (auto split: if_splits)
  have cl: "open_closures s' = open_closures s" using C by (simp add: open_closures_def sel)
  have T: "gx_toks g st s = add_mset (k, n) (gx_toks g st s')"
    using sched_move(1) [OF J(2) i, of s' ?q "[]" "{#(k, n)#}"] sel tk u by (simp add: cl)
  have nT: "(k, n) \<notin># gx_toks g st s'" by (rule tok_once(1) [OF J(2) T])
  have own: "gx_own g st s' a \<le> as_ext (gx_av s') a" for a
  proof -
    have "res_own g st s' a \<le> res_own g st s a + of_bool (a = r \<and> reg_value s ?j = None)"
      using res_own_store [OF G t T nT _ sel(3), of b r a] reg old rv1 pr by (fastforce simp: pending_reg_def)
    moreover have "args_own g s' a = args_own g s a" using args_own_store [OF G t _ sel(6)] reg by simp
    ultimately have "gx_own g st s' a + of_bool (a = r) \<le> gx_own g st s a + of_bool (a = r \<and> reg_value s ?j = None)"
      using tot [of a] cl unfolding gx_own_def by (simp add: sel)
    then show ?thesis using J(4) [of a] rv1 rv2 by (cases "reg_value s ?j"; cases "a = r") (simp_all add: sel)
  qed
  have "gx_inv g st s'"
  proof (rule deliver_step [OF G I i _ _ sel(1-8), where t = "(k, n)" and b = b])
    show "pending_reg g s' t'" if t': "pending_reg g s t'" "t' \<in># gx_toks g st s" "t' \<noteq> (k, n)" "fst t' \<noteq> st" "reg_at g t' \<noteq> reg_at g (k, n)" for t'
    proof -
      obtain a where a: "users g (fst t') (snd t') = []" "reg_value s (reg_at g t') = Some a" "IsUnresolvedIndirect (as_heap (gx_av s)) a"
          "filter_mset (forwards a) (pool (gx_av s)) = {#}" "reg_at g t' \<in> fst ` set (gx_results s)"
        using t'(1) by (auto simp: pending_reg_def)
      have "reg_value s ?j \<noteq> Some a"
        using inj_onD [OF regs_okD(5) [OF J(3), unfolded pend_inj_def], of t' "(k, n)"] t' a(2) inT ok(2) by auto
      moreover have "valid_tok g t'" using t'(2) tok_once(2) [OF J(2)] by (metis multi_member_split)
      then have "0 < res_own g st s' a" using res_own_pos [of g t' st s' a] a t' T reg by auto
      then have "0 < as_ext (gx_av s1) a" using own [of a] by (simp add: gx_own_def sel)
      ultimately have "IsUnresolvedIndirect (as_heap (gx_av s1)) a \<and> filter_mset (forwards a) (pool (gx_av s1)) = {#}"
        using C a(3,4) by blast
      then show ?thesis using a t'(5) reg by (auto simp: pending_reg_def sel)
    qed
    show "reg_value s (reg_at g (k, n)) = None \<or> reg_value s (reg_at g (k, n)) = Some b" using old by simp
  qed (use C reg sel ok own tk u in simp_all)
  then show ?thesis using call(1) unfolding s'_def by blast
qed

subsection \<open>Waiting for a result\<close>

lemma fresh_closure_new: "fresh_closure s \<notin> fst ` set (as_reg s)"
proof -
  have "x \<le> fold max xs m \<and> m \<le> fold max xs m" if "x \<in> set xs \<or> x \<le> m" for x m :: nat and xs
    using that
  proof (induction xs arbitrary: m)
    case (Cons y ys)
    have "x \<in> set ys \<or> x \<le> max y m" using Cons.prems by auto
    from Cons.IH [OF this] show ?case by simp
  qed simp
  then have "x \<le> fold max (map fst (as_reg s)) 0" if "x \<in> fst ` set (as_reg s)" for x using that by simp
  then show ?thesis unfolding fresh_closure_def by (metis Suc_n_not_le_n)
qed

lemma andthen_total:
  assumes inv: "av_inv s" and own: "0 < as_ext s a" and w: "w \<notin> fst ` set (as_reg s)"
  shows "\<exists>s'. av_AndThen a w s = Some s' \<and> av_inv s' \<and> as_next s' = as_next s \<and> as_ext s' = as_ext s \<and>
    as_reg s' = as_reg s @ [(w, [a])] \<and> as_log s' = as_log s \<and> keeps_available s s' \<and>
    (\<forall>b. IsUnresolvedIndirect (as_heap s) b \<longrightarrow> IsUnresolvedIndirect (as_heap s') b) \<and>
    (\<forall>b. filter_mset (forwards b) (pool s') = filter_mset (forwards b) (pool s))"
proof -
  note I = av_invD [OF inv]
  obtain v where v: "as_heap s a = Some v" using alive [OF inv own] by blast
  have "\<exists>h ws. AndThen (as_heap s) a (Client w) = Some (h, ws) \<and> (\<forall>b. IsUnresolvedIndirect (as_heap s) b \<longrightarrow> IsUnresolvedIndirect h b) \<and>
      heap_waiters h (as_next s) + mset ws = add_mset (Client w) (heap_waiters (as_heap s) (as_next s))"
  proof (cases "State_IsAvailable (mState v)")
    case True
    then show ?thesis using AndThen_available [OF I(1) v True, of "Client w"] by simp
  next
    case False
    then show ?thesis using AndThen_unavailable [OF I(1,2) v False, of "Client w"] v by (auto simp: IsUnresolvedIndirect_def)
  qed
  then obtain h ws where call: "AndThen (as_heap s) a (Client w) = Some (h, ws)" "\<forall>b. IsUnresolvedIndirect (as_heap s) b \<longrightarrow> IsUnresolvedIndirect h b"
      "heap_waiters h (as_next s) + mset ws = add_mset (Client w) (heap_waiters (as_heap s) (as_next s))" by blast
  let ?s = "RunWaiters_call h ws (s\<lparr>as_reg := as_reg s @ [(w, [a])]\<rparr>)"
  have st: "av_step 0 s ?s" by (rule av_step.andthen [OF own w call(1)])
  have "keeps_available s ?s" unfolding keeps_available_def using stable_step [OF inv st] by blast
  moreover have "pool ?s = add_mset (Client w) (pool s)" using call(3) unfolding pool_call by (simp add: pool_def as_items_def)
  ultimately show ?thesis using call inv_step [OF st inv] by (intro exI [of _ ?s]) (simp add: av_AndThen_def)
qed

lemma inv_andthen:
  fixes s :: "'a GraphExecutor"
  assumes G: "gx_graph iter g st" and I: "gx_inv g st s" and i: "i < length (gx_acts s)" "gx_acts s ! i = p" and pl: "plain_pc p" "plain_pc q"
    and tok: "pc_toks g st p = add_mset (closure_tok c) (pc_toks g st q)" "pc_ready q = pc_ready p" "pc_dec q = pc_dec p"
      "\<And>b. pc_own b p = pc_own b q + closure_own b c"
    and own: "0 < as_ext (gx_av s) a" and ok: "\<And>s :: 'a GraphExecutor. pc_ok g st s q"
    and cok: "\<And>s' :: 'a GraphExecutor. reg_value s' = reg_value s \<Longrightarrow> as_reg (gx_av s') = as_reg (gx_av s) @ [(w, [a])] \<Longrightarrow> closure_ok g st s' (w, c)"
    and w: "w = fresh_closure (gx_av s)"
  shows "\<exists>s1. gx_AndThen a c s = Some s1 \<and> gx_inv g st (gx_move i q s1)"
proof -
  note J = gx_invD [OF I]
  have w': "w \<notin> fst ` set (as_reg (gx_av s))" unfolding w by (rule fresh_closure_new)
  obtain av where av: "av_AndThen a w (gx_av s) = Some av" "av_inv av" "as_next av = as_next (gx_av s)" "as_ext av = as_ext (gx_av s)"
      "as_reg av = as_reg (gx_av s) @ [(w, [a])]" "as_log av = as_log (gx_av s)" "keeps_available (gx_av s) av"
      "\<And>b. IsUnresolvedIndirect (as_heap (gx_av s)) b \<Longrightarrow> IsUnresolvedIndirect (as_heap av) b"
      "\<And>b. filter_mset (forwards b) (pool av) = filter_mset (forwards b) (pool (gx_av s))"
    using andthen_total [OF J(1) own w'] by blast
  define s' where "s' = gx_move i q (s\<lparr>gx_av := av, gx_refs := gx_refs s + 1, gx_closures := gx_closures s @ [(w, c)]\<rparr>)"
  have sel: "gx_acts s' = (gx_acts s)[i := q]" "gx_mKernelInfos s' = gx_mKernelInfos s" "gx_results s' = gx_results s"
      "gx_closures s' = gx_closures s @ [(w, c)]" "gx_refs s' = gx_refs s + 1" "gx_ran s' = gx_ran s"
      "gx_mAsyncValueInfos s' = gx_mAsyncValueInfos s" "gx_av s' = av"
    by (simp_all add: s'_def)
  have rv: "reg_value s' = reg_value s" "reg_users s' = reg_users s" by (rule ext, simp add: reg_value_def reg_users_def sel)+
  have "count_list (as_log (gx_av s)) w = 0" using client_okD(2) [OF av_invD(5) [OF J(1)], of w] w' by simp
  then have nl: "w \<notin> set (as_log (gx_av s))" by (simp add: count_list_0_iff)
  have cl: "open_closures s' = open_closures s @ [(w, c)]" using nl by (simp add: open_closures_def sel av(6))
  note mv = sched_move [OF J(2) i, of s' q "[]" "{#}"]
  have T: "gx_toks g st s' = gx_toks g st s" and S: "sched_ok g st s'" using mv sel tok by (simp_all add: cl)
  have ro: "res_own g st s' b = res_own g st s b" for b by (simp add: res_own_def T rv sel)
  have ao: "args_own g s' b = args_own g s b" for b unfolding args_own_def sel rv by (rule refl)
  have o: "gx_own g st s' b = gx_own g st s b" for b
    using total_move [OF i(1), of "pc_own b" q "[]"] i(2) tok(4) [of b] unfolding gx_own_def ro ao cl by (simp add: sel)
  have "w \<notin> fst ` set (gx_closures s)"
  proof
    assume "w \<in> fst ` set (gx_closures s)"
    then obtain c' where "closure_ok g st s (w, c')" using J(7) by fastforce
    then have "w \<in> fst ` set (as_reg (gx_av s))" by (cases c') force+
    then show False using w' by blast
  qed
  then have d: "distinct (map fst (gx_closures s'))" using J(6) by (simp add: sel)
  have "results_ok g st s'" by (rule results_move [OF J(9) i(1), where new = "[]" and q = q]) (use sel i(2) pl rv in simp_all)
  moreover have "pend_inj g st s'" by (rule pend_inj_mono [OF regs_okD(5) [OF J(3)]]) (simp_all add: T rv)
  ultimately have "gx_inv g st s'"
  proof (intro inv_transfer [OF I, where X = "{#}"])
    show "reg_value s' (reg_at g x) = None \<or> pending_reg g s' x" if "x \<in># gx_toks g st s'" "fst x \<noteq> st" for x
      using undelivered_reg [OF I, of x] that av(8,9) unfolding T pending_reg_def by (auto simp: rv sel)
    show "gx_own g st s' b \<le> as_ext (gx_av s') b" for b unfolding o sel av(4) by (rule J(4))
    show "gx_refs s' = length (filter (\<lambda>p. p \<noteq> PFinished) (gx_acts s')) + length (open_closures s')"
      using J(8) length_filter_update [OF i(1), of "\<lambda>p. p \<noteq> PFinished" q] i(2) cl plain_pcD [OF pl(1)] plain_pcD [OF pl(2)] by (simp add: sel)
    show "pc_ok g st s' p" if "p \<in> set (gx_acts s')" "p \<notin> set (gx_acts s)" for p
      using that ok set_update_subset_insert [of "gx_acts s" i q] by (auto simp: sel)
    show "closure_ok g st s' x" if "x \<in> set (gx_closures s')" "x \<notin> set (gx_closures s)" for x
      using that cok [OF rv(1)] by (simp add: sel av(5))
  qed (use J(6) T S sel rv av d in auto)
  then show ?thesis using av(1) unfolding s'_def gx_AndThen_def Let_def w by simp
qed

subsection \<open>Every step of an activation\<close>

lemma start_reg:
  assumes G: "gx_graph iter g st" and I: "gx_inv g st s" and r: "r < nouts g st"
  shows "\<exists>a. reg_value s (reg_of g st r) = Some a"
  using regs_okD(3) [OF gx_invD(3) [OF I] valid_start [OF G r]] by (auto simp: reg_ok_def split: if_splits)

lemma start_reg_owned:
  assumes G: "gx_graph iter g st" and I: "gx_inv g st s" and r: "r < nouts g st" "(st, r) \<in># gx_toks g st s"
    and a: "reg_value s (reg_of g st r) = Some a"
  shows "0 < as_ext (gx_av s) a"
proof -
  obtain u where u: "u \<in> set (users g st r)" using gx_graphD(17) [OF G r(1)] by (meson last_in_set)
  then have uk: "u < nnodes g" "u \<noteq> st" "reg_of g st r \<in> set (node_ins g u)" using users_ok [OF G valid_start [OF G r(1)]] by blast+
  have nr: "u \<notin> set (gx_ran s)" using undelivered_user [OF I r(2)] u uk by simp
  have "Some a \<in> set (map (reg_value s) (node_ins g u))" using imageI [OF uk(3), of "reg_value s"] a by simp
  then have "0 < count_list (map (reg_value s) (node_ins g u)) (Some a)" by (metis count_list_0_iff not_gr_zero)
  then have "0 < args_own g s a" unfolding args_own_def using uk(1) nr by (intro sum_pos2 [of _ u]) simp_all
  then show ?thesis using gx_invD(4) [OF I, of a] by (simp add: gx_own_def)
qed

lemma act_pseudo:
  assumes G: "gx_graph iter g st" and I: "gx_inv g st s" and i: "i < length (gx_acts s)" "gx_acts s ! i = PPseudo r ready"
  shows "\<exists>s'. gx_act kern tid iter g i s = Some s' \<and> gx_inv g st s'"
proof -
  have r: "r \<le> nouts g st" using gx_invD(5) [OF I nth_mem [OF i(1)]] i(2) by simp
  have n0: "0 < nouts g st" using gx_graphD(5) [OF G] by simp
  obtain q where q: "step_pseudo g st r ready s = Some q"
  proof (cases "r < nouts g st")
    case True
    obtain a us where "reg_value s (reg_of g st r) = Some a" "GetNextUsedBys g st r = Some us"
      using start_reg [OF G I True] start_users [OF G True] by blast
    then have "\<exists>q. step_pseudo g st r ready s = Some q" using True by (cases "r = 0") (auto simp: step_pseudo_def)
    then show ?thesis using that by blast
  next
    case False
    then show ?thesis using that n0 by (simp add: step_pseudo_def)
  qed
  show ?thesis using inv_pseudo [OF G I i q] i gx_graphD(2) [OF G] q by (simp add: gx_act_def)
qed

lemma act_pseudo_wait:
  assumes G: "gx_graph iter g st" and I: "gx_inv g st s" and i: "i < length (gx_acts s)" "gx_acts s ! i = PPseudoWait r ready"
  shows "\<exists>s'. gx_act kern tid iter g i s = Some s' \<and> gx_inv g st s'"
proof -
  have r: "0 < r" "r < nouts g st" using gx_invD(5) [OF I nth_mem [OF i(1)]] i(2) by simp_all
  obtain a where a: "reg_value s (reg_of g st r) = Some a" using start_reg [OF G I r(2)] by blast
  have tk: "pc_toks g st (PPseudoWait r ready) = add_mset (st, r) (pc_toks g st (PPseudo (r + 1) ready))"
    using toks_from_simps(2) [OF r(2)] by (simp add: pc_toks_def)
  have "(st, r) \<in># gx_toks g st s" by (rule tok_at [OF i(1)]) (simp only: i(2) tk union_single_eq_member)
  from start_reg_owned [OF G I r(2) this a] have own: "0 < as_ext (gx_av s) a" .
  obtain s1 where "gx_AndThen a (CBPseudo st r) s = Some s1" "gx_inv g st (gx_move i (PPseudo (r + 1) ready) s1)"
    using inv_andthen [OF G I i, of "PPseudo (r + 1) ready" "CBPseudo st r" a "fresh_closure (gx_av s)"] tk own r a by auto
  then show ?thesis using i gx_graphD(2) [OF G] a by (simp add: gx_act_def)
qed

lemma act_result:
  assumes G: "gx_graph iter g st" and K: "gx_kernels kern B g st" and I: "gx_inv g st s" and i: "i < length (gx_acts s)" "gx_acts s ! i = PResult k n rs ready"
    and room: "refs_room (as_heap (gx_av s)) (Suc B)"
  shows "\<exists>s'. gx_act kern tid iter g i s = Some s' \<and> gx_inv g st s'"
proof (cases rs)
  case Nil
  then show ?thesis using inv_jump(5) [OF G I i(1)] i by (simp add: gx_act_def step_result_def)
next
  case (Cons x rest)
  have ok: "k < nnodes g" "k \<noteq> st" "length rs + n = nouts g k" "None \<notin> set rs" using gx_invD(5) [OF I nth_mem [OF i(1)]] i(2) by auto
  then obtain r where r: "x = Some r" using Cons by (cases x) auto
  have nn: "n < nouts g k" using ok(3) Cons by simp
  have v: "valid_tok g (k, n)" using ok nn by (simp add: valid_tok_def)
  obtain us where ub: "GetNextUsedBys g k n = Some us" using gx_graphD(10) [OF G v] by (metis fst_conv snd_conv)
  have "(k, n) \<in># pc_toks g st (gx_acts s ! i)" using toks_from_simps(2) [OF nn] i(2) by (simp add: pc_toks_def)
  from undelivered_reg [OF I tok_at [OF i(1) this]] ok(2)
  have cond: "case reg_value s (reg_of g k n) of None \<Rightarrow> True | Some a \<Rightarrow> IsUnresolvedIndirect (as_heap (gx_av s)) a"
    by (auto simp: pending_reg_def split: option.splits)
  note st = gx_act_def [of kern tid iter g i s]
  consider "users g k n = []" | "users g k n \<noteq> []" "IsAvailable (as_heap (gx_av s)) r" | "users g k n \<noteq> []" "\<not> IsAvailable (as_heap (gx_av s)) r"
    by blast
  then show ?thesis
  proof cases
    case 1
    obtain s1 where s1: "SetAsyncValuePtr (reg_of g k n) r s = Some s1" "gx_inv g st (gx_move i (PResult k (n + 1) rest ready) s1)"
      using deliver_unused [OF G I i(1) _ 1 room, of r rest ready] i(2) Cons r by blast
    have "gx_act kern tid iter g i s = Some (gx_move i (PResult k (n + 1) rest ready) s1)"
      unfolding st using i cond ub 1 s1(1) Cons r by (simp add: step_result_def)
    then show ?thesis using s1(2) by blast
  next
    case 2
    have "\<exists>s1. SetAsyncValuePtr (reg_of g k n) r s = Some s1 \<and> gx_inv g st (gx_move i (PDecr (users g k n) ready (KResult k (n + 1) rest)) s1)"
      by (rule deliver_used [OF G K I i _ _ ok(1,2) nn 2(1)])
        (use Cons r ok users_ok [OF G v] toks_from_simps(2) [OF nn] available_not_unavailable [OF 2(2)] refs_room_mono [OF room] in
          \<open>auto simp: pc_toks_def\<close>)
    then obtain s1 where s1: "SetAsyncValuePtr (reg_of g k n) r s = Some s1" "gx_inv g st (gx_move i (PDecr (users g k n) ready (KResult k (n + 1) rest)) s1)"
      by blast
    have "gx_act kern tid iter g i s = Some (gx_move i (PDecr (users g k n) ready (KResult k (n + 1) rest)) s1)"
      unfolding st using i cond ub 2 s1(1) Cons r by (simp add: step_result_def)
    then show ?thesis using s1(2) by blast
  next
    case 3
    have "gx_inv g st (gx_move i (PResultWait k n rs ready) s)" using inv_jump(6) [OF G I i(1) _ 3(1)] i(2) Cons by blast
    moreover have "gx_act kern tid iter g i s = Some (gx_move i (PResultWait k n rs ready) s)"
      unfolding st using i cond ub 3 Cons r by (simp add: step_result_def)
    ultimately show ?thesis by blast
  qed
qed

lemma act_result_wait:
  assumes G: "gx_graph iter g st" and I: "gx_inv g st s" and i: "i < length (gx_acts s)" "gx_acts s ! i = PResultWait k n rs ready"
  shows "\<exists>s'. gx_act kern tid iter g i s = Some s' \<and> gx_inv g st s'"
proof -
  have ok: "k < nnodes g" "k \<noteq> st" "length rs + n = nouts g k" "None \<notin> set rs" "rs \<noteq> []" "users g k n \<noteq> []"
    using gx_invD(5) [OF I nth_mem [OF i(1)]] i(2) by auto
  then obtain r rest where rs: "rs = Some r # rest" by (cases rs; cases "hd rs") auto
  have nn: "n < nouts g k" using ok(3) rs by simp
  have tk: "pc_toks g st (PResultWait k n rs ready) = add_mset (k, n) (pc_toks g st (PResult k (n + 1) rest ready))"
    using toks_from_simps(2) [OF nn] by (simp add: pc_toks_def)
  have "0 < gx_own g st s r"
    using total_move [OF i(1), of "pc_own r" PFinished "[]"] i(2) rs by (simp add: gx_own_def)
  then have own: "0 < as_ext (gx_av s) r" using gx_invD(4) [OF I, of r] by simp
  have "\<exists>s1. gx_AndThen r (CBResult k n r) s = Some s1 \<and> gx_inv g st (gx_move i (PResult k (n + 1) rest ready) s1)"
    by (rule inv_andthen [OF G I i]) (use tk own ok rs nn in auto)
  then show ?thesis using i rs by (auto simp: gx_act_def)
qed

lemma act_call:
  assumes G: "gx_graph iter g st" and K: "gx_kernels kern B g st" and I: "gx_inv g st s" and i: "i < length (gx_acts s)" "gx_acts s ! i = PCall k n r"
    and room: "refs_room (as_heap (gx_av s)) (Suc B)"
  shows "\<exists>s'. gx_act kern tid iter g i s = Some s' \<and> gx_inv g st s'"
proof -
  have ok: "k < nnodes g" "k \<noteq> st" "n < nouts g k" "users g k n \<noteq> []" "\<not> IsUnavailable (as_heap (gx_av s)) r"
    using gx_invD(5) [OF I nth_mem [OF i(1)]] i(2) by auto
  have v: "valid_tok g (k, n)" using ok by (simp add: valid_tok_def)
  obtain us where ub: "GetNextUsedBys g k n = Some us" using gx_graphD(10) [OF G v] by (metis fst_conv snd_conv)
  have "\<exists>s1. SetAsyncValuePtr (reg_of g k n) r s = Some s1 \<and> gx_inv g st (gx_move i (PDecr (users g k n) [] KLoop) s1)"
    by (rule deliver_used [OF G K I i _ _ ok(1-4)])
      (use ok users_ok [OF G v] refs_room_mono [OF room] in \<open>auto simp: pc_toks_def\<close>)
  then show ?thesis using i ub by (auto simp: gx_act_def)
qed

theorem gx_act_total:
  assumes G: "gx_graph iter g st" and K: "gx_kernels kern B g st" and I: "gx_inv g st s"
    and i: "i < length (gx_acts s)" "gx_acts s ! i \<noteq> PFinished" and room: "refs_room (as_heap (gx_av s)) (Suc B)"
  shows "\<exists>s'. gx_act kern tid iter g i s = Some s' \<and> gx_inv g st s'"
proof (cases "gx_acts s ! i")
  case (PPseudo r ready)
  then show ?thesis using act_pseudo [OF G I i(1)] by blast
next
  case (PPseudoWait r ready)
  then show ?thesis using act_pseudo_wait [OF G I i(1)] by blast
next
  case (PDecr us ready c)
  then show ?thesis using inv_decr [OF I i(1)] inv_jump(1) [OF G I i(1)] i(1) by (cases us) (fastforce simp: gx_act_def)+
next
  case (PLoop ready)
  then show ?thesis
    using inv_jump(2) [OF G I i(1)] inv_collect_start [OF G I] inv_finish [OF G I i(1)] i(1)
    by (cases ready; cases "i = 0") (fastforce simp: gx_act_def)+
next
  case (PSpawn x ready)
  then show ?thesis using inv_spawn [OF G I i(1)] inv_jump(3) [OF G I i(1)] i(1) by (cases ready) (auto simp: gx_act_def)
next
  case (PRun k)
  then show ?thesis using inv_run_kernel [OF G K I i(1) _ refs_room_mono [OF room]] i(1) by (fastforce simp: gx_act_def)
next
  case (PDrop k as rs)
  then show ?thesis using inv_drop [OF I i(1)] inv_jump(4) [OF G I i(1)] i(1) by (cases as) (fastforce simp: gx_act_def)+
next
  case (PResult k n rs ready)
  then show ?thesis using act_result [OF G K I i(1) _ room] by blast
next
  case (PResultWait k n rs ready)
  then show ?thesis using act_result_wait [OF G I i(1)] by blast
next
  case (PCall k n r)
  then show ?thesis using act_call [OF G K I i(1) _ room] by blast
next
  case (PCallPseudo k n)
  obtain us where "GetNextUsedBys g k n = Some us" using inv_callpseudo(1) [OF G I i(1) PCallPseudo] by blast
  then show ?thesis using inv_callpseudo(2) [OF G I i(1) PCallPseudo] PCallPseudo i(1) by (simp add: gx_act_def)
next
  case (PCollect js)
  then show ?thesis using inv_collect [OF G I i(1)] inv_collect_end [OF G I i(1)] i(1) by (cases js) (fastforce simp: gx_act_def)+
qed (use i in simp)

end
