(* ===== verification/Graph_Execution.thy ===== *)
theory Graph_Execution
  imports Graph_Steps
begin

text \<open>
  Executions of GraphExecutor: from static Execute, every interleaving of the activations of the executor
  with the steps of the clients of the async values. Each kernel runs once, when its arguments are there;
  no step fails; nothing is left over.
\<close>

subsection \<open>Steps of the clients\<close>

text \<open>The call of a closure of the executor starts an activation.\<close>

fun callback :: "closure \<Rightarrow> gx_pc" where
  "callback (CBResult k n r) = PCall k n r"
| "callback (CBPseudo k n) = PCallPseudo k n"

definition gx_called :: "'a GraphExecutor \<Rightarrow> 'a av_sys \<Rightarrow> (nat \<times> closure) list" where
  "gx_called s av = filter (\<lambda>p. fst p \<in> set (as_log av) \<and> fst p \<notin> set (as_log (gx_av s))) (gx_closures s)"

definition gx_env :: "'a GraphExecutor \<Rightarrow> 'a av_sys \<Rightarrow> 'a GraphExecutor" where
  "gx_env s av = s\<lparr>gx_av := av, gx_acts := gx_acts s @ map (callback \<circ> snd) (gx_called s av)\<rparr>"

text \<open>The rule for clients, which the code relies on and cannot check: they drop only references of their own, and they
  do not resolve or forward an indirect value that static Execute returned for a result that is still to come.
  Until that result is delivered the reference to the indirect value counts as the executor's: its register
  refers to the value without a reference of its own, so a caller that drops the value before the kernel
  delivers leaves the register with a destroyed value (lemma \<open>GraphExecutor_dropped_result_fails\<close>).\<close>

definition env_ok :: "'f AsyncGraph \<Rightarrow> nat \<Rightarrow> 'a GraphExecutor \<Rightarrow> 'a av_sys \<Rightarrow> bool" where
  "env_ok g st s av \<longleftrightarrow> (\<forall>a. gx_own g st s a \<le> as_ext av a) \<and>
     (\<forall>t. t \<in># gx_toks g st s \<longrightarrow> pending_reg g s t \<longrightarrow> pending_reg g (s\<lparr>gx_av := av\<rparr>) t)"

lemma node_log:
  assumes "RunWaiters_node x s = Some (s', new)"
  shows "set (as_log s) \<subseteq> set (as_log s') \<and> as_reg s' = as_reg s \<and> as_next s' = as_next s"
proof (cases x)
  case (Node w)
  then show ?thesis using assms by (cases w) (auto split: if_splits option.splits)
next
  case (Done w)
  then show ?thesis using assms by (cases w) auto
qed

lemma step_log:
  assumes "av_step tid s s'"
  shows "set (as_log s) \<subseteq> set (as_log s')" "set (as_reg s) \<subseteq> set (as_reg s')" "as_next s \<le> as_next s'"
proof -
  have r: "as_log s1 = as_log s \<and> as_next s1 = as_next s" if "RunWhenReady s seen w = Some s1" for seen w s1
    using that by (auto simp: RunWhenReady_def split: list.splits simp del: AndThen_all.simps)
  have "set (as_log s) \<subseteq> set (as_log s') \<and> set (as_reg s) \<subseteq> set (as_reg s') \<and> as_next s \<le> as_next s'"
    using assms
  proof (cases rule: av_step.cases)
    case (ready vs w seen s1)
    then show ?thesis using r by auto
  next
    case (run k x xs s1 new)
    then show ?thesis using node_log [OF run(5)] by simp
  qed (auto simp: HostContext_Construct_def)
  then show "set (as_log s) \<subseteq> set (as_log s')" "set (as_reg s) \<subseteq> set (as_reg s')" "as_next s \<le> as_next s'" by blast+
qed

lemma callback_totals:
  "total (pc_toks g st) (map (callback \<circ> snd) cs) = mset (map (closure_tok \<circ> snd) cs)"
  "total (pc_own a) (map (callback \<circ> snd) cs) = sum_list (map (closure_own a \<circ> snd) cs)"
  "total pc_ready (map (callback \<circ> snd) cs) = {#}" "total pc_dec (map (callback \<circ> snd) cs) = {#}"
  "filter (\<lambda>p. p \<noteq> PFinished) (map (callback \<circ> snd) cs) = map (callback \<circ> snd) cs"
proof -
  have c: "pc_toks g st (callback c) = {#closure_tok c#}" "pc_own a (callback c) = closure_own a c" "pc_ready (callback c) = {#}"
    "pc_dec (callback c) = {#}" "callback c \<noteq> PFinished" for c by (cases c; simp add: pc_toks_def)+
  show "total (pc_toks g st) (map (callback \<circ> snd) cs) = mset (map (closure_tok \<circ> snd) cs)"
    "total (pc_own a) (map (callback \<circ> snd) cs) = sum_list (map (closure_own a \<circ> snd) cs)"
    "total pc_ready (map (callback \<circ> snd) cs) = {#}" "total pc_dec (map (callback \<circ> snd) cs) = {#}"
    "filter (\<lambda>p. p \<noteq> PFinished) (map (callback \<circ> snd) cs) = map (callback \<circ> snd) cs"
    by (induction cs) (simp_all add: c)
qed

lemma closures_split:
  assumes "set (as_log (gx_av s)) \<subseteq> set (as_log av)"
  shows "mset (open_closures s) = mset (gx_called s av) + mset (open_closures (gx_env s av))"
proof -
  have "open_closures (gx_env s av) = filter (\<lambda>p. \<not> (fst p \<in> set (as_log av) \<and> fst p \<notin> set (as_log (gx_av s)))) (open_closures s)"
    using assms by (auto simp: open_closures_def gx_env_def intro!: filter_cong)
  moreover have "gx_called s av = filter (\<lambda>p. fst p \<in> set (as_log av) \<and> fst p \<notin> set (as_log (gx_av s))) (open_closures s)"
    by (auto simp: gx_called_def open_closures_def intro!: filter_cong)
  ultimately show ?thesis
    using multiset_partition [of "mset (open_closures s)" "\<lambda>p. fst p \<in> set (as_log av) \<and> fst p \<notin> set (as_log (gx_av s))"]
    by (simp only: mset_filter)
qed

lemma inv_env:
  assumes I: "gx_inv g st s" and st: "av_step tid (gx_av s) av" and ok: "env_ok g st s av"
  shows "gx_inv g st (gx_env s av)"
proof -
  note J = gx_invD [OF I]
  note L = step_log [OF st]
  define s' where "s' = gx_env s av"
  let ?new = "map (callback \<circ> snd) (gx_called s av)"
  have sel: "gx_acts s' = gx_acts s @ ?new" "gx_mKernelInfos s' = gx_mKernelInfos s" "gx_results s' = gx_results s"
      "gx_closures s' = gx_closures s" "gx_refs s' = gx_refs s" "gx_ran s' = gx_ran s"
      "gx_mAsyncValueInfos s' = gx_mAsyncValueInfos s" "gx_av s' = av"
    by (simp_all add: s'_def gx_env_def)
  have rv: "reg_value s' = reg_value s" "reg_users s' = reg_users s" by (rule ext, simp add: reg_value_def reg_users_def sel)+
  have inv': "av_inv av" by (rule inv_step [OF st J(1)])
  have K: "keeps_available (gx_av s) av" unfolding keeps_available_def using stable_step [OF J(1) st] by blast
  have ne: "gx_acts s \<noteq> []" using J(9) by (simp add: results_ok_def)
  have part: "mset (open_closures s) = mset (gx_called s av) + mset (open_closures s')" unfolding s'_def by (rule closures_split [OF L(1)])
  then have pl: "mset (map f (open_closures s)) = mset (map f (gx_called s av)) + mset (map f (open_closures s'))" for f :: "nat \<times> closure \<Rightarrow> 'z"
    using arg_cong [OF part, of "image_mset f"] by simp
  have i: "0 < length (gx_acts s)" using ne by simp
  have T: "gx_toks g st s' = gx_toks g st s" and S: "sched_ok g st s'"
    using sched_move [OF J(2) i refl, of s' "gx_acts s ! 0" ?new "{#}"] pl [of "closure_tok \<circ> snd"] by (simp_all add: sel callback_totals)
  have "sum_list (map (closure_own a \<circ> snd) (open_closures s)) = sum_list (map (closure_own a \<circ> snd) (gx_called s av)) +
      sum_list (map (closure_own a \<circ> snd) (open_closures s'))" for a
    using arg_cong [OF pl [of "closure_own a \<circ> snd"], of sum_mset] by (simp only: sum_mset_sum_list sum_mset.union)
  moreover have "args_own g s' a = args_own g s a" for a unfolding args_own_def sel rv by (rule refl)
  moreover have "res_own g st s' a = res_own g st s a" for a unfolding res_own_def T sel rv by (rule refl)
  ultimately have o: "gx_own g st s' a = gx_own g st s a" for a
    unfolding gx_own_def by (simp add: sel callback_totals)
  have "plain_pc (callback c)" for c by (cases c) simp_all
  then have pc: "plain_pc p" if "p \<in> set ?new" for p using that by auto
  have R: "results_ok g st s'"
  proof -
    note R' = J(9) [unfolded results_ok_def]
    have "collect_left (gx_acts s' ! k) = [] \<and> (\<forall>js. gx_acts s' ! k \<noteq> PCollect js)" if k: "k < length (gx_acts s')" "0 < k" for k
    proof (cases "k < length (gx_acts s)")
      case True
      then show ?thesis using R' k(2) by (simp add: sel nth_append)
    next
      case False
      then have "gx_acts s' ! k \<in> set ?new" using k(1) by (simp add: sel nth_append)
      then show ?thesis using plain_pcD pc by blast
    qed
    moreover have "gx_acts s' ! 0 = gx_acts s ! 0" using ne by (simp add: sel nth_append)
    ultimately show ?thesis using R' ne unfolding results_ok_def sel rv by simp
  qed
  have "gx_inv g st s'"
  proof (rule inv_transfer [OF I, where X = "{#}"])
    show "reg_value s' (reg_at g x) = None \<or> pending_reg g s' x" if "x \<in># gx_toks g st s'" "fst x \<noteq> st" for x
    proof -
      have "pending_reg g s' x = pending_reg g (s\<lparr>gx_av := av\<rparr>) x" by (simp add: pending_reg_def rv sel)
      then show ?thesis using undelivered_reg [OF I, of x] that ok unfolding T env_ok_def rv by blast
    qed
    show "gx_own g st s' a \<le> as_ext (gx_av s') a" for a unfolding o sel using ok by (simp add: env_ok_def)
    show "pend_inj g st s'" by (rule pend_inj_mono [OF regs_okD(5) [OF J(3)]]) (simp_all add: T rv)
    show "gx_refs s' = length (filter (\<lambda>p. p \<noteq> PFinished) (gx_acts s')) + length (open_closures s')"
      using J(8) arg_cong [OF part, of size] by (simp add: sel callback_totals)
    show "pc_ok g st s' p" if p: "p \<in> set (gx_acts s')" "p \<notin> set (gx_acts s)" for p
    proof -
      obtain w c where c: "p = callback c" "(w, c) \<in> set (gx_closures s)" "w \<in> set (as_log av)"
        using p by (auto simp: sel gx_called_def)
      have "closure_ok g st s' (w, c)" using closure_ok_mono [OF J(7) [OF c(2)], of s'] L(2) rv by (simp add: sel)
      moreover have "\<not> IsUnavailable (as_heap av) a \<and> a < as_next av" if "(w, [a]) \<in> set (as_reg av)" for a
      proof
        show "\<not> IsUnavailable (as_heap av) a" by (rule called_available [OF inv' that c(3)]) simp
        show "a < as_next av" using av_invD(3) [OF inv'] that by (metis list.set_intros(1))
      qed
      ultimately show ?thesis using c(1) by (cases c) (auto simp: sel)
    qed
  qed (use inv' L K S T J(6) R sel rv in simp_all)
  then show ?thesis by (simp add: s'_def)
qed

subsection \<open>The start\<close>

lemma finite_toks: "finite {t. valid_tok g t}"
proof -
  have "{t. valid_tok g t} \<subseteq> (\<Union>k<nnodes g. Pair k ` {..<nouts g k})" unfolding valid_tok_def by (auto simp: image_iff)
  then show ?thesis by (rule finite_subset) simp
qed

lemma count_toks_from: "count (toks_from g k 0) t = of_bool (fst t = k \<and> snd t < nouts g k)"
proof -
  have "distinct (map (Pair k) [0..<nouts g k])" by (simp add: distinct_map inj_on_def)
  then show ?thesis unfolding toks_from_def distinct_count_atmost_1 by (cases t) (auto simp: image_iff)
qed

lemma count_kernel_toks: "count (kernel_toks g K) t = count K (fst t) * of_bool (snd t < nouts g (fst t))"
  by (induction K) (auto simp: count_toks_from)

lemma count_tok_users: "count (tok_users g T) k = (\<Sum>t\<in>#T. count (mset (users g (fst t) (snd t))) k)"
  by (induction T) simp_all

lemma owed_all:
  assumes G: "gx_graph iter g st" and k: "k < nnodes g"
  shows "count (tok_users g (mset_set {t. valid_tok g t})) k = length (node_ins g k)"
proof -
  let ?V = "{t. valid_tok g t}"
  have "count (tok_users g (mset_set ?V)) k = (\<Sum>t\<in>?V. count (mset (users g (fst t) (snd t))) k)"
    by (simp add: count_tok_users sum_unfold_sum_mset)
  also have "\<dots> = (\<Sum>t\<in>?V. of_bool (reg_at g t \<in> set (node_ins g k)))"
  proof (rule sum.cong [OF refl])
    fix t assume "t \<in> ?V"
    then have v: "valid_tok g t" by simp
    have "count (mset (users g (fst t) (snd t))) k = of_bool (k \<in> set (users g (fst t) (snd t)))"
      using gx_graphD(11) [OF G v] unfolding distinct_count_atmost_1 by simp
    then show "count (mset (users g (fst t) (snd t))) k = of_bool (reg_at g t \<in> set (node_ins g k))"
      unfolding gx_graphD(12) [OF G v] using k by simp
  qed
  also have "\<dots> = card {t \<in> ?V. reg_at g t \<in> set (node_ins g k)}"
    using finite_toks [of g] by (simp add: sum.If_cases of_bool_def Int_def)
  also have "\<dots> = card (reg_at g ` {t \<in> ?V. reg_at g t \<in> set (node_ins g k)})"
    by (rule card_image [symmetric], rule inj_on_subset [OF gx_graphD(7) [OF G]]) auto
  also have "reg_at g ` {t \<in> ?V. reg_at g t \<in> set (node_ins g k)} = set (node_ins g k)"
    using gx_graphD(9) [OF G k] by (auto simp: image_iff) metis
  also have "card \<dots> = length (node_ins g k)" by (rule distinct_card [OF gx_graphD(8) [OF G k]])
  finally show ?thesis .
qed

text \<open>The loop of InitializeArgumentRegisters: every reference it adds belongs to a kernel that uses the argument.\<close>

definition args_stored :: "'f AsyncGraph \<Rightarrow> nat \<Rightarrow> nat \<Rightarrow> av_ptr list \<Rightarrow> 'a GraphExecutor \<Rightarrow> 'a GraphExecutor \<Rightarrow> bool" where
  "args_stored g st n as s s' \<longleftrightarrow> (\<exists>av infos. s' = s\<lparr>gx_av := av, gx_mAsyncValueInfos := infos\<rparr>) \<and>
     quiet (as_next (gx_av s)) (gx_av s) (gx_av s') \<and> as_next (gx_av s') = as_next (gx_av s) \<and>
     length (gx_mAsyncValueInfos s') = length (gx_mAsyncValueInfos s) \<and> reg_users s' = reg_users s \<and>
     (\<forall>m<length as. reg_value s' (reg_of g st (n + m)) = Some (as ! m)) \<and>
     (\<forall>j. j \<notin> set (drop n (node_outs g st)) \<longrightarrow> reg_value s' j = reg_value s j) \<and>
     (\<forall>a. as_ext (gx_av s') a + args_own g s a = as_ext (gx_av s) a + args_own g s' a)"

lemma start_outs_distinct: "gx_graph iter g st \<Longrightarrow> distinct (node_outs g st)"
  unfolding distinct_conv_nth using reg_of_inj [of iter g st "(st, _)" "(st, _)"] valid_start by (fastforce simp: reg_of_def)

lemma init_args_ok:
  assumes G: "gx_graph iter g st" and n: "n + length as = nouts g st" and inv: "av_inv (gx_av s)" and ran: "gx_ran s = []"
    and len: "length (gx_mAsyncValueInfos s) = length (fi_mAsyncValueInfos (ag_mFunctionInfo g))" and us: "\<And>j. j < length (fi_mAsyncValueInfos (ag_mFunctionInfo g)) \<Longrightarrow> reg_users s j = graph_uses g j"
    and none: "\<And>j. j \<in> set (drop n (node_outs g st)) \<Longrightarrow> reg_value s j = None"
    and own: "\<forall>a \<in> set as. 0 < as_ext (gx_av s) a"
    and room: "refs_room (as_heap (gx_av s)) (\<Sum>m\<leftarrow>[n..<nouts g st]. length (users g st m))"
  shows "\<exists>s'. init_args (drop n (node_outs g st)) as s = Some s' \<and> args_stored g st n as s s'"
  using n inv ran len us none own room
proof (induction "as" arbitrary: n s)
  case Nil
  have "args_stored g st n [] s s"
    using quiet_refl [OF Nil(2) unwatched_next [OF Nil(2)]] unfolding args_stored_def
    by (auto intro!: exI [of _ "gx_av s"] exI [of _ "gx_mAsyncValueInfos s"])
  then show ?case using Nil(1) by simp
next
  case (Cons a as)
  let ?j = "reg_of g st n" and ?k = "\<Sum>m\<leftarrow>[Suc n..<nouts g st]. length (users g st m)"
  have nn: "n < nouts g st" using Cons.prems(1) by simp
  note v = valid_start [OF G nn]
  have dr: "drop n (node_outs g st) = ?j # drop (Suc n) (node_outs g st)" using Cons_nth_drop_Suc [OF nn] by (simp add: reg_of_def)
  have nd: "?j \<notin> set (drop (Suc n) (node_outs g st))" using distinct_drop [OF start_outs_distinct [OF G], of n] unfolding dr by simp
  have j: "?j < length (gx_mAsyncValueInfos s)" "reg_users s ?j = length (users g st n)" "reg_value s ?j = None"
    using gx_graphD(13,14) [OF G v] Cons.prems(4,5,6) dr by simp_all
  have "refs_room (as_heap (gx_av s)) (length (users g st n) + ?k)" using Cons.prems(8) nn by (simp add: upt_conv_Cons)
  then obtain av where av: "av_AddRef a (length (users g st n)) (gx_av s) = Some av" "quiet (as_next (gx_av s)) (gx_av s) av" "refs_room (as_heap av) ?k"
      "as_ext av = (as_ext (gx_av s))(a := as_ext (gx_av s) a + length (users g st n))" "as_next av = as_next (gx_av s)"
    using av_AddRef_ok [OF Cons.prems(2) _ _ unwatched_next [OF Cons.prems(2)]] Cons.prems(7) by (metis list.set_intros(1))
  define s1 where "s1 = reg_set ?j a (s\<lparr>gx_av := av\<rparr>)"
  have reg: "reg_value s1 x = (if x = ?j then Some a else reg_value s x)" for x using j(1) by (simp add: s1_def reg_set_sel)
  have sel: "gx_av s1 = av" "gx_ran s1 = gx_ran s" "length (gx_mAsyncValueInfos s1) = length (gx_mAsyncValueInfos s)" "reg_users s1 = reg_users s"
    by (simp_all add: s1_def reg_set_sel ext)
  have "\<exists>s'. init_args (drop (Suc n) (node_outs g st)) as s1 = Some s' \<and> args_stored g st (Suc n) as s1 s'"
  proof (rule Cons.IH)
    show "reg_value s1 x = None" if "x \<in> set (drop (Suc n) (node_outs g st))" for x using that Cons.prems(6) dr reg nd by auto
    show "\<forall>x \<in> set as. 0 < as_ext (gx_av s1) x" using Cons.prems(7) by (simp add: sel av(4))
  qed (use Cons.prems av sel quietD(1) [OF av(2)] in simp_all)
  then obtain s' where s': "init_args (drop (Suc n) (node_outs g st)) as s1 = Some s'" "args_stored g st (Suc n) as s1 s'" by blast
  have "init_args (drop n (node_outs g st)) (a # as) s = Some s'" unfolding dr using j av(1) s'(1) by (simp add: s1_def)
  moreover have "args_own g s1 x = args_own g s x + (if x = a then length (users g st n) else 0)" for x
    using args_own_put [OF G v _ _ _ sel(2), of a x] j(3) reg Cons.prems(3) by simp
  then have ao: "as_ext av x + args_own g s x = as_ext (gx_av s) x + args_own g s1 x" for x by (simp add: av(4))
  note S = s'(2) [unfolded args_stored_def]
  have "args_stored g st n (a # as) s s'" unfolding args_stored_def
  proof (intro conjI allI impI)
    obtain av' infos where "s' = s1\<lparr>gx_av := av', gx_mAsyncValueInfos := infos\<rparr>" using S by blast
    then have "s' = s\<lparr>gx_av := av', gx_mAsyncValueInfos := infos\<rparr>" by (simp add: s1_def reg_set_def)
    then show "\<exists>av infos. s' = s\<lparr>gx_av := av, gx_mAsyncValueInfos := infos\<rparr>" by blast
    show "quiet (as_next (gx_av s)) (gx_av s) (gx_av s')" by (rule quiet_trans [OF av(2)]) (use S in \<open>simp add: sel av(5)\<close>)
    show "reg_value s' (reg_of g st (n + m)) = Some ((a # as) ! m)" if "m < length (a # as)" for m
    proof (cases m)
      case 0
      then show ?thesis using S nd reg by simp
    next
      case (Suc m')
      then show ?thesis using S that by simp
    qed
    show "reg_value s' x = reg_value s x" if "x \<notin> set (drop n (node_outs g st))" for x using that S reg unfolding dr by simp
    show "as_ext (gx_av s') x + args_own g s x = as_ext (gx_av s) x + args_own g s' x" for x
    proof -
      have "as_ext (gx_av s') x + args_own g s1 x = as_ext av x + args_own g s' x" using S by (simp add: sel)
      then show ?thesis using ao [of x] by linarith
    qed
  qed (use S sel av(5) in simp_all)
  ultimately show ?case by blast
qed

text \<open>What the caller of static Execute must provide, beyond what InitializeArgumentRegisters asserts: a value for every
  result of the start node (more are ignored), each referenced by the caller, and room in the reference counts.
  The first value must not be unavailable. The code does not test this: ProcessArgumentsAsPseudoKernel takes
  result 0 of the start node as available, and a kernel then runs with an argument that is not there (lemma
  \<open>GraphExecutor_first_argument_untested\<close> of theory Graph_Limits).\<close>

definition gx_call_ok :: "'f AsyncGraph \<Rightarrow> nat \<Rightarrow> av_ptr list \<Rightarrow> 'a av_sys \<Rightarrow> bool" where
  "gx_call_ok g st args av \<longleftrightarrow> nouts g st \<le> length args \<and> (\<forall>a \<in> set (take (nouts g st) args). 0 < as_ext av a) \<and>
     \<not> IsUnavailable (as_heap av) (hd args) \<and> refs_room (as_heap av) (\<Sum>m\<leftarrow>[0..<nouts g st]. length (users g st m))"

lemma init_args_take: "init_args is (take (length is) as) s = init_args is as s"
  by (induction "is" "as" s rule: init_args.induct) (auto intro!: Option.bind_cong)

lemma sched_start:
  assumes G: "gx_graph iter g st" and s: "gx_mKernelInfos s = map KernelInfo_new (fi_mKernelInfos (ag_mFunctionInfo g))"
    "gx_acts s = [PPseudo 0 []]" "gx_closures s = []" "gx_ran s = []"
  shows "gx_toks g st s = mset_set {t. valid_tok g t}" "sched_ok g st s"
proof -
  have K: "gx_mKernelInfos s ! k = int (length (node_ins g k))" "0 < length (node_ins g k)" if "k < nnodes g" "k \<noteq> st" for k
  proof -
    show "0 < length (node_ins g k)" using gx_graphD(6) [OF G that] by simp
    then show "gx_mKernelInfos s ! k = int (length (node_ins g k))"
      using gx_graphD(15,16) [OF G] that s(1) by (simp add: KernelInfo_new_def max_def Suc_le_eq)
  qed
  have W: "count (gx_waiting g st s) k = of_bool (k < nnodes g \<and> k \<noteq> st)" for k using K by (auto simp: count_waiting)
  have R: "gx_ready s = {#}" by (simp add: gx_ready_def s)
  have T0: "count (gx_toks g st s) t = of_bool (valid_tok g t)" for t
    using W gx_graphD(3) [OF G] by (auto simp: gx_toks_def s R open_closures_def count_kernel_toks count_toks_from valid_tok_def)
  show T: "gx_toks g st s = mset_set {t. valid_tok g t}"
    by (rule multiset_eqI) (simp add: T0 finite_toks count_mset_set')
  have "count (gx_owed g st s) k = length (node_ins g k)" if "k < nnodes g" for k
    using owed_all [OF G that] by (simp add: gx_owed_def T s)
  then show "sched_ok g st s" using gx_graphD(15) [OF G] K W R T0 unfolding sched_ok_def by (simp add: s)
qed

lemma execute_exact:
  assumes G: "gx_graph iter g st" and inv: "av_inv av" and ok: "gx_call_ok g st args av" and len: "length args = nouts g st"
  shows "\<exists>s. GraphExecutor_Execute g args av = Some s \<and> gx_inv g st s"
proof -
  obtain s0 where s0: "GraphExecutor_new g av = Some s0" "gx_av s0 = av" "gx_closures s0 = []" "gx_acts s0 = [PPseudo 0 []]" "gx_ran s0 = []"
      "gx_results s0 = []" "gx_refs s0 = 1" "gx_mKernelInfos s0 = map KernelInfo_new (fi_mKernelInfos (ag_mFunctionInfo g))"
      "length (gx_mAsyncValueInfos s0) = length (fi_mAsyncValueInfos (ag_mFunctionInfo g))"
      "\<And>j. j < length (gx_mAsyncValueInfos s0) \<Longrightarrow> reg_users s0 j = graph_uses g j" "\<And>j. j < length (gx_mAsyncValueInfos s0) \<Longrightarrow> reg_value s0 j = None"
    using gx_graphD(1) [OF G] by (simp add: GraphExecutor_new_def reg_users_def reg_value_def graph_uses_def)
  have un: "users g (fst t) (snd t) \<noteq> [] \<and> (\<exists>m<nouts g st. t = (st, m))" if "valid_tok g t" "fst t = st" for t
    using that gx_graphD(17) [OF G] by (cases t) (auto simp: valid_tok_def)
  have vj: "reg_at g t < length (gx_mAsyncValueInfos s0)" if "valid_tok g t" for t using gx_graphD(13) [OF G that] s0(9) by simp
  have ao0: "args_own g s0 a = 0" for a
  proof -
    have "reg_value s0 j = None" if "k < nnodes g" "j \<in> set (node_ins g k)" for k j
      using gx_graphD(9) [OF G that] vj s0(11) by metis
    then have "Some a \<notin> set (map (reg_value s0) (node_ins g k))" if "k < nnodes g" for k using that by force
    then show ?thesis unfolding args_own_def by (simp add: count_list_0_iff)
  qed
  have "\<exists>s. init_args (drop 0 (node_outs g st)) args s0 = Some s \<and> args_stored g st 0 args s0 s"
  proof (rule init_args_ok [OF G])
    show "reg_value s0 j = None" if "j \<in> set (drop 0 (node_outs g st))" for j
      using that vj [OF valid_start [OF G]] s0(11) by (fastforce simp: reg_of_def in_set_conv_nth)
  qed (use ok len inv s0 in \<open>simp_all add: gx_call_ok_def\<close>)
  then obtain s where s: "init_args (node_outs g st) args s0 = Some s" "args_stored g st 0 args s0 s" by auto
  note S = s(2) [unfolded args_stored_def]
  obtain av' infos where "s = s0\<lparr>gx_av := av', gx_mAsyncValueInfos := infos\<rparr>" using S by blast
  then have sel: "gx_closures s = []" "gx_acts s = [PPseudo 0 []]" "gx_ran s = []" "gx_results s = []" "gx_refs s = 1"
      "gx_mKernelInfos s = map KernelInfo_new (fi_mKernelInfos (ag_mFunctionInfo g))"
    using s0 by simp_all
  note T = sched_start [OF G sel(6,2,1,3)]
  have in1: "reg_value s (reg_of g st m) = Some (args ! m)" "args ! m < as_next (gx_av s)" if "m < nouts g st" for m
  proof -
    show "reg_value s (reg_of g st m) = Some (args ! m)" using S len that by simp
    have "0 < as_ext av (args ! m)" using ok len that by (auto simp: gx_call_ok_def)
    then show "args ! m < as_next (gx_av s)" using alive [OF inv] S s0(2) by metis
  qed
  have out: "reg_value s (reg_at g t) = None" if t: "valid_tok g t" "fst t \<noteq> st" for t
  proof -
    have "reg_at g t \<notin> set (node_outs g st)"
      using reg_of_inj [OF G t(1) valid_start [OF G]] t(2) by (fastforce simp: in_set_conv_nth reg_of_def)
    then show ?thesis using S s0(11) [OF vj [OF t(1)]] by simp
  qed
  have "reg_ok g st s t" if t: "valid_tok g t" for t
  proof (cases "fst t = st")
    case True
    then have "snd t < nouts g st" using t by (auto simp: valid_tok_def)
    from in1 [OF this] show ?thesis using T(1) t True finite_toks [of g] by (simp add: reg_ok_def)
  next
    case False
    then show ?thesis using T(1) t out [OF t False] finite_toks [of g] by (simp add: reg_ok_def)
  qed
  moreover have "pend_inj g st s" unfolding pend_inj_def T(1) using out finite_toks [of g] by (intro inj_onI) auto
  moreover have "reg_users s j = graph_uses g j" if "j < length (fi_mAsyncValueInfos (ag_mFunctionInfo g))" for j using S s0(9,10) that by simp
  moreover have "\<not> IsUnavailable (as_heap (gx_av s)) (args ! 0)" "0 < nouts g st"
  proof -
    show n: "0 < nouts g st" using gx_graphD(5) [OF G] by simp
    then have "hd args = args ! 0" using len by (cases args) auto
    moreover have "args ! 0 < as_next av" using in1(2) [OF n] S s0(2) by simp
    ultimately show "\<not> IsUnavailable (as_heap (gx_av s)) (args ! 0)"
      using ok S s0(2) quietD(8) [of "as_next av" av "gx_av s"] by (simp add: gx_call_ok_def)
  qed
  ultimately have regs: "regs_ok g st s" using S s0(9) in1 [of 0] unfolding regs_ok_def by simp
  have "res_own g st s a = 0" for a
  proof -
    have "reg_value s (reg_at g t) = None" if "t \<in> res_toks g" for t
      using that out [of t] un [of t] by (auto simp: res_toks_def)
    then show ?thesis unfolding res_own_def by simp
  qed
  then have own: "gx_own g st s a \<le> as_ext (gx_av s) a" for a
  proof -
    have "as_ext (gx_av s) a = as_ext av a + args_own g s a" using S ao0 [of a] s0(2) by (metis add.right_neutral)
    then show ?thesis using \<open>\<And>a. res_own g st s a = 0\<close> by (simp add: gx_own_def sel open_closures_def)
  qed
  have "gx_inv g st s" unfolding gx_inv_def
    using T(2) regs own S quietD(1) [of "as_next (gx_av s0)" "gx_av s0" "gx_av s"] by (simp add: sel open_closures_def results_ok_def)
  moreover have "GraphExecutor_Execute g args av = Some s"
    using s0(1) s(1) gx_graphD(2) [OF G] by (simp add: GraphExecutor_Execute_def InitializeArgumentRegisters_def)
  ultimately show ?thesis by blast
qed

lemma execute_ok:
  assumes G: "gx_graph iter g st" and inv: "av_inv av" and ok: "gx_call_ok g st args av"
  shows "\<exists>s. GraphExecutor_Execute g args av = Some s \<and> gx_inv g st s"
proof -
  let ?as = "take (nouts g st) args"
  have "hd ?as = hd args" using gx_graphD(5) [OF G] by (simp add: hd_take)
  then have "gx_call_ok g st ?as av" "length ?as = nouts g st" using ok by (simp_all add: gx_call_ok_def)
  then obtain s where "GraphExecutor_Execute g ?as av = Some s" "gx_inv g st s" using execute_exact [OF G inv] by blast
  moreover have "GraphExecutor_Execute g ?as av = GraphExecutor_Execute g args av"
    unfolding GraphExecutor_Execute_def InitializeArgumentRegisters_def gx_graphD(2) [OF G] by (simp add: init_args_take)
  ultimately show ?thesis by auto
qed

end
