(* ===== verification/Graph_Build.thy ===== *)
theory Graph_Build
  imports Graph_Execution
begin

text \<open>
  BuildGraph makes of well-formed nodes a graph on which GraphExecutor can run.
\<close>

text \<open>The graphs that the executor supports. Node \<open>st\<close> is the only node without inputs; every node has a result; no
  name is produced twice, every input is produced by a node, no node uses a name twice, and every result of
  the start node (an argument of the run) is used. BuildGraph accepts other nodes without a warning, and the
  executor then misbehaves: a node that uses a name twice never gets ready, a node without results runs when
  its first input is ready, a further node without inputs never runs, and an argument that nobody uses loses
  a reference of the caller (each shown on a run in theory Graph_Limits).\<close>

definition good_nodes :: "'f AsyncNode list \<Rightarrow> nat \<Rightarrow> bool" where
  "good_nodes nodes st \<longleftrightarrow> st < length nodes \<and> an_mInputNames (nodes ! st) = [] \<and>
     list_all (\<lambda>k. an_mOutputNames (nodes ! k) \<noteq> [] \<and> distinct (an_mInputNames (nodes ! k)) \<and>
        (k \<noteq> st \<longrightarrow> an_mInputNames (nodes ! k) \<noteq> []) \<and>
        list_all (\<lambda>x. list_ex (\<lambda>n. x \<in> set (an_mOutputNames n)) nodes) (an_mInputNames (nodes ! k))) [0..<length nodes] \<and>
     distinct (concat (map an_mOutputNames nodes)) \<and>
     list_all (\<lambda>x. list_ex (\<lambda>n. x \<in> set (an_mInputNames n)) nodes) (an_mOutputNames (nodes ! st))"

lemma good_nodesD:
  assumes "good_nodes nodes st"
  shows "st < length nodes" "an_mInputNames (nodes ! st) = []"
    "\<And>k. k < length nodes \<Longrightarrow> an_mOutputNames (nodes ! k) \<noteq> []" "\<And>k. k < length nodes \<Longrightarrow> distinct (an_mInputNames (nodes ! k))"
    "\<And>k. k < length nodes \<Longrightarrow> k \<noteq> st \<Longrightarrow> an_mInputNames (nodes ! k) \<noteq> []"
    "\<And>k x. k < length nodes \<Longrightarrow> x \<in> set (an_mInputNames (nodes ! k)) \<Longrightarrow> \<exists>j<length nodes. x \<in> set (an_mOutputNames (nodes ! j))"
    "distinct (concat (map an_mOutputNames nodes))"
    "\<And>x. x \<in> set (an_mOutputNames (nodes ! st)) \<Longrightarrow> \<exists>j<length nodes. x \<in> set (an_mInputNames (nodes ! j))"
proof -
  note G = assms [unfolded good_nodes_def list_all_iff list_ex_iff]
  have at: "\<exists>j<length nodes. P (nodes ! j)" if "\<exists>n \<in> set nodes. P n" for P using that by (metis in_set_conv_nth)
  show "st < length nodes" "an_mInputNames (nodes ! st) = []" "distinct (concat (map an_mOutputNames nodes))" using G by blast+
  show "\<exists>j<length nodes. x \<in> set (an_mInputNames (nodes ! j))" if "x \<in> set (an_mOutputNames (nodes ! st))" for x
    by (rule at) (use G that in blast)
  fix k assume "k < length nodes"
  then have k: "k \<in> set [0..<length nodes]" by simp
  show "an_mOutputNames (nodes ! k) \<noteq> []" "distinct (an_mInputNames (nodes ! k))" using G k by blast+
  show "an_mInputNames (nodes ! k) \<noteq> []" if "k \<noteq> st" using G k that by blast
  show "\<exists>j<length nodes. x \<in> set (an_mOutputNames (nodes ! j))" if "x \<in> set (an_mInputNames (nodes ! k))" for x
    by (rule at) (use G k that in blast)
qed

lemma num_defs_one: "distinct (concat (map an_mOutputNames nodes)) \<Longrightarrow> num_defs nodes x = of_bool (\<exists>n \<in> set nodes. x \<in> set (an_mOutputNames n))"
proof -
  assume d: "distinct (concat (map an_mOutputNames nodes))"
  have "num_defs nodes x = count_list (concat (map an_mOutputNames nodes)) x"
    unfolding num_defs_def by (induction nodes) simp_all
  also have "\<dots> = of_bool (x \<in> set (concat (map an_mOutputNames nodes)))"
    using d by (metis count_list_eq_length_filter count_mset distinct_count_atmost_1 of_bool_def)
  finally show ?thesis by simp
qed

lemma num_uses_card:
  assumes "\<And>k. k < length nodes \<Longrightarrow> distinct (an_mInputNames (nodes ! k))"
  shows "num_uses nodes x = card (users_of nodes x)"
proof -
  have "count_list (an_mInputNames (nodes ! k)) x = of_bool (x \<in> set (an_mInputNames (nodes ! k)))" if "k < length nodes" for k
    using assms [OF that] by (metis count_mset distinct_count_atmost_1 of_bool_def)
  then have "num_uses nodes x = (\<Sum>k<length nodes. of_bool (x \<in> set (an_mInputNames (nodes ! k))))"
    unfolding num_uses_def by (simp add: sum_list_sum_nth atLeast0LessThan)
  then show ?thesis by (simp add: users_of_def sum.If_cases of_bool_def lessThan_def Collect_conj_eq)
qed

lemma output_unique:
  assumes "good_nodes nodes st" "k < length nodes" "k' < length nodes" "n < length (an_mOutputNames (nodes ! k))"
    "n' < length (an_mOutputNames (nodes ! k'))" "an_mOutputNames (nodes ! k) ! n = an_mOutputNames (nodes ! k') ! n'"
  shows "k = k' \<and> n = n'"
proof -
  have d: "distinct (concat (map an_mOutputNames nodes))" by (rule good_nodesD(7) [OF assms(1)])
  have one: "num_defs nodes x \<le> 1" for x using num_defs_one [OF d, of x] by simp
  have m: "an_mOutputNames (nodes ! k) ! n \<in> set (an_mOutputNames (nodes ! k))" "an_mOutputNames (nodes ! k) ! n \<in> set (an_mOutputNames (nodes ! k'))"
    using assms(4-6) nth_mem by metis+
  have k: "k = k'" using unique_producer [OF one assms(2) m(1)] unique_producer [OF one assms(3) m(2)] by simp
  moreover have "distinct (an_mOutputNames (nodes ! k))" using d assms(2) by (auto simp: distinct_concat_iff)
  ultimately show ?thesis using assms(4-6) by (simp add: nth_eq_iff_index_eq)
qed

theorem build_gx_graph:
  assumes iter: "\<forall>m. finite (dom m) \<longrightarrow> distinct (iter m) \<and> set (iter m) = dom m" and fresh: "fresh_graph g" and good: "good_nodes (ag_mAsyncNodes g) st"
  shows "gx_graph iter (AsyncGraph_BuildGraph iter g) st"
proof -
  let ?nodes = "ag_mAsyncNodes g" and ?h = "AsyncGraph_BuildGraph iter g"
  let ?ids = "ag_mNameAndAsyncIdPair ?h" and ?fi = "ag_mFunctionInfo ?h" and ?N = "graph_names (ag_mAsyncNodes g)"
  note D = good_nodesD [OF good]
  have d1: "num_defs ?nodes x = of_bool (\<exists>n \<in> set ?nodes. x \<in> set (an_mOutputNames n))" for x by (rule num_defs_one [OF D(7)])
  then have "\<forall>x. num_defs ?nodes x \<le> 1" by simp
  note B = build_spec [OF iter fresh this, unfolded Let_def]
  have B1: "ag_mAsyncNodes ?h = ?nodes" "ag_mIsConstructed ?h" "dom ?ids = ?N" "inj_on ?ids (dom ?ids)" "ran ?ids = {0..<card ?N}"
      "length (fi_mAsyncValueInfos ?fi) = card ?N" "length (fi_mKernelInfos ?fi) = length ?nodes"
    and B2: "\<And>x. x \<in> ?N \<Longrightarrow> fi_mAsyncValueInfos ?fi ! the (?ids x) = \<lparr>avi_mUserCount = num_uses ?nodes x + num_defs ?nodes x - 1, avi_mValue = None\<rparr>"
    and B3: "\<And>i. i < length ?nodes \<Longrightarrow> fi_mKernelInfos ?fi ! i = (if an_mOutputNames (?nodes ! i) = [] then 0 else int (length (an_mInputNames (?nodes ! i))))"
      "\<And>i. i < length ?nodes \<Longrightarrow> ag_mUsedByKernlTable ?h i = Some (map (\<lambda>x. sorted_list_of_set (users_of ?nodes x)) (an_mOutputNames (?nodes ! i)))"
    using B by blast+
  have N: "x \<in> ?N" if "k < length ?nodes" "x \<in> set (an_mInputNames (?nodes ! k)) \<union> set (an_mOutputNames (?nodes ! k))" for k x
    using that unfolding graph_names_def by (meson UN_I nth_mem)
  have id: "?ids x = Some (async_id ?h x)" if "x \<in> ?N" for x
    using that B1(3) by (auto simp: async_id_def split: option.splits)
  have inj: "x = y" if "x \<in> ?N" "y \<in> ?N" "async_id ?h x = async_id ?h y" for x y
    using inj_onD [OF B1(4), of x y] id [OF that(1)] id [OF that(2)] that B1(3) by simp
  have no: "nouts ?h k = length (an_mOutputNames (?nodes ! k))" for k by (simp add: node_outs_def B1(1))
  have ro: "reg_of ?h k n = async_id ?h (an_mOutputNames (?nodes ! k) ! n)" if "n < nouts ?h k" for k n
    using that by (simp add: reg_of_def node_outs_def B1(1))
  have vt: "valid_tok ?h t \<longleftrightarrow> fst t < length ?nodes \<and> snd t < length (an_mOutputNames (?nodes ! fst t))" for t
    by (simp add: valid_tok_def B1(1) no)
  have om: "an_mOutputNames (?nodes ! fst t) ! snd t \<in> ?N" if "valid_tok ?h t" for t using N [of "fst t"] that unfolding vt by simp
  have ins: "(reg_at ?h t \<in> set (node_ins ?h k)) = (an_mOutputNames (?nodes ! fst t) ! snd t \<in> set (an_mInputNames (?nodes ! k)))"
    if "valid_tok ?h t" "k < length ?nodes" for t k
  proof -
    have r: "reg_at ?h t = async_id ?h (an_mOutputNames (?nodes ! fst t) ! snd t)" using ro that(1) by (simp add: valid_tok_def)
    have "an_mOutputNames (?nodes ! fst t) ! snd t = x" if "x \<in> set (an_mInputNames (?nodes ! k))" "reg_at ?h t = async_id ?h x" for x
      using inj [OF om [OF \<open>valid_tok ?h t\<close>], of x] N [OF \<open>k < length ?nodes\<close>, of x] that r by simp
    then show ?thesis by (auto simp: node_ins_def B1(1) r)
  qed
  have out: "\<exists>t. valid_tok ?h t \<and> reg_at ?h t = async_id ?h x" if jx: "j < length ?nodes" "x \<in> set (an_mOutputNames (?nodes ! j))" for j x
  proof -
    obtain n where "n < length (an_mOutputNames (?nodes ! j))" "an_mOutputNames (?nodes ! j) ! n = x" using jx(2) by (metis in_set_conv_nth)
    then show ?thesis using jx(1) ro [of n j] by (intro exI [of _ "(j, n)"]) (simp add: vt no)
  qed
  have us: "GetNextUsedBys ?h (fst t) (snd t) = Some (sorted_list_of_set (users_of ?nodes (an_mOutputNames (?nodes ! fst t) ! snd t)))"
    if "valid_tok ?h t" for t using that B3(2) by (simp add: GetNextUsedBys_def vt)
  have fin: "finite (users_of ?nodes x)" for x by (simp add: users_of_def)
  have usd: "users_of ?nodes (an_mOutputNames (?nodes ! fst t) ! snd t) = {k. k < length ?nodes \<and> reg_at ?h t \<in> set (node_ins ?h k)}" if "valid_tok ?h t" for t
    using ins [OF that] by (auto simp: users_of_def)
  have c1: "start_node ?h = Some st" unfolding start_node_def find_Some_iff B1(1)
    using D(1,2,5) by (intro exI [of _ st]) auto
  have c2: "inj_on (\<lambda>t. reg_at ?h t) {t. valid_tok ?h t}"
  proof (rule inj_onI)
    fix t t' assume t: "t \<in> {t. valid_tok ?h t}" "t' \<in> {t. valid_tok ?h t}" "reg_at ?h t = reg_at ?h t'"
    then have "an_mOutputNames (?nodes ! fst t) ! snd t = an_mOutputNames (?nodes ! fst t') ! snd t'"
      using inj [OF om om, of t t'] ro by (simp add: valid_tok_def)
    then show "t = t'" using output_unique [OF good, of "fst t" "fst t'" "snd t" "snd t'"] t by (simp add: vt prod_eq_iff)
  qed
  have c3: "distinct (node_ins ?h k)" if "k < length ?nodes" for k
  proof -
    have "inj_on (async_id ?h) (set (an_mInputNames (?nodes ! k)))" by (rule inj_onI, rule inj) (use N [OF that] in blast)+
    then show ?thesis using D(4) [OF that] by (simp add: node_ins_def distinct_map B1(1))
  qed
  have c4: "\<exists>t. valid_tok ?h t \<and> reg_at ?h t = j" if kj: "k < length ?nodes" "j \<in> set (node_ins ?h k)" for k j
  proof -
    obtain x where x: "x \<in> set (an_mInputNames (?nodes ! k))" "j = async_id ?h x" using kj(2) by (auto simp: node_ins_def B1(1))
    then show ?thesis using D(6) [OF kj(1) x(1)] out by blast
  qed
  have c5: "\<exists>us. GetNextUsedBys ?h (fst t) (snd t) = Some us \<and> distinct us \<and>
      set us = {k. k < length ?nodes \<and> reg_at ?h t \<in> set (node_ins ?h k)}" if "valid_tok ?h t" for t
    using us [OF that] usd [OF that] fin by simp
  have c6: "reg_at ?h t < length (fi_mAsyncValueInfos ?fi) \<and> graph_uses ?h (reg_at ?h t) = length (users ?h (fst t) (snd t))" if t: "valid_tok ?h t" for t
  proof -
    let ?x = "an_mOutputNames (?nodes ! fst t) ! snd t"
    have r: "reg_at ?h t = the (?ids ?x)" using ro t id [OF om [OF t]] by (simp add: valid_tok_def)
    have "reg_at ?h t \<in> ran ?ids" unfolding r using id [OF om [OF t]] by (auto simp: ran_def)
    moreover have "\<exists>n \<in> set ?nodes. ?x \<in> set (an_mOutputNames n)" using t unfolding vt by (meson nth_mem)
    then have "num_defs ?nodes ?x = 1" by (simp only: d1 of_bool_eq)
    moreover have "num_uses ?nodes ?x = card (users_of ?nodes ?x)" by (rule num_uses_card [OF D(4)])
    ultimately show ?thesis using B1(5,6) B2 [OF om [OF t]] us [OF t] unfolding graph_uses_def r by simp
  qed
  have c7: "fi_mKernelInfos ?fi ! k = int (length (node_ins ?h k))" if "k < length ?nodes" for k
    using B3(1) [OF that] D(3) [OF that] by (simp add: node_ins_def B1(1))
  have c8: "users ?h st n \<noteq> []" if n: "n < nouts ?h st" for n
  proof -
    have v: "valid_tok ?h (st, n)" using n D(1) by (simp add: vt no)
    have "an_mOutputNames (?nodes ! st) ! n \<in> set (an_mOutputNames (?nodes ! st))" using n by (simp add: no)
    then have "users_of ?nodes (an_mOutputNames (?nodes ! st) ! n) \<noteq> {}" using D(8) [of "an_mOutputNames (?nodes ! st) ! n"] unfolding users_of_def by blast
    then show ?thesis using us [OF v] fin by simp
  qed
  have "finite (dom ?ids)" unfolding B1(3) graph_names_def by simp
  then have it: "distinct (iter ?ids)" "set (iter ?ids) = ?N" using iter B1(3) by simp_all
  have c9: "distinct (map (async_id ?h) (iter ?ids))" 
  proof -
    have "inj_on (async_id ?h) (set (iter ?ids))" unfolding it(2) by (rule inj_onI, rule inj)
    then show ?thesis using it(1) by (simp add: distinct_map)
  qed
  have c10: "\<exists>t. valid_tok ?h t \<and> reg_at ?h t = j" if jj: "j \<in> set (map (async_id ?h) (iter ?ids))" for j
  proof -
    obtain x where x: "x \<in> ?N" "j = async_id ?h x" using jj it(2) by auto
    obtain nd where nd: "nd \<in> set ?nodes" "x \<in> set (an_mInputNames nd) \<union> set (an_mOutputNames nd)"
      using x(1) unfolding graph_names_def by blast
    obtain k where "k < length ?nodes" "?nodes ! k = nd" using nd(1) by (metis in_set_conv_nth)
    then obtain k' where "k' < length ?nodes" "x \<in> set (an_mOutputNames (?nodes ! k'))" using D(6) [of k x] nd(2) by blast
    then show ?thesis using out [of k' x] x(2) by blast
  qed
  have c11: "node_ins ?h st = []" "node_outs ?h st \<noteq> []" "\<And>k. k < length ?nodes \<Longrightarrow> k \<noteq> st \<Longrightarrow> node_ins ?h k \<noteq> []"
    using D(1,2,3,5) by (simp_all add: node_ins_def node_outs_def B1(1))
  have c12: "\<forall>t. valid_tok ?h t \<longrightarrow> (\<exists>us. GetNextUsedBys ?h (fst t) (snd t) = Some us \<and> distinct us \<and>
      set us = {k. k < length ?nodes \<and> reg_at ?h t \<in> set (node_ins ?h k)}) \<and>
      reg_at ?h t < length (fi_mAsyncValueInfos ?fi) \<and> graph_uses ?h (reg_at ?h t) = length (users ?h (fst t) (snd t))"
    using c5 c6 by blast
  have c13: "\<forall>k<length ?nodes. \<forall>j \<in> set (node_ins ?h k). \<exists>t. valid_tok ?h t \<and> reg_at ?h t = j" using c4 by blast
  have c14: "set (map (async_id ?h) (iter ?ids)) = reg_at ?h ` {t. valid_tok ?h t}"
  proof (intro equalityI subsetI)
    fix j assume "j \<in> set (map (async_id ?h) (iter ?ids))"
    then show "j \<in> reg_at ?h ` {t. valid_tok ?h t}" using c10 [of j] by blast
  next
    fix j assume "j \<in> reg_at ?h ` {t. valid_tok ?h t}"
    then obtain t where t: "valid_tok ?h t" "j = reg_at ?h t" by blast
    then have "j = async_id ?h (an_mOutputNames (?nodes ! fst t) ! snd t)" using ro by (simp add: valid_tok_def)
    then show "j \<in> set (map (async_id ?h) (iter ?ids))" using om [OF t(1)] it(2) by simp
  qed
  show ?thesis unfolding gx_graph_def B1(1)
    by (intro conjI B1(2,7) c1 D(1) c2 c9 c11(1,2) c12 c13 c14) (simp_all add: c3 c7 c8 c11(3))
qed

text \<open>The graphs of the executor: BuildGraph on well-formed nodes, for any iteration order of the name map.\<close>

definition built_graph :: "((string \<rightharpoonup> nat) \<Rightarrow> string list) \<Rightarrow> 'f AsyncGraph \<Rightarrow> nat \<Rightarrow> bool" where
  "built_graph iter g st \<longleftrightarrow> (\<forall>m. finite (dom m) \<longrightarrow> distinct (iter m) \<and> set (iter m) = dom m) \<and>
     (\<exists>g0. fresh_graph g0 \<and> good_nodes (ag_mAsyncNodes g0) st \<and> g = AsyncGraph_BuildGraph iter g0)"

lemma built_gx_graph: "built_graph iter g st \<Longrightarrow> gx_graph iter g st"
  unfolding built_graph_def using build_gx_graph by blast


lemma build_names:
  assumes iter: "\<forall>m. finite (dom m) \<longrightarrow> distinct (iter m) \<and> set (iter m) = dom m" and fresh: "fresh_graph g" and good: "good_nodes (ag_mAsyncNodes g) st"
  shows "ran (ag_mNameAndAsyncIdPair (AsyncGraph_BuildGraph iter g)) = {0..<card (graph_names (ag_mAsyncNodes g))}"
    "length (fi_mAsyncValueInfos (ag_mFunctionInfo (AsyncGraph_BuildGraph iter g))) = card (graph_names (ag_mAsyncNodes g))"
    "dom (ag_mNameAndAsyncIdPair (AsyncGraph_BuildGraph iter g)) = graph_names (ag_mAsyncNodes g)"
proof -
  have "num_defs (ag_mAsyncNodes g) x \<le> 1" for x using num_defs_one [OF good_nodesD(7) [OF good], of x] by simp
  then have d: "\<forall>x. num_defs (ag_mAsyncNodes g) x \<le> 1" by simp
  note B = build_spec [OF iter fresh d, unfolded Let_def]
  show "ran (ag_mNameAndAsyncIdPair (AsyncGraph_BuildGraph iter g)) = {0..<card (graph_names (ag_mAsyncNodes g))}"
    "length (fi_mAsyncValueInfos (ag_mFunctionInfo (AsyncGraph_BuildGraph iter g))) = card (graph_names (ag_mAsyncNodes g))"
    "dom (ag_mNameAndAsyncIdPair (AsyncGraph_BuildGraph iter g)) = graph_names (ag_mAsyncNodes g)"
    using B by blast+
qed

lemma build_outputs:
  assumes "fresh_graph g"
  shows "ag_mOutputNames (AsyncGraph_BuildGraph iter g) =
    filter (\<lambda>x. avi_mUserCount (fi_mAsyncValueInfos (ag_mFunctionInfo (AsyncGraph_BuildGraph iter g)) !
        the (ag_mNameAndAsyncIdPair (AsyncGraph_BuildGraph iter g) x)) = 0) (iter (ag_mNameAndAsyncIdPair (AsyncGraph_BuildGraph iter g)))"
proof -
  have none: "ag_mOutputNames g = []" using assms by (auto simp: fresh_graph_def CreateAsyncGraph_def)
  show ?thesis unfolding AsyncGraph_BuildGraph_def Let_def by (simp add: none)
qed

lemma executor_users:
  assumes "GraphExecutor_new h av = Some s" "i < length (fi_mAsyncValueInfos (ag_mFunctionInfo h))"
  shows "reg_users s i = avi_mUserCount (fi_mAsyncValueInfos (ag_mFunctionInfo h) ! i)"
  using assms by (auto simp: GraphExecutor_new_def reg_users_def split: if_splits)

text \<open>RunAsyncGraph makes room for GetNumOutputs() results. Static Execute fills exactly these: the registers it
  collects are those of the output names, in the same order.\<close>

lemma result_regs_outputs:
  assumes iter: "\<forall>m. finite (dom m) \<longrightarrow> distinct (iter m) \<and> set (iter m) = dom m" and fresh: "fresh_graph g" and good: "good_nodes (ag_mAsyncNodes g) st"
    and h: "h = AsyncGraph_BuildGraph iter g" and s: "GraphExecutor_new h av = Some s"
  shows "result_regs iter h s = map (async_id h) (ag_mOutputNames h)" "length (result_regs iter h s) = AsyncGraph_GetNumOutputs h"
proof -
  let ?ids = "ag_mNameAndAsyncIdPair h" and ?infos = "fi_mAsyncValueInfos (ag_mFunctionInfo h)"
  note B = build_names [OF iter fresh good, folded h]
  have "finite (dom ?ids)" unfolding B(3) by (simp add: graph_names_def)
  then have it: "set (iter ?ids) = dom ?ids" using iter by blast
  have at: "async_id h x = the (?ids x)" "reg_users s (the (?ids x)) = avi_mUserCount (?infos ! the (?ids x))" if x: "x \<in> set (iter ?ids)" for x
  proof -
    obtain i where i: "?ids x = Some i" using x it by blast
    then have "i \<in> ran ?ids" by (rule ranI)
    then have "i < length ?infos" unfolding B(1,2) by simp
    then show "async_id h x = the (?ids x)" "reg_users s (the (?ids x)) = avi_mUserCount (?infos ! the (?ids x))"
      using i executor_users [OF s, of i] by (simp_all add: async_id_def)
  qed
  have "filter (\<lambda>x. reg_users s (async_id h x) = 0) (iter ?ids) = ag_mOutputNames h"
    unfolding build_outputs [OF fresh, of iter, folded h] by (rule filter_cong [OF refl]) (simp add: at)
  then show e: "result_regs iter h s = map (async_id h) (ag_mOutputNames h)" by (simp add: result_regs_def filter_map o_def)
  show "length (result_regs iter h s) = AsyncGraph_GetNumOutputs h" unfolding e by (simp add: AsyncGraph_GetNumOutputs_def)
qed

end
