(* ===== verification/Graph_Correct.thy ===== *)
theory Graph_Correct
  imports Graph_Build
begin

text \<open>
  Correctness of GraphExecutor: the runs of a graph that BuildGraph made, what every reachable state
  satisfies, why a run ends, and the state in which it ends.
\<close>

subsection \<open>Runs\<close>

inductive gx_step :: "('f \<Rightarrow> 'a payload list \<Rightarrow> 'a frame_op list) \<Rightarrow> u16 \<Rightarrow> ((string \<rightharpoonup> nat) \<Rightarrow> string list) \<Rightarrow> 'f AsyncGraph \<Rightarrow> nat \<Rightarrow> nat \<Rightarrow>
    'a GraphExecutor \<Rightarrow> 'a GraphExecutor \<Rightarrow> bool" for kern tid iter g st B where
  act: "refs_room (as_heap (gx_av s)) (Suc B) \<Longrightarrow> gx_act kern tid iter g i s = Some s' \<Longrightarrow> gx_step kern tid iter g st B s s'"
| client: "av_step tid (gx_av s) av \<Longrightarrow> env_ok g st s av \<Longrightarrow> gx_step kern tid iter g st B s (gx_env s av)"

inductive gx_reach :: "('f \<Rightarrow> 'a payload list \<Rightarrow> 'a frame_op list) \<Rightarrow> u16 \<Rightarrow> ((string \<rightharpoonup> nat) \<Rightarrow> string list) \<Rightarrow> 'f AsyncGraph \<Rightarrow> nat \<Rightarrow> nat \<Rightarrow>
    'a GraphExecutor \<Rightarrow> bool" for kern tid iter g st B where
  start: "av_reach tid av \<Longrightarrow> gx_call_ok g st args av \<Longrightarrow> GraphExecutor_Execute g args av = Some s \<Longrightarrow> gx_reach kern tid iter g st B s"
| step: "gx_reach kern tid iter g st B s \<Longrightarrow> gx_step kern tid iter g st B s s' \<Longrightarrow> gx_reach kern tid iter g st B s'"

lemma gx_act_live: "gx_act kern tid iter g i s = Some s' \<Longrightarrow> i < length (gx_acts s) \<and> gx_acts s ! i \<noteq> PFinished"
  by (auto simp: gx_act_def split: if_splits)

lemma gx_reach_inv:
  assumes G: "gx_graph iter g st" and K: "gx_kernels kern B g st" and "gx_reach kern tid iter g st B s"
  shows "gx_inv g st s"
  using assms(3)
proof (induction rule: gx_reach.induct)
  case (start av args s)
  then show ?case using execute_ok [OF G av_reach_inv [OF start(1)] start(2)] by auto
next
  case (step s s')
  from step(2) show ?case
  proof (cases rule: gx_step.cases)
    case (act i)
    then show ?thesis using gx_act_total [OF G K step(3) _ _ act(1), of i tid] gx_act_live [OF act(2)] by auto
  next
    case (client av)
    then show ?thesis using inv_env [OF step(3)] by blast
  qed
qed

subsection \<open>How a run ends\<close>

text \<open>The work that is left: every kernel that has not run and every result that is not delivered has a weight that
  covers the steps it still needs.\<close>

definition tok_work :: "'f AsyncGraph \<Rightarrow> nat \<Rightarrow> nat \<Rightarrow> nat" where
  "tok_work g k n = 6 + length (users g k n)"

definition toks_work :: "'f AsyncGraph \<Rightarrow> nat \<Rightarrow> nat \<Rightarrow> nat" where
  "toks_work g k n = (\<Sum>m\<leftarrow>[n..<nouts g k]. tok_work g k m)"

definition kernel_work :: "'f AsyncGraph \<Rightarrow> nat \<Rightarrow> nat" where
  "kernel_work g k = 5 + length (node_ins g k) + toks_work g k 0"

text \<open>A ready kernel that waits in a list will cost one more activation.\<close>

definition ready_work :: "'f AsyncGraph \<Rightarrow> nat list \<Rightarrow> nat" where
  "ready_work g ks = (\<Sum>k\<leftarrow>ks. kernel_work g k + 2)"

fun cont_work :: "'f AsyncGraph \<Rightarrow> nat \<Rightarrow> gx_cont \<Rightarrow> nat" where
  "cont_work g st (KPseudo r) = 2 + toks_work g st r"
| "cont_work g st (KResult k n rs) = 2 + toks_work g k n"
| "cont_work g st KLoop = 1"

fun pc_work :: "'f AsyncGraph \<Rightarrow> nat \<Rightarrow> gx_pc \<Rightarrow> nat" where
  "pc_work g st (PPseudo r ready) = 2 + toks_work g st r + ready_work g ready"
| "pc_work g st (PPseudoWait r ready) = 1 + toks_work g st r + ready_work g ready"
| "pc_work g st (PDecr us ready c) = 1 + length us + ready_work g ready + cont_work g st c"
| "pc_work g st (PLoop ready) = (case ready of [] \<Rightarrow> 1 | k # ks \<Rightarrow> kernel_work g k + 1 + ready_work g ks)"
| "pc_work g st (PSpawn k ks) = kernel_work g k + ready_work g ks"
| "pc_work g st (PRun k) = kernel_work g k - 1"
| "pc_work g st (PDrop k as rs) = 3 + length as + toks_work g k 0"
| "pc_work g st (PResult k n rs ready) = 2 + toks_work g k n + ready_work g ready"
| "pc_work g st (PResultWait k n rs ready) = 1 + toks_work g k n + ready_work g ready"
| "pc_work g st (PCall k n r) = 3 + length (users g k n)"
| "pc_work g st (PCallPseudo k n) = 3 + length (users g k n)"
| "pc_work g st (PCollect js) = 1 + length js"
| "pc_work g st PFinished = 0"

definition closure_work :: "'f AsyncGraph \<Rightarrow> nat \<times> closure \<Rightarrow> nat" where
  "closure_work g p = (case closure_tok (snd p) of (k, n) \<Rightarrow> 4 + length (users g k n))"

definition gx_work :: "((string \<rightharpoonup> nat) \<Rightarrow> string list) \<Rightarrow> 'f AsyncGraph \<Rightarrow> nat \<Rightarrow> 'a GraphExecutor \<Rightarrow> nat" where
  "gx_work iter g st s = (\<Sum>k\<in>#gx_waiting g st s. kernel_work g k + 2) + total (pc_work g st) (gx_acts s) +
     sum_list (map (closure_work g) (open_closures s)) +
     (if collecting (gx_acts s ! 0) then 0 else 1 + length (iter (ag_mNameAndAsyncIdPair g)))"

lemma toks_work_simps:
  "nouts g k \<le> n \<Longrightarrow> toks_work g k n = 0" "n < nouts g k \<Longrightarrow> toks_work g k n = tok_work g k n + toks_work g k (Suc n)"
  by (simp_all add: toks_work_def upt_conv_Cons)

lemma ready_work_simps [simp]:
  "ready_work g [] = 0" "ready_work g (k # ks) = kernel_work g k + 2 + ready_work g ks" "ready_work g (ks @ ls) = ready_work g ks + ready_work g ls"
  by (simp_all add: ready_work_def)

lemma loop_work: "pc_work g st (PLoop ready) \<le> 1 + ready_work g ready"
  by (cases ready) simp_all

text \<open>A step of activation \<open>i\<close> reduces the work when what it leaves weighs less than what it had.\<close>

lemma work_move:
  assumes i: "i < length (gx_acts s)" "gx_acts s ! i = p" and acts: "gx_acts s' = (gx_acts s)[i := q] @ new"
    and c: "collecting p \<longrightarrow> collecting q"
    and less: "(\<Sum>k\<in>#gx_waiting g st s'. kernel_work g k + 2) + pc_work g st q + total (pc_work g st) new + sum_list (map (closure_work g) (open_closures s'))
      < (\<Sum>k\<in>#gx_waiting g st s. kernel_work g k + 2) + pc_work g st p + sum_list (map (closure_work g) (open_closures s)) +
        (if i = 0 \<and> collecting q \<and> \<not> collecting p then 1 + length (iter (ag_mNameAndAsyncIdPair g)) else 0)"
  shows "gx_work iter g st s' < gx_work iter g st s"
proof -
  have "gx_acts s' ! 0 = (if i = 0 then q else gx_acts s ! 0)" using i(1) by (cases i) (auto simp: acts nth_append)
  moreover have "total (pc_work g st) (gx_acts s') + pc_work g st p = total (pc_work g st) (gx_acts s) + pc_work g st q + total (pc_work g st) new"
    using total_move [OF i(1), of "pc_work g st" q new] i(2) acts by simp
  ultimately show ?thesis using less c i(2) unfolding gx_work_def by (auto split: if_splits)
qed

text \<open>The common case: the counters and the closures do not change.\<close>

lemma work_move_plain:
  assumes "i < length (gx_acts s)" "gx_acts s ! i = p" "gx_acts s' = (gx_acts s)[i := q] @ new" "\<not> collecting p" "i = 0 \<longrightarrow> \<not> collecting q"
    "gx_mKernelInfos s' = gx_mKernelInfos s" "gx_closures s' = gx_closures s" "as_log (gx_av s') = as_log (gx_av s)"
    "pc_work g st q + total (pc_work g st) new < pc_work g st p"
  shows "gx_work iter g st s' < gx_work iter g st s"
proof (rule work_move [OF assms(1-3)])
  have "gx_waiting g st s' = gx_waiting g st s" "open_closures s' = open_closures s" by (simp_all add: gx_waiting_def open_closures_def assms)
  then show "(\<Sum>k\<in>#gx_waiting g st s'. kernel_work g k + 2) + pc_work g st q + total (pc_work g st) new + sum_list (map (closure_work g) (open_closures s'))
      < (\<Sum>k\<in>#gx_waiting g st s. kernel_work g k + 2) + pc_work g st p + sum_list (map (closure_work g) (open_closures s)) +
        (if i = 0 \<and> collecting q \<and> \<not> collecting p then 1 + length (iter (ag_mNameAndAsyncIdPair g)) else 0)"
    using assms(9) by simp
qed (use assms(4) in simp)

lemma SetAsyncValuePtr_frame:
  assumes "SetAsyncValuePtr j r s = Some s1"
  shows "gx_acts s1 = gx_acts s \<and> gx_mKernelInfos s1 = gx_mKernelInfos s \<and> gx_closures s1 = gx_closures s \<and> as_log (gx_av s1) = as_log (gx_av s)"
  using assms by (auto simp: SetAsyncValuePtr_def Let_def bind_eq_Some_conv av_AddRef_def av_DropRefs_def av_ForwardTo_def reg_set_sel
      split: if_splits option.splits)

lemma GetOrCreate_frame:
  assumes "GetOrCreateAsyncValuePtr j s = Some (v, s1)"
  shows "gx_acts s1 = gx_acts s \<and> gx_mKernelInfos s1 = gx_mKernelInfos s \<and> gx_closures s1 = gx_closures s \<and> as_log (gx_av s1) = as_log (gx_av s)"
  using assms by (auto simp: GetOrCreateAsyncValuePtr_def Let_def av_AddRef_def reg_set_sel construct_sel split: if_splits option.splits)

lemma work_decr:
  assumes I: "gx_inv g st s" and i: "i < length (gx_acts s)" "gx_acts s ! i = PDecr (u # us) ready c"
    and d: "DecreaseReadyCountAndPush u ready s = Some (ready1, s1)"
  shows "gx_work iter g st (gx_move i (PDecr us ready1 c) s1) < gx_work iter g st s"
proof -
  note S = sched_okD [OF gx_invD(2) [OF I]]
  have u: "u < nnodes g" "u \<noteq> st" using gx_invD(5) [OF I nth_mem [OF i(1)]] i(2) by auto
  let ?old = "gx_mKernelInfos s ! u"
  have s1: "ready1 = (if ?old = 1 then ready @ [u] else ready)" "s1 = s\<lparr>gx_mKernelInfos := (gx_mKernelInfos s)[u := ?old - 1]\<rparr>"
    using d u S(1) by (simp_all add: DecreaseReadyCountAndPush_def Let_def)
  have "u \<in># gx_owed g st s"
  proof -
    have "total pc_dec (gx_acts s) = total pc_dec ((gx_acts s)[i := PFinished]) + mset (u # us)"
      using total_move [OF i(1), of pc_dec PFinished "[]"] i(2) by simp
    then show ?thesis by (simp add: gx_owed_def)
  qed
  then have old: "1 \<le> ?old" using S(2) [OF u] by (simp add: Suc_le_eq)
  have W: "gx_waiting g st (gx_move i (PDecr us ready1 c) s1) + (if ?old = 1 then {#u#} else {#}) = gx_waiting g st s"
    by (rule multiset_eqI) (use old u S(1) s1(2) in \<open>auto simp: count_waiting nth_list_update\<close>)
  then have "(\<Sum>k\<in>#gx_waiting g st (gx_move i (PDecr us ready1 c) s1). kernel_work g k + 2) + (if ?old = 1 then kernel_work g u + 2 else 0) =
      (\<Sum>k\<in>#gx_waiting g st s. kernel_work g k + 2)"
    by (auto split: if_splits simp flip: W)
  moreover have "open_closures (gx_move i (PDecr us ready1 c) s1) = open_closures s" by (simp add: open_closures_def s1)
  ultimately show ?thesis
    by (intro work_move [OF i, where q = "PDecr us ready1 c" and new = "[]"]) (auto simp: s1)
qed

lemma work_andthen:
  assumes I: "gx_inv g st s" and i: "i < length (gx_acts s)" "gx_acts s ! i = p" and pl: "\<not> collecting p" "\<not> collecting q"
    and c: "gx_AndThen a c s = Some s1" and w: "pc_work g st q + closure_work g (0, c) < pc_work g st p"
  shows "gx_work iter g st (gx_move i q s1) < gx_work iter g st s"
proof -
  let ?w = "fresh_closure (gx_av s)"
  obtain av where av: "av_AndThen a ?w (gx_av s) = Some av" and s1: "s1 = s\<lparr>gx_av := av, gx_refs := gx_refs s + 1, gx_closures := gx_closures s @ [(?w, c)]\<rparr>"
    using c by (auto simp: gx_AndThen_def Let_def)
  have log: "as_log av = as_log (gx_av s)" using av by (auto simp: av_AndThen_def)
  have "count_list (as_log (gx_av s)) ?w = 0"
    using client_okD(2) [OF av_invD(5) [OF gx_invD(1) [OF I]], of ?w] fresh_closure_new [of "gx_av s"] by simp
  then have "open_closures (gx_move i q s1) = open_closures s @ [(?w, c)]" by (simp add: open_closures_def s1 log count_list_0_iff)
  moreover have "closure_work g (?w, c) = closure_work g (0, c)" by (simp add: closure_work_def)
  moreover have "gx_waiting g st (gx_move i q s1) = gx_waiting g st s" by (simp add: gx_waiting_def s1)
  ultimately show ?thesis using pl w by (intro work_move [OF i, where q = q and new = "[]"]) (simp_all add: s1)
qed

lemma work_result:
  assumes G: "gx_graph iter g st" and I: "gx_inv g st s" and i: "i < length (gx_acts s)" "gx_acts s ! i = PResult k n rs ready"
    and a: "step_result g i k n rs ready s = Some s'"
  shows "gx_work iter g st s' < gx_work iter g st s"
proof (cases rs)
  case Nil
  then have "s' = gx_move i (PLoop ready) s" using a by (simp add: step_result_def)
  then show ?thesis using loop_work [of g st ready] by (intro work_move_plain [OF i, where q = "PLoop ready" and new = "[]"]) simp_all
next
  case (Cons x rest)
  have ok: "length rs + n = nouts g k" "None \<notin> set rs" using gx_invD(5) [OF I nth_mem [OF i(1)]] i(2) by auto
  then have nn: "n < nouts g k" using Cons by simp
  note tw = toks_work_simps(2) [OF nn] tok_work_def [of g k n]
  obtain r where "x = Some r" using ok(2) Cons by (cases x) auto
  then consider (unused) s1 where "SetAsyncValuePtr (reg_of g k n) r s = Some s1" "s' = gx_move i (PResult k (n + 1) rest ready) s1"
    | (used) s1 where "SetAsyncValuePtr (reg_of g k n) r s = Some s1" "s' = gx_move i (PDecr (users g k n) ready (KResult k (n + 1) rest)) s1"
    | (wait) "s' = gx_move i (PResultWait k n rs ready) s"
    using a Cons unfolding step_result_def by (auto simp: bind_eq_Some_conv split: if_splits)
  then show ?thesis
  proof cases
    case unused
    then show ?thesis using SetAsyncValuePtr_frame [OF unused(1)] tw
      by (intro work_move_plain [OF i, where q = "PResult k (n + 1) rest ready" and new = "[]"]) simp_all
  next
    case used
    then show ?thesis using SetAsyncValuePtr_frame [OF used(1)] tw
      by (intro work_move_plain [OF i, where q = "PDecr (users g k n) ready (KResult k (n + 1) rest)" and new = "[]"]) simp_all
  next
    case wait
    then show ?thesis by (intro work_move_plain [OF i, where q = "PResultWait k n rs ready" and new = "[]"]) simp_all
  qed
qed

lemma work_pseudo:
  assumes G: "gx_graph iter g st" and I: "gx_inv g st s" and i: "i < length (gx_acts s)" "gx_acts s ! i = PPseudo r ready"
    and q: "step_pseudo g st r ready s = Some q"
  shows "gx_work iter g st (gx_move i q s) < gx_work iter g st s"
proof -
  have "\<not> collecting q \<and> pc_work g st q < pc_work g st (PPseudo r ready)"
  proof (cases "r < nouts g st")
    case True
    note tw = toks_work_simps(2) [OF True] tok_work_def [of g st r]
    obtain us where "GetNextUsedBys g st r = Some us" using start_users [OF G True] by blast
    then show ?thesis using q tw True by (cases "r = 0") (auto simp: step_pseudo_def split: if_splits option.splits)
  next
    case False
    then show ?thesis using q loop_work [of g st ready] by (auto simp: step_pseudo_def split: if_splits)
  qed
  then show ?thesis by (intro work_move_plain [OF i, where q = q and new = "[]"]) simp_all
qed

lemma result_regs_length: "length (result_regs iter g s) \<le> length (iter (ag_mNameAndAsyncIdPair g))"
  by (simp add: result_regs_def le_trans [OF length_filter_le])

lemma work_loop:
  assumes i: "i < length (gx_acts s)" "gx_acts s ! i = PLoop ready" and a: "gx_act kern tid iter g i s = Some s'"
  shows "gx_work iter g st s' < gx_work iter g st s"
proof (cases ready)
  case Nil
  show ?thesis
  proof (cases "i = 0")
    case True
    then have s': "s' = gx_move i (PCollect (result_regs iter g s)) s" using a i Nil by (simp add: gx_act_def)
    have "gx_waiting g st s' = gx_waiting g st s" "open_closures s' = open_closures s" by (simp_all add: s' gx_waiting_def open_closures_def)
    then show ?thesis using result_regs_length [of iter g s] True Nil
      by (intro work_move [OF i, where q = "PCollect (result_regs iter g s)" and new = "[]"]) (simp_all add: s')
  next
    case False
    then have "s' = gx_move i PFinished (s\<lparr>gx_refs := gx_refs s - 1\<rparr>)" using a i Nil by (auto simp: gx_act_def gx_DropRef_def split: if_splits)
    then show ?thesis using False Nil by (intro work_move_plain [OF i, where q = PFinished and new = "[]"]) simp_all
  qed
next
  case (Cons x xs)
  then have "s' = gx_move i (PSpawn x xs) s" using a i by (simp add: gx_act_def)
  then show ?thesis using Cons by (intro work_move_plain [OF i, where q = "PSpawn x xs" and new = "[]"]) simp_all
qed

lemma work_collect:
  assumes i: "i < length (gx_acts s)" "gx_acts s ! i = PCollect js" and a: "gx_act kern tid iter g i s = Some s'"
  shows "gx_work iter g st s' < gx_work iter g st s"
proof -
  have "\<exists>q. gx_acts s' = (gx_acts s)[i := q] @ [] \<and> collecting q \<and> pc_work g st q < pc_work g st (PCollect js) \<and>
      gx_mKernelInfos s' = gx_mKernelInfos s \<and> gx_closures s' = gx_closures s \<and> as_log (gx_av s') = as_log (gx_av s)"
  proof (cases js)
    case Nil
    then show ?thesis using a i by (intro exI [of _ PFinished]) (auto simp: gx_act_def gx_DropRef_def split: if_splits)
  next
    case (Cons j js')
    then obtain v s1 where "GetOrCreateAsyncValuePtr j s = Some (v, s1)"
        "s' = (gx_move i (PCollect js') s1)\<lparr>gx_results := gx_results s1 @ [(j, v)]\<rparr>"
      using a i by (auto simp: gx_act_def)
    then show ?thesis using GetOrCreate_frame [of j s v s1] Cons by (intro exI [of _ "PCollect js'"]) simp
  qed
  then obtain q where q: "gx_acts s' = (gx_acts s)[i := q] @ []" "collecting q" "pc_work g st q < pc_work g st (PCollect js)"
      "gx_mKernelInfos s' = gx_mKernelInfos s" "gx_closures s' = gx_closures s" "as_log (gx_av s') = as_log (gx_av s)" by blast
  have "gx_waiting g st s' = gx_waiting g st s" "open_closures s' = open_closures s" by (simp_all add: gx_waiting_def open_closures_def q)
  then show ?thesis using q(2,3) by (intro work_move [OF i q(1)]) simp_all
qed

theorem work_act:
  assumes G: "gx_graph iter g st" and K: "gx_kernels kern B g st" and I: "gx_inv g st s" and room: "refs_room (as_heap (gx_av s)) (Suc B)"
    and a: "gx_act kern tid iter g i s = Some s'"
  shows "gx_work iter g st s' < gx_work iter g st s"
proof -
  have i: "i < length (gx_acts s)" using gx_act_live [OF a] by blast
  note plain = work_move_plain [OF i]
  note A = a [unfolded gx_act_def]
  show ?thesis
  proof (cases "gx_acts s ! i")
    case (PPseudo r ready)
    then obtain q where "step_pseudo g st r ready s = Some q" "s' = gx_move i q s" using A i gx_graphD(2) [OF G] by auto
    then show ?thesis using work_pseudo [OF G I i PPseudo] by simp
  next
    case (PPseudoWait r ready)
    then have r: "r < nouts g st" using gx_invD(5) [OF I nth_mem [OF i]] by simp
    obtain b s1 where b: "gx_AndThen b (CBPseudo st r) s = Some s1" "s' = gx_move i (PPseudo (r + 1) ready) s1"
      using A i gx_graphD(2) [OF G] PPseudoWait by (auto simp: bind_eq_Some_conv)
    then show ?thesis using work_andthen [OF I i PPseudoWait _ _ b(1), of "PPseudo (r + 1) ready"] toks_work_simps(2) [OF r]
      by (simp add: closure_work_def tok_work_def)
  next
    case (PDecr us ready c)
    show ?thesis
    proof (cases us)
      case Nil
      then have s': "s' = gx_move i (gx_continue c ready) s" using A i PDecr by simp
      have "pc_work g st (gx_continue c ready) < pc_work g st (PDecr us ready c) \<and> \<not> collecting (gx_continue c ready)"
        using loop_work [of g st ready] Nil by (cases c) (simp_all add: gx_continue_def)
      then show ?thesis by (intro plain [OF PDecr, where q = "gx_continue c ready" and new = "[]"]) (simp_all add: s')
    next
      case (Cons u us')
      then show ?thesis using work_decr [OF I i] A i PDecr by (auto split: prod.splits)
    qed
  next
    case (PLoop ready)
    then show ?thesis using work_loop [OF i _ a] by blast
  next
    case (PSpawn x ready)
    show ?thesis
    proof (cases ready)
      case Nil
      then show ?thesis using A i PSpawn by (intro plain [OF PSpawn, where q = "PRun x" and new = "[]"]) (auto simp: kernel_work_def)
    next
      case (Cons y ys)
      then show ?thesis using A i PSpawn by (intro plain [OF PSpawn, where q = "PSpawn x ys" and new = "[PLoop [y]]"]) auto
    qed
  next
    case (PRun k)
    obtain args results av where c: "ProcessReadyKernel_call kern tid g k s = Some (args, results, s\<lparr>gx_av := av\<rparr>)"
        "length args = length (node_ins g k)" "as_log av = as_log (gx_av s)"
      using inv_run_kernel [OF G K I i PRun refs_room_mono [OF room]] by (metis Suc_n_not_le_n nat_le_linear)
    then show ?thesis using A i PRun
      by (intro plain [OF PRun, where q = "PDrop k args results" and new = "[]"]) (auto simp: kernel_work_def)
  next
    case (PDrop k as rs)
    show ?thesis
    proof (cases as)
      case Nil
      then show ?thesis using A i PDrop by (intro plain [OF PDrop, where q = "PResult k 0 rs []" and new = "[]"]) auto
    next
      case (Cons b bs)
      then show ?thesis using A i PDrop by (intro plain [OF PDrop, where q = "PDrop k bs rs" and new = "[]"]) (auto simp: av_DropRef_def)
    qed
  next
    case (PResult k n rs ready)
    then show ?thesis using work_result [OF G I i PResult] A i by simp
  next
    case (PResultWait k n rs ready)
    have ok: "length rs + n = nouts g k" "rs \<noteq> []" "None \<notin> set rs" using gx_invD(5) [OF I nth_mem [OF i]] PResultWait by auto
    then obtain r rest where rs: "rs = Some r # rest" by (cases rs; cases "hd rs") auto
    have nn: "n < nouts g k" using ok(1) rs by simp
    obtain s1 where b: "gx_AndThen r (CBResult k n r) s = Some s1" "s' = gx_move i (PResult k (n + 1) rest ready) s1"
      using A i PResultWait rs by auto
    then show ?thesis using work_andthen [OF I i PResultWait _ _ b(1), of "PResult k (n + 1) rest ready"] toks_work_simps(2) [OF nn]
      by (simp add: closure_work_def tok_work_def)
  next
    case (PCall k n r)
    then obtain s1 where c: "SetAsyncValuePtr (reg_of g k n) r s = Some s1" "s' = gx_move i (PDecr (users g k n) [] KLoop) s1"
      using A i by (auto simp: bind_eq_Some_conv)
    then show ?thesis using SetAsyncValuePtr_frame [OF c(1)]
      by (intro plain [OF PCall, where q = "PDecr (users g k n) [] KLoop" and new = "[]"]) simp_all
  next
    case (PCallPseudo k n)
    then have "s' = gx_move i (PDecr (users g k n) [] KLoop) s" using A i by auto
    then show ?thesis by (intro plain [OF PCallPseudo, where q = "PDecr (users g k n) [] KLoop" and new = "[]"]) simp_all
  next
    case (PCollect js)
    then show ?thesis using work_collect [OF i _ a] by blast
  next
    case PFinished
    then show ?thesis using gx_act_live [OF a] by simp
  qed
qed

text \<open>The clients do not add work: a call of a closure weighs less than the closure.\<close>

lemma work_env:
  assumes I: "gx_inv g st s" and stp: "av_step tid (gx_av s) av"
  shows "gx_work iter g st (gx_env s av) \<le> gx_work iter g st s"
proof -
  let ?s = "gx_env s av"
  have "0 < length (gx_acts s)" using gx_invD(9) [OF I] by (simp add: results_ok_def)
  then have z: "gx_acts ?s ! 0 = gx_acts s ! 0" by (simp add: gx_env_def nth_append)
  have w: "gx_waiting g st ?s = gx_waiting g st s" by (simp add: gx_waiting_def gx_env_def)
  have "sum_list (map (closure_work g) (open_closures s)) = sum_list (map (closure_work g) (gx_called s av)) + sum_list (map (closure_work g) (open_closures ?s))"
    using arg_cong [OF closures_split [OF step_log(1) [OF stp]], of "\<lambda>M. sum_mset (image_mset (closure_work g) M)"]
    by (simp only: sum_mset_sum_list mset_map [symmetric] image_mset_union sum_mset.union)
  moreover have "pc_work g st (callback c) \<le> closure_work g (w, c)" for w c by (cases c) (simp_all add: closure_work_def)
  then have "total (pc_work g st) (map (callback \<circ> snd) cs) \<le> sum_list (map (closure_work g) cs)" for cs
    by (induction cs) (auto intro: add_mono)
  then have "total (pc_work g st) (gx_acts ?s) \<le> total (pc_work g st) (gx_acts s) + sum_list (map (closure_work g) (gx_called s av))"
    by (simp add: gx_env_def)
  ultimately show ?thesis unfolding gx_work_def z w by linarith
qed

subsection \<open>The final state\<close>

definition gx_acyclic :: "'f AsyncGraph \<Rightarrow> bool" where
  "gx_acyclic g \<longleftrightarrow> (\<exists>rank :: nat \<Rightarrow> nat. \<forall>t u. valid_tok g t \<and> u \<in> set (users g (fst t) (snd t)) \<longrightarrow> rank (fst t) < rank u)"

lemma total_zero: "\<forall>p \<in> set ps. f p = 0 \<Longrightarrow> total f ps = 0"
  by (induction ps) simp_all

lemma nothing_waits:
  fixes s :: "'a GraphExecutor" and g :: "'f AsyncGraph"
  assumes I: "gx_inv g st s" and acyc: "gx_acyclic g" and fin: "\<forall>p \<in> set (gx_acts s). p = PFinished" and cl: "open_closures s = []"
  shows "gx_waiting g st s = {#}" "gx_toks g st s = {#}"
proof -
  note S = sched_okD [OF gx_invD(2) [OF I]]
  have tot: "total f (gx_acts s) = 0" if "f PFinished = 0" for f :: "gx_pc \<Rightarrow> 'c::comm_monoid_add"
    using fin that by (auto intro: total_zero)
  have R: "gx_ready s = {#}" by (simp add: gx_ready_def tot)
  have T: "gx_toks g st s = kernel_toks g (gx_waiting g st s)" by (simp add: gx_toks_def R tot cl)
  obtain rank :: "nat \<Rightarrow> nat" where rank: "\<And>t u. valid_tok g t \<Longrightarrow> u \<in> set (users g (fst t) (snd t)) \<Longrightarrow> rank (fst t) < rank u"
    using acyc unfolding gx_acyclic_def by blast
  have "k \<notin># gx_waiting g st s" for k
  proof (induction "rank k" arbitrary: k rule: less_induct)
    case less
    show ?case
    proof
      assume k: "k \<in># gx_waiting g st s"
      then have kn: "k < nnodes g" "k \<noteq> st" "0 < gx_mKernelInfos s ! k" using count_waiting [of g st s k] by (auto simp: count_greater_zero_iff [symmetric] simp del: count_greater_zero_iff split: if_splits)
      then have "k \<in># gx_owed g st s" using S(2) [OF kn(1,2)] by simp
      then obtain t where t: "t \<in># gx_toks g st s" "k \<in> set (users g (fst t) (snd t))" by (auto simp: gx_owed_def tot tok_users_def)
      have v: "valid_tok g t" using t(1) tok_once(2) [OF gx_invD(2) [OF I]] by (metis multi_member_split)
      have "fst t \<in># gx_waiting g st s" using t(1) count_kernel_toks [of g "gx_waiting g st s" t] unfolding T
        by (metis count_eq_zero_iff mult_0)
      then show False using less [OF rank [OF v t(2)]] by blast
    qed
  qed
  then show "gx_waiting g st s = {#}" by (meson multiset_nonemptyE)
  then show "gx_toks g st s = {#}" by (simp add: T)
qed

subsection \<open>Errors\<close>

lemma share_results_all:
  assumes "share_results [m..<m + d] e (f, s) = Some (f', s')" "kf_mNumArguments f = length args" "kf_mNumResults f = int (m + d)"
    "kf_mAsyncValues f = map Some args @ replicate m (Some e) @ replicate d None"
  shows "kf_mAsyncValues f' = map Some args @ replicate (m + d) (Some e) \<and> kf_mNumArguments f' = length args \<and> kf_mNumResults f' = int (m + d)"
  using assms
proof (induction d arbitrary: m f s)
  case (Suc d)
  have "[m..<m + Suc d] = m # [Suc m..<Suc m + d]" using upt_conv_Cons [of m "m + Suc d"] by (simp del: upt_Suc)
  then obtain f1 s1 where st: "ShareResultAt m e (f, s) = Some (f1, s1)" "share_results [Suc m..<Suc m + d] e (f1, s1) = Some (f', s')"
    using Suc.prems(1) by (auto simp: bind_eq_Some_conv simp del: upt_Suc)
  have "SetResultAt m e f = Some f1" using st(1) by (auto simp: ShareResultAt_def bind_eq_Some_conv)
  then have f1: "f1 = f\<lparr>kf_mAsyncValues := (kf_mAsyncValues f)[length args + m := Some e]\<rparr>" using Suc.prems(2) by (auto simp: SetResultAt_def split: if_splits)
  have "(map Some args @ replicate m (Some e) @ replicate (Suc d) None)[length args + m := Some e] =
      map Some args @ replicate (Suc m) (Some e) @ replicate d None"
    by (simp add: list_update_append replicate_append_same)
  then show ?case using Suc.IH [OF st(2)] Suc.prems(2-4) f1 by simp
qed simp

lemma process_error:
  assumes call: "ProcessReadyKernel_call kern tid g k s = Some (args', results, s1)" and k: "k < nnodes g"
    and args: "map (reg_value s) (node_ins g k) = map Some args" "\<forall>j \<in> set (node_ins g k). j < length (gx_mAsyncValueInfos s)"
    and e: "last_error (as_heap (gx_av s)) args = Some e"
  shows "args' = args \<and> results = replicate (nouts g k) (Some e)"
proof -
  let ?n = "nouts g k"
  let ?f = "\<lparr>kf_mAsyncValues = map Some args @ replicate ?n None, kf_mNumArguments = length args, kf_mNumResults = int ?n\<rparr>"
  have gather: "gather_args (node_ins g k) KernelFrame_Reset None s =
      Some (\<lparr>kf_mAsyncValues = map Some args, kf_mNumArguments = length args, kf_mNumResults = - 1\<rparr>, Some e, s)"
    using gather_args_ok [OF args, of KernelFrame_Reset None] e by (simp add: KernelFrame_Reset_def)
  have set: "SetNumResults ?n \<lparr>kf_mAsyncValues = map Some args, kf_mNumArguments = length args, kf_mNumResults = - 1\<rparr> = Some ?f"
    by (simp add: SetNumResults_def)
  have get: "GetArguments ?f = Some (map Some args)" by (simp add: GetArguments_def GetAsyncValues_def)
  note c = call [unfolded ProcessReadyKernel_call_def gather bind.bind_lunit prod.case set get]
  obtain f' av where f': "share_results [0..<?n] e (?f, gx_av s) = Some (f', av)" "GetResults f' = Some results" "args' = map the (map Some args)"
    using c k by (auto simp: bind_eq_Some_conv)
  have "kf_mAsyncValues f' = map Some args @ replicate ?n (Some e) \<and> kf_mNumArguments f' = length args \<and> kf_mNumResults f' = int ?n"
    using share_results_all [of 0 ?n e ?f "gx_av s" f' av args] f'(1) by simp
  then show ?thesis using f'(2,3) by (simp add: GetResults_def GetAsyncValues_def comp_def)
qed

end
