(* ===== verification/Graph_Properties.thy ===== *)
theory Graph_Properties
  imports Graph_Correct
begin

text \<open>
  The properties of GraphExecutor, on every graph that BuildGraph makes of the nodes that the executor
  supports (\<open>good_nodes\<close>), for every kernel that follows the rules of the frame, every call that passes what
  the executor needs (\<open>gx_call_ok\<close>) and all clients that leave alone what the executor owns (\<open>env_ok\<close>). Theory
  Graph_Limits shows for each of these conditions a run that goes wrong without it. The examples are runs
  on a small graph, evaluated: the source node hands its argument to one kernel.
\<close>

subsection \<open>A small graph\<close>

definition duo_nodes :: "nat AsyncNode list" where
  "duo_nodes = [ex_node ''src'' [] ''a'', ex_node ''f'' [''a''] ''b'']"

definition duo :: "nat AsyncGraph" where
  "duo = AsyncGraph_BuildGraph name_order (CreateAsyncGraph\<lparr>ag_mAsyncNodes := duo_nodes\<rparr>)"

lemma duo_built: "built_graph name_order duo 0"
proof -
  have "good_nodes duo_nodes 0" by (simp add: good_nodes_def duo_nodes_def ex_node_def)
  then show ?thesis unfolding built_graph_def duo_def
    by (intro conjI exI [of _ "CreateAsyncGraph\<lparr>ag_mAsyncNodes := duo_nodes\<rparr>"]) (auto simp: name_order_def fresh_graph_def)
qed

lemma name_order_ab: "name_order [''a'' \<mapsto> x, ''b'' \<mapsto> y] = [''a'', ''b'']"
proof -
  have "dom [''a'' \<mapsto> x, ''b'' \<mapsto> y] = {''a'', ''b''}" by auto
  then show ?thesis by (simp add: name_order_def sorted_list_of_set_insert_remove)
qed

lemma duo_scan:
  "bg_indexAsyncValueMap (bg_scan duo_nodes) = [''a'' \<mapsto> 0, ''b'' \<mapsto> 1]" "bg_startId (bg_scan duo_nodes) = 2"
  "bg_usedCountmap (bg_scan duo_nodes) = [''a'' \<mapsto> [1]]" "bg_argCountMap (bg_scan duo_nodes) = [''a'' \<mapsto> 1]"
  "bg_resCountMap (bg_scan duo_nodes) = [''a'' \<mapsto> 1, ''b'' \<mapsto> 1]" "bg_indexAsyncNodeMap (bg_scan duo_nodes) = [''a'' \<mapsto> 0, ''b'' \<mapsto> 1]"
  "bg_indexAsyncNodeIdMap (bg_scan duo_nodes) = [''a'' \<mapsto> 0, ''b'' \<mapsto> 1]"
  by (simp_all add: duo_nodes_def ex_node_def bg_scan_def bg_node_def bg_input_def bg_output_def bg_init_def ProcessNameAndRefCount_def
      Let_def used_of_def insort_insert_key_def)

lemma duo_eval:
  "ag_mAsyncNodes duo = duo_nodes" "ag_mIsConstructed duo" "ag_mNameAndAsyncIdPair duo = [''a'' \<mapsto> 0, ''b'' \<mapsto> 1]"
  "ag_mUsedByKernlTable duo = [0 \<mapsto> [[1]], 1 \<mapsto> [[]]]"
  "fi_mAsyncValueInfos (ag_mFunctionInfo duo) = [\<lparr>avi_mUserCount = 1, avi_mValue = None\<rparr>, \<lparr>avi_mUserCount = 0, avi_mValue = None\<rparr>]"
  "fi_mKernelInfos (ag_mFunctionInfo duo) = [0, 1]"
proof -
  have n: "enumerate 0 duo_nodes = [(0, ex_node ''src'' [] ''a''), (1, ex_node ''f'' [''a''] ''b'')]" by (simp add: duo_nodes_def)
  have f: "ag_mFunctionInfo CreateAsyncGraph = \<lparr>fi_mAsyncValueInfos = [], fi_mKernelInfos = []\<rparr>" "ag_mUsedByKernlTable CreateAsyncGraph = Map.empty"
    by (simp_all add: CreateAsyncGraph_def)
  have c: "concat (map an_mOutputNames duo_nodes) = [''a'', ''b'']" "length duo_nodes = 2" "an_mInputNames (duo_nodes ! 0) = []"
      "an_mInputNames (duo_nodes ! Suc 0) = [''a'']" by (simp_all add: duo_nodes_def ex_node_def)
  note D = duo_def AsyncGraph_BuildGraph_def Let_def
  show "ag_mAsyncNodes duo = duo_nodes" "ag_mIsConstructed duo" by (simp_all add: D)
  show "ag_mNameAndAsyncIdPair duo = [''a'' \<mapsto> 0, ''b'' \<mapsto> 1]" by (simp add: D duo_scan)
  show "ag_mUsedByKernlTable duo = [0 \<mapsto> [[1]], 1 \<mapsto> [[]]]"
    by (simp add: D n f bg_table_def duo_scan used_of_def ex_node_def)
  show "fi_mKernelInfos (ag_mFunctionInfo duo) = [0, 1]"
    by (simp add: D f bg_kernels_def c bg_ready_def duo_scan resize_list_def numeral_2_eq_2)
  show "fi_mAsyncValueInfos (ag_mFunctionInfo duo) = [\<lparr>avi_mUserCount = 1, avi_mValue = None\<rparr>, \<lparr>avi_mUserCount = 0, avi_mValue = None\<rparr>]"
    by (simp add: D f duo_scan name_order_ab [simplified] bg_user_def count_of_def resize_list_def AsyncValueInfo_new_def numeral_2_eq_2)
qed

text \<open>A schedule: the activations that step, one after the other, while there is room in the reference counts.\<close>

fun gx_program :: "('f \<Rightarrow> 'a payload list \<Rightarrow> 'a frame_op list) \<Rightarrow> u16 \<Rightarrow> ((string \<rightharpoonup> nat) \<Rightarrow> string list) \<Rightarrow> 'f AsyncGraph \<Rightarrow> nat \<Rightarrow> nat list \<Rightarrow>
    'a GraphExecutor \<Rightarrow> 'a GraphExecutor option" where
  "gx_program kern tid iter g B [] s = Some s"
| "gx_program kern tid iter g B (i # is) s =
     (if list_all (\<lambda>a. case as_heap (gx_av s) a of None \<Rightarrow> True | Some v \<Rightarrow> unat (mRefCount v) + Suc B < 2 ^ 32) [0..<as_next (gx_av s)]
      then Option.bind (gx_act kern tid iter g i s) (gx_program kern tid iter g B is) else None)"

lemma gx_program_reach:
  assumes "built_graph iter g st" "gx_kernels kern B g st" "gx_reach kern tid iter g st B s" "gx_program kern tid iter g B is s = Some s'"
  shows "gx_reach kern tid iter g st B s'"
  using assms(3,4)
proof (induction "is" arbitrary: s)
  case (Cons i "is")
  note I = gx_reach_inv [OF built_gx_graph [OF assms(1)] assms(2) Cons.prems(1)]
  obtain s1 where s1: "gx_act kern tid iter g i s = Some s1" "gx_program kern tid iter g B is s1 = Some s'"
      "\<forall>a<as_next (gx_av s). case as_heap (gx_av s) a of None \<Rightarrow> True | Some v \<Rightarrow> unat (mRefCount v) + Suc B < 2 ^ 32"
    using Cons.prems(2) by (auto simp: list_all_iff bind_eq_Some_conv split: if_splits)
  have "refs_room (as_heap (gx_av s)) (Suc B)" unfolding refs_room_def
  proof (intro allI impI)
    fix a v assume v: "as_heap (gx_av s) a = Some v"
    then have "a < as_next (gx_av s)" using av_invD(1) [OF gx_invD(1) [OF I]] by (auto simp: heap_ok_def)
    then show "unat (mRefCount v) + Suc B < 2 ^ 32" using s1(3) v by fastforce
  qed
  then show ?case using Cons.IH [OF gx_reach.step [OF Cons.prems(1) gx_step.act [OF _ s1(1)]] s1(2)] by blast
qed simp

definition duo_kern :: "nat \<Rightarrow> nat payload list \<Rightarrow> nat frame_op list" where
  "duo_kern fn views = [OpEmplace 0 demo_type (length views)]"

definition duo_av :: "nat av_sys" where
  "duo_av = HostContext_Construct (ConcreteAsyncValue_Concrete demo_type 7) av_start"

lemmas duo_sets = node_ins_def node_outs_def async_id_def duo_eval duo_nodes_def ex_node_def

lemma duo_shape:
  "node_ins duo 0 = []" "node_ins duo (Suc 0) = [0]" "node_outs duo 0 = [0]" "node_outs duo (Suc 0) = [Suc 0]" "start_node duo = Some 0"
  "GetNextUsedBys duo 0 0 = Some [Suc 0]" "GetNextUsedBys duo (Suc 0) 0 = Some []" "length (ag_mAsyncNodes duo) = 2"
  "an_mFunc (ag_mAsyncNodes duo ! Suc 0) = Some 0"
  by (simp_all add: duo_sets start_node_def GetNextUsedBys_def upt_rec)

lemma duo_kernels: "gx_kernels duo_kern 4 duo 0"
  unfolding gx_kernels_def by (auto simp: duo_shape less_2_cases_iff duo_kern_def kernel_ok_def kernel_cost_def)

lemma duo_start: "gx_call_ok duo 0 [0] duo_av" "av_reach 3 duo_av"
proof -
  have "av_step 3 av_start duo_av" unfolding duo_av_def by (rule av_step.make) simp
  then show "av_reach 3 duo_av" by (rule av_reach.step [OF av_reach.start])
  show "gx_call_ok duo 0 [0] duo_av"
    by (simp add: gx_call_ok_def duo_shape duo_av_def HostContext_Construct_def av_start_def refs_room_def IsUnavailable_def ConcreteAsyncValue_Concrete_def AsyncValue_new_def)
qed

lemmas duo_step = gx_act_def step_pseudo_def gx_move_def reg_of_def duo_shape reg_value_def reg_users_def DecreaseReadyCountAndPush_def
  Let_def gx_continue_def step_result_def SetAsyncValuePtr_def GetOrCreateAsyncValuePtr_def av_AddRef_def av_DropRef_def AsyncValue_AddRef_def
  reg_set_def gx_DropRef_def AsyncValue_state_def ProcessReadyKernel_call_def KernelFrame_Reset_def AddArg_def SetNumResults_def GetArguments_def GetResults_def
  GetAsyncValues_def IsError_def duo_kern_def EmplaceResultAt_def SetResultAt_def HostContext_Construct_def ConcreteAsyncValue_Concrete_def
  AsyncValue_new_def IsAvailable_def IsUnresolvedIndirect_def result_regs_def

definition duo_s0 :: "nat GraphExecutor" where
  "duo_s0 = the (GraphExecutor_Execute duo [0] duo_av)"

lemma duo_s0: "GraphExecutor_Execute duo [0] duo_av = Some duo_s0" 
  using execute_ok [OF built_gx_graph [OF duo_built] av_reach_inv [OF duo_start(2)] duo_start(1)] by (auto simp: duo_s0_def)

lemma duo_s0_eval: "duo_s0 = \<lparr>gx_av = \<lparr>as_heap = [0 \<mapsto> \<lparr>mRefCount = 2, mKind = KConcrete, mHasVtable = ct_polymorphic demo_type,
      mTypeId = ct_id demo_type, mWaiters = [], mState = kConcrete, mPayload = Data 7, mValue = None\<rparr>], as_next = 1, as_ext = (\<lambda>_. 0)(0 := Suc 1),
      as_runs = [], as_data = [], as_log = [], as_reg = []\<rparr>,
    gx_mAsyncValueInfos = [\<lparr>avi_mUserCount = 1, avi_mValue = Some 0\<rparr>, \<lparr>avi_mUserCount = 0, avi_mValue = None\<rparr>],
    gx_mKernelInfos = [1, 1], gx_refs = 1, gx_closures = [], gx_acts = [PPseudo 0 []], gx_ran = [], gx_results = []\<rparr>"
  by (simp add: duo_s0_def GraphExecutor_Execute_def GraphExecutor_new_def duo_eval InitializeArgumentRegisters_def KernelInfo_new_def duo_av_def
      av_start_def duo_step)

lemma duo_result_regs: "map (async_id duo) (name_order (ag_mNameAndAsyncIdPair duo)) = [0, 1]"
  by (simp only: duo_eval(3) name_order_ab) (simp add: async_id_def duo_eval(3))

lemma duo_ready: "gx_program duo_kern 3 name_order duo 4 [0, 0, 0, 0, 0, 0] duo_s0 = Some (duo_s0\<lparr>gx_mKernelInfos := [1, 0], gx_acts := [PRun 1]\<rparr>)"
  by (simp add: duo_s0_eval duo_step)

lemma duo_done: "map_option (\<lambda>s. (gx_acts s, gx_ran s, gx_results s, gx_refs s, gx_closures s, as_runs (gx_av s)))
    (gx_program duo_kern 3 name_order duo 4 [0, 0, 0, 0, 0, 0, 0, 0, 0, 0, 0, 0, 0, 0] duo_s0) = Some ([PFinished], [1], [(1, 1)], 0, [], [])"
  by (simp add: duo_s0_eval duo_step AsyncValue_DropRef.simps duo_result_regs)

lemma duo_reach: "gx_program duo_kern 3 name_order duo 4 is duo_s0 = Some s \<Longrightarrow> gx_reach duo_kern 3 name_order duo 0 4 s"
  by (rule gx_program_reach [OF duo_built duo_kernels gx_reach.start [OF duo_start(2,1) duo_s0]])

lemma duo_acyclic: "gx_acyclic duo"
  unfolding gx_acyclic_def valid_tok_def by (intro exI [of _ id]) (auto simp: duo_shape less_2_cases_iff)

text \<open>The same graph with an error as its argument.\<close>

definition duo_err :: "nat av_sys" where
  "duo_err = HostContext_Construct (ConcreteAsyncValue_Error (DummyType 3) (DecodedDiagnostic_new ''bad'')) av_start"

lemma duo_err_start: "gx_call_ok duo 0 [0] duo_err" "av_reach 3 duo_err"
proof -
  have "av_step 3 av_start duo_err" unfolding duo_err_def by (rule av_step.make) simp
  then show "av_reach 3 duo_err" by (rule av_reach.step [OF av_reach.start])
  show "gx_call_ok duo 0 [0] duo_err"
    by (simp add: gx_call_ok_def duo_shape duo_err_def HostContext_Construct_def av_start_def refs_room_def IsUnavailable_def
        ConcreteAsyncValue_Error_def AsyncValue_new_def)
qed

lemma duo_err_ready:
  "\<exists>s0 s. GraphExecutor_Execute duo [0] duo_err = Some s0 \<and> gx_program duo_kern 3 name_order duo 4 [0, 0, 0, 0, 0, 0] s0 = Some s \<and>
     gx_acts s = [PRun 1] \<and> reg_value s 0 = Some 0 \<and> IsError (as_heap (gx_av s)) 0 \<and> refs_room (as_heap (gx_av s)) 5"
  by (simp add: GraphExecutor_Execute_def GraphExecutor_new_def duo_eval InitializeArgumentRegisters_def KernelInfo_new_def duo_err_def
      av_start_def duo_step ConcreteAsyncValue_Error_def DummyType_def refs_room_def)

subsection \<open>Properties\<close>

text \<open>
  C29. On a supported graph, called with a first argument that is available: in
  every interleaving of the activations of the executor, of RunWaiters and of the clients of the async
  values, no kernel runs twice, the source node never runs, and a kernel that is about to run has not run
  before and has all its arguments: each of its input registers holds a live value that is available.

  The conditions, which the code does not check: the nodes are supported (one node without inputs, results
  everywhere, no name produced twice or used twice by one node, every input produced, every argument used:
  \<open>good_nodes\<close>); Execute is called with an argument the caller refers to for every result of the start node,
  of which the first is available (\<open>gx_call_ok\<close>); every kernel sets each of its results once (\<open>gx_kernels\<close>);
  the clients keep the references that the executor owns and neither drop nor resolve a returned value before
  its kernel has delivered it (\<open>env_ok\<close>); and the reference counts have room.
\<close>

theorem GraphExecutor_runs_ready_once:
  assumes "built_graph iter g st" "gx_kernels kern B g st" "gx_reach kern tid iter g st B s"
  shows "distinct (gx_ran s) \<and> set (gx_ran s) \<subseteq> {k. k < nnodes g \<and> k \<noteq> st} \<and>
    (\<forall>i k j. i < length (gx_acts s) \<and> gx_acts s ! i = PRun k \<and> j \<in> set (node_ins g k) \<longrightarrow> k \<notin> set (gx_ran s) \<and>
       (\<exists>a. reg_value s j = Some a \<and> 0 < as_ext (gx_av s) a \<and> IsAvailable (as_heap (gx_av s)) a))"
proof (intro conjI allI impI)
  note G = built_gx_graph [OF assms(1)]
  note I = gx_reach_inv [OF G assms(2,3)]
  note S = sched_okD(3) [OF gx_invD(2) [OF I]]
  have c: "count_list (gx_ran s) k \<le> of_bool (k < nnodes g \<and> k \<noteq> st)" for k using S [of k] by linarith
  then have "count_list (gx_ran s) k \<le> 1" for k by (rule order_trans) simp
  then show "distinct (gx_ran s)" by (rule distinct_count_list)
  show "set (gx_ran s) \<subseteq> {k. k < nnodes g \<and> k \<noteq> st}"
  proof
    fix k assume "k \<in> set (gx_ran s)"
    then have "0 < count_list (gx_ran s) k" by (metis count_list_0_iff not_gr_zero)
    then have "0 < (of_bool (k < nnodes g \<and> k \<noteq> st) :: nat)" using c [of k] by linarith
    then show "k \<in> {k. k < nnodes g \<and> k \<noteq> st}" by (simp split: if_splits)
  qed
  fix i k j assume a: "i < length (gx_acts s) \<and> gx_acts s ! i = PRun k \<and> j \<in> set (node_ins g k)"
  then have "k \<in># gx_ready s" using ready_at [of i s k] by simp
  note rk = ready_kernel [OF G I this]
  show "k \<notin> set (gx_ran s)" by (rule rk(3))
  obtain b where b: "reg_value s j = Some b" "0 < as_ext (gx_av s) b" "\<not> IsUnavailable (as_heap (gx_av s)) b" using rk(5) a by blast
  then have "IsAvailable (as_heap (gx_av s)) b"
    using alive [OF gx_invD(1) [OF I] b(2)] by (metis IsAvailable_def IsUnavailable_def option.simps(5))
  then show "\<exists>a. reg_value s j = Some a \<and> 0 < as_ext (gx_av s) a \<and> IsAvailable (as_heap (gx_av s)) a" using b by blast
qed

theorem GraphExecutor_runs_ready_once_witness:
  "\<exists>s. gx_program duo_kern 3 name_order duo 4 [0, 0, 0, 0, 0, 0] duo_s0 = Some s \<and> gx_acts s = [PRun 1] \<and>
     1 \<notin> set (gx_ran s) \<and> (\<exists>a. reg_value s 0 = Some a \<and> IsAvailable (as_heap (gx_av s)) a)"
proof -
  note P = GraphExecutor_runs_ready_once [OF duo_built duo_kernels duo_reach [OF duo_ready], THEN conjunct2, THEN conjunct2, rule_format, of 0 1 0]
  show ?thesis
    by (intro exI [of _ "duo_s0\<lparr>gx_mKernelInfos := [1, 0], gx_acts := [PRun 1]\<rparr>"] conjI duo_ready) (use P in \<open>auto simp: duo_shape\<close>)
qed

text \<open>
  C30. On a supported graph, as long as the clients keep the references that the
  executor owns, returned results that are still pending included: in every reachable state every activation
  that has not finished can take its next step. No assert of the executor, of the kernel frame or of the
  async values fails, no register is read before it is set, the existing value of a register is an indirect
  one, and no step refers to a destroyed value.

  The conditions, which the code does not check: the nodes are supported (one node without inputs, results
  everywhere, no name produced twice or used twice by one node, every input produced, every argument used:
  \<open>good_nodes\<close>); Execute is called with an argument the caller refers to for every result of the start node,
  of which the first is available (\<open>gx_call_ok\<close>); every kernel sets each of its results once (\<open>gx_kernels\<close>);
  the clients keep the references that the executor owns and neither drop nor resolve a returned value before
  its kernel has delivered it (\<open>env_ok\<close>); and the reference counts have room.
\<close>

theorem GraphExecutor_never_fails:
  assumes "built_graph iter g st" "gx_kernels kern B g st" "gx_reach kern tid iter g st B s"
    and "i < length (gx_acts s)" "gx_acts s ! i \<noteq> PFinished" "refs_room (as_heap (gx_av s)) (Suc B)"
  shows "\<exists>s'. gx_act kern tid iter g i s = Some s' \<and> gx_reach kern tid iter g st B s'"
proof -
  note G = built_gx_graph [OF assms(1)]
  obtain s' where "gx_act kern tid iter g i s = Some s'"
    using gx_act_total [OF G assms(2) gx_reach_inv [OF G assms(2,3)] assms(4-6), of tid] by blast
  then show ?thesis using gx_reach.step [OF assms(3) gx_step.act [OF assms(6)]] by blast
qed

theorem GraphExecutor_never_fails_witness:
  "\<exists>s s'. gx_program duo_kern 3 name_order duo 4 [0, 0, 0, 0, 0, 0] duo_s0 = Some s \<and> gx_acts s = [PRun 1] \<and>
     gx_act duo_kern 3 name_order duo 0 s = Some s' \<and> gx_reach duo_kern 3 name_order duo 0 4 s'"
proof -
  let ?s = "duo_s0\<lparr>gx_mKernelInfos := [1, 0], gx_acts := [PRun 1]\<rparr>"
  have "refs_room (as_heap (gx_av ?s)) (Suc 4)" by (simp add: duo_s0_eval refs_room_def)
  then obtain s' where "gx_act duo_kern 3 name_order duo 0 ?s = Some s' \<and> gx_reach duo_kern 3 name_order duo 0 4 s'"
    using GraphExecutor_never_fails [OF duo_built duo_kernels duo_reach [OF duo_ready], of 0] by auto
  then show ?thesis using duo_ready by (intro exI [of _ ?s] exI [of _ s']) simp
qed

text \<open>
  C31. In every reachable state each step of an activation reduces the work that is
  left, and no step of RunWaiters or of a client adds any: a run has finitely many steps of the executor,
  whatever the kernels return and whenever their results are resolved.
\<close>

theorem GraphExecutor_terminates:
  assumes "built_graph iter g st" "gx_kernels kern B g st" "gx_reach kern tid iter g st B s"
  shows "(\<forall>i s'. refs_room (as_heap (gx_av s)) (Suc B) \<and> gx_act kern tid iter g i s = Some s' \<longrightarrow> gx_work iter g st s' < gx_work iter g st s) \<and>
    (\<forall>av. av_step tid (gx_av s) av \<longrightarrow> gx_work iter g st (gx_env s av) \<le> gx_work iter g st s)"
proof -
  note G = built_gx_graph [OF assms(1)]
  note I = gx_reach_inv [OF G assms(2,3)]
  show ?thesis using work_act [OF G assms(2) I] work_env [OF I] by blast
qed

theorem GraphExecutor_terminates_witness:
  "\<exists>s'. gx_act duo_kern 3 name_order duo 0 duo_s0 = Some s' \<and> gx_work name_order duo 0 s' < gx_work name_order duo 0 duo_s0"
proof -
  have r: "gx_reach duo_kern 3 name_order duo 0 4 duo_s0" by (rule gx_reach.start [OF duo_start(2,1) duo_s0])
  have room: "refs_room (as_heap (gx_av duo_s0)) (Suc 4)" by (simp add: duo_s0_eval refs_room_def)
  obtain s' where "gx_act duo_kern 3 name_order duo 0 duo_s0 = Some s'" by (simp add: duo_s0_eval duo_step)
  then show ?thesis using GraphExecutor_terminates [OF duo_built duo_kernels r, THEN conjunct1] room by blast
qed

text \<open>
  C32. When every activation has returned, RunWaiters has no work left and every value
  that the executor waits for has been resolved, a run of a supported acyclic graph is complete: every kernel
  has run, every register holds a value, the caller was given the value of every name that no node uses, and
  nobody refers to the executor any more.

  The conditions, which the code does not check: the nodes are supported (one node without inputs, results
  everywhere, no name produced twice or used twice by one node, every input produced, every argument used:
  \<open>good_nodes\<close>); Execute is called with an argument the caller refers to for every result of the start node,
  of which the first is available (\<open>gx_call_ok\<close>); every kernel sets each of its results once (\<open>gx_kernels\<close>);
  the clients keep the references that the executor owns and neither drop nor resolve a returned value before
  its kernel has delivered it (\<open>env_ok\<close>); and the reference counts have room.
\<close>

theorem GraphExecutor_completes:
  assumes "built_graph iter g st" "gx_kernels kern B g st" "gx_reach kern tid iter g st B s" "gx_acyclic g"
    and "\<forall>p \<in> set (gx_acts s). p = PFinished" "\<forall>xs \<in> set (as_runs (gx_av s)). xs = []"
    and "\<forall>(w, c) \<in> set (gx_closures s). \<forall>a. (w, [a]) \<in> set (as_reg (gx_av s)) \<longrightarrow> \<not> IsUnavailable (as_heap (gx_av s)) a"
  shows "set (gx_ran s) = {k. k < nnodes g \<and> k \<noteq> st} \<and> gx_refs s = 0 \<and>
    (\<forall>k n. k < nnodes g \<and> n < nouts g k \<longrightarrow> (\<exists>a. reg_value s (reg_of g k n) = Some a \<and>
       (if users g k n = [] then (reg_of g k n, a) \<in> set (gx_results s) else \<not> IsUnavailable (as_heap (gx_av s)) a)))"
proof -
  note G = built_gx_graph [OF assms(1)]
  note I = gx_reach_inv [OF G assms(2,3)]
  note J = gx_invD [OF I]
  have "w \<in> set (as_log (gx_av s))" if c: "(w, c) \<in> set (gx_closures s)" for w c
  proof -
    obtain a where a: "(w, [a]) \<in> set (as_reg (gx_av s))" using J(7) [OF c] by (cases c) auto
    then have "\<not> IsUnavailable (as_heap (gx_av s)) a" using assms(7) c by blast
    then have "count_list (as_log (gx_av s)) w = 1" using idle_waiters_ran [OF J(1) assms(6) a] by simp
    then show ?thesis by (metis count_list_0_iff zero_neq_one)
  qed
  then have cl: "open_closures s = []" by (auto simp: open_closures_def filter_empty_conv)
  note W = nothing_waits [OF I assms(4,5) cl]
  have R: "gx_ready s = {#}" unfolding gx_ready_def by (rule total_zero) (use assms(5) in auto)
  have cnt: "count_list (gx_ran s) k = of_bool (k < nnodes g \<and> k \<noteq> st)" for k using sched_okD(3) [OF J(2), of k] unfolding W(1) R by simp
  have "k \<in> set (gx_ran s) \<longleftrightarrow> k < nnodes g \<and> k \<noteq> st" for k
    using count_list_0_iff [of "gx_ran s" k] unfolding cnt of_bool_eq_0_iff by blast
  then have ran: "set (gx_ran s) = {k. k < nnodes g \<and> k \<noteq> st}" by blast
  have refs: "gx_refs s = 0" using J(8) cl assms(5) by (simp add: filter_empty_conv)
  have r: "\<exists>a. reg_value s (reg_of g k n) = Some a \<and>
      (if users g k n = [] then (reg_of g k n, a) \<in> set (gx_results s) else \<not> IsUnavailable (as_heap (gx_av s)) a)"
    if kn: "k < nnodes g" "n < nouts g k" for k n
  proof -
    have v: "valid_tok g (k, n)" using kn by (simp add: valid_tok_def)
    obtain a where a: "reg_value s (reg_of g k n) = Some a" "users g k n \<noteq> [] \<longrightarrow> \<not> IsUnavailable (as_heap (gx_av s)) a"
      using regs_okD(3) [OF J(3) v] W(2) by (auto simp: reg_ok_def)
    note RO = J(9) [unfolded results_ok_def]
    have "gx_acts s ! 0 = PFinished" using RO assms(5) by simp
    then have col: "reg_at g ` res_toks g \<subseteq> fst ` set (gx_results s)" using RO by simp
    have "(reg_of g k n, a) \<in> set (gx_results s)" if u: "users g k n = []"
    proof -
      have "(k, n) \<in> res_toks g" using v u by (simp add: res_toks_def)
      then have "reg_of g k n \<in> fst ` set (gx_results s)" using col by force
      then obtain b where b: "(reg_of g k n, b) \<in> set (gx_results s)" by force
      then have "reg_value s (reg_of g k n) = Some b" using RO by blast
      then show ?thesis using b a(1) by simp
    qed
    then show ?thesis using a by auto
  qed
  show ?thesis using ran refs r by blast
qed

theorem GraphExecutor_completes_witness:
  "\<exists>s. gx_program duo_kern 3 name_order duo 4 [0, 0, 0, 0, 0, 0, 0, 0, 0, 0, 0, 0, 0, 0] duo_s0 = Some s \<and> gx_acts s = [PFinished] \<and>
     set (gx_ran s) = {k. k < nnodes duo \<and> k \<noteq> 0} \<and> gx_refs s = 0"
proof -
  obtain s where s: "gx_program duo_kern 3 name_order duo 4 [0, 0, 0, 0, 0, 0, 0, 0, 0, 0, 0, 0, 0, 0] duo_s0 = Some s"
      "gx_acts s = [PFinished]" "gx_closures s = []" "as_runs (gx_av s) = []"
    using duo_done by (auto simp del: gx_program.simps)
  have "set (gx_ran s) = {k. k < nnodes duo \<and> k \<noteq> 0} \<and> gx_refs s = 0"
    using GraphExecutor_completes [OF duo_built duo_kernels duo_reach [OF s(1)] duo_acyclic] s(2-4) by simp
  then show ?thesis using s(1,2) by blast
qed

text \<open>
  C33. When an argument of a ready kernel is an error the kernel is not called:
  the step is the same for every kernel function, and all results of the node are one of its error
  arguments.
\<close>

theorem GraphExecutor_error_skips_kernel:
  assumes "built_graph iter g st" "gx_kernels kern B g st" "gx_reach kern tid iter g st B s"
    and "i < length (gx_acts s)" "gx_acts s ! i = PRun k" "refs_room (as_heap (gx_av s)) (Suc B)"
    and "j \<in> set (node_ins g k)" "reg_value s j = Some a" "IsError (as_heap (gx_av s)) a"
  shows "\<exists>j' e args s'. j' \<in> set (node_ins g k) \<and> reg_value s j' = Some e \<and> IsError (as_heap (gx_av s)) e \<and>
    (\<forall>kern'. gx_act kern' tid iter g i s = Some s') \<and> gx_acts s' ! i = PDrop k args (replicate (nouts g k) (Some e))"
proof -
  note G = built_gx_graph [OF assms(1)]
  note I = gx_reach_inv [OF G assms(2,3)]
  have "k \<in># gx_ready s" using ready_at [OF assms(4), of k] assms(5) by simp
  note rk = ready_kernel [OF G I this]
  define args where "args = map (the \<circ> reg_value s) (node_ins g k)"
  have args: "map (reg_value s) (node_ins g k) = map Some args"
    unfolding args_def map_map by (rule map_cong [OF refl]) (use rk(5) in fastforce)
  have inf: "\<forall>j \<in> set (node_ins g k). j < length (gx_mAsyncValueInfos s)" using rk(5) by blast
  have "a \<in> set args" using assms(7,8) by (force simp: args_def)
  then have "filter (IsError (as_heap (gx_av s))) (rev args) \<noteq> []" using assms(9) by (auto simp: filter_empty_conv)
  then have "last_error (as_heap (gx_av s)) args \<noteq> None" by (simp add: last_error_def split: list.split)
  then obtain e where e: "last_error (as_heap (gx_av s)) args = Some e" by blast
  have em: "e \<in> set args" "IsError (as_heap (gx_av s)) e" using last_error_mem [OF e] by blast+
  then obtain j' where j': "j' \<in> set (node_ins g k)" "e = the (reg_value s j')" by (auto simp: args_def)
  then have ej: "reg_value s j' = Some e" using rk(5) [OF j'(1)] by auto
  obtain s' where s': "gx_act kern tid iter g i s = Some s'"
    using gx_act_total [OF G assms(2) I assms(4) _ assms(6), of tid] assms(5) by auto
  have same: "ProcessReadyKernel_call kern' tid g k s = ProcessReadyKernel_call kern tid g k s" for kern'
    using gather_args_ok [OF args inf, of KernelFrame_Reset None] e by (simp add: ProcessReadyKernel_call_def KernelFrame_Reset_def)
  have act: "gx_act kern' tid iter g i s = Some s'" for kern'
    using s' assms(4,5) same [of kern'] by (simp add: gx_act_def)
  obtain args' results s1 where c: "ProcessReadyKernel_call kern tid g k s = Some (args', results, s1)"
      "s' = (gx_move i (PDrop k args' results) s1)\<lparr>gx_ran := gx_ran s1 @ [k]\<rparr>"
    using s' assms(4,5) by (auto simp: gx_act_def)
  have "results = replicate (nouts g k) (Some e)" using process_error [OF c(1) rk(1) args inf e] by blast
  moreover have "gx_acts s1 = gx_acts s"
    using inv_run_kernel [OF G assms(2) I assms(4,5), of tid] refs_room_mono [OF assms(6), of B] c(1) by auto
  ultimately have "gx_acts s' ! i = PDrop k args' (replicate (nouts g k) (Some e))" using c(2) assms(4) by simp
  then show ?thesis using j'(1) ej em(2) act by blast
qed

theorem GraphExecutor_error_skips_kernel_witness:
  "\<exists>s0 s args s'. GraphExecutor_Execute duo [0] duo_err = Some s0 \<and> gx_program duo_kern 3 name_order duo 4 [0, 0, 0, 0, 0, 0] s0 = Some s \<and>
     gx_act duo_kern 3 name_order duo 0 s = Some s' \<and> gx_acts s' ! 0 = PDrop 1 args [Some 0]"
proof -
  obtain s0 s where s: "GraphExecutor_Execute duo [0] duo_err = Some s0" "gx_program duo_kern 3 name_order duo 4 [0, 0, 0, 0, 0, 0] s0 = Some s"
     "gx_acts s = [PRun 1]" "reg_value s 0 = Some 0" "IsError (as_heap (gx_av s)) 0" "refs_room (as_heap (gx_av s)) (Suc 4)"
    using duo_err_ready by auto
  have r: "gx_reach duo_kern 3 name_order duo 0 4 s"
    by (rule gx_program_reach [OF duo_built duo_kernels gx_reach.start [OF duo_err_start(2,1) s(1)] s(2)])
  have "\<exists>j' e args s'. j' \<in> set (node_ins duo 1) \<and> reg_value s j' = Some e \<and> IsError (as_heap (gx_av s)) e \<and>
      (\<forall>kern'. gx_act kern' 3 name_order duo 0 s = Some s') \<and> gx_acts s' ! 0 = PDrop 1 args (replicate (nouts duo 1) (Some e))"
    by (rule GraphExecutor_error_skips_kernel [OF duo_built duo_kernels r _ _ s(6) _ s(4,5)]) (use s(3) in \<open>simp_all add: duo_shape\<close>)
  then obtain args s' where "gx_act duo_kern 3 name_order duo 0 s = Some s'" "gx_acts s' ! 0 = PDrop 1 args [Some 0]"
    using s(4) by (auto simp: duo_shape)
  then show ?thesis using s(1,2) by blast
qed

end
