(* ===== verification/Graph_Limits.thy ===== *)
theory Graph_Limits
  imports Graph_Properties
begin

text \<open>
  Why the properties of GraphExecutor need their conditions: runs, evaluated step by step, in which one
  condition fails and the code misbehaves.
\<close>

subsection \<open>The first argument is not tested\<close>

text \<open>The graph of one kernel, run with an argument that is still unavailable.\<close>

definition duo_late :: "nat av_sys" where
  "duo_late = HostContext_Construct (ConcreteAsyncValue_Unconstructed demo_type) av_start"

text \<open>Execute accepts the call, and after six steps the kernel is about to run although the value in its only argument
  register is unavailable: result 0 of the start node is taken as available.\<close>

lemma GraphExecutor_first_argument_untested:
  "\<exists>s0 s. GraphExecutor_Execute duo [0] duo_late = Some s0 \<and> gx_program duo_kern 3 name_order duo 4 [0, 0, 0, 0, 0, 0] s0 = Some s \<and>
     gx_acts s = [PRun 1] \<and> reg_value s 0 = Some 0 \<and> 0 < as_ext (gx_av s) 0 \<and> IsUnavailable (as_heap (gx_av s)) 0"
  by (simp add: GraphExecutor_Execute_def GraphExecutor_new_def duo_eval InitializeArgumentRegisters_def KernelInfo_new_def duo_late_def
      av_start_def duo_step ConcreteAsyncValue_Unconstructed_def IsUnavailable_def)

subsection \<open>Nodes that the executor does not support\<close>

text \<open>An iteration order of the name map, for graphs over three names.\<close>

definition abc_order :: "(string \<rightharpoonup> nat) \<Rightarrow> string list" where
  "abc_order m = filter (\<lambda>x. m x \<noteq> None) [''a'', ''b'', ''c'']"

definition abc_graph :: "nat AsyncNode list \<Rightarrow> nat AsyncGraph" where
  "abc_graph nodes = AsyncGraph_BuildGraph abc_order (CreateAsyncGraph\<lparr>ag_mAsyncNodes := nodes\<rparr>)"

lemmas build_eval = abc_graph_def AsyncGraph_BuildGraph_def Let_def CreateAsyncGraph_def bg_scan_def bg_node_def bg_input_def bg_output_def bg_init_def
  ProcessNameAndRefCount_def used_of_def insort_insert_key_def bg_table_def bg_kernels_def bg_ready_def bg_user_def count_of_def
  resize_list_def AsyncValueInfo_new_def abc_order_def numeral_2_eq_2 numeral_3_eq_3

lemmas shape_eval = node_ins_def node_outs_def async_id_def start_node_def GetNextUsedBys_def upt_rec

lemmas run_eval = GraphExecutor_Execute_def GraphExecutor_new_def InitializeArgumentRegisters_def KernelInfo_new_def av_start_def
  gx_act_def step_pseudo_def gx_move_def reg_of_def reg_value_def reg_users_def DecreaseReadyCountAndPush_def Let_def gx_continue_def
  step_result_def SetAsyncValuePtr_def GetOrCreateAsyncValuePtr_def av_AddRef_def av_DropRef_def AsyncValue_AddRef_def AsyncValue_DropRef.simps
  reg_set_def gx_DropRef_def AsyncValue_state_def ProcessReadyKernel_call_def KernelFrame_Reset_def AddArg_def SetNumResults_def
  GetArguments_def GetResults_def GetAsyncValues_def IsError_def duo_kern_def EmplaceResultAt_def SetResultAt_def HostContext_Construct_def
  ConcreteAsyncValue_Concrete_def AsyncValue_new_def IsAvailable_def IsUnresolvedIndirect_def result_regs_def MakeIndirectAsyncValue_def
  IndirectAsyncValue_new_def

definition twice :: "nat AsyncGraph" where
  "twice = abc_graph [ex_node ''src'' [] ''a'', ex_node ''f'' [''a'', ''a''] ''b'']"

lemma twice_graph:
  "ag_mAsyncNodes twice = [ex_node ''src'' [] ''a'', ex_node ''f'' [''a'', ''a''] ''b'']" "ag_mIsConstructed twice"
  "ag_mNameAndAsyncIdPair twice = [''a'' \<mapsto> 0, ''b'' \<mapsto> 1]" "ag_mUsedByKernlTable twice = [0 \<mapsto> [[1]], 1 \<mapsto> [[]]]"
  "fi_mAsyncValueInfos (ag_mFunctionInfo twice) = [\<lparr>avi_mUserCount = 2, avi_mValue = None\<rparr>, \<lparr>avi_mUserCount = 0, avi_mValue = None\<rparr>]"
  "fi_mKernelInfos (ag_mFunctionInfo twice) = [0, 2]"
  by (simp_all add: twice_def build_eval ex_node_def)

lemma twice_shape: 
  "start_node twice = Some 0" "node_outs twice 0 = [0]" "node_ins twice (Suc 0) = [0, 0]" "GetNextUsedBys twice 0 0 = Some [Suc 0]"
  "map (async_id twice) (abc_order (ag_mNameAndAsyncIdPair twice)) = [0, 1]"
  by (simp_all add: shape_eval twice_graph ex_node_def abc_order_def)

text \<open>A node that uses a name twice is counted twice and listed once among the users of the name: the run ends without it,
  and its result, which the caller was given, is never resolved.\<close>

lemma GraphExecutor_repeated_input_never_runs:
  "\<exists>s0 s. GraphExecutor_Execute twice [0] duo_av = Some s0 \<and> gx_program duo_kern 3 abc_order twice 4 [0, 0, 0, 0, 0, 0, 0] s0 = Some s \<and>
     gx_acts s = [PFinished] \<and> gx_ran s = [] \<and> gx_results s = [(1, 1)] \<and> IsUnresolvedIndirect (as_heap (gx_av s)) 1"
  by (simp add: duo_av_def run_eval twice_shape twice_graph(2,5,6))

definition sink :: "nat AsyncGraph" where
  "sink = abc_graph [ex_node ''src'' [] ''a'', ex_node ''f'' [''a''] ''b'', (ex_node ''g'' [''a'', ''b''] ''c'')\<lparr>an_mOutputNames := []\<rparr>]"

lemma sink_graph:
  "ag_mAsyncNodes sink = [ex_node ''src'' [] ''a'', ex_node ''f'' [''a''] ''b'', (ex_node ''g'' [''a'', ''b''] ''c'')\<lparr>an_mOutputNames := []\<rparr>]"
  "ag_mIsConstructed sink" "ag_mNameAndAsyncIdPair sink = [''a'' \<mapsto> 0, ''b'' \<mapsto> 1]"
  "ag_mUsedByKernlTable sink = [0 \<mapsto> [[1, 2]], 1 \<mapsto> [[2]], 2 \<mapsto> []]"
  "fi_mAsyncValueInfos (ag_mFunctionInfo sink) = [\<lparr>avi_mUserCount = 2, avi_mValue = None\<rparr>, \<lparr>avi_mUserCount = 1, avi_mValue = None\<rparr>]"
  "fi_mKernelInfos (ag_mFunctionInfo sink) = [0, 1, 0]"
  by (simp_all add: sink_def build_eval ex_node_def)

lemma sink_shape:
  "start_node sink = Some 0" "node_outs sink 0 = [0]" "node_ins sink 2 = [0, 1]" "GetNextUsedBys sink 0 0 = Some [1, 2]"
  by (simp_all add: shape_eval sink_graph ex_node_def)

text \<open>BuildGraph stores the input count of a node only with its results: a node without results is about to run
  although nothing has produced its second input.\<close>

lemma GraphExecutor_sink_runs_early:
  "\<exists>s0 s. GraphExecutor_Execute sink [0] duo_av = Some s0 \<and> gx_program duo_kern 3 abc_order sink 4 [0, 0, 0, 0, 0, 0, 0, 1, 1] s0 = Some s \<and>
     gx_acts s ! 1 = PRun 2 \<and> gx_ran s = [] \<and> node_ins sink 2 = [0, 1] \<and> reg_value s 1 = None"
  by (simp add: duo_av_def run_eval sink_shape sink_graph(2,5,6))

definition sources :: "nat AsyncGraph" where
  "sources = abc_graph [ex_node ''src'' [] ''a'', ex_node ''f'' [''a''] ''b'', ex_node ''g'' [] ''c'']"

lemma sources_graph:
  "ag_mAsyncNodes sources = [ex_node ''src'' [] ''a'', ex_node ''f'' [''a''] ''b'', ex_node ''g'' [] ''c'']"
  "ag_mIsConstructed sources" "ag_mNameAndAsyncIdPair sources = [''a'' \<mapsto> 0, ''b'' \<mapsto> 1, ''c'' \<mapsto> 2]"
  "ag_mUsedByKernlTable sources = [0 \<mapsto> [[1]], 1 \<mapsto> [[]], 2 \<mapsto> [[]]]"
  "fi_mAsyncValueInfos (ag_mFunctionInfo sources) = [\<lparr>avi_mUserCount = 1, avi_mValue = None\<rparr>, \<lparr>avi_mUserCount = 0, avi_mValue = None\<rparr>,
     \<lparr>avi_mUserCount = 0, avi_mValue = None\<rparr>]"
  "fi_mKernelInfos (ag_mFunctionInfo sources) = [0, 1, 0]"
  by (simp_all add: sources_def build_eval ex_node_def)

lemma sources_shape:
  "start_node sources = Some 0" "node_outs sources 0 = [0]" "node_ins sources (Suc 0) = [0]" "node_outs sources (Suc 0) = [1]"
  "GetNextUsedBys sources 0 0 = Some [1]" "GetNextUsedBys sources (Suc 0) 0 = Some []" "length (ag_mAsyncNodes sources) = 3"
  "an_mFunc (ag_mAsyncNodes sources ! Suc 0) = Some 0" "map (async_id sources) (abc_order (ag_mNameAndAsyncIdPair sources)) = [0, 1, 2]"
  by (simp_all add: shape_eval sources_graph ex_node_def abc_order_def)

text \<open>Only the first node without inputs is started: a further one never runs.\<close>

lemma GraphExecutor_second_source_never_runs:
  "\<exists>s0 s. GraphExecutor_Execute sources [0] duo_av = Some s0 \<and>
     gx_program duo_kern 3 abc_order sources 4 [0, 0, 0, 0, 0, 0, 0, 0, 0, 0, 0, 0, 0, 0, 0] s0 = Some s \<and>
     gx_acts s = [PFinished] \<and> gx_ran s = [1] \<and> (\<exists>a. (2, a) \<in> set (gx_results s) \<and> IsUnresolvedIndirect (as_heap (gx_av s)) a)"
  by (simp add: duo_av_def run_eval sources_shape sources_graph(2,5,6))

definition spare :: "nat AsyncGraph" where
  "spare = abc_graph [(ex_node ''src'' [] ''a'')\<lparr>an_mOutputNames := [''a'', ''c'']\<rparr>, ex_node ''f'' [''a''] ''b'']"

lemma spare_graph:
  "ag_mAsyncNodes spare = [(ex_node ''src'' [] ''a'')\<lparr>an_mOutputNames := [''a'', ''c'']\<rparr>, ex_node ''f'' [''a''] ''b'']"
  "ag_mIsConstructed spare" "ag_mNameAndAsyncIdPair spare = [''a'' \<mapsto> 0, ''c'' \<mapsto> 1, ''b'' \<mapsto> 2]"
  "ag_mUsedByKernlTable spare = [0 \<mapsto> [[1], []], 1 \<mapsto> [[]]]"
  "fi_mAsyncValueInfos (ag_mFunctionInfo spare) = [\<lparr>avi_mUserCount = 1, avi_mValue = None\<rparr>, \<lparr>avi_mUserCount = 0, avi_mValue = None\<rparr>,
     \<lparr>avi_mUserCount = 0, avi_mValue = None\<rparr>]"
  "fi_mKernelInfos (ag_mFunctionInfo spare) = [0, 1]"
  by (simp_all add: spare_def build_eval ex_node_def)

lemma spare_shape:
  "start_node spare = Some 0" "node_outs spare 0 = [0, 1]" "node_ins spare (Suc 0) = [0]" "node_outs spare (Suc 0) = [2]"
  "GetNextUsedBys spare 0 0 = Some [1]" "GetNextUsedBys spare (Suc 0) 0 = Some []" "length (ag_mAsyncNodes spare) = 2"
  "an_mFunc (ag_mAsyncNodes spare ! Suc 0) = Some 0" "map (async_id spare) (abc_order (ag_mNameAndAsyncIdPair spare)) = [0, 2, 1]"
  by (simp_all add: shape_eval spare_graph ex_node_def abc_order_def)

text \<open>An argument that no kernel uses gets no reference but is handed out as a result. With one reference of the caller the
  count is one after the run, for two owners: the second of them to drop it drops a destroyed value.\<close>

definition spare_av :: "nat av_sys" where
  "spare_av = HostContext_Construct (ConcreteAsyncValue_Concrete demo_type 8) duo_av"

lemma GraphExecutor_unused_argument_released_twice:
  "\<exists>s0 s. GraphExecutor_Execute spare [0, 1] spare_av = Some s0 \<and>
     gx_program duo_kern 3 abc_order spare 4 [0, 0, 0, 0, 0, 0, 0, 0, 0, 0, 0, 0, 0, 0, 0, 0] s0 = Some s \<and> gx_acts s = [PFinished] \<and>
     as_ext spare_av 1 = 1 \<and> (1, 1) \<in> set (gx_results s) \<and> map_option mRefCount (as_heap (gx_av s) 1) = Some 1 \<and>
     Option.bind (av_DropRef 1 (gx_av s)) (av_DropRef 1) = None"
  by (simp add: spare_av_def duo_av_def run_eval spare_shape spare_graph(2,5,6))

subsection \<open>Results that are dropped early\<close>

definition fork :: "nat AsyncGraph" where
  "fork = abc_graph [ex_node ''src'' [] ''a'', ex_node ''f'' [''a''] ''b'', ex_node ''g'' [''a''] ''c'']"

lemma fork_graph:
  "ag_mAsyncNodes fork = [ex_node ''src'' [] ''a'', ex_node ''f'' [''a''] ''b'', ex_node ''g'' [''a''] ''c'']"
  "ag_mIsConstructed fork" "ag_mNameAndAsyncIdPair fork = [''a'' \<mapsto> 0, ''b'' \<mapsto> 1, ''c'' \<mapsto> 2]"
  "ag_mUsedByKernlTable fork = [0 \<mapsto> [[1, 2]], 1 \<mapsto> [[]], 2 \<mapsto> [[]]]"
  "fi_mAsyncValueInfos (ag_mFunctionInfo fork) = [\<lparr>avi_mUserCount = 2, avi_mValue = None\<rparr>, \<lparr>avi_mUserCount = 0, avi_mValue = None\<rparr>,
     \<lparr>avi_mUserCount = 0, avi_mValue = None\<rparr>]"
  "fi_mKernelInfos (ag_mFunctionInfo fork) = [0, 1, 1]"
  by (simp_all add: fork_def build_eval ex_node_def)

lemma fork_shape:
  "start_node fork = Some 0" "node_outs fork 0 = [0]" "node_ins fork (Suc 0) = [0]" "node_outs fork (Suc 0) = [1]"
  "node_ins fork 2 = [0]" "node_outs fork 2 = [2]"
  "GetNextUsedBys fork 0 0 = Some [1, 2]" "GetNextUsedBys fork (Suc 0) 0 = Some []" "GetNextUsedBys fork 2 0 = Some []"
  "length (ag_mAsyncNodes fork) = 3" "an_mFunc (ag_mAsyncNodes fork ! Suc 0) = Some 0" "an_mFunc (ag_mAsyncNodes fork ! 2) = Some 0"
  "map (async_id fork) (abc_order (ag_mNameAndAsyncIdPair fork)) = [0, 1, 2]"
  by (simp_all add: shape_eval fork_graph ex_node_def abc_order_def)

text \<open>Two kernels, of which the second is a task of the work queue. Execute has returned while that task has not run yet;
  its result is an indirect value with one reference, the caller's. When the caller drops it the task fails as it
  delivers the result: the register still refers to the destroyed value.\<close>

lemma GraphExecutor_dropped_result_fails:
  "\<exists>s0 s av s1. GraphExecutor_Execute fork [0] duo_av = Some s0 \<and>
     gx_program duo_kern 3 abc_order fork 4 [0, 0, 0, 0, 0, 0, 0, 0, 0, 0, 0, 0, 0, 0, 0, 0, 0] s0 = Some s \<and>
     gx_acts s = [PFinished, PLoop [2]] \<and> (2, 2) \<in> set (gx_results s) \<and> as_ext (gx_av s) 2 = 1 \<and>
     av_DropRef 2 (gx_av s) = Some av \<and>
     gx_program duo_kern 3 abc_order fork 4 [1, 1, 1, 1, 1] (gx_env s av) = Some s1 \<and> gx_acts s1 ! 1 \<noteq> PFinished \<and>
     gx_act duo_kern 3 abc_order fork 1 s1 = None"
  by (simp add: duo_av_def run_eval gx_env_def gx_called_def fork_shape fork_graph(2,5,6))

end
