(* ===== verification/Single_Threaded.thy ===== *)
theory Single_Threaded
  imports Prelude "HOL-Library.Sublist"
begin

text \<open>
  SingleThreadedWorkQueue (\<^verbatim>\<open>src/async/context/single_threaded_work_queue.cpp\<close>) and the registry of work queue
  factories (\<^verbatim>\<open>src/async/concurrent/concurrent_work_queue.cpp\<close>).

  The tasks and the values are not part of these files: \<open>run x c\<close> is the effect of task \<open>x\<close> on the state \<open>c\<close> of its
  client, with the tasks it adds, in order; \<open>avail c i\<close> tells whether the awaited value number \<open>i\<close> is available
  in the client's state. Of AndThen the model uses what theory Async_System proves of it: a closure is
  called at once when the value is available and otherwise once, after the value has become available;
  available values stay available.
\<close>

subsection \<open>Adding tasks\<close>

type_synonym ('w, 'c) task_effect = "'w \<Rightarrow> 'c \<Rightarrow> 'c \<times> 'w list"

definition SingleThreaded_AddTask :: "'w \<Rightarrow> 'w list \<Rightarrow> 'w list" where
  "SingleThreaded_AddTask work mWorkItems = mWorkItems @ [work]"

text \<open>The answer is the task that was refused.\<close>

definition SingleThreaded_AddBlockingTask :: "'w \<Rightarrow> bool \<Rightarrow> 'w list \<Rightarrow> 'w option \<times> 'w list" where
  "SingleThreaded_AddBlockingTask work allow_queuing mWorkItems =
     (if \<not> allow_queuing then (Some work, mWorkItems) else (None, mWorkItems @ [work]))"

subsection \<open>Quiesce\<close>

text \<open>The loop over one batch; mWorkItems is empty when it starts and collects what the tasks add. No other thread
  adds tasks; \<open>ran_before\<close> lists the tasks that ran in earlier rounds.\<close>

fun run_batch :: "('w, 'c) task_effect \<Rightarrow> 'w list \<Rightarrow> 'c \<Rightarrow> 'w list \<Rightarrow> 'c \<times> 'w list" where
  "run_batch run [] c mWorkItems = (c, mWorkItems)"
| "run_batch run (item # items) c mWorkItems = (case run item c of (c1, new) \<Rightarrow> run_batch run items c1 (mWorkItems @ new))"

partial_function (option) SingleThreaded_Quiesce :: "('w, 'c) task_effect \<Rightarrow> 'w list \<Rightarrow> 'c \<Rightarrow> 'w list \<Rightarrow> ('c \<times> 'w list) option" where
  "SingleThreaded_Quiesce run mWorkItems c ran_before =
     (if mWorkItems = [] then Some (c, ran_before)
      else case run_batch run mWorkItems c [] of (c1, items) \<Rightarrow> SingleThreaded_Quiesce run items c1 (ran_before @ mWorkItems))"

text \<open>The reference: one first-in first-out queue.\<close>

partial_function (option) fifo_loop :: "('w, 'c) task_effect \<Rightarrow> 'w list \<Rightarrow> 'c \<Rightarrow> 'w list \<Rightarrow> ('c \<times> 'w list) option" where
  "fifo_loop run queue c ran_before =
     (case queue of
        [] \<Rightarrow> Some (c, ran_before)
      | x # xs \<Rightarrow> (case run x c of (c1, new) \<Rightarrow> fifo_loop run (xs @ new) c1 (ran_before @ [x])))"

subsection \<open>Await\<close>

text \<open>Await as a sequence of critical sections and task runs, interleaved with other threads that add tasks
  and resolve values: before the AndThen of the next value; before has_values; inside the section that waits;
  asleep on mCv; before the run of the next local item; returned; undefined behaviour. \<open>aw_waiting\<close> lists the
  values whose closure is registered and has not been called, \<open>aw_notifies\<close> counts the threads between the
  critical section of AddTask or of a closure and the notify_all that follows it. values_remaining is only
  compared with zero, so that its 32 bits are a word. \<open>aw_added\<close> lists all tasks in the order in which they
  were added, \<open>aw_ran\<close> those that have run.\<close>

datatype aw_pc = AwRegister nat | AwTest | AwWait | AwSleep | AwItem | AwReturned | AwUndefined

record ('w, 'c) st_await =
  aw_pc :: aw_pc
  aw_values_remaining :: u32
  aw_waiting :: "nat list"
  aw_notifies :: nat
  aw_mWorkItems :: "'w list"
  aw_local_work_items :: "'w list"
  aw_next_work_item_index :: nat
  aw_client :: 'c
  aw_ran :: "'w list"
  aw_added :: "'w list"

text \<open>The critical section of the closure of value \<open>i\<close>.\<close>

definition aw_callback :: "nat \<Rightarrow> ('w, 'c) st_await \<Rightarrow> ('w, 'c) st_await" where
  "aw_callback i s = s\<lparr>aw_waiting := remove1 i (aw_waiting s), aw_values_remaining := aw_values_remaining s - 1\<rparr>"

text \<open>mCv.notify_all.\<close>

definition aw_notify_all :: "('w, 'c) st_await \<Rightarrow> ('w, 'c) st_await" where
  "aw_notify_all s = (if aw_pc s = AwSleep then s\<lparr>aw_pc := AwWait\<rparr> else s)"

text \<open>The end of Await: the rest of the local items goes back to the front. \<^verbatim>\<open>begin() + next_work_item_index\<close>
  must not be past the end.\<close>

definition aw_return :: "('w, 'c) st_await \<Rightarrow> ('w, 'c) st_await" where
  "aw_return s =
     (let n = aw_next_work_item_index s; local = aw_local_work_items s in
      if n = length local then s\<lparr>aw_pc := AwReturned\<rparr>
      else if n < length local then s\<lparr>aw_pc := AwReturned, aw_mWorkItems := drop n local @ aw_mWorkItems s\<rparr>
      else s\<lparr>aw_pc := AwUndefined\<rparr>)"

text \<open>A step of the thread in Await, for \<open>n\<close> values. A task that makes values available calls their closures before it
  returns.\<close>

fun aw_step :: "('w, 'c) task_effect \<Rightarrow> ('c \<Rightarrow> nat \<Rightarrow> bool) \<Rightarrow> nat \<Rightarrow> aw_pc \<Rightarrow> ('w, 'c) st_await \<Rightarrow> ('w, 'c) st_await option" where
  "aw_step run avail n (AwRegister i) s =
     Some (if i < n
           then let s1 = s\<lparr>aw_waiting := aw_waiting s @ [i], aw_pc := AwRegister (i + 1)\<rparr> in
             if avail (aw_client s) i then aw_notify_all (aw_callback i s1) else s1
           else s\<lparr>aw_pc := AwTest\<rparr>)"
| "aw_step run avail n AwTest s =
     Some (if aw_values_remaining s = 0 then aw_return s
           else if aw_next_work_item_index s = length (aw_local_work_items s) then s\<lparr>aw_local_work_items := [], aw_pc := AwWait\<rparr>
           else s\<lparr>aw_pc := AwItem\<rparr>)"
| "aw_step run avail n AwWait s =
     Some (if aw_values_remaining s \<noteq> 0 \<and> aw_mWorkItems s = [] then s\<lparr>aw_pc := AwSleep\<rparr>
           else if aw_values_remaining s = 0 then aw_return s
           else s\<lparr>aw_local_work_items := aw_mWorkItems s, aw_mWorkItems := [], aw_next_work_item_index := 0, aw_pc := AwItem\<rparr>)"
| "aw_step run avail n AwItem s =
     (if aw_next_work_item_index s < length (aw_local_work_items s)
      then let x = aw_local_work_items s ! aw_next_work_item_index s in
        case run x (aw_client s) of (c, new) \<Rightarrow>
          Some (fold aw_callback (filter (\<lambda>i. avail c i \<and> \<not> avail (aw_client s) i) (aw_waiting s))
            (s\<lparr>aw_client := c, aw_mWorkItems := aw_mWorkItems s @ new, aw_added := aw_added s @ new, aw_ran := aw_ran s @ [x],
               aw_next_work_item_index := aw_next_work_item_index s + 1, aw_pc := AwTest\<rparr>))
      else Some (s\<lparr>aw_pc := AwUndefined\<rparr>))"
| "aw_step run avail n _ s = None"

definition SingleThreaded_Await :: "nat \<Rightarrow> 'w list \<Rightarrow> 'c \<Rightarrow> ('w, 'c) st_await" where
  "SingleThreaded_Await n mWorkItems c = \<lparr>aw_pc = AwRegister 0, aw_values_remaining = of_nat n, aw_waiting = [], aw_notifies = 0,
     aw_mWorkItems = mWorkItems, aw_local_work_items = [], aw_next_work_item_index = 0, aw_client = c, aw_ran = [], aw_added = mWorkItems\<rparr>"

text \<open>All interleavings: the thread in Await; another thread that changes the client's state, for instance
  resolves values; the critical section of AddTask; the closure of a value that has become available; the
  notify_all after one of these sections; and a spurious wake-up.\<close>

definition keeps_available_values :: "('c \<Rightarrow> nat \<Rightarrow> bool) \<Rightarrow> 'c \<Rightarrow> 'c \<Rightarrow> bool" where
  "keeps_available_values avail c c' \<longleftrightarrow> (\<forall>i. avail c i \<longrightarrow> avail c' i)"

inductive aw_reach :: "('w, 'c) task_effect \<Rightarrow> ('c \<Rightarrow> nat \<Rightarrow> bool) \<Rightarrow> nat \<Rightarrow> 'w list \<Rightarrow> ('w, 'c) st_await \<Rightarrow> bool" for run avail n items where
  start: "aw_reach run avail n items (SingleThreaded_Await n items c)"
| own: "aw_reach run avail n items s \<Longrightarrow> aw_step run avail n (aw_pc s) s = Some s' \<Longrightarrow>
    keeps_available_values avail (aw_client s) (aw_client s') \<Longrightarrow> aw_reach run avail n items s'"
| client: "aw_reach run avail n items s \<Longrightarrow> keeps_available_values avail (aw_client s) c \<Longrightarrow> aw_reach run avail n items (s\<lparr>aw_client := c\<rparr>)"
| add: "aw_reach run avail n items s \<Longrightarrow>
    aw_reach run avail n items (s\<lparr>aw_mWorkItems := SingleThreaded_AddTask x (aw_mWorkItems s), aw_added := aw_added s @ [x], aw_notifies := aw_notifies s + 1\<rparr>)"
| callback: "aw_reach run avail n items s \<Longrightarrow> i \<in> set (aw_waiting s) \<Longrightarrow> avail (aw_client s) i \<Longrightarrow>
    aw_reach run avail n items ((aw_callback i s)\<lparr>aw_notifies := aw_notifies s + 1\<rparr>)"
| notify: "aw_reach run avail n items s \<Longrightarrow> 0 < aw_notifies s \<Longrightarrow>
    aw_reach run avail n items (aw_notify_all (s\<lparr>aw_notifies := aw_notifies s - 1\<rparr>))"
| spurious: "aw_reach run avail n items s \<Longrightarrow> aw_pc s = AwSleep \<Longrightarrow> aw_reach run avail n items (s\<lparr>aw_pc := AwWait\<rparr>)"

subsection \<open>Factories\<close>

text \<open>CreateWorkQueue splits the configuration at the first colon and calls the factory of that name.\<close>

definition RegisterWorkQueueFactory :: "string \<Rightarrow> 'f \<Rightarrow> (string \<rightharpoonup> 'f) \<Rightarrow> (string \<rightharpoonup> 'f) option" where
  "RegisterWorkQueueFactory name factory factories =
     (if factories name = None then Some (factories(name \<mapsto> factory)) else None)"

definition CreateWorkQueue :: "string \<Rightarrow> (string \<rightharpoonup> (string \<Rightarrow> 'q)) \<Rightarrow> 'q option" where
  "CreateWorkQueue config factories =
     (let name = takeWhile (\<lambda>c. c \<noteq> CHR '':'') config; rest = dropWhile (\<lambda>c. c \<noteq> CHR '':'') config;
          args = (case rest of [] \<Rightarrow> [] | _ # as \<Rightarrow> as) in
      map_option (\<lambda>factory. factory args) (factories name))"

lemma CreateWorkQueue_registered:
  assumes "RegisterWorkQueueFactory name factory fs = Some fs'" "CHR '':'' \<notin> set name"
  shows "CreateWorkQueue name fs' = Some (factory [])" "CreateWorkQueue (name @ '':'' @ args) fs' = Some (factory args)"
proof -
  have fs: "fs' name = Some factory" using assms(1) by (auto simp: RegisterWorkQueueFactory_def split: if_splits)
  have n: "\<And>c. c \<in> set name \<Longrightarrow> c \<noteq> CHR '':''" using assms(2) by auto
  have a: "takeWhile (\<lambda>c. c \<noteq> CHR '':'') name = name" "dropWhile (\<lambda>c. c \<noteq> CHR '':'') name = []"
    using n by (simp_all add: takeWhile_eq_all_conv dropWhile_eq_Nil_conv)
  show "CreateWorkQueue name fs' = Some (factory [])" unfolding CreateWorkQueue_def Let_def a by (simp add: fs)
  have b: "takeWhile (\<lambda>c. c \<noteq> CHR '':'') (name @ '':'' @ args) = name" "dropWhile (\<lambda>c. c \<noteq> CHR '':'') (name @ '':'' @ args) = CHR '':'' # args"
    using n by (simp_all add: takeWhile_append2 dropWhile_append2)
  show "CreateWorkQueue (name @ '':'' @ args) fs' = Some (factory args)" unfolding CreateWorkQueue_def Let_def b by (simp add: fs)
qed

subsection \<open>Quiesce is a FIFO\<close>

lemma fifo_batch: "fifo_loop run (xs @ ys) c l = (case run_batch run xs c ys of (c1, q) \<Rightarrow> fifo_loop run q c1 (l @ xs))"
proof (induction xs arbitrary: c ys l)
  case (Cons x xs)
  obtain c1 new where r: "run x c = (c1, new)" by fastforce
  have "fifo_loop run ((x # xs) @ ys) c l = fifo_loop run (xs @ (ys @ new)) c1 (l @ [x])"
    by (subst fifo_loop.simps) (simp add: r)
  then show ?case using Cons.IH [of "ys @ new" c1 "l @ [x]"] r by simp
qed simp


text \<open>The rounds of the batch loop, counted.\<close>

fun quiesce_rounds :: "nat \<Rightarrow> ('w, 'c) task_effect \<Rightarrow> 'w list \<Rightarrow> 'c \<Rightarrow> 'w list \<Rightarrow> ('c \<times> 'w list) option" where
  "quiesce_rounds 0 run q c l = None"
| "quiesce_rounds (Suc n) run q c l =
     (if q = [] then Some (c, l) else case run_batch run q c [] of (c1, items) \<Rightarrow> quiesce_rounds n run items c1 (l @ q))"

fun fifo_rounds :: "nat \<Rightarrow> ('w, 'c) task_effect \<Rightarrow> 'w list \<Rightarrow> 'c \<Rightarrow> 'w list \<Rightarrow> ('c \<times> 'w list) option" where
  "fifo_rounds 0 run q c l = None"
| "fifo_rounds (Suc n) run q c l =
     (case q of [] \<Rightarrow> Some (c, l) | x # xs \<Rightarrow> (case run x c of (c1, new) \<Rightarrow> fifo_rounds n run (xs @ new) c1 (l @ [x])))"

lemma quiesce_rounds_sound: "quiesce_rounds n run q c l = Some r \<Longrightarrow> SingleThreaded_Quiesce run q c l = Some r"
proof (induction n arbitrary: q c l)
  case (Suc n)
  then show ?case by (subst SingleThreaded_Quiesce.simps) (auto split: prod.splits if_splits)
qed simp

lemma fifo_rounds_length: "fifo_rounds n run q c l = Some r \<Longrightarrow> length q < n"
  by (induction n arbitrary: q c l) (fastforce split: list.splits prod.splits)+

lemma fifo_rounds_batch:
  "fifo_rounds (length xs + n) run (xs @ ys) c l = (case run_batch run xs c ys of (c1, q) \<Rightarrow> fifo_rounds n run q c1 (l @ xs))"
  by (induction xs arbitrary: c ys l) (auto split: prod.splits)

lemma fifo_rounds_quiesce: "fifo_rounds n run q c l = Some r \<Longrightarrow> \<exists>m. quiesce_rounds m run q c l = Some r"
proof (induction n arbitrary: q c l rule: less_induct)
  case (less n)
  show ?case
  proof (cases "q = []")
    case True
    then show ?thesis using less.prems by (cases n) (auto intro!: exI [of _ 1])
  next
    case False
    obtain k where k: "n = length q + k" using fifo_rounds_length [OF less.prems] by (metis add.commute le_add_diff_inverse2 less_imp_le)
    obtain c1 items where b: "run_batch run q c [] = (c1, items)" by fastforce
    have "fifo_rounds k run items c1 (l @ q) = Some r" using less.prems fifo_rounds_batch [of q k run "[]" c l] b k by simp
    moreover have "k < n" using k False by (cases q) auto
    ultimately obtain m where "quiesce_rounds m run items c1 (l @ q) = Some r" using less.IH by blast
    then show ?thesis using False b by (intro exI [of _ "Suc m"]) simp
  qed
qed

lemma fifo_loop_rounds:
  fixes run :: "('w, 'c) task_effect"
  assumes "fifo_loop run q c l = Some r"
  shows "\<exists>n. fifo_rounds n run q c l = Some r"
proof (rule fifo_loop.raw_induct [where P = "\<lambda>run q c l r. \<exists>n. fifo_rounds n run q c l = Some r", OF _ assms])
  fix rec :: "('w, 'c) task_effect \<Rightarrow> 'w list \<Rightarrow> 'c \<Rightarrow> 'w list \<Rightarrow> ('c \<times> 'w list) option" and run q c l r
  assume IH: "\<And>run q c l r. rec run q c l = Some r \<Longrightarrow> \<exists>n. fifo_rounds n run q c l = Some r"
    and step: "(case q of [] \<Rightarrow> Some (c, l) | x # xs \<Rightarrow> (case run x c of (c1, new) \<Rightarrow> rec run (xs @ new) c1 (l @ [x]))) = Some r"
  show "\<exists>n. fifo_rounds n run q c l = Some r"
  proof (cases q)
    case Nil
    then show ?thesis using step by (intro exI [of _ 1]) simp
  next
    case (Cons x xs)
    obtain c1 new where x: "run x c = (c1, new)" by fastforce
    obtain n where "fifo_rounds n run (xs @ new) c1 (l @ [x]) = Some r" using IH step Cons x by fastforce
    then show ?thesis using Cons x by (intro exI [of _ "Suc n"]) simp
  qed
qed

lemma Quiesce_fifo:
  fixes run :: "('w, 'c) task_effect"
  assumes "SingleThreaded_Quiesce run q c l = Some r"
  shows "fifo_loop run q c l = Some r"
proof (rule SingleThreaded_Quiesce.raw_induct [where P = "\<lambda>run q c l r. fifo_loop run q c l = Some r", OF _ assms])
  fix rec :: "('w, 'c) task_effect \<Rightarrow> 'w list \<Rightarrow> 'c \<Rightarrow> 'w list \<Rightarrow> ('c \<times> 'w list) option" and run q c l r
  assume IH: "\<And>run q c l r. rec run q c l = Some r \<Longrightarrow> fifo_loop run q c l = Some r"
    and step: "(if q = [] then Some (c, l) else case run_batch run q c [] of (c1, items) \<Rightarrow> rec run items c1 (l @ q)) = Some r"
  show "fifo_loop run q c l = Some r"
  proof (cases "q = []")
    case True
    then show ?thesis using step by (subst fifo_loop.simps) simp
  next
    case False
    obtain c1 items where b: "run_batch run q c [] = (c1, items)" by fastforce
    then have "fifo_loop run items c1 (l @ q) = Some r" using IH step False by simp
    then show ?thesis using fifo_batch [of run q "[]" c l] b by simp
  qed
qed

text \<open>
  Quiesce, which runs the tasks in batches that it swaps out of mWorkItems,
  behaves as one first-in first-out queue: it returns exactly when the queue empties, then with the same
  state of the client and the tasks run in the same order, those that tasks added included.
\<close>

theorem SingleThreaded_Quiesce_is_fifo: "SingleThreaded_Quiesce run q c l = fifo_loop run q c l"
proof (cases "fifo_loop run q c l")
  case None
  then show ?thesis using Quiesce_fifo [of run q c l] by (cases "SingleThreaded_Quiesce run q c l") auto
next
  case (Some r)
  then show ?thesis using fifo_loop_rounds fifo_rounds_quiesce quiesce_rounds_sound by metis
qed

subsection \<open>Await runs the tasks in order\<close>

text \<open>What has run, the rest of the local items and mWorkItems make up the tasks in the order of their addition.\<close>

fun aw_tasks :: "aw_pc \<Rightarrow> ('w, 'c) st_await \<Rightarrow> bool" where
  "aw_tasks (AwRegister i) s = (aw_next_work_item_index s = 0 \<and> aw_local_work_items s = [] \<and> aw_ran s @ aw_mWorkItems s = aw_added s)"
| "aw_tasks AwTest s = (aw_next_work_item_index s \<le> length (aw_local_work_items s) \<and>
     aw_ran s @ drop (aw_next_work_item_index s) (aw_local_work_items s) @ aw_mWorkItems s = aw_added s)"
| "aw_tasks AwItem s = (aw_next_work_item_index s < length (aw_local_work_items s) \<and>
     aw_ran s @ drop (aw_next_work_item_index s) (aw_local_work_items s) @ aw_mWorkItems s = aw_added s)"
| "aw_tasks AwReturned s = (aw_ran s @ aw_mWorkItems s = aw_added s)"
| "aw_tasks AwUndefined s = (0 < aw_next_work_item_index s \<and> aw_local_work_items s = [] \<and> aw_ran s @ aw_mWorkItems s = aw_added s)"
| "aw_tasks _ s = (aw_local_work_items s = [] \<and> aw_ran s @ aw_mWorkItems s = aw_added s)"

text \<open>values_remaining counts the values without a call of their closure, registered or not; a value whose closure
  was called is available.\<close>

definition aw_registered :: "nat \<Rightarrow> aw_pc \<Rightarrow> nat" where
  "aw_registered n p = (case p of AwRegister i \<Rightarrow> i | _ \<Rightarrow> n)"

definition aw_values :: "('c \<Rightarrow> nat \<Rightarrow> bool) \<Rightarrow> nat \<Rightarrow> ('w, 'c) st_await \<Rightarrow> bool" where
  "aw_values avail n s \<longleftrightarrow> aw_registered n (aw_pc s) \<le> n \<and> distinct (aw_waiting s) \<and> set (aw_waiting s) \<subseteq> {..<aw_registered n (aw_pc s)} \<and>
     aw_values_remaining s = of_nat (length (aw_waiting s) + (n - aw_registered n (aw_pc s))) \<and>
     (\<forall>i<aw_registered n (aw_pc s). i \<notin> set (aw_waiting s) \<longrightarrow> avail (aw_client s) i)"

text \<open>A thread that sleeps although there is something to do has its notification coming. Await ends only with no value remaining.\<close>

definition aw_waits :: "('w, 'c) st_await \<Rightarrow> bool" where
  "aw_waits s \<longleftrightarrow> (aw_pc s = AwSleep \<longrightarrow> 0 < aw_notifies s \<or> aw_values_remaining s \<noteq> 0 \<and> aw_mWorkItems s = []) \<and>
     (aw_pc s \<in> {AwReturned, AwUndefined} \<longrightarrow> aw_values_remaining s = 0)"

lemma aw_callback_sel [simp]:
  "aw_pc (aw_callback i s) = aw_pc s" "aw_mWorkItems (aw_callback i s) = aw_mWorkItems s" "aw_local_work_items (aw_callback i s) = aw_local_work_items s"
  "aw_next_work_item_index (aw_callback i s) = aw_next_work_item_index s" "aw_client (aw_callback i s) = aw_client s" "aw_ran (aw_callback i s) = aw_ran s"
  "aw_added (aw_callback i s) = aw_added s" "aw_notifies (aw_callback i s) = aw_notifies s" "aw_waiting (aw_callback i s) = remove1 i (aw_waiting s)"
  "aw_values_remaining (aw_callback i s) = aw_values_remaining s - 1"
  by (simp_all add: aw_callback_def)

lemma aw_callbacks_sel [simp]:
  "aw_pc (fold aw_callback is s) = aw_pc s" "aw_mWorkItems (fold aw_callback is s) = aw_mWorkItems s"
  "aw_local_work_items (fold aw_callback is s) = aw_local_work_items s"
  "aw_next_work_item_index (fold aw_callback is s) = aw_next_work_item_index s" "aw_client (fold aw_callback is s) = aw_client s"
  "aw_ran (fold aw_callback is s) = aw_ran s" "aw_added (fold aw_callback is s) = aw_added s"
  by (induction "is" arbitrary: s) simp_all

lemma aw_tasks_cong:
  assumes "aw_mWorkItems s' = aw_mWorkItems s" "aw_local_work_items s' = aw_local_work_items s"
    "aw_next_work_item_index s' = aw_next_work_item_index s" "aw_ran s' = aw_ran s" "aw_added s' = aw_added s"
  shows "aw_tasks p s' = aw_tasks p s"
  using assms by (cases p) simp_all

lemma aw_return_sel [simp]:
  "aw_waiting (aw_return s) = aw_waiting s" "aw_values_remaining (aw_return s) = aw_values_remaining s" "aw_client (aw_return s) = aw_client s"
  "aw_pc (aw_return s) \<in> {AwReturned, AwUndefined}"
  by (simp_all add: aw_return_def Let_def)

lemma aw_tasks_step:
  assumes "aw_tasks (aw_pc s) s" "aw_step run avail n (aw_pc s) s = Some s'"
  shows "aw_tasks (aw_pc s') s'"
proof (cases "aw_pc s")
  case AwItem
  let ?n = "aw_next_work_item_index s" and ?l = "aw_local_work_items s"
  have n: "?n < length ?l" and a: "aw_ran s @ drop ?n ?l @ aw_mWorkItems s = aw_added s" using assms(1) AwItem by auto
  have "(aw_ran s @ [?l ! ?n]) @ drop (Suc ?n) ?l @ aw_mWorkItems s = aw_added s" using a by (simp flip: Cons_nth_drop_Suc [OF n])
  then show ?thesis using assms(2) AwItem n by (auto simp: Let_def simp flip: append_assoc split: prod.splits)
next
  case (AwRegister i)
  then show ?thesis using assms by (auto simp: aw_notify_all_def aw_callback_def Let_def split: if_splits)
qed (use assms in \<open>auto simp: aw_return_def Let_def split: if_splits\<close>)

lemma aw_tasks_add:
  "aw_tasks p s \<Longrightarrow> aw_tasks p (s\<lparr>aw_mWorkItems := SingleThreaded_AddTask x (aw_mWorkItems s), aw_added := aw_added s @ [x], aw_notifies := k\<rparr>)"
  by (cases p) (auto simp: SingleThreaded_AddTask_def simp flip: append_assoc)

lemma aw_reach_tasks: "aw_reach run avail n items s \<Longrightarrow> aw_tasks (aw_pc s) s"
proof (induction rule: aw_reach.induct)
  case (own s s')
  then show ?case using aw_tasks_step by blast
next
  case (client s c)
  then show ?case using aw_tasks_cong [of "s\<lparr>aw_client := c\<rparr>" s] by simp
next
  case (add s x)
  then show ?case using aw_tasks_add by simp
next
  case (callback s i)
  then show ?case using aw_tasks_cong [of "(aw_callback i s)\<lparr>aw_notifies := aw_notifies s + 1\<rparr>" s] by simp
next
  case (notify s)
  then show ?case using aw_tasks_cong [of "aw_notify_all (s\<lparr>aw_notifies := aw_notifies s - 1\<rparr>)" s] by (auto simp: aw_notify_all_def)
qed (simp_all add: SingleThreaded_Await_def)

lemma aw_values_callback:
  assumes "aw_values avail n s" "i \<in> set (aw_waiting s)" "avail (aw_client s) i"
  shows "aw_values avail n (aw_callback i s)"
proof -
  obtain m where m: "length (aw_waiting s) = Suc m" using assms(2) by (cases "aw_waiting s") auto
  then have "length (remove1 i (aw_waiting s)) = m" using assms(2) by (simp add: length_remove1)
  then have "aw_values_remaining s - 1 = of_nat (length (remove1 i (aw_waiting s)) + (n - aw_registered n (aw_pc s)))"
    using assms(1) m by (simp add: aw_values_def)
  moreover have "\<forall>j<aw_registered n (aw_pc s). j \<notin> set (remove1 i (aw_waiting s)) \<longrightarrow> avail (aw_client s) j"
    using assms in_set_remove1 [of _ i "aw_waiting s"] unfolding aw_values_def by metis
  moreover have "set (remove1 i (aw_waiting s)) \<subseteq> {..<aw_registered n (aw_pc s)}" using assms(1) set_remove1_subset unfolding aw_values_def by fastforce
  ultimately show ?thesis using assms(1) unfolding aw_values_def aw_callback_sel by (simp add: distinct_remove1)
qed

lemma aw_values_callbacks:
  assumes "aw_values avail n s" "distinct is" "set is \<subseteq> set (aw_waiting s)" "\<forall>i \<in> set is. avail (aw_client s) i"
  shows "aw_values avail n (fold aw_callback is s)"
  using assms
proof (induction "is" arbitrary: s)
  case (Cons i "is")
  have "aw_values avail n (aw_callback i s)" by (rule aw_values_callback [OF Cons.prems(1)]) (use Cons.prems in auto)
  moreover have "set is \<subseteq> set (remove1 i (aw_waiting s))" using Cons.prems by (auto simp: aw_values_def)
  ultimately show ?case using Cons.IH [of "aw_callback i s"] Cons.prems by simp
qed simp

lemma aw_values_client:
  assumes "aw_values avail n s" "keeps_available_values avail (aw_client s) c"
    "aw_registered n (aw_pc s') = aw_registered n (aw_pc s)" "aw_waiting s' = aw_waiting s" "aw_values_remaining s' = aw_values_remaining s" "aw_client s' = c"
  shows "aw_values avail n s'"
  using assms unfolding aw_values_def keeps_available_values_def by auto

lemma aw_values_register:
  assumes "aw_values avail n s" "aw_pc s = AwRegister i" "i < n"
  shows "aw_values avail n (s\<lparr>aw_waiting := aw_waiting s @ [i], aw_pc := AwRegister (i + 1)\<rparr>)"
proof -
  have V: "distinct (aw_waiting s)" "set (aw_waiting s) \<subseteq> {..<i}" "aw_values_remaining s = of_nat (length (aw_waiting s) + (n - i))"
      "\<forall>j<i. j \<notin> set (aw_waiting s) \<longrightarrow> avail (aw_client s) j"
    using assms(1,2) by (simp_all add: aw_values_def aw_registered_def)
  have "length (aw_waiting s) + (n - i) = length (aw_waiting s @ [i]) + (n - (i + 1))" using assms(3) by simp
  then show ?thesis using V assms(3) unfolding aw_values_def aw_registered_def by (auto simp: less_Suc_eq)
qed

lemma aw_values_step:
  assumes V: "aw_values avail n s" and st: "aw_step run avail n (aw_pc s) s = Some s'"
    and K: "keeps_available_values avail (aw_client s) (aw_client s')"
  shows "aw_values avail n s'"
proof (cases "aw_pc s")
  case (AwRegister i)
  let ?s1 = "s\<lparr>aw_waiting := aw_waiting s @ [i], aw_pc := AwRegister (i + 1)\<rparr>"
  show ?thesis
  proof (cases "i < n")
    case True
    note R = aw_values_register [OF V AwRegister True]
    have "aw_values avail n (aw_callback i ?s1)" if "avail (aw_client s) i" by (rule aw_values_callback [OF R]) (use that in simp_all)
    then show ?thesis using st R AwRegister True by (auto simp: Let_def aw_notify_all_def split: if_splits)
  next
    case False
    then have "i = n" using V AwRegister by (simp add: aw_values_def aw_registered_def)
    then show ?thesis using V st AwRegister by (auto simp: aw_values_def aw_registered_def)
  qed
next
  case AwItem
  show ?thesis
  proof (cases "aw_next_work_item_index s < length (aw_local_work_items s)")
    case True
    define x where "x = aw_local_work_items s ! aw_next_work_item_index s"
    obtain c new where r: "run x (aw_client s) = (c, new)" by fastforce
    define s1 where "s1 = s\<lparr>aw_client := c, aw_mWorkItems := aw_mWorkItems s @ new, aw_added := aw_added s @ new, aw_ran := aw_ran s @ [x],
       aw_next_work_item_index := aw_next_work_item_index s + 1, aw_pc := AwTest\<rparr>"
    let ?is = "filter (\<lambda>i. avail c i \<and> \<not> avail (aw_client s) i) (aw_waiting s)"
    have s': "s' = fold aw_callback ?is s1" using st AwItem True r by (simp add: s1_def x_def)
    have sel: "aw_client s1 = c" "aw_waiting s1 = aw_waiting s" "aw_values_remaining s1 = aw_values_remaining s" "aw_pc s1 = AwTest" by (simp_all add: s1_def)
    have "aw_values avail n s1" by (rule aw_values_client [OF V]) (use K s' sel AwItem in \<open>simp_all add: aw_registered_def\<close>)
    then show ?thesis unfolding s' by (rule aw_values_callbacks) (use sel V in \<open>auto simp: aw_values_def\<close>)
  next
    case False
    then show ?thesis using V st AwItem by (auto simp: aw_values_def aw_registered_def)
  qed
next
  case AwTest
  have "aw_registered n (aw_pc s') = n \<and> aw_waiting s' = aw_waiting s \<and> aw_values_remaining s' = aw_values_remaining s"
    using st AwTest aw_return_sel(4) [of s] by (auto simp: aw_registered_def split: if_splits)
  then show ?thesis using aw_values_client [OF V K, of s'] AwTest by (simp add: aw_registered_def)
next
  case AwWait
  have "aw_registered n (aw_pc s') = n \<and> aw_waiting s' = aw_waiting s \<and> aw_values_remaining s' = aw_values_remaining s"
    using st AwWait aw_return_sel(4) [of s] by (auto simp: aw_registered_def split: if_splits)
  then show ?thesis using aw_values_client [OF V K, of s'] AwWait by (simp add: aw_registered_def)
qed (use st in simp_all)

lemma aw_reach_values: "aw_reach run avail n items s \<Longrightarrow> aw_values avail n s"
proof (induction rule: aw_reach.induct)
  case (start c)
  show ?case by (simp add: aw_values_def aw_registered_def SingleThreaded_Await_def)
next
  case (own s s')
  then show ?case using aw_values_step by blast
next
  case (client s c)
  then show ?case using aw_values_client [of avail n s c "s\<lparr>aw_client := c\<rparr>"] by simp
next
  case (callback s i)
  then show ?case using aw_values_callback [of avail n s i] by (simp add: aw_values_def)
qed (auto simp: aw_values_def aw_notify_all_def aw_registered_def)

lemma aw_waits_step:
  assumes "aw_tasks (aw_pc s) s" "aw_step run avail n (aw_pc s) s = Some s'"
  shows "aw_waits s'"
proof (cases "aw_pc s")
  case (AwRegister i)
  then show ?thesis using assms by (auto simp: aw_waits_def aw_notify_all_def Let_def split: if_splits)
next
  case AwTest
  then show ?thesis using assms aw_return_sel(4) [of s] by (auto simp: aw_waits_def split: if_splits)
next
  case AwWait
  then show ?thesis using assms aw_return_sel(4) [of s] by (auto simp: aw_waits_def split: if_splits)
next
  case AwItem
  then show ?thesis using assms by (auto simp: aw_waits_def Let_def split: if_splits prod.splits)
qed (use assms in auto)

lemma aw_reach_waits:
  assumes "aw_reach run avail n items s" "n < 2 ^ 32"
  shows "aw_waits s"
  using assms(1)
proof (induction rule: aw_reach.induct)
  case (own s s')
  then show ?case using aw_waits_step aw_reach_tasks by blast
next
  case (callback s i)
  then show ?case
  proof (cases "aw_pc s \<in> {AwReturned, AwUndefined}")
    case True
    have V: "aw_values avail n s" by (rule aw_reach_values [OF callback(1)])
    have r: "aw_registered n (aw_pc s) = n" using True by (auto simp: aw_registered_def)
    have "length (aw_waiting s) \<le> n" using V r card_mono [of "{..<n}" "set (aw_waiting s)"] distinct_card [of "aw_waiting s"] by (auto simp: aw_values_def)
    moreover have "of_nat (length (aw_waiting s)) = (0 :: u32)" using V r True callback(4) by (simp add: aw_values_def aw_waits_def)
    ultimately have "aw_waiting s = []" using assms(2) by (auto simp: word_of_nat_eq_0_iff dest!: dvd_imp_le)
    then show ?thesis using callback(2) by simp
  qed (auto simp: aw_waits_def)
next
  case (notify s)
  then show ?case by (auto simp: aw_waits_def aw_notify_all_def)
qed (auto simp: aw_waits_def SingleThreaded_Await_def SingleThreaded_AddTask_def)

lemma aw_waiting_empty:
  assumes "aw_reach run avail n items s" "n < 2 ^ 32" "aw_registered n (aw_pc s) = n"
  shows "aw_values_remaining s = 0 \<longleftrightarrow> aw_waiting s = []"
proof -
  have V: "aw_values avail n s" by (rule aw_reach_values [OF assms(1)])
  then have "card (set (aw_waiting s)) \<le> card {..<n}" by (intro card_mono) (auto simp: aw_values_def assms(3))
  then have "length (aw_waiting s) \<le> n" using V distinct_card [of "aw_waiting s"] by (simp add: aw_values_def)
  then show ?thesis using V assms(2,3) by (auto simp: aw_values_def word_of_nat_eq_0_iff dest!: dvd_imp_le)
qed

text \<open>
  C37. However other threads add tasks and make values available meanwhile, Await
  runs the tasks in the order in which they were added, none twice and none skipped. When it returns, every
  value is available, no closure is left that refers to its local counter, and mWorkItems holds exactly the
  tasks that did not run, in order. While it sleeps there is neither a task to run nor is every closure done,
  or a notification is under way; when it does not sleep it can go on. It fails only in one way: leaving
  through the \<^verbatim>\<open>break\<close>, with the local items cleared, after a batch had run. (At most \<open>2 ^ 32 - 1\<close> values, for the
  counter is an int.)
\<close>

theorem SingleThreaded_Await_in_order:
  assumes "aw_reach run avail n items s" "n < 2 ^ 32"
  shows "prefix (aw_ran s) (aw_added s) \<and>
    (aw_pc s = AwReturned \<longrightarrow> (\<forall>i<n. avail (aw_client s) i) \<and> aw_waiting s = [] \<and> aw_ran s @ aw_mWorkItems s = aw_added s) \<and>
    (aw_pc s = AwUndefined \<longrightarrow> (\<forall>i<n. avail (aw_client s) i) \<and> aw_local_work_items s = [] \<and> 0 < aw_next_work_item_index s) \<and>
    (aw_pc s = AwSleep \<longrightarrow> 0 < aw_notifies s \<or> aw_waiting s \<noteq> [] \<and> aw_mWorkItems s = []) \<and>
    (aw_pc s \<notin> {AwSleep, AwReturned, AwUndefined} \<longrightarrow> (\<exists>s'. aw_step run avail n (aw_pc s) s = Some s'))"
proof (intro conjI impI)
  have T: "aw_tasks (aw_pc s) s" by (rule aw_reach_tasks [OF assms(1)])
  have V: "aw_values avail n s" by (rule aw_reach_values [OF assms(1)])
  have W: "aw_waits s" by (rule aw_reach_waits [OF assms])
  show "prefix (aw_ran s) (aw_added s)" using T by (cases "aw_pc s") (auto simp: prefix_def dest: sym)
  have ended: "aw_waiting s = []" "\<forall>i<n. avail (aw_client s) i" if "aw_pc s \<in> {AwReturned, AwUndefined}"
  proof -
    have r: "aw_registered n (aw_pc s) = n" using that by (auto simp: aw_registered_def)
    show "aw_waiting s = []" using aw_waiting_empty [OF assms r] W that by (auto simp: aw_waits_def)
    then show "\<forall>i<n. avail (aw_client s) i" using V r by (simp add: aw_values_def)
  qed
  show "\<forall>i<n. avail (aw_client s) i" "aw_waiting s = []" "aw_ran s @ aw_mWorkItems s = aw_added s" if "aw_pc s = AwReturned"
    using T ended that by simp_all
  show "\<forall>i<n. avail (aw_client s) i" "aw_local_work_items s = []" "0 < aw_next_work_item_index s" if "aw_pc s = AwUndefined"
    using T ended that by simp_all
  show "0 < aw_notifies s \<or> aw_waiting s \<noteq> [] \<and> aw_mWorkItems s = []" if "aw_pc s = AwSleep"
    using W aw_waiting_empty [OF assms] that by (auto simp: aw_waits_def aw_registered_def)
  show "\<exists>s'. aw_step run avail n (aw_pc s) s = Some s'" if "aw_pc s \<notin> {AwSleep, AwReturned, AwUndefined}"
    using that by (cases "aw_pc s") (auto simp: Let_def split: prod.splits)
qed

text \<open>Runs of the thread in Await by itself, for tasks that keep available values.\<close>

fun aw_iterate :: "('w, 'c) task_effect \<Rightarrow> ('c \<Rightarrow> nat \<Rightarrow> bool) \<Rightarrow> nat \<Rightarrow> nat \<Rightarrow> ('w, 'c) st_await \<Rightarrow> ('w, 'c) st_await option" where
  "aw_iterate run avail n 0 s = Some s"
| "aw_iterate run avail n (Suc k) s = Option.bind (aw_step run avail n (aw_pc s) s) (aw_iterate run avail n k)"

lemma aw_step_keeps:
  assumes "\<And>x c. keeps_available_values avail c (fst (run x c))" "aw_step run avail n (aw_pc s) s = Some s'"
  shows "keeps_available_values avail (aw_client s) (aw_client s')"
proof (cases "aw_pc s")
  case AwItem
  have "keeps_available_values avail (aw_client s) c" if "run x (aw_client s) = (c, new)" for x c new using assms(1) [of "aw_client s" x] that by simp
  moreover have "keeps_available_values avail (aw_client s) (aw_client s)" by (simp add: keeps_available_values_def)
  ultimately show ?thesis using assms(2) AwItem by (auto simp: Let_def split: if_splits prod.splits)
qed (use assms(2) in \<open>auto simp: keeps_available_values_def aw_notify_all_def Let_def split: if_splits\<close>)

lemma aw_iterate_reach:
  assumes "\<And>x c. keeps_available_values avail c (fst (run x c))"
  shows "aw_reach run avail n items s \<Longrightarrow> aw_iterate run avail n k s = Some s' \<Longrightarrow> aw_reach run avail n items s'"
proof (induction k arbitrary: s)
  case (Suc k)
  obtain s1 where s1: "aw_step run avail n (aw_pc s) s = Some s1" "aw_iterate run avail n k s1 = Some s'" using Suc.prems(2) by (auto simp: bind_eq_Some_conv)
  show ?case by (rule Suc.IH [OF aw_reach.own [OF Suc.prems(1) s1(1) aw_step_keeps [OF assms s1(1)]] s1(2)])
qed simp

text \<open>A run: two tasks wait, one value is missing; the first task makes it available.\<close>

definition await_run :: "nat \<Rightarrow> nat \<Rightarrow> nat \<times> nat list" where
  "await_run x c = (c - x, [])"

definition await_avail :: "nat \<Rightarrow> nat \<Rightarrow> bool" where
  "await_avail c i = (c = 0)"

lemma await_keeps: "keeps_available_values await_avail c (fst (await_run x c))"
  by (simp add: keeps_available_values_def await_avail_def await_run_def)

lemmas await_eval = eval_nat_numeral SingleThreaded_Await_def aw_callback_def aw_notify_all_def aw_return_def await_run_def await_avail_def Let_def

lemma await_run_returns:
  "map_option (\<lambda>s. (aw_pc s, aw_ran s, aw_mWorkItems s)) (aw_iterate await_run await_avail 1 6 (SingleThreaded_Await 1 [1, 0] 1)) = Some (AwReturned, [1], [0])"
  by (simp add: await_eval)

theorem SingleThreaded_Await_in_order_witness:
  "\<exists>s. aw_iterate await_run await_avail 1 6 (SingleThreaded_Await 1 [1, 0] 1) = Some s \<and> aw_pc s = AwReturned \<and>
     aw_ran s = [1] \<and> aw_ran s @ aw_mWorkItems s = aw_added s \<and> await_avail (aw_client s) 0 \<and> aw_waiting s = []"
proof -
  obtain s where s: "aw_iterate await_run await_avail 1 6 (SingleThreaded_Await 1 [1, 0] 1) = Some s" "aw_pc s = AwReturned" "aw_ran s = [1]"
    using await_run_returns by (auto simp del: aw_iterate.simps)
  have "aw_reach await_run await_avail 1 [1, 0] s" by (rule aw_iterate_reach [OF await_keeps aw_reach.start s(1)])
  then show ?thesis using SingleThreaded_Await_in_order [of await_run await_avail 1 "[1, 0]" s] s by auto
qed

text \<open>The failure is reachable: one task runs, then another thread makes the value available and calls the closure while
  Await waits.\<close>

lemma SingleThreaded_Await_undefined: "\<exists>s. aw_reach await_run await_avail 1 [0] s \<and> aw_pc s = AwUndefined"
proof -
  have "\<exists>s. aw_iterate await_run await_avail 1 7 (SingleThreaded_Await 1 [0] 1) = Some s \<and> aw_client s = 1 \<and> aw_waiting s = [0] \<and>
     (\<exists>s'. aw_iterate await_run await_avail 1 1 (aw_notify_all ((aw_callback 0 (s\<lparr>aw_client := 0\<rparr>))\<lparr>aw_notifies := aw_notifies s\<rparr>)) = Some s' \<and> aw_pc s' = AwUndefined)"
    by (simp add: await_eval)
  then obtain s s' where s: "aw_iterate await_run await_avail 1 7 (SingleThreaded_Await 1 [0] 1) = Some s" "aw_client s = 1" "aw_waiting s = [0]"
      "aw_iterate await_run await_avail 1 1 (aw_notify_all ((aw_callback 0 (s\<lparr>aw_client := 0\<rparr>))\<lparr>aw_notifies := aw_notifies s\<rparr>)) = Some s'" "aw_pc s' = AwUndefined"
    by blast
  have r: "aw_reach await_run await_avail 1 [0] s" by (rule aw_iterate_reach [OF await_keeps aw_reach.start s(1)])
  let ?s1 = "s\<lparr>aw_client := 0\<rparr>" and ?s2 = "(aw_callback 0 (s\<lparr>aw_client := 0\<rparr>))\<lparr>aw_notifies := aw_notifies s + 1\<rparr>"
  have "aw_reach await_run await_avail 1 [0] ?s1" by (rule aw_reach.client [OF r]) (simp add: keeps_available_values_def await_avail_def s(2))
  then have r2: "aw_reach await_run await_avail 1 [0] ?s2" using aw_reach.callback [of await_run await_avail 1 "[0]" ?s1 0] s(3) by (simp add: await_avail_def)
  have "aw_reach await_run await_avail 1 [0] (aw_notify_all ((aw_callback 0 ?s1)\<lparr>aw_notifies := aw_notifies s\<rparr>))" using aw_reach.notify [OF r2] by simp
  from aw_iterate_reach [of await_avail await_run, OF await_keeps this s(4)] show ?thesis using s(5) by blast
qed

end
