(* ===== verification/Shared_Task.thy ===== *)
theory Shared_Task
  imports Prelude
begin

text \<open>
  The shared coroutine task of \<^verbatim>\<open>src/async/coroutine/shared_task.h\<close>: SharedTaskPromiseBase,
  SharedTaskPromise and SharedTask. One coroutine is started by the first awaiter that comes, all awaiters
  suspend on a lock-free list in \<open>mWaiters\<close>, and the coroutine resumes them when it has finished.

  The state holds one promise, the body of its coroutine, the awaiters (coroutines inside
  \<^verbatim>\<open>co_await task\<close>) with the point each has reached, and the number of SharedTask objects that refer to the
  promise outside a \<^verbatim>\<open>co_await\<close>. A step is one access to shared data. What the body computes is not part
  of this file: it ends at any moment after its start, with a value or an exception. \<open>None\<close> is an access
  to a destroyed promise or waiter, a call of resume on a coroutine that is not suspended, or the
  destruction of a coroutine that is running.
\<close>

subsection \<open>Promise\<close>

text \<open>\<open>mWaiters\<close>: \<open>StNull\<close> is started without waiters, \<open>StThis\<close> is ready, \<open>StNotStarted\<close> is the address of
  \<open>mWaiters\<close> itself, \<open>StWaiter i\<close> is the address of the SharedTaskWaiter of awaiter \<open>i\<close>.\<close>

datatype st_word = StNull | StThis | StNotStarted | StWaiter nat

record ('e, 'a) SharedTaskPromise =
  stp_mRefCount :: u32
  stp_mWaiters :: st_word
  stp_mException :: "'e option"
  stp_mValueStorage :: "'a option"

definition SharedTaskPromise_new :: "('e, 'a) SharedTaskPromise" where
  "SharedTaskPromise_new = \<lparr>stp_mRefCount = 1, stp_mWaiters = StNotStarted, stp_mException = None, stp_mValueStorage = None\<rparr>"

definition stp_is_ready :: "('e, 'a) SharedTaskPromise \<Rightarrow> bool" where
  "stp_is_ready p \<longleftrightarrow> stp_mWaiters p = StThis"

definition stp_AddRef :: "('e, 'a) SharedTaskPromise \<Rightarrow> ('e, 'a) SharedTaskPromise" where
  "stp_AddRef p = p\<lparr>stp_mRefCount := stp_mRefCount p + 1\<rparr>"

definition stp_TryDetach :: "('e, 'a) SharedTaskPromise \<Rightarrow> bool \<times> ('e, 'a) SharedTaskPromise" where
  "stp_TryDetach p = (stp_mRefCount p \<noteq> 1, p\<lparr>stp_mRefCount := stp_mRefCount p - 1\<rparr>)"

text \<open>return_value and unhandled_exception.\<close>

fun stp_complete :: "'e + 'a \<Rightarrow> ('e, 'a) SharedTaskPromise \<Rightarrow> ('e, 'a) SharedTaskPromise" where
  "stp_complete (Inr value) p = p\<lparr>stp_mValueStorage := Some value\<rparr>"
| "stp_complete (Inl e) p = p\<lparr>stp_mException := Some e\<rparr>"

text \<open>result: \<open>None\<close> is a read of storage that was never constructed.\<close>

definition stp_result :: "('e, 'a) SharedTaskPromise \<Rightarrow> ('e + 'a) option" where
  "stp_result p = (case stp_mException p of Some e \<Rightarrow> Some (Inl e) | None \<Rightarrow> map_option Inr (stp_mValueStorage p))"

subsection \<open>State\<close>

text \<open>Awaiters: before await_ready; before the first load of TryAwait; before the compare-exchange that
  starts the coroutine; before and inside \<^verbatim>\<open>coroutine.resume()\<close>; in the loop that enqueues the waiter, with
  oldWaiters; suspended; before await_resume; with the result; after the \<^verbatim>\<open>co_await\<close> expression.\<close>

datatype ('e, 'a) st_pc =
    AReady | ALoad | AClaim | AStart | AInside | AEnqueue st_word | ASuspended | AResumed | AGot "'e + 'a" | AGone

text \<open>The body: at initial_suspend; running; with its result stored, before the exchange of FinalAwaiter;
  before the read of \<^verbatim>\<open>waiter->mNext\<close>; before the resume of a waiter, with the next one; at the end.\<close>

datatype st_body = BInitial | BRunning | BStored | BWalk st_word | BResume nat st_word | BDone

record ('e, 'a) shared_task =
  st_promise :: "('e, 'a) SharedTaskPromise option"
  st_body :: st_body
  st_mNext :: "nat \<Rightarrow> st_word option"
  st_awaiters :: "('e, 'a) st_pc list"
  st_handles :: nat
  st_starts :: nat
  st_outcome :: "('e + 'a) option"
  st_resumed :: "nat list"

definition SharedTask_start :: "('e, 'a) shared_task" where
  "SharedTask_start = \<lparr>st_promise = Some SharedTaskPromise_new, st_body = BInitial, st_mNext = (\<lambda>_. None), st_awaiters = [],
     st_handles = 1, st_starts = 0, st_outcome = None, st_resumed = []\<rparr>"

definition st_move :: "nat \<Rightarrow> ('e, 'a) st_pc \<Rightarrow> ('e, 'a) shared_task \<Rightarrow> ('e, 'a) shared_task" where
  "st_move i c s = s\<lparr>st_awaiters := (st_awaiters s)[i := c]\<rparr>"

subsection \<open>SharedTask objects\<close>

text \<open>The copy constructor; the destructor (destroy) of an object that is not empty.\<close>

definition SharedTask_copy :: "('e, 'a) shared_task \<Rightarrow> ('e, 'a) shared_task option" where
  "SharedTask_copy s = map_option (\<lambda>p. s\<lparr>st_promise := Some (stp_AddRef p), st_handles := st_handles s + 1\<rparr>) (st_promise s)"

definition SharedTask_destroy :: "('e, 'a) shared_task \<Rightarrow> ('e, 'a) shared_task option" where
  "SharedTask_destroy s = Option.bind (st_promise s) (\<lambda>p.
     case stp_TryDetach p of (detached, p1) \<Rightarrow>
       let s1 = s\<lparr>st_handles := st_handles s - 1\<rparr> in
       if detached then Some (s1\<lparr>st_promise := Some p1\<rparr>)
       else if st_body s \<in> {BRunning, BStored} then None else Some (s1\<lparr>st_promise := None\<rparr>))"

text \<open>\<^verbatim>\<open>co_await task\<close> begins with the construction of the awaitable, whose waiter is not initialised; the
  SharedTask it was made from stays alive until the expression is over.\<close>

definition SharedTask_co_await :: "('e, 'a) shared_task \<Rightarrow> ('e, 'a) shared_task" where
  "SharedTask_co_await s = s\<lparr>st_awaiters := st_awaiters s @ [AReady], st_handles := st_handles s - 1,
     st_mNext := (st_mNext s)(length (st_awaiters s) := Some StNull)\<rparr>"

subsection \<open>Awaiters\<close>

text \<open>await_ready.\<close>

definition st_await_ready :: "nat \<Rightarrow> ('e, 'a) shared_task \<Rightarrow> ('e, 'a) shared_task option" where
  "st_await_ready i s = map_option (\<lambda>p. st_move i (if stp_is_ready p then AResumed else ALoad) s) (st_promise s)"

text \<open>TryAwait: the first load; the compare-exchange that claims the start; the start; the load after it.\<close>

definition TryAwait_load :: "nat \<Rightarrow> ('e, 'a) shared_task \<Rightarrow> ('e, 'a) shared_task option" where
  "TryAwait_load i s = map_option (\<lambda>p.
     st_move i (if stp_mWaiters p = StNotStarted then AClaim else AEnqueue (stp_mWaiters p)) s) (st_promise s)"

definition TryAwait_claim :: "nat \<Rightarrow> ('e, 'a) shared_task \<Rightarrow> ('e, 'a) shared_task option" where
  "TryAwait_claim i s = map_option (\<lambda>p.
     if stp_mWaiters p = StNotStarted then st_move i AStart (s\<lparr>st_promise := Some (p\<lparr>stp_mWaiters := StNull\<rparr>)\<rparr>)
     else st_move i (AEnqueue (stp_mWaiters p)) s) (st_promise s)"

definition TryAwait_start :: "nat \<Rightarrow> ('e, 'a) shared_task \<Rightarrow> ('e, 'a) shared_task option" where
  "TryAwait_start i s =
     (if st_promise s \<noteq> None \<and> st_body s = BInitial
      then Some (st_move i AInside (s\<lparr>st_body := BRunning, st_starts := st_starts s + 1\<rparr>)) else None)"

definition TryAwait_reload :: "nat \<Rightarrow> ('e, 'a) shared_task \<Rightarrow> ('e, 'a) shared_task option" where
  "TryAwait_reload i s = map_option (\<lambda>p. st_move i (AEnqueue (stp_mWaiters p)) s) (st_promise s)"

text \<open>One round of the loop: return false when the value is ready, otherwise store mNext and try the
  compare-exchange; \<open>spurious\<close> is a spurious failure of \<^verbatim>\<open>compare_exchange_weak\<close>.\<close>

definition TryAwait_enqueue :: "bool \<Rightarrow> nat \<Rightarrow> st_word \<Rightarrow> ('e, 'a) shared_task \<Rightarrow> ('e, 'a) shared_task option" where
  "TryAwait_enqueue spurious i oldWaiters s =
     (if oldWaiters = StThis then Some (st_move i AResumed s)
      else if st_mNext s i = None then None
      else let s1 = s\<lparr>st_mNext := (st_mNext s)(i := Some oldWaiters)\<rparr> in
        map_option (\<lambda>p.
          if stp_mWaiters p = oldWaiters \<and> \<not> spurious
          then st_move i ASuspended (s1\<lparr>st_promise := Some (p\<lparr>stp_mWaiters := StWaiter i\<rparr>)\<rparr>)
          else st_move i (AEnqueue (stp_mWaiters p)) s1) (st_promise s1))"

text \<open>await_resume; the end of the expression destroys the awaitable with its waiter.\<close>

definition st_await_resume :: "nat \<Rightarrow> ('e, 'a) shared_task \<Rightarrow> ('e, 'a) shared_task option" where
  "st_await_resume i s = Option.bind (st_promise s) (\<lambda>p.
     map_option (\<lambda>r. st_move i (AGot r) (s\<lparr>st_mNext := (st_mNext s)(i := None)\<rparr>)) (stp_result p))"

definition st_await_end :: "nat \<Rightarrow> ('e, 'a) shared_task \<Rightarrow> ('e, 'a) shared_task" where
  "st_await_end i s = st_move i AGone (s\<lparr>st_handles := st_handles s + 1\<rparr>)"

fun st_awaiter_step :: "bool \<Rightarrow> nat \<Rightarrow> ('e, 'a) st_pc \<Rightarrow> ('e, 'a) shared_task \<Rightarrow> ('e, 'a) shared_task option" where
  "st_awaiter_step spurious i AReady s = st_await_ready i s"
| "st_awaiter_step spurious i ALoad s = TryAwait_load i s"
| "st_awaiter_step spurious i AClaim s = TryAwait_claim i s"
| "st_awaiter_step spurious i AStart s = TryAwait_start i s"
| "st_awaiter_step spurious i AInside s = TryAwait_reload i s"
| "st_awaiter_step spurious i (AEnqueue old) s = TryAwait_enqueue spurious i old s"
| "st_awaiter_step spurious i ASuspended s = None"
| "st_awaiter_step spurious i AResumed s = st_await_resume i s"
| "st_awaiter_step spurious i (AGot r) s = Some (st_await_end i s)"
| "st_awaiter_step spurious i AGone s = None"

subsection \<open>The coroutine\<close>

text \<open>The body returns or throws.\<close>

definition st_finish :: "'e + 'a \<Rightarrow> ('e, 'a) shared_task \<Rightarrow> ('e, 'a) shared_task option" where
  "st_finish r s =
     (if st_body s = BRunning
      then map_option (\<lambda>p. s\<lparr>st_promise := Some (stp_complete r p), st_body := BStored, st_outcome := Some r\<rparr>) (st_promise s)
      else None)"

text \<open>FinalAwaiter::await_suspend: the exchange, then the walk along the list. mNext is read before the
  waiter is resumed, since the waiter may be gone afterwards.\<close>

fun FinalAwaiter_step :: "st_body \<Rightarrow> ('e, 'a) shared_task \<Rightarrow> ('e, 'a) shared_task option" where
  "FinalAwaiter_step BStored s = map_option (\<lambda>p.
     s\<lparr>st_promise := Some (p\<lparr>stp_mWaiters := StThis\<rparr>),
       st_body := (if stp_mWaiters p = StNull then BDone else BWalk (stp_mWaiters p))\<rparr>) (st_promise s)"
| "FinalAwaiter_step (BWalk (StWaiter w)) s = map_option (\<lambda>n. s\<lparr>st_body := BResume w n\<rparr>) (st_mNext s w)"
| "FinalAwaiter_step (BResume w n) s =
     (if w < length (st_awaiters s) \<and> st_awaiters s ! w = ASuspended
      then Some (st_move w AResumed (s\<lparr>st_body := (if n = StNull then BDone else BWalk n), st_resumed := st_resumed s @ [w]\<rparr>))
      else None)"
| "FinalAwaiter_step _ s = None"

subsection \<open>Runs\<close>

text \<open>A client copies a SharedTask it has, while the counter has room, destroys one or awaits one.\<close>

inductive st_step :: "('e, 'a) shared_task \<Rightarrow> ('e, 'a) shared_task \<Rightarrow> bool" where
  copy: "0 < st_handles s \<Longrightarrow> map_option stp_mRefCount (st_promise s) \<noteq> Some (- 1) \<Longrightarrow> SharedTask_copy s = Some s' \<Longrightarrow> st_step s s'"
| destroy: "0 < st_handles s \<Longrightarrow> SharedTask_destroy s = Some s' \<Longrightarrow> st_step s s'"
| co_await: "0 < st_handles s \<Longrightarrow> st_step s (SharedTask_co_await s)"
| awaiter: "i < length (st_awaiters s) \<Longrightarrow> st_awaiter_step spurious i (st_awaiters s ! i) s = Some s' \<Longrightarrow> st_step s s'"
| finish: "st_finish r s = Some s' \<Longrightarrow> st_step s s'"
| final: "FinalAwaiter_step (st_body s) s = Some s' \<Longrightarrow> st_step s s'"

inductive st_reach :: "('e, 'a) shared_task \<Rightarrow> bool" where
  start: "st_reach SharedTask_start"
| step: "st_reach s \<Longrightarrow> st_step s s' \<Longrightarrow> st_reach s'"

subsection \<open>Invariant\<close>

text \<open>The suspended awaiters are exactly those on the list that hangs off \<open>mWaiters\<close> or, after the exchange,
  off the walk; the counter is the number of SharedTask objects; nothing happens to a result before the
  exchange; the waiter of an awaiter exists until await_resume.\<close>

fun st_chain :: "(nat \<Rightarrow> st_word option) \<Rightarrow> st_word \<Rightarrow> nat list \<Rightarrow> bool" where
  "st_chain m w [] \<longleftrightarrow> w = StNull"
| "st_chain m w (x # xs) \<longleftrightarrow> w = StWaiter x \<and> (case m x of None \<Rightarrow> False | Some n \<Rightarrow> st_chain m n xs)"

definition st_over :: "('e, 'a) shared_task \<Rightarrow> bool" where
  "st_over s \<longleftrightarrow> st_body s \<notin> {BInitial, BRunning, BStored}"

fun st_head :: "st_body \<Rightarrow> ('e, 'a) SharedTaskPromise option \<Rightarrow> st_word" where
  "st_head (BWalk w) _ = w"
| "st_head (BResume w n) _ = StWaiter w"
| "st_head BDone _ = StNull"
| "st_head _ None = StNull"
| "st_head _ (Some p) = (if stp_mWaiters p = StNotStarted then StNull else stp_mWaiters p)"

definition st_suspended :: "('e, 'a) shared_task \<Rightarrow> nat set" where
  "st_suspended s = {i. i < length (st_awaiters s) \<and> st_awaiters s ! i = ASuspended}"

definition st_live :: "('e, 'a) shared_task \<Rightarrow> nat" where
  "st_live s = length (filter (\<lambda>c. c \<noteq> AGone) (st_awaiters s))"

definition st_starting :: "('e, 'a) shared_task \<Rightarrow> nat" where
  "st_starting s = length (filter (\<lambda>c. c = AStart) (st_awaiters s))"

fun st_walk_ok :: "(nat \<Rightarrow> st_word option) \<Rightarrow> st_body \<Rightarrow> bool" where
  "st_walk_ok m (BWalk w) \<longleftrightarrow> w \<noteq> StNull"
| "st_walk_ok m (BResume w n) \<longleftrightarrow> m w = Some n"
| "st_walk_ok m _ \<longleftrightarrow> True"

definition st_list_ok :: "('e, 'a) shared_task \<Rightarrow> bool" where
  "st_list_ok s \<longleftrightarrow> (\<exists>xs. st_chain (st_mNext s) (st_head (st_body s) (st_promise s)) xs \<and> distinct xs \<and> set xs = st_suspended s) \<and>
     st_walk_ok (st_mNext s) (st_body s)"

definition st_refs_ok :: "('e, 'a) shared_task \<Rightarrow> bool" where
  "st_refs_ok s \<longleftrightarrow> (case st_promise s of
      None \<Rightarrow> st_handles s + st_live s = 0 \<and> st_body s \<in> {BInitial, BDone}
    | Some p \<Rightarrow> unat (stp_mRefCount p) = st_handles s + st_live s \<and> 0 < st_handles s + st_live s)"

definition st_word_ok :: "('e, 'a) shared_task \<Rightarrow> bool" where
  "st_word_ok s \<longleftrightarrow> (\<forall>p. st_promise s = Some p \<longrightarrow> (stp_mWaiters p = StThis \<longleftrightarrow> st_over s) \<and>
      (st_body s \<noteq> BInitial \<longrightarrow> stp_mWaiters p \<noteq> StNotStarted) \<and>
      st_starting s = of_bool (st_body s = BInitial \<and> stp_mWaiters p \<noteq> StNotStarted)) \<and>
     st_starts s = of_bool (st_body s \<noteq> BInitial) \<and> (st_body s \<noteq> BInitial \<longrightarrow> st_awaiters s \<noteq> [])"

fun st_pc_ok :: "('e, 'a) shared_task \<Rightarrow> ('e, 'a) st_pc \<Rightarrow> bool" where
  "st_pc_ok s (AEnqueue old) \<longleftrightarrow> old \<noteq> StNotStarted \<and> (old = StThis \<longrightarrow> st_over s) \<and>
     map_option stp_mWaiters (st_promise s) \<noteq> Some StNotStarted"
| "st_pc_ok s AInside \<longleftrightarrow> map_option stp_mWaiters (st_promise s) \<noteq> Some StNotStarted"
| "st_pc_ok s AResumed \<longleftrightarrow> st_over s"
| "st_pc_ok s (AGot r) \<longleftrightarrow> st_over s \<and> st_outcome s = Some r"
| "st_pc_ok s AGone \<longleftrightarrow> st_over s"
| "st_pc_ok s c \<longleftrightarrow> True"

fun st_has_waiter :: "('e, 'a) st_pc \<Rightarrow> bool" where
  "st_has_waiter (AGot r) = False" | "st_has_waiter AGone = False" | "st_has_waiter c = True"

definition st_pcs_ok :: "('e, 'a) shared_task \<Rightarrow> bool" where
  "st_pcs_ok s \<longleftrightarrow> (\<forall>i<length (st_awaiters s). st_pc_ok s (st_awaiters s ! i) \<and>
     (st_has_waiter (st_awaiters s ! i) \<longrightarrow> st_mNext s i \<noteq> None))"

definition st_out_ok :: "('e, 'a) shared_task \<Rightarrow> bool" where
  "st_out_ok s \<longleftrightarrow> (if st_body s \<in> {BInitial, BRunning}
     then st_outcome s = None \<and> (\<forall>p. st_promise s = Some p \<longrightarrow> stp_mException p = None \<and> stp_mValueStorage p = None)
     else st_outcome s \<noteq> None \<and> (\<forall>p. st_promise s = Some p \<longrightarrow> stp_result p = st_outcome s))"

fun st_was_resumed :: "('e, 'a) st_pc \<Rightarrow> bool" where
  "st_was_resumed AResumed = True" | "st_was_resumed (AGot r) = True" | "st_was_resumed AGone = True" | "st_was_resumed c = False"

definition st_log_ok :: "('e, 'a) shared_task \<Rightarrow> bool" where
  "st_log_ok s \<longleftrightarrow> distinct (st_resumed s) \<and>
     (\<forall>i \<in> set (st_resumed s). i < length (st_awaiters s) \<and> st_was_resumed (st_awaiters s ! i))"

definition st_inv :: "('e, 'a) shared_task \<Rightarrow> bool" where
  "st_inv s \<longleftrightarrow> st_list_ok s \<and> st_refs_ok s \<and> st_word_ok s \<and> st_pcs_ok s \<and> st_out_ok s \<and> st_log_ok s"

lemma st_invD:
  assumes "st_inv s"
  shows "st_list_ok s" "st_refs_ok s" "st_word_ok s" "st_pcs_ok s" "st_out_ok s" "st_log_ok s"
  using assms by (simp_all add: st_inv_def)

lemma stp_result_upd [simp]:
  "stp_result (p\<lparr>stp_mRefCount := n\<rparr>) = stp_result p" "stp_result (p\<lparr>stp_mWaiters := w\<rparr>) = stp_result p"
  unfolding stp_result_def by (cases "stp_mException p"; simp)+

lemma st_head_refs [simp]: "st_head b (Some (p\<lparr>stp_mRefCount := n\<rparr>)) = st_head b (Some p)"
  by (cases b) simp_all

lemma st_chain_upd: "i \<notin> set xs \<Longrightarrow> st_chain (m(i := v)) w xs \<longleftrightarrow> st_chain m w xs"
  by (induction xs arbitrary: w) (auto split: option.splits)

lemma st_walk_upd: "st_chain m (st_head b p) xs \<Longrightarrow> i \<notin> set xs \<Longrightarrow> st_walk_ok (m(i := v)) b \<longleftrightarrow> st_walk_ok m b"
  by (cases b; cases xs) auto

lemma st_move_sel [simp]:
  "st_promise (st_move i c s) = st_promise s" "st_body (st_move i c s) = st_body s" "st_mNext (st_move i c s) = st_mNext s"
  "st_awaiters (st_move i c s) = (st_awaiters s)[i := c]" "st_handles (st_move i c s) = st_handles s"
  "st_starts (st_move i c s) = st_starts s" "st_outcome (st_move i c s) = st_outcome s" "st_resumed (st_move i c s) = st_resumed s"
  by (simp_all add: st_move_def)

lemma st_counts_update:
  assumes "i < length (st_awaiters s)"
  shows "length (filter (\<lambda>c. c \<noteq> AGone) ((st_awaiters s)[i := c])) + of_bool (st_awaiters s ! i \<noteq> AGone) = st_live s + of_bool (c \<noteq> AGone)"
    "length (filter (\<lambda>c. c = AStart) ((st_awaiters s)[i := c])) + of_bool (st_awaiters s ! i = AStart) = st_starting s + of_bool (c = AStart)"
  using length_filter_update [OF assms, of "\<lambda>c. c \<noteq> AGone" c] length_filter_update [OF assms, of "\<lambda>c. c = AStart" c]
  by (simp_all add: st_live_def st_starting_def)

lemma st_live_nonzero: "i < length (st_awaiters s) \<Longrightarrow> st_awaiters s ! i \<noteq> AGone \<Longrightarrow> 0 < st_live s"
  unfolding st_live_def length_greater_0_conv filter_empty_conv by (metis nth_mem)

lemma st_alive:
  assumes "st_inv s" "i < length (st_awaiters s)" "st_awaiters s ! i \<noteq> AGone"
  obtains p where "st_promise s = Some p"
  using st_live_nonzero [OF assms(2,3)] st_invD(2) [OF assms(1)] by (auto simp: st_refs_ok_def split: option.splits)

lemma st_inv_start: "st_inv SharedTask_start"
  by (simp add: st_inv_def SharedTask_start_def SharedTaskPromise_new_def st_list_ok_def st_refs_ok_def st_word_ok_def st_pcs_ok_def
      st_out_ok_def st_log_ok_def st_suspended_def st_live_def st_starting_def st_over_def exI [of _ "[]"])

text \<open>An awaiter moves between points that are neither suspended nor over; only its own waiter may change.\<close>

lemma st_inv_move:
  assumes I: "st_inv s" and i: "i < length (st_awaiters s)" "st_awaiters s ! i = c" and p: "st_promise s = Some p"
    and c: "c \<noteq> ASuspended" "c \<noteq> AGone" "c \<noteq> AStart" "c' \<noteq> ASuspended" "c' \<noteq> AGone" "c' \<noteq> AStart"
    and ok: "st_pc_ok s c'" "st_was_resumed c \<Longrightarrow> st_was_resumed c'" "st_has_waiter c' \<Longrightarrow> v \<noteq> None"
  shows "st_inv (st_move i c' (s\<lparr>st_mNext := (st_mNext s)(i := v)\<rparr>))" (is "st_inv ?t")
proof -
  note J = st_invD [OF I]
  have susp: "st_suspended ?t = st_suspended s" "i \<notin> st_suspended s" using i c by (auto simp: st_suspended_def nth_list_update split: if_splits)
  have cnt: "st_live ?t = st_live s" "st_starting ?t = st_starting s"
    using st_counts_update [OF i(1), of c'] i(2) c by (simp_all add: st_live_def st_starting_def)
  have over: "st_over ?t = st_over s" by (simp add: st_over_def)
  have pcok: "st_pc_ok ?t d = st_pc_ok s d" for d by (cases d) (simp_all add: over)
  obtain xs where xs: "st_chain (st_mNext s) (st_head (st_body s) (st_promise s)) xs" "distinct xs" "set xs = st_suspended s"
    using J(1) by (auto simp: st_list_ok_def)
  have "st_list_ok ?t"
    using J(1) xs susp st_walk_upd [OF xs(1), of i v] by (auto simp: st_list_ok_def st_chain_upd intro!: exI [of _ xs])
  moreover have "st_refs_ok ?t" using J(2) cnt p by (simp add: st_refs_ok_def)
  moreover have "st_word_ok ?t" using J(3) cnt over by (simp add: st_word_ok_def)
  moreover have "st_pcs_ok ?t" using J(4) ok(1,3) by (auto simp: st_pcs_ok_def pcok nth_list_update)
  moreover have "st_out_ok ?t" using J(5) by (simp add: st_out_ok_def)
  moreover have "st_log_ok ?t" using J(6) ok(2) i by (auto simp: st_log_ok_def nth_list_update)
  ultimately show ?thesis by (simp add: st_inv_def)
qed

lemma st_inv_move_only:
  assumes I: "st_inv s" and i: "i < length (st_awaiters s)" "st_awaiters s ! i = c" and p: "st_promise s = Some p"
    and c: "c \<noteq> ASuspended" "c \<noteq> AGone" "c \<noteq> AStart" "c' \<noteq> ASuspended" "c' \<noteq> AGone" "c' \<noteq> AStart"
    and ok: "st_pc_ok s c'" "st_was_resumed c \<Longrightarrow> st_was_resumed c'" "st_has_waiter c' \<Longrightarrow> st_has_waiter c"
  shows "st_inv (st_move i c' s)"
proof -
  have "st_mNext s i \<noteq> None" if "st_has_waiter c'" using st_invD(4) [OF I] i ok(3) [OF that] by (auto simp: st_pcs_ok_def)
  then show ?thesis using st_inv_move [OF assms(1-12), of "st_mNext s i"] by (simp add: fun_upd_triv)
qed


lemma st_inv_copy:
  assumes I: "st_inv s" and room: "map_option stp_mRefCount (st_promise s) \<noteq> Some (- 1)" and s': "SharedTask_copy s = Some s'"
  shows "st_inv s'"
proof -
  note J = st_invD [OF I]
  obtain p where p: "st_promise s = Some p" "s' = s\<lparr>st_promise := Some (stp_AddRef p), st_handles := st_handles s + 1\<rparr>"
    using s' by (auto simp: SharedTask_copy_def)
  have eq: "st_live s' = st_live s" "st_starting s' = st_starting s" "st_over s' = st_over s" "st_suspended s' = st_suspended s"
    "stp_mWaiters (stp_AddRef p) = stp_mWaiters p" "stp_result (stp_AddRef p) = stp_result p"
    by (simp_all add: p st_live_def st_starting_def st_over_def st_suspended_def stp_AddRef_def)
  have hd: "st_head b (Some (stp_AddRef p)) = st_head b (Some p)" for b by (simp add: stp_AddRef_def)
  have pcok: "st_pc_ok s' d = st_pc_ok s d" for d by (cases d) (use eq p in \<open>simp_all add: stp_AddRef_def\<close>)
  have "st_list_ok s'" using J(1) eq hd p by (simp add: st_list_ok_def)
  moreover have "st_refs_ok s'" using J(2) eq p room unat_Suc_word [of "stp_mRefCount p"] by (simp add: st_refs_ok_def stp_AddRef_def)
  moreover have "st_word_ok s'" using J(3) eq p by (simp add: st_word_ok_def)
  moreover have "st_pcs_ok s'" using J(4) unfolding st_pcs_ok_def pcok by (simp add: p)
  moreover have "st_out_ok s'" using J(5) p eq(6) by (simp add: st_out_ok_def) (simp add: stp_AddRef_def)
  moreover have "st_log_ok s'" using J(6) p by (simp add: st_log_ok_def)
  ultimately show ?thesis by (simp add: st_inv_def)
qed


lemma st_inv_destroy:
  assumes I: "st_inv s" and h: "0 < st_handles s"
  shows "\<exists>s'. SharedTask_destroy s = Some s' \<and> st_inv s'"
proof -
  note J = st_invD [OF I]
  obtain p where p: "st_promise s = Some p" using J(2) h by (auto simp: st_refs_ok_def split: option.splits)
  have rc: "unat (stp_mRefCount p) = st_handles s + st_live s" using J(2) p by (simp add: st_refs_ok_def)
  show ?thesis
  proof (cases "stp_mRefCount p = 1")
    case False
    let ?p = "p\<lparr>stp_mRefCount := stp_mRefCount p - 1\<rparr>"
    define s' where "s' = s\<lparr>st_handles := st_handles s - 1, st_promise := Some ?p\<rparr>"
    have nz: "stp_mRefCount p \<noteq> 0" using rc h by auto
    have "unat (stp_mRefCount p) \<noteq> 1" using False by (metis unat_1 unsigned_word_eqI)
    then have n: "0 < st_handles s - 1 + st_live s" using rc h by linarith
    have eq: "st_live s' = st_live s" "st_starting s' = st_starting s" "st_over s' = st_over s" "st_suspended s' = st_suspended s"
      by (simp_all add: s'_def st_live_def st_starting_def st_over_def st_suspended_def)
    have pcok: "st_pc_ok s' d = st_pc_ok s d" for d by (cases d) (use eq p in \<open>simp_all add: s'_def\<close>)
    have "st_list_ok s'" using J(1) eq p by (simp add: st_list_ok_def s'_def)
    moreover have "st_refs_ok s'" using n rc h unat_dec_u32 [OF nz] eq(1) by (simp add: st_refs_ok_def s'_def)
    moreover have "st_word_ok s'" using J(3) eq p by (simp add: st_word_ok_def s'_def)
    moreover have "st_pcs_ok s'" using J(4) unfolding st_pcs_ok_def pcok by (simp add: s'_def)
    moreover have "st_out_ok s'" using J(5) p by (simp add: st_out_ok_def s'_def)
    moreover have "st_log_ok s'" using J(6) by (simp add: st_log_ok_def s'_def)
    ultimately have "st_inv s'" by (simp add: st_inv_def)
    moreover have "SharedTask_destroy s = Some s'" using False p by (simp add: SharedTask_destroy_def stp_TryDetach_def s'_def Let_def)
    ultimately show ?thesis by blast
  next
    case True
    define s' where "s' = s\<lparr>st_handles := st_handles s - 1, st_promise := None\<rparr>"
    have z: "st_handles s = 1" "st_live s = 0" using rc h True by simp_all
    have gone: "st_awaiters s ! i = AGone" if "i < length (st_awaiters s)" for i using st_live_nonzero [OF that] z(2) by auto
    then have susp: "st_suspended s = {}" by (auto simp: st_suspended_def)
    have body: "st_over s \<or> st_body s = BInitial"
    proof (cases "st_awaiters s = []")
      case True
      then show ?thesis using J(3) by (auto simp: st_word_ok_def)
    next
      case False
      then have "st_over s" using gone [of 0] J(4) by (auto simp: st_pcs_ok_def dest: spec [of _ 0])
      then show ?thesis ..
    qed
    obtain xs where "st_chain (st_mNext s) (st_head (st_body s) (st_promise s)) xs" "set xs = {}"
      using J(1) susp by (auto simp: st_list_ok_def)
    then have "st_head (st_body s) (st_promise s) = StNull" by simp
    then have body1: "st_body s \<in> {BInitial, BDone}" using body J(1) by (cases "st_body s") (auto simp: st_over_def st_list_ok_def)
    have eq: "st_live s' = 0" "st_suspended s' = {}" using z susp by (simp_all add: s'_def st_live_def st_suspended_def)
    have pcok: "st_pc_ok s d \<Longrightarrow> st_pc_ok s' d" for d by (cases d) (simp_all add: s'_def st_over_def)
    have "st_list_ok s'" using body1 eq by (auto simp: st_list_ok_def s'_def intro!: exI [of _ "[]"])
    moreover have "st_refs_ok s'" using z eq body1 by (simp add: st_refs_ok_def s'_def)
    moreover have "st_word_ok s'" using J(3) by (simp add: st_word_ok_def s'_def)
    moreover have "st_pcs_ok s'" using J(4) pcok unfolding st_pcs_ok_def by (simp add: s'_def)
    moreover have "st_out_ok s'" using J(5) by (simp add: st_out_ok_def s'_def)
    moreover have "st_log_ok s'" using J(6) by (simp add: st_log_ok_def s'_def)
    ultimately have "st_inv s'" by (simp add: st_inv_def)
    moreover have "SharedTask_destroy s = Some s'"
      using True p body1 by (auto simp: SharedTask_destroy_def stp_TryDetach_def s'_def Let_def)
    ultimately show ?thesis by blast
  qed
qed

lemma st_inv_co_await:
  assumes I: "st_inv s" and h: "0 < st_handles s"
  shows "st_inv (SharedTask_co_await s)"
proof -
  note J = st_invD [OF I]
  define s' where "s' = SharedTask_co_await s"
  note d = s'_def SharedTask_co_await_def
  obtain p where p: "st_promise s = Some p" using J(2) h by (auto simp: st_refs_ok_def split: option.splits)
  have eq: "st_live s' = st_live s + 1" "st_starting s' = st_starting s" "st_over s' = st_over s"
    by (simp_all add: d st_live_def st_starting_def st_over_def)
  have susp: "st_suspended s' = st_suspended s" by (auto simp: d st_suspended_def nth_append split: if_splits)
  have pcok: "st_pc_ok s' d = st_pc_ok s d" for d by (cases d) (use eq in \<open>simp_all add: d\<close>)
  obtain xs where xs: "st_chain (st_mNext s) (st_head (st_body s) (st_promise s)) xs" "distinct xs" "set xs = st_suspended s"
    using J(1) by (auto simp: st_list_ok_def)
  have new: "length (st_awaiters s) \<notin> set xs" using xs(3) by (simp add: st_suspended_def)
  have "st_list_ok s'"
    using J(1) xs new susp st_walk_upd [OF xs(1) new] by (auto simp: st_list_ok_def d st_chain_upd intro!: exI [of _ xs])
  moreover have "st_refs_ok s'" using J(2) p h eq by (auto simp: st_refs_ok_def d)
  moreover have "st_word_ok s'" using J(3) eq by (simp add: st_word_ok_def d)
  moreover have "st_pcs_ok s'" using J(4) unfolding st_pcs_ok_def pcok by (auto simp: d nth_append less_Suc_eq)
  moreover have "st_out_ok s'" using J(5) by (simp add: st_out_ok_def d)
  moreover have "st_log_ok s'" using J(6) by (auto simp: st_log_ok_def d nth_append)
  ultimately show ?thesis unfolding s'_def by (simp add: st_inv_def)
qed


lemma st_word_okD:
  assumes "st_inv s" "st_promise s = Some p"
  shows "stp_mWaiters p = StThis \<longleftrightarrow> st_over s" "st_body s \<noteq> BInitial \<Longrightarrow> stp_mWaiters p \<noteq> StNotStarted"
    "st_starting s = of_bool (st_body s = BInitial \<and> stp_mWaiters p \<noteq> StNotStarted)"
    "st_starts s = of_bool (st_body s \<noteq> BInitial)" "st_body s \<noteq> BInitial \<Longrightarrow> st_awaiters s \<noteq> []"
  using st_invD(3) [OF assms(1)] assms(2) by (auto simp: st_word_ok_def)

lemma st_pcs_okD:
  assumes "st_inv s" "i < length (st_awaiters s)"
  shows "st_pc_ok s (st_awaiters s ! i)" "st_has_waiter (st_awaiters s ! i) \<Longrightarrow> st_mNext s i \<noteq> None"
  using st_invD(4) [OF assms(1)] assms(2) by (auto simp: st_pcs_ok_def)

lemma st_inv_claim:
  assumes I: "st_inv s" and i: "i < length (st_awaiters s)" "st_awaiters s ! i = AClaim" and p: "st_promise s = Some p"
    and w: "stp_mWaiters p = StNotStarted"
  shows "st_inv (st_move i AStart (s\<lparr>st_promise := Some (p\<lparr>stp_mWaiters := StNull\<rparr>)\<rparr>))" (is "st_inv ?t")
proof -
  note J = st_invD [OF I]
  note W = st_word_okD [OF I p]
  have b: "st_body s = BInitial" using W(2) w by blast
  have cnt: "st_live ?t = st_live s" "st_starting ?t = st_starting s + 1"
    using st_counts_update [OF i(1), of AStart] i(2) by (simp_all add: st_live_def st_starting_def)
  have susp: "st_suspended ?t = st_suspended s" using i by (auto simp: st_suspended_def nth_list_update split: if_splits)
  have over: "st_over ?t = st_over s" by (simp add: st_over_def)
  have pcok: "st_pc_ok s d \<Longrightarrow> st_pc_ok ?t d" for d by (cases d) (simp_all add: over)
  have "st_list_ok ?t" using J(1) p w b susp by (auto simp: st_list_ok_def)
  moreover have "st_refs_ok ?t" using J(2) cnt p by (simp add: st_refs_ok_def)
  moreover have "st_word_ok ?t" using W w b cnt over by (simp add: st_word_ok_def st_over_def)
  moreover have "st_pcs_ok ?t" using st_pcs_okD [OF I] pcok i by (auto simp: st_pcs_ok_def nth_list_update)
  moreover have "st_out_ok ?t" using J(5) p by (simp add: st_out_ok_def)
  moreover have "st_log_ok ?t" using J(6) i by (auto simp: st_log_ok_def nth_list_update)
  ultimately show ?thesis by (simp add: st_inv_def)
qed

lemma st_starting_pos: "i < length (st_awaiters s) \<Longrightarrow> st_awaiters s ! i = AStart \<Longrightarrow> 0 < st_starting s"
  unfolding st_starting_def length_greater_0_conv filter_empty_conv by (metis nth_mem)

lemma st_inv_begin:
  assumes I: "st_inv s" and i: "i < length (st_awaiters s)" "st_awaiters s ! i = AStart"
  shows "\<exists>s'. TryAwait_start i s = Some s' \<and> st_inv s'"
proof -
  note J = st_invD [OF I]
  obtain p where p: "st_promise s = Some p" using st_alive [OF I i(1)] i(2) by auto
  note W = st_word_okD [OF I p]
  have b: "st_body s = BInitial" "stp_mWaiters p \<noteq> StNotStarted" using W(3) st_starting_pos [OF i] by (auto split: if_splits)
  define s' where "s' = st_move i AInside (s\<lparr>st_body := BRunning, st_starts := st_starts s + 1\<rparr>)"
  have cnt: "st_live s' = st_live s" "st_starting s' + 1 = st_starting s"
    using st_counts_update [OF i(1), of AInside] i(2) by (simp_all add: s'_def st_live_def st_starting_def)
  have susp: "st_suspended s' = st_suspended s" using i by (auto simp: s'_def st_suspended_def nth_list_update split: if_splits)
  have over: "\<not> st_over s'" "\<not> st_over s" using b by (simp_all add: s'_def st_over_def)
  have pcok: "st_pc_ok s d \<Longrightarrow> st_pc_ok s' d" for d by (cases d) (use over in \<open>simp_all add: s'_def\<close>)
  have "st_list_ok s'" using J(1) p b susp by (auto simp: st_list_ok_def s'_def)
  moreover have "st_refs_ok s'" using J(2) cnt p by (simp add: st_refs_ok_def s'_def)
  moreover have "st_word_ok s'" using W b cnt over i p by (auto simp: st_word_ok_def s'_def st_over_def)
  moreover have "st_pcs_ok s'" unfolding st_pcs_ok_def
    using st_pcs_okD [OF I] pcok i b p by (auto simp: s'_def nth_list_update)
  moreover have "st_out_ok s'" using J(5) p b by (simp add: st_out_ok_def s'_def)
  moreover have "st_log_ok s'" using J(6) i by (auto simp: st_log_ok_def s'_def nth_list_update)
  ultimately have "st_inv s'" by (simp add: st_inv_def)
  then show ?thesis using p b by (simp add: TryAwait_start_def s'_def)
qed

lemma st_inv_enqueue:
  assumes I: "st_inv s" and i: "i < length (st_awaiters s)" "st_awaiters s ! i = AEnqueue old" and p: "st_promise s = Some p"
    and w: "stp_mWaiters p = old" "old \<noteq> StThis"
  shows "st_inv (st_move i ASuspended (s\<lparr>st_mNext := (st_mNext s)(i := Some old), st_promise := Some (p\<lparr>stp_mWaiters := StWaiter i\<rparr>)\<rparr>))"
    (is "st_inv ?t")
proof -
  note J = st_invD [OF I]
  note W = st_word_okD [OF I p]
  have old: "old \<noteq> StNotStarted" using st_pcs_okD(1) [OF I i(1)] i(2) by simp
  have over: "\<not> st_over s" "\<not> st_over ?t" using W(1) w by (simp_all add: st_over_def)
  then have head: "st_head (st_body s) (Some p) = old" "\<And>q. st_head (st_body s) (Some (q\<lparr>stp_mWaiters := StWaiter i\<rparr>)) = StWaiter i"
    using w old by (cases "st_body s"; simp add: st_over_def)+
  have cnt: "st_live ?t = st_live s" "st_starting ?t = st_starting s"
    using st_counts_update [OF i(1), of ASuspended] i(2) by (simp_all add: st_live_def st_starting_def)
  have susp: "st_suspended ?t = insert i (st_suspended s)" "i \<notin> st_suspended s"
    using i by (auto simp: st_suspended_def nth_list_update split: if_splits)
  have pcok: "st_pc_ok s d \<Longrightarrow> st_pc_ok ?t d" for d by (cases d) (use over in simp_all)
  obtain xs where xs: "st_chain (st_mNext s) old xs" "distinct xs" "set xs = st_suspended s"
    using J(1) p head by (auto simp: st_list_ok_def)
  have "st_list_ok ?t" unfolding st_list_ok_def
  proof
    show "\<exists>xs. st_chain (st_mNext ?t) (st_head (st_body ?t) (st_promise ?t)) xs \<and> distinct xs \<and> set xs = st_suspended ?t"
      using xs susp head(2) by (intro exI [of _ "i # xs"]) (simp add: st_chain_upd)
    show "st_walk_ok (st_mNext ?t) (st_body ?t)" using over(1) by (cases "st_body s") (simp_all add: st_over_def)
  qed
  moreover have "st_refs_ok ?t" using J(2) cnt p by (simp add: st_refs_ok_def)
  moreover have "st_word_ok ?t" using W w over old cnt by (auto simp: st_word_ok_def)
  moreover have "st_pcs_ok ?t" using st_pcs_okD [OF I] pcok i by (auto simp: st_pcs_ok_def nth_list_update)
  moreover have "st_out_ok ?t" using J(5) p by (simp add: st_out_ok_def)
  moreover have "st_log_ok ?t" using J(6) i by (auto simp: st_log_ok_def nth_list_update)
  ultimately show ?thesis by (simp add: st_inv_def)
qed

lemma st_inv_end:
  assumes I: "st_inv s" and i: "i < length (st_awaiters s)" "st_awaiters s ! i = AGot r"
  shows "st_inv (st_await_end i s)"
proof -
  note J = st_invD [OF I]
  obtain p where p: "st_promise s = Some p" using st_alive [OF I i(1)] i(2) by auto
  define s' where "s' = st_await_end i s"
  note d = s'_def st_await_end_def
  have ov: "st_over s" using st_pcs_okD(1) [OF I i(1)] i(2) by simp
  have cnt: "st_live s' + 1 = st_live s" "st_starting s' = st_starting s"
    using st_counts_update [OF i(1), of AGone] i(2) by (simp_all add: d st_live_def st_starting_def)
  have susp: "st_suspended s' = st_suspended s" using i by (auto simp: d st_suspended_def nth_list_update split: if_splits)
  have over: "st_over s' = st_over s" by (simp add: d st_over_def)
  have pcok: "st_pc_ok s c \<Longrightarrow> st_pc_ok s' c" for c by (cases c) (use over in \<open>simp_all add: d\<close>)
  have "st_list_ok s'" using J(1) susp by (simp add: st_list_ok_def d)
  moreover have "st_refs_ok s'" using J(2) cnt p by (simp add: st_refs_ok_def d)
  moreover have "st_word_ok s'" using J(3) cnt over by (simp add: st_word_ok_def d)
  moreover have "st_pcs_ok s'" unfolding st_pcs_ok_def using st_pcs_okD [OF I] pcok i ov over by (auto simp: d nth_list_update)
  moreover have "st_out_ok s'" using J(5) by (simp add: st_out_ok_def d)
  moreover have "st_log_ok s'" using J(6) i by (auto simp: st_log_ok_def d nth_list_update)
  ultimately show ?thesis unfolding s'_def by (simp add: st_inv_def)
qed


lemma stp_complete_sel [simp]:
  "stp_mRefCount (stp_complete r p) = stp_mRefCount p" "stp_mWaiters (stp_complete r p) = stp_mWaiters p"
  by (cases r; simp)+

lemma st_inv_finish:
  assumes I: "st_inv s" and s': "st_finish r s = Some s'"
  shows "st_inv s'"
proof -
  note J = st_invD [OF I]
  obtain p where p: "st_promise s = Some p" "st_body s = BRunning"
      "s' = s\<lparr>st_promise := Some (stp_complete r p), st_body := BStored, st_outcome := Some r\<rparr>"
    using s' by (auto simp: st_finish_def split: if_splits)
  note W = st_word_okD [OF I p(1)]
  have eq: "st_live s' = st_live s" "st_starting s' = st_starting s" "st_suspended s' = st_suspended s"
    by (simp_all add: p st_live_def st_starting_def st_suspended_def)
  have over: "\<not> st_over s" "\<not> st_over s'" by (simp_all add: p(2,3) st_over_def)
  have pcok: "st_pc_ok s d \<Longrightarrow> st_pc_ok s' d" for d by (cases d) (use over p in simp_all)
  have empty: "stp_mException p = None" "stp_mValueStorage p = None" using J(5) p(1,2) by (simp_all add: st_out_ok_def)
  have "st_list_ok s'" using J(1) eq p by (auto simp: st_list_ok_def)
  moreover have "st_refs_ok s'" using J(2) eq p by (simp add: st_refs_ok_def)
  moreover have "st_word_ok s'" using W eq over p by (simp add: st_word_ok_def)
  moreover have "st_pcs_ok s'" unfolding st_pcs_ok_def using st_pcs_okD [OF I] pcok by (auto simp: p(3))
  moreover have "st_out_ok s'" using empty by (cases r) (simp_all add: st_out_ok_def p(3) stp_result_def)
  moreover have "st_log_ok s'" using J(6) by (simp add: st_log_ok_def p(3))
  ultimately show ?thesis by (simp add: st_inv_def)
qed

lemma st_inv_exchange:
  assumes I: "st_inv s" and b: "st_body s = BStored"
  shows "\<exists>s'. FinalAwaiter_step BStored s = Some s' \<and> st_inv s'"
proof -
  note J = st_invD [OF I]
  obtain p where p: "st_promise s = Some p" using J(2) b by (auto simp: st_refs_ok_def split: option.splits)
  note W = st_word_okD [OF I p]
  define s' where "s' = s\<lparr>st_promise := Some (p\<lparr>stp_mWaiters := StThis\<rparr>),
       st_body := (if stp_mWaiters p = StNull then BDone else BWalk (stp_mWaiters p))\<rparr>"
  have eq: "st_live s' = st_live s" "st_starting s' = st_starting s" "st_suspended s' = st_suspended s"
    by (simp_all add: s'_def st_live_def st_starting_def st_suspended_def)
  have over: "st_over s'" by (simp add: s'_def st_over_def)
  have pcok: "st_pc_ok s d \<Longrightarrow> st_pc_ok s' d" for d by (cases d) (use over in \<open>simp_all add: s'_def\<close>)
  have hd: "st_head (st_body s') (st_promise s') = st_head (st_body s) (st_promise s)" using W(2) b p by (simp add: s'_def)
  have "st_list_ok s'" using J(1) eq hd by (simp add: st_list_ok_def) (simp add: s'_def)
  moreover have "st_refs_ok s'" using J(2) eq p by (simp add: st_refs_ok_def s'_def)
  moreover have "st_word_ok s'" using W b eq over by (simp add: st_word_ok_def s'_def)
  moreover have "st_pcs_ok s'" unfolding st_pcs_ok_def using st_pcs_okD [OF I] pcok by (auto simp: s'_def)
  moreover have "st_out_ok s'" using J(5) p b by (auto simp: st_out_ok_def s'_def)
  moreover have "st_log_ok s'" using J(6) by (simp add: st_log_ok_def s'_def)
  ultimately have "st_inv s'" by (simp add: st_inv_def)
  then show ?thesis using p by (simp add: s'_def)
qed

lemma st_inv_walk:
  assumes I: "st_inv s" and b: "st_body s = BWalk w"
  shows "\<exists>s'. FinalAwaiter_step (BWalk w) s = Some s' \<and> st_inv s'"
proof -
  note J = st_invD [OF I]
  obtain xs where xs: "st_chain (st_mNext s) w xs" "distinct xs" "set xs = st_suspended s" "w \<noteq> StNull"
    using J(1) b by (auto simp: st_list_ok_def)
  then obtain i ys n where i: "xs = i # ys" "w = StWaiter i" "st_mNext s i = Some n" by (cases xs) (auto split: option.splits)
  define s' where "s' = s\<lparr>st_body := BResume i n\<rparr>"
  have eq: "st_live s' = st_live s" "st_starting s' = st_starting s" "st_suspended s' = st_suspended s" "st_over s' = st_over s"
    using b by (simp_all add: s'_def st_live_def st_starting_def st_suspended_def st_over_def)
  have pcok: "st_pc_ok s d \<Longrightarrow> st_pc_ok s' d" for d by (cases d) (use eq in \<open>simp_all add: s'_def\<close>)
  have "st_list_ok s'" using xs i eq(3) by (auto simp: st_list_ok_def s'_def intro!: exI [of _ xs])
  moreover have "st_refs_ok s'" using J(2) eq b by (auto simp: st_refs_ok_def s'_def split: option.splits)
  moreover have "st_word_ok s'" using J(3) b eq by (simp add: st_word_ok_def s'_def)
  moreover have "st_pcs_ok s'" unfolding st_pcs_ok_def using st_pcs_okD [OF I] pcok by (auto simp: s'_def)
  moreover have "st_out_ok s'" using J(5) b by (auto simp: st_out_ok_def s'_def)
  moreover have "st_log_ok s'" using J(6) by (simp add: st_log_ok_def s'_def)
  ultimately have "st_inv s'" by (simp add: st_inv_def)
  then show ?thesis using i by (simp add: s'_def)
qed

lemma st_inv_resume:
  assumes I: "st_inv s" and b: "st_body s = BResume w n"
  shows "\<exists>s'. FinalAwaiter_step (BResume w n) s = Some s' \<and> st_inv s'"
proof -
  note J = st_invD [OF I]
  obtain xs where xs: "st_chain (st_mNext s) (StWaiter w) xs" "distinct xs" "set xs = st_suspended s" "st_mNext s w = Some n"
    using J(1) b by (auto simp: st_list_ok_def)
  then obtain ys where ys: "xs = w # ys" "st_chain (st_mNext s) n ys" by (cases xs) (auto split: option.splits)
  have w: "w < length (st_awaiters s)" "st_awaiters s ! w = ASuspended" using xs(3) ys(1) by (auto simp: st_suspended_def)
  obtain p where p: "st_promise s = Some p" using st_alive [OF I w(1)] w(2) by auto
  define s' where "s' = st_move w AResumed (s\<lparr>st_body := (if n = StNull then BDone else BWalk n), st_resumed := st_resumed s @ [w]\<rparr>)"
  have cnt: "st_live s' = st_live s" "st_starting s' = st_starting s"
    using st_counts_update [OF w(1), of AResumed] w(2) by (simp_all add: s'_def st_live_def st_starting_def)
  have susp: "st_suspended s' = st_suspended s - {w}" using w(1) by (auto simp: s'_def st_suspended_def nth_list_update split: if_splits)
  have over: "st_over s'" "st_over s" using b by (simp_all add: s'_def st_over_def)
  have pcok: "st_pc_ok s d \<Longrightarrow> st_pc_ok s' d" for d by (cases d) (use over in \<open>simp_all add: s'_def\<close>)
  have nr: "w \<notin> set (st_resumed s)" using J(6) w by (auto simp: st_log_ok_def)
  have "set ys = st_suspended s'" using xs(2,3) ys(1) susp by auto
  then have "st_list_ok s'" using xs(2) ys by (cases "n = StNull") (auto simp: st_list_ok_def s'_def intro!: exI [of _ ys])
  moreover have "st_refs_ok s'" using J(2) cnt p by (simp add: st_refs_ok_def s'_def)
  moreover have "st_word_ok s'" using st_word_okD [OF I p] b p cnt over w by (auto simp: st_word_ok_def s'_def)
  moreover have "st_pcs_ok s'" unfolding st_pcs_ok_def
    using st_pcs_okD [OF I] pcok w xs(4) over(1) by (auto simp: s'_def nth_list_update)
  moreover have "st_out_ok s'" using J(5) b by (auto simp: st_out_ok_def s'_def)
  moreover have "st_log_ok s'" using J(6) w nr by (auto simp: st_log_ok_def s'_def nth_list_update)
  ultimately have "st_inv s'" by (simp add: st_inv_def)
  then show ?thesis using w by (simp add: s'_def)
qed


lemma st_step_final:
  assumes "st_inv s" "st_body s \<in> {BStored, BWalk w, BResume i n}"
  shows "\<exists>s'. FinalAwaiter_step (st_body s) s = Some s' \<and> st_inv s'"
  using assms(2) st_inv_exchange [OF assms(1)] st_inv_walk [OF assms(1), of w] st_inv_resume [OF assms(1), of i n] by auto

text \<open>Every awaiter that is neither suspended nor gone can step, and its step keeps the invariant.\<close>

lemma st_step_awaiter:
  assumes I: "st_inv s" and i: "i < length (st_awaiters s)" "st_awaiters s ! i = c" and c: "c \<noteq> ASuspended" "c \<noteq> AGone"
  shows "\<exists>s'. st_awaiter_step spurious i c s = Some s' \<and> st_inv s'"
proof -
  obtain p where p: "st_promise s = Some p" using st_alive [OF I i(1)] i(2) c by auto
  note W = st_word_okD [OF I p]
  note P = st_pcs_okD [OF I i(1), unfolded i(2)]
  note mv = st_inv_move_only [OF I i p]
  show ?thesis
  proof (cases c)
    case AReady
    then show ?thesis using p W(1) mv [of AResumed] mv [of ALoad] by (simp add: st_await_ready_def stp_is_ready_def)
  next
    case ALoad
    then show ?thesis using p W(1) mv [of AClaim] mv [of "AEnqueue (stp_mWaiters p)"] by (simp add: TryAwait_load_def)
  next
    case AClaim
    then show ?thesis using p i W(1) mv [of "AEnqueue (stp_mWaiters p)"] st_inv_claim [OF I _ _ p] by (auto simp: TryAwait_claim_def)
  next
    case AStart
    then show ?thesis using st_inv_begin [OF I] i by simp
  next
    case AInside
    then show ?thesis using p P(1) W(1) mv [of "AEnqueue (stp_mWaiters p)"] by (simp add: TryAwait_reload_def)
  next
    case (AEnqueue old)
    note e = P [unfolded AEnqueue]
    show ?thesis
    proof (cases "old = StThis")
      case True
      then show ?thesis using AEnqueue e(1) mv [of AResumed] by (simp add: TryAwait_enqueue_def)
    next
      case False
      have "st_inv (st_move i (AEnqueue (stp_mWaiters p)) (s\<lparr>st_mNext := (st_mNext s)(i := Some old)\<rparr>))"
        by (rule st_inv_move [OF I i p]) (use AEnqueue e(1) W(1) p in auto)
      moreover have "st_inv (st_move i ASuspended (s\<lparr>st_mNext := (st_mNext s)(i := Some old), st_promise := Some (p\<lparr>stp_mWaiters := StWaiter i\<rparr>)\<rparr>))"
        if "stp_mWaiters p = old" by (rule st_inv_enqueue [OF I i(1) _ p that False]) (use i(2) AEnqueue in simp)
      ultimately show ?thesis using AEnqueue e(2) False p by (auto simp: TryAwait_enqueue_def Let_def)
    qed
  next
    case AResumed
    then have ov: "st_over s" using P by simp
    then obtain r where r: "st_outcome s = Some r" "stp_result p = Some r"
      using st_invD(5) [OF I] p by (auto simp: st_out_ok_def st_over_def split: if_splits)
    have "st_inv (st_move i (AGot r) (s\<lparr>st_mNext := (st_mNext s)(i := None)\<rparr>))"
      by (rule st_inv_move [OF I i p]) (use AResumed ov r in auto)
    then show ?thesis using AResumed p r by (simp add: st_await_resume_def)
  next
    case (AGot r)
    then show ?thesis using st_inv_end [OF I i(1)] i(2) by simp
  qed (use c in auto)
qed

lemma st_reach_inv: "st_reach s \<Longrightarrow> st_inv s"
proof (induction rule: st_reach.induct)
  case start
  show ?case by (rule st_inv_start)
next
  case (step s s')
  from step.hyps(2) show ?case
  proof cases
    case copy
    then show ?thesis using st_inv_copy step.IH by blast
  next
    case destroy
    then show ?thesis using st_inv_destroy [OF step.IH] by auto
  next
    case co_await
    then show ?thesis using st_inv_co_await [OF step.IH] by simp
  next
    case (awaiter i spurious)
    then have "st_awaiters s ! i \<noteq> ASuspended" "st_awaiters s ! i \<noteq> AGone" by auto
    then show ?thesis using st_step_awaiter [OF step.IH awaiter(1) refl, of spurious] awaiter(2) by auto
  next
    case (finish r)
    then show ?thesis using st_inv_finish step.IH by blast
  next
    case final
    then show ?thesis using st_inv_exchange [OF step.IH] st_inv_walk [OF step.IH] st_inv_resume [OF step.IH] by (cases "st_body s") auto
  qed
qed


subsection \<open>The walk ends\<close>

definition st_walk_left :: "('e, 'a) shared_task \<Rightarrow> nat" where
  "st_walk_left s = 2 * card (st_suspended s) + (case st_body s of BStored \<Rightarrow> 2 | BWalk w \<Rightarrow> 1 | _ \<Rightarrow> 0)"

lemma st_walk_decreases:
  assumes "FinalAwaiter_step (st_body s) s = Some s'"
  shows "st_walk_left s' < st_walk_left s"
proof -
  have fin: "finite (st_suspended s)" by (simp add: st_suspended_def)
  show ?thesis
  proof (cases "st_body s")
    case BStored
    then show ?thesis using assms by (auto simp: st_walk_left_def st_suspended_def)
  next
    case (BWalk w)
    then show ?thesis using assms by (cases w) (auto simp: st_walk_left_def st_suspended_def)
  next
    case (BResume w n)
    then have w: "w \<in> st_suspended s" "s' = st_move w AResumed (s\<lparr>st_body := (if n = StNull then BDone else BWalk n), st_resumed := st_resumed s @ [w]\<rparr>)"
      using assms by (auto simp: st_suspended_def split: if_splits)
    then have "st_suspended s' = st_suspended s - {w}" by (auto simp: st_suspended_def nth_list_update split: if_splits)
    then have "card (st_suspended s) = Suc (card (st_suspended s'))" using w(1) fin by (metis card.remove)
    then show ?thesis using w(2) BResume by (simp add: st_walk_left_def)
  qed (use assms in auto)
qed

subsection \<open>Example runs\<close>

datatype ('e, 'a) st_action = DoCopy | DoDestroy | DoAwait | DoStep nat | DoFinish "'e + 'a" | DoFinal

fun st_do :: "('e, 'a) st_action \<Rightarrow> ('e, 'a) shared_task \<Rightarrow> ('e, 'a) shared_task option" where
  "st_do DoCopy s = (if 0 < st_handles s \<and> map_option stp_mRefCount (st_promise s) \<noteq> Some (- 1) then SharedTask_copy s else None)"
| "st_do DoDestroy s = (if 0 < st_handles s then SharedTask_destroy s else None)"
| "st_do DoAwait s = (if 0 < st_handles s then Some (SharedTask_co_await s) else None)"
| "st_do (DoStep i) s = (if i < length (st_awaiters s) then st_awaiter_step False i (st_awaiters s ! i) s else None)"
| "st_do (DoFinish r) s = st_finish r s"
| "st_do DoFinal s = FinalAwaiter_step (st_body s) s"

fun st_program :: "('e, 'a) st_action list \<Rightarrow> ('e, 'a) shared_task \<Rightarrow> ('e, 'a) shared_task option" where
  "st_program [] s = Some s"
| "st_program (a # as) s = Option.bind (st_do a s) (st_program as)"

lemma st_program_reach: "st_reach s \<Longrightarrow> st_program as s = Some s' \<Longrightarrow> st_reach s'"
proof (induction as arbitrary: s)
  case (Cons a as)
  obtain s1 where s1: "st_do a s = Some s1" "st_program as s1 = Some s'" using Cons.prems(2) by (auto simp: bind_eq_Some_conv)
  have "st_step s s1" using s1(1) by (cases a) (auto split: if_splits intro: st_step.intros)
  then show ?case using Cons.IH [OF st_reach.step [OF Cons.prems(1)] s1(2)] by simp
qed simp

text \<open>Two awaiters on two SharedTask objects: the first starts the coroutine and suspends, the second
  suspends, the coroutine returns 7 and resumes both, and the objects are destroyed.\<close>

definition st_demo_wait :: "(nat, nat) st_action list" where
  "st_demo_wait = [DoCopy, DoAwait, DoAwait, DoStep 0, DoStep 1, DoStep 0, DoStep 0, DoStep 0, DoStep 1, DoStep 1, DoStep 0, DoStep 0, DoFinish (Inr 7)]"

definition st_demo_end :: "(nat, nat) st_action list" where
  "st_demo_end = [DoFinal, DoFinal, DoFinal, DoFinal, DoFinal, DoStep 0, DoStep 1]"

lemmas st_eval = st_demo_wait_def st_demo_end_def SharedTask_start_def SharedTaskPromise_new_def SharedTask_copy_def SharedTask_destroy_def
  SharedTask_co_await_def st_await_ready_def TryAwait_load_def TryAwait_claim_def TryAwait_start_def TryAwait_reload_def TryAwait_enqueue_def
  st_await_resume_def st_await_end_def st_finish_def stp_AddRef_def stp_TryDetach_def stp_is_ready_def stp_result_def st_move_def

lemma st_demo_suspended:
  "\<exists>s. st_program st_demo_wait SharedTask_start = Some s \<and> st_body s = BStored \<and> st_awaiters s ! 0 = ASuspended \<and> st_awaiters s ! 1 = ASuspended \<and> length (st_awaiters s) = 2"
  by (simp add: st_eval Let_def)


lemma st_demo_over:
  "\<exists>s. st_program (st_demo_wait @ st_demo_end) SharedTask_start = Some s \<and> st_body s = BDone \<and> st_awaiters s = [AGot (Inr 7), AGot (Inr 7)] \<and>
     set (st_resumed s) = {0, 1}"
  by (simp add: st_eval Let_def)

subsection \<open>Properties\<close>

text \<open>
  C34. In every interleaving of awaiters, SharedTask objects and the
  coroutine, the coroutine is started at most once, every waiter is resumed at most once and only after
  the coroutine has finished, every \<^verbatim>\<open>co_await\<close> yields the value it returned or the exception it threw, and
  the reference count is the number of SharedTask objects: the coroutine is destroyed when the last one
  goes, and never while it runs.
\<close>

theorem SharedTask_starts_and_resumes_once:
  assumes "st_reach s"
  shows "st_starts s \<le> 1 \<and> distinct (st_resumed s) \<and> (\<forall>i. i \<in> set (st_resumed s) \<longrightarrow> st_outcome s \<noteq> None) \<and>
    (\<forall>i r. i < length (st_awaiters s) \<and> st_awaiters s ! i = AGot r \<longrightarrow> st_outcome s = Some r) \<and>
    (case st_promise s of
       None \<Rightarrow> st_handles s = 0 \<and> st_live s = 0 \<and> st_body s \<noteq> BRunning \<and> st_body s \<noteq> BStored
     | Some p \<Rightarrow> unat (stp_mRefCount p) = st_handles s + st_live s \<and> 0 < st_handles s + st_live s)"
proof -
  note I = st_reach_inv [OF assms]
  note J = st_invD [OF I]
  have "st_starts s \<le> 1" using J(3) by (simp add: st_word_ok_def)
  moreover have "distinct (st_resumed s)" using J(6) by (simp add: st_log_ok_def)
  moreover have "st_outcome s \<noteq> None" if i: "i \<in> set (st_resumed s)" for i
  proof -
    have "i < length (st_awaiters s)" "st_was_resumed (st_awaiters s ! i)" using J(6) i by (auto simp: st_log_ok_def)
    then have "st_over s" using st_pcs_okD(1) [OF I, of i] by (cases "st_awaiters s ! i") auto
    then show ?thesis using J(5) by (auto simp: st_out_ok_def st_over_def split: if_splits)
  qed
  moreover have "st_outcome s = Some r" if "i < length (st_awaiters s) \<and> st_awaiters s ! i = AGot r" for i r
    using st_pcs_okD(1) [OF I, of i] that by simp
  moreover have "case st_promise s of
       None \<Rightarrow> st_handles s = 0 \<and> st_live s = 0 \<and> st_body s \<noteq> BRunning \<and> st_body s \<noteq> BStored
     | Some p \<Rightarrow> unat (stp_mRefCount p) = st_handles s + st_live s \<and> 0 < st_handles s + st_live s"
    using J(2) by (auto simp: st_refs_ok_def split: option.splits)
  ultimately show ?thesis by blast
qed

theorem SharedTask_starts_and_resumes_once_witness:
  "\<exists>s :: (nat, nat) shared_task. st_program (st_demo_wait @ st_demo_end) SharedTask_start = Some s \<and> set (st_resumed s) = {0, 1} \<and>
     distinct (st_resumed s) \<and> st_starts s \<le> 1 \<and> st_outcome s = Some (Inr 7)"
proof -
  obtain s :: "(nat, nat) shared_task" where s: "st_program (st_demo_wait @ st_demo_end) SharedTask_start = Some s"
      "st_awaiters s = [AGot (Inr 7), AGot (Inr 7)]" "set (st_resumed s) = {0, 1}"
    using st_demo_over by blast
  note P = SharedTask_starts_and_resumes_once [OF st_program_reach [OF st_reach.start s(1)]]
  have "st_outcome s = Some (Inr 7)" using P s(2) by (elim conjE allE [of _ 0]) auto
  then show ?thesis using P s by blast
qed

text \<open>
  C35. In every reachable state an awaiter that is not suspended can go on and a
  SharedTask can be destroyed, without reading a destroyed promise or waiter; once the body has finished
  the walk along the waiters goes on without failing and gets shorter with every step; when it is over
  nobody is suspended, and before it is over every suspended awaiter waits for a coroutine that has been
  started or that some awaiter is about to start.
\<close>

theorem SharedTask_no_lost_wakeup:
  assumes "st_reach s"
  shows "(\<forall>i spurious. i < length (st_awaiters s) \<and> st_awaiters s ! i \<noteq> ASuspended \<and> st_awaiters s ! i \<noteq> AGone \<longrightarrow>
      (\<exists>s'. st_awaiter_step spurious i (st_awaiters s ! i) s = Some s')) \<and>
    (0 < st_handles s \<longrightarrow> (\<exists>s'. SharedTask_destroy s = Some s')) \<and>
    (st_body s \<notin> {BInitial, BRunning, BDone} \<longrightarrow> (\<exists>s'. FinalAwaiter_step (st_body s) s = Some s' \<and> st_walk_left s' < st_walk_left s)) \<and>
    (st_body s = BDone \<longrightarrow> st_suspended s = {}) \<and>
    (st_body s = BInitial \<and> st_suspended s \<noteq> {} \<longrightarrow> (\<exists>i<length (st_awaiters s). st_awaiters s ! i = AStart))"
proof (intro conjI allI impI)
  note I = st_reach_inv [OF assms]
  note J = st_invD [OF I]
  show "\<exists>s'. st_awaiter_step spurious i (st_awaiters s ! i) s = Some s'"
    if "i < length (st_awaiters s) \<and> st_awaiters s ! i \<noteq> ASuspended \<and> st_awaiters s ! i \<noteq> AGone" for i spurious
    using st_step_awaiter [OF I _ refl] that by blast
  show "\<exists>s'. SharedTask_destroy s = Some s'" if "0 < st_handles s" using st_inv_destroy [OF I that] by blast
  show "\<exists>s'. FinalAwaiter_step (st_body s) s = Some s' \<and> st_walk_left s' < st_walk_left s" if b: "st_body s \<notin> {BInitial, BRunning, BDone}"
  proof -
    obtain w i n where "st_body s \<in> {BStored, BWalk w, BResume i n}" using b by (cases "st_body s") auto
    then show ?thesis using st_step_final [OF I] st_walk_decreases by blast
  qed
  obtain xs where xs: "st_chain (st_mNext s) (st_head (st_body s) (st_promise s)) xs" "set xs = st_suspended s"
    using J(1) by (auto simp: st_list_ok_def)
  show "st_suspended s = {}" if "st_body s = BDone" using xs that by (cases xs) auto
  assume a: "st_body s = BInitial \<and> st_suspended s \<noteq> {}"
  then obtain i where "i < length (st_awaiters s)" "st_awaiters s ! i = ASuspended" by (auto simp: st_suspended_def)
  then obtain p where p: "st_promise s = Some p" using st_alive [OF I, of i] by auto
  have "stp_mWaiters p \<noteq> StNotStarted" using xs a p by (cases xs) auto
  then have "0 < st_starting s" using st_word_okD(3) [OF I p] a by simp
  then have "\<exists>c \<in> set (st_awaiters s). c = AStart" by (auto simp: st_starting_def filter_empty_conv)
  then show "\<exists>i<length (st_awaiters s). st_awaiters s ! i = AStart" by (metis in_set_conv_nth)
qed

theorem SharedTask_no_lost_wakeup_witness:
  "\<exists>s s' :: (nat, nat) shared_task. st_program st_demo_wait SharedTask_start = Some s \<and> st_suspended s = {0, 1} \<and>
     FinalAwaiter_step (st_body s) s = Some s' \<and> st_walk_left s' < st_walk_left s"
proof -
  obtain s :: "(nat, nat) shared_task" where s: "st_program st_demo_wait SharedTask_start = Some s" "st_body s = BStored"
      "st_awaiters s ! 0 = ASuspended" "st_awaiters s ! 1 = ASuspended" "length (st_awaiters s) = 2"
    using st_demo_suspended by blast
  have "st_suspended s = {0, 1}" using s(3-5) by (auto simp: st_suspended_def less_2_cases_iff)
  moreover obtain s' where "FinalAwaiter_step (st_body s) s = Some s' \<and> st_walk_left s' < st_walk_left s"
    using SharedTask_no_lost_wakeup [OF st_program_reach [OF st_reach.start s(1)]] s(2) by auto
  ultimately show ?thesis using s(1) by blast
qed

end
