(* ===== verification/Ref_Count.thy ===== *)
theory Ref_Count
  imports Prelude "HOL-Library.Multiset"
begin

text \<open>
  Intrusive reference counts: ReferenceCounted and RCReference (\<^verbatim>\<open>src/async/support/ref_count.h\<close>).

  The multiset of the references that exist determines every counter. The locale \<open>counted\<close> states what a
  counter promises (a new object has one reference, an increment, a decrement that tells whether it was the
  last) and proves once that the counters of a heap stay the multiplicities of the references; it is
  interpreted here on ReferenceCounted and in \<^verbatim>\<open>Shared_Task_Objects\<close> on the promise of SharedTask.
\<close>

subsection \<open>References held by variables\<close>

text \<open>A variable holds \<open>None\<close> (nullptr) or the address of an object.\<close>

definition ref_of :: "nat option \<Rightarrow> nat multiset" where
  "ref_of v = (case v of None \<Rightarrow> {#} | Some c \<Rightarrow> {#c#})"

definition var_refs :: "nat option list \<Rightarrow> nat multiset" where
  "var_refs vs = sum_list (map ref_of vs)"

definition counts_exact :: "('p \<Rightarrow> nat) \<Rightarrow> (nat \<Rightarrow> 'p option) \<Rightarrow> nat multiset \<Rightarrow> bool" where
  "counts_exact cnt h M \<longleftrightarrow> (\<forall>c p. h c = Some p \<longrightarrow> cnt p = count M c \<and> c \<in># M) \<and> (\<forall>c. h c = None \<longrightarrow> c \<notin># M)"

lemma ref_of_simps [simp]: "ref_of None = {#}" "ref_of (Some c) = {#c#}"
  by (simp_all add: ref_of_def)

lemma var_refs_simps [simp]: "var_refs [] = {#}" "var_refs (vs @ [v]) = var_refs vs + ref_of v"
  by (simp_all add: var_refs_def)

lemma var_refs_update: "i < length vs \<Longrightarrow> var_refs (vs[i := v]) + ref_of (vs ! i) = var_refs vs + ref_of v"
  unfolding var_refs_def by (rule sum_list_map_update)

lemma var_refs_clear: "i < length vs \<Longrightarrow> var_refs vs = var_refs (vs[i := None]) + ref_of (vs ! i)"
  using var_refs_update [of i vs None] by simp

lemma var_refs_assign: "i < length vs \<Longrightarrow> var_refs (vs[i := v]) = var_refs (vs[i := None]) + ref_of v"
  using var_refs_update [of i "vs[i := None]" v] by simp

lemma var_refs_sub: "i < length vs \<Longrightarrow> vs ! i = Some c \<Longrightarrow> c \<in># var_refs vs"
  using var_refs_clear [of i vs] by simp

lemma var_refs_bound: "count (var_refs vs) c \<le> length vs"
proof (induction vs rule: rev_induct)
  case (snoc v vs)
  then show ?case by (cases v) (auto simp: le_SucI)
qed simp

text \<open>Moving a reference into a new variable, into another variable or into itself, and swap.\<close>

lemma var_refs_move_new: "j < length vs \<Longrightarrow> var_refs ((vs @ [vs ! j])[j := None]) = var_refs vs"
  using var_refs_clear [of j "vs @ [vs ! j]"] by (simp add: nth_append)

lemma var_refs_move:
  assumes "i < length vs" "j < length vs"
  shows "var_refs (vs[i := vs ! j, j := None]) = var_refs (vs[i := None])"
proof (cases "i = j")
  case False
  have "var_refs (vs[i := vs ! j]) = var_refs (vs[i := vs ! j, j := None]) + ref_of (vs ! j)"
    using var_refs_clear [of j "vs[i := vs ! j]"] assms False by simp
  then show ?thesis using var_refs_assign [OF assms(1), of "vs ! j"] by simp
qed simp

lemma var_refs_swap:
  assumes "i < length vs" "j < length vs"
  shows "var_refs (vs[i := vs ! j, j := vs ! i]) = var_refs vs"
proof -
  have "mset (vs[i := vs ! j, j := vs ! i]) = mset vs" by (rule mset_swap) (use assms in simp_all)
  then show ?thesis unfolding var_refs_def by (metis mset_map sum_mset_sum_list)
qed

lemma count_var_refs: "count (var_refs vs) c = count_list vs (Some c)"
proof (induction vs)
  case (Cons v vs)
  then show ?case by (cases v) (auto simp: var_refs_def)
qed simp

lemma in_var_refs: "c \<in># var_refs vs \<longleftrightarrow> Some c \<in> set vs"
  using count_var_refs [of vs c] count_list_0_iff [of vs "Some c"] by (metis not_in_iff)

subsection \<open>Counters\<close>

locale counted =
  fixes cnt :: "'p \<Rightarrow> nat" and fresh :: 'p and inc :: "'p \<Rightarrow> 'p" and dec :: "'p \<Rightarrow> bool \<times> 'p"
  assumes cnt_fresh: "cnt fresh = 1"
    and cnt_inc: "cnt p + 1 < 2 ^ 32 \<Longrightarrow> cnt (inc p) = cnt p + 1"
    and last_dec: "0 < cnt p \<Longrightarrow> fst (dec p) \<longleftrightarrow> cnt p = 1"
    and cnt_dec: "0 < cnt p \<Longrightarrow> cnt (snd (dec p)) = cnt p - 1"
begin

lemma counts_at: "counts_exact cnt h M \<Longrightarrow> c \<in># M \<Longrightarrow> \<exists>p. h c = Some p \<and> cnt p = count M c"
  by (cases "h c") (auto simp: counts_exact_def)

lemma counts_fresh:
  assumes "counts_exact cnt h M" "h c = None"
  shows "counts_exact cnt (h(c \<mapsto> fresh)) (M + {#c#})"
  using assms by (auto simp: counts_exact_def cnt_fresh not_in_iff)

lemma counts_inc:
  assumes "counts_exact cnt h M" "c \<in># M" "count M c + 1 < 2 ^ 32"
  shows "\<exists>p. h c = Some p \<and> counts_exact cnt (h(c \<mapsto> inc p)) (M + {#c#})"
proof -
  obtain p where p: "h c = Some p" "cnt p = count M c" using counts_at [OF assms(1,2)] by blast
  then have "counts_exact cnt (h(c \<mapsto> inc p)) (M + {#c#})"
    using assms(1,3) cnt_inc [of p] by (auto simp: counts_exact_def)
  then show ?thesis using p(1) by blast
qed

lemma counts_dec:
  assumes "counts_exact cnt h (M + {#c#})"
  shows "\<exists>p. h c = Some p \<and> 0 < cnt p \<and> (fst (dec p) \<longleftrightarrow> c \<notin># M) \<and>
    counts_exact cnt (h(c := if fst (dec p) then None else Some (snd (dec p)))) M"
proof -
  obtain p where p: "h c = Some p" "cnt p = count M c + 1" using counts_at [OF assms, of c] by auto
  have last: "fst (dec p) \<longleftrightarrow> c \<notin># M" using last_dec [of p] p(2) by (simp add: not_in_iff)
  have "cnt (snd (dec p)) = count M c" using cnt_dec [of p] p(2) by simp
  then have "counts_exact cnt (h(c := if fst (dec p) then None else Some (snd (dec p)))) M"
    using assms last by (auto simp: counts_exact_def)
  then show ?thesis using p last by auto
qed

end

subsection \<open>ReferenceCounted and RCReference\<close>

text \<open>Objects by address with mRefCounted, the variables of type RCReference, the raw pointers that own a
  reference (from \<^verbatim>\<open>new\<close>, AddRef and release), total_reference_counter_objects, and the destroyed objects. Objects
  hold no references themselves. \<open>None\<close> as the answer of an operation is an access to an object that does not
  exist, a failed assert or a variable that is not in scope.\<close>

record rc_objects =
  rc_heap :: "nat \<Rightarrow> u32 option"
  rc_vars :: "nat option list"
  rc_raw :: "nat list"
  rc_total :: u64
  rc_destroyed :: "nat list"

definition rc_start :: rc_objects where
  "rc_start = \<lparr>rc_heap = Map.empty, rc_vars = [], rc_raw = [], rc_total = 0, rc_destroyed = []\<rparr>"

definition ReferenceCounted_new :: "nat \<Rightarrow> rc_objects \<Rightarrow> rc_objects" where
  "ReferenceCounted_new c s = s\<lparr>rc_heap := (rc_heap s)(c \<mapsto> 1), rc_total := rc_total s + 1\<rparr>"

definition rc_AddRef :: "nat \<Rightarrow> rc_objects \<Rightarrow> rc_objects option" where
  "rc_AddRef c s = map_option (\<lambda>n. s\<lparr>rc_heap := (rc_heap s)(c \<mapsto> n + 1)\<rparr>) (rc_heap s c)"

text \<open>Destroy deletes the object, whose destructor asserts that the counter is zero.\<close>

definition rc_Destroy :: "nat \<Rightarrow> u32 \<Rightarrow> rc_objects \<Rightarrow> rc_objects option" where
  "rc_Destroy c n s =
     (if n = 0 then Some (s\<lparr>rc_heap := (rc_heap s)(c := None), rc_total := rc_total s - 1, rc_destroyed := rc_destroyed s @ [c]\<rparr>) else None)"

definition rc_DropRef :: "nat \<Rightarrow> rc_objects \<Rightarrow> rc_objects option" where
  "rc_DropRef c s = Option.bind (rc_heap s c) (\<lambda>n.
     if n = 1 then rc_Destroy c (n - 1) s else Some (s\<lparr>rc_heap := (rc_heap s)(c \<mapsto> n - 1)\<rparr>))"

definition rc_IsUnique :: "nat \<Rightarrow> rc_objects \<Rightarrow> bool option" where
  "rc_IsUnique c s = map_option (\<lambda>n. n = 1) (rc_heap s c)"

text \<open>\<^verbatim>\<open>if (mPointer) mPointer->DropRef()\<close>.\<close>

definition rc_drop :: "nat option \<Rightarrow> rc_objects \<Rightarrow> rc_objects option" where
  "rc_drop v s = (case v of None \<Rightarrow> Some s | Some c \<Rightarrow> rc_DropRef c s)"

definition rc_set :: "nat \<Rightarrow> nat option \<Rightarrow> rc_objects \<Rightarrow> rc_objects" where
  "rc_set i v s = s\<lparr>rc_vars := (rc_vars s)[i := v]\<rparr>"

definition rc_declare :: "nat option \<Rightarrow> rc_objects \<Rightarrow> rc_objects" where
  "rc_declare v s = s\<lparr>rc_vars := rc_vars s @ [v]\<rparr>"

definition rc_own :: "nat option \<Rightarrow> rc_objects \<Rightarrow> rc_objects" where
  "rc_own v s = (case v of None \<Rightarrow> s | Some c \<Rightarrow> s\<lparr>rc_raw := rc_raw s @ [c]\<rparr>)"

definition rc_disown :: "nat option \<Rightarrow> rc_objects \<Rightarrow> rc_objects" where
  "rc_disown v s = (case v of None \<Rightarrow> s | Some c \<Rightarrow> s\<lparr>rc_raw := remove1 c (rc_raw s)\<rparr>)"

definition TakeRef :: "nat \<Rightarrow> rc_objects \<Rightarrow> rc_objects" where
  "TakeRef c s = rc_declare (Some c) (rc_disown (Some c) s)"

definition FormRef :: "nat \<Rightarrow> rc_objects \<Rightarrow> rc_objects option" where
  "FormRef c s = rc_AddRef c (rc_declare (Some c) s)"

definition RCReference_CopyRef :: "nat option \<Rightarrow> rc_objects \<Rightarrow> rc_objects option" where
  "RCReference_CopyRef v s = (case v of None \<Rightarrow> Some (rc_declare None s) | Some c \<Rightarrow> FormRef c s)"

definition RCReference_move_assign :: "nat \<Rightarrow> nat \<Rightarrow> rc_objects \<Rightarrow> rc_objects option" where
  "RCReference_move_assign i j s =
     map_option (\<lambda>s1. rc_set j None (rc_set i (rc_vars s1 ! j) s1)) (rc_drop (rc_vars s ! i) s)"

definition RCReference_reset :: "nat \<Rightarrow> nat option \<Rightarrow> rc_objects \<Rightarrow> rc_objects option" where
  "RCReference_reset i pointer s = map_option (\<lambda>s1. rc_set i pointer (rc_disown pointer s1)) (rc_drop (rc_vars s ! i) s)"

definition RCReference_release :: "nat \<Rightarrow> rc_objects \<Rightarrow> rc_objects" where
  "RCReference_release i s = rc_set i None (rc_own (rc_vars s ! i) s)"

text \<open>Calls on variables in scope; \<open>RcDtor\<close> ends the life of a variable and leaves it empty, \<open>RcUse\<close> is
  \<open>operator*\<close> or \<open>operator->\<close>.\<close>

datatype rc_op = RcObject nat | RcAddRef nat | RcDropRef nat | RcTakeRef nat | RcFormRef nat | RcDefault | RcMove nat
  | RcMoveAssign nat nat | RcDtor nat | RcReset nat "nat option" | RcRelease nat | RcCopyRef nat | RcSwap nat nat | RcUse nat

fun rc_call :: "rc_op \<Rightarrow> rc_objects \<Rightarrow> rc_objects option" where
  "rc_call (RcObject c) s = Some (rc_own (Some c) (ReferenceCounted_new c s))"
| "rc_call (RcAddRef c) s = map_option (rc_own (Some c)) (rc_AddRef c s)"
| "rc_call (RcDropRef c) s = rc_DropRef c (rc_disown (Some c) s)"
| "rc_call (RcTakeRef c) s = Some (TakeRef c s)"
| "rc_call (RcFormRef c) s = FormRef c s"
| "rc_call RcDefault s = Some (rc_declare None s)"
| "rc_call (RcMove j) s = Some (rc_set j None (rc_declare (rc_vars s ! j) s))"
| "rc_call (RcMoveAssign i j) s = RCReference_move_assign i j s"
| "rc_call (RcDtor i) s = map_option (rc_set i None) (rc_drop (rc_vars s ! i) s)"
| "rc_call (RcReset i v) s = RCReference_reset i v s"
| "rc_call (RcRelease i) s = Some (RCReference_release i s)"
| "rc_call (RcCopyRef j) s = RCReference_CopyRef (rc_vars s ! j) s"
| "rc_call (RcSwap i j) s = Some (rc_set j (rc_vars s ! i) (rc_set i (rc_vars s ! j) s))"
| "rc_call (RcUse i) s = (case rc_vars s ! i of None \<Rightarrow> None | Some c \<Rightarrow> map_option (\<lambda>_. s) (rc_heap s c))"

fun rc_calls :: "rc_op list \<Rightarrow> rc_objects \<Rightarrow> rc_objects option" where
  "rc_calls [] s = Some s"
| "rc_calls (x # xs) s = Option.bind (rc_call x s) (rc_calls xs)"

text \<open>What the caller owes: variables in scope, new objects at addresses not used before, a live object for
  FormRef and AddRef, an owned raw pointer for DropRef, TakeRef and reset, and no use of an empty variable.\<close>

fun rc_legal :: "rc_op \<Rightarrow> rc_objects \<Rightarrow> bool" where
  "rc_legal (RcObject c) s \<longleftrightarrow> rc_heap s c = None \<and> c \<notin> set (rc_destroyed s)"
| "rc_legal (RcAddRef c) s \<longleftrightarrow> Some c \<in> set (rc_vars s) \<or> c \<in> set (rc_raw s)"
| "rc_legal (RcDropRef c) s \<longleftrightarrow> c \<in> set (rc_raw s)"
| "rc_legal (RcTakeRef c) s \<longleftrightarrow> c \<in> set (rc_raw s)"
| "rc_legal (RcFormRef c) s \<longleftrightarrow> Some c \<in> set (rc_vars s) \<or> c \<in> set (rc_raw s)"
| "rc_legal RcDefault s \<longleftrightarrow> True"
| "rc_legal (RcMove j) s \<longleftrightarrow> j < length (rc_vars s)"
| "rc_legal (RcMoveAssign i j) s \<longleftrightarrow> i < length (rc_vars s) \<and> j < length (rc_vars s)"
| "rc_legal (RcDtor i) s \<longleftrightarrow> i < length (rc_vars s)"
| "rc_legal (RcReset i v) s \<longleftrightarrow> i < length (rc_vars s) \<and> (case v of None \<Rightarrow> True | Some c \<Rightarrow> c \<in> set (rc_raw s))"
| "rc_legal (RcRelease i) s \<longleftrightarrow> i < length (rc_vars s)"
| "rc_legal (RcCopyRef j) s \<longleftrightarrow> j < length (rc_vars s)"
| "rc_legal (RcSwap i j) s \<longleftrightarrow> i < length (rc_vars s) \<and> j < length (rc_vars s)"
| "rc_legal (RcUse i) s \<longleftrightarrow> i < length (rc_vars s) \<and> rc_vars s ! i \<noteq> None"

fun rc_legals :: "rc_op list \<Rightarrow> rc_objects \<Rightarrow> bool" where
  "rc_legals [] s \<longleftrightarrow> True"
| "rc_legals (x # xs) s \<longleftrightarrow> rc_legal x s \<and> (case rc_call x s of None \<Rightarrow> True | Some s1 \<Rightarrow> rc_legals xs s1)"

interpretation rc: counted "unat :: u32 \<Rightarrow> nat" 1 "\<lambda>n. n + 1" "\<lambda>n. (n = 1, n - 1)"
  by unfold_locales (auto simp: unat_inc_u32 unat_dec_u32 unat_gt_0 unat_eq_1 [simplified])

subsection \<open>Invariant\<close>

text \<open>The heap of \<open>s\<close> when the references \<open>M\<close> exist.\<close>

definition rc_sound :: "nat multiset \<Rightarrow> rc_objects \<Rightarrow> bool" where
  "rc_sound M s \<longleftrightarrow> counts_exact unat (rc_heap s) M \<and> distinct (rc_destroyed s) \<and> (\<forall>c \<in> set (rc_destroyed s). rc_heap s c = None) \<and>
     finite (dom (rc_heap s)) \<and> rc_total s = of_nat (card (dom (rc_heap s)))"

definition rc_refs :: "rc_objects \<Rightarrow> nat multiset" where
  "rc_refs s = var_refs (rc_vars s) + mset (rc_raw s)"

lemma rc_sound_vars [simp]: "rc_sound M (s\<lparr>rc_vars := vs\<rparr>) = rc_sound M s" "rc_sound M (s\<lparr>rc_raw := rs\<rparr>) = rc_sound M s"
  by (simp_all add: rc_sound_def)

lemma rc_AddRef_ok:
  assumes "rc_sound M s" "c \<in># M" "count M c + 1 < 2 ^ 32"
  shows "\<exists>s'. rc_AddRef c s = Some s' \<and> rc_sound (M + {#c#}) s' \<and> rc_vars s' = rc_vars s \<and> rc_raw s' = rc_raw s"
proof -
  obtain n where n: "rc_heap s c = Some n" "counts_exact unat ((rc_heap s)(c \<mapsto> n + 1)) (M + {#c#})"
    using rc.counts_inc [of "rc_heap s" M c] assms by (auto simp: rc_sound_def)
  moreover have "insert c (dom (rc_heap s)) = dom (rc_heap s)" using n(1) by auto
  ultimately show ?thesis using assms(1) by (auto simp: rc_AddRef_def rc_sound_def)
qed

lemma rc_DropRef_ok:
  assumes "rc_sound (M + {#c#}) s"
  shows "\<exists>s'. rc_DropRef c s = Some s' \<and> rc_sound M s' \<and> rc_vars s' = rc_vars s \<and> rc_raw s' = rc_raw s"
proof -
  obtain n where n: "rc_heap s c = Some n" "counts_exact unat ((rc_heap s)(c := if n = 1 then None else Some (n - 1))) M"
    using rc.counts_dec [of "rc_heap s" M c] assms by (auto simp: rc_sound_def)
  have dom: "c \<in> dom (rc_heap s)" "insert c (dom (rc_heap s)) = dom (rc_heap s)" using n(1) by auto
  have fin: "finite (dom (rc_heap s))" and tot: "rc_total s = of_nat (card (dom (rc_heap s)))"
    and ds: "distinct (rc_destroyed s)" "\<forall>c \<in> set (rc_destroyed s). rc_heap s c = None" using assms by (auto simp: rc_sound_def)
  show ?thesis
  proof (cases "n = 1")
    case True
    have "card (dom (rc_heap s)) = Suc (card (dom (rc_heap s) - {c}))" using card.remove [OF fin dom(1)] .
    then have "rc_total s - 1 = of_nat (card (dom (rc_heap s) - {c}))" using tot by simp
    moreover have "c \<notin> set (rc_destroyed s)" using ds(2) n(1) by auto
    ultimately show ?thesis using True n fin ds by (auto simp: rc_DropRef_def rc_Destroy_def rc_sound_def)
  next
    case False
    then show ?thesis using n dom fin tot ds by (auto simp: rc_DropRef_def rc_sound_def)
  qed
qed

lemma rc_drop_ok:
  assumes "rc_sound (M + ref_of v) s"
  shows "\<exists>s'. rc_drop v s = Some s' \<and> rc_sound M s' \<and> rc_vars s' = rc_vars s \<and> rc_raw s' = rc_raw s"
  using assms rc_DropRef_ok by (cases v) (auto simp: rc_drop_def)

text \<open>The parts of the operations that only move references around.\<close>

lemma rc_moves [simp]:
  "rc_sound M (rc_set i v s) = rc_sound M s" "rc_sound M (rc_declare v s) = rc_sound M s"
  "rc_sound M (rc_own v s) = rc_sound M s" "rc_sound M (rc_disown v s) = rc_sound M s"
  "rc_vars (rc_set i v s) = (rc_vars s)[i := v]" "rc_raw (rc_set i v s) = rc_raw s"
  "rc_vars (rc_declare v s) = rc_vars s @ [v]" "rc_raw (rc_declare v s) = rc_raw s"
  "rc_vars (rc_own v s) = rc_vars s" "rc_vars (rc_disown v s) = rc_vars s"
  "mset (rc_raw (rc_own v s)) = mset (rc_raw s) + ref_of v"
  by (cases v; simp add: rc_set_def rc_declare_def rc_own_def rc_disown_def)+

lemma rc_raw_disown: "(\<forall>c. v = Some c \<longrightarrow> c \<in> set (rc_raw s)) \<Longrightarrow> mset (rc_raw s) = mset (rc_raw (rc_disown v s)) + ref_of v"
  by (cases v) (simp_all add: rc_disown_def)

text \<open>Forming a reference: RcAddRef, RcFormRef and RcCopyRef.\<close>

definition rc_room :: "rc_objects \<Rightarrow> nat" where
  "rc_room s = length (rc_vars s) + length (rc_raw s)"

lemma rc_refs_live:
  assumes "Some c \<in> set (rc_vars s) \<or> c \<in> set (rc_raw s)"
  shows "c \<in># rc_refs s"
  using assms by (auto simp: rc_refs_def in_var_refs)

lemma rc_refs_room: "count (rc_refs s) c \<le> rc_room s"
  using var_refs_bound [of "rc_vars s" c] count_le_length [of "rc_raw s" c] by (simp add: rc_refs_def rc_room_def count_mset)

definition rc_result :: "rc_objects \<Rightarrow> rc_objects option \<Rightarrow> bool" where
  "rc_result s r \<longleftrightarrow> (\<exists>s'. r = Some s' \<and> rc_sound (rc_refs s') s' \<and> rc_room s' \<le> rc_room s + 1)"

lemma rc_form_ok:
  assumes "rc_sound (rc_refs s) s" "c \<in># rc_refs s" "rc_room s + 1 < 2 ^ 32"
  shows "rc_result s (map_option (rc_own (Some c)) (rc_AddRef c s))" "rc_result s (FormRef c s)"
proof -
  have room: "count (rc_refs s) c + 1 < 2 ^ 32" using rc_refs_room [of s c] assms(3) by linarith
  show "rc_result s (map_option (rc_own (Some c)) (rc_AddRef c s))"
    using rc_AddRef_ok [OF assms(1,2) room] by (auto simp: rc_result_def rc_refs_def rc_room_def rc_own_def)
  have "rc_sound (rc_refs s) (rc_declare (Some c) s)" using assms(1) by simp
  from rc_AddRef_ok [OF this assms(2) room] show "rc_result s (FormRef c s)"
    by (auto simp: rc_result_def FormRef_def rc_refs_def rc_room_def)
qed

text \<open>Dropping the reference of a variable: move assignment, destructor and reset.\<close>

lemma rc_drop_var:
  assumes "rc_sound (rc_refs s) s" "i < length (rc_vars s)"
  shows "\<exists>s'. rc_drop (rc_vars s ! i) s = Some s' \<and> rc_sound (var_refs ((rc_vars s)[i := None]) + mset (rc_raw s)) s' \<and>
    rc_vars s' = rc_vars s \<and> rc_raw s' = rc_raw s"
  by (rule rc_drop_ok) (use assms var_refs_clear [OF assms(2)] in \<open>simp add: rc_refs_def ac_simps\<close>)

lemma rc_drop_calls:
  assumes "rc_sound (rc_refs s) s" "i < length (rc_vars s)"
  shows "j < length (rc_vars s) \<Longrightarrow> rc_result s (RCReference_move_assign i j s)"
    "rc_result s (map_option (rc_set i None) (rc_drop (rc_vars s ! i) s))"
    "(\<forall>c. v = Some c \<longrightarrow> c \<in> set (rc_raw s)) \<Longrightarrow> rc_result s (RCReference_reset i v s)"
proof -
  obtain s1 where d: "rc_drop (rc_vars s ! i) s = Some s1" "rc_sound (var_refs ((rc_vars s)[i := None]) + mset (rc_raw s)) s1"
      and v: "rc_vars s1 = rc_vars s" "rc_raw s1 = rc_raw s"
    using rc_drop_var [OF assms] by blast
  show "rc_result s (RCReference_move_assign i j s)" if "j < length (rc_vars s)"
    using d v var_refs_move [OF assms(2) that] by (simp add: rc_result_def RCReference_move_assign_def rc_refs_def rc_room_def)
  show "rc_result s (map_option (rc_set i None) (rc_drop (rc_vars s ! i) s))"
    using d v by (simp add: rc_result_def rc_refs_def rc_room_def)
  show "rc_result s (RCReference_reset i v s)" if own: "\<forall>c. v = Some c \<longrightarrow> c \<in> set (rc_raw s)"
  proof -
    have "mset (rc_raw s) = mset (rc_raw (rc_disown v s1)) + ref_of v" using rc_raw_disown [of v s1] own v by simp
    moreover have "length (rc_raw (rc_disown v s1)) \<le> length (rc_raw s)"
      using v by (cases v) (simp_all add: rc_disown_def length_remove1)
    ultimately show ?thesis using d v var_refs_assign [OF assms(2), of v]
      by (simp add: rc_result_def RCReference_reset_def rc_refs_def rc_room_def ac_simps)
  qed
qed

lemma rc_object_ok:
  assumes "rc_sound (rc_refs s) s" "rc_legal (RcObject c) s"
  shows "rc_result s (rc_call (RcObject c) s)"
proof -
  have c: "rc_heap s c = None" "c \<notin> set (rc_destroyed s)" using assms(2) by simp_all
  then have "c \<notin> dom (rc_heap s)" by auto
  then have "rc_sound (rc_refs s + {#c#}) (ReferenceCounted_new c s)"
    using assms(1) rc.counts_fresh [of "rc_heap s" "rc_refs s" c] c by (auto simp: rc_sound_def ReferenceCounted_new_def card_insert_if)
  then show ?thesis by (simp add: rc_result_def rc_refs_def rc_room_def rc_own_def ReferenceCounted_new_def)
qed

lemma rc_raw_ok:
  assumes "rc_sound (rc_refs s) s" "c \<in> set (rc_raw s)"
  shows "rc_result s (rc_DropRef c (rc_disown (Some c) s))" "rc_result s (Some (TakeRef c s))"
proof -
  have raw: "mset (rc_raw s) = mset (rc_raw (rc_disown (Some c) s)) + {#c#}" using rc_raw_disown [of "Some c" s] assms(2) by simp
  have len: "length (rc_raw (rc_disown (Some c) s)) + 1 = length (rc_raw s)" using arg_cong [OF raw, of size] by simp
  have "rc_sound ((var_refs (rc_vars s) + mset (rc_raw (rc_disown (Some c) s))) + {#c#}) (rc_disown (Some c) s)"
    using assms(1) raw by (simp add: rc_refs_def)
  from rc_DropRef_ok [OF this] show "rc_result s (rc_DropRef c (rc_disown (Some c) s))"
    using len by (auto simp: rc_result_def rc_refs_def rc_room_def)
  show "rc_result s (Some (TakeRef c s))" using assms(1) raw len by (simp add: rc_result_def TakeRef_def rc_refs_def rc_room_def)
qed

lemma rc_call_ok:
  assumes I: "rc_sound (rc_refs s) s" and l: "rc_legal x s" and room: "rc_room s + 1 < 2 ^ 32"
  shows "rc_result s (rc_call x s)"
proof (cases x)
  case (RcObject c)
  then show ?thesis using rc_object_ok I l by blast
next
  case (RcAddRef c)
  then show ?thesis using rc_form_ok(1) [OF I rc_refs_live room] l by simp
next
  case (RcFormRef c)
  then show ?thesis using rc_form_ok(2) [OF I rc_refs_live room] l by simp
next
  case (RcMove j)
  then show ?thesis using I l var_refs_move_new [of j "rc_vars s"] by (simp add: rc_result_def rc_refs_def rc_room_def)
next
  case (RcReset i v)
  then show ?thesis using rc_drop_calls(3) [OF I] l by (auto split: option.splits)
next
  case (RcRelease i)
  then show ?thesis using I l var_refs_clear [of i "rc_vars s"]
    by (cases "rc_vars s ! i") (simp_all add: rc_result_def RCReference_release_def rc_refs_def rc_room_def rc_own_def)
next
  case (RcCopyRef j)
  then show ?thesis using I l rc_form_ok(2) [OF I rc_refs_live room] nth_mem [of j "rc_vars s"]
    by (cases "rc_vars s ! j") (auto simp: RCReference_CopyRef_def rc_result_def rc_refs_def rc_room_def)
next
  case (RcSwap i j)
  then show ?thesis using I l var_refs_swap [of i "rc_vars s" j] by (simp add: rc_result_def rc_refs_def rc_room_def)
next
  case (RcUse i)
  then obtain c where c: "rc_vars s ! i = Some c" "c \<in># rc_refs s" using l var_refs_sub [of i "rc_vars s"] by (auto simp: rc_refs_def)
  then show ?thesis using I RcUse rc.counts_at [of "rc_heap s" "rc_refs s" c] by (auto simp: rc_result_def rc_sound_def)
qed (use I l rc_drop_calls [OF I] rc_raw_ok [OF I] in \<open>auto simp: rc_result_def rc_refs_def rc_room_def\<close>)

lemma rc_calls_ok:
  assumes "rc_sound (rc_refs s) s" "rc_legals xs s" "rc_room s + length xs < 2 ^ 32"
  shows "\<exists>s'. rc_calls xs s = Some s' \<and> rc_sound (rc_refs s') s'"
  using assms
proof (induction xs arbitrary: s)
  case (Cons x xs)
  have "rc_result s (rc_call x s)" using rc_call_ok [OF Cons.prems(1), of x] Cons.prems(2,3) by simp
  then obtain s1 where "rc_call x s = Some s1" "rc_sound (rc_refs s1) s1" "rc_room s1 \<le> rc_room s + 1" by (auto simp: rc_result_def)
  then show ?case using Cons.IH [of s1] Cons.prems(2,3) by simp
qed simp

lemma rc_refs_count: "count (rc_refs s) c = count_list (rc_vars s) (Some c) + count_list (rc_raw s) c"
  by (simp add: rc_refs_def count_var_refs count_mset)

text \<open>
  C36. Any sequence of fewer than \<open>2 ^ 32\<close> calls of ReferenceCounted and RCReference
  (construction, TakeRef, FormRef, CopyRef, moves and move assignments, onto themselves too, reset, release,
  swap, destruction, raw AddRef and DropRef) that keeps to the contract returns: no destroyed object is
  touched and no assert fails. Afterwards every counter is the number of variables and owned raw pointers that
  refer to the object, IsUnique answers whether that is one, an object exists exactly while it is referred to,
  none was destroyed twice, and total_reference_counter_objects is the number of objects (modulo \<open>2 ^ 64\<close>).
\<close>

theorem RCReference_counts_exact:
  assumes "rc_legals xs rc_start" "length xs < 2 ^ 32"
  shows "\<exists>s. rc_calls xs rc_start = Some s \<and> distinct (rc_destroyed s) \<and> finite (dom (rc_heap s)) \<and> rc_total s = of_nat (card (dom (rc_heap s))) \<and>
    (\<forall>c. let refs = count_list (rc_vars s) (Some c) + count_list (rc_raw s) c in
       case rc_heap s c of None \<Rightarrow> refs = 0
       | Some n \<Rightarrow> unat n = refs \<and> 0 < refs \<and> rc_IsUnique c s = Some (refs = 1) \<and> c \<notin> set (rc_destroyed s))"
proof -
  have "rc_sound (rc_refs rc_start) rc_start" by (simp add: rc_sound_def rc_refs_def rc_start_def counts_exact_def)
  then obtain s where s: "rc_calls xs rc_start = Some s" "rc_sound (rc_refs s) s"
    using rc_calls_ok [OF _ assms(1)] assms(2) by (auto simp: rc_room_def rc_start_def)
  have "case rc_heap s c of None \<Rightarrow> count (rc_refs s) c = 0
     | Some n \<Rightarrow> unat n = count (rc_refs s) c \<and> 0 < count (rc_refs s) c \<and> rc_IsUnique c s = Some (count (rc_refs s) c = 1) \<and> c \<notin> set (rc_destroyed s)" for c
  proof (cases "rc_heap s c")
    case (Some n)
    then have "unat n = count (rc_refs s) c" "0 < count (rc_refs s) c" "c \<notin> set (rc_destroyed s)"
      using s(2) by (auto simp: rc_sound_def counts_exact_def)
    then show ?thesis using Some unat_eq_1 [of n] by (simp add: rc_IsUnique_def)
  qed (use s(2) in \<open>simp add: rc_sound_def counts_exact_def not_in_iff\<close>)
  then show ?thesis using s unfolding Let_def rc_sound_def by (intro exI [of _ s]) (simp only: rc_refs_count simp_thms)
qed

theorem RCReference_counts_exact_witness:
  "\<exists>s. rc_calls [RcObject 7, RcTakeRef 7, RcCopyRef 0, RcMove 1, RcMoveAssign 2 2, RcRelease 0, RcReset 1 (Some 7), RcObject 8, RcReset 1 (Some 8)] rc_start = Some s \<and>
     rc_vars s = [None, Some 8, None] \<and> distinct (rc_destroyed s)"
proof -
  let ?xs = "[RcObject 7, RcTakeRef 7, RcCopyRef 0, RcMove 1, RcMoveAssign 2 2, RcRelease 0, RcReset 1 (Some 7), RcObject 8, RcReset 1 (Some 8)]"
  note ev = rc_start_def rc_declare_def rc_set_def rc_own_def rc_disown_def ReferenceCounted_new_def TakeRef_def FormRef_def RCReference_CopyRef_def
    RCReference_move_assign_def RCReference_reset_def RCReference_release_def rc_drop_def rc_DropRef_def rc_Destroy_def rc_AddRef_def numeral_2_eq_2
  have l: "rc_legals ?xs rc_start" by (simp add: ev)
  have v: "map_option rc_vars (rc_calls ?xs rc_start) = Some [None, Some 8, None]" by (simp add: ev)
  obtain s where s: "rc_calls ?xs rc_start = Some s" "distinct (rc_destroyed s)" using RCReference_counts_exact [OF l] by auto
  have "rc_vars s = [None, Some 8, None]" using v s(1) by (simp del: rc_calls.simps)
  then show ?thesis using s by blast
qed

end
