(* ===== verification/Shared_Task_Objects.thy ===== *)
theory Shared_Task_Objects
  imports Shared_Task Ref_Count
begin

text \<open>
  The special member functions of class SharedTask (\<^verbatim>\<open>src/async/coroutine/shared_task.h\<close>) on several variables
  that refer to several coroutines: constructors, assignments, swap and the destructor. A variable holds
  \<open>None\<close> (nullptr) or the address of a promise; a variable whose life has ended is left empty. \<open>None\<close> as the
  answer of an operation is an access to a destroyed promise or to a variable that does not exist.
\<close>

subsection \<open>Operations\<close>

record ('e, 'a) task_objects =
  to_heap :: "nat \<Rightarrow> ('e, 'a) SharedTaskPromise option"
  to_vars :: "nat option list"
  to_destroyed :: "nat list"

definition to_start :: "('e, 'a) task_objects" where
  "to_start = \<lparr>to_heap = Map.empty, to_vars = [], to_destroyed = []\<rparr>"

text \<open>AddRef of the copy operations and destroy, on the coroutine that a variable holds.\<close>

definition to_attach :: "nat option \<Rightarrow> ('e, 'a) task_objects \<Rightarrow> ('e, 'a) task_objects option" where
  "to_attach v s = (case v of None \<Rightarrow> Some s
     | Some c \<Rightarrow> map_option (\<lambda>p. s\<lparr>to_heap := (to_heap s)(c \<mapsto> stp_AddRef p)\<rparr>) (to_heap s c))"

definition to_destroy :: "nat option \<Rightarrow> ('e, 'a) task_objects \<Rightarrow> ('e, 'a) task_objects option" where
  "to_destroy v s = (case v of None \<Rightarrow> Some s
     | Some c \<Rightarrow> map_option (\<lambda>p. case stp_TryDetach p of (detached, p1) \<Rightarrow>
         if detached then s\<lparr>to_heap := (to_heap s)(c \<mapsto> p1)\<rparr>
         else s\<lparr>to_heap := (to_heap s)(c := None), to_destroyed := to_destroyed s @ [c]\<rparr>) (to_heap s c))"

definition to_set :: "nat \<Rightarrow> nat option \<Rightarrow> ('e, 'a) task_objects \<Rightarrow> ('e, 'a) task_objects" where
  "to_set i v s = s\<lparr>to_vars := (to_vars s)[i := v]\<rparr>"

definition to_declare :: "nat option \<Rightarrow> ('e, 'a) task_objects \<Rightarrow> ('e, 'a) task_objects" where
  "to_declare v s = s\<lparr>to_vars := to_vars s @ [v]\<rparr>"

text \<open>A call of a coroutine function makes a promise at a new address and the SharedTask of
  get_return_object.\<close>

datatype to_op = ObjNew | ObjCoroutine nat | ObjMove nat | ObjCopy nat | ObjDtor nat | ObjMoveAssign nat nat | ObjCopyAssign nat nat | ObjSwap nat nat

fun to_call :: "to_op \<Rightarrow> ('e, 'a) task_objects \<Rightarrow> ('e, 'a) task_objects option" where
  "to_call ObjNew s = Some (to_declare None s)"
| "to_call (ObjCoroutine c) s =
     (if to_heap s c = None \<and> c \<notin> set (to_destroyed s) then Some (to_declare (Some c) (s\<lparr>to_heap := (to_heap s)(c \<mapsto> SharedTaskPromise_new)\<rparr>)) else None)"
| "to_call (ObjMove j) s = (if j < length (to_vars s) then Some (to_set j None (to_declare (to_vars s ! j) s)) else None)"
| "to_call (ObjCopy j) s = (if j < length (to_vars s) then to_attach (to_vars s ! j) (to_declare (to_vars s ! j) s) else None)"
| "to_call (ObjDtor i) s = (if i < length (to_vars s) then map_option (to_set i None) (to_destroy (to_vars s ! i) s) else None)"
| "to_call (ObjMoveAssign i j) s =
     (if i < length (to_vars s) \<and> j < length (to_vars s)
      then if i = j then Some s
           else map_option (\<lambda>s1. to_set j None (to_set i (to_vars s1 ! j) s1)) (to_destroy (to_vars s ! i) s)
      else None)"
| "to_call (ObjCopyAssign i j) s =
     (if i < length (to_vars s) \<and> j < length (to_vars s)
      then if to_vars s ! i = to_vars s ! j then Some s
           else Option.bind (to_destroy (to_vars s ! i) s) (\<lambda>s1. to_attach (to_vars s1 ! j) (to_set i (to_vars s1 ! j) s1))
      else None)"
| "to_call (ObjSwap i j) s =
     (if i < length (to_vars s) \<and> j < length (to_vars s)
      then Some (to_set j (to_vars s ! i) (to_set i (to_vars s ! j) s)) else None)"

fun to_calls :: "to_op list \<Rightarrow> ('e, 'a) task_objects \<Rightarrow> ('e, 'a) task_objects option" where
  "to_calls [] s = Some s"
| "to_calls (x # xs) s = Option.bind (to_call x s) (to_calls xs)"

text \<open>The calls a C++ program can make: variables in scope and promises at new addresses.\<close>

fun to_legal :: "to_op \<Rightarrow> ('e, 'a) task_objects \<Rightarrow> bool" where
  "to_legal ObjNew s \<longleftrightarrow> True"
| "to_legal (ObjCoroutine c) s \<longleftrightarrow> to_heap s c = None \<and> c \<notin> set (to_destroyed s)"
| "to_legal (ObjMove j) s \<longleftrightarrow> j < length (to_vars s)"
| "to_legal (ObjCopy j) s \<longleftrightarrow> j < length (to_vars s)"
| "to_legal (ObjDtor i) s \<longleftrightarrow> i < length (to_vars s)"
| "to_legal (ObjMoveAssign i j) s \<longleftrightarrow> i < length (to_vars s) \<and> j < length (to_vars s)"
| "to_legal (ObjCopyAssign i j) s \<longleftrightarrow> i < length (to_vars s) \<and> j < length (to_vars s)"
| "to_legal (ObjSwap i j) s \<longleftrightarrow> i < length (to_vars s) \<and> j < length (to_vars s)"

fun to_legals :: "to_op list \<Rightarrow> ('e, 'a) task_objects \<Rightarrow> bool" where
  "to_legals [] s \<longleftrightarrow> True"
| "to_legals (x # xs) s \<longleftrightarrow> to_legal x s \<and> (case to_call x s of None \<Rightarrow> True | Some s1 \<Rightarrow> to_legals xs s1)"

subsection \<open>Invariant\<close>

text \<open>The counters are the multiplicities of the references that the variables hold.\<close>

interpretation st: counted "\<lambda>p. unat (stp_mRefCount p)" SharedTaskPromise_new stp_AddRef
  "\<lambda>p. case stp_TryDetach p of (detached, p1) \<Rightarrow> (\<not> detached, p1)"
  by unfold_locales (auto simp: SharedTaskPromise_new_def stp_AddRef_def stp_TryDetach_def unat_inc_u32 unat_dec_u32 unat_gt_0 unat_eq_1 [simplified])

definition to_sound :: "nat multiset \<Rightarrow> ('e, 'a) task_objects \<Rightarrow> bool" where
  "to_sound M s \<longleftrightarrow> counts_exact (\<lambda>p. unat (stp_mRefCount p)) (to_heap s) M \<and> distinct (to_destroyed s) \<and> (\<forall>c \<in> set (to_destroyed s). to_heap s c = None)"

lemma to_moves [simp]:
  "to_sound M (to_set i v s) = to_sound M s" "to_sound M (to_declare v s) = to_sound M s"
  "to_vars (to_set i v s) = (to_vars s)[i := v]" "to_vars (to_declare v s) = to_vars s @ [v]"
  by (simp_all add: to_sound_def to_set_def to_declare_def)

lemma to_attach_ok:
  assumes "to_sound M s" "\<forall>c. v = Some c \<longrightarrow> c \<in># M" "\<forall>c. count M c + 1 < 2 ^ 32"
  shows "\<exists>s'. to_attach v s = Some s' \<and> to_sound (M + ref_of v) s' \<and> to_vars s' = to_vars s"
proof (cases v)
  case (Some c)
  then obtain p where "to_heap s c = Some p" "counts_exact (\<lambda>p. unat (stp_mRefCount p)) ((to_heap s)(c \<mapsto> stp_AddRef p)) (M + {#c#})"
    using st.counts_inc [of "to_heap s" M c] assms by (auto simp: to_sound_def)
  then show ?thesis using Some assms(1) by (auto simp: to_attach_def to_sound_def)
qed (use assms in \<open>simp add: to_attach_def\<close>)

lemma to_destroy_ok:
  assumes "to_sound (M + ref_of v) s"
  shows "\<exists>s'. to_destroy v s = Some s' \<and> to_sound M s' \<and> to_vars s' = to_vars s"
proof (cases v)
  case (Some c)
  then obtain p where "to_heap s c = Some p"
      "counts_exact (\<lambda>p. unat (stp_mRefCount p)) ((to_heap s)(c := if \<not> fst (stp_TryDetach p) then None else Some (snd (stp_TryDetach p)))) M"
    using st.counts_dec [of "to_heap s" M c] assms by (auto simp: to_sound_def split_def)
  then show ?thesis using Some assms by (auto simp: to_destroy_def to_sound_def split_def)
qed (use assms in \<open>simp add: to_destroy_def\<close>)

lemma to_destroy_var:
  assumes "to_sound (var_refs (to_vars s)) s" "i < length (to_vars s)"
  shows "\<exists>s'. to_destroy (to_vars s ! i) s = Some s' \<and> to_sound (var_refs ((to_vars s)[i := None])) s' \<and> to_vars s' = to_vars s"
  by (rule to_destroy_ok) (use assms var_refs_clear [OF assms(2)] in simp)

text \<open>Every legal call returns and keeps the counters exact, as long as the number of variables fits them.\<close>

definition to_result :: "('e, 'a) task_objects \<Rightarrow> ('e, 'a) task_objects option \<Rightarrow> bool" where
  "to_result s r \<longleftrightarrow> (\<exists>s'. r = Some s' \<and> to_sound (var_refs (to_vars s')) s' \<and> length (to_vars s') \<le> length (to_vars s) + 1)"

lemma to_copy_assign_ok:
  assumes I: "to_sound (var_refs (to_vars s)) s" and ij: "i < length (to_vars s)" "j < length (to_vars s)" and room: "length (to_vars s) + 1 < 2 ^ 32"
  shows "to_result s (to_call (ObjCopyAssign i j) s)"
proof (cases "to_vars s ! i = to_vars s ! j")
  case False
  then have ne: "i \<noteq> j" by auto
  let ?vs = "(to_vars s)[i := None]"
  obtain s1 where s1: "to_destroy (to_vars s ! i) s = Some s1" "to_sound (var_refs ?vs) s1" "to_vars s1 = to_vars s"
    using to_destroy_var [OF I ij(1)] by blast
  have "\<forall>c. to_vars s ! j = Some c \<longrightarrow> c \<in># var_refs ?vs" using var_refs_sub [of j ?vs] ij ne by simp
  moreover have "\<forall>c. count (var_refs ?vs) c + 1 < 2 ^ 32"
    using var_refs_bound [of ?vs] room by (metis add_le_mono1 le_less_trans length_list_update)
  ultimately obtain s2 where "to_attach (to_vars s ! j) (to_set i (to_vars s ! j) s1) = Some s2" "to_sound (var_refs ?vs + ref_of (to_vars s ! j)) s2"
      "to_vars s2 = (to_vars s)[i := to_vars s ! j]"
    using to_attach_ok [of "var_refs ?vs" "to_set i (to_vars s ! j) s1" "to_vars s ! j"] s1 by auto
  then show ?thesis using False ij s1 var_refs_assign [OF ij(1), of "to_vars s ! j"] by (simp add: to_result_def)
qed (use ij I in \<open>simp add: to_result_def\<close>)

lemma to_copy_ok:
  assumes I: "to_sound (var_refs (to_vars s)) s" and j: "j < length (to_vars s)" and room: "length (to_vars s) + 1 < 2 ^ 32"
  shows "to_result s (to_call (ObjCopy j) s)"
proof -
  have "\<forall>c. count (var_refs (to_vars s)) c + 1 < 2 ^ 32"
    using var_refs_bound [of "to_vars s"] room by (meson add_le_mono1 le_less_trans)
  then show ?thesis
    using to_attach_ok [of "var_refs (to_vars s)" "to_declare (to_vars s ! j) s" "to_vars s ! j"] I j var_refs_sub [OF j]
    by (auto simp: to_result_def)
qed

lemma to_coroutine_ok:
  assumes "to_sound (var_refs (to_vars s)) s" "to_legal (ObjCoroutine c) s"
  shows "to_result s (to_call (ObjCoroutine c) s)"
proof -
  let ?h = "(to_heap s)(c \<mapsto> SharedTaskPromise_new)"
  have c: "to_heap s c = None" "c \<notin> set (to_destroyed s)" using assms(2) by simp_all
  then have "to_sound (var_refs (to_vars s) + {#c#}) (s\<lparr>to_heap := ?h\<rparr>)"
    using assms(1) st.counts_fresh [of "to_heap s" "var_refs (to_vars s)" c] by (auto simp: to_sound_def)
  then show ?thesis using c by (simp add: to_result_def)
qed

lemma to_call_ok:
  assumes I: "to_sound (var_refs (to_vars s)) s" and l: "to_legal x s" and room: "length (to_vars s) + 1 < 2 ^ 32"
  shows "to_result s (to_call x s)"
proof (cases x)
  case (ObjMove j)
  then show ?thesis using I l var_refs_move_new [of j "to_vars s"] by (simp add: to_result_def)
next
  case (ObjDtor i)
  then show ?thesis using to_destroy_var [OF I, of i] l by (auto simp: to_result_def)
next
  case (ObjMoveAssign i j)
  then show ?thesis using to_destroy_var [OF I, of i] var_refs_move [of i "to_vars s" j] I l by (auto simp: to_result_def)
next
  case (ObjSwap i j)
  then show ?thesis using I l var_refs_swap [of i "to_vars s" j] by (simp add: to_result_def)
qed (use I l room to_coroutine_ok to_copy_ok to_copy_assign_ok in \<open>auto simp: to_result_def simp del: to_call.simps(2,4,7)\<close>)

lemma to_calls_ok:
  assumes "to_sound (var_refs (to_vars s)) s" "to_legals xs s" "length (to_vars s) + length xs < 2 ^ 32"
  shows "\<exists>s'. to_calls xs s = Some s' \<and> to_sound (var_refs (to_vars s')) s'"
  using assms
proof (induction xs arbitrary: s)
  case (Cons x xs)
  have "to_result s (to_call x s)" using to_call_ok [OF Cons.prems(1), of x] Cons.prems(2,3) by simp
  then obtain s1 where "to_call x s = Some s1" "to_sound (var_refs (to_vars s1)) s1" "length (to_vars s1) \<le> length (to_vars s) + 1"
    by (auto simp: to_result_def)
  then show ?case using Cons.IH [of s1] Cons.prems(2,3) by simp
qed simp

text \<open>
  Any legal sequence of fewer than \<open>2 ^ 32\<close> constructions, copies, moves,
  assignments (self-assignment included), swaps and destructions of SharedTask variables returns without
  touching a destroyed promise; afterwards the counter of every coroutine is the number of variables that
  refer to it, a coroutine exists exactly while some variable refers to it, and none was destroyed twice.
\<close>

theorem SharedTask_objects_exact:
  assumes "to_legals xs (to_start :: ('e, 'a) task_objects)" "length xs < 2 ^ 32"
  shows "\<exists>s' :: ('e, 'a) task_objects. to_calls xs to_start = Some s' \<and> distinct (to_destroyed s') \<and>
    (\<forall>c. case to_heap s' c of None \<Rightarrow> Some c \<notin> set (to_vars s')
       | Some p \<Rightarrow> unat (stp_mRefCount p) = count_list (to_vars s') (Some c) \<and> Some c \<in> set (to_vars s') \<and> c \<notin> set (to_destroyed s'))"
proof -
  have "to_sound (var_refs (to_vars to_start)) (to_start :: ('e, 'a) task_objects)" by (simp add: to_sound_def to_start_def counts_exact_def)
  then obtain s' :: "('e, 'a) task_objects" where s': "to_calls xs to_start = Some s'" "to_sound (var_refs (to_vars s')) s'"
    using to_calls_ok [OF _ assms(1)] assms(2) by (auto simp: to_start_def)
  then show ?thesis by (intro exI [of _ s']) (auto simp: to_sound_def counts_exact_def count_var_refs in_var_refs split: option.splits)
qed

theorem SharedTask_objects_exact_witness:
  "\<exists>s' :: (nat, nat) task_objects. to_calls [ObjCoroutine 5, ObjCopy 0, ObjNew, ObjMoveAssign 2 1, ObjCopyAssign 1 2, ObjMoveAssign 1 1, ObjSwap 0 2, ObjDtor 0] to_start = Some s' \<and>
     to_vars s' = [None, Some 5, Some 5] \<and> distinct (to_destroyed s')"
proof -
  let ?xs = "[ObjCoroutine 5, ObjCopy 0, ObjNew, ObjMoveAssign 2 1, ObjCopyAssign 1 2, ObjMoveAssign 1 1, ObjSwap 0 2, ObjDtor 0]"
  note ev = to_start_def to_declare_def to_set_def to_attach_def to_destroy_def SharedTaskPromise_new_def stp_AddRef_def stp_TryDetach_def numeral_2_eq_2
  have l: "to_legals ?xs (to_start :: (nat, nat) task_objects)" by (simp add: ev)
  have v: "map_option to_vars (to_calls ?xs (to_start :: (nat, nat) task_objects)) = Some [None, Some 5, Some 5]" by (simp add: ev)
  obtain s' :: "(nat, nat) task_objects" where s': "to_calls ?xs to_start = Some s'" "distinct (to_destroyed s')"
    using SharedTask_objects_exact [OF l] by auto
  have "to_vars s' = [None, Some 5, Some 5]" using v s'(1) by (simp del: to_calls.simps)
  then show ?thesis using s' by blast
qed

end
