(* ===== verification/When_All.thy ===== *)
theory When_All
  imports Prelude
begin

text \<open>
  Awaiting several tasks at once: WhenAllCounter (\<^verbatim>\<open>src/async/coroutine/internal/when_all_counter.h\<close>),
  WhenAllTask (\<^verbatim>\<open>when_all_task.h\<close>), WhenAllReadyAwaitable (\<^verbatim>\<open>when_all_ready_awaitable.h\<close>) and the collection
  of the results by WhenAll (\<^verbatim>\<open>src/async/coroutine/when_all.h\<close>). The awaiting coroutine starts every task and
  then waits; a task ends on any thread at any moment after its start, with a value or an exception, and
  counts down. A step is one access to shared data; \<open>None\<close> is a failed assert or a call of resume on a
  coroutine that is not suspended.
\<close>

subsection \<open>WhenAllCounter\<close>

record WhenAllCounter =
  wac_m_count :: u64
  wac_mAwaitingCoroutine :: bool

definition WhenAllCounter_new :: "nat \<Rightarrow> WhenAllCounter" where
  "WhenAllCounter_new n = \<lparr>wac_m_count = of_nat n + 1, wac_mAwaitingCoroutine = False\<rparr>"

definition wac_is_ready :: "WhenAllCounter \<Rightarrow> bool" where
  "wac_is_ready c = wac_mAwaitingCoroutine c"

text \<open>try_await: the store of the handle, then the decrement, which answers whether to suspend.\<close>

definition wac_try_await_store :: "WhenAllCounter \<Rightarrow> WhenAllCounter" where
  "wac_try_await_store c = c\<lparr>wac_mAwaitingCoroutine := True\<rparr>"

definition wac_try_await_sub :: "WhenAllCounter \<Rightarrow> bool \<times> WhenAllCounter" where
  "wac_try_await_sub c = (1 < wac_m_count c, c\<lparr>wac_m_count := wac_m_count c - 1\<rparr>)"

text \<open>notify_awaitable_completed: the answer is whether the awaiting coroutine is resumed.\<close>

definition wac_notify :: "WhenAllCounter \<Rightarrow> bool \<times> WhenAllCounter" where
  "wac_notify c = (wac_m_count c = 1, c\<lparr>wac_m_count := wac_m_count c - 1\<rparr>)"

subsection \<open>WhenAllTask\<close>

datatype wt_point = TInitial | TRunning | TFinal | TNotified

record ('e, 'a) WhenAllTask =
  wt_point :: wt_point
  wt_mCounter :: bool
  wt_mExceptionPtr :: "'e option"
  wt_m_result :: "'a option"
  wt_ended :: "('e + 'a) option"

definition WhenAllTask_new :: "('e, 'a) WhenAllTask" where
  "WhenAllTask_new = \<lparr>wt_point = TInitial, wt_mCounter = False, wt_mExceptionPtr = None, wt_m_result = None, wt_ended = None\<rparr>"

definition WhenAllTask_start :: "('e, 'a) WhenAllTask \<Rightarrow> ('e, 'a) WhenAllTask option" where
  "WhenAllTask_start t = (if wt_point t = TInitial then Some (t\<lparr>wt_mCounter := True, wt_point := TRunning\<rparr>) else None)"

text \<open>yield_value and unhandled_exception.\<close>

fun WhenAllTask_end :: "'e + 'a \<Rightarrow> ('e, 'a) WhenAllTask \<Rightarrow> ('e, 'a) WhenAllTask" where
  "WhenAllTask_end (Inr x) t = t\<lparr>wt_m_result := Some x, wt_point := TFinal, wt_ended := Some (Inr x)\<rparr>"
| "WhenAllTask_end (Inl e) t = t\<lparr>wt_mExceptionPtr := Some e, wt_point := TFinal, wt_ended := Some (Inl e)\<rparr>"

text \<open>result: rethrow_if_exception, then the dereference of m_result.\<close>

definition WhenAllTask_result :: "('e, 'a) WhenAllTask \<Rightarrow> ('e + 'a) option" where
  "WhenAllTask_result t = (case wt_mExceptionPtr t of Some e \<Rightarrow> Some (Inl e) | None \<Rightarrow> map_option Inr (wt_m_result t))"

text \<open>The loop of WhenAll over the tasks; an exception leaves it.\<close>

fun WhenAll_results :: "('e, 'a) WhenAllTask list \<Rightarrow> ('e + 'a list) option" where
  "WhenAll_results [] = Some (Inr [])"
| "WhenAll_results (t # ts) = Option.bind (WhenAllTask_result t) (\<lambda>r.
     case r of Inl e \<Rightarrow> Some (Inl e) | Inr x \<Rightarrow> map_option (map_sum id (Cons x)) (WhenAll_results ts))"

subsection \<open>The awaiting coroutine\<close>

text \<open>Before await_ready; in the loop of try_await, with the number of tasks started; before the store and
  before the decrement of the counter; suspended; after await_suspend.\<close>

datatype wa_pc = WReady | WStart nat | WStore | WSub | WSuspended | WContinue

record ('e, 'a) when_all =
  wa_mCounter :: WhenAllCounter
  wa_mTasks :: "('e, 'a) WhenAllTask list"
  wa_pc :: wa_pc
  wa_resumes :: nat

definition WhenAllReady :: "nat \<Rightarrow> ('e, 'a) when_all" where
  "WhenAllReady n = \<lparr>wa_mCounter = WhenAllCounter_new n, wa_mTasks = replicate n WhenAllTask_new, wa_pc = WReady, wa_resumes = 0\<rparr>"

fun wa_await :: "wa_pc \<Rightarrow> ('e, 'a) when_all \<Rightarrow> ('e, 'a) when_all option" where
  "wa_await WReady s = Some (s\<lparr>wa_pc := if wac_is_ready (wa_mCounter s) then WContinue else WStart 0\<rparr>)"
| "wa_await (WStart k) s =
     (if k < length (wa_mTasks s)
      then map_option (\<lambda>t. s\<lparr>wa_mTasks := (wa_mTasks s)[k := t], wa_pc := WStart (k + 1)\<rparr>) (WhenAllTask_start (wa_mTasks s ! k))
      else Some (s\<lparr>wa_pc := WStore\<rparr>))"
| "wa_await WStore s = Some (s\<lparr>wa_mCounter := wac_try_await_store (wa_mCounter s), wa_pc := WSub\<rparr>)"
| "wa_await WSub s = (case wac_try_await_sub (wa_mCounter s) of (suspend, c) \<Rightarrow>
     Some (s\<lparr>wa_mCounter := c, wa_pc := if suspend then WSuspended else WContinue\<rparr>))"
| "wa_await _ s = None"

text \<open>Task \<open>k\<close> ends; its completion_notifier counts down and may resume the awaiting coroutine.\<close>

definition wa_end :: "nat \<Rightarrow> 'e + 'a \<Rightarrow> ('e, 'a) when_all \<Rightarrow> ('e, 'a) when_all option" where
  "wa_end k r s =
     (if k < length (wa_mTasks s) \<and> wt_point (wa_mTasks s ! k) = TRunning
      then Some (s\<lparr>wa_mTasks := (wa_mTasks s)[k := WhenAllTask_end r (wa_mTasks s ! k)]\<rparr>) else None)"

definition wa_notify :: "nat \<Rightarrow> ('e, 'a) when_all \<Rightarrow> ('e, 'a) when_all option" where
  "wa_notify k s =
     (if k < length (wa_mTasks s) \<and> wt_point (wa_mTasks s ! k) = TFinal \<and> wt_mCounter (wa_mTasks s ! k)
      then case wac_notify (wa_mCounter s) of (resume, c) \<Rightarrow>
        let s1 = s\<lparr>wa_mTasks := (wa_mTasks s)[k := (wa_mTasks s ! k)\<lparr>wt_point := TNotified\<rparr>], wa_mCounter := c\<rparr> in
        if resume
        then if wac_mAwaitingCoroutine c \<and> wa_pc s = WSuspended then Some (s1\<lparr>wa_pc := WContinue, wa_resumes := wa_resumes s + 1\<rparr>) else None
        else Some s1
      else None)"

inductive wa_reach :: "nat \<Rightarrow> ('e, 'a) when_all \<Rightarrow> bool" for n where
  start: "wa_reach n (WhenAllReady n)"
| await: "wa_reach n s \<Longrightarrow> wa_await (wa_pc s) s = Some s' \<Longrightarrow> wa_reach n s'"
| ending: "wa_reach n s \<Longrightarrow> wa_end k r s = Some s' \<Longrightarrow> wa_reach n s'"
| notify: "wa_reach n s \<Longrightarrow> wa_notify k s = Some s' \<Longrightarrow> wa_reach n s'"

subsection \<open>Invariant\<close>

definition wa_pending :: "('e, 'a) when_all \<Rightarrow> nat" where
  "wa_pending s = length (filter (\<lambda>t. wt_point t \<noteq> TNotified) (wa_mTasks s))"

text \<open>The tasks that are started when the awaiting coroutine is at a point, and its share of the count.\<close>

fun wa_started :: "nat \<Rightarrow> wa_pc \<Rightarrow> nat" where
  "wa_started n WReady = 0" | "wa_started n (WStart k) = k" | "wa_started n _ = n"

fun wa_share :: "wa_pc \<Rightarrow> nat" where
  "wa_share WSuspended = 0" | "wa_share WContinue = 0" | "wa_share _ = 1"

definition wt_ok :: "bool \<Rightarrow> ('e, 'a) WhenAllTask \<Rightarrow> bool" where
  "wt_ok started t \<longleftrightarrow> (wt_point t \<noteq> TInitial \<longleftrightarrow> started) \<and> (started \<longrightarrow> wt_mCounter t) \<and>
     (if wt_point t \<in> {TInitial, TRunning} then wt_mExceptionPtr t = None \<and> wt_m_result t = None
      else \<exists>r. wt_ended t = Some r \<and> WhenAllTask_result t = Some r)"

definition wa_inv :: "nat \<Rightarrow> ('e, 'a) when_all \<Rightarrow> bool" where
  "wa_inv n s \<longleftrightarrow> length (wa_mTasks s) = n \<and> wa_started n (wa_pc s) \<le> n \<and>
     (\<forall>k<n. wt_ok (k < wa_started n (wa_pc s)) (wa_mTasks s ! k)) \<and>
     unat (wac_m_count (wa_mCounter s)) = wa_pending s + wa_share (wa_pc s) \<and>
     (wac_mAwaitingCoroutine (wa_mCounter s) \<longleftrightarrow> wa_pc s \<in> {WSub, WSuspended, WContinue}) \<and>
     (wa_pc s = WSuspended \<longrightarrow> 0 < wa_pending s) \<and> (wa_pc s = WContinue \<longrightarrow> wa_pending s = 0) \<and>
     wa_resumes s \<le> of_bool (wa_pc s = WContinue)"

lemma wa_invD:
  assumes "wa_inv n s"
  shows "length (wa_mTasks s) = n" "wa_started n (wa_pc s) \<le> n" "\<And>k. k < n \<Longrightarrow> wt_ok (k < wa_started n (wa_pc s)) (wa_mTasks s ! k)"
    "unat (wac_m_count (wa_mCounter s)) = wa_pending s + wa_share (wa_pc s)"
    "wac_mAwaitingCoroutine (wa_mCounter s) \<longleftrightarrow> wa_pc s \<in> {WSub, WSuspended, WContinue}"
    "wa_pc s = WSuspended \<Longrightarrow> 0 < wa_pending s" "wa_pc s = WContinue \<Longrightarrow> wa_pending s = 0" "wa_resumes s \<le> of_bool (wa_pc s = WContinue)"
  using assms unfolding wa_inv_def by blast+

lemma wa_pending_update:
  assumes "k < length (wa_mTasks s)"
  shows "length (filter (\<lambda>t. wt_point t \<noteq> TNotified) ((wa_mTasks s)[k := t])) + of_bool (wt_point (wa_mTasks s ! k) \<noteq> TNotified) =
    wa_pending s + of_bool (wt_point t \<noteq> TNotified)"
  using length_filter_update [OF assms, of "\<lambda>t. wt_point t \<noteq> TNotified" t] by (simp add: wa_pending_def)

lemma wa_inv_start: "n < 2 ^ 64 - 1 \<Longrightarrow> wa_inv n (WhenAllReady n)"
proof -
  assume n: "n < 2 ^ 64 - 1"
  then have "unat (of_nat (Suc n) :: u64) = Suc n" by (simp add: unsigned_of_nat take_bit_nat_eq_self del: of_nat_Suc)
  then have "unat (of_nat n + 1 :: u64) = n + 1" by (simp add: add.commute)
  then show ?thesis by (simp add: wa_inv_def WhenAllReady_def WhenAllCounter_new_def wa_pending_def WhenAllTask_new_def wt_ok_def)
qed

lemma unat_dec_u64: "x \<noteq> 0 \<Longrightarrow> unat (x - 1) = unat x - 1" for x :: u64
  by (metis unat_minus_one)

lemma wa_await_ok:
  assumes I: "wa_inv n s" and pc: "wa_pc s \<notin> {WSuspended, WContinue}"
  shows "\<exists>s'. wa_await (wa_pc s) s = Some s' \<and> wa_inv n s'"
proof -
  note J = wa_invD [OF I]
  have r0: "wa_resumes s = 0" using J(8) pc by simp
  show ?thesis
  proof (cases "wa_pc s")
    case WReady
    then show ?thesis using I J(5) r0 by (auto simp: wac_is_ready_def wa_inv_def wa_pending_def)
  next
    case (WStart k)
    show ?thesis
    proof (cases "k < n")
      case True
      then have t: "wt_ok False (wa_mTasks s ! k)" using J(3) [OF True] WStart by simp
      let ?t = "(wa_mTasks s ! k)\<lparr>wt_mCounter := True, wt_point := TRunning\<rparr>"
      have t1: "wt_ok True ?t" "wt_point (wa_mTasks s ! k) = TInitial" using t by (auto simp: wt_ok_def)
      have "wt_ok (j < k + 1) ((wa_mTasks s)[k := ?t] ! j)" if "j < n" for j
        using J(1) J(3) [OF that] that WStart t1(1) True by (cases "j = k") (auto simp: less_Suc_eq)
      then have "wa_inv n (s\<lparr>wa_mTasks := (wa_mTasks s)[k := ?t], wa_pc := WStart (k + 1)\<rparr>)"
        using J True WStart wa_pending_update [of k s ?t] t1 r0 by (simp add: wa_inv_def wa_pending_def)
      then show ?thesis using True t J(1) WStart by (auto simp: WhenAllTask_start_def wt_ok_def)
    next
      case False
      then have "k = n" using J(2) WStart by simp
      then show ?thesis using I WStart J(1) r0 by (auto simp: wa_inv_def wa_pending_def)
    qed
  next
    case WStore
    then show ?thesis using I r0 by (auto simp: wac_try_await_store_def wa_inv_def wa_pending_def)
  next
    case WSub
    have c: "unat (wac_m_count (wa_mCounter s)) = wa_pending s + 1" using J(4) WSub by simp
    then have "wac_m_count (wa_mCounter s) \<noteq> 0" by auto
    then have d: "unat (wac_m_count (wa_mCounter s) - 1) = wa_pending s" using unat_dec_u64 c by simp
    have g: "1 < wac_m_count (wa_mCounter s) \<longleftrightarrow> 0 < wa_pending s" using c by (simp add: word_less_nat_alt)
    show ?thesis using J WSub d g r0 by (auto simp: wac_try_await_sub_def wa_inv_def wa_pending_def)
  qed (use pc in auto)
qed


lemma wa_end_ok:
  assumes I: "wa_inv n s" and s': "wa_end k r s = Some s'"
  shows "wa_inv n s'"
proof -
  note J = wa_invD [OF I]
  let ?t = "WhenAllTask_end r (wa_mTasks s ! k)"
  have k: "k < n" "wt_point (wa_mTasks s ! k) = TRunning" "s' = s\<lparr>wa_mTasks := (wa_mTasks s)[k := ?t]\<rparr>"
    using s' J(1) by (auto simp: wa_end_def split: if_splits)
  have old: "wt_ok (k < wa_started n (wa_pc s)) (wa_mTasks s ! k)" by (rule J(3) [OF k(1)])
  then have new: "wt_ok (k < wa_started n (wa_pc s)) ?t"
    using k(2) by (cases r) (auto simp: wt_ok_def WhenAllTask_result_def)
  have pt: "wt_point ?t = TFinal" by (cases r) simp_all
  have "wt_ok (j < wa_started n (wa_pc s)) ((wa_mTasks s)[k := ?t] ! j)" if "j < n" for j
    using J(1) J(3) [OF that] new that by (cases "j = k") auto
  then show ?thesis using J k wa_pending_update [of k s ?t] pt by (simp add: wa_inv_def wa_pending_def)
qed

lemma wa_notify_ok:
  assumes I: "wa_inv n s" and k: "k < n" "wt_point (wa_mTasks s ! k) = TFinal"
  shows "\<exists>s'. wa_notify k s = Some s' \<and> wa_inv n s'"
proof -
  note J = wa_invD [OF I]
  let ?t = "(wa_mTasks s ! k)\<lparr>wt_point := TNotified\<rparr>"
  have old: "wt_ok (k < wa_started n (wa_pc s)) (wa_mTasks s ! k)" by (rule J(3) [OF k(1)])
  then have st: "k < wa_started n (wa_pc s)" "wt_mCounter (wa_mTasks s ! k)" using k(2) by (auto simp: wt_ok_def)
  have res: "WhenAllTask_result ?t = WhenAllTask_result (wa_mTasks s ! k)"
    unfolding WhenAllTask_result_def by (cases "wt_mExceptionPtr (wa_mTasks s ! k)") simp_all
  have new: "wt_ok (k < wa_started n (wa_pc s)) ?t" using old k(2) res by (auto simp: wt_ok_def)
  have ok: "wt_ok (j < wa_started n (wa_pc s)) ((wa_mTasks s)[k := ?t] ! j)" if "j < n" for j
    using J(1) J(3) [OF that] new that by (cases "j = k") auto
  have p: "length (filter (\<lambda>t. wt_point t \<noteq> TNotified) ((wa_mTasks s)[k := ?t])) + 1 = wa_pending s"
    using wa_pending_update [of k s ?t] k J(1) by simp
  have c: "unat (wac_m_count (wa_mCounter s)) = wa_pending s + wa_share (wa_pc s)" by (rule J(4))
  then have "wac_m_count (wa_mCounter s) \<noteq> 0" using p by auto
  then have d: "unat (wac_m_count (wa_mCounter s) - 1) =
      length (filter (\<lambda>t. wt_point t \<noteq> TNotified) ((wa_mTasks s)[k := ?t])) + wa_share (wa_pc s)"
    using unat_dec_u64 c p by simp
  show ?thesis
  proof (cases "wac_m_count (wa_mCounter s) = 1")
    case True
    then have one: "wa_pending s = 1" "wa_share (wa_pc s) = 0" using c p by simp_all
    then have pc: "wa_pc s = WSuspended" using J(7) by (cases "wa_pc s") auto
    then show ?thesis using J True one p d ok k st by (simp add: wa_notify_def wac_notify_def wa_inv_def wa_pending_def Let_def)
  next
    case False
    then have "unat (wac_m_count (wa_mCounter s)) \<noteq> 1" by (metis unat_1 unsigned_word_eqI)
    then have more: "wa_pc s = WSuspended \<Longrightarrow> 1 < wa_pending s" "wa_pc s \<noteq> WContinue" using c p J(7) by auto
    then have "wa_pc s = WSuspended \<longrightarrow> 0 < length (filter (\<lambda>t. wt_point t \<noteq> TNotified) ((wa_mTasks s)[k := ?t]))" using p by linarith
    then show ?thesis using J more(2) False d ok k st by (simp add: wa_notify_def wac_notify_def wa_inv_def wa_pending_def Let_def)
  qed
qed

lemma wa_reach_inv:
  assumes "wa_reach n s" "n < 2 ^ 64 - 1"
  shows "wa_inv n s"
  using assms(1)
proof (induction rule: wa_reach.induct)
  case start
  show ?case by (rule wa_inv_start [OF assms(2)])
next
  case (await s s')
  then show ?case using wa_await_ok [of n s] by (cases "wa_pc s") auto
next
  case (ending s k r s')
  then show ?case using wa_end_ok by blast
next
  case (notify s k s')
  then have "k < n" "wt_point (wa_mTasks s ! k) = TFinal" using wa_invD(1) [OF notify.IH] by (auto simp: wa_notify_def split: if_splits)
  then show ?case using wa_notify_ok [OF notify.IH, of k] notify.hyps(2) by simp
qed

subsection \<open>Properties\<close>

text \<open>What WhenAll should answer: the first exception in the order of the tasks, otherwise all values.\<close>

definition all_or_first_error :: "('e + 'a) list \<Rightarrow> 'e + 'a list" where
  "all_or_first_error rs = (case find isl rs of Some (Inl e) \<Rightarrow> Inl e | _ \<Rightarrow> Inr (map projr rs))"

lemma WhenAll_results_spec: "list_all2 (\<lambda>t r. WhenAllTask_result t = Some r) ts rs \<Longrightarrow> WhenAll_results ts = Some (all_or_first_error rs)"
proof (induction rule: list_all2_induct)
  case (Cons t ts r rs)
  show ?case
  proof (cases r)
    case (Inr b)
    show ?thesis
    proof (cases "find isl rs")
      case (Some y)
      then have "isl y" by (auto simp: find_Some_iff)
      then show ?thesis using Cons Inr Some by (cases y) (simp_all add: all_or_first_error_def)
    qed (use Cons Inr in \<open>simp add: all_or_first_error_def\<close>)
  qed (use Cons in \<open>simp add: all_or_first_error_def\<close>)
qed (simp add: all_or_first_error_def)


lemma wa_all_notified: "wa_pending s = 0 \<Longrightarrow> t \<in> set (wa_mTasks s) \<Longrightarrow> wt_point t = TNotified"
  by (auto simp: wa_pending_def filter_empty_conv)

lemma wa_continue_results:
  assumes I: "wa_inv n s" and pc: "wa_pc s = WContinue"
  shows "list_all2 (\<lambda>t r. wt_ended t = Some r \<and> WhenAllTask_result t = Some r) (wa_mTasks s) (map (the \<circ> wt_ended) (wa_mTasks s))"
  unfolding list_all2_conv_all_nth
proof (intro conjI allI impI)
  note J = wa_invD [OF I]
  fix k assume k: "k < length (wa_mTasks s)"
  then have "wt_point (wa_mTasks s ! k) = TNotified" using wa_all_notified [OF J(7) [OF pc] nth_mem] by simp
  then obtain r where "wt_ended (wa_mTasks s ! k) = Some r \<and> WhenAllTask_result (wa_mTasks s ! k) = Some r"
    using J(3) [of k] J(1) k by (auto simp: wt_ok_def)
  then show "wt_ended (wa_mTasks s ! k) = Some (map (the \<circ> wt_ended) (wa_mTasks s) ! k)"
    "WhenAllTask_result (wa_mTasks s ! k) = Some (map (the \<circ> wt_ended) (wa_mTasks s) ! k)" using k by simp_all
qed simp

text \<open>Runs for examples: \<open>None\<close> is a step of the awaiting coroutine, \<open>Some (k, Some r)\<close> the end of task \<open>k\<close>,
  \<open>Some (k, None)\<close> its notification.\<close>

fun wa_program :: "(nat \<times> ('e + 'a) option) option list \<Rightarrow> ('e, 'a) when_all \<Rightarrow> ('e, 'a) when_all option" where
  "wa_program [] s = Some s"
| "wa_program (None # xs) s = Option.bind (wa_await (wa_pc s) s) (wa_program xs)"
| "wa_program (Some (k, Some r) # xs) s = Option.bind (wa_end k r s) (wa_program xs)"
| "wa_program (Some (k, None) # xs) s = Option.bind (wa_notify k s) (wa_program xs)"

lemma wa_program_reach: "wa_reach n s \<Longrightarrow> wa_program xs s = Some s' \<Longrightarrow> wa_reach n s'"
  by (induction xs s rule: wa_program.induct) (auto simp: bind_eq_Some_conv intro: wa_reach.intros)

definition wa_demo :: "(nat \<times> (nat + nat) option) option list" where
  "wa_demo = [None, None, None, Some (0, Some (Inr 4)), Some (0, None), None, None, None, Some (1, Some (Inr 5)), Some (1, None)]"

lemma wa_demo_run: "\<exists>s. wa_program wa_demo (WhenAllReady 2) = Some s \<and> wa_pc s = WContinue \<and> map wt_ended (wa_mTasks s) = [Some (Inr 4), Some (Inr 5)]"
  by (simp add: wa_demo_def WhenAllReady_def WhenAllCounter_new_def WhenAllTask_new_def numeral_2_eq_2 wac_is_ready_def WhenAllTask_start_def
      wac_try_await_store_def wac_try_await_sub_def wac_notify_def wa_end_def wa_notify_def Let_def)

text \<open>
  C38. For fewer than \<open>2 ^ 64 - 1\<close> tasks, in every interleaving the awaiting coroutine is
  resumed at most once, and it goes on only when every task has ended; then the vector that WhenAll
  collects consists of all values in the order of the tasks, or the first exception in that order is
  thrown. It is not left suspended when all tasks have notified it, and neither its steps nor a
  notification ever fail.
\<close>

theorem WhenAll_continues_once:
  assumes "wa_reach n s" "n < 2 ^ 64 - 1"
  shows "wa_resumes s \<le> 1 \<and>
    (wa_pc s = WContinue \<longrightarrow> (\<exists>rs. map wt_ended (wa_mTasks s) = map Some rs \<and> WhenAll_results (wa_mTasks s) = Some (all_or_first_error rs))) \<and>
    (wa_pc s = WSuspended \<longrightarrow> (\<exists>k<n. wt_point (wa_mTasks s ! k) \<noteq> TNotified)) \<and>
    (wa_pc s \<noteq> WSuspended \<and> wa_pc s \<noteq> WContinue \<longrightarrow> (\<exists>s'. wa_await (wa_pc s) s = Some s')) \<and>
    (\<forall>k. k < n \<and> wt_point (wa_mTasks s ! k) = TFinal \<longrightarrow> (\<exists>s'. wa_notify k s = Some s'))"
proof (intro conjI impI allI)
  note I = wa_reach_inv [OF assms]
  note J = wa_invD [OF I]
  show "wa_resumes s \<le> 1" using J(8) by (rule order_trans) simp
  show "\<exists>rs. map wt_ended (wa_mTasks s) = map Some rs \<and> WhenAll_results (wa_mTasks s) = Some (all_or_first_error rs)" if "wa_pc s = WContinue"
  proof -
    let ?rs = "map (the \<circ> wt_ended) (wa_mTasks s)"
    note L = wa_continue_results [OF I that]
    have "map wt_ended (wa_mTasks s) = map Some ?rs" using L by (auto simp: list_all2_conv_all_nth in_set_conv_nth)
    moreover have "WhenAll_results (wa_mTasks s) = Some (all_or_first_error ?rs)"
      by (rule WhenAll_results_spec [OF list_all2_mono [OF L]]) simp
    ultimately show ?thesis by blast
  qed
  show "\<exists>k<n. wt_point (wa_mTasks s ! k) \<noteq> TNotified" if "wa_pc s = WSuspended"
    using J(6) [OF that] J(1) by (auto simp: wa_pending_def filter_empty_conv in_set_conv_nth)
  show "\<exists>s'. wa_await (wa_pc s) s = Some s'" if "wa_pc s \<noteq> WSuspended \<and> wa_pc s \<noteq> WContinue" using wa_await_ok [OF I] that by blast
  show "\<exists>s'. wa_notify k s = Some s'" if "k < n \<and> wt_point (wa_mTasks s ! k) = TFinal" for k using wa_notify_ok [OF I] that by blast
qed

theorem WhenAll_continues_once_witness:
  "\<exists>s. wa_program wa_demo (WhenAllReady 2) = Some s \<and> wa_pc s = WContinue \<and> WhenAll_results (wa_mTasks s) = Some (Inr [4, 5]) \<and> wa_resumes s \<le> 1"
proof -
  obtain s where s: "wa_program wa_demo (WhenAllReady 2) = Some s" "wa_pc s = WContinue" "map wt_ended (wa_mTasks s) = [Some (Inr 4), Some (Inr 5)]"
    using wa_demo_run by (elim exE conjE)
  have n: "(2 :: nat) < 2 ^ 64 - 1" by simp
  note P = WhenAll_continues_once [OF wa_program_reach [OF wa_reach.start s(1)] n]
  obtain rs where rs: "map wt_ended (wa_mTasks s) = map Some rs" "WhenAll_results (wa_mTasks s) = Some (all_or_first_error rs)"
    using P [THEN conjunct2, THEN conjunct1, THEN mp, OF s(2)] by (elim exE conjE)
  have "map Some rs = map Some [Inr 4, Inr 5]" using rs(1) s(3) by simp
  then have "rs = [Inr 4, Inr 5]" by (simp only: inj_map_eq_map [OF inj_Some])
  then have "WhenAll_results (wa_mTasks s) = Some (Inr [4, 5])" unfolding rs(2) by (simp add: all_or_first_error_def)
  then show ?thesis using P [THEN conjunct1] s(1,2) by (intro exI [of _ s] conjI)
qed

end
