(* ===== verification/Coroutine_Task.thy ===== *)
theory Coroutine_Task
  imports Prelude
begin

text \<open>
  The lazy coroutine type Task of \<^verbatim>\<open>src/async/coroutine/task.h\<close> (BasePromise, TaskPromise, Task) and SyncWait with
  WaitableTask and CoroutineNotifier (\<^verbatim>\<open>src/async/coroutine/coroutine_waitable_task.h\<close>,
  \<^verbatim>\<open>coroutine_notifier.h\<close>).

  The bodies of coroutines are not part of the repository: a body returns, throws, or awaits a Task (a
  fresh one, or an empty one) and goes on with what the await expression yields, a value or an exception.
  The machine below runs the frames of these coroutines by the transfers of control that
  await_suspend and final_suspend ask for. \<open>None\<close> is a failed assert, a resume of a coroutine that is not
  suspended, or an access to a destroyed frame.
\<close>

subsection \<open>Bodies\<close>

datatype 'a co =
    CoReturn 'a
  | CoThrow string
  | CoAwait "'a co" "string + 'a \<Rightarrow> 'a co"
  | CoAwaitEmpty "string + 'a \<Rightarrow> 'a co"

definition empty_task_error :: string where
  "empty_task_error = ''empty coroutine is not accepted!''"

text \<open>The meaning of a body in direct style: awaiting a task is calling it.\<close>

primrec co_eval :: "'a co \<Rightarrow> string + 'a" where
  "co_eval (CoReturn x) = Inr x"
| "co_eval (CoThrow e) = Inl e"
| "co_eval (CoAwait t k) = (co_eval \<circ> k) (co_eval t)"
| "co_eval (CoAwaitEmpty k) = co_eval (k (Inl empty_task_error))"

subsection \<open>TaskPromise\<close>

datatype ResultType = kEmpty | kAvaliable | kException

text \<open>A coroutine handle: a Task by its address, or the coroutine of SyncWait.\<close>

datatype handle = HTask nat | HSync

record 'a TaskPromise =
  tp_mContinuation :: "handle option"
  tp_mResultType :: ResultType
  tp_mValue :: "'a option"
  tp_mException :: "string option"

definition TaskPromise_new :: "'a TaskPromise" where
  "TaskPromise_new = \<lparr>tp_mContinuation = None, tp_mResultType = kEmpty, tp_mValue = None, tp_mException = None\<rparr>"

definition SetContinuation :: "handle \<Rightarrow> 'a TaskPromise \<Rightarrow> 'a TaskPromise" where
  "SetContinuation c p = p\<lparr>tp_mContinuation := Some c\<rparr>"

definition tp_unhandled_exception :: "string \<Rightarrow> 'a TaskPromise \<Rightarrow> 'a TaskPromise" where
  "tp_unhandled_exception e p = p\<lparr>tp_mException := Some e, tp_mResultType := kException\<rparr>"

definition tp_return_value :: "'a \<Rightarrow> 'a TaskPromise \<Rightarrow> 'a TaskPromise" where
  "tp_return_value x p = p\<lparr>tp_mValue := Some x, tp_mResultType := kAvaliable\<rparr>"

definition tp_get :: "'a TaskPromise \<Rightarrow> (string + 'a) option" where
  "tp_get p =
     (if tp_mResultType p = kException then map_option Inl (tp_mException p)
      else if tp_mResultType p = kAvaliable then map_option Inr (tp_mValue p)
      else None)"

subsection \<open>Frames\<close>

text \<open>A frame is suspended at initial_suspend, suspended in an await of a Task with the rest of the body,
  running, or suspended at final_suspend.\<close>

datatype 'a point = PInitial "'a co" | PAwait nat "string + 'a \<Rightarrow> 'a co" | PRunning | PFinal

record 'a frame =
  fr_point :: "'a point"
  fr_promise :: "'a TaskPromise"

text \<open>Control: a frame runs its body, a handle is about to be resumed, or control is back at SyncWait.\<close>

datatype 'a control = Running nat "'a co" | Transfer "handle option" | Returned

text \<open>The coroutine of make_waitable_task and the event of SyncWait.\<close>

record 'a sync_wait =
  sw_frames :: "nat \<Rightarrow> 'a frame option"
  sw_fresh :: nat
  sw_control :: "'a control"
  sw_awaited :: nat
  sw_mData :: "'a option"
  sw_mException :: "string option"
  sw_mIsSet :: bool

definition CoroutineNotifier_Set :: "'a sync_wait \<Rightarrow> 'a sync_wait" where
  "CoroutineNotifier_Set s = (if sw_mIsSet s then s else s\<lparr>sw_mIsSet := True\<rparr>)"

definition fr_put :: "nat \<Rightarrow> 'a point \<Rightarrow> 'a TaskPromise \<Rightarrow> 'a sync_wait \<Rightarrow> 'a sync_wait" where
  "fr_put f c p s = s\<lparr>sw_frames := (sw_frames s)(f \<mapsto> \<lparr>fr_point = c, fr_promise = p\<rparr>)\<rparr>"

text \<open>final_suspend of a Task: await_suspend answers the continuation.\<close>

definition Task_final :: "nat \<Rightarrow> 'a TaskPromise \<Rightarrow> 'a sync_wait \<Rightarrow> 'a sync_wait" where
  "Task_final f p s = (fr_put f PFinal p s)\<lparr>sw_control := Transfer (tp_mContinuation p)\<rparr>"

text \<open>The call of a coroutine function: a frame with a new promise, at initial_suspend.\<close>

definition Task_call :: "'a co \<Rightarrow> 'a sync_wait \<Rightarrow> nat \<times> 'a sync_wait" where
  "Task_call t s = (sw_fresh s, (fr_put (sw_fresh s) (PInitial t) TaskPromise_new s)\<lparr>sw_fresh := sw_fresh s + 1\<rparr>)"

text \<open>co_await of a Task: await_ready, then await_suspend (SetContinuation, transfer to the task). A task
  at final_suspend is ready.\<close>

definition Task_await :: "nat \<Rightarrow> handle \<Rightarrow> 'a sync_wait \<Rightarrow> 'a sync_wait option" where
  "Task_await g awaitingCoroutine s = (case sw_frames s g of
      None \<Rightarrow> None
    | Some fr \<Rightarrow> (case fr_point fr of PFinal \<Rightarrow> Some (s\<lparr>sw_control := Transfer (Some awaitingCoroutine)\<rparr>)
        | _ \<Rightarrow> Some ((fr_put g (fr_point fr) (SetContinuation awaitingCoroutine (fr_promise fr)) s)\<lparr>sw_control := Transfer (Some (HTask g))\<rparr>)))"

text \<open>await_resume of a Task: get of its promise.\<close>

definition Task_await_resume :: "nat \<Rightarrow> 'a sync_wait \<Rightarrow> (string + 'a) option" where
  "Task_await_resume g s = Option.bind (sw_frames s g) (\<lambda>fr. tp_get (fr_promise fr))"

text \<open>The destructor of the temporary Task at the end of the await expression.\<close>

definition Task_destroy :: "nat \<Rightarrow> 'a sync_wait \<Rightarrow> 'a sync_wait" where
  "Task_destroy g s = s\<lparr>sw_frames := (sw_frames s)(g := None)\<rparr>"

text \<open>make_waitable_task after its await: yield_value or unhandled_exception, then final_suspend sets the
  event and control returns to SyncWait.\<close>

definition WaitableTask_final :: "string + 'a \<Rightarrow> 'a sync_wait \<Rightarrow> 'a sync_wait" where
  "WaitableTask_final r s = (CoroutineNotifier_Set
     (case r of Inr x \<Rightarrow> s\<lparr>sw_mData := Some x\<rparr> | Inl e \<Rightarrow> s\<lparr>sw_mException := Some e\<rparr>))\<lparr>sw_control := Returned\<rparr>"

definition WaitableTask_get :: "'a sync_wait \<Rightarrow> (string + 'a) option" where
  "WaitableTask_get s = (case sw_mException s of Some e \<Rightarrow> Some (Inl e) | None \<Rightarrow> map_option Inr (sw_mData s))"

subsection \<open>Steps\<close>

fun co_run :: "nat \<Rightarrow> 'a co \<Rightarrow> 'a sync_wait \<Rightarrow> 'a sync_wait option" where
  "co_run f (CoReturn x) s = map_option (\<lambda>fr. Task_final f (tp_return_value x (fr_promise fr)) s) (sw_frames s f)"
| "co_run f (CoThrow e) s = map_option (\<lambda>fr. Task_final f (tp_unhandled_exception e (fr_promise fr)) s) (sw_frames s f)"
| "co_run f (CoAwait t k) s = Option.bind (sw_frames s f) (\<lambda>fr.
     case Task_call t s of (g, s1) \<Rightarrow> Task_await g (HTask f) (fr_put f (PAwait g k) (fr_promise fr) s1))"
| "co_run f (CoAwaitEmpty k) s = Some (s\<lparr>sw_control := Running f (k (Inl empty_task_error))\<rparr>)"

fun co_resume :: "handle \<Rightarrow> 'a sync_wait \<Rightarrow> 'a sync_wait option" where
  "co_resume (HTask h) s = Option.bind (sw_frames s h) (\<lambda>fr.
     case fr_point fr of
       PInitial c \<Rightarrow> Some ((fr_put h PRunning (fr_promise fr) s)\<lparr>sw_control := Running h c\<rparr>)
     | PAwait g k \<Rightarrow> map_option (\<lambda>r. (fr_put h PRunning (fr_promise fr) (Task_destroy g s))\<lparr>sw_control := Running h (k r)\<rparr>) (Task_await_resume g s)
     | _ \<Rightarrow> None)"
| "co_resume HSync s = map_option (\<lambda>r. WaitableTask_final r s) (Task_await_resume (sw_awaited s) s)"

definition sw_step :: "'a sync_wait \<Rightarrow> 'a sync_wait option" where
  "sw_step s = (case sw_control s of
      Running f c \<Rightarrow> co_run f c s
    | Transfer (Some h) \<Rightarrow> co_resume h s
    | _ \<Rightarrow> None)"

fun sw_run :: "nat \<Rightarrow> 'a sync_wait \<Rightarrow> 'a sync_wait option" where
  "sw_run 0 s = Some s"
| "sw_run (Suc n) s = Option.bind (sw_step s) (sw_run n)"

text \<open>SyncWait of a Task with body \<open>c\<close>: the task is called, the waitable task is started and awaits it.\<close>

definition SyncWait :: "'a co \<Rightarrow> 'a sync_wait option" where
  "SyncWait c = (case Task_call c \<lparr>sw_frames = Map.empty, sw_fresh = 0, sw_control = Returned, sw_awaited = 0,
      sw_mData = None, sw_mException = None, sw_mIsSet = False\<rparr> of (g, s) \<Rightarrow> Task_await g HSync (s\<lparr>sw_awaited := g\<rparr>))"

subsection \<open>Running a body\<close>

lemma sw_run_add: "sw_run m s = Some s1 \<Longrightarrow> sw_run n s1 = Some s2 \<Longrightarrow> sw_run (m + n) s = Some s2"
  by (induction m arbitrary: s) (auto simp: bind_eq_Some_conv)


text \<open>The promise that a body leaves behind.\<close>

definition tp_complete :: "string + 'a \<Rightarrow> 'a TaskPromise \<Rightarrow> 'a TaskPromise" where
  "tp_complete r p = (case r of Inr x \<Rightarrow> tp_return_value x p | Inl e \<Rightarrow> tp_unhandled_exception e p)"

lemma tp_get_complete: "tp_get (tp_complete r p) = Some r"
  by (cases r) (simp_all add: tp_get_def tp_complete_def tp_return_value_def tp_unhandled_exception_def)

lemma tp_complete_continuation: "tp_mContinuation (tp_complete r p) = tp_mContinuation p"
  by (cases r) (simp_all add: tp_complete_def tp_return_value_def tp_unhandled_exception_def)

definition fresh_ok :: "'a sync_wait \<Rightarrow> bool" where
  "fresh_ok s \<longleftrightarrow> (\<forall>g. sw_fresh s \<le> g \<longrightarrow> sw_frames s g = None)"

text \<open>A running body gets to its final suspend point with the outcome of the direct-style meaning, the frames
  it made are destroyed and no other frame has changed.\<close>

lemma co_run_completes:
  fixes s :: "'a sync_wait"
  assumes "sw_control s = Running f c" "sw_frames s f = Some \<lparr>fr_point = PRunning, fr_promise = p\<rparr>" "fresh_ok s"
  shows "\<exists>n m. sw_run n s = Some ((Task_final f (tp_complete (co_eval c) p) s)\<lparr>sw_fresh := m\<rparr>) \<and> sw_fresh s \<le> m"
  using assms
proof (induction c arbitrary: s f p)
  case (CoReturn x)
  then show ?case by (intro exI [of _ 1] exI [of _ "sw_fresh s"]) (simp add: sw_step_def tp_complete_def Task_final_def fr_put_def)
next
  case (CoThrow e)
  then show ?case by (intro exI [of _ 1] exI [of _ "sw_fresh s"]) (simp add: sw_step_def tp_complete_def Task_final_def fr_put_def)
next
  case (CoAwaitEmpty k)
  let ?s = "s\<lparr>sw_control := Running f (k (Inl empty_task_error))\<rparr>"
  obtain n m where n: "sw_run n ?s = Some ((Task_final f (tp_complete (co_eval (k (Inl empty_task_error))) p) ?s)\<lparr>sw_fresh := m\<rparr>)" "sw_fresh s \<le> m"
    using CoAwaitEmpty.IH [OF rangeI, of ?s f "Inl empty_task_error" p] CoAwaitEmpty.prems by (auto simp: fresh_ok_def)
  then show ?case using CoAwaitEmpty.prems(1)
    by (intro exI [of _ "Suc n"] exI [of _ m]) (simp add: sw_step_def Task_final_def fr_put_def)
next
  case (CoAwait t k)
  define g where "g = sw_fresh s"
  define q :: "'a TaskPromise" where "q = SetContinuation (HTask f) TaskPromise_new"
  have gf: "g \<noteq> f" using CoAwait.prems(2,3) by (auto simp: fresh_ok_def g_def)
  define frames where "frames = (sw_frames s)(f \<mapsto> \<lparr>fr_point = PAwait g k, fr_promise = p\<rparr>)"
  define s1 where "s1 = s\<lparr>sw_frames := frames(g \<mapsto> \<lparr>fr_point = PRunning, fr_promise = q\<rparr>), sw_fresh := g + 1, sw_control := Running g t\<rparr>"
  have r1: "sw_run 2 s = Some s1"
    using CoAwait.prems(1,2) gf
    by (simp add: numeral_2_eq_2 sw_step_def Task_call_def fr_put_def Task_await_def g_def [symmetric] s1_def frames_def q_def fun_upd_twist)
  have f1: "fresh_ok s1" using CoAwait.prems(2,3) by (auto simp: fresh_ok_def s1_def g_def frames_def)
  obtain n1 m1 where n1: "sw_run n1 s1 = Some ((Task_final g (tp_complete (co_eval t) q) s1)\<lparr>sw_fresh := m1\<rparr>)" "g + 1 \<le> m1"
    using CoAwait.IH(1) [of s1 g q] f1 by (auto simp: s1_def)
  define r where "r = co_eval t"
  define s2 where "s2 = s\<lparr>sw_fresh := m1, sw_control := Running f (k r)\<rparr>"
  have g0: "sw_frames s g = None" using CoAwait.prems(3) by (simp add: fresh_ok_def g_def)
  have restore: "frames(g := None, f \<mapsto> \<lparr>fr_point = PRunning, fr_promise = p\<rparr>) = sw_frames s"
    using CoAwait.prems(2) gf g0 by (auto simp: frames_def fun_eq_iff)
  have r2: "sw_run 1 ((Task_final g (tp_complete r q) s1)\<lparr>sw_fresh := m1\<rparr>) = Some s2"
    using gf restore by (simp add: sw_step_def Task_final_def tp_complete_continuation fr_put_def q_def SetContinuation_def s1_def frames_def
        Task_await_resume_def tp_get_complete Task_destroy_def s2_def)
  have f2: "fresh_ok s2" using CoAwait.prems(3) n1(2) by (auto simp: fresh_ok_def s2_def g_def)
  obtain n2 m2 where n2: "sw_run n2 s2 = Some ((Task_final f (tp_complete (co_eval (k r)) p) s2)\<lparr>sw_fresh := m2\<rparr>)" "m1 \<le> m2"
    using CoAwait.IH(2) [OF rangeI, of s2 f r p] f2 CoAwait.prems(2) by (auto simp: s2_def)
  have "sw_run (2 + (n1 + (1 + n2))) s = Some ((Task_final f (tp_complete (co_eval (k r)) p) s2)\<lparr>sw_fresh := m2\<rparr>)"
    by (rule sw_run_add [OF r1 sw_run_add [OF n1(1) [folded r_def] sw_run_add [OF r2 n2(1)]]])
  then show ?case using n1(2) n2(2)
    by (intro exI [of _ "2 + (n1 + (1 + n2))"] exI [of _ m2]) (simp add: Task_final_def fr_put_def s2_def r_def g_def)
qed


subsection \<open>Properties\<close>

text \<open>
  C39. For every coroutine body, however deep its awaits are nested, SyncWait
  returns after finitely many transfers of control, with the event set, and yields exactly the value or
  the exception of the body in direct style, where awaiting a task is calling it and awaiting an empty
  task throws; no step fails, and of all frames only that of the awaited task is left.
\<close>

theorem SyncWait_equals_direct_style:
  "\<exists>s0 n s. SyncWait c = Some s0 \<and> sw_run n s0 = Some s \<and> sw_control s = Returned \<and> sw_mIsSet s \<and>
     WaitableTask_get s = Some (co_eval c) \<and> dom (sw_frames s) = {0}"
proof -
  define q :: "'a TaskPromise" where "q = SetContinuation HSync TaskPromise_new"
  define s1 :: "'a sync_wait" where "s1 = \<lparr>sw_frames = [0 \<mapsto> \<lparr>fr_point = PRunning, fr_promise = q\<rparr>], sw_fresh = 1, sw_control = Running 0 c,
    sw_awaited = 0, sw_mData = None, sw_mException = None, sw_mIsSet = False\<rparr>"
  obtain s0 where s0: "SyncWait c = Some s0" "sw_run 1 s0 = Some s1"
    by (simp add: SyncWait_def Task_call_def Task_await_def fr_put_def sw_step_def s1_def q_def)
  obtain n m where n: "sw_run n s1 = Some ((Task_final 0 (tp_complete (co_eval c) q) s1)\<lparr>sw_fresh := m\<rparr>)"
    using co_run_completes [of s1 0 c q] by (auto simp: s1_def fresh_ok_def)
  define s where "s = WaitableTask_final (co_eval c) ((Task_final 0 (tp_complete (co_eval c) q) s1)\<lparr>sw_fresh := m\<rparr>)"
  have "sw_run 1 ((Task_final 0 (tp_complete (co_eval c) q) s1)\<lparr>sw_fresh := m\<rparr>) = Some s"
    by (simp add: sw_step_def Task_final_def tp_complete_continuation q_def SetContinuation_def fr_put_def s1_def
        Task_await_resume_def tp_get_complete s_def)
  then have "sw_run (1 + (n + 1)) s0 = Some s" by (rule sw_run_add [OF s0(2) sw_run_add [OF n]])
  moreover have "sw_control s = Returned \<and> sw_mIsSet s \<and> WaitableTask_get s = Some (co_eval c) \<and> dom (sw_frames s) = {0}"
    by (cases "co_eval c") (simp_all add: s_def WaitableTask_final_def CoroutineNotifier_Set_def WaitableTask_get_def Task_final_def fr_put_def s1_def)
  ultimately show ?thesis using s0(1) by blast
qed

end
