(* ===== verification/Spec2Isabelle.thy ===== *)
theory Spec2Isabelle
  imports Task_Queue Task_Deque Event_Count Task_Priority_Deque Work_Queues Dynamic_Threads Task_Graph Async_System
    Coroutine_Pool Concurrent_Vector Latch Host_Context Graph_Limits Single_Threaded Shared_Task_Objects When_All Coroutine_Task
begin

text \<open>
  \<^bold>\<open>A verification library for async_lib.\<close>

  \<^bold>\<open>The program.\<close> async_lib runs asynchronous work on thread pools. Its parts, all under
  \<^verbatim>\<open>src/async\<close>, are

  \<^item> the bounded task queues of the workers: \<^verbatim>\<open>concurrent/task_queue.h\<close>, \<^verbatim>\<open>task_deque.h\<close>,
    \<^verbatim>\<open>task_priority_queue.h\<close>;
  \<^item> the parking of idle workers: \<^verbatim>\<open>concurrent/event_count.h\<close>;
  \<^item> the thread pools: \<^verbatim>\<open>concurrent/work_queue_base.h\<close> with the derived pools
    \<^verbatim>\<open>non_blocking_work_queue.h\<close> and \<^verbatim>\<open>blocking_work_queue.h\<close>; \<^verbatim>\<open>support/latch.h\<close>, on which Await blocks;
    the queue without threads, \<^verbatim>\<open>context/single_threaded_work_queue.cpp\<close>;
  \<^item> intrusive reference counts: \<^verbatim>\<open>support/ref_count.h\<close>;
  \<^item> the reference-counted values that computations exchange: \<^verbatim>\<open>context/async_value.h\<close>, \<^verbatim>\<open>async_value.cpp\<close>
    and the part of \<^verbatim>\<open>context/host_context.cpp\<close> that creates and awaits them; their type table uses
    \<^verbatim>\<open>support/concurrent_vector.h\<close>;
  \<^item> the graphs that run on the pools: \<^verbatim>\<open>runtime/task_graph.*\<close> (static dependencies between closures) and
    \<^verbatim>\<open>runtime/graph.*\<close> (dataflow between kernels, by way of \<^verbatim>\<open>context/kernel_frame.h\<close> and the async values);
  \<^item> the coroutine library: its own queues and pool (\<^verbatim>\<open>coroutine/coroutine_task_*\<close>,
    \<^verbatim>\<open>coroutine_thread_pool.*\<close>), the task types (\<^verbatim>\<open>task.h\<close>, \<^verbatim>\<open>shared_task.h\<close>, \<^verbatim>\<open>coroutine_waitable_task.h\<close>)
    and WhenAll.

  A client submits a closure to a pool; AddTask puts it into the deque of a worker and, when the spinning
  state says so, wakes a worker through EventCount; workers take from their own queue and steal from the
  others. Graph executors are clients of the pools and of the async values: a kernel gets ready when its
  last argument does, and runs either on the thread that made it ready or as a task.

  \<^bold>\<open>Theories and sources.\<close>

  \<^item> \<^verbatim>\<open>Prelude\<close>: machine integers, masks and bit fields, cyclic indices, counting lemmas, and the collections
    of rewrite rules that the other theories extend.
  \<^item> \<^verbatim>\<open>Queue_Interfaces\<close>: what the pools rely on, as list specifications and the locales \<open>bounded_fifo\<close>,
    \<open>bounded_deque\<close> (with a sublocale into the former) and \<open>priority_deque\<close>; refinement and conservation of
    tasks are proved once, there.
  \<^item> \<^verbatim>\<open>Task_Queue\<close>, \<^verbatim>\<open>Task_Deque\<close>, \<^verbatim>\<open>Task_Priority_Deque\<close>: one definition per member function, cursors and
    sequence numbers as words of their width. The compare-exchange loops are partial functions into
    option, so that spinning for ever is a value. Each theory has an invariant, an abstraction to a list, and
    an interpretation of its interface. Results: any sequence of calls answers as the bounded list;
    PopBackHalf takes the older half; Flush ends. The 32-bit sequence numbers of TaskQueue wrap after
    \<open>2 ^ 32 - 1\<close> tasks, and PopBack then spins for ever on the empty queue.
  \<^item> \<^verbatim>\<open>Event_Count\<close>: the 64-bit state word and every interleaving of Prewait, CommitWait, CancelWait and
    Notify, by refinement of an abstract counter system. No assert fails and no wake-up is lost: Notify always
    takes one thread, notifyAll every thread, off those that wait, and who is notified does not sleep on.
  \<^item> \<^verbatim>\<open>Work_Stealing\<close>, \<^verbatim>\<open>Work_Queue_Base\<close>, \<^verbatim>\<open>Work_Queues\<close>: the coprime walk over the queues, the spinning
    state, and the pool as a step relation over all workers and submitters, in locales (\<open>stealing_queue\<close>,
    \<open>work_queue_derived\<close>) that both derived pools interpret. When all workers of a pool that was not cancelled sleep, every queue is
    empty.
  \<^item> \<^verbatim>\<open>Dynamic_Threads\<close>: RunBlockingTask and the dynamic threads of BlockingWorkQueue as interleavings of
    critical sections, with the calls of Quiesce on mThreadExitedCV, spurious wake-ups included; the counters
    are exact, and a call of Quiesce that no other overlaps drains and returns. Of two overlapping calls one
    may be left asleep.
  \<^item> \<^verbatim>\<open>Task_Graph\<close>: construction and execution of a TaskGraph; nodes run once and in dependency order, a run
    of an acyclic graph completes. The builder is a locale, interpreted on BuildGraph.
  \<^item> \<^verbatim>\<open>Async_Value\<close>, \<^verbatim>\<open>Async_System\<close>: a store of async values, then every interleaving of clients and of the
    RunWaiters calls they cause. Reference counts are exact, waiters run once and are never forgotten,
    available values are stable (an error may only get the location it lacks), nothing destroyed is touched.
  \<^item> \<^verbatim>\<open>Ref_Count\<close>: ReferenceCounted and RCReference. The locale \<open>counted\<close> states what a reference counter promises
    and proves once that counters are the numbers of references; it is interpreted on ReferenceCounted and,
    in \<^verbatim>\<open>Shared_Task_Objects\<close>, on the promise of SharedTask.
  \<^item> \<^verbatim>\<open>Single_Threaded\<close>: SingleThreadedWorkQueue and the registry of work queue factories. Quiesce is one FIFO
    queue; Await, with its AndThen closures, its counter and its condition variable, keeps the order of the tasks
    in every interleaving and misses no wake-up, up to one defect.
  \<^item> \<^verbatim>\<open>Host_Context\<close>: cancellation and restart, the table of contexts behind HostContextPtr, shared contexts.
  \<^item> \<^verbatim>\<open>Concurrent_Vector\<close>, \<^verbatim>\<open>Latch\<close>: packed 64-bit states, with readers and waiters interleaved; the waiters of a
    latch sleep on its condition variable.
  \<^item> \<^verbatim>\<open>Async_Graph\<close>: nodes, BuildGraph, SubGraph, Dump and Load, the kernel registry. What is dumped is loaded
    again under conditions on the names; a node with the default kernel name is not.
  \<^item> \<^verbatim>\<open>Kernel_Frame\<close>: the frame of a kernel. \<^verbatim>\<open>Graph_Executor\<close>: GraphExecutor as activations with a program
    point each. \<^verbatim>\<open>Graph_Run\<close>, \<^verbatim>\<open>Graph_Steps\<close>, \<^verbatim>\<open>Graph_Execution\<close>: the invariant (which activation owes which
    decrement and owns which reference) and its preservation by every step. \<^verbatim>\<open>Graph_Build\<close>: BuildGraph
    establishes what the executor needs. \<^verbatim>\<open>Graph_Correct\<close>, \<^verbatim>\<open>Graph_Properties\<close>: a kernel runs once and with
    all arguments available, no step fails, a run terminates and is complete, errors skip kernels. These hold
    for the graphs, calls and clients that the executor supports: \<open>good_nodes\<close> (one node without inputs, results
    everywhere, no name produced twice or used twice by one node, every input produced, every argument used),
    \<open>gx_call_ok\<close> (the caller owns the arguments and the first is available) and \<open>env_ok\<close> (clients keep what the
    executor owns, returned results that are still pending included). The code checks none of these;
    \<^verbatim>\<open>Graph_Limits\<close> runs it where they fail: a kernel runs with an unavailable argument, too early or never, a
    reference is released twice, a destroyed value is used.
  \<^item> \<^verbatim>\<open>Coroutine_Pool\<close>: the coroutine queues answer as the task queues do, by the locale \<open>queue_erasure\<close>; no
    coroutine is lost in the pool.
  \<^item> \<^verbatim>\<open>Shared_Task\<close>, \<^verbatim>\<open>Shared_Task_Objects\<close>: the lock-free waiter list of SharedTask in every interleaving, and
    its constructors and assignments on several variables.
  \<^item> \<^verbatim>\<open>When_All\<close>: the counter of WhenAll, its tasks and the coroutine that awaits them.
  \<^item> \<^verbatim>\<open>Coroutine_Task\<close>: Task and SyncWait, as a machine of coroutine frames that computes what the same bodies
    compute in direct style.

  \<^bold>\<open>How code is modelled.\<close> A struct is a record with the names of the source, prefixed by its class; an enum is
  a datatype; \<open>u16\<close>, \<open>u32\<close>, \<open>u64\<close> are words. \<open>None\<close> is a failed assert, undefined behaviour or an access to
  a destroyed object, and, for the loops defined by \<^theory_text>\<open>partial_function\<close>, not returning. Concurrency is
  interleaving of steps, each of which is one atomic access or one critical section; memory is
  sequentially consistent, as the fences and orderings of the sources intend. Coarser steps are: one call of
  TaskQueue, TaskDeque or a priority deque; one successful compare-exchange of EventCount with the loads before it
  and, in Notify, the walk of Unpark over the waiters it took off the stack (the ABA counter of the state word
  is kept but never needed); in the pools the Empty test and push of a worker's own submission, the two
  accesses of the destructor and the writes of Cancel; ForwardTo and the registration of RunWhenReady on async
  values; the run of a kernel. Definitions compute, so the examples beside the properties are
  evaluated.

  \<^bold>\<open>Parameters.\<close> Code outside the repository is an argument of the definitions: the iteration order of an
  unordered map (any enumeration of its keys), the capacity that \<^verbatim>\<open>vector::reserve\<close> yields (at least what was
  asked for), the protobuf codec (decoding inverts encoding for messages whose strings are UTF-8), the kernels of a graph (lists of frame
  operations that obey the rules of the frame), the bodies of coroutines and tasks.

  \<^bold>\<open>Bounds and fuel.\<close> Reference counts have 32 bits: steps that add references assume that they do not
  overflow (\<open>refs_fit\<close>, \<open>refs_room\<close>), which is the limit of the code itself. EventCount assumes fewer than
  \<open>2 ^ 14 - 1\<close> threads, as its constructor asserts. The refinement of TaskQueue holds for \<open>2 ^ 32 - 1\<close> pushes,
  exactly up to the wrap-around bug. \<open>sw_run\<close> and similar step counters are existentially bounded: the
  theorems state that some number of steps reaches the result, and the machines are deterministic.

  \<^bold>\<open>Not modelled.\<close> Starting and joining of operating-system threads and thread-local storage
  (\<^verbatim>\<open>support/thread_local.h\<close>); raw allocation and the buffers built on it (\<^verbatim>\<open>context/host_allocator.*\<close>,
  \<^verbatim>\<open>host_buffer.*\<close>, \<^verbatim>\<open>support/alloc.*\<close>, \<^verbatim>\<open>rc_array.h\<close>); type-level templates (\<^verbatim>\<open>support/type_traits.h\<close>,
  \<^verbatim>\<open>unique_function.h\<close>, \<^verbatim>\<open>coroutine/coroutine_traits.h\<close>, \<^verbatim>\<open>fmap.h\<close>), which have no run-time state; wrappers
  that forward to modelled classes (\<^verbatim>\<open>context/multi_threaded_work_queue.cpp\<close>, \<^verbatim>\<open>async_value_ref.h\<close>, \<^verbatim>\<open>native_function.*\<close>, \<^verbatim>\<open>execution_context.h\<close>);
  tracing and log output (\<^verbatim>\<open>trace\<close>, DebugFn); the unfinished \<^verbatim>\<open>runtime/batch_task.h\<close>; the sample programs
  under \<^verbatim>\<open>src/tools\<close>, which are glue around an RPC library. Weak memory orderings are not modelled: a bug
  that only a missing fence shows is out of reach of these theorems. A graph kernel runs in one step of the
  executor, which is where its frame operations are sequential anyway.
\<close>

end
